(* ===== verification/Fulcrum_Prelude.thy ===== *)
theory Fulcrum_Prelude
  imports Main "HOL-Library.Word" "HOL-Library.List_Lexorder"
begin

text \<open>
  Shared vocabulary of the development: machine integers and bytes, results that carry the
  exception of the source as a value, stream parsers, the little and big endian byte order of
  the wire and disk formats, and the generic list and word lemmas the components use.
\<close>

unbundle bit_operations_syntax

section \<open>Types\<close>

type_synonym byte = "8 word"
type_synonym u16 = "16 word"
type_synonym u32 = "32 word"
type_synonym u64 = "64 word"
type_synonym bytes = "byte list"

text \<open>
  A fallible operation returns \<open>Inl e\<close> where the source throws and \<open>Inr x\<close> where it returns.
  A parser consumes a prefix of the stream; what is left is part of its result.
\<close>

type_synonym ('e, 'a) result = "'e + 'a"
type_synonym ('e, 'a) parser = "bytes \<Rightarrow> 'e + 'a \<times> bytes"

named_theorems codec_simps \<open>reading back what was written\<close>
named_theorems len_simps \<open>lengths of encodings\<close>

definition rbind :: "'e + 'a \<Rightarrow> ('a \<Rightarrow> 'e + 'b) \<Rightarrow> 'e + 'b" where
  "rbind r f = (case r of Inl e \<Rightarrow> Inl e | Inr x \<Rightarrow> f x)"

definition rguard :: "bool \<Rightarrow> 'e \<Rightarrow> 'e + unit" where
  "rguard b e = (if b then Inr () else Inl e)"

fun rmap :: "('a \<Rightarrow> 'e + 'b) \<Rightarrow> 'a list \<Rightarrow> 'e + 'b list" where
  "rmap f [] = Inr []"
| "rmap f (x # xs) = rbind (f x) (\<lambda>y. rbind (rmap f xs) (\<lambda>ys. Inr (y # ys)))"

definition p_return :: "'a \<Rightarrow> ('e, 'a) parser" where
  "p_return x s = Inr (x, s)"

definition p_fail :: "'e \<Rightarrow> ('e, 'a) parser" where
  "p_fail e s = Inl e"

definition p_then :: "('e, 'a) parser \<Rightarrow> ('a \<Rightarrow> ('e, 'b) parser) \<Rightarrow> ('e, 'b) parser" where
  "p_then p f s = (case p s of Inl e \<Rightarrow> Inl e | Inr (x, s') \<Rightarrow> f x s')"

lemma rbind_simps [simp]: "rbind (Inl e) f = Inl e" "rbind (Inr x) f = f x"
  by (simp_all add: rbind_def)

lemma rbind_Inr_iff: "rbind r f = Inr y \<longleftrightarrow> (\<exists>x. r = Inr x \<and> f x = Inr y)"
  by (cases r) simp_all

lemma rbind_Inl_iff: "rbind r f = Inl e \<longleftrightarrow> r = Inl e \<or> (\<exists>x. r = Inr x \<and> f x = Inl e)"
  by (cases r) simp_all

lemma rbind_cong [fundef_cong]:
  "r = r' \<Longrightarrow> (\<And>x. r' = Inr x \<Longrightarrow> f x = g x) \<Longrightarrow> rbind r f = rbind r' g"
  by (cases r') simp_all

lemma rguard_Inr [simp]: "rguard b e = Inr u \<longleftrightarrow> b"
  by (simp add: rguard_def)

lemma rguard_simps [simp]: "rguard True e = Inr ()" "rguard False e = Inl e"
  by (simp_all add: rguard_def)

lemma p_return_apply [simp]: "p_return x s = Inr (x, s)"
  by (simp add: p_return_def)

lemma p_fail_apply [simp]: "p_fail e s = Inl e"
  by (simp add: p_fail_def)

lemma p_then_Inr [simp]: "p s = Inr (x, s') \<Longrightarrow> p_then p f s = f x s'"
  by (simp add: p_then_def)

lemma p_then_Inl [simp]: "p s = Inl e \<Longrightarrow> p_then p f s = Inl e"
  by (simp add: p_then_def)

lemma p_then_Inr_iff:
  "p_then p f s = Inr y \<longleftrightarrow> (\<exists>x s'. p s = Inr (x, s') \<and> f x s' = Inr y)"
  by (auto simp: p_then_def split: sum.splits)

lemma rmap_all_Inr: "(\<And>x. x \<in> set xs \<Longrightarrow> f x = Inr (g x)) \<Longrightarrow> rmap f xs = Inr (map g xs)"
  by (induction xs) auto

lemma rmap_length: "rmap f xs = Inr ys \<Longrightarrow> length ys = length xs"
  by (induction xs arbitrary: ys) (auto simp: rbind_Inr_iff)

section \<open>Words of different widths\<close>

lemma unat_bound: "unat (x :: 'a::len word) < 2 ^ LENGTH('a)"
  by (rule unsigned_less)

lemma unat_ucast_up [simp]:
  assumes "LENGTH('a) \<le> LENGTH('b)"
  shows "unat (ucast (x :: 'a::len word) :: 'b::len word) = unat x"
proof -
  have "(2::nat) ^ LENGTH('a) \<le> 2 ^ LENGTH('b)" using assms by (intro power_increasing) auto
  then have "unat x < 2 ^ LENGTH('b)" by (rule less_le_trans[OF unsigned_less])
  then show ?thesis unfolding unsigned_ucast_eq by (simp only: take_bit_nat_eq_self)
qed

lemma unat_ucast_small: "unat (n :: 'b::len word) < 2 ^ LENGTH('a) \<Longrightarrow> unat (ucast n :: 'a::len word) = unat n"
  unfolding unsigned_ucast_eq by (simp only: take_bit_nat_eq_self)

lemma ucast_down_up:
  assumes "unat (n :: 'b::len word) < 2 ^ LENGTH('a)"
  shows "ucast (ucast n :: 'a::len word) = n"
proof (rule word_unat_eq_iff[THEN iffD2])
  show "unat (ucast (ucast n :: 'a word) :: 'b word) = unat n"
    unfolding unsigned_ucast_eq[of "ucast n :: 'a word"] unat_ucast_small[OF assms]
    by (rule take_bit_nat_eq_self) (rule unsigned_less)
qed

lemma take_bit_word_small: "unat (n :: 'a::len word) < 2 ^ k \<Longrightarrow> take_bit k n = n"
  unfolding word_unat_eq_iff unsigned_take_bit_eq by (simp only: take_bit_nat_eq_self)

lemma ucast_up_down [simp]:
  "LENGTH('a) \<le> LENGTH('b) \<Longrightarrow> ucast (ucast (x :: 'a::len word) :: 'b::len word) = x"
  by (rule bit_word_eqI) (auto simp: bit_simps)

section \<open>Byte order\<close>

text \<open>
  \<open>le_enc n w\<close> are the \<open>n\<close> low bytes of \<open>w\<close>, least significant first; this is what
  \<open>htole16/32/64\<close> followed by \<open>memcpy\<close> leaves in memory. \<open>be_enc\<close> is the same most significant
  first (\<open>htobe16/32/64\<close>).
\<close>

primrec le_enc :: "nat \<Rightarrow> 'a::len word \<Rightarrow> bytes" where
  "le_enc 0 w = []"
| "le_enc (Suc n) w = ucast w # le_enc n (drop_bit 8 w)"

primrec le_dec :: "bytes \<Rightarrow> 'a::len word" where
  "le_dec [] = 0"
| "le_dec (b # bs) = ucast b OR push_bit 8 (le_dec bs)"

definition be_enc :: "nat \<Rightarrow> 'a::len word \<Rightarrow> bytes" where
  "be_enc n w = rev (le_enc n w)"

definition be_dec :: "bytes \<Rightarrow> 'a::len word" where
  "be_dec bs = le_dec (rev bs)"

lemma length_le_enc [simp, len_simps]: "length (le_enc n w) = n"
  by (induction n arbitrary: w) auto

lemma length_be_enc [simp, len_simps]: "length (be_enc n w) = n"
  by (simp add: be_enc_def)

lemma bit_le_dec:
  "bit (le_dec bs :: 'a::len word) k \<longleftrightarrow>
     k < LENGTH('a) \<and> k div 8 < length bs \<and> bit (bs ! (k div 8)) (k mod 8)"
proof (induction bs arbitrary: k)
  case Nil
  then show ?case by simp
next
  case (Cons b bs)
  show ?case
  proof (cases "k < 8")
    case True
    then show ?thesis by (auto simp: bit_simps)
  next
    case False
    then obtain j where j: "k = j + 8" using le_Suc_ex[of 8 k] by (auto simp: add.commute)
    moreover have "(j + 8) div 8 = Suc (j div 8)" by simp
    moreover have "\<not> bit b k" using False by (simp add: bit_word.rep_eq)
    ultimately show ?thesis using Cons.IH[of j] by (auto simp: bit_simps)
  qed
qed

lemma nth_le_enc: "i < n \<Longrightarrow> le_enc n w ! i = ucast (drop_bit (8 * i) w)"
proof (induction n arbitrary: w i)
  case (Suc n)
  then show ?case by (cases i) (simp_all add: add.commute)
qed simp

lemma le_dec_le_enc:
  fixes w :: "'a::len word"
  shows "le_dec (le_enc n w) = take_bit (8 * n) w"
proof (rule bit_word_eqI)
  fix k assume k: "k < LENGTH('a)"
  have "8 * (k div 8) + k mod 8 = k" by simp
  moreover have "k div 8 < n \<longleftrightarrow> k < 8 * n" by auto
  ultimately show "bit (le_dec (le_enc n w) :: 'a word) k = bit (take_bit (8 * n) w) k"
    using k by (auto simp: bit_le_dec nth_le_enc bit_simps dest: bit_imp_le_length)
qed

lemma le_dec_le_enc_full [simp, codec_simps]:
  "LENGTH('a) \<le> 8 * n \<Longrightarrow> le_dec (le_enc n w) = (w :: 'a::len word)"
  by (simp add: le_dec_le_enc take_bit_word_eq_self)

lemma le_enc_le_dec:
  assumes "length bs = n" "8 * n \<le> LENGTH('a)"
  shows "le_enc n (le_dec bs :: 'a::len word) = bs"
proof (rule nth_equalityI)
  show "length (le_enc n (le_dec bs :: 'a word)) = length bs" using assms by simp
next
  fix i assume "i < length (le_enc n (le_dec bs :: 'a word))"
  then have i: "i < n" by simp
  show "le_enc n (le_dec bs :: 'a word) ! i = bs ! i"
  proof (rule bit_word_eqI)
    fix k assume "k < LENGTH(8)"
    then have k: "k < 8" by simp
    then have "(8 * i + k) div 8 = i" "(8 * i + k) mod 8 = k" by simp_all
    moreover have "8 * i + k < LENGTH('a)" using assms i k by linarith
    ultimately show "bit (le_enc n (le_dec bs :: 'a word) ! i) k = bit (bs ! i) k"
      using i k assms by (simp add: nth_le_enc bit_simps bit_le_dec)
  qed
qed

lemma be_dec_be_enc: "be_dec (be_enc n w) = take_bit (8 * n) (w :: 'a::len word)"
  by (simp add: be_dec_def be_enc_def le_dec_le_enc)

lemma be_dec_be_enc_full [simp, codec_simps]:
  "LENGTH('a) \<le> 8 * n \<Longrightarrow> be_dec (be_enc n w) = (w :: 'a::len word)"
  by (simp add: be_dec_def be_enc_def)

lemma be_enc_be_dec:
  "length bs = n \<Longrightarrow> 8 * n \<le> LENGTH('a) \<Longrightarrow> be_enc n (be_dec bs :: 'a::len word) = bs"
  by (simp add: be_dec_def be_enc_def le_enc_le_dec)

lemma and_255: "(x :: 'a::len word) AND 255 = take_bit 8 x"
proof -
  have "(255 :: 'a word) = mask 8" by (simp add: mask_eq_exp_minus_1)
  then show ?thesis by (simp add: take_bit_eq_mask)
qed

lemma ucast_take_bit8 [simp]: "(ucast (take_bit 8 (x :: 'a::len word)) :: byte) = ucast x"
  by (rule bit_word_eqI) (auto simp: bit_simps)

lemma be_enc_Suc: "be_enc (Suc n) w = be_enc n (drop_bit 8 w) @ [ucast w]"
  by (simp add: be_enc_def)

text \<open>Big endian encodings of one length are ordered as the numbers are.\<close>

lemma lex_append_same_length:
  fixes xs ys :: "'a::linorder list"
  assumes "length xs = length ys" "xs < ys"
  shows "xs @ us < ys @ vs"
  using assms by (induction xs ys rule: list_induct2) auto

lemma lex_append_prefix:
  fixes us vs :: "'a::linorder list"
  shows "us < vs \<Longrightarrow> xs @ us < xs @ vs"
  by (induction xs) auto

lemma be_enc_mono:
  fixes a b :: "'a::len word"
  assumes "a < b" "unat b < 2 ^ (8 * n)"
  shows "be_enc n a < be_enc n b"
  using assms
proof (induction n arbitrary: a b)
  case 0
  then show ?case by (simp add: word_less_nat_alt)
next
  case (Suc n)
  have db: "unat (drop_bit 8 b) < 2 ^ (8 * n)"
    using Suc.prems(2) unfolding unat_drop_bit_eq
    by (simp add: drop_bit_eq_div less_mult_imp_div_less power_add mult.commute)
  show ?case
  proof (cases "drop_bit 8 a < drop_bit 8 b")
    case True
    then have "be_enc n (drop_bit 8 a) < be_enc n (drop_bit 8 b)" using db by (rule Suc.IH)
    then show ?thesis by (simp add: be_enc_Suc lex_append_same_length)
  next
    case False
    have "unat (drop_bit 8 a) \<le> unat (drop_bit 8 b)"
      using Suc.prems(1) unfolding unat_drop_bit_eq word_less_nat_alt
      by (simp add: drop_bit_eq_div div_le_mono)
    then have e: "drop_bit 8 a = drop_bit 8 b"
      using False by (simp add: word_less_nat_alt word_unat_eq_iff)
    then have "unat a div 256 = unat b div 256"
      unfolding word_unat_eq_iff unat_drop_bit_eq by (simp add: drop_bit_eq_div)
    moreover have "unat a < unat b" using Suc.prems(1) by (simp add: word_less_nat_alt)
    ultimately have "unat a mod 256 < unat b mod 256" by (metis div_mult_mod_eq nat_add_left_cancel_less)
    then have "(ucast a :: byte) < ucast b"
      by (simp add: word_less_nat_alt unsigned_ucast_eq take_bit_eq_mod)
    then show ?thesis using e by (simp add: be_enc_Suc lex_append_prefix)
  qed
qed

text \<open>Assembling a number by or-ing shifted bytes, in either byte order.\<close>

lemma bit_fold_or:
  "bit (fold (\<lambda>i ret. ret OR f i) [0..<n] r) k \<longleftrightarrow> bit r k \<or> (\<exists>i<n. bit (f i :: 'a::len word) k)"
  by (induction n arbitrary: r) (auto simp: bit_or_iff less_Suc_eq)

lemma fold_or_le_dec:
  fixes bs :: bytes
  shows "fold (\<lambda>i ret. ret OR push_bit (i * 8) (ucast (bs ! i))) [0..<length bs] 0 =
           (le_dec bs :: 'a::len word)"
proof (rule bit_word_eqI)
  fix k assume k: "k < LENGTH('a)"
  have "(\<exists>i<length bs. i * 8 \<le> k \<and> bit (bs ! i) (k - i * 8)) \<longleftrightarrow>
        k div 8 < length bs \<and> bit (bs ! (k div 8)) (k mod 8)" (is "?l = ?r")
  proof
    assume ?l
    then obtain i where i: "i < length bs" "i * 8 \<le> k" "bit (bs ! i) (k - i * 8)" by blast
    then have "k - i * 8 < 8" using bit_imp_le_length by fastforce
    then have "k div 8 = i" "k mod 8 = k - i * 8" using i(2) by (auto simp: div_nat_eqI mod_nat_eqI)
    then show ?r using i by simp
  next
    assume ?r
    then show ?l
      by (intro exI[of _ "k div 8"]) (simp add: minus_div_mult_eq_mod)
  qed
  then show "bit (fold (\<lambda>i ret. ret OR push_bit (i * 8) (ucast (bs ! i))) [0..<length bs] 0 :: 'a word) k
      = bit (le_dec bs :: 'a word) k"
    using k by (auto simp: bit_fold_or bit_le_dec bit_simps)
qed

lemma fold_or_be_dec:
  fixes bs :: bytes
  shows "fold (\<lambda>i ret. ret OR push_bit ((length bs - i - 1) * 8) (ucast (bs ! i))) [0..<length bs] 0 =
           (be_dec bs :: 'a::len word)" (is "?f = _")
proof -
  have "?f = fold (\<lambda>i ret. ret OR push_bit (i * 8) (ucast (rev bs ! i))) [0..<length (rev bs)] 0"
  proof (rule bit_word_eqI)
    fix k
    have "(\<exists>i<length bs. P (length bs - i - 1) (bs ! i)) \<longleftrightarrow> (\<exists>i<length bs. P i (rev bs ! i))" for P
    proof
      assume "\<exists>i<length bs. P (length bs - i - 1) (bs ! i)"
      then obtain i where "i < length bs" "P (length bs - i - 1) (bs ! i)" by blast
      then show "\<exists>i<length bs. P i (rev bs ! i)"
        by (intro exI[of _ "length bs - i - 1"]) (simp add: rev_nth)
    next
      assume "\<exists>i<length bs. P i (rev bs ! i)"
      then obtain i where "i < length bs" "P i (rev bs ! i)" by blast
      then show "\<exists>i<length bs. P (length bs - i - 1) (bs ! i)"
        by (intro exI[of _ "length bs - i - 1"]) (simp add: rev_nth)
    qed
    from this[of "\<lambda>i b. bit (push_bit (i * 8) (ucast b) :: 'a word) k"]
    show "bit ?f k = bit (fold (\<lambda>i ret. ret OR push_bit (i * 8) (ucast (rev bs ! i)))
        [0..<length (rev bs)] 0 :: 'a word) k"
      by (simp add: bit_fold_or)
  qed
  then show ?thesis by (simp only: fold_or_le_dec be_dec_def)
qed

end
