(* ===== verification/VarInt_Codec.thy ===== *)
theory VarInt_Codec
  imports Fulcrum_Prelude
begin

text \<open>
  The self-delimiting integer encoding of \<open>src/VarInt.h\<close> (class template \<open>GenericVarInt\<close>,
  instantiated as \<open>VarInt\<close> and \<open>VarIntBE\<close>). The template parameter \<open>UseBE\<close> is the
  argument \<open>be\<close>; the integer type \<open>Int\<close> of the constructor and of \<open>value\<close> is the word type, whose
  width is a positive multiple of 8 of at most 64 bits (predicate \<open>int_width\<close>, the source's static
  assertions). Signed source integers are words read in two's complement, as the class itself
  converts them. Views are taken to be shorter than \<open>2 ^ 31\<close> bytes, where the conversion of their
  size to \<open>int\<close> is exact.
\<close>

section \<open>The class\<close>

datatype std_exc = invalid_argument | logic_error

datatype varint_error =
    Empty_array std_exc
  | Wrong_format std_exc
  | Unexpected_state
  | Overflow

record GenericVarInt =
  sz :: nat
  arr :: bytes

abbreviation maxBytes :: nat where "maxBytes \<equiv> 8"
abbreviation maxSize :: nat where "maxSize \<equiv> 9"
abbreviation b1max :: nat where "b1max \<equiv> 247"

text \<open>\<open>std::bit_width\<close>: the number of bits needed to write a number.\<close>

fun bit_width :: "nat \<Rightarrow> nat" where
  "bit_width n = (if n = 0 then 0 else Suc (bit_width (n div 2)))"

declare bit_width.simps [simp del]

definition byteView :: "GenericVarInt \<Rightarrow> bytes" where
  "byteView v = take (sz v) (arr v)"

definition validate :: "std_exc \<Rightarrow> bytes \<Rightarrow> bool \<Rightarrow> (varint_error, nat) result" where
  "validate exc b allowExtraBytesAtEnd =
     (if length b = 0 then Inl (Empty_array exc)
      else
        let payloadLen = unat (hd b) - b1max;
            lengthCheckOk = (if \<not> allowExtraBytesAtEnd then payloadLen + 1 = length b
                             else payloadLen + 1 \<le> length b)
        in if \<not> lengthCheckOk \<or> payloadLen > maxBytes then Inl (Wrong_format exc)
           else Inr payloadLen)"

definition varint_unchecked :: "bytes \<Rightarrow> GenericVarInt" where
  "varint_unchecked b =
     (let n = min maxSize (length b)
      in \<lparr> sz = n, arr = take n b @ replicate (maxSize - n) 0 \<rparr>)"

definition varint_nbytes :: "'a::len word \<Rightarrow> nat" where
  "varint_nbytes uval = (if uval = 0 then 1 else (bit_width (unat uval) + 7) div 8)"

definition varint_payload :: "bool \<Rightarrow> nat \<Rightarrow> 'a::len word \<Rightarrow> bytes" where
  "varint_payload be nbytes uval =
     map (\<lambda>i. ucast (drop_bit ((if \<not> be then i else nbytes - i - 1) * 8) uval AND 0xff)) [0..<nbytes]"

definition varint_make :: "bool \<Rightarrow> 'a::len word \<Rightarrow> (varint_error, GenericVarInt) result" where
  "varint_make be uval =
     (let nbytes = varint_nbytes uval; payload = varint_payload be nbytes uval
      in if nbytes > 1 \<or> unat uval > b1max then
           Inr \<lparr> sz = nbytes + 1,
                 arr = word_of_nat (b1max + nbytes) # payload @ replicate (maxSize - (nbytes + 1)) 0 \<rparr>
         else if nbytes = 1 \<and> unat uval \<le> b1max then
           Inr \<lparr> sz = 1, arr = payload @ replicate (maxSize - nbytes) 0 \<rparr>
         else Inl Unexpected_state)"

definition varint_fromBytes :: "bytes \<Rightarrow> (varint_error, GenericVarInt) result" where
  "varint_fromBytes b =
     rbind (validate invalid_argument b False) (\<lambda>_. Inr (varint_unchecked b))"

definition varint_deserialize :: "(varint_error, GenericVarInt) parser" where
  "varint_deserialize b =
     rbind (validate invalid_argument b True)
       (\<lambda>payloadLen. Inr (varint_unchecked (take (payloadLen + 1) b), drop (payloadLen + 1) b))"

definition varint_value :: "bool \<Rightarrow> GenericVarInt \<Rightarrow> (varint_error, 'a::len word) result" where
  "varint_value be v =
     rbind (validate logic_error (byteView v) False)
       (\<lambda>payloadLen.
          if payloadLen = 0 then Inr (ucast (arr v ! 0))
          else if payloadLen > LENGTH('a) div 8 then Inl Overflow
          else
            let nb = min payloadLen (LENGTH('a) div 8)
            in Inr (fold (\<lambda>i ret. ret OR push_bit ((if \<not> be then i else nb - i - 1) * 8)
                                         (ucast (arr v ! (1 + i)))) [0..<nb] 0))"

definition varint_less :: "GenericVarInt \<Rightarrow> GenericVarInt \<Rightarrow> bool" where
  "varint_less v w \<longleftrightarrow> byteView v < byteView w"

definition varint_eq :: "GenericVarInt \<Rightarrow> GenericVarInt \<Rightarrow> bool" where
  "varint_eq v w \<longleftrightarrow> byteView v = byteView w"

text \<open>The widths for which the constructor and \<open>value\<close> compile: whole bytes, at most eight.\<close>

definition int_width :: "'a::len itself \<Rightarrow> bool" where
  "int_width T \<longleftrightarrow> LENGTH('a) mod 8 = 0 \<and> LENGTH('a) \<le> 64"

text \<open>What the constructor writes, as one byte string.\<close>

definition varint_bytes :: "bool \<Rightarrow> 'a::len word \<Rightarrow> bytes" where
  "varint_bytes be w =
     (let n = varint_nbytes w; payload = (if be then be_enc n w else le_enc n w)
      in if unat w \<le> b1max then payload else word_of_nat (b1max + n) # payload)"

section \<open>Minimal byte counts\<close>

lemma bit_width_less: "n < 2 ^ bit_width n"
proof (induction n rule: bit_width.induct)
  case (1 n)
  show ?case
  proof (cases "n = 0")
    case False
    then have "n div 2 < 2 ^ bit_width (n div 2)" using 1 by simp
    then have "n < 2 * 2 ^ bit_width (n div 2)" by linarith
    then show ?thesis using False by (subst bit_width.simps) simp
  qed (simp add: bit_width.simps)
qed

lemma bit_width_ge: "n \<noteq> 0 \<Longrightarrow> 2 ^ (bit_width n - 1) \<le> n"
proof (induction n rule: bit_width.induct)
  case (1 n)
  show ?case
  proof (cases "n div 2 = 0")
    case True
    then have "n = 1" using "1.prems" by linarith
    then show ?thesis by (simp add: bit_width.simps)
  next
    case False
    then have "2 ^ (bit_width (n div 2) - 1) \<le> n div 2" using 1 by simp
    moreover have "bit_width (n div 2) \<noteq> 0" using False by (subst bit_width.simps) simp
    ultimately have "2 ^ bit_width (n div 2) \<le> 2 * (n div 2)"
      by (cases "bit_width (n div 2)") auto
    also have "\<dots> \<le> n" by simp
    finally show ?thesis using "1.prems" by (subst bit_width.simps) simp
  qed
qed

lemma bit_width_le_iff: "bit_width n \<le> k \<longleftrightarrow> n < 2 ^ k"
proof
  assume "bit_width n \<le> k"
  then have "(2::nat) ^ bit_width n \<le> 2 ^ k" by simp
  then show "n < 2 ^ k" using bit_width_less[of n] by linarith
next
  assume n: "n < 2 ^ k"
  show "bit_width n \<le> k"
  proof (cases "n = 0")
    case False
    then have "(2::nat) ^ (bit_width n - 1) < 2 ^ k" using bit_width_ge[of n] n by linarith
    then have "bit_width n - 1 < k" by (rule power_less_imp_less_exp[rotated]) simp
    then show ?thesis by linarith
  qed (simp add: bit_width.simps)
qed

lemma varint_nbytes_le_iff: "0 < k \<Longrightarrow> varint_nbytes w \<le> k \<longleftrightarrow> unat w < 2 ^ (8 * k)"
proof -
  assume k: "0 < k"
  have "(bit_width (unat w) + 7) div 8 \<le> k \<longleftrightarrow> bit_width (unat w) \<le> 8 * k" by linarith
  then show ?thesis using k by (auto simp: varint_nbytes_def bit_width_le_iff)
qed

lemma varint_nbytes_pos: "0 < varint_nbytes w"
proof (cases "w = 0")
  case False
  then have "bit_width (unat w) \<noteq> 0" by (subst bit_width.simps) (simp add: unat_eq_zero)
  then show ?thesis using False by (simp add: varint_nbytes_def)
qed (simp add: varint_nbytes_def)

lemma varint_nbytes_fits: "unat w < 2 ^ (8 * varint_nbytes w)"
  using varint_nbytes_le_iff[OF varint_nbytes_pos[of w], of w] by simp

lemma take_bit_nbytes [simp]: "take_bit (8 * varint_nbytes w) w = w"
  using varint_nbytes_fits[of w] by (simp add: word_unat_eq_iff unsigned_take_bit_eq take_bit_nat_eq_self)

lemma varint_nbytes_mono: "a \<le> b \<Longrightarrow> varint_nbytes a \<le> varint_nbytes b"
  using varint_nbytes_fits[of b] by (auto simp: varint_nbytes_le_iff[OF varint_nbytes_pos] word_le_nat_alt)

lemma varint_nbytes_width:
  fixes w :: "'a::len word"
  assumes "int_width TYPE('a)"
  shows "varint_nbytes w \<le> LENGTH('a) div 8" "varint_nbytes w \<le> 8"
proof -
  have e: "8 * (LENGTH('a) div 8) = LENGTH('a)" using assms by (auto simp: int_width_def)
  then have "0 < LENGTH('a) div 8" by (metis len_gt_0 mult_0_right neq0_conv)
  then show "varint_nbytes w \<le> LENGTH('a) div 8"
    using e unsigned_less[of w, where ?'a = nat] by (simp add: varint_nbytes_le_iff)
  then show "varint_nbytes w \<le> 8" using assms unfolding int_width_def by linarith
qed

lemma small_nbytes: "unat w \<le> b1max \<Longrightarrow> varint_nbytes w = 1"
  using varint_nbytes_pos[of w] varint_nbytes_le_iff[of 1 w] by simp

section \<open>What the constructor writes\<close>

lemma varint_payload_eq:
  "varint_payload be n w = (if be then be_enc n w else le_enc n w)"
proof -
  have m: "ucast (x AND 0xff :: 'a::len word) = (ucast x :: byte)" for x
    by (simp add: and_255)
  have r: "be_enc n w ! i = ucast (drop_bit ((n - Suc i) * 8) w)" if "i < n" for i
    using that by (simp add: be_enc_def rev_nth nth_le_enc mult.commute)
  show ?thesis
    by (rule nth_equalityI)
      (auto simp: varint_payload_def nth_le_enc r m mult.commute)
qed

lemma length_varint_bytes:
  "length (varint_bytes be w) = (if unat w \<le> b1max then 1 else varint_nbytes w + 1)"
  by (simp add: varint_bytes_def Let_def small_nbytes)

lemma varint_make_eq:
  fixes w :: "'a::len word"
  assumes "int_width TYPE('a)"
  shows "varint_make be w =
    Inr \<lparr> sz = length (varint_bytes be w),
          arr = varint_bytes be w @ replicate (maxSize - length (varint_bytes be w)) 0 \<rparr>"
proof -
  have "varint_nbytes w > 1 \<or> unat w > b1max \<longleftrightarrow> unat w > b1max"
    using small_nbytes[of w] by fastforce
  then show ?thesis
    using small_nbytes[of w]
    by (auto simp: varint_make_def varint_bytes_def Let_def varint_payload_eq)
qed

lemma length_varint_bytes_le:
  fixes w :: "'a::len word"
  assumes "int_width TYPE('a)"
  shows "length (varint_bytes be w) \<le> maxSize" "0 < length (varint_bytes be w)"
  using varint_nbytes_width(2)[OF assms, of w] by (simp_all add: length_varint_bytes)

lemma hd_varint_bytes:
  fixes w :: "'a::len word"
  assumes "int_width TYPE('a)"
  shows "unat (hd (varint_bytes be w)) = (if unat w \<le> b1max then unat w else b1max + varint_nbytes w)"
proof (cases "unat w \<le> b1max")
  case True
  then show ?thesis
    by (simp add: varint_bytes_def Let_def small_nbytes be_enc_def unsigned_ucast_eq take_bit_nat_eq_self)
next
  case False
  have "unat (word_of_nat (b1max + varint_nbytes w) :: byte) = b1max + varint_nbytes w"
    unfolding unat_of_nat using varint_nbytes_width(2)[OF assms, of w] by simp
  then show ?thesis using False by (simp add: varint_bytes_def Let_def)
qed

lemma validate_varint_bytes:
  fixes w :: "'a::len word"
  assumes "int_width TYPE('a)"
  shows "validate exc (varint_bytes be w @ rest) True =
           Inr (if unat w \<le> b1max then 0 else varint_nbytes w)"
    and "validate exc (varint_bytes be w) False = Inr (if unat w \<le> b1max then 0 else varint_nbytes w)"
  using hd_varint_bytes[OF assms, of be w] length_varint_bytes_le[OF assms, of be w]
    varint_nbytes_width(2)[OF assms, of w] length_varint_bytes[of be w]
  by (auto simp: validate_def Let_def hd_append simp del: length_varint_bytes)

lemma byteView_make:
  fixes w :: "'a::len word"
  assumes "int_width TYPE('a)" "varint_make be w = Inr v"
  shows "byteView v = varint_bytes be w"
  using assms by (auto simp: varint_make_eq byteView_def)

lemma varint_unchecked_bytes:
  fixes w :: "'a::len word"
  assumes "int_width TYPE('a)"
  shows "varint_make be w = Inr (varint_unchecked (varint_bytes be w))"
  using length_varint_bytes_le(1)[OF assms, of be w]
  by (simp add: varint_make_eq[OF assms] varint_unchecked_def Let_def min_def)

lemma varint_bytes_big:
  "unat w > b1max \<Longrightarrow> varint_bytes be w =
     word_of_nat (b1max + varint_nbytes w) # (if be then be_enc (varint_nbytes w) w else le_enc (varint_nbytes w) w)"
  by (simp add: varint_bytes_def Let_def)

lemma ucast_le_dec: "ucast (le_dec bs :: 'a::len word) = (le_dec bs :: 'b::len word)"
  if "8 * length bs \<le> LENGTH('a)"
proof (rule bit_word_eqI)
  fix k
  have "k div 8 < length bs \<Longrightarrow> k < LENGTH('a)" using that by linarith
  then show "bit (ucast (le_dec bs :: 'a word) :: 'b word) k = bit (le_dec bs :: 'b word) k"
    by (auto simp: bit_simps bit_le_dec)
qed

lemma fold_payload_value:
  fixes w :: "'a::len word"
  assumes "int_width TYPE('a)" "n = varint_nbytes w" "p = (if be then be_enc n w else le_enc n w)"
  shows "fold (\<lambda>i ret. ret OR push_bit ((if \<not> be then i else n - i - 1) * 8) (ucast (p ! i))) [0..<n] 0
           = (ucast w :: 'b::len word)"
proof -
  have l: "length p = n" using assms(3) by simp
  have "8 * n \<le> LENGTH('a)" using varint_nbytes_width(1)[OF assms(1), of w] assms(2) by linarith
  then have "(le_dec (le_enc n w) :: 'b word) = ucast (le_dec (le_enc n w) :: 'a word)"
    by (simp add: ucast_le_dec)
  then have *: "(le_dec (le_enc n w) :: 'b word) = ucast w" by (simp add: le_dec_le_enc assms(2))
  show ?thesis
  proof (cases be)
    case True
    then show ?thesis
      using fold_or_be_dec[of p, where ?'a = 'b] * assms(3) l by (simp add: be_dec_def be_enc_def)
  next
    case False
    then show ?thesis using fold_or_le_dec[of p, where ?'a = 'b] * assms(3) l by simp
  qed
qed

lemma fits_width:
  fixes w :: "'a::len word"
  assumes "int_width TYPE('b::len)"
  shows "varint_nbytes w \<le> LENGTH('b) div 8 \<longleftrightarrow> unat w < 2 ^ LENGTH('b)"
proof -
  have e: "8 * (LENGTH('b) div 8) = LENGTH('b)" using assms by (auto simp: int_width_def)
  then have "0 < LENGTH('b) div 8" by (metis len_gt_0 mult_0_right neq0_conv)
  then show ?thesis using e by (simp add: varint_nbytes_le_iff)
qed

lemma value_of_bytes:
  fixes w :: "'a::len word"
  assumes "int_width TYPE('a)" "int_width TYPE('b::len)" "varint_make be w = Inr v"
  shows "varint_value be v =
    (if unat w < 2 ^ LENGTH('b) then Inr (ucast w :: 'b word) else Inl Overflow)"
proof (cases "unat w \<le> b1max")
  case True
  have "arr v ! 0 = hd (varint_bytes be w)"
    using assms(3) length_varint_bytes_le(2)[OF assms(1), of be w]
    by (auto simp: varint_make_eq[OF assms(1)] nth_append hd_conv_nth)
  then have "arr v ! 0 = ucast w"
    using hd_varint_bytes[OF assms(1), of be w] True
    by (simp add: word_unat_eq_iff unsigned_ucast_eq take_bit_nat_eq_self)
  moreover have small: "unat w < 2 ^ LENGTH('b)"
  proof -
    have "8 \<le> LENGTH('b)"
      using assms(2) len_gt_0[where 'a = 'b] by (cases "LENGTH('b) < 8") (auto simp: int_width_def)
    then have "(2::nat) ^ 8 \<le> 2 ^ LENGTH('b)" by (intro power_increasing) simp_all
    then show ?thesis using True by simp
  qed
  moreover have "(ucast (ucast w :: byte) :: 'b word) = ucast w"
    using True small by (simp add: word_unat_eq_iff unsigned_ucast_eq unsigned_take_bit_eq take_bit_nat_eq_self)
  ultimately show ?thesis
    using True by (simp add: varint_value_def byteView_make[OF assms(1,3)] validate_varint_bytes[OF assms(1)])
next
  case False
  define n where "n = varint_nbytes w"
  define p where "p = (if be then be_enc n w else le_enc n w)"
  have a: "arr v ! (1 + i) = p ! i" if "i < n" for i
    using assms(3) that False
    by (auto simp: varint_make_eq[OF assms(1)] varint_bytes_big n_def p_def nth_append)
  have "fold (\<lambda>i ret. ret OR push_bit ((if \<not> be then i else n - i - 1) * 8) (ucast (arr v ! (1 + i)))) [0..<n] 0
      = fold (\<lambda>i ret. ret OR push_bit ((if \<not> be then i else n - i - 1) * 8) (ucast (p ! i))) [0..<n] (0 :: 'b word)"
    by (rule fold_cong) (simp_all add: a[simplified])
  also have "\<dots> = ucast w" by (rule fold_payload_value[OF assms(1) n_def p_def])
  finally show ?thesis
    unfolding n_def using False varint_nbytes_pos[of w] fits_width[OF assms(2), of w]
    by (auto simp: varint_value_def byteView_make[OF assms(1,3)] validate_varint_bytes[OF assms(1)]
        Let_def min_def not_le)
qed

lemma varint_bytes_mono:
  fixes a b :: "'a::len word"
  assumes "int_width TYPE('a)" "a < b"
  shows "varint_bytes True a < varint_bytes True b"
proof -
  have ab: "unat a < unat b" using assms(2) by (simp add: word_less_nat_alt)
  note ha = hd_varint_bytes[OF assms(1), of True a] and hb = hd_varint_bytes[OF assms(1), of True b]
  have heads: "varint_bytes True a < varint_bytes True b"
    if "unat (hd (varint_bytes True a)) < unat (hd (varint_bytes True b))"
    using that length_varint_bytes_le(2)[OF assms(1), of True a]
      length_varint_bytes_le(2)[OF assms(1), of True b]
    by (cases "varint_bytes True a"; cases "varint_bytes True b") (auto simp: word_less_nat_alt)
  consider "unat a \<le> b1max" | "unat a > b1max" "varint_nbytes a < varint_nbytes b"
    | "unat a > b1max" "varint_nbytes a = varint_nbytes b"
    using varint_nbytes_mono[of a b] assms(2) by fastforce
  then show ?thesis
  proof cases
    case 1
    then show ?thesis using ha hb ab varint_nbytes_pos[of b] by (intro heads) auto
  next
    case 2
    then show ?thesis using ha hb ab by (intro heads) auto
  next
    case 3
    then show ?thesis
      using ab be_enc_mono[OF assms(2) varint_nbytes_fits] by (simp add: varint_bytes_big)
  qed
qed

section \<open>The contract of the class\<close>

text \<open>Reading a \<open>VarInt\<close> back with \<open>value\<close> at any integer type, in either byte order, yields
  exactly the number it was built from when that type can hold it and throws \<open>std::overflow_error\<close>
  otherwise; it never truncates. At the type it was built from it is a round trip, so signed values
  survive as well.\<close>

lemma varint_value_exact:
  fixes w :: "'a::len word"
  assumes "int_width TYPE('a)" and "int_width TYPE('b::len)"
  shows "rbind (varint_make be w) (varint_value be) =
    (if unat w < 2 ^ LENGTH('b) then Inr (ucast w :: 'b word) else Inl Overflow)"
  using value_of_bytes[OF assms varint_unchecked_bytes[OF assms(1)]]
  by (simp add: varint_unchecked_bytes[OF assms(1)])

text \<open>A serialized \<open>VarInt\<close> at the front of a longer byte stream is deserialized to the same
  object and exactly its own bytes are consumed; \<open>fromBytes\<close> accepts it when nothing follows.\<close>

lemma varint_deserialize_stream:
  fixes w :: "'a::len word"
  assumes "int_width TYPE('a)" and "varint_make be w = Inr v"
  shows "varint_deserialize (byteView v @ rest) = Inr (v, rest) \<and> varint_fromBytes (byteView v) = Inr v"
proof -
  have v: "v = varint_unchecked (varint_bytes be w)" using assms by (simp add: varint_unchecked_bytes)
  have l: "length (varint_bytes be w) = (if unat w \<le> b1max then 0 else varint_nbytes w) + 1"
    by (simp add: length_varint_bytes)
  note b = byteView_make[OF assms] and val = validate_varint_bytes[OF assms(1), of invalid_argument be w]
  have "varint_deserialize (byteView v @ rest) = Inr (v, rest)"
    unfolding b varint_deserialize_def val rbind_simps l[symmetric] using v by simp
  moreover have "varint_fromBytes (byteView v) = Inr v"
    unfolding b varint_fromBytes_def val rbind_simps using v by simp
  ultimately show ?thesis by simp
qed

text \<open>C32: Database keys: the bytes of two \<open>VarIntBE\<close> keys compare lexicographically exactly as the
  numbers they encode, across all encoded lengths.\<close>

theorem varint_be_order:
  fixes a b :: "'a::len word"
  assumes "int_width TYPE('a)" and "varint_make True a = Inr v" and "varint_make True b = Inr w"
  shows "(varint_less v w \<longleftrightarrow> a < b) \<and> (varint_eq v w \<longleftrightarrow> a = b)"
proof -
  have "a = b \<or> a < b \<or> b < a" by auto
  then show ?thesis
    using varint_bytes_mono[OF assms(1), of a b] varint_bytes_mono[OF assms(1), of b a]
    by (auto simp: varint_less_def varint_eq_def byteView_make[OF assms(1,2)] byteView_make[OF assms(1,3)])
qed

theorem varint_be_order_witness:
  "\<exists>v w. varint_make True (255 :: 64 word) = Inr v \<and> varint_make True (256 :: 64 word) = Inr w \<and>
         varint_less v w"
proof -
  have i: "int_width TYPE(64)" by (simp add: int_width_def)
  then obtain v w where "varint_make True (255 :: 64 word) = Inr v" "varint_make True (256 :: 64 word) = Inr w"
    using varint_unchecked_bytes by blast
  then show ?thesis using varint_be_order[OF i] by fastforce
qed

end
