(* ===== verification/Merkle_Tree.thy ===== *)
theory Merkle_Tree
  imports Fulcrum_Prelude
begin

text \<open>
  Merkle branches and roots, and the cache the server keeps of a middle level of the merkle tree of
  all block headers: \<open>src/Merkle.h\<close> and \<open>src/Merkle.cpp\<close>.

  A hash is a byte string, of 32 bytes where it is well formed. \<open>H\<close> is \<open>bitcoin::Hash\<close>, applied
  to the concatenation of two nodes; the operations take it as an argument, so that what is proved
  of the tree holds for every node hash, and \<open>Header_Storage\<close> supplies the double SHA-256 of the
  program. Sizes and indices are natural numbers: the source's \<open>unsigned\<close> values are vector sizes
  and block heights, which stay far below \<open>2 ^ 31\<close>. \<open>ceil(log2(count))\<close>, which the source computes
  in double precision, is exact for such counts and is modelled by \<open>ceil_log2\<close>.

  The operations of the cache return their outcome together with the cache as they leave it, also
  where they throw.
\<close>

section \<open>The operations\<close>

type_synonym hash = bytes

datatype merkle_error = BadArgs string | InternalError string

fun ceil_log2 :: "nat \<Rightarrow> nat" where
  "ceil_log2 n = (if n \<le> 1 then 0 else Suc (ceil_log2 ((n + 1) div 2)))"

declare ceil_log2.simps [simp del]

abbreviation MaxDepth :: nat where "MaxDepth \<equiv> 28"

definition branchLength :: "nat \<Rightarrow> nat" where
  "branchLength count = (if count < 1 then 0 else ceil_log2 count)"

definition treeDepth :: "nat \<Rightarrow> nat" where
  "treeDepth count = branchLength count + 1"

text \<open>A hash of the wrong size is replaced by the null \<open>uint256\<close>, with a warning.\<close>

definition to_uint256 :: "hash \<Rightarrow> hash" where
  "to_uint256 h = (if length h = 32 then h else replicate 32 0)"

definition recomputeHashes :: "(bytes \<Rightarrow> hash) \<Rightarrow> hash list \<Rightarrow> hash list" where
  "recomputeHashes H hs = map (\<lambda>i. H (hs ! (2 * i) @ hs ! (2 * i + 1))) [0..<(length hs + 1) div 2]"

definition dup_last :: "hash list \<Rightarrow> hash list" where
  "dup_last hs = (if odd (length hs) then hs @ [last hs] else hs)"

primrec branch_loop :: "(bytes \<Rightarrow> hash) \<Rightarrow> nat \<Rightarrow> nat \<Rightarrow> hash list \<Rightarrow> hash list \<Rightarrow> hash list \<times> hash list" where
  "branch_loop H 0 index hashes branch = (branch, hashes)"
| "branch_loop H (Suc n) index hashes branch =
     (let hashes = dup_last hashes; h = hashes ! (index XOR 1)
      in branch_loop H n (index div 2) (recomputeHashes H hashes) (branch @ [h]))"

definition branchAndRoot ::
  "(bytes \<Rightarrow> hash) \<Rightarrow> hash list \<Rightarrow> nat \<Rightarrow> nat option \<Rightarrow> (merkle_error, hash list \<times> hash) result" where
  "branchAndRoot H hashVec index optLen =
     (let hvsz = length hashVec in
      if hvsz = 0 \<or> index \<ge> hvsz then Inl (BadArgs ''Bad args'')
      else
        let natLen = branchLength hvsz;
            len = (case optLen of None \<Rightarrow> natLen | Some l \<Rightarrow> l)
        in if len < natLen then Inl (BadArgs ''Bad length arg'')
           else
             let (branch, hashes) = branch_loop H len index (map to_uint256 hashVec) []
             in if hashes = [] then Inl (InternalError ''Output hash vector is empty'')
                else Inr (branch, hd hashes))"

definition root :: "(bytes \<Rightarrow> hash) \<Rightarrow> hash list \<Rightarrow> nat option \<Rightarrow> (merkle_error, hash) result" where
  "root H hashes len = rbind (branchAndRoot H hashes 0 len) (\<lambda>p. Inr (snd p))"

text \<open>The loop of \<open>level\<close> visits the segment starts \<open>0, size, 2 * size, \<dots>\<close> below the vector's size.\<close>

definition level :: "(bytes \<Rightarrow> hash) \<Rightarrow> hash list \<Rightarrow> nat \<Rightarrow> (merkle_error, hash list) result" where
  "level H hashes depthHigher =
     (if depthHigher > MaxDepth then Inl (BadArgs ''Argument depthHigher is too large'')
      else if hashes = [] then Inl (BadArgs ''Argument hashes cannot be empty'')
      else
        let hsz = length hashes; size = 2 ^ depthHigher
        in rmap (\<lambda>k. let i = k * size; endIndex = min (i + size) hsz
                     in root H (take (endIndex - i) (drop i hashes)) (Some depthHigher))
             [0..<(hsz + size - 1) div size])"

definition branchAndRootFromLevel ::
  "(bytes \<Rightarrow> hash) \<Rightarrow> hash list \<Rightarrow> hash list \<Rightarrow> nat \<Rightarrow> nat \<Rightarrow> (merkle_error, hash list \<times> hash) result" where
  "branchAndRootFromLevel H lvl leafHashes index depthHigher =
     (if lvl = [] \<or> leafHashes = [] \<or> depthHigher > MaxDepth then Inl (BadArgs ''Invalid arguments'')
      else
        let leafIndex = push_bit depthHigher (drop_bit depthHigher index)
        in rbind (branchAndRoot H leafHashes (index - leafIndex) (Some depthHigher))
          (\<lambda>(leafBranch, leafRoot).
             let index = drop_bit depthHigher index
             in rbind (branchAndRoot H lvl index None)
               (\<lambda>(levelBranch, rt).
                  if index \<ge> length lvl \<or> leafRoot \<noteq> lvl ! index
                  then Inl (InternalError ''leaf hashes inconsistent with level'')
                  else Inr (leafBranch @ levelBranch, rt))))"

text \<open>How a client folds a branch: the verification the unit tests perform.\<close>

fun calculateRootFromMerkleBranch :: "(bytes \<Rightarrow> hash) \<Rightarrow> hash \<Rightarrow> nat \<Rightarrow> hash list \<Rightarrow> hash" where
  "calculateRootFromMerkleBranch H workingHash index [] = workingHash"
| "calculateRootFromMerkleBranch H workingHash index (b # branch) =
     calculateRootFromMerkleBranch H
       (if index AND 1 \<noteq> 0 then H (b @ workingHash) else H (workingHash @ b)) (index div 2) branch"

section \<open>The header merkle cache\<close>

text \<open>\<open>GetHashesFunc\<close>: the hashes from a height on, and an error message that is empty on success.\<close>

type_synonym get_hashes_func = "nat \<Rightarrow> nat \<Rightarrow> hash list \<times> string"

record cache =
  c_length :: nat
  c_depthHigher :: nat
  c_level :: "hash list"
  c_initialized :: bool

definition cache_new :: cache where
  "cache_new = \<lparr> c_length = 0, c_depthHigher = 0, c_level = [], c_initialized = False \<rparr>"

definition getHashes :: "get_hashes_func \<Rightarrow> nat \<Rightarrow> nat \<Rightarrow> (merkle_error, hash list) result" where
  "getHashes f from count =
     (let (ret, err) = f from count
      in if length ret \<noteq> count then Inl (InternalError ''In getHashes, unexpected number of hashes'')
         else if err \<noteq> [] then Inl (InternalError err)
         else Inr ret)"

definition segmentLength :: "cache \<Rightarrow> nat" where
  "segmentLength c = push_bit (c_depthHigher c) 1"

definition leafStart :: "cache \<Rightarrow> nat \<Rightarrow> nat" where
  "leafStart c index = push_bit (c_depthHigher c) (drop_bit (c_depthHigher c) index)"

definition getLevel :: "(bytes \<Rightarrow> hash) \<Rightarrow> cache \<Rightarrow> hash list \<Rightarrow> (merkle_error, hash list) result" where
  "getLevel H c hashes = level H hashes (c_depthHigher c)"

definition initialize_nolock :: "(bytes \<Rightarrow> hash) \<Rightarrow> hash list \<Rightarrow> cache \<Rightarrow> (merkle_error, unit) result \<times> cache" where
  "initialize_nolock H hashes c =
     (let c = c\<lparr>c_length := length hashes\<rparr>
      in if c_length c = 0 then (Inl (BadArgs ''Merkle cache was initialized with an empty vector''), c)
         else
           let c = c\<lparr>c_depthHigher := treeDepth (c_length c) div 2\<rparr>
           in case getLevel H c hashes of
                Inl e \<Rightarrow> (Inl e, c)
              | Inr lvl \<Rightarrow> (Inr (), c\<lparr>c_level := lvl, c_initialized := True\<rparr>))"

definition cache_initialize ::
  "(bytes \<Rightarrow> hash) \<Rightarrow> get_hashes_func \<Rightarrow> nat \<Rightarrow> cache \<Rightarrow> (merkle_error, unit) result \<times> cache" where
  "cache_initialize H f l c =
     (case getHashes f 0 l of
        Inl e \<Rightarrow> (Inl e, c)
      | Inr hashes \<Rightarrow> initialize_nolock H hashes c)"

definition extendTo ::
  "(bytes \<Rightarrow> hash) \<Rightarrow> get_hashes_func \<Rightarrow> nat \<Rightarrow> cache \<Rightarrow> (merkle_error, unit) result \<times> cache" where
  "extendTo H f l c =
     (if l \<le> c_length c then (Inr (), c)
      else
        let start = leafStart c (c_length c)
        in case getHashes f start (l - start) of
             Inl e \<Rightarrow> (Inl e, c)
           | Inr hashes \<Rightarrow>
               let limit = drop_bit (c_depthHigher c) start
               in if limit > length (c_level c) then (Inl (InternalError ''limit > levelSize in extendTo''), c)
                  else
                    let c = c\<lparr>c_level := take limit (c_level c)\<rparr>
                    in case getLevel H c hashes of
                         Inl e \<Rightarrow> (Inl e, c)
                       | Inr vec \<Rightarrow> (Inr (), c\<lparr>c_level := c_level c @ vec, c_length := l\<rparr>))"

definition levelFor ::
  "(bytes \<Rightarrow> hash) \<Rightarrow> get_hashes_func \<Rightarrow> nat \<Rightarrow> cache \<Rightarrow> (merkle_error, hash list) result" where
  "levelFor H f l c =
     (if l = c_length c then Inr (c_level c)
      else
        let limit = drop_bit (c_depthHigher c) l
        in if limit \<ge> length (c_level c) then Inl (InternalError ''limit >= levelSize'')
           else
             let leafstart = leafStart c l; count = min (segmentLength c) (l - leafstart)
             in rbind (getHashes f leafstart count)
               (\<lambda>hashes. rbind (getLevel H c hashes) (\<lambda>vec. Inr (take limit (c_level c) @ vec))))"

definition cache_branchAndRoot ::
  "(bytes \<Rightarrow> hash) \<Rightarrow> get_hashes_func \<Rightarrow> nat \<Rightarrow> nat \<Rightarrow> cache \<Rightarrow>
     (merkle_error, hash list \<times> hash) result \<times> cache" where
  "cache_branchAndRoot H f len index c =
     (if len = 0 then (Inl (BadArgs ''length must not be 0''), c)
      else if index \<ge> len then (Inl (BadArgs ''index must be less than length''), c)
      else if \<not> c_initialized c then (Inl (InternalError ''Merkle cache is not initialized''), c)
      else
        case extendTo H f len c of
          (Inl e, c) \<Rightarrow> (Inl e, c)
        | (Inr _, c) \<Rightarrow>
            if len > c_length c then (Inl (InternalError ''extendTo failed to extend length''), c)
            else
              let ls = leafStart c index; count = min (segmentLength c) (len - ls)
              in (rbind (getHashes f ls count)
                   (\<lambda>leafHashes.
                      if len < segmentLength c then branchAndRoot H leafHashes index None
                      else rbind (levelFor H f len c)
                        (\<lambda>lvl. branchAndRootFromLevel H lvl leafHashes index (c_depthHigher c))), c))"

definition cache_truncate :: "nat \<Rightarrow> cache \<Rightarrow> (merkle_error, unit) result \<times> cache" where
  "cache_truncate len c =
     (if \<not> c_initialized c then (Inr (), c)
      else if len = 0 then (Inl (BadArgs ''length cannot be 0''), c)
      else if c_length c \<le> len then (Inr (), c)
      else
        let len = leafStart c len; limit = min (drop_bit (c_depthHigher c) len) (length (c_level c))
        in (Inr (), c\<lparr>c_length := len, c_level := take limit (c_level c)\<rparr>))"

section \<open>Levels of the tree\<close>

text \<open>One level up, and \<open>k\<close> levels up. Every operation is characterised through these.\<close>

definition up :: "(bytes \<Rightarrow> hash) \<Rightarrow> hash list \<Rightarrow> hash list" where
  "up H hs = recomputeHashes H (dup_last hs)"

abbreviation ups :: "(bytes \<Rightarrow> hash) \<Rightarrow> nat \<Rightarrow> hash list \<Rightarrow> hash list" where
  "ups H k hs \<equiv> (up H ^^ k) hs"

definition cdiv :: "nat \<Rightarrow> nat \<Rightarrow> nat" where
  "cdiv n m = (n + m - 1) div m"

lemma length_dup_last: "length (dup_last hs) = 2 * ((length hs + 1) div 2)"
  by (auto simp: dup_last_def elim!: evenE oddE)

lemma length_up [simp]: "length (up H hs) = (length hs + 1) div 2"
  by (simp add: up_def recomputeHashes_def length_dup_last)

lemma ups_Suc: "ups H (Suc k) hs = ups H k (up H hs)"
  by (simp add: funpow_swap1)

lemma dup_last_append: "even (length xs) \<Longrightarrow> dup_last (xs @ ys) = xs @ dup_last ys"
  by (auto simp: dup_last_def last_append)

lemma up_append:
  assumes "even (length xs)"
  shows "up H (xs @ ys) = up H xs @ up H ys"
proof -
  obtain m where m: "length xs = 2 * m" using assms by (elim evenE)
  have d: "dup_last xs = xs" using assms by (simp add: dup_last_def)
  have l: "length (dup_last ys) div 2 = (length ys + 1) div 2" by (simp add: length_dup_last)
  have l': "(length (dup_last ys) + 1) div 2 = (length ys + 1) div 2" by (simp add: length_dup_last)
  show ?thesis
  proof (rule nth_equalityI)
    show "length (up H (xs @ ys)) = length (up H xs @ up H ys)" using m by simp
  next
    fix i assume "i < length (up H (xs @ ys))"
    then have i: "i < m + (length ys + 1) div 2" using m by simp
    show "up H (xs @ ys) ! i = (up H xs @ up H ys) ! i"
    proof (cases "i < m")
      case True
      then show ?thesis using m i
        by (simp add: up_def recomputeHashes_def dup_last_append assms d nth_append length_dup_last)
    next
      case False
      then obtain j where j: "i = m + j" by (metis le_Suc_ex not_less)
      then show ?thesis using m i
        by (simp add: up_def recomputeHashes_def dup_last_append assms d nth_append length_dup_last)
    qed
  qed
qed

lemma ups_append:
  "length xs = 2 ^ d * m \<Longrightarrow> k \<le> d \<Longrightarrow>
     ups H k (xs @ ys) = ups H k xs @ ups H k ys \<and> length (ups H k xs) = 2 ^ (d - k) * m"
proof (induction k)
  case (Suc k)
  then have IH: "ups H k (xs @ ys) = ups H k xs @ ups H k ys" "length (ups H k xs) = 2 ^ (d - k) * m"
    by simp_all
  have e: "2 ^ (d - k) = 2 * (2 ^ (d - Suc k) :: nat)"
    using Suc.prems by (metis Suc_diff_Suc Suc_le_lessD power_Suc)
  then have "even (length (ups H k xs))" using IH by simp
  then show ?case using IH e by (simp add: up_append)
qed simp

lemma cdiv_half: "(cdiv n (2 ^ k) + 1) div 2 = cdiv n (2 ^ Suc k)"
proof -
  have "(n + 2 ^ k - 1) div 2 ^ k + 1 = (n + 2 ^ k - 1 + 2 ^ k) div 2 ^ k"
    by (rule div_add_self2[symmetric]) simp
  moreover have "n + 2 ^ k - 1 + 2 ^ k = n + 2 ^ Suc k - 1"
    using one_le_power[of "2::nat" k] by (simp del: one_le_power)
  ultimately show ?thesis unfolding cdiv_def by (simp add: mult.commute flip: div_mult2_eq)
qed

lemma length_ups: "length (ups H k hs) = cdiv (length hs) (2 ^ k)"
proof (induction k)
  case 0
  show ?case by (simp add: cdiv_def)
next
  case (Suc k)
  show ?case using cdiv_half[of "length hs" k] by (simp add: Suc)
qed

lemma cdiv_le_1: "cdiv n (2 ^ k) \<le> 1 \<longleftrightarrow> n \<le> 2 ^ k"
proof -
  have "cdiv n (2 ^ k) \<le> 1 \<longleftrightarrow> n + 2 ^ k - 1 < 2 * 2 ^ k"
    unfolding cdiv_def by (metis One_nat_def div_less_iff_less_mult le_imp_less_Suc less_Suc_eq_le
        numeral_2_eq_2 zero_less_numeral zero_less_power)
  then show ?thesis by auto
qed

lemma cdiv_pos: "0 < n \<Longrightarrow> 0 < cdiv n (2 ^ k)"
  by (simp add: cdiv_def div_greater_zero_iff)

lemma div_less_cdiv:
  assumes "r < n"
  shows "r div 2 ^ j < cdiv n (2 ^ j)"
proof -
  have "r div 2 ^ j * 2 ^ j \<le> r" by (rule div_times_less_eq_dividend)
  then have "(r div 2 ^ j + 1) * 2 ^ j \<le> n + 2 ^ j - 1"
    unfolding distrib_right mult_1 using assms by linarith
  then have "r div 2 ^ j + 1 \<le> cdiv n (2 ^ j)"
    unfolding cdiv_def by (metis div_le_mono nonzero_mult_div_cancel_right power_not_zero zero_neq_numeral)
  then show ?thesis by linarith
qed

lemma ups_singleton: "0 < length hs \<Longrightarrow> length hs \<le> 2 ^ k \<Longrightarrow> length (ups H k hs) = 1"
  using cdiv_le_1[of "length hs" k] cdiv_pos[of "length hs" k] by (simp add: length_ups)

section \<open>Branch lengths\<close>

lemma ceil_log2_le_iff: "ceil_log2 n \<le> k \<longleftrightarrow> n \<le> 2 ^ k"
proof (induction n arbitrary: k rule: ceil_log2.induct)
  case (1 n)
  show ?case
  proof (cases "n \<le> 1")
    case True
    then have "n \<le> 2 ^ k" by (meson le_trans one_le_numeral one_le_power)
    then show ?thesis using True by (subst ceil_log2.simps) simp
  next
    case False
    show ?thesis
    proof (cases k)
      case 0
      then show ?thesis using False by (subst ceil_log2.simps) simp
    next
      case (Suc k')
      have "(n + 1) div 2 \<le> 2 ^ k' \<longleftrightarrow> n \<le> 2 ^ Suc k'" by (simp, linarith)
      then show ?thesis using False Suc "1.IH"[of k'] by (subst ceil_log2.simps) simp
    qed
  qed
qed

lemma ceil_log2_unique:
  assumes "\<And>k. a \<le> k \<longleftrightarrow> n \<le> 2 ^ k"
  shows "ceil_log2 n = a"
  using assms by (metis ceil_log2_le_iff le_antisym order_refl)

lemma cdiv_le_pow: "cdiv n (2 ^ d) \<le> 2 ^ j \<longleftrightarrow> n \<le> 2 ^ (d + j)"
proof -
  have "cdiv n (2 ^ d) \<le> 2 ^ j \<longleftrightarrow> n + 2 ^ d - 1 < (2 ^ j + 1) * 2 ^ d"
    unfolding cdiv_def by (metis add.commute div_less_iff_less_mult less_Suc_eq_le plus_1_eq_Suc
        zero_less_numeral zero_less_power)
  also have "\<dots> \<longleftrightarrow> n \<le> 2 ^ (d + j)"
    by (simp add: power_add algebra_simps) (use one_le_power[of "2::nat" d] in linarith)
  finally show ?thesis .
qed

lemma ceil_log2_cdiv:
  assumes "2 ^ d \<le> n"
  shows "ceil_log2 n = d + ceil_log2 (cdiv n (2 ^ d))"
proof (rule ceil_log2_unique)
  fix k
  show "d + ceil_log2 (cdiv n (2 ^ d)) \<le> k \<longleftrightarrow> n \<le> 2 ^ k"
  proof (cases "d \<le> k")
    case True
    then obtain j where "k = d + j" using le_Suc_ex by blast
    then show ?thesis by (simp add: ceil_log2_le_iff cdiv_le_pow)
  next
    case False
    then have "2 ^ k < (2 ^ d :: nat)" by simp
    then show ?thesis using assms False by linarith
  qed
qed

section \<open>What the loops compute\<close>

text \<open>The sibling a branch records at level \<open>j\<close>.\<close>

definition sibling :: "(bytes \<Rightarrow> hash) \<Rightarrow> hash list \<Rightarrow> nat \<Rightarrow> nat \<Rightarrow> hash" where
  "sibling H hs index j = dup_last (ups H j hs) ! (drop_bit j index XOR 1)"

lemma branch_loop_eq:
  "branch_loop H n index hs br = (br @ map (sibling H hs index) [0..<n], ups H n hs)"
proof (induction n arbitrary: index hs br)
  case (Suc n)
  have "sibling H hs index (Suc j) = sibling H (up H hs) (index div 2) j" for j
    by (simp add: sibling_def ups_Suc drop_bit_Suc del: funpow.simps)
  then show ?case
    by (simp add: Suc up_def[symmetric] ups_Suc upt_conv_Cons map_Suc_upt[symmetric] Let_def
        sibling_def[of H hs index 0] comp_def del: funpow.simps upt_Suc)
qed simp

lemma branchAndRoot_eq:
  assumes "index < length hs" "len = (case optLen of None \<Rightarrow> ceil_log2 (length hs) | Some l \<Rightarrow> l)"
    and "length hs \<le> 2 ^ len"
  shows "branchAndRoot H hs index optLen =
    Inr (map (sibling H (map to_uint256 hs) index) [0..<len], hd (ups H len (map to_uint256 hs)))"
proof -
  have "length (ups H len (map to_uint256 hs)) = 1" using assms by (intro ups_singleton) auto
  moreover have "branchLength (length hs) \<le> len" using assms by (simp add: branchLength_def ceil_log2_le_iff)
  moreover have "(case optLen of None \<Rightarrow> branchLength (length hs) | Some l \<Rightarrow> l) = len"
    using assms by (auto simp: branchLength_def split: option.splits)
  ultimately show ?thesis using assms by (auto simp: branchAndRoot_def Let_def branch_loop_eq)
qed

lemma branchAndRoot_natural:
  assumes "index < length hs"
  shows "branchAndRoot H hs index None =
    Inr (map (sibling H (map to_uint256 hs) index) [0..<ceil_log2 (length hs)],
         hd (ups H (ceil_log2 (length hs)) (map to_uint256 hs)))"
  using assms ceil_log2_le_iff[of "length hs"] by (intro branchAndRoot_eq) auto

lemma root_eq:
  assumes "hs \<noteq> []" "length hs \<le> 2 ^ d"
  shows "root H hs (Some d) = Inr (hd (ups H d (map to_uint256 hs)))"
  using assms by (simp add: root_def branchAndRoot_eq[where len = d])

lemma length1_hd: "length xs = Suc 0 \<Longrightarrow> xs ! 0 = hd xs"
  by (cases xs) simp_all

lemma hd_ups_segments:
  assumes "k < cdiv (length hs) (2 ^ d)"
  shows "ups H d hs ! k = hd (ups H d (take (2 ^ d) (drop (k * 2 ^ d) hs)))"
proof -
  let ?pre = "take (k * 2 ^ d) hs" and ?mid = "take (2 ^ d) (drop (k * 2 ^ d) hs)"
  let ?post = "drop (2 ^ d) (drop (k * 2 ^ d) hs)"
  have "k * 2 ^ d < length hs"
  proof (rule ccontr)
    assume "\<not> k * 2 ^ d < length hs"
    then have "length hs + 2 ^ d - 1 < (k + 1) * 2 ^ d" by (simp add: algebra_simps) (use one_le_power[of "2::nat" d] in linarith)
    then have "cdiv (length hs) (2 ^ d) < k + 1" by (simp add: cdiv_def less_mult_imp_div_less)
    then show False using assms by simp
  qed
  then have pre: "length ?pre = 2 ^ d * k" and mid: "0 < length ?mid" by simp_all
  have "hs = ?pre @ ?mid @ ?post" by (metis append_take_drop_id)
  then have "ups H d hs = ups H d (?pre @ (?mid @ ?post))" by simp
  also have "\<dots> = ups H d ?pre @ ups H d (?mid @ ?post)" using ups_append[OF pre, of d H] by simp
  finally have 1: "ups H d hs = ups H d ?pre @ ups H d (?mid @ ?post)" .
  have l: "length (ups H d ?pre) = k" using ups_append[OF pre, of d H] by simp
  have 2: "ups H d (?mid @ ?post) ! 0 = hd (ups H d ?mid)"
  proof (cases "length (drop (k * 2 ^ d) hs) \<le> 2 ^ d")
    case True
    then have "?post = []" by simp
    moreover have "length (ups H d ?mid) = 1" using mid by (intro ups_singleton) simp_all
    ultimately show ?thesis by (simp add: length1_hd)
  next
    case False
    then have m: "length ?mid = 2 ^ d * 1" by simp
    have "ups H d (?mid @ ?post) = ups H d ?mid @ ups H d ?post" "length (ups H d ?mid) = 1"
      using ups_append[OF m, of d H ?post] by simp_all
    then show ?thesis by (simp add: nth_append length1_hd)
  qed
  show ?thesis using 1 2 l by (simp add: nth_append)
qed

lemma level_eq:
  assumes "hs \<noteq> []" "d \<le> MaxDepth"
  shows "level H hs d = Inr (ups H d (map to_uint256 hs))"
proof -
  let ?n = "cdiv (length hs) (2 ^ d)" and ?u = "map to_uint256 hs"
  have n: "(length hs + 2 ^ d - 1) div 2 ^ d = ?n" by (simp add: cdiv_def)
  have seg: "root H (take (min (k * 2 ^ d + 2 ^ d) (length hs) - k * 2 ^ d) (drop (k * 2 ^ d) hs)) (Some d)
      = Inr (ups H d ?u ! k)" if "k < ?n" for k
  proof -
    have "take (min (k * 2 ^ d + 2 ^ d) (length hs) - k * 2 ^ d) (drop (k * 2 ^ d) hs) = take (2 ^ d) (drop (k * 2 ^ d) hs)"
      by (cases "k * 2 ^ d + 2 ^ d \<le> length hs") (simp_all add: min_def)
    moreover have "k * 2 ^ d < length hs"
    proof -
      have "(k + 1) * 2 ^ d \<le> ?n * 2 ^ d" using that by (intro mult_right_mono) simp_all
      also have "\<dots> \<le> length hs + 2 ^ d - 1" by (simp add: cdiv_def)
      finally show ?thesis by (simp add: algebra_simps) (use one_le_power[of "2::nat" d] in linarith)
    qed
    ultimately show ?thesis
      using that by (simp add: root_eq hd_ups_segments take_map drop_map)
  qed
  have "rmap (\<lambda>k. let i = k * 2 ^ d; endIndex = min (i + 2 ^ d) (length hs)
                  in root H (take (endIndex - i) (drop i hs)) (Some d)) [0..<?n]
        = Inr (map (\<lambda>k. ups H d ?u ! k) [0..<?n])"
    by (rule rmap_all_Inr) (simp add: seg Let_def)
  also have "map (\<lambda>k. ups H d ?u ! k) [0..<?n] = ups H d ?u"
    by (metis length_map length_ups map_nth)
  finally show ?thesis using assms n by (simp add: level_def Let_def)
qed

section \<open>Splitting a tree at a level\<close>

lemma dup_last_split:
  assumes "even (length as)" "even (length bs) \<or> cs = []" "k < length (dup_last bs)"
  shows "dup_last (as @ bs @ cs) ! (length as + k) = dup_last bs ! k"
proof (cases "even (length bs)")
  case True
  then have "dup_last bs = bs" by (simp add: dup_last_def)
  then show ?thesis using assms True by (simp add: dup_last_append nth_append)
qed (use assms in \<open>simp add: dup_last_append nth_append\<close>)

lemma xor_1_nat: "(k::nat) XOR 1 = (if even k then k + 1 else k - 1)"
  by (subst xor_nat_rec) (auto elim!: evenE oddE)

lemma even_add_xor_1: "even (m::nat) \<Longrightarrow> (m + k) XOR 1 = m + (k XOR 1)"
  unfolding xor_1_nat by (auto elim!: oddE)

lemma xor_1_less_even: "k < n \<Longrightarrow> even n \<Longrightarrow> k XOR 1 < (n::nat)"
  unfolding xor_1_nat by (auto elim!: evenE oddE)

text \<open>
  Below level \<open>d\<close> the sibling of a leaf is found within the aligned segment of \<open>2 ^ d\<close> leaves that
  holds it; from level \<open>d\<close> on it is found in the tree over that level.
\<close>

lemma sibling_low:
  assumes "j < d" "index < length hs"
  shows "sibling H hs index j =
    sibling H (take (2 ^ d) (drop (push_bit d (drop_bit d index)) hs))
              (index - push_bit d (drop_bit d index)) j"
proof -
  define q where "q = index div 2 ^ d"
  let ?s = "q * 2 ^ d"
  let ?pre = "take ?s hs" and ?mid = "take (2 ^ d) (drop ?s hs)" and ?post = "drop (2 ^ d) (drop ?s hs)"
  define r where "r = index - ?s"
  have s: "push_bit d (drop_bit d index) = ?s" by (simp add: push_bit_eq_mult drop_bit_eq_div q_def)
  have qr: "index = ?s + r" and r: "r < 2 ^ d"
    by (simp_all add: r_def q_def minus_div_mult_eq_mod div_mult_mod_eq)
  have pre: "length ?pre = 2 ^ d * q" using assms(2) qr by simp
  have hs: "hs = ?pre @ ?mid @ ?post" by (metis append_take_drop_id)
  have jd: "j \<le> d" "2 ^ (d - j) = 2 * (2 ^ (d - Suc j) :: nat)"
    using assms(1) by (simp_all add: Suc_diff_Suc flip: power_Suc)
  note p = ups_append[OF pre jd(1), of H]
  have up: "ups H j hs = ups H j ?pre @ ups H j (?mid @ ?post)" using p[of "?mid @ ?post"] hs by simp
  have lp: "length (ups H j ?pre) = 2 ^ (d - j) * q" using p by simp
  have split: "\<exists>cs. ups H j (?mid @ ?post) = ups H j ?mid @ cs \<and> (even (length (ups H j ?mid)) \<or> cs = [])"
  proof (cases "?post = []")
    case False
    then have m: "length ?mid = 2 ^ d * 1" by simp
    show ?thesis using ups_append[OF m jd(1), of H ?post] jd(2) by auto
  qed simp
  then obtain cs where cs: "ups H j (?mid @ ?post) = ups H j ?mid @ cs"
    "even (length (ups H j ?mid)) \<or> cs = []" by blast
  have rm: "r < length ?mid" using assms(2) qr r by auto
  have "r div 2 ^ j < length (ups H j ?mid)" unfolding length_ups using rm by (rule div_less_cdiv)
  then have "r div 2 ^ j < length (dup_last (ups H j ?mid))" by (simp add: length_dup_last)
  then have k: "r div 2 ^ j XOR 1 < length (dup_last (ups H j ?mid))"
    by (rule xor_1_less_even) (simp add: length_dup_last)
  have e: "even (length (ups H j ?pre))" using lp jd(2) by simp
  have ix: "index div 2 ^ j = length (ups H j ?pre) + r div 2 ^ j"
  proof -
    have "(2::nat) ^ d = 2 ^ (d - j) * 2 ^ j" using jd(1) by (simp flip: power_add)
    then have "?s = (2 ^ (d - j) * q) * 2 ^ j" by (simp add: mult_ac)
    then show ?thesis unfolding qr lp by (metis add.commute div_mult_self1 power_not_zero zero_neq_numeral)
  qed
  have "sibling H hs index j = dup_last (ups H j ?pre @ ups H j ?mid @ cs) ! (length (ups H j ?pre) + (r div 2 ^ j XOR 1))"
    unfolding sibling_def up cs(1) drop_bit_eq_div ix even_add_xor_1[OF e] ..
  also have "\<dots> = dup_last (ups H j ?mid) ! (r div 2 ^ j XOR 1)"
    using dup_last_split[OF e cs(2) k] by simp
  finally show ?thesis unfolding s by (simp add: sibling_def drop_bit_eq_div r_def)
qed

lemma sibling_high: "sibling H hs index (d + j) = sibling H (ups H d hs) (drop_bit d index) j"
  by (simp add: sibling_def funpow_add add.commute[of d] drop_bit_drop_bit)

lemma siblings_split:
  "map (sibling H hs index) [0..<d + l] =
   map (sibling H hs index) [0..<d] @ map (sibling H (ups H d hs) (drop_bit d index)) [0..<l]"
  by (rule nth_equalityI) (auto simp: nth_append sibling_high[of H hs index d, symmetric])

section \<open>Folding a branch\<close>

lemma ups_nth:
  assumes "i < length (up H hs)"
  shows "up H hs ! i = H (dup_last hs ! (2 * i) @ dup_last hs ! (2 * i + 1))"
  using assms by (simp add: up_def recomputeHashes_def length_dup_last)

lemma dup_last_nth: "i < length hs \<Longrightarrow> dup_last hs ! i = hs ! i"
  by (simp add: dup_last_def nth_append)

lemma fold_branch:
  assumes "index < length hs"
  shows "calculateRootFromMerkleBranch H (hs ! index) index (map (sibling H hs index) [0..<n])
           = ups H n hs ! drop_bit n index"
  using assms
proof (induction n arbitrary: hs index)
  case (Suc n)
  have i2: "index div 2 < length (up H hs)" using Suc.prems by simp
  have s0: "sibling H hs index 0 = dup_last hs ! (index XOR 1)" by (simp add: sibling_def)
  have step: "(if index AND 1 \<noteq> 0 then H (sibling H hs index 0 @ hs ! index) else H (hs ! index @ sibling H hs index 0))
      = up H hs ! (index div 2)"
    unfolding ups_nth[OF i2] s0 xor_1_nat dup_last_nth[OF Suc.prems, symmetric]
    using dvd_mult_div_cancel[of 2 index] odd_two_times_div_two_succ[of index] by (auto simp: and_one_eq)
  have "map (sibling H hs index) [0..<Suc n] =
      sibling H hs index 0 # map (sibling H (up H hs) (index div 2)) [0..<n]"
    by (simp add: upt_conv_Cons map_Suc_upt[symmetric] comp_def sibling_def ups_Suc drop_bit_Suc
        del: funpow.simps upt_Suc)
  then show ?case
    using Suc.IH[OF i2] step by (simp add: ups_Suc drop_bit_Suc del: funpow.simps)
qed simp

section \<open>The cache against the whole tree\<close>

text \<open>
  What the cache relies on. \<open>H\<close> yields 32 bytes; the source function, asked for a positive number
  of hashes that the chain has, returns that slice of the chain without an error. Nothing is
  required of a request for no hashes.
\<close>

locale node_hash =
  fixes H :: "bytes \<Rightarrow> hash"
  assumes H_length: "length (H x) = 32"

locale header_source = node_hash +
  fixes f :: get_hashes_func and chain :: "hash list"
  assumes chain_hashes: "h \<in> set chain \<Longrightarrow> length h = 32"
    and source_slice: "0 < count \<Longrightarrow> from + count \<le> length chain \<Longrightarrow>
          f from count = (take count (drop from chain), [])"

text \<open>The cached level is that level of the tree over the first \<open>c_length\<close> leaves.\<close>

definition cache_inv :: "(bytes \<Rightarrow> hash) \<Rightarrow> hash list \<Rightarrow> cache \<Rightarrow> bool" where
  "cache_inv H chain c \<longleftrightarrow>
     c_initialized c \<and> c_depthHigher c \<le> MaxDepth \<and> c_length c \<le> length chain \<and>
     c_level c = ups H (c_depthHigher c) (take (c_length c) chain)"

context node_hash
begin

lemma up_hashes: "h \<in> set (up H hs) \<Longrightarrow> length h = 32"
  by (auto simp: up_def recomputeHashes_def H_length)

lemma ups_hashes: "(\<And>h. h \<in> set hs \<Longrightarrow> length h = 32) \<Longrightarrow> h \<in> set (ups H k hs) \<Longrightarrow> length h = 32"
  by (cases k) (auto dest: up_hashes)

lemma map_to_uint256: "(\<And>h. h \<in> set hs \<Longrightarrow> length h = 32) \<Longrightarrow> map to_uint256 hs = hs"
  by (simp add: to_uint256_def map_idI)

end

context header_source
begin

lemma chain_uint256 [simp]: "map to_uint256 (take n (drop m chain)) = take n (drop m chain)"
  by (rule map_to_uint256) (meson chain_hashes in_set_dropD in_set_takeD)

lemma chain_uint256_take [simp]: "map to_uint256 (take n chain) = take n chain"
  using chain_uint256[of n 0] by simp

lemma getHashes_ok:
  "0 < count \<Longrightarrow> from + count \<le> length chain \<Longrightarrow> getHashes f from count = Inr (take count (drop from chain))"
  by (simp add: getHashes_def source_slice)

text \<open>Appending at an aligned position appends the level of what is appended.\<close>

lemma ups_take_append:
  assumes "s = q * 2 ^ d" "s \<le> length chain"
  shows "ups H d (take s chain @ ys) = ups H d (take s chain) @ ups H d ys"
    and "length (ups H d (take s chain)) = q"
  using ups_append[of "take s chain" d q d H ys] assms by (simp_all add: mult.commute)

lemma ups_take_aligned:
  assumes "s = q * 2 ^ d" "s \<le> l" "l \<le> length chain"
  shows "take q (ups H d (take l chain)) = ups H d (take s chain)"
proof -
  have "take l chain = take s chain @ take (l - s) (drop s chain)"
    using assms(2) by (metis le_add_diff_inverse take_add)
  then show ?thesis
    using ups_take_append(1)[OF assms(1), of "take (l - s) (drop s chain)"] ups_take_append(2)[OF assms(1)] assms
    by simp
qed

lemma leafStart_eq: "leafStart c l = (l div 2 ^ c_depthHigher c) * 2 ^ c_depthHigher c"
  by (simp add: leafStart_def push_bit_eq_mult drop_bit_eq_div)

lemma leafStart_le: "leafStart c l \<le> l"
  by (simp add: leafStart_eq)

lemma extendTo_ok:
  assumes "cache_inv H chain c" "l \<le> length chain"
  shows "\<exists>c'. extendTo H f l c = (Inr (), c') \<and> cache_inv H chain c' \<and>
    c_length c' = max l (c_length c) \<and> c_depthHigher c' = c_depthHigher c"
proof (cases "l \<le> c_length c")
  case True
  then show ?thesis using assms by (simp add: extendTo_def max_def)
next
  case False
  let ?d = "c_depthHigher c" and ?s = "leafStart c (c_length c)"
  let ?q = "c_length c div 2 ^ ?d"
  have s: "?s = ?q * 2 ^ ?d" by (rule leafStart_eq)
  have sl: "?s \<le> c_length c" by (rule leafStart_le)
  have lc: "c_length c \<le> length chain" and lvl: "c_level c = ups H ?d (take (c_length c) chain)"
    and d: "?d \<le> MaxDepth" using assms by (simp_all add: cache_inv_def)
  have lim: "drop_bit ?d ?s = ?q" unfolding s by (simp add: drop_bit_eq_div)
  have tk: "take ?q (c_level c) = ups H ?d (take ?s chain)" unfolding lvl using s sl lc by (rule ups_take_aligned)
  have ql: "?q \<le> length (c_level c)"
    using ups_take_append(2)[OF s] sl lc tk by (metis le_trans length_take min.cobounded1)
  have g: "getHashes f ?s (l - ?s) = Inr (take (l - ?s) (drop ?s chain))"
    using False assms sl by (intro getHashes_ok) auto
  have ne: "take (l - ?s) (drop ?s chain) \<noteq> []" using False assms sl by simp
  have lev: "getLevel H (c\<lparr>c_level := x\<rparr>) (take (l - ?s) (drop ?s chain)) = Inr (ups H ?d (take (l - ?s) (drop ?s chain)))" for x
    using ne d by (simp add: getLevel_def level_eq)
  have app: "ups H ?d (take l chain) = ups H ?d (take ?s chain) @ ups H ?d (take (l - ?s) (drop ?s chain))"
  proof -
    have "?s \<le> l" using sl False by simp
    then have "take l chain = take ?s chain @ take (l - ?s) (drop ?s chain)"
      by (metis le_add_diff_inverse take_add)
    then show ?thesis using ups_take_append(1)[OF s] sl lc by simp
  qed
  show ?thesis
    using False assms g lim ql lev tk app
    by (auto simp: extendTo_def Let_def cache_inv_def max_def)
qed

lemma levelFor_ok:
  assumes "cache_inv H chain c" "0 < l" "l \<le> c_length c"
    and "l < c_length c \<Longrightarrow> l mod 2 ^ c_depthHigher c \<noteq> 0"
  shows "levelFor H f l c = Inr (ups H (c_depthHigher c) (take l chain))"
proof (cases "l = c_length c")
  case True
  then show ?thesis using assms by (simp add: levelFor_def cache_inv_def)
next
  case False
  let ?d = "c_depthHigher c" and ?s = "leafStart c l"
  let ?q = "l div 2 ^ ?d"
  have s: "?s = ?q * 2 ^ ?d" by (rule leafStart_eq)
  have lc: "c_length c \<le> length chain" and lvl: "c_level c = ups H ?d (take (c_length c) chain)"
    and d: "?d \<le> MaxDepth" using assms by (simp_all add: cache_inv_def)
  have r: "l - ?s = l mod 2 ^ ?d" unfolding s by (simp add: minus_div_mult_eq_mod)
  have r0: "0 < l - ?s" and rs: "l - ?s < 2 ^ ?d" using assms False by (simp_all add: r)
  have seg: "min (segmentLength c) (l - ?s) = l - ?s"
    using rs by (simp add: segmentLength_def push_bit_eq_mult)
  have lim: "drop_bit ?d l < length (c_level c)"
    unfolding lvl length_ups using div_less_cdiv[of l "c_length c" ?d] False assms lc
    by (simp add: drop_bit_eq_div)
  have tk: "take ?q (c_level c) = ups H ?d (take ?s chain)"
    unfolding lvl using s leafStart_le[of c l] assms lc by (intro ups_take_aligned) linarith+
  have g: "getHashes f ?s (l - ?s) = Inr (take (l - ?s) (drop ?s chain))"
    using assms lc r0 leafStart_le[of c l] by (intro getHashes_ok) auto
  have lev: "getLevel H c (take (l - ?s) (drop ?s chain)) = Inr (ups H ?d (take (l - ?s) (drop ?s chain)))"
    using r0 d assms lc by (simp add: getLevel_def level_eq)
  have "take l chain = take ?s chain @ take (l - ?s) (drop ?s chain)"
    using leafStart_le[of c l] by (metis le_add_diff_inverse take_add)
  then have "ups H ?d (take l chain) = ups H ?d (take ?s chain) @ ups H ?d (take (l - ?s) (drop ?s chain))"
    using ups_take_append(1)[OF s] leafStart_le[of c l] assms lc by simp
  then show ?thesis
    using False lim seg g lev tk by (simp add: levelFor_def Let_def drop_bit_eq_div)
qed

end

context node_hash
begin

text \<open>A branch assembled from a leaf segment and the level above it is the branch of the whole tree.\<close>

lemma branchAndRootFromLevel_eq:
  assumes hs: "\<And>h. h \<in> set hs \<Longrightarrow> length h = 32" and i: "index < length hs"
    and d: "2 ^ d \<le> length hs" "d \<le> MaxDepth"
    and leaf: "leaf = take (2 ^ d) (drop (push_bit d (drop_bit d index)) hs)"
  shows "branchAndRootFromLevel H (ups H d hs) leaf index d = branchAndRoot H hs index None"
proof -
  let ?s = "push_bit d (drop_bit d index)" and ?L = "ceil_log2 (cdiv (length hs) (2 ^ d))"
  let ?lvl = "ups H d hs" and ?q = "drop_bit d index"
  have s: "?s = index div 2 ^ d * 2 ^ d" by (simp add: push_bit_eq_mult drop_bit_eq_div)
  have r: "index - ?s < 2 ^ d" unfolding s by (simp add: minus_div_mult_eq_mod)
  have sl: "?s \<le> index" unfolding s by simp
  have li: "index - ?s < length leaf" using r sl i by (simp add: leaf)
  have ll: "length leaf \<le> 2 ^ d" by (simp add: leaf)
  have ql: "?q < length ?lvl" unfolding length_ups drop_bit_eq_div using i by (rule div_less_cdiv)
  have hl: "h \<in> set leaf \<Longrightarrow> length h = 32" for h
    using hs by (auto simp: leaf dest: in_set_takeD in_set_dropD)
  have u: "map to_uint256 leaf = leaf" "map to_uint256 ?lvl = ?lvl" "map to_uint256 hs = hs"
    using hl ups_hashes[OF hs] hs by (auto intro: map_to_uint256)
  have b1: "branchAndRoot H leaf (index - ?s) (Some d) =
      Inr (map (sibling H leaf (index - ?s)) [0..<d], hd (ups H d leaf))"
    using li ll u by (simp add: branchAndRoot_eq[where len = d])
  have b2: "branchAndRoot H ?lvl ?q None =
      Inr (map (sibling H ?lvl ?q) [0..<?L], hd (ups H ?L ?lvl))"
    using ql u by (simp add: branchAndRoot_natural length_ups)
  have lr: "hd (ups H d leaf) = ?lvl ! ?q"
    using hd_ups_segments[of ?q hs d H] ql by (simp add: length_ups leaf push_bit_eq_mult)
  have sib: "map (sibling H leaf (index - ?s)) [0..<d] = map (sibling H hs index) [0..<d]"
    using sibling_low[of _ d index hs H] i by (simp add: leaf)
  have len: "ceil_log2 (length hs) = d + ?L" using d(1) by (rule ceil_log2_cdiv)
  have "branchAndRoot H hs index None =
      Inr (map (sibling H hs index) [0..<d + ?L], hd (ups H (d + ?L) hs))"
    using i u by (simp add: branchAndRoot_natural len)
  moreover have "ups H (d + ?L) hs = ups H ?L ?lvl" by (simp add: add.commute[of d] funpow_add)
  moreover have "?lvl \<noteq> []" "leaf \<noteq> []" using ql li by auto
  ultimately show ?thesis
    using d(2) b1 b2 lr sib ql by (simp add: branchAndRootFromLevel_def Let_def siblings_split)
qed

end

context header_source
begin

lemma cache_branchAndRoot_ok:
  assumes inv: "cache_inv H chain c" and len: "0 < len" "index < len" "len \<le> length chain"
    and aligned: "len < c_length c \<Longrightarrow> 2 ^ c_depthHigher c \<le> len \<Longrightarrow> len mod 2 ^ c_depthHigher c \<noteq> 0"
  shows "\<exists>c'. cache_branchAndRoot H f len index c = (branchAndRoot H (take len chain) index None, c') \<and>
    cache_inv H chain c' \<and> c_length c' = max len (c_length c) \<and> c_depthHigher c' = c_depthHigher c"
proof -
  obtain c' where ext: "extendTo H f len c = (Inr (), c')" and inv': "cache_inv H chain c'"
    and l': "c_length c' = max len (c_length c)" and d': "c_depthHigher c' = c_depthHigher c"
    using extendTo_ok[OF inv len(3)] by blast
  let ?d = "c_depthHigher c'" and ?ls = "leafStart c' index"
  have ls: "?ls = index div 2 ^ ?d * 2 ^ ?d" "?ls \<le> index" by (simp_all add: leafStart_eq)
  have seg: "segmentLength c' = 2 ^ ?d" by (simp add: segmentLength_def push_bit_eq_mult)
  let ?cnt = "min (2 ^ ?d) (len - ?ls)"
  have g: "getHashes f ?ls ?cnt = Inr (take ?cnt (drop ?ls chain))"
    using len ls(2) by (intro getHashes_ok) auto
  have "cache_branchAndRoot H f len index c =
      (if len < 2 ^ ?d then branchAndRoot H (take ?cnt (drop ?ls chain)) index None
       else rbind (levelFor H f len c')
              (\<lambda>lvl. branchAndRootFromLevel H lvl (take ?cnt (drop ?ls chain)) index ?d), c')"
    using inv len ext l' g by (simp add: cache_branchAndRoot_def cache_inv_def Let_def seg)
  moreover have "(if len < 2 ^ ?d then branchAndRoot H (take ?cnt (drop ?ls chain)) index None
       else rbind (levelFor H f len c')
              (\<lambda>lvl. branchAndRootFromLevel H lvl (take ?cnt (drop ?ls chain)) index ?d))
       = branchAndRoot H (take len chain) index None"
  proof (cases "len < 2 ^ ?d")
    case True
    then have "?ls = 0" using len ls by simp
    then show ?thesis using True by simp
  next
    case False
    have "levelFor H f len c' = Inr (ups H ?d (take len chain))"
      using inv' len l' d' aligned False by (intro levelFor_ok) (auto simp: max_def split: if_splits)
    moreover have "take ?cnt (drop ?ls chain) = take (2 ^ ?d) (drop (push_bit ?d (drop_bit ?d index)) (take len chain))"
      using leafStart_def[of c' index] by (simp add: drop_take take_take)
    moreover have "?d \<le> MaxDepth" using inv' by (simp add: cache_inv_def)
    moreover have "h \<in> set (take len chain) \<Longrightarrow> length h = 32" for h by (meson chain_hashes in_set_takeD)
    ultimately show ?thesis
      using False len by (simp add: branchAndRootFromLevel_eq)
  qed
  ultimately show ?thesis using inv' l' d' by auto
qed

lemma initialize_ok:
  assumes "0 < l" "l \<le> length chain" "l \<le> 2 ^ 50"
  shows "\<exists>c'. cache_initialize H f l c = (Inr (), c') \<and> cache_inv H chain c' \<and> c_length c' = l"
proof -
  have g: "getHashes f 0 l = Inr (take l chain)" using assms getHashes_ok[of l 0] by simp
  have "ceil_log2 l \<le> 50" using assms by (simp only: ceil_log2_le_iff)
  then have d: "treeDepth l div 2 \<le> MaxDepth" using assms(1) by (simp add: treeDepth_def branchLength_def)
  have "take l chain \<noteq> []" using assms(1,2) by auto
  then show ?thesis
    using assms(1,2) d by (simp add: cache_initialize_def g initialize_nolock_def Let_def getLevel_def level_eq
        cache_inv_def)
qed

lemma truncate_ok:
  assumes inv: "cache_inv H chain c" and n: "0 < n"
    and new: "n \<le> length chain'" "take n chain' = take n chain"
  shows "\<exists>c'. cache_truncate n c = (Inr (), c') \<and> cache_inv H chain' c' \<and> c_length c' \<le> n \<and>
    c_depthHigher c' = c_depthHigher c"
proof (cases "c_length c \<le> n")
  case True
  then have "take (c_length c) chain' = take (c_length c) chain" using arg_cong[OF new(2), of "take (c_length c)"] by (simp add: min_def)
  then show ?thesis using True inv n new by (auto simp: cache_truncate_def cache_inv_def)
next
  case False
  let ?d = "c_depthHigher c" and ?s = "leafStart c n"
  let ?q = "n div 2 ^ ?d"
  have s: "?s = ?q * 2 ^ ?d" "?s \<le> n" by (simp_all add: leafStart_eq)
  have lim: "drop_bit ?d ?s = ?q" unfolding s by (simp add: drop_bit_eq_div)
  have lc: "c_length c \<le> length chain" and lvl: "c_level c = ups H ?d (take (c_length c) chain)"
    using inv by (simp_all add: cache_inv_def)
  have tk: "take ?q (c_level c) = ups H ?d (take ?s chain)"
    unfolding lvl using s(1) False s(2) lc by (intro ups_take_aligned) linarith+
  have "take ?s chain' = take ?s chain"
    using arg_cong[OF new(2), of "take ?s"] s(2) by (simp add: min_def)
  then show ?thesis
    using False inv n new s(2) lim tk
    by (auto simp: cache_truncate_def cache_inv_def Let_def min_def)
qed

end

section \<open>The contract of the merkle functions\<close>

text \<open>The textbook construction: pair up the nodes of a row, the last one with itself where their
  number is odd, until one is left.\<close>

fun merkle_row :: "(bytes \<Rightarrow> hash) \<Rightarrow> hash list \<Rightarrow> hash list" where
  "merkle_row H [] = []"
| "merkle_row H [a] = [H (a @ a)]"
| "merkle_row H (a # b # hs) = H (a @ b) # merkle_row H hs"

lemma length_merkle_row [simp]: "length (merkle_row H hs) = (length hs + 1) div 2"
  by (induction H hs rule: merkle_row.induct) simp_all

function merkle_root :: "(bytes \<Rightarrow> hash) \<Rightarrow> hash list \<Rightarrow> hash" where
  "merkle_root H hs = (if length hs \<le> 1 then hd hs else merkle_root H (merkle_row H hs))"
  by pat_completeness auto
termination
  by (relation "measure (\<lambda>(H, hs). length hs)") auto

declare merkle_root.simps [simp del]

lemma up_merkle_row: "up H hs = merkle_row H hs"
proof (induction H hs rule: merkle_row.induct)
  case (3 H a b hs)
  have "up H ([a, b] @ hs) = up H [a, b] @ up H hs" by (rule up_append) simp
  moreover have "up H [a, b] = [H (a @ b)]" by (simp add: up_def recomputeHashes_def dup_last_def)
  ultimately show ?case using 3 by simp
qed (simp_all add: up_def recomputeHashes_def dup_last_def)

lemma ups_merkle_root: "hs \<noteq> [] \<Longrightarrow> hd (ups H (ceil_log2 (length hs)) hs) = merkle_root H hs"
proof (induction H hs rule: merkle_root.induct)
  case (1 H hs)
  show ?case
  proof (cases "length hs \<le> 1")
    case True
    then show ?thesis by (simp add: merkle_root.simps ceil_log2.simps[of "length hs"])
  next
    case False
    then have e: "ceil_log2 (length hs) = Suc (ceil_log2 (length (merkle_row H hs)))"
      by (subst ceil_log2.simps) simp
    have "0 < length (merkle_row H hs)" using False by simp
    then have "merkle_row H hs \<noteq> []" by force
    then show ?thesis
      using 1(1)[OF False] False up_merkle_row[of H hs]
      unfolding e ups_Suc by (simp add: merkle_root.simps[of H hs])
  qed
qed

text \<open>C27: For every position of a non-empty list of 32-byte hashes, \<open>branchAndRoot\<close> succeeds; the root
  it returns is the textbook merkle root, the branch has \<open>ceil(log2 n)\<close> entries, and folding the
  branch from the leaf, the way a light client does, gives that root.\<close>

theorem branchAndRoot_correct:
  assumes "index < length hs" and "\<forall>h \<in> set hs. length h = 32"
  shows "\<exists>branch. branchAndRoot H hs index None = Inr (branch, merkle_root H hs) \<and>
    length branch = branchLength (length hs) \<and>
    calculateRootFromMerkleBranch H (hs ! index) index branch = merkle_root H hs"
proof -
  let ?n = "ceil_log2 (length hs)"
  let ?br = "map (sibling H hs index) [0..<?n]"
  have u: "map to_uint256 hs = hs" using assms(2) by (simp add: to_uint256_def map_idI)
  have le: "length hs \<le> 2 ^ ?n" using ceil_log2_le_iff[of "length hs" ?n] by simp
  then have one: "length (ups H ?n hs) = Suc 0" using assms(1) ups_singleton[of hs ?n H] by fastforce
  have z: "drop_bit ?n index = 0" using assms(1) le by (simp add: drop_bit_eq_div)
  have "hs \<noteq> []" using assms(1) by auto
  then have r: "hd (ups H ?n hs) = merkle_root H hs" by (rule ups_merkle_root)
  have "branchAndRoot H hs index None = Inr (?br, merkle_root H hs)"
    using branchAndRoot_natural[OF assms(1), of H] u r by simp
  moreover have "calculateRootFromMerkleBranch H (hs ! index) index ?br = merkle_root H hs"
    using fold_branch[OF assms(1), of H ?n] z length1_hd[OF one] r by simp
  moreover have "length ?br = branchLength (length hs)" using \<open>hs \<noteq> []\<close> by (simp add: branchLength_def)
  ultimately show ?thesis by blast
qed

theorem branchAndRoot_correct_witness:
  "\<exists>branch. branchAndRoot (take 32) [replicate 32 1, replicate 32 2, replicate 32 3] 2 None =
      Inr (branch, merkle_root (take 32) [replicate 32 1, replicate 32 2, replicate 32 3])"
  using branchAndRoot_correct[of 2 "[replicate 32 1, replicate 32 2, replicate 32 3]" "take 32"] by auto

text \<open>C28: The header merkle cache is transparent. Over a source that serves the chain's hashes, and
  from any cache that holds its level of the tree, a request for a proof at a length the chain has
  returns exactly what \<open>branchAndRoot\<close> computes over all the hashes, and the cache, extended where
  needed, still holds its level. Excluded are the lengths of \<open>cache_aligned_length_fails\<close>.\<close>

theorem cache_transparent:
  assumes "header_source H f chain" and "cache_inv H chain c"
    and "index < len" and "len \<le> length chain"
    and "len < c_length c \<longrightarrow> 2 ^ c_depthHigher c \<le> len \<longrightarrow> len mod 2 ^ c_depthHigher c \<noteq> 0"
  shows "fst (cache_branchAndRoot H f len index c) = branchAndRoot H (take len chain) index None \<and>
    cache_inv H chain (snd (cache_branchAndRoot H f len index c))"
  using header_source.cache_branchAndRoot_ok[OF assms(1,2) _ assms(3,4)] assms(3,5) by fastforce

definition demo_chain :: "hash list" where
  "demo_chain = map (\<lambda>i. replicate 32 (of_nat i)) [0..<11]"

definition demo_source :: get_hashes_func where
  "demo_source from num = (if from + num \<le> 11 then (take num (drop from demo_chain), []) else ([], ''range''))"

definition demo_hash :: "bytes \<Rightarrow> hash" where
  "demo_hash m = take 32 (rev m @ replicate 32 7)"

lemma demo_header_source: "header_source demo_hash demo_source demo_chain"
  by unfold_locales (auto simp: demo_hash_def demo_source_def demo_chain_def)

theorem cache_transparent_witness:
  "\<exists>c. c_length c = 5 \<and> fst (cache_branchAndRoot demo_hash demo_source 9 6 c) =
     branchAndRoot demo_hash (take 9 demo_chain) 6 None"
proof -
  obtain c where c: "cache_inv demo_hash demo_chain c" "c_length c = 5"
    using header_source.initialize_ok[OF demo_header_source, of 5 cache_new] by (auto simp: demo_chain_def)
  then show ?thesis
    using cache_transparent[OF demo_header_source c(1), of 6 9] by (auto simp: demo_chain_def)
qed

text \<open>A request for a length that is a multiple of the segment length and shorter than the cached
  length always fails: \<open>levelFor\<close> asks the source for the zero hashes of an empty last segment and
  either the source or \<open>level\<close> rejects that, whatever the source answers. \<open>(Such a proof exists and
  the same request succeeds on a cache that is not longer.)\<close>\<close>

lemma cache_aligned_length_fails:
  assumes "0 < len" and "len < c_length c" and "len mod 2 ^ c_depthHigher c = 0" and "index < len"
  shows "\<exists>e. fst (cache_branchAndRoot H f len index c) = Inl e"
proof -
  have 1: "2 ^ c_depthHigher c \<le> len" using assms by (metis mod_less not_less less_irrefl)
  have 2: "leafStart c len = len"
    using assms(3) by (simp add: leafStart_def push_bit_eq_mult drop_bit_eq_div) (metis dvd_div_mult_self mod_0_imp_dvd)
  have "\<exists>e. levelFor H f len c = Inl e"
    using assms by (cases "f len 0") (auto simp: levelFor_def Let_def 2 getHashes_def getLevel_def level_def)
  then show ?thesis
    using assms 1 by (auto simp: cache_branchAndRoot_def extendTo_def Let_def segmentLength_def push_bit_eq_mult
        rbind_def split: sum.splits)
qed

end
