(* ===== verification/Serialization.thy ===== *)
theory Serialization
  imports Fulcrum_Prelude
begin

text \<open>
  \<open>bitcoin/serialize.h\<close>: the wire format. A serialiser returns the bytes it writes; an
  unserialiser is a parser over the bytes the stream has left. The contract of a type's pair of
  functions is the locale \<open>codec\<close> (what was written is read back, and no more is consumed) or
  \<open>canonical_codec\<close> (in addition, whatever is accepted is what would have been written), and the
  container formats are proved once against it.
\<close>

section \<open>Streams as the serialisers see them\<close>

text \<open>Exceptions: \<open>std::ios_base::failure\<close> with its message.\<close>

datatype ser_error = ios_failure string

text \<open>What \<open>GetType\<close> and \<open>GetVersion\<close> of a stream return; both are sets of flags.\<close>

record stream_ctx =
  GetType :: u32
  GetVersion :: u32

abbreviation (input) SER_NETWORK :: u32 where "SER_NETWORK \<equiv> 1"
abbreviation (input) SER_DISK :: u32 where "SER_DISK \<equiv> 2"
abbreviation (input) SER_GETHASH :: u32 where "SER_GETHASH \<equiv> 4"
abbreviation (input) SER_CALIN_CUSTOM_NO_RANGE_CHECKS :: u32 where "SER_CALIN_CUSTOM_NO_RANGE_CHECKS \<equiv> 8"

definition MAX_SIZE :: u64 where "MAX_SIZE = 0x02000000"
definition MAX_VECTOR_ALLOCATE :: nat where "MAX_VECTOR_ALLOCATE = 5000000"

definition stream_read :: "nat \<Rightarrow> (ser_error, bytes) parser" where
  "stream_read n s = (if n \<le> length s then Inr (take n s, drop n s) else Inl (ios_failure ''end of data''))"

section \<open>Fixed-size integers and arrays\<close>

definition ser_writedata8 :: "byte \<Rightarrow> bytes" where "ser_writedata8 obj = [obj]"
definition ser_writedata16 :: "u16 \<Rightarrow> bytes" where "ser_writedata16 obj = le_enc 2 obj"
definition ser_writedata16be :: "u16 \<Rightarrow> bytes" where "ser_writedata16be obj = be_enc 2 obj"
definition ser_writedata32 :: "u32 \<Rightarrow> bytes" where "ser_writedata32 obj = le_enc 4 obj"
definition ser_writedata32be :: "u32 \<Rightarrow> bytes" where "ser_writedata32be obj = be_enc 4 obj"
definition ser_writedata64 :: "u64 \<Rightarrow> bytes" where "ser_writedata64 obj = le_enc 8 obj"

definition ser_readdata8 :: "(ser_error, byte) parser" where
  "ser_readdata8 = p_then (stream_read 1) (\<lambda>obj. p_return (le_dec obj))"
definition ser_readdata16 :: "(ser_error, u16) parser" where
  "ser_readdata16 = p_then (stream_read 2) (\<lambda>obj. p_return (le_dec obj))"
definition ser_readdata16be :: "(ser_error, u16) parser" where
  "ser_readdata16be = p_then (stream_read 2) (\<lambda>obj. p_return (be_dec obj))"
definition ser_readdata32 :: "(ser_error, u32) parser" where
  "ser_readdata32 = p_then (stream_read 4) (\<lambda>obj. p_return (le_dec obj))"
definition ser_readdata32be :: "(ser_error, u32) parser" where
  "ser_readdata32be = p_then (stream_read 4) (\<lambda>obj. p_return (be_dec obj))"
definition ser_readdata64 :: "(ser_error, u64) parser" where
  "ser_readdata64 = p_then (stream_read 8) (\<lambda>obj. p_return (le_dec obj))"

text \<open>
  The overloads of \<open>Serialize\<close> and \<open>Unserialize\<close> for the integer types. A signed integer is its
  two's complement word, which the implicit conversion to the unsigned parameter keeps.
\<close>

definition Serialize_int8 :: "byte \<Rightarrow> bytes" where "Serialize_int8 a = ser_writedata8 a"
definition Serialize_int16 :: "u16 \<Rightarrow> bytes" where "Serialize_int16 a = ser_writedata16 a"
definition Serialize_int32 :: "u32 \<Rightarrow> bytes" where "Serialize_int32 a = ser_writedata32 a"
definition Serialize_int64 :: "u64 \<Rightarrow> bytes" where "Serialize_int64 a = ser_writedata64 a"
definition Serialize_array :: "bytes \<Rightarrow> bytes" where "Serialize_array a = a"
definition Unserialize_int8 :: "(ser_error, byte) parser" where "Unserialize_int8 = ser_readdata8"
definition Unserialize_int16 :: "(ser_error, u16) parser" where "Unserialize_int16 = ser_readdata16"
definition Unserialize_int32 :: "(ser_error, u32) parser" where "Unserialize_int32 = ser_readdata32"
definition Unserialize_int64 :: "(ser_error, u64) parser" where "Unserialize_int64 = ser_readdata64"
definition Unserialize_array :: "nat \<Rightarrow> (ser_error, bytes) parser" where
  "Unserialize_array N = stream_read N"
definition Serialize_bool :: "bool \<Rightarrow> bytes" where
  "Serialize_bool a = ser_writedata8 (if a then 1 else 0)"
definition Unserialize_bool :: "(ser_error, bool) parser" where
  "Unserialize_bool = p_then ser_readdata8 (\<lambda>f. p_return (f \<noteq> 0))"

section \<open>Compact sizes\<close>

definition GetSizeOfCompactSize :: "u64 \<Rightarrow> nat" where
  "GetSizeOfCompactSize nSize =
     (if nSize < 253 then 1
      else if nSize \<le> 0xFFFF then 1 + 2
      else if nSize \<le> 0xFFFFFFFF then 1 + 4
      else 1 + 8)"

definition WriteCompactSize :: "u64 \<Rightarrow> bytes" where
  "WriteCompactSize nSize =
     (if nSize < 253 then ser_writedata8 (ucast nSize)
      else if nSize \<le> 0xFFFF then ser_writedata8 253 @ ser_writedata16 (ucast nSize)
      else if nSize \<le> 0xFFFFFFFF then ser_writedata8 254 @ ser_writedata32 (ucast nSize)
      else ser_writedata8 255 @ ser_writedata64 nSize)"

abbreviation non_canonical :: ser_error where
  "non_canonical \<equiv> ios_failure ''non-canonical ReadCompactSize()''"

definition compact_payload :: "byte \<Rightarrow> (ser_error, u64) parser" where
  "compact_payload chSize =
     (if chSize < 253 then p_return (ucast chSize)
      else if chSize = 253 then
        p_then ser_readdata16 (\<lambda>n. let nSizeRet = ucast n in
          if nSizeRet < 253 then p_fail non_canonical else p_return nSizeRet)
      else if chSize = 254 then
        p_then ser_readdata32 (\<lambda>n. let nSizeRet = ucast n in
          if nSizeRet < 0x10000 then p_fail non_canonical else p_return nSizeRet)
      else
        p_then ser_readdata64 (\<lambda>nSizeRet.
          if nSizeRet < 0x100000000 then p_fail non_canonical else p_return nSizeRet))"

definition ReadCompactSizeWithLimit :: "u64 \<Rightarrow> (ser_error, u64) parser" where
  "ReadCompactSizeWithLimit maxSz =
     p_then (p_then ser_readdata8 compact_payload) (\<lambda>nSizeRet.
       if nSizeRet > maxSz then p_fail (ios_failure ''ReadCompactSize(): size too large'')
       else p_return nSizeRet)"

definition compact_limit :: "stream_ctx \<Rightarrow> bool \<Rightarrow> u64 \<Rightarrow> u64" where
  "compact_limit is range_check MAXSZ =
     (let range_check = (if GetType is AND SER_CALIN_CUSTOM_NO_RANGE_CHECKS \<noteq> 0 then False else range_check)
      in if range_check then MAXSZ else 0xFFFFFFFFFFFFFFFF)"

definition ReadCompactSize :: "stream_ctx \<Rightarrow> bool \<Rightarrow> u64 \<Rightarrow> (ser_error, u64) parser" where
  "ReadCompactSize is range_check MAXSZ = ReadCompactSizeWithLimit (compact_limit is range_check MAXSZ)"

section \<open>Base-128 variable-length integers\<close>

lemma and_127: "(x :: 'a::len word) AND 127 = take_bit 7 x"
proof -
  have "(127 :: 'a word) = mask 7" by (simp add: mask_eq_exp_minus_1)
  then show ?thesis by (simp add: take_bit_eq_mask)
qed

lemma byte_and_128: "(x :: byte) AND 128 = 0 \<longleftrightarrow> \<not> bit x 7"
  using bit_iff_and_push_bit_not_eq_0[of x 7] by simp

lemma varint_digit_last: "unat (n :: 'a::len word) \<le> 127 \<longleftrightarrow> n \<le> 127"
proof (cases "7 \<le> LENGTH('a)")
  case True
  then have "(2::nat) ^ 7 \<le> 2 ^ LENGTH('a)" by (intro power_increasing) auto
  then show ?thesis by (simp add: word_le_nat_alt unat_numeral take_bit_nat_eq_self)
next
  case False
  then have "(2::nat) ^ LENGTH('a) \<le> 2 ^ 7" by (intro power_increasing) auto
  moreover have "unat n < 2 ^ LENGTH('a)" by (rule unsigned_less)
  ultimately have "unat n < 2 ^ 7" by (rule less_le_trans[rotated])
  then have "unat n \<le> 127" by simp
  moreover have "n \<le> 127"
  proof -
    have "(127 :: 'a word) = mask 7" by (simp add: mask_eq_exp_minus_1)
    then have "(127 :: 'a word) = - 1" using False by (simp add: bit_eq_iff bit_simps)
    then show ?thesis by (metis word_order.extremum)
  qed
  ultimately show ?thesis by blast
qed

lemma varint_next: "\<not> n \<le> 127 \<Longrightarrow> unat (drop_bit 7 (n :: 'a::len word) - 1) = unat n div 128 - 1"
proof -
  assume "\<not> n \<le> 127"
  then have "127 < unat n" using varint_digit_last[of n] by simp
  then have "1 \<le> unat (drop_bit 7 n)" unfolding unat_drop_bit_eq by (simp add: drop_bit_eq_div)
  then have "unat (drop_bit 7 n - 1) = unat (drop_bit 7 n) - 1" by (simp add: unat_sub word_le_nat_alt)
  then show ?thesis unfolding unat_drop_bit_eq by (simp add: drop_bit_eq_div)
qed


lemma varint_decreases: "\<not> n \<le> 127 \<Longrightarrow> unat (drop_bit 7 (n :: 'a::len word) - 1) < unat n"
  using varint_digit_last[of n] by (simp add: varint_next less_le_trans)

text \<open>\<open>VarIntMode::DEFAULT\<close>: the type is unsigned. \<open>tmp_digits n len\<close> are the entries the first loop
  of \<open>WriteVarInt\<close> stores from \<open>tmp[len]\<close> on; the second loop writes them back to front.\<close>

function tmp_digits :: "'a::len word \<Rightarrow> nat \<Rightarrow> bytes" where
  "tmp_digits n len =
     (let d = ucast (n AND 0x7F) OR (if len \<noteq> 0 then 0x80 else 0x00)
      in if n \<le> 0x7F then [d] else d # tmp_digits (drop_bit 7 n - 1) (len + 1))"
  by pat_completeness auto
termination
  by (relation "measure (\<lambda>(n, len). unat n)") (auto intro: varint_decreases)

definition WriteVarInt :: "'a::len word \<Rightarrow> bytes" where
  "WriteVarInt n = rev (tmp_digits n 0)"

function sizeof_varint_loop :: "'a::len word \<Rightarrow> nat \<Rightarrow> nat" where
  "sizeof_varint_loop n nRet =
     (let nRet = nRet + 1 in if n \<le> 0x7F then nRet else sizeof_varint_loop (drop_bit 7 n - 1) nRet)"
  by pat_completeness auto
termination
  by (relation "measure (\<lambda>(n, nRet). unat n)") (auto intro: varint_decreases)

declare tmp_digits.simps [simp del] sizeof_varint_loop.simps [simp del]

definition GetSizeOfVarInt :: "'a::len word \<Rightarrow> nat" where
  "GetSizeOfVarInt n = sizeof_varint_loop n 0"

fun read_varint_loop :: "'a::len word \<Rightarrow> (ser_error, 'a word) parser" where
  "read_varint_loop n [] = Inl (ios_failure ''end of data'')"
| "read_varint_loop n (chData # is) =
     (if n > drop_bit 7 (- 1) then Inl (ios_failure ''ReadVarInt(): size too large'')
      else
        let n = push_bit 7 n OR ucast (chData AND 0x7F)
        in if chData AND 0x80 = 0 then Inr (n, is)
           else if n = - 1 then Inl (ios_failure ''ReadVarInt(): size too large'')
           else read_varint_loop (n + 1) is)"

definition ReadVarInt :: "(ser_error, 'a::len word) parser" where
  "ReadVarInt = read_varint_loop 0"

section \<open>Formatters\<close>

definition CustomUint_MAX :: "nat \<Rightarrow> u64" where
  "CustomUint_MAX Bytes = drop_bit (8 * (8 - Bytes)) 0xFFFFFFFFFFFFFFFF"

definition CustomUint_Ser :: "nat \<Rightarrow> bool \<Rightarrow> u64 \<Rightarrow> (ser_error, bytes) result" where
  "CustomUint_Ser Bytes BigEndian v =
     (if v > CustomUint_MAX Bytes then Inl (ios_failure ''CustomUintFormatter value out of range'')
      else if BigEndian then Inr (take Bytes (drop (8 - Bytes) (be_enc 8 v)))
      else Inr (take Bytes (le_enc 8 v)))"

definition CustomUint_Unser :: "nat \<Rightarrow> bool \<Rightarrow> (ser_error, u64) parser" where
  "CustomUint_Unser Bytes BigEndian =
     p_then (stream_read Bytes) (\<lambda>bs.
       if BigEndian then p_return (be_dec (replicate (8 - Bytes) 0 @ bs))
       else p_return (le_dec (bs @ replicate (8 - Bytes) 0)))"

definition CompactSize_Ser :: "'a::len word \<Rightarrow> bytes" where
  "CompactSize_Ser v = WriteCompactSize (ucast v)"

definition CompactSize_Unser :: "stream_ctx \<Rightarrow> bool \<Rightarrow> (ser_error, 'a::len word) parser" where
  "CompactSize_Unser is RangeCheck =
     p_then (ReadCompactSize is RangeCheck MAX_SIZE) (\<lambda>n.
       if unat n > unat (- 1 :: 'a word) then p_fail (ios_failure ''CompactSize exceeds limit of type'')
       else p_return (ucast n))"

definition Serialize_string :: "bytes \<Rightarrow> bytes" where
  "Serialize_string str = WriteCompactSize (of_nat (length str)) @ (if str \<noteq> [] then str else [])"

definition Unserialize_string :: "stream_ctx \<Rightarrow> (ser_error, bytes) parser" where
  "Unserialize_string is =
     p_then (ReadCompactSize is True MAX_SIZE) (\<lambda>nSize.
       if nSize \<noteq> 0 then stream_read (unat nSize) else p_return [])"

definition LimitedString_Unser :: "stream_ctx \<Rightarrow> nat \<Rightarrow> (ser_error, bytes) parser" where
  "LimitedString_Unser is Limit =
     p_then (ReadCompactSize is True MAX_SIZE) (\<lambda>sz.
       if unat sz > Limit then p_fail (ios_failure ''String length limit exceeded'')
       else if sz \<noteq> 0 then stream_read (unat sz) else p_return [])"

definition LimitedString_Ser :: "bytes \<Rightarrow> bytes" where
  "LimitedString_Ser v = Serialize_string v"

definition Vector_Ser :: "('a \<Rightarrow> bytes) \<Rightarrow> 'a list \<Rightarrow> bytes" where
  "Vector_Ser ser v = WriteCompactSize (of_nat (length v)) @ concat (map ser v)"

text \<open>The inner loop reads elements until the vector has \<open>allocated\<close> of them; the outer one raises
  \<open>allocated\<close> in batches of five million bytes. The element size is at most that by a static
  assertion, which is the guard \<open>0 < step\<close>.\<close>

primrec read_elems :: "(ser_error, 'a) parser \<Rightarrow> nat \<Rightarrow> (ser_error, 'a list) parser" where
  "read_elems unser 0 = p_return []"
| "read_elems unser (Suc k) = p_then unser (\<lambda>x. p_then (read_elems unser k) (\<lambda>xs. p_return (x # xs)))"

function unser_batches ::
  "(ser_error, 'a) parser \<Rightarrow> nat \<Rightarrow> nat \<Rightarrow> nat \<Rightarrow> 'a list \<Rightarrow> (ser_error, 'a list) parser" where
  "unser_batches unser step sz allocated v s =
     (if allocated < sz \<and> 0 < step then
        let allocated = min sz (allocated + step)
        in case read_elems unser (allocated - length v) s of
             Inl e \<Rightarrow> Inl e
           | Inr (xs, s') \<Rightarrow> unser_batches unser step sz allocated (v @ xs) s'
      else Inr (v, s))"
  by pat_completeness auto
termination
  by (relation "measure (\<lambda>(unser, step, sz, allocated, v, s). sz - allocated)") auto

definition Vector_Unser ::
  "stream_ctx \<Rightarrow> nat \<Rightarrow> (ser_error, 'a) parser \<Rightarrow> (ser_error, 'a list) parser" where
  "Vector_Unser is elem_size unser =
     p_then (ReadCompactSize is True MAX_SIZE) (\<lambda>sz.
       unser_batches unser (MAX_VECTOR_ALLOCATE div elem_size) (unat sz) 0 [])"

text \<open>Vectors of bytes are written and read in blocks.\<close>

definition Serialize_bytevec :: "bytes \<Rightarrow> bytes" where
  "Serialize_bytevec v = WriteCompactSize (of_nat (length v)) @ (if v \<noteq> [] then v else [])"

function read_blocks :: "nat \<Rightarrow> nat \<Rightarrow> bytes \<Rightarrow> (ser_error, bytes) parser" where
  "read_blocks nSize i v s =
     (if i < nSize then
        let blk = min (nSize - i) (1 + (MAX_VECTOR_ALLOCATE - 1) div 1)
        in case stream_read blk s of
             Inl e \<Rightarrow> Inl e
           | Inr (bs, s') \<Rightarrow> read_blocks nSize (i + blk) (v @ bs) s'
      else Inr (v, s))"
  by pat_completeness auto
termination
  by (relation "measure (\<lambda>(nSize, i, v, s). nSize - i)") auto

definition Unserialize_bytevec :: "stream_ctx \<Rightarrow> (ser_error, bytes) parser" where
  "Unserialize_bytevec is =
     p_then (ReadCompactSize is True MAX_SIZE) (\<lambda>nSize. read_blocks (unat nSize) 0 [])"

definition Serialize_pair :: "('a \<Rightarrow> bytes) \<Rightarrow> ('b \<Rightarrow> bytes) \<Rightarrow> 'a \<times> 'b \<Rightarrow> bytes" where
  "Serialize_pair serK serT item = serK (fst item) @ serT (snd item)"

definition Unserialize_pair ::
  "(ser_error, 'a) parser \<Rightarrow> (ser_error, 'b) parser \<Rightarrow> (ser_error, 'a \<times> 'b) parser" where
  "Unserialize_pair unserK unserT = p_then unserK (\<lambda>k. p_then unserT (\<lambda>t. p_return (k, t)))"

text \<open>\<open>std::map\<close> and \<open>std::set\<close> as their elements in key order; inserting a key that is there
  leaves the container as it is.\<close>

fun map_insert :: "'k::linorder \<Rightarrow> 'v \<Rightarrow> ('k \<times> 'v) list \<Rightarrow> ('k \<times> 'v) list" where
  "map_insert k v [] = [(k, v)]"
| "map_insert k v ((k', v') # m) =
     (if k < k' then (k, v) # (k', v') # m
      else if k = k' then (k', v') # m
      else (k', v') # map_insert k v m)"

primrec read_map :: "(ser_error, 'k::linorder \<times> 'v) parser \<Rightarrow> nat \<Rightarrow> ('k \<times> 'v) list \<Rightarrow> (ser_error, ('k \<times> 'v) list) parser" where
  "read_map unser 0 m = p_return m"
| "read_map unser (Suc n) m = p_then unser (\<lambda>(k, v). read_map unser n (map_insert k v m))"

definition Serialize_map :: "('k \<Rightarrow> bytes) \<Rightarrow> ('v \<Rightarrow> bytes) \<Rightarrow> ('k \<times> 'v) list \<Rightarrow> bytes" where
  "Serialize_map serK serT m = WriteCompactSize (of_nat (length m)) @ concat (map (Serialize_pair serK serT) m)"

definition Unserialize_map ::
  "stream_ctx \<Rightarrow> (ser_error, 'k::linorder) parser \<Rightarrow> (ser_error, 'v) parser \<Rightarrow> (ser_error, ('k \<times> 'v) list) parser" where
  "Unserialize_map is unserK unserT =
     p_then (ReadCompactSize is True MAX_SIZE) (\<lambda>nSize. read_map (Unserialize_pair unserK unserT) (unat nSize) [])"

primrec read_set :: "(ser_error, 'k::linorder) parser \<Rightarrow> nat \<Rightarrow> 'k list \<Rightarrow> (ser_error, 'k list) parser" where
  "read_set unser 0 m = p_return m"
| "read_set unser (Suc n) m = p_then unser (\<lambda>k. read_set unser n (if k \<in> set m then m else insort k m))"

definition Serialize_set :: "('k \<Rightarrow> bytes) \<Rightarrow> 'k list \<Rightarrow> bytes" where
  "Serialize_set ser m = WriteCompactSize (of_nat (length m)) @ concat (map ser m)"

definition Unserialize_set :: "stream_ctx \<Rightarrow> (ser_error, 'k::linorder) parser \<Rightarrow> (ser_error, 'k list) parser" where
  "Unserialize_set is unser =
     p_then (ReadCompactSize is True MAX_SIZE) (\<lambda>nSize. read_set unser (unat nSize) [])"

declare unser_batches.simps [simp del] read_blocks.simps [simp del]

section \<open>The contract of a serialisable type\<close>

locale codec =
  fixes ser :: "'a \<Rightarrow> bytes" and unser :: "(ser_error, 'a) parser" and ok :: "'a \<Rightarrow> bool"
  assumes unser_ser: "ok x \<Longrightarrow> unser (ser x @ rest) = Inr (x, rest)"
begin

lemma ser_prefix_free: "ok x \<Longrightarrow> ok y \<Longrightarrow> ser x @ r = ser y @ r' \<Longrightarrow> x = y \<and> r = r'"
  by (metis unser_ser Inr_inject prod.inject)

lemma read_elems_ser:
  "list_all ok xs \<Longrightarrow> read_elems unser (length xs) (concat (map ser xs) @ rest) = Inr (xs, rest)"
  by (induction xs) (simp_all add: unser_ser)

end

locale canonical_codec = codec +
  assumes unser_sound: "unser s = Inr (x, rest) \<Longrightarrow> ok x \<and> s = ser x @ rest"
begin

lemma unser_iff: "unser s = Inr (x, rest) \<longleftrightarrow> ok x \<and> s = ser x @ rest"
  using unser_ser unser_sound by blast

lemma read_elems_iff:
  "read_elems unser n s = Inr (xs, rest) \<longleftrightarrow> length xs = n \<and> list_all ok xs \<and> s = concat (map ser xs) @ rest"
proof (induction n arbitrary: s xs rest)
  case (Suc n)
  then show ?case by (cases xs) (auto simp: p_then_Inr_iff unser_iff)
qed auto

end

lemma canonical_codecI:
  assumes "\<And>s x rest. unser s = Inr (x, rest) \<longleftrightarrow> ok x \<and> s = ser x @ rest"
  shows "canonical_codec ser unser ok"
  by unfold_locales (simp_all add: assms)

lemma stream_read_Inr_iff: "stream_read n s = Inr (bs, rest) \<longleftrightarrow> length bs = n \<and> s = bs @ rest"
  by (auto simp: stream_read_def)

lemma stream_read_append [simp]: "length bs = n \<Longrightarrow> stream_read n (bs @ rest) = Inr (bs, rest)"
  by (simp add: stream_read_Inr_iff)

lemma le_int_iff:
  assumes "8 * n = LENGTH('a)"
  shows "p_then (stream_read n) (\<lambda>obj. p_return (le_dec obj :: 'a::len word)) s = Inr (x, rest)
    \<longleftrightarrow> s = le_enc n x @ rest"
  using assms by (auto simp: p_then_Inr_iff stream_read_Inr_iff le_enc_le_dec)

lemma be_int_iff:
  assumes "8 * n = LENGTH('a)"
  shows "p_then (stream_read n) (\<lambda>obj. p_return (be_dec obj :: 'a::len word)) s = Inr (x, rest)
    \<longleftrightarrow> s = be_enc n x @ rest"
  using assms by (auto simp: p_then_Inr_iff stream_read_Inr_iff be_enc_be_dec)

lemma ser_readdata8_iff: "ser_readdata8 s = Inr (x, rest) \<longleftrightarrow> s = x # rest"
  using le_int_iff[of 1 s x rest] by (simp add: ser_readdata8_def)

lemma ser_readdata_iff:
  "ser_readdata16 s = Inr (x16, rest) \<longleftrightarrow> s = ser_writedata16 x16 @ rest"
  "ser_readdata16be s = Inr (x16, rest) \<longleftrightarrow> s = ser_writedata16be x16 @ rest"
  "ser_readdata32 s = Inr (x32, rest) \<longleftrightarrow> s = ser_writedata32 x32 @ rest"
  "ser_readdata32be s = Inr (x32, rest) \<longleftrightarrow> s = ser_writedata32be x32 @ rest"
  "ser_readdata64 s = Inr (x64, rest) \<longleftrightarrow> s = ser_writedata64 x64 @ rest"
  by (simp_all add: le_int_iff be_int_iff ser_readdata16_def ser_readdata32_def ser_readdata64_def ser_readdata16be_def
      ser_readdata32be_def ser_writedata16_def ser_writedata32_def ser_writedata64_def
      ser_writedata16be_def ser_writedata32be_def)

lemma ser_readdata8_Cons [simp]: "ser_readdata8 (x # rest) = Inr (x, rest)"
  by (simp add: ser_readdata8_iff)

lemma ser_readdata8_Nil [simp]: "ser_readdata8 [] = Inl (ios_failure ''end of data'')"
  by (simp add: ser_readdata8_def p_then_def stream_read_def)

lemma ser_readdata_append [simp]:
  "ser_readdata16 (ser_writedata16 x16 @ rest) = Inr (x16, rest)"
  "ser_readdata16be (ser_writedata16be x16 @ rest) = Inr (x16, rest)"
  "ser_readdata32 (ser_writedata32 x32 @ rest) = Inr (x32, rest)"
  "ser_readdata32be (ser_writedata32be x32 @ rest) = Inr (x32, rest)"
  "ser_readdata64 (ser_writedata64 x64 @ rest) = Inr (x64, rest)"
  by (simp_all only: ser_readdata_iff)

interpretation int8: canonical_codec Serialize_int8 Unserialize_int8 "\<lambda>_. True"
  by (rule canonical_codecI) (simp add: Serialize_int8_def Unserialize_int8_def ser_writedata8_def ser_readdata8_iff)

interpretation int16: canonical_codec Serialize_int16 Unserialize_int16 "\<lambda>_. True"
  by (rule canonical_codecI) (simp add: Serialize_int16_def Unserialize_int16_def ser_readdata_iff)

interpretation int32: canonical_codec Serialize_int32 Unserialize_int32 "\<lambda>_. True"
  by (rule canonical_codecI) (simp add: Serialize_int32_def Unserialize_int32_def ser_readdata_iff)

interpretation int64: canonical_codec Serialize_int64 Unserialize_int64 "\<lambda>_. True"
  by (rule canonical_codecI) (simp add: Serialize_int64_def Unserialize_int64_def ser_readdata_iff)

interpretation int16be: canonical_codec ser_writedata16be ser_readdata16be "\<lambda>_. True"
  by (rule canonical_codecI) (simp add: ser_readdata_iff)

interpretation int32be: canonical_codec ser_writedata32be ser_readdata32be "\<lambda>_. True"
  by (rule canonical_codecI) (simp add: ser_readdata_iff)

interpretation array: canonical_codec Serialize_array "Unserialize_array N" "\<lambda>a. length a = N" for N
  by (rule canonical_codecI) (simp add: Serialize_array_def Unserialize_array_def stream_read_Inr_iff)

interpretation bool: codec Serialize_bool Unserialize_bool "\<lambda>_. True"
  by unfold_locales (simp add: Serialize_bool_def Unserialize_bool_def ser_writedata8_def)

section \<open>Compact sizes\<close>

lemma unat_le_max: "unat (x :: u16) \<le> 65535" "unat (x :: u16) \<le> 4294967295" "unat (y :: u32) \<le> 4294967295"
  using unat_bound[of x] unat_bound[of y] by simp_all

lemma compact_payload_iff:
  "p_then ser_readdata8 compact_payload s = Inr (n, rest) \<longleftrightarrow> s = WriteCompactSize n @ rest"
proof
  assume "p_then ser_readdata8 compact_payload s = Inr (n, rest)"
  then obtain ch s' where s: "s = ch # s'" and p: "compact_payload ch s' = Inr (n, rest)"
    by (auto simp: p_then_Inr_iff ser_readdata8_iff)
  have ch: "ch < 253 \<or> ch = 253 \<or> ch = 254 \<or> ch = 255"
    using unat_bound[of ch] by (simp add: word_less_nat_alt word_unat_eq_iff) linarith
  show "s = WriteCompactSize n @ rest"
    using p ch unfolding s
    by (auto simp: unat_le_max compact_payload_def WriteCompactSize_def ser_writedata8_def p_then_Inr_iff ser_readdata_iff Let_def
        word_less_nat_alt word_le_nat_alt split: if_splits)
next
  assume s: "s = WriteCompactSize n @ rest"
  show "p_then ser_readdata8 compact_payload s = Inr (n, rest)"
    unfolding s WriteCompactSize_def
    by (auto simp: ser_writedata8_def compact_payload_def word_less_nat_alt word_le_nat_alt unat_ucast_small
        intro: ucast_down_up)
qed

lemma ReadCompactSizeWithLimit_iff:
  "ReadCompactSizeWithLimit maxSz s = Inr (n, rest) \<longleftrightarrow> n \<le> maxSz \<and> s = WriteCompactSize n @ rest"
  unfolding ReadCompactSizeWithLimit_def p_then_Inr_iff[of "p_then _ _"] compact_payload_iff
  by (auto simp: not_less)

interpretation compact_size: canonical_codec WriteCompactSize "ReadCompactSize is range_check MAXSZ"
  "\<lambda>n. n \<le> compact_limit is range_check MAXSZ" for "is" range_check MAXSZ
  by (rule canonical_codecI) (simp add: ReadCompactSize_def ReadCompactSizeWithLimit_iff)

lemma length_WriteCompactSize [len_simps]: "length (WriteCompactSize n) = GetSizeOfCompactSize n"
  by (simp add: WriteCompactSize_def GetSizeOfCompactSize_def ser_writedata8_def ser_writedata16_def
      ser_writedata32_def ser_writedata64_def)

lemma compact_limit_ge: "MAX_SIZE \<le> compact_limit is range_check MAX_SIZE"
  by (simp add: compact_limit_def Let_def MAX_SIZE_def)

section \<open>Variable-length integers\<close>

lemma tmp_digits_flag: "0 < len \<Longrightarrow> 0 < len' \<Longrightarrow> tmp_digits n len = tmp_digits n len'"
proof (induction n len arbitrary: len' rule: tmp_digits.induct)
  case (1 n len)
  have "\<not> n \<le> 127 \<Longrightarrow> tmp_digits (drop_bit 7 n - 1) (len + 1) = tmp_digits (drop_bit 7 n - 1) (len' + 1)"
    by (rule 1) simp_all
  then show ?case using 1(2,3) by (simp add: tmp_digits.simps[of n len] tmp_digits.simps[of n len'] Let_def)
qed

lemma split7: "push_bit 7 (drop_bit 7 n) OR take_bit 7 n = (n :: 'a::len word)"
  by (rule bit_word_eqI) (auto simp: bit_simps)

lemma low7:
  fixes n :: "'a::len word"
  assumes "8 \<le> LENGTH('a)"
  shows "ucast (take_bit 7 (ucast (take_bit 7 n) :: byte)) = take_bit 7 n"
    "ucast (take_bit 7 ((ucast (take_bit 7 n) :: byte) OR 128)) = take_bit 7 n"
    "\<not> bit (ucast (take_bit 7 n) :: byte) 7"
    "bit ((ucast (take_bit 7 n) :: byte) OR 128) 7"
proof -
  have b: "bit (128 :: byte) k \<longleftrightarrow> k = 7" for k
    using bit_push_bit_iff[of 7 "1 :: byte" k] by (auto simp: bit_simps)
  show "ucast (take_bit 7 (ucast (take_bit 7 n) :: byte)) = take_bit 7 n"
    using assms by (intro bit_word_eqI) (auto simp: bit_simps)
  show "ucast (take_bit 7 ((ucast (take_bit 7 n) :: byte) OR 128)) = take_bit 7 n"
    using assms by (intro bit_word_eqI) (auto simp: bit_simps b)
  show "\<not> bit (ucast (take_bit 7 n) :: byte) 7" by (simp add: bit_simps)
  show "bit ((ucast (take_bit 7 n) :: byte) OR 128) 7" by (simp add: bit_or_iff b)
qed

lemma drop_bit_le_max: "\<not> drop_bit 7 (- 1) < drop_bit 7 (n :: 'a::len word)"
  unfolding word_less_nat_alt unat_drop_bit_eq
  by (simp add: drop_bit_eq_div div_le_mono not_less word_le_nat_alt[symmetric])

lemma tmp_digits_step:
  "\<not> n \<le> 127 \<Longrightarrow> tmp_digits n len =
     (ucast (take_bit 7 n) OR (if len \<noteq> 0 then 128 else 0)) # tmp_digits (drop_bit 7 n - 1) 1"
  by (subst tmp_digits.simps) (simp add: Let_def and_127 tmp_digits_flag[of "Suc len" 1])

lemma tmp_digits_end: "n \<le> 127 \<Longrightarrow> tmp_digits n len = [ucast (take_bit 7 n) OR (if len \<noteq> 0 then 128 else 0)]"
  by (subst tmp_digits.simps) (simp add: Let_def and_127)

lemma varint_high:
  assumes "\<not> n \<le> 127" shows "drop_bit 7 (n :: 'a::len word) - 1 \<noteq> - 1"
proof
  assume "drop_bit 7 n - 1 = - 1"
  then have "drop_bit 7 n = 0" by simp
  then have "unat n div 128 = 0" using unat_drop_bit_eq[of 7 n] by (simp add: drop_bit_eq_div)
  then show False using assms varint_digit_last[of n] by simp
qed

lemma varint_low: "(n :: 'a::len word) \<le> 127 \<Longrightarrow> take_bit 7 n = n"
  using varint_digit_last[of n] by (intro take_bit_word_small) simp

text \<open>Reading all the digits but the last: the accumulator is one more than the number they encode.\<close>

lemma read_varint_high:
  fixes n :: "'a::len word"
  assumes "8 \<le> LENGTH('a)" "n \<noteq> - 1"
  shows "read_varint_loop 0 (rev (tmp_digits n 1) @ rest) = read_varint_loop (n + 1) rest"
  using assms(2)
proof (induction "unat n" arbitrary: n rest rule: less_induct)
  case less
  show ?case
  proof (cases "n \<le> 127")
    case True
    then show ?thesis
      using less.prems low7[OF assms(1), of n]
      by (simp add: tmp_digits_end and_127 byte_and_128 Let_def varint_low)
  next
    case False
    have "read_varint_loop 0 (rev (tmp_digits n 1) @ rest) =
        read_varint_loop (drop_bit 7 n) ((ucast (take_bit 7 n) OR 128) # rest)"
      using less.hyps[OF varint_decreases[OF False] varint_high[OF False]] False by (simp add: tmp_digits_step)
    also have "\<dots> = read_varint_loop (n + 1) rest"
      using less.prems low7[OF assms(1), of n] drop_bit_le_max[of n]
      by (simp add: and_127 byte_and_128 Let_def split7)
    finally show ?thesis .
  qed
qed

lemma ReadVarInt_WriteVarInt:
  fixes n :: "'a::len word"
  assumes "8 \<le> LENGTH('a)"
  shows "ReadVarInt (WriteVarInt n @ rest) = Inr (n, rest)"
proof (cases "n \<le> 127")
  case True
  then show ?thesis
    using low7[OF assms, of n]
    by (simp add: ReadVarInt_def WriteVarInt_def tmp_digits_end and_127 byte_and_128 Let_def varint_low)
next
  case False
  then show ?thesis
    using low7[OF assms, of n] drop_bit_le_max[of n] read_varint_high[OF assms varint_high[OF False]]
    by (simp add: ReadVarInt_def WriteVarInt_def tmp_digits_step and_127 byte_and_128 Let_def split7)
qed

abbreviation high_digits :: "'a::len word \<Rightarrow> bytes" where
  "high_digits m \<equiv> if m = 0 then [] else rev (tmp_digits (m - 1) 1)"

lemma varint_acc:
  fixes m :: "'a::len word" and ch :: byte
  assumes "8 \<le> LENGTH('a)" "m \<le> drop_bit 7 (- 1)" and n: "n = push_bit 7 m OR ucast (take_bit 7 ch)"
  shows "drop_bit 7 n = m" "take_bit 7 n = ucast (take_bit 7 ch)" "n \<le> 127 \<longleftrightarrow> m = 0"
proof -
  have "unat m \<le> drop_bit 7 (unat (- 1 :: 'a word))"
    using assms(2) unfolding word_le_nat_alt unat_drop_bit_eq .
  also have "\<dots> < 2 ^ (LENGTH('a) - 7)"
  proof -
    have "(2::nat) ^ (LENGTH('a) - 7) * 2 ^ 7 = 2 ^ LENGTH('a)"
      using assms(1) by (simp only: power_add[symmetric]) simp
    then show ?thesis
      using unat_bound[of "- 1 :: 'a word"] by (simp only: drop_bit_eq_div less_mult_imp_div_less)
  qed
  finally have m: "take_bit (LENGTH('a) - 7) m = m" by (rule take_bit_word_small)
  have "bit m j \<Longrightarrow> j + 7 < LENGTH('a)" for j
    using arg_cong[OF m, of "\<lambda>w. bit w j"] by (simp add: bit_take_bit_iff)
  then show d: "drop_bit 7 n = m"
    unfolding n by (intro bit_word_eqI) (auto simp: bit_simps add.commute)
  show "take_bit 7 n = ucast (take_bit 7 ch)"
    unfolding n using assms(1) by (intro bit_word_eqI) (auto simp: bit_simps)
  have "m = 0 \<longleftrightarrow> unat n div 128 = 0"
    using unat_drop_bit_eq[of 7 n] unfolding d by (simp add: word_unat_eq_iff drop_bit_eq_div)
  also have "\<dots> \<longleftrightarrow> unat n \<le> 127" by auto
  finally show "n \<le> 127 \<longleftrightarrow> m = 0" by (simp add: varint_digit_last)
qed

lemma varint_digits_acc:
  fixes m :: "'a::len word" and ch :: byte
  assumes "8 \<le> LENGTH('a)" "m \<le> drop_bit 7 (- 1)" "n = push_bit 7 m OR ucast (take_bit 7 ch)"
  shows "rev (tmp_digits n len) = high_digits m @ [take_bit 7 ch OR (if len \<noteq> 0 then 128 else 0)]"
proof -
  have u: "ucast (take_bit 7 n) = take_bit 7 ch"
    using varint_acc(2)[OF assms] assms(1) by (simp add: ucast_up_down)
  show ?thesis
    using varint_acc(1,3)[OF assms] by (cases "n \<le> 127") (simp_all add: tmp_digits_end tmp_digits_step u)
qed

lemma byte_split7: "take_bit 7 ch OR (if bit ch 7 then 128 else 0) = (ch :: byte)"
proof -
  have b: "bit (128 :: byte) k \<longleftrightarrow> k = 7" for k
    using bit_push_bit_iff[of 7 "1 :: byte" k] by (auto simp: bit_simps)
  have k: "k = 7" if "bit ch k" "\<not> k < 7" for k using that bit_imp_le_length[of ch k] by simp
  show ?thesis
  proof (rule bit_word_eqI)
    fix k
    show "bit (take_bit 7 ch OR (if bit ch 7 then 128 else 0)) k = bit ch k"
      unfolding bit_or_iff bit_take_bit_iff using k[of k] b[of k] by (cases "bit ch 7") auto
  qed
qed

lemma read_varint_sound:
  fixes m :: "'a::len word"
  assumes "8 \<le> LENGTH('a)"
  shows "read_varint_loop m s = Inr (n, rest) \<Longrightarrow> WriteVarInt n @ rest = high_digits m @ s"
proof (induction m s rule: read_varint_loop.induct)
  case (2 m ch s)
  define n' where "n' = push_bit 7 m OR ucast (take_bit 7 ch)"
  have m: "m \<le> drop_bit 7 (- 1)" using 2(2) by (auto split: if_splits)
  note digits = varint_digits_acc[OF assms m n'_def]
  show ?case
  proof (cases "bit ch 7")
    case False
    then have "n = n'" "rest = s"
      using 2(2) m by (auto simp: byte_and_128 and_127 n'_def Let_def split: if_splits)
    then show ?thesis using digits[of 0] byte_split7[of ch] False by (simp add: WriteVarInt_def)
  next
    case True
    then have r: "n' \<noteq> - 1" "read_varint_loop (n' + 1) s = Inr (n, rest)"
      using 2(2) m by (auto simp: byte_and_128 and_127 n'_def Let_def split: if_splits)
    then have "WriteVarInt n @ rest = high_digits (n' + 1) @ s"
      using 2(1)[of n'] m True by (auto simp: byte_and_128 and_127 n'_def)
    moreover have "n' + 1 \<noteq> 0" using r(1) by (metis eq_neg_iff_add_eq_0)
    ultimately show ?thesis using digits[of 1] byte_split7[of ch] True by simp
  qed
qed simp

lemma varint_codec: "8 \<le> LENGTH('a) \<Longrightarrow> canonical_codec WriteVarInt (ReadVarInt :: (ser_error, 'a::len word) parser) (\<lambda>_. True)"
proof
  fix x :: "'a word" and s rest
  assume w: "8 \<le> LENGTH('a)"
  show "ReadVarInt (WriteVarInt x @ rest) = Inr (x, rest)" by (rule ReadVarInt_WriteVarInt[OF w])
  assume "ReadVarInt s = Inr (x, rest)"
  then show "True \<and> s = WriteVarInt x @ rest"
    using read_varint_sound[OF w, of 0 s x rest] by (simp add: ReadVarInt_def)
qed

interpretation varint32: canonical_codec WriteVarInt "ReadVarInt :: (ser_error, u32) parser" "\<lambda>_. True"
  by (rule varint_codec) simp

interpretation varint64: canonical_codec WriteVarInt "ReadVarInt :: (ser_error, u64) parser" "\<lambda>_. True"
  by (rule varint_codec) simp

lemma sizeof_varint_loop_eq: "sizeof_varint_loop n k = length (tmp_digits n len) + k"
proof (induction n k arbitrary: len rule: sizeof_varint_loop.induct)
  case (1 n k)
  show ?case
  proof (cases "n \<le> 127")
    case True
    then show ?thesis by (simp add: sizeof_varint_loop.simps[of n k] tmp_digits_end)
  next
    case False
    then show ?thesis using 1[OF refl False, of 1] by (simp add: sizeof_varint_loop.simps[of n k] tmp_digits_step)
  qed
qed

lemma tmp_digits_power: "128 ^ length (tmp_digits n len) \<le> 128 * max 1 (unat n)"
proof (induction "unat n" arbitrary: n len rule: less_induct)
  case less
  show ?case
  proof (cases "n \<le> 127")
    case True
    then show ?thesis by (simp add: tmp_digits_end)
  next
    case False
    have "128 * (128::nat) ^ length (tmp_digits (drop_bit 7 n - 1) 1) \<le> 128 * (128 * max 1 (unat n div 128 - 1))"
      using less[OF varint_decreases[OF False], of 1] by (simp only: varint_next[OF False] mult_le_mono2)
    also have "128 * (128 * max 1 (unat n div 128 - 1)) \<le> 128 * max 1 (unat n)"
    proof -
      have "128 * (unat n div 128) \<le> unat n" by simp
      then have "128 * (unat n div 128 - 1) \<le> unat n" by linarith
      moreover have "128 \<le> unat n" using False varint_digit_last[of n] by simp
      ultimately show ?thesis by (simp only: max_def) simp
    qed
    finally show ?thesis using False by (simp add: tmp_digits_step)
  qed
qed

section \<open>Containers\<close>

lemma read_elems_add:
  "read_elems u (m + n) = p_then (read_elems u m) (\<lambda>xs. p_then (read_elems u n) (\<lambda>ys. p_return (xs @ ys)))"
proof (induction m)
  case 0
  show ?case by (rule ext) (simp add: p_then_def split: sum.splits)
next
  case (Suc m)
  then show ?case by (intro ext) (auto simp: p_then_def split: sum.splits prod.splits)
qed

lemma read_elems_length: "read_elems u n s = Inr (xs, rest) \<Longrightarrow> length xs = n"
  by (induction n arbitrary: s xs rest) (auto simp: p_then_Inr_iff)

text \<open>The batches are only about memory: the result is that of reading the elements one by one.\<close>

lemma unser_batches_eq:
  assumes "0 < step" "length v = allocated" "allocated \<le> sz"
  shows "unser_batches u step sz allocated v s = p_then (read_elems u (sz - allocated)) (\<lambda>xs. p_return (v @ xs)) s"
  using assms
proof (induction u step sz allocated v s rule: unser_batches.induct)
  case (1 u step sz allocated v s)
  show ?case
  proof (cases "allocated < sz")
    case True
    define a where "a = min sz (allocated + step)"
    have a: "allocated < a" "a \<le> sz" using True "1.prems" by (simp_all add: a_def)
    then have "sz - allocated = (a - allocated) + (sz - a)" by simp
    then have elems: "read_elems u (sz - allocated) =
        p_then (read_elems u (a - allocated)) (\<lambda>xs. p_then (read_elems u (sz - a)) (\<lambda>ys. p_return (xs @ ys)))"
      by (simp only: read_elems_add)
    have step: "unser_batches u step sz allocated v s = (case read_elems u (a - allocated) s of
        Inl e \<Rightarrow> Inl e | Inr (xs, s') \<Rightarrow> unser_batches u step sz a (v @ xs) s')"
      using True "1.prems" by (subst unser_batches.simps) (simp add: Let_def flip: a_def)
    show ?thesis
    proof (cases "read_elems u (a - allocated) s")
      case (Inl e)
      then show ?thesis by (simp add: step elems p_then_def)
    next
      case (Inr r)
      obtain xs s' where r: "r = (xs, s')" by (cases r)
      have "length (v @ xs) = a" using Inr r a "1.prems" by (auto dest: read_elems_length)
      then have "unser_batches u step sz a (v @ xs) s' =
          p_then (read_elems u (sz - a)) (\<lambda>ys. p_return ((v @ xs) @ ys)) s'"
        using Inr True "1.prems" a(2) by (intro "1.IH"[OF _ a_def _ r[symmetric]]) simp_all
      then show ?thesis using Inr r by (simp add: step elems p_then_def split: sum.splits prod.splits)
    qed
  next
    case False
    then show ?thesis using "1.prems" by (subst unser_batches.simps) simp
  qed
qed

lemma Vector_Unser_eq:
  assumes "0 < elem_size" "elem_size \<le> MAX_VECTOR_ALLOCATE"
  shows "Vector_Unser is elem_size u = p_then (ReadCompactSize is True MAX_SIZE) (\<lambda>sz. read_elems u (unat sz))"
proof -
  have "0 < MAX_VECTOR_ALLOCATE div elem_size" using assms by (simp add: div_greater_zero_iff)
  then have "unser_batches u (MAX_VECTOR_ALLOCATE div elem_size) n 0 [] s = read_elems u n s" for n s
    by (simp add: unser_batches_eq p_then_def split: sum.splits)
  then show ?thesis unfolding Vector_Unser_def by presburger
qed

lemma read_blocks_eq:
  assumes "i = length v" "i \<le> nSize"
  shows "read_blocks nSize i v s = (case stream_read (nSize - i) s of Inl e \<Rightarrow> Inl e | Inr (bs, s') \<Rightarrow> Inr (v @ bs, s'))"
  using assms
proof (induction nSize i v s rule: read_blocks.induct)
  case (1 nSize i v s)
  show ?case
  proof (cases "i < nSize")
    case True
    define blk where "blk = min (nSize - i) (1 + (MAX_VECTOR_ALLOCATE - 1) div 1)"
    have blk: "blk \<le> nSize - i" by (simp add: blk_def)
    have step: "read_blocks nSize i v s = (case stream_read blk s of
        Inl e \<Rightarrow> Inl e | Inr (bs, s') \<Rightarrow> read_blocks nSize (i + blk) (v @ bs) s')"
      using True by (subst read_blocks.simps) (simp only: Let_def if_True flip: blk_def)
    show ?thesis
    proof (cases "blk \<le> length s")
      case False
      then show ?thesis using blk by (simp add: step stream_read_def)
    next
      case len: True
      have "read_blocks nSize (i + blk) (v @ take blk s) (drop blk s) =
          (case stream_read (nSize - (i + blk)) (drop blk s) of
             Inl e \<Rightarrow> Inl e | Inr (bs, s') \<Rightarrow> Inr ((v @ take blk s) @ bs, s'))"
        using "1.IH"[OF True blk_def, of "(take blk s, drop blk s)"] len blk True "1.prems"
        by (simp add: stream_read_def)
      moreover have "take blk s @ take (nSize - (i + blk)) (drop blk s) = take (nSize - i) s"
        using blk by (metis le_add_diff_inverse diff_diff_left take_add)
      moreover have "blk + (nSize - (blk + i)) = nSize - i" using blk True by simp
      ultimately show ?thesis
        using len blk by (auto simp: step stream_read_def add.commute)
    qed
  next
    case False
    then show ?thesis using "1.prems" by (subst read_blocks.simps) (simp add: stream_read_def)
  qed
qed

lemma Unserialize_bytevec_eq:
  "Unserialize_bytevec is = p_then (ReadCompactSize is True MAX_SIZE) (\<lambda>nSize. stream_read (unat nSize))"
proof -
  have "read_blocks n 0 [] s = stream_read n s" for n s
    by (simp add: read_blocks_eq split: sum.splits)
  then show ?thesis unfolding Unserialize_bytevec_def by presburger
qed

text \<open>The number of elements a compact size may announce on this stream.\<close>

abbreviation max_elems :: "stream_ctx \<Rightarrow> nat" where
  "max_elems is \<equiv> unat (compact_limit is True MAX_SIZE)"

lemma sized_iff:
  "p_then (ReadCompactSize is True MAX_SIZE) (\<lambda>sz. P (unat sz)) s = Inr (x, rest) \<longleftrightarrow>
     (\<exists>n r. n \<le> max_elems is \<and> s = WriteCompactSize (of_nat n) @ r \<and> P n r = Inr (x, rest))"
  (is "?l \<longleftrightarrow> ?r")
proof
  assume ?l
  then obtain w r where "w \<le> compact_limit is True MAX_SIZE" "s = WriteCompactSize w @ r" "P (unat w) r = Inr (x, rest)"
    unfolding p_then_Inr_iff compact_size.unser_iff by blast
  then show ?r by (intro exI[of _ "unat w"] exI[of _ r]) (simp add: word_le_nat_alt)
next
  assume ?r
  then obtain n r where n: "n \<le> max_elems is" "s = WriteCompactSize (of_nat n) @ r" "P n r = Inr (x, rest)" by blast
  then have "unat (of_nat n :: u64) = n"
    using unat_bound[of "compact_limit is True MAX_SIZE"] unfolding unat_of_nat by simp
  then show ?l unfolding p_then_Inr_iff compact_size.unser_iff word_le_nat_alt using n
    by (intro exI[of _ "of_nat n"] exI[of _ r]) simp
qed

context codec
begin

lemma vector_codec:
  assumes "0 < elem_size" "elem_size \<le> MAX_VECTOR_ALLOCATE"
  shows "codec (Vector_Ser ser) (Vector_Unser is elem_size unser) (\<lambda>v. length v \<le> max_elems is \<and> list_all ok v)"
proof
  fix v rest
  assume "length v \<le> max_elems is \<and> list_all ok v"
  then show "Vector_Unser is elem_size unser (Vector_Ser ser v @ rest) = Inr (v, rest)"
    unfolding Vector_Unser_eq[OF assms] sized_iff Vector_Ser_def
    by (intro exI[of _ "length v"]) (simp add: read_elems_ser)
qed

end

context canonical_codec
begin

lemma canonical_vector_codec:
  assumes "0 < elem_size" "elem_size \<le> MAX_VECTOR_ALLOCATE"
  shows "canonical_codec (Vector_Ser ser) (Vector_Unser is elem_size unser)
    (\<lambda>v. length v \<le> max_elems is \<and> list_all ok v)"
  by (rule canonical_codecI)
    (auto simp: Vector_Unser_eq[OF assms] sized_iff Vector_Ser_def read_elems_iff)

end

interpretation bytevec: canonical_codec Serialize_bytevec "Unserialize_bytevec is"
  "\<lambda>v. length v \<le> max_elems is" for "is"
  by (rule canonical_codecI)
    (auto simp: Unserialize_bytevec_eq sized_iff Serialize_bytevec_def stream_read_Inr_iff)

lemma Unserialize_string_eq:
  "Unserialize_string is = p_then (ReadCompactSize is True MAX_SIZE) (\<lambda>nSize. stream_read (unat nSize))"
proof -
  have "(if w \<noteq> 0 then stream_read (unat w) else p_return []) = stream_read (unat w)" for w :: u64
    by (rule ext) (simp add: stream_read_def)
  then show ?thesis unfolding Unserialize_string_def by presburger
qed

interpretation str: canonical_codec Serialize_string "Unserialize_string is" "\<lambda>v. length v \<le> max_elems is" for "is"
  by (rule canonical_codecI)
    (auto simp: Unserialize_string_eq sized_iff Serialize_string_def stream_read_Inr_iff)

lemma LimitedString_Unser_eq:
  "LimitedString_Unser is L = p_then (ReadCompactSize is True MAX_SIZE)
     (\<lambda>sz. if unat sz > L then p_fail (ios_failure ''String length limit exceeded'') else stream_read (unat sz))"
proof -
  have "(if w \<noteq> 0 then stream_read (unat w) else p_return []) = stream_read (unat w)" for w :: u64
    by (rule ext) (simp add: stream_read_def)
  then show ?thesis unfolding LimitedString_Unser_def by presburger
qed

lemma LimitedString_Unser_iff:
  "LimitedString_Unser is L s = Inr (v, rest) \<longleftrightarrow>
     (length v \<le> max_elems is \<and> length v \<le> L) \<and> s = LimitedString_Ser v @ rest"
proof -
  define P where "P = (\<lambda>n. if n > L then p_fail (ios_failure ''String length limit exceeded'') else stream_read n)"
  have "P n r = Inr (v, rest) \<longleftrightarrow> n \<le> L \<and> length v = n \<and> r = v @ rest" for n r
    by (simp add: P_def stream_read_Inr_iff)
  moreover have "LimitedString_Unser is L = p_then (ReadCompactSize is True MAX_SIZE) (\<lambda>sz. P (unat sz))"
    by (simp only: LimitedString_Unser_eq P_def)
  ultimately show ?thesis by (auto simp: sized_iff LimitedString_Ser_def Serialize_string_def)
qed

interpretation limited_str: canonical_codec LimitedString_Ser "LimitedString_Unser is L"
  "\<lambda>v. length v \<le> max_elems is \<and> length v \<le> L" for "is" L
  by (rule canonical_codecI) (rule LimitedString_Unser_iff)

lemma pair_codec:
  assumes "codec serK unserK okK" "codec serT unserT okT"
  shows "codec (Serialize_pair serK serT) (Unserialize_pair unserK unserT) (\<lambda>(k, t). okK k \<and> okT t)"
  by unfold_locales (auto simp: Serialize_pair_def Unserialize_pair_def codec.unser_ser[OF assms(1)] codec.unser_ser[OF assms(2)])

lemma map_insert_last: "\<forall>e \<in> set m. fst e < k \<Longrightarrow> map_insert k v m = m @ [(k, v)]"
  by (induction m) auto

lemma read_map_ser:
  assumes "codec ser unser ok"
  shows "list_all ok m \<Longrightarrow> sorted_wrt (<) (map fst (m0 @ m)) \<Longrightarrow>
    read_map unser (length m) m0 (concat (map ser m) @ rest) = Inr (m0 @ m, rest)"
proof (induction m arbitrary: m0)
  case (Cons e m)
  obtain k v where e: "e = (k, v)" by (cases e)
  have "map_insert k v m0 = m0 @ [(k, v)]"
    using Cons.prems by (intro map_insert_last) (auto simp: e sorted_wrt_append)
  then show ?case using Cons e by (simp add: codec.unser_ser[OF assms])
qed simp

lemma map_codec:
  fixes serK :: "'k::linorder \<Rightarrow> bytes"
  assumes "codec serK unserK okK" "codec serT unserT okT"
  shows "codec (Serialize_map serK serT) (Unserialize_map is unserK unserT)
    (\<lambda>m. length m \<le> max_elems is \<and> sorted_wrt (<) (map fst m) \<and> list_all (\<lambda>(k, t). okK k \<and> okT t) m)"
proof
  fix m :: "('k \<times> 'a) list" and rest
  assume m: "length m \<le> max_elems is \<and> sorted_wrt (<) (map fst m) \<and> list_all (\<lambda>(k, t). okK k \<and> okT t) m"
  have r: "read_map (Unserialize_pair unserK unserT) (length m) [] (concat (map (Serialize_pair serK serT) m) @ rest) = Inr (m, rest)"
    using read_map_ser[OF pair_codec[OF assms], of m "[]"] m by simp
  show "Unserialize_map is unserK unserT (Serialize_map serK serT m @ rest) = Inr (m, rest)"
    unfolding Unserialize_map_def sized_iff[where P = "\<lambda>n. read_map _ n []"] Serialize_map_def
    using r m by (intro exI[of _ "length m"]) simp
qed

lemma read_set_ser:
  assumes "codec ser unser ok"
  shows "list_all ok m \<Longrightarrow> sorted_wrt (<) (m0 @ m) \<Longrightarrow>
    read_set unser (length m) m0 (concat (map ser m) @ rest) = Inr (m0 @ m, rest)"
proof (induction m arbitrary: m0)
  case (Cons k m)
  have "insort k m0 = m0 @ [k]" "k \<notin> set m0"
    using Cons.prems by (auto simp: sorted_wrt_append intro!: sorted_insort_is_snoc strict_sorted_imp_sorted)
  then show ?case using Cons by (simp add: codec.unser_ser[OF assms])
qed simp

lemma set_codec:
  fixes ser :: "'k::linorder \<Rightarrow> bytes"
  assumes "codec ser unser ok"
  shows "codec (Serialize_set ser) (Unserialize_set is unser)
    (\<lambda>m. length m \<le> max_elems is \<and> sorted_wrt (<) m \<and> list_all ok m)"
proof
  fix m :: "'k list" and rest
  assume m: "length m \<le> max_elems is \<and> sorted_wrt (<) m \<and> list_all ok m"
  have r: "read_set unser (length m) [] (concat (map ser m) @ rest) = Inr (m, rest)"
    using read_set_ser[OF assms, of m "[]"] m by simp
  show "Unserialize_set is unser (Serialize_set ser m @ rest) = Inr (m, rest)"
    unfolding Unserialize_set_def sized_iff[where P = "\<lambda>n. read_set _ n []"] Serialize_set_def
    using r m by (intro exI[of _ "length m"]) simp
qed

section \<open>Formatters\<close>

lemma take_le_enc: "m \<le> n \<Longrightarrow> take m (le_enc n w) = le_enc m w"
proof (induction n arbitrary: m w)
  case (Suc n)
  then show ?case by (cases m) simp_all
qed simp

lemma drop_be_enc: "m \<le> n \<Longrightarrow> drop (n - m) (be_enc n w) = be_enc m w"
  by (simp add: be_enc_def drop_rev take_le_enc)

lemma le_dec_zeros: "le_dec (bs @ replicate k 0) = (le_dec bs :: 'a::len word)"
  by (rule bit_word_eqI) (auto simp: bit_le_dec nth_append)

lemma CustomUint_MAX_bound:
  assumes "Bytes \<le> 8" "v \<le> CustomUint_MAX Bytes"
  shows "unat v < 2 ^ (8 * Bytes)"
proof -
  have e: "(2::nat) ^ (8 * Bytes) * 2 ^ (8 * (8 - Bytes)) = 2 ^ 64"
  proof -
    have "8 * Bytes + 8 * (8 - Bytes) = 64" using assms(1) by simp
    then show ?thesis by (simp only: power_add[symmetric])
  qed
  have "unat v \<le> unat (0xFFFFFFFFFFFFFFFF :: u64) div 2 ^ (8 * (8 - Bytes))"
    using assms(2) unfolding CustomUint_MAX_def word_le_nat_alt unat_drop_bit_eq by (simp only: drop_bit_eq_div)
  also have "\<dots> < 2 ^ (8 * Bytes)" by (rule less_mult_imp_div_less) (simp only: e, simp)
  finally show ?thesis .
qed

lemma CustomUint_roundtrip:
  assumes "Bytes \<le> 8" "CustomUint_Ser Bytes BigEndian v = Inr bs"
  shows "length bs = Bytes \<and> CustomUint_Unser Bytes BigEndian (bs @ rest) = Inr (v, rest)"
proof -
  have v: "take_bit (8 * Bytes) v = v"
    using assms by (intro take_bit_word_small CustomUint_MAX_bound) (auto simp: CustomUint_Ser_def split: if_splits)
  have "bs = (if BigEndian then be_enc Bytes v else le_enc Bytes v)"
    using assms drop_be_enc[of Bytes 8 v] by (auto simp: CustomUint_Ser_def take_le_enc split: if_splits)
  then show ?thesis
    by (auto simp: CustomUint_Unser_def be_dec_def be_enc_def le_dec_zeros le_dec_le_enc v)
qed

lemma CompactSize_formatter:
  assumes "LENGTH('a) \<le> 64" "ucast v \<le> compact_limit is RangeCheck MAX_SIZE"
  shows "CompactSize_Unser is RangeCheck (CompactSize_Ser (v :: 'a::len word) @ rest) = Inr (v, rest)"
proof -
  have "unat v \<le> unat (- 1 :: 'a word)" by (simp add: word_le_nat_alt[symmetric])
  moreover have "ReadCompactSize is RangeCheck MAX_SIZE (CompactSize_Ser v @ rest) = Inr (ucast v, rest)"
    using assms by (simp add: CompactSize_Ser_def compact_size.unser_ser)
  ultimately show ?thesis using assms(1) by (simp add: CompactSize_Unser_def)
qed

section \<open>The wire format is canonical\<close>

text \<open>C33: Compact sizes are canonical. \<open>ReadCompactSize\<close> accepts exactly the bytes \<open>WriteCompactSize\<close> writes
  for a number within the limit in force (\<open>MAX_SIZE\<close>, or none where the caller or the stream's type
  switches the range check off) and consumes nothing beyond them.\<close>

theorem compact_size_canonical:
  "ReadCompactSize is range_check MAXSZ s = Inr (n, rest) \<longleftrightarrow>
     n \<le> compact_limit is range_check MAXSZ \<and> s = WriteCompactSize n @ rest"
  by (rule compact_size.unser_iff)

text \<open>Base-128 integers of any unsigned type of at least eight bits are read back exactly, and every
  integer has exactly one encoding: whatever \<open>ReadVarInt\<close> accepts is what \<open>WriteVarInt\<close> writes. No
  accepted input overflows the type.\<close>

lemma varint_canonical:
  assumes "8 \<le> LENGTH('a::len)"
  shows "ReadVarInt s = Inr (n :: 'a word, rest) \<longleftrightarrow> s = WriteVarInt n @ rest"
  using canonical_codec.unser_iff[OF varint_codec[OF assms], of s n rest] by simp

text \<open>C34: \<open>WriteVarInt\<close> stays within its buffer \<open>tmp[(sizeof(n) * 8 + 6) / 7]\<close>, and \<open>GetSizeOfVarInt\<close> is
  the number of bytes it writes.\<close>

theorem WriteVarInt_in_bounds:
  "length (WriteVarInt (n :: 'a::len word)) \<le> (LENGTH('a) + 6) div 7 \<and>
   GetSizeOfVarInt n = length (WriteVarInt n)"
proof -
  let ?len = "length (tmp_digits n 0)"
  have "(2::nat) ^ (7 * ?len) = 128 ^ ?len" by (simp add: power_mult)
  also have "\<dots> \<le> 128 * max 1 (unat n)" by (rule tmp_digits_power)
  also have "\<dots> < 128 * 2 ^ LENGTH('a)" using unat_bound[of n] one_less_power[of "2 :: nat" "LENGTH('a)"] by simp
  also have "\<dots> = 2 ^ (7 + LENGTH('a))" by (simp add: power_add)
  finally have "7 * ?len < 7 + LENGTH('a)" by (rule power_less_imp_less_exp[rotated]) simp
  then have "?len \<le> (LENGTH('a) + 6) div 7" by linarith
  then show ?thesis by (simp add: WriteVarInt_def GetSizeOfVarInt_def sizeof_varint_loop_eq[of n 0 0])
qed

text \<open>Byte vectors, read in blocks of at most five million bytes so that a forged length cannot make
  the reader allocate more than the stream backs, are canonical: accepted is exactly what
  \<open>Serialize\<close> writes for a vector whose length is within the limit.\<close>

lemma byte_vector_canonical:
  "Unserialize_bytevec is s = Inr (v, rest) \<longleftrightarrow> length v \<le> max_elems is \<and> s = Serialize_bytevec v @ rest"
  by (rule bytevec.unser_iff)

end
