(* ===== verification/Record_Array.thy ===== *)
theory Record_Array
  imports VarInt_Codec Serialization "HOL-Library.Finite_Map"
begin

text \<open>
  \<open>Storage/DBRecordArray\<close>: an array of fixed-size records kept in a RocksDB column family, many
  records to a row. Rows are keyed by the big-endian \<open>VarInt\<close> of the bucket number and grown by
  \<open>Merge\<close> with the \<open>ConcatOperator\<close>; a metadata row under the empty key holds the record count.
  RocksDB is not part of the repository: it is the parameter \<open>R\<close> of the operations, and the locale
  \<open>rocksdb_laws\<close> states what its documentation promises. The locale \<open>record_array\<close> is what
  the users of an array rely on: it behaves as a list of records.
\<close>

section \<open>RocksDB\<close>

text \<open>The entries of a \<open>WriteBatch\<close>, in order.\<close>

datatype batch_op = Put bytes bytes | Merge bytes bytes | Delete bytes | DeleteRange bytes bytes

text \<open>\<open>db_Get\<close> is \<open>DB::Get\<close>, an error is its status, and the status of a missing key is
  \<open>NotFound\<close>; \<open>db_Write\<close> is what \<open>DB::Write\<close> does when it succeeds, and \<open>db_WriteError\<close> its status when it does not;
  \<open>db_ColumnError\<close> is what the descriptor of the column family has against it (no descriptor, a merge operator or a
  comparator of the wrong type); \<open>db_First\<close> and \<open>db_Last\<close> are the row a fresh iterator points at after \<open>SeekToFirst\<close> and \<open>SeekToLast\<close>.\<close>

definition NotFound :: string where "NotFound = ''NotFound''"

record 'db rocksdb =
  db_Get :: "'db \<Rightarrow> bytes \<Rightarrow> (string, bytes) result"
  db_Write :: "'db \<Rightarrow> batch_op list \<Rightarrow> 'db"
  db_WriteError :: "string option"
  db_ColumnError :: "string option"
  db_First :: "'db \<Rightarrow> (bytes \<times> bytes) option"
  db_Last :: "'db \<Rightarrow> (bytes \<times> bytes) option"

definition ConcatOperator_Merge :: "bytes option \<Rightarrow> bytes \<Rightarrow> bytes" where
  "ConcatOperator_Merge existing_value val =
     (case existing_value of None \<Rightarrow> val | Some ev \<Rightarrow> ev @ val)"

fun apply_op :: "batch_op \<Rightarrow> (bytes \<rightharpoonup> bytes) \<Rightarrow> (bytes \<rightharpoonup> bytes)" where
  "apply_op (Put k v) m = m(k \<mapsto> v)"
| "apply_op (Merge k v) m = m(k \<mapsto> ConcatOperator_Merge (m k) v)"
| "apply_op (Delete k) m = m(k := None)"
| "apply_op (DeleteRange a b) m = (\<lambda>k. if a \<le> k \<and> k < b then None else m k)"

locale rocksdb_laws =
  fixes R :: "'db rocksdb" and contents :: "'db \<Rightarrow> (bytes \<rightharpoonup> bytes)"
  assumes Get_found: "contents db k = Some v \<Longrightarrow> db_Get R db k = Inr v"
    and Get_missing: "contents db k = None \<Longrightarrow> db_Get R db k = Inl NotFound"
    and contents_Write: "contents (db_Write R db ops) = fold apply_op ops (contents db)"
    and Write_ok: "db_WriteError R = None" and Column_ok: "db_ColumnError R = None"
    and First_None: "db_First R db = None \<longleftrightarrow> contents db = Map.empty"
    and First_Some: "db_First R db = Some (k, v) \<Longrightarrow> contents db k = Some v \<and> (\<forall>k' \<in> dom (contents db). k \<le> k')"
    and Last_None: "db_Last R db = None \<longleftrightarrow> contents db = Map.empty"
    and Last_Some: "db_Last R db = Some (k, v) \<Longrightarrow> contents db k = Some v \<and> (\<forall>k' \<in> dom (contents db). k' \<le> k)"

section \<open>The class\<close>

datatype dra_error = Error string

record DBRecordArray =
  recSz :: nat
  magic :: u32
  bucketNRecs :: nat
  bucketShiftAmt :: nat
  nRecs :: nat

abbreviation (input) kMetaDataKey :: bytes where "kMetaDataKey \<equiv> []"

record MetaData =
  md_magic :: u32
  md_recSz :: u64
  md_bucketNRecs :: u64
  md_nRecs :: u64

definition MetaData_new :: MetaData where
  "MetaData_new = \<lparr> md_magic = 0, md_recSz = 0, md_bucketNRecs = 0, md_nRecs = 0 \<rparr>"

definition MetaData_of :: "DBRecordArray \<Rightarrow> MetaData" where
  "MetaData_of d = \<lparr> md_magic = magic d, md_recSz = of_nat (recSz d),
     md_bucketNRecs = of_nat (bucketNRecs d), md_nRecs = of_nat (nRecs d) \<rparr>"

definition MetaData_toBytes :: "MetaData \<Rightarrow> bytes" where
  "MetaData_toBytes m = Serialize_int32 (md_magic m) @ Serialize_int64 (md_recSz m) @
     Serialize_int64 (md_bucketNRecs m) @ Serialize_int64 (md_nRecs m)"

text \<open>On a short row the fields read so far are set and the others keep their value.\<close>

definition MetaData_fromBytes :: "bytes \<Rightarrow> MetaData \<Rightarrow> bool \<times> MetaData" where
  "MetaData_fromBytes bs m =
     (case Unserialize_int32 bs of Inl _ \<Rightarrow> (False, m) | Inr (x, bs) \<Rightarrow>
      let m = m\<lparr>md_magic := x\<rparr> in
      case Unserialize_int64 bs of Inl _ \<Rightarrow> (False, m) | Inr (x, bs) \<Rightarrow>
      let m = m\<lparr>md_recSz := x\<rparr> in
      case Unserialize_int64 bs of Inl _ \<Rightarrow> (False, m) | Inr (x, bs) \<Rightarrow>
      let m = m\<lparr>md_bucketNRecs := x\<rparr> in
      case Unserialize_int64 bs of Inl _ \<Rightarrow> (False, m) | Inr (x, bs) \<Rightarrow>
      (True, m\<lparr>md_nRecs := x\<rparr>))"

definition makeKey :: "nat \<Rightarrow> bytes" where
  "makeKey bucketNum = (case varint_make True (of_nat bucketNum :: u64) of Inl _ \<Rightarrow> [] | Inr v \<Rightarrow> byteView v)"

definition recordNumToBucketNum :: "DBRecordArray \<Rightarrow> nat \<Rightarrow> nat" where
  "recordNumToBucketNum d recNum = drop_bit (bucketShiftAmt d) recNum"

definition recordNumBucketBase :: "DBRecordArray \<Rightarrow> nat \<Rightarrow> nat" where
  "recordNumBucketBase d recNum = push_bit (bucketShiftAmt d) (recordNumToBucketNum d recNum)"

definition recordNumOffsetFromBucketBase :: "DBRecordArray \<Rightarrow> nat \<Rightarrow> nat" where
  "recordNumOffsetFromBucketBase d recNum = recSz d * (recNum - recordNumBucketBase d recNum)"

definition bucketNumFromDbKey :: "bytes \<Rightarrow> (dra_error, nat) result" where
  "bucketNumFromDbKey key =
     (case rbind (varint_fromBytes key) (varint_value True) of
        Inl _ \<Rightarrow> Inl (Error ''error in parsing db key'')
      | Inr (v :: u64) \<Rightarrow> Inr (unat v))"

definition writeMeta :: "DBRecordArray \<Rightarrow> batch_op" where
  "writeMeta d = Put kMetaDataKey (MetaData_toBytes (MetaData_of d))"

subsection \<open>Opening\<close>

fun popcount :: "nat \<Rightarrow> nat" where
  "popcount n = (if n = 0 then 0 else n mod 2 + popcount (n div 2))"

declare popcount.simps [simp del]

definition has_single_bit :: "nat \<Rightarrow> bool" where
  "has_single_bit n \<longleftrightarrow> popcount n = 1"

definition bit_floor :: "nat \<Rightarrow> nat" where
  "bit_floor n = (if n = 0 then 0 else 2 ^ (bit_width n - 1))"

text \<open>The checks of an existing array's metadata row against its last row.\<close>

definition check_last_row :: "DBRecordArray \<Rightarrow> nat \<Rightarrow> bytes \<Rightarrow> bytes \<Rightarrow> (dra_error, unit) result" where
  "check_last_row d n k bucketData =
     (if n > 0 then
        let lastRecNum = n - 1; bucketNItems = length bucketData div recSz d
        in if k \<noteq> makeKey (recordNumToBucketNum d lastRecNum) then
             Inl (Error ''last row's key is not as expected'')
           else if length bucketData mod recSz d \<noteq> 0 then
             Inl (Error ''last row's data blob is not sized correctly'')
           else if recordNumBucketBase d lastRecNum + bucketNItems \<noteq> n then
             Inl (Error ''number of records seems to mismatch metadata'')
           else Inr ()
      else if k \<noteq> kMetaDataKey then
        Inl (Error ''when nRecs==0, the only row must be the metadata entry'')
      else Inr ())"

definition adopt_meta :: "DBRecordArray \<Rightarrow> MetaData \<Rightarrow> (dra_error, DBRecordArray) result" where
  "adopt_meta d meta =
     (if md_magic meta \<noteq> magic d then Inl (Error ''Magic bytes mismatch'')
      else if unat (md_recSz meta) \<noteq> recSz d then Inl (Error ''Record size mismatch'')
      else if unat (md_bucketNRecs meta) \<noteq> bucketNRecs d then
        (if \<not> has_single_bit (unat (md_bucketNRecs meta)) then Inl (Error ''DB value is not a power of 2'')
         else if (recSz d * unat (md_bucketNRecs meta)) mod 2 ^ 64 > 2 ^ 31 then Inl (Error ''excessive bucket size'')
         else Inr (d\<lparr>bucketNRecs := unat (md_bucketNRecs meta),
                      bucketShiftAmt := popcount (unat (md_bucketNRecs meta) - 1)\<rparr>))
      else Inr d)"

definition readOrInitMeta :: "'db rocksdb \<Rightarrow> 'db \<Rightarrow> DBRecordArray \<Rightarrow> (dra_error, 'db \<times> DBRecordArray) result" where
  "readOrInitMeta R db d =
     (let d = d\<lparr>nRecs := 0\<rparr> in
      case db_First R db of
        None \<Rightarrow> Inr (case db_WriteError R of None \<Rightarrow> db_Write R db [writeMeta d] | Some _ \<Rightarrow> db, d)
      | Some (k, v) \<Rightarrow>
          if k \<noteq> kMetaDataKey then Inl (Error ''first row must be the metadata entry'')
          else
            let meta = snd (MetaData_fromBytes v MetaData_new)
            in rbind (adopt_meta d meta) (\<lambda>d.
                 case db_Last R db of
                   None \<Rightarrow> Inl (Error ''unable to seek to last row'')
                 | Some (k, bucketData) \<Rightarrow>
                     rbind (check_last_row d (unat (md_nRecs meta)) k bucketData)
                       (\<lambda>_. Inr (db, d\<lparr>nRecs := unat (md_nRecs meta)\<rparr>))))"

definition DBRecordArray_new ::
  "'db rocksdb \<Rightarrow> 'db \<Rightarrow> u32 \<Rightarrow> u32 \<Rightarrow> u32 \<Rightarrow> (dra_error, 'db \<times> DBRecordArray) result" where
  "DBRecordArray_new R db recSzArg bucketNRecsPOT magicArg =
     (let n = bit_floor (unat bucketNRecsPOT);
          d = \<lparr> recSz = unat recSzArg, magic = magicArg, bucketNRecs = n, bucketShiftAmt = popcount (n - 1), nRecs = 0 \<rparr>
      in if \<not> has_single_bit (unat bucketNRecsPOT) then Inl (Error ''bucketNRecs is not a power of 2'')
         else if recSz d = 0 \<or> recSz d * bucketNRecs d > 2 ^ 31 then
           Inl (Error ''invalid record size and/or bucket size combination'')
         else (case db_ColumnError R of Some err \<Rightarrow> Inl (Error err) | None \<Rightarrow> readOrInitMeta R db d))"

subsection \<open>Writing\<close>

record BatchWriteContext =
  c_d :: DBRecordArray
  c_batch :: "batch_op list"
  c_lastWrite :: "(nat \<times> bytes) option"
  c_dirty :: bool

definition beginBatchWrite :: "DBRecordArray \<Rightarrow> batch_op list \<Rightarrow> BatchWriteContext" where
  "beginBatchWrite d batch = \<lparr> c_d = d, c_batch = batch, c_lastWrite = None, c_dirty = False \<rparr>"

definition dra_append :: "bytes \<Rightarrow> BatchWriteContext \<Rightarrow> (string, unit) result \<times> BatchWriteContext" where
  "dra_append data c =
     (if length data \<noteq> recSz (c_d c) then (Inl ''Usage error. Bad write'', c)
      else
        let recNum = nRecs (c_d c);
            c = c\<lparr>c_d := (c_d c)\<lparr>nRecs := recNum + 1\<rparr>\<rparr>;
            bucketNum = recordNumToBucketNum (c_d c) recNum;
            lastWrite = (case c_lastWrite c of
                           Some (bn, key) \<Rightarrow> if bn \<noteq> bucketNum then (bucketNum, makeKey bucketNum) else (bn, key)
                         | None \<Rightarrow> (bucketNum, makeKey bucketNum))
        in (Inr (), c\<lparr>c_lastWrite := Some lastWrite, c_batch := c_batch c @ [Merge (snd lastWrite) data], c_dirty := True\<rparr>))"

text \<open>The read-modify-write of the bucket the new end falls into.\<close>

definition truncate_bucket ::
  "'db rocksdb \<Rightarrow> 'db \<Rightarrow> nat \<Rightarrow> nat \<Rightarrow> BatchWriteContext \<Rightarrow> (string, unit) result \<times> BatchWriteContext" where
  "truncate_bucket R db bucketNum endOffset c =
     (case db_Get R db (makeKey bucketNum) of
        Inl e \<Rightarrow> (Inl e, c)
      | Inr val \<Rightarrow>
          if length val \<le> endOffset then (Inl ''Possible corruption'', c)
          else (Inr (), c\<lparr>c_batch := c_batch c @ [Put (makeKey bucketNum) (take endOffset val)], c_dirty := True\<rparr>))"

definition pastTheEndKey :: bytes where
  "pastTheEndKey = replicate (8 + 2) 0xff"

definition dra_truncate ::
  "'db rocksdb \<Rightarrow> 'db \<Rightarrow> nat \<Rightarrow> BatchWriteContext \<Rightarrow> (string, nat) result \<times> BatchWriteContext" where
  "dra_truncate R db newNumRecords c =
     (let d = c_d c in
      if newNumRecords < nRecs d then
        let firstBucketNum = recordNumToBucketNum d newNumRecords;
            endOffset = recordNumOffsetFromBucketBase d newNumRecords;
            (res, c) = (if endOffset > 0 then truncate_bucket R db firstBucketNum endOffset c else (Inr (), c));
            firstBucketNum = (if endOffset > 0 then firstBucketNum + 1 else firstBucketNum)
        in case res of
             Inl e \<Rightarrow> (Inl e, c)
           | Inr _ \<Rightarrow> (Inr newNumRecords,
               c\<lparr>c_batch := c_batch c @ [DeleteRange (makeKey firstBucketNum) pastTheEndKey],
                 c_d := d\<lparr>nRecs := newNumRecords\<rparr>, c_dirty := True\<rparr>)
      else (Inr (nRecs d), c))"

text \<open>The destructor: the batch the caller then writes.\<close>

definition endBatchWrite :: "BatchWriteContext \<Rightarrow> batch_op list" where
  "endBatchWrite c = (if c_dirty c then c_batch c @ [writeMeta (c_d c)] else c_batch c)"

subsection \<open>Reading\<close>

type_synonym last_read = "nat \<times> bytes \<times> bytes"

text \<open>Record \<open>recNum\<close>, an error message that is empty on success, and the cached last bucket. Without
  a cache (a null \<open>lastRead\<close>) the result is the one for an empty cache.\<close>

definition readSequentialInner ::
  "'db rocksdb \<Rightarrow> 'db \<Rightarrow> DBRecordArray \<Rightarrow> nat \<Rightarrow> last_read option \<Rightarrow> bytes \<times> string \<times> last_read option" where
  "readSequentialInner R db d recNum lastRead =
     (if recNum < nRecs d then
        let bucketNum = recordNumToBucketNum d recNum;
            offset = recordNumOffsetFromBucketBase d recNum;
            useCached = (case lastRead of Some (bn, _) \<Rightarrow> bn = bucketNum | None \<Rightarrow> False)
        in if \<not> useCached then
             (case db_Get R db (makeKey bucketNum) of
                Inr value \<Rightarrow>
                  if offset + recSz d \<le> length value then
                    (take (recSz d) (drop offset value), '''', Some (bucketNum, makeKey bucketNum, value))
                  else ([], ''Record is missing from the DB data blob!'', lastRead)
              | Inl e \<Rightarrow> ([], ''DB error: '' @ e, lastRead))
           else
             let value = snd (snd (the lastRead))
             in if offset + recSz d \<le> length value then (take (recSz d) (drop offset value), '''', lastRead)
                else ([], ''Record is missing from the cached DB data blob!'', lastRead)
      else ([], ''Record number out of range'', lastRead))"

definition readRecord :: "'db rocksdb \<Rightarrow> 'db \<Rightarrow> DBRecordArray \<Rightarrow> nat \<Rightarrow> bytes \<times> string" where
  "readRecord R db d recNum = (let (ret, err, _) = readSequentialInner R db d recNum None in (ret, err))"

fun read_loop ::
  "'db rocksdb \<Rightarrow> 'db \<Rightarrow> DBRecordArray \<Rightarrow> nat \<Rightarrow> nat \<Rightarrow> last_read option \<Rightarrow> bytes list \<times> string" where
  "read_loop R db d recNum 0 cachedLastRead = ([], '''')"
| "read_loop R db d recNum (Suc count) cachedLastRead =
     (if recNum < nRecs d then
        let (r, err, cachedLastRead) = readSequentialInner R db d recNum cachedLastRead
        in if length r \<noteq> recSz d then ([], ''Unable to read record: '' @ err)
           else let (rs, err) = read_loop R db d (recNum + 1) count cachedLastRead in (r # rs, err)
      else ([], ''''))"

definition readRecords :: "'db rocksdb \<Rightarrow> 'db \<Rightarrow> DBRecordArray \<Rightarrow> nat \<Rightarrow> nat \<Rightarrow> bytes list \<times> string" where
  "readRecords R db d recNumStart count =
     (let nR = nRecs d; count = (if nR > recNumStart then min count (nR - recNumStart) else 0)
      in if count = 0 then ([], ''readRecords specification is out of range'')
         else read_loop R db d recNumStart count None)"

text \<open>The buckets a batch of \<open>readRandomRecords\<close> needs; \<open>None\<close> where its first number is bad and
  the caller wants to stop at the first error.\<close>

fun needed_buckets :: "DBRecordArray \<Rightarrow> bool \<Rightarrow> nat list \<Rightarrow> nat list \<Rightarrow> nat list option" where
  "needed_buckets d continueOnError [] buckets = Some buckets"
| "needed_buckets d continueOnError (recNum # batch) buckets =
     (if recNum \<ge> nRecs d then
        (if \<not> continueOnError \<and> buckets = [] then None
         else needed_buckets d continueOnError batch buckets)
      else needed_buckets d continueOnError batch (List.insert (recordNumToBucketNum d recNum) buckets))"

fun collect_results ::
  "DBRecordArray \<Rightarrow> bool \<Rightarrow> (nat \<Rightarrow> bytes) \<Rightarrow> nat list \<Rightarrow> bytes list \<times> bool" where
  "collect_results d continueOnError buckets [] = ([], True)"
| "collect_results d continueOnError buckets (recNum # batch) =
     (let bucketBytes = buckets (recordNumToBucketNum d recNum);
          offset = recordNumOffsetFromBucketBase d recNum;
          ok = (recNum < nRecs d \<and> offset + recSz d \<le> length bucketBytes)
      in if \<not> ok \<and> \<not> continueOnError then ([], False)
         else
           let r = (if ok then take (recSz d) (drop offset bucketBytes) else []);
               (rs, cont) = collect_results d continueOnError buckets batch
           in (r # rs, cont))"

definition doBatch :: "'db rocksdb \<Rightarrow> 'db \<Rightarrow> DBRecordArray \<Rightarrow> bool \<Rightarrow> nat list \<Rightarrow> bytes list \<times> bool" where
  "doBatch R db d continueOnError batch =
     (case needed_buckets d continueOnError batch [] of
        None \<Rightarrow> ([], False)
      | Some keys \<Rightarrow>
          let buckets = (\<lambda>b. if b \<in> set keys
                             then (case db_Get R db (makeKey b) of Inl _ \<Rightarrow> [] | Inr v \<Rightarrow> v) else [])
          in collect_results d continueOnError buckets batch)"

definition rr_batchSize :: "DBRecordArray \<Rightarrow> nat" where
  "rr_batchSize d = max 1 ((8 * 1024 * 1024) div (recSz d * bucketNRecs d))"

function rr_batches :: "'db rocksdb \<Rightarrow> 'db \<Rightarrow> DBRecordArray \<Rightarrow> bool \<Rightarrow> nat list \<Rightarrow> bytes list" where
  "rr_batches R db d continueOnError recNums =
     (if recNums = [] then []
      else
        let (rs, cont) = doBatch R db d continueOnError (take (rr_batchSize d) recNums)
        in if \<not> cont then rs
           else rs @ rr_batches R db d continueOnError (drop (rr_batchSize d) recNums))"
  by pat_completeness auto
termination
  by (relation "measure (\<lambda>(R, db, d, c, recNums). length recNums)") (auto simp: rr_batchSize_def)

definition readRandomRecords :: "'db rocksdb \<Rightarrow> 'db \<Rightarrow> DBRecordArray \<Rightarrow> nat list \<Rightarrow> bool \<Rightarrow> bytes list" where
  "readRandomRecords R db d recNums continueOnError = rr_batches R db d continueOnError recNums"

declare rr_batches.simps [simp del]

section \<open>Row keys\<close>

definition bucket_limit :: nat where "bucket_limit = 2 ^ 64"

lemma int_width_64: "int_width TYPE(64)"
  by (simp add: int_width_def)

lemma makeKey_eq: "makeKey b = varint_bytes True (of_nat b :: u64)"
  by (simp add: makeKey_def varint_make_eq[OF int_width_64] byteView_def)

lemma makeKey_mono:
  assumes "a < b" "b < bucket_limit"
  shows "makeKey a < makeKey b"
proof -
  have "(of_nat a :: u64) < of_nat b"
    using assms by (simp add: word_less_nat_alt unat_of_nat bucket_limit_def)
  then show ?thesis unfolding makeKey_eq by (rule varint_bytes_mono[OF int_width_64])
qed

lemma makeKey_le_iff: "a < bucket_limit \<Longrightarrow> b < bucket_limit \<Longrightarrow> makeKey a \<le> makeKey b \<longleftrightarrow> a \<le> b"
  using makeKey_mono[of a b] makeKey_mono[of b a] by (cases a b rule: linorder_cases) auto

lemma makeKey_inject: "a < bucket_limit \<Longrightarrow> b < bucket_limit \<Longrightarrow> makeKey a = makeKey b \<longleftrightarrow> a = b"
  by (metis makeKey_le_iff antisym order_refl)

lemma makeKey_nonempty: "makeKey b \<noteq> []"
  using length_varint_bytes_le(2)[OF int_width_64, of True "of_nat b"] by (simp add: makeKey_eq)

lemma short_before_end: "length k < n \<Longrightarrow> k < replicate n (- 1 :: byte)"
proof (induction k arbitrary: n)
  case Nil
  then show ?case by (cases n) simp_all
next
  case (Cons x k)
  then obtain m where m: "n = Suc m" "length k < m" by (cases n) auto
  have "x < - 1 \<or> x = - 1" using word_order.extremum[of x] by (simp add: le_less)
  then show ?case using Cons.IH[OF m(2)] m(1) by auto
qed

lemma makeKey_before_end: "makeKey b < pastTheEndKey"
proof -
  have e: "pastTheEndKey = replicate (8 + 2) (- 1)" by (simp add: pastTheEndKey_def)
  show ?thesis
    unfolding e using length_varint_bytes_le(1)[OF int_width_64, of True "of_nat b"]
    by (intro short_before_end) (simp add: makeKey_eq)
qed

lemma makeKey_roundtrip:
  assumes "b < bucket_limit"
  shows "bucketNumFromDbKey (makeKey b) = Inr b"
proof -
  let ?w = "of_nat b :: u64"
  have v: "varint_make True ?w = Inr (varint_unchecked (varint_bytes True ?w))"
    by (rule varint_unchecked_bytes[OF int_width_64])
  have "varint_fromBytes (varint_bytes True ?w) = Inr (varint_unchecked (varint_bytes True ?w))"
    by (simp add: varint_fromBytes_def validate_varint_bytes(2)[OF int_width_64])
  moreover have "varint_value True (varint_unchecked (varint_bytes True ?w)) = Inr ?w"
    using value_of_bytes[OF int_width_64 int_width_64 v] unat_bound[of ?w] by simp
  moreover have "unat ?w = b" using assms unfolding unat_of_nat by (simp add: bucket_limit_def)
  ultimately show ?thesis by (simp add: bucketNumFromDbKey_def makeKey_eq)
qed

section \<open>Rows and records\<close>

definition bucket :: "nat \<Rightarrow> bytes list \<Rightarrow> nat \<Rightarrow> bytes list" where
  "bucket n rs b = take n (drop (b * n) rs)"

definition row :: "nat \<Rightarrow> bytes list \<Rightarrow> nat \<Rightarrow> bytes option" where
  "row n rs b = (if bucket n rs b = [] then None else Some (concat (bucket n rs b)))"

text \<open>A well-formed array over the records \<open>rs\<close>, and a column family whose rows hold them.\<close>

definition dra_wf :: "DBRecordArray \<Rightarrow> bytes list \<Rightarrow> bool" where
  "dra_wf d rs \<longleftrightarrow> 0 < recSz d \<and> recSz d < bucket_limit \<and> bucketNRecs d = 2 ^ bucketShiftAmt d \<and>
     bucketNRecs d < bucket_limit \<and> nRecs d = length rs \<and>
     (\<forall>r \<in> set rs. length r = recSz d) \<and> length rs < bucket_limit"

definition holds_rows :: "nat \<Rightarrow> bytes list \<Rightarrow> (bytes \<rightharpoonup> bytes) \<Rightarrow> bool" where
  "holds_rows n rs m \<longleftrightarrow> (\<forall>b<bucket_limit. m (makeKey b) = row n rs b) \<and>
     (\<forall>k \<in> dom m. k = [] \<or> (\<exists>b<bucket_limit. k = makeKey b))"

definition dra_repr :: "(bytes \<rightharpoonup> bytes) \<Rightarrow> DBRecordArray \<Rightarrow> bytes list \<Rightarrow> bool" where
  "dra_repr m d rs \<longleftrightarrow> dra_wf d rs \<and> holds_rows (bucketNRecs d) rs m \<and>
     m kMetaDataKey = Some (MetaData_toBytes (MetaData_of d))"

text \<open>A batch in progress: what the column family will hold once it is written.\<close>

definition ctx_inv :: "(bytes \<rightharpoonup> bytes) \<Rightarrow> BatchWriteContext \<Rightarrow> bytes list \<Rightarrow> bool" where
  "ctx_inv m c rs \<longleftrightarrow>
     (let view = fold apply_op (c_batch c) m in
      dra_wf (c_d c) rs \<and> holds_rows (bucketNRecs (c_d c)) rs view \<and>
      (c_dirty c \<or> view kMetaDataKey = Some (MetaData_toBytes (MetaData_of (c_d c)))) \<and>
      (\<forall>bn key. c_lastWrite c = Some (bn, key) \<longrightarrow> key = makeKey bn))"

lemma begin_inv:
  "dra_repr (fold apply_op batch m) d rs \<Longrightarrow> ctx_inv m (beginBatchWrite d batch) rs"
  by (simp add: dra_repr_def ctx_inv_def beginBatchWrite_def Let_def)

lemma end_repr: "ctx_inv m c rs \<Longrightarrow> dra_repr (fold apply_op (endBatchWrite c) m) (c_d c) rs"
  by (auto simp: dra_repr_def ctx_inv_def endBatchWrite_def writeMeta_def Let_def holds_rows_def makeKey_nonempty)

lemma bucketNum_eq: "dra_wf d rs \<Longrightarrow> recordNumToBucketNum d r = r div bucketNRecs d"
  by (simp add: recordNumToBucketNum_def dra_wf_def drop_bit_eq_div)

lemma offset_eq: "dra_wf d rs \<Longrightarrow> recordNumOffsetFromBucketBase d r = recSz d * (r mod bucketNRecs d)"
  by (simp add: recordNumOffsetFromBucketBase_def recordNumBucketBase_def recordNumToBucketNum_def dra_wf_def
      drop_bit_eq_div push_bit_eq_mult minus_div_mult_eq_mod)

lemma wf_pos: "dra_wf d rs \<Longrightarrow> 0 < bucketNRecs d"
  by (simp add: dra_wf_def)

lemma bucket_number: "dra_wf d rs \<Longrightarrow> r \<le> length rs \<Longrightarrow> r div bucketNRecs d < bucket_limit"
  by (metis dra_wf_def div_le_dividend le_less_trans)

lemma bucket_append:
  assumes "0 < n"
  shows "bucket n (rs @ [x]) b = bucket n rs b @ (if b = length rs div n then [x] else [])"
proof -
  consider "b < length rs div n" | "b = length rs div n" | "b > length rs div n" by linarith
  then show ?thesis
  proof cases
    case 1
    then have "Suc b \<le> length rs div n" by simp
    then have "Suc b * n \<le> length rs" using assms by (simp only: less_eq_div_iff_mult_less_eq)
    then have "b * n + n \<le> length rs" by simp
    then show ?thesis using 1 by (simp add: bucket_def)
  next
    case 2
    have "b * n \<le> length rs" "length rs - b * n < n"
      using assms by (simp_all add: 2 minus_div_mult_eq_mod)
    then show ?thesis using 2 by (simp add: bucket_def)
  next
    case 3
    then have "length rs < b * n" using assms by (simp add: div_less_iff_less_mult)
    then show ?thesis using 3 by (simp add: bucket_def)
  qed
qed

lemma row_append:
  assumes "0 < n" "length x = s" "0 < s"
  shows "row n (rs @ [x]) b =
    (if b = length rs div n then Some (ConcatOperator_Merge (row n rs b) x) else row n rs b)"
  using assms by (simp add: row_def bucket_append ConcatOperator_Merge_def)

lemma append_ok:
  assumes inv: "ctx_inv m c rs" and len: "length data = recSz (c_d c)" and room: "Suc (length rs) < bucket_limit"
  shows "\<exists>c'. dra_append data c = (Inr (), c') \<and> ctx_inv m c' (rs @ [data]) \<and>
    bucketNRecs (c_d c') = bucketNRecs (c_d c) \<and> recSz (c_d c') = recSz (c_d c) \<and> magic (c_d c') = magic (c_d c)"
proof -
  let ?d = "c_d c" and ?view = "fold apply_op (c_batch c) m"
  let ?n = "bucketNRecs ?d"
  have wf: "dra_wf ?d rs" and rows: "holds_rows ?n rs ?view" using inv by (auto simp: ctx_inv_def Let_def)
  have nr: "nRecs ?d = length rs" using wf by (simp add: dra_wf_def)
  let ?bn = "length rs div ?n"
  have lim: "?bn < bucket_limit" using bucket_number[OF wf order_refl] .
  have key: "recordNumToBucketNum (?d\<lparr>nRecs := x\<rparr>) (length rs) = ?bn" for x
    using bucketNum_eq[OF wf] by (simp add: recordNumToBucketNum_def)
  obtain c' where c': "dra_append data c = (Inr (), c')" "c_d c' = ?d\<lparr>nRecs := Suc (length rs)\<rparr>"
    "c_batch c' = c_batch c @ [Merge (makeKey ?bn) data]" "c_dirty c'" "c_lastWrite c' = Some (?bn, makeKey ?bn)"
    using inv len by (auto simp: dra_append_def Let_def nr key ctx_inv_def split: option.split)
  have "holds_rows ?n (rs @ [data]) (?view(makeKey ?bn \<mapsto> ConcatOperator_Merge (?view (makeKey ?bn)) data))"
    using rows lim wf_pos[OF wf] wf len
    by (auto simp: holds_rows_def row_append makeKey_inject dra_wf_def)
  moreover have "dra_wf (?d\<lparr>nRecs := Suc (length rs)\<rparr>) (rs @ [data])"
    using wf len room by (auto simp: dra_wf_def)
  ultimately have "ctx_inv m c' (rs @ [data])" by (simp add: ctx_inv_def Let_def c')
  then show ?thesis using c' by simp
qed

lemma bucket_take:
  assumes "0 < n" "k \<le> length rs"
  shows "bucket n (take k rs) b =
    (if b < k div n then bucket n rs b else if b = k div n then take (k mod n) (bucket n rs b) else [])"
proof -
  consider "b < k div n" | "b = k div n" | "b > k div n" by linarith
  then show ?thesis
  proof cases
    case 1
    then have "Suc b \<le> k div n" by simp
    then have "Suc b * n \<le> k" using assms(1) by (simp only: less_eq_div_iff_mult_less_eq)
    then have "n \<le> k - b * n" by simp
    then show ?thesis using 1 by (simp add: bucket_def drop_take min_def)
  next
    case 2
    have "k - b * n = k mod n" "k mod n < n" using assms(1) by (simp_all add: 2 minus_div_mult_eq_mod)
    then show ?thesis using 2 by (simp add: bucket_def drop_take min_def)
  next
    case 3
    then have "k < b * n" using assms(1) by (simp add: div_less_iff_less_mult)
    then show ?thesis using 3 by (simp add: bucket_def drop_take)
  qed
qed

lemma concat_take_uniform:
  "\<forall>x \<in> set xs. length x = s \<Longrightarrow> concat (take k xs) = take (s * k) (concat xs)"
proof (induction xs arbitrary: k)
  case (Cons x xs)
  then show ?case by (cases k) (simp_all add: Cons.IH)
qed simp

lemma concat_drop_uniform:
  "\<forall>x \<in> set xs. length x = s \<Longrightarrow> concat (drop k xs) = drop (s * k) (concat xs)"
proof (induction xs arbitrary: k)
  case (Cons x xs)
  then show ?case by (cases k) (simp_all add: Cons.IH)
qed simp

lemma length_concat_uniform: "\<forall>x \<in> set xs. length x = s \<Longrightarrow> length (concat xs) = s * length xs"
  by (induction xs) simp_all

lemma bucket_lengths: "dra_wf d rs \<Longrightarrow> \<forall>x \<in> set (bucket n rs b). length x = recSz d"
  unfolding bucket_def dra_wf_def by (meson in_set_dropD in_set_takeD)

text \<open>A record is a slice of its row.\<close>

lemma row_record:
  assumes wf: "dra_wf d rs" and r: "r < length rs"
  defines "n \<equiv> bucketNRecs d"
  shows "\<exists>v. row n rs (r div n) = Some v \<and> recSz d * (r mod n) + recSz d \<le> length v \<and>
    take (recSz d) (drop (recSz d * (r mod n)) v) = rs ! r"
proof -
  let ?B = "bucket n rs (r div n)" and ?i = "r mod n"
  have n: "0 < n" using wf by (simp add: n_def wf_pos)
  have rn: "r div n * n + ?i = r" "?i < n" using n by simp_all
  then have "?i < length rs - r div n * n" using r by linarith
  then have i: "?i < length ?B" using rn by (simp add: bucket_def)
  have "r div n * n \<le> length rs" using rn r by linarith
  then have nth: "?B ! ?i = rs ! r" using rn by (simp add: bucket_def)
  note u = bucket_lengths[OF wf, of n "r div n"]
  have "drop ?i ?B = (rs ! r) # drop (Suc ?i) ?B" using Cons_nth_drop_Suc[OF i] nth by simp
  then have "drop (recSz d * ?i) (concat ?B) = rs ! r @ concat (drop (Suc ?i) ?B)"
    using concat_drop_uniform[OF u, of ?i] by simp
  moreover have "length (rs ! r) = recSz d" using wf r by (simp add: dra_wf_def)
  moreover have "recSz d * ?i + recSz d \<le> length (concat ?B)"
    using mult_le_mono2[OF Suc_leI[OF i], of "recSz d"] by (simp add: length_concat_uniform[OF u] add.commute)
  moreover have "?B \<noteq> []" using i by auto
  ultimately show ?thesis by (simp add: row_def)
qed

definition last_read_ok :: "DBRecordArray \<Rightarrow> bytes list \<Rightarrow> last_read option \<Rightarrow> bool" where
  "last_read_ok d rs lastRead \<longleftrightarrow>
     (\<forall>bn key v. lastRead = Some (bn, key, v) \<longrightarrow> row (bucketNRecs d) rs bn = Some v)"

context rocksdb_laws
begin

lemma Get_row:
  assumes "dra_repr (contents db) d rs" "r < length rs"
  shows "\<exists>v. db_Get R db (makeKey (r div bucketNRecs d)) = Inr v \<and> row (bucketNRecs d) rs (r div bucketNRecs d) = Some v"
proof -
  have wf: "dra_wf d rs" and rows: "holds_rows (bucketNRecs d) rs (contents db)"
    using assms(1) by (auto simp: dra_repr_def)
  obtain v where v: "row (bucketNRecs d) rs (r div bucketNRecs d) = Some v" using row_record[OF wf assms(2)] by blast
  have "r div bucketNRecs d < bucket_limit" using bucket_number[OF wf, of r] assms(2) by simp
  then have "contents db (makeKey (r div bucketNRecs d)) = Some v" using rows v by (simp add: holds_rows_def)
  then show ?thesis using v Get_found by blast
qed


lemma read_inner_ok:
  assumes "dra_repr (contents db) d rs" "r < length rs" "last_read_ok d rs lastRead"
  shows "\<exists>lr. readSequentialInner R db d r lastRead = (rs ! r, '''', lr) \<and> last_read_ok d rs lr"
proof -
  have wf: "dra_wf d rs" using assms(1) by (simp add: dra_repr_def)
  obtain v where v: "row (bucketNRecs d) rs (r div bucketNRecs d) = Some v"
    "recSz d * (r mod bucketNRecs d) + recSz d \<le> length v"
    "take (recSz d) (drop (recSz d * (r mod bucketNRecs d)) v) = rs ! r"
    using row_record[OF wf assms(2)] by blast
  have get: "db_Get R db (makeKey (r div bucketNRecs d)) = Inr v" using Get_row[OF assms(1,2)] v by auto
  have nr: "r < nRecs d" using wf assms(2) by (simp add: dra_wf_def)
  show ?thesis
  proof (cases "\<exists>key val. lastRead = Some (r div bucketNRecs d, key, val)")
    case True
    then obtain key where "lastRead = Some (r div bucketNRecs d, key, v)"
      using assms(3) v(1) by (auto simp: last_read_ok_def)
    then show ?thesis
      using v nr assms(3) by (simp add: readSequentialInner_def bucketNum_eq[OF wf] offset_eq[OF wf])
  next
    case False
    then show ?thesis
      using v nr get
      by (auto simp: readSequentialInner_def bucketNum_eq[OF wf] offset_eq[OF wf] last_read_ok_def Let_def split: option.split)
  qed
qed

lemma readRecord_ok:
  assumes "dra_repr (contents db) d rs"
  shows "readRecord R db d r = (if r < length rs then (rs ! r, '''') else ([], ''Record number out of range''))"
proof (cases "r < length rs")
  case True
  then show ?thesis using read_inner_ok[OF assms True, of None] by (auto simp: readRecord_def last_read_ok_def)
next
  case False
  then show ?thesis using assms by (simp add: readRecord_def readSequentialInner_def dra_repr_def dra_wf_def)
qed

lemma read_loop_ok:
  assumes "dra_repr (contents db) d rs"
  shows "r + count \<le> length rs \<Longrightarrow> last_read_ok d rs lr \<Longrightarrow>
    read_loop R db d r count lr = (take count (drop r rs), '''')"
proof (induction count arbitrary: r lr)
  case (Suc count)
  then have r: "r < length rs" by simp
  obtain lr' where "readSequentialInner R db d r lr = (rs ! r, '''', lr')" "last_read_ok d rs lr'"
    using read_inner_ok[OF assms r Suc.prems(2)] by blast
  moreover have "length (rs ! r) = recSz d" "r < nRecs d" using assms r by (auto simp: dra_repr_def dra_wf_def)
  moreover have "drop r rs = rs ! r # drop (Suc r) rs" using r by (simp add: Cons_nth_drop_Suc)
  ultimately show ?case using Suc.IH[of "Suc r" lr'] Suc.prems(1) by simp
qed simp

lemma readRecords_ok:
  assumes "dra_repr (contents db) d rs"
  shows "readRecords R db d start count =
    (if start < length rs \<and> 0 < count then (take count (drop start rs), '''')
     else ([], ''readRecords specification is out of range''))"
proof -
  have nr: "nRecs d = length rs" using assms by (simp add: dra_repr_def dra_wf_def)
  have "start < length rs \<Longrightarrow> read_loop R db d start (min count (length rs - start)) None = (take count (drop start rs), '''')"
    using read_loop_ok[OF assms, of start "min count (length rs - start)" None]
    by (simp add: last_read_ok_def) (cases "count \<le> length rs - start"; simp)
  then show ?thesis by (auto simp: readRecords_def nr Let_def)
qed

end

lemma row_take:
  assumes wf: "dra_wf d rs" and k: "k < length rs"
  defines "n \<equiv> bucketNRecs d"
  shows "row n (take k rs) b =
    (if b < k div n then row n rs b
     else if b = k div n \<and> 0 < k mod n then map_option (take (recSz d * (k mod n))) (row n rs b)
     else None)"
proof -
  have n: "0 < n" using wf by (simp add: n_def wf_pos)
  have "b = k div n \<Longrightarrow> 0 < k mod n \<Longrightarrow> bucket n rs b \<noteq> []"
  proof -
    have "k div n * n < length rs" using k div_times_less_eq_dividend[of k n] by linarith
    then show "b = k div n \<Longrightarrow> 0 < k mod n \<Longrightarrow> bucket n rs b \<noteq> []" using n by (simp add: bucket_def)
  qed
  moreover have "concat (take (k mod n) (bucket n rs b)) = take (recSz d * (k mod n)) (concat (bucket n rs b))"
    by (rule concat_take_uniform) (rule bucket_lengths[OF wf])
  ultimately show ?thesis using bucket_take[OF n, of k rs b] k by (auto simp: row_def)
qed

lemma holds_rows_cut:
  assumes wf: "dra_wf d rs" and rows: "holds_rows (bucketNRecs d) rs m" and k: "k < length rs"
  defines "n \<equiv> bucketNRecs d"
  defines "first \<equiv> (if 0 < k mod n then k div n + 1 else k div n)"
  defines "m' \<equiv> (if 0 < k mod n then m(makeKey (k div n) \<mapsto> take (recSz d * (k mod n)) (the (row n rs (k div n)))) else m)"
  shows "holds_rows n (take k rs) (apply_op (DeleteRange (makeKey first) pastTheEndKey) m')"
proof -
  have n: "0 < n" using wf by (simp add: n_def wf_pos)
  have q: "k div n < bucket_limit" using bucket_number[OF wf, of k] k by (simp add: n_def)
  obtain v where v: "row n rs (k div n) = Some v" using row_record[OF wf k] by (auto simp: n_def)
  have first: "first < bucket_limit"
  proof -
    have "k div n < length rs" using k div_le_dividend[of k n] by linarith
    then have "first \<le> length rs" by (simp add: first_def)
    then show ?thesis using wf by (simp add: dra_wf_def)
  qed
  have "m' (makeKey b) = (if b = k div n \<and> 0 < k mod n then Some (take (recSz d * (k mod n)) v) else row n rs b)"
    if "b < bucket_limit" for b
    using that q rows v by (auto simp: m'_def holds_rows_def makeKey_inject n_def)
  then have "apply_op (DeleteRange (makeKey first) pastTheEndKey) m' (makeKey b) = row n (take k rs) b"
    if "b < bucket_limit" for b
    using that first row_take[OF wf k, of b] v
    by (auto simp: makeKey_le_iff makeKey_before_end first_def n_def)
  moreover have "x = [] \<or> (\<exists>b<bucket_limit. x = makeKey b)" if "x \<in> dom m'" for x
    using that rows q by (auto simp: holds_rows_def m'_def split: if_splits)
  moreover have "dom (apply_op (DeleteRange (makeKey first) pastTheEndKey) m') \<subseteq> dom m'"
    by (auto split: if_splits)
  ultimately show ?thesis unfolding holds_rows_def by blast
qed

context rocksdb_laws
begin

lemma truncate_ok:
  assumes repr: "dra_repr (contents db) d rs"
  shows "\<exists>c'. dra_truncate R db k (beginBatchWrite d []) = (Inr (min k (length rs)), c') \<and>
    ctx_inv (contents db) c' (take k rs) \<and> recSz (c_d c') = recSz d \<and> bucketNRecs (c_d c') = bucketNRecs d"
proof (cases "k < length rs")
  case False
  then show ?thesis
    using repr begin_inv[of "[]" "contents db" d rs]
    by (auto simp: dra_truncate_def beginBatchWrite_def dra_repr_def dra_wf_def Let_def)
next
  case k: True
  let ?n = "bucketNRecs d"
  have wf: "dra_wf d rs" and rows: "holds_rows ?n rs (contents db)" using repr by (auto simp: dra_repr_def)
  obtain v where v: "row ?n rs (k div ?n) = Some v" "recSz d * (k mod ?n) + recSz d \<le> length v"
    using row_record[OF wf k] by blast
  have get: "db_Get R db (makeKey (k div ?n)) = Inr v" using Get_row[OF repr k] v by auto
  have pos: "0 < recSz d" "nRecs d = length rs" using wf by (simp_all add: dra_wf_def)
  note cut = holds_rows_cut[OF wf rows k]
  have wf': "dra_wf (d\<lparr>nRecs := k\<rparr>) (take k rs)"
    using wf k by (auto simp: dra_wf_def dest: in_set_takeD)
  show ?thesis
  proof (cases "0 < k mod ?n")
    case True
    let ?c = "\<lparr> c_d = d\<lparr>nRecs := k\<rparr>, c_batch = [Put (makeKey (k div ?n)) (take (recSz d * (k mod ?n)) v),
        DeleteRange (makeKey (k div ?n + 1)) pastTheEndKey], c_lastWrite = None, c_dirty = True \<rparr>"
    have "dra_truncate R db k (beginBatchWrite d []) = (Inr k, ?c)"
      using True k pos v get
      by (simp add: dra_truncate_def beginBatchWrite_def bucketNum_eq[OF wf] offset_eq[OF wf] truncate_bucket_def Let_def)
    moreover have "ctx_inv (contents db) ?c (take k rs)"
      using cut wf' True v by (simp add: ctx_inv_def del: apply_op.simps(3))
    ultimately show ?thesis using k by simp
  next
    case False
    let ?c = "\<lparr> c_d = d\<lparr>nRecs := k\<rparr>, c_batch = [DeleteRange (makeKey (k div ?n)) pastTheEndKey],
        c_lastWrite = None, c_dirty = True \<rparr>"
    have "dra_truncate R db k (beginBatchWrite d []) = (Inr k, ?c)"
      using False k pos
      by (simp add: dra_truncate_def beginBatchWrite_def bucketNum_eq[OF wf] offset_eq[OF wf] Let_def)
    moreover have "ctx_inv (contents db) ?c (take k rs)"
      using cut wf' False by (simp add: ctx_inv_def del: apply_op.simps(3))
    ultimately show ?thesis using k by simp
  qed
qed

end

section \<open>Random access\<close>

lemma needed_buckets_ne:
  "buckets \<noteq> [] \<or> coe \<Longrightarrow> \<exists>keys. needed_buckets d coe batch buckets = Some keys \<and>
     set keys = set buckets \<union> recordNumToBucketNum d ` {r \<in> set batch. r < nRecs d}"
proof (induction batch arbitrary: buckets)
  case (Cons r batch)
  have "List.insert x buckets \<noteq> []" for x by (auto simp: List.insert_def)
  then show ?case
    using Cons.IH[of buckets] Cons.IH[of "List.insert (recordNumToBucketNum d r) buckets"] Cons.prems by auto
qed simp

lemma needed_buckets_start:
  "needed_buckets d coe batch [] =
     (if \<not> coe \<and> batch \<noteq> [] \<and> nRecs d \<le> hd batch then None else needed_buckets d coe batch [])"
  by (cases batch) auto

lemma collect_results_eq:
  assumes "\<And>r. r \<in> set batch \<Longrightarrow> r < nRecs d \<Longrightarrow>
      recordNumOffsetFromBucketBase d r + recSz d \<le> length (buckets (recordNumToBucketNum d r)) \<and>
      take (recSz d) (drop (recordNumOffsetFromBucketBase d r) (buckets (recordNumToBucketNum d r))) = rs ! r"
  shows "collect_results d coe buckets batch =
    (if coe then (map (\<lambda>r. if r < nRecs d then rs ! r else []) batch, True)
     else (map ((!) rs) (takeWhile (\<lambda>r. r < nRecs d) batch), list_all (\<lambda>r. r < nRecs d) batch))"
  using assms
proof (induction batch)
  case (Cons r batch)
  have "collect_results d coe buckets batch =
    (if coe then (map (\<lambda>r. if r < nRecs d then rs ! r else []) batch, True)
     else (map ((!) rs) (takeWhile (\<lambda>r. r < nRecs d) batch), list_all (\<lambda>r. r < nRecs d) batch))"
    using Cons.prems by (intro Cons.IH) simp
  then show ?case using Cons.prems[of r] by (cases "r < nRecs d"; cases coe) (simp_all add: Let_def)
qed simp

context rocksdb_laws
begin

lemma bucket_bytes_ok:
  assumes "dra_repr (contents db) d rs" "r < nRecs d" "b = recordNumToBucketNum d r"
    "bytes = (case db_Get R db (makeKey b) of Inl _ \<Rightarrow> [] | Inr v \<Rightarrow> v)"
  shows "recordNumOffsetFromBucketBase d r + recSz d \<le> length bytes \<and>
    take (recSz d) (drop (recordNumOffsetFromBucketBase d r) bytes) = rs ! r"
proof -
  have wf: "dra_wf d rs" using assms(1) by (simp add: dra_repr_def)
  have r: "r < length rs" using assms(2) wf by (simp add: dra_wf_def)
  show ?thesis
    using row_record[OF wf r] Get_row[OF assms(1) r] assms(3,4) by (auto simp: offset_eq[OF wf] bucketNum_eq[OF wf])
qed

lemma doBatch_ok:
  assumes repr: "dra_repr (contents db) d rs"
  shows "doBatch R db d coe batch =
    (if coe then (map (\<lambda>r. if r < length rs then rs ! r else []) batch, True)
     else (map ((!) rs) (takeWhile (\<lambda>r. r < length rs) batch), list_all (\<lambda>r. r < length rs) batch))"
proof (cases "\<not> coe \<and> batch \<noteq> [] \<and> nRecs d \<le> hd batch")
  case True
  have "nRecs d = length rs" using repr by (simp add: dra_repr_def dra_wf_def)
  then show ?thesis using True by (cases batch) (auto simp: doBatch_def)
next
  case False
  have nr: "nRecs d = length rs" using repr by (simp add: dra_repr_def dra_wf_def)
  obtain keys where k: "needed_buckets d coe batch [] = Some keys"
    "\<forall>r \<in> set batch. r < nRecs d \<longrightarrow> recordNumToBucketNum d r \<in> set keys"
  proof (cases batch)
    case (Cons r rest)
    then show ?thesis
      using that False needed_buckets_ne[of "[recordNumToBucketNum d r]" coe d rest] needed_buckets_ne[of "[]" coe d rest]
      by (cases "r < nRecs d") auto
  qed (use that in simp)
  let ?buckets = "\<lambda>b. if b \<in> set keys then (case db_Get R db (makeKey b) of Inl _ \<Rightarrow> [] | Inr v \<Rightarrow> v) else []"
  have "collect_results d coe ?buckets batch =
      (if coe then (map (\<lambda>r. if r < nRecs d then rs ! r else []) batch, True)
       else (map ((!) rs) (takeWhile (\<lambda>r. r < nRecs d) batch), list_all (\<lambda>r. r < nRecs d) batch))"
    using k(2) by (intro collect_results_eq bucket_bytes_ok[OF repr]) auto
  then show ?thesis by (simp add: doBatch_def k(1) nr)
qed

lemma readRandomRecords_ok:
  assumes repr: "dra_repr (contents db) d rs"
  shows "readRandomRecords R db d recNums coe =
    (if coe then map (\<lambda>r. if r < length rs then rs ! r else []) recNums
     else map ((!) rs) (takeWhile (\<lambda>r. r < length rs) recNums))"
proof -
  have "rr_batches R db d coe recNums =
    (if coe then map (\<lambda>r. if r < length rs then rs ! r else []) recNums
     else map ((!) rs) (takeWhile (\<lambda>r. r < length rs) recNums))"
  proof (induction "length recNums" arbitrary: recNums rule: less_induct)
    case less
    let ?k = "rr_batchSize d"
    have k: "0 < ?k" by (simp add: rr_batchSize_def)
    show ?case
    proof (cases "recNums = []")
      case False
      have split: "recNums = take ?k recNums @ drop ?k recNums" by simp
      have "length (drop ?k recNums) < length recNums" using k False by simp
      note IH = less[OF this]
      show ?thesis
      proof (cases coe)
        case True
        then show ?thesis
          using False IH
          by (subst rr_batches.simps) (simp add: doBatch_ok[OF repr] flip: map_append)
      next
        case coe: False
        show ?thesis
        proof (cases "list_all (\<lambda>r. r < length rs) (take ?k recNums)")
          case True
          then have "takeWhile (\<lambda>r. r < length rs) recNums =
              take ?k recNums @ takeWhile (\<lambda>r. r < length rs) (drop ?k recNums)"
            by (subst split) (simp only: takeWhile_append2 list_all_iff)
          moreover have "takeWhile (\<lambda>r. r < length rs) (take ?k recNums) = take ?k recNums"
            using True by (simp add: list_all_iff takeWhile_eq_all_conv)
          ultimately show ?thesis
            using False coe IH True
            by (subst rr_batches.simps) (simp add: doBatch_ok[OF repr] del: takeWhile_eq_all_conv)
        next
          case stop: False
          then have "takeWhile (\<lambda>r. r < length rs) recNums = takeWhile (\<lambda>r. r < length rs) (take ?k recNums)"
            by (subst split) (auto simp: list_all_iff takeWhile_append1 simp del: append_take_drop_id)
          then show ?thesis
            using False coe stop by (subst rr_batches.simps) (simp add: doBatch_ok[OF repr])
        qed
      qed
    qed (simp add: rr_batches.simps)
  qed
  then show ?thesis by (simp add: readRandomRecords_def)
qed

end

section \<open>Opening an array\<close>

lemma popcount_pow2: "popcount (2 ^ s) = 1"
  by (induction s) (subst popcount.simps, simp add: popcount.simps[of 0])+

lemma popcount_mask: "popcount (2 ^ s - 1) = s"
proof (induction s)
  case (Suc s)
  have "1 \<le> (2::nat) ^ s" by simp
  then have e: "(2::nat) ^ Suc s - 1 = 2 * (2 ^ s - 1) + 1" unfolding power_Suc by linarith
  have "popcount (2 * (2 ^ s - 1) + 1) = 1 + popcount (2 ^ s - 1)" by (subst popcount.simps) simp
  then show ?case unfolding e Suc by simp
qed (simp add: popcount.simps)

lemma popcount_pos: "0 < n \<Longrightarrow> 0 < popcount n"
proof (induction n rule: popcount.induct)
  case (1 n)
  then show ?case by (subst popcount.simps) (cases "n div 2 = 0"; auto)
qed

lemma popcount_0 [simp]: "popcount 0 = 0"
  by (simp add: popcount.simps)

lemma has_single_bit_pow2: "has_single_bit n \<Longrightarrow> \<exists>s. n = 2 ^ s"
proof (induction n rule: popcount.induct)
  case (1 n)
  then have n: "n \<noteq> 0" by (cases n) (auto simp: has_single_bit_def)
  have p: "n mod 2 + popcount (n div 2) = 1" using 1(2) n by (simp add: has_single_bit_def popcount.simps[of n])
  show ?case
  proof (cases "n mod 2 = 0")
    case True
    then obtain s where "n div 2 = 2 ^ s" using 1(1)[OF n] p by (auto simp: has_single_bit_def)
    then have "n = 2 ^ Suc s" using True by (metis power_Suc mult.commute dvd_div_mult_self mod_0_imp_dvd)
    then show ?thesis by blast
  next
    case False
    then have "popcount (n div 2) = 0" using p by simp
    then have "n div 2 = 0" using popcount_pos[of "n div 2"] by (cases "n div 2") auto
    then have "n = 2 ^ 0" using n by simp
    then show ?thesis by blast
  qed
qed

lemma bit_width_pow2: "bit_width (2 ^ s) = Suc s"
proof (induction s)
  case (Suc s)
  then show ?case by (subst bit_width.simps) simp
qed (simp add: bit_width.simps)

lemma bit_floor_pow2: "bit_floor (2 ^ s) = 2 ^ s"
  by (simp add: bit_floor_def bit_width_pow2)

lemma MetaData_roundtrip: "MetaData_fromBytes (MetaData_toBytes m @ rest) m0 = (True, m)"
  by (simp add: MetaData_fromBytes_def MetaData_toBytes_def int32.unser_ser int64.unser_ser)

lemma last_row_wf:
  assumes wf: "dra_wf d rs" and ne: "rs \<noteq> []"
  defines "q \<equiv> (length rs - 1) div bucketNRecs d"
  shows "\<exists>v. row (bucketNRecs d) rs q = Some v \<and> length v mod recSz d = 0 \<and>
      q * bucketNRecs d + length v div recSz d = length rs"
    and "row (bucketNRecs d) rs b \<noteq> None \<Longrightarrow> b \<le> q"
proof -
  let ?n = "bucketNRecs d"
  have n: "0 < ?n" by (rule wf_pos[OF wf])
  have qn: "q * ?n \<le> length rs - 1" "length rs - 1 < q * ?n + ?n"
    using mod_less_divisor[OF n, of "length rs - 1"] div_mult_mod_eq[of "length rs - 1" ?n] unfolding q_def by linarith+
  have lt: "q * ?n < length rs" using qn(1) ne by (cases rs) auto
  then have "bucket ?n rs q \<noteq> []" using n by (simp add: bucket_def)
  moreover have "length (bucket ?n rs q) = length rs - q * ?n" using qn(2) ne by (cases rs) (auto simp: bucket_def)
  moreover have "length (concat (bucket ?n rs q)) = recSz d * length (bucket ?n rs q)"
    by (rule length_concat_uniform[OF bucket_lengths[OF wf]])
  moreover have "0 < recSz d" using wf by (simp add: dra_wf_def)
  ultimately show "\<exists>v. row ?n rs q = Some v \<and> length v mod recSz d = 0 \<and> q * ?n + length v div recSz d = length rs"
    using lt by (simp add: row_def)
  show "b \<le> q" if "row ?n rs b \<noteq> None"
  proof -
    have "b * ?n < length rs" using that by (auto simp: row_def bucket_def split: if_splits)
    then have "b * ?n \<le> length rs - 1" by linarith
    then show ?thesis using n by (simp add: q_def less_eq_div_iff_mult_less_eq)
  qed
qed

context rocksdb_laws
begin

lemma readOrInitMeta_ok:
  assumes repr: "dra_repr (contents db) d rs"
    and same: "magic d0 = magic d" "recSz d0 = recSz d" "bucketNRecs d0 = 2 ^ bucketShiftAmt d0"
    and small: "recSz d * bucketNRecs d \<le> 2 ^ 31"
  shows "readOrInitMeta R db d0 = Inr (db, d)"
proof -
  let ?m = "MetaData_of d" and ?n = "bucketNRecs d"
  have wf: "dra_wf d rs" and rows: "holds_rows ?n rs (contents db)"
    and meta: "contents db [] = Some (MetaData_toBytes ?m)" using repr by (auto simp: dra_repr_def)
  have fits: "unat (of_nat k :: u64) = k" if "k < bucket_limit" for k
    using that unfolding unat_of_nat by (simp add: bucket_limit_def)
  have "recSz d < bucket_limit" "?n < bucket_limit" "nRecs d = length rs" "length rs < bucket_limit"
    using wf by (simp_all add: dra_wf_def)
  then have m: "unat (md_recSz ?m) = recSz d" "unat (md_bucketNRecs ?m) = ?n" "unat (md_nRecs ?m) = length rs" "md_magic ?m = magic d"
    by (simp_all add: MetaData_of_def fits)
  have first: "db_First R db = Some ([], MetaData_toBytes ?m)"
  proof (cases "db_First R db")
    case None
    then show ?thesis using meta First_None by auto
  next
    case (Some kv)
    obtain k v where kv: "kv = (k, v)" by (cases kv)
    then have "contents db k = Some v" "k \<le> []" using First_Some[of db k v] Some meta by blast+
    then show ?thesis using Some kv meta by simp
  qed
  have adopt: "adopt_meta (d0\<lparr>nRecs := 0\<rparr>) ?m = Inr (d\<lparr>nRecs := 0\<rparr>)"
  proof -
    have n: "?n = 2 ^ bucketShiftAmt d" using wf by (simp add: dra_wf_def)
    have "(recSz d * ?n) mod 2 ^ 64 \<le> 2 ^ 31" using small by (rule le_trans[OF mod_less_eq_dividend])
    then have "\<not> 2 ^ 31 < (recSz d * ?n) mod 2 ^ 64" by (simp only: not_less)
    moreover have "has_single_bit ?n" by (simp add: n has_single_bit_def popcount_pow2)
    moreover have "popcount (?n - 1) = bucketShiftAmt d" unfolding n by (rule popcount_mask)
    moreover have "?n = bucketNRecs d0 \<Longrightarrow> bucketShiftAmt d0 = bucketShiftAmt d" using n same(3) by simp
    ultimately show ?thesis using same m by (simp add: adopt_meta_def)
  qed
  obtain k v where last: "db_Last R db = Some (k, v)"
    using Last_None[of db] meta by (cases "db_Last R db") auto
  note L = Last_Some[OF last]
  have k: "k = [] \<or> (\<exists>b<bucket_limit. k = makeKey b \<and> row ?n rs b = Some v)"
    using L rows by (auto simp: holds_rows_def)
  have "check_last_row (d\<lparr>nRecs := 0\<rparr>) (length rs) k v = Inr ()"
  proof (cases "rs = []")
    case True
    then have "row ?n rs b = None" for b by (simp add: row_def bucket_def)
    then show ?thesis using k True by (simp add: check_last_row_def)
  next
    case False
    let ?q = "(length rs - 1) div ?n"
    obtain w where w: "row ?n rs ?q = Some w" "length w mod recSz d = 0" "?q * ?n + length w div recSz d = length rs"
      using last_row_wf(1)[OF wf False] by (elim exE conjE)
    have q: "?q < bucket_limit" using bucket_number[OF wf, of "length rs - 1"] by simp
    then have "contents db (makeKey ?q) = Some w" using rows w(1) by (simp add: holds_rows_def)
    then have "makeKey ?q \<le> k" using L by blast
    then have "k \<noteq> []" using makeKey_nonempty[of ?q] by auto
    then obtain b where b: "b < bucket_limit" "k = makeKey b" "row ?n rs b = Some v" using k by blast
    have "b \<le> ?q" using b(3) by (intro last_row_wf(2)[OF wf False]) simp
    moreover have "?q \<le> b" using \<open>makeKey ?q \<le> k\<close> b(1,2) q by (simp only: makeKey_le_iff)
    ultimately have "b = ?q" by (rule antisym)
    then have "k = makeKey ?q" using b(2) by simp
    then have "v = w" using L rows w(1) q by (simp add: holds_rows_def)
    moreover have "recordNumToBucketNum (d\<lparr>nRecs := 0\<rparr>) (length rs - 1) = ?q"
      "recordNumBucketBase (d\<lparr>nRecs := 0\<rparr>) (length rs - 1) = ?q * ?n"
      using wf by (simp_all add: recordNumToBucketNum_def recordNumBucketBase_def dra_wf_def drop_bit_eq_div push_bit_eq_mult)
    ultimately show ?thesis using False w \<open>k = makeKey ?q\<close> by (simp add: check_last_row_def Let_def)
  qed
  moreover have "nRecs d = length rs" using wf by (simp add: dra_wf_def)
  ultimately show ?thesis
    using adopt m MetaData_roundtrip[of ?m "[]" MetaData_new]
    by (simp add: readOrInitMeta_def first last Let_def)
qed

end

context rocksdb_laws
begin

lemma new_params:
  assumes "has_single_bit (unat pot)" "0 < rsz" "unat rsz * unat pot \<le> 2 ^ 31"
  obtains s where "unat pot = 2 ^ s"
    "DBRecordArray_new R db rsz pot mg =
       readOrInitMeta R db \<lparr> recSz = unat rsz, magic = mg, bucketNRecs = 2 ^ s, bucketShiftAmt = s, nRecs = 0 \<rparr>"
proof -
  obtain s where s: "unat pot = 2 ^ s" using has_single_bit_pow2[OF assms(1)] by blast
  have "unat rsz \<noteq> 0" using assms(2) by (simp add: word_less_nat_alt)
  then have "DBRecordArray_new R db rsz pot mg =
      readOrInitMeta R db \<lparr> recSz = unat rsz, magic = mg, bucketNRecs = 2 ^ s, bucketShiftAmt = s, nRecs = 0 \<rparr>"
    using assms(1,3) s popcount_mask[of s] unfolding DBRecordArray_new_def Let_def s bit_floor_pow2
    by (simp only: select_convs not_less[symmetric] Column_ok option.case) simp
  then show ?thesis using that s by blast
qed

lemma reopen_ok:
  assumes "dra_repr (contents db) d rs" "recSz d * bucketNRecs d \<le> 2 ^ 31" "recSz d = unat rsz"
    "has_single_bit (unat pot)" "unat rsz * unat pot \<le> 2 ^ 31"
  shows "DBRecordArray_new R db rsz pot (magic d) = Inr (db, d)"
proof -
  have "0 < rsz" using assms(1,3) by (simp add: dra_repr_def dra_wf_def word_less_nat_alt)
  then obtain s where "DBRecordArray_new R db rsz pot (magic d) =
      readOrInitMeta R db \<lparr> recSz = unat rsz, magic = magic d, bucketNRecs = 2 ^ s, bucketShiftAmt = s, nRecs = 0 \<rparr>"
    using new_params[OF assms(4) _ assms(5)] by metis
  then show ?thesis using readOrInitMeta_ok[OF assms(1) _ _ _ assms(2)] assms(3) by simp
qed

lemma create_ok:
  assumes "contents db = Map.empty" "has_single_bit (unat pot)" "0 < rsz" "unat rsz * unat pot \<le> 2 ^ 31"
  shows "\<exists>db' d. DBRecordArray_new R db rsz pot mg = Inr (db', d) \<and> dra_repr (contents db') d [] \<and> recSz d = unat rsz \<and>
    bucketNRecs d = unat pot \<and> magic d = mg"
proof -
  obtain s where s: "unat pot = 2 ^ s"
    "DBRecordArray_new R db rsz pot mg =
       readOrInitMeta R db \<lparr> recSz = unat rsz, magic = mg, bucketNRecs = 2 ^ s, bucketShiftAmt = s, nRecs = 0 \<rparr>"
    using new_params[OF assms(2-4)] by metis
  let ?d = "\<lparr> recSz = unat rsz, magic = mg, bucketNRecs = 2 ^ s, bucketShiftAmt = s, nRecs = 0 \<rparr>"
  have "unat rsz < 2 ^ 64" "2 ^ s < (2::nat) ^ 64"
    using unat_bound[of rsz] unat_bound[of pot] s(1) by simp_all
  then have "dra_repr [[] \<mapsto> MetaData_toBytes (MetaData_of ?d)] ?d []"
    using assms(3)
    by (simp add: dra_repr_def dra_wf_def holds_rows_def row_def bucket_def bucket_limit_def makeKey_nonempty word_less_nat_alt)
  then show ?thesis
    using s First_None[of db] assms(1) by (simp add: readOrInitMeta_def contents_Write Write_ok writeMeta_def Let_def)
qed

end

section \<open>The contract of a record array\<close>

text \<open>One write batch each, as \<open>Storage\<close> issues them for the block headers.\<close>

definition commit_append :: "'db rocksdb \<Rightarrow> bytes \<Rightarrow> 'db \<times> DBRecordArray \<Rightarrow> (string, 'db \<times> DBRecordArray) result" where
  "commit_append R data st =
     (let (res, c) = dra_append data (beginBatchWrite (snd st) [])
      in rbind res (\<lambda>_. Inr (db_Write R (fst st) (endBatchWrite c), c_d c)))"

definition commit_truncate :: "'db rocksdb \<Rightarrow> nat \<Rightarrow> 'db \<times> DBRecordArray \<Rightarrow> (string, 'db \<times> DBRecordArray) result" where
  "commit_truncate R k st =
     (let (res, c) = dra_truncate R (fst st) k (beginBatchWrite (snd st) [])
      in rbind res (\<lambda>_. Inr (db_Write R (fst st) (endBatchWrite c), c_d c)))"

locale record_array =
  fixes repr :: "'s \<Rightarrow> bytes list \<Rightarrow> bool" and rec_size :: "'s \<Rightarrow> nat"
    and append_rec :: "bytes \<Rightarrow> 's \<Rightarrow> (string, 's) result"
    and truncate_to :: "nat \<Rightarrow> 's \<Rightarrow> (string, 's) result"
    and read_many :: "'s \<Rightarrow> nat \<Rightarrow> nat \<Rightarrow> bytes list \<times> string"
  assumes append_repr: "repr st rs \<Longrightarrow> length r = rec_size st \<Longrightarrow> Suc (length rs) < bucket_limit \<Longrightarrow>
      \<exists>st'. append_rec r st = Inr st' \<and> repr st' (rs @ [r]) \<and> rec_size st' = rec_size st"
    and truncate_repr: "repr st rs \<Longrightarrow>
      \<exists>st'. truncate_to k st = Inr st' \<and> repr st' (take k rs) \<and> rec_size st' = rec_size st"
    and read_repr: "repr st rs \<Longrightarrow> start < length rs \<Longrightarrow> 0 < count \<Longrightarrow>
      read_many st start count = (take count (drop start rs), '''')"
    and size_repr: "repr st rs \<Longrightarrow> length rs < bucket_limit"

datatype array_cmd = CAppend bytes | CTruncate nat

primrec spec_cmd :: "array_cmd \<Rightarrow> bytes list \<Rightarrow> bytes list" where
  "spec_cmd (CAppend r) rs = rs @ [r]"
| "spec_cmd (CTruncate k) rs = take k rs"

primrec run_cmds ::
  "(bytes \<Rightarrow> 's \<Rightarrow> (string, 's) result) \<Rightarrow> (nat \<Rightarrow> 's \<Rightarrow> (string, 's) result) \<Rightarrow> array_cmd list \<Rightarrow> 's \<Rightarrow> (string, 's) result" where
  "run_cmds app tru [] st = Inr st"
| "run_cmds app tru (c # cs) st =
     rbind (case c of CAppend r \<Rightarrow> app r st | CTruncate k \<Rightarrow> tru k st) (run_cmds app tru cs)"

context record_array
begin

lemma run_refines:
  assumes "repr st rs" "\<And>r. CAppend r \<in> set cs \<Longrightarrow> length r = rec_size st" "length rs + length cs < bucket_limit"
  shows "\<exists>st'. run_cmds append_rec truncate_to cs st = Inr st' \<and> repr st' (fold spec_cmd cs rs)"
  using assms
proof (induction cs arbitrary: st rs)
  case (Cons c cs)
  obtain st' where st': "(case c of CAppend r \<Rightarrow> append_rec r st | CTruncate k \<Rightarrow> truncate_to k st) = Inr st'"
    "repr st' (spec_cmd c rs)" "rec_size st' = rec_size st"
  proof (cases c)
    case (CAppend r)
    then show ?thesis using that append_repr[OF Cons.prems(1), of r] Cons.prems(2,3) by auto
  next
    case (CTruncate k)
    then show ?thesis using that truncate_repr[OF Cons.prems(1), of k] by auto
  qed
  have "length (spec_cmd c rs) \<le> Suc (length rs)" by (cases c) simp_all
  then show ?case using Cons.IH[OF st'(2)] Cons.prems(2,3) st'(1,3) by simp
qed simp

end

sublocale rocksdb_laws \<subseteq> dra: record_array "\<lambda>st rs. dra_repr (contents (fst st)) (snd st) rs" "\<lambda>st. recSz (snd st)"
  "commit_append R" "commit_truncate R" "\<lambda>st. readRecords R (fst st) (snd st)"
proof
  fix st rs and r :: bytes
  assume repr: "dra_repr (contents (fst st)) (snd st) rs" and len: "length r = recSz (snd st)"
    and room: "Suc (length rs) < bucket_limit"
  have "ctx_inv (contents (fst st)) (beginBatchWrite (snd st) []) rs" using repr by (intro begin_inv) simp
  from append_ok[OF this _ room] len obtain c' where c': "dra_append r (beginBatchWrite (snd st) []) = (Inr (), c')"
    "ctx_inv (contents (fst st)) c' (rs @ [r])" "recSz (c_d c') = recSz (snd st)"
    by (auto simp: beginBatchWrite_def)
  then show "\<exists>st'. commit_append R r st = Inr st' \<and> dra_repr (contents (fst st')) (snd st') (rs @ [r]) \<and>
      recSz (snd st') = recSz (snd st)"
    using end_repr[OF c'(2)] by (simp add: commit_append_def contents_Write)
next
  fix st rs k
  assume repr: "dra_repr (contents (fst st)) (snd st) rs"
  obtain c' where c': "dra_truncate R (fst st) k (beginBatchWrite (snd st) []) = (Inr (min k (length rs)), c')"
    "ctx_inv (contents (fst st)) c' (take k rs)" "recSz (c_d c') = recSz (snd st)"
    using truncate_ok[OF repr] by blast
  then show "\<exists>st'. commit_truncate R k st = Inr st' \<and> dra_repr (contents (fst st')) (snd st') (take k rs) \<and>
      recSz (snd st') = recSz (snd st)"
    using end_repr[OF c'(2)] by (simp add: commit_truncate_def contents_Write)
next
  fix st rs start and count :: nat
  assume "dra_repr (contents (fst st)) (snd st) rs" "start < length rs" "0 < count"
  then show "readRecords R (fst st) (snd st) start count = (take count (drop start rs), '''')"
    by (simp add: readRecords_ok)
qed (simp add: dra_repr_def dra_wf_def)

context rocksdb_laws
begin

lemma run_cmds_ok:
  assumes "dra_repr (contents db) d rs" "\<forall>r. CAppend r \<in> set cs \<longrightarrow> length r = recSz d"
    "length rs + length cs < bucket_limit"
  shows "\<exists>db' d'. run_cmds (commit_append R) (commit_truncate R) cs (db, d) = Inr (db', d') \<and>
    dra_repr (contents db') d' (fold spec_cmd cs rs)"
  using dra.run_refines[of "(db, d)" rs cs] assms by auto

end

section \<open>A database\<close>

text \<open>An ordered finite map meets RocksDB's laws, so the assumptions of the array are satisfiable.\<close>

fun fm_apply :: "batch_op \<Rightarrow> (bytes, bytes) fmap \<Rightarrow> (bytes, bytes) fmap" where
  "fm_apply (Put k v) m = fmupd k v m"
| "fm_apply (Merge k v) m = fmupd k (ConcatOperator_Merge (fmlookup m k) v) m"
| "fm_apply (Delete k) m = fmdrop k m"
| "fm_apply (DeleteRange a b) m = fmfilter (\<lambda>k. \<not> (a \<le> k \<and> k < b)) m"

definition fm_rocksdb :: "(bytes, bytes) fmap rocksdb" where
  "fm_rocksdb = \<lparr> db_Get = (\<lambda>m k. case fmlookup m k of None \<Rightarrow> Inl NotFound | Some v \<Rightarrow> Inr v),
     db_Write = (\<lambda>m ops. fold fm_apply ops m), db_WriteError = None, db_ColumnError = None,
     db_First = (\<lambda>m. if fmdom m = {||} then None else let k = fMin (fmdom m) in Some (k, the (fmlookup m k))),
     db_Last = (\<lambda>m. if fmdom m = {||} then None else let k = fMax (fmdom m) in Some (k, the (fmlookup m k))) \<rparr>"

lemma fmlookup_fm_apply: "fmlookup (fm_apply op m) = apply_op op (fmlookup m)"
  by (cases op) auto

interpretation fm: rocksdb_laws fm_rocksdb fmlookup
proof
  have empty: "fmdom m = {||} \<longleftrightarrow> fmlookup m = Map.empty" for m :: "(bytes, bytes) fmap"
  proof
    assume "fmdom m = {||}"
    then show "fmlookup m = Map.empty" by (intro ext) (simp add: fmdom_notD)
  next
    assume e: "fmlookup m = Map.empty"
    have "m = fmempty" by (rule fmap_ext) (simp add: e)
    then show "fmdom m = {||}" by simp
  qed
  show "fmlookup db k = Some v \<Longrightarrow> db_Get fm_rocksdb db k = Inr v" for db k v by (simp add: fm_rocksdb_def)
  show "fmlookup db k = None \<Longrightarrow> db_Get fm_rocksdb db k = Inl NotFound" for db k by (simp add: fm_rocksdb_def)
  have "fmlookup (fold fm_apply ops m) = fold apply_op ops (fmlookup m)" for ops m
    by (induction ops arbitrary: m) (simp_all add: fmlookup_fm_apply)
  then show "fmlookup (db_Write fm_rocksdb db ops) = fold apply_op ops (fmlookup db)" for db ops
    by (simp add: fm_rocksdb_def)
  show "db_WriteError fm_rocksdb = None" "db_ColumnError fm_rocksdb = None" by (simp_all add: fm_rocksdb_def)
  show "db_First fm_rocksdb db = None \<longleftrightarrow> fmlookup db = Map.empty" for db
    by (simp add: fm_rocksdb_def empty Let_def)
  show "db_Last fm_rocksdb db = None \<longleftrightarrow> fmlookup db = Map.empty" for db
    by (simp add: fm_rocksdb_def empty Let_def)
  show "fmlookup db k = Some v \<and> (\<forall>k' \<in> dom (fmlookup db). k \<le> k')"
    if "db_First fm_rocksdb db = Some (k, v)" for db k v
  proof -
    have ne: "fmdom db \<noteq> {||}" and k: "k = fMin (fmdom db)" "v = the (fmlookup db k)"
      using that by (auto simp: fm_rocksdb_def Let_def split: if_splits)
    have "k |\<in>| fmdom db" unfolding k using ne by (rule fMin_in)
    moreover have "\<forall>k' \<in> dom (fmlookup db). k \<le> k'" unfolding k(1) by (metis domIff fMin_le fmdom_notD)
    ultimately show ?thesis using k(2) by (auto simp: fmlookup_dom_iff)
  qed
  show "fmlookup db k = Some v \<and> (\<forall>k' \<in> dom (fmlookup db). k' \<le> k)"
    if "db_Last fm_rocksdb db = Some (k, v)" for db k v
  proof -
    have ne: "fmdom db \<noteq> {||}" and k: "k = fMax (fmdom db)" "v = the (fmlookup db k)"
      using that by (auto simp: fm_rocksdb_def Let_def split: if_splits)
    have "k |\<in>| fmdom db" unfolding k using ne by (rule fMax_in)
    moreover have "\<forall>k' \<in> dom (fmlookup db). k' \<le> k" unfolding k(1) by (metis domIff fMax_ge fmdom_notD)
    ultimately show ?thesis using k(2) by (auto simp: fmlookup_dom_iff)
  qed
qed

section \<open>Record arrays behave as lists\<close>

text \<open>C21: Any sequence of appended records (of the array's record size) and truncations, each in its own write
  batch, succeeds on a database that meets RocksDB's documented behaviour and leaves an array that
  represents exactly the list those commands describe.\<close>

theorem record_array_refines_list:
  assumes "rocksdb_laws R contents" and "dra_repr (contents db) d rs"
    and "\<forall>r. CAppend r \<in> set cs \<longrightarrow> length r = recSz d" and "length rs + length cs < bucket_limit"
  shows "\<exists>db' d'. run_cmds (commit_append R) (commit_truncate R) cs (db, d) = Inr (db', d') \<and>
    dra_repr (contents db') d' (fold spec_cmd cs rs)"
  by (rule rocksdb_laws.run_cmds_ok[OF assms])

definition demo_pot :: u32 where "demo_pot = 2"

lemma demo_new: "\<exists>db d. DBRecordArray_new fm_rocksdb fmempty 3 demo_pot 7 = Inr (db, d) \<and>
    dra_repr (fmlookup db) d [] \<and> recSz d = 3 \<and> bucketNRecs d = 2 \<and> magic d = 7"
proof -
  have "has_single_bit (unat demo_pot)"
    using popcount_pow2[of 1] by (simp add: has_single_bit_def demo_pot_def)
  moreover have "fmlookup fmempty = (Map.empty :: bytes \<rightharpoonup> bytes)" by (rule ext) simp
  ultimately show ?thesis using fm.create_ok[of fmempty demo_pot 3 7] by (simp add: demo_pot_def)
qed

theorem record_array_refines_list_witness:
  "\<exists>db d db' d'. run_cmds (commit_append fm_rocksdb) (commit_truncate fm_rocksdb)
      [CAppend [1, 2, 3], CAppend [4, 5, 6], CAppend [7, 8, 9], CTruncate 1, CAppend [0, 0, 1]] (db, d) = Inr (db', d') \<and>
    dra_repr (fmlookup db') d' [[1, 2, 3], [0, 0, 1]]"
proof -
  obtain db d where d: "dra_repr (fmlookup db) d []" "recSz d = 3" using demo_new by blast
  have "(5::nat) < bucket_limit" by (simp add: bucket_limit_def)
  then show ?thesis
    using record_array_refines_list[OF fm.rocksdb_laws_axioms d(1),
        of "[CAppend [1, 2, 3], CAppend [4, 5, 6], CAppend [7, 8, 9], CTruncate 1, CAppend [0, 0, 1]]"] d(2)
    by auto
qed

text \<open>C22: What an array that represents a list of records returns: \<open>readRecord\<close> the record or an error past the
  end, \<open>readRecords\<close> the slice cut at the end or an error where the slice is empty, and
  \<open>readRandomRecords\<close> the records asked for, with empty entries for bad numbers or cut at the first
  bad one; its batches of at most 8 MiB are not observable.\<close>

theorem record_array_reads:
  assumes "rocksdb_laws R contents" and "dra_repr (contents db) d rs"
  shows "readRecord R db d r = (if r < length rs then (rs ! r, '''') else ([], ''Record number out of range'')) \<and>
    readRecords R db d start count =
      (if start < length rs \<and> 0 < count then (take count (drop start rs), '''')
       else ([], ''readRecords specification is out of range'')) \<and>
    readRandomRecords R db d recNums True = map (\<lambda>r. if r < length rs then rs ! r else []) recNums \<and>
    readRandomRecords R db d recNums False = map ((!) rs) (takeWhile (\<lambda>r. r < length rs) recNums)"
  using rocksdb_laws.readRecord_ok[OF assms] rocksdb_laws.readRecords_ok[OF assms]
    rocksdb_laws.readRandomRecords_ok[OF assms] by simp

theorem record_array_reads_witness:
  "\<exists>db d. dra_repr (fmlookup db) d [] \<and> readRecord fm_rocksdb db d 4 = ([], ''Record number out of range'')"
proof -
  obtain db d where d: "dra_repr (fmlookup db) d []" using demo_new by blast
  then show ?thesis using record_array_reads[OF fm.rocksdb_laws_axioms d] by (intro exI[of _ db] exI[of _ d]) simp
qed

text \<open>C23: Reopening an array that was left consistent succeeds whatever (legal) bucket size is configured, and
  finds the same records: the sanity checks of the metadata row against the last row accept every
  array the write operations produce, and the bucket size on disk wins.\<close>

theorem record_array_reopens:
  assumes "rocksdb_laws R contents" and "dra_repr (contents db) d rs" and "recSz d * bucketNRecs d \<le> 2 ^ 31"
    and "recSz d = unat rsz" and "has_single_bit (unat pot)" and "unat rsz * unat pot \<le> 2 ^ 31"
  shows "DBRecordArray_new R db rsz pot (magic d) = Inr (db, d)"
  by (rule rocksdb_laws.reopen_ok[OF assms])

theorem record_array_reopens_witness:
  "\<exists>db d. DBRecordArray_new fm_rocksdb fmempty 3 demo_pot 7 = Inr (db, d) \<and>
     DBRecordArray_new fm_rocksdb db 3 8 (magic d) = Inr (db, d)"
proof -
  obtain db d where d: "DBRecordArray_new fm_rocksdb fmempty 3 demo_pot 7 = Inr (db, d)"
    "dra_repr (fmlookup db) d []" "recSz d = 3" "bucketNRecs d = 2" using demo_new by blast
  have "has_single_bit (unat (8 :: u32))" using popcount_pow2[of 3] by (simp add: has_single_bit_def)
  then have "DBRecordArray_new fm_rocksdb db 3 8 (magic d) = Inr (db, d)"
    using d(3,4) by (intro record_array_reopens[OF fm.rocksdb_laws_axioms d(2)]) simp_all
  then show ?thesis using d(1) by blast
qed

end
