(* ===== verification/Crypto_Hash.thy ===== *)
theory Crypto_Hash
  imports Merkle_Tree
begin

text \<open>
  The hash functions of \<open>bitcoin/crypto\<close> and \<open>bitcoin/hash.h\<close> that block headers, merkle trees and
  script hashes are built from: the portable SHA-256 (\<open>sha256.cpp\<close>), double SHA-256 and BLAKE2b
  (\<open>blake2b.cpp\<close>). Both have a streaming interface over a block buffer; what is proved of them is that
  the buffering is invisible, that is, the digest depends on the concatenated input alone. The
  node hash of \<open>Merkle_Tree\<close> is interpreted with double SHA-256 here.
\<close>

section \<open>Integers in memory (common.h)\<close>

definition ReadLE32 :: "bytes \<Rightarrow> u32" where "ReadLE32 p = le_dec (take 4 p)"
definition ReadLE64 :: "bytes \<Rightarrow> u64" where "ReadLE64 p = le_dec (take 8 p)"
definition WriteLE32 :: "u32 \<Rightarrow> bytes" where "WriteLE32 x = le_enc 4 x"
definition WriteLE64 :: "u64 \<Rightarrow> bytes" where "WriteLE64 x = le_enc 8 x"
definition ReadBE32 :: "bytes \<Rightarrow> u32" where "ReadBE32 p = be_dec (take 4 p)"
definition WriteBE32 :: "u32 \<Rightarrow> bytes" where "WriteBE32 x = be_enc 4 x"
definition WriteBE64 :: "u64 \<Rightarrow> bytes" where "WriteBE64 x = be_enc 8 x"

section \<open>SHA-256\<close>

definition Ch :: "u32 \<Rightarrow> u32 \<Rightarrow> u32 \<Rightarrow> u32" where
  "Ch x y z = z XOR (x AND (y XOR z))"

definition Maj :: "u32 \<Rightarrow> u32 \<Rightarrow> u32 \<Rightarrow> u32" where
  "Maj x y z = (x AND y) OR (z AND (x OR y))"

definition Sigma0 :: "u32 \<Rightarrow> u32" where
  "Sigma0 x = (drop_bit 2 x OR push_bit 30 x) XOR (drop_bit 13 x OR push_bit 19 x) XOR (drop_bit 22 x OR push_bit 10 x)"

definition Sigma1 :: "u32 \<Rightarrow> u32" where
  "Sigma1 x = (drop_bit 6 x OR push_bit 26 x) XOR (drop_bit 11 x OR push_bit 21 x) XOR (drop_bit 25 x OR push_bit 7 x)"

definition sigma0 :: "u32 \<Rightarrow> u32" where
  "sigma0 x = (drop_bit 7 x OR push_bit 25 x) XOR (drop_bit 18 x OR push_bit 14 x) XOR drop_bit 3 x"

definition sigma1 :: "u32 \<Rightarrow> u32" where
  "sigma1 x = (drop_bit 17 x OR push_bit 15 x) XOR (drop_bit 19 x OR push_bit 13 x) XOR drop_bit 10 x"

text \<open>One \<open>Round\<close>. The source renames its eight variables from one call to the next instead of moving
  them; the tuple is in the order the next call uses.\<close>

type_synonym sha_regs = "u32 \<times> u32 \<times> u32 \<times> u32 \<times> u32 \<times> u32 \<times> u32 \<times> u32"

fun sha_Round :: "u32 \<Rightarrow> sha_regs \<Rightarrow> sha_regs" where
  "sha_Round k (a, b, c, d, e, f, g, h) =
     (let t1 = h + Sigma1 e + Ch e f g + k; t2 = Sigma0 a + Maj a b c
      in (t1 + t2, a, b, c, d + t1, e, f, g))"

text \<open>The constant of each of the 64 rounds.\<close>

definition sha_round_constants :: "(nat \<times> u32) list" where
  "sha_round_constants = [
    (0, 0x428a2f98), (1, 0x71374491), (2, 0xb5c0fbcf), (3, 0xe9b5dba5),
    (4, 0x3956c25b), (5, 0x59f111f1), (6, 0x923f82a4), (7, 0xab1c5ed5),
    (8, 0xd807aa98), (9, 0x12835b01), (10, 0x243185be), (11, 0x550c7dc3),
    (12, 0x72be5d74), (13, 0x80deb1fe), (14, 0x9bdc06a7), (15, 0xc19bf174),
    (16, 0xe49b69c1), (17, 0xefbe4786), (18, 0x0fc19dc6), (19, 0x240ca1cc),
    (20, 0x2de92c6f), (21, 0x4a7484aa), (22, 0x5cb0a9dc), (23, 0x76f988da),
    (24, 0x983e5152), (25, 0xa831c66d), (26, 0xb00327c8), (27, 0xbf597fc7),
    (28, 0xc6e00bf3), (29, 0xd5a79147), (30, 0x06ca6351), (31, 0x14292967),
    (32, 0x27b70a85), (33, 0x2e1b2138), (34, 0x4d2c6dfc), (35, 0x53380d13),
    (36, 0x650a7354), (37, 0x766a0abb), (38, 0x81c2c92e), (39, 0x92722c85),
    (40, 0xa2bfe8a1), (41, 0xa81a664b), (42, 0xc24b8b70), (43, 0xc76c51a3),
    (44, 0xd192e819), (45, 0xd6990624), (46, 0xf40e3585), (47, 0x106aa070),
    (48, 0x19a4c116), (49, 0x1e376c08), (50, 0x2748774c), (51, 0x34b0bcb5),
    (52, 0x391c0cb3), (53, 0x4ed8aa4a), (54, 0x5b9cca4f), (55, 0x682e6ff3),
    (56, 0x748f82ee), (57, 0x78a5636f), (58, 0x84c87814), (59, 0x8cc70208),
    (60, 0x90befffa), (61, 0xa4506ceb), (62, 0xbef9a3f7), (63, 0xc67178f2)]"

definition sha_K :: "u32 list" where
  "sha_K = map snd sha_round_constants"

text \<open>The sixteen schedule variables as a ring: the oldest one is at the front and is replaced by
  \<open>w0 += sigma1(w14) + w9 + sigma0(w1)\<close>, which becomes the newest.\<close>

definition sha_schedule :: "u32 list \<Rightarrow> u32 list" where
  "sha_schedule w = tl w @ [w ! 0 + (sigma1 (w ! 14) + w ! 9 + sigma0 (w ! 1))]"

fun sha_rounds :: "u32 list \<Rightarrow> u32 list \<Rightarrow> sha_regs \<Rightarrow> sha_regs" where
  "sha_rounds [] w regs = regs"
| "sha_rounds (k # ks) w regs = sha_rounds ks (sha_schedule w) (sha_Round (k + w ! 0) regs)"

fun regs_of :: "u32 list \<Rightarrow> sha_regs" where
  "regs_of [a, b, c, d, e, f, g, h] = (a, b, c, d, e, f, g, h)"
| "regs_of _ = (0, 0, 0, 0, 0, 0, 0, 0)"

fun list_of_regs :: "sha_regs \<Rightarrow> u32 list" where
  "list_of_regs (a, b, c, d, e, f, g, h) = [a, b, c, d, e, f, g, h]"

definition sha_block :: "u32 list \<Rightarrow> bytes \<Rightarrow> u32 list" where
  "sha_block s chunk =
     map2 (+) s (list_of_regs (sha_rounds sha_K (map (\<lambda>i. ReadBE32 (drop (4 * i) chunk)) [0..<16]) (regs_of s)))"

primrec Transform :: "u32 list \<Rightarrow> bytes \<Rightarrow> nat \<Rightarrow> u32 list" where
  "Transform s chunk 0 = s"
| "Transform s chunk (Suc blocks) = Transform (sha_block s (take 64 chunk)) (drop 64 chunk) blocks"

definition sha_Initialize :: "u32 list" where
  "sha_Initialize = [0x6a09e667, 0xbb67ae85, 0x3c6ef372, 0xa54ff53a, 0x510e527f, 0x9b05688c, 0x1f83d9ab, 0x5be0cd19]"

record CSHA256 =
  cs_s :: "u32 list"
  cs_buf :: bytes
  cs_bytes :: u64

definition CSHA256_new :: CSHA256 where
  "CSHA256_new = \<lparr> cs_s = sha_Initialize, cs_buf = replicate 64 0, cs_bytes = 0 \<rparr>"

text \<open>\<open>memcpy(buf + pos, data, n)\<close> for the whole of \<open>data\<close>.\<close>

definition put_at :: "nat \<Rightarrow> bytes \<Rightarrow> bytes \<Rightarrow> bytes" where
  "put_at pos data buf = take pos buf @ data @ drop (pos + length data) buf"

definition sha_fill :: "bytes \<Rightarrow> CSHA256 \<Rightarrow> CSHA256 \<times> bytes \<times> nat" where
  "sha_fill data st =
     (let bufsize = unat (cs_bytes st mod 64)
      in if bufsize \<noteq> 0 \<and> bufsize + length data \<ge> 64 then
           let buf = put_at bufsize (take (64 - bufsize) data) (cs_buf st)
           in (st\<lparr>cs_buf := buf, cs_bytes := cs_bytes st + of_nat (64 - bufsize), cs_s := Transform (cs_s st) buf 1\<rparr>,
               drop (64 - bufsize) data, 0)
         else (st, data, bufsize))"

definition sha_blocks :: "bytes \<Rightarrow> CSHA256 \<Rightarrow> CSHA256 \<times> bytes" where
  "sha_blocks data st =
     (if length data \<ge> 64 then
        let blocks = length data div 64
        in (st\<lparr>cs_s := Transform (cs_s st) data blocks, cs_bytes := cs_bytes st + of_nat (64 * blocks)\<rparr>, drop (64 * blocks) data)
      else (st, data))"

definition CSHA256_Write :: "bytes \<Rightarrow> CSHA256 \<Rightarrow> CSHA256" where
  "CSHA256_Write data st =
     (let (st, data, bufsize) = sha_fill data st; (st, data) = sha_blocks data st
      in if data \<noteq> [] then
           st\<lparr>cs_buf := put_at bufsize data (cs_buf st), cs_bytes := cs_bytes st + of_nat (length data)\<rparr>
         else st)"

definition sha_pad :: bytes where
  "sha_pad = 0x80 # replicate 63 0"

definition CSHA256_Finalize :: "CSHA256 \<Rightarrow> bytes \<times> CSHA256" where
  "CSHA256_Finalize st =
     (let sizedesc = WriteBE64 (push_bit 3 (cs_bytes st));
          st = CSHA256_Write (take (1 + (119 - unat (cs_bytes st mod 64)) mod 64) sha_pad) st;
          st = CSHA256_Write sizedesc st
      in (concat (map WriteBE32 (cs_s st)), st))"

definition CSHA256_Reset :: "CSHA256 \<Rightarrow> CSHA256" where
  "CSHA256_Reset st = st\<lparr>cs_bytes := 0, cs_s := sha_Initialize\<rparr>"

definition CHash256_Finalize :: "bool \<Rightarrow> CSHA256 \<Rightarrow> bytes" where
  "CHash256_Finalize once sha =
     (let (buf, sha) = CSHA256_Finalize sha
      in if \<not> once then fst (CSHA256_Finalize (CSHA256_Write buf (CSHA256_Reset sha)))
         else buf)"

text \<open>\<open>BTC::Hash\<close>, \<open>BTC::HashRev\<close>, \<open>BTC::HashTwo\<close> and \<open>bitcoin::Hash\<close> of two ranges.\<close>

definition BTC_Hash :: "bytes \<Rightarrow> bool \<Rightarrow> bytes" where
  "BTC_Hash b once = CHash256_Finalize once (CSHA256_Write b CSHA256_new)"

definition HashRev :: "bytes \<Rightarrow> bool \<Rightarrow> bytes" where
  "HashRev b once = rev (BTC_Hash b once)"

definition HashTwo :: "bytes \<Rightarrow> bytes \<Rightarrow> bytes" where
  "HashTwo a b = CHash256_Finalize False (CSHA256_Write b (CSHA256_Write a CSHA256_new))"

section \<open>The digest depends on the concatenated input alone\<close>

text \<open>The padded message and the digest of the standard.\<close>

definition sha256_padded :: "bytes \<Rightarrow> bytes" where
  "sha256_padded m = m @ 0x80 # replicate ((119 - length m mod 64) mod 64) 0 @ be_enc 8 (of_nat (8 * length m) :: u64)"

definition sha256 :: "bytes \<Rightarrow> bytes" where
  "sha256 m = concat (map (be_enc 4)
     (Transform sha_Initialize (sha256_padded m) (length (sha256_padded m) div 64)))"

definition sha_inv :: "CSHA256 \<Rightarrow> bytes \<Rightarrow> bool" where
  "sha_inv st m \<longleftrightarrow> cs_bytes st = of_nat (length m) \<and> length (cs_buf st) = 64 \<and>
     cs_s st = Transform sha_Initialize m (length m div 64) \<and>
     take (length m mod 64) (cs_buf st) = drop (64 * (length m div 64)) m"

lemma Transform_append:
  "length a = 64 * i \<Longrightarrow> Transform s (a @ b) (i + j) = Transform (Transform s a i) b j"
  by (induction i arbitrary: s a) auto

lemma Transform_take: "64 * n \<le> length m \<Longrightarrow> Transform s m n = Transform s (take (64 * n) m) n"
proof -
  assume a: "64 * n \<le> length m"
  have "Transform s (take (64 * n) m @ drop (64 * n) m) (n + 0) = Transform s (take (64 * n) m) n"
    using a by (subst Transform_append) simp_all
  then show ?thesis by simp
qed

lemma bytes_mod64: "unat ((of_nat n :: u64) mod 64) = n mod 64"
proof -
  have "unat (of_nat n :: u64) = n mod 2 ^ 64" by (simp add: unat_of_nat)
  moreover have "(64::nat) dvd 2 ^ 64" by simp
  ultimately show ?thesis by (simp add: unat_mod_distrib mod_mod_cancel)
qed

lemma length_Transform: "length s = 8 \<Longrightarrow> length (Transform s m n) = 8"
proof (induction n arbitrary: s m)
  case (Suc n)
  have "length (list_of_regs r) = 8" for r by (cases r) auto
  then have "length (sha_block s (take 64 m)) = 8" using Suc.prems by (simp add: sha_block_def)
  then show ?case by (simp add: Suc.IH)
qed simp

text \<open>Extending a message: the blocks not yet processed are those of its tail and the new bytes.\<close>

lemma Transform_extend:
  "Transform s (m @ data) ((length m + length data) div 64) =
     Transform (Transform s m (length m div 64)) (drop (64 * (length m div 64)) m @ data) ((length m mod 64 + length data) div 64)"
proof -
  let ?q = "length m div 64" and ?r = "length m mod 64"
  have l: "64 * ?q \<le> length m" by simp
  have n: "(length m + length data) div 64 = ?q + (?r + length data) div 64"
    using div_mult_self3[of 64 ?q "?r + length data"] by (simp add: add.assoc[symmetric])
  have "Transform s (m @ data) ((length m + length data) div 64) =
      Transform s (take (64 * ?q) m @ (drop (64 * ?q) m @ data)) (?q + (?r + length data) div 64)"
    using n by (simp add: append_assoc[symmetric] del: append_assoc)
  also have "\<dots> = Transform (Transform s (take (64 * ?q) m) ?q) (drop (64 * ?q) m @ data) ((?r + length data) div 64)"
    by (rule Transform_append) (simp add: l)
  also have "Transform s (take (64 * ?q) m) ?q = Transform s m ?q" using Transform_take[OF l] by simp
  finally show ?thesis .
qed

lemma put_at_length: "pos + length data \<le> length buf \<Longrightarrow> length (put_at pos data buf) = length buf"
  by (simp add: put_at_def)

lemma take_put_at: "pos + length data \<le> length buf \<Longrightarrow> take (pos + length data) (put_at pos data buf) = take pos buf @ data"
  by (simp add: put_at_def)

lemma whole_blocks: "length m mod 64 = 0 \<Longrightarrow> drop (64 * (length m div 64)) m = []"
  using mult_div_mod_eq[of 64 "length m"] by simp

lemma sha_invI:
  assumes "b = of_nat (length m)" "length buf = 64" "s = Transform sha_Initialize m (length m div 64)"
    "take (length m mod 64) buf = drop (64 * (length m div 64)) m"
  shows "sha_inv (st\<lparr>cs_buf := buf, cs_bytes := b, cs_s := s\<rparr>) m"
  using assms by (simp add: sha_inv_def)

lemma sha_fill_inv:
  assumes "sha_inv st m" "sha_fill data st = (st', data', bufsize)"
  shows "\<exists>m'. sha_inv st' m' \<and> m @ data = m' @ data' \<and> bufsize = length m' mod 64 \<and>
    (bufsize = 0 \<or> bufsize + length data' < 64)"
proof -
  let ?r = "length m mod 64" and ?tail = "drop (64 * (length m div 64)) m"
  have b: "unat (cs_bytes st mod 64) = ?r" using assms(1) by (simp add: sha_inv_def bytes_mod64)
  show ?thesis
  proof (cases "?r \<noteq> 0 \<and> ?r + length data \<ge> 64")
    case False
    then show ?thesis using assms b by (auto simp: sha_fill_def Let_def)
  next
    case True
    let ?d = "take (64 - ?r) data"
    have "64 - ?r \<le> length data" using True by linarith
    then have d: "length ?d = 64 - ?r" by simp
    have rl: "?r < 64" by simp
    have buf: "put_at ?r ?d (cs_buf st) = ?tail @ ?d"
      using assms(1) d rl by (simp add: put_at_def sha_inv_def)
    have lm: "length (m @ ?d) mod 64 = 0" "length (m @ ?d) div 64 = length m div 64 + 1"
    proof -
      have "length (m @ ?d) = 64 * (length m div 64) + 64"
        using d rl mult_div_mod_eq[of 64 "length m"] by (simp only: length_append) linarith
      then show "length (m @ ?d) mod 64 = 0" "length (m @ ?d) div 64 = length m div 64 + 1" by simp_all
    qed
    have "(?r + length ?d) div 64 = 1" using d rl by simp
    then have tr: "Transform sha_Initialize (m @ ?d) (length (m @ ?d) div 64) = Transform (cs_s st) (?tail @ ?d) 1"
      using Transform_extend[of sha_Initialize m ?d] assms(1) by (simp add: sha_inv_def)
    have "drop (64 * (length (m @ ?d) div 64)) (m @ ?d) = []" by (rule whole_blocks[OF lm(1)])
    then have inv: "sha_inv (st\<lparr>cs_buf := ?tail @ ?d, cs_bytes := cs_bytes st + of_nat (64 - ?r),
        cs_s := Transform (cs_s st) (?tail @ ?d) 1\<rparr>) (m @ ?d)"
    proof -
      have "length (?tail @ ?d) = 64"
        using d rl by (simp only: length_append length_drop minus_mult_div_eq_mod)
      moreover have "cs_bytes st + of_nat (64 - ?r) = of_nat (length (m @ ?d))"
        using assms(1) unfolding sha_inv_def length_append d of_nat_add by simp
      ultimately show ?thesis
        using tr[symmetric] whole_blocks[OF lm(1)] by (intro sha_invI) (simp_all only: lm(1) take_0)
    qed
    have eqs: "st' = st\<lparr>cs_buf := ?tail @ ?d, cs_bytes := cs_bytes st + of_nat (64 - ?r),
        cs_s := Transform (cs_s st) (?tail @ ?d) 1\<rparr>" "data' = drop (64 - ?r) data" "bufsize = 0"
    proof -
      have "sha_fill data st = (st\<lparr>cs_buf := ?tail @ ?d, cs_bytes := cs_bytes st + of_nat (64 - ?r),
        cs_s := Transform (cs_s st) (?tail @ ?d) 1\<rparr>, drop (64 - ?r) data, 0)"
        using True unfolding sha_fill_def Let_def b buf by (simp only: if_True not_False_eq_True simp_thms)
      then show "st' = st\<lparr>cs_buf := ?tail @ ?d, cs_bytes := cs_bytes st + of_nat (64 - ?r),
        cs_s := Transform (cs_s st) (?tail @ ?d) 1\<rparr>" "data' = drop (64 - ?r) data" "bufsize = 0"
        unfolding assms(2) prod.inject by blast+
    qed
    show ?thesis
    proof (intro exI conjI)
      show "sha_inv st' (m @ ?d)" unfolding eqs(1) by (rule inv)
      show "m @ data = (m @ ?d) @ data'" unfolding eqs(2) by simp
      show "bufsize = length (m @ ?d) mod 64" unfolding eqs(3) lm(1) ..
      show "bufsize = 0 \<or> bufsize + length data' < 64" using eqs(3) by blast
    qed
  qed
qed

lemma sha_blocks_inv:
  assumes "sha_inv st m" "sha_blocks data st = (st', data')" "length m mod 64 = 0 \<or> length m mod 64 + length data < 64"
  shows "\<exists>m'. sha_inv st' m' \<and> m @ data = m' @ data' \<and> length m' mod 64 = length m mod 64 \<and>
    length m mod 64 + length data' < 64"
proof (cases "64 \<le> length data")
  case False
  then show ?thesis using assms by (auto simp: sha_blocks_def)
next
  case True
  let ?n = "length data div 64"
  let ?d = "take (64 * ?n) data"
  have d: "length ?d = 64 * ?n" by simp
  have r: "length m mod 64 = 0" using assms(3) True by auto
  have tail: "drop (64 * (length m div 64)) m = []" by (rule whole_blocks[OF r])
  have q: "length (m @ ?d) mod 64 = 0" using r d by simp
  have "Transform sha_Initialize (m @ ?d) (length (m @ ?d) div 64) = Transform (cs_s st) ?d ?n"
    using Transform_extend[of sha_Initialize m ?d] assms(1) tail r d by (simp add: sha_inv_def)
  moreover have "Transform (cs_s st) ?d ?n = Transform (cs_s st) data ?n" by (rule Transform_take[symmetric]) simp
  moreover have "drop (64 * (length (m @ ?d) div 64)) (m @ ?d) = []" by (rule whole_blocks[OF q])
  ultimately have "sha_inv (st\<lparr>cs_s := Transform (cs_s st) data ?n, cs_bytes := cs_bytes st + of_nat (64 * ?n)\<rparr>) (m @ ?d)"
    using assms(1) q d by (simp add: sha_inv_def)
  moreover have "length (drop (64 * ?n) data) < 64" by (simp add: minus_mult_div_eq_mod)
  ultimately show ?thesis using assms(2) True r q by (auto simp: sha_blocks_def Let_def intro!: exI[of _ "m @ ?d"])
qed

lemma sha_Write_inv:
  assumes "sha_inv st m"
  shows "sha_inv (CSHA256_Write data st) (m @ data)"
proof -
  obtain st1 d1 b1 where 1: "sha_fill data st = (st1, d1, b1)" by (rule prod_cases3)
  obtain st2 d2 where 2: "sha_blocks d1 st1 = (st2, d2)" by (rule prod.exhaust)
  obtain m1 where m1: "sha_inv st1 m1" "m @ data = m1 @ d1" "b1 = length m1 mod 64" "b1 = 0 \<or> b1 + length d1 < 64"
    using sha_fill_inv[OF assms 1] by (elim exE conjE)
  have c: "length m1 mod 64 = 0 \<or> length m1 mod 64 + length d1 < 64" using m1(3,4) by simp
  obtain m2 where m2: "sha_inv st2 m2" "m1 @ d1 = m2 @ d2" "length m2 mod 64 = b1" "b1 + length d2 < 64"
    using sha_blocks_inv[OF m1(1) 2 c] unfolding m1(3) by (elim exE conjE)
  let ?st = "st2\<lparr>cs_buf := put_at b1 d2 (cs_buf st2), cs_bytes := cs_bytes st2 + of_nat (length d2)\<rparr>"
  have w: "CSHA256_Write data st = (if d2 \<noteq> [] then ?st else st2)" by (simp add: CSHA256_Write_def 1 2)
  have q: "(length m2 + length d2) div 64 = length m2 div 64" "(length m2 + length d2) mod 64 = b1 + length d2"
  proof -
    define k where "k = length m2 div 64"
    have e: "length m2 + length d2 = (b1 + length d2) + 64 * k"
      using m2(3) mult_div_mod_eq[of 64 "length m2"] unfolding k_def by linarith
    show "(length m2 + length d2) div 64 = length m2 div 64" "(length m2 + length d2) mod 64 = b1 + length d2"
      unfolding e k_def[symmetric] using m2(4) by simp_all
  qed
  have "Transform sha_Initialize (m2 @ d2) (length (m2 @ d2) div 64) = cs_s st2"
    using Transform_extend[of sha_Initialize m2 d2] m2 by (simp add: sha_inv_def)
  moreover have "take b1 (cs_buf st2) = drop (64 * (length m2 div 64)) m2" using m2(1,3) by (simp add: sha_inv_def)
  moreover have "length (cs_buf st2) = 64" "cs_bytes st2 = of_nat (length m2)" using m2(1) by (simp_all add: sha_inv_def)
  ultimately have "sha_inv ?st (m2 @ d2)"
    using m2(4) q put_at_length[of b1 d2 "cs_buf st2"] take_put_at[of b1 d2 "cs_buf st2"] by (simp add: sha_inv_def)
  then show ?thesis using w m1(2) m2(1,2) by (cases "d2 = []") simp_all
qed

lemma sha_new_inv: "sha_inv CSHA256_new []"
  by (simp add: sha_inv_def CSHA256_new_def)

lemma sha_Reset_inv: "sha_inv st m \<Longrightarrow> sha_inv (CSHA256_Reset st) []"
  by (simp add: sha_inv_def CSHA256_Reset_def)

lemma sha_Finalize_ok:
  assumes "sha_inv st m"
  shows "fst (CSHA256_Finalize st) = sha256 m" "\<exists>m'. sha_inv (snd (CSHA256_Finalize st)) m'"
proof -
  let ?k = "(119 - length m mod 64) mod 64"
  have k: "unat (cs_bytes st mod 64) = length m mod 64" using assms by (simp add: sha_inv_def bytes_mod64)
  have "?k < 64" by simp
  then have pad: "take (1 + ?k) sha_pad = 0x80 # replicate ?k 0" by (simp add: sha_pad_def)
  have size: "push_bit 3 (cs_bytes st) = of_nat (8 * length m)"
    using assms by (simp add: sha_inv_def push_bit_eq_mult mult.commute)
  have w: "sha_inv (CSHA256_Write (WriteBE64 (push_bit 3 (cs_bytes st)))
      (CSHA256_Write (take (1 + (119 - unat (cs_bytes st mod 64)) mod 64) sha_pad) st)) (sha256_padded m)"
    using sha_Write_inv[OF sha_Write_inv[OF assms, of "0x80 # replicate ?k 0"], of "be_enc 8 (of_nat (8 * length m) :: u64)"]
    unfolding k pad size WriteBE64_def sha256_padded_def by simp
  then show "\<exists>m'. sha_inv (snd (CSHA256_Finalize st)) m'" by (auto simp: CSHA256_Finalize_def Let_def)
  have "map WriteBE32 = map (be_enc 4 :: u32 \<Rightarrow> bytes)" by (intro arg_cong[of _ _ map] ext) (simp add: WriteBE32_def)
  then show "fst (CSHA256_Finalize st) = sha256 m"
    using w unfolding CSHA256_Finalize_def Let_def sha256_def by (simp add: sha_inv_def)
qed

lemma length_sha256 [simp]: "length (sha256 m) = 32"
proof -
  have "length (concat (map (be_enc 4) ws)) = 4 * length ws" for ws :: "u32 list" by (induction ws) simp_all
  then show ?thesis using length_Transform[of sha_Initialize] by (simp add: sha256_def sha_Initialize_def)
qed

lemma sha_stream_inv: "sha_inv st m \<Longrightarrow> sha_inv (fold CSHA256_Write chunks st) (m @ concat chunks)"
proof (induction chunks arbitrary: st m)
  case (Cons a chunks)
  then show ?case using Cons.IH[OF sha_Write_inv[OF Cons.prems, of a]] by simp
qed simp

lemma CHash256_ok:
  assumes "sha_inv st m"
  shows "CHash256_Finalize once st = (if once then sha256 m else sha256 (sha256 m))"
proof -
  obtain m' where "sha_inv (CSHA256_Reset (snd (CSHA256_Finalize st))) []"
    using sha_Finalize_ok(2)[OF assms] sha_Reset_inv by blast
  then have "sha_inv (CSHA256_Write (sha256 m) (CSHA256_Reset (snd (CSHA256_Finalize st)))) (sha256 m)"
    using sha_Write_inv by fastforce
  then show ?thesis
    using sha_Finalize_ok(1)[OF assms] sha_Finalize_ok(1) by (simp add: CHash256_Finalize_def split_beta)
qed

lemma BTC_Hash_eq: "BTC_Hash b once = (if once then sha256 b else sha256 (sha256 b))"
  using CHash256_ok[OF sha_Write_inv[OF sha_new_inv, of b]] by (simp add: BTC_Hash_def)

lemma HashTwo_eq: "HashTwo a b = sha256 (sha256 (a @ b))"
  using CHash256_ok[OF sha_Write_inv[OF sha_Write_inv[OF sha_new_inv, of a], of b], of False] by (simp add: HashTwo_def)

lemma length_BTC_Hash [simp]: "length (BTC_Hash b once) = 32"
  by (simp add: BTC_Hash_eq)

lemma length_HashRev [simp]: "length (HashRev b once) = 32"
  by (simp add: HashRev_def)

text \<open>The node hash of the merkle trees.\<close>

definition sha256d :: "bytes \<Rightarrow> hash" where
  "sha256d m = BTC_Hash m False"

interpretation merkle_sha256d: node_hash sha256d
  by unfold_locales (simp add: sha256d_def)

text \<open>C35: However a message is split over calls of \<open>CSHA256::Write\<close>, \<open>Finalize\<close> returns the SHA-256 digest of the
  padded concatenation: the block buffer, the direct processing of whole blocks and the 64-bit
  length field agree for every split.\<close>

theorem sha256_streaming:
  "fst (CSHA256_Finalize (fold CSHA256_Write chunks CSHA256_new)) = sha256 (concat chunks)"
  using sha_Finalize_ok(1)[OF sha_stream_inv[OF sha_new_inv, of chunks]] by simp

section \<open>BLAKE2b\<close>

definition blake2b_IV :: "u64 list" where
  "blake2b_IV = [0x6a09e667f3bcc908, 0xbb67ae8584caa73b, 0x3c6ef372fe94f82b, 0xa54ff53a5f1d36f1,
     0x510e527fade682d1, 0x9b05688c2b3e6c1f, 0x1f83d9abfb41bd6b, 0x5be0cd19137e2179]"

definition blake2b_sigma :: "nat list list" where
  "blake2b_sigma = [
    [0, 1, 2, 3, 4, 5, 6, 7, 8, 9, 10, 11, 12, 13, 14, 15],
    [14, 10, 4, 8, 9, 15, 13, 6, 1, 12, 0, 2, 11, 7, 5, 3],
    [11, 8, 12, 0, 5, 2, 15, 13, 10, 14, 3, 6, 7, 1, 9, 4],
    [7, 9, 3, 1, 13, 12, 11, 14, 2, 6, 5, 10, 4, 0, 15, 8],
    [9, 0, 5, 7, 2, 4, 10, 15, 14, 1, 11, 12, 6, 8, 3, 13],
    [2, 12, 6, 10, 0, 11, 8, 3, 4, 13, 7, 5, 15, 14, 1, 9],
    [12, 5, 1, 15, 14, 13, 4, 10, 0, 7, 6, 3, 9, 2, 8, 11],
    [13, 11, 7, 14, 12, 1, 3, 9, 5, 0, 15, 4, 8, 6, 2, 10],
    [6, 15, 14, 9, 11, 3, 0, 8, 12, 2, 13, 7, 1, 4, 10, 5],
    [10, 2, 8, 4, 7, 6, 1, 5, 15, 11, 9, 14, 3, 12, 13, 0],
    [0, 1, 2, 3, 4, 5, 6, 7, 8, 9, 10, 11, 12, 13, 14, 15],
    [14, 10, 4, 8, 9, 15, 13, 6, 1, 12, 0, 2, 11, 7, 5, 3]]"

record blake2b_state =
  b_h :: "u64 list"
  b_t0 :: u64
  b_t1 :: u64
  b_f0 :: u64
  b_f1 :: u64
  b_buf :: bytes
  b_buflen :: nat
  b_outlen :: nat
  b_last_node :: byte

abbreviation (input) BLAKE2B_BLOCKBYTES :: nat where "BLAKE2B_BLOCKBYTES \<equiv> 128"
abbreviation (input) BLAKE2B_OUTBYTES :: nat where "BLAKE2B_OUTBYTES \<equiv> 64"

definition blake2b_is_lastblock :: "blake2b_state \<Rightarrow> bool" where
  "blake2b_is_lastblock S \<longleftrightarrow> b_f0 S \<noteq> 0"

definition blake2b_set_lastblock :: "blake2b_state \<Rightarrow> blake2b_state" where
  "blake2b_set_lastblock S =
     (let S = (if b_last_node S \<noteq> 0 then S\<lparr>b_f1 := - 1\<rparr> else S) in S\<lparr>b_f0 := - 1\<rparr>)"

definition blake2b_increment_counter :: "u64 \<Rightarrow> blake2b_state \<Rightarrow> blake2b_state" where
  "blake2b_increment_counter inc S =
     (let S = S\<lparr>b_t0 := b_t0 S + inc\<rparr> in S\<lparr>b_t1 := b_t1 S + (if b_t0 S < inc then 1 else 0)\<rparr>)"

definition blake2b_init0 :: blake2b_state where
  "blake2b_init0 = \<lparr> b_h = blake2b_IV, b_t0 = 0, b_t1 = 0, b_f0 = 0, b_f1 = 0,
     b_buf = replicate BLAKE2B_BLOCKBYTES 0, b_buflen = 0, b_outlen = 0, b_last_node = 0 \<rparr>"

text \<open>The parameter block as its 64 bytes; the first is the digest length.\<close>

definition blake2b_init_param :: "bytes \<Rightarrow> blake2b_state" where
  "blake2b_init_param p =
     (let S = blake2b_init0
      in S\<lparr>b_h := map (\<lambda>i. b_h S ! i XOR ReadLE64 (drop (8 * i) p)) [0..<8], b_outlen := unat (hd p)\<rparr>)"

definition blake2b_init :: "nat \<Rightarrow> blake2b_state option" where
  "blake2b_init outlen =
     (if outlen = 0 \<or> outlen > BLAKE2B_OUTBYTES then None
      else Some (blake2b_init_param
        ([of_nat outlen, 0, 1, 1] @ WriteLE32 0 @ WriteLE32 0 @ WriteLE32 0 @ [0, 0] @
         replicate 14 0 @ replicate 16 0 @ replicate 16 0)))"

definition rotr64 :: "u64 \<Rightarrow> nat \<Rightarrow> u64" where
  "rotr64 x n = drop_bit n x OR push_bit (64 - n) x"

definition blake_G :: "u64 list \<Rightarrow> nat \<Rightarrow> nat \<Rightarrow> nat \<Rightarrow> nat \<Rightarrow> nat \<Rightarrow> nat \<Rightarrow> u64 list \<Rightarrow> u64 list" where
  "blake_G m r i a b c d v =
     (let v = v[a := v ! a + v ! b + m ! (blake2b_sigma ! r ! (2 * i + 0))];
          v = v[d := rotr64 (v ! d XOR v ! a) 32];
          v = v[c := v ! c + v ! d];
          v = v[b := rotr64 (v ! b XOR v ! c) 24];
          v = v[a := v ! a + v ! b + m ! (blake2b_sigma ! r ! (2 * i + 1))];
          v = v[d := rotr64 (v ! d XOR v ! a) 16];
          v = v[c := v ! c + v ! d]
      in v[b := rotr64 (v ! b XOR v ! c) 63])"

definition blake_ROUND :: "u64 list \<Rightarrow> nat \<Rightarrow> u64 list \<Rightarrow> u64 list" where
  "blake_ROUND m r v =
     (let v = blake_G m r 0 0 4 8 12 v;
          v = blake_G m r 1 1 5 9 13 v;
          v = blake_G m r 2 2 6 10 14 v;
          v = blake_G m r 3 3 7 11 15 v;
          v = blake_G m r 4 0 5 10 15 v;
          v = blake_G m r 5 1 6 11 12 v;
          v = blake_G m r 6 2 7 8 13 v
      in blake_G m r 7 3 4 9 14 v)"

definition blake2b_compress :: "bytes \<Rightarrow> blake2b_state \<Rightarrow> blake2b_state" where
  "blake2b_compress block S =
     (let m = map (\<lambda>i. ReadLE64 (drop (8 * i) block)) [0..<16];
          v = b_h S @ take 4 blake2b_IV @
              [blake2b_IV ! 4 XOR b_t0 S, blake2b_IV ! 5 XOR b_t1 S, blake2b_IV ! 6 XOR b_f0 S, blake2b_IV ! 7 XOR b_f1 S];
          v = fold (blake_ROUND m) [0..<12] v
      in S\<lparr>b_h := map (\<lambda>i. b_h S ! i XOR v ! i XOR v ! (i + 8)) [0..<8]\<rparr>)"

function blake2b_blocks :: "bytes \<Rightarrow> blake2b_state \<Rightarrow> bytes \<times> blake2b_state" where
  "blake2b_blocks data S =
     (if length data > BLAKE2B_BLOCKBYTES then
        blake2b_blocks (drop BLAKE2B_BLOCKBYTES data)
          (blake2b_compress (take BLAKE2B_BLOCKBYTES data) (blake2b_increment_counter 128 S))
      else (data, S))"
  by pat_completeness auto
termination
  by (relation "measure (\<lambda>(data, S). length data)") auto

declare blake2b_blocks.simps [simp del]

definition blake2b_update :: "bytes \<Rightarrow> blake2b_state \<Rightarrow> blake2b_state" where
  "blake2b_update data S =
     (if length data > 0 then
        let left = b_buflen S; fill = BLAKE2B_BLOCKBYTES - left;
            (data, S) =
              (if length data > fill then
                 let S = S\<lparr>b_buflen := 0\<rparr>;
                     S = S\<lparr>b_buf := put_at left (take fill data) (b_buf S)\<rparr>;
                     S = blake2b_increment_counter 128 S;
                     S = blake2b_compress (b_buf S) S
                 in blake2b_blocks (drop fill data) S
               else (data, S));
            S = S\<lparr>b_buf := put_at (b_buflen S) data (b_buf S)\<rparr>
        in S\<lparr>b_buflen := b_buflen S + length data\<rparr>
      else S)"

definition blake2b_final :: "nat \<Rightarrow> blake2b_state \<Rightarrow> bytes option" where
  "blake2b_final outlen S =
     (if outlen < b_outlen S then None
      else if blake2b_is_lastblock S then None
      else
        let S = blake2b_increment_counter (of_nat (b_buflen S)) S;
            S = blake2b_set_lastblock S;
            S = S\<lparr>b_buf := put_at (b_buflen S) (replicate (BLAKE2B_BLOCKBYTES - b_buflen S) 0) (b_buf S)\<rparr>;
            S = blake2b_compress (b_buf S) S;
            buffer = concat (map (\<lambda>i. WriteLE64 (b_h S ! i)) [0..<8])
        in Some (take (b_outlen S) buffer))"

definition blake2b_nokey :: "nat \<Rightarrow> bytes \<Rightarrow> bytes option" where
  "blake2b_nokey outlen data =
     (if outlen = 0 \<or> outlen > BLAKE2B_OUTBYTES then None
      else case blake2b_init outlen of None \<Rightarrow> None | Some S \<Rightarrow> blake2b_final outlen (blake2b_update data S))"

text \<open>
  The function as RFC 7693 defines it: \<open>F\<close> mixes one 128-byte block with the 128-bit byte offset
  \<open>t\<close>, and the last block, padded with zeros, is mixed with the length of the message and the
  final flag.
\<close>

definition rfc_F :: "u64 list \<Rightarrow> bytes \<Rightarrow> nat \<Rightarrow> bool \<Rightarrow> u64 list" where
  "rfc_F h block t final =
     (let m = map (\<lambda>i. le_dec (take 8 (drop (8 * i) block))) [0..<16];
          v = fold (blake_ROUND m) [0..<12]
            (h @ take 4 blake2b_IV @
             [blake2b_IV ! 4 XOR of_nat t, blake2b_IV ! 5 XOR of_nat (t div 2 ^ 64),
              blake2b_IV ! 6 XOR (if final then - 1 else 0), blake2b_IV ! 7])
      in map (\<lambda>i. h ! i XOR v ! i XOR v ! (i + 8)) [0..<8])"

definition rfc_h0 :: "nat \<Rightarrow> u64 list" where
  "rfc_h0 nn = blake2b_IV[0 := blake2b_IV ! 0 XOR (0x01010000 XOR of_nat nn)]"

definition rfc_absorb :: "nat \<Rightarrow> bytes \<Rightarrow> nat \<Rightarrow> u64 list" where
  "rfc_absorb nn d n = fold (\<lambda>i h. rfc_F h (take 128 (drop (128 * i) d)) (128 * (i + 1)) False) [0..<n] (rfc_h0 nn)"

definition rfc_blake2b :: "nat \<Rightarrow> bytes \<Rightarrow> bytes" where
  "rfc_blake2b nn d =
     (let n = (length d - 1) div 128; rest = drop (128 * n) d
      in take nn (concat (map (le_enc 8)
           (rfc_F (rfc_absorb nn d n) (rest @ replicate (128 - length rest) 0) (length d) True))))"

definition blake_core :: "nat \<Rightarrow> nat \<Rightarrow> bytes \<Rightarrow> blake2b_state \<Rightarrow> bool" where
  "blake_core nn n m S \<longleftrightarrow>
     b_h S = rfc_absorb nn m n \<and> b_t0 S = of_nat (128 * n) \<and> b_t1 S = of_nat (128 * n div 2 ^ 64) \<and>
     b_f0 S = 0 \<and> b_f1 S = 0 \<and> b_last_node S = 0 \<and> b_outlen S = nn"

definition blake_inv :: "nat \<Rightarrow> blake2b_state \<Rightarrow> bytes \<Rightarrow> bool" where
  "blake_inv nn S m \<longleftrightarrow>
     (let n = (length m - 1) div 128
      in blake_core nn n m S \<and> length (b_buf S) = 128 \<and> b_buflen S = length m - 128 * n \<and>
         take (b_buflen S) (b_buf S) = drop (128 * n) m)"

lemma counter_carry:
  fixes a c :: nat
  assumes "c < 2 ^ 64"
  shows "(of_nat ((a + c) div 2 ^ 64) :: u64) =
         of_nat (a div 2 ^ 64) + (if (of_nat a + of_nat c :: u64) < of_nat c then 1 else 0)"
proof -
  let ?N = "2 ^ 64 :: nat"
  have u: "unat (of_nat x :: u64) = x mod ?N" for x by (simp add: unat_of_nat)
  have q: "(a + c) div ?N = a div ?N + (if a mod ?N + c \<ge> ?N then 1 else 0)"
    "(a + c) mod ?N = (if a mod ?N + c \<ge> ?N then a mod ?N + c - ?N else a mod ?N + c)"
  proof -
    have e: "a + c = (a mod ?N + c) + a div ?N * ?N" by simp
    have lt: "a mod ?N < ?N" by simp
    show "(a + c) div ?N = a div ?N + (if a mod ?N + c \<ge> ?N then 1 else 0)"
      using lt assms by (subst e, subst div_mult_self1) (auto simp: div_nat_eqI le_div_geq)
    show "(a + c) mod ?N = (if a mod ?N + c \<ge> ?N then a mod ?N + c - ?N else a mod ?N + c)"
      using lt assms by (subst e, subst mod_mult_self1) (auto simp: le_mod_geq)
  qed
  have "(of_nat a + of_nat c :: u64) < of_nat c \<longleftrightarrow> (a + c) mod ?N < c"
    using u[of "a + c"] u[of c] assms by (simp add: word_less_nat_alt)
  also have "\<dots> \<longleftrightarrow> a mod ?N + c \<ge> ?N"
    using q(2) assms mod_less_divisor[of ?N a] by (auto split: if_splits)
  finally show ?thesis using q(1) by simp
qed

lemma blake_F_compress:
  assumes "b_t0 S = of_nat t" "b_t1 S = of_nat (t div 2 ^ 64)" "b_f0 S = (if final then - 1 else 0)" "b_f1 S = 0"
  shows "b_h (blake2b_compress block S) = rfc_F (b_h S) block t final"
  using assms by (simp add: blake2b_compress_def rfc_F_def ReadLE64_def Let_def)

lemma compress_frame [simp]:
  "b_t0 (blake2b_compress b S) = b_t0 S" "b_t1 (blake2b_compress b S) = b_t1 S"
  "b_f0 (blake2b_compress b S) = b_f0 S" "b_f1 (blake2b_compress b S) = b_f1 S"
  "b_buf (blake2b_compress b S) = b_buf S" "b_buflen (blake2b_compress b S) = b_buflen S"
  "b_outlen (blake2b_compress b S) = b_outlen S" "b_last_node (blake2b_compress b S) = b_last_node S"
  by (simp_all add: blake2b_compress_def Let_def)

lemma increment_frame [simp]:
  "b_h (blake2b_increment_counter i S) = b_h S"
  "b_f0 (blake2b_increment_counter i S) = b_f0 S" "b_f1 (blake2b_increment_counter i S) = b_f1 S"
  "b_buf (blake2b_increment_counter i S) = b_buf S" "b_buflen (blake2b_increment_counter i S) = b_buflen S"
  "b_outlen (blake2b_increment_counter i S) = b_outlen S" "b_last_node (blake2b_increment_counter i S) = b_last_node S"
  by (simp_all add: blake2b_increment_counter_def Let_def)

lemma increment_counts:
  assumes "b_t0 S = of_nat t" "b_t1 S = of_nat (t div 2 ^ 64)" "c < 2 ^ 64"
  shows "b_t0 (blake2b_increment_counter (of_nat c) S) = of_nat (t + c)"
    "b_t1 (blake2b_increment_counter (of_nat c) S) = of_nat ((t + c) div 2 ^ 64)"
  using counter_carry[OF assms(3), of t] assms(1,2) by (simp_all add: blake2b_increment_counter_def Let_def)

lemma blake_core_step:
  assumes "blake_core nn n m S"
  shows "blake_core nn (Suc n) m (blake2b_compress (take 128 (drop (128 * n) m)) (blake2b_increment_counter 128 S))"
proof -
  have c: "b_t0 S = of_nat (128 * n)" "b_t1 S = of_nat (128 * n div 2 ^ 64)" using assms unfolding blake_core_def by blast+
  let ?S = "blake2b_increment_counter 128 S"
  have i: "b_t0 ?S = of_nat (128 * Suc n)" "b_t1 ?S = of_nat (128 * Suc n div 2 ^ 64)"
    using increment_counts[OF c, of 128] by (simp_all add: add.commute)
  have "b_h (blake2b_compress (take 128 (drop (128 * n) m)) ?S) = rfc_absorb nn m (Suc n)"
    using assms blake_F_compress[OF i, of False] by (simp add: blake_core_def rfc_absorb_def)
  then show ?thesis using assms i by (simp add: blake_core_def)
qed

lemma rfc_absorb_append: "128 * n \<le> length m \<Longrightarrow> rfc_absorb nn (m @ x) n = rfc_absorb nn m n"
  unfolding rfc_absorb_def by (rule fold_cong) auto

lemma blake_core_append: "blake_core nn n m S \<Longrightarrow> 128 * n \<le> length m \<Longrightarrow> blake_core nn n (m @ x) S"
  by (simp add: blake_core_def rfc_absorb_append)

lemma blake_core_buf [simp]:
  "blake_core nn n m (S\<lparr>b_buf := x\<rparr>) = blake_core nn n m S" "blake_core nn n m (S\<lparr>b_buflen := y\<rparr>) = blake_core nn n m S"
  by (simp_all add: blake_core_def)

lemma blake2b_blocks_ok:
  assumes "blake_core nn n m S" "128 * n < length m"
  shows "\<exists>k S'. blake2b_blocks (drop (128 * n) m) S = (drop (128 * k) m, S') \<and> blake_core nn k m S' \<and>
           128 * k < length m \<and> length m \<le> 128 * k + 128 \<and> b_buf S' = b_buf S \<and> b_buflen S' = b_buflen S"
  using assms
proof (induction "length m - 128 * n" arbitrary: n S rule: less_induct)
  case less
  show ?case
  proof (cases "length m > 128 * n + 128")
    case True
    let ?S = "blake2b_compress (take 128 (drop (128 * n) m)) (blake2b_increment_counter 128 S)"
    have core: "blake_core nn (Suc n) m ?S" using less.prems(1) by (rule blake_core_step)
    have "length m - 128 * Suc n < length m - 128 * n" "128 * Suc n < length m" using True by simp_all
    from less.hyps[OF this(1) core this(2)]
    obtain k S' where k: "blake2b_blocks (drop (128 * Suc n) m) ?S = (drop (128 * k) m, S')" "blake_core nn k m S'"
      "128 * k < length m" "length m \<le> 128 * k + 128" "b_buf S' = b_buf ?S" "b_buflen S' = b_buflen ?S" by (elim exE conjE)
    have "blake2b_blocks (drop (128 * n) m) S = blake2b_blocks (drop (128 * Suc n) m) ?S"
    proof -
      have "128 < length (drop (128 * n) m)" using True by simp
      then show ?thesis by (subst blake2b_blocks.simps) (simp add: add.commute)
    qed
    then show ?thesis using k by (intro exI[of _ k] exI[of _ S']) simp
  next
    case False
    then show ?thesis
      using less.prems by (intro exI[of _ n] exI[of _ S]) (simp add: blake2b_blocks.simps)
  qed
qed

lemma last_block_unique: "128 * k < len \<Longrightarrow> len \<le> 128 * k + 128 \<Longrightarrow> (len - 1) div 128 = (k :: nat)"
  by (rule div_nat_eqI) simp_all

lemma last_block_bounds: "128 * ((len - 1) div 128) \<le> len" "len \<le> 128 * ((len - 1) div 128) + (128 :: nat)"
  by linarith+

lemma blake2b_update_ok:
  assumes "blake_inv nn S m"
  shows "blake_inv nn (blake2b_update data S) (m @ data)"
proof (cases "data = []")
  case False
  define n where "n = (length m - 1) div 128"
  let ?m = "m @ data"
  note b = last_block_bounds[of "length m", folded n_def]
  have S: "blake_core nn n m S" "length (b_buf S) = 128" "b_buflen S = length m - 128 * n"
    "take (b_buflen S) (b_buf S) = drop (128 * n) m"
    using assms unfolding blake_inv_def Let_def n_def[symmetric] by blast+
  have core: "blake_core nn n ?m S" using S(1) b(1) by (rule blake_core_append)
  define left where "left = b_buflen S"
  have left: "left \<le> 128" "length m = 128 * n + left" "take left (b_buf S) = drop (128 * n) m"
    using S(3,4) b by (simp_all add: left_def)
  have fin: "blake_inv nn (S'\<lparr>b_buf := put_at (b_buflen S') rest (b_buf S'), b_buflen := b_buflen S' + length rest\<rparr>) ?m"
    if "blake_core nn k ?m S'" "128 * k < length ?m" "length ?m \<le> 128 * k + 128" "length (b_buf S') = 128"
      "take (b_buflen S') (b_buf S') @ rest = drop (128 * k) ?m" "b_buflen S' \<le> 128" for k S' rest
  proof -
    have l: "b_buflen S' + length rest = length ?m - 128 * k"
      using arg_cong[OF that(5), of length] that(4,6) by simp
    then have "b_buflen S' + length rest \<le> length (b_buf S')" using that(3,4) by simp
    then show ?thesis
      using that l put_at_length[of "b_buflen S'" rest "b_buf S'"] take_put_at[of "b_buflen S'" rest "b_buf S'"]
        last_block_unique[OF that(2,3)] by (simp add: blake_inv_def Let_def)
  qed
  show ?thesis
  proof (cases "length data > 128 - left")
    case True
    let ?fill = "128 - left"
    let ?S1 = "S\<lparr>b_buflen := 0, b_buf := put_at left (take ?fill data) (b_buf S)\<rparr>"
    have buf: "put_at left (take ?fill data) (b_buf S) = take 128 (drop (128 * n) ?m)"
      using True left S(2) by (simp add: put_at_def)
    let ?S2 = "blake2b_compress (b_buf ?S1) (blake2b_increment_counter 128 ?S1)"
    have core2: "blake_core nn (Suc n) ?m ?S2" using blake_core_step[of nn n ?m ?S1] core buf by simp
    have lt: "128 * Suc n < length ?m" using True left by simp
    have d: "drop ?fill data = drop (128 * Suc n) ?m" using left by simp
    obtain k S' where k: "blake2b_blocks (drop ?fill data) ?S2 = (drop (128 * k) ?m, S')" "blake_core nn k ?m S'"
      "128 * k < length ?m" "length ?m \<le> 128 * k + 128" "b_buf S' = b_buf ?S2" "b_buflen S' = b_buflen ?S2"
      using blake2b_blocks_ok[OF core2 lt] unfolding d by (elim exE conjE)
    have "length (b_buf S') = 128" using k(5) True S(2) left put_at_length[of left "take ?fill data" "b_buf S"] by simp
    from fin[OF k(2,3,4) this, of "drop (128 * k) ?m"] k(6)
    show ?thesis using False True k(1) by (simp add: blake2b_update_def left_def Let_def)
  next
    case short: False
    have "128 * n < length ?m" "length ?m \<le> 128 * n + 128" using False short left by simp_all
    from fin[OF core this S(2), of data] left
    show ?thesis using False short by (simp add: blake2b_update_def left_def Let_def)
  qed
qed (use assms in \<open>simp add: blake2b_update_def\<close>)

lemma length_rfc_F [simp]: "length (rfc_F h b t f) = 8"
  by (simp add: rfc_F_def Let_def)

lemma blake2b_final_ok:
  assumes "blake_inv nn S m"
  shows "blake2b_final nn S = Some (rfc_blake2b nn m)"
proof -
  define n where "n = (length m - 1) div 128"
  note b = last_block_bounds[of "length m", folded n_def]
  have S: "blake_core nn n m S" "length (b_buf S) = 128" "b_buflen S = length m - 128 * n"
    "take (b_buflen S) (b_buf S) = drop (128 * n) m"
    using assms unfolding blake_inv_def Let_def n_def[symmetric] by blast+
  have c: "b_t0 S = of_nat (128 * n)" "b_t1 S = of_nat (128 * n div 2 ^ 64)" "b_h S = rfc_absorb nn m n"
    "b_f0 S = 0" "b_f1 S = 0" "b_last_node S = 0" "b_outlen S = nn" using S(1) unfolding blake_core_def by blast+
  have "b_buflen S < 2 ^ 64" using S(3) b by simp
  note i = increment_counts[OF c(1,2) this]
  have len: "128 * n + b_buflen S = length m" using S(3) b by simp
  define buf where "buf = put_at (b_buflen S) (replicate (128 - b_buflen S) 0) (b_buf S)"
  have buf: "buf = drop (128 * n) m @ replicate (128 - length (drop (128 * n) m)) 0"
    using S b unfolding buf_def put_at_def by simp
  let ?S = "(blake2b_set_lastblock (blake2b_increment_counter (of_nat (b_buflen S)) S))\<lparr>b_buf := buf\<rparr>"
  have t: "b_t0 ?S = of_nat (length m)" "b_t1 ?S = of_nat (length m div 2 ^ 64)" "b_f0 ?S = (if True then - 1 else 0)" "b_f1 ?S = 0"
    using i c len by (simp_all add: blake2b_set_lastblock_def)
  have h: "b_h (blake2b_compress buf ?S) = rfc_F (rfc_absorb nn m n) buf (length m) True"
    using blake_F_compress[OF t, of buf] c by (simp add: blake2b_set_lastblock_def)
  have m8: "map (\<lambda>i. WriteLE64 (hs ! i)) [0..<8] = map (le_enc 8) hs" if "length hs = 8" for hs
    using that by (intro nth_equalityI) (simp_all add: WriteLE64_def)
  have "b_buflen (blake2b_set_lastblock (blake2b_increment_counter (of_nat (b_buflen S)) S)) = b_buflen S"
    "b_buf (blake2b_set_lastblock (blake2b_increment_counter (of_nat (b_buflen S)) S)) = b_buf S"
    "b_outlen (blake2b_set_lastblock (blake2b_increment_counter (of_nat (b_buflen S)) S)) = nn"
    using c by (simp_all add: blake2b_set_lastblock_def)
  then show ?thesis
    using c h buf_def[symmetric] m8 unfolding blake2b_final_def rfc_blake2b_def n_def[symmetric] blake2b_is_lastblock_def Let_def buf[symmetric]
    by simp
qed

lemma blake2b_init_ok:
  assumes "0 < nn" "nn \<le> 64"
  shows "\<exists>S. blake2b_init nn = Some S \<and> blake_inv nn S []"
proof -
  have nn: "unat (of_nat nn :: byte) = nn" using assms by (simp add: unat_of_nat)
  have "le_dec [of_nat nn :: byte, 0, 1, 1, 0, 0, 0, 0] = (0x01010000 XOR of_nat nn :: u64)"
  proof -
    have "le_dec (b # bs) = (push_bit 8 (le_dec bs) XOR ucast b :: u64)" for b bs
      by (rule bit_word_eqI) (auto simp: bit_simps dest: bit_imp_le_length)
    moreover have "push_bit 8 (le_dec [0, 1, 1, 0, 0, 0, 0] :: u64) = 0x01010000" by simp
    moreover have "(ucast (of_nat nn :: byte) :: u64) = of_nat nn"
      using assms by (simp add: word_unat_eq_iff unat_of_nat)
    ultimately show ?thesis by (simp only:)
  qed
  then have "b_h (blake2b_init_param
        ([of_nat nn, 0, 1, 1] @ WriteLE32 0 @ WriteLE32 0 @ WriteLE32 0 @ [0, 0] @
         replicate 14 0 @ replicate 16 0 @ replicate 16 0)) = rfc_h0 nn"
    by (simp add: blake2b_init_param_def blake2b_init0_def rfc_h0_def ReadLE64_def WriteLE32_def upt_rec numeral_eq_Suc blake2b_IV_def)
  then show ?thesis
    using assms nn by (simp add: blake2b_init_def blake_inv_def blake_core_def rfc_absorb_def blake2b_init_param_def blake2b_init0_def)
qed

lemma blake2b_stream_inv: "blake_inv nn S m \<Longrightarrow> blake_inv nn (fold blake2b_update chunks S) (m @ concat chunks)"
proof (induction chunks arbitrary: S m)
  case (Cons a chunks)
  then show ?case using Cons.IH[OF blake2b_update_ok[OF Cons.prems, of a]] by simp
qed simp

text \<open>C36: For every digest length BLAKE2b admits and every way the data is split over calls of
  \<open>blake2b_update\<close>, \<open>blake2b_final\<close> returns the RFC 7693 digest of the concatenation: the lazily
  compressed buffer, the 128-bit counter with its carry and the final padding agree with the
  standard. Every other digest length is refused.\<close>

theorem blake2b_streaming:
  "(case blake2b_init nn of None \<Rightarrow> None | Some S \<Rightarrow> blake2b_final nn (fold blake2b_update chunks S)) =
     (if 1 \<le> nn \<and> nn \<le> 64 then Some (rfc_blake2b nn (concat chunks)) else None)"
proof (cases "1 \<le> nn \<and> nn \<le> 64")
  case True
  then obtain S where S: "blake2b_init nn = Some S" "blake_inv nn S []" using blake2b_init_ok[of nn] by auto
  then show ?thesis using True blake2b_final_ok[OF blake2b_stream_inv[OF S(2), of chunks]] by simp
qed (auto simp: blake2b_init_def)

lemma blake2b_nokey_ok: "1 \<le> nn \<Longrightarrow> nn \<le> 64 \<Longrightarrow> blake2b_nokey nn data = Some (rfc_blake2b nn data)"
  using blake2b_init_ok[of nn] blake2b_final_ok[OF blake2b_update_ok, of nn _ "[]" data]
  by (auto simp: blake2b_nokey_def)

lemma length_rfc_blake2b [simp]: "nn \<le> 64 \<Longrightarrow> length (rfc_blake2b nn d) = nn"
proof -
  have "length (concat (map (le_enc 8) hs)) = 8 * length hs" for hs :: "u64 list" by (induction hs) simp_all
  then show "nn \<le> 64 \<Longrightarrow> length (rfc_blake2b nn d) = nn" by (simp add: rfc_blake2b_def Let_def)
qed

end
