(* ===== verification/String_Encodings.thy ===== *)
theory String_Encodings
  imports Fulcrum_Prelude
begin

text \<open>
  Text encodings of \<open>bitcoin/utilstrencodings.{h,cpp}\<close> and the fixed-size blobs of
  \<open>bitcoin/uint256.{h,cpp}\<close>. A character is its 8-bit code, so a \<open>std::string\<close> is a list of bytes
  and a C string a list without zero bytes whose terminator is read where the list ends.
\<close>

section \<open>Characters and hexadecimal text\<close>

definition IsSpace :: "byte \<Rightarrow> bool" where
  "IsSpace c \<longleftrightarrow> c = 0x20 \<or> c = 0x0c \<or> c = 0x0a \<or> c = 0x0d \<or> c = 0x09 \<or> c = 0x0b"

definition ToLower :: "byte \<Rightarrow> byte" where
  "ToLower c = (if 0x41 \<le> c \<and> c \<le> 0x5a then (c - 0x41) + 0x61 else c)"

definition ToUpper :: "byte \<Rightarrow> byte" where
  "ToUpper c = (if 0x61 \<le> c \<and> c \<le> 0x7a then (c - 0x61) + 0x41 else c)"

text \<open>The table \<open>p_util_hexdigit\<close>; its entry -1 is \<open>None\<close>.\<close>

definition HexDigit :: "byte \<Rightarrow> byte option" where
  "HexDigit c =
     (if 0x30 \<le> c \<and> c \<le> 0x39 then Some (c - 0x30)
      else if 0x41 \<le> c \<and> c \<le> 0x46 then Some (c - 0x41 + 0xa)
      else if 0x61 \<le> c \<and> c \<le> 0x66 then Some (c - 0x61 + 0xa)
      else None)"

definition IsHex :: "bytes \<Rightarrow> bool" where
  "IsHex str \<longleftrightarrow> list_all (\<lambda>ch. HexDigit ch \<noteq> None) str \<and> length str > 0 \<and> length str mod 2 = 0"

definition IsHexNumber :: "bytes \<Rightarrow> bool" where
  "IsHexNumber str \<longleftrightarrow>
     (let starting_location = (if length str > 2 \<and> str ! 0 = 0x30 \<and> str ! 1 = 0x78 then 2 else 0)
      in list_all (\<lambda>c. HexDigit c \<noteq> None) (drop starting_location str) \<and> length str > starting_location)"

text \<open>The table \<open>hexmap\<close>: entry \<open>n\<close> is the two lower-case digits of \<open>n\<close>.\<close>

definition hexdigit_lower :: "byte \<Rightarrow> byte" where
  "hexdigit_lower n = (if n < 10 then 0x30 + n else 0x61 + (n - 10))"

definition hexmap :: "byte \<Rightarrow> bytes" where
  "hexmap b = [hexdigit_lower (drop_bit 4 b), hexdigit_lower (b AND 0x0f)]"

fun HexStr :: "bytes \<Rightarrow> bool \<Rightarrow> bytes" where
  "HexStr [] fSpaces = []"
| "HexStr (b # bs) fSpaces =
     (if fSpaces then hexmap b @ concat (map (\<lambda>x. 0x20 # hexmap x) bs)
      else hexmap b @ concat (map hexmap bs))"

function ParseHex :: "bytes \<Rightarrow> bytes" where
  "ParseHex psz =
     (case dropWhile IsSpace psz of
        [] \<Rightarrow> []
      | c # rest \<Rightarrow>
        (case HexDigit c of
           None \<Rightarrow> []
         | Some hi \<Rightarrow>
           (case rest of
              [] \<Rightarrow> []
            | d # rest' \<Rightarrow>
              (case HexDigit d of
                 None \<Rightarrow> []
               | Some lo \<Rightarrow> (push_bit 4 hi OR lo) # ParseHex rest'))))"
  by pat_completeness auto
termination
proof (relation "measure length")
  fix psz :: bytes and c d rest rest'
  assume "dropWhile IsSpace psz = c # rest" "rest = d # rest'"
  then show "(rest', psz) \<in> measure length" using length_dropWhile_le[of IsSpace psz] by simp
qed simp

declare ParseHex.simps [simp del]

lemma nibble_all:
  fixes n :: byte
  assumes "n < 16" "list_all P [0, 1, 2, 3, 4, 5, 6, 7, 8, 9, 10, 11, 12, 13, 14, 15]"
  shows "P n"
proof -
  have "unat n < 16" using assms by (simp add: word_less_nat_alt)
  then have "unat n \<in> set [0..<16]" by simp
  moreover have "list_all (\<lambda>k. P (of_nat k)) [0..<16]" using assms(2) by (simp add: upt_rec)
  ultimately have "P (of_nat (unat n))" unfolding list_all_iff by (rule bspec[rotated])
  then show ?thesis by simp
qed

lemma HexDigit_lower [simp]: "n < 16 \<Longrightarrow> HexDigit (hexdigit_lower n) = Some n"
  by (erule nibble_all) (simp add: HexDigit_def hexdigit_lower_def)

lemma not_space_lower [simp]: "n < 16 \<Longrightarrow> \<not> IsSpace (hexdigit_lower n)"
  by (erule nibble_all) (simp add: IsSpace_def hexdigit_lower_def)

lemma nibbles [simp]: "drop_bit 4 (b :: byte) < 16" "(b AND 15 :: byte) < 16"
  "push_bit 4 (drop_bit 4 b) OR (b AND 15) = (b :: byte)"
proof -
  have m: "(15 :: byte) = mask 4" by (simp add: mask_eq_exp_minus_1)
  have "unat b < 256" using unat_bound[of b] by simp
  then show "drop_bit 4 b < 16"
    unfolding word_less_nat_alt unat_drop_bit_eq by (simp add: drop_bit_eq_div)
  show "(b AND 15 :: byte) < 16"
    unfolding m take_bit_eq_mask[symmetric] word_less_nat_alt unsigned_take_bit_eq by (simp add: take_bit_eq_mod)
  show "push_bit 4 (drop_bit 4 b) OR (b AND 15) = b"
    unfolding m by (rule bit_word_eqI) (auto simp: bit_simps)
qed

lemma ParseHex_hexmap [simp]: "ParseHex (hexmap b @ s) = b # ParseHex s"
  by (subst ParseHex.simps) (simp add: hexmap_def)

lemma ParseHex_space [simp]: "ParseHex (0x20 # s) = ParseHex s"
  by (subst (1 2) ParseHex.simps) (simp add: IsSpace_def)

lemma ParseHex_Nil [simp]: "ParseHex [] = []"
  by (simp add: ParseHex.simps)

lemma ParseHex_HexStr: "ParseHex (HexStr bs fSpaces) = bs"
proof -
  have "ParseHex (concat (map hexmap xs)) = xs" "ParseHex (concat (map (\<lambda>x. 0x20 # hexmap x) xs)) = xs" for xs
    by (induction xs) simp_all
  then show ?thesis by (cases bs) simp_all
qed

text \<open>\<open>Util::ToHexFast\<close> and \<open>Util::ParseHexFast\<close>: no white space, two characters per byte, and the digits checked only on request.\<close>

definition ToHexFast :: "bytes \<Rightarrow> bytes" where
  "ToHexFast ba = concat (map hexmap ba)"

definition hex_nibble :: "byte \<Rightarrow> byte" where
  "hex_nibble c = (if c \<le> 0x39 then c - 0x30 else if c \<ge> 0x61 then c - (0x61 - 0xa) else c - (0x41 - 0xa))"

fun parse_hex_loop :: "bool \<Rightarrow> bytes \<Rightarrow> bytes option" where
  "parse_hex_loop checkDigits (d0 # d1 # ds) =
     (let c1 = hex_nibble d0; c2 = hex_nibble d1
      in if checkDigits \<and> (c1 > 0xf \<or> c2 > 0xf) then None
         else map_option ((#) (push_bit 4 c1 OR c2)) (parse_hex_loop checkDigits ds))"
| "parse_hex_loop checkDigits _ = Some []"

definition ParseHexFast :: "bytes \<Rightarrow> bool \<Rightarrow> bytes" where
  "ParseHexFast hex checkDigits =
     (if length hex mod 2 \<noteq> 0 then []
      else case parse_hex_loop checkDigits hex of None \<Rightarrow> [] | Some ret \<Rightarrow> ret)"

definition isxdigit :: "byte \<Rightarrow> bool" where
  "isxdigit c \<longleftrightarrow> 0x30 \<le> c \<and> c \<le> 0x39 \<or> 0x41 \<le> c \<and> c \<le> 0x46 \<or> 0x61 \<le> c \<and> c \<le> 0x66"

definition IsValidHex :: "bytes \<Rightarrow> bool" where
  "IsValidHex s \<longleftrightarrow> length s mod 2 = 0 \<and> list_all isxdigit s"

lemma hex_nibble_digit: "n < 16 \<Longrightarrow> hex_nibble (hexdigit_lower n) = n \<and> \<not> n > 15"
  by (erule nibble_all) (simp add: hex_nibble_def hexdigit_lower_def)

lemma parse_hex_hexmap:
  "parse_hex_loop chk (hexmap b @ s) = map_option ((#) b) (parse_hex_loop chk s)"
proof -
  have "hex_nibble (hexdigit_lower (drop_bit 4 b)) = drop_bit 4 b \<and> \<not> drop_bit 4 b > 15"
    "hex_nibble (hexdigit_lower (b AND 15)) = b AND 15 \<and> \<not> b AND 15 > 15"
    by (rule hex_nibble_digit, rule nibbles)+
  then show ?thesis by (simp add: hexmap_def)
qed

lemma ParseHexFast_ToHexFast: "ParseHexFast (ToHexFast bs) chk = bs"
proof -
  have "parse_hex_loop chk (concat (map hexmap bs)) = Some bs" by (induction bs) (simp_all add: parse_hex_hexmap)
  moreover have "length (concat (map hexmap bs)) mod 2 = 0" by (induction bs) (simp_all add: hexmap_def)
  ultimately show ?thesis by (simp add: ParseHexFast_def ToHexFast_def)
qed

text \<open>The check of the digits lets the seven characters between \<open>9\<close> and \<open>A\<close> through: a colon is read as 3.\<close>

lemma ParseHexFast_accepts_colon: "ParseHexFast [0x3a, 0x3a] True = [0x33] \<and> \<not> IsValidHex [0x3a, 0x3a]"
  by (simp add: ParseHexFast_def hex_nibble_def IsValidHex_def isxdigit_def)

section \<open>Blobs: uint128, uint160 and uint256\<close>

text \<open>\<open>base_blob<8 * N>\<close> is the list of its \<open>N\<close> bytes.\<close>

definition blob_null :: "nat \<Rightarrow> bytes" where
  "blob_null WIDTH = replicate WIDTH 0"

definition IsNull :: "bytes \<Rightarrow> bool" where
  "IsNull m_data \<longleftrightarrow> list_all (\<lambda>b. b = 0) m_data"

text \<open>\<open>Compare\<close> walks from the last byte, the most significant one, to the first.\<close>

fun blob_compare_loop :: "bytes \<Rightarrow> bytes \<Rightarrow> nat \<Rightarrow> int" where
  "blob_compare_loop m other i =
     (let a = m ! i; b = other ! i
      in if a \<noteq> b then (if a > b then 1 else - 1)
         else (case i of 0 \<Rightarrow> 0 | Suc j \<Rightarrow> blob_compare_loop m other j))"

declare blob_compare_loop.simps [simp del]

definition blob_Compare :: "bytes \<Rightarrow> bytes \<Rightarrow> int" where
  "blob_Compare m other = blob_compare_loop m other (length m - 1)"

definition GetUint64 :: "bytes \<Rightarrow> nat \<Rightarrow> u64" where
  "GetUint64 m_data pos =
     (let ptr = drop (pos * 8) m_data
      in ucast (ptr ! 0) OR push_bit 8 (ucast (ptr ! 1)) OR push_bit 16 (ucast (ptr ! 2)) OR push_bit 24 (ucast (ptr ! 3))
         OR push_bit 32 (ucast (ptr ! 4)) OR push_bit 40 (ucast (ptr ! 5)) OR push_bit 48 (ucast (ptr ! 6)) OR push_bit 56 (ucast (ptr ! 7)))"

definition GetHex :: "bytes \<Rightarrow> bytes" where
  "GetHex m_data = HexStr (rev m_data) False"

text \<open>The digits from the last one backwards, two to a byte, then zeros up to the width.\<close>

fun sethex_fill :: "nat \<Rightarrow> byte list \<Rightarrow> bytes" where
  "sethex_fill 0 ds = []"
| "sethex_fill (Suc n) [] = 0 # sethex_fill n []"
| "sethex_fill (Suc n) [d] = d # sethex_fill n []"
| "sethex_fill (Suc n) (d # e # ds) = (d OR push_bit 4 e) # sethex_fill n ds"

definition SetHex :: "nat \<Rightarrow> bytes \<Rightarrow> bytes" where
  "SetHex WIDTH psz =
     (let psz = dropWhile IsSpace psz;
          psz = (case psz of c # d # r \<Rightarrow> if c = 0x30 \<and> ToLower d = 0x78 then r else psz | _ \<Rightarrow> psz);
          digits = takeWhile (\<lambda>c. HexDigit c \<noteq> None) psz
      in sethex_fill WIDTH (rev (map (\<lambda>c. the (HexDigit c)) digits)))"

text \<open>The number a blob denotes, least significant byte first.\<close>

primrec blob_value :: "bytes \<Rightarrow> nat" where
  "blob_value [] = 0"
| "blob_value (b # bs) = unat b + 256 * blob_value bs"

lemma blob_value_append: "blob_value (xs @ ys) = blob_value xs + 256 ^ length xs * blob_value ys"
  by (induction xs) (simp_all add: algebra_simps)

lemma blob_value_less: "blob_value xs < 256 ^ length xs"
proof (induction xs)
  case (Cons a xs)
  then have "blob_value xs + 1 \<le> 256 ^ length xs" by simp
  then have "256 * (blob_value xs + 1) \<le> 256 * 256 ^ length xs" by (rule mult_le_mono2)
  then show ?case using unat_bound[of a] by simp
qed simp

lemma blob_value_snoc_less:
  assumes "length xs = length ys" "a < b"
  shows "blob_value (xs @ [a]) < blob_value (ys @ [b])"
proof -
  have "unat a + 1 \<le> unat b" using assms(2) by (simp add: word_less_nat_alt)
  then have "256 ^ length xs * (unat a + 1) \<le> 256 ^ length xs * unat b" by (rule mult_le_mono2)
  then show ?thesis using assms(1) blob_value_less[of xs] by (simp add: blob_value_append)
qed

lemma blob_compare_loop_sgn:
  assumes "length m = length other" "i < length m"
  shows "blob_compare_loop m other i = sgn (int (blob_value (take (Suc i) m)) - int (blob_value (take (Suc i) other)))"
  using assms
proof (induction i)
  case 0
  then show ?case
    by (cases m; cases other) (auto simp: blob_compare_loop.simps word_less_def word_uint_eq_iff sgn_if)
next
  case (Suc i)
  have t: "take (Suc (Suc i)) m = take (Suc i) m @ [m ! Suc i]" "take (Suc (Suc i)) other = take (Suc i) other @ [other ! Suc i]"
    using Suc.prems by (simp_all add: take_Suc_conv_app_nth)
  have l: "length (take (Suc i) m) = length (take (Suc i) other)" using Suc.prems by simp
  consider "m ! Suc i = other ! Suc i" | "m ! Suc i < other ! Suc i" | "m ! Suc i > other ! Suc i" by fastforce
  then show ?case
  proof cases
    case 1
    then show ?thesis
      using Suc l unfolding t by (subst blob_compare_loop.simps) (simp add: blob_value_append)
  next
    case 2
    then show ?thesis
      using blob_value_snoc_less[OF l 2] unfolding t by (subst blob_compare_loop.simps) (auto simp: Let_def)
  next
    case 3
    then show ?thesis
      using blob_value_snoc_less[OF l[symmetric] 3] unfolding t by (subst blob_compare_loop.simps) (auto simp: Let_def)
  qed
qed

lemma blob_Compare_value:
  assumes "length m = length other" "m \<noteq> []"
  shows "blob_Compare m other = sgn (int (blob_value m) - int (blob_value other))"
proof -
  have "length m - 1 < length m" using assms(2) by (cases m) simp_all
  from blob_compare_loop_sgn[OF assms(1) this] this show ?thesis
    using assms(1) by (simp add: blob_Compare_def)
qed

lemma GetUint64_le_dec:
  assumes "8 * pos + 8 \<le> length m"
  shows "GetUint64 m pos = le_dec (take 8 (drop (8 * pos) m))"
proof -
  have "8 \<le> length (drop (8 * pos) m)" using assms by simp
  then have "Suc (Suc (Suc (Suc (Suc (Suc (Suc (Suc 0))))))) \<le> length (drop (8 * pos) m)" by simp
  then obtain a b c d e f g h r where "drop (8 * pos) m = a # b # c # d # e # f # g # h # r"
    unfolding Suc_le_length_iff by (elim exE conjE) simp
  then show ?thesis by (simp add: GetUint64_def mult.commute push_bit_or or.assoc)
qed

lemma sethex_fill_hexmap:
  "sethex_fill (length bs) (concat (map (\<lambda>b. [b AND 15, drop_bit 4 b]) bs)) = bs"
proof (induction bs)
  case (Cons b bs)
  have "b AND 15 OR push_bit 4 (drop_bit 4 b) = b" using nibbles(3)[of b] by (subst or.commute)
  then show ?case using Cons by simp
qed simp

lemma HexStr_plain: "HexStr bs False = concat (map hexmap bs)"
  by (cases bs) simp_all

lemma hexdigit_not_x [simp]: "n < 16 \<Longrightarrow> ToLower (hexdigit_lower n) \<noteq> 0x78"
  by (erule nibble_all) (simp add: ToLower_def hexdigit_lower_def)

lemma hexmap_digits:
  "list_all (\<lambda>c. \<exists>n<16. c = hexdigit_lower n) (concat (map hexmap bs))"
  by (induction bs) (auto simp: hexmap_def intro: nibbles)

lemma takeWhile_hex: "takeWhile (\<lambda>c. HexDigit c \<noteq> None) (concat (map hexmap bs)) = concat (map hexmap bs)"
  using hexmap_digits[of bs] unfolding takeWhile_eq_all_conv list_all_iff by fastforce

lemma hex_values: "map (\<lambda>c. the (HexDigit c)) (concat (map hexmap bs)) = concat (map (\<lambda>b. [drop_bit 4 b, b AND 15]) bs)"
  by (induction bs) (simp_all add: hexmap_def)

lemma SetHex_GetHex:
  assumes "length b = n"
  shows "SetHex n (GetHex b) = b"
proof -
  define s where "s = concat (map hexmap (rev b))"
  note dig = hexmap_digits[of "rev b", folded s_def]
  have "dropWhile IsSpace s = s"
    using dig by (cases s) (auto simp: not_space_lower)
  moreover have "(case s of c # d # r \<Rightarrow> if c = 0x30 \<and> ToLower d = 0x78 then r else s | _ \<Rightarrow> s) = s"
    using dig by (auto split: list.splits)
  moreover have "takeWhile (\<lambda>c. HexDigit c \<noteq> None) s = s" unfolding s_def by (rule takeWhile_hex)
  ultimately have "SetHex n (GetHex b) = sethex_fill n (rev (map (\<lambda>c. the (HexDigit c)) s))"
    unfolding SetHex_def GetHex_def HexStr_plain s_def[symmetric] Let_def by (simp only:)
  also have "map (\<lambda>c. the (HexDigit c)) s = concat (map (\<lambda>b. [drop_bit 4 b, b AND 15]) (rev b))"
    unfolding s_def by (rule hex_values)
  also have "rev (concat (map (\<lambda>b. [drop_bit 4 b, b AND 15]) (rev b))) = concat (map (\<lambda>b. [b AND 15, drop_bit 4 b]) b)"
    by (simp add: rev_concat rev_map comp_def)
  finally show ?thesis using sethex_fill_hexmap[of b] assms by simp
qed

text \<open>For two blobs of one non-zero width, \<open>Compare\<close> returns the sign of the difference of the
  numbers they denote (least significant byte first), so \<open>operator<=>\<close> is the numeric order and
  \<open>operator==\<close> is equality of the bytes.\<close>

lemma blob_compare_numeric:
  assumes "length a = length b" "a \<noteq> []"
  shows "blob_Compare a b = sgn (int (blob_value a) - int (blob_value b)) \<and> (blob_Compare a b = 0 \<longleftrightarrow> a = b)"
proof
  show 1: "blob_Compare a b = sgn (int (blob_value a) - int (blob_value b))" using assms by (rule blob_Compare_value)
  have "blob_value xs = blob_value ys \<Longrightarrow> xs = ys" if "length xs = length ys" for xs ys
    using that
  proof (induction xs ys rule: list_induct2)
    case (Cons x xs y ys)
    have "unat x = (unat x + 256 * blob_value xs) mod 256" "unat y = (unat y + 256 * blob_value ys) mod 256"
      using unat_bound[of x] unat_bound[of y] by simp_all
    then have "unat x = unat y" using Cons.prems by (metis blob_value.simps(2))
    then show ?case using Cons by (simp add: word_unat_eq_iff)
  qed simp
  then show "blob_Compare a b = 0 \<longleftrightarrow> a = b" using 1 assms(1) by (auto simp: sgn_0_0)
qed

text \<open>Hexadecimal text loses nothing: \<open>ParseHex\<close> reads back every byte string that \<open>HexStr\<close>
  prints, with or without separating spaces, and \<open>SetHex\<close> reads back the reversed text that
  \<open>GetHex\<close> prints for a blob of its width, and the fast routines of \<open>Util\<close> are inverse to each other too.\<close>

lemma hex_roundtrip:
  "ParseHex (HexStr bs fSpaces) = bs \<and> SetHex (length b) (GetHex b) = b \<and> ParseHexFast (ToHexFast bs) checkDigits = bs"
  by (simp add: ParseHex_HexStr SetHex_GetHex ParseHexFast_ToHexFast)

end
