(* ===== verification/Block_Header.thy ===== *)
theory Block_Header
  imports Serialization Crypto_Hash String_Encodings
begin

text \<open>
  Block headers: \<open>bitcoin/block.h\<close>, \<open>block.cpp\<close>, \<open>block_pow_v2.cpp\<close> and \<open>BTC_HeaderV2.cpp\<close>. A
  header is 80 bytes (v1, hashed with double SHA-256) or, when bit 31 of its version word is set,
  164 bytes (v2, hashed with a BLAKE2b pipeline).
\<close>

section \<open>The header object\<close>

text \<open>Hashes are their bytes in wire order; \<open>int32_t\<close> fields are their two's complement words.\<close>

record CBlockHeader =
  m_header_v2 :: bool
  nVersion :: u32
  hashPrevBlock :: bytes
  hashMerkleRoot :: bytes
  nTime :: u32
  nBits :: u32
  nNonce :: u32
  m_nonce2 :: u32
  m_nonce3 :: u32
  m_extranonce :: bytes
  m_time_offset :: u32
  m_txcount :: u16
  m_flags :: byte
  m_xor_key_mask_clear_bits :: byte
  m_xor_key :: bytes
  m_height :: u32
  m_mm_rhs :: bytes

definition VERSION_HEADER_V2_FLAG :: u32 where "VERSION_HEADER_V2_FLAG = 0x80000000"
abbreviation (input) FLAG_USE_TIME_OFFSET :: byte where "FLAG_USE_TIME_OFFSET \<equiv> 4"

definition ClearV2Fields :: "CBlockHeader \<Rightarrow> CBlockHeader" where
  "ClearV2Fields h = h\<lparr>m_nonce2 := 0, m_nonce3 := 0, m_extranonce := blob_null 16, m_time_offset := 0, m_txcount := 0,
     m_flags := 0, m_xor_key_mask_clear_bits := 0, m_xor_key := blob_null 16, m_height := 0, m_mm_rhs := blob_null 32\<rparr>"

text \<open>\<open>SetNull\<close> assigns every field.\<close>

definition header_SetNull :: "CBlockHeader \<Rightarrow> CBlockHeader" where
  "header_SetNull h = ClearV2Fields (h\<lparr>m_header_v2 := False, nVersion := 0, hashPrevBlock := blob_null 32,
     hashMerkleRoot := blob_null 32, nTime := 0, nBits := 0, nNonce := 0\<rparr>)"

definition header_IsNull :: "CBlockHeader \<Rightarrow> bool" where
  "header_IsNull h \<longleftrightarrow> nBits h = 0"

definition GetCompleteVersion :: "CBlockHeader \<Rightarrow> u32" where
  "GetCompleteVersion h =
     (if m_header_v2 h then VERSION_HEADER_V2_FLAG else 0) OR (nVersion h AND NOT VERSION_HEADER_V2_FLAG)"

definition GetBlockTime :: "CBlockHeader \<Rightarrow> 64 word" where
  "GetBlockTime h =
     (if \<not> m_header_v2 h \<or> m_flags h AND FLAG_USE_TIME_OFFSET = 0 then ucast (nTime h)
      else ucast (nTime h + m_time_offset h))"

definition Serialize_v2_fields :: "CBlockHeader \<Rightarrow> bytes" where
  "Serialize_v2_fields h =
     Serialize_int32 (m_nonce2 h) @ Serialize_int32 (m_nonce3 h) @ Serialize_array (m_extranonce h) @
     Serialize_int32 (m_time_offset h) @ Serialize_int16 (m_txcount h) @ Serialize_int8 (m_flags h) @
     Serialize_int8 (m_xor_key_mask_clear_bits h) @ Serialize_array (m_xor_key h) @
     Serialize_int32 (m_height h) @ Serialize_array (m_mm_rhs h)"

definition Serialize_CBlockHeader :: "CBlockHeader \<Rightarrow> bytes" where
  "Serialize_CBlockHeader h =
     Serialize_int32 (GetCompleteVersion h) @ Serialize_array (hashPrevBlock h) @ Serialize_array (hashMerkleRoot h) @
     Serialize_int32 (nTime h) @ Serialize_int32 (nBits h) @ Serialize_int32 (nNonce h) @
     (if m_header_v2 h then Serialize_v2_fields h else [])"

definition Unserialize_v2_fields :: "CBlockHeader \<Rightarrow> (ser_error, CBlockHeader) parser" where
  "Unserialize_v2_fields h =
     p_then Unserialize_int32 (\<lambda>n2. p_then Unserialize_int32 (\<lambda>n3.
     p_then (Unserialize_array 16) (\<lambda>en. p_then Unserialize_int32 (\<lambda>toff.
     p_then Unserialize_int16 (\<lambda>txc. p_then Unserialize_int8 (\<lambda>fl.
     p_then Unserialize_int8 (\<lambda>cb. p_then (Unserialize_array 16) (\<lambda>xk.
     p_then Unserialize_int32 (\<lambda>ht. p_then (Unserialize_array 32) (\<lambda>mm.
       p_return (h\<lparr>m_nonce2 := n2, m_nonce3 := n3, m_extranonce := en, m_time_offset := toff, m_txcount := txc,
         m_flags := fl, m_xor_key_mask_clear_bits := cb, m_xor_key := xk, m_height := ht, m_mm_rhs := mm\<rparr>)))))))))))"

text \<open>
  Unserialising overwrites an existing object; \<open>h\<close> is that object, and every field of the result
  comes from the stream or from \<open>ClearV2Fields\<close>.
\<close>

definition Unserialize_CBlockHeader :: "CBlockHeader \<Rightarrow> (ser_error, CBlockHeader) parser" where
  "Unserialize_CBlockHeader h =
     p_then Unserialize_int32 (\<lambda>v.
       let h = h\<lparr>m_header_v2 := v AND VERSION_HEADER_V2_FLAG \<noteq> 0, nVersion := v AND NOT VERSION_HEADER_V2_FLAG\<rparr>
       in p_then (Unserialize_array 32) (\<lambda>prev. p_then (Unserialize_array 32) (\<lambda>root.
          p_then Unserialize_int32 (\<lambda>time. p_then Unserialize_int32 (\<lambda>bits. p_then Unserialize_int32 (\<lambda>nonce.
            let h = h\<lparr>hashPrevBlock := prev, hashMerkleRoot := root, nTime := time, nBits := bits, nNonce := nonce\<rparr>
            in if m_header_v2 h then Unserialize_v2_fields h else p_return (ClearV2Fields h)))))))"

text \<open>
  Headers the class can hold: the arrays have their sizes, bit 31 is masked off the version, and a
  v1 header has null v2 fields.
\<close>

definition header_ok :: "CBlockHeader \<Rightarrow> bool" where
  "header_ok h \<longleftrightarrow>
     \<not> bit (nVersion h) 31 \<and> length (hashPrevBlock h) = 32 \<and> length (hashMerkleRoot h) = 32 \<and>
     (if m_header_v2 h then length (m_extranonce h) = 16 \<and> length (m_xor_key h) = 16 \<and> length (m_mm_rhs h) = 32
      else h = ClearV2Fields h)"

lemma ClearV2Fields_sel [simp]:
  "m_header_v2 (ClearV2Fields h) = m_header_v2 h" "nVersion (ClearV2Fields h) = nVersion h"
  "hashPrevBlock (ClearV2Fields h) = hashPrevBlock h" "hashMerkleRoot (ClearV2Fields h) = hashMerkleRoot h"
  "nTime (ClearV2Fields h) = nTime h" "nBits (ClearV2Fields h) = nBits h" "nNonce (ClearV2Fields h) = nNonce h"
  "m_nonce2 (ClearV2Fields h) = 0" "m_nonce3 (ClearV2Fields h) = 0" "m_extranonce (ClearV2Fields h) = blob_null 16"
  "m_time_offset (ClearV2Fields h) = 0" "m_txcount (ClearV2Fields h) = 0" "m_flags (ClearV2Fields h) = 0"
  "m_xor_key_mask_clear_bits (ClearV2Fields h) = 0" "m_xor_key (ClearV2Fields h) = blob_null 16"
  "m_height (ClearV2Fields h) = 0" "m_mm_rhs (ClearV2Fields h) = blob_null 32"
  by (simp_all add: ClearV2Fields_def)

lemma ClearV2Fields_idem [simp]: "ClearV2Fields (ClearV2Fields h) = ClearV2Fields h"
  by (simp add: ClearV2Fields_def)

lemma header_SetNull_const: "header_SetNull h = header_SetNull h'"
  by (cases h; cases h') (simp add: header_SetNull_def ClearV2Fields_def)

lemma version_flag: "(v :: u32) AND VERSION_HEADER_V2_FLAG \<noteq> 0 \<longleftrightarrow> bit v 31"
  using bit_iff_and_push_bit_not_eq_0[of v 31] by (simp add: VERSION_HEADER_V2_FLAG_def)

lemma bit_flag: "bit VERSION_HEADER_V2_FLAG k \<longleftrightarrow> k = 31"
proof -
  have "VERSION_HEADER_V2_FLAG = push_bit 31 1" by (simp add: VERSION_HEADER_V2_FLAG_def)
  then show ?thesis unfolding \<open>VERSION_HEADER_V2_FLAG = push_bit 31 1\<close> bit_push_bit_iff bit_1_iff possible_bit_word by auto
qed

lemma GetCompleteVersion_split:
  "bit (GetCompleteVersion h) 31 = m_header_v2 h"
  "\<not> bit (nVersion h) 31 \<Longrightarrow> GetCompleteVersion h AND NOT VERSION_HEADER_V2_FLAG = nVersion h"
proof -
  show "bit (GetCompleteVersion h) 31 = m_header_v2 h" by (simp add: GetCompleteVersion_def bit_simps bit_flag)
  assume "\<not> bit (nVersion h) 31"
  then show "GetCompleteVersion h AND NOT VERSION_HEADER_V2_FLAG = nVersion h"
    by (intro bit_word_eqI) (auto simp: GetCompleteVersion_def bit_or_iff bit_and_iff bit_not_iff_eq bit_flag)
qed

lemma version_reassemble:
  "(if bit v 31 then VERSION_HEADER_V2_FLAG else 0) OR (v AND NOT VERSION_HEADER_V2_FLAG AND NOT VERSION_HEADER_V2_FLAG) = v"
  by (intro bit_word_eqI) (auto simp: bit_or_iff bit_and_iff bit_not_iff_eq bit_flag)

lemmas field_codecs = int32.unser_ser int16.unser_ser int8.unser_ser array.unser_ser

lemma v2_fields_roundtrip:
  assumes "length (m_extranonce h) = 16" "length (m_xor_key h) = 16" "length (m_mm_rhs h) = 32"
  shows "Unserialize_v2_fields g (Serialize_v2_fields h @ rest) =
     Inr (g\<lparr>m_nonce2 := m_nonce2 h, m_nonce3 := m_nonce3 h, m_extranonce := m_extranonce h,
       m_time_offset := m_time_offset h, m_txcount := m_txcount h, m_flags := m_flags h,
       m_xor_key_mask_clear_bits := m_xor_key_mask_clear_bits h, m_xor_key := m_xor_key h,
       m_height := m_height h, m_mm_rhs := m_mm_rhs h\<rparr>, rest)"
  using assms by (simp add: Unserialize_v2_fields_def Serialize_v2_fields_def field_codecs)

lemma header_roundtrip:
  assumes "header_ok h"
  shows "Unserialize_CBlockHeader g (Serialize_CBlockHeader h @ rest) = Inr (h, rest)"
proof (cases "m_header_v2 h")
  case True
  then have "length (m_extranonce h) = 16" "length (m_xor_key h) = 16" "length (m_mm_rhs h) = 32"
    using assms by (simp_all add: header_ok_def)
  note v2 = v2_fields_roundtrip[OF this]
  show ?thesis
    using True assms v2 unfolding Unserialize_CBlockHeader_def Serialize_CBlockHeader_def header_ok_def
    by (simp add: field_codecs version_flag GetCompleteVersion_split)
next
  case False
  then have "h = ClearV2Fields h" using assms by (simp add: header_ok_def)
  moreover have "ClearV2Fields (g\<lparr>m_header_v2 := m_header_v2 h, nVersion := nVersion h, hashPrevBlock := hashPrevBlock h,
      hashMerkleRoot := hashMerkleRoot h, nTime := nTime h, nBits := nBits h, nNonce := nNonce h\<rparr>) = ClearV2Fields h"
    by (cases g; cases h) (simp add: ClearV2Fields_def)
  moreover have "Unserialize_CBlockHeader g (Serialize_CBlockHeader h @ rest) =
      Inr (ClearV2Fields (g\<lparr>m_header_v2 := m_header_v2 h, nVersion := nVersion h, hashPrevBlock := hashPrevBlock h,
      hashMerkleRoot := hashMerkleRoot h, nTime := nTime h, nBits := nBits h, nNonce := nNonce h\<rparr>), rest)"
    using False assms unfolding Unserialize_CBlockHeader_def Serialize_CBlockHeader_def header_ok_def
    by (simp add: field_codecs version_flag GetCompleteVersion_split)
  ultimately show ?thesis by (simp only:)
qed

lemma Unserialize_v2_fields_sound:
  assumes "Unserialize_v2_fields g s = Inr (h, rest)"
  shows "s = Serialize_v2_fields h @ rest \<and> length (m_extranonce h) = 16 \<and> length (m_xor_key h) = 16 \<and>
    length (m_mm_rhs h) = 32 \<and> m_header_v2 h = m_header_v2 g \<and> nVersion h = nVersion g \<and> hashPrevBlock h = hashPrevBlock g \<and>
    hashMerkleRoot h = hashMerkleRoot g \<and> nTime h = nTime g \<and> nBits h = nBits g \<and> nNonce h = nNonce g"
  using assms unfolding Unserialize_v2_fields_def p_then_Inr_iff int32.unser_iff int16.unser_iff int8.unser_iff array.unser_iff
  apply (elim exE conjE)
  apply (simp only: p_return_apply sum.inject prod.inject)
  apply (elim conjE)
  apply hypsubst
  apply (simp add: Serialize_v2_fields_def)
  done

lemma header_sound:
  assumes "Unserialize_CBlockHeader g s = Inr (h, rest)"
  shows "header_ok h \<and> s = Serialize_CBlockHeader h @ rest"
proof -
  obtain v prev root time bits nonce s' where s:
    "s = Serialize_int32 v @ Serialize_array prev @ Serialize_array root @ Serialize_int32 time @ Serialize_int32 bits @
       Serialize_int32 nonce @ s'" "length prev = 32" "length root = 32"
    and r: "(let h = g\<lparr>m_header_v2 := bit v 31, nVersion := v AND NOT VERSION_HEADER_V2_FLAG,
        hashPrevBlock := prev, hashMerkleRoot := root, nTime := time, nBits := bits, nNonce := nonce\<rparr>
      in if m_header_v2 h then Unserialize_v2_fields h else p_return (ClearV2Fields h)) s' = Inr (h, rest)"
    using assms unfolding Unserialize_CBlockHeader_def p_then_Inr_iff int32.unser_iff array.unser_iff Let_def version_flag
    by (elim exE conjE) (simp split: if_splits)
  let ?g = "g\<lparr>m_header_v2 := bit v 31, nVersion := v AND NOT VERSION_HEADER_V2_FLAG,
        hashPrevBlock := prev, hashMerkleRoot := root, nTime := time, nBits := bits, nNonce := nonce\<rparr>"
  have nv: "\<not> bit (v AND NOT VERSION_HEADER_V2_FLAG) 31" by (simp add: bit_and_iff bit_not_iff bit_flag)
  note re = version_reassemble[of v]
  show ?thesis
  proof (cases "bit v 31")
    case True
    then have "Unserialize_v2_fields ?g s' = Inr (h, rest)" using r by simp
    note f = Unserialize_v2_fields_sound[OF this]
    have "GetCompleteVersion h = v" using True f re by (simp add: GetCompleteVersion_def)
    then show ?thesis using True f s nv by (simp add: header_ok_def Serialize_CBlockHeader_def)
  next
    case False
    then have h: "h = ClearV2Fields ?g" "s' = rest" using r by simp_all
    have "GetCompleteVersion h = v" using False re unfolding h GetCompleteVersion_def by simp
    then show ?thesis using False s nv h by (simp add: header_ok_def Serialize_CBlockHeader_def)
  qed
qed

interpretation block_header: canonical_codec Serialize_CBlockHeader "Unserialize_CBlockHeader g" header_ok for g
  by unfold_locales (fact header_roundtrip header_sound)+

lemma length_Serialize_CBlockHeader:
  "header_ok h \<Longrightarrow> length (Serialize_CBlockHeader h) = (if m_header_v2 h then 164 else 80)"
  by (simp add: header_ok_def Serialize_CBlockHeader_def Serialize_v2_fields_def Serialize_int8_def Serialize_int16_def
    Serialize_int32_def Serialize_array_def ser_writedata8_def ser_writedata16_def ser_writedata32_def)

section \<open>The proof-of-work hash\<close>

text \<open>Exceptions of this part, with their messages.\<close>

datatype pow_error = runtime_error string | invalid_argument string | deser_error ser_error

text \<open>The bytes of a string literal.\<close>

definition c_str :: "string \<Rightarrow> bytes" where
  "c_str s = map of_char s"

definition Sha256 :: "bytes \<Rightarrow> bytes" where
  "Sha256 data = fst (CSHA256_Finalize (CSHA256_Write data CSHA256_new))"

definition TaggedHash :: "string \<Rightarrow> bytes \<Rightarrow> bytes" where
  "TaggedHash tag data =
     (let th = Sha256 (c_str tag);
          h = CSHA256_new;
          h = CSHA256_Write th h;
          h = CSHA256_Write th h;
          h = CSHA256_Write data h
      in fst (CSHA256_Finalize h))"

definition Blake2b256 :: "bytes \<Rightarrow> pow_error + bytes" where
  "Blake2b256 inp = (case blake2b_nokey 32 inp of None \<Rightarrow> Inl (runtime_error ''blake2b_nokey failed'') | Some out \<Rightarrow> Inr out)"

definition AppendLE32 :: "bytes \<Rightarrow> u32 \<Rightarrow> bytes" where
  "AppendLE32 b v = fold (\<lambda>i b. b @ [ucast (drop_bit (8 * i) v)]) [0..<4] b"

definition pow_xorMask :: "CBlockHeader \<Rightarrow> bytes" where
  "pow_xorMask h =
     (if IsNull (m_xor_key h) then replicate 32 0
      else
        let xorMask = TaggedHash ''Bitcoin block hash PoW XOR mask'' (m_xor_key h);
            clearBytes = unat (m_xor_key_mask_clear_bits h) div 8;
            n = min clearBytes (length xorMask);
            xorMask = replicate n 0 @ drop n xorMask
        in if clearBytes < length xorMask
           then xorMask[clearBytes := xorMask ! clearBytes AND drop_bit (unat (m_xor_key_mask_clear_bits h) mod 8) 0xff]
           else xorMask)"

definition pow_h1_preimage :: "CBlockHeader \<Rightarrow> bytes" where
  "pow_h1_preimage h =
     (let xorKeyHash = TaggedHash ''Bitcoin block hash PoW XOR key'' (m_xor_key h);
          b1 = AppendLE32 [] (GetCompleteVersion h);
          b1 = b1 @ rev (hashPrevBlock h);
          b1 = AppendLE32 b1 (m_height h);
          b1 = b1 @ hashMerkleRoot h;
          b1 = AppendLE32 b1 (nTime h);
          b1 = b1 @ [0];
          b1 = AppendLE32 b1 (nBits h);
          b1 = AppendLE32 b1 (ucast (m_txcount h));
          b1 = b1 @ [m_flags h];
          b1 = b1 @ [m_xor_key_mask_clear_bits h]
      in b1 @ xorKeyHash)"

definition appendNoncesAndInner :: "CBlockHeader \<Rightarrow> bytes \<Rightarrow> bytes \<Rightarrow> bytes" where
  "appendNoncesAndInner h inner asic =
     (let asic = AppendLE32 asic (nNonce h);
          asic = AppendLE32 asic (m_nonce2 h);
          asic = AppendLE32 asic (m_time_offset h);
          asic = AppendLE32 asic (m_nonce3 h)
      in asic @ inner)"

text \<open>The four layouts; profile 3 falls through to profile 2.\<close>

definition pow_asic :: "CBlockHeader \<Rightarrow> bytes \<Rightarrow> bytes \<Rightarrow> bytes" where
  "pow_asic h h2 inner =
     (let profile = m_flags h AND 3; asic = []
      in if profile = 3 \<or> profile = 2 then
           let asic = (if profile = 3 then asic @ replicate 32 0 else asic);
               asic = asic @ replicate 48 0;
               asic = asic @ h2
           in appendNoncesAndInner h inner asic
         else if profile = 0 then
           let prevHidden = TaggedHash ''Bitcoin prevblock header, hashed'' (rev (hashPrevBlock h));
               prevHidden = replicate 6 0 @ drop 6 prevHidden
           in appendNoncesAndInner h inner (asic @ prevHidden)
         else
           let asic = AppendLE32 asic (nNonce h);
               asic = AppendLE32 asic (m_nonce2 h);
               asic = AppendLE32 asic (m_nonce3 h);
               asic = AppendLE32 asic (m_time_offset h);
               asic = asic @ inner
           in asic @ h2)"

definition pow_outer :: "CBlockHeader \<Rightarrow> pow_error + bytes" where
  "pow_outer h =
     (let b1 = pow_h1_preimage h
      in if length b1 \<noteq> 119 then Inl (runtime_error ''GetBlake2bPoWHash: h1 preimage is not 119 bytes'')
         else
           let h1 = TaggedHash ''Bitcoin block header 1'' b1;
               b2 = h1 @ replicate 32 0 @ m_mm_rhs h
           in if length b2 \<noteq> 96 then Inl (runtime_error ''GetBlake2bPoWHash: h2 preimage is not 96 bytes'')
              else
                let h2 = TaggedHash ''Merge-mining hook'' b2;
                    work = AppendLE32 [] 0 @ h2 @ m_extranonce h
                in if length work \<noteq> 52 then Inl (runtime_error ''GetBlake2bPoWHash: Sv1 preimage is not 52 bytes'')
                   else rbind (Blake2b256 work) (\<lambda>inner. Blake2b256 (pow_asic h h2 inner)))"

definition GetBlake2bPoWHash :: "CBlockHeader \<Rightarrow> pow_error + bytes" where
  "GetBlake2bPoWHash h =
     (let xorMask = pow_xorMask h
      in rbind (pow_outer h) (\<lambda>outer.
           Inr (fold (\<lambda>i out. out[length outer - 1 - i := outer ! i XOR xorMask ! i]) [0..<length outer] (blob_null 32))))"

definition GetHash :: "CBlockHeader \<Rightarrow> pow_error + bytes" where
  "GetHash h =
     (if m_header_v2 h then GetBlake2bPoWHash h
      else Inr (CHash256_Finalize False (CSHA256_Write (Serialize_CBlockHeader h) CSHA256_new)))"

section \<open>Headers as raw bytes\<close>

abbreviation (input) HeaderSizeV1 :: nat where "HeaderSizeV1 \<equiv> 80"
abbreviation (input) HeaderSizeV2 :: nat where "HeaderSizeV2 \<equiv> 164"

definition header_ReadLE32 :: "bytes \<Rightarrow> u32" where
  "header_ReadLE32 p = ucast (p ! 0) OR push_bit 8 (ucast (p ! 1)) OR push_bit 16 (ucast (p ! 2)) OR push_bit 24 (ucast (p ! 3))"

definition IsHeaderV2 :: "bytes \<Rightarrow> bool" where
  "IsHeaderV2 header = (if length header < 4 then False else header_ReadLE32 header AND VERSION_HEADER_V2_FLAG \<noteq> 0)"

definition HeaderSizeFor :: "bytes \<Rightarrow> nat" where
  "HeaderSizeFor header = (if length header < 4 then 0 else if IsHeaderV2 header then HeaderSizeV2 else HeaderSizeV1)"

text \<open>\<open>BTC::Deserialize\<close> starts from a default-constructed header, which is null.\<close>

definition CBlockHeader_new :: CBlockHeader where
  "CBlockHeader_new = header_SetNull (\<lparr>m_header_v2 = False, nVersion = 0, hashPrevBlock = [], hashMerkleRoot = [], nTime = 0,
     nBits = 0, nNonce = 0, m_nonce2 = 0, m_nonce3 = 0, m_extranonce = [], m_time_offset = 0, m_txcount = 0, m_flags = 0,
     m_xor_key_mask_clear_bits = 0, m_xor_key = [], m_height = 0, m_mm_rhs = []\<rparr>)"

definition HeaderPoWHashRev :: "bytes \<Rightarrow> pow_error + bytes" where
  "HeaderPoWHashRev header =
     (if \<not> IsHeaderV2 header then
        if length header \<noteq> HeaderSizeV1 then Inl (invalid_argument ''HeaderPoWHashRev: v1 header is not 80 bytes'')
        else Inr (HashRev header False)
      else if length header \<noteq> HeaderSizeV2 then Inl (invalid_argument ''HeaderPoWHashRev: v2 header is not 164 bytes'')
      else
        case Unserialize_CBlockHeader CBlockHeader_new header of
          Inl e \<Rightarrow> Inl (deser_error e)
        | Inr (hdr, _) \<Rightarrow> rbind (GetBlake2bPoWHash hdr) (\<lambda>hash. Inr (rev hash)))"

definition HeaderPoWHash :: "bytes \<Rightarrow> pow_error + bytes" where
  "HeaderPoWHash header = rbind (HeaderPoWHashRev header) (\<lambda>ret. Inr (rev ret))"

lemma Sha256_eq: "Sha256 data = sha256 data"
  unfolding Sha256_def using sha_Finalize_ok(1)[OF sha_Write_inv[OF sha_new_inv, of data]] by simp

lemma sha256_stream3:
  "fst (CSHA256_Finalize (CSHA256_Write c (CSHA256_Write b (CSHA256_Write a CSHA256_new)))) = sha256 (a @ b @ c)"
  using sha_Finalize_ok(1)[OF sha_stream_inv[OF sha_new_inv, of "[a, b, c]"]] by simp

lemma TaggedHash_eq: "TaggedHash tag data = sha256 (sha256 (c_str tag) @ sha256 (c_str tag) @ data)"
  unfolding TaggedHash_def Let_def Sha256_eq
  by (rule sha256_stream3)

lemma length_TaggedHash [simp]: "length (TaggedHash tag data) = 32"
  by (simp add: TaggedHash_eq)

lemma Blake2b256_eq: "Blake2b256 m = Inr (rfc_blake2b 32 m)"
  by (simp add: Blake2b256_def blake2b_nokey_ok)

lemma AppendLE32_eq: "AppendLE32 b v = b @ le_enc 4 v"
proof -
  have "le_enc 4 v = map (\<lambda>i. ucast (drop_bit (8 * i) v)) [0..<4]"
    by (intro nth_equalityI) (simp_all add: nth_le_enc)
  then show ?thesis by (simp add: AppendLE32_def upt_rec)
qed

lemma length_pow_xorMask [simp]: "length (pow_xorMask h) = 32"
  by (simp add: pow_xorMask_def Let_def)

lemma pow_outer_ok:
  assumes "header_ok h" "m_header_v2 h"
  shows "\<exists>outer. pow_outer h = Inr outer \<and> length outer = 32"
  using assms unfolding pow_outer_def pow_h1_preimage_def Let_def Blake2b256_eq AppendLE32_eq
  by (simp add: header_ok_def)

lemma fold_reverse_write:
  assumes "length out = length xs" "n \<le> length xs"
  shows "fold (\<lambda>i out. out[length xs - 1 - i := xs ! i]) [0..<n] out = take (length xs - n) out @ rev (take n xs)"
  using assms(2)
proof (induction n)
  case 0
  then show ?case using assms by simp
next
  case (Suc n)
  have len: "length (take (length xs - n) out) = length xs - n" using assms by simp
  have "fold (\<lambda>i out. out[length xs - 1 - i := xs ! i]) [0..<Suc n] out =
      (take (length xs - n) out @ rev (take n xs))[length xs - 1 - n := xs ! n]" using Suc by simp
  also have "\<dots> = (take (length xs - n) out)[length xs - 1 - n := xs ! n] @ rev (take n xs)"
  proof -
    have "length xs - 1 - n < length (take (length xs - n) out)" using Suc.prems len by simp
    then show ?thesis by (rule list_update_append1)
  qed
  also have "(take (length xs - n) out)[length xs - 1 - n := xs ! n] = take (length xs - Suc n) out @ [xs ! n]"
  proof -
    have "length xs - n = Suc (length xs - Suc n)" using Suc.prems by simp
    moreover have "length xs - Suc n < length out" using Suc.prems assms by simp
    ultimately show ?thesis using take_Suc_conv_app_nth[of "length xs - Suc n" out]
      by (simp add: list_update_append)
  qed
  finally show ?case using Suc.prems by (simp add: take_Suc_conv_app_nth)
qed

lemma GetBlake2bPoWHash_eq:
  assumes "pow_outer h = Inr outer" "length outer = 32"
  shows "GetBlake2bPoWHash h = Inr (rev (map2 (XOR) outer (pow_xorMask h)))"
proof -
  let ?xs = "map2 (XOR) outer (pow_xorMask h)"
  have len: "length ?xs = 32" using assms by simp
  have "fold (\<lambda>i out. out[length outer - 1 - i := outer ! i XOR pow_xorMask h ! i]) [0..<length outer] (blob_null 32) =
      fold (\<lambda>i out. out[length ?xs - 1 - i := ?xs ! i]) [0..<length ?xs] (blob_null 32)"
    using assms by (intro fold_cong) auto
  also have "\<dots> = rev ?xs" using fold_reverse_write[of "blob_null 32" ?xs "length ?xs"] len by (simp add: blob_null_def)
  finally show ?thesis using assms(1) by (simp add: GetBlake2bPoWHash_def)
qed

lemma GetHash_v1: "\<not> m_header_v2 h \<Longrightarrow> GetHash h = Inr (sha256 (sha256 (Serialize_CBlockHeader h)))"
  using CHash256_ok[OF sha_Write_inv[OF sha_new_inv, of "Serialize_CBlockHeader h"], of False] by (simp add: GetHash_def)

lemma GetHash_ok: "header_ok h \<Longrightarrow> \<exists>hash. GetHash h = Inr hash \<and> length hash = 32"
proof (cases "m_header_v2 h")
  case True
  assume "header_ok h"
  then obtain outer where o: "pow_outer h = Inr outer" "length outer = 32" using pow_outer_ok True by blast
  then show ?thesis using GetBlake2bPoWHash_eq[OF o] True by (simp add: GetHash_def)
qed (simp add: GetHash_v1)

lemma header_ReadLE32_eq: "4 \<le> length p \<Longrightarrow> header_ReadLE32 p = le_dec (take 4 p)"
proof -
  assume "4 \<le> length p"
  then have "Suc (Suc (Suc (Suc 0))) \<le> length p" by simp
  then obtain a b c d r where "p = a # b # c # d # r" unfolding Suc_le_length_iff by (elim exE conjE) simp
  then show ?thesis by (simp add: header_ReadLE32_def push_bit_or or.assoc)
qed

lemma IsHeaderV2_Serialize: "IsHeaderV2 (Serialize_CBlockHeader h @ rest) = m_header_v2 h"
proof -
  have "take 4 (Serialize_CBlockHeader h @ rest) = le_enc 4 (GetCompleteVersion h)" "4 \<le> length (Serialize_CBlockHeader h @ rest)"
    by (simp_all add: Serialize_CBlockHeader_def Serialize_int32_def ser_writedata32_def)
  then show ?thesis
    by (simp add: IsHeaderV2_def header_ReadLE32_eq version_flag GetCompleteVersion_split(1))
qed

lemma field_total:
  "4 \<le> length s \<Longrightarrow> Unserialize_int32 s = Inr (le_dec (take 4 s), drop 4 s)"
  "2 \<le> length s \<Longrightarrow> Unserialize_int16 s = Inr (le_dec (take 2 s), drop 2 s)"
  "1 \<le> length s \<Longrightarrow> Unserialize_int8 s = Inr (le_dec (take 1 s), drop 1 s)"
  "n \<le> length s \<Longrightarrow> Unserialize_array n s = Inr (take n s, drop n s)"
  by (simp_all add: Unserialize_int32_def Unserialize_int16_def Unserialize_int8_def Unserialize_array_def
    ser_readdata32_def ser_readdata16_def ser_readdata8_def p_then_def stream_read_def)

lemma Unserialize_header_total:
  assumes "length s \<ge> HeaderSizeFor s" "HeaderSizeFor s \<noteq> 0"
  shows "\<exists>h rest. Unserialize_CBlockHeader g s = Inr (h, rest)"
proof -
  have four: "4 \<le> length s" and size: "length s \<ge> (if IsHeaderV2 s then 164 else 80)"
    using assms by (auto simp: HeaderSizeFor_def split: if_splits)
  have v: "IsHeaderV2 s = bit (le_dec (take 4 s) :: u32) 31"
    using four by (simp add: IsHeaderV2_def header_ReadLE32_eq version_flag)
  show ?thesis
  proof (cases "IsHeaderV2 s")
    case True
    then have "164 \<le> length s" using size by simp
    then show ?thesis
      using True v by (simp add: Unserialize_CBlockHeader_def Unserialize_v2_fields_def p_then_def version_flag field_total)
  next
    case False
    then have "80 \<le> length s" using size by simp
    then show ?thesis
      using False v by (simp add: Unserialize_CBlockHeader_def p_then_def version_flag field_total)
  qed
qed

lemma header_ok_new: "header_ok CBlockHeader_new"
  by (simp add: header_ok_def CBlockHeader_new_def header_SetNull_def ClearV2Fields_def blob_null_def)

lemma IsHeaderV2_parsed:
  assumes "Unserialize_CBlockHeader g s = Inr (h, rest)"
  shows "IsHeaderV2 s = m_header_v2 h" "HeaderSizeFor s = length (Serialize_CBlockHeader h)"
proof -
  have s: "header_ok h" "s = Serialize_CBlockHeader h @ rest" using header_sound[OF assms] by simp_all
  then show v: "IsHeaderV2 s = m_header_v2 h" by (simp add: IsHeaderV2_Serialize)
  show "HeaderSizeFor s = length (Serialize_CBlockHeader h)"
    using s v length_Serialize_CBlockHeader[OF s(1)] by (simp add: HeaderSizeFor_def split: if_splits)
qed

text \<open>Both views of a header's hash: of the raw bytes and of the object parsed from them.\<close>

lemma HeaderPoWHash_Serialize:
  assumes "header_ok h"
  shows "HeaderPoWHash (Serialize_CBlockHeader h) = GetHash h"
proof (cases "m_header_v2 h")
  case True
  have "Unserialize_CBlockHeader CBlockHeader_new (Serialize_CBlockHeader h) = Inr (h, [])"
    using header_roundtrip[OF assms, of _ "[]"] by simp
  then show ?thesis
    using True length_Serialize_CBlockHeader[OF assms] IsHeaderV2_Serialize[of h "[]"] GetHash_ok[OF assms]
    by (auto simp: HeaderPoWHash_def HeaderPoWHashRev_def GetHash_def)
next
  case False
  then show ?thesis
    using length_Serialize_CBlockHeader[OF assms] IsHeaderV2_Serialize[of h "[]"] GetHash_v1[OF False]
    by (simp add: HeaderPoWHash_def HeaderPoWHashRev_def HashRev_def BTC_Hash_eq)
qed

lemma header_bytes_parse:
  assumes "length s = HeaderSizeFor s" "s \<noteq> []"
  obtains h where "header_ok h" "s = Serialize_CBlockHeader h"
proof -
  have "HeaderSizeFor s \<noteq> 0" using assms by (metis length_0_conv)
  then obtain h rest where p: "Unserialize_CBlockHeader CBlockHeader_new s = Inr (h, rest)"
    using Unserialize_header_total[of s CBlockHeader_new] assms by auto
  note h = header_sound[OF p]
  have "rest = []" using h IsHeaderV2_parsed(2)[OF p] assms by (metis append_Nil2 length_append add_cancel_right_right length_0_conv)
  then show thesis using that[of h] h by simp
qed

lemma bit_shift_255: "k < 8 \<Longrightarrow> \<not> bit (drop_bit n (0xff :: byte)) (7 - k) \<longleftrightarrow> k < n"
proof -
  assume k: "k < 8"
  have e: "(0xff :: byte) = mask 8" by (simp add: mask_eq_exp_minus_1)
  show ?thesis using k unfolding e bit_drop_bit_eq comp_def bit_mask_iff possible_bit_word by auto
qed

text \<open>Bit \<open>k\<close> of a hash in display order, counted from its most significant bit.\<close>

definition hash_bit :: "bytes \<Rightarrow> nat \<Rightarrow> bool" where
  "hash_bit x k = bit (x ! (k div 8)) (7 - k mod 8)"

lemma pow_xorMask_bits:
  assumes "k < 256"
  shows "hash_bit (pow_xorMask h) k \<longleftrightarrow>
    \<not> IsNull (m_xor_key h) \<and> unat (m_xor_key_mask_clear_bits h) \<le> k \<and>
    hash_bit (TaggedHash ''Bitcoin block hash PoW XOR mask'' (m_xor_key h)) k"
proof (cases "IsNull (m_xor_key h)")
  case True
  then show ?thesis using assms by (simp add: pow_xorMask_def hash_bit_def)
next
  case False
  define c where "c = unat (m_xor_key_mask_clear_bits h)"
  define T where "T = TaggedHash ''Bitcoin block hash PoW XOR mask'' (m_xor_key h)"
  have T: "length T = 32" by (simp add: T_def)
  define q where "q = c div 8"
  have c8: "8 * q \<le> c" "c < 8 * q + 8" "c = 8 * q + c mod 8" unfolding q_def by simp_all
  define i where "i = k div 8"
  have k8: "k = 8 * i + k mod 8" "k mod 8 < 8" "i < 32" using assms unfolding i_def by simp_all
  have c: "c < 256" using unat_bound[of "m_xor_key_mask_clear_bits h"] by (simp add: c_def)
  then have q: "q < 32" unfolding q_def by simp
  have M: "pow_xorMask h = (replicate q 0 @ drop q T)[q := T ! q AND drop_bit (c mod 8) 0xff]"
    using False q T unfolding pow_xorMask_def c_def[symmetric] T_def[symmetric] Let_def q_def[symmetric]
    by (simp add: min_def nth_append)
  consider "i < q" | "i = q" | "q < i" by linarith
  then have "hash_bit (pow_xorMask h) k \<longleftrightarrow> c \<le> k \<and> hash_bit T k"
  proof cases
    case 1
    then have "k < c" using k8 c8 by linarith
    then show ?thesis using 1 q T k8 unfolding M hash_bit_def i_def[symmetric] by (simp add: nth_append)
  next
    case 2
    then have "c \<le> k \<longleftrightarrow> \<not> k mod 8 < c mod 8" using k8 c8 by linarith
    then show ?thesis
      using 2 q T k8 bit_shift_255[of "k mod 8" "c mod 8"] unfolding M hash_bit_def i_def[symmetric]
      by (auto simp: bit_and_iff)
  next
    case 3
    then have "c \<le> k" using k8 c8 by linarith
    then show ?thesis using 3 q T k8 unfolding M hash_bit_def i_def[symmetric] by (simp add: nth_append)
  qed
  then show ?thesis using False by (simp add: c_def T_def)
qed

text \<open>C29: The header format is canonical: unserialising accepts exactly the serialisations of headers the
  class can hold, whatever object is overwritten, so no field of the old object survives and no two
  byte strings denote one header.\<close>

theorem header_codec:
  "Unserialize_CBlockHeader g s = Inr (h, rest) \<longleftrightarrow> header_ok h \<and> s = Serialize_CBlockHeader h @ rest"
  by (rule block_header.unser_iff)

text \<open>Raw headers are self-describing: the size derived from the version word of a stream that
  starts with a header is the number of bytes unserialising consumes, 164 or 80.\<close>

theorem header_self_describing:
  assumes "Unserialize_CBlockHeader g s = Inr (h, rest)"
  shows "HeaderSizeFor s = length s - length rest \<and> HeaderSizeFor s = (if IsHeaderV2 s then 164 else 80) \<and>
    IsHeaderV2 s = m_header_v2 h"
  using IsHeaderV2_parsed[OF assms] header_sound[OF assms] length_Serialize_CBlockHeader[of h] by auto

text \<open>C30: Hashing raw header bytes succeeds exactly when the length is the one the version word claims,
  and then gives 32 bytes; in every other case the exception is \<open>std::invalid_argument\<close>. None of the
  size checks inside the BLAKE2b pipeline can fail.\<close>

theorem pow_hash_total:
  "if s \<noteq> [] \<and> length s = HeaderSizeFor s then \<exists>hash. HeaderPoWHashRev s = Inr hash \<and> length hash = 32
   else \<exists>msg. HeaderPoWHashRev s = Inl (invalid_argument msg)"
proof (cases "s \<noteq> [] \<and> length s = HeaderSizeFor s")
  case True
  then obtain h where h: "header_ok h" "s = Serialize_CBlockHeader h" using header_bytes_parse[of s] by blast
  obtain hash where "HeaderPoWHash s = Inr hash" "length hash = 32"
    using GetHash_ok[OF h(1)] HeaderPoWHash_Serialize[OF h(1)] h(2) by auto
  then show ?thesis using True by (auto simp: HeaderPoWHash_def rbind_Inr_iff)
next
  case False
  then show ?thesis by (auto simp: HeaderPoWHashRev_def HeaderSizeFor_def IsHeaderV2_def split: if_splits)
qed

text \<open>C31: The byte view and the object view agree: hashing the serialisation of a header gives
  \<open>CBlockHeader::GetHash\<close>, for both algorithms.\<close>

theorem pow_bytes_object_agree:
  assumes "header_ok h"
  shows "HeaderPoWHash (Serialize_CBlockHeader h) = GetHash h \<and> HeaderPoWHashRev (Serialize_CBlockHeader h) = rbind (GetHash h) (\<lambda>x. Inr (rev x))"
  using HeaderPoWHash_Serialize[OF assms] GetHash_ok[OF assms] by (auto simp: HeaderPoWHash_def rbind_Inr_iff)

theorem pow_bytes_object_agree_witness:
  "HeaderPoWHash (Serialize_CBlockHeader CBlockHeader_new) = GetHash CBlockHeader_new"
  using pow_bytes_object_agree[OF header_ok_new] by simp

text \<open>The XOR mask of a v2 header can only change the bits of the displayed hash from bit
  \<open>m_xor_key_mask_clear_bits\<close> on, and changes none when the key is null: the leading bits, which
  decide the proof of work, are those of the BLAKE2b output.\<close>

lemma pow_mask_keeps_leading_bits:
  assumes "header_ok h" "m_header_v2 h"
  shows "\<exists>outer hash. pow_outer h = Inr outer \<and> GetBlake2bPoWHash h = Inr hash \<and> length outer = 32 \<and> length hash = 32 \<and>
    (\<forall>k<256. k < unat (m_xor_key_mask_clear_bits h) \<or> IsNull (m_xor_key h) \<longrightarrow> hash_bit (rev hash) k = hash_bit outer k)"
proof -
  obtain outer where o: "pow_outer h = Inr outer" "length outer = 32" using pow_outer_ok[OF assms] by blast
  have x: "hash_bit (map2 (XOR) outer (pow_xorMask h)) k \<longleftrightarrow> hash_bit outer k \<noteq> hash_bit (pow_xorMask h) k" if "k < 256" for k
    using that o(2) by (auto simp: hash_bit_def bit_xor_iff)
  show ?thesis
    using o GetBlake2bPoWHash_eq[OF o] x pow_xorMask_bits[of _ h]
    by (intro exI[of _ outer] exI[of _ "rev (map2 (XOR) outer (pow_xorMask h))"]) auto
qed

end
