(* ===== verification/Header_Storage.thy ===== *)
theory Header_Storage
  imports Block_Header Record_Array
begin

text \<open>
  The chain of block headers: \<open>BTC::HeaderVerifier\<close> (\<open>BTC.{h,cpp}\<close>), the header operations of
  \<open>Storage.cpp\<close>, and the rules of \<open>ProtocolV2.cpp\<close> about which clients may be served headers.
  Headers are appended by \<open>addBlock\<close>, removed by \<open>undoLatestBlock\<close>, stored padded to one record
  size, and summarised by two caches: the merkle cache and the height of the first v2 header.
  Error messages are given without their arguments.
\<close>

section \<open>HeaderVerifier\<close>

record HeaderVerifier =
  v_prev :: bytes
  v_prevHeight :: int

definition HeaderVerifier_new :: HeaderVerifier where
  "HeaderVerifier_new = \<lparr> v_prev = [], v_prevHeight = - 1 \<rparr>"

definition verifier_reset :: "nat \<Rightarrow> bytes \<Rightarrow> HeaderVerifier \<Rightarrow> HeaderVerifier" where
  "verifier_reset nextHeight prevHeader v = v\<lparr>v_prevHeight := int nextHeight - 1, v_prev := prevHeader\<rparr>"

definition lastHeaderProcessed :: "HeaderVerifier \<Rightarrow> int \<times> bytes" where
  "lastHeaderProcessed v = (v_prevHeight v, v_prev v)"

definition PrevHashForLinkCheck :: "bytes \<Rightarrow> pow_error + bytes" where
  "PrevHashForLinkCheck prevHeader = rbind (HeaderPoWHashRev prevHeader) (\<lambda>h. Inr (rev h))"

text \<open>An exception is \<open>Inl\<close>; a \<open>false\<close> result with its message is \<open>Inr (Inl err)\<close>.\<close>

definition checkInner :: "CBlockHeader \<Rightarrow> HeaderVerifier \<Rightarrow> pow_error + (string + unit)" where
  "checkInner curHdr v =
     (if header_IsNull curHdr then Inr (Inl ''Header verification failed: failed to deserialize'')
      else if v_prev v \<noteq> [] then
        rbind (PrevHashForLinkCheck (v_prev v)) (\<lambda>prevHash.
          if prevHash \<noteq> hashPrevBlock curHdr then Inr (Inl ''hashPrevBlock does not match the contents of the previous block'')
          else Inr (Inr ()))
      else Inr (Inr ()))"

definition verify_finish :: "bytes \<Rightarrow> CBlockHeader \<Rightarrow> HeaderVerifier \<Rightarrow> pow_error + (string + HeaderVerifier)" where
  "verify_finish header curHdr v =
     rbind (checkInner curHdr v) (\<lambda>r.
       case r of
         Inl err \<Rightarrow> Inr (Inl err)
       | Inr _ \<Rightarrow> Inr (Inr (v\<lparr>v_prevHeight := v_prevHeight v + 1, v_prev := header\<rparr>)))"

definition verify_bytes :: "bytes \<Rightarrow> HeaderVerifier \<Rightarrow> pow_error + (string + HeaderVerifier)" where
  "verify_bytes header v =
     (if length header \<noteq> HeaderSizeFor header then Inr (Inl ''Header verification failed: wrong size'')
      else
        case Unserialize_CBlockHeader CBlockHeader_new header of
          Inl e \<Rightarrow> Inl (deser_error e)
        | Inr (curHdr, _) \<Rightarrow> verify_finish header curHdr v)"

definition verify_object :: "CBlockHeader \<Rightarrow> HeaderVerifier \<Rightarrow> pow_error + (string + HeaderVerifier)" where
  "verify_object curHdr v =
     (let header = Serialize_CBlockHeader curHdr
      in if length header \<noteq> HeaderSizeFor header then Inr (Inl ''Header verification failed: wrong size'')
         else verify_finish header curHdr v)"

section \<open>Header operations of Storage\<close>

datatype storage_error =
    StInternalError string
  | StDatabaseError string
  | StDatabaseFormatError string
  | StHeaderVerificationFailure string
  | StUndoInfoMissing string
  | StPow pow_error
  | StMerkle merkle_error

definition kNoBlake2bHeightCached :: int where "kNoBlake2bHeightCached = - (2 ^ 63)"

definition MAX_HEADERS :: nat where "MAX_HEADERS = 1000000000"

text \<open>The members of \<open>Storage::Pvt\<close> that the header operations use.\<close>

record 'db header_store =
  hs_db :: 'db
  headersDRA :: DBRecordArray
  headerRecSz :: nat
  headerVerifier :: HeaderVerifier
  blake2bActivationHeightCache :: int
  merkleCache :: cache
  genesisHash :: bytes

definition trimHeaderRecord :: "bytes \<Rightarrow> bytes" where
  "trimHeaderRecord rec =
     (let n = HeaderSizeFor rec in if n > 0 \<and> length rec > n then take n rec else rec)"

definition latestTip :: "'db header_store \<Rightarrow> pow_error + (int \<times> bytes \<times> bytes)" where
  "latestTip st =
     (let (h, hdr) = lastHeaderProcessed (headerVerifier st)
      in if hdr = [] \<or> h < 0 then Inr (- 1, [], [])
         else rbind (HeaderPoWHashRev hdr) (\<lambda>hash. Inr (h, hash, hdr)))"

definition appendHeader ::
  "nat \<Rightarrow> bytes \<Rightarrow> nat \<Rightarrow> batch_op list \<times> DBRecordArray \<Rightarrow> (storage_error, batch_op list \<times> DBRecordArray) result" where
  "appendHeader rsz h height bd =
     (let ctx = beginBatchWrite (snd bd) (fst bd); targetHeight = nRecs (snd bd)
      in if height \<noteq> targetHeight then Inl (StInternalError ''Bad use of appendHeader'')
         else if length h > rsz then Inl (StInternalError ''Refusing to append a header larger than the record size'')
         else
           let padded = (if length h < rsz then h @ replicate (rsz - length h) 0 else h);
               (res, ctx) = dra_append padded ctx
           in case res of
                Inl err \<Rightarrow> Inl (StDatabaseError err)
              | Inr _ \<Rightarrow>
                  if nRecs (c_d ctx) \<noteq> height + 1 then Inl (StDatabaseError ''Failed to append header: result is bad'')
                  else Inr (endBatchWrite ctx, c_d ctx))"

definition deleteHeadersPastHeight ::
  "'db rocksdb \<Rightarrow> 'db \<Rightarrow> nat \<Rightarrow> int \<Rightarrow> batch_op list \<times> DBRecordArray \<Rightarrow>
     (storage_error, batch_op list \<times> DBRecordArray) result \<times> int" where
  "deleteHeadersPastHeight R db height cached bd =
     (let cached = (if cached \<ge> 0 \<and> cached > int height then kNoBlake2bHeightCached else cached);
          (res, ctx) = dra_truncate R db (height + 1) (beginBatchWrite (snd bd) (fst bd))
      in (case res of
            Inl err \<Rightarrow> Inl (StDatabaseError err)
          | Inr n \<Rightarrow>
              if nRecs (c_d ctx) \<noteq> height + 1 then Inl (StInternalError ''header truncate resulted in an unexepected value'')
              else Inr (endBatchWrite ctx, c_d ctx), cached))"

definition headerForHeight_nolock :: "'db rocksdb \<Rightarrow> 'db header_store \<Rightarrow> nat \<Rightarrow> bytes option \<times> string" where
  "headerForHeight_nolock R st height =
     (let (rec, err1) = readRecord R (hs_db st) (headersDRA st) height
      in if err1 \<noteq> [] then (None, ''failed to read header: '' @ err1) else (Some (trimHeaderRecord rec), []))"

text \<open>The header, an error message, and the hash if \<open>hashOut\<close> asks for it.\<close>

definition headerForHeight ::
  "'db rocksdb \<Rightarrow> 'db header_store \<Rightarrow> bool \<Rightarrow> u32 \<Rightarrow> pow_error + (bytes option \<times> string \<times> bytes)" where
  "headerForHeight R st hashOut height =
     rbind (latestTip st) (\<lambda>(tipHeight, tipHash, tipheader).
       if sint height = tipHeight \<and> sint height \<ge> 0 then Inr (Some tipheader, [], tipHash)
       else if sint height < tipHeight \<and> sint height \<ge> 0 then
         let (ret, err) = headerForHeight_nolock R st (unat height)
         in (case ret of
               None \<Rightarrow> Inr (None, err, [])
             | Some hdr \<Rightarrow>
                 if hashOut then rbind (HeaderPoWHashRev hdr) (\<lambda>hash. Inr (Some hdr, err, hash))
                 else Inr (Some hdr, err, []))
       else Inr (None, ''Height is out of range'', []))"

definition hashForHeight :: "'db rocksdb \<Rightarrow> 'db header_store \<Rightarrow> u32 \<Rightarrow> pow_error + bytes option" where
  "hashForHeight R st height =
     rbind (headerForHeight R st True height) (\<lambda>(hdr, err, hash).
       Inr (case hdr of Some _ \<Rightarrow> Some hash | None \<Rightarrow> None))"

definition headersFromHeight_nolock_nocheck :: "'db rocksdb \<Rightarrow> 'db header_store \<Rightarrow> nat \<Rightarrow> nat \<Rightarrow> bytes list \<times> string" where
  "headersFromHeight_nolock_nocheck R st height num =
     (let (ret, err) = readRecords R (hs_db st) (headersDRA st) height num;
          ret = map trimHeaderRecord ret;
          err = (if length ret \<noteq> num \<and> err = [] then ''short header count returned from headers file'' else err)
      in (ret, err))"

definition headersFromHeight :: "'db rocksdb \<Rightarrow> 'db header_store \<Rightarrow> u32 \<Rightarrow> u32 \<Rightarrow> pow_error + (bytes list \<times> string)" where
  "headersFromHeight R st height count =
     rbind (latestTip st) (\<lambda>(tip, _, _).
       let num = min (1 + tip - sint height) (sint count)
       in if num > 0 then Inr (headersFromHeight_nolock_nocheck R st (unat height) (unat count))
          else Inr ([], ''No headers in the specified range''))"

text \<open>The binary search: \<open>lo\<close> may be v1, \<open>hi\<close> is v2.\<close>

function activation_search :: "(nat \<Rightarrow> pow_error + bool) \<Rightarrow> nat \<Rightarrow> nat \<Rightarrow> pow_error + nat" where
  "activation_search isV2 lo hi =
     (if lo < hi then
        let mid = lo + (hi - lo) div 2
        in rbind (isV2 mid) (\<lambda>v. if v then activation_search isV2 lo mid else activation_search isV2 (mid + 1) hi)
      else Inr lo)"
  by pat_completeness auto
termination
  by (relation "measure (\<lambda>(isV2, lo, hi). hi - lo)") auto

declare activation_search.simps [simp del]

definition height_isV2 :: "'db rocksdb \<Rightarrow> 'db header_store \<Rightarrow> nat \<Rightarrow> pow_error + bool" where
  "height_isV2 R st h =
     rbind (headerForHeight R st False (of_nat h)) (\<lambda>(hdr, _, _).
       Inr (case hdr of Some x \<Rightarrow> IsHeaderV2 x | None \<Rightarrow> False))"

definition blake2bActivationHeight :: "'db rocksdb \<Rightarrow> 'db header_store \<Rightarrow> pow_error + (nat option \<times> 'db header_store)" where
  "blake2bActivationHeight R st =
     (let cached = blake2bActivationHeightCache st
      in if cached \<noteq> kNoBlake2bHeightCached then Inr (if cached < 0 then None else Some (nat cached), st)
         else
           rbind (latestTip st) (\<lambda>(tip, _, _).
             if tip \<ge> 0 then
               rbind (rbind (height_isV2 R st (nat tip)) (\<lambda>v.
                   if v then rbind (activation_search (height_isV2 R st) 0 (nat tip)) (\<lambda>lo. Inr (Some lo)) else Inr None))
                 (\<lambda>ret. Inr (ret, st\<lparr>blake2bActivationHeightCache := (case ret of Some h \<Rightarrow> int h | None \<Rightarrow> - 1)\<rparr>))
             else Inr (None, st)))"

text \<open>The source of the merkle cache; an exception of the hash function is its error.\<close>

definition merkleCacheHelperFunc :: "'db rocksdb \<Rightarrow> 'db header_store \<Rightarrow> get_hashes_func" where
  "merkleCacheHelperFunc R st start count =
     (let (vec, err) = headersFromHeight_nolock_nocheck R st start count
      in case rmap HeaderPoWHash vec of Inl e \<Rightarrow> ([], ''exception'') | Inr hashes \<Rightarrow> (hashes, err))"

definition updateMerkleCache :: "'db rocksdb \<Rightarrow> nat \<Rightarrow> 'db header_store \<Rightarrow> 'db header_store" where
  "updateMerkleCache R height st =
     (if \<not> c_initialized (merkleCache st) \<and> height \<noteq> 0 then
        st\<lparr>merkleCache := snd (cache_initialize sha256d (merkleCacheHelperFunc R st) (height + 1) (merkleCache st))\<rparr>
      else st)"

definition headerBranchAndRoot ::
  "'db rocksdb \<Rightarrow> nat \<Rightarrow> nat \<Rightarrow> 'db header_store \<Rightarrow> (merkle_error, hash list \<times> hash) result \<times> 'db header_store" where
  "headerBranchAndRoot R height cp_height st =
     (let (res, c) = cache_branchAndRoot sha256d (merkleCacheHelperFunc R st) (cp_height + 1) height (merkleCache st)
      in (res, st\<lparr>merkleCache := c\<rparr>))"

section \<open>Blocks coming and going\<close>

text \<open>
  What \<open>addBlock\<close> does to the header state: the verifier is restored whenever the function throws,
  the batch is written as a whole, and the cached activation height is extended by assignment. The
  first definition is the part after the block's transactions have been processed.
\<close>

definition addBlock_commit ::
  "'db rocksdb \<Rightarrow> bytes \<Rightarrow> nat \<Rightarrow> HeaderVerifier \<Rightarrow> 'db header_store \<Rightarrow> (storage_error, unit) result \<times> 'db header_store" where
  "addBlock_commit R rawHeader height v st =
     (case appendHeader (headerRecSz st) rawHeader height ([], headersDRA st) of
        Inl e \<Rightarrow> (Inl e, st)
      | Inr (batch, d) \<Rightarrow>
          let st = st\<lparr>headerVerifier := v, headersDRA := d\<rparr>;
              st = (if height = 0 then st\<lparr>genesisHash := HashRev rawHeader False\<rparr> else st);
              st = st\<lparr>hs_db := db_Write R (hs_db st) batch\<rparr>;
              st = (if blake2bActivationHeightCache st = - 1 \<and> IsHeaderV2 rawHeader
                    then st\<lparr>blake2bActivationHeightCache := int height\<rparr> else st)
          in (Inr (), st))"

definition addBlock_headers ::
  "'db rocksdb \<Rightarrow> CBlockHeader \<Rightarrow> nat \<Rightarrow> 'db header_store \<Rightarrow> (storage_error, unit) result \<times> 'db header_store" where
  "addBlock_headers R hdr height st =
     (case verify_object hdr (headerVerifier st) of
        Inl e \<Rightarrow> (Inl (StPow e), st)
      | Inr (Inl errMsg) \<Rightarrow> (Inl (StHeaderVerificationFailure errMsg), st)
      | Inr (Inr v) \<Rightarrow> addBlock_commit R (snd (lastHeaderProcessed v)) height v st)"

text \<open>What \<open>undoLatestBlock\<close> checks first, and what it does to the header state once the undo record
  has been found consistent.\<close>

definition undo_prevHeader :: "'db rocksdb \<Rightarrow> 'db header_store \<Rightarrow> (storage_error, nat \<times> bytes) result" where
  "undo_prevHeader R st =
     (let (tip, header) = lastHeaderProcessed (headerVerifier st)
      in if tip \<le> 0 \<or> length header \<noteq> HeaderSizeFor header then Inl (StUndoInfoMissing ''No header to undo'')
         else
           let prevHeight = nat (tip - 1)
           in case headerForHeight_nolock R st prevHeight of
                (None, err) \<Rightarrow> Inl (StUndoInfoMissing err)
              | (Some prevHeader, err) \<Rightarrow> Inr (prevHeight, prevHeader))"

definition undoLatestBlock_headers ::
  "'db rocksdb \<Rightarrow> 'db header_store \<Rightarrow> (storage_error, nat) result \<times> 'db header_store" where
  "undoLatestBlock_headers R st =
     (case undo_prevHeader R st of
        Inl e \<Rightarrow> (Inl e, st)
      | Inr (prevHeight, prevHeader) \<Rightarrow>
          let st = st\<lparr>headerVerifier := verifier_reset (prevHeight + 1) prevHeader (headerVerifier st)\<rparr>;
              (res, cached) = deleteHeadersPastHeight R (hs_db st) prevHeight (blake2bActivationHeightCache st) ([], headersDRA st);
              st = st\<lparr>blake2bActivationHeightCache := cached\<rparr>
          in case res of
               Inl e \<Rightarrow> (Inl e, st)
             | Inr (batch, d) \<Rightarrow>
                 let st = st\<lparr>headersDRA := d\<rparr>
                 in case cache_truncate (prevHeight + 1) (merkleCache st) of
                      (Inl e, c) \<Rightarrow> (Inl (StMerkle e), st\<lparr>merkleCache := c\<rparr>)
                    | (Inr _, c) \<Rightarrow> (Inr prevHeight, st\<lparr>merkleCache := c, hs_db := db_Write R (hs_db st) batch\<rparr>))"

fun verify_all :: "bytes list \<Rightarrow> HeaderVerifier \<Rightarrow> (storage_error, hash list \<times> HeaderVerifier) result" where
  "verify_all [] v = Inr ([], v)"
| "verify_all (b # bs) v =
     (case verify_bytes b v of
        Inl e \<Rightarrow> Inl (StPow e)
      | Inr (Inl err) \<Rightarrow> Inl (StDatabaseFormatError err)
      | Inr (Inr v') \<Rightarrow>
          (case HeaderPoWHash b of
             Inl e \<Rightarrow> Inl (StPow e)
           | Inr hash \<Rightarrow> rbind (verify_all bs v') (\<lambda>(hashes, v''). Inr (hash # hashes, v''))))"

definition loadCheckHeadersInDB :: "'db rocksdb \<Rightarrow> 'db header_store \<Rightarrow> (storage_error, 'db header_store) result" where
  "loadCheckHeadersInDB R st =
     (let num = nRecs (headersDRA st)
      in if num > MAX_HEADERS then Inl (StDatabaseFormatError ''Header count in database exceeds MAX_HEADERS'')
         else
           rbind (if num = 0 then Inr ([], st)
                  else
                    let (hVec, err) = headersFromHeight_nolock_nocheck R st 0 num
                    in if err \<noteq> [] \<or> length hVec \<noteq> num then Inl (StDatabaseFormatError err)
                       else
                         case HeaderPoWHashRev (hd hVec) of
                           Inl e \<Rightarrow> Inl (StPow e)
                         | Inr gh \<Rightarrow>
                             rbind (verify_all hVec (headerVerifier st)) (\<lambda>(hashes, v).
                               Inr (hashes, st\<lparr>genesisHash := gh, headerVerifier := v\<rparr>)))
             (\<lambda>(hVec, st).
               rbind (if \<not> c_initialized (merkleCache st) \<and> hVec \<noteq> [] then
                        (case initialize_nolock sha256d hVec (merkleCache st) of
                           (Inl e, c) \<Rightarrow> Inl (StMerkle e)
                         | (Inr _, c) \<Rightarrow> Inr (st\<lparr>merkleCache := c\<rparr>))
                      else Inr st)
                 (\<lambda>st. case blake2bActivationHeight R st of Inl e \<Rightarrow> Inl (StPow e) | Inr (_, st) \<Rightarrow> Inr st)))"

section \<open>Who may be served headers\<close>

type_synonym version = "nat \<times> nat \<times> nat"

abbreviation (input) MaxProtocolVersion :: version where "MaxProtocolVersion \<equiv> (1, 7, 0)"
abbreviation (input) MaxProtocolVersionV2 :: version where "MaxProtocolVersionV2 \<equiv> (1, 8, 0)"

definition version_ge :: "version \<Rightarrow> version \<Rightarrow> bool" where
  "version_ge a b \<longleftrightarrow>
     fst a > fst b \<or> (fst a = fst b \<and>
       (fst (snd a) > fst (snd b) \<or> (fst (snd a) = fst (snd b) \<and> snd (snd a) \<ge> snd (snd b))))"

definition maxNegotiable :: "bool \<Rightarrow> version" where
  "maxNegotiable chainHasV2 = (if chainHasV2 then MaxProtocolVersionV2 else MaxProtocolVersion)"

definition mayServeHeaders :: "bool \<Rightarrow> version \<Rightarrow> bool" where
  "mayServeHeaders chainHasV2 negotiated \<longleftrightarrow> \<not> chainHasV2 \<or> version_ge negotiated MaxProtocolVersionV2"

section \<open>Chains of headers\<close>

definition header_bytes :: "bytes \<Rightarrow> bool" where
  "header_bytes b \<longleftrightarrow> (\<exists>h. header_ok h \<and> b = Serialize_CBlockHeader h)"

text \<open>Each header is well-formed, not null, and names the hash of the one before it.\<close>

definition chain_ok :: "bytes list \<Rightarrow> bool" where
  "chain_ok hs \<longleftrightarrow>
     (\<forall>i<length hs. \<exists>h. header_ok h \<and> hs ! i = Serialize_CBlockHeader h \<and> nBits h \<noteq> 0 \<and>
        (i = 0 \<or> HeaderPoWHash (hs ! (i - 1)) = Inr (hashPrevBlock h)))"

definition verifier_of :: "bytes list \<Rightarrow> HeaderVerifier" where
  "verifier_of hs = \<lparr> v_prev = (if hs = [] then [] else last hs), v_prevHeight = int (length hs) - 1 \<rparr>"

lemma chain_ok_Nil [simp]: "chain_ok []"
  by (simp add: chain_ok_def)

lemma chain_ok_snoc:
  "chain_ok (hs @ [b]) \<longleftrightarrow> chain_ok hs \<and>
     (\<exists>h. header_ok h \<and> b = Serialize_CBlockHeader h \<and> nBits h \<noteq> 0 \<and>
        (hs = [] \<or> HeaderPoWHash (last hs) = Inr (hashPrevBlock h)))"
  unfolding chain_ok_def
  by (cases "hs = []") (auto simp: less_Suc_eq nth_append last_conv_nth all_conj_distrib imp_conjR)

lemma chain_ok_prefix: "chain_ok (xs @ ys) \<Longrightarrow> chain_ok xs"
  by (induction ys rule: rev_induct) (simp_all add: chain_ok_snoc flip: append_assoc)

lemma chain_ok_member: "chain_ok hs \<Longrightarrow> b \<in> set hs \<Longrightarrow> header_bytes b"
  by (auto simp: chain_ok_def header_bytes_def in_set_conv_nth)

lemma header_bytes_size: "header_bytes b \<Longrightarrow> length b = HeaderSizeFor b \<and> b \<noteq> []"
proof -
  assume "header_bytes b"
  then obtain h where h: "header_ok h" "b = Serialize_CBlockHeader h" by (auto simp: header_bytes_def)
  then have "Unserialize_CBlockHeader CBlockHeader_new b = Inr (h, [])" using header_roundtrip[OF h(1), of _ "[]"] by simp
  from IsHeaderV2_parsed(2)[OF this] h length_Serialize_CBlockHeader[OF h(1)]
  show ?thesis by (auto split: if_splits)
qed

definition hash_of :: "bytes \<Rightarrow> hash" where
  "hash_of b = (case HeaderPoWHash b of Inr x \<Rightarrow> x | Inl _ \<Rightarrow> [])"

lemma header_bytes_hash:
  assumes "header_bytes b"
  shows "HeaderPoWHash b = Inr (hash_of b)" "HeaderPoWHashRev b = Inr (rev (hash_of b))" "length (hash_of b) = 32"
proof -
  obtain h where h: "header_ok h" "b = Serialize_CBlockHeader h" using assms by (auto simp: header_bytes_def)
  then obtain x where "HeaderPoWHash b = Inr x" "length x = 32"
    using GetHash_ok[OF h(1)] HeaderPoWHash_Serialize[OF h(1)] by auto
  then show "HeaderPoWHash b = Inr (hash_of b)" "length (hash_of b) = 32" "HeaderPoWHashRev b = Inr (rev (hash_of b))"
    by (auto simp: hash_of_def HeaderPoWHash_def rbind_Inr_iff)
qed

lemma chain_last:
  assumes "chain_ok hs" "hs \<noteq> []"
  shows "header_bytes (last hs)" "last hs \<noteq> []"
  using chain_ok_member[OF assms(1), of "last hs"] header_bytes_size assms(2) by auto

lemma PrevHash_eq: "PrevHashForLinkCheck b = HeaderPoWHash b"
  by (simp add: PrevHashForLinkCheck_def HeaderPoWHash_def)

lemma checkInner_ok:
  assumes "chain_ok hs"
  shows "checkInner h (verifier_of hs) =
    Inr (if nBits h = 0 then Inl ''Header verification failed: failed to deserialize''
         else if hs \<noteq> [] \<and> hash_of (last hs) \<noteq> hashPrevBlock h
              then Inl ''hashPrevBlock does not match the contents of the previous block'' else Inr ())"
  using chain_last[OF assms] header_bytes_hash(1)[of "last hs"]
  by (auto simp: checkInner_def verifier_of_def header_IsNull_def PrevHash_eq)

lemma verify_finish_iff:
  assumes "chain_ok hs" "header_ok h" "b = Serialize_CBlockHeader h"
  shows "verify_finish b h (verifier_of hs) = Inr (Inr v) \<longleftrightarrow> chain_ok (hs @ [b]) \<and> v = verifier_of (hs @ [b])"
proof -
  have one: "header_ok g \<Longrightarrow> b = Serialize_CBlockHeader g \<Longrightarrow> g = h" for g
    using block_header.ser_prefix_free[of g h "[]" "[]"] assms(2,3) by metis
  have ex: "(\<exists>g. header_ok g \<and> b = Serialize_CBlockHeader g \<and> P g) \<longleftrightarrow> P h" for P using one assms(2,3) by metis
  have "hs \<noteq> [] \<Longrightarrow> HeaderPoWHash (last hs) = Inr (hash_of (last hs))"
    using chain_last[OF assms(1)] header_bytes_hash(1) by blast
  then have "chain_ok (hs @ [b]) \<longleftrightarrow> nBits h \<noteq> 0 \<and> (hs = [] \<or> hash_of (last hs) = hashPrevBlock h)"
    unfolding chain_ok_snoc ex using assms(1) by (cases "hs = []") simp_all
  moreover have "(verifier_of hs)\<lparr>v_prevHeight := v_prevHeight (verifier_of hs) + 1, v_prev := b\<rparr> = verifier_of (hs @ [b])"
    by (simp add: verifier_of_def)
  ultimately show ?thesis
    unfolding verify_finish_def checkInner_ok[OF assms(1)] by auto
qed

lemma verify_object_iff:
  assumes "chain_ok hs" "header_ok h"
  shows "verify_object h (verifier_of hs) = Inr (Inr v) \<longleftrightarrow>
    chain_ok (hs @ [Serialize_CBlockHeader h]) \<and> v = verifier_of (hs @ [Serialize_CBlockHeader h])"
proof -
  have "header_bytes (Serialize_CBlockHeader h)" using assms(2) by (auto simp: header_bytes_def)
  from header_bytes_size[OF this] show ?thesis
    unfolding verify_object_def Let_def by (simp add: verify_finish_iff[OF assms refl])
qed

lemma verify_object_reject:
  assumes "chain_ok hs" "header_ok h" "\<not> chain_ok (hs @ [Serialize_CBlockHeader h])"
  shows "\<exists>err. verify_object h (verifier_of hs) = Inr (Inl err)"
proof -
  have "\<exists>r. verify_object h (verifier_of hs) = Inr r"
    unfolding verify_object_def Let_def verify_finish_def checkInner_ok[OF assms(1)] by (simp split: sum.split)
  then show ?thesis using verify_object_iff[OF assms(1,2)] assms(3) by (metis sum.exhaust)
qed

lemma verify_bytes_iff:
  assumes "chain_ok hs"
  shows "verify_bytes b (verifier_of hs) = Inr (Inr v) \<longleftrightarrow> chain_ok (hs @ [b]) \<and> v = verifier_of (hs @ [b])"
proof (cases "length b = HeaderSizeFor b \<and> b \<noteq> []")
  case True
  then obtain h where h: "header_ok h" "b = Serialize_CBlockHeader h" using header_bytes_parse[of b] by blast
  then have "Unserialize_CBlockHeader CBlockHeader_new b = Inr (h, [])" using header_roundtrip[OF h(1), of _ "[]"] by simp
  then show ?thesis using True verify_finish_iff[OF assms h] by (simp add: verify_bytes_def)
next
  case False
  then have "\<not> header_bytes b" using header_bytes_size by blast
  then have "\<not> chain_ok (hs @ [b])" using chain_ok_member[of "hs @ [b]" b] by auto
  moreover have "Unserialize_CBlockHeader CBlockHeader_new [] \<noteq> Inr x" for x
    by (cases x) (auto dest!: header_sound dest: length_Serialize_CBlockHeader split: if_splits)
  ultimately show ?thesis using False by (auto simp: verify_bytes_def split: sum.splits)
qed

lemma verify_all_iff:
  "chain_ok hs \<Longrightarrow> verify_all bs (verifier_of hs) = Inr (hashes, v) \<longleftrightarrow>
     chain_ok (hs @ bs) \<and> v = verifier_of (hs @ bs) \<and> hashes = map hash_of bs"
proof (induction bs arbitrary: hs hashes)
  case (Cons b bs)
  show ?case
  proof (cases "chain_ok (hs @ [b])")
    case True
    then have "header_bytes b" using chain_ok_member[of "hs @ [b]" b] by simp
    then show ?thesis
      using Cons.IH[OF True] verify_bytes_iff[OF Cons.prems, of b "verifier_of (hs @ [b])"] True header_bytes_hash(1)[of b]
      by (auto simp: rbind_Inr_iff)
  next
    case False
    then have "\<not> chain_ok (hs @ b # bs)" using chain_ok_prefix[of "hs @ [b]" bs] by auto
    then show ?thesis
      using False verify_bytes_iff[OF Cons.prems, of b] by (auto split: sum.splits)
  qed
qed auto

section \<open>The state of the header store\<close>

definition pad :: "nat \<Rightarrow> bytes \<Rightarrow> bytes" where
  "pad n h = h @ replicate (n - length h) 0"

lemma length_pad [simp]: "length h \<le> n \<Longrightarrow> length (pad n h) = n"
  by (simp add: pad_def)

lemma trim_pad: "header_bytes b \<Longrightarrow> trimHeaderRecord (pad n b) = b"
proof -
  assume b: "header_bytes b"
  then obtain h where h: "header_ok h" "b = Serialize_CBlockHeader h" by (auto simp: header_bytes_def)
  have "HeaderSizeFor (pad n b) = length b"
    using IsHeaderV2_parsed(2)[OF header_roundtrip[OF h(1), of CBlockHeader_new "replicate (n - length b) 0"]] h(2)
    by (simp add: pad_def)
  then show ?thesis using b header_bytes_size[OF b] by (auto simp: trimHeaderRecord_def pad_def Let_def)
qed

text \<open>The height of the first v2 header; a chain switches layout at most once, after its first block.\<close>

definition first_v2 :: "bytes list \<Rightarrow> nat option" where
  "first_v2 hs = (let n = length (takeWhile (\<lambda>b. \<not> IsHeaderV2 b) hs) in if n < length hs then Some n else None)"

definition fork_ok :: "bytes list \<Rightarrow> bool" where
  "fork_ok hs \<longleftrightarrow> (hs \<noteq> [] \<longrightarrow> \<not> IsHeaderV2 (hd hs)) \<and> (\<forall>i j. i \<le> j \<longrightarrow> j < length hs \<longrightarrow> IsHeaderV2 (hs ! i) \<longrightarrow> IsHeaderV2 (hs ! j))"

definition activation_cached :: "int \<Rightarrow> bytes list \<Rightarrow> bool" where
  "activation_cached c hs \<longleftrightarrow>
     c = kNoBlake2bHeightCached \<or> c = (case first_v2 hs of None \<Rightarrow> - 1 | Some n \<Rightarrow> int n)"

lemma first_v2_None: "first_v2 hs = None \<longleftrightarrow> (\<forall>b \<in> set hs. \<not> IsHeaderV2 b)"
proof -
  let ?P = "\<lambda>b. \<not> IsHeaderV2 b"
  have "length (takeWhile ?P hs) < length hs \<longleftrightarrow> dropWhile ?P hs \<noteq> []"
    using arg_cong[OF takeWhile_dropWhile_id[of ?P hs], of length] unfolding length_append length_0_conv[symmetric] by linarith
  then show ?thesis by (simp add: first_v2_def Let_def dropWhile_eq_Nil_conv)
qed

lemma first_v2_Some:
  "first_v2 hs = Some n \<longleftrightarrow> n < length hs \<and> IsHeaderV2 (hs ! n) \<and> (\<forall>i<n. \<not> IsHeaderV2 (hs ! i))"
proof
  assume "first_v2 hs = Some n"
  then have n: "n = length (takeWhile (\<lambda>b. \<not> IsHeaderV2 b) hs)" "n < length hs"
    by (auto simp: first_v2_def Let_def split: if_splits)
  moreover have "\<not> IsHeaderV2 (hs ! i)" if "i < n" for i
    using that n takeWhile_nth[of i "\<lambda>b. \<not> IsHeaderV2 b" hs] nth_mem[of i "takeWhile (\<lambda>b. \<not> IsHeaderV2 b) hs"] set_takeWhileD by fastforce
  ultimately show "n < length hs \<and> IsHeaderV2 (hs ! n) \<and> (\<forall>i<n. \<not> IsHeaderV2 (hs ! i))"
    using nth_length_takeWhile[of "\<lambda>b. \<not> IsHeaderV2 b" hs] by simp
next
  assume r: "n < length hs \<and> IsHeaderV2 (hs ! n) \<and> (\<forall>i<n. \<not> IsHeaderV2 (hs ! i))"
  have "takeWhile (\<lambda>b. \<not> IsHeaderV2 b) hs = take n hs"
    using r by (intro takeWhile_eq_take_P_nth) auto
  then show "first_v2 hs = Some n" using r by (simp add: first_v2_def)
qed

lemma first_v2_snoc:
  "first_v2 (hs @ [b]) = (case first_v2 hs of Some n \<Rightarrow> Some n | None \<Rightarrow> if IsHeaderV2 b then Some (length hs) else None)"
proof (cases "first_v2 hs")
  case None
  then have all: "\<forall>b \<in> set hs. \<not> IsHeaderV2 b" by (simp add: first_v2_None)
  then have "takeWhile (\<lambda>b. \<not> IsHeaderV2 b) (hs @ [b]) = hs @ takeWhile (\<lambda>b. \<not> IsHeaderV2 b) [b]"
    by (intro takeWhile_append2) auto
  then show ?thesis using None by (simp add: first_v2_def)
next
  case (Some n)
  then have "first_v2 (hs @ [b]) = Some n" unfolding first_v2_Some by (auto simp: nth_append)
  then show ?thesis using Some by simp
qed

lemma fork_ok_snoc:
  "fork_ok hs \<Longrightarrow> (hs = [] \<longrightarrow> \<not> IsHeaderV2 b) \<Longrightarrow> (hs \<noteq> [] \<longrightarrow> IsHeaderV2 (last hs) \<longrightarrow> IsHeaderV2 b) \<Longrightarrow> fork_ok (hs @ [b])"
proof (cases "hs = []")
  case False
  assume a: "fork_ok hs" "hs \<noteq> [] \<longrightarrow> IsHeaderV2 (last hs) \<longrightarrow> IsHeaderV2 b"
  have "IsHeaderV2 (hs ! i) \<Longrightarrow> i < length hs \<Longrightarrow> IsHeaderV2 b" for i
    using a False unfolding fork_ok_def last_conv_nth[OF False]
    by (metis Suc_pred' diff_less length_greater_0_conv less_Suc_eq_le zero_less_one diff_Suc_1 One_nat_def)
  then show ?thesis using a(1) False by (auto simp: fork_ok_def nth_append less_Suc_eq)
qed (simp add: fork_ok_def)

lemma fork_ok_butlast: "fork_ok (hs @ [b]) \<Longrightarrow> fork_ok hs"
  unfolding fork_ok_def by (cases "hs = []") (auto simp: nth_append less_Suc_eq)

definition store_inv :: "('db \<Rightarrow> (bytes \<rightharpoonup> bytes)) \<Rightarrow> 'db header_store \<Rightarrow> bytes list \<Rightarrow> bool" where
  "store_inv contents st hs \<longleftrightarrow>
     dra_repr (contents (hs_db st)) (headersDRA st) (map (pad (headerRecSz st)) hs) \<and>
     recSz (headersDRA st) = headerRecSz st \<and>
     chain_ok hs \<and> fork_ok hs \<and> length hs \<le> MAX_HEADERS \<and> (\<forall>h \<in> set hs. length h \<le> headerRecSz st) \<and>
     headerVerifier st = verifier_of hs \<and>
     activation_cached (blake2bActivationHeightCache st) hs \<and>
     (c_initialized (merkleCache st) \<longrightarrow> cache_inv sha256d (map hash_of hs) (merkleCache st)) \<and>
     (hs \<noteq> [] \<longrightarrow> HeaderPoWHashRev (hd hs) = Inr (genesisHash st))"

lemma sint_height: "h < 2 ^ 31 \<Longrightarrow> sint (of_nat h :: u32) = int h" "h < 2 ^ 31 \<Longrightarrow> unat (of_nat h :: u32) = h"
  by (simp_all add: sint_uint unat_of_nat uint_nat signed_take_bit_int_eq_self take_bit_nat_eq_self)

lemma sint_nonneg: "0 \<le> sint (x :: u32) \<Longrightarrow> unat x = nat (sint x)"
proof -
  assume "0 \<le> sint x"
  then have nb: "\<not> bit (uint x) 31" unfolding sint_uint by simp
  have "uint x = take_bit (Suc 31) (uint x)"
    using unsigned_take_bit_eq[of 32 x] take_bit_word_eq_self[of 32 x] by simp
  also have "\<dots> = take_bit 31 (uint x)" using nb by (simp only: take_bit_Suc_from_most) simp
  also have "\<dots> = sint x" unfolding sint_uint using nb by (simp add: signed_take_bit_eq_if_positive)
  finally show ?thesis by (simp add: unat_eq_nat_uint)
qed

lemma activation_search_ok:
  assumes "\<And>i. i \<le> hi \<Longrightarrow> isV2 i = Inr (P i)" "\<And>i j. i \<le> j \<Longrightarrow> j \<le> hi \<Longrightarrow> P i \<Longrightarrow> P j"
    "P hi" "lo \<le> hi" "\<And>i. i < lo \<Longrightarrow> \<not> P i"
  shows "\<exists>n\<le>hi. activation_search isV2 lo hi = Inr n \<and> P n \<and> (\<forall>i<n. \<not> P i)"
  using assms
proof (induction "hi - lo" arbitrary: lo hi rule: less_induct)
  case less
  show ?case
  proof (cases "lo < hi")
    case True
    define mid where "mid = lo + (hi - lo) div 2"
    have mid: "lo \<le> mid" "mid < hi" using True by (simp_all add: mid_def)
    have step: "activation_search isV2 lo hi =
        (if P mid then activation_search isV2 lo mid else activation_search isV2 (mid + 1) hi)"
      using True mid less.prems(1)[of mid] by (subst activation_search.simps) (simp add: mid_def[symmetric])
    show ?thesis
    proof (cases "P mid")
      case True
      then have "\<exists>n\<le>mid. activation_search isV2 lo mid = Inr n \<and> P n \<and> (\<forall>i<n. \<not> P i)"
        using mid less.prems by (intro less.hyps) auto
      then show ?thesis using True step mid by (metis less_imp_le order_trans)
    next
      case False
      have "\<not> P i" if "i < mid + 1" for i using that False less.prems(2)[of i mid] mid by auto
      then have "\<exists>n\<le>hi. activation_search isV2 (mid + 1) hi = Inr n \<and> P n \<and> (\<forall>i<n. \<not> P i)"
        using mid less.prems by (intro less.hyps) auto
      then show ?thesis using False step by simp
    qed
  next
    case False
    then show ?thesis using less.prems by (subst activation_search.simps) auto
  qed
qed

lemma latestTip_ok:
  assumes "store_inv contents st hs"
  shows "latestTip st = Inr (if hs = [] then (- 1, [], []) else (int (length hs) - 1, rev (hash_of (last hs)), last hs))"
proof -
  have "chain_ok hs" "headerVerifier st = verifier_of hs" using assms by (simp_all add: store_inv_def)
  then show ?thesis
    using chain_last[of hs] header_bytes_hash(2)[of "last hs"]
    by (cases "hs = []") (simp_all add: latestTip_def lastHeaderProcessed_def verifier_of_def Suc_le_eq)
qed

context rocksdb_laws
begin

lemma headerForHeight_nolock_ok:
  assumes "store_inv contents st hs"
  shows "headerForHeight_nolock R st i =
    (if i < length hs then (Some (hs ! i), []) else (None, ''failed to read header: Record number out of range''))"
proof -
  have "header_bytes (hs ! i)" if "i < length hs"
    using that assms chain_ok_member[of hs "hs ! i"] by (simp add: store_inv_def)
  then show ?thesis
    using readRecord_ok[of "hs_db st" "headersDRA st" "map (pad (headerRecSz st)) hs" i] assms trim_pad
    by (simp add: headerForHeight_nolock_def store_inv_def)
qed

lemma headersFromHeight_nolock_nocheck_ok:
  assumes "store_inv contents st hs"
  shows "headersFromHeight_nolock_nocheck R st start count =
    (if start < length hs \<and> 0 < count
     then (take count (drop start hs), if start + count \<le> length hs then [] else ''short header count returned from headers file'')
     else ([], ''readRecords specification is out of range''))"
proof -
  have repr: "dra_repr (contents (hs_db st)) (headersDRA st) (map (pad (headerRecSz st)) hs)"
    and hb: "\<And>b. b \<in> set hs \<Longrightarrow> header_bytes b"
    using assms chain_ok_member by (auto simp: store_inv_def)
  have "map trimHeaderRecord (take count (drop start (map (pad (headerRecSz st)) hs))) = take count (drop start hs)"
    using hb trim_pad by (simp add: take_map[symmetric] drop_map[symmetric] map_idI)
  then show ?thesis
    unfolding headersFromHeight_nolock_nocheck_def readRecords_ok[OF repr] by (auto simp: Let_def)
qed

lemma headerForHeight_ok:
  assumes "store_inv contents st hs"
  shows "headerForHeight R st True height =
      Inr (if 0 \<le> sint height \<and> sint height < int (length hs) then (Some (hs ! unat height), [], rev (hash_of (hs ! unat height)))
           else (None, ''Height is out of range'', []))"
    and "\<exists>hash. headerForHeight R st False height =
      Inr (if 0 \<le> sint height \<and> sint height < int (length hs) then (Some (hs ! unat height), [], hash)
           else (None, ''Height is out of range'', []))"
proof -
  note u = sint_nonneg[of height]
  have hb: "i < length hs \<Longrightarrow> header_bytes (hs ! i)" for i
    using assms chain_ok_member[of hs "hs ! i"] by (simp add: store_inv_def)
  have l: "hs \<noteq> [] \<Longrightarrow> last hs = hs ! (length hs - 1)" by (rule last_conv_nth)
  have c: "0 \<le> sint height \<Longrightarrow> sint height = int (length hs) - 1 \<Longrightarrow> unat height = length hs - 1"
    "0 \<le> sint height \<Longrightarrow> sint height < int (length hs) - 1 \<Longrightarrow> unat height < length hs" using u by linarith+
  show "headerForHeight R st True height =
      Inr (if 0 \<le> sint height \<and> sint height < int (length hs) then (Some (hs ! unat height), [], rev (hash_of (hs ! unat height)))
           else (None, ''Height is out of range'', []))"
    unfolding headerForHeight_def latestTip_ok[OF assms] headerForHeight_nolock_ok[OF assms]
    using c l header_bytes_hash(2)[OF hb, of "unat height"] by (cases "hs = []") auto
  show "\<exists>hash. headerForHeight R st False height =
      Inr (if 0 \<le> sint height \<and> sint height < int (length hs) then (Some (hs ! unat height), [], hash)
           else (None, ''Height is out of range'', []))"
    unfolding headerForHeight_def latestTip_ok[OF assms] headerForHeight_nolock_ok[OF assms]
    using c l by (cases "hs = []") auto
qed

end

lemma height_word: "h < length hs \<Longrightarrow> length hs \<le> MAX_HEADERS \<Longrightarrow> sint (of_nat h :: u32) = int h \<and> unat (of_nat h :: u32) = h"
proof -
  assume "h < length hs" "length hs \<le> MAX_HEADERS"
  then have "h < 2 ^ 31" by (simp add: MAX_HEADERS_def)
  then show ?thesis using sint_height by blast
qed

lemma activation_cached_value:
  "activation_cached c hs \<Longrightarrow> c \<noteq> kNoBlake2bHeightCached \<Longrightarrow> (if c < 0 then None else Some (nat c)) = first_v2 hs"
  by (auto simp: activation_cached_def split: option.splits)

lemma activation_cached_snoc:
  assumes "activation_cached c hs"
  shows "activation_cached (if c = - 1 \<and> IsHeaderV2 b then int (length hs) else c) (hs @ [b])"
  using assms by (auto simp: activation_cached_def first_v2_snoc kNoBlake2bHeightCached_def split: option.splits)

lemma activation_cached_butlast:
  assumes "activation_cached c (hs @ [b])" "hs \<noteq> []"
  shows "activation_cached (if c \<ge> 0 \<and> c > int (length hs - 1) then kNoBlake2bHeightCached else c) hs"
proof -
  have "n < length hs" if "first_v2 hs = Some n" for n using that by (simp add: first_v2_Some)
  moreover have "0 < length hs" using assms(2) by simp
  ultimately show ?thesis
    using assms(1) by (auto simp: activation_cached_def first_v2_snoc of_nat_diff Suc_le_eq split: option.splits if_splits)
qed

context rocksdb_laws
begin

lemma height_isV2_ok:
  assumes "store_inv contents st hs" "i < length hs"
  shows "height_isV2 R st i = Inr (IsHeaderV2 (hs ! i))"
proof -
  have "sint (of_nat i :: u32) = int i" "unat (of_nat i :: u32) = i"
    using height_word[of i hs] assms by (simp_all add: store_inv_def)
  then show ?thesis using headerForHeight_ok(2)[OF assms(1), of "of_nat i"] assms(2) by (auto simp: height_isV2_def)
qed

lemma blake2bActivationHeight_ok:
  assumes "store_inv contents st hs"
  shows "\<exists>st'. blake2bActivationHeight R st = Inr (first_v2 hs, st') \<and> store_inv contents st' hs"
proof -
  let ?c = "blake2bActivationHeightCache st"
  have cached: "activation_cached ?c hs" and mono: "fork_ok hs" using assms by (simp_all add: store_inv_def)
  have upd: "store_inv contents (st\<lparr>blake2bActivationHeightCache := (case first_v2 hs of Some h \<Rightarrow> int h | None \<Rightarrow> - 1)\<rparr>) hs"
    using assms by (auto simp: store_inv_def activation_cached_def split: option.splits)
  show ?thesis
  proof (cases "?c = kNoBlake2bHeightCached")
    case False
    then show ?thesis using activation_cached_value[OF cached False] assms by (auto simp: blake2bActivationHeight_def Let_def)
  next
    case no: True
    show ?thesis
    proof (cases "hs = []")
      case True
      then show ?thesis
        using no assms latestTip_ok[OF assms] by (auto simp: blake2bActivationHeight_def first_v2_def)
    next
      case False
      let ?t = "length hs - 1"
      have t: "?t < length hs" "nat (int (length hs) - 1) = ?t" "0 \<le> int (length hs) - 1" using False by (simp_all add: Suc_le_eq)
      note v = height_isV2_ok[OF assms]
      have "\<exists>ret. rbind (height_isV2 R st ?t) (\<lambda>v. if v then rbind (activation_search (height_isV2 R st) 0 ?t) (\<lambda>lo. Inr (Some lo)) else Inr None) = Inr ret \<and> ret = first_v2 hs"
      proof (cases "IsHeaderV2 (hs ! ?t)")
        case True
        obtain n where n: "n \<le> ?t" "activation_search (height_isV2 R st) 0 ?t = Inr n" "IsHeaderV2 (hs ! n)" "\<forall>i<n. \<not> IsHeaderV2 (hs ! i)"
          using activation_search_ok[of ?t "height_isV2 R st" "\<lambda>i. IsHeaderV2 (hs ! i)" 0] v t(1) True mono
          by (auto simp: fork_ok_def)
        then have "first_v2 hs = Some n" using t(1) by (auto simp: first_v2_Some)
        then show ?thesis using True v[OF t(1)] n(2) by simp
      next
        case nv: False
        have "\<not> IsHeaderV2 (hs ! i)" if "i < length hs" for i
          using that nv mono t(1) unfolding fork_ok_def by (metis Suc_pred' less_Suc_eq_le length_greater_0_conv False diff_Suc_1 One_nat_def)
        then have "first_v2 hs = None" by (auto simp: first_v2_None in_set_conv_nth)
        then show ?thesis using nv v[OF t(1)] by simp
      qed
      then show ?thesis
        using no False latestTip_ok[OF assms] t upd by (auto simp: blake2bActivationHeight_def cong: if_cong)
    qed
  qed
qed

lemma helper_source:
  assumes "store_inv contents st hs"
  shows "header_source sha256d (merkleCacheHelperFunc R st) (map hash_of hs)"
proof
  fix h assume "h \<in> set (map hash_of hs)"
  then show "length h = 32"
    using assms chain_ok_member header_bytes_hash(3) by (auto simp: store_inv_def)
next
  fix count start :: nat
  assume c: "0 < count" "start + count \<le> length (map hash_of hs)"
  have "rmap HeaderPoWHash (take count (drop start hs)) = Inr (map hash_of (take count (drop start hs)))"
  proof (rule rmap_all_Inr)
    fix b assume "b \<in> set (take count (drop start hs))"
    then have "b \<in> set hs" by (meson in_set_dropD in_set_takeD)
    then show "HeaderPoWHash b = Inr (hash_of b)"
      using assms chain_ok_member header_bytes_hash(1) by (auto simp: store_inv_def)
  qed
  then show "merkleCacheHelperFunc R st start count = (take count (drop start (map hash_of hs)), [])"
    using c by (simp add: merkleCacheHelperFunc_def headersFromHeight_nolock_nocheck_ok[OF assms] take_map drop_map)
qed

end

context rocksdb_laws
begin

lemma addBlock_headers_ok:
  assumes inv: "store_inv contents st hs" and h: "header_ok h" and ok: "chain_ok (hs @ [Serialize_CBlockHeader h])"
    and fork: "fork_ok (hs @ [Serialize_CBlockHeader h])"
    and size: "length (Serialize_CBlockHeader h) \<le> headerRecSz st" and room: "length hs < MAX_HEADERS"
  shows "\<exists>st'. addBlock_headers R h (length hs) st = (Inr (), st') \<and> store_inv contents st' (hs @ [Serialize_CBlockHeader h])"
proof -
  let ?b = "Serialize_CBlockHeader h" and ?n = "headerRecSz st"
  let ?rs = "map (pad ?n) hs"
  have v: "verify_object h (headerVerifier st) = Inr (Inr (verifier_of (hs @ [?b])))"
    using inv ok verify_object_iff[OF _ h] by (simp add: store_inv_def)
  have repr: "dra_repr (contents (hs_db st)) (headersDRA st) ?rs" and rsz: "recSz (headersDRA st) = ?n" using inv by (simp_all add: store_inv_def)
  have nr: "nRecs (headersDRA st) = length hs" using repr by (simp add: dra_repr_def dra_wf_def)
  have "ctx_inv (contents (hs_db st)) (beginBatchWrite (headersDRA st) []) ?rs" using repr by (intro begin_inv) simp
  moreover have "length (pad ?n ?b) = recSz (c_d (beginBatchWrite (headersDRA st) []))" using size rsz by (simp add: beginBatchWrite_def)
  moreover have "Suc (length ?rs) < bucket_limit" using room by (simp add: MAX_HEADERS_def bucket_limit_def)
  ultimately obtain c where c: "dra_append (pad ?n ?b) (beginBatchWrite (headersDRA st) []) = (Inr (), c)"
    "ctx_inv (contents (hs_db st)) c (?rs @ [pad ?n ?b])" "recSz (c_d c) = ?n"
    using append_ok rsz by (metis (no_types, lifting) beginBatchWrite_def BatchWriteContext.select_convs(1))
  have "nRecs (c_d c) = length hs + 1" using c(2) by (simp add: ctx_inv_def Let_def dra_wf_def)
  moreover have "(if length ?b < ?n then ?b @ replicate (?n - length ?b) 0 else ?b) = pad ?n ?b" using size by (simp add: pad_def)
  ultimately have app: "appendHeader ?n ?b (length hs) ([], headersDRA st) = Inr (endBatchWrite c, c_d c)"
    using size nr c(1) by (simp add: appendHeader_def)
  have repr': "dra_repr (contents (db_Write R (hs_db st) (endBatchWrite c))) (c_d c) (map (pad ?n) (hs @ [?b]))"
    using end_repr[OF c(2)] by (simp add: contents_Write)
  have lh: "snd (lastHeaderProcessed (verifier_of (hs @ [?b]))) = ?b" by (simp add: lastHeaderProcessed_def verifier_of_def)
  have hb: "header_bytes ?b" using h by (auto simp: header_bytes_def)
  have gen: "HeaderPoWHashRev (hd (hs @ [?b])) = Inr (if length hs = 0 then HashRev ?b False else genesisHash st)"
  proof (cases "hs = []")
    case True
    then have "\<not> IsHeaderV2 ?b" using fork by (simp add: fork_ok_def)
    moreover have "length ?b = 80" using calculation length_Serialize_CBlockHeader[OF h] IsHeaderV2_Serialize[of h "[]"] by simp
    ultimately show ?thesis using True by (simp add: HeaderPoWHashRev_def)
  qed (use inv in \<open>simp add: store_inv_def\<close>)
  have cache: "c_initialized (merkleCache st) \<longrightarrow> cache_inv sha256d (map hash_of (hs @ [?b])) (merkleCache st)"
    using inv by (auto simp: store_inv_def cache_inv_def)
  let ?a = "if blake2bActivationHeightCache st = - 1 \<and> IsHeaderV2 ?b then int (length hs) else blake2bActivationHeightCache st"
  have act: "activation_cached ?a (hs @ [?b])" using inv activation_cached_snoc by (simp add: store_inv_def)
  let ?st = "st\<lparr>headerVerifier := verifier_of (hs @ [?b]), headersDRA := c_d c,
      genesisHash := (if length hs = 0 then HashRev ?b False else genesisHash st),
      hs_db := db_Write R (hs_db st) (endBatchWrite c), blake2bActivationHeightCache := ?a\<rparr>"
  have "addBlock_headers R h (length hs) st = (Inr (), ?st)"
    unfolding addBlock_headers_def v by (simp add: addBlock_commit_def lh app Let_def)
  moreover have "store_inv contents ?st (hs @ [?b])"
    using inv repr' c(3) ok fork room size act cache gen by (simp add: store_inv_def)
  ultimately show ?thesis by blast
qed

lemma addBlock_headers_reject:
  assumes inv: "store_inv contents st hs" and h: "header_ok h" and bad: "\<not> chain_ok (hs @ [Serialize_CBlockHeader h])"
  shows "\<exists>err. addBlock_headers R h height st = (Inl (StHeaderVerificationFailure err), st)"
  using verify_object_reject[OF _ h bad] inv by (auto simp: addBlock_headers_def store_inv_def)

lemma undo_headers_ok:
  assumes inv: "store_inv contents st (hs @ [b])" and ne: "hs \<noteq> []"
  shows "\<exists>st'. undoLatestBlock_headers R st = (Inr (length hs - 1), st') \<and> store_inv contents st' hs"
proof -
  let ?n = "headerRecSz st" and ?k = "length hs - 1"
  have k: "Suc ?k = length hs" using ne by simp
  have ver: "headerVerifier st = verifier_of (hs @ [b])" and chain: "chain_ok (hs @ [b])" using inv by (simp_all add: store_inv_def)
  have hb: "header_bytes b" using chain_ok_member[OF chain, of b] by simp
  have rd: "headerForHeight_nolock R st ?k = (Some (last hs), [])"
    using k headerForHeight_nolock_ok[OF inv, of ?k] ne by (auto simp: nth_append last_conv_nth)
  have nk: "nat (int (length hs) - 1) = ?k" using ne by (simp add: nat_diff_distrib')
  have "v_prevHeight (headerVerifier st) = int (length hs)" "v_prev (headerVerifier st) = b"
    using ver by (simp_all add: verifier_of_def)
  then have prev: "undo_prevHeader R st = Inr (?k, last hs)"
    using header_bytes_size[OF hb] ne unfolding undo_prevHeader_def lastHeaderProcessed_def
    by (simp add: nk rd[unfolded One_nat_def] Let_def)
  have v: "verifier_reset (?k + 1) (last hs) (headerVerifier st) = verifier_of hs"
    using ver ne by (simp add: verifier_reset_def verifier_of_def)
  have repr: "dra_repr (contents (hs_db st)) (headersDRA st) (map (pad ?n) (hs @ [b]))" using inv by (simp add: store_inv_def)
  obtain c where c: "dra_truncate R (hs_db st) (length hs) (beginBatchWrite (headersDRA st) []) = (Inr (length hs), c)"
    "ctx_inv (contents (hs_db st)) c (map (pad ?n) hs)" "recSz (c_d c) = recSz (headersDRA st)"
    using truncate_ok[OF repr, of "length hs"] by auto
  have nr: "nRecs (c_d c) = length hs" using c(2) by (simp add: ctx_inv_def Let_def dra_wf_def)
  have repr': "dra_repr (contents (db_Write R (hs_db st) (endBatchWrite c))) (c_d c) (map (pad ?n) hs)"
    using end_repr[OF c(2)] by (simp add: contents_Write)
  let ?a = "if blake2bActivationHeightCache st \<ge> 0 \<and> blake2bActivationHeightCache st > int ?k then kNoBlake2bHeightCached
    else blake2bActivationHeightCache st"
  have del: "deleteHeadersPastHeight R (hs_db st) ?k (blake2bActivationHeightCache st) ([], headersDRA st) = (Inr (endBatchWrite c, c_d c), ?a)"
    using c(1) nr k unfolding deleteHeadersPastHeight_def Let_def by simp
  have act: "activation_cached ?a hs" using inv unfolding store_inv_def by (intro activation_cached_butlast[OF _ ne]) blast
  obtain mc where mc: "cache_truncate (length hs) (merkleCache st) = (Inr (), mc)"
    "c_initialized mc \<longrightarrow> cache_inv sha256d (map hash_of hs) mc"
  proof (cases "c_initialized (merkleCache st)")
    case True
    then have "cache_inv sha256d (map hash_of (hs @ [b])) (merkleCache st)" using inv by (simp add: store_inv_def)
    from header_source.truncate_ok[OF helper_source[OF inv] this, of "length hs" "map hash_of hs"] ne that
    show ?thesis by auto
  next
    case False
    then show ?thesis using that by (simp add: cache_truncate_def)
  qed
  let ?st = "st\<lparr>headerVerifier := verifier_of hs, blake2bActivationHeightCache := ?a, headersDRA := c_d c,
      merkleCache := mc, hs_db := db_Write R (hs_db st) (endBatchWrite c)\<rparr>"
  have "undoLatestBlock_headers R st = (Inr ?k, ?st)"
    unfolding undoLatestBlock_headers_def prev using v del mc k by (simp add: Let_def)
  moreover have "store_inv contents ?st hs"
    using inv repr' c(3) act mc(2) ne fork_ok_butlast chain_ok_prefix[OF chain] by (auto simp: store_inv_def)
  ultimately show ?thesis by blast
qed

end

text \<open>A freshly constructed \<open>Storage\<close>, with its record array open on whatever chain the database holds.\<close>

definition fresh_store :: "('db \<Rightarrow> (bytes \<rightharpoonup> bytes)) \<Rightarrow> 'db header_store \<Rightarrow> bytes list \<Rightarrow> bool" where
  "fresh_store contents st hs \<longleftrightarrow>
     dra_repr (contents (hs_db st)) (headersDRA st) (map (pad (headerRecSz st)) hs) \<and>
     recSz (headersDRA st) = headerRecSz st \<and> headerVerifier st = HeaderVerifier_new \<and>
     blake2bActivationHeightCache st = kNoBlake2bHeightCached \<and> \<not> c_initialized (merkleCache st)"

context rocksdb_laws
begin

lemma initialize_hashes_ok:
  assumes "store_inv contents st hs" "hs \<noteq> []"
  shows "\<exists>c. initialize_nolock sha256d (map hash_of hs) (merkleCache st) = (Inr (), c) \<and>
    cache_inv sha256d (map hash_of hs) c"
proof -
  note src = helper_source[OF assms(1)]
  have l: "0 < length hs" "length hs \<le> 2 ^ 50" using assms by (simp_all add: store_inv_def MAX_HEADERS_def)
  then obtain c where c: "cache_initialize sha256d (merkleCacheHelperFunc R st) (length hs) (merkleCache st) = (Inr (), c)"
    "cache_inv sha256d (map hash_of hs) c" using header_source.initialize_ok[OF src, of "length hs"] by auto
  have "getHashes (merkleCacheHelperFunc R st) 0 (length hs) = Inr (map hash_of hs)"
    using header_source.getHashes_ok[OF src, of "length hs" 0] l by simp
  then show ?thesis using c by (simp add: cache_initialize_def)
qed

lemma store_inv_cache: "store_inv contents st hs \<Longrightarrow> cache_inv sha256d (map hash_of hs) c \<Longrightarrow> store_inv contents (st\<lparr>merkleCache := c\<rparr>) hs"
  by (simp add: store_inv_def)

lemma updateMerkleCache_ok:
  assumes "store_inv contents st hs" "height < length hs"
  shows "store_inv contents (updateMerkleCache R height st) hs \<and> (height \<noteq> 0 \<longrightarrow> c_initialized (merkleCache (updateMerkleCache R height st)))"
proof -
  have "height + 1 \<le> 2 ^ 50" using assms by (simp add: store_inv_def MAX_HEADERS_def)
  then obtain c where "cache_initialize sha256d (merkleCacheHelperFunc R st) (height + 1) (merkleCache st) = (Inr (), c)"
    "cache_inv sha256d (map hash_of hs) c"
    using header_source.initialize_ok[OF helper_source[OF assms(1)], of "height + 1" "merkleCache st"] assms(2) by auto
  then show ?thesis using assms store_inv_cache by (auto simp: updateMerkleCache_def cache_inv_def)
qed

lemma headerBranchAndRoot_ok:
  assumes inv: "store_inv contents st hs" and "c_initialized (merkleCache st)" "height \<le> cp_height" "cp_height < length hs"
    and "cp_height + 1 < c_length (merkleCache st) \<longrightarrow> 2 ^ c_depthHigher (merkleCache st) \<le> cp_height + 1 \<longrightarrow>
      (cp_height + 1) mod 2 ^ c_depthHigher (merkleCache st) \<noteq> 0"
  shows "\<exists>st'. headerBranchAndRoot R height cp_height st =
    (branchAndRoot sha256d (map hash_of (take (cp_height + 1) hs)) height None, st') \<and> store_inv contents st' hs"
proof -
  have c: "cache_inv sha256d (map hash_of hs) (merkleCache st)" using assms(1,2) by (simp add: store_inv_def)
  obtain c' where c': "cache_branchAndRoot sha256d (merkleCacheHelperFunc R st) (cp_height + 1) height (merkleCache st) =
      (branchAndRoot sha256d (take (cp_height + 1) (map hash_of hs)) height None, c')" "cache_inv sha256d (map hash_of hs) c'"
    using header_source.cache_branchAndRoot_ok[OF helper_source[OF inv] c, of "cp_height + 1" height] assms(3,4,5) by auto
  then show ?thesis using store_inv_cache[OF inv c'(2)] by (simp add: headerBranchAndRoot_def take_map)
qed

lemma loadCheck_ok:
  assumes fresh: "fresh_store contents st hs" and chain: "chain_ok hs" and fork: "fork_ok hs" and max: "length hs \<le> MAX_HEADERS"
    and sz: "\<forall>h \<in> set hs. length h \<le> headerRecSz st"
  shows "\<exists>st'. loadCheckHeadersInDB R st = Inr st' \<and> store_inv contents st' hs \<and> (hs \<noteq> [] \<longrightarrow> c_initialized (merkleCache st'))"
proof -
  define gh where "gh = (if hs = [] then genesisHash st else rev (hash_of (hd hs)))"
  define st1 where "st1 = st\<lparr>genesisHash := gh, headerVerifier := verifier_of hs\<rparr>"
  have nr: "nRecs (headersDRA st) = length hs" using fresh by (simp add: fresh_store_def dra_repr_def dra_wf_def)
  have hd: "hs \<noteq> [] \<Longrightarrow> HeaderPoWHashRev (hd hs) = Inr gh"
    using header_bytes_hash(2)[OF chain_ok_member[OF chain, of "hd hs"]] by (simp add: gh_def)
  have inv1: "store_inv contents st1 hs"
    using fresh chain fork max sz hd by (simp add: store_inv_def fresh_store_def st1_def activation_cached_def)
  have rd: "headersFromHeight_nolock_nocheck R st 0 n = headersFromHeight_nolock_nocheck R st1 0 n" for n
    by (simp add: headersFromHeight_nolock_nocheck_def st1_def)
  have ver: "verify_all hs (headerVerifier st) = Inr (map hash_of hs, verifier_of hs)"
    using verify_all_iff[of "[]" hs "map hash_of hs" "verifier_of hs"] chain fresh
    by (simp add: fresh_store_def verifier_of_def HeaderVerifier_new_def)
  have st1_Nil: "hs = [] \<Longrightarrow> st1 = st"
    using fresh by (simp add: st1_def gh_def fresh_store_def verifier_of_def HeaderVerifier_new_def)
  define st2 where "st2 = (if hs = [] then st1 else st1\<lparr>merkleCache := snd (initialize_nolock sha256d (map hash_of hs) (merkleCache st1))\<rparr>)"
  have ni: "\<not> c_initialized (merkleCache st1)" using fresh by (simp add: fresh_store_def st1_def)
  have inv2: "store_inv contents st2 hs" and init2: "hs \<noteq> [] \<Longrightarrow> c_initialized (merkleCache st2)"
    and ini: "hs \<noteq> [] \<Longrightarrow> \<exists>c. initialize_nolock sha256d (map hash_of hs) (merkleCache st1) = (Inr (), c)"
    using initialize_hashes_ok[OF inv1] inv1 store_inv_cache[OF inv1] by (auto simp: st2_def cache_inv_def)
  obtain st3 where st3: "blake2bActivationHeight R st2 = Inr (first_v2 hs, st3)" "store_inv contents st3 hs"
    using blake2bActivationHeight_ok[OF inv2] by blast
  have mc: "merkleCache st3 = merkleCache st2"
    using st3(1) by (auto simp: blake2bActivationHeight_def Let_def rbind_Inr_iff split: if_splits)
  have "loadCheckHeadersInDB R st = Inr st3"
  proof (cases "hs = []")
    case True
    then show ?thesis
      using nr st1_Nil st3(1) st2_def by (simp add: loadCheckHeadersInDB_def)
  next
    case False
    obtain c where c: "initialize_nolock sha256d (map hash_of hs) (merkleCache st1) = (Inr (), c)" using ini[OF False] by blast
    have "headersFromHeight_nolock_nocheck R st 0 (length hs) = (hs, [])"
      unfolding rd headersFromHeight_nolock_nocheck_ok[OF inv1] using False by simp
    then show ?thesis
      using False nr max hd[OF False] ver ni c st3(1)
      by (simp add: loadCheckHeadersInDB_def st1_def[symmetric] st2_def)
  qed
  then show ?thesis using st3(2) mc init2 by auto
qed

end

section \<open>Everything the server does to the header state\<close>

text \<open>
  The header layout switches at most once, after the genesis block. This is a rule of the network
  that the server relies on, not one that it checks; it is the only thing asked of the headers the
  node hands over besides being headers.
\<close>

definition follows_fork :: "'db header_store \<Rightarrow> CBlockHeader \<Rightarrow> bool" where
  "follows_fork st h \<longleftrightarrow>
     (let prev = v_prev (headerVerifier st) in (prev = [] \<longrightarrow> \<not> m_header_v2 h) \<and> (IsHeaderV2 prev \<longrightarrow> m_header_v2 h))"

inductive store_step :: "'db rocksdb \<Rightarrow> 'db header_store \<Rightarrow> 'db header_store \<Rightarrow> bool" for R where
  step_add: "header_ok h \<Longrightarrow> follows_fork st h \<Longrightarrow> nRecs (headersDRA st) < MAX_HEADERS \<Longrightarrow>
    addBlock_headers R h height st = (res, st') \<Longrightarrow> store_step R st st'"
| step_undo: "undoLatestBlock_headers R st = (res, st') \<Longrightarrow> store_step R st st'"
| step_activation: "blake2bActivationHeight R st = Inr (r, st') \<Longrightarrow> store_step R st st'"
| step_update: "height < nRecs (headersDRA st) \<Longrightarrow> store_step R st (updateMerkleCache R height st)"
| step_proof: "c_initialized (merkleCache st) \<Longrightarrow> height \<le> cp_height \<Longrightarrow> cp_height < nRecs (headersDRA st) \<Longrightarrow>
    (cp_height + 1) mod 2 ^ c_depthHigher (merkleCache st) \<noteq> 0 \<Longrightarrow>
    headerBranchAndRoot R height cp_height st = (res, st') \<Longrightarrow> store_step R st st'"

lemma follows_fork_snoc:
  assumes "store_inv contents st hs" "follows_fork st h"
  shows "fork_ok (hs @ [Serialize_CBlockHeader h])"
  using assms chain_last[of hs] IsHeaderV2_Serialize[of h "[]"]
  by (intro fork_ok_snoc) (auto simp: store_inv_def follows_fork_def verifier_of_def Let_def)

lemma store_inv_nRecs: "store_inv contents st hs \<Longrightarrow> nRecs (headersDRA st) = length hs"
  by (simp add: store_inv_def dra_repr_def dra_wf_def)

context rocksdb_laws
begin

lemma addBlock_headers_cases:
  assumes inv: "store_inv contents st hs" and h: "header_ok h" and ff: "follows_fork st h" and room: "length hs < MAX_HEADERS"
  shows "if height = length hs \<and> chain_ok (hs @ [Serialize_CBlockHeader h]) \<and> length (Serialize_CBlockHeader h) \<le> headerRecSz st
    then \<exists>st'. addBlock_headers R h height st = (Inr (), st') \<and> store_inv contents st' (hs @ [Serialize_CBlockHeader h])
    else \<exists>e. addBlock_headers R h height st = (Inl e, st)"
proof (cases "chain_ok (hs @ [Serialize_CBlockHeader h])")
  case True
  let ?b = "Serialize_CBlockHeader h"
  show ?thesis
  proof (cases "height = length hs \<and> length ?b \<le> headerRecSz st")
    case good: True
    then show ?thesis using addBlock_headers_ok[OF inv h True follows_fork_snoc[OF inv ff] _ room] True by auto
  next
    case bad: False
    have "verify_object h (headerVerifier st) = Inr (Inr (verifier_of (hs @ [?b])))"
      using inv True verify_object_iff[OF _ h] by (simp add: store_inv_def)
    moreover have "\<exists>e. appendHeader (headerRecSz st) ?b height ([], headersDRA st) = Inl e"
      using bad store_inv_nRecs[OF inv] by (auto simp: appendHeader_def)
    ultimately show ?thesis
      using bad by (auto simp: addBlock_headers_def addBlock_commit_def lastHeaderProcessed_def verifier_of_def)
  qed
next
  case False
  then show ?thesis using addBlock_headers_reject[OF inv h False, of height] by auto
qed

lemma store_step_inv:
  assumes "store_step R st st'" "store_inv contents st hs"
  shows "\<exists>hs'. store_inv contents st' hs'"
  using assms(1)
proof (cases rule: store_step.cases)
  case (step_add h height res)
  then show ?thesis
    using addBlock_headers_cases[OF assms(2), of h height] store_inv_nRecs[OF assms(2)] assms(2)
    by (auto split: if_splits)
next
  case (step_undo res)
  show ?thesis
  proof (cases "length hs > 1")
    case True
    then have "hs \<noteq> []" "butlast hs \<noteq> []" by (cases hs rule: rev_cases; simp)+
    then show ?thesis using undo_headers_ok[of st "butlast hs" "last hs"] assms(2) step_undo by auto
  next
    case False
    then have "st' = st"
      using assms(2) step_undo by (auto simp: undoLatestBlock_headers_def undo_prevHeader_def lastHeaderProcessed_def store_inv_def verifier_of_def)
    then show ?thesis using assms(2) by blast
  qed
next
  case (step_activation r)
  then show ?thesis using blake2bActivationHeight_ok[OF assms(2)] by auto
next
  case (step_update height)
  then show ?thesis using updateMerkleCache_ok[OF assms(2)] store_inv_nRecs[OF assms(2)] by auto
next
  case (step_proof height cp_height res)
  then show ?thesis using headerBranchAndRoot_ok[OF assms(2)] store_inv_nRecs[OF assms(2)] by fastforce
qed

lemma store_steps_inv:
  assumes "(store_step R)\<^sup>*\<^sup>* st st'" "store_inv contents st hs"
  shows "\<exists>hs'. store_inv contents st' hs'"
  using assms by (induction arbitrary: hs rule: converse_rtranclp_induct) (auto dest: store_step_inv)

end

section \<open>Properties\<close>

text \<open>The verifier accepts a list of raw headers from its initial state exactly when every one is
  well-formed, not null and names the proof-of-work hash of its predecessor (SHA-256d or BLAKE2b,
  whichever that one uses); it then holds the last header and its height.\<close>

lemma header_verifier_accepts_chains:
  "verify_all hs HeaderVerifier_new = Inr (hashes, v) \<longleftrightarrow> chain_ok hs \<and> v = verifier_of hs \<and> hashes = map hash_of hs"
  using verify_all_iff[of "[]" hs hashes v] by (simp add: verifier_of_def HeaderVerifier_new_def)

definition demo_header :: CBlockHeader where
  "demo_header = CBlockHeader_new\<lparr>nBits := 1\<rparr>"

lemma demo_header_ok: "header_ok demo_header" "nBits demo_header = 1" "\<not> m_header_v2 demo_header"
  "length (Serialize_CBlockHeader demo_header) = 80" "\<not> IsHeaderV2 (Serialize_CBlockHeader demo_header)"
proof -
  show h: "header_ok demo_header"
    by (simp add: demo_header_def header_ok_def CBlockHeader_new_def header_SetNull_def ClearV2Fields_def blob_null_def)
  show "nBits demo_header = 1" by (simp add: demo_header_def)
  show v: "\<not> m_header_v2 demo_header" by (simp add: demo_header_def CBlockHeader_new_def header_SetNull_def)
  show "length (Serialize_CBlockHeader demo_header) = 80" using length_Serialize_CBlockHeader[OF h] v by simp
  show "\<not> IsHeaderV2 (Serialize_CBlockHeader demo_header)" using IsHeaderV2_Serialize[of demo_header "[]"] v by simp
qed

definition demo_child :: CBlockHeader where
  "demo_child = demo_header\<lparr>hashPrevBlock := hash_of (Serialize_CBlockHeader demo_header)\<rparr>"

lemma demo_child_ok: "header_ok demo_child" "\<not> m_header_v2 demo_child" "length (Serialize_CBlockHeader demo_child) = 80"
  "chain_ok [Serialize_CBlockHeader demo_header, Serialize_CBlockHeader demo_child]"
proof -
  have hb: "header_bytes (Serialize_CBlockHeader demo_header)" using demo_header_ok(1) by (auto simp: header_bytes_def)
  show h: "header_ok demo_child" using demo_header_ok(1) header_bytes_hash(3)[OF hb]
    by (simp add: demo_child_def header_ok_def demo_header_def CBlockHeader_new_def header_SetNull_def ClearV2Fields_def)
  show v: "\<not> m_header_v2 demo_child" using demo_header_ok(3) by (simp add: demo_child_def)
  show "length (Serialize_CBlockHeader demo_child) = 80" using length_Serialize_CBlockHeader[OF h] v by simp
  show "chain_ok [Serialize_CBlockHeader demo_header, Serialize_CBlockHeader demo_child]"
    using chain_ok_snoc[of "[Serialize_CBlockHeader demo_header]" "Serialize_CBlockHeader demo_child"]
      chain_ok_snoc[of "[]" "Serialize_CBlockHeader demo_header"] demo_header_ok h header_bytes_hash(1)[OF hb]
    by (auto simp: demo_child_def)
qed

definition empty_store :: "'db \<Rightarrow> DBRecordArray \<Rightarrow> 'db header_store" where
  "empty_store db d = \<lparr> hs_db = db, headersDRA = d, headerRecSz = 164, headerVerifier = HeaderVerifier_new,
     blake2bActivationHeightCache = kNoBlake2bHeightCached, merkleCache = cache_new, genesisHash = [] \<rparr>"

lemma demo_store: "\<exists>db d. fresh_store fmlookup (empty_store db d) [] \<and> store_inv fmlookup (empty_store db d) []"
proof -
  have "has_single_bit (unat demo_pot)"
    using popcount_pow2[of 1] by (simp add: has_single_bit_def demo_pot_def)
  moreover have "fmlookup fmempty = (Map.empty :: bytes \<rightharpoonup> bytes)" by (rule ext) simp
  ultimately obtain db d where d: "dra_repr (fmlookup db) d []" "recSz d = 164"
    using fm.create_ok[of fmempty demo_pot 164 7] by (auto simp: demo_pot_def)
  then show ?thesis
    by (intro exI[of _ db] exI[of _ d])
      (simp add: fresh_store_def store_inv_def empty_store_def cache_new_def verifier_of_def HeaderVerifier_new_def fork_ok_def activation_cached_def)
qed

lemma demo_follows: "follows_fork (empty_store db d) demo_header"
  using demo_header_ok(3) by (simp add: follows_fork_def empty_store_def HeaderVerifier_new_def IsHeaderV2_def)

text \<open>Adding a block's header. From any consistent header state, on a database that meets RocksDB's
  documented behaviour, a header of the next height that links to the tip and fits the record size
  is stored and leaves a consistent state with that header at the end: rows, verifier, activation
  height, merkle cache and genesis hash. Any other header is refused and nothing changes.\<close>

lemma add_block_header:
  assumes "rocksdb_laws R contents" and "store_inv contents st hs" and "header_ok h" and "follows_fork st h"
    and "length hs < MAX_HEADERS"
  shows "if height = length hs \<and> chain_ok (hs @ [Serialize_CBlockHeader h]) \<and> length (Serialize_CBlockHeader h) \<le> headerRecSz st
    then \<exists>st'. addBlock_headers R h height st = (Inr (), st') \<and> store_inv contents st' (hs @ [Serialize_CBlockHeader h])
    else \<exists>e. addBlock_headers R h height st = (Inl e, st)"
  by (rule rocksdb_laws.addBlock_headers_cases[OF assms])

lemma demo_two: "\<exists>st. store_inv fmlookup (st :: (bytes, bytes) fmap header_store) [Serialize_CBlockHeader demo_header, Serialize_CBlockHeader demo_child]"
proof -
  let ?a = "Serialize_CBlockHeader demo_header" and ?b = "Serialize_CBlockHeader demo_child"
  obtain db d where s: "store_inv fmlookup (empty_store db d) []" using demo_store by blast
  have ca: "chain_ok ([] @ [?a])" using chain_ok_prefix[of "[?a]"] demo_child_ok(4) by simp
  have n: "length [] < MAX_HEADERS" "length [?a] < MAX_HEADERS" by (simp_all add: MAX_HEADERS_def)
  obtain st' where st': "addBlock_headers fm_rocksdb demo_header (length []) (empty_store db d) = (Inr (), st')" "store_inv fmlookup st' ([] @ [?a])"
    using fm.addBlock_headers_cases[OF s demo_header_ok(1) demo_follows n(1), of "length []"] ca demo_header_ok(4)
    by (auto simp: empty_store_def)
  have rsz: "headerRecSz st' = 164" using st'(1)
    by (auto simp: addBlock_headers_def addBlock_commit_def empty_store_def Let_def split: sum.splits if_splits)
  have "follows_fork st' demo_child"
    using st'(2) demo_header_ok demo_child_ok by (simp add: follows_fork_def store_inv_def verifier_of_def)
  from fm.addBlock_headers_cases[OF st'(2)[unfolded append_Nil] demo_child_ok(1) this n(2), of 1] demo_child_ok(3,4) rsz
  show ?thesis by auto
qed

text \<open>Undoing the latest block. From a consistent state with at least two headers, the last header is
  removed and the state is again consistent: the verifier holds the previous header, the merkle
  cache is cut back, and an activation height that lay in the removed block is forgotten.\<close>

lemma undo_block_header:
  assumes "rocksdb_laws R contents" and "store_inv contents st (hs @ [b])" and "hs \<noteq> []"
  shows "\<exists>st'. undoLatestBlock_headers R st = (Inr (length hs - 1), st') \<and> store_inv contents st' hs"
  by (rule rocksdb_laws.undo_headers_ok[OF assms])

text \<open>C17: Every state the server can reach from a consistent one by adding and undoing blocks (failed
  attempts included), looking up the activation height, initialising the merkle cache and serving
  header proofs is consistent with some chain of headers.\<close>

theorem header_state_invariant:
  assumes "rocksdb_laws R contents" and "store_inv contents st hs" and "(store_step R)\<^sup>*\<^sup>* st st'"
  shows "\<exists>hs'. store_inv contents st' hs'"
  using rocksdb_laws.store_steps_inv[OF assms(1,3,2)] .

theorem header_state_invariant_witness:
  "\<exists>db d st' hs'. store_step fm_rocksdb (empty_store db d) st' \<and> store_inv fmlookup st' hs'"
proof -
  obtain db d where s: "store_inv fmlookup (empty_store db d) []" using demo_store by blast
  obtain res st' where a: "addBlock_headers fm_rocksdb demo_header 0 (empty_store db d) = (res, st')" by fastforce
  have "nRecs d = 0" using store_inv_nRecs[OF s] by (simp add: empty_store_def)
  then have step: "store_step fm_rocksdb (empty_store db d) st'"
    by (intro step_add[OF demo_header_ok(1) demo_follows _ a]) (simp add: empty_store_def MAX_HEADERS_def)
  then show ?thesis using header_state_invariant[OF fm.rocksdb_laws_axioms s r_into_rtranclp[of "store_step fm_rocksdb", OF step]] by blast
qed

text \<open>What clients read. In a consistent state the tip, any header by height with its hash, and any
  range of headers are exactly those of the chain, unpadded; out-of-range requests give an error.\<close>

lemma header_reads:
  assumes "rocksdb_laws R contents" and "store_inv contents st hs"
  shows "latestTip st = Inr (if hs = [] then (- 1, [], []) else (int (length hs) - 1, rev (hash_of (last hs)), last hs)) \<and>
    headerForHeight R st True height =
      Inr (if 0 \<le> sint height \<and> sint height < int (length hs) then (Some (hs ! unat height), [], rev (hash_of (hs ! unat height)))
           else (None, ''Height is out of range'', [])) \<and>
    fst (headersFromHeight_nolock_nocheck R st start count) = take count (drop start hs)"
  using latestTip_ok[OF assms(2)] rocksdb_laws.headerForHeight_ok(1)[OF assms] rocksdb_laws.headersFromHeight_nolock_nocheck_ok[OF assms]
  by auto

text \<open>C18: The activation height returned, whether found by binary search over the stored headers or taken
  from the cache that blocks extend and undos reset, is the height of the first v2 header, and none
  exactly when the chain has none.\<close>

theorem activation_height_correct:
  assumes "rocksdb_laws R contents" and "store_inv contents st hs"
  shows "\<exists>st'. blake2bActivationHeight R st = Inr (first_v2 hs, st') \<and> store_inv contents st' hs"
  by (rule rocksdb_laws.blake2bActivationHeight_ok[OF assms])

theorem activation_height_correct_witness:
  "\<exists>st st'. blake2bActivationHeight fm_rocksdb (st :: (bytes, bytes) fmap header_store) = Inr (first_v2 [Serialize_CBlockHeader demo_header, Serialize_CBlockHeader demo_child], st')"
proof -
  obtain st where st: "store_inv fmlookup (st :: (bytes, bytes) fmap header_store) [Serialize_CBlockHeader demo_header, Serialize_CBlockHeader demo_child]"
    using demo_two by auto
  show ?thesis using activation_height_correct[OF fm.rocksdb_laws_axioms st] by blast
qed

text \<open>C20: Startup. Loading a database whose header rows hold a linked chain succeeds and leaves a consistent
  state, with the merkle cache initialised from all headers.\<close>

theorem load_headers_correct:
  assumes "rocksdb_laws R contents" and "fresh_store contents st hs" and "chain_ok hs" and "fork_ok hs" and "length hs \<le> MAX_HEADERS"
    and "\<forall>h \<in> set hs. length h \<le> headerRecSz st"
  shows "\<exists>st'. loadCheckHeadersInDB R st = Inr st' \<and> store_inv contents st' hs \<and> (hs \<noteq> [] \<longrightarrow> c_initialized (merkleCache st'))"
  by (rule rocksdb_laws.loadCheck_ok[OF assms])

theorem load_headers_correct_witness:
  "\<exists>st st'. loadCheckHeadersInDB fm_rocksdb (st :: (bytes, bytes) fmap header_store) = Inr st' \<and> headerVerifier st = HeaderVerifier_new \<and>
     store_inv fmlookup st' [Serialize_CBlockHeader demo_header, Serialize_CBlockHeader demo_child] \<and> c_initialized (merkleCache st')"
proof -
  let ?hs = "[Serialize_CBlockHeader demo_header, Serialize_CBlockHeader demo_child]"
  obtain st0 where s: "store_inv fmlookup (st0 :: (bytes, bytes) fmap header_store) ?hs" using demo_two by auto
  let ?st = "st0\<lparr>headerVerifier := HeaderVerifier_new, blake2bActivationHeightCache := kNoBlake2bHeightCached,
     merkleCache := (merkleCache st0)\<lparr>c_initialized := False\<rparr>\<rparr>"
  have f: "fresh_store fmlookup ?st ?hs" using s by (simp add: fresh_store_def store_inv_def)
  have h: "chain_ok ?hs" "fork_ok ?hs" "length ?hs \<le> MAX_HEADERS" "\<forall>h \<in> set ?hs. length h \<le> headerRecSz ?st"
    using s by (simp_all add: store_inv_def)
  obtain st' where "loadCheckHeadersInDB fm_rocksdb ?st = Inr st'" "store_inv fmlookup st' ?hs" "c_initialized (merkleCache st')"
    using load_headers_correct[OF fm.rocksdb_laws_axioms f h] by auto
  then show ?thesis by (intro exI[of _ ?st] exI[of _ st']) simp
qed

text \<open>C19: Header proofs. For a checkpoint height the chain has (and whose length does not hit the aligned
  lengths the cache cannot serve), the proof returned to the client is the merkle branch and root
  over the proof-of-work hashes of all headers up to the checkpoint.\<close>

theorem header_proof_correct:
  assumes "rocksdb_laws R contents" and "store_inv contents st hs" and "c_initialized (merkleCache st)"
    and "height \<le> cp_height" and "cp_height < length hs"
    and "cp_height + 1 < c_length (merkleCache st) \<longrightarrow> 2 ^ c_depthHigher (merkleCache st) \<le> cp_height + 1 \<longrightarrow>
      (cp_height + 1) mod 2 ^ c_depthHigher (merkleCache st) \<noteq> 0"
  shows "\<exists>st'. headerBranchAndRoot R height cp_height st =
    (branchAndRoot sha256d (map hash_of (take (cp_height + 1) hs)) height None, st') \<and> store_inv contents st' hs"
  by (rule rocksdb_laws.headerBranchAndRoot_ok[OF assms])

theorem header_proof_correct_witness:
  "\<exists>st :: (bytes, bytes) fmap header_store. fst (headerBranchAndRoot fm_rocksdb 0 1 st) =
     branchAndRoot sha256d (map hash_of [Serialize_CBlockHeader demo_header, Serialize_CBlockHeader demo_child]) 0 None"
proof -
  let ?hs = "[Serialize_CBlockHeader demo_header, Serialize_CBlockHeader demo_child]"
  obtain st0 where "store_inv fmlookup (st0 :: (bytes, bytes) fmap header_store) ?hs" using demo_two by auto
  then obtain c where c: "cache_inv sha256d (map hash_of ?hs) c" "c_length c = 2"
    using header_source.initialize_ok[OF fm.helper_source, of st0 ?hs 2] by auto
  have st: "store_inv fmlookup (st0\<lparr>merkleCache := c\<rparr>) ?hs"
    using fm.store_inv_cache[OF \<open>store_inv fmlookup st0 ?hs\<close> c(1)] .
  show ?thesis
    using header_proof_correct[OF fm.rocksdb_laws_axioms st, of 0 1] c
    by (intro exI[of _ "st0\<lparr>merkleCache := c\<rparr>"]) (auto simp: cache_inv_def)
qed

end
