(* ===== verification/Streams.thy ===== *)
theory Streams
  imports Serialization
begin

text \<open>
  \<open>bitcoin/streams.h\<close>: the streams the serialisers run over. The contract of a stream that is read
  is the locale \<open>byte_source\<close>: it has some bytes left, and a read takes them from the front or fails.
  The contract of one that is written is \<open>byte_sink\<close>: a write appends. Buffering, obfuscation and the
  bit streams are proved against these contracts. Sizes are unbounded where the source uses
  \<open>size_t\<close>; \<open>CDataStream\<close> keeps its read position in 32 bits, and so does the model.
\<close>

section \<open>Exceptions\<close>

text \<open>\<open>OutOfBounds\<close> is a \<open>memcpy\<close> that leaves its buffer: undefined behaviour in the source.\<close>

datatype stream_error = Failure string | OutOfRange string | OutOfBounds

section \<open>Obfuscation\<close>

fun xor_loop :: "bytes \<Rightarrow> bytes \<Rightarrow> nat \<Rightarrow> bytes" where
  "xor_loop [] key key_offset = []"
| "xor_loop (b # write) key key_offset =
     (b XOR key ! key_offset) # xor_loop write key (if key_offset + 1 = length key then 0 else key_offset + 1)"

definition util_Xor :: "bytes \<Rightarrow> bytes \<Rightarrow> nat \<Rightarrow> bytes" where
  "util_Xor write key key_offset = (if key = [] then write else xor_loop write key (key_offset mod length key))"

section \<open>Byte vectors\<close>

record VectorWriter =
  vw_data :: bytes
  vw_pos :: nat

definition resize :: "nat \<Rightarrow> bytes \<Rightarrow> bytes" where
  "resize n v = take n v @ replicate (n - length v) 0"

definition overwrite :: "nat \<Rightarrow> bytes \<Rightarrow> bytes \<Rightarrow> bytes" where
  "overwrite pos new v = take pos v @ new @ drop (pos + length new) v"

definition VectorWriter_new :: "bytes \<Rightarrow> nat \<Rightarrow> VectorWriter" where
  "VectorWriter_new dataIn nPosIn =
     \<lparr> vw_data = (if nPosIn > length dataIn then resize nPosIn dataIn else dataIn), vw_pos = nPosIn \<rparr>"

definition VectorWriter_write :: "bytes \<Rightarrow> VectorWriter \<Rightarrow> VectorWriter" where
  "VectorWriter_write pch w =
     (let nSize = length pch;
          nOverwrite = min nSize (length (vw_data w) - vw_pos w);
          w = (if nOverwrite \<noteq> 0 then
                 w\<lparr>vw_data := overwrite (vw_pos w) (take nOverwrite pch) (vw_data w), vw_pos := vw_pos w + nOverwrite\<rparr>
               else w)
      in if nOverwrite < nSize then
           let nLeftOver = nSize - nOverwrite;
               v = resize (vw_pos w + nLeftOver) (vw_data w)
           in w\<lparr>vw_data := overwrite (vw_pos w) (drop nOverwrite pch) v, vw_pos := vw_pos w + nLeftOver\<rparr>
         else w)"

definition VectorWriter_seek :: "nat \<Rightarrow> VectorWriter \<Rightarrow> VectorWriter" where
  "VectorWriter_seek nSize w =
     (let p = vw_pos w + nSize
      in w\<lparr>vw_pos := p, vw_data := (if p > length (vw_data w) then resize p (vw_data w) else vw_data w)\<rparr>)"

record VectorReader =
  vr_data :: bytes
  vr_pos :: nat

definition VectorReader_new :: "bytes \<Rightarrow> nat \<Rightarrow> stream_error + VectorReader" where
  "VectorReader_new data pos =
     (if pos > length data then Inl (Failure ''VectorReader(...): end of data (m_pos > m_data.size())'')
      else Inr \<lparr> vr_data = data, vr_pos = pos \<rparr>)"

definition VectorReader_size :: "VectorReader \<Rightarrow> nat" where
  "VectorReader_size r = length (vr_data r) - vr_pos r"

definition VectorReader_empty :: "VectorReader \<Rightarrow> bool" where
  "VectorReader_empty r \<longleftrightarrow> length (vr_data r) = vr_pos r"

definition VectorReader_read :: "nat \<Rightarrow> VectorReader \<Rightarrow> stream_error + bytes \<times> VectorReader" where
  "VectorReader_read n r =
     (if n = 0 then Inr ([], r)
      else
        let pos_next = vr_pos r + n
        in if pos_next > length (vr_data r) then Inl (Failure ''VectorReader::read(): end of data'')
           else Inr (take n (drop (vr_pos r) (vr_data r)), r\<lparr>vr_pos := pos_next\<rparr>))"

definition VectorReader_seek :: "int \<Rightarrow> VectorReader \<Rightarrow> stream_error + VectorReader" where
  "VectorReader_seek new_pos r =
     (if new_pos < 0 then Inl (Failure ''Cannot seek to a negative offset'') else Inr (r\<lparr>vr_pos := nat new_pos\<rparr>))"

section \<open>CDataStream\<close>

record CDataStream =
  vch :: bytes
  nReadPos :: u32

abbreviation ds_pos :: "CDataStream \<Rightarrow> nat" where "ds_pos s \<equiv> unat (nReadPos s)"

definition CDataStream_new :: "bytes \<Rightarrow> CDataStream" where
  "CDataStream_new v = \<lparr> vch = v, nReadPos = 0 \<rparr>"

definition ds_bytes :: "CDataStream \<Rightarrow> bytes" where
  "ds_bytes s = drop (ds_pos s) (vch s)"

definition ds_concat :: "CDataStream \<Rightarrow> CDataStream \<Rightarrow> CDataStream" where
  "ds_concat a b = a\<lparr>vch := vch a @ ds_bytes b\<rparr>"

definition ds_size :: "CDataStream \<Rightarrow> nat" where
  "ds_size s = length (vch s) - ds_pos s"

definition ds_empty :: "CDataStream \<Rightarrow> bool" where
  "ds_empty s \<longleftrightarrow> length (vch s) = ds_pos s"

definition ds_resize :: "nat \<Rightarrow> CDataStream \<Rightarrow> CDataStream" where
  "ds_resize n s = s\<lparr>vch := resize (n + ds_pos s) (vch s)\<rparr>"

definition ds_clear :: "CDataStream \<Rightarrow> CDataStream" where
  "ds_clear s = s\<lparr>vch := [], nReadPos := 0\<rparr>"

text \<open>Iterators are positions in \<open>vch\<close>.\<close>

definition ds_insert :: "nat \<Rightarrow> bytes \<Rightarrow> CDataStream \<Rightarrow> CDataStream" where
  "ds_insert it new s =
     (if new = [] then s
      else if it = ds_pos s \<and> (of_nat (length new) :: u32) \<le> nReadPos s then
        let s = s\<lparr>nReadPos := nReadPos s - of_nat (length new)\<rparr>
        in s\<lparr>vch := overwrite (ds_pos s) new (vch s)\<rparr>
      else s\<lparr>vch := take it (vch s) @ new @ drop it (vch s)\<rparr>)"

definition ds_erase :: "nat \<Rightarrow> nat \<Rightarrow> CDataStream \<Rightarrow> CDataStream" where
  "ds_erase first until s =
     (if first = ds_pos s then
        if until = length (vch s) then s\<lparr>nReadPos := 0, vch := []\<rparr> else s\<lparr>nReadPos := of_nat until\<rparr>
      else s\<lparr>vch := take first (vch s) @ drop until (vch s)\<rparr>)"

definition ds_erase1 :: "nat \<Rightarrow> CDataStream \<Rightarrow> CDataStream" where
  "ds_erase1 it s =
     (if it = ds_pos s then
        let s = s\<lparr>nReadPos := nReadPos s + 1\<rparr>
        in if ds_pos s \<ge> length (vch s) then s\<lparr>nReadPos := 0, vch := []\<rparr> else s
      else s\<lparr>vch := take it (vch s) @ drop (it + 1) (vch s)\<rparr>)"

definition ds_Compact :: "CDataStream \<Rightarrow> CDataStream" where
  "ds_Compact s = s\<lparr>vch := drop (ds_pos s) (vch s), nReadPos := 0\<rparr>"

definition ds_Rewind :: "nat \<Rightarrow> CDataStream \<Rightarrow> bool \<times> CDataStream" where
  "ds_Rewind n s = (if n > ds_pos s then (False, s) else (True, s\<lparr>nReadPos := nReadPos s - of_nat n\<rparr>))"

definition ds_read :: "nat \<Rightarrow> CDataStream \<Rightarrow> stream_error + bytes \<times> CDataStream" where
  "ds_read nSize s =
     (if nSize = 0 then Inr ([], s)
      else
        let nReadPosNext = (of_nat (ds_pos s + nSize) :: u32)
        in if unat nReadPosNext > length (vch s) then Inl (Failure ''CDataStream::read(): end of data'')
           else if ds_pos s + nSize > length (vch s) then Inl OutOfBounds
           else
             let out = take nSize (drop (ds_pos s) (vch s))
             in if unat nReadPosNext = length (vch s) then Inr (out, s\<lparr>nReadPos := 0, vch := []\<rparr>)
                else Inr (out, s\<lparr>nReadPos := nReadPosNext\<rparr>))"

definition ds_ignore :: "int \<Rightarrow> CDataStream \<Rightarrow> stream_error + CDataStream" where
  "ds_ignore nSize s =
     (if nSize < 0 then Inl (Failure ''CDataStream::ignore(): nSize negative'')
      else
        let nReadPosNext = nReadPos s + of_int nSize
        in if unat nReadPosNext \<ge> length (vch s) then
             if unat nReadPosNext > length (vch s) then Inl (Failure ''CDataStream::ignore(): end of data'')
             else Inr (s\<lparr>nReadPos := 0, vch := []\<rparr>)
           else Inr (s\<lparr>nReadPos := nReadPosNext\<rparr>))"

definition ds_write :: "bytes \<Rightarrow> CDataStream \<Rightarrow> CDataStream" where
  "ds_write pch s = s\<lparr>vch := vch s @ pch\<rparr>"

definition ds_Serialize :: "CDataStream \<Rightarrow> bytes" where
  "ds_Serialize s = vch s"

definition ds_GetAndClear :: "bytes \<Rightarrow> CDataStream \<Rightarrow> bytes \<times> CDataStream" where
  "ds_GetAndClear d s = (d @ ds_bytes s, ds_clear s)"

definition ds_Xor :: "bytes \<Rightarrow> CDataStream \<Rightarrow> CDataStream" where
  "ds_Xor key s = s\<lparr>vch := util_Xor (vch s) key 0\<rparr>"

section \<open>Bit streams\<close>

text \<open>The reader over the bytes its stream has left.\<close>

record BitStreamReader =
  br_in :: bytes
  br_buffer :: byte
  br_offset :: nat

definition BitStreamReader_new :: "bytes \<Rightarrow> BitStreamReader" where
  "BitStreamReader_new istream = \<lparr> br_in = istream, br_buffer = 0, br_offset = 8 \<rparr>"

definition br_refill :: "BitStreamReader \<Rightarrow> stream_error + BitStreamReader" where
  "br_refill r =
     (if br_offset r = 8 then
        case br_in r of
          [] \<Rightarrow> Inl (Failure ''end of data'')
        | b # rest \<Rightarrow> Inr (r\<lparr>br_in := rest, br_buffer := b, br_offset := 0\<rparr>)
      else Inr r)"

text \<open>The offset is below 8 after the refill, so every round takes at least one bit; the branch for
  none makes the recursion end on readers that do not exist.\<close>

function br_loop :: "nat \<Rightarrow> u64 \<Rightarrow> BitStreamReader \<Rightarrow> stream_error + u64 \<times> BitStreamReader" where
  "br_loop nbits data r =
     (if nbits > 0 then
        case br_refill r of
          Inl e \<Rightarrow> Inl e
        | Inr r \<Rightarrow>
            let bits = min (8 - br_offset r) nbits;
                data = push_bit bits data OR ucast (drop_bit (8 - bits) (push_bit (br_offset r) (br_buffer r)))
            in if bits = 0 then Inl OutOfBounds
               else br_loop (nbits - bits) data (r\<lparr>br_offset := br_offset r + bits\<rparr>)
      else Inr (data, r))"
  by pat_completeness auto
termination
  by (relation "measure (\<lambda>(nbits, data, r). nbits)") auto

declare br_loop.simps [simp del]

definition BitStreamReader_Read :: "int \<Rightarrow> BitStreamReader \<Rightarrow> stream_error + u64 \<times> BitStreamReader" where
  "BitStreamReader_Read nbits r =
     (if nbits < 0 \<or> nbits > 64 then Inl (OutOfRange ''nbits must be between 0 and 64'') else br_loop (nat nbits) 0 r)"

record BitStreamWriter =
  bw_out :: bytes
  bw_buffer :: byte
  bw_offset :: nat

definition BitStreamWriter_new :: "bytes \<Rightarrow> BitStreamWriter" where
  "BitStreamWriter_new ostream = \<lparr> bw_out = ostream, bw_buffer = 0, bw_offset = 0 \<rparr>"

definition bw_Flush :: "BitStreamWriter \<Rightarrow> BitStreamWriter" where
  "bw_Flush w = (if bw_offset w = 0 then w else w\<lparr>bw_out := bw_out w @ [bw_buffer w], bw_buffer := 0, bw_offset := 0\<rparr>)"

definition bw_step :: "u64 \<Rightarrow> nat \<Rightarrow> BitStreamWriter \<Rightarrow> BitStreamWriter" where
  "bw_step data nbits w =
     (let bits = min (8 - bw_offset w) nbits;
          w = w\<lparr>bw_buffer := bw_buffer w OR ucast (drop_bit (64 - 8 + bw_offset w) (push_bit (64 - nbits) data))\<rparr>;
          w = w\<lparr>bw_offset := bw_offset w + bits\<rparr>
      in if bw_offset w = 8 then bw_Flush w else w)"

text \<open>The offset is below 8 whenever the loop is entered, so every round writes at least one bit; a
  writer whose offset is 8 or more does not exist and is returned unchanged.\<close>

function bw_loop :: "u64 \<Rightarrow> nat \<Rightarrow> BitStreamWriter \<Rightarrow> BitStreamWriter" where
  "bw_loop data nbits w =
     (if nbits > 0 \<and> bw_offset w < 8 then bw_loop data (nbits - min (8 - bw_offset w) nbits) (bw_step data nbits w) else w)"
  by pat_completeness auto
termination
  by (relation "measure (\<lambda>(data, nbits, w). nbits)") auto

declare bw_loop.simps [simp del]

definition BitStreamWriter_Write :: "u64 \<Rightarrow> int \<Rightarrow> BitStreamWriter \<Rightarrow> stream_error + BitStreamWriter" where
  "BitStreamWriter_Write data nbits w =
     (if nbits < 0 \<or> nbits > 64 then Inl (OutOfRange ''nbits must be between 0 and 64'') else Inr (bw_loop data (nat nbits) w))"

section \<open>Files\<close>

text \<open>
  \<open>std::FILE\<close>: its bytes, the position, and how many bytes the device can hold. \<open>fread\<close> returns
  what is left up to the size asked for; \<open>fwrite\<close> overwrites and extends, and comes up short where
  the device is full.
\<close>

record FILE =
  f_data :: bytes
  f_pos :: nat
  f_cap :: nat

definition fread :: "nat \<Rightarrow> FILE \<Rightarrow> bytes \<times> FILE" where
  "fread n f = (let out = take n (drop (f_pos f) (f_data f)) in (out, f\<lparr>f_pos := f_pos f + length out\<rparr>))"

definition fwrite :: "bytes \<Rightarrow> FILE \<Rightarrow> nat \<times> FILE" where
  "fwrite src f =
     (let n = min (length src) (f_cap f - f_pos f)
      in (n, f\<lparr>f_data := overwrite (f_pos f) (take n src) (f_data f), f_pos := f_pos f + n\<rparr>))"

record CAutoFile =
  af_file :: "FILE option"
  xor_key :: bytes
  xor_offset :: nat

definition CAutoFile_new :: "FILE option \<Rightarrow> CAutoFile" where
  "CAutoFile_new filenew = \<lparr> af_file = filenew, xor_key = [], xor_offset = 0 \<rparr>"

definition af_fclose :: "CAutoFile \<Rightarrow> CAutoFile" where
  "af_fclose a = (if af_file a \<noteq> None then a\<lparr>af_file := None\<rparr> else a)"

definition af_release :: "CAutoFile \<Rightarrow> FILE option \<times> CAutoFile" where
  "af_release a = (af_file a, a\<lparr>af_file := None\<rparr>)"

definition af_IsNull :: "CAutoFile \<Rightarrow> bool" where
  "af_IsNull a \<longleftrightarrow> af_file a = None"

definition af_SetXor :: "bytes \<Rightarrow> CAutoFile \<Rightarrow> CAutoFile" where
  "af_SetXor data_xor a = a\<lparr>xor_key := data_xor\<rparr>"

definition detail_fread :: "nat \<Rightarrow> CAutoFile \<Rightarrow> stream_error + bytes \<times> CAutoFile" where
  "detail_fread n a =
     (case af_file a of
        None \<Rightarrow> Inl (Failure ''CAutoFile::detail_fread: file handle is nullptr'')
      | Some f \<Rightarrow>
          let (dst, f) = fread n f;
              ret = length dst;
              dst = (if xor_key a \<noteq> [] \<and> ret \<noteq> 0 then util_Xor dst (xor_key a) (xor_offset a) else dst)
          in Inr (dst, a\<lparr>af_file := Some f, xor_offset := xor_offset a + ret\<rparr>))"

text \<open>The only way \<open>fread\<close> comes up short here is the end of the file.\<close>

definition af_read :: "nat \<Rightarrow> CAutoFile \<Rightarrow> stream_error + bytes \<times> CAutoFile" where
  "af_read nSize a =
     (case detail_fread nSize a of
        Inl e \<Rightarrow> Inl e
      | Inr (dst, a) \<Rightarrow> if length dst \<noteq> nSize then Inl (Failure ''CAutoFile::read: end of file'') else Inr (dst, a))"

function af_ignore_loop :: "nat \<Rightarrow> FILE \<Rightarrow> nat \<Rightarrow> stream_error + FILE \<times> nat" where
  "af_ignore_loop nSize f off =
     (if nSize > 0 then
        let nNow = min nSize 4096; (dst, f) = fread nNow f
        in if length dst \<noteq> nNow then Inl (Failure ''CAutoFile::ignore: end of file'')
           else af_ignore_loop (nSize - nNow) f (off + nNow)
      else Inr (f, off))"
  by pat_completeness auto
termination
  by (relation "measure (\<lambda>(nSize, f, off). nSize)") auto

declare af_ignore_loop.simps [simp del]

definition af_ignore :: "nat \<Rightarrow> CAutoFile \<Rightarrow> stream_error + CAutoFile" where
  "af_ignore nSize a =
     (case af_file a of
        None \<Rightarrow> Inl (Failure ''CAutoFile::ignore: file handle is nullptr'')
      | Some f \<Rightarrow> rbind (af_ignore_loop nSize f (xor_offset a)) (\<lambda>(f, off). Inr (a\<lparr>af_file := Some f, xor_offset := off\<rparr>)))"

function af_write_loop :: "bytes \<Rightarrow> bytes \<Rightarrow> FILE \<Rightarrow> nat \<Rightarrow> stream_error + FILE \<times> nat" where
  "af_write_loop key src f off =
     (if src \<noteq> [] then
        let n = min (length src) 4096;
            buf_now = util_Xor (take n src) key off;
            (written, f) = fwrite buf_now f
        in if written \<noteq> n then Inl (Failure ''CAutoFile::write: XorFile::write: failed'')
           else af_write_loop key (drop n src) f (off + n)
      else Inr (f, off))"
  by pat_completeness auto
termination
  by (relation "measure (\<lambda>(key, src, f, off). length src)") auto

declare af_write_loop.simps [simp del]

definition af_write :: "bytes \<Rightarrow> CAutoFile \<Rightarrow> stream_error + CAutoFile" where
  "af_write pch a =
     (case af_file a of
        None \<Rightarrow> Inl (Failure ''CAutoFile::write: file handle is nullptr'')
      | Some f \<Rightarrow>
          if xor_key a = [] then
            let (written, f) = fwrite pch f
            in if written \<noteq> length pch then Inl (Failure ''CAutoFile::write: write failed'')
               else Inr (a\<lparr>af_file := Some f, xor_offset := xor_offset a + length pch\<rparr>)
          else
            rbind (af_write_loop (xor_key a) pch f (xor_offset a)) (\<lambda>(f, off). Inr (a\<lparr>af_file := Some f, xor_offset := off\<rparr>)))"

definition write_buffer :: "bytes \<Rightarrow> CAutoFile \<Rightarrow> stream_error + CAutoFile" where
  "write_buffer src a =
     (case af_file a of
        None \<Rightarrow> Inl (Failure ''CAutoFile::write_buffer: file handle is nullptr'')
      | Some f \<Rightarrow>
          let src = (if xor_key a \<noteq> [] then util_Xor src (xor_key a) (xor_offset a) else src);
              (written, f) = fwrite src f
          in if written \<noteq> length src then Inl (Failure ''CAutoFile::write_buffer: write failed'')
             else Inr (a\<lparr>af_file := Some f, xor_offset := xor_offset a + length src\<rparr>))"

section \<open>Buffering\<close>

text \<open>Over a stream of type \<open>'s\<close> whose \<open>detail_fread\<close> or \<open>write_buffer\<close> is an argument.\<close>

record 's BufferedReader =
  rd_src :: 's
  rd_buf :: bytes
  rd_pos :: nat

definition BufferedReader_new :: "'s \<Rightarrow> nat \<Rightarrow> 's BufferedReader" where
  "BufferedReader_new stream bsz = \<lparr> rd_src = stream, rd_buf = replicate bsz 0, rd_pos = bsz \<rparr>"

function BufferedReader_read ::
  "(nat \<Rightarrow> 's \<Rightarrow> stream_error + bytes \<times> 's) \<Rightarrow> nat \<Rightarrow> 's BufferedReader \<Rightarrow> stream_error + bytes \<times> 's BufferedReader" where
  "BufferedReader_read rd sz r =
     (if sz > 0 then
        let available = min sz (length (rd_buf r) - rd_pos r);
            out = take available (drop (rd_pos r) (rd_buf r));
            r = r\<lparr>rd_pos := rd_pos r + available\<rparr>;
            sz = sz - available
        in if sz > 0 then
             case rd (length (rd_buf r)) (rd_src r) of
               Inl e \<Rightarrow> Inl e
             | Inr (buf, src) \<Rightarrow>
                 if buf = [] then Inl (Failure ''BufferedFile::read: end of stream'')
                 else
                   rbind (BufferedReader_read rd sz (r\<lparr>rd_src := src, rd_buf := buf, rd_pos := 0\<rparr>))
                     (\<lambda>(rest, r). Inr (out @ rest, r))
           else Inr (out, r)
      else Inr ([], r))"
  by pat_completeness auto
termination
proof (relation "measure (\<lambda>(rd, sz, r). 2 * sz + (if rd_pos r < length (rd_buf r) then 0 else 1))", goal_cases)
  case (2 rd sz r available out r' sz' x buf src)
  then show ?case by (auto simp: Let_def split: if_splits)
qed simp

declare BufferedReader_read.simps [simp del]

record 's BufferedWriter =
  wr_dst :: 's
  wr_buf :: bytes
  wr_size :: nat

definition BufferedWriter_new :: "'s \<Rightarrow> nat \<Rightarrow> 's BufferedWriter" where
  "BufferedWriter_new stream bsz = \<lparr> wr_dst = stream, wr_buf = [], wr_size = bsz \<rparr>"

definition BufferedWriter_flush :: "(bytes \<Rightarrow> 's \<Rightarrow> stream_error + 's) \<Rightarrow> 's BufferedWriter \<Rightarrow> stream_error + 's BufferedWriter" where
  "BufferedWriter_flush wbuf w =
     rbind (if wr_buf w \<noteq> [] then wbuf (wr_buf w) (wr_dst w) else Inr (wr_dst w)) (\<lambda>dst. Inr (w\<lparr>wr_dst := dst, wr_buf := []\<rparr>))"

text \<open>\<open>wr_buf\<close> is the filled part of the buffer, the first \<open>m_buf_pos\<close> bytes.\<close>

function BufferedWriter_write ::
  "(bytes \<Rightarrow> 's \<Rightarrow> stream_error + 's) \<Rightarrow> bytes \<Rightarrow> 's BufferedWriter \<Rightarrow> stream_error + 's BufferedWriter" where
  "BufferedWriter_write wbuf src w =
     (let available = min (length src) (wr_size w - length (wr_buf w))
      in if available \<noteq> 0 then
           let w = w\<lparr>wr_buf := wr_buf w @ take available src\<rparr>
           in rbind (if length (wr_buf w) = wr_size w then BufferedWriter_flush wbuf w else Inr w)
                (\<lambda>w. BufferedWriter_write wbuf (drop available src) w)
         else Inr w)"
  by pat_completeness auto
termination
  by (relation "measure (\<lambda>(wbuf, src, w). length src)") auto

declare BufferedWriter_write.simps [simp del]

section \<open>The contracts\<close>

text \<open>
  \<open>remaining\<close> is what a stream has left to read. \<open>fread_source\<close> is the weaker contract of a stream
  that may return fewer bytes than asked for, but none only at its end.
\<close>

locale byte_source =
  fixes inv :: "'s \<Rightarrow> bool" and remaining :: "'s \<Rightarrow> bytes" and sread :: "nat \<Rightarrow> 's \<Rightarrow> stream_error + bytes \<times> 's"
  assumes read_ok: "inv s \<Longrightarrow> n \<le> length (remaining s) \<Longrightarrow>
      \<exists>s'. sread n s = Inr (take n (remaining s), s') \<and> remaining s' = drop n (remaining s) \<and> inv s'"
    and read_short: "inv s \<Longrightarrow> length (remaining s) < n \<Longrightarrow> \<exists>e. sread n s = Inl e"

locale fread_source =
  fixes inv :: "'s \<Rightarrow> bool" and remaining :: "'s \<Rightarrow> bytes" and rd :: "nat \<Rightarrow> 's \<Rightarrow> stream_error + bytes \<times> 's"
  assumes rd_ok: "inv s \<Longrightarrow> \<exists>k s'. rd n s = Inr (take k (remaining s), s') \<and> k \<le> n \<and> k \<le> length (remaining s) \<and>
      (k = 0 \<longrightarrow> n = 0 \<or> remaining s = []) \<and> remaining s' = drop k (remaining s) \<and> inv s'"

locale byte_sink =
  fixes inv :: "'s \<Rightarrow> bool" and written :: "'s \<Rightarrow> bytes" and swrite :: "bytes \<Rightarrow> 's \<Rightarrow> stream_error + 's"
  assumes write_ok: "inv s \<Longrightarrow> swrite bs s = Inr s' \<Longrightarrow> written s' = written s @ bs \<and> inv s'"

fun read_list :: "(nat \<Rightarrow> 's \<Rightarrow> stream_error + bytes \<times> 's) \<Rightarrow> nat list \<Rightarrow> 's \<Rightarrow> stream_error + bytes list \<times> 's" where
  "read_list sread [] s = Inr ([], s)"
| "read_list sread (n # ns) s =
     rbind (sread n s) (\<lambda>(b, s). rbind (read_list sread ns s) (\<lambda>(bs, s). Inr (b # bs, s)))"

fun write_list :: "(bytes \<Rightarrow> 's \<Rightarrow> stream_error + 's) \<Rightarrow> bytes list \<Rightarrow> 's \<Rightarrow> stream_error + 's" where
  "write_list swrite [] s = Inr s"
| "write_list swrite (b # bs) s = rbind (swrite b s) (write_list swrite bs)"

context byte_source
begin

lemma read_list_ok:
  "inv s \<Longrightarrow> remaining s = concat bs @ rest \<Longrightarrow>
     \<exists>s'. read_list sread (map length bs) s = Inr (bs, s') \<and> remaining s' = rest \<and> inv s'"
proof (induction bs arbitrary: s)
  case (Cons b bs)
  obtain s1 where s1: "sread (length b) s = Inr (b, s1)" "remaining s1 = concat bs @ rest" "inv s1"
    using read_ok[OF Cons.prems(1), of "length b"] Cons.prems(2) by auto
  then show ?case using Cons.IH[OF s1(3,2)] by auto
qed simp

end

context byte_sink
begin

lemma write_list_ok: "inv s \<Longrightarrow> write_list swrite bs s = Inr s' \<Longrightarrow> written s' = written s @ concat bs \<and> inv s'"
proof (induction bs arbitrary: s)
  case (Cons b bs)
  then obtain s1 where s1: "swrite b s = Inr s1" "write_list swrite bs s1 = Inr s'" by (cases "swrite b s") simp_all
  then show ?case using Cons.IH[of s1] write_ok[OF Cons.prems(1) s1(1)] by simp
qed simp

definition buf_inv :: "'s BufferedWriter \<Rightarrow> bool" where
  "buf_inv w \<longleftrightarrow> inv (wr_dst w) \<and> length (wr_buf w) < wr_size w"

lemma flush_ok:
  assumes "inv (wr_dst w)" "0 < wr_size w" "BufferedWriter_flush swrite w = Inr w'"
  shows "written (wr_dst w') = written (wr_dst w) @ wr_buf w \<and> wr_buf w' = [] \<and> wr_size w' = wr_size w \<and> inv (wr_dst w')"
proof (cases "wr_buf w = []")
  case True
  then have "w' = w\<lparr>wr_dst := wr_dst w, wr_buf := []\<rparr>" using assms(3) by (simp add: BufferedWriter_flush_def)
  then show ?thesis using assms(1) True by simp
next
  case False
  show ?thesis
  proof (cases "swrite (wr_buf w) (wr_dst w)")
    case (Inl e)
    then show ?thesis using False assms(3) by (simp add: BufferedWriter_flush_def)
  next
    case (Inr dst)
    then have "w' = w\<lparr>wr_dst := dst, wr_buf := []\<rparr>" using False assms(3) by (simp add: BufferedWriter_flush_def)
    then show ?thesis using write_ok[OF assms(1) Inr] by simp
  qed
qed

lemma buffered_write_ok:
  "inv (wr_dst w) \<Longrightarrow> length (wr_buf w) < wr_size w \<Longrightarrow> BufferedWriter_write swrite src w = Inr w' \<Longrightarrow>
     written (wr_dst w') @ wr_buf w' = written (wr_dst w) @ wr_buf w @ src \<and>
     inv (wr_dst w') \<and> length (wr_buf w') < wr_size w' \<and> wr_size w' = wr_size w"
proof (induction "length src" arbitrary: src w rule: less_induct)
  case less
  define n where "n = min (length src) (wr_size w - length (wr_buf w))"
  show ?case
  proof (cases "src = []")
    case True
    then have "w' = w" using less.prems(3) by (simp add: BufferedWriter_write.simps)
    then show ?thesis using less.prems True by simp
  next
    case False
    then have n: "0 < n" "n \<le> length src" using less.prems(2) by (simp_all add: n_def)
    define w1 where "w1 = w\<lparr>wr_buf := wr_buf w @ take n src\<rparr>"
    have eq: "BufferedWriter_write swrite src w =
        rbind (if length (wr_buf w1) = wr_size w1 then BufferedWriter_flush swrite w1 else Inr w1)
          (\<lambda>w. BufferedWriter_write swrite (drop n src) w)"
      using n by (subst BufferedWriter_write.simps) (simp add: n_def[symmetric] w1_def)
    obtain w2 where w2: "(if length (wr_buf w1) = wr_size w1 then BufferedWriter_flush swrite w1 else Inr w1) = Inr w2"
      "BufferedWriter_write swrite (drop n src) w2 = Inr w'" using less.prems(3) unfolding eq rbind_Inr_iff by blast
    have w2': "written (wr_dst w2) @ wr_buf w2 = written (wr_dst w) @ wr_buf w @ take n src \<and> inv (wr_dst w2) \<and>
        length (wr_buf w2) < wr_size w2 \<and> wr_size w2 = wr_size w"
    proof (cases "length (wr_buf w1) = wr_size w1")
      case True
      then show ?thesis using w2(1) flush_ok[of w1 w2] less.prems(1,2) by (auto simp: w1_def)
    next
      case False
      then have "w2 = w1" using w2(1) by simp
      moreover have "length (wr_buf w1) \<le> wr_size w1" using less.prems(2) by (simp add: w1_def n_def)
      ultimately show ?thesis using False less.prems by (simp add: w1_def)
    qed
    have "length (drop n src) < length src" using n by simp
    moreover have "written (wr_dst w2) @ wr_buf w2 @ drop n src = written (wr_dst w) @ wr_buf w @ src"
      using w2' by (metis append_assoc append_take_drop_id)
    ultimately show ?thesis using less.hyps[of "drop n src" w2] w2(2) w2' by simp
  qed
qed

lemma buffered_sink: "byte_sink buf_inv (\<lambda>w. written (wr_dst w) @ wr_buf w) (BufferedWriter_write swrite)"
  by unfold_locales (use buffered_write_ok in \<open>auto simp: buf_inv_def\<close>)

end

context fread_source
begin

definition buf_ok :: "'s BufferedReader \<Rightarrow> bool" where
  "buf_ok r \<longleftrightarrow> inv (rd_src r) \<and> rd_pos r \<le> length (rd_buf r) \<and> rd_buf r \<noteq> []"

definition buf_remaining :: "'s BufferedReader \<Rightarrow> bytes" where
  "buf_remaining r = drop (rd_pos r) (rd_buf r) @ remaining (rd_src r)"

lemma buffered_read_spec:
  "buf_ok r \<Longrightarrow>
     (if n \<le> length (buf_remaining r)
      then \<exists>r'. BufferedReader_read rd n r = Inr (take n (buf_remaining r), r') \<and> buf_remaining r' = drop n (buf_remaining r) \<and> buf_ok r'
      else \<exists>e. BufferedReader_read rd n r = Inl e)"
proof (induction "2 * n + (if rd_pos r < length (rd_buf r) then 0 else 1)" arbitrary: n r rule: less_induct)
  case less
  define a where "a = min n (length (rd_buf r) - rd_pos r)"
  let ?avail = "drop (rd_pos r) (rd_buf r)"
  have r: "inv (rd_src r)" "rd_pos r \<le> length (rd_buf r)" "rd_buf r \<noteq> []" using less.prems by (simp_all add: buf_ok_def)
  show ?case
  proof (cases "n \<le> length ?avail")
    case True
    then have "a = n" by (simp add: a_def)
    then have "BufferedReader_read rd n r = Inr (take n ?avail, r\<lparr>rd_pos := rd_pos r + n\<rparr>)"
      by (subst BufferedReader_read.simps) (simp add: a_def[symmetric])
    moreover have "rd_pos r + n \<le> length (rd_buf r)" using True r(2) by simp
    ultimately show ?thesis using True r by (simp add: buf_remaining_def buf_ok_def add.commute)
  next
    case False
    then have a: "a = length ?avail" "n > a" by (simp_all add: a_def)
    obtain k s' where k: "rd (length (rd_buf r)) (rd_src r) = Inr (take k (remaining (rd_src r)), s')"
      "k \<le> length (remaining (rd_src r))" "k = 0 \<longrightarrow> remaining (rd_src r) = []"
      "remaining s' = drop k (remaining (rd_src r))" "inv s'" using rd_ok[OF r(1), of "length (rd_buf r)"] r(3) by auto
    let ?r = "r\<lparr>rd_pos := rd_pos r + a, rd_src := s', rd_buf := take k (remaining (rd_src r)), rd_pos := 0\<rparr>"
    have step: "BufferedReader_read rd n r =
        (if k = 0 then Inl (Failure ''BufferedFile::read: end of stream'')
         else rbind (BufferedReader_read rd (n - a) ?r) (\<lambda>(rest, r). Inr (?avail @ rest, r)))"
      using a k(1,2,3) by (subst BufferedReader_read.simps) (auto simp: a_def[symmetric] Let_def)
    show ?thesis
    proof (cases "k = 0")
      case True
      then show ?thesis using step a k(3) by (simp add: buf_remaining_def)
    next
      case nz: False
      have ok: "buf_ok ?r" and rem: "buf_remaining ?r = remaining (rd_src r)"
        using nz k by (auto simp: buf_ok_def buf_remaining_def)
      have dec: "2 * (n - a) + (if rd_pos ?r < length (rd_buf ?r) then 0 else 1) < 2 * n + (if rd_pos r < length (rd_buf r) then 0 else 1)"
        using a nz k(2) r(2) by (auto simp: min_def)
      have le: "n \<le> length (buf_remaining r) \<longleftrightarrow> n - a \<le> length (remaining (rd_src r))" using a by (auto simp: buf_remaining_def)
      note ih = less.hyps[OF dec ok, unfolded rem]
      have br: "buf_remaining r = ?avail @ remaining (rd_src r)" by (simp add: buf_remaining_def)
      show ?thesis
      proof (cases "n - a \<le> length (remaining (rd_src r))")
        case True
        then obtain r' where "BufferedReader_read rd (n - a) ?r = Inr (take (n - a) (remaining (rd_src r)), r')"
          "buf_remaining r' = drop (n - a) (remaining (rd_src r))" "buf_ok r'" using ih by auto
        then show ?thesis using True nz le a step unfolding br by simp
      next
        case False
        then obtain e where "BufferedReader_read rd (n - a) ?r = Inl e" using ih by auto
        then show ?thesis using False nz le step by simp
      qed
    qed
  qed
qed

end

sublocale fread_source \<subseteq> buffered: byte_source buf_ok buf_remaining "BufferedReader_read rd"
proof
  fix s n
  show "buf_ok s \<Longrightarrow> n \<le> length (buf_remaining s) \<Longrightarrow>
      \<exists>s'. BufferedReader_read rd n s = Inr (take n (buf_remaining s), s') \<and> buf_remaining s' = drop n (buf_remaining s) \<and> buf_ok s'"
    using buffered_read_spec[of s n] by simp
  show "buf_ok s \<Longrightarrow> length (buf_remaining s) < n \<Longrightarrow> \<exists>e. BufferedReader_read rd n s = Inl e"
    using buffered_read_spec[of s n] by simp
qed

section \<open>Obfuscation is its own inverse\<close>

lemma length_xor_loop [simp]: "length (xor_loop w key o') = length w"
  by (induction w key o' rule: xor_loop.induct) simp_all

lemma length_util_Xor [simp]: "length (util_Xor w key o') = length w"
  by (simp add: util_Xor_def)

lemma xor_loop_nth: "o' < length key \<Longrightarrow> i < length w \<Longrightarrow> xor_loop w key o' ! i = w ! i XOR key ! ((o' + i) mod length key)"
proof (induction w key o' arbitrary: i rule: xor_loop.induct)
  case (2 b w key o')
  show ?case
  proof (cases i)
    case 0
    then show ?thesis using 2 by simp
  next
    case (Suc j)
    have "(if o' + 1 = length key then 0 else o' + 1) < length key" using 2(2) by auto
    moreover have "((if o' + 1 = length key then 0 else o' + 1) + j) mod length key = (o' + i) mod length key"
      using Suc by (auto simp: mod_add_left_eq) (metis add_Suc mod_add_self1)
    ultimately show ?thesis using 2 Suc by simp
  qed
qed simp

lemma util_Xor_nth: "i < length w \<Longrightarrow> util_Xor w key o' ! i = (if key = [] then w ! i else w ! i XOR key ! ((o' + i) mod length key))"
  by (simp add: util_Xor_def xor_loop_nth mod_add_left_eq)

lemma util_Xor_twice [simp]: "util_Xor (util_Xor w key o') key o' = w"
  by (rule nth_equalityI) (auto simp: util_Xor_nth xor.assoc)

lemma util_Xor_append: "util_Xor (a @ b) key o' = util_Xor a key o' @ util_Xor b key (o' + length a)"
  by (rule nth_equalityI) (auto simp: util_Xor_nth nth_append add.assoc)

lemma util_Xor_take: "util_Xor (take n w) key o' = take n (util_Xor w key o')"
  by (rule nth_equalityI) (auto simp: util_Xor_nth)

lemma util_Xor_drop: "n \<le> length w \<Longrightarrow> util_Xor (drop n w) key (o' + n) = drop n (util_Xor w key o')"
  by (rule nth_equalityI) (auto simp: util_Xor_nth add.assoc)

lemma util_Xor_Nil [simp]: "util_Xor [] key o' = []" "util_Xor w [] o' = w"
  by (simp_all add: util_Xor_def)

section \<open>The streams meet their contracts\<close>

interpretation vector_reader: byte_source "\<lambda>r. vr_pos r \<le> length (vr_data r)" "\<lambda>r. drop (vr_pos r) (vr_data r)" VectorReader_read
  by unfold_locales (auto simp: VectorReader_read_def Let_def add.commute)

definition ds_inv :: "CDataStream \<Rightarrow> bool" where
  "ds_inv s \<longleftrightarrow> ds_pos s \<le> length (vch s) \<and> length (vch s) < 2 ^ 32"

lemma unat_u32: "n < 2 ^ 32 \<Longrightarrow> unat (of_nat n :: u32) = n"
  by (simp add: unat_of_nat take_bit_nat_eq_self)

interpretation data_stream: byte_source ds_inv ds_bytes ds_read
proof
  fix s n
  assume s: "ds_inv s" and n: "n \<le> length (ds_bytes s)"
  then have "ds_pos s + n < 2 ^ 32" unfolding ds_inv_def ds_bytes_def length_drop by linarith
  then have "unat (of_nat (ds_pos s + n) :: u32) = ds_pos s + n" by (rule unat_u32)
  moreover define p where "p = (of_nat (ds_pos s + n) :: u32)"
  ultimately have u: "unat p = ds_pos s + n" by simp
  show "\<exists>s'. ds_read n s = Inr (take n (ds_bytes s), s') \<and> ds_bytes s' = drop n (ds_bytes s) \<and> ds_inv s'"
    using s n unfolding ds_read_def p_def[symmetric] Let_def by (auto simp: ds_inv_def ds_bytes_def u add.commute)
next
  fix s n
  assume "ds_inv s" "length (ds_bytes s) < n"
  then show "\<exists>e. ds_read n s = Inl e"
    by (auto simp: ds_read_def ds_inv_def ds_bytes_def Let_def)
qed

interpretation data_stream_sink: byte_sink "\<lambda>s. ds_pos s \<le> length (vch s)" ds_bytes "\<lambda>b s. Inr (ds_write b s)"
  by unfold_locales (auto simp: ds_write_def ds_bytes_def)

lemma VectorWriter_write_ok:
  assumes "vw_pos w \<le> length (vw_data w)"
  shows "vw_data (VectorWriter_write b w) = overwrite (vw_pos w) b (vw_data w)" "vw_pos (VectorWriter_write b w) = vw_pos w + length b"
proof -
  let ?n = "min (length b) (length (vw_data w) - vw_pos w)"
  show "vw_pos (VectorWriter_write b w) = vw_pos w + length b" by (simp add: VectorWriter_write_def Let_def)
  show "vw_data (VectorWriter_write b w) = overwrite (vw_pos w) b (vw_data w)"
  proof (cases "length b \<le> length (vw_data w) - vw_pos w")
    case True
    then show ?thesis using assms by (cases "b = []") (simp_all add: VectorWriter_write_def overwrite_def Let_def min_def)
  next
    case False
    then show ?thesis using assms by (simp add: VectorWriter_write_def overwrite_def resize_def Let_def min_def)
  qed
qed

interpretation vector_writer: byte_sink "\<lambda>w. vw_pos w = length (vw_data w)" vw_data "\<lambda>b w. Inr (VectorWriter_write b w)"
  by unfold_locales (auto simp: VectorWriter_write_ok overwrite_def)

text \<open>A file read from some position with the obfuscation in step; \<open>af_plain\<close> is what a reader sees.\<close>

definition af_plain :: "CAutoFile \<Rightarrow> bytes" where
  "af_plain a = (case af_file a of None \<Rightarrow> [] | Some f \<Rightarrow> util_Xor (drop (f_pos f) (f_data f)) (xor_key a) (xor_offset a))"

definition af_open :: "CAutoFile \<Rightarrow> bool" where
  "af_open a \<longleftrightarrow> (\<exists>f. af_file a = Some f \<and> f_pos f \<le> length (f_data f))"

lemma detail_fread_ok:
  assumes "af_open a"
  shows "\<exists>a'. detail_fread n a = Inr (take n (af_plain a), a') \<and> af_plain a' = drop n (af_plain a) \<and> af_open a'"
proof -
  obtain f where f: "af_file a = Some f" "f_pos f \<le> length (f_data f)" using assms by (auto simp: af_open_def)
  let ?rest = "drop (f_pos f) (f_data f)"
  let ?k = "length (take n ?rest)"
  let ?a = "a\<lparr>af_file := Some (f\<lparr>f_pos := f_pos f + ?k\<rparr>), xor_offset := xor_offset a + ?k\<rparr>"
  have "detail_fread n a = Inr (util_Xor (take n ?rest) (xor_key a) (xor_offset a), ?a)"
    using f(1) by (simp add: detail_fread_def fread_def Let_def)
  moreover have "af_plain ?a = drop n (af_plain a)"
    using f util_Xor_drop[of ?k ?rest "xor_key a" "xor_offset a"]
    by (cases "n \<le> length ?rest") (simp_all add: af_plain_def add.commute min_def)
  moreover have "af_open ?a" using f by (auto simp: af_open_def min_def)
  ultimately show ?thesis using f(1) by (simp add: af_plain_def util_Xor_take)
qed

interpretation file_fread: fread_source af_open af_plain detail_fread
proof
  fix s n
  assume "af_open s"
  from detail_fread_ok[OF this, of n]
  show "\<exists>k s'. detail_fread n s = Inr (take k (af_plain s), s') \<and> k \<le> n \<and> k \<le> length (af_plain s) \<and>
      (k = 0 \<longrightarrow> n = 0 \<or> af_plain s = []) \<and> af_plain s' = drop k (af_plain s) \<and> af_open s'"
    by (elim exE, intro exI[of _ "min n (length (af_plain s))"]) (auto simp: min_def split: if_splits)
qed

interpretation file_read: byte_source af_open af_plain af_read
proof
  fix s n
  assume s: "af_open s"
  obtain a' where a: "detail_fread n s = Inr (take n (af_plain s), a')" "af_plain a' = drop n (af_plain s)" "af_open a'"
    using detail_fread_ok[OF s] by blast
  show "n \<le> length (af_plain s) \<Longrightarrow> \<exists>s'. af_read n s = Inr (take n (af_plain s), s') \<and> af_plain s' = drop n (af_plain s) \<and> af_open s'"
    using a by (simp add: af_read_def)
  show "length (af_plain s) < n \<Longrightarrow> \<exists>e. af_read n s = Inl e" using a by (simp add: af_read_def)
qed

text \<open>A file that is written at its end, with the obfuscation in step from its first byte.\<close>

definition af_appending :: "bytes \<Rightarrow> CAutoFile \<Rightarrow> bool" where
  "af_appending key a \<longleftrightarrow>
     (\<exists>f. af_file a = Some f \<and> f_pos f = length (f_data f) \<and> xor_offset a = length (f_data f) \<and> xor_key a = key)"

definition af_written :: "CAutoFile \<Rightarrow> bytes" where
  "af_written a = (case af_file a of None \<Rightarrow> [] | Some f \<Rightarrow> util_Xor (f_data f) (xor_key a) 0)"

lemma fwrite_at_end:
  assumes "f_pos f = length (f_data f)" "fwrite src f = (length src, f')"
  shows "f_data f' = f_data f @ src" "f_pos f' = length (f_data f')"
  using assms by (auto simp: fwrite_def Let_def overwrite_def)

lemma fwrite_count: "fst (fwrite src f) \<le> length src"
  by (simp add: fwrite_def Let_def)

lemma write_buffer_sink:
  assumes a: "af_appending key a" and w: "write_buffer src a = Inr a'"
  shows "af_written a' = af_written a @ src \<and> af_appending key a'"
proof -
  obtain f where f: "af_file a = Some f" "f_pos f = length (f_data f)" "xor_offset a = length (f_data f)" "xor_key a = key"
    using a by (auto simp: af_appending_def)
  let ?s = "util_Xor src key (length (f_data f))"
  obtain n f' where fw: "fwrite ?s f = (n, f')" by fastforce
  have x: "(if key \<noteq> [] then util_Xor src key (length (f_data f)) else src) = ?s" by simp
  have a': "n = length src" "a' = a\<lparr>af_file := Some f', xor_offset := length (f_data f) + length src\<rparr>"
    using w f fw unfolding write_buffer_def by (auto simp: Let_def x split: if_splits)
  then have fw': "fwrite ?s f = (length ?s, f')" using fw by simp
  note e = fwrite_at_end[OF f(2) fw']
  have "util_Xor (f_data f @ ?s) key 0 = util_Xor (f_data f) key 0 @ src" by (simp add: util_Xor_append)
  then show ?thesis using a' e f by (simp add: af_written_def af_appending_def)
qed

interpretation file_buffer_sink: byte_sink "af_appending key" af_written write_buffer for key
  by unfold_locales (fact write_buffer_sink)

lemma af_write_loop_ok:
  "f_pos f = length (f_data f) \<Longrightarrow> off = length (f_data f) \<Longrightarrow> af_write_loop key src f off = Inr (f', off') \<Longrightarrow>
     f_data f' = f_data f @ util_Xor src key off \<and> f_pos f' = length (f_data f') \<and> off' = length (f_data f')"
proof (induction "length src" arbitrary: src f off rule: less_induct)
  case less
  show ?case
  proof (cases "src = []")
    case True
    then show ?thesis using less.prems by (auto simp: af_write_loop.simps)
  next
    case False
    define n where "n = min (length src) 4096"
    have n: "0 < n" "n \<le> length src" using False by (simp_all add: n_def)
    let ?b = "util_Xor (take n src) key off"
    obtain k f1 where fw: "fwrite ?b f = (k, f1)" by fastforce
    have k: "k = n" "af_write_loop key (drop n src) f1 (off + n) = Inr (f', off')"
      using less.prems(3) False fw by (subst (asm) af_write_loop.simps; simp add: n_def[symmetric] Let_def split: if_splits)+
    then have fw': "fwrite ?b f = (length ?b, f1)" using fw n by simp
    note e = fwrite_at_end[OF less.prems(1) fw']
    have l: "length (drop n src) < length src" using n by simp
    have o1: "off + n = length (f_data f1)" using e(1) less.prems(2) n by simp
    have "util_Xor src key off = ?b @ util_Xor (drop n src) key (off + n)"
      using util_Xor_append[of "take n src" "drop n src" key off] n by simp
    then show ?thesis using less.hyps[OF l e(2) o1 k(2)] e(1) by simp
  qed
qed

interpretation file_sink: byte_sink "af_appending key" af_written af_write for key
proof
  fix a bs a'
  assume a: "af_appending key a" and w: "af_write bs a = Inr a'"
  obtain f where f: "af_file a = Some f" "f_pos f = length (f_data f)" "xor_offset a = length (f_data f)" "xor_key a = key"
    using a by (auto simp: af_appending_def)
  show "af_written a' = af_written a @ bs \<and> af_appending key a'"
  proof (cases "key = []")
    case True
    obtain n f' where fw: "fwrite bs f = (n, f')" by fastforce
    have a': "n = length bs" "a' = a\<lparr>af_file := Some f', xor_offset := length (f_data f) + length bs\<rparr>"
      using w f fw True unfolding af_write_def by (auto simp: Let_def split: if_splits)
    then show ?thesis using fwrite_at_end[OF f(2)] fw True f by (simp add: af_written_def af_appending_def)
  next
    case False
    then obtain f' off' where l: "af_write_loop key bs f (length (f_data f)) = Inr (f', off')" "a' = a\<lparr>af_file := Some f', xor_offset := off'\<rparr>"
      using w f unfolding af_write_def by (auto simp: rbind_Inr_iff)
    have "util_Xor (f_data f @ util_Xor bs key (length (f_data f))) key 0 = util_Xor (f_data f) key 0 @ bs" by (simp add: util_Xor_append)
    then show ?thesis using af_write_loop_ok[OF f(2) refl l(1)] l(2) f(1,4) by (simp add: af_written_def af_appending_def)
  qed
qed

text \<open>Opening a file to read it from the start.\<close>

definition af_reopen :: "bytes \<Rightarrow> FILE \<Rightarrow> CAutoFile" where
  "af_reopen key f = af_SetXor key (CAutoFile_new (Some (f\<lparr>f_pos := 0\<rparr>)))"

lemma af_reopen_plain: "af_appending key a \<Longrightarrow> af_file a = Some f \<Longrightarrow> af_plain (af_reopen key f) = af_written a \<and> af_open (af_reopen key f)"
  by (auto simp: af_reopen_def af_SetXor_def CAutoFile_new_def af_plain_def af_written_def af_open_def af_appending_def)

definition empty_file :: "bytes \<Rightarrow> nat \<Rightarrow> CAutoFile" where
  "empty_file key cap = af_SetXor key (CAutoFile_new (Some \<lparr> f_data = [], f_pos = 0, f_cap = cap \<rparr>))"

lemma empty_file_appending: "af_appending key (empty_file key cap)" "af_written (empty_file key cap) = []"
  by (simp_all add: af_appending_def af_written_def empty_file_def af_SetXor_def CAutoFile_new_def)

lemma buffered_reader_start:
  "0 < m \<Longrightarrow> af_open a \<Longrightarrow> file_fread.buf_ok (BufferedReader_new a m) \<and> file_fread.buf_remaining (BufferedReader_new a m) = af_plain a"
  by (simp add: file_fread.buf_ok_def file_fread.buf_remaining_def BufferedReader_new_def)

text \<open>Files survive obfuscation and buffering: if chunks written through a \<open>BufferedWriter\<close> of any
  buffer size to a new file under any XOR key are all accepted and flushed, then reading the file
  back through a \<open>BufferedReader\<close> of any buffer size, in whatever pieces, gives the same bytes.\<close>

lemma obfuscated_file_roundtrip:
  assumes "0 < n" and "0 < m"
    and "write_list (BufferedWriter_write write_buffer) chunks (BufferedWriter_new (empty_file key cap) n) = Inr w"
    and "BufferedWriter_flush write_buffer w = Inr w'" and "af_file (wr_dst w') = Some f" and "concat pieces = concat chunks"
  shows "\<exists>r. read_list (BufferedReader_read detail_fread) (map length pieces) (BufferedReader_new (af_reopen key f) m) = Inr (pieces, r)"
proof -
  let ?w0 = "BufferedWriter_new (empty_file key cap) n"
  have "file_buffer_sink.buf_inv key ?w0"
    using assms(1) empty_file_appending by (simp add: file_buffer_sink.buf_inv_def BufferedWriter_new_def)
  from byte_sink.write_list_ok[OF file_buffer_sink.buffered_sink this assms(3)]
  have w: "af_written (wr_dst w) @ wr_buf w = concat chunks" "af_appending key (wr_dst w)" "0 < wr_size w"
    using empty_file_appending by (auto simp: BufferedWriter_new_def file_buffer_sink.buf_inv_def)
  from file_buffer_sink.flush_ok[OF w(2,3) assms(4)] w(1)
  have w': "af_written (wr_dst w') = concat chunks" "af_appending key (wr_dst w')" by simp_all
  have "af_plain (af_reopen key f) = concat chunks" "af_open (af_reopen key f)" using af_reopen_plain[OF w'(2) assms(5)] w'(1) by simp_all
  then have "file_fread.buf_ok (BufferedReader_new (af_reopen key f) m)"
    "file_fread.buf_remaining (BufferedReader_new (af_reopen key f) m) = concat pieces @ []"
    using buffered_reader_start[OF assms(2)] assms(6) by auto
  from file_fread.buffered.read_list_ok[OF this] show ?thesis by blast
qed

section \<open>Bit streams as sequences of bits\<close>

definition bits_of :: "nat \<Rightarrow> 'a::len word \<Rightarrow> bool list" where
  "bits_of n w = map (\<lambda>i. bit w (n - 1 - i)) [0..<n]"

lemma length_bits_of [simp]: "length (bits_of n w) = n"
  by (simp add: bits_of_def)

lemma nth_bits_of [simp]: "i < n \<Longrightarrow> bits_of n w ! i = bit w (n - 1 - i)"
  by (simp add: bits_of_def)

lemma drop_bits_of: "b \<le> n \<Longrightarrow> drop b (bits_of n w) = bits_of (n - b) w"
  by (rule nth_equalityI) simp_all

definition bw_bits :: "BitStreamWriter \<Rightarrow> bool list" where
  "bw_bits w = concat (map (bits_of 8) (bw_out w)) @ take (bw_offset w) (bits_of 8 (bw_buffer w))"

definition bw_inv :: "BitStreamWriter \<Rightarrow> bool" where
  "bw_inv w \<longleftrightarrow> bw_offset w < 8 \<and> (\<forall>k<8 - bw_offset w. \<not> bit (bw_buffer w) k)"

lemma bw_buffer_bit:
  assumes "k < 8" "0 < n" "n \<le> 64" "off < 8"
  shows "bit (buf OR ucast (drop_bit (64 - 8 + off) (push_bit (64 - n) (data :: u64))) :: byte) k \<longleftrightarrow>
    bit buf k \<or> (k < 8 - off \<and> 8 \<le> n + off + k \<and> bit data (n + off + k - 8))"
proof -
  have "64 - 8 + off + k - (64 - n) = n + off + k - 8" using assms by simp
  moreover have "64 - n \<le> 64 - 8 + off + k \<longleftrightarrow> 8 \<le> n + off + k" using assms by auto
  moreover have "64 - 8 + off + k < 64 \<longleftrightarrow> k < 8 - off" using assms by auto
  ultimately show ?thesis using assms by (auto simp: bit_or_iff bit_ucast_iff bit_drop_bit_eq bit_push_bit_iff)
qed

lemma bw_step_ok:
  assumes "bw_inv w" "0 < n" "n \<le> 64"
  defines "b \<equiv> min (8 - bw_offset w) n"
  shows "bw_bits (bw_step data n w) = bw_bits w @ take b (bits_of n data) \<and> bw_inv (bw_step data n w)"
proof -
  define off where "off = bw_offset w"
  define buf where "buf = bw_buffer w OR ucast (drop_bit (64 - 8 + off) (push_bit (64 - n) data))"
  have off: "off < 8" and low: "\<And>k. k < 8 - off \<Longrightarrow> \<not> bit (bw_buffer w) k" using assms(1) by (simp_all add: bw_inv_def off_def)
  have b: "0 < b" "off + b \<le> 8" "b \<le> n" using off assms(2) by (auto simp: b_def off_def min_def)
  note bb = bw_buffer_bit[OF _ assms(2,3) off, where buf = "bw_buffer w" and data = data, folded buf_def]
  have bits: "take (off + b) (bits_of 8 buf) = take off (bits_of 8 (bw_buffer w)) @ take b (bits_of n data)"
  proof (rule nth_equalityI)
    show "length (take (off + b) (bits_of 8 buf)) = length (take off (bits_of 8 (bw_buffer w)) @ take b (bits_of n data))"
      using b off by simp
    fix i assume "i < length (take (off + b) (bits_of 8 buf))"
    then have i: "i < off + b" "i < 8" by simp_all
    show "take (off + b) (bits_of 8 buf) ! i = (take off (bits_of 8 (bw_buffer w)) @ take b (bits_of n data)) ! i"
    proof (cases "i < off")
      case True
      then have "\<not> 7 - i < 8 - off" using off by linarith
      then show ?thesis using i off True bb[of "7 - i"] by (simp add: nth_append)
    next
      case False
      define j where "j = i - off"
      have j: "i = off + j" "j < b" using False i by (simp_all add: j_def)
      have "n + off + (7 - i) - 8 = n - 1 - j" "8 \<le> n + off + (7 - i)" "7 - i < 8 - off" using j i b by auto
      then show ?thesis using i j b off low[of "7 - i"] bb[of "7 - i"] by (simp add: nth_append)
    qed
  qed
  have rest: "\<not> bit buf k" if "k < 8 - (off + b)" for k
  proof -
    have "b = n" using that b off unfolding b_def off_def by (auto simp: min_def split: if_splits)
    then show ?thesis using that bb[of k] low[of k] by auto
  qed
  show ?thesis
  proof (cases "off + b = 8")
    case True
    then have "bw_step data n w = w\<lparr>bw_out := bw_out w @ [buf], bw_buffer := 0, bw_offset := 0\<rparr>"
      by (simp add: bw_step_def bw_Flush_def buf_def off_def b_def Let_def)
    then show ?thesis using bits True by (simp add: bw_bits_def bw_inv_def off_def[symmetric])
  next
    case False
    then have "bw_step data n w = w\<lparr>bw_buffer := buf, bw_offset := off + b\<rparr>"
      by (simp add: bw_step_def buf_def off_def b_def Let_def)
    then show ?thesis using bits False rest b by (simp add: bw_bits_def bw_inv_def off_def[symmetric])
  qed
qed

lemma bw_loop_ok:
  "bw_inv w \<Longrightarrow> n \<le> 64 \<Longrightarrow> bw_bits (bw_loop data n w) = bw_bits w @ bits_of n data \<and> bw_inv (bw_loop data n w)"
proof (induction n arbitrary: w rule: less_induct)
  case (less n)
  show ?case
  proof (cases "n = 0")
    case True
    then show ?thesis using less.prems by (simp add: bw_loop.simps bits_of_def)
  next
    case False
    define b where "b = min (8 - bw_offset w) n"
    have off: "bw_offset w < 8" using less.prems(1) by (simp add: bw_inv_def)
    then have b: "0 < b" "b \<le> n" using False by (simp_all add: b_def)
    have "bw_loop data n w = bw_loop data (n - b) (bw_step data n w)" using False off by (subst bw_loop.simps) (simp add: b_def)
    moreover have "bits_of n data = take b (bits_of n data) @ bits_of (n - b) data" using drop_bits_of[OF b(2), of data] by (metis append_take_drop_id)
    ultimately show ?thesis
      using less.IH[of "n - b" "bw_step data n w"] bw_step_ok[OF less.prems(1), of n data] False b less.prems(2) unfolding b_def[symmetric]
      by (metis append_assoc diff_less diff_le_self le_trans neq0_conv)
  qed
qed

definition br_bits :: "BitStreamReader \<Rightarrow> bool list" where
  "br_bits r = drop (br_offset r) (bits_of 8 (br_buffer r)) @ concat (map (bits_of 8) (br_in r))"

lemma br_refill_ok:
  assumes "br_offset r \<le> 8" "br_bits r \<noteq> []"
  shows "\<exists>r'. br_refill r = Inr r' \<and> br_bits r' = br_bits r \<and> br_offset r' < 8"
proof (cases "br_offset r = 8")
  case True
  then obtain b rest where "br_in r = b # rest" using assms(2) by (cases "br_in r") (simp_all add: br_bits_def)
  then show ?thesis using True by (simp add: br_refill_def br_bits_def)
qed (use assms in \<open>simp add: br_refill_def\<close>)

lemma br_loop_ok:
  "br_offset r \<le> 8 \<Longrightarrow> n \<le> length (br_bits r) \<Longrightarrow> n \<le> 64 \<Longrightarrow>
     \<exists>d r'. br_loop n data r = Inr (d, r') \<and> br_bits r' = drop n (br_bits r) \<and> br_offset r' \<le> 8 \<and>
       (\<forall>k<64. bit d k \<longleftrightarrow> (if k < n then br_bits r ! (n - 1 - k) else bit data (k - n)))"
proof (induction n arbitrary: data r rule: less_induct)
  case (less n)
  show ?case
  proof (cases "n = 0")
    case True
    then show ?thesis using less.prems by (simp add: br_loop.simps)
  next
    case False
    then have "br_bits r \<noteq> []" using less.prems(2) by auto
    then obtain r1 where r1: "br_refill r = Inr r1" "br_bits r1 = br_bits r" "br_offset r1 < 8" using br_refill_ok less.prems(1) by blast
    define off where "off = br_offset r1"
    define b where "b = min (8 - off) n"
    have b: "0 < b" "b \<le> n" "off + b \<le> 8" using r1(3) False by (simp_all add: b_def off_def)
    let ?x = "drop_bit (8 - b) (push_bit off (br_buffer r1))"
    define d1 where "d1 = push_bit b data OR ucast ?x"
    let ?r2 = "r1\<lparr>br_offset := off + b\<rparr>"
    have step: "br_loop n data r = br_loop (n - b) d1 ?r2"
      using False r1(1) b(1) by (subst br_loop.simps) (simp add: b_def[symmetric] off_def[symmetric] d1_def Let_def)
    have full: "br_bits r = drop off (bits_of 8 (br_buffer r1)) @ concat (map (bits_of 8) (br_in r1))"
      using r1(2) unfolding off_def br_bits_def[of r1] by (rule sym)
    have rb: "br_bits ?r2 = drop b (br_bits r)"
      using b unfolding full by (simp add: br_bits_def add.commute)
    have front: "br_bits r ! j = bit (br_buffer r1) (7 - off - j)" if "j < b" for j
    proof -
      have "j < 8 - off" using that b by linarith
      then show ?thesis unfolding full by (simp add: nth_append)
    qed
    have d1: "bit d1 k \<longleftrightarrow> (if k < b then br_bits r ! (b - 1 - k) else bit data (k - b))" if "k < 64" for k
    proof -
      have "bit ?x k \<longleftrightarrow> k < b \<and> bit (br_buffer r1) (k + 8 - b - off)"
        using b by (auto simp: bit_drop_bit_eq bit_push_bit_iff add.commute dest: bit_imp_le_length)
      moreover have "k < b \<Longrightarrow> 7 - off - (b - 1 - k) = k + 8 - b - off" using b by simp
      ultimately show ?thesis using that b front[of "b - 1 - k"] by (auto simp: d1_def bit_or_iff bit_push_bit_iff bit_ucast_iff)
    qed
    have "n - b \<le> length (br_bits ?r2)" "n - b < n" "n - b \<le> 64" "br_offset ?r2 \<le> 8" using less.prems(2,3) b rb by simp_all
    from less.IH[OF this(2,4,1,3), of d1] obtain d r' where d: "br_loop (n - b) d1 ?r2 = Inr (d, r')"
      "br_bits r' = drop (n - b) (br_bits ?r2)" "br_offset r' \<le> 8"
      "\<And>k. k < 64 \<Longrightarrow> bit d k \<longleftrightarrow> (if k < n - b then br_bits ?r2 ! (n - b - 1 - k) else bit d1 (k - (n - b)))" by blast
    have "bit d k \<longleftrightarrow> (if k < n then br_bits r ! (n - 1 - k) else bit data (k - n))" if k: "k < 64" for k
    proof (cases "k < n - b")
      case True
      then have "b + (n - b - 1 - k) = n - 1 - k" "b \<le> length (br_bits r)" using b less.prems(2) by simp_all
      moreover have "k < n" using True by linarith
      ultimately show ?thesis using d(4)[OF k] True rb by (simp add: nth_drop)
    next
      case False
      then have "b - 1 - (k - (n - b)) = n - 1 - k" "k - (n - b) - b = k - n" "k - (n - b) < b \<longleftrightarrow> k < n" using b by auto
      then show ?thesis using d(4)[OF k] d1[of "k - (n - b)"] False k by simp
    qed
    then show ?thesis using step d(1,2,3) rb b by (intro exI[of _ d] exI[of _ r']) simp
  qed
qed

fun write_fields :: "(u64 \<times> int) list \<Rightarrow> BitStreamWriter \<Rightarrow> stream_error + BitStreamWriter" where
  "write_fields [] w = Inr w"
| "write_fields ((data, n) # fs) w = rbind (BitStreamWriter_Write data n w) (write_fields fs)"

fun read_fields :: "int list \<Rightarrow> BitStreamReader \<Rightarrow> stream_error + u64 list \<times> BitStreamReader" where
  "read_fields [] r = Inr ([], r)"
| "read_fields (n # ns) r = rbind (BitStreamReader_Read n r) (\<lambda>(d, r). rbind (read_fields ns r) (\<lambda>(ds, r). Inr (d # ds, r)))"

lemma write_fields_ok:
  "bw_inv w \<Longrightarrow> \<forall>(data, n) \<in> set fs. 0 \<le> n \<and> n \<le> 64 \<Longrightarrow>
     \<exists>w'. write_fields fs w = Inr w' \<and> bw_inv w' \<and> bw_bits w' = bw_bits w @ concat (map (\<lambda>(data, n). bits_of (nat n) data) fs)"
proof (induction fs arbitrary: w)
  case (Cons f fs)
  obtain data n where f: "f = (data, n)" by fastforce
  have n: "0 \<le> n" "n \<le> 64" using Cons.prems(2) f by auto
  then have "bw_bits (bw_loop data (nat n) w) = bw_bits w @ bits_of (nat n) data \<and> bw_inv (bw_loop data (nat n) w)"
    using bw_loop_ok[OF Cons.prems(1), of "nat n" data] by simp
  then show ?case using Cons.IH[of "bw_loop data (nat n) w"] Cons.prems(2) f n by (auto simp: BitStreamWriter_Write_def)
qed simp

lemma read_fields_ok:
  "br_offset r \<le> 8 \<Longrightarrow> br_bits r = concat (map (\<lambda>(data, n). bits_of (nat n) data) fs) @ rest \<Longrightarrow> \<forall>(data, n) \<in> set fs. 0 \<le> n \<and> n \<le> 64 \<Longrightarrow>
     \<exists>r'. read_fields (map snd fs) r = Inr (map (\<lambda>(data, n). take_bit (nat n) data) fs, r')"
proof (induction fs arbitrary: r)
  case (Cons f fs)
  obtain data n where f: "f = (data, n)" by fastforce
  define m where "m = nat n"
  have n: "0 \<le> n" "n \<le> 64" "m \<le> 64" using Cons.prems(3) f by (auto simp: m_def)
  have rb: "br_bits r = bits_of m data @ concat (map (\<lambda>(data, n). bits_of (nat n) data) fs) @ rest" using Cons.prems(2) f by (simp add: m_def)
  then have "m \<le> length (br_bits r)" by simp
  from br_loop_ok[OF Cons.prems(1) this n(3), of 0] obtain d r1 where d: "br_loop m 0 r = Inr (d, r1)" "br_bits r1 = drop m (br_bits r)"
    "br_offset r1 \<le> 8" "\<And>k. k < 64 \<Longrightarrow> bit d k \<longleftrightarrow> (if k < m then br_bits r ! (m - 1 - k) else False)" by auto
  have "d = take_bit m data"
    by (rule bit_word_eqI) (use d(4) rb in \<open>auto simp: bit_take_bit_iff nth_append\<close>)
  moreover have "br_bits r1 = concat (map (\<lambda>(data, n). bits_of (nat n) data) fs) @ rest" using d(2) rb by simp
  ultimately show ?case using Cons.IH[OF d(3)] Cons.prems(3) d(1) f n by (auto simp: BitStreamReader_Read_def m_def)
qed simp

lemma bw_Flush_bits: "bw_inv w \<Longrightarrow> \<exists>pad. concat (map (bits_of 8) (bw_out (bw_Flush w))) = bw_bits w @ pad"
  by (auto simp: bw_Flush_def bw_bits_def intro: exI[of _ "drop (bw_offset w) (bits_of 8 (bw_buffer w))"])

text \<open>Bit fields of any widths up to 64 written one after another, then flushed, are read back with the
  same widths as the low bits of what was written, whatever follows in the stream.\<close>

lemma bit_stream_roundtrip:
  assumes "\<forall>(data, n) \<in> set fs. 0 \<le> n \<and> n \<le> 64"
  shows "\<exists>w r. write_fields fs (BitStreamWriter_new []) = Inr w \<and>
    read_fields (map snd fs) (BitStreamReader_new (bw_out (bw_Flush w) @ rest)) = Inr (map (\<lambda>(data, n). take_bit (nat n) data) fs, r)"
proof -
  have i: "bw_inv (BitStreamWriter_new [])" "bw_bits (BitStreamWriter_new []) = []"
    by (simp_all add: bw_inv_def bw_bits_def BitStreamWriter_new_def)
  from write_fields_ok[OF i(1) assms] i(2) obtain w where w: "write_fields fs (BitStreamWriter_new []) = Inr w" "bw_inv w"
    "bw_bits w = concat (map (\<lambda>(data, n). bits_of (nat n) data) fs)" by auto
  obtain pad where "concat (map (bits_of 8) (bw_out (bw_Flush w))) = bw_bits w @ pad" using bw_Flush_bits[OF w(2)] by blast
  then have "br_bits (BitStreamReader_new (bw_out (bw_Flush w) @ rest)) =
      concat (map (\<lambda>(data, n). bits_of (nat n) data) fs) @ pad @ concat (map (bits_of 8) rest)"
    using w(3) by (simp add: br_bits_def BitStreamReader_new_def)
  from read_fields_ok[OF _ this assms] w(1) show ?thesis by (auto simp: BitStreamReader_new_def)
qed

section \<open>CDataStream as a queue of bytes\<close>

lemma ds_front_room: "ds_inv s \<Longrightarrow> n \<le> ds_pos s \<Longrightarrow> unat (nReadPos s - of_nat n) = ds_pos s - n"
proof -
  assume "n \<le> ds_pos s"
  then have u: "unat (of_nat n :: u32) = n" using unat_bound[of "nReadPos s"] by (intro unat_u32) simp
  then have "(of_nat n :: u32) \<le> nReadPos s" using \<open>n \<le> ds_pos s\<close> by (simp add: word_le_nat_alt)
  then show ?thesis using u by (simp add: unat_sub)
qed

lemma ds_Rewind_ok:
  assumes "ds_inv s" "n \<le> ds_pos s"
  shows "ds_Rewind n s = (True, s\<lparr>nReadPos := nReadPos s - of_nat n\<rparr>) \<and>
    ds_bytes (snd (ds_Rewind n s)) = take n (drop (ds_pos s - n) (vch s)) @ ds_bytes s"
proof -
  have "drop (ds_pos s - n) (vch s) = take n (drop (ds_pos s - n) (vch s)) @ drop (ds_pos s) (vch s)"
    using append_take_drop_id[of n "drop (ds_pos s - n) (vch s)"] assms(2) by simp
  then show ?thesis using assms ds_front_room[OF assms] by (simp add: ds_Rewind_def ds_bytes_def)
qed

lemma ds_Compact_ok: "ds_bytes (ds_Compact s) = ds_bytes s"
  by (simp add: ds_Compact_def ds_bytes_def)

lemma ds_ignore_ok:
  assumes s: "ds_inv s" and n: "n \<le> length (ds_bytes s)"
  shows "\<exists>s'. ds_ignore (int n) s = Inr s' \<and> ds_bytes s' = drop n (ds_bytes s) \<and> ds_inv s'"
proof -
  define p where "p = (of_nat (ds_pos s + n) :: u32)"
  have lt: "ds_pos s + n \<le> length (vch s)" "length (vch s) < 2 ^ 32" using s n unfolding ds_inv_def ds_bytes_def length_drop by linarith+
  then have "ds_pos s + n < 2 ^ 32" by linarith
  then have u: "unat p = ds_pos s + n" unfolding p_def by (rule unat_u32)
  have "nReadPos s + of_int (int n) = p" by (simp add: p_def)
  then have "ds_ignore (int n) s = Inr (if ds_pos s + n = length (vch s) then s\<lparr>nReadPos := 0, vch := []\<rparr> else s\<lparr>nReadPos := p\<rparr>)"
    using lt(1) unfolding ds_ignore_def Let_def u[symmetric] by auto
  then show ?thesis using lt u by (auto simp: ds_bytes_def ds_inv_def add.commute)
qed

lemma ds_insert_front:
  assumes "ds_inv s" "length new + length (vch s) < 2 ^ 32"
  shows "ds_bytes (ds_insert (ds_pos s) new s) = new @ ds_bytes s"
proof (cases "new = []")
  case False
  have u: "unat (of_nat (length new) :: u32) = length new" using assms(2) by (intro unat_u32) simp
  show ?thesis
  proof (cases "length new \<le> ds_pos s")
    case True
    have "(of_nat (length new) :: u32) \<le> nReadPos s" using True u by (simp add: word_le_nat_alt)
    then show ?thesis
      using False True assms ds_front_room[OF assms(1) True]
      by (simp add: ds_insert_def ds_bytes_def overwrite_def ds_inv_def)
  next
    case no: False
    have "\<not> (of_nat (length new) :: u32) \<le> nReadPos s" using no u by (simp add: word_le_nat_alt)
    then show ?thesis using False assms by (simp add: ds_insert_def ds_bytes_def ds_inv_def)
  qed
qed (simp add: ds_insert_def)

text \<open>While the buffer holds less than 4 GiB, \<open>CDataStream\<close> is a queue: writing appends, reading takes
  from the front or throws without undefined behaviour when the request stays below 4 GiB, ignoring
  drops from the front, rewinding restores bytes read before, and inserting at the front, whether it
  reuses the space of bytes already read or not, prepends.\<close>

lemma data_stream_queue:
  assumes "ds_inv s"
  shows "ds_bytes (ds_write b s) = ds_bytes s @ b \<and>
    (if n \<le> ds_size s then \<exists>s'. ds_read n s = Inr (take n (ds_bytes s), s') \<and> ds_bytes s' = drop n (ds_bytes s) \<and> ds_inv s'
     else ds_pos s + n < 2 ^ 32 \<longrightarrow> ds_read n s = Inl (Failure ''CDataStream::read(): end of data'')) \<and>
    (k \<le> ds_pos s \<longrightarrow> ds_bytes (snd (ds_Rewind k s)) = take k (drop (ds_pos s - k) (vch s)) @ ds_bytes s) \<and>
    (length new + length (vch s) < 2 ^ 32 \<longrightarrow> ds_bytes (ds_insert (ds_pos s) new s) = new @ ds_bytes s)"
proof -
  have 1: "ds_bytes (ds_write b s) = ds_bytes s @ b" using assms by (simp add: ds_write_def ds_bytes_def ds_inv_def)
  have sz: "ds_size s = length (ds_bytes s)" by (simp add: ds_size_def ds_bytes_def)
  have 2: "ds_read n s = Inl (Failure ''CDataStream::read(): end of data'')" if "\<not> n \<le> ds_size s" "ds_pos s + n < 2 ^ 32"
  proof -
    have "unat (of_nat (ds_pos s + n) :: u32) = ds_pos s + n" using that(2) by (rule unat_u32)
    then show ?thesis using that(1) assms unfolding ds_read_def Let_def by (auto simp: ds_size_def ds_inv_def)
  qed
  show ?thesis
    using 1 2 data_stream.read_ok[OF assms, of n] ds_Rewind_ok[OF assms, of k] ds_insert_front[OF assms, of new] sz by auto
qed

text \<open>The read position is 32 bits wide and so is the sum the bounds check looks at: a request of 4 GiB
  passes the check on any non-empty stream and copies past the end of the buffer.\<close>

lemma data_stream_read_wraps: "ds_read (2 ^ 32) (CDataStream_new [7]) = Inl OutOfBounds"
proof -
  have "(of_nat (2 ^ 32) :: u32) = 0" by (simp add: word_unat_eq_iff unat_of_nat)
  then show ?thesis by (simp add: ds_read_def CDataStream_new_def)
qed

end
