(* ===== verification/Txo_Codec.thy ===== *)
theory Txo_Codec
  imports Serialization
begin

text \<open>
  Transaction outputs as the database names them (\<open>TXO_Compact.h\<close>, \<open>TXO.h\<close>): a \<open>TXO\<close> is a
  transaction hash and an output index, a \<open>CompactTXO\<close> the global transaction number and the index,
  packed into 48 and 24 bits. Both have a short form with a two-byte index and a wide form with
  three bytes. Writing through a pointer is an update of the buffer's bytes.
\<close>

abbreviation (input) HashLen :: nat where "HashLen \<equiv> 32"
abbreviation (input) IONum16Max :: nat where "IONum16Max \<equiv> 65535"

type_synonym TxNum = u64
type_synonym IONum = u32

section \<open>CompactTXO\<close>

text \<open>The bit fields of the struct are words of their declared width.\<close>

datatype CompactTXO = CompactTXO (compact_txNum: "48 word") (compact_n: "24 word")

definition CompactTXO_default :: CompactTXO where
  "CompactTXO_default = CompactTXO 0xffffffffffff 0xffffff"

definition CompactTXO_new :: "TxNum \<Rightarrow> IONum \<Rightarrow> CompactTXO" where
  "CompactTXO_new txNum n = CompactTXO (ucast txNum) (ucast n)"

instantiation CompactTXO :: linorder
begin

definition less_CompactTXO :: "CompactTXO \<Rightarrow> CompactTXO \<Rightarrow> bool" where
  "less_CompactTXO a b \<longleftrightarrow> compact_txNum a < compact_txNum b \<or> compact_txNum a = compact_txNum b \<and> compact_n a < compact_n b"

definition less_eq_CompactTXO :: "CompactTXO \<Rightarrow> CompactTXO \<Rightarrow> bool" where
  "less_eq_CompactTXO a b \<longleftrightarrow> a < b \<or> a = b"

instance
proof
  fix x y z :: CompactTXO
  show "x < y \<longleftrightarrow> x \<le> y \<and> \<not> y \<le> x" by (auto simp: less_CompactTXO_def less_eq_CompactTXO_def)
  show "x \<le> x" by (simp add: less_eq_CompactTXO_def)
  show "x \<le> y \<Longrightarrow> y \<le> z \<Longrightarrow> x \<le> z" by (auto simp: less_CompactTXO_def less_eq_CompactTXO_def)
  show "x \<le> y \<Longrightarrow> y \<le> x \<Longrightarrow> x = y" by (auto simp: less_CompactTXO_def less_eq_CompactTXO_def)
  show "x \<le> y \<or> y \<le> x"
    by (cases x; cases y) (auto simp: less_CompactTXO_def less_eq_CompactTXO_def)
qed

end

definition ctxo_txNum :: "CompactTXO \<Rightarrow> TxNum" where "ctxo_txNum c = ucast (compact_txNum c)"
definition ctxo_N :: "CompactTXO \<Rightarrow> IONum" where "ctxo_N c = ucast (compact_n c)"
definition ctxo_isValid :: "CompactTXO \<Rightarrow> bool" where "ctxo_isValid c \<longleftrightarrow> c \<noteq> CompactTXO_default"

abbreviation (input) ctxo_minSize :: nat where "ctxo_minSize \<equiv> 8"
abbreviation (input) ctxo_maxSize :: nat where "ctxo_maxSize \<equiv> 9"
abbreviation (input) compactTxNumSize :: nat where "compactTxNumSize \<equiv> 6"

definition ctxo_serializedSize :: "bool \<Rightarrow> CompactTXO \<Rightarrow> nat" where
  "ctxo_serializedSize wide c = (if wide \<or> unat (compact_n c) > IONum16Max then ctxo_maxSize else ctxo_minSize)"

text \<open>\<open>shr8 k w\<close> is the C++ expression \<open>std::byte(w >> k & 0xff)\<close>.\<close>

definition shr8 :: "nat \<Rightarrow> 'a::len word \<Rightarrow> byte" where
  "shr8 k w = ucast (drop_bit k w AND 0xff)"

definition txNumFromCompactBytes :: "bytes \<Rightarrow> bool \<Rightarrow> TxNum" where
  "txNumFromCompactBytes bs bigEndian =
     (if bigEndian then
        push_bit 40 (ucast (bs ! 0)) OR push_bit 32 (ucast (bs ! 1)) OR push_bit 24 (ucast (bs ! 2)) OR
        push_bit 16 (ucast (bs ! 3)) OR push_bit 8 (ucast (bs ! 4)) OR push_bit 0 (ucast (bs ! 5))
      else
        push_bit 0 (ucast (bs ! 0)) OR push_bit 8 (ucast (bs ! 1)) OR push_bit 16 (ucast (bs ! 2)) OR
        push_bit 24 (ucast (bs ! 3)) OR push_bit 32 (ucast (bs ! 4)) OR push_bit 40 (ucast (bs ! 5)))"

definition txNumToCompactBytes :: "bytes \<Rightarrow> TxNum \<Rightarrow> bool \<Rightarrow> bytes" where
  "txNumToCompactBytes buf num bigEndian =
     (if bigEndian then
        buf[0 := shr8 40 num, 1 := shr8 32 num, 2 := shr8 24 num, 3 := shr8 16 num, 4 := shr8 8 num, 5 := shr8 0 num]
      else
        buf[0 := shr8 0 num, 1 := shr8 8 num, 2 := shr8 16 num, 3 := shr8 24 num, 4 := shr8 32 num, 5 := shr8 40 num])"

text \<open>The returned number of bytes and the buffer; \<open>bufsz\<close> is the length of the buffer.\<close>

definition ctxo_toBytesInPlace :: "CompactTXO \<Rightarrow> bytes \<Rightarrow> bool \<Rightarrow> bool \<Rightarrow> nat \<times> bytes" where
  "ctxo_toBytesInPlace c buf wide bigEndian =
     (let sersize = ctxo_serializedSize wide c; n = compact_n c
      in if length buf \<ge> sersize then
           let buf = txNumToCompactBytes buf (ucast (compact_txNum c)) bigEndian
           in if bigEndian then
                let offset = (if sersize = ctxo_maxSize then 1 else 0);
                    buf = (if sersize = ctxo_maxSize then buf[6 := shr8 16 n] else buf)
                in (sersize, buf[6 + offset := shr8 8 n, 7 + offset := shr8 0 n])
              else
                let buf = buf[6 := shr8 0 n, 7 := shr8 8 n]
                in (sersize, if sersize = ctxo_maxSize then buf[8 := shr8 16 n] else buf)
         else (0, buf))"

text \<open>The array is allocated uninitialised; every byte of it is then written (\<open>toBytesInPlace_exact\<close>).\<close>

definition ctxo_toBytes :: "CompactTXO \<Rightarrow> bool \<Rightarrow> bool \<Rightarrow> bytes" where
  "ctxo_toBytes c wide bigEndian = snd (ctxo_toBytesInPlace c (replicate (ctxo_serializedSize wide c) 0) wide bigEndian)"

definition ctxo_fromBytes :: "bytes \<Rightarrow> bool \<Rightarrow> CompactTXO" where
  "ctxo_fromBytes b bigEndian =
     (let sz = length b
      in if sz = ctxo_minSize \<or> sz = ctxo_maxSize then
           let txNum = txNumFromCompactBytes b bigEndian;
               n = (if bigEndian then
                      let offset = (if sz = ctxo_maxSize then 1 else 0);
                          n = (if sz = ctxo_maxSize then push_bit 16 (ucast (b ! 6)) else 0) :: IONum
                      in n OR (push_bit 8 (ucast (b ! (6 + offset))) OR ucast (b ! (7 + offset)))
                    else
                      let n = ucast (b ! 6) OR push_bit 8 (ucast (b ! 7))
                      in if sz = ctxo_maxSize then n OR push_bit 16 (ucast (b ! 8)) else n)
           in CompactTXO (ucast txNum) (ucast n)
         else CompactTXO_default)"

datatype txo_error = InternalError string

definition ctxo_fromBytesInPlaceExactSizeRequired :: "bytes \<Rightarrow> bool \<Rightarrow> (txo_error, CompactTXO) result" where
  "ctxo_fromBytesInPlaceExactSizeRequired buf bigEndian =
     (if length buf \<noteq> ctxo_minSize \<and> length buf \<noteq> ctxo_maxSize
      then Inl (InternalError ''CompactTXO::fromBytesInPlaceExactSizeRequired was given an invalid size'')
      else Inr (ctxo_fromBytes buf bigEndian))"

section \<open>TXO\<close>

datatype TXO = TXO (txHash: bytes) (outN: IONum)

definition TXO_default :: TXO where "TXO_default = TXO [] 0"

instantiation TXO :: linorder
begin

definition less_TXO :: "TXO \<Rightarrow> TXO \<Rightarrow> bool" where
  "less_TXO a b \<longleftrightarrow> txHash a < txHash b \<or> txHash a = txHash b \<and> outN a < outN b"

definition less_eq_TXO :: "TXO \<Rightarrow> TXO \<Rightarrow> bool" where
  "less_eq_TXO a b \<longleftrightarrow> a < b \<or> a = b"

instance
proof
  fix x y z :: TXO
  show "x < y \<longleftrightarrow> x \<le> y \<and> \<not> y \<le> x" by (auto simp: less_TXO_def less_eq_TXO_def)
  show "x \<le> x" by (simp add: less_eq_TXO_def)
  show "x \<le> y \<Longrightarrow> y \<le> z \<Longrightarrow> x \<le> z" by (auto simp: less_TXO_def less_eq_TXO_def)
  show "x \<le> y \<Longrightarrow> y \<le> x \<Longrightarrow> x = y" by (auto simp: less_TXO_def less_eq_TXO_def)
  show "x \<le> y \<or> y \<le> x" by (cases x; cases y) (auto simp: less_TXO_def less_eq_TXO_def)
qed

end

definition txo_isValid :: "TXO \<Rightarrow> bool" where "txo_isValid t \<longleftrightarrow> length (txHash t) = HashLen"

abbreviation (input) txo_minSize :: nat where "txo_minSize \<equiv> HashLen + 2"
abbreviation (input) txo_maxSize :: nat where "txo_maxSize \<equiv> HashLen + 3"

definition txo_serializedSize :: "bool \<Rightarrow> TXO \<Rightarrow> nat" where
  "txo_serializedSize wide t = (if wide \<or> unat (outN t) > IONum16Max then txo_maxSize else txo_minSize)"

definition txo_toBytes :: "TXO \<Rightarrow> bool \<Rightarrow> bytes" where
  "txo_toBytes t wide =
     (if \<not> txo_isValid t then []
      else txHash t @ [shr8 0 (outN t), shr8 8 (outN t)] @
           (if txo_serializedSize wide t = txo_maxSize then [shr8 16 (outN t)] else []))"

definition txo_fromBytes :: "bytes \<Rightarrow> TXO" where
  "txo_fromBytes ba =
     (if length ba \<noteq> txo_minSize \<and> length ba \<noteq> txo_maxSize then TXO_default
      else
        let buf = drop HashLen ba;
            n = push_bit 0 (ucast (buf ! 0)) OR push_bit 8 (ucast (buf ! 1)) :: IONum
        in TXO (take HashLen ba) (if length ba = txo_maxSize then n OR push_bit 16 (ucast (buf ! 2)) else n))"

section \<open>Encodings as little and big endian numbers\<close>

lemma shr8_eq: "shr8 k w = ucast (drop_bit k w)"
  by (simp add: shr8_def and_255)

lemma le_enc_6: "le_enc 6 w = [shr8 0 w, shr8 8 w, shr8 16 w, shr8 24 w, shr8 32 w, shr8 40 w]"
  by (simp add: shr8_eq eval_nat_numeral)

lemma le_enc_23: "le_enc 2 w = [shr8 0 w, shr8 8 w]" "le_enc 3 w = [shr8 0 w, shr8 8 w, shr8 16 w]"
  by (simp_all add: shr8_eq eval_nat_numeral)

lemma length6E: "length xs = 6 \<Longrightarrow> (\<And>a b c d e f. xs = [a, b, c, d, e, f] \<Longrightarrow> P) \<Longrightarrow> P"
  by (auto simp: length_Suc_conv eval_nat_numeral)

lemma ucast_dec: "ucast (le_dec bs :: 'a::len word) = (le_dec bs :: 'b::len word)" if "LENGTH('b) \<le> LENGTH('a)"
  using that by (intro bit_word_eqI) (auto simp: bit_simps bit_le_dec)

lemma le_enc_ucast: "8 * k \<le> LENGTH('a) \<Longrightarrow> LENGTH('a) \<le> LENGTH('b) \<Longrightarrow> le_enc k (ucast (w :: 'a::len word) :: 'b::len word) = le_enc k w"
  by (rule nth_equalityI) (auto simp: nth_le_enc bit_simps intro!: bit_word_eqI dest: bit_imp_le_length)

lemma txNumFromCompactBytes_eq:
  assumes "length bs = 6"
  shows "txNumFromCompactBytes (bs @ r) bigEndian = (if bigEndian then be_dec bs else le_dec bs)"
proof -
  obtain a b c d e f where "bs = [a, b, c, d, e, f]" using assms by (rule length6E)
  then show ?thesis by (simp add: txNumFromCompactBytes_def be_dec_def push_bit_or or.assoc or.commute or.left_commute)
qed

definition num_enc :: "bool \<Rightarrow> nat \<Rightarrow> 'a::len word \<Rightarrow> bytes" where
  "num_enc bigEndian k w = (if bigEndian then be_enc k w else le_enc k w)"

definition num_dec :: "bool \<Rightarrow> bytes \<Rightarrow> 'a::len word" where
  "num_dec bigEndian bs = (if bigEndian then be_dec bs else le_dec bs)"

lemma length_num_enc [simp, len_simps]: "length (num_enc be k w) = k"
  by (simp add: num_enc_def)

lemma num_dec_enc: "unat (w :: 'a::len word) < 2 ^ (8 * k) \<Longrightarrow> num_dec be (num_enc be k w) = w"
  by (simp add: num_enc_def num_dec_def le_dec_le_enc be_dec_be_enc take_bit_word_small)

lemma length_buf_cases:
  assumes "length (buf :: 'a list) = 8 \<or> length buf = 9"
  obtains a b c d e f g h where "buf = [a, b, c, d, e, f, g, h]"
  | a b c d e f g h i where "buf = [a, b, c, d, e, f, g, h, i]"
  using assms by (auto simp: length_Suc_conv eval_nat_numeral)

lemma toBytesInPlace_exact:
  assumes "length buf = ctxo_serializedSize wide c"
  shows "ctxo_toBytesInPlace c buf wide bigEndian =
    (ctxo_serializedSize wide c,
     num_enc bigEndian 6 (compact_txNum c) @ num_enc bigEndian (ctxo_serializedSize wide c - 6) (compact_n c))"
proof -
  have l: "length buf = 8 \<or> length buf = 9" using assms by (auto simp: ctxo_serializedSize_def)
  have u: "le_enc 6 (ucast (compact_txNum c) :: u64) = le_enc 6 (compact_txNum c)" by (rule le_enc_ucast) simp_all
  note defs = ctxo_toBytesInPlace_def num_enc_def be_enc_def txNumToCompactBytes_def
  from l show ?thesis
  proof (cases buf rule: length_buf_cases)
    case 1
    then have "ctxo_serializedSize wide c = 8" using assms by simp
    then show ?thesis using 1 u by (simp add: defs le_enc_6 le_enc_23 Let_def)
  next
    case 2
    then have "ctxo_serializedSize wide c = 9" using assms by simp
    then show ?thesis using 2 u by (simp add: defs le_enc_6 le_enc_23 Let_def)
  qed
qed

lemma ctxo_toBytes_eq:
  "ctxo_toBytes c wide bigEndian =
     num_enc bigEndian 6 (compact_txNum c) @ num_enc bigEndian (ctxo_serializedSize wide c - 6) (compact_n c)"
  by (simp add: ctxo_toBytes_def toBytesInPlace_exact)

lemma length_ctxo_toBytes [simp, len_simps]: "length (ctxo_toBytes c wide bigEndian) = ctxo_serializedSize wide c"
  by (simp add: ctxo_toBytes_eq ctxo_serializedSize_def)

lemma ctxo_fromBytes_eq:
  assumes "length bs = 6" "length ns = 2 \<or> length ns = 3"
  shows "ctxo_fromBytes (bs @ ns) bigEndian = CompactTXO (num_dec bigEndian bs) (num_dec bigEndian ns)"
proof -
  have t: "ucast (txNumFromCompactBytes (bs @ ns) bigEndian) = (num_dec bigEndian bs :: 48 word)"
    by (simp add: txNumFromCompactBytes_eq assms num_dec_def be_dec_def ucast_dec)
  consider x y where "ns = [x, y]" | x y z where "ns = [x, y, z]"
    using assms(2) by (auto simp: length_Suc_conv eval_nat_numeral)
  then show ?thesis
  proof cases
    case 1
    have "ucast (push_bit 8 (ucast x) OR ucast y :: IONum) = (be_dec [x, y] :: 24 word)"
      "ucast (ucast x OR push_bit 8 (ucast y) :: IONum) = (le_dec [x, y] :: 24 word)"
      using ucast_dec[of "[y, x]", where 'a = 32 and 'b = 24] ucast_dec[of "[x, y]", where 'a = 32 and 'b = 24]
      by (simp_all add: be_dec_def or.commute)
    then show ?thesis using assms(1) t 1 by (simp add: ctxo_fromBytes_def num_dec_def nth_append)
  next
    case 2
    have "ucast (push_bit 16 (ucast x) OR (push_bit 8 (ucast y) OR ucast z) :: IONum) = (be_dec [x, y, z] :: 24 word)"
      "ucast ((ucast x OR push_bit 8 (ucast y)) OR push_bit 16 (ucast z) :: IONum) = (le_dec [x, y, z] :: 24 word)"
      using ucast_dec[of "[z, y, x]", where 'a = 32 and 'b = 24] ucast_dec[of "[x, y, z]", where 'a = 32 and 'b = 24]
      by (simp_all add: be_dec_def push_bit_or or.assoc or.commute or.left_commute)
    then show ?thesis using assms(1) t 2 by (simp add: ctxo_fromBytes_def num_dec_def nth_append)
  qed
qed

lemma n_fits: "unat (compact_n c) < 2 ^ (8 * (ctxo_serializedSize wide c - 6))"
  using unat_bound[of "compact_n c"] by (simp add: ctxo_serializedSize_def)

lemma ctxo_fromBytes_toBytes [simp, codec_simps]: "ctxo_fromBytes (ctxo_toBytes c wide bigEndian) bigEndian = c"
proof -
  have "unat (compact_txNum c) < 2 ^ (8 * 6)" using unat_bound[of "compact_txNum c"] by simp
  then show ?thesis
    using n_fits[of c wide] unfolding ctxo_toBytes_eq
    by (subst ctxo_fromBytes_eq) (auto simp: num_dec_enc ctxo_serializedSize_def)
qed

lemma txo_fromBytes_toBytes:
  assumes "txo_isValid t" "unat (outN t) < 2 ^ 24"
  shows "txo_fromBytes (txo_toBytes t wide) = t"
proof (cases "txo_serializedSize wide t = txo_maxSize")
  case True
  have "num_dec False (num_enc False 3 (outN t)) = outN t" using assms(2) by (intro num_dec_enc) simp
  then show ?thesis using True assms(1)
    by (cases t) (simp add: txo_toBytes_def txo_fromBytes_def txo_isValid_def num_dec_def num_enc_def le_enc_23
        push_bit_or or.assoc)
next
  case False
  then have "unat (outN t) < 2 ^ (8 * 2)" by (simp add: txo_serializedSize_def split: if_splits)
  then have "num_dec False (num_enc False 2 (outN t)) = outN t" by (rule num_dec_enc)
  then show ?thesis using False assms(1)
    by (cases t) (simp add: txo_toBytes_def txo_fromBytes_def txo_isValid_def num_dec_def num_enc_def le_enc_23
        txo_serializedSize_def split: if_splits)
qed

lemma txo_toBytes_inj:
  assumes "txo_isValid a" "txo_isValid b" "unat (outN a) < 2 ^ 24" "unat (outN b) < 2 ^ 24"
    and "txo_toBytes a w = txo_toBytes b w'"
  shows "a = b"
  using txo_fromBytes_toBytes[OF assms(1,3), of w] txo_fromBytes_toBytes[OF assms(2,4), of w'] assms(5) by metis

lemma length_txo_toBytes [len_simps]: "txo_isValid t \<Longrightarrow> length (txo_toBytes t wide) = txo_serializedSize wide t"
  by (auto simp: txo_toBytes_def txo_isValid_def txo_serializedSize_def)

text \<open>Two keys compare as their parts do.\<close>

lemma lex_append_same_iff:
  fixes xs ys :: "'a::linorder list"
  assumes "length xs = length ys"
  shows "xs @ us < ys @ vs \<longleftrightarrow> xs < ys \<or> xs = ys \<and> us < vs"
  using assms by (induction xs ys rule: list_induct2) auto

lemma be_enc_less_iff:
  fixes a b :: "'a::len word"
  assumes "LENGTH('a) \<le> 8 * n"
  shows "be_enc n a < be_enc n b \<longleftrightarrow> a < b"
proof -
  have le: "(2::nat) ^ LENGTH('a) \<le> 2 ^ (8 * n)" using assms by (intro power_increasing) auto
  have "x < y \<Longrightarrow> be_enc n x < be_enc n y" for x y :: "'a word"
    using unat_bound[of y] le by (intro be_enc_mono) linarith+
  then show ?thesis by (metis less_asym linorder_neqE)
qed

lemma be_enc_inject: "LENGTH('a) \<le> 8 * n \<Longrightarrow> be_enc n a = be_enc n b \<longleftrightarrow> (a :: 'a::len word) = b"
  by (metis be_dec_be_enc_full)

text \<open>A \<open>CompactTXO\<close> is read back exactly from each of its encodings, short or wide, little or big endian,
  through the size-checked reader too; and whatever an uninitialised buffer of the right size held
  before, \<open>toBytesInPlace\<close> leaves exactly those bytes in it.\<close>

theorem compact_txo_roundtrip:
  "ctxo_fromBytes (ctxo_toBytes c wide bigEndian) bigEndian = c \<and>
   ctxo_fromBytesInPlaceExactSizeRequired (ctxo_toBytes c wide bigEndian) bigEndian = Inr c \<and>
   (length buf = ctxo_serializedSize wide c \<longrightarrow>
      ctxo_toBytesInPlace c buf wide bigEndian = (length buf, ctxo_toBytes c wide bigEndian))"
  by (auto simp: ctxo_fromBytesInPlaceExactSizeRequired_def toBytesInPlace_exact ctxo_toBytes_eq[symmetric])
     (simp_all add: ctxo_serializedSize_def split: if_splits)

end
