(* ===== verification/Packed_Num.thy ===== *)
theory Packed_Num
  imports Txo_Codec
begin

text \<open>
  \<open>PackedNumView.h\<close>: a read-only view of a byte buffer as an array of unsigned integers of 3 to 7 bytes
  each. The template arguments are parameters: \<open>bpe\<close> is \<open>bytesPerElement\<close>, \<open>le\<close> is \<open>LittleEndian\<close>,
  and the word type \<open>'a\<close> is \<open>UInt\<close>. The host is little endian, so \<open>htole\<close> and \<open>le64toh\<close> are the
  identity and \<open>htobe\<close> and \<open>be64toh\<close> reverse the bytes. Iterators are indices.
\<close>

datatype pnv_error = invalid_argument string | out_of_range string

definition sizeof :: "'a::len word itself \<Rightarrow> nat" where
  "sizeof _ = LENGTH('a) div 8"

text \<open>\<open>UInt\<close> is \<open>uint32_t\<close> up to 32 bits and \<open>uint64_t\<close> above.\<close>

definition pnv_types_ok :: "'a::len word itself \<Rightarrow> nat \<Rightarrow> bool" where
  "pnv_types_ok _ bpe \<longleftrightarrow> 3 \<le> bpe \<and> bpe < 8 \<and> LENGTH('a) = (if bpe \<le> 4 then 32 else 64)"

definition pnv_new :: "nat \<Rightarrow> bytes \<Rightarrow> bool \<Rightarrow> (pnv_error, bytes) result" where
  "pnv_new bpe packedBuffer throwIfJunkAtEnd =
     (if throwIfJunkAtEnd \<and> length packedBuffer mod bpe \<noteq> 0
      then Inl (invalid_argument ''packedBuffer must have a length that is a multiple of bytesPerElement!'')
      else Inr packedBuffer)"

definition pnv_size :: "nat \<Rightarrow> bytes \<Rightarrow> nat" where
  "pnv_size bpe buf = length buf div bpe"

definition viewForElement :: "nat \<Rightarrow> bytes \<Rightarrow> nat \<Rightarrow> bytes" where
  "viewForElement bpe buf index = take bpe (drop (bpe * index) buf)"

text \<open>\<open>memcpy(dst + off, src, n)\<close> with \<open>n\<close> the length of \<open>src\<close>.\<close>

definition memcpy_at :: "nat \<Rightarrow> bytes \<Rightarrow> bytes \<Rightarrow> bytes" where
  "memcpy_at off src dst = take off dst @ src @ drop (off + length src) dst"

text \<open>\<open>operator[]\<close> on an index in range; the memory of \<open>ret\<close> starts out zero.\<close>

definition pnv_get :: "nat \<Rightarrow> bool \<Rightarrow> bytes \<Rightarrow> nat \<Rightarrow> 'a::len word" where
  "pnv_get bpe le buf i =
     (let ebytes = viewForElement bpe buf i;
          sz = sizeof TYPE('a word);
          cpy_pos = (if \<not> le \<and> bpe < sz then sz - bpe else 0);
          ret = memcpy_at cpy_pos ebytes (replicate sz 0)
      in if le then le_dec ret else be_dec ret)"

definition pnv_at :: "nat \<Rightarrow> bool \<Rightarrow> bytes \<Rightarrow> nat \<Rightarrow> (pnv_error, 'a::len word) result" where
  "pnv_at bpe le buf i =
     (if i \<ge> pnv_size bpe buf then Inl (out_of_range ''Index exceeds size of array'') else Inr (pnv_get bpe le buf i))"

definition pnv_max :: "nat \<Rightarrow> 'a::len word" where
  "pnv_max bpe = ucast (push_bit (8 * bpe) 1 - 1 :: u64)"

definition pack_element :: "nat \<Rightarrow> bool \<Rightarrow> 'a::len word \<Rightarrow> bytes" where
  "pack_element bpe le packed =
     (let sz = sizeof TYPE('a word)
      in if le then take bpe (le_enc sz packed)
         else take bpe (drop (if bpe < sz then sz - bpe else 0) (be_enc sz packed)))"

definition pnv_Make :: "'a::len word itself \<Rightarrow> nat \<Rightarrow> bool \<Rightarrow> bytes \<Rightarrow> 'b::len word list \<Rightarrow> bool \<Rightarrow> (pnv_error, bytes) result" where
  "pnv_Make T bpe le outBuffer srcInts allowLongerOutputBuffer =
     (if length outBuffer mod bpe \<noteq> 0 then Inl (invalid_argument ''outBuffer's size must be a multiple of bytesPerElement!'')
      else
        let nOutputElems = length outBuffer div bpe
        in if \<not> allowLongerOutputBuffer \<and> nOutputElems > length srcInts
           then Inl (invalid_argument ''outputBuffer's size is larger than what srcInts requires'')
           else
             let nIters = min nOutputElems (length srcInts);
                 buf = fold (\<lambda>i buf. memcpy_at (i * bpe) (pack_element bpe le (ucast (srcInts ! i) :: 'a word)) buf)
                         [0..<nIters] outBuffer;
                 buf = (if nIters < nOutputElems
                        then take (nIters * bpe) buf @ replicate (length buf - nIters * bpe) 0 else buf)
             in pnv_new bpe buf True)"

text \<open>\<open>std::lower_bound\<close> on the index range \<open>[first, first + count)\<close>: the first element that does
  not precede the value.\<close>

function std_lower_bound :: "(nat \<Rightarrow> bool) \<Rightarrow> nat \<Rightarrow> nat \<Rightarrow> nat" where
  "std_lower_bound before first count =
     (if count > 0 then
        let step = count div 2; it = first + step
        in if before it then std_lower_bound before (it + 1) (count - (step + 1))
           else std_lower_bound before first step
      else first)"
  by pat_completeness auto
termination
  by (relation "measure (\<lambda>(before, first, count). count)") auto

declare std_lower_bound.simps [simp del]

definition pnv_lower_bound :: "nat \<Rightarrow> bool \<Rightarrow> bytes \<Rightarrow> 'a::len word \<Rightarrow> bool \<Rightarrow> nat" where
  "pnv_lower_bound bpe le buf val isReverseSorted =
     (if isReverseSorted then std_lower_bound (\<lambda>i. pnv_get bpe le buf i > val) 0 (pnv_size bpe buf)
      else std_lower_bound (\<lambda>i. pnv_get bpe le buf i < val) 0 (pnv_size bpe buf))"

definition pnv_find :: "nat \<Rightarrow> bool \<Rightarrow> bytes \<Rightarrow> 'a::len word \<Rightarrow> bool \<Rightarrow> nat" where
  "pnv_find bpe le buf val isReverseSorted =
     (let it = pnv_lower_bound bpe le buf val isReverseSorted; e = pnv_size bpe buf
      in if it \<noteq> e \<and> pnv_get bpe le buf it \<noteq> val then e else it)"

section \<open>Searching\<close>

text \<open>On a range where the elements that precede the value come first, the search returns the border.\<close>

lemma std_lower_bound_ok:
  assumes "\<And>i j. first \<le> i \<Longrightarrow> i \<le> j \<Longrightarrow> j < first + count \<Longrightarrow> before j \<Longrightarrow> before i"
  shows "first \<le> std_lower_bound before first count \<and> std_lower_bound before first count \<le> first + count \<and>
    (\<forall>i. first \<le> i \<and> i < first + count \<longrightarrow> (before i \<longleftrightarrow> i < std_lower_bound before first count))"
  using assms
proof (induction before first count rule: std_lower_bound.induct)
  case (1 before first count)
  show ?case
  proof (cases "count = 0")
    case True
    then show ?thesis by (auto simp: std_lower_bound.simps)
  next
    case False
    then have c: "count > 0" by simp
    define it where "it = first + count div 2"
    have it: "it < first + count" using c by (simp add: it_def)
    show ?thesis
    proof (cases "before it")
      case True
      define k where "k = std_lower_bound before (it + 1) (count - (count div 2 + 1))"
      have e: "std_lower_bound before first count = k"
        using c True unfolding k_def by (subst std_lower_bound.simps) (simp add: it_def Let_def)
      have s: "it + 1 + (count - (count div 2 + 1)) = first + count" using c by (simp add: it_def)
      have k: "it + 1 \<le> k" "k \<le> first + count" "\<And>i. it + 1 \<le> i \<Longrightarrow> i < first + count \<Longrightarrow> before i \<longleftrightarrow> i < k"
        using 1(1)[OF c refl it_def True] 1(3) s unfolding k_def by (auto simp: it_def)
      have "before i \<longleftrightarrow> i < k" if "first \<le> i" "i < first + count" for i
        using k(3)[of i] k(1) 1(3)[of i it] True that it by (cases "i \<le> it") auto
      moreover have "first \<le> k" using k(1) by (simp add: it_def)
      ultimately show ?thesis using e k(2) by simp
    next
      case False
      define k where "k = std_lower_bound before first (count div 2)"
      have e: "std_lower_bound before first count = k"
        using c False unfolding k_def by (subst std_lower_bound.simps) (simp add: it_def Let_def)
      have k: "first \<le> k" "k \<le> it" "\<And>i. first \<le> i \<Longrightarrow> i < it \<Longrightarrow> before i \<longleftrightarrow> i < k"
        using 1(2)[OF c refl it_def False] 1(3) it unfolding k_def by (auto simp: it_def)
      have "before i \<longleftrightarrow> i < k" if "first \<le> i" "i < first + count" for i
        using k(3)[of i] k(2) 1(3)[of it i] False that by (cases "i < it") (auto simp: it_def)
      then show ?thesis using e k(1,2) it by simp
    qed
  qed
qed

lemma view_length: "i < pnv_size bpe buf \<Longrightarrow> length (viewForElement bpe buf i) = bpe"
proof -
  assume "i < pnv_size bpe buf"
  then have "bpe * Suc i \<le> bpe * (length buf div bpe)" by (intro mult_le_mono2) (simp add: pnv_size_def)
  also have "\<dots> \<le> length buf" by simp
  finally show ?thesis by (simp add: viewForElement_def)
qed

lemma sizeof_le: "pnv_types_ok TYPE('a::len word) bpe \<Longrightarrow> bpe \<le> sizeof TYPE('a word)"
  by (simp add: pnv_types_ok_def sizeof_def split: if_splits)

lemma pnv_get_eq:
  assumes "pnv_types_ok TYPE('a::len word) bpe" "i < pnv_size bpe buf"
  shows "pnv_get bpe le buf i = (num_dec (\<not> le) (viewForElement bpe buf i) :: 'a word)"
  using sizeof_le[OF assms(1)]
  by (auto simp: pnv_get_def memcpy_at_def view_length[OF assms(2)] num_dec_def be_dec_def le_dec_zeros Let_def)

lemma pack_element_eq:
  assumes "pnv_types_ok TYPE('a::len word) bpe"
  shows "pack_element bpe le (w :: 'a word) = num_enc (\<not> le) bpe w"
  using sizeof_le[OF assms] drop_be_enc[of bpe "sizeof TYPE('a word)" w]
  by (auto simp: pack_element_def num_enc_def take_le_enc Let_def)

text \<open>Searching a packed array. If the elements are sorted (descending when \<open>isReverseSorted\<close>), \<open>lower_bound\<close>
  is the number of elements that precede the value, and \<open>find\<close> returns a position holding it
  exactly when some element equals it, and \<open>end()\<close> otherwise.\<close>

theorem packed_find_correct:
  fixes val :: "'a::len word"
  assumes "\<forall>i j. i \<le> j \<and> j < pnv_size bpe buf \<longrightarrow>
    (if desc then pnv_get bpe le buf j \<le> (pnv_get bpe le buf i :: 'a word) else pnv_get bpe le buf i \<le> (pnv_get bpe le buf j :: 'a word))"
  shows "(\<forall>i < pnv_size bpe buf. i < pnv_lower_bound bpe le buf val desc \<longleftrightarrow>
      (if desc then pnv_get bpe le buf i > val else pnv_get bpe le buf i < val)) \<and>
    pnv_find bpe le buf val desc \<le> pnv_size bpe buf \<and>
    (pnv_find bpe le buf val desc < pnv_size bpe buf \<longleftrightarrow> (\<exists>i < pnv_size bpe buf. pnv_get bpe le buf i = val)) \<and>
    (pnv_find bpe le buf val desc < pnv_size bpe buf \<longrightarrow> pnv_get bpe le buf (pnv_find bpe le buf val desc) = val)"
proof -
  define n where "n = pnv_size bpe buf"
  define before where "before i \<longleftrightarrow> (if desc then pnv_get bpe le buf i > val else pnv_get bpe le buf i < val)" for i
  define k where "k = pnv_lower_bound bpe le buf val desc"
  have k_eq: "k = std_lower_bound before 0 n"
    unfolding k_def pnv_lower_bound_def n_def before_def by simp
  have mono: "before j \<Longrightarrow> before i" if "i \<le> j" "j < n" for i j
    using assms[rule_format, of i j] that unfolding before_def n_def by (auto split: if_splits)
  then have k: "k \<le> n" "\<And>i. i < n \<Longrightarrow> before i \<longleftrightarrow> i < k"
    using std_lower_bound_ok[of 0 n before] unfolding k_eq by auto
  have f: "pnv_find bpe le buf val desc = (if k \<noteq> n \<and> pnv_get bpe le buf k \<noteq> val then n else k)"
    by (simp add: pnv_find_def k_def n_def Let_def)
  have at_k: "pnv_get bpe le buf k = val" if "i < n" "pnv_get bpe le buf i = val" for i
  proof -
    have "\<not> before i" using that(2) by (simp add: before_def)
    then have i: "k \<le> i" using k(2)[OF that(1)] by simp
    then have "\<not> before k" using k(2)[of k] that(1) by simp
    then show ?thesis using assms[rule_format, of k i] i that unfolding before_def n_def by (auto split: if_splits)
  qed
  have k_n: "k < n" if "i < n" "pnv_get bpe le buf i = val" for i
    using k(2)[OF that(1)] that by (auto simp: before_def split: if_splits)
  have a: "pnv_find bpe le buf val desc < n \<longleftrightarrow> (\<exists>i < n. pnv_get bpe le buf i = val)"
  proof
    assume l: "pnv_find bpe le buf val desc < n"
    then have "pnv_get bpe le buf k = val \<and> k < n" unfolding f using k(1) by (auto split: if_splits)
    then show "\<exists>i < n. pnv_get bpe le buf i = val" by (intro exI[of _ k]) simp
  next
    assume "\<exists>i < n. pnv_get bpe le buf i = val"
    then obtain i where i: "i < n" "pnv_get bpe le buf i = val" by blast
    show "pnv_find bpe le buf val desc < n" unfolding f using at_k[OF i] k_n[OF i] by simp
  qed
  have b: "pnv_find bpe le buf val desc < n \<longrightarrow> pnv_get bpe le buf (pnv_find bpe le buf val desc) = val"
    unfolding f by (simp split: if_split)
  have c: "pnv_find bpe le buf val desc \<le> n" unfolding f using k(1) by simp
  have d: "\<forall>i < n. i < k \<longleftrightarrow> before i" using k(2) by blast
  show ?thesis using a b c d unfolding n_def k_def before_def by blast
qed

section \<open>Building a packed array\<close>

lemma memcpy_at_append: "off = length xs \<Longrightarrow> memcpy_at off src (xs @ ys) = xs @ src @ drop (length src) ys"
  by (simp add: memcpy_at_def)

lemma length_concat_const: "(\<And>x. x \<in> set xs \<Longrightarrow> length (f x) = n) \<Longrightarrow> length (concat (map f xs)) = length xs * n"
  by (induction xs) auto

lemma make_fold:
  assumes "\<And>i. length (e i) = bpe" "k * bpe \<le> length out"
  shows "fold (\<lambda>i buf. memcpy_at (i * bpe) (e i) buf) [0..<k] out = concat (map e [0..<k]) @ drop (k * bpe) out"
  using assms(2)
proof (induction k)
  case 0
  then show ?case by simp
next
  case (Suc k)
  have "length (concat (map e [0..<k])) = k * bpe" using length_concat_const[of "[0..<k]" e bpe] assms(1) by simp
  then show ?case using Suc assms(1) by (simp add: memcpy_at_append add.commute)
qed

lemma view_concat:
  assumes "\<And>x. x \<in> set xs \<Longrightarrow> length (f x) = bpe" "i < length xs"
  shows "viewForElement bpe (concat (map f xs) @ ys) i = f (xs ! i)"
  using assms
proof (induction xs arbitrary: i)
  case (Cons x xs)
  show ?case
  proof (cases i)
    case 0
    then show ?thesis using Cons.prems by (simp add: viewForElement_def)
  next
    case (Suc j)
    have "viewForElement bpe (concat (map f (x # xs)) @ ys) i = viewForElement bpe (concat (map f xs) @ ys) j"
      using Cons.prems(1)[of x] Suc by (simp add: viewForElement_def)
    then show ?thesis using Cons.IH[of j] Cons.prems Suc by simp
  qed
qed simp

lemma view_zeros:
  assumes "length xs = k * bpe" "k \<le> i" "i < n"
  shows "viewForElement bpe (xs @ replicate (n * bpe - k * bpe) 0) i = replicate bpe 0"
proof -
  have "Suc i * bpe \<le> n * bpe" using assms(3) by (intro mult_le_mono1) simp
  then have "bpe \<le> n * bpe - i * bpe" by simp
  moreover have "k * bpe \<le> i * bpe" using assms(2) by (rule mult_le_mono1)
  ultimately show ?thesis using assms(1) unfolding viewForElement_def mult.commute[of bpe i] by (simp add: min_def)
qed

lemma num_dec_num_enc: "num_dec be (num_enc be n w) = (take_bit (8 * n) w :: 'a::len word)"
  by (simp add: num_dec_def num_enc_def le_dec_le_enc be_dec_be_enc)

lemma num_dec_zeros: "num_dec be (replicate n 0) = (0 :: 'a::len word)"
  using le_dec_zeros[of "[]" n] by (simp add: num_dec_def be_dec_def)

lemma pnv_Make_ok:
  fixes src :: "'b::len word list"
  assumes T: "pnv_types_ok TYPE('a::len word) bpe" and l: "length outBuffer = n * bpe" and a: "allow \<or> n \<le> length src"
  shows "pnv_Make TYPE('a word) bpe le outBuffer src allow =
    Inr (concat (map (\<lambda>i. num_enc (\<not> le) bpe (ucast (src ! i) :: 'a word)) [0..<min n (length src)]) @
         replicate (n * bpe - min n (length src) * bpe) 0)"
proof -
  define e where "e i = num_enc (\<not> le) bpe (ucast (src ! i) :: 'a word)" for i
  define k where "k = min n (length src)"
  have pos: "bpe > 0" using T by (simp add: pnv_types_ok_def)
  have k: "k * bpe \<le> n * bpe" by (simp add: k_def)
  have "fold (\<lambda>i buf. memcpy_at (i * bpe) (pack_element bpe le (ucast (src ! i) :: 'a word)) buf) [0..<k] outBuffer =
      concat (map e [0..<k]) @ drop (k * bpe) outBuffer"
    unfolding pack_element_eq[OF T] e_def by (rule make_fold) (use k l in simp_all)
  moreover have len: "length (concat (map e [0..<k])) = k * bpe" using length_concat_const[of "[0..<k]" e bpe] by (simp add: e_def)
  moreover have "concat (map e [0..<k]) @ drop (k * bpe) outBuffer = concat (map e [0..<k]) @ replicate (n * bpe - k * bpe) 0"
    if "\<not> k < n" using that l by (simp add: k_def)
  ultimately have "pnv_Make TYPE('a word) bpe le outBuffer src allow =
      pnv_new bpe (concat (map e [0..<k]) @ replicate (n * bpe - k * bpe) 0) True"
    using a pos l k unfolding pnv_Make_def by (auto simp: k_def Let_def)
  then show ?thesis using len k unfolding pnv_new_def e_def k_def by simp
qed

text \<open>Building a packed array succeeds on a buffer of whole elements (not longer than the input, unless that is
  allowed) and reading any element back gives the input number cut to the element's width, and zero
  beyond the input.\<close>

lemma packed_make_roundtrip:
  fixes src :: "'b::len word list"
  assumes "pnv_types_ok TYPE('a::len word) bpe" and "length outBuffer = n * bpe" and "allow \<or> n \<le> length src"
  shows "\<exists>buf. pnv_Make TYPE('a word) bpe le outBuffer src allow = Inr buf \<and> length buf = length outBuffer \<and>
    (\<forall>i. pnv_at bpe le buf i =
      (if i < n then Inr (if i < length src then take_bit (8 * bpe) (ucast (src ! i)) else 0 :: 'a word)
       else Inl (out_of_range ''Index exceeds size of array'')))"
proof -
  define f where "f i = num_enc (\<not> le) bpe (ucast (src ! i) :: 'a word)" for i
  define k where "k = min n (length src)"
  define buf where "buf = concat (map f [0..<k]) @ replicate (n * bpe - k * bpe) 0"
  have pos: "bpe > 0" using assms(1) by (simp add: pnv_types_ok_def)
  have len: "length (concat (map f [0..<k])) = k * bpe" using length_concat_const[of "[0..<k]" f bpe] by (simp add: f_def)
  have k: "k * bpe \<le> n * bpe" by (simp add: k_def)
  have bl: "length buf = n * bpe" using k by (simp add: buf_def len)
  then have sz: "pnv_size bpe buf = n" using pos by (simp add: pnv_size_def)
  have "pnv_get bpe le buf i = (if i < length src then take_bit (8 * bpe) (ucast (src ! i)) else 0 :: 'a word)" if "i < n" for i
  proof (cases "i < length src")
    case True
    then have "i < k" using that by (simp add: k_def)
    then have "viewForElement bpe buf i = f i" unfolding buf_def by (subst view_concat) (simp_all add: f_def)
    then show ?thesis using pnv_get_eq[OF assms(1), of i buf le] that True by (simp add: sz f_def num_dec_num_enc)
  next
    case False
    then have "viewForElement bpe buf i = replicate bpe 0" unfolding buf_def by (intro view_zeros[OF len]) (use that in \<open>simp_all add: k_def\<close>)
    then show ?thesis using pnv_get_eq[OF assms(1), of i buf le] that False by (simp add: sz num_dec_zeros)
  qed
  then have "\<forall>i. pnv_at bpe le buf i =
      (if i < n then Inr (if i < length src then take_bit (8 * bpe) (ucast (src ! i)) else 0 :: 'a word)
       else Inl (out_of_range ''Index exceeds size of array''))" by (simp add: pnv_at_def sz)
  moreover have "pnv_Make TYPE('a word) bpe le outBuffer src allow = Inr buf"
    using pnv_Make_ok[OF assms, of le] unfolding buf_def f_def k_def .
  ultimately show ?thesis using bl assms(2) by simp
qed

end
