(* ===== verification/Token_Data.thy ===== *)
theory Token_Data
  imports Txo_Codec
begin

text \<open>
  Token data on transaction outputs (\<open>bitcoin/token.{h,cpp}\<close>), the overflow-checked amounts of
  \<open>bitcoin/script.h\<close> it builds on, the prefix helpers of \<open>BTC.cpp\<close>, and the UTXO database value
  \<open>TXOInfo\<close> (\<open>TXO.h\<close>) that carries it. Signed 64-bit integers are words read with \<open>sint\<close>. The four
  token exceptions are all \<open>std::ios_base::failure\<close>; they differ in their message.
\<close>

section \<open>ScriptIntBase and SafeAmount\<close>

type_synonym int64 = "64 word"

definition valid64BitRange :: "int64 \<Rightarrow> bool" where
  "valid64BitRange x \<longleftrightarrow> sint x \<noteq> - (2 ^ 63)"

definition fromInt :: "int64 \<Rightarrow> int64 option" where
  "fromInt x = (if \<not> valid64BitRange x then None else Some x)"

text \<open>\<open>__builtin_add_overflow\<close> and its kin: the wrapped result, and whether it is the exact one.\<close>

definition overflows :: "int \<Rightarrow> bool" where
  "overflows r \<longleftrightarrow> r < - (2 ^ 63) \<or> 2 ^ 63 \<le> r"

definition safe_result :: "int \<Rightarrow> int64 option" where
  "safe_result r = (let x = word_of_int r in if overflows r then None else if \<not> valid64BitRange x then None else Some x)"

definition safeAdd :: "int64 \<Rightarrow> int64 \<Rightarrow> int64 option" where "safeAdd v x = safe_result (sint v + sint x)"
definition safeSub :: "int64 \<Rightarrow> int64 \<Rightarrow> int64 option" where "safeSub v x = safe_result (sint v - sint x)"
definition safeMul :: "int64 \<Rightarrow> int64 \<Rightarrow> int64 option" where "safeMul v x = safe_result (sint v * sint x)"

definition safeBitwiseAnd :: "int64 \<Rightarrow> int64 \<Rightarrow> int64 option" where
  "safeBitwiseAnd v x = (if \<not> valid64BitRange (v AND x) then None else Some (v AND x))"

text \<open>C++ division truncates towards zero.\<close>

definition script_div :: "int64 \<Rightarrow> int64 \<Rightarrow> int64" where
  "script_div v x =
     (if x = - 1 \<and> \<not> valid64BitRange v then v
      else word_of_int (sgn (sint v) * sgn (sint x) * (\<bar>sint v\<bar> div \<bar>sint x\<bar>)))"

definition script_mod :: "int64 \<Rightarrow> int64 \<Rightarrow> int64" where
  "script_mod v x =
     (if x = - 1 \<and> \<not> valid64BitRange v then 0
      else word_of_int (sgn (sint v) * (\<bar>sint v\<bar> mod \<bar>sint x\<bar>)))"

definition script_uminus :: "int64 \<Rightarrow> int64" where
  "script_uminus v = (if valid64BitRange v then - v else v)"

definition SafeAmount_fromInt :: "int64 \<Rightarrow> int64 option" where
  "SafeAmount_fromInt x = (case fromInt x of Some r \<Rightarrow> if sint r < 0 then None else Some r | None \<Rightarrow> None)"

abbreviation (input) AmountOutOfRangeError :: ser_error where "AmountOutOfRangeError \<equiv> ios_failure ''Token amount out of range''"
abbreviation (input) AmountMustNotBeZeroError :: ser_error where "AmountMustNotBeZeroError \<equiv> ios_failure ''Serialized token amount may not be 0''"
abbreviation (input) CommitmentMustNotBeEmptyError :: ser_error where "CommitmentMustNotBeEmptyError \<equiv> ios_failure ''Serialized token commitment may not be empty''"
abbreviation (input) InvalidBitfieldError :: ser_error where "InvalidBitfieldError \<equiv> ios_failure ''Invalid token bitfield''"

definition INT64_MAX :: nat where "INT64_MAX = 2 ^ 63 - 1"

definition check_amount :: "u64 \<Rightarrow> (ser_error, unit) result" where
  "check_amount val =
     (if unat val > INT64_MAX then Inl AmountOutOfRangeError
      else if val = 0 then Inl AmountMustNotBeZeroError else Inr ())"

definition Serialize_SafeAmount :: "int64 \<Rightarrow> (ser_error, bytes) result" where
  "Serialize_SafeAmount a = (let out = CompactSize_Ser a in rbind (check_amount a) (\<lambda>_. Inr out))"

definition Unserialize_SafeAmount :: "stream_ctx \<Rightarrow> (ser_error, int64) parser" where
  "Unserialize_SafeAmount is =
     p_then (CompactSize_Unser is False) (\<lambda>val.
       case check_amount val of Inl e \<Rightarrow> p_fail e | Inr _ \<Rightarrow> p_return val)"

definition Serialize_NFTCommitment :: "bytes \<Rightarrow> (ser_error, bytes) result" where
  "Serialize_NFTCommitment c = (let out = Serialize_bytevec c in if c = [] then Inl CommitmentMustNotBeEmptyError else Inr out)"

definition Unserialize_NFTCommitment :: "stream_ctx \<Rightarrow> (ser_error, bytes) parser" where
  "Unserialize_NFTCommitment is =
     p_then (Unserialize_bytevec is) (\<lambda>c. if c = [] then p_fail CommitmentMustNotBeEmptyError else p_return c)"

section \<open>OutputData\<close>

record OutputData =
  td_id :: bytes
  bitfield :: byte
  td_amount :: int64
  commitment :: bytes

definition PREFIX_BYTE :: byte where "PREFIX_BYTE = 0xef"

definition OutputData_default :: OutputData where
  "OutputData_default = \<lparr> td_id = replicate 32 0, bitfield = 0, td_amount = 0, commitment = [] \<rparr>"

definition Structure_HasAmount :: byte where "Structure_HasAmount = 0x10"
definition Structure_HasNFT :: byte where "Structure_HasNFT = 0x20"
definition Structure_HasCommitmentLength :: byte where "Structure_HasCommitmentLength = 0x40"
definition Capability_Mutable :: byte where "Capability_Mutable = 0x01"
definition Capability_Minting :: byte where "Capability_Minting = 0x02"

definition GetCapability :: "OutputData \<Rightarrow> byte" where "GetCapability d = bitfield d AND 0x0f"
definition HasNFT :: "OutputData \<Rightarrow> bool" where "HasNFT d \<longleftrightarrow> bitfield d AND Structure_HasNFT \<noteq> 0"
definition HasAmount :: "OutputData \<Rightarrow> bool" where "HasAmount d \<longleftrightarrow> bitfield d AND Structure_HasAmount \<noteq> 0"
definition HasCommitmentLength :: "OutputData \<Rightarrow> bool" where
  "HasCommitmentLength d \<longleftrightarrow> bitfield d AND Structure_HasCommitmentLength \<noteq> 0"

definition IsMintingNFT :: "OutputData \<Rightarrow> bool" where "IsMintingNFT d \<longleftrightarrow> HasNFT d \<and> GetCapability d = Capability_Minting"
definition IsMutableNFT :: "OutputData \<Rightarrow> bool" where "IsMutableNFT d \<longleftrightarrow> HasNFT d \<and> GetCapability d = Capability_Mutable"
definition IsImmutableNFT :: "OutputData \<Rightarrow> bool" where "IsImmutableNFT d \<longleftrightarrow> HasNFT d \<and> GetCapability d = 0"
definition IsFungibleOnly :: "OutputData \<Rightarrow> bool" where "IsFungibleOnly d \<longleftrightarrow> \<not> HasNFT d"

definition IsValidBitfield :: "OutputData \<Rightarrow> bool" where
  "IsValidBitfield d =
     (let s = bitfield d AND 0xf0
      in if s \<ge> 0x80 \<or> s = 0 then False
         else if bitfield d AND 0x0f > 2 then False
         else if \<not> HasNFT d \<and> \<not> HasAmount d then False
         else if \<not> HasNFT d \<and> bitfield d AND 0x0f \<noteq> 0 then False
         else if \<not> HasNFT d \<and> HasCommitmentLength d then False
         else True)"

definition SetId :: "bytes \<Rightarrow> OutputData \<Rightarrow> OutputData" where "SetId i d = d\<lparr>td_id := i\<rparr>"

definition set_bit_if :: "bool \<Rightarrow> byte \<Rightarrow> byte \<Rightarrow> byte" where
  "set_bit_if b m x = (if b then x OR m else x AND NOT m)"

definition SetAmount :: "int64 \<Rightarrow> bool \<Rightarrow> OutputData \<Rightarrow> OutputData" where
  "SetAmount amt autoSetBitfield d =
     (let d = d\<lparr>td_amount := amt\<rparr>
      in if autoSetBitfield then d\<lparr>bitfield := set_bit_if (sint amt \<noteq> 0) Structure_HasAmount (bitfield d)\<rparr> else d)"

definition SetCommitment :: "bytes \<Rightarrow> bool \<Rightarrow> OutputData \<Rightarrow> OutputData" where
  "SetCommitment c autoSetBitfield d =
     (let d = d\<lparr>commitment := c\<rparr>
      in if autoSetBitfield then d\<lparr>bitfield := set_bit_if (c \<noteq> []) Structure_HasCommitmentLength (bitfield d)\<rparr> else d)"

definition SetNFT :: "bool \<Rightarrow> bool \<Rightarrow> bool \<Rightarrow> bool \<Rightarrow> OutputData \<Rightarrow> OutputData" where
  "SetNFT hasnft ismutable isminting unchecked d =
     (let bf = set_bit_if hasnft Structure_HasNFT (bitfield d);
          isminting = (if \<not> unchecked then hasnft \<and> isminting else isminting);
          ismutable = (if \<not> unchecked then hasnft \<and> ismutable \<and> \<not> isminting else ismutable);
          bf = (if \<not> unchecked then bf AND 0xf0 else bf);
          bf = set_bit_if isminting Capability_Minting bf;
          bf = set_bit_if ismutable Capability_Mutable bf
      in d\<lparr>bitfield := bf\<rparr>)"

definition OutputData_new :: "bytes \<Rightarrow> int64 \<Rightarrow> bytes \<Rightarrow> bool \<Rightarrow> bool \<Rightarrow> bool \<Rightarrow> bool \<Rightarrow> OutputData" where
  "OutputData_new i amt comm hasNFT isMutableNFT isMintingNFT uncheckedNFT =
     (let d = OutputData_default\<lparr>td_id := i\<rparr>;
          d = SetAmount amt True d;
          d = SetCommitment comm True d
      in SetNFT hasNFT isMutableNFT isMintingNFT uncheckedNFT d)"

definition Serialize_OutputData :: "OutputData \<Rightarrow> (ser_error, bytes) result" where
  "Serialize_OutputData d =
     (let out = td_id d @ Serialize_int8 (bitfield d)
      in if \<not> IsValidBitfield d then Inl InvalidBitfieldError
         else
           rbind (if HasCommitmentLength d then Serialize_NFTCommitment (commitment d) else Inr []) (\<lambda>cs.
           rbind (if HasAmount d then Serialize_SafeAmount (td_amount d) else Inr []) (\<lambda>as.
             Inr (out @ cs @ as))))"

text \<open>Unserialising overwrites every field of an existing object, which therefore does not matter.\<close>

definition Unserialize_OutputData :: "stream_ctx \<Rightarrow> (ser_error, OutputData) parser" where
  "Unserialize_OutputData is =
     p_then (Unserialize_array 32) (\<lambda>i. p_then Unserialize_int8 (\<lambda>bf.
       let d = OutputData_default\<lparr>td_id := i, bitfield := bf\<rparr>
       in if \<not> IsValidBitfield d then p_fail InvalidBitfieldError
          else
            p_then (if HasCommitmentLength d then Unserialize_NFTCommitment is else p_return []) (\<lambda>c.
            p_then (if HasAmount d then Unserialize_SafeAmount is else p_return 0) (\<lambda>a.
              p_return (d\<lparr>commitment := c, td_amount := a\<rparr>)))))"

section \<open>Wrapped scripts and the database prefix\<close>

type_synonym OutputDataPtr = "OutputData option"

definition WrapScriptPubKey :: "OutputDataPtr \<Rightarrow> bytes \<Rightarrow> (ser_error, bytes) result" where
  "WrapScriptPubKey tokenData scriptPubKey =
     (case tokenData of
        Some d \<Rightarrow> rbind (Serialize_OutputData d) (\<lambda>ts. Inr (PREFIX_BYTE # ts @ scriptPubKey))
      | None \<Rightarrow> Inr scriptPubKey)"

definition network_ctx :: "u32 \<Rightarrow> stream_ctx" where
  "network_ctx nVersion = \<lparr> GetType = SER_NETWORK, GetVersion = nVersion \<rparr>"

definition UnwrapScriptPubKey :: "u32 \<Rightarrow> bool \<Rightarrow> bytes \<Rightarrow> (ser_error, OutputDataPtr \<times> bytes) result" where
  "UnwrapScriptPubKey nVersion throwIfUnparseableTokenData wspk =
     (if wspk \<noteq> [] \<and> hd wspk = PREFIX_BYTE then
        case Unserialize_OutputData (network_ctx nVersion) (tl wspk) of
          Inr (d, rest) \<Rightarrow>
            let token_data_size = length wspk - length rest in Inr (Some d, drop token_data_size wspk)
        | Inl e \<Rightarrow> if throwIfUnparseableTokenData then Inl e else Inr (None, wspk)
      else Inr (None, wspk))"

definition PROTOCOL_VERSION :: u32 where "PROTOCOL_VERSION = 70015"
definition SERIALIZE_TRANSACTION_USE_CASHTOKENS :: u32 where "SERIALIZE_TRANSACTION_USE_CASHTOKENS = 0x10000000"

definition DeserializeTokenDataWithPrefix :: "bytes \<Rightarrow> nat \<Rightarrow> (ser_error, OutputDataPtr) result" where
  "DeserializeTokenDataWithPrefix ba pos =
     (if length ba > pos then
        if ba ! pos \<noteq> PREFIX_BYTE then Inl (ios_failure ''Expected token prefix byte'')
        else
          case Unserialize_OutputData (network_ctx (PROTOCOL_VERSION OR SERIALIZE_TRANSACTION_USE_CASHTOKENS)) (drop (pos + 1) ba) of
            Inl e \<Rightarrow> Inl e
          | Inr (d, rest) \<Rightarrow>
              if rest \<noteq> [] then Inl (ios_failure ''Got unprocessed bytes at the end when deserializeing a bitcoin object'')
              else Inr (Some d)
      else Inr None)"

definition SerializeTokenDataWithPrefix :: "bytes \<Rightarrow> OutputDataPtr \<Rightarrow> (ser_error, bytes) result" where
  "SerializeTokenDataWithPrefix ba ptokenData =
     (case ptokenData of
        Some d \<Rightarrow> rbind (Serialize_OutputData d) (\<lambda>ts. Inr (ba @ [PREFIX_BYTE] @ ts))
      | None \<Rightarrow> Inr ba)"

section \<open>Token data is canonical\<close>

definition token_ok :: "stream_ctx \<Rightarrow> OutputData \<Rightarrow> bool" where
  "token_ok is d \<longleftrightarrow> length (td_id d) = 32 \<and> IsValidBitfield d \<and>
     (if HasCommitmentLength d then commitment d \<noteq> [] \<and> length (commitment d) \<le> max_elems is else commitment d = []) \<and>
     (if HasAmount d then td_amount d \<noteq> 0 \<and> unat (td_amount d) \<le> INT64_MAX else td_amount d = 0)"

definition token_bytes :: "OutputData \<Rightarrow> bytes" where
  "token_bytes d = td_id d @ [bitfield d] @
     (if HasCommitmentLength d then Serialize_bytevec (commitment d) else []) @
     (if HasAmount d then WriteCompactSize (td_amount d) else [])"

lemma Serialize_OutputData_ok: "token_ok is d \<Longrightarrow> Serialize_OutputData d = Inr (token_bytes d)"
  by (auto simp: token_ok_def Serialize_OutputData_def token_bytes_def Serialize_NFTCommitment_def
      Serialize_SafeAmount_def check_amount_def CompactSize_Ser_def Serialize_int8_def ser_writedata8_def Let_def split: if_splits)

lemma no_limit: "compact_limit is False MAX_SIZE = - 1"
  by (simp add: compact_limit_def)

lemma CompactSize_Unser_iff: "CompactSize_Unser is False s = Inr (v :: u64, rest) \<longleftrightarrow> s = WriteCompactSize v @ rest"
proof -
  have "CompactSize_Unser is False = (ReadCompactSize is False MAX_SIZE :: (ser_error, u64) parser)"
  proof -
    have "\<not> unat (- 1 :: u64) < unat (n :: u64)" for n unfolding word_less_nat_alt[symmetric] by simp
    then show ?thesis
      by (intro ext) (auto simp: CompactSize_Unser_def p_then_def split: sum.splits)
  qed
  then show ?thesis by (simp add: compact_size.unser_iff no_limit)
qed

lemma Unserialize_SafeAmount_iff:
  "Unserialize_SafeAmount is s = Inr (v, rest) \<longleftrightarrow> v \<noteq> 0 \<and> unat v \<le> INT64_MAX \<and> s = WriteCompactSize v @ rest"
proof -
  have step: "(case check_amount x of Inl e \<Rightarrow> p_fail e | Inr _ \<Rightarrow> p_return x) s' = Inr (v, rest) \<longleftrightarrow>
      v = x \<and> s' = rest \<and> x \<noteq> 0 \<and> unat x \<le> INT64_MAX" for x s'
    by (auto simp: check_amount_def)
  show ?thesis unfolding Unserialize_SafeAmount_def p_then_Inr_iff CompactSize_Unser_iff step by blast
qed

lemma Unserialize_NFTCommitment_iff:
  "Unserialize_NFTCommitment is s = Inr (c, rest) \<longleftrightarrow> c \<noteq> [] \<and> length c \<le> max_elems is \<and> s = Serialize_bytevec c @ rest"
  by (auto simp: Unserialize_NFTCommitment_def p_then_Inr_iff bytevec.unser_iff split: if_splits)

lemma OutputData_split:
  "OutputData_default\<lparr>td_id := td_id d, bitfield := bitfield d, commitment := commitment d, td_amount := td_amount d\<rparr> = d"
  by (cases d) (simp add: OutputData_default_def)

lemma flags_cong:
  assumes "bitfield d = bitfield e"
  shows "HasCommitmentLength d = HasCommitmentLength e" "HasAmount d = HasAmount e" "HasNFT d = HasNFT e"
    "IsValidBitfield d = IsValidBitfield e"
  unfolding HasCommitmentLength_def HasAmount_def HasNFT_def IsValidBitfield_def assms by (rule refl)+

lemma default_flags:
  "HasCommitmentLength (OutputData_default\<lparr>td_id := i, bitfield := bitfield d\<rparr>) = HasCommitmentLength d"
  "HasAmount (OutputData_default\<lparr>td_id := i, bitfield := bitfield d\<rparr>) = HasAmount d"
  "IsValidBitfield (OutputData_default\<lparr>td_id := i, bitfield := bitfield d\<rparr>) = IsValidBitfield d"
  by (rule flags_cong; simp)+

lemma Unserialize_OutputData_iff:
  "Unserialize_OutputData is s = Inr (d, rest) \<longleftrightarrow> token_ok is d \<and> s = token_bytes d @ rest" (is "?l \<longleftrightarrow> ?r")
proof
  assume ?l
  then obtain i bf s1 c s2 a where *: "length i = 32" "s = i @ bf # s1"
      "IsValidBitfield (OutputData_default\<lparr>td_id := i, bitfield := bf\<rparr>)"
      "(if HasCommitmentLength (OutputData_default\<lparr>td_id := i, bitfield := bf\<rparr>) then Unserialize_NFTCommitment is else p_return []) s1 = Inr (c, s2)"
      "(if HasAmount (OutputData_default\<lparr>td_id := i, bitfield := bf\<rparr>) then Unserialize_SafeAmount is else p_return 0) s2 = Inr (a, rest)"
      "d = OutputData_default\<lparr>td_id := i, bitfield := bf, commitment := c, td_amount := a\<rparr>"
    unfolding Unserialize_OutputData_def
    by (auto simp: p_then_Inr_iff Unserialize_array_def stream_read_Inr_iff Unserialize_int8_def ser_readdata8_iff Let_def split: if_splits)
  have d: "td_id d = i" "bitfield d = bf" "commitment d = c" "td_amount d = a" using *(6) by simp_all
  show ?r using *(1-5) unfolding d(2)[symmetric] default_flags
    by (auto simp: token_ok_def token_bytes_def d(1,3,4) Unserialize_NFTCommitment_iff Unserialize_SafeAmount_iff split: if_splits)
next
  assume r: ?r
  define s1 where "s1 = (if HasCommitmentLength d then Serialize_bytevec (commitment d) else []) @ (if HasAmount d then WriteCompactSize (td_amount d) else []) @ rest"
  define s2 where "s2 = (if HasAmount d then WriteCompactSize (td_amount d) else []) @ rest"
  have s: "s = td_id d @ bitfield d # s1" using r by (simp add: token_bytes_def s1_def)
  have c: "(if HasCommitmentLength d then Unserialize_NFTCommitment is else p_return []) s1 = Inr (commitment d, s2)"
    using r by (auto simp: Unserialize_NFTCommitment_iff token_ok_def s1_def s2_def)
  have a: "(if HasAmount d then Unserialize_SafeAmount is else p_return 0) s2 = Inr (td_amount d, rest)"
    using r by (auto simp: Unserialize_SafeAmount_iff token_ok_def s2_def)
  have "Unserialize_array 32 s = Inr (td_id d, bitfield d # s1)"
    using r s by (simp add: Unserialize_array_def stream_read_Inr_iff token_ok_def)
  moreover have "Unserialize_int8 (bitfield d # s1) = Inr (bitfield d, s1)" by (simp add: Unserialize_int8_def)
  moreover have "IsValidBitfield d" using r by (simp add: token_ok_def)
  ultimately show ?l using c a OutputData_split[of d]
    by (simp add: Unserialize_OutputData_def Let_def default_flags)
qed

interpretation token: canonical_codec token_bytes "Unserialize_OutputData is" "token_ok is" for "is"
  by (rule canonical_codecI) (rule Unserialize_OutputData_iff)

lemma Unwrap_cases:
  "UnwrapScriptPubKey nVersion thr wspk = Inr (td, spk) \<longleftrightarrow>
     (case td of
        Some d \<Rightarrow> token_ok (network_ctx nVersion) d \<and> wspk = PREFIX_BYTE # token_bytes d @ spk
      | None \<Rightarrow> spk = wspk \<and> (wspk \<noteq> [] \<longrightarrow> hd wspk = PREFIX_BYTE \<longrightarrow>
          \<not> thr \<and> (\<nexists>d rest. token_ok (network_ctx nVersion) d \<and> tl wspk = token_bytes d @ rest)))"
proof (cases "wspk \<noteq> [] \<and> hd wspk = PREFIX_BYTE")
  case True
  then obtain s where w: "wspk = PREFIX_BYTE # s" by (cases wspk) auto
  show ?thesis
  proof (cases "Unserialize_OutputData (network_ctx nVersion) s")
    case (Inl e)
    then have "\<nexists>d rest. token_ok (network_ctx nVersion) d \<and> s = token_bytes d @ rest"
      by (metis token.unser_iff sum.distinct(1))
    then show ?thesis using Inl by (cases td) (auto simp: UnwrapScriptPubKey_def w)
  next
    case (Inr p)
    obtain d rest where p: "p = (d, rest)" by (cases p)
    then have s: "token_ok (network_ctx nVersion) d" "s = token_bytes d @ rest" using Inr by (simp_all add: token.unser_iff)
    have "UnwrapScriptPubKey nVersion thr wspk = Inr (Some d, rest)"
      using Inr p s(2) by (simp add: UnwrapScriptPubKey_def w Let_def)
    then have "UnwrapScriptPubKey nVersion thr wspk = Inr (td, spk) \<longleftrightarrow>
        (\<exists>d'. td = Some d' \<and> Unserialize_OutputData (network_ctx nVersion) s = Inr (d', spk))"
      using Inr p by auto
    moreover have "\<exists>d rest. token_ok (network_ctx nVersion) d \<and> s = token_bytes d @ rest" using s by blast
    ultimately show ?thesis by (cases td) (simp_all add: w token.unser_iff PREFIX_BYTE_def)
  qed
next
  case False
  then show ?thesis by (cases td) (auto simp: UnwrapScriptPubKey_def)
qed

lemma Unwrap_total: "\<exists>td spk. UnwrapScriptPubKey nVersion False wspk = Inr (td, spk)"
  by (auto simp: UnwrapScriptPubKey_def Let_def split: sum.splits)

text \<open>C38: Unwrapping an output script never fails outside test mode and never loses a byte: what it returns,
  wrapped again, is the original script field, so a transaction's identifier survives parsing.
  Conversely, wrapping well-formed token data with any script and unwrapping gives both back.\<close>

theorem wrapped_script_lossless:
  "(\<exists>td spk. UnwrapScriptPubKey nVersion False wspk = Inr (td, spk) \<and> WrapScriptPubKey td spk = Inr wspk) \<and>
   (token_ok (network_ctx nVersion) d \<longrightarrow>
      rbind (WrapScriptPubKey (Some d) scriptPubKey) (UnwrapScriptPubKey nVersion thr) = Inr (Some d, scriptPubKey))"
proof
  obtain td spk where u: "UnwrapScriptPubKey nVersion False wspk = Inr (td, spk)" using Unwrap_total by blast
  then have "WrapScriptPubKey td spk = Inr wspk"
    by (cases td) (auto simp: Unwrap_cases WrapScriptPubKey_def Serialize_OutputData_ok)
  then show "\<exists>td spk. UnwrapScriptPubKey nVersion False wspk = Inr (td, spk) \<and> WrapScriptPubKey td spk = Inr wspk"
    using u by blast
  show "token_ok (network_ctx nVersion) d \<longrightarrow>
      rbind (WrapScriptPubKey (Some d) scriptPubKey) (UnwrapScriptPubKey nVersion thr) = Inr (Some d, scriptPubKey)"
    by (auto simp: WrapScriptPubKey_def Serialize_OutputData_ok Unwrap_cases)
qed

lemma prefix_roundtrip:
  assumes "\<And>d. td = Some d \<Longrightarrow> token_ok (network_ctx (PROTOCOL_VERSION OR SERIALIZE_TRANSACTION_USE_CASHTOKENS)) d"
  shows "\<exists>bs. SerializeTokenDataWithPrefix ba td = Inr (ba @ bs) \<and> DeserializeTokenDataWithPrefix (ba @ bs) (length ba) = Inr td"
proof (cases td)
  case None
  then show ?thesis by (auto simp: SerializeTokenDataWithPrefix_def DeserializeTokenDataWithPrefix_def)
next
  case (Some d)
  have ok: "token_ok (network_ctx (PROTOCOL_VERSION OR SERIALIZE_TRANSACTION_USE_CASHTOKENS)) d" using assms Some .
  show ?thesis
    using Some Serialize_OutputData_ok[OF ok] token.unser_ser[OF ok, of "[]"]
    by (intro exI[of _ "PREFIX_BYTE # token_bytes d"])
      (simp add: SerializeTokenDataWithPrefix_def DeserializeTokenDataWithPrefix_def nth_append)
qed

section \<open>Building token data\<close>

lemma bitfield_new:
  "bitfield (OutputData_new i amt comm hasNFT isMut isMint False) =
     (if amt \<noteq> 0 then 0x10 else 0) OR (if comm \<noteq> [] then 0x40 else 0) OR (if hasNFT then 0x20 else 0) OR
     (if hasNFT \<and> isMint then 2 else if hasNFT \<and> isMut then 1 else 0)"
  by (simp add: OutputData_new_def SetAmount_def SetCommitment_def SetNFT_def set_bit_if_def OutputData_default_def
      Structure_HasAmount_def Structure_HasCommitmentLength_def Structure_HasNFT_def Capability_Minting_def Capability_Mutable_def signed_eq_0_iff Let_def)

lemma fields_new:
  "td_id (OutputData_new i amt comm h m n u) = i" "td_amount (OutputData_new i amt comm h m n u) = amt"
  "commitment (OutputData_new i amt comm h m n u) = comm"
  by (simp_all add: OutputData_new_def SetAmount_def SetCommitment_def SetNFT_def Let_def)

lemmas flag_defs = HasNFT_def HasAmount_def HasCommitmentLength_def GetCapability_def Structure_HasAmount_def
  Structure_HasCommitmentLength_def Structure_HasNFT_def Capability_Minting_def Capability_Mutable_def

text \<open>The constructor builds token data that can be written: if it holds an NFT or a positive amount, and a
  commitment only with an NFT, its bitfield is valid, says exactly which parts are present, and
  gives minting precedence over mutable; serialising it and reading it back gives it again.\<close>

theorem token_constructor_valid:
  assumes "length i = 32" and "hasNFT \<or> amt \<noteq> 0" and "comm \<noteq> [] \<longrightarrow> hasNFT" and "unat amt \<le> INT64_MAX"
    and "length comm \<le> max_elems is"
  shows "let d = OutputData_new i amt comm hasNFT isMut isMint False in
    IsValidBitfield d \<and> HasNFT d = hasNFT \<and> HasAmount d = (amt \<noteq> 0) \<and> HasCommitmentLength d = (comm \<noteq> []) \<and>
    IsMintingNFT d = (hasNFT \<and> isMint) \<and> IsMutableNFT d = (hasNFT \<and> isMut \<and> \<not> isMint) \<and>
    (\<exists>bs. Serialize_OutputData d = Inr bs \<and> Unserialize_OutputData is (bs @ rest) = Inr (d, rest))"
proof -
  define d where "d = OutputData_new i amt comm hasNFT isMut isMint False"
  note b = bitfield_new[of i amt comm hasNFT isMut isMint, folded d_def]
  have v: "IsValidBitfield d" using assms(2,3) unfolding IsValidBitfield_def flag_defs b
    by (auto simp: Let_def)
  have f: "HasNFT d = hasNFT" "HasAmount d = (amt \<noteq> 0)" "HasCommitmentLength d = (comm \<noteq> [])"
    "IsMintingNFT d = (hasNFT \<and> isMint)" "IsMutableNFT d = (hasNFT \<and> isMut \<and> \<not> isMint)"
    unfolding IsMintingNFT_def IsMutableNFT_def flag_defs b by auto
  have "token_ok is d" using v f assms fields_new[of i amt comm hasNFT isMut isMint False, folded d_def]
    by (auto simp: token_ok_def)
  then have "\<exists>bs. Serialize_OutputData d = Inr bs \<and> Unserialize_OutputData is (bs @ rest) = Inr (d, rest)"
    by (auto simp: Serialize_OutputData_ok token.unser_ser)
  then show ?thesis using v f unfolding d_def Let_def by blast
qed

definition demo_token :: OutputData where
  "demo_token = OutputData_new (replicate 32 7) 1000 [1, 2] True False True False"

lemma demo_token_ok: "token_ok is demo_token"
proof -
  have b: "bitfield demo_token = 0x72" by (simp add: demo_token_def bitfield_new)
  have "2 \<le> max_elems is"
    using compact_limit_ge[of "is" True] by (simp add: MAX_SIZE_def word_le_nat_alt)
  then show ?thesis
    by (simp add: token_ok_def IsValidBitfield_def flag_defs b) (simp add: demo_token_def fields_new INT64_MAX_def)
qed

theorem wrapped_script_lossless_witness:
  "rbind (WrapScriptPubKey (Some demo_token) [0x51]) (UnwrapScriptPubKey 70015 True) = Inr (Some demo_token, [0x51])"
  using wrapped_script_lossless[of 70015 "[]" demo_token "[0x51]" True] demo_token_ok by blast

end
