(* ===== verification/Storage_Codecs.thy ===== *)
theory Storage_Codecs
  imports Token_Data VarInt_Codec
begin

text \<open>
  The rows of the server's tables as bytes: \<open>TXOInfo\<close> of \<open>TXO.h\<close> (the value of the UTXO table) and
  the serialisers at the end of \<open>Storage.cpp\<close> for block infos, transaction number lists, unspent
  entries and the undo information of a block. A C++ \<open>bool *ok\<close> out-parameter set to false is
  \<open>None\<close>, and a thrown exception \<open>Inl\<close>. The host is little endian.
\<close>

section \<open>TXOInfo\<close>

type_synonym BlockHeight = u32

record TXOInfo =
  ti_amount :: int64
  ti_hashX :: bytes
  ti_confirmedHeight :: "BlockHeight option"
  ti_txNum :: TxNum
  ti_tokenDataPtr :: OutputDataPtr

definition TXOInfo_default :: TXOInfo where
  "TXOInfo_default = \<lparr> ti_amount = 0, ti_hashX = [], ti_confirmedHeight = None, ti_txNum = 0, ti_tokenDataPtr = None \<rparr>"

definition txoinfo_isValid :: "TXOInfo \<Rightarrow> bool" where
  "txoinfo_isValid i \<longleftrightarrow> sint (ti_amount i) \<ge> 0 \<and> length (ti_hashX i) = HashLen"

definition kNoBlockHeight :: BlockHeight where "kNoBlockHeight = - 1"

abbreviation (input) txoinfo_minSerSize :: nat where "txoinfo_minSerSize \<equiv> 50"

definition txoinfo_toBytes :: "TXOInfo \<Rightarrow> (ser_error, bytes) result" where
  "txoinfo_toBytes i =
     (if \<not> txoinfo_isValid i then Inr []
      else
        let cheight = (case ti_confirmedHeight i of Some h \<Rightarrow> h | None \<Rightarrow> kNoBlockHeight);
            ret = le_enc 8 (ti_amount i) @ le_enc 4 cheight @
                  txNumToCompactBytes (replicate 6 0) (ti_txNum i) False @ ti_hashX i
        in SerializeTokenDataWithPrefix ret (ti_tokenDataPtr i))"

definition txoinfo_fromBytes :: "bytes \<Rightarrow> TXOInfo" where
  "txoinfo_fromBytes ba =
     (if length ba < txoinfo_minSerSize then TXOInfo_default
      else
        let amt = le_dec (take 8 ba);
            cheight = le_dec (take 4 (drop 8 ba));
            ret = \<lparr> ti_amount = amt, ti_hashX = take HashLen (drop 18 ba),
                    ti_confirmedHeight = (if cheight \<noteq> kNoBlockHeight then Some cheight else None),
                    ti_txNum = txNumFromCompactBytes (drop 12 ba) False, ti_tokenDataPtr = None \<rparr>
        in case DeserializeTokenDataWithPrefix ba 50 of
             Inl _ \<Rightarrow> TXOInfo_default
           | Inr td \<Rightarrow> ret\<lparr>ti_tokenDataPtr := td\<rparr>)"

section \<open>Serialisers of Storage.cpp\<close>

text \<open>\<open>Serialize<TXO>\<close>, \<open>Deserialize<TXO>\<close> and their siblings for \<open>TXOInfo\<close> and \<open>CompactTXO\<close>.\<close>

definition Serialize_TXO :: "TXO \<Rightarrow> bytes" where "Serialize_TXO txo = txo_toBytes txo False"

definition Deserialize_TXO :: "bytes \<Rightarrow> TXO option" where
  "Deserialize_TXO ba = (let ret = txo_fromBytes ba in if txo_isValid ret then Some ret else None)"

definition Serialize_TXOInfo :: "TXOInfo \<Rightarrow> (ser_error, bytes) result" where "Serialize_TXOInfo info = txoinfo_toBytes info"

definition Deserialize_TXOInfo :: "bytes \<Rightarrow> TXOInfo option" where
  "Deserialize_TXOInfo ba = (let ret = txoinfo_fromBytes ba in if txoinfo_isValid ret then Some ret else None)"

definition Deserialize_CompactTXO :: "bytes \<Rightarrow> CompactTXO option" where
  "Deserialize_CompactTXO b = (let ret = ctxo_fromBytes b False in if ctxo_isValid ret then Some ret else None)"

text \<open>\<open>SerializeScalar\<close> for a scalar of \<open>n\<close> bytes.\<close>

definition SerializeScalar :: "bool \<Rightarrow> nat \<Rightarrow> 'a::len word \<Rightarrow> bytes" where
  "SerializeScalar BigEndian n s = (if BigEndian then be_enc n s else le_enc n s)"

definition DeserializeScalar :: "bool \<Rightarrow> nat \<Rightarrow> bytes \<Rightarrow> nat \<Rightarrow> 'a::len word option \<times> nat" where
  "DeserializeScalar BigEndian n ba pos =
     (if pos + n \<le> length ba
      then (Some (let bs = take n (drop pos ba) in if BigEndian then be_dec bs else le_dec bs), pos + n)
      else (None, length ba))"

definition height_key :: "BlockHeight \<Rightarrow> bytes" where
  "height_key h = SerializeScalar True 4 h"

record BlkInfo =
  txNum0 :: TxNum
  nTx :: u32

definition BlkInfo_toBytes :: "bytes \<Rightarrow> BlkInfo \<Rightarrow> bytes" where
  "BlkInfo_toBytes buf b = buf @ SerializeScalar False 8 (txNum0 b) @ SerializeScalar False 4 (nTx b) @ replicate 4 0"

definition Deserialize_BlkInfo :: "bytes \<Rightarrow> BlkInfo option" where
  "Deserialize_BlkInfo ba =
     (if length ba \<noteq> 16 then None
      else
        case (fst (DeserializeScalar False 8 (take 8 ba) 0), fst (DeserializeScalar False 4 (take 4 (drop 8 ba)) 0)) of
          (Some t, Some n) \<Rightarrow> Some \<lparr> txNum0 = t, nTx = n \<rparr>
        | _ \<Rightarrow> None)"

definition Serialize_TxNumVec :: "TxNum list \<Rightarrow> bytes" where
  "Serialize_TxNumVec v = concat (map (\<lambda>num. txNumToCompactBytes (replicate 6 0) num False) v)"

definition Deserialize_TxNumVec :: "bytes \<Rightarrow> TxNum list option" where
  "Deserialize_TxNumVec ba =
     (let N = length ba div 6
      in if N * 6 \<noteq> length ba then None
         else Some (map (\<lambda>i. txNumFromCompactBytes (drop (6 * i) ba) False) [0..<N]))"

datatype db_error =
    DatabaseError string
  | DatabaseKeyNotFound string
  | DatabaseFormatError string
  | DatabaseSerializationError string
  | DbInternalError string
  | DbSerError ser_error

definition Serialize2 :: "int64 \<Rightarrow> OutputDataPtr \<Rightarrow> (ser_error, bytes) result" where
  "Serialize2 a ptok = SerializeTokenDataWithPrefix (SerializeScalar False 8 a) ptok"

record SHUnspentValue =
  shu_valid :: bool
  shu_amount :: int64
  shu_tokenDataPtr :: OutputDataPtr

definition Deserialize_SHUnspentValue :: "bytes \<Rightarrow> (db_error, SHUnspentValue) result" where
  "Deserialize_SHUnspentValue ba =
     (case DeserializeScalar False 8 ba 0 of
        (None, _) \<Rightarrow> Inr \<lparr> shu_valid = False, shu_amount = 0, shu_tokenDataPtr = None \<rparr>
      | (Some amt, pos) \<Rightarrow>
          case DeserializeTokenDataWithPrefix ba pos of
            Inl _ \<Rightarrow> Inl (DatabaseSerializationError ''Got exception deserializing token data in Storage.cpp::Deserialize()'')
          | Inr td \<Rightarrow> Inr \<lparr> shu_valid = True, shu_amount = amt, shu_tokenDataPtr = td \<rparr>)"

definition mkShunspentKey :: "bytes \<Rightarrow> CompactTXO \<Rightarrow> (db_error, bytes) result" where
  "mkShunspentKey hashX ctxo =
     (if length hashX \<noteq> HashLen then Inl (DbInternalError ''mkShunspentKey -- scripthash is not exactly 32 bytes'')
      else
        let ctxoSerLen = ctxo_serializedSize True ctxo;
            (nTxoSerBytes, tail) = ctxo_toBytesInPlace ctxo (replicate ctxoSerLen 0) True True
        in if nTxoSerBytes \<noteq> ctxoSerLen then Inl (DbInternalError ''mkShunspentKey -- nTxoSerBytes != ctxoSerLen! FIXME!'')
           else Inr (hashX @ tail))"

definition extractCompactTXOFromShunspentKey :: "bytes \<Rightarrow> bool \<Rightarrow> (db_error, CompactTXO) result" where
  "extractCompactTXOFromShunspentKey key legacy =
     (let ksz = length key
      in if (\<not> legacy \<or> ksz \<noteq> HashLen + ctxo_minSize) \<and> ksz \<noteq> HashLen + ctxo_maxSize
         then Inl (DbInternalError ''Key size for scripthash is invalid'')
         else
           case ctxo_fromBytesInPlaceExactSizeRequired (drop HashLen key) (\<not> legacy) of
             Inl (InternalError m) \<Rightarrow> Inl (DbInternalError m)
           | Inr ctxo \<Rightarrow>
               if \<not> ctxo_isValid ctxo then Inl (DbInternalError ''Deserialized CompactTXO is invalid for scripthash'')
               else Inr ctxo)"

definition extractShunspentKey :: "bytes \<Rightarrow> bool \<Rightarrow> (db_error, bytes \<times> CompactTXO) result" where
  "extractShunspentKey key legacy =
     rbind (extractCompactTXOFromShunspentKey key legacy) (\<lambda>ctxo. Inr (take HashLen key, ctxo))"

section \<open>Undo information\<close>

text \<open>The unordered set of script hashes is the list of its elements in iteration order.\<close>

record UndoInfo =
  u_height :: BlockHeight
  u_hash :: bytes
  u_blkInfo :: BlkInfo
  u_scriptHashes :: "bytes list"
  u_addUndos :: "(TXO \<times> bytes \<times> CompactTXO) list"
  u_delUndos :: "(TXO \<times> TXOInfo) list"
  u_deserVersion :: u16

definition UndoInfo_default :: UndoInfo where
  "UndoInfo_default = \<lparr> u_height = 0, u_hash = [], u_blkInfo = \<lparr> txNum0 = 0, nTx = 0 \<rparr>, u_scriptHashes = [],
     u_addUndos = [], u_delUndos = [], u_deserVersion = 0 \<rparr>"

definition undo_isValid :: "UndoInfo \<Rightarrow> bool" where "undo_isValid u \<longleftrightarrow> length (u_hash u) = HashLen"

record UndoInfoSerHeader =
  h_magic :: u16
  h_ver :: u16
  h_len :: u32
  h_nScriptHashes :: u32
  h_nAddUndos :: u32
  h_nDelUndos :: u32

abbreviation (input) defMagic :: u16 where "defMagic \<equiv> 0xf12c"
abbreviation (input) v1Ver :: u16 where "v1Ver \<equiv> 1"
abbreviation (input) v2Ver :: u16 where "v2Ver \<equiv> 2"
abbreviation (input) v3Ver :: u16 where "v3Ver \<equiv> 3"

text \<open>\<open>nScriptHashes * HashLen\<close> is a product of 32-bit integers; the other sizes are \<open>size_t\<close>.\<close>

definition computeTotalSize_V1 :: "UndoInfoSerHeader \<Rightarrow> u64" where
  "computeTotalSize_V1 h = 20 + 4 + 32 + 16 + ucast (h_nScriptHashes h * 32 :: u32) +
     ucast (h_nAddUndos h) * of_nat (txo_minSize + HashLen + ctxo_minSize) + ucast (h_nDelUndos h) * of_nat (txo_minSize + txoinfo_minSerSize)"

definition isLenSane_V1 :: "UndoInfoSerHeader \<Rightarrow> bool" where
  "isLenSane_V1 h \<longleftrightarrow> ucast (h_len h) = computeTotalSize_V1 h"

definition computeTotalSize_V2 :: "UndoInfoSerHeader \<Rightarrow> u64" where
  "computeTotalSize_V2 h = 20 + 4 + 32 + 16 + ucast (h_nScriptHashes h * 32 :: u32) +
     ucast (h_nAddUndos h) * of_nat (txo_maxSize + HashLen + ctxo_maxSize) + ucast (h_nDelUndos h) * of_nat (txo_maxSize + txoinfo_minSerSize)"

definition isLenSane_V2 :: "UndoInfoSerHeader \<Rightarrow> bool" where
  "isLenSane_V2 h \<longleftrightarrow> ucast (h_len h) = computeTotalSize_V2 h"

definition isLenMinimallySane_V3 :: "UndoInfoSerHeader \<Rightarrow> bool" where
  "isLenMinimallySane_V3 h \<longleftrightarrow> ucast (h_len h) \<ge> computeTotalSize_V2 h"

definition UndoInfoSerHeader_toBytes :: "UndoInfoSerHeader \<Rightarrow> bytes" where
  "UndoInfoSerHeader_toBytes h = le_enc 2 (h_magic h) @ le_enc 2 (h_ver h) @ le_enc 4 (h_len h) @
     le_enc 4 (h_nScriptHashes h) @ le_enc 4 (h_nAddUndos h) @ le_enc 4 (h_nDelUndos h)"

definition Deserialize_UndoInfoSerHeader :: "bytes \<Rightarrow> UndoInfoSerHeader option" where
  "Deserialize_UndoInfoSerHeader ba =
     (if length ba < 20 then None
      else Some \<lparr> h_magic = le_dec (take 2 ba), h_ver = le_dec (take 2 (drop 2 ba)), h_len = le_dec (take 4 (drop 4 ba)),
        h_nScriptHashes = le_dec (take 4 (drop 8 ba)), h_nAddUndos = le_dec (take 4 (drop 12 ba)), h_nDelUndos = le_dec (take 4 (drop 16 ba)) \<rparr>)"

definition ser_addUndo :: "TXO \<times> bytes \<times> CompactTXO \<Rightarrow> bytes" where
  "ser_addUndo a = (case a of (txo, hashX, ctxo) \<Rightarrow> txo_toBytes txo True @ hashX @ ctxo_toBytes ctxo True False)"

definition ser_delUndo :: "TXO \<times> TXOInfo \<Rightarrow> (db_error, bytes) result" where
  "ser_delUndo d =
     (case d of (txo, info) \<Rightarrow>
        case Serialize_TXOInfo info of
          Inl e \<Rightarrow> Inl (DbSerError e)
        | Inr serinfo \<Rightarrow>
            case varint_make False (of_nat (length serinfo) :: u32) of
              Inl _ \<Rightarrow> Inl (DbInternalError ''VarInt'')
            | Inr v \<Rightarrow> Inr (txo_toBytes txo True @ byteView v @ serinfo))"

text \<open>Every early return on a bad hash length returns the cleared buffer; in the last loop it is \<open>Inr None\<close>.\<close>

fun ser_delUndos :: "(TXO \<times> TXOInfo) list \<Rightarrow> (db_error, bytes option) result" where
  "ser_delUndos [] = Inr (Some [])"
| "ser_delUndos ((txo, info) # ds) =
     (if length (ti_hashX info) \<noteq> HashLen then Inr None
      else rbind (ser_delUndo (txo, info)) (\<lambda>b. rbind (ser_delUndos ds) (\<lambda>r. Inr (map_option (append b) r))))"

definition Serialize_UndoInfo :: "UndoInfo \<Rightarrow> (db_error, bytes) result" where
  "Serialize_UndoInfo u =
     (let hdr = \<lparr> h_magic = defMagic, h_ver = v3Ver, h_len = 0, h_nScriptHashes = of_nat (length (u_scriptHashes u)),
                  h_nAddUndos = of_nat (length (u_addUndos u)), h_nDelUndos = of_nat (length (u_delUndos u)) \<rparr>;
          hdr = hdr\<lparr>h_len := ucast (computeTotalSize_V2 hdr)\<rparr>;
          ret = UndoInfoSerHeader_toBytes hdr @ SerializeScalar False 4 (u_height u)
      in if length (u_hash u) \<noteq> HashLen then Inr []
         else
           let ret = BlkInfo_toBytes (ret @ u_hash u) (u_blkInfo u)
           in if \<exists>sh \<in> set (u_scriptHashes u). length sh \<noteq> HashLen then Inr []
              else if \<exists>(txo, hashX, ctxo) \<in> set (u_addUndos u). length hashX \<noteq> HashLen then Inr []
              else
                rbind (ser_delUndos (u_delUndos u)) (\<lambda>dels.
                  case dels of
                    None \<Rightarrow> Inr []
                  | Some ds \<Rightarrow>
                      let ret = ret @ concat (u_scriptHashes u) @ concat (map ser_addUndo (u_addUndos u)) @ ds
                      in if length ret < unat (h_len hdr) then Inr []
                         else Inr (take 4 ret @ le_enc 4 (of_nat (length ret) :: u32) @ drop 8 ret)))"

text \<open>
  Reading: \<open>cur\<close> is what is left of the array. Each step is \<open>None\<close> where \<open>chkAssertion\<close> fails. The
  header's length check makes the fixed-size fields lie within the array.
\<close>

fun deser_scriptHashes :: "nat \<Rightarrow> bytes list \<Rightarrow> bytes \<Rightarrow> (bytes list \<times> bytes) option" where
  "deser_scriptHashes 0 acc cur = Some (acc, cur)"
| "deser_scriptHashes (Suc n) acc cur =
     (if HashLen \<le> length cur
      then let h = take HashLen cur in deser_scriptHashes n (if h \<in> set acc then acc else acc @ [h]) (drop HashLen cur)
      else None)"

fun deser_addUndos :: "nat \<Rightarrow> nat \<Rightarrow> nat \<Rightarrow> bytes \<Rightarrow> ((TXO \<times> bytes \<times> CompactTXO) list \<times> bytes) option" where
  "deser_addUndos TXOSerSize CompactTXOSerSize 0 cur = Some ([], cur)"
| "deser_addUndos TXOSerSize CompactTXOSerSize (Suc n) cur =
     (if \<not> TXOSerSize \<le> length cur then None
      else
        Option.bind (Deserialize_TXO (take TXOSerSize cur)) (\<lambda>txo.
        let cur = drop TXOSerSize cur in
        if \<not> HashLen \<le> length cur then None
        else
          let hashX = take HashLen cur; cur = drop HashLen cur in
          if \<not> CompactTXOSerSize \<le> length cur then None
          else
            Option.bind (Deserialize_CompactTXO (take CompactTXOSerSize cur)) (\<lambda>ctxo.
            Option.bind (deser_addUndos TXOSerSize CompactTXOSerSize n (drop CompactTXOSerSize cur)) (\<lambda>(r, cur).
              Some ((txo, hashX, ctxo) # r, cur)))))"

text \<open>The size of the next \<open>TXOInfo\<close>: fixed before version 3, a VarInt from then on. \<open>int\<close> of a value
  past \<open>INT_MAX\<close> is negative and fails the check against the minimum.\<close>

definition deser_txoinfo_size :: "bool \<Rightarrow> bytes \<Rightarrow> (nat \<times> bytes) option" where
  "deser_txoinfo_size fixed cur =
     (if fixed then Some (txoinfo_minSerSize, cur)
      else
        case varint_deserialize cur of
          Inl _ \<Rightarrow> None
        | Inr (vi, cur) \<Rightarrow>
            case varint_value False vi of
              Inl _ \<Rightarrow> None
            | Inr (val :: u32) \<Rightarrow> if sint val < int txoinfo_minSerSize then None else Some (unat val, cur))"

fun deser_delUndos :: "bool \<Rightarrow> nat \<Rightarrow> nat \<Rightarrow> bytes \<Rightarrow> ((TXO \<times> TXOInfo) list \<times> bytes) option" where
  "deser_delUndos fixed TXOSerSize 0 cur = Some ([], cur)"
| "deser_delUndos fixed TXOSerSize (Suc n) cur =
     (if \<not> TXOSerSize \<le> length cur then None
      else
        Option.bind (Deserialize_TXO (take TXOSerSize cur)) (\<lambda>txo.
        let cur = drop TXOSerSize cur in
        if \<not> txoinfo_minSerSize \<le> length cur then None
        else
          Option.bind (deser_txoinfo_size fixed cur) (\<lambda>(txoinfo_size, cur).
          if \<not> (txoinfo_size \<ge> txoinfo_minSerSize \<and> txoinfo_size \<le> length cur) then None
          else
            Option.bind (Deserialize_TXOInfo (take txoinfo_size cur)) (\<lambda>info.
            Option.bind (deser_delUndos fixed TXOSerSize n (drop txoinfo_size cur)) (\<lambda>(r, cur).
              Some ((txo, info) # r, cur))))))"

definition undo_header_sane :: "UndoInfoSerHeader \<Rightarrow> nat \<Rightarrow> bool" where
  "undo_header_sane hdr len \<longleftrightarrow> sint (h_len hdr) = int len \<and> h_magic hdr = defMagic \<and>
     (h_ver hdr = v3Ver \<and> isLenMinimallySane_V3 hdr \<or> h_ver hdr = v2Ver \<and> isLenSane_V2 hdr \<or> h_ver hdr = v1Ver \<and> isLenSane_V1 hdr)"

definition Deserialize_UndoInfo :: "bytes \<Rightarrow> UndoInfo option" where
  "Deserialize_UndoInfo ba =
     (if \<not> length ba > 20 then None
      else
        Option.bind (Deserialize_UndoInfoSerHeader ba) (\<lambda>hdr.
        if \<not> undo_header_sane hdr (length ba) then None
        else
          let isV1 = (h_ver hdr = v1Ver); isV2 = (h_ver hdr = v2Ver);
              TXOSerSize = (if isV1 then txo_minSize else txo_maxSize);
              CompactTXOSerSize = (if isV1 then ctxo_minSize else ctxo_maxSize);
              cur = drop 20 ba;
              height = le_dec (take 4 cur);
              cur = drop 4 cur;
              hash = take HashLen cur;
              cur = drop HashLen cur
          in Option.bind (Deserialize_BlkInfo (take 16 cur)) (\<lambda>blkInfo.
             Option.bind (deser_scriptHashes (unat (h_nScriptHashes hdr)) [] (drop 16 cur)) (\<lambda>(scriptHashes, cur).
             Option.bind (deser_addUndos TXOSerSize CompactTXOSerSize (unat (h_nAddUndos hdr)) cur) (\<lambda>(addUndos, cur).
             Option.bind (deser_delUndos (isV1 \<or> isV2) TXOSerSize (unat (h_nDelUndos hdr)) cur) (\<lambda>(delUndos, cur).
             if cur \<noteq> [] then None
             else Some \<lparr> u_height = height, u_hash = hash, u_blkInfo = blkInfo, u_scriptHashes = scriptHashes,
               u_addUndos = addUndos, u_delUndos = delUndos, u_deserVersion = h_ver hdr \<rparr>))))))"

section \<open>Round trips\<close>

abbreviation token_ctx :: stream_ctx where
  "token_ctx \<equiv> network_ctx (PROTOCOL_VERSION OR SERIALIZE_TRANSACTION_USE_CASHTOKENS)"

definition info_ok :: "TXOInfo \<Rightarrow> bool" where
  "info_ok i \<longleftrightarrow> txoinfo_isValid i \<and> unat (ti_txNum i) < 2 ^ 48 \<and> ti_confirmedHeight i \<noteq> Some kNoBlockHeight \<and>
     (\<forall>d. ti_tokenDataPtr i = Some d \<longrightarrow> token_ok token_ctx d)"

lemma txNumToCompactBytes_eq: "length buf = 6 \<Longrightarrow> txNumToCompactBytes buf num False = le_enc 6 num"
  by (erule length6E) (simp add: txNumToCompactBytes_def le_enc_6)

lemma txNumFrom_le: "unat num < 2 ^ 48 \<Longrightarrow> txNumFromCompactBytes (le_enc 6 num @ r) False = num"
  using txNumFromCompactBytes_eq[of "le_enc 6 num" r False] num_dec_enc[of num 6 False]
  by (simp add: num_dec_def num_enc_def)

lemma txoinfo_roundtrip:
  assumes "info_ok i"
  shows "\<exists>bs. Serialize_TXOInfo i = Inr bs \<and> txoinfo_minSerSize \<le> length bs \<and> Deserialize_TXOInfo bs = Some i"
proof -
  define ch where "ch = (case ti_confirmedHeight i of Some h \<Rightarrow> h | None \<Rightarrow> kNoBlockHeight)"
  define pre where "pre = le_enc 8 (ti_amount i) @ le_enc 4 ch @ le_enc 6 (ti_txNum i) @ ti_hashX i"
  have v: "txoinfo_isValid i" using assms by (simp add: info_ok_def)
  then have hl: "length (ti_hashX i) = 32" by (simp add: txoinfo_isValid_def)
  then have pl: "length pre = 50" by (simp add: pre_def)
  obtain bs where b: "SerializeTokenDataWithPrefix pre (ti_tokenDataPtr i) = Inr (pre @ bs)"
      "DeserializeTokenDataWithPrefix (pre @ bs) 50 = Inr (ti_tokenDataPtr i)"
    using prefix_roundtrip[of "ti_tokenDataPtr i" pre] assms pl by (auto simp: info_ok_def)
  have ch: "(if ch \<noteq> kNoBlockHeight then Some ch else None) = ti_confirmedHeight i"
    using assms by (auto simp: ch_def info_ok_def split: option.splits)
  have s: "Serialize_TXOInfo i = Inr (pre @ bs)"
    using v b(1) by (simp add: Serialize_TXOInfo_def txoinfo_toBytes_def txNumToCompactBytes_eq pre_def ch_def Let_def)
  have parts: "take 8 (pre @ bs) = le_enc 8 (ti_amount i)" "take 4 (drop 8 (pre @ bs)) = le_enc 4 ch"
    "drop 12 (pre @ bs) = le_enc 6 (ti_txNum i) @ ti_hashX i @ bs" "take 32 (drop 18 (pre @ bs)) = ti_hashX i"
    using hl by (simp_all add: pre_def)
  have "txoinfo_fromBytes (pre @ bs) = i"
    using pl hl assms unfolding txoinfo_fromBytes_def parts
    by (simp add: b(2) ch txNumFrom_le info_ok_def Let_def)
  then have "Deserialize_TXOInfo (pre @ bs) = Some i" using v by (simp add: Deserialize_TXOInfo_def)
  then show ?thesis using s pl by auto
qed

lemma Serialize_TxNumVec_append: "Serialize_TxNumVec (xs @ ys) = Serialize_TxNumVec xs @ Serialize_TxNumVec ys"
  by (simp add: Serialize_TxNumVec_def)

lemma Serialize_TxNumVec_eq: "Serialize_TxNumVec v = concat (map (le_enc 6) v)"
  by (simp add: Serialize_TxNumVec_def txNumToCompactBytes_eq)

lemma length_Serialize_TxNumVec: "length (Serialize_TxNumVec v) = 6 * length v"
  unfolding Serialize_TxNumVec_eq by (induction v) simp_all

lemma nth_TxNumVec:
  "i < length v \<Longrightarrow> \<forall>n \<in> set v. unat n < 2 ^ 48 \<Longrightarrow> txNumFromCompactBytes (drop (6 * i) (concat (map (le_enc 6) v))) False = v ! i"
proof (induction v arbitrary: i)
  case (Cons n v)
  show ?case
  proof (cases i)
    case 0
    then show ?thesis using Cons.prems by (simp add: txNumFrom_le)
  next
    case (Suc j)
    then show ?thesis using Cons by simp
  qed
qed simp

lemma txnumvec_roundtrip: "\<forall>n \<in> set v. unat n < 2 ^ 48 \<Longrightarrow> Deserialize_TxNumVec (Serialize_TxNumVec v) = Some v"
  unfolding Deserialize_TxNumVec_def length_Serialize_TxNumVec
  by (auto simp: Serialize_TxNumVec_eq nth_TxNumVec Let_def intro: nth_equalityI)

lemma TXO_roundtrip: "txo_isValid t \<Longrightarrow> unat (outN t) < 2 ^ 24 \<Longrightarrow> Deserialize_TXO (txo_toBytes t wide) = Some t"
  by (simp add: Deserialize_TXO_def txo_fromBytes_toBytes)

lemma CompactTXO_roundtrip: "ctxo_isValid c \<Longrightarrow> Deserialize_CompactTXO (ctxo_toBytes c wide False) = Some c"
  by (simp add: Deserialize_CompactTXO_def)

lemma BlkInfo_roundtrip: "Deserialize_BlkInfo (BlkInfo_toBytes [] b) = Some b"
  by (cases b) (simp add: Deserialize_BlkInfo_def BlkInfo_toBytes_def SerializeScalar_def DeserializeScalar_def)

lemma shunspent_value_roundtrip:
  assumes "\<And>d. td = Some d \<Longrightarrow> token_ok token_ctx d"
  shows "\<exists>bs. Serialize2 a td = Inr bs \<and>
    Deserialize_SHUnspentValue bs = Inr \<lparr> shu_valid = True, shu_amount = a, shu_tokenDataPtr = td \<rparr>"
proof -
  obtain bs where "SerializeTokenDataWithPrefix (le_enc 8 a) td = Inr (le_enc 8 a @ bs)"
    "DeserializeTokenDataWithPrefix (le_enc 8 a @ bs) 8 = Inr td"
    using prefix_roundtrip[of td "le_enc 8 a"] assms by auto
  then show ?thesis
    by (auto simp: Serialize2_def SerializeScalar_def Deserialize_SHUnspentValue_def DeserializeScalar_def)
qed

section \<open>Keys of the unspent table\<close>

lemma mkShunspentKey_eq: "length hashX = 32 \<Longrightarrow> mkShunspentKey hashX c = Inr (hashX @ ctxo_toBytes c True True)"
  by (simp add: mkShunspentKey_def ctxo_toBytes_def toBytesInPlace_exact Let_def)

lemma wide_key: "ctxo_toBytes c True True = be_enc 6 (compact_txNum c) @ be_enc 3 (compact_n c)"
  by (simp add: ctxo_toBytes_eq num_enc_def ctxo_serializedSize_def)

lemma wide_key_order: "ctxo_toBytes a True True < ctxo_toBytes b True True \<longleftrightarrow> a < b"
  unfolding wide_key less_CompactTXO_def
  by (subst lex_append_same_iff) (simp_all add: be_enc_less_iff be_enc_inject)

text \<open>The keys of the unspent table: the entries of one script hash are contiguous and ordered as
  (transaction number, output index), which is chain order; and a key is taken apart again exactly.\<close>

lemma unspent_key_order:
  assumes "length h1 = 32" and "length h2 = 32" and "mkShunspentKey h1 c1 = Inr k1" and "mkShunspentKey h2 c2 = Inr k2"
  shows "(k1 < k2 \<longleftrightarrow> h1 < h2 \<or> h1 = h2 \<and> c1 < c2) \<and>
    (ctxo_isValid c1 \<longrightarrow> extractShunspentKey k1 False = Inr (h1, c1))"
proof -
  have k: "k1 = h1 @ ctxo_toBytes c1 True True" "k2 = h2 @ ctxo_toBytes c2 True True"
    using assms by (simp_all add: mkShunspentKey_eq)
  have "k1 < k2 \<longleftrightarrow> h1 < h2 \<or> h1 = h2 \<and> c1 < c2"
    unfolding k using lex_append_same_iff[of h1 h2] assms(1,2) by (simp add: wide_key_order)
  moreover have "ctxo_isValid c1 \<Longrightarrow> extractShunspentKey k1 False = Inr (h1, c1)"
    using assms(1)
    by (simp add: k extractShunspentKey_def extractCompactTXOFromShunspentKey_def ctxo_serializedSize_def
        ctxo_fromBytesInPlaceExactSizeRequired_def)
  ultimately show ?thesis by blast
qed

section \<open>Undo information survives the database\<close>

definition add_ok :: "TXO \<times> bytes \<times> CompactTXO \<Rightarrow> bool" where
  "add_ok a \<longleftrightarrow> (case a of (txo, hashX, ctxo) \<Rightarrow>
     txo_isValid txo \<and> unat (outN txo) < 2 ^ 24 \<and> length hashX = HashLen \<and> ctxo_isValid ctxo)"

definition del_ok :: "TXO \<times> TXOInfo \<Rightarrow> bool" where
  "del_ok d \<longleftrightarrow> (case d of (txo, info) \<Rightarrow> txo_isValid txo \<and> unat (outN txo) < 2 ^ 24 \<and> info_ok info)"

definition undo_ok :: "UndoInfo \<Rightarrow> bool" where
  "undo_ok u \<longleftrightarrow> undo_isValid u \<and> distinct (u_scriptHashes u) \<and> (\<forall>sh \<in> set (u_scriptHashes u). length sh = HashLen) \<and>
     list_all add_ok (u_addUndos u) \<and> list_all del_ok (u_delUndos u)"

lemma deser_scriptHashes_ok:
  "distinct (acc @ shs) \<Longrightarrow> \<forall>sh \<in> set shs. length sh = 32 \<Longrightarrow>
     deser_scriptHashes (length shs) acc (concat shs @ r) = Some (acc @ shs, r)"
  by (induction shs arbitrary: acc) auto

lemma deser_addUndos_ok:
  "list_all add_ok as \<Longrightarrow> deser_addUndos 35 9 (length as) (concat (map ser_addUndo as) @ r) = Some (as, r)"
proof (induction as)
  case (Cons a as)
  obtain txo hashX ctxo where a: "a = (txo, hashX, ctxo)" by (cases a)
  have ok: "txo_isValid txo" "unat (outN txo) < 2 ^ 24" "length hashX = 32" "ctxo_isValid ctxo"
    using Cons.prems by (simp_all add: a add_ok_def)
  have l: "length (txo_toBytes txo True) = 35" using ok(1) by (simp add: length_txo_toBytes txo_serializedSize_def)
  have l': "length (ctxo_toBytes ctxo True False) = 9" by (simp add: ctxo_serializedSize_def)
  show ?case using Cons ok l l' by (simp add: a ser_addUndo_def TXO_roundtrip CompactTXO_roundtrip)
qed simp

lemma length_ser_addUndos: "list_all add_ok as \<Longrightarrow> length (concat (map ser_addUndo as)) = 76 * length as"
  by (induction as) (auto simp: ser_addUndo_def add_ok_def length_txo_toBytes txo_serializedSize_def ctxo_serializedSize_def)

lemma int_width_32: "int_width TYPE(32)" by (simp add: int_width_def)

lemma sint_small: "n < 2 ^ 31 \<Longrightarrow> sint (of_nat n :: u32) = int n"
  by (simp add: sint_uint signed_take_bit_int_eq_self uint_nat unat_of_nat)

lemma varint_size_read:
  assumes "n < 2 ^ 31" "50 \<le> n"
  shows "\<exists>v. varint_make False (of_nat n :: u32) = Inr v \<and>
    deser_txoinfo_size False (byteView v @ r) = Some (n, r)"
proof -
  define w where "w = (of_nat n :: u32)"
  have u: "unat w = n" "sint w = int n" using assms(1) by (simp_all add: w_def unat_of_nat sint_small)
  obtain v where v: "varint_make False w = Inr v" using varint_unchecked_bytes[OF int_width_32, of False w] by blast
  have "varint_value False v = Inr w"
    using value_of_bytes[OF int_width_32 int_width_32 v] unat_bound[of w] by simp
  then have "deser_txoinfo_size False (byteView v @ r) = Some (n, r)"
    using varint_deserialize_stream[OF int_width_32 v, of r] assms(2) u by (simp add: deser_txoinfo_size_def)
  then show ?thesis using v by (auto simp: w_def)
qed

lemma ser_delUndos_ok:
  assumes "list_all del_ok ds"
  shows "\<exists>bs. ser_delUndos ds = Inr (Some bs) \<and> 85 * length ds \<le> length bs \<and>
    (length bs < 2 ^ 31 \<longrightarrow> (\<forall>r. deser_delUndos False 35 (length ds) (bs @ r) = Some (ds, r)))"
  using assms
proof (induction ds)
  case (Cons d ds)
  obtain txo info where d: "d = (txo, info)" by (cases d)
  have ok: "txo_isValid txo" "unat (outN txo) < 2 ^ 24" "info_ok info" using Cons.prems by (simp_all add: d del_ok_def)
  have hl: "length (ti_hashX info) = 32" using ok(3) by (simp add: info_ok_def txoinfo_isValid_def)
  obtain b where b: "ser_delUndos ds = Inr (Some b)" "85 * length ds \<le> length b"
      "length b < 2 ^ 31 \<Longrightarrow> deser_delUndos False 35 (length ds) (b @ r) = Some (ds, r)" for r
    using Cons by auto
  obtain s where s: "Serialize_TXOInfo info = Inr s" "50 \<le> length s" "Deserialize_TXOInfo s = Some info"
    using txoinfo_roundtrip[OF ok(3)] by blast
  obtain v where v: "varint_make False (of_nat (length s) :: u32) = Inr v"
    using varint_unchecked_bytes[OF int_width_32] by blast
  have l: "length (txo_toBytes txo True) = 35" using ok(1) by (simp add: length_txo_toBytes txo_serializedSize_def)
  define bs where "bs = (txo_toBytes txo True @ byteView v @ s) @ b"
  have "ser_delUndos (d # ds) = Inr (Some bs)" using b(1) s(1) v hl by (simp add: d ser_delUndo_def bs_def)
  moreover have "85 * length (d # ds) \<le> length bs" using b(2) s(2) l by (simp add: bs_def)
  moreover have "deser_delUndos False 35 (length (d # ds)) (bs @ r) = Some (d # ds, r)" if "length bs < 2 ^ 31" for r
  proof -
    have small: "length s < 2 ^ 31" "length b < 2 ^ 31" using that by (simp_all add: bs_def)
    then have "deser_txoinfo_size False (byteView v @ s @ b @ r) = Some (length s, s @ b @ r)"
      using varint_size_read[OF _ s(2), of "s @ b @ r"] v by auto
    then show ?thesis using b(3)[OF small(2), of r] ok s l by (simp add: d bs_def TXO_roundtrip)
  qed
  ultimately show ?case by blast
qed simp

lemma ucast_of_nat_small: "k < 2 ^ LENGTH('a) \<Longrightarrow> ucast (of_nat k :: 'a::len word) = (of_nat k :: 'b::len word)"
  by (simp add: unsigned_of_nat take_bit_nat_eq_self)

lemma computeTotalSize_small:
  assumes "h_nScriptHashes h = of_nat a" "h_nAddUndos h = of_nat b" "h_nDelUndos h = of_nat c"
    and "72 + 32 * a + 76 * b + 85 * c < 2 ^ 32"
  shows "computeTotalSize_V2 h = of_nat (72 + 32 * a + 76 * b + 85 * c)"
proof -
  have "ucast (of_nat a * 32 :: u32) = (of_nat (32 * a) :: u64)"
    using ucast_of_nat_small[of "32 * a", where ?'a = 32 and ?'b = 64] assms(4) by (simp add: mult.commute)
  moreover have "ucast (of_nat b :: u32) = (of_nat b :: u64)" "ucast (of_nat c :: u32) = (of_nat c :: u64)"
    using assms(4) by (simp_all add: ucast_of_nat_small)
  ultimately show ?thesis unfolding computeTotalSize_V2_def assms(1-3) by simp
qed

lemma undo_header_roundtrip: "Deserialize_UndoInfoSerHeader (UndoInfoSerHeader_toBytes h @ rest) = Some h"
  by (cases h) (simp add: Deserialize_UndoInfoSerHeader_def UndoInfoSerHeader_toBytes_def)

lemma undo_header_patch:
  "take 4 (UndoInfoSerHeader_toBytes h @ r) @ le_enc 4 n @ drop 8 (UndoInfoSerHeader_toBytes h @ r) =
     UndoInfoSerHeader_toBytes (h\<lparr>h_len := n\<rparr>) @ r"
  by (simp add: UndoInfoSerHeader_toBytes_def)

lemma length_undo_header: "length (UndoInfoSerHeader_toBytes h) = 20"
  by (simp add: UndoInfoSerHeader_toBytes_def)

lemma length_concat_32: "\<forall>sh \<in> set shs. length sh = 32 \<Longrightarrow> length (concat shs) = 32 * length shs"
  by (induction shs) auto

lemma BlkInfo_toBytes_append: "BlkInfo_toBytes buf b = buf @ BlkInfo_toBytes [] b"
  by (simp add: BlkInfo_toBytes_def)

lemma length_BlkInfo_toBytes: "length (BlkInfo_toBytes [] b) = 16"
  by (simp add: BlkInfo_toBytes_def SerializeScalar_def)

lemma undo_roundtrip:
  assumes "undo_ok u"
  shows "\<exists>bs. Serialize_UndoInfo u = Inr bs \<and>
    (length bs < 2 ^ 31 \<longrightarrow> Deserialize_UndoInfo bs = Some (u\<lparr>u_deserVersion := 3\<rparr>))"
proof -
  let ?a = "length (u_scriptHashes u)" and ?b = "length (u_addUndos u)" and ?c = "length (u_delUndos u)"
  define N where "N = 72 + 32 * ?a + 76 * ?b + 85 * ?c"
  define h0 where "h0 = \<lparr> h_magic = defMagic, h_ver = v3Ver, h_len = 0, h_nScriptHashes = of_nat ?a, h_nAddUndos = of_nat ?b, h_nDelUndos = of_nat ?c \<rparr>"
  define h1 where "h1 = h0\<lparr>h_len := ucast (computeTotalSize_V2 h0)\<rparr>"
  have hash: "length (u_hash u) = 32" and sh: "\<forall>s \<in> set (u_scriptHashes u). length s = 32" "distinct (u_scriptHashes u)"
    and adds: "list_all add_ok (u_addUndos u)" and dels: "list_all del_ok (u_delUndos u)"
    using assms by (auto simp: undo_ok_def undo_isValid_def)
  obtain ds where ds: "ser_delUndos (u_delUndos u) = Inr (Some ds)" "85 * ?c \<le> length ds"
      "length ds < 2 ^ 31 \<Longrightarrow> deser_delUndos False 35 ?c (ds @ r) = Some (u_delUndos u, r)" for r
    using ser_delUndos_ok[OF dels] by blast
  define body where "body = le_enc 4 (u_height u) @ u_hash u @ BlkInfo_toBytes [] (u_blkInfo u) @
    concat (u_scriptHashes u) @ concat (map ser_addUndo (u_addUndos u)) @ ds"
  define L where "L = 20 + length body"
  define h2 where "h2 = h1\<lparr>h_len := of_nat L\<rparr>"
  have NL: "N \<le> L" using ds(2) hash by (simp add: N_def L_def body_def length_concat_32[OF sh(1)] length_ser_addUndos[OF adds] length_BlkInfo_toBytes)
  have no_bad: "\<not> (\<exists>(txo, hashX, ctxo) \<in> set (u_addUndos u). length hashX \<noteq> 32)"
    using adds by (auto simp: list_all_iff add_ok_def)
  have tot: "computeTotalSize_V2 h0 = of_nat N" if "N < 2 ^ 32"
    unfolding N_def by (rule computeTotalSize_small) (use that in \<open>simp_all add: h0_def N_def\<close>)
  have fits: "\<not> L < unat (h_len h1)"
  proof (cases "L < 2 ^ 32")
    case True
    then have "N < 2 ^ 32" using NL by linarith
    moreover from this have "unat (of_nat N :: u64) = N" by (simp add: unat_of_nat)
    ultimately have "unat (h_len h1) = N"
      using unat_ucast_small[of "of_nat N :: u64", where ?'a = 32] by (simp add: h1_def tot)
    then show ?thesis using NL by simp
  next
    case False
    then show ?thesis using unat_bound[of "h_len h1"] by simp
  qed
  have "Serialize_UndoInfo u = Inr (if L < unat (h_len h1) then []
      else take 4 (UndoInfoSerHeader_toBytes h1 @ body) @ le_enc 4 (of_nat L :: u32) @ drop 8 (UndoInfoSerHeader_toBytes h1 @ body))"
    using hash sh(1) no_bad ds(1)
    unfolding Serialize_UndoInfo_def h0_def[symmetric] h1_def[symmetric] Let_def L_def body_def
    by (simp add: SerializeScalar_def BlkInfo_toBytes_append[of "_ @ _"] length_undo_header)
  then have ser: "Serialize_UndoInfo u = Inr (UndoInfoSerHeader_toBytes h2 @ body)"
    unfolding undo_header_patch h2_def[symmetric] using fits by simp
  have "Deserialize_UndoInfo (UndoInfoSerHeader_toBytes h2 @ body) = Some (u\<lparr>u_deserVersion := 3\<rparr>)"
    if small: "length (UndoInfoSerHeader_toBytes h2 @ body) < 2 ^ 31"
  proof -
    have L: "L < 2 ^ 31" using small by (simp add: L_def length_undo_header)
    then have N: "N < 2 ^ 31" using NL by linarith
    have "computeTotalSize_V2 h2 = of_nat N"
      using tot N by (simp add: computeTotalSize_V2_def h2_def h1_def)
    moreover have "ucast (of_nat L :: u32) = (of_nat L :: u64)" using L by (simp add: ucast_of_nat_small)
    ultimately have "isLenMinimallySane_V3 h2"
      using NL L N by (simp add: isLenMinimallySane_V3_def h2_def word_le_nat_alt unat_of_nat)
    then have sane: "undo_header_sane h2 L" using sint_small[OF L] by (simp add: undo_header_sane_def h2_def h1_def h0_def)
    have ver: "h_ver h2 = 3" by (simp add: h2_def h1_def h0_def)
    have cnt: "unat (h_nScriptHashes h2) = ?a" "unat (h_nAddUndos h2) = ?b" "unat (h_nDelUndos h2) = ?c"
      using N by (simp_all add: h2_def h1_def h0_def unat_of_nat N_def)
    have "length ds < 2 ^ 31" using L by (simp add: L_def body_def)
    note ds3 = ds(3)[OF this, of "[]"]
    have ne: "length body > 0" using hash by (simp add: body_def)
    have e: "u\<lparr>u_deserVersion := 3\<rparr> = \<lparr> u_height = u_height u, u_hash = u_hash u, u_blkInfo = u_blkInfo u, u_scriptHashes = u_scriptHashes u,
        u_addUndos = u_addUndos u, u_delUndos = u_delUndos u, u_deserVersion = 3 \<rparr>" by (cases u) simp
    show ?thesis
      unfolding e using sane ds3 hash length_undo_header[of h2] ne
        deser_scriptHashes_ok[of "[]" "u_scriptHashes u" "concat (map ser_addUndo (u_addUndos u)) @ ds"] sh
        deser_addUndos_ok[OF adds, of ds] BlkInfo_roundtrip[of "u_blkInfo u"] length_BlkInfo_toBytes[of "u_blkInfo u"]
      by (simp add: Deserialize_UndoInfo_def undo_header_roundtrip L_def ver cnt Let_def) (simp add: body_def ver)
  qed
  then show ?thesis unfolding ser by auto
qed

text \<open>C37: Undo information survives the database: what \<open>addBlock\<close> writes for a block (while it fits the 2 GiB a
  32-bit signed length allows) is read back by \<open>undoLatestBlock\<close> with every created and every spent
  output, token data included.\<close>

theorem undo_info_roundtrip:
  assumes "undo_ok u"
  shows "\<exists>bs. Serialize_UndoInfo u = Inr bs \<and>
    (length bs < 2 ^ 31 \<longrightarrow> Deserialize_UndoInfo bs = Some (u\<lparr>u_deserVersion := 3\<rparr>))"
  using assms by (rule undo_roundtrip)

definition demo_info :: TXOInfo where
  "demo_info = \<lparr> ti_amount = 5000, ti_hashX = replicate 32 9, ti_confirmedHeight = Some 100, ti_txNum = 77, ti_tokenDataPtr = Some demo_token \<rparr>"

definition demo_undo :: UndoInfo where
  "demo_undo = \<lparr> u_height = 101, u_hash = replicate 32 1, u_blkInfo = \<lparr> txNum0 = 200, nTx = 2 \<rparr>, u_scriptHashes = [replicate 32 9],
     u_addUndos = [(TXO (replicate 32 3) 0, replicate 32 9, CompactTXO_new 200 0)], u_delUndos = [(TXO (replicate 32 4) 70000, demo_info)],
     u_deserVersion = 0 \<rparr>"

theorem undo_info_roundtrip_witness:
  "undo_ok demo_undo \<and> (\<exists>bs. Serialize_UndoInfo demo_undo = Inr bs \<and>
     (length bs < 2 ^ 31 \<longrightarrow> Deserialize_UndoInfo bs = Some (demo_undo\<lparr>u_deserVersion := 3\<rparr>)))"
proof -
  have "info_ok demo_info"
    by (simp add: info_ok_def demo_info_def txoinfo_isValid_def kNoBlockHeight_def demo_token_ok)
  then have "undo_ok demo_undo"
    by (simp add: undo_ok_def demo_undo_def undo_isValid_def add_ok_def del_ok_def txo_isValid_def CompactTXO_new_def
        ctxo_isValid_def CompactTXO_default_def)
  then show ?thesis using undo_info_roundtrip by blast
qed

end
