(* ===== verification/Transactions.thy ===== *)
theory Transactions
  imports Token_Data Block_Header
begin

text \<open>
  Transactions and blocks: \<open>bitcoin/transaction.h\<close>, \<open>bitcoin/transaction.cpp\<close>, the MimbleWimble helpers of
  \<open>bitcoin/litecoin_bits.h\<close>, the amounts of \<open>bitcoin/amount.h\<close> and \<open>CBlock\<close> of \<open>bitcoin/block.h\<close>.

  Writers return \<open>Inl\<close> where token data refuses to be written; readers are parsers over the stream.
  Both consult the version flags of the stream: witness data, MWEB data and CashTokens. The lemmas show
  that the format is canonical for each combination of flags: what is accepted is exactly what would
  be written, so a transaction or block is stored, hashed and served as the bytes it arrived as.
\<close>

section \<open>Amounts\<close>

type_synonym Amount = int64

definition COIN :: int where "COIN = 100000000"
definition MAX_MONEY :: int where "MAX_MONEY = 21000000 * COIN"
definition MoneyRange :: "Amount \<Rightarrow> bool" where
  "MoneyRange nValue \<longleftrightarrow> 0 \<le> sint nValue \<and> sint nValue \<le> MAX_MONEY"

section \<open>Outpoints, inputs and outputs\<close>

datatype COutPoint = COutPoint (op_txid: bytes) (op_n: u32)

definition NULL_INDEX :: u32 where "NULL_INDEX = - 1"
definition COutPoint_default :: COutPoint where "COutPoint_default = COutPoint (replicate 32 0) NULL_INDEX"
definition COutPoint_IsNull :: "COutPoint \<Rightarrow> bool" where
  "COutPoint_IsNull o1 \<longleftrightarrow> list_all (\<lambda>b. b = 0) (op_txid o1) \<and> op_n o1 = NULL_INDEX"

definition Serialize_COutPoint :: "COutPoint \<Rightarrow> bytes" where
  "Serialize_COutPoint o1 = Serialize_array (op_txid o1) @ Serialize_int32 (op_n o1)"

definition Unserialize_COutPoint :: "(ser_error, COutPoint) parser" where
  "Unserialize_COutPoint =
     p_then (Unserialize_array 32) (\<lambda>txid. p_then Unserialize_int32 (\<lambda>n. p_return (COutPoint txid n)))"

text \<open>The witness stack of an input is written by the transaction, not by the input.\<close>

record CTxIn =
  prevout :: COutPoint
  scriptSig :: bytes
  nSequence :: u32
  scriptWitness :: "bytes list"

definition Serialize_CTxIn :: "CTxIn \<Rightarrow> bytes" where
  "Serialize_CTxIn i = Serialize_COutPoint (prevout i) @ Serialize_bytevec (scriptSig i) @ Serialize_int32 (nSequence i)"

definition Unserialize_CTxIn :: "stream_ctx \<Rightarrow> (ser_error, CTxIn) parser" where
  "Unserialize_CTxIn is =
     p_then Unserialize_COutPoint (\<lambda>p. p_then (Unserialize_bytevec is) (\<lambda>sig. p_then Unserialize_int32 (\<lambda>sq.
       p_return \<lparr> prevout = p, scriptSig = sig, nSequence = sq, scriptWitness = [] \<rparr>)))"

record CTxOut =
  nValue :: Amount
  scriptPubKey :: bytes
  tokenDataPtr :: OutputDataPtr

definition CTxOut_SetNull :: "CTxOut" where
  "CTxOut_SetNull = \<lparr> nValue = - 1, scriptPubKey = [], tokenDataPtr = None \<rparr>"

definition CTxOut_IsNull :: "CTxOut \<Rightarrow> bool" where "CTxOut_IsNull o1 \<longleftrightarrow> nValue o1 = - 1"

definition HasUnparseableTokenData :: "CTxOut \<Rightarrow> bool" where
  "HasUnparseableTokenData o1 \<longleftrightarrow>
     tokenDataPtr o1 = None \<and> scriptPubKey o1 \<noteq> [] \<and> scriptPubKey o1 ! 0 = PREFIX_BYTE"

definition Serialize_CTxOut :: "CTxOut \<Rightarrow> (ser_error, bytes) result" where
  "Serialize_CTxOut o1 =
     (let v = Serialize_int64 (nValue o1)
      in if tokenDataPtr o1 = None then Inr (v @ Serialize_bytevec (scriptPubKey o1))
         else rbind (WrapScriptPubKey (tokenDataPtr o1) (scriptPubKey o1)) (\<lambda>wspk. Inr (v @ Serialize_bytevec wspk)))"

definition Unserialize_CTxOut :: "stream_ctx \<Rightarrow> (ser_error, CTxOut) parser" where
  "Unserialize_CTxOut is =
     p_then Unserialize_int64 (\<lambda>v.
       if GetVersion is AND SERIALIZE_TRANSACTION_USE_CASHTOKENS = 0
       then p_then (Unserialize_bytevec is) (\<lambda>spk. p_return \<lparr> nValue = v, scriptPubKey = spk, tokenDataPtr = None \<rparr>)
       else p_then (Unserialize_bytevec is) (\<lambda>wspk.
              case UnwrapScriptPubKey (GetVersion is) False wspk of
                Inl e \<Rightarrow> p_fail e
              | Inr (td, spk) \<Rightarrow> p_return \<lparr> nValue = v, scriptPubKey = spk, tokenDataPtr = td \<rparr>))"

section \<open>MimbleWimble data\<close>

text \<open>The eater copies what it reads into \<open>data\<close>, re-encoding the sizes and numbers it had to decode. A step
  takes the data so far and the stream, and returns its value, the extended data and the rest.\<close>

type_synonym 'a eater = "bytes \<Rightarrow> (ser_error, 'a \<times> bytes) parser"

definition e_return :: "'a \<Rightarrow> 'a eater" where
  "e_return x data = p_return (x, data)"

definition e_then :: "'a eater \<Rightarrow> ('a \<Rightarrow> 'b eater) \<Rightarrow> 'b eater" where
  "e_then m f data = p_then (m data) (\<lambda>(x, data'). f x data')"

definition e_fail :: "ser_error \<Rightarrow> 'a eater" where
  "e_fail e data = p_fail e"

definition e_when :: "bool \<Rightarrow> 'a eater \<Rightarrow> unit eater" where
  "e_when b m = (if b then e_then m (\<lambda>_. e_return ()) else e_return ())"

primrec e_times :: "nat \<Rightarrow> unit eater \<Rightarrow> unit eater" where
  "e_times 0 m = e_return ()"
| "e_times (Suc n) m = e_then m (\<lambda>_. e_times n m)"

text \<open>The pointer \<open>RdWr\<close> returns is only used to read the bytes just copied.\<close>

definition RdWr :: "nat \<Rightarrow> bytes eater" where
  "RdWr nbytes data = p_then (if nbytes > 0 then stream_read nbytes else p_return []) (\<lambda>bs. p_return (bs, data @ bs))"

definition RdWrSz :: "stream_ctx \<Rightarrow> u64 eater" where
  "RdWrSz is data = p_then (ReadCompactSize is True MAX_SIZE) (\<lambda>n. p_return (n, data @ WriteCompactSize n))"

definition RdWrByteVector :: "stream_ctx \<Rightarrow> u64 eater" where
  "RdWrByteVector is = e_then (RdWrSz is) (\<lambda>nbytes. e_then (RdWr (unat nbytes)) (\<lambda>_. e_return nbytes))"

definition RdWrVarInt :: "u64 eater" where
  "RdWrVarInt data = p_then ReadVarInt (\<lambda>vi. p_return (vi, data @ WriteVarInt vi))"

definition INT32_MAX :: nat where "INT32_MAX = 2 ^ 31 - 1"

definition RdWrHeight :: "u32 eater" where
  "RdWrHeight = e_then RdWrVarInt (\<lambda>nHeight.
     if unat nHeight > INT32_MAX \<or> sint (ucast nHeight :: u32) < 0 then e_fail (ios_failure ''mimble: Height is out of range'')
     else e_return (ucast nHeight))"

definition RdWrAmount :: "int64 eater" where
  "RdWrAmount = e_then RdWrVarInt (\<lambda>nAmount.
     if unat nAmount > INT64_MAX \<or> sint nAmount < 0 then e_fail (ios_failure ''mimble: Amount is out of range'')
     else e_return nAmount)"

definition has_bit :: "bytes \<Rightarrow> byte \<Rightarrow> bool" where
  "has_bit features m \<longleftrightarrow> hd features AND m \<noteq> 0"

definition EatInput :: "stream_ctx \<Rightarrow> unit eater" where
  "EatInput is =
     e_then (RdWr 1) (\<lambda>features. e_then (RdWr (32 + 33 + 33)) (\<lambda>_.
     e_then (e_when (has_bit features 0x1) (RdWr 33)) (\<lambda>_.
     e_then (e_when (has_bit features 0x2) (RdWrByteVector is)) (\<lambda>_.
     e_then (RdWr 64) (\<lambda>_. e_return ())))))"

definition EatOutput :: "stream_ctx \<Rightarrow> unit eater" where
  "EatOutput is =
     e_then (RdWr (33 + 33 + 33)) (\<lambda>_. e_then (RdWr 1) (\<lambda>features.
     e_then (e_when (has_bit features 0x1) (RdWr (33 + 1 + 8 + 16))) (\<lambda>_.
     e_then (e_when (has_bit features 0x2) (RdWrByteVector is)) (\<lambda>_.
     e_then (RdWr (675 + 64)) (\<lambda>_. e_return ())))))"

definition EatPegOutCoin :: "stream_ctx \<Rightarrow> unit eater" where
  "EatPegOutCoin is =
     e_then RdWrAmount (\<lambda>_. e_then (RdWrByteVector is) (\<lambda>spkSz.
       if spkSz = 0 then e_fail (ios_failure ''mimble: Pegout scriptPubKey must not be empty'') else e_return ()))"

definition EatKernel :: "stream_ctx \<Rightarrow> unit eater" where
  "EatKernel is =
     e_then (RdWr 1) (\<lambda>features.
     e_then (e_when (has_bit features 0x1) RdWrAmount) (\<lambda>_.
     e_then (e_when (has_bit features 0x2) RdWrAmount) (\<lambda>_.
     e_then (e_when (has_bit features 0x4) (e_then (RdWrSz is) (\<lambda>n2. e_times (unat n2) (EatPegOutCoin is)))) (\<lambda>_.
     e_then (e_when (has_bit features 0x8) RdWrHeight) (\<lambda>_.
     e_then (e_when (has_bit features 0x10) (RdWr 33)) (\<lambda>_.
     e_then (e_when (has_bit features 0x20) (RdWrByteVector is)) (\<lambda>_.
     e_then (RdWr (33 + 64)) (\<lambda>_. e_return ()))))))))"

definition EatTxBody :: "stream_ctx \<Rightarrow> unit eater" where
  "EatTxBody is =
     e_then (RdWrSz is) (\<lambda>n. e_then (e_times (unat n) (EatInput is)) (\<lambda>_.
     e_then (RdWrSz is) (\<lambda>n. e_then (e_times (unat n) (EatOutput is)) (\<lambda>_.
     e_then (RdWrSz is) (\<lambda>n. e_times (unat n) (EatKernel is))))))"

text \<open>The source's parameter \<open>tx\<close> is consulted for its outputs only.\<close>

definition EatTxMimbleBlob_steps :: "stream_ctx \<Rightarrow> CTxOut list \<Rightarrow> unit eater" where
  "EatTxMimbleBlob_steps is vout =
     e_then (RdWr 1) (\<lambda>opt.
       if hd opt = 0 then
         if vout = [] then e_fail (ios_failure ''mimble: Missing HogEx output'') else e_return ()
       else e_then (RdWr (32 + 32)) (\<lambda>_. EatTxBody is))"

definition EatTxMimbleBlob :: "stream_ctx \<Rightarrow> CTxOut list \<Rightarrow> (ser_error, bytes) parser" where
  "EatTxMimbleBlob is vout = p_then (EatTxMimbleBlob_steps is vout []) (\<lambda>(_, data). p_return data)"

definition EatBlockMimbleBlob_steps :: "stream_ctx \<Rightarrow> unit eater" where
  "EatBlockMimbleBlob_steps is =
     e_then (RdWr 1) (\<lambda>opt.
       if hd opt = 0 then e_return ()
       else e_then RdWrHeight (\<lambda>_. e_then (RdWr (32 * 5)) (\<lambda>_. e_then RdWrVarInt (\<lambda>_. e_then RdWrVarInt (\<lambda>_.
              EatTxBody is)))))"

definition EatBlockMimbleBlob :: "stream_ctx \<Rightarrow> (ser_error, bytes) parser" where
  "EatBlockMimbleBlob is = p_then (EatBlockMimbleBlob_steps is []) (\<lambda>(_, data). p_return data)"

section \<open>Transactions\<close>

record CMutableTransaction =
  tx_nVersion :: u32
  vin :: "CTxIn list"
  vout :: "CTxOut list"
  nLockTime :: u32
  mw_blob :: "bytes option"

definition SERIALIZE_TRANSACTION_USE_WITNESS :: u32 where "SERIALIZE_TRANSACTION_USE_WITNESS = 0x40000000"
definition SERIALIZE_TRANSACTION_USE_MWEB :: u32 where "SERIALIZE_TRANSACTION_USE_MWEB = 0x20000000"

definition fAllowWitness :: "stream_ctx \<Rightarrow> bool" where
  "fAllowWitness is \<longleftrightarrow> GetVersion is AND SERIALIZE_TRANSACTION_USE_WITNESS \<noteq> 0"
definition fAllowMimble :: "stream_ctx \<Rightarrow> bool" where
  "fAllowMimble is \<longleftrightarrow> GetVersion is AND SERIALIZE_TRANSACTION_USE_MWEB \<noteq> 0"

definition CMutableTransaction_default :: CMutableTransaction where
  "CMutableTransaction_default = \<lparr> tx_nVersion = 2, vin = [], vout = [], nLockTime = 0, mw_blob = None \<rparr>"

definition HasWitness :: "CMutableTransaction \<Rightarrow> bool" where
  "HasWitness tx \<longleftrightarrow> list_ex (\<lambda>txin. scriptWitness txin \<noteq> []) (vin tx)"
definition tx_IsNull :: "CMutableTransaction \<Rightarrow> bool" where "tx_IsNull tx \<longleftrightarrow> vin tx = [] \<and> vout tx = []"
definition IsCoinBase :: "CMutableTransaction \<Rightarrow> bool" where
  "IsCoinBase tx \<longleftrightarrow> length (vin tx) = 1 \<and> COutPoint_IsNull (prevout (vin tx ! 0))"
definition HasMimble :: "CMutableTransaction \<Rightarrow> bool" where "HasMimble tx \<longleftrightarrow> mw_blob tx \<noteq> None"
definition IsHogEx :: "CMutableTransaction \<Rightarrow> bool" where "IsHogEx tx \<longleftrightarrow> mw_blob tx = Some [0]"
definition IsMWEBOnly :: "CMutableTransaction \<Rightarrow> bool" where
  "IsMWEBOnly tx \<longleftrightarrow> (case mw_blob tx of Some b \<Rightarrow> length b > 1 | None \<Rightarrow> False) \<and> tx_IsNull tx"

text \<open>Element sizes on a 64-bit platform; they only decide how many elements a batch of a vector read allocates.\<close>

definition Unserialize_vin :: "stream_ctx \<Rightarrow> (ser_error, CTxIn list) parser" where
  "Unserialize_vin is = Vector_Unser is 96 (Unserialize_CTxIn is)"
definition Unserialize_vout :: "stream_ctx \<Rightarrow> (ser_error, CTxOut list) parser" where
  "Unserialize_vout is = Vector_Unser is 48 (Unserialize_CTxOut is)"
definition Unserialize_stack :: "stream_ctx \<Rightarrow> (ser_error, bytes list) parser" where
  "Unserialize_stack is = Vector_Unser is 24 (Unserialize_bytevec is)"

definition Serialize_vin :: "CTxIn list \<Rightarrow> bytes" where "Serialize_vin v = Vector_Ser Serialize_CTxIn v"
definition Serialize_stack :: "bytes list \<Rightarrow> bytes" where "Serialize_stack v = Vector_Ser Serialize_bytevec v"
definition Serialize_vout :: "CTxOut list \<Rightarrow> (ser_error, bytes) result" where
  "Serialize_vout v = rbind (rmap Serialize_CTxOut v) (\<lambda>bs. Inr (WriteCompactSize (of_nat (length v)) @ concat bs))"

primrec read_witnesses :: "stream_ctx \<Rightarrow> CTxIn list \<Rightarrow> (ser_error, CTxIn list) parser" where
  "read_witnesses is [] = p_return []"
| "read_witnesses is (txin # ins) =
     p_then (Unserialize_stack is) (\<lambda>st. p_then (read_witnesses is ins) (\<lambda>ins'.
       p_return (txin\<lparr>scriptWitness := st\<rparr> # ins')))"

definition tx_read_outs :: "stream_ctx \<Rightarrow> CTxIn list \<Rightarrow> (ser_error, byte \<times> CTxIn list \<times> CTxOut list) parser" where
  "tx_read_outs is vin0 =
     (if vin0 = [] \<and> fAllowWitness is then
        p_then Unserialize_int8 (\<lambda>flags.
          if flags \<noteq> 0
          then p_then (Unserialize_vin is) (\<lambda>ins. p_then (Unserialize_vout is) (\<lambda>outs. p_return (flags, ins, outs)))
          else p_return (flags, vin0, []))
      else p_then (Unserialize_vout is) (\<lambda>outs. p_return (0, vin0, outs)))"

definition tx_read_witness :: "stream_ctx \<Rightarrow> byte \<Rightarrow> CTxIn list \<Rightarrow> (ser_error, byte \<times> CTxIn list) parser" where
  "tx_read_witness is flags ins =
     (if flags AND 1 \<noteq> 0 \<and> fAllowWitness is then
        p_then (read_witnesses is ins) (\<lambda>ins'.
          if list_ex (\<lambda>txin. scriptWitness txin \<noteq> []) ins' then p_return (flags XOR 1, ins')
          else p_fail (ios_failure ''Superfluous witness record''))
      else p_return (flags, ins))"

definition tx_read_mimble :: "stream_ctx \<Rightarrow> byte \<Rightarrow> CTxOut list \<Rightarrow> (ser_error, byte \<times> bytes option) parser" where
  "tx_read_mimble is flags outs =
     (if flags AND 8 \<noteq> 0 \<and> fAllowMimble is
      then p_then (EatTxMimbleBlob is outs) (\<lambda>b. p_return (flags XOR 8, Some b))
      else p_return (flags, None))"

definition UnserializeTransaction :: "stream_ctx \<Rightarrow> (ser_error, CMutableTransaction) parser" where
  "UnserializeTransaction is =
     p_then Unserialize_int32 (\<lambda>nVer.
     p_then (Unserialize_vin is) (\<lambda>vin0.
     p_then (tx_read_outs is vin0) (\<lambda>(flags, ins, outs).
     p_then (tx_read_witness is flags ins) (\<lambda>(flags, ins).
     p_then (tx_read_mimble is flags outs) (\<lambda>(flags, mw).
     if flags \<noteq> 0 then p_fail (ios_failure ''Unknown transaction optional data'')
     else p_then Unserialize_int32 (\<lambda>lock.
       p_return \<lparr> tx_nVersion = nVer, vin = ins, vout = outs, nLockTime = lock, mw_blob = mw \<rparr>))))))"

definition tx_flags :: "stream_ctx \<Rightarrow> CMutableTransaction \<Rightarrow> byte" where
  "tx_flags is tx =
     (let flags = (if fAllowWitness is \<and> HasWitness tx then 1 else 0)
      in if fAllowMimble is \<and> mw_blob tx \<noteq> None \<and> mw_blob tx \<noteq> Some [] then flags OR 8 else flags)"

definition SerializeTransaction :: "stream_ctx \<Rightarrow> CMutableTransaction \<Rightarrow> (ser_error, bytes) result" where
  "SerializeTransaction is tx =
     (let flags = tx_flags is tx
      in rbind (Serialize_vout (vout tx)) (\<lambda>outs.
           Inr (Serialize_int32 (tx_nVersion tx) @
                (if flags \<noteq> 0 then Serialize_vin [] @ Serialize_int8 flags else []) @
                Serialize_vin (vin tx) @ outs @
                (if flags AND 1 \<noteq> 0 then concat (map (\<lambda>txin. Serialize_stack (scriptWitness txin)) (vin tx)) else []) @
                (if flags AND 8 \<noteq> 0 then the (mw_blob tx) else []) @
                Serialize_int32 (nLockTime tx))))"

text \<open>A \<open>CTransaction\<close> is the immutable form with its hash; \<open>SerializeHash\<close> feeds the double SHA-256 writer.\<close>

definition ser_ctx :: "u32 \<Rightarrow> u32 \<Rightarrow> stream_ctx" where
  "ser_ctx nType nVer = \<lparr> GetType = nType, GetVersion = nVer \<rparr>"

definition ComputeHash :: "bool \<Rightarrow> CMutableTransaction \<Rightarrow> (ser_error, bytes) result" where
  "ComputeHash segwit tx =
     rbind (SerializeTransaction (ser_ctx SER_GETHASH (if segwit then SERIALIZE_TRANSACTION_USE_WITNESS else 0)) tx)
       (\<lambda>bs. Inr (BTC_Hash bs False))"

record CTransaction = CMutableTransaction +
  tx_hash :: bytes

definition CTransaction_new :: "CMutableTransaction \<Rightarrow> (ser_error, CTransaction) result" where
  "CTransaction_new tx =
     rbind (ComputeHash False tx) (\<lambda>h. Inr (CMutableTransaction.extend tx \<lparr> tx_hash = h \<rparr>))"

definition mutable_tx :: "CTransaction \<Rightarrow> CMutableTransaction" where
  "mutable_tx tx = CMutableTransaction.truncate tx"

definition Unserialize_CTransaction :: "stream_ctx \<Rightarrow> (ser_error, CTransaction) parser" where
  "Unserialize_CTransaction is =
     p_then (UnserializeTransaction is) (\<lambda>tx. case CTransaction_new tx of Inl e \<Rightarrow> p_fail e | Inr t \<Rightarrow> p_return t)"

definition GetTotalSize :: "bool \<Rightarrow> bool \<Rightarrow> CMutableTransaction \<Rightarrow> (ser_error, nat) result" where
  "GetTotalSize segwit mweb tx =
     rbind (SerializeTransaction (ser_ctx 0 (PROTOCOL_VERSION OR (if segwit then SERIALIZE_TRANSACTION_USE_WITNESS else 0)
              OR (if mweb then SERIALIZE_TRANSACTION_USE_MWEB else 0))) tx) (\<lambda>bs. Inr (length bs))"

definition GetVirtualSize :: "nat option \<Rightarrow> CMutableTransaction \<Rightarrow> (ser_error, nat) result" where
  "GetVirtualSize unstrippedSizeIfKnown tx =
     rbind (GetTotalSize False False tx) (\<lambda>stripped.
     rbind (case unstrippedSizeIfKnown of Some n \<Rightarrow> Inr n | None \<Rightarrow> GetTotalSize True True tx) (\<lambda>total.
       Inr ((stripped * (4 - 1) + total) div 4)))"

fun value_out_loop :: "Amount \<Rightarrow> CTxOut list \<Rightarrow> (string, Amount) result" where
  "value_out_loop acc [] = Inr acc"
| "value_out_loop acc (tx_out # rest) =
     (let nValueOut = acc + nValue tx_out
      in if \<not> MoneyRange (nValue tx_out) \<or> \<not> MoneyRange nValueOut then Inl ''GetValueOut: value out of range''
         else value_out_loop nValueOut rest)"

definition GetValueOut :: "CMutableTransaction \<Rightarrow> (string, Amount) result" where
  "GetValueOut tx = value_out_loop 0 (vout tx)"

section \<open>Blocks\<close>

record CBlock =
  blk_header :: CBlockHeader
  vtx :: "CTransaction list"
  blk_mw_blob :: "bytes option"

definition block_has_mweb :: "stream_ctx \<Rightarrow> CTransaction list \<Rightarrow> bool" where
  "block_has_mweb is txs \<longleftrightarrow> fAllowMimble is \<and> length txs \<ge> 2 \<and> IsHogEx (mutable_tx (last txs))"

definition Unserialize_vtx :: "stream_ctx \<Rightarrow> (ser_error, CTransaction list) parser" where
  "Unserialize_vtx is = Vector_Unser is 16 (Unserialize_CTransaction is)"

definition Unserialize_CBlock :: "stream_ctx \<Rightarrow> (ser_error, CBlock) parser" where
  "Unserialize_CBlock is =
     p_then (Unserialize_CBlockHeader CBlockHeader_new) (\<lambda>h. p_then (Unserialize_vtx is) (\<lambda>txs.
     p_then (if block_has_mweb is txs then p_then (EatBlockMimbleBlob is) (\<lambda>b. p_return (Some b)) else p_return None) (\<lambda>mw.
       p_return \<lparr> blk_header = h, vtx = txs, blk_mw_blob = mw \<rparr>)))"

definition Serialize_CBlock :: "stream_ctx \<Rightarrow> CBlock \<Rightarrow> (ser_error, bytes) result" where
  "Serialize_CBlock is b =
     rbind (rmap (\<lambda>tx. SerializeTransaction is (mutable_tx tx)) (vtx b)) (\<lambda>txs.
       Inr (Serialize_CBlockHeader (blk_header b) @ WriteCompactSize (of_nat (length (vtx b))) @ concat txs @
            (if block_has_mweb is (vtx b) then (case blk_mw_blob b of Some d \<Rightarrow> d | None \<Rightarrow> []) else [])))"

section \<open>The eater copies exactly what it consumes\<close>

definition copies :: "'a eater \<Rightarrow> bool" where
  "copies m \<longleftrightarrow> (\<forall>data s x data' s'. m data s = Inr ((x, data'), s') \<longrightarrow>
     (\<exists>c. data' = data @ c \<and> s = c @ s' \<and> (\<forall>t. m data (c @ t) = Inr ((x, data'), t))))"

named_theorems eater_intros \<open>steps that copy exactly what they consume\<close>

lemma copies_return [eater_intros]: "copies (e_return x)"
  by (simp add: copies_def e_return_def)

lemma copies_fail [eater_intros]: "copies (e_fail e)"
  by (simp add: copies_def e_fail_def)

lemma copies_then [eater_intros]:
  assumes "copies m" "\<And>x. copies (f x)"
  shows "copies (e_then m f)"
  unfolding copies_def
proof (intro allI impI)
  fix data s y data' s'
  assume "e_then m f data s = Inr ((y, data'), s')"
  then obtain x d1 s1 where m: "m data s = Inr ((x, d1), s1)" and f: "f x d1 s1 = Inr ((y, data'), s')"
    by (auto simp: e_then_def p_then_Inr_iff)
  obtain c1 where c1: "d1 = data @ c1" "s = c1 @ s1" "\<And>t. m data (c1 @ t) = Inr ((x, d1), t)"
    using assms(1) m unfolding copies_def by blast
  obtain c2 where c2: "data' = d1 @ c2" "s1 = c2 @ s'" "\<And>t. f x d1 (c2 @ t) = Inr ((y, data'), t)"
    using assms(2)[of x] f unfolding copies_def by blast
  show "\<exists>c. data' = data @ c \<and> s = c @ s' \<and> (\<forall>t. e_then m f data (c @ t) = Inr ((y, data'), t))"
    using c1 c2 by (intro exI[of _ "c1 @ c2"]) (simp add: e_then_def)
qed

lemma copies_when [eater_intros]: "copies m \<Longrightarrow> copies (e_when b m)"
  by (simp add: e_when_def eater_intros)

lemma copies_times [eater_intros]: "copies m \<Longrightarrow> copies (e_times n m)"
  by (induction n) (simp_all add: eater_intros)

lemma copies_if [eater_intros]: "copies m \<Longrightarrow> copies m' \<Longrightarrow> copies (if b then m else m')"
  by simp

lemma copies_RdWr [eater_intros]: "copies (RdWr n)"
  by (cases n) (auto simp: copies_def RdWr_def p_then_Inr_iff stream_read_Inr_iff)

text \<open>Re-encoding what a canonical codec decoded is copying.\<close>

lemma copies_codec:
  assumes "canonical_codec ser p ok"
  shows "copies (\<lambda>data. p_then p (\<lambda>n. p_return (n, data @ ser n)))"
  unfolding copies_def
proof (intro allI impI)
  fix data s x data' s'
  assume "p_then p (\<lambda>n. p_return (n, data @ ser n)) s = Inr ((x, data'), s')"
  then have "p s = Inr (x, s')" "data' = data @ ser x" by (auto simp: p_then_Inr_iff)
  moreover from this have "s = ser x @ s'" "\<And>t. p (ser x @ t) = Inr (x, t)"
    using canonical_codec.unser_iff[OF assms] by blast+
  ultimately show "\<exists>c. data' = data @ c \<and> s = c @ s' \<and>
      (\<forall>t. p_then p (\<lambda>n. p_return (n, data @ ser n)) (c @ t) = Inr ((x, data'), t))"
    by (intro exI[of _ "ser x"]) simp
qed

lemma copies_RdWrSz [eater_intros]: "copies (RdWrSz is)"
  unfolding RdWrSz_def[abs_def] by (rule copies_codec, rule compact_size.canonical_codec_axioms)

lemma copies_RdWrVarInt [eater_intros]: "copies RdWrVarInt"
  unfolding RdWrVarInt_def[abs_def] by (rule copies_codec, rule varint64.canonical_codec_axioms)

lemmas eater_defs = RdWrByteVector_def RdWrHeight_def RdWrAmount_def EatInput_def EatOutput_def EatPegOutCoin_def
  EatKernel_def EatTxBody_def EatTxMimbleBlob_steps_def EatBlockMimbleBlob_steps_def

lemma copies_blobs: "copies (EatTxMimbleBlob_steps is outs)" "copies (EatBlockMimbleBlob_steps is)"
  unfolding eater_defs by (intro eater_intros)+

lemma copies_parser_iff:
  assumes "copies m"
  shows "p_then (m []) (\<lambda>(_, data). p_return data) s = Inr (b, rest) \<longleftrightarrow>
    p_then (m []) (\<lambda>(_, data). p_return data) b = Inr (b, []) \<and> s = b @ rest" (is "?P s = _ \<longleftrightarrow> _")
proof
  assume "?P s = Inr (b, rest)"
  then obtain x where m: "m [] s = Inr ((x, b), rest)" by (auto simp: p_then_Inr_iff)
  then have "s = b @ rest \<and> (\<forall>t. m [] (b @ t) = Inr ((x, b), t))" using assms unfolding copies_def by fastforce
  moreover from this have "m [] (b @ []) = Inr ((x, b), [])" by blast
  ultimately show "?P b = Inr (b, []) \<and> s = b @ rest" by simp
next
  assume b: "?P b = Inr (b, []) \<and> s = b @ rest"
  then obtain x where m: "m [] b = Inr ((x, b), [])" by (auto simp: p_then_Inr_iff)
  then have "\<forall>t. m [] (b @ t) = Inr ((x, b), t)" using assms unfolding copies_def by fastforce
  then show "?P s = Inr (b, rest)" using b by simp
qed

definition mimble_ok :: "stream_ctx \<Rightarrow> CTxOut list \<Rightarrow> bytes \<Rightarrow> bool" where
  "mimble_ok is outs b \<longleftrightarrow> EatTxMimbleBlob is outs b = Inr (b, [])"

definition block_mimble_ok :: "stream_ctx \<Rightarrow> bytes \<Rightarrow> bool" where
  "block_mimble_ok is b \<longleftrightarrow> EatBlockMimbleBlob is b = Inr (b, [])"

interpretation tx_mimble: canonical_codec "\<lambda>b. b" "EatTxMimbleBlob is outs" "mimble_ok is outs" for "is" outs
  unfolding mimble_ok_def EatTxMimbleBlob_def by (rule canonical_codecI) (rule copies_parser_iff[OF copies_blobs(1)])

interpretation block_mimble: canonical_codec "\<lambda>b. b" "EatBlockMimbleBlob is" "block_mimble_ok is" for "is"
  unfolding block_mimble_ok_def EatBlockMimbleBlob_def by (rule canonical_codecI) (rule copies_parser_iff[OF copies_blobs(2)])

lemma mimble_ok_nonempty: "mimble_ok is outs b \<Longrightarrow> b \<noteq> []"
  by (auto simp: mimble_ok_def EatTxMimbleBlob_def EatTxMimbleBlob_steps_def e_then_def RdWr_def p_then_Inr_iff stream_read_Inr_iff)

section \<open>Inputs and outputs are canonical\<close>

definition in_ok :: "stream_ctx \<Rightarrow> CTxIn \<Rightarrow> bool" where
  "in_ok is i \<longleftrightarrow> length (op_txid (prevout i)) = 32 \<and> length (scriptSig i) \<le> max_elems is \<and> scriptWitness i = []"

lemma Unserialize_COutPoint_iff:
  "Unserialize_COutPoint s = Inr (p, rest) \<longleftrightarrow> length (op_txid p) = 32 \<and> s = Serialize_COutPoint p @ rest"
  by (cases p) (auto simp: Unserialize_COutPoint_def Serialize_COutPoint_def p_then_Inr_iff array.unser_iff int32.unser_iff)

interpretation txin: canonical_codec Serialize_CTxIn "Unserialize_CTxIn is" "in_ok is" for "is"
proof (rule canonical_codecI)
  fix s :: bytes and i rest
  show "Unserialize_CTxIn is s = Inr (i, rest) \<longleftrightarrow> in_ok is i \<and> s = Serialize_CTxIn i @ rest"
    by (cases i) (auto simp: Unserialize_CTxIn_def Serialize_CTxIn_def in_ok_def p_then_Inr_iff Unserialize_COutPoint_iff
        bytevec.unser_iff int32.unser_iff)
qed

definition wrapped_script :: "CTxOut \<Rightarrow> bytes" where
  "wrapped_script o1 =
     (case tokenDataPtr o1 of Some d \<Rightarrow> PREFIX_BYTE # token_bytes d @ scriptPubKey o1 | None \<Rightarrow> scriptPubKey o1)"

definition txout_bytes :: "CTxOut \<Rightarrow> bytes" where
  "txout_bytes o1 = Serialize_int64 (nValue o1) @ Serialize_bytevec (wrapped_script o1)"

text \<open>With CashTokens, token data must be well-formed, and a script without it must not read as one that has it.\<close>

definition out_ok :: "stream_ctx \<Rightarrow> CTxOut \<Rightarrow> bool" where
  "out_ok is o1 \<longleftrightarrow> length (wrapped_script o1) \<le> max_elems is \<and>
     (if GetVersion is AND SERIALIZE_TRANSACTION_USE_CASHTOKENS = 0 then tokenDataPtr o1 = None
      else UnwrapScriptPubKey (GetVersion is) False (wrapped_script o1) = Inr (tokenDataPtr o1, scriptPubKey o1))"

lemma unwrap_script:
  "UnwrapScriptPubKey v thr w = Inr (td, spk) \<Longrightarrow> w = wrapped_script \<lparr> nValue = x, scriptPubKey = spk, tokenDataPtr = td \<rparr>"
  by (cases td) (auto simp: Unwrap_cases wrapped_script_def)

lemma Unserialize_CTxOut_iff:
  "Unserialize_CTxOut is s = Inr (o1, rest) \<longleftrightarrow> out_ok is o1 \<and> s = txout_bytes o1 @ rest"
proof -
  obtain v spk td where o1: "o1 = \<lparr> nValue = v, scriptPubKey = spk, tokenDataPtr = td \<rparr>" by (cases o1) auto
  show ?thesis
  proof (cases "GetVersion is AND SERIALIZE_TRANSACTION_USE_CASHTOKENS = 0")
    case True
    then show ?thesis
      by (auto simp: Unserialize_CTxOut_def p_then_Inr_iff int64.unser_iff bytevec.unser_iff o1 out_ok_def wrapped_script_def txout_bytes_def)
  next
    case False
    have step: "(case UnwrapScriptPubKey (GetVersion is) False w of Inl e \<Rightarrow> p_fail e
        | Inr (td, spk) \<Rightarrow> p_return \<lparr> nValue = v', scriptPubKey = spk, tokenDataPtr = td \<rparr>) r = Inr (o1, rest) \<longleftrightarrow>
        v' = v \<and> r = rest \<and> UnwrapScriptPubKey (GetVersion is) False w = Inr (td, spk)" for v' w r
      by (auto simp: o1 split: sum.splits)
    show ?thesis
    proof
      assume "Unserialize_CTxOut is s = Inr (o1, rest)"
      then obtain w where w: "length w \<le> max_elems is" "s = Serialize_int64 v @ Serialize_bytevec w @ rest"
          "UnwrapScriptPubKey (GetVersion is) False w = Inr (td, spk)"
        using False by (auto simp: Unserialize_CTxOut_def p_then_Inr_iff int64.unser_iff bytevec.unser_iff step)
      then show "out_ok is o1 \<and> s = txout_bytes o1 @ rest"
        using unwrap_script[OF w(3), of v] False by (simp add: out_ok_def txout_bytes_def o1)
    next
      assume r: "out_ok is o1 \<and> s = txout_bytes o1 @ rest"
      then have "UnwrapScriptPubKey (GetVersion is) False (wrapped_script o1) = Inr (td, spk)"
        using False by (simp add: out_ok_def o1)
      then show "Unserialize_CTxOut is s = Inr (o1, rest)"
        using r False by (auto simp: Unserialize_CTxOut_def p_then_Inr_iff int64.unser_iff bytevec.unser_iff step out_ok_def txout_bytes_def o1)
    qed
  qed
qed

interpretation txout: canonical_codec txout_bytes "Unserialize_CTxOut is" "out_ok is" for "is"
  by (rule canonical_codecI) (rule Unserialize_CTxOut_iff)

lemma Serialize_CTxOut_ok: "out_ok is o1 \<Longrightarrow> Serialize_CTxOut o1 = Inr (txout_bytes o1)"
  by (cases "tokenDataPtr o1") (auto simp: Serialize_CTxOut_def txout_bytes_def wrapped_script_def out_ok_def WrapScriptPubKey_def
      Unwrap_cases Serialize_OutputData_ok Let_def split: if_splits)

section \<open>Transactions are canonical\<close>

abbreviation no_witness :: "CTxIn \<Rightarrow> CTxIn" where "no_witness i \<equiv> i\<lparr>scriptWitness := []\<rparr>"

definition stack_ok :: "stream_ctx \<Rightarrow> bytes list \<Rightarrow> bool" where
  "stack_ok is st \<longleftrightarrow> length st \<le> max_elems is \<and> list_all (\<lambda>v. length v \<le> max_elems is) st"

lemma elem_sizes: "0 < (96::nat)" "(96::nat) \<le> MAX_VECTOR_ALLOCATE" "0 < (48::nat)" "(48::nat) \<le> MAX_VECTOR_ALLOCATE"
  "0 < (24::nat)" "(24::nat) \<le> MAX_VECTOR_ALLOCATE" "0 < (16::nat)" "(16::nat) \<le> MAX_VECTOR_ALLOCATE"
  by (simp_all add: MAX_VECTOR_ALLOCATE_def)

interpretation tx_vin: canonical_codec Serialize_vin "Unserialize_vin is" "\<lambda>v. length v \<le> max_elems is \<and> list_all (in_ok is) v" for "is"
  unfolding Serialize_vin_def Unserialize_vin_def by (rule txin.canonical_vector_codec[OF elem_sizes(1,2)])

interpretation tx_vout: canonical_codec "Vector_Ser txout_bytes" "Unserialize_vout is"
  "\<lambda>v. length v \<le> max_elems is \<and> list_all (out_ok is) v" for "is"
  unfolding Unserialize_vout_def by (rule txout.canonical_vector_codec[OF elem_sizes(3,4)])

interpretation tx_stack: canonical_codec Serialize_stack "Unserialize_stack is" "stack_ok is" for "is"
  unfolding Serialize_stack_def Unserialize_stack_def stack_ok_def by (rule bytevec.canonical_vector_codec[OF elem_sizes(5,6)])

lemma Serialize_CTxIn_witness [simp]: "Serialize_CTxIn (i\<lparr>scriptWitness := w\<rparr>) = Serialize_CTxIn i"
  by (simp add: Serialize_CTxIn_def)

lemma Serialize_vin_witness [simp]: "Serialize_vin (map no_witness ins) = Serialize_vin ins"
  by (simp add: Serialize_vin_def Vector_Ser_def comp_def)

lemma Serialize_vout_ok:
  assumes "list_all (out_ok is) v"
  shows "Serialize_vout v = Inr (Vector_Ser txout_bytes v)"
proof -
  have "rmap Serialize_CTxOut v = Inr (map txout_bytes v)"
    by (rule rmap_all_Inr) (use assms in \<open>auto simp: list_all_iff intro: Serialize_CTxOut_ok\<close>)
  then show ?thesis by (simp add: Serialize_vout_def Vector_Ser_def)
qed

lemma in_ok_no_witness: "in_ok is i \<Longrightarrow> no_witness i = i"
  by (simp add: in_ok_def)

lemma read_witnesses_iff:
  assumes "list_all (in_ok is) ins"
  shows "read_witnesses is ins s = Inr (ins', rest) \<longleftrightarrow>
    ins = map no_witness ins' \<and> list_all (\<lambda>i. stack_ok is (scriptWitness i)) ins' \<and>
    s = concat (map (\<lambda>i. Serialize_stack (scriptWitness i)) ins') @ rest"
  using assms
proof (induction ins arbitrary: s ins' rest)
  case (Cons i ins)
  have "no_witness i = i" using Cons.prems by (simp add: in_ok_def)
  then have upd: "j = i\<lparr>scriptWitness := st\<rparr> \<longleftrightarrow> i = no_witness j \<and> st = scriptWitness j" for j st
    by (cases i; cases j) auto
  show ?case
  proof (cases ins')
    case Nil
    then show ?thesis by (auto simp: p_then_Inr_iff)
  next
    case (Cons j js)
    then show ?thesis using Cons.IH Cons.prems Cons.prems upd[of j]
      by (auto simp: p_then_Inr_iff tx_stack.unser_iff)
  qed
qed auto

lemma tx_read_witness_iff:
  assumes "list_all (in_ok is) ins"
  shows "tx_read_witness is flags ins s = Inr ((f, ins'), rest) \<longleftrightarrow>
    (if flags AND 1 \<noteq> 0 \<and> fAllowWitness is
     then f = flags XOR 1 \<and> list_ex (\<lambda>i. scriptWitness i \<noteq> []) ins' \<and> ins = map no_witness ins' \<and>
       list_all (\<lambda>i. stack_ok is (scriptWitness i)) ins' \<and> s = concat (map (\<lambda>i. Serialize_stack (scriptWitness i)) ins') @ rest
     else f = flags \<and> ins' = ins \<and> s = rest)"
  using assms by (auto simp: tx_read_witness_def p_then_Inr_iff read_witnesses_iff split: if_splits)

lemma tx_read_mimble_iff:
  "tx_read_mimble is flags outs s = Inr ((f, mw), rest) \<longleftrightarrow>
    (if flags AND 8 \<noteq> 0 \<and> fAllowMimble is
     then f = flags XOR 8 \<and> (\<exists>b. mw = Some b \<and> mimble_ok is outs b \<and> s = b @ rest)
     else f = flags \<and> mw = None \<and> s = rest)"
  by (auto simp: tx_read_mimble_def p_then_Inr_iff tx_mimble.unser_iff)

lemma tx_read_outs_iff:
  "tx_read_outs is vin0 s = Inr ((flags, ins, outs), rest) \<longleftrightarrow>
    (if vin0 = [] \<and> fAllowWitness is
     then if flags \<noteq> 0
          then length ins \<le> max_elems is \<and> list_all (in_ok is) ins \<and> length outs \<le> max_elems is \<and> list_all (out_ok is) outs \<and>
            s = flags # Serialize_vin ins @ Vector_Ser txout_bytes outs @ rest
          else ins = [] \<and> outs = [] \<and> s = 0 # rest
     else flags = 0 \<and> ins = vin0 \<and> length outs \<le> max_elems is \<and> list_all (out_ok is) outs \<and> s = Vector_Ser txout_bytes outs @ rest)"
  by (auto simp: tx_read_outs_def p_then_Inr_iff tx_vin.unser_iff tx_vout.unser_iff int8.unser_iff Serialize_int8_def ser_writedata8_def
      split: if_splits)

text \<open>What a stream with the given flags can carry: witnesses and MWEB data only if enabled, and no transaction
  with outputs but no inputs in a form that a reader would take for the extended format.\<close>

definition tx_ok :: "stream_ctx \<Rightarrow> CMutableTransaction \<Rightarrow> bool" where
  "tx_ok is tx \<longleftrightarrow>
     length (vin tx) \<le> max_elems is \<and> list_all (\<lambda>i. in_ok is (no_witness i)) (vin tx) \<and>
     length (vout tx) \<le> max_elems is \<and> list_all (out_ok is) (vout tx) \<and>
     (if fAllowWitness is \<and> HasWitness tx then list_all (\<lambda>i. stack_ok is (scriptWitness i)) (vin tx) else \<not> HasWitness tx) \<and>
     (case mw_blob tx of None \<Rightarrow> True | Some b \<Rightarrow> fAllowWitness is \<and> fAllowMimble is \<and> mimble_ok is (vout tx) b) \<and>
     (fAllowWitness is \<and> tx_flags is tx = 0 \<and> vin tx = [] \<longrightarrow> vout tx = [])"

definition tx_bytes :: "stream_ctx \<Rightarrow> CMutableTransaction \<Rightarrow> bytes" where
  "tx_bytes is tx =
     Serialize_int32 (tx_nVersion tx) @
     (if tx_flags is tx \<noteq> 0 then Serialize_vin [] @ Serialize_int8 (tx_flags is tx) else []) @
     Serialize_vin (vin tx) @ Vector_Ser txout_bytes (vout tx) @
     (if tx_flags is tx AND 1 \<noteq> 0 then concat (map (\<lambda>txin. Serialize_stack (scriptWitness txin)) (vin tx)) else []) @
     (if tx_flags is tx AND 8 \<noteq> 0 then the (mw_blob tx) else []) @
     Serialize_int32 (nLockTime tx)"

lemma SerializeTransaction_ok:
  assumes "list_all (out_ok is') (vout tx)"
  shows "SerializeTransaction is tx = Inr (tx_bytes is tx)"
  by (simp add: SerializeTransaction_def tx_bytes_def Serialize_vout_ok[OF assms] Let_def)

lemma xor_zero_iff: "(x :: byte) XOR a = 0 \<longleftrightarrow> x = a"
proof
  assume "x XOR a = 0"
  then have "(x XOR a) XOR a = 0 XOR a" by simp
  then show "x = a" by (simp add: xor.assoc)
qed simp

text \<open>The reader clears a flag bit for each part it has read and insists that none is left.\<close>

lemma flags_consumed:
  fixes f0 :: byte
  defines "f1 \<equiv> (if f0 AND 1 \<noteq> 0 then f0 XOR 1 else f0)"
  shows "(if f1 AND 8 \<noteq> 0 \<and> M then f1 XOR 8 else f1) = 0 \<longleftrightarrow> f0 = 0 \<or> f0 = 1 \<or> (M \<and> (f0 = 8 \<or> f0 = 9))"
proof -
  have nine: "f0 XOR 1 = 8 \<longleftrightarrow> f0 = 9"
  proof
    assume "f0 XOR 1 = 8"
    then have "(f0 XOR 1) XOR 1 = 8 XOR 1" by simp
    then show "f0 = 9" by (simp add: xor.assoc)
  qed simp
  show ?thesis unfolding f1_def by (auto simp: xor_zero_iff nine)
qed

lemma tx_flags_cases:
  "tx_flags is tx AND 1 \<noteq> 0 \<longleftrightarrow> fAllowWitness is \<and> HasWitness tx"
  "tx_flags is tx AND 8 \<noteq> 0 \<longleftrightarrow> fAllowMimble is \<and> mw_blob tx \<noteq> None \<and> mw_blob tx \<noteq> Some []"
  "tx_flags is tx \<in> {0, 1, 8, 9}"
  "tx_flags is tx = 0 \<longleftrightarrow> tx_flags is tx AND 1 = 0 \<and> tx_flags is tx AND 8 = 0"
  by (auto simp: tx_flags_def Let_def)

lemma Vector_Ser_Nil: "Vector_Ser ser [] = [0]"
  by (simp add: Vector_Ser_def WriteCompactSize_def ser_writedata8_def)

lemma no_witness_map: "\<not> list_ex (\<lambda>i. scriptWitness i \<noteq> []) ins \<Longrightarrow> map no_witness ins = ins"
  by (induction ins) auto

lemma tx_read_witness_parts:
  assumes "list_all (in_ok is) ins" "flags \<noteq> 0 \<longrightarrow> fAllowWitness is"
    "tx_read_witness is flags ins s = Inr ((f, ins'), rest)"
  shows "ins = map no_witness ins'" "list_ex (\<lambda>i. scriptWitness i \<noteq> []) ins' \<longleftrightarrow> flags AND 1 \<noteq> 0"
    "f = (if flags AND 1 \<noteq> 0 then flags XOR 1 else flags)"
    "flags AND 1 \<noteq> 0 \<longrightarrow> list_all (\<lambda>i. stack_ok is (scriptWitness i)) ins'"
    "s = (if flags AND 1 \<noteq> 0 then concat (map (\<lambda>i. Serialize_stack (scriptWitness i)) ins') else []) @ rest"
proof -
  have fw: "flags AND 1 \<noteq> 0 \<longrightarrow> fAllowWitness is" using assms(2) by (cases "flags = 0") auto
  note w = assms(3)[unfolded tx_read_witness_iff[OF assms(1)]]
  have plain: "map no_witness ins = ins" "\<not> list_ex (\<lambda>i. scriptWitness i \<noteq> []) ins"
    using assms(1) by (induction ins) (auto simp: in_ok_def)
  show "ins = map no_witness ins'" "list_ex (\<lambda>i. scriptWitness i \<noteq> []) ins' \<longleftrightarrow> flags AND 1 \<noteq> 0"
    "f = (if flags AND 1 \<noteq> 0 then flags XOR 1 else flags)"
    "flags AND 1 \<noteq> 0 \<longrightarrow> list_all (\<lambda>i. stack_ok is (scriptWitness i)) ins'"
    "s = (if flags AND 1 \<noteq> 0 then concat (map (\<lambda>i. Serialize_stack (scriptWitness i)) ins') else []) @ rest"
    using w fw plain by (cases "flags AND 1 = 0", simp, simp)+
qed

lemma UnserializeTransaction_sound:
  assumes "UnserializeTransaction is s = Inr (tx, rest)"
  shows "tx_ok is tx \<and> s = tx_bytes is tx @ rest"
proof -
  obtain nVer vin0 flags ins outs f1 ins' f2 mw lock s1 s2 s3 s4 s5 where
    s: "s = Serialize_int32 nVer @ s1" and v0: "length vin0 \<le> max_elems is" "list_all (in_ok is) vin0" "s1 = Serialize_vin vin0 @ s2"
    and o: "tx_read_outs is vin0 s2 = Inr ((flags, ins, outs), s3)"
    and w: "tx_read_witness is flags ins s3 = Inr ((f1, ins'), s4)"
    and m: "tx_read_mimble is f1 outs s4 = Inr ((f2, mw), s5)" and f2: "f2 = 0"
    and l: "s5 = Serialize_int32 lock @ rest"
    and tx: "tx = \<lparr> tx_nVersion = nVer, vin = ins', vout = outs, nLockTime = lock, mw_blob = mw \<rparr>"
    using assms unfolding UnserializeTransaction_def
    by (auto simp: p_then_Inr_iff int32.unser_iff tx_vin.unser_iff split: if_splits)
  have ins: "length ins \<le> max_elems is" "list_all (in_ok is) ins" "length outs \<le> max_elems is" "list_all (out_ok is) outs"
    and fw: "flags \<noteq> 0 \<longrightarrow> fAllowWitness is"
    and s2: "Serialize_vin vin0 @ s2 = (if flags \<noteq> 0 then Serialize_vin [] @ Serialize_int8 flags else []) @ Serialize_vin ins @ Vector_Ser txout_bytes outs @ s3"
    and empty: "fAllowWitness is \<and> flags = 0 \<and> ins = [] \<longrightarrow> outs = []"
    using o v0 unfolding tx_read_outs_iff by (auto simp: Serialize_int8_def ser_writedata8_def Vector_Ser_Nil split: if_splits)
  note wit = tx_read_witness_parts[OF ins(2) fw w]
  note m' = m[unfolded tx_read_mimble_iff]
  have "(if f1 AND 8 \<noteq> 0 \<and> fAllowMimble is then f1 XOR 8 else f1) = 0" using m' f2 by (auto split: if_splits)
  then have fl: "flags = 0 \<or> flags = 1 \<or> (fAllowMimble is \<and> (flags = 8 \<or> flags = 9))"
    unfolding wit(3) flags_consumed .
  then have f8: "f1 AND 8 \<noteq> 0 \<and> fAllowMimble is \<longleftrightarrow> flags AND 8 \<noteq> 0" unfolding wit(3) by auto
  then have mw: "if flags AND 8 \<noteq> 0 then fAllowMimble is \<and> (\<exists>b. mw = Some b \<and> mimble_ok is outs b \<and> s4 = b @ s5) else mw = None \<and> s4 = s5"
    using m' by (auto split: if_splits)
  have tf: "tx_flags is tx = flags"
    using fl mw fw wit(2) mimble_ok_nonempty[of "is" outs "[]"] by (auto simp: tx_flags_def HasWitness_def tx Let_def)
  have "case mw of None \<Rightarrow> True | Some b \<Rightarrow> fAllowWitness is \<and> fAllowMimble is \<and> mimble_ok is outs b"
    using mw fw by (cases "flags = 0") (auto split: if_splits)
  moreover have "list_all (\<lambda>i. in_ok is (no_witness i)) ins'" "length ins' = length ins"
    using ins(2) unfolding wit(1) by (simp_all add: list_all_iff)
  moreover have sel: "vin tx = ins'" "vout tx = outs" "mw_blob tx = mw" by (simp_all add: tx)
  ultimately have "tx_ok is tx"
    using ins wit(1,2,4) fw empty unfolding tx_ok_def tf HasWitness_def sel by (cases "flags = 0") auto
  moreover have "s4 = (if flags AND 8 \<noteq> 0 then the mw else []) @ s5" using mw by (auto split: if_splits)
  then have "s = tx_bytes is tx @ rest"
    unfolding tx_bytes_def tf s v0(3) s2 wit(1,5) l by (simp add: tx)
  ultimately show ?thesis by simp
qed

lemma UnserializeTransaction_complete:
  assumes "tx_ok is tx"
  shows "UnserializeTransaction is (tx_bytes is tx @ rest) = Inr (tx, rest)"
proof -
  let ?f = "tx_flags is tx" and ?ins = "map no_witness (vin tx)"
  define s5 where "s5 = Serialize_int32 (nLockTime tx) @ rest"
  define s4 where "s4 = (if ?f AND 8 \<noteq> 0 then the (mw_blob tx) else []) @ s5"
  define s3 where "s3 = (if ?f AND 1 \<noteq> 0 then concat (map (\<lambda>i. Serialize_stack (scriptWitness i)) (vin tx)) else []) @ s4"
  define vin0 where "vin0 = (if ?f \<noteq> 0 then [] else ?ins)"
  define s2 where "s2 = (if ?f \<noteq> 0 then ?f # Serialize_vin ?ins @ Vector_Ser txout_bytes (vout tx) @ s3 else Vector_Ser txout_bytes (vout tx) @ s3)"
  have ok: "length ?ins \<le> max_elems is" "list_all (in_ok is) ?ins" "length (vout tx) \<le> max_elems is" "list_all (out_ok is) (vout tx)"
    using assms by (simp_all add: tx_ok_def list_all_iff)
  have fw: "?f \<noteq> 0 \<longrightarrow> fAllowWitness is"
    using assms tx_flags_cases(1,2,4)[of "is" tx] by (auto simp: tx_ok_def split: option.splits)
  have s: "tx_bytes is tx @ rest = Serialize_int32 (tx_nVersion tx) @ Serialize_vin vin0 @ s2"
    by (simp add: tx_bytes_def s2_def vin0_def s3_def s4_def s5_def Serialize_int8_def ser_writedata8_def)
  have o: "tx_read_outs is vin0 s2 = Inr ((?f, ?ins, vout tx), s3)"
    using ok fw assms unfolding tx_read_outs_iff by (auto simp: vin0_def s2_def tx_ok_def Vector_Ser_Nil)
  have w: "tx_read_witness is ?f ?ins s3 = Inr ((if ?f AND 1 \<noteq> 0 then ?f XOR 1 else ?f, vin tx), s4)"
    using tx_flags_cases(1)[of "is" tx] assms unfolding tx_read_witness_iff[OF ok(2)]
    by (auto simp: s3_def tx_ok_def HasWitness_def no_witness_map split: if_splits)
  have "tx_flags is tx \<in> {0, 1, 8, 9}" by (rule tx_flags_cases(3))
  then have m: "tx_read_mimble is (if ?f AND 1 \<noteq> 0 then ?f XOR 1 else ?f) (vout tx) s4 = Inr ((0, mw_blob tx), s5)"
    using tx_flags_cases(2)[of "is" tx] assms mimble_ok_nonempty[of "is" "vout tx" "[]"] unfolding tx_read_mimble_iff
    by (cases "mw_blob tx") (auto simp: s4_def tx_ok_def)
  have "tx = \<lparr> tx_nVersion = tx_nVersion tx, vin = vin tx, vout = vout tx, nLockTime = nLockTime tx, mw_blob = mw_blob tx \<rparr>" by simp
  moreover have "Unserialize_vin is (Serialize_vin vin0 @ s2) = Inr (vin0, s2)"
    using ok by (simp add: tx_vin.unser_iff vin0_def)
  ultimately show ?thesis
    unfolding s UnserializeTransaction_def using o w m by (simp add: int32.unser_ser s5_def)
qed

interpretation transaction: canonical_codec "tx_bytes is" "UnserializeTransaction is" "tx_ok is" for "is"
  by unfold_locales (fact UnserializeTransaction_complete UnserializeTransaction_sound)+

lemma tx_outs_ok: "tx_ok is tx \<Longrightarrow> list_all (out_ok is) (vout tx)"
  by (simp add: tx_ok_def)

definition txid_of :: "CMutableTransaction \<Rightarrow> bytes" where
  "txid_of tx = BTC_Hash (tx_bytes (ser_ctx SER_GETHASH 0) tx) False"

lemma CTransaction_new_ok:
  "tx_ok is tx \<Longrightarrow> CTransaction_new tx = Inr (CMutableTransaction.extend tx \<lparr> tx_hash = txid_of tx \<rparr>)"
  by (simp add: CTransaction_new_def ComputeHash_def SerializeTransaction_ok[OF tx_outs_ok] txid_of_def)

lemma mutable_extend [simp]: "mutable_tx (CMutableTransaction.extend tx \<lparr> tx_hash = h \<rparr>) = tx"
  by (cases tx) (simp add: mutable_tx_def CMutableTransaction.extend_def CMutableTransaction.truncate_def)

lemma tx_hash_extend [simp]: "tx_hash (CMutableTransaction.extend tx \<lparr> tx_hash = h \<rparr>) = h"
  by (simp add: CMutableTransaction.extend_def)

lemma extend_eq_iff:
  "t = CMutableTransaction.extend tx \<lparr> tx_hash = h \<rparr> \<longleftrightarrow> tx = mutable_tx t \<and> h = tx_hash t"
  by (cases t; cases tx) (auto simp: mutable_tx_def CMutableTransaction.extend_def CMutableTransaction.truncate_def)

definition ctx_ok :: "stream_ctx \<Rightarrow> CTransaction \<Rightarrow> bool" where
  "ctx_ok is t \<longleftrightarrow> tx_ok is (mutable_tx t) \<and> tx_hash t = txid_of (mutable_tx t)"

interpretation ctransaction: canonical_codec "\<lambda>t. tx_bytes is (mutable_tx t)" "Unserialize_CTransaction is" "ctx_ok is" for "is"
proof (rule canonical_codecI)
  fix s rest :: bytes and t
  have "(case CTransaction_new tx of Inl e \<Rightarrow> p_fail e | Inr t \<Rightarrow> p_return t) s' = Inr (t, rest) \<longleftrightarrow>
      tx = mutable_tx t \<and> tx_hash t = txid_of tx \<and> s' = rest" if "tx_ok is tx" for tx s'
    using extend_eq_iff[of t tx "txid_of tx"] by (auto simp: CTransaction_new_ok[OF that])
  then have "Unserialize_CTransaction is s = Inr (t, rest) \<longleftrightarrow>
      (\<exists>tx s'. tx_ok is tx \<and> s = tx_bytes is tx @ s' \<and> tx = mutable_tx t \<and> tx_hash t = txid_of tx \<and> s' = rest)"
    unfolding Unserialize_CTransaction_def p_then_Inr_iff transaction.unser_iff by blast
  then show "Unserialize_CTransaction is s = Inr (t, rest) \<longleftrightarrow> ctx_ok is t \<and> s = tx_bytes is (mutable_tx t) @ rest"
    by (auto simp: ctx_ok_def)
qed

section \<open>Blocks are canonical\<close>

definition block_ok :: "stream_ctx \<Rightarrow> CBlock \<Rightarrow> bool" where
  "block_ok is b \<longleftrightarrow> header_ok (blk_header b) \<and> length (vtx b) \<le> max_elems is \<and> list_all (ctx_ok is) (vtx b) \<and>
     (if block_has_mweb is (vtx b) then \<exists>d. blk_mw_blob b = Some d \<and> block_mimble_ok is d else blk_mw_blob b = None)"

definition block_bytes :: "stream_ctx \<Rightarrow> CBlock \<Rightarrow> bytes" where
  "block_bytes is b = Serialize_CBlockHeader (blk_header b) @ Vector_Ser (\<lambda>t. tx_bytes is (mutable_tx t)) (vtx b) @
     (if block_has_mweb is (vtx b) then (case blk_mw_blob b of Some d \<Rightarrow> d | None \<Rightarrow> []) else [])"

interpretation block_vtx: canonical_codec "Vector_Ser (\<lambda>t. tx_bytes is (mutable_tx t))" "Unserialize_vtx is"
  "\<lambda>v. length v \<le> max_elems is \<and> list_all (ctx_ok is) v" for "is"
  unfolding Unserialize_vtx_def by (rule ctransaction.canonical_vector_codec[OF elem_sizes(7,8)])

lemma block_mweb_iff:
  "(if m then p_then (EatBlockMimbleBlob is) (\<lambda>b. p_return (Some b)) else p_return None) s = Inr (mw, rest) \<longleftrightarrow>
    (if m then \<exists>d. mw = Some d \<and> block_mimble_ok is d \<and> s = d @ rest else mw = None \<and> s = rest)"
  by (auto simp: p_then_Inr_iff block_mimble.unser_iff)

interpretation block: canonical_codec "block_bytes is" "Unserialize_CBlock is" "block_ok is" for "is"
proof
  fix b and rest :: bytes
  assume ok: "block_ok is b"
  let ?mw = "if block_has_mweb is (vtx b) then (case blk_mw_blob b of Some d \<Rightarrow> d | None \<Rightarrow> []) else []"
  have "Unserialize_CBlockHeader CBlockHeader_new (block_bytes is b @ rest) =
      Inr (blk_header b, Vector_Ser (\<lambda>t. tx_bytes is (mutable_tx t)) (vtx b) @ ?mw @ rest)"
    using ok by (simp add: block_header.unser_iff block_bytes_def block_ok_def)
  moreover have "Unserialize_vtx is (Vector_Ser (\<lambda>t. tx_bytes is (mutable_tx t)) (vtx b) @ ?mw @ rest) = Inr (vtx b, ?mw @ rest)"
    using ok by (simp add: block_vtx.unser_iff block_ok_def)
  moreover have "(if block_has_mweb is (vtx b) then p_then (EatBlockMimbleBlob is) (\<lambda>b. p_return (Some b)) else p_return None) (?mw @ rest)
      = Inr (blk_mw_blob b, rest)"
    using ok unfolding block_mweb_iff by (auto simp: block_ok_def)
  ultimately show "Unserialize_CBlock is (block_bytes is b @ rest) = Inr (b, rest)"
    by (simp add: Unserialize_CBlock_def)
next
  fix s rest :: bytes and b
  assume "Unserialize_CBlock is s = Inr (b, rest)"
  then show "block_ok is b \<and> s = block_bytes is b @ rest"
    by (auto simp: Unserialize_CBlock_def block_ok_def block_bytes_def p_then_Inr_iff block_header.unser_iff block_vtx.unser_iff
        block_mimble.unser_iff split: if_splits)
qed

lemma Serialize_CBlock_ok: "block_ok is b \<Longrightarrow> Serialize_CBlock is b = Inr (block_bytes is b)"
proof -
  assume ok: "block_ok is b"
  have "rmap (\<lambda>tx. SerializeTransaction is (mutable_tx tx)) (vtx b) = Inr (map (\<lambda>t. tx_bytes is (mutable_tx t)) (vtx b))"
    by (rule rmap_all_Inr) (use ok in \<open>auto simp: block_ok_def ctx_ok_def list_all_iff intro!: SerializeTransaction_ok tx_outs_ok\<close>)
  then show ?thesis by (simp add: Serialize_CBlock_def block_bytes_def Vector_Ser_def)
qed

section \<open>Amounts\<close>

text \<open>Within the money range the 64-bit sum cannot wrap, and the loop's partial checks decide the exact total.\<close>

lemma sint_add_small:
  assumes "0 \<le> sint (a :: int64)" "0 \<le> sint (b :: int64)" "sint a + sint b < 2 ^ 63"
  shows "sint (a + b) = sint a + sint b"
proof -
  have "a + b = word_of_int (sint a + sint b)" by simp
  then have "sint (a + b) = signed_take_bit 63 (sint a + sint b)" by (simp only: signed_of_int) simp
  then show ?thesis using assms by (simp add: signed_take_bit_int_eq_self)
qed

lemma value_out_loop_iff:
  assumes "MoneyRange acc"
  shows "value_out_loop acc outs = Inr v \<longleftrightarrow>
    list_all (\<lambda>o1. MoneyRange (nValue o1)) outs \<and> sint acc + sum_list (map (\<lambda>o1. sint (nValue o1)) outs) \<le> MAX_MONEY \<and>
    sint v = sint acc + sum_list (map (\<lambda>o1. sint (nValue o1)) outs)"
  using assms
proof (induction outs arbitrary: acc)
  case Nil
  then show ?case using word_eq_iff_signed[of acc v, where 'a = int] by (auto simp: MoneyRange_def)
next
  case (Cons o1 outs)
  have nonneg: "0 \<le> sum_list (map (\<lambda>o1. sint (nValue o1)) outs)" if "list_all (\<lambda>o1. MoneyRange (nValue o1)) outs"
    using that by (induction outs) (auto simp: MoneyRange_def)
  have add: "sint (acc + nValue o1) = sint acc + sint (nValue o1)" if "MoneyRange (nValue o1)"
    by (rule sint_add_small) (use that Cons.prems in \<open>simp_all add: MoneyRange_def MAX_MONEY_def COIN_def\<close>)
  show ?case
  proof (cases "MoneyRange (nValue o1) \<and> MoneyRange (acc + nValue o1)")
    case True
    then show ?thesis using Cons.IH[of "acc + nValue o1"] add by (auto simp: Let_def algebra_simps)
  next
    case False
    then show ?thesis using nonneg add Cons.prems by (auto simp: Let_def MoneyRange_def)
  qed
qed

lemma GetValueOut_iff:
  "GetValueOut tx = Inr v \<longleftrightarrow> list_all (\<lambda>o1. MoneyRange (nValue o1)) (vout tx) \<and>
    sum_list (map (\<lambda>o1. sint (nValue o1)) (vout tx)) \<le> MAX_MONEY \<and> sint v = sum_list (map (\<lambda>o1. sint (nValue o1)) (vout tx))"
  using value_out_loop_iff[of 0 "vout tx" v] by (simp add: GetValueOut_def MoneyRange_def MAX_MONEY_def COIN_def)

section \<open>The properties of the component\<close>

text \<open>C39: Transactions are stored and served byte for byte. For every combination of stream flags, unserialising
  accepts exactly the serialisations of the transactions such a stream can carry: a transaction read is
  written back as the bytes it was read from, and one that is written is read back unchanged.\<close>

theorem transaction_lossless:
  "UnserializeTransaction is s = Inr (tx, rest) \<longleftrightarrow>
     tx_ok is tx \<and> (\<exists>bs. SerializeTransaction is tx = Inr bs \<and> s = bs @ rest)"
  using SerializeTransaction_ok[OF tx_outs_ok, of "is" tx "is"] by (auto simp: transaction.unser_iff)

text \<open>Whatever was read has an identifier, computed without an error from the form that leaves out witnesses and
  MWEB data; for a transaction that carries neither it is the double SHA-256 of the very bytes read.\<close>

theorem txid_of_bytes:
  assumes "UnserializeTransaction is s = Inr (tx, rest)"
  shows "\<exists>t stripped. CTransaction_new tx = Inr t \<and> mutable_tx t = tx \<and>
    SerializeTransaction (ser_ctx SER_GETHASH 0) tx = Inr stripped \<and> tx_hash t = BTC_Hash stripped False \<and>
    (tx_flags is tx = 0 \<longrightarrow> s = stripped @ rest)"
proof -
  have ok: "tx_ok is tx" and s: "s = tx_bytes is tx @ rest" using assms by (simp_all add: transaction.unser_iff)
  have "tx_flags (ser_ctx SER_GETHASH 0) tx = 0"
    by (simp add: tx_flags_def fAllowWitness_def fAllowMimble_def ser_ctx_def)
  then have "tx_flags is tx = 0 \<longrightarrow> tx_bytes is tx = tx_bytes (ser_ctx SER_GETHASH 0) tx"
    by (simp add: tx_bytes_def)
  then show ?thesis
    using s CTransaction_new_ok[OF ok] SerializeTransaction_ok[OF tx_outs_ok[OF ok], of "ser_ctx SER_GETHASH 0"]
    by (intro exI[of _ "CMutableTransaction.extend tx \<lparr> tx_hash = txid_of tx \<rparr>"] exI[of _ "tx_bytes (ser_ctx SER_GETHASH 0) tx"])
      (simp add: txid_of_def)
qed

text \<open>C40: A block, its header, its transactions with their identifiers and its MWEB extension included, is read
  exactly when it is what would be written for it.\<close>

theorem block_lossless:
  "Unserialize_CBlock is s = Inr (b, rest) \<longleftrightarrow>
     block_ok is b \<and> (\<exists>bs. Serialize_CBlock is b = Inr bs \<and> s = bs @ rest)"
  using Serialize_CBlock_ok[of "is" b] by (auto simp: block.unser_iff)

definition demo_tx :: CMutableTransaction where
  "demo_tx = \<lparr> tx_nVersion = 2, vin = [\<lparr> prevout = COutPoint (replicate 32 7) 1, scriptSig = [0x51], nSequence = - 1, scriptWitness = [] \<rparr>],
     vout = [\<lparr> nValue = 5000, scriptPubKey = [0x51], tokenDataPtr = None \<rparr>], nLockTime = 0, mw_blob = None \<rparr>"

lemma demo_tx_ok: "tx_ok (ser_ctx 1 0) demo_tx"
proof -
  have "(1 :: nat) \<le> unat MAX_SIZE" by (simp add: MAX_SIZE_def)
  also have "\<dots> \<le> max_elems (ser_ctx 1 0)" using compact_limit_ge[of "ser_ctx 1 0" True] by (simp add: word_le_nat_alt)
  finally show ?thesis
    by (simp add: tx_ok_def demo_tx_def in_ok_def out_ok_def wrapped_script_def HasWitness_def fAllowWitness_def ser_ctx_def)
qed

end
