(* ===== verification/Db_Access.thy ===== *)
theory Db_Access
  imports Storage_Codecs Record_Array
begin

text \<open>
  The generic database helpers of \<open>Storage.cpp\<close> (\<open>GenericDBGet\<close> and its variants) over the RocksDB parameter
  of the record arrays, and what a write batch does to one key of a column family: only the entries
  for that key matter, in their order.
\<close>

section \<open>Reading\<close>

text \<open>How a value is decoded is the argument \<open>deser\<close>; the error prefix of the message is left out.\<close>

definition GenericDBGet ::
  "'db rocksdb \<Rightarrow> 'db \<Rightarrow> bytes \<Rightarrow> bool \<Rightarrow> (bytes \<Rightarrow> (db_error, 'a) result) \<Rightarrow> (db_error, 'a option) result" where
  "GenericDBGet R db key missingOk deser =
     (case db_Get R db key of
        Inl status \<Rightarrow>
          if status = NotFound then (if missingOk then Inr None else Inl (DatabaseKeyNotFound status))
          else Inl (DatabaseError status)
      | Inr datum \<Rightarrow> rbind (deser datum) (\<lambda>x. Inr (Some x)))"

definition GenericDBGetFailIfMissing ::
  "'db rocksdb \<Rightarrow> 'db \<Rightarrow> bytes \<Rightarrow> (bytes \<Rightarrow> (db_error, 'a) result) \<Rightarrow> (db_error, 'a) result" where
  "GenericDBGetFailIfMissing R db key deser = rbind (GenericDBGet R db key False deser) (\<lambda>opt. Inr (the opt))"

text \<open>The three ways a value is decoded: as raw bytes, with a \<open>Deserialize\<close> overload, and as a scalar.\<close>

definition deser_bytes :: "bytes \<Rightarrow> (db_error, bytes) result" where "deser_bytes datum = Inr datum"

definition deser_object :: "(bytes \<Rightarrow> 'a option) \<Rightarrow> bytes \<Rightarrow> (db_error, 'a) result" where
  "deser_object f datum =
     (case f datum of None \<Rightarrow> Inl (DatabaseSerializationError ''Key was retrieved ok, but data could not be deserialized'')
      | Some x \<Rightarrow> Inr x)"

definition deser_scalar :: "nat \<Rightarrow> bytes \<Rightarrow> (db_error, 'a::len word) result" where
  "deser_scalar n datum =
     (if length datum > n then Inl (DatabaseFormatError ''Extra bytes at the end of data'')
      else case fst (DeserializeScalar False n datum 0) of
             None \<Rightarrow> Inl (DatabaseSerializationError ''data could not be deserialized as a scalar'')
           | Some x \<Rightarrow> Inr x)"

context rocksdb_laws
begin

lemma GenericDBGet_missing:
  "contents db k = None \<Longrightarrow> GenericDBGet R db k missingOk deser = (if missingOk then Inr None else Inl (DatabaseKeyNotFound NotFound))"
  by (simp add: GenericDBGet_def Get_missing)

lemma GenericDBGet_found:
  "contents db k = Some v \<Longrightarrow> GenericDBGet R db k missingOk deser = rbind (deser v) (\<lambda>x. Inr (Some x))"
  by (simp add: GenericDBGet_def Get_found)

lemma FailIfMissing_found:
  "contents db k = Some v \<Longrightarrow> deser v = Inr x \<Longrightarrow> GenericDBGetFailIfMissing R db k deser = Inr x"
  by (simp add: GenericDBGetFailIfMissing_def GenericDBGet_found)

end

lemma deser_scalar_le: "8 * n = LENGTH('a) \<Longrightarrow> deser_scalar n (SerializeScalar False n (w :: 'a::len word)) = Inr w"
  by (simp add: deser_scalar_def DeserializeScalar_def SerializeScalar_def le_dec_le_enc)

section \<open>What a batch does to a key\<close>

fun op_key :: "batch_op \<Rightarrow> bytes option" where
  "op_key (Put k v) = Some k"
| "op_key (Merge k v) = Some k"
| "op_key (Delete k) = Some k"
| "op_key (DeleteRange a b) = None"

fun val_op :: "batch_op \<Rightarrow> bytes option \<Rightarrow> bytes option" where
  "val_op (Put k v) x = Some v"
| "val_op (Merge k v) x = Some (ConcatOperator_Merge x v)"
| "val_op (Delete k) x = None"
| "val_op (DeleteRange a b) x = x"

definition point_ops :: "batch_op list \<Rightarrow> bool" where
  "point_ops ops \<longleftrightarrow> (\<forall>op \<in> set ops. op_key op \<noteq> None)"

lemma point_ops_simps [simp]:
  "point_ops []" "point_ops (op # ops) \<longleftrightarrow> op_key op \<noteq> None \<and> point_ops ops" "point_ops (a @ b) \<longleftrightarrow> point_ops a \<and> point_ops b"
  by (auto simp: point_ops_def)

lemma apply_ops_key:
  "point_ops ops \<Longrightarrow> fold apply_op ops m k = fold val_op (filter (\<lambda>op. op_key op = Some k) ops) (m k)"
proof (induction ops arbitrary: m)
  case (Cons op ops)
  then show ?case by (cases op) (auto simp: fun_upd_def)
qed simp

lemma apply_ops_other:
  "point_ops ops \<Longrightarrow> Some k \<notin> op_key ` set ops \<Longrightarrow> fold apply_op ops m k = m k"
proof -
  assume p: "point_ops ops" and k: "Some k \<notin> op_key ` set ops"
  have "filter (\<lambda>op. op_key op = Some k) ops = []" using k by (metis (mono_tags) filter_False image_eqI)
  then show ?thesis by (simp add: apply_ops_key[OF p])
qed

text \<open>Appending to a key: the value grows by the operands in order.\<close>

lemma merge_ops_val:
  "fold val_op (map (Merge k) vs) x = (if vs = [] then x else Some (concat (case x of None \<Rightarrow> vs | Some v \<Rightarrow> v # vs)))"
  by (induction vs arbitrary: x) (auto simp: ConcatOperator_Merge_def split: option.splits)

text \<open>A batch of deletions and insertions under distinct keys.\<close>

lemma filter_key_distinct:
  assumes "distinct (map op_key ops)" "op \<in> set ops" "op_key op = Some k"
  shows "filter (\<lambda>op. op_key op = Some k) ops = [op]"
  using assms
proof (induction ops)
  case (Cons a ops)
  show ?case
  proof (cases "a = op")
    case True
    then have "\<forall>b \<in> set ops. op_key b \<noteq> Some k" using Cons.prems by (metis distinct.simps(2) image_eqI list.set_map list.simps(9))
    then show ?thesis using True Cons.prems(3) by (simp add: filter_empty_conv)
  next
    case False
    then have "op \<in> set ops" using Cons.prems(2) by simp
    moreover have "op_key a \<noteq> Some k" using Cons.prems calculation by (metis distinct.simps(2) image_eqI list.set_map list.simps(9))
    ultimately show ?thesis using Cons by simp
  qed
qed simp

lemma apply_op_distinct:
  assumes "point_ops ops" "distinct (map op_key ops)" "op \<in> set ops" "op_key op = Some k"
  shows "fold apply_op ops m k = val_op op (m k)"
  using apply_ops_key[OF assms(1)] filter_key_distinct[OF assms(2-4)] by simp

text \<open>A batch that sets or deletes each of a list of keys.\<close>

definition put_or_delete :: "bytes \<Rightarrow> bytes option \<Rightarrow> batch_op" where
  "put_or_delete k v = (case v of None \<Rightarrow> Delete k | Some v \<Rightarrow> Put k v)"

lemma apply_put_or_delete [simp]: "apply_op (put_or_delete k v) m = m(k := v)"
  by (cases v) (simp_all add: put_or_delete_def)

lemma fold_put_or_delete:
  "fold apply_op (map (\<lambda>k. put_or_delete k (f k)) ks) m k = (if k \<in> set ks then f k else m k)"
  by (induction ks arbitrary: m) auto

section \<open>Tables\<close>

text \<open>A column family that stores a finite map: entry \<open>x \<mapsto> i\<close> is the row \<open>key x i \<mapsto> val x i\<close>, and there are no other
  rows, so the map determines the contents.\<close>

definition table_of :: "('a \<Rightarrow> 'b \<Rightarrow> bytes) \<Rightarrow> ('a \<Rightarrow> 'b \<Rightarrow> bytes) \<Rightarrow> ('a \<rightharpoonup> 'b) \<Rightarrow> (bytes \<rightharpoonup> bytes) \<Rightarrow> bool" where
  "table_of key val U m \<longleftrightarrow> (\<forall>k v. m k = Some v \<longleftrightarrow> (\<exists>x i. U x = Some i \<and> key x i = k \<and> val x i = v))"

lemma table_of_unique: "table_of key val U m \<Longrightarrow> table_of key val U m' \<Longrightarrow> m = m'"
proof
  fix k assume "table_of key val U m" "table_of key val U m'"
  then have "\<And>v. m k = Some v \<longleftrightarrow> m' k = Some v" by (simp add: table_of_def)
  then show "m k = m' k" by (metis option.exhaust)
qed

lemma table_of_empty: "table_of key val Map.empty Map.empty"
  by (simp add: table_of_def)

locale db_table =
  fixes ok :: "'a \<Rightarrow> 'b \<Rightarrow> bool" and key val :: "'a \<Rightarrow> 'b \<Rightarrow> bytes"
  assumes key_inj: "ok x i \<Longrightarrow> ok y j \<Longrightarrow> key x i = key y j \<Longrightarrow> x = y"
begin

definition rows_ok :: "('a \<rightharpoonup> 'b) \<Rightarrow> bool" where
  "rows_ok U \<longleftrightarrow> (\<forall>x i. U x = Some i \<longrightarrow> ok x i)"

lemma table_get: "table_of key val U m \<Longrightarrow> U x = Some i \<Longrightarrow> m (key x i) = Some (val x i)"
  by (auto simp: table_of_def)

lemma table_absent:
  assumes "table_of key val U m" "rows_ok U" "U x = None" "ok x i"
  shows "m (key x i) = None"
proof (rule ccontr)
  assume "m (key x i) \<noteq> None"
  then obtain y j where "U y = Some j" "key y j = key x i" using assms(1) by (auto simp: table_of_def)
  then show False using key_inj[OF _ assms(4), of y j] assms(2,3) by (auto simp: rows_ok_def)
qed

lemma table_put:
  assumes "table_of key val U m" "rows_ok U" "ok x i" "\<And>j. U x = Some j \<Longrightarrow> key x j = key x i"
  shows "table_of key val (U(x \<mapsto> i)) (m(key x i \<mapsto> val x i))"
  unfolding table_of_def
proof (intro allI)
  fix k v
  show "(m(key x i \<mapsto> val x i)) k = Some v \<longleftrightarrow> (\<exists>y j. (U(x \<mapsto> i)) y = Some j \<and> key y j = k \<and> val y j = v)"
  proof (cases "k = key x i")
    case True
    have only: "y = x" if "(U(x \<mapsto> i)) y = Some j" "key y j = k" for y j
    proof (rule ccontr)
      assume "y \<noteq> x"
      then have "ok y j" using that(1) assms(2) by (simp add: rows_ok_def)
      from key_inj[OF this assms(3)] \<open>y \<noteq> x\<close> that(2) True show False by simp
    qed
    have "(\<exists>y j. (U(x \<mapsto> i)) y = Some j \<and> key y j = k \<and> val y j = v) \<longleftrightarrow> val x i = v"
    proof
      assume "\<exists>y j. (U(x \<mapsto> i)) y = Some j \<and> key y j = k \<and> val y j = v"
      then obtain y j where y: "(U(x \<mapsto> i)) y = Some j" "key y j = k" "val y j = v" by blast
      then show "val x i = v" using only[OF y(1,2)] by simp
    qed (use True in \<open>auto intro!: exI[of _ x]\<close>)
    then show ?thesis using True by simp
  next
    case False
    then have "(\<exists>y j. (U(x \<mapsto> i)) y = Some j \<and> key y j = k \<and> val y j = v) \<longleftrightarrow> (\<exists>y j. U y = Some j \<and> key y j = k \<and> val y j = v)"
      using assms(4) by (metis fun_upd_apply option.inject)
    then show ?thesis using False assms(1) by (simp add: table_of_def)
  qed
qed

lemma table_del:
  assumes "table_of key val U m" "rows_ok U" "U x = Some i"
  shows "table_of key val (U(x := None)) (m(key x i := None))"
  unfolding table_of_def
proof (intro allI)
  fix k v
  have ok: "ok x i" using assms(2,3) by (simp add: rows_ok_def)
  show "(m(key x i := None)) k = Some v \<longleftrightarrow> (\<exists>y j. (U(x := None)) y = Some j \<and> key y j = k \<and> val y j = v)"
  proof (cases "k = key x i")
    case True
    have only: "y = x" if "U y = Some j" "key y j = k" for y j
    proof -
      have "ok y j" using that(1) assms(2) by (simp add: rows_ok_def)
      from key_inj[OF this ok] that(2) True show ?thesis by simp
    qed
    then show ?thesis using True by auto
  next
    case False
    then have "(\<exists>y j. (U(x := None)) y = Some j \<and> key y j = k \<and> val y j = v) \<longleftrightarrow> (\<exists>y j. U y = Some j \<and> key y j = k \<and> val y j = v)"
      using assms(3) by (metis fun_upd_apply option.inject option.distinct(1))
    then show ?thesis using False assms(1) by (simp add: table_of_def)
  qed
qed

end

section \<open>Effects\<close>

text \<open>A C++ member function that may throw: what it returns or throws, and the state it leaves in either case.\<close>

type_synonym ('e, 'a, 's) eff = "'s \<Rightarrow> ('e, 'a) result \<times> 's"

definition ebind :: "('e, 'a, 's) eff \<Rightarrow> ('a \<Rightarrow> ('e, 'b, 's) eff) \<Rightarrow> ('e, 'b, 's) eff" where
  "ebind f g s = (case f s of (Inl e, s') \<Rightarrow> (Inl e, s') | (Inr x, s') \<Rightarrow> g x s')"

definition ereturn :: "'a \<Rightarrow> ('e, 'a, 's) eff" where "ereturn x s = (Inr x, s)"

definition ethrow :: "'e \<Rightarrow> ('e, 'a, 's) eff" where "ethrow e s = (Inl e, s)"

primrec efor :: "('a \<Rightarrow> ('e, unit, 's) eff) \<Rightarrow> 'a list \<Rightarrow> ('e, unit, 's) eff" where
  "efor body [] = ereturn ()"
| "efor body (x # xs) = ebind (body x) (\<lambda>_. efor body xs)"

lemma ebind_Inr: "f s = (Inr x, s') \<Longrightarrow> ebind f g s = g x s'"
  by (simp add: ebind_def)

lemma efor_append: "efor body (xs @ ys) s = ebind (efor body xs) (\<lambda>_. efor body ys) s"
  by (induction xs arbitrary: s) (auto simp: ebind_def ereturn_def split: prod.splits sum.splits)

text \<open>A loop whose body keeps an invariant indexed by the elements processed.\<close>

lemma efor_inv:
  assumes "I [] s" "\<And>ys y zs s. xs = ys @ y # zs \<Longrightarrow> I ys s \<Longrightarrow> \<exists>s'. body y s = (Inr (), s') \<and> I (ys @ [y]) s'"
  shows "\<exists>s'. efor body xs s = (Inr (), s') \<and> I xs s'"
proof -
  have "\<exists>s'. efor body ys s = (Inr (), s') \<and> I ys s'" if "xs = ys @ zs" for ys zs
    using that
  proof (induction ys arbitrary: zs rule: rev_induct)
    case Nil
    then show ?case using assms(1) by (simp add: ereturn_def)
  next
    case (snoc y ys)
    then obtain s1 where s1: "efor body ys s = (Inr (), s1)" "I ys s1" by fastforce
    obtain s2 where "body y s1 = (Inr (), s2)" "I (ys @ [y]) s2" using assms(2)[of ys y zs s1] s1(2) snoc.prems by auto
    then show ?case using s1(1) by (auto simp: efor_append ebind_def ereturn_def)
  qed
  then show ?thesis by simp
qed

end
