(* ===== verification/Utxo_Set.thy ===== *)
theory Utxo_Set
  imports Db_Access
begin

text \<open>
  The set of unspent outputs: \<open>UTXOBatch\<close> and \<open>utxoGetFromDB\<close> of \<open>Storage.cpp\<close>. An unspent output is stored
  twice, in the table \<open>utxoset\<close> under its outpoint and in the table \<open>shunspent\<close> under its script hash and
  number, and counted. The lemmas show that the two tables and the counter change together.
\<close>

section \<open>The batch\<close>

record UTXOBatch =
  ub_utxoset :: "batch_op list"
  ub_shunspent :: "batch_op list"
  utxoCtr :: int64

definition utxo_add :: "TXO \<Rightarrow> TXOInfo \<Rightarrow> CompactTXO \<Rightarrow> (db_error, unit, UTXOBatch) eff" where
  "utxo_add txo info ctxo ub =
     (case mkShunspentKey (ti_hashX info) ctxo of Inl e \<Rightarrow> (Inl e, ub) | Inr shukey \<Rightarrow>
     (case Serialize2 (ti_amount info) (ti_tokenDataPtr info) of Inl e \<Rightarrow> (Inl (DbSerError e), ub) | Inr shuval \<Rightarrow>
     (case Serialize_TXOInfo info of Inl e \<Rightarrow> (Inl (DbSerError e), ub) | Inr ser \<Rightarrow>
        (Inr (), ub\<lparr>ub_utxoset := ub_utxoset ub @ [Put (Serialize_TXO txo) ser],
                    ub_shunspent := ub_shunspent ub @ [Put shukey shuval],
                    utxoCtr := utxoCtr ub + 1\<rparr>))))"

definition utxo_remove :: "TXO \<Rightarrow> bytes \<Rightarrow> CompactTXO \<Rightarrow> (db_error, unit, UTXOBatch) eff" where
  "utxo_remove txo hashX ctxo ub =
     (let ub = ub\<lparr>ub_utxoset := ub_utxoset ub @ [Delete (Serialize_TXO txo)]\<rparr>
      in case mkShunspentKey hashX ctxo of Inl e \<Rightarrow> (Inl e, ub) | Inr k \<Rightarrow>
           (Inr (), ub\<lparr>ub_shunspent := ub_shunspent ub @ [Delete k], utxoCtr := utxoCtr ub - 1\<rparr>))"

definition utxoGetFromDB :: "'db rocksdb \<Rightarrow> 'db \<Rightarrow> TXO \<Rightarrow> bool \<Rightarrow> (db_error, TXOInfo option) result" where
  "utxoGetFromDB R db txo throwIfMissing = GenericDBGet R db (Serialize_TXO txo) (\<not> throwIfMissing) (deser_object Deserialize_TXOInfo)"

section \<open>The set it stores\<close>

text \<open>An entry: an output of a known transaction, within the limits of the database format.\<close>

definition utxo_entry :: "bytes list \<Rightarrow> TXO \<Rightarrow> TXOInfo \<Rightarrow> bool" where
  "utxo_entry recs txo info \<longleftrightarrow> txo_isValid txo \<and> unat (outN txo) < 2 ^ 24 \<and> info_ok info \<and>
     unat (ti_txNum info) < length recs \<and> recs ! unat (ti_txNum info) = txHash txo"

definition compact_of :: "TXO \<Rightarrow> TXOInfo \<Rightarrow> CompactTXO" where
  "compact_of txo info = CompactTXO_new (ti_txNum info) (outN txo)"

definition utxo_key :: "TXO \<Rightarrow> TXOInfo \<Rightarrow> bytes" where "utxo_key txo info = Serialize_TXO txo"
definition utxo_val :: "TXO \<Rightarrow> TXOInfo \<Rightarrow> bytes" where
  "utxo_val txo info = (case Serialize_TXOInfo info of Inl _ \<Rightarrow> [] | Inr v \<Rightarrow> v)"
definition shu_key :: "TXO \<Rightarrow> TXOInfo \<Rightarrow> bytes" where
  "shu_key txo info = ti_hashX info @ ctxo_toBytes (compact_of txo info) True True"
definition shu_val :: "TXO \<Rightarrow> TXOInfo \<Rightarrow> bytes" where
  "shu_val txo info = (case Serialize2 (ti_amount info) (ti_tokenDataPtr info) of Inl _ \<Rightarrow> [] | Inr v \<Rightarrow> v)"

lemma compact_of_inj:
  assumes "utxo_entry recs x i" "utxo_entry recs y j" "compact_of x i = compact_of y j"
  shows "x = y"
proof -
  have b: "unat (ti_txNum i) < 2 ^ 48" "unat (ti_txNum j) < 2 ^ 48" "unat (outN x) < 2 ^ 24" "unat (outN y) < 2 ^ 24"
    using assms(1,2) by (auto simp: utxo_entry_def info_ok_def)
  have "ucast (ti_txNum i) = (ucast (ti_txNum j) :: 48 word)" "ucast (outN x) = (ucast (outN y) :: 24 word)"
    using assms(3) by (simp_all add: compact_of_def CompactTXO_new_def)
  then have "unat (ucast (ti_txNum i) :: 48 word) = unat (ucast (ti_txNum j) :: 48 word)"
      "unat (ucast (outN x) :: 24 word) = unat (ucast (outN y) :: 24 word)" by simp_all
  then have "unat (ti_txNum i) = unat (ti_txNum j)" "unat (outN x) = unat (outN y)"
    using b by (simp_all add: unsigned_ucast_eq take_bit_nat_eq_self)
  then have "txHash x = txHash y" "outN x = outN y" using assms(1,2) by (auto simp: utxo_entry_def word_unat_eq_iff)
  then show ?thesis by (simp add: TXO.expand)
qed

interpretation utxo: db_table "utxo_entry recs" utxo_key utxo_val for recs
proof
  fix x y :: TXO and i j :: TXOInfo
  assume "utxo_entry recs x i" "utxo_entry recs y j" "utxo_key x i = utxo_key y j"
  then show "x = y"
    using txo_toBytes_inj[of x y False False] by (simp add: utxo_entry_def utxo_key_def Serialize_TXO_def)
qed

interpretation shu: db_table "utxo_entry recs" shu_key shu_val for recs
proof
  fix x y :: TXO and i j :: TXOInfo
  assume e: "utxo_entry recs x i" "utxo_entry recs y j" and k: "shu_key x i = shu_key y j"
  have "length (ti_hashX i) = length (ti_hashX j)" using e by (simp add: utxo_entry_def info_ok_def txoinfo_isValid_def)
  then have "ctxo_toBytes (compact_of x i) True True = ctxo_toBytes (compact_of y j) True True" using k by (simp add: shu_key_def)
  then have "compact_of x i = compact_of y j" using wide_key_order by (metis less_irrefl linorder_cases)
  then show "x = y" by (rule compact_of_inj[OF e])
qed

section \<open>Representation\<close>

definition utxo_repr :: "bytes list \<Rightarrow> (bytes \<rightharpoonup> bytes) \<Rightarrow> (bytes \<rightharpoonup> bytes) \<Rightarrow> int64 \<Rightarrow> (TXO \<rightharpoonup> TXOInfo) \<Rightarrow> bool" where
  "utxo_repr recs mu ms ct U \<longleftrightarrow> finite (dom U) \<and> ct = of_nat (card (dom U)) \<and> (\<forall>x i. U x = Some i \<longrightarrow> utxo_entry recs x i) \<and>
     table_of utxo_key utxo_val U mu \<and> table_of shu_key shu_val U ms"

definition ub_repr :: "bytes list \<Rightarrow> (bytes \<rightharpoonup> bytes) \<Rightarrow> (bytes \<rightharpoonup> bytes) \<Rightarrow> UTXOBatch \<Rightarrow> (TXO \<rightharpoonup> TXOInfo) \<Rightarrow> bool" where
  "ub_repr recs mu ms ub U \<longleftrightarrow>
     utxo_repr recs (fold apply_op (ub_utxoset ub) mu) (fold apply_op (ub_shunspent ub) ms) (utxoCtr ub) U"

lemma utxo_repr_unique:
  "utxo_repr recs mu ms ct U \<Longrightarrow> utxo_repr recs' mu' ms' ct' U \<Longrightarrow> mu = mu' \<and> ms = ms' \<and> ct = ct'"
  unfolding utxo_repr_def using table_of_unique by blast

lemma utxo_repr_more: "utxo_repr recs mu ms ct U \<Longrightarrow> utxo_repr (recs @ recs') mu ms ct U"
  unfolding utxo_repr_def utxo_entry_def by (auto simp: nth_append intro: trans_less_add1)

lemma entry_serialises:
  assumes "utxo_entry recs txo info"
  shows "Serialize_TXOInfo info = Inr (utxo_val txo info)" "Deserialize_TXOInfo (utxo_val txo info) = Some info"
    "Serialize2 (ti_amount info) (ti_tokenDataPtr info) = Inr (shu_val txo info)"
    "mkShunspentKey (ti_hashX info) (compact_of txo info) = Inr (shu_key txo info)"
proof -
  have i: "info_ok info" using assms by (simp add: utxo_entry_def)
  from txoinfo_roundtrip[OF i] show "Serialize_TXOInfo info = Inr (utxo_val txo info)" "Deserialize_TXOInfo (utxo_val txo info) = Some info"
    by (auto simp: utxo_val_def)
  from shunspent_value_roundtrip[of "ti_tokenDataPtr info" "ti_amount info"] i
  show "Serialize2 (ti_amount info) (ti_tokenDataPtr info) = Inr (shu_val txo info)" by (auto simp: shu_val_def info_ok_def)
  show "mkShunspentKey (ti_hashX info) (compact_of txo info) = Inr (shu_key txo info)"
    using i by (simp add: shu_key_def mkShunspentKey_eq info_ok_def txoinfo_isValid_def)
qed

lemma utxo_add_ok:
  assumes "ub_repr recs mu ms ub U" "U txo = None" "utxo_entry recs txo info"
  shows "\<exists>ub'. utxo_add txo info (compact_of txo info) ub = (Inr (), ub') \<and> ub_repr recs mu ms ub' (U(txo \<mapsto> info))"
proof -
  let ?ub = "ub\<lparr>ub_utxoset := ub_utxoset ub @ [Put (utxo_key txo info) (utxo_val txo info)],
                ub_shunspent := ub_shunspent ub @ [Put (shu_key txo info) (shu_val txo info)], utxoCtr := utxoCtr ub + 1\<rparr>"
  have r: "utxo.rows_ok recs U" "shu.rows_ok recs U" using assms(1)
    by (simp_all add: ub_repr_def utxo_repr_def utxo.rows_ok_def shu.rows_ok_def)
  have "utxo_add txo info (compact_of txo info) ub = (Inr (), ?ub)"
    by (simp add: utxo_add_def entry_serialises[OF assms(3)] utxo_key_def)
  moreover have "ub_repr recs mu ms ?ub (U(txo \<mapsto> info))"
    using assms utxo.table_put[OF _ r(1) assms(3)] shu.table_put[OF _ r(2) assms(3)]
    by (auto simp: ub_repr_def utxo_repr_def card_insert_if)
  ultimately show ?thesis by blast
qed

lemma utxo_remove_ok:
  assumes "ub_repr recs mu ms ub U" "U txo = Some info"
  shows "\<exists>ub'. utxo_remove txo (ti_hashX info) (compact_of txo info) ub = (Inr (), ub') \<and> ub_repr recs mu ms ub' (U(txo := None))"
proof -
  let ?ub = "ub\<lparr>ub_utxoset := ub_utxoset ub @ [Delete (utxo_key txo info)],
                ub_shunspent := ub_shunspent ub @ [Delete (shu_key txo info)], utxoCtr := utxoCtr ub - 1\<rparr>"
  have r: "utxo.rows_ok recs U" "shu.rows_ok recs U" and e: "utxo_entry recs txo info" using assms
    by (simp_all add: ub_repr_def utxo_repr_def utxo.rows_ok_def shu.rows_ok_def)
  have "utxo_remove txo (ti_hashX info) (compact_of txo info) ub = (Inr (), ?ub)"
    by (simp add: utxo_remove_def entry_serialises[OF e] utxo_key_def Let_def)
  moreover have "card (dom U) = Suc (card (dom U - {txo}))" "finite (dom U)"
    using assms by (auto simp: ub_repr_def utxo_repr_def intro!: card.remove[of "dom U" txo])
  then have "ub_repr recs mu ms ?ub (U(txo := None))"
    using assms utxo.table_del[OF _ r(1) assms(2)] shu.table_del[OF _ r(2) assms(2)]
    by (auto simp: ub_repr_def utxo_repr_def)
  ultimately show ?thesis by blast
qed

context rocksdb_laws
begin

lemma utxoGet_ok:
  assumes "utxo_repr recs (contents db) ms ct U" "txo_isValid txo" "unat (outN txo) < 2 ^ 24"
  shows "utxoGetFromDB R db txo False = Inr (U txo)"
proof (cases "U txo")
  case None
  have "contents db (Serialize_TXO txo) = None"
  proof (rule ccontr)
    assume "contents db (Serialize_TXO txo) \<noteq> None"
    then obtain y j where y: "U y = Some j" "Serialize_TXO y = Serialize_TXO txo"
      using assms(1) by (auto simp: utxo_repr_def table_of_def utxo_key_def)
    then have "y = txo" using assms txo_toBytes_inj[of y txo False False]
      by (auto simp: utxo_repr_def utxo_entry_def Serialize_TXO_def)
    then show False using y None by simp
  qed
  then show ?thesis using None by (simp add: utxoGetFromDB_def GenericDBGet_missing)
next
  case (Some info)
  then have "utxo_entry recs txo info" "contents db (Serialize_TXO txo) = Some (utxo_val txo info)"
    using assms(1) utxo.table_get[of U "contents db" txo info] by (auto simp: utxo_repr_def utxo_key_def)
  then show ?thesis using Some by (simp add: utxoGetFromDB_def GenericDBGet_found deser_object_def entry_serialises)
qed

end

end
