(* ===== verification/Block_Preprocess.thy ===== *)
theory Block_Preprocess
  imports Storage_Codecs Transactions
begin

text \<open>
  \<open>BlockProc.h\<close> and \<open>BlockProc.cpp\<close>: the summary of a block that the storage layer consumes. \<open>fill\<close> runs
  through the transactions once, collecting all outputs and inputs in block order and, per script hash,
  the outputs to it and the transactions that involve it; a second pass over the inputs finds those
  that spend an output of the same block.

  Positions in the vectors are natural numbers (the source's \<open>unsigned\<close> and \<open>size_t\<close>); output numbers
  keep their 32 bits. The hash maps are association lists: what is proved of them does not depend on
  the order of their entries. The memory estimate and the RPA table are left out.
\<close>

section \<open>Scripts\<close>

definition OP_RETURN :: byte where "OP_RETURN = 0x6a"

definition IsOpReturn :: "bytes \<Rightarrow> bool" where
  "IsOpReturn cs \<longleftrightarrow> length cs > 0 \<and> hd cs = OP_RETURN"

definition HashXFromCScript :: "bytes \<Rightarrow> bytes" where
  "HashXFromCScript cs = HashRev cs True"

definition Hash2ByteArrayRev :: "bytes \<Rightarrow> bytes" where
  "Hash2ByteArrayRev hash = rev hash"

definition IONumMax :: nat where "IONumMax = 2 ^ 24 - 1"

section \<open>The data of a block\<close>

record TxInfo =
  txi_hash :: bytes
  nInputs :: u32
  nOutputs :: u32
  input0Index :: "nat option"
  output0Index :: "nat option"

record OutPt =
  o_txIdx :: nat
  o_outN :: IONum
  o_amount :: Amount
  spentInInputIndex :: "nat option"
  o_tokenDataPtr :: OutputDataPtr

record InputPt =
  i_txIdx :: nat
  prevoutHash :: bytes
  prevoutN :: IONum
  parentTxOutIdx :: "nat option"

record AggregatedOutsIns =
  outs :: "nat list"
  ins :: "nat list"
  txNumsInvolvingHashX :: "TxNum list"

record PreProcessedBlock =
  ppb_height :: BlockHeight
  ppb_hash :: bytes
  sizeBytes :: nat
  ppb_header :: CBlockHeader
  txInfos :: "TxInfo list"
  outputs :: "OutPt list"
  inputs :: "InputPt list"
  hashXAggregated :: "(bytes \<times> AggregatedOutsIns) list"
  nOpReturns :: nat

definition Ag_new :: AggregatedOutsIns where
  "Ag_new = \<lparr> outs = [], ins = [], txNumsInvolvingHashX = [] \<rparr>"

text \<open>Updating \<open>hashXAggregated[hashX]\<close>: the subscript creates a missing entry.\<close>

fun ag_at :: "bytes \<Rightarrow> (AggregatedOutsIns \<Rightarrow> AggregatedOutsIns) \<Rightarrow> (bytes \<times> AggregatedOutsIns) list \<Rightarrow> (bytes \<times> AggregatedOutsIns) list" where
  "ag_at hashX f [] = [(hashX, f Ag_new)]"
| "ag_at hashX f ((k, ag) # m) = (if k = hashX then (k, f ag) # m else (k, ag) # ag_at hashX f m)"

text \<open>\<open>if (vec.empty() || vec.back() != x) vec.push_back(x)\<close>\<close>

definition push_new :: "TxNum \<Rightarrow> TxNum list \<Rightarrow> TxNum list" where
  "push_new x vec = (if vec = [] \<or> last vec \<noteq> x then vec @ [x] else vec)"

datatype block_error = BlkInternalError string | BlkOutOfBounds

section \<open>Filling in\<close>

definition ag_add_out :: "nat \<Rightarrow> nat \<Rightarrow> AggregatedOutsIns \<Rightarrow> AggregatedOutsIns" where
  "ag_add_out outputIdx txIdx ag =
     ag\<lparr>outs := outs ag @ [outputIdx], txNumsInvolvingHashX := push_new (of_nat txIdx) (txNumsInvolvingHashX ag)\<rparr>"

definition ag_add_in :: "nat \<Rightarrow> nat \<Rightarrow> AggregatedOutsIns \<Rightarrow> AggregatedOutsIns" where
  "ag_add_in inIdx txIdx ag =
     ag\<lparr>ins := ins ag @ [inIdx], txNumsInvolvingHashX := push_new (of_nat txIdx) (txNumsInvolvingHashX ag)\<rparr>"

fun fill_outputs :: "nat \<Rightarrow> IONum \<Rightarrow> CTxOut list \<Rightarrow> PreProcessedBlock \<Rightarrow> PreProcessedBlock" where
  "fill_outputs txIdx n [] p = p"
| "fill_outputs txIdx n (out # rest) p =
     (let outputIdx = length (outputs p);
          p = p\<lparr>outputs := outputs p @ [\<lparr> o_txIdx = txIdx, o_outN = n, o_amount = nValue out, spentInInputIndex = None,
                                          o_tokenDataPtr = tokenDataPtr out \<rparr>]\<rparr>;
          p = (if \<not> IsOpReturn (scriptPubKey out)
               then p\<lparr>hashXAggregated := ag_at (HashXFromCScript (scriptPubKey out)) (ag_add_out outputIdx txIdx) (hashXAggregated p)\<rparr>
               else p\<lparr>nOpReturns := nOpReturns p + 1\<rparr>)
      in fill_outputs txIdx (n + 1) rest p)"

definition input_pt :: "nat \<Rightarrow> CTxIn \<Rightarrow> InputPt" where
  "input_pt txIdx i = \<lparr> i_txIdx = txIdx, prevoutHash = Hash2ByteArrayRev (op_txid (prevout i)), prevoutN = op_n (prevout i),
     parentTxOutIdx = None \<rparr>"

text \<open>The largest output number seen: \<open>maxOutNSeen\<close> of the loop over the outputs, \<open>maxIONumSeen\<close> of the one over the inputs.\<close>

definition maxOutNSeen :: "CTxOut list \<Rightarrow> nat" where
  "maxOutNSeen v = length v - 1"

definition maxIONumSeen :: "nat \<Rightarrow> CTxIn list \<Rightarrow> nat" where
  "maxIONumSeen txIdx v = (if txIdx > 0 then fold (\<lambda>i m. max m (unat (op_n (prevout i)))) v 0 else 0)"

definition fill_tx :: "nat \<Rightarrow> CTransaction \<Rightarrow> PreProcessedBlock \<Rightarrow> (block_error, PreProcessedBlock) result" where
  "fill_tx txIdx tx p =
     (let info = \<lparr> txi_hash = Hash2ByteArrayRev (tx_hash tx), nInputs = of_nat (length (vin tx)), nOutputs = of_nat (length (vout tx)),
                   input0Index = (if vin tx \<noteq> [] then Some (length (inputs p)) else None),
                   output0Index = (if vout tx \<noteq> [] then Some (length (outputs p)) else None) \<rparr>;
          p = fill_outputs txIdx 0 (vout tx) p
      in if maxOutNSeen (vout tx) > IONumMax then Inl (BlkInternalError ''outN larger than IONumMax'')
         else
           let p = p\<lparr>inputs := inputs p @ map (input_pt txIdx) (vin tx)\<rparr>
           in if maxIONumSeen txIdx (vin tx) > IONumMax then Inl (BlkInternalError ''input prevoutN larger than IONumMax'')
              else Inr (p\<lparr>txInfos := txInfos p @ [info]\<rparr>))"

fun fill_txs :: "nat \<Rightarrow> CTransaction list \<Rightarrow> PreProcessedBlock \<Rightarrow> (block_error, PreProcessedBlock) result" where
  "fill_txs txIdx [] p = Inr p"
| "fill_txs txIdx (tx # txs) p = rbind (fill_tx txIdx tx p) (fill_txs (txIdx + 1) txs)"

text \<open>\<open>txHashToIndex\<close>: a later transaction with the same hash replaces an earlier one.\<close>

definition txHashToIndex :: "TxInfo list \<Rightarrow> bytes \<Rightarrow> nat option" where
  "txHashToIndex infos h = map_of (rev (zip (map txi_hash infos) [0..<length infos])) h"

text \<open>One step of the second pass. Where the source indexes past the end of \<open>outputs\<close> (an input that names an
  output its parent does not have) the result is \<open>BlkOutOfBounds\<close>.\<close>

definition resolve_input :: "CTransaction list \<Rightarrow> nat \<Rightarrow> PreProcessedBlock \<Rightarrow> (block_error, PreProcessedBlock) result" where
  "resolve_input txs inIdx p =
     (let inp = inputs p ! inIdx
      in case txHashToIndex (txInfos p) (prevoutHash inp) of
           None \<Rightarrow> Inr p
         | Some prevTxIdx \<Rightarrow>
             let prevInfo = txInfos p ! prevTxIdx
             in case output0Index prevInfo of
                  None \<Rightarrow> Inl (BlkInternalError ''Unexpected state: prevInfo has no output0Index'')
                | Some o0 \<Rightarrow>
                    let parent = o0 + unat (prevoutN inp); prevTx = txs ! prevTxIdx;
                        p = p\<lparr>inputs := (inputs p)[inIdx := inp\<lparr>prevoutHash := txi_hash prevInfo, parentTxOutIdx := Some parent\<rparr>]\<rparr>
                    in if parent \<ge> length (outputs p) \<or> unat (prevoutN inp) \<ge> length (vout prevTx) then Inl BlkOutOfBounds
                       else
                         let p = p\<lparr>outputs := (outputs p)[parent := (outputs p ! parent)\<lparr>spentInInputIndex := Some inIdx\<rparr>]\<rparr>;
                             cscript = scriptPubKey (vout prevTx ! unat (prevoutN inp))
                         in if \<not> IsOpReturn cscript
                            then Inr (p\<lparr>hashXAggregated := ag_at (HashXFromCScript cscript) (ag_add_in inIdx (i_txIdx inp)) (hashXAggregated p)\<rparr>)
                            else Inr p)"

fun resolve_inputs :: "CTransaction list \<Rightarrow> nat list \<Rightarrow> PreProcessedBlock \<Rightarrow> (block_error, PreProcessedBlock) result" where
  "resolve_inputs txs [] p = Inr p"
| "resolve_inputs txs (i # is) p = rbind (resolve_input txs i p) (resolve_inputs txs is)"

text \<open>\<open>std::sort\<close> followed by \<open>std::unique\<close> and \<open>erase\<close>\<close>

definition sort_unique :: "'a::linorder list \<Rightarrow> 'a list" where
  "sort_unique xs = remdups_adj (sort xs)"

definition ag_sort :: "AggregatedOutsIns \<Rightarrow> AggregatedOutsIns" where
  "ag_sort ag = \<lparr> outs = sort (outs ag), ins = sort (ins ag), txNumsInvolvingHashX = sort_unique (txNumsInvolvingHashX ag) \<rparr>"

definition PreProcessedBlock_default :: PreProcessedBlock where
  "PreProcessedBlock_default = \<lparr> ppb_height = 0, ppb_hash = [], sizeBytes = 0, ppb_header = CBlockHeader_new, txInfos = [],
     outputs = [], inputs = [], hashXAggregated = [], nOpReturns = 0 \<rparr>"

text \<open>Filling starts from an empty object: the constructor's, or the one \<open>clear\<close> leaves.\<close>

definition fill :: "BlockHeight \<Rightarrow> bytes \<Rightarrow> nat \<Rightarrow> CBlock \<Rightarrow> (block_error, PreProcessedBlock) result" where
  "fill blockHeight blockHash blockSize b =
     (let p = PreProcessedBlock_default\<lparr>ppb_height := blockHeight, ppb_hash := blockHash, sizeBytes := blockSize,
                ppb_header := blk_header b\<rparr>
      in rbind (fill_txs 0 (vtx b) p) (\<lambda>p.
         rbind (resolve_inputs (vtx b) [0..<length (inputs p)] p) (\<lambda>p.
           Inr (p\<lparr>hashXAggregated := map (map_prod id ag_sort) (hashXAggregated p)\<rparr>))))"

section \<open>Lookups\<close>

definition txHashForOutputIdx :: "PreProcessedBlock \<Rightarrow> nat \<Rightarrow> bytes" where
  "txHashForOutputIdx p outputIdx =
     (if outputIdx < length (outputs p) \<and> o_txIdx (outputs p ! outputIdx) < length (txInfos p)
      then txi_hash (txInfos p ! o_txIdx (outputs p ! outputIdx)) else [])"

definition txHashForInputIdx :: "PreProcessedBlock \<Rightarrow> nat \<Rightarrow> bytes" where
  "txHashForInputIdx p inputIdx =
     (if inputIdx < length (inputs p) \<and> i_txIdx (inputs p ! inputIdx) < length (txInfos p)
      then txi_hash (txInfos p ! i_txIdx (inputs p ! inputIdx)) else [])"

definition isCoinbase :: "PreProcessedBlock \<Rightarrow> nat \<Rightarrow> bool" where
  "isCoinbase p outputIdx \<longleftrightarrow>
     outputIdx < length (outputs p) \<and> txInfos p \<noteq> [] \<and> outputIdx < unat (nOutputs (hd (txInfos p)))"

definition numForInputIdx :: "PreProcessedBlock \<Rightarrow> nat \<Rightarrow> nat option" where
  "numForInputIdx p inputIdx =
     (if inputIdx < length (inputs p)
      then Option.bind (input0Index (txInfos p ! i_txIdx (inputs p ! inputIdx)))
             (\<lambda>i0. if inputIdx \<ge> i0 then Some (inputIdx - i0) else None)
      else None)"

section \<open>What a block contains\<close>

text \<open>All outputs and all inputs of the transactions in order, each with the position of its transaction, and the
  script hash an output pays to.\<close>

abbreviation txid :: "CTransaction \<Rightarrow> bytes" where "txid tx \<equiv> Hash2ByteArrayRev (tx_hash tx)"

fun num_outs :: "nat \<Rightarrow> IONum \<Rightarrow> CTxOut list \<Rightarrow> (nat \<times> IONum \<times> CTxOut) list" where
  "num_outs k n [] = []"
| "num_outs k n (o1 # os) = (k, n, o1) # num_outs k (n + 1) os"

fun all_outs :: "nat \<Rightarrow> CTransaction list \<Rightarrow> (nat \<times> IONum \<times> CTxOut) list" where
  "all_outs k [] = []"
| "all_outs k (tx # txs) = num_outs k 0 (vout tx) @ all_outs (k + 1) txs"

fun all_ins :: "nat \<Rightarrow> CTransaction list \<Rightarrow> (nat \<times> CTxIn) list" where
  "all_ins k [] = []"
| "all_ins k (tx # txs) = map (Pair k) (vin tx) @ all_ins (k + 1) txs"

definition pays_to :: "nat \<times> IONum \<times> CTxOut \<Rightarrow> bytes \<Rightarrow> bool" where
  "pays_to e h \<longleftrightarrow> \<not> IsOpReturn (scriptPubKey (snd (snd e))) \<and> HashXFromCScript (scriptPubKey (snd (snd e))) = h"

definition outPt_of :: "nat \<times> IONum \<times> CTxOut \<Rightarrow> OutPt" where
  "outPt_of e = \<lparr> o_txIdx = fst e, o_outN = fst (snd e), o_amount = nValue (snd (snd e)), spentInInputIndex = None,
     o_tokenDataPtr = tokenDataPtr (snd (snd e)) \<rparr>"

lemma length_num_outs [simp]: "length (num_outs k n os) = length os"
  by (induction os arbitrary: n) simp_all

lemma nth_num_outs: "j < length os \<Longrightarrow> num_outs k n os ! j = (k, n + of_nat j, os ! j)"
proof (induction os arbitrary: n j)
  case (Cons o1 os)
  then show ?case by (cases j) simp_all
qed simp

lemma all_outs_append: "all_outs k (txs @ txs') = all_outs k txs @ all_outs (k + length txs) txs'"
  by (induction txs arbitrary: k) simp_all

lemma all_ins_append: "all_ins k (txs @ txs') = all_ins k txs @ all_ins (k + length txs) txs'"
  by (induction txs arbitrary: k) simp_all

text \<open>Output \<open>n\<close> of transaction \<open>t\<close> is found after all outputs of the transactions before it.\<close>

definition out_pos :: "CTransaction list \<Rightarrow> nat \<Rightarrow> nat \<Rightarrow> nat" where
  "out_pos txs t n = length (all_outs 0 (take t txs)) + n"

lemma out_pos_nth:
  assumes "t < length txs" "n < length (vout (txs ! t))"
  shows "out_pos txs t n < length (all_outs 0 txs) \<and> all_outs 0 txs ! out_pos txs t n = (t, of_nat n, vout (txs ! t) ! n)"
proof -
  have "txs = take t txs @ txs ! t # drop (Suc t) txs" using assms(1) by (rule id_take_nth_drop)
  then have "all_outs 0 txs = all_outs 0 (take t txs) @ num_outs t 0 (vout (txs ! t)) @ all_outs (t + 1) (drop (Suc t) txs)"
    using assms(1) by (metis (no_types, lifting) add.left_neutral all_outs.simps(2) all_outs_append length_take min.absorb4)
  then show ?thesis using assms(2) by (simp add: out_pos_def nth_append nth_num_outs)
qed

section \<open>The hash map of script hashes\<close>

lemma map_of_ag_at:
  "map_of (ag_at h f m) = (map_of m)(h \<mapsto> f (case map_of m h of None \<Rightarrow> Ag_new | Some ag \<Rightarrow> ag))"
  by (induction m) auto

lemma keys_ag_at: "set (map fst (ag_at h f m)) = insert h (set (map fst m))"
  by (induction h f m rule: ag_at.induct) auto

lemma distinct_ag_at: "distinct (map fst m) \<Longrightarrow> distinct (map fst (ag_at h f m))"
proof (induction m)
  case (Cons e m)
  then show ?case using keys_ag_at[of h f m] by (cases e) auto
qed simp

lemma set_push_new: "set (push_new x v) = insert x (set v)"
  by (auto simp: push_new_def)

lemma push_new_ne: "push_new x v \<noteq> []"
  by (simp add: push_new_def)

text \<open>The map describes the outputs \<open>L\<close> and the resolved inputs \<open>I\<close> (position, transaction, script hash): a script
  hash has an entry exactly if something touches it, and the entry lists what does.\<close>

definition touches :: "(nat \<times> IONum \<times> CTxOut) list \<Rightarrow> (nat \<times> nat \<times> bytes) list \<Rightarrow> bytes \<Rightarrow> nat set" where
  "touches L I h = fst ` {e \<in> set L. pays_to e h} \<union> {k. \<exists>j. (j, k, h) \<in> set I}"

definition ag_for :: "(nat \<times> IONum \<times> CTxOut) list \<Rightarrow> (nat \<times> nat \<times> bytes) list \<Rightarrow> bytes \<Rightarrow> AggregatedOutsIns \<Rightarrow> bool" where
  "ag_for L I h ag \<longleftrightarrow> outs ag = filter (\<lambda>i. pays_to (L ! i) h) [0..<length L] \<and>
     ins ag = map fst (filter (\<lambda>(j, k, h'). h' = h) I) \<and>
     set (txNumsInvolvingHashX ag) = of_nat ` touches L I h"

definition ag_inv :: "(nat \<times> IONum \<times> CTxOut) list \<Rightarrow> (nat \<times> nat \<times> bytes) list \<Rightarrow> (bytes \<times> AggregatedOutsIns) list \<Rightarrow> bool" where
  "ag_inv L I m \<longleftrightarrow> distinct (map fst m) \<and>
     (\<forall>h. case map_of m h of None \<Rightarrow> touches L I h = {} | Some ag \<Rightarrow> touches L I h \<noteq> {} \<and> ag_for L I h ag)"

lemma ag_for_empty: "touches L I h = {} \<Longrightarrow> ag_for L I h Ag_new"
proof -
  assume t: "touches L I h = {}"
  have "\<not> pays_to (L ! i) h" if "i < length L" for i
  proof
    assume "pays_to (L ! i) h"
    then have "fst (L ! i) \<in> touches L I h" using that unfolding touches_def by (intro UnI1 imageI) simp
    then show False using t by simp
  qed
  moreover have "filter (\<lambda>(j, k, h'). h' = h) I = []" using t by (auto simp: touches_def filter_empty_conv)
  ultimately show ?thesis using t by (simp add: ag_for_def Ag_new_def filter_empty_conv)
qed

lemma ag_inv_lookup:
  assumes "ag_inv L I m"
  shows "ag_for L I h (case map_of m h of None \<Rightarrow> Ag_new | Some ag \<Rightarrow> ag)"
  using assms ag_for_empty[of L I h] by (cases "map_of m h") (auto simp: ag_inv_def dest: spec[of _ h])

lemma ag_inv_at:
  assumes "ag_inv L I m" "touches L' I' h \<noteq> {}"
    and "\<And>ag. ag_for L I h ag \<Longrightarrow> ag_for L' I' h (f ag)"
    and "\<And>h'. h' \<noteq> h \<Longrightarrow> touches L' I' h' = touches L I h'"
    and "\<And>h' ag. h' \<noteq> h \<Longrightarrow> ag_for L I h' ag \<Longrightarrow> ag_for L' I' h' ag"
  shows "ag_inv L' I' (ag_at h f m)"
  unfolding ag_inv_def
proof (intro conjI allI)
  show "distinct (map fst (ag_at h f m))" using assms(1) distinct_ag_at by (auto simp: ag_inv_def)
  fix h'
  show "case map_of (ag_at h f m) h' of None \<Rightarrow> touches L' I' h' = {} | Some ag \<Rightarrow> touches L' I' h' \<noteq> {} \<and> ag_for L' I' h' ag"
  proof (cases "h' = h")
    case True
    then show ?thesis using assms(2) assms(3)[OF ag_inv_lookup[OF assms(1)]] by (simp add: map_of_ag_at)
  next
    case False
    have "case map_of m h' of None \<Rightarrow> touches L I h' = {} | Some ag \<Rightarrow> touches L I h' \<noteq> {} \<and> ag_for L I h' ag"
      using assms(1) by (simp add: ag_inv_def)
    then show ?thesis using False assms(4)[of h'] assms(5)[of h'] by (cases "map_of m h'") (simp_all add: map_of_ag_at)
  qed
qed

lemma ag_inv_mono:
  assumes "ag_inv L I m" "\<And>h. touches L' I' h = touches L I h" "\<And>h ag. ag_for L I h ag \<Longrightarrow> ag_for L' I' h ag"
  shows "ag_inv L' I' m"
  unfolding ag_inv_def
proof (intro conjI allI)
  show "distinct (map fst m)" using assms(1) by (simp add: ag_inv_def)
  fix h
  have "case map_of m h of None \<Rightarrow> touches L I h = {} | Some ag \<Rightarrow> touches L I h \<noteq> {} \<and> ag_for L I h ag"
    using assms(1) by (simp add: ag_inv_def)
  then show "case map_of m h of None \<Rightarrow> touches L' I' h = {} | Some ag \<Rightarrow> touches L' I' h \<noteq> {} \<and> ag_for L' I' h ag"
    using assms(2)[of h] assms(3)[of h] by (cases "map_of m h") simp_all
qed

lemma touches_snoc: "touches (L @ [e]) I h = touches L I h \<union> (if pays_to e h then {fst e} else {})"
  by (auto simp: touches_def)

lemma touches_snoc_in: "touches L (I @ [(j, k, h')]) h = touches L I h \<union> (if h' = h then {k} else {})"
  by (auto simp: touches_def)

lemma outs_snoc:
  "filter (\<lambda>i. pays_to ((L @ [e]) ! i) h) [0..<length (L @ [e])] =
    filter (\<lambda>i. pays_to (L ! i) h) [0..<length L] @ (if pays_to e h then [length L] else [])"
proof -
  have "filter (\<lambda>i. pays_to ((L @ [e]) ! i) h) [0..<length L] = filter (\<lambda>i. pays_to (L ! i) h) [0..<length L]"
    by (rule filter_cong) (simp_all add: nth_append)
  then show ?thesis by simp
qed

lemma ag_for_snoc:
  "ag_for (L @ [e]) I h (if pays_to e h then ag_add_out (length L) (fst e) ag else ag)" if "ag_for L I h ag"
  using that unfolding ag_for_def outs_snoc touches_snoc by (auto simp: ag_add_out_def set_push_new)

lemma ag_for_snoc_in:
  "ag_for L (I @ [(j, k, h')]) h (if h' = h then ag_add_in j k ag else ag)" if "ag_for L I h ag"
  using that by (auto simp: ag_for_def touches_snoc_in ag_add_in_def set_push_new)

section \<open>The first pass\<close>

lemma fill_outputs_frame:
  "txInfos (fill_outputs k n os p) = txInfos p" "inputs (fill_outputs k n os p) = inputs p"
  "ppb_height (fill_outputs k n os p) = ppb_height p" "ppb_header (fill_outputs k n os p) = ppb_header p"
  "ppb_hash (fill_outputs k n os p) = ppb_hash p"
  by (induction os arbitrary: n p) (simp_all add: Let_def)

lemma ag_inv_out:
  assumes "ag_inv L [] m"
  shows "ag_inv (L @ [e]) [] (if IsOpReturn (scriptPubKey (snd (snd e))) then m
    else ag_at (HashXFromCScript (scriptPubKey (snd (snd e)))) (ag_add_out (length L) (fst e)) m)"
proof (cases "IsOpReturn (scriptPubKey (snd (snd e)))")
  case True
  then have "\<not> pays_to e h" for h by (simp add: pays_to_def)
  then have "touches (L @ [e]) [] h = touches L [] h" "ag_for L [] h ag \<Longrightarrow> ag_for (L @ [e]) [] h ag" for h ag
    using ag_for_snoc[of L "[]" h ag e] by (simp_all add: touches_snoc)
  then show ?thesis using ag_inv_mono[OF assms] True by simp
next
  case False
  let ?h = "HashXFromCScript (scriptPubKey (snd (snd e)))"
  have p: "pays_to e h \<longleftrightarrow> h = ?h" for h using False by (auto simp: pays_to_def)
  have "ag_inv (L @ [e]) [] (ag_at ?h (ag_add_out (length L) (fst e)) m)"
  proof (rule ag_inv_at[OF assms])
    show "ag_for (L @ [e]) [] ?h (ag_add_out (length L) (fst e) ag)" if "ag_for L [] ?h ag" for ag
      using ag_for_snoc[OF that, of e] by (simp add: p)
    show "ag_for (L @ [e]) [] h' ag" if "h' \<noteq> ?h" "ag_for L [] h' ag" for h' ag
      using ag_for_snoc[OF that(2), of e] that(1) by (simp add: p)
  qed (simp_all add: touches_snoc p)
  then show ?thesis using False by simp
qed

lemma fill_outputs_ok:
  assumes "outputs p = map outPt_of L" "ag_inv L [] (hashXAggregated p)"
  shows "outputs (fill_outputs k n os p) = map outPt_of (L @ num_outs k n os) \<and>
    ag_inv (L @ num_outs k n os) [] (hashXAggregated (fill_outputs k n os p)) \<and>
    nOpReturns (fill_outputs k n os p) = nOpReturns p + length (filter (\<lambda>o1. IsOpReturn (scriptPubKey o1)) os)"
  using assms
proof (induction os arbitrary: n p L)
  case (Cons o1 os)
  let ?e = "(k, n, o1)"
  let ?p = "p\<lparr>outputs := outputs p @ [outPt_of ?e]\<rparr>"
  let ?q = "if \<not> IsOpReturn (scriptPubKey o1)
     then ?p\<lparr>hashXAggregated := ag_at (HashXFromCScript (scriptPubKey o1)) (ag_add_out (length (outputs p)) k) (hashXAggregated ?p)\<rparr>
     else ?p\<lparr>nOpReturns := nOpReturns ?p + 1\<rparr>"
  have "outputs ?q = map outPt_of (L @ [?e])" using Cons.prems(1) by simp
  moreover have "ag_inv (L @ [?e]) [] (hashXAggregated ?q)" using ag_inv_out[OF Cons.prems(2), of ?e] Cons.prems(1) by auto
  ultimately have "outputs (fill_outputs k (n + 1) os ?q) = map outPt_of ((L @ [?e]) @ num_outs k (n + 1) os) \<and>
      ag_inv ((L @ [?e]) @ num_outs k (n + 1) os) [] (hashXAggregated (fill_outputs k (n + 1) os ?q)) \<and>
      nOpReturns (fill_outputs k (n + 1) os ?q) = nOpReturns ?q + length (filter (\<lambda>o1. IsOpReturn (scriptPubKey o1)) os)"
    by (rule Cons.IH)
  moreover have "fill_outputs k n (o1 # os) p = fill_outputs k (n + 1) os ?q" by (simp add: outPt_of_def Let_def)
  ultimately show ?case by simp
qed simp

definition info_of :: "CTransaction list \<Rightarrow> nat \<Rightarrow> TxInfo" where
  "info_of txs t = \<lparr> txi_hash = txid (txs ! t), nInputs = of_nat (length (vin (txs ! t))), nOutputs = of_nat (length (vout (txs ! t))),
     input0Index = (if vin (txs ! t) \<noteq> [] then Some (length (all_ins 0 (take t txs))) else None),
     output0Index = (if vout (txs ! t) \<noteq> [] then Some (length (all_outs 0 (take t txs))) else None) \<rparr>"

text \<open>The limits the database format imposes on output numbers.\<close>

definition ionums_ok :: "nat \<Rightarrow> CTransaction list \<Rightarrow> bool" where
  "ionums_ok k txs \<longleftrightarrow> (\<forall>t < length txs. length (vout (txs ! t)) \<le> IONumMax + 1 \<and>
     (k + t > 0 \<longrightarrow> (\<forall>i \<in> set (vin (txs ! t)). unat (op_n (prevout i)) \<le> IONumMax)))"

lemma fold_max_le: "fold (\<lambda>i m. max m (f i)) v (m :: nat) \<le> b \<longleftrightarrow> m \<le> b \<and> (\<forall>i \<in> set v. f i \<le> b)"
  by (induction v arbitrary: m) auto

text \<open>The state after the transactions \<open>done\<close> of \<open>txs\<close>.\<close>

definition first_pass_inv :: "CTransaction list \<Rightarrow> CTransaction list \<Rightarrow> PreProcessedBlock \<Rightarrow> bool" where
  "first_pass_inv txs pre p \<longleftrightarrow> txInfos p = map (info_of txs) [0..<length pre] \<and> outputs p = map outPt_of (all_outs 0 pre) \<and>
     inputs p = map (\<lambda>(k, i). input_pt k i) (all_ins 0 pre) \<and> ag_inv (all_outs 0 pre) [] (hashXAggregated p)"

lemma fill_tx_ok:
  assumes "first_pass_inv txs pre p" "txs = pre @ tx # suf" "ionums_ok (length pre) [tx]"
  shows "\<exists>p'. fill_tx (length pre) tx p = Inr p' \<and> first_pass_inv txs (pre @ [tx]) p' \<and>
    ppb_height p' = ppb_height p \<and> ppb_header p' = ppb_header p \<and> ppb_hash p' = ppb_hash p"
proof -
  let ?k = "length pre"
  let ?q = "fill_outputs ?k 0 (vout tx) p"
  have inv: "txInfos p = map (info_of txs) [0..<?k]" "outputs p = map outPt_of (all_outs 0 pre)"
    "inputs p = map (\<lambda>(k, i). input_pt k i) (all_ins 0 pre)" "ag_inv (all_outs 0 pre) [] (hashXAggregated p)"
    using assms(1) by (simp_all add: first_pass_inv_def)
  note out = fill_outputs_ok[OF inv(2,4), of ?k 0 "vout tx"]
  have "\<not> maxOutNSeen (vout tx) > IONumMax" "\<not> maxIONumSeen ?k (vin tx) > IONumMax"
    using assms(3) by (auto simp: ionums_ok_def maxOutNSeen_def maxIONumSeen_def not_less fold_max_le)
  moreover have tx: "txs ! ?k = tx" "take ?k txs = pre" using assms(2) by simp_all
  ultimately have f: "fill_tx ?k tx p = Inr (?q\<lparr>inputs := inputs ?q @ map (input_pt ?k) (vin tx), txInfos := txInfos ?q @ [info_of txs ?k]\<rparr>)"
    by (simp add: fill_tx_def Let_def info_of_def tx inv(2,3) fill_outputs_frame)
  show ?thesis unfolding f
    using out by (simp add: first_pass_inv_def all_outs_append all_ins_append fill_outputs_frame inv(1,3))
qed

lemma fill_txs_ok:
  assumes "first_pass_inv txs pre p" "txs = pre @ suf" "ionums_ok (length pre) suf"
  shows "\<exists>p'. fill_txs (length pre) suf p = Inr p' \<and> first_pass_inv txs txs p' \<and>
    ppb_height p' = ppb_height p \<and> ppb_header p' = ppb_header p \<and> ppb_hash p' = ppb_hash p"
  using assms
proof (induction suf arbitrary: pre p)
  case (Cons tx suf)
  have "ionums_ok (length pre) [tx]" "ionums_ok (length (pre @ [tx])) suf"
    using Cons.prems(3) by (fastforce simp: ionums_ok_def)+
  then obtain p1 where p1: "fill_tx (length pre) tx p = Inr p1" "first_pass_inv txs (pre @ [tx]) p1"
      "ppb_height p1 = ppb_height p" "ppb_header p1 = ppb_header p" "ppb_hash p1 = ppb_hash p"
    using fill_tx_ok[OF Cons.prems(1,2)] by blast
  then show ?case using Cons.IH[OF p1(2)] Cons.prems(2) \<open>ionums_ok (length (pre @ [tx])) suf\<close> by simp
qed simp

section \<open>The second pass\<close>

text \<open>The transaction of the block an input spends from, and the position of the output it spends.\<close>

definition parent_tx :: "CTransaction list \<Rightarrow> CTxIn \<Rightarrow> nat option" where
  "parent_tx txs i = map_of (zip (map txid txs) [0..<length txs]) (Hash2ByteArrayRev (op_txid (prevout i)))"

definition in_parent :: "CTransaction list \<Rightarrow> nat \<Rightarrow> nat option" where
  "in_parent txs j = (let i = snd (all_ins 0 txs ! j) in map_option (\<lambda>t. out_pos txs t (unat (op_n (prevout i)))) (parent_tx txs i))"

definition in_event :: "CTransaction list \<Rightarrow> nat \<Rightarrow> (nat \<times> nat \<times> bytes) list" where
  "in_event txs j = (case in_parent txs j of None \<Rightarrow> []
     | Some i \<Rightarrow> let spk = scriptPubKey (snd (snd (all_outs 0 txs ! i)))
                 in if IsOpReturn spk then [] else [(j, fst (all_ins 0 txs ! j), HashXFromCScript spk)])"

definition events :: "CTransaction list \<Rightarrow> nat \<Rightarrow> (nat \<times> nat \<times> bytes) list" where
  "events txs n = concat (map (in_event txs) [0..<n])"

text \<open>A block the storage layer is meant for: no transaction occurs twice, and inputs name outputs that exist.\<close>

definition block_wf :: "CTransaction list \<Rightarrow> bool" where
  "block_wf txs \<longleftrightarrow> distinct (map txid txs) \<and> ionums_ok 0 txs \<and>
     (\<forall>e \<in> set (all_ins 0 txs). \<forall>t. parent_tx txs (snd e) = Some t \<longrightarrow> unat (op_n (prevout (snd e))) < length (vout (txs ! t)))"

lemma parent_tx_iff:
  assumes "distinct (map txid txs)"
  shows "parent_tx txs i = Some t \<longleftrightarrow> t < length txs \<and> txid (txs ! t) = Hash2ByteArrayRev (op_txid (prevout i))"
proof -
  have "distinct (map fst (zip (map txid txs) [0..<length txs]))" using assms by simp
  then have "parent_tx txs i = Some t \<longleftrightarrow> (Hash2ByteArrayRev (op_txid (prevout i)), t) \<in> set (zip (map txid txs) [0..<length txs])"
    unfolding parent_tx_def by (rule map_of_eq_Some_iff)
  moreover have "(h, t) \<in> set (zip (map txid txs) [0..<length txs]) \<longleftrightarrow> t < length txs \<and> txid (txs ! t) = h" for h
    by (auto simp: set_zip intro!: exI[of _ t])
  ultimately show ?thesis by simp
qed

lemma map_of_rev_distinct: "distinct (map fst xs) \<Longrightarrow> map_of (rev xs) = map_of xs"
proof (rule ext)
  fix h assume d: "distinct (map fst xs)"
  then have "distinct (map fst (rev xs))" by (simp add: rev_map[symmetric])
  then have "map_of (rev xs) h = Some v \<longleftrightarrow> map_of xs h = Some v" for v using d by (simp add: map_of_eq_Some_iff)
  then show "map_of (rev xs) h = map_of xs h" by (metis not_None_eq)
qed

lemma txHashToIndex_parent:
  assumes "distinct (map txid txs)"
  shows "txHashToIndex (map (info_of txs) [0..<length txs]) (Hash2ByteArrayRev (op_txid (prevout i))) = parent_tx txs i"
proof -
  let ?z = "zip (map txid txs) [0..<length txs]"
  have "map txi_hash (map (info_of txs) [0..<length txs]) = map txid txs"
    by (rule nth_equalityI) (simp_all add: info_of_def)
  moreover have "map_of (rev ?z) = map_of ?z" using assms by (intro map_of_rev_distinct) simp
  ultimately show ?thesis by (simp add: txHashToIndex_def parent_tx_def)
qed

lemma in_parent_ok:
  assumes "block_wf txs" "j < length (all_ins 0 txs)" "in_parent txs j = Some i"
  obtains t where "parent_tx txs (snd (all_ins 0 txs ! j)) = Some t" "t < length txs"
    "unat (op_n (prevout (snd (all_ins 0 txs ! j)))) < length (vout (txs ! t))"
    "i = out_pos txs t (unat (op_n (prevout (snd (all_ins 0 txs ! j)))))" "i < length (all_outs 0 txs)"
    "all_outs 0 txs ! i = (t, op_n (prevout (snd (all_ins 0 txs ! j))), vout (txs ! t) ! unat (op_n (prevout (snd (all_ins 0 txs ! j)))))"
proof -
  let ?inp = "snd (all_ins 0 txs ! j)"
  obtain t where t: "parent_tx txs ?inp = Some t" "i = out_pos txs t (unat (op_n (prevout ?inp)))"
    using assms(3) by (auto simp: in_parent_def Let_def)
  have lt: "t < length txs" using parent_tx_iff[of txs ?inp t] t(1) assms(1) by (simp add: block_wf_def)
  have n: "unat (op_n (prevout ?inp)) < length (vout (txs ! t))"
    using assms(1,2) t(1) by (auto simp: block_wf_def)
  show thesis using that[OF t(1) lt n t(2)] out_pos_nth[OF lt n] t(2) by simp
qed

definition input_at :: "CTransaction list \<Rightarrow> nat \<Rightarrow> nat \<Rightarrow> InputPt" where
  "input_at txs n j = (case all_ins 0 txs ! j of (k, i) \<Rightarrow> (input_pt k i)\<lparr>parentTxOutIdx := (if j < n then in_parent txs j else None)\<rparr>)"

definition outs_marked :: "CTransaction list \<Rightarrow> nat \<Rightarrow> OutPt list \<Rightarrow> bool" where
  "outs_marked txs n os \<longleftrightarrow> length os = length (all_outs 0 txs) \<and>
     (\<forall>i < length os. outPt_of (all_outs 0 txs ! i) = (os ! i)\<lparr>spentInInputIndex := None\<rparr> \<and>
        (spentInInputIndex (os ! i) \<noteq> None \<longleftrightarrow> (\<exists>j < n. in_parent txs j = Some i)))"

definition second_pass_inv :: "CTransaction list \<Rightarrow> nat \<Rightarrow> PreProcessedBlock \<Rightarrow> bool" where
  "second_pass_inv txs n p \<longleftrightarrow> txInfos p = map (info_of txs) [0..<length txs] \<and> outs_marked txs n (outputs p) \<and>
     inputs p = map (input_at txs n) [0..<length (all_ins 0 txs)] \<and> ag_inv (all_outs 0 txs) (events txs n) (hashXAggregated p)"

lemma second_pass_start: "first_pass_inv txs txs p \<Longrightarrow> second_pass_inv txs 0 p"
  by (auto simp: first_pass_inv_def second_pass_inv_def outs_marked_def events_def input_at_def input_pt_def outPt_of_def
      intro!: nth_equalityI split: prod.splits)

lemma inputs_step:
  assumes "n < length (all_ins 0 txs)"
  shows "map (input_at txs (Suc n)) [0..<length (all_ins 0 txs)] = (map (input_at txs n) [0..<length (all_ins 0 txs)])[n := input_at txs (Suc n) n]"
  using assms by (intro nth_equalityI) (auto simp: nth_list_update input_at_def less_Suc_eq split: prod.splits)

lemma outs_marked_step:
  assumes "outs_marked txs n os" "in_parent txs n = Some q" "q < length os"
  shows "outs_marked txs (Suc n) (os[q := (os ! q)\<lparr>spentInInputIndex := Some n\<rparr>])"
  unfolding outs_marked_def
proof (intro conjI allI impI)
  fix i assume "i < length (os[q := (os ! q)\<lparr>spentInInputIndex := Some n\<rparr>])"
  then have i: "i < length os" by simp
  note old = assms(1)[unfolded outs_marked_def, THEN conjunct2, rule_format, OF i]
  show "outPt_of (all_outs 0 txs ! i) = (os[q := (os ! q)\<lparr>spentInInputIndex := Some n\<rparr>] ! i)\<lparr>spentInInputIndex := None\<rparr>"
    using old i by (cases "i = q") simp_all
  show "spentInInputIndex (os[q := (os ! q)\<lparr>spentInInputIndex := Some n\<rparr>] ! i) \<noteq> None \<longleftrightarrow> (\<exists>j < Suc n. in_parent txs j = Some i)"
    using old i assms(2) by (cases "i = q") (auto simp: less_Suc_eq)
qed (use assms(1) in \<open>simp add: outs_marked_def\<close>)

lemma ag_inv_in_step:
  assumes "ag_inv L (events txs n) m" "in_parent txs n = Some q"
  defines "spk \<equiv> scriptPubKey (snd (snd (all_outs 0 txs ! q)))" and "k \<equiv> fst (all_ins 0 txs ! n)"
  shows "ag_inv L (events txs (Suc n)) (if IsOpReturn spk then m else ag_at (HashXFromCScript spk) (ag_add_in n k) m)"
proof (cases "IsOpReturn spk")
  case True
  then show ?thesis using assms(1,2) by (simp add: events_def in_event_def spk_def[symmetric])
next
  case False
  then have e: "events txs (Suc n) = events txs n @ [(n, k, HashXFromCScript spk)]"
    using assms(2) by (simp add: events_def in_event_def spk_def[symmetric] k_def)
  have "ag_inv L (events txs (Suc n)) (ag_at (HashXFromCScript spk) (ag_add_in n k) m)"
    unfolding e
  proof (rule ag_inv_at[OF assms(1)])
    show "ag_for L (events txs n @ [(n, k, HashXFromCScript spk)]) (HashXFromCScript spk) (ag_add_in n k ag)"
      if "ag_for L (events txs n) (HashXFromCScript spk) ag" for ag
      using ag_for_snoc_in[OF that, of n k "HashXFromCScript spk"] by simp
    show "ag_for L (events txs n @ [(n, k, HashXFromCScript spk)]) h' ag"
      if "h' \<noteq> HashXFromCScript spk" "ag_for L (events txs n) h' ag" for h' ag
      using ag_for_snoc_in[OF that(2), of n k "HashXFromCScript spk"] that(1) by simp
  qed (simp_all add: touches_snoc_in)
  then show ?thesis using False by simp
qed

lemma resolve_input_ok:
  assumes wf: "block_wf txs" and inv: "second_pass_inv txs n p" and n: "n < length (all_ins 0 txs)"
  shows "\<exists>p'. resolve_input txs n p = Inr p' \<and> second_pass_inv txs (Suc n) p' \<and>
    ppb_height p' = ppb_height p \<and> ppb_header p' = ppb_header p \<and> ppb_hash p' = ppb_hash p"
proof -
  obtain k i where ki: "all_ins 0 txs ! n = (k, i)" by (cases "all_ins 0 txs ! n")
  have inp: "inputs p ! n = input_pt k i" using inv n ki by (simp add: second_pass_inv_def input_at_def input_pt_def)
  have infos: "txInfos p = map (info_of txs) [0..<length txs]" using inv by (simp add: second_pass_inv_def)
  have d: "distinct (map txid txs)" using wf by (simp add: block_wf_def)
  have idx: "txHashToIndex (txInfos p) (prevoutHash (inputs p ! n)) = parent_tx txs i"
    unfolding infos inp using txHashToIndex_parent[OF d, of i] by (simp add: input_pt_def)
  show ?thesis
  proof (cases "parent_tx txs i")
    case None
    then have np: "in_parent txs n = None" by (simp add: in_parent_def ki)
    then have "input_at txs (Suc n) = input_at txs n" by (auto simp: input_at_def less_Suc_eq fun_eq_iff)
    then have "second_pass_inv txs (Suc n) p"
      using inv np by (auto simp: second_pass_inv_def events_def in_event_def outs_marked_def less_Suc_eq)
    then show ?thesis using None idx by (simp add: resolve_input_def Let_def)
  next
    case (Some t)
    then obtain q where q: "in_parent txs n = Some q" by (simp add: in_parent_def ki)
    from in_parent_ok[OF wf n q] Some ki have t: "t < length txs" "unat (op_n (prevout i)) < length (vout (txs ! t))"
      "q = out_pos txs t (unat (op_n (prevout i)))" "q < length (all_outs 0 txs)"
      "all_outs 0 txs ! q = (t, op_n (prevout i), vout (txs ! t) ! unat (op_n (prevout i)))" by auto
    let ?spk = "scriptPubKey (vout (txs ! t) ! unat (op_n (prevout i)))"
    have info: "txInfos p ! t = info_of txs t" using infos t(1) by simp
    have o0: "output0Index (info_of txs t) = Some (length (all_outs 0 (take t txs)))" using t(2) by (auto simp: info_of_def)
    have parent: "length (all_outs 0 (take t txs)) + unat (prevoutN (inputs p ! n)) = q"
      using t(3) by (simp add: inp input_pt_def out_pos_def)
    have h: "txi_hash (info_of txs t) = Hash2ByteArrayRev (op_txid (prevout i))"
      using parent_tx_iff[OF d, of i t] Some by (simp add: info_of_def)
    have lo: "length (outputs p) = length (all_outs 0 txs)" using inv by (simp add: second_pass_inv_def outs_marked_def)
    let ?p1 = "p\<lparr>inputs := (inputs p)[n := input_at txs (Suc n) n], outputs := (outputs p)[q := (outputs p ! q)\<lparr>spentInInputIndex := Some n\<rparr>]\<rparr>"
    let ?p2 = "if IsOpReturn ?spk then ?p1 else ?p1\<lparr>hashXAggregated := ag_at (HashXFromCScript ?spk) (ag_add_in n k) (hashXAggregated p)\<rparr>"
    have new: "(inputs p ! n)\<lparr>prevoutHash := txi_hash (info_of txs t), parentTxOutIdx := Some q\<rparr> = input_at txs (Suc n) n"
      by (simp add: inp h input_at_def ki q input_pt_def)
    have "resolve_input txs n p = Inr ?p2"
      using idx Some info o0 parent t lo new by (simp add: resolve_input_def Let_def inp input_pt_def)
    moreover have "second_pass_inv txs (Suc n) ?p2"
    proof -
      have "outs_marked txs (Suc n) (outputs ?p1)"
        using outs_marked_step[OF _ q, of "outputs p"] inv t(4) lo by (simp add: second_pass_inv_def)
      moreover have "inputs ?p1 = map (input_at txs (Suc n)) [0..<length (all_ins 0 txs)]"
        using inv inputs_step[OF n] by (simp add: second_pass_inv_def)
      moreover have "ag_inv (all_outs 0 txs) (events txs (Suc n)) (hashXAggregated ?p2)"
        using ag_inv_in_step[OF _ q, of "all_outs 0 txs" "hashXAggregated p"] inv by (simp add: second_pass_inv_def t(5) ki split: if_splits)
      ultimately show ?thesis using infos by (simp add: second_pass_inv_def)
    qed
    ultimately show ?thesis by (intro exI[of _ ?p2]) simp
  qed
qed

lemma resolve_inputs_ok:
  assumes "block_wf txs" "second_pass_inv txs n p" "n \<le> length (all_ins 0 txs)"
  shows "\<exists>p'. resolve_inputs txs [n..<length (all_ins 0 txs)] p = Inr p' \<and> second_pass_inv txs (length (all_ins 0 txs)) p' \<and>
    ppb_height p' = ppb_height p \<and> ppb_header p' = ppb_header p \<and> ppb_hash p' = ppb_hash p"
  using assms(2,3)
proof (induction "length (all_ins 0 txs) - n" arbitrary: n p)
  case 0
  then show ?case by simp
next
  case (Suc d)
  then have n: "n < length (all_ins 0 txs)" by simp
  from resolve_input_ok[OF assms(1) Suc.prems(1) n] obtain p1 where p1: "resolve_input txs n p = Inr p1" "second_pass_inv txs (Suc n) p1"
      "ppb_height p1 = ppb_height p" "ppb_header p1 = ppb_header p" "ppb_hash p1 = ppb_hash p" by blast
  then show ?case using Suc.hyps(1)[of "Suc n" p1] Suc.hyps(2) n by (simp add: upt_conv_Cons)
qed

section \<open>The summary of a block\<close>

text \<open>What the storage layer reads from a \<open>PreProcessedBlock\<close>. Only the entries of the hash map matter, not their order.\<close>

definition in_events :: "CTransaction list \<Rightarrow> (nat \<times> nat \<times> bytes) list" where
  "in_events txs = events txs (length (all_ins 0 txs))"

definition ag_summary :: "CTransaction list \<Rightarrow> bytes \<Rightarrow> AggregatedOutsIns \<Rightarrow> bool" where
  "ag_summary txs h ag \<longleftrightarrow> outs ag = filter (\<lambda>i. pays_to (all_outs 0 txs ! i) h) [0..<length (all_outs 0 txs)] \<and>
     ins ag = map fst (filter (\<lambda>(j, k, h'). h' = h) (in_events txs)) \<and>
     sorted (txNumsInvolvingHashX ag) \<and> distinct (txNumsInvolvingHashX ag) \<and>
     set (txNumsInvolvingHashX ag) = of_nat ` touches (all_outs 0 txs) (in_events txs) h"

definition summarises :: "CTransaction list \<Rightarrow> PreProcessedBlock \<Rightarrow> bool" where
  "summarises txs p \<longleftrightarrow> txInfos p = map (info_of txs) [0..<length txs] \<and>
     outs_marked txs (length (all_ins 0 txs)) (outputs p) \<and>
     inputs p = map (input_at txs (length (all_ins 0 txs))) [0..<length (all_ins 0 txs)] \<and>
     distinct (map fst (hashXAggregated p)) \<and>
     (\<forall>h. case map_of (hashXAggregated p) h of None \<Rightarrow> touches (all_outs 0 txs) (in_events txs) h = {}
        | Some ag \<Rightarrow> touches (all_outs 0 txs) (in_events txs) h \<noteq> {} \<and> ag_summary txs h ag)"

lemma distinct_remdups_adj_sorted: "sorted xs \<Longrightarrow> distinct (remdups_adj xs)"
  by (induction xs rule: remdups_adj.induct) (auto simp: order.order_iff_strict)

lemma sort_unique_set: "set (sort_unique xs) = set xs" "sorted (sort_unique xs)" "distinct (sort_unique xs)"
proof -
  show "set (sort_unique xs) = set xs" by (simp add: sort_unique_def)
  show "sorted (sort_unique xs)" by (simp add: sort_unique_def sorted_remdups_adj)
  show "distinct (sort_unique xs)" unfolding sort_unique_def by (rule distinct_remdups_adj_sorted) simp
qed

text \<open>Resolved inputs are recorded in the order of their positions.\<close>

lemma sorted_events: "sorted (map fst (filter P (events txs n))) \<and> (\<forall>e \<in> set (events txs n). fst e < n)"
proof (induction n)
  case (Suc n)
  have e: "events txs (Suc n) = events txs n @ in_event txs n" by (simp add: events_def)
  have "in_event txs n = [] \<or> (\<exists>k h. in_event txs n = [(n, k, h)])" by (auto simp: in_event_def Let_def split: option.splits)
  then show ?case
  proof
    assume "\<exists>k h. in_event txs n = [(n, k, h)]"
    then obtain k h where ev: "in_event txs n = [(n, k, h)]" by blast
    have "fst x \<le> n" if "x \<in> set (filter P (events txs n))" for x using Suc that by (auto intro: less_imp_le)
    then show ?thesis using Suc by (auto simp: e ev sorted_append less_Suc_eq)
  qed (use Suc in \<open>auto simp: e less_Suc_eq\<close>)
qed (simp add: events_def)

lemma ag_sort_summary:
  assumes "ag_for (all_outs 0 txs) (in_events txs) h ag"
  shows "ag_summary txs h (ag_sort ag)"
proof -
  have "sorted (outs ag)" using assms by (simp add: ag_for_def sorted_wrt_filter)
  moreover have "sorted (ins ag)" using assms sorted_events[of "\<lambda>(j, k, h'). h' = h" txs] by (simp add: ag_for_def in_events_def)
  ultimately show ?thesis
    using assms by (simp add: ag_summary_def ag_sort_def ag_for_def sort_unique_set sorted_sort_id)
qed

lemma second_pass_summary:
  assumes "second_pass_inv txs (length (all_ins 0 txs)) p"
  shows "summarises txs (p\<lparr>hashXAggregated := map (map_prod id ag_sort) (hashXAggregated p)\<rparr>)"
proof -
  let ?m = "hashXAggregated p" and ?L = "all_outs 0 txs" and ?I = "in_events txs"
  have inv: "ag_inv ?L ?I ?m" using assms by (simp add: second_pass_inv_def in_events_def)
  have mo: "map_of (map (map_prod id ag_sort) ?m) h = map_option ag_sort (map_of ?m h)" for h
    using map_of_map[of ag_sort ?m] by (simp add: map_prod_def)
  have "case map_of (map (map_prod id ag_sort) ?m) h of None \<Rightarrow> touches ?L ?I h = {} | Some ag \<Rightarrow> touches ?L ?I h \<noteq> {} \<and> ag_summary txs h ag" for h
  proof -
    have "case map_of ?m h of None \<Rightarrow> touches ?L ?I h = {} | Some ag \<Rightarrow> touches ?L ?I h \<noteq> {} \<and> ag_for ?L ?I h ag"
      using inv by (simp add: ag_inv_def)
    then show ?thesis unfolding mo by (cases "map_of ?m h") (auto intro: ag_sort_summary)
  qed
  moreover have "map fst (map (map_prod id ag_sort) ?m) = map fst ?m" by simp
  ultimately show ?thesis using assms inv by (simp add: summarises_def second_pass_inv_def ag_inv_def)
qed

lemma fill_ok:
  assumes "block_wf (vtx b)"
  shows "\<exists>p. fill h hash nbytes b = Inr p \<and> summarises (vtx b) p \<and> ppb_height p = h \<and> ppb_hash p = hash \<and> ppb_header p = blk_header b"
proof -
  let ?p = "PreProcessedBlock_default\<lparr>ppb_height := h, ppb_hash := hash, sizeBytes := nbytes, ppb_header := blk_header b\<rparr>"
  have "first_pass_inv (vtx b) [] ?p"
    by (simp add: first_pass_inv_def PreProcessedBlock_default_def ag_inv_def touches_def)
  then obtain p1 where p1: "fill_txs 0 (vtx b) ?p = Inr p1" "first_pass_inv (vtx b) (vtx b) p1"
      "ppb_height p1 = h" "ppb_header p1 = blk_header b" "ppb_hash p1 = hash"
    using fill_txs_ok[of "vtx b" "[]" ?p "vtx b"] assms by (auto simp: block_wf_def)
  note s = second_pass_start[OF p1(2)]
  then have "length (inputs p1) = length (all_ins 0 (vtx b))" by (simp add: second_pass_inv_def)
  then obtain p2 where p2: "resolve_inputs (vtx b) [0..<length (inputs p1)] p1 = Inr p2"
      "second_pass_inv (vtx b) (length (all_ins 0 (vtx b))) p2" "ppb_height p2 = h" "ppb_header p2 = blk_header b" "ppb_hash p2 = hash"
    using resolve_inputs_ok[OF assms s] p1(3-5) by auto
  then show ?thesis using p1(1) second_pass_summary[OF p2(2)] by (simp add: fill_def)
qed

text \<open>C15: The summary of a block is complete. For a block whose transactions are distinct and whose inputs name existing
  outputs, \<open>fill\<close> succeeds and lists every output and input in block order, marks exactly the outputs that are spent
  within the block and the inputs that spend them, and gives each script hash exactly the outputs that pay to it, the
  in-block inputs that spend from it, and the sorted, duplicate-free list of the transactions that do either.\<close>

theorem block_summary_correct:
  assumes "block_wf (vtx b)"
  shows "\<exists>p. fill h hash nbytes b = Inr p \<and> summarises (vtx b) p \<and> ppb_height p = h \<and> ppb_hash p = hash \<and> ppb_header p = blk_header b"
  using assms by (rule fill_ok)

definition demo_out :: CTxOut where "demo_out = \<lparr> nValue = 50, scriptPubKey = [0x51], tokenDataPtr = None \<rparr>"

definition demo_txs :: "CTransaction list" where
  "demo_txs =
     [\<lparr> tx_nVersion = 1, vin = [\<lparr> prevout = COutPoint_default, scriptSig = [0], nSequence = 0, scriptWitness = [] \<rparr>],
        vout = [demo_out, demo_out], nLockTime = 0, mw_blob = None, tx_hash = replicate 32 1 \<rparr>,
      \<lparr> tx_nVersion = 1, vin = [\<lparr> prevout = COutPoint (replicate 32 1) 1, scriptSig = [0], nSequence = 0, scriptWitness = [] \<rparr>],
        vout = [demo_out], nLockTime = 0, mw_blob = None, tx_hash = replicate 32 2 \<rparr>]"

lemma demo_txs_wf: "block_wf demo_txs"
proof -
  have d: "distinct (map txid demo_txs)" by (simp add: demo_txs_def Hash2ByteArrayRev_def)
  have "parent_tx demo_txs (snd e) = Some t \<Longrightarrow> unat (op_n (prevout (snd e))) < length (vout (demo_txs ! t))"
    if "e \<in> set (all_ins 0 demo_txs)" for e t
    using that by (auto simp: parent_tx_def demo_txs_def Hash2ByteArrayRev_def COutPoint_default_def)
  moreover have "ionums_ok 0 demo_txs" by (auto simp: ionums_ok_def demo_txs_def IONumMax_def less_Suc_eq)
  ultimately show ?thesis using d by (simp add: block_wf_def)
qed

theorem block_summary_correct_witness:
  "block_wf (vtx \<lparr> blk_header = CBlockHeader_new, vtx = demo_txs, blk_mw_blob = None \<rparr>) \<and>
   (\<exists>p. fill 5 [] 300 \<lparr> blk_header = CBlockHeader_new, vtx = demo_txs, blk_mw_blob = None \<rparr> = Inr p \<and> summarises demo_txs p \<and> ppb_height p = 5)"
proof -
  let ?b = "\<lparr> blk_header = CBlockHeader_new, vtx = demo_txs, blk_mw_blob = None \<rparr>"
  have wf: "block_wf (vtx ?b)" using demo_txs_wf by simp
  from block_summary_correct[OF wf, of 5 "[]" 300] show ?thesis using wf by auto
qed

end
