(* ===== verification/Tx_Index.thy ===== *)
theory Tx_Index
  imports Db_Access Block_Preprocess
begin

text \<open>
  \<open>TxHash2TxNumMgr\<close> of \<open>Storage.cpp\<close>: the index from transaction hashes to transaction numbers. The table is
  keyed by a few bytes of the hash, and a row holds the \<open>VarInt\<close>s of all numbers whose hash has that
  key, appended by \<open>Merge\<close>; the hashes themselves are in the record array of all transactions. A lookup
  reads the candidates from there. The phased variants, which split an operation between two threads,
  compute the same batch.
\<close>

section \<open>The class\<close>

datatype KeyPos = Beginning | Middle | End | KP_Invalid

record TxHash2TxNumMgr =
  keyBytes :: nat
  keyPos :: KeyPos
  largestTxNumSeen :: int

definition makeKeyFromHash :: "TxHash2TxNumMgr \<Rightarrow> bytes \<Rightarrow> (db_error, bytes) result" where
  "makeKeyFromHash m bv =
     (let len = length bv
      in if len \<noteq> HashLen then Inl (DatabaseFormatError ''Hash is not 32 bytes'')
         else Inr (case keyPos m of
                     End \<Rightarrow> take (keyBytes m) (drop (len - keyBytes m) bv)
                   | Middle \<Rightarrow> take (keyBytes m) (drop (len div 2 - keyBytes m div 2) bv)
                   | _ \<Rightarrow> take (keyBytes m) bv))"

definition kLargestTxNumSeenKeyPrefix :: bytes where
  "kLargestTxNumSeenKeyPrefix = map of_char ''+largestTxNumSeen''"

definition makeLargestTxNumSeenKey :: "TxHash2TxNumMgr \<Rightarrow> bytes" where
  "makeLargestTxNumSeenKey m =
     (let ret = kLargestTxNumSeenKeyPrefix
      in if length ret \<le> keyBytes m then ret @ replicate (keyBytes m - length ret + 1) (of_char (CHR ''-'')) else ret)"

definition loadLargestTxNumSeen :: "'db rocksdb \<Rightarrow> 'db \<Rightarrow> TxHash2TxNumMgr \<Rightarrow> (db_error, TxHash2TxNumMgr) result" where
  "loadLargestTxNumSeen R db m =
     rbind (GenericDBGet R db (makeLargestTxNumSeenKey m) True (deser_scalar 8)) (\<lambda>opt.
       Inr (case opt of
              Some (w :: int64) \<Rightarrow> if sint w \<ge> 0 then m\<lparr>largestTxNumSeen := sint w\<rparr> else m\<lparr>largestTxNumSeen := - 1\<rparr>
            | None \<Rightarrow> m\<lparr>largestTxNumSeen := - 1\<rparr>))"

definition saveLargestTxNumSeen :: "TxHash2TxNumMgr \<Rightarrow> batch_op" where
  "saveLargestTxNumSeen m =
     (if largestTxNumSeen m > - 1
      then Put (makeLargestTxNumSeenKey m) (SerializeScalar False 8 (of_int (largestTxNumSeen m) :: int64))
      else Delete (makeLargestTxNumSeenKey m))"

definition TxHash2TxNumMgr_new :: "'db rocksdb \<Rightarrow> 'db \<Rightarrow> nat \<Rightarrow> KeyPos \<Rightarrow> (db_error, TxHash2TxNumMgr) result" where
  "TxHash2TxNumMgr_new R db kb kp =
     (if kb = 0 \<or> kb > HashLen \<or> kp = KP_Invalid then Inl (DbInternalError ''Bad argumnets supplied to TxHash2TxNumMgr constructor'')
      else if db_ColumnError R \<noteq> None then Inl (DbInternalError ''This db lacks a merge operator of type ConcatOperator'')
      else loadLargestTxNumSeen R db \<lparr> keyBytes = kb, keyPos = kp, largestTxNumSeen = - 1 \<rparr>)"

section \<open>Adding the transactions of a block\<close>

definition VarInt_of :: "TxNum \<Rightarrow> (db_error, GenericVarInt) result" where
  "VarInt_of n = (case varint_make False n of Inl _ \<Rightarrow> Inl (DbInternalError ''VarInt'') | Inr v \<Rightarrow> Inr v)"

fun insert_ops :: "TxHash2TxNumMgr \<Rightarrow> TxNum \<Rightarrow> TxInfo list \<Rightarrow> (db_error, batch_op list) result" where
  "insert_ops m num [] = Inr []"
| "insert_ops m num (info # infos) =
     rbind (makeKeyFromHash m (txi_hash info)) (\<lambda>key.
     rbind (VarInt_of num) (\<lambda>val.
     rbind (insert_ops m (num + 1) infos) (\<lambda>ops.
       Inr (Merge key (byteView val) # ops))))"

definition insertForBlock :: "TxHash2TxNumMgr \<Rightarrow> TxNum \<Rightarrow> TxInfo list \<Rightarrow> (db_error, batch_op list \<times> TxHash2TxNumMgr) result" where
  "insertForBlock m blockTxNum0 infos =
     rbind (insert_ops m blockTxNum0 infos) (\<lambda>ops.
       if infos \<noteq> [] then
         let m = m\<lparr>largestTxNumSeen := sint (blockTxNum0 + of_nat (length infos) - 1)\<rparr>
         in Inr (ops @ [saveLargestTxNumSeen m], m)
       else Inr (ops, m))"

section \<open>Removing the transactions of the latest block\<close>

lemma varint_deserialize_shorter: "varint_deserialize s = Inr (v, s') \<Longrightarrow> length s' < length s"
  by (auto simp: varint_deserialize_def rbind_Inr_iff validate_def Let_def split: if_splits)

text \<open>The numbers below \<open>txNum\<close> of a row, re-encoded.\<close>

function keep_below :: "TxNum \<Rightarrow> bytes \<Rightarrow> (varint_error, bytes) result" where
  "keep_below txNum span =
     (if span = [] then Inr []
      else rbind (varint_deserialize span) (\<lambda>(v, span').
           rbind (varint_value False v) (\<lambda>n :: TxNum.
           rbind (keep_below txNum span') (\<lambda>rest.
             Inr (if n \<ge> txNum then rest else byteView v @ rest)))))"
  by pat_completeness auto
termination
  by (relation "measure (\<lambda>(txNum, span). length span)") (auto dest: varint_deserialize_shorter)

declare keep_below.simps [simp del]

text \<open>A key that cannot be read is skipped with a warning.\<close>

definition undo_row :: "'db rocksdb \<Rightarrow> 'db \<Rightarrow> TxNum \<Rightarrow> bytes \<Rightarrow> (db_error, batch_op list) result" where
  "undo_row R db txNum key =
     (case db_Get R db key of
        Inl _ \<Rightarrow> Inr []
      | Inr dbValue \<Rightarrow>
          (case keep_below txNum dbValue of
             Inl _ \<Rightarrow> Inl (DatabaseFormatError ''caught exception in truncateForUndo'')
           | Inr valBackToDb \<Rightarrow> Inr (if valBackToDb = [] then [Delete key] else [Put key valBackToDb])))"

definition truncateForUndo ::
  "'db rocksdb \<Rightarrow> 'db \<Rightarrow> 'db \<Rightarrow> DBRecordArray \<Rightarrow> TxHash2TxNumMgr \<Rightarrow> TxNum \<Rightarrow> (db_error, batch_op list \<times> TxHash2TxNumMgr) result" where
  "truncateForUndo R db dra_db dra m txNum =
     (let rfNR = nRecs dra
      in if rfNR < unat txNum then
           Inl (DatabaseError ''DBRecordArray does not have the hashes required for the specified truncation'')
         else if rfNR = unat txNum then Inr ([], m)
         else
           let (recs, err) = readRecords R dra_db dra (unat txNum) (rfNR - unat txNum)
           in if length recs \<noteq> rfNR - unat txNum \<or> err \<noteq> [] then
                Inl (DatabaseError ''short read count or error reading DBRecordArray'')
              else
                rbind (rmap (makeKeyFromHash m) recs) (\<lambda>keys.
                rbind (rmap (undo_row R db txNum) keys) (\<lambda>opss.
                  let m = m\<lparr>largestTxNumSeen := max (int (unat txNum) - 1) (- 1)\<rparr>
                  in Inr (concat opss @ [saveLargestTxNumSeen m], m))))"

section \<open>Looking up\<close>

function parse_varints :: "bytes \<Rightarrow> (varint_error, TxNum list) result" where
  "parse_varints span =
     (if span = [] then Inr []
      else rbind (varint_deserialize span) (\<lambda>(v, span').
           rbind (varint_value False v) (\<lambda>n :: TxNum.
           rbind (parse_varints span') (\<lambda>ns. Inr (n # ns)))))"
  by pat_completeness auto
termination
  by (relation "measure length") (auto dest: varint_deserialize_shorter)

declare parse_varints.simps [simp del]

fun first_match :: "bytes \<Rightarrow> bytes list \<Rightarrow> TxNum list \<Rightarrow> TxNum option" where
  "first_match h (r # recs) (n # ns) = (if r = h then Some n else first_match h recs ns)"
| "first_match h _ _ = None"

definition tx_find ::
  "'db rocksdb \<Rightarrow> 'db \<Rightarrow> 'db \<Rightarrow> DBRecordArray \<Rightarrow> TxHash2TxNumMgr \<Rightarrow> bytes \<Rightarrow> (db_error, TxNum option) result" where
  "tx_find R db dra_db dra m h =
     rbind (makeKeyFromHash m h) (\<lambda>key.
     rbind (GenericDBGet R db key True deser_bytes) (\<lambda>optBytes.
       case optBytes of
         None \<Rightarrow> Inr None
       | Some span \<Rightarrow>
           (case parse_varints span of
              Inl _ \<Rightarrow> Inl (DatabaseError ''failed lookup for txHash'')
            | Inr txNums \<Rightarrow>
                if txNums = [] then Inl (DatabaseError ''failed lookup for txHash: Missing data for txHash'')
                else
                  let recs = readRandomRecords R dra_db dra (map unat txNums) True
                  in if length recs \<noteq> length txNums then Inl (DatabaseError ''failed lookup for txHash: Expected recs.size() == txNums.size()!'')
                     else Inr (first_match h recs txNums))))"

definition tx_exists ::
  "'db rocksdb \<Rightarrow> 'db \<Rightarrow> 'db \<Rightarrow> DBRecordArray \<Rightarrow> TxHash2TxNumMgr \<Rightarrow> bytes \<Rightarrow> (db_error, bool) result" where
  "tx_exists R db dra_db dra m h = rbind (tx_find R db dra_db dra m h) (\<lambda>opt. Inr (opt \<noteq> None))"

text \<open>\<open>findMany\<close>: all keys with one \<open>MultiGet\<close>, then all candidate records with one read; the range of candidates of
  hash \<open>i\<close> is the slice of the results that belongs to it.\<close>

definition candidates :: "'db rocksdb \<Rightarrow> 'db \<Rightarrow> bytes \<Rightarrow> (db_error, TxNum list) result" where
  "candidates R db key =
     (case db_Get R db key of
        Inl status \<Rightarrow> if status = NotFound then Inr [] else Inl (DatabaseError ''got a status that is not ok in findMany'')
      | Inr dataBlob \<Rightarrow>
          (case parse_varints dataBlob of
             Inl _ \<Rightarrow> Inl (DatabaseSerializationError ''failed to deserialize a VarInt'')
           | Inr ns \<Rightarrow> Inr ns))"

fun match_ranges :: "bytes list \<Rightarrow> TxNum list list \<Rightarrow> bytes list \<Rightarrow> TxNum option list" where
  "match_ranges (h # hashes) (ns # nss) recs =
     first_match h (take (length ns) recs) ns # match_ranges hashes nss (drop (length ns) recs)"
| "match_ranges _ _ recs = []"

definition findMany ::
  "'db rocksdb \<Rightarrow> 'db \<Rightarrow> 'db \<Rightarrow> DBRecordArray \<Rightarrow> TxHash2TxNumMgr \<Rightarrow> bytes list \<Rightarrow> (db_error, TxNum option list) result" where
  "findMany R db dra_db dra m hashes =
     (if hashes = [] then Inr []
      else
        rbind (rmap (makeKeyFromHash m) hashes) (\<lambda>keys.
        rbind (rmap (candidates R db) keys) (\<lambda>nss.
          let recNums = concat nss; recs = readRandomRecords R dra_db dra (map unat recNums) True
          in if length recs \<noteq> length recNums then Inl (DatabaseError ''Expected recs.size() == recNums.size()!'')
             else Inr (match_ranges hashes nss recs))))"

section \<open>What the table holds\<close>

text \<open>The transactions of the chain are \<open>recs\<close>, the number of a transaction is its position. Row \<open>k\<close> holds, in
  ascending order, the numbers of the transactions with key \<open>k\<close>.\<close>

definition txnum_limit :: nat where "txnum_limit = 2 ^ 63"

definition hash_key :: "TxHash2TxNumMgr \<Rightarrow> bytes \<Rightarrow> bytes" where
  "hash_key m h =
     (case keyPos m of End \<Rightarrow> take (keyBytes m) (drop (HashLen - keyBytes m) h)
      | Middle \<Rightarrow> take (keyBytes m) (drop (HashLen div 2 - keyBytes m div 2) h)
      | _ \<Rightarrow> take (keyBytes m) h)"

definition num_bytes :: "nat \<Rightarrow> bytes" where "num_bytes n = varint_bytes False (of_nat n :: TxNum)"

definition key_nums :: "TxHash2TxNumMgr \<Rightarrow> bytes list \<Rightarrow> bytes \<Rightarrow> nat list" where
  "key_nums m recs k = filter (\<lambda>n. hash_key m (recs ! n) = k) [0..<length recs]"

definition nums_row :: "nat list \<Rightarrow> bytes option" where
  "nums_row ns = (if ns = [] then None else Some (concat (map num_bytes ns)))"

definition idx_tab :: "TxHash2TxNumMgr \<Rightarrow> bytes option \<Rightarrow> bytes list \<Rightarrow> bytes \<rightharpoonup> bytes" where
  "idx_tab m x recs = (\<lambda>k. if k = makeLargestTxNumSeenKey m then x else nums_row (key_nums m recs k))"

definition largest_row :: "bytes list \<Rightarrow> bytes option" where
  "largest_row recs = (if recs = [] then None else Some (SerializeScalar False 8 (of_nat (length recs - 1) :: int64)))"

definition idx_ok :: "(bytes \<rightharpoonup> bytes) \<Rightarrow> TxHash2TxNumMgr \<Rightarrow> bytes list \<Rightarrow> bool" where
  "idx_ok tab m recs \<longleftrightarrow>
     0 < keyBytes m \<and> keyBytes m \<le> HashLen \<and> keyPos m \<noteq> KP_Invalid \<and> list_all (\<lambda>h. length h = HashLen) recs \<and> length recs < txnum_limit \<and>
     largestTxNumSeen m = int (length recs) - 1 \<and> tab = idx_tab m (largest_row recs) recs"

text \<open>The lookup that the table answers: the first number with that hash.\<close>

definition first_num :: "bytes list \<Rightarrow> bytes \<Rightarrow> TxNum option" where
  "first_num recs h = map_option of_nat (List.find (\<lambda>n. recs ! n = h) [0..<length recs])"

section \<open>Keys and rows\<close>

lemma makeKeyFromHash_ok: "length h = HashLen \<Longrightarrow> makeKeyFromHash m h = Inr (hash_key m h)"
  by (simp add: makeKeyFromHash_def hash_key_def Let_def cong: KeyPos.case_cong)

lemma length_hash_key: "length h = HashLen \<Longrightarrow> keyBytes m \<le> HashLen \<Longrightarrow> length (hash_key m h) = keyBytes m"
  by (cases "keyPos m") (auto simp: hash_key_def)

lemma length_largest_key: "length (makeLargestTxNumSeenKey m) \<noteq> keyBytes m"
  by (simp add: makeLargestTxNumSeenKey_def Let_def)

lemma hash_key_not_largest:
  "length h = HashLen \<Longrightarrow> keyBytes m \<le> HashLen \<Longrightarrow> hash_key m h \<noteq> makeLargestTxNumSeenKey m"
  using length_hash_key length_largest_key by metis

lemma largest_key_upd [simp]:
  "makeLargestTxNumSeenKey (m\<lparr>largestTxNumSeen := x\<rparr>) = makeLargestTxNumSeenKey m"
  "hash_key (m\<lparr>largestTxNumSeen := x\<rparr>) = hash_key m"
  "key_nums (m\<lparr>largestTxNumSeen := x\<rparr>) = key_nums m"
  "idx_tab (m\<lparr>largestTxNumSeen := x\<rparr>) = idx_tab m"
proof -
  show k: "makeLargestTxNumSeenKey (m\<lparr>largestTxNumSeen := x\<rparr>) = makeLargestTxNumSeenKey m"
    by (simp add: makeLargestTxNumSeenKey_def)
  show h: "hash_key (m\<lparr>largestTxNumSeen := x\<rparr>) = hash_key m"
    by (cases "keyPos m") (simp_all add: hash_key_def fun_eq_iff)
  show n: "key_nums (m\<lparr>largestTxNumSeen := x\<rparr>) = key_nums m" by (simp add: key_nums_def h fun_eq_iff)
  show "idx_tab (m\<lparr>largestTxNumSeen := x\<rparr>) = idx_tab m" by (simp add: idx_tab_def n k fun_eq_iff)
qed

lemma VarInt_of_num: "VarInt_of n = Inr (varint_unchecked (varint_bytes False n))"
  by (simp add: VarInt_of_def varint_unchecked_bytes[OF int_width_64])

lemma byteView_num: "byteView (varint_unchecked (varint_bytes False (n :: TxNum))) = varint_bytes False n"
  by (rule byteView_make[OF int_width_64 varint_unchecked_bytes[OF int_width_64]])

lemma read_num:
  fixes n :: TxNum
  shows "varint_deserialize (varint_bytes False n @ rest) = Inr (varint_unchecked (varint_bytes False n), rest)"
    "varint_value False (varint_unchecked (varint_bytes False n)) = Inr n"
  using varint_deserialize_stream[OF int_width_64 varint_unchecked_bytes[OF int_width_64], of False n rest]
    value_of_bytes[OF int_width_64 int_width_64 varint_unchecked_bytes[OF int_width_64], of False n] unat_bound[of n]
  by (simp_all add: byteView_num)

lemma num_bytes_nonempty [simp]: "num_bytes n \<noteq> []"
  using length_varint_bytes_le(2)[OF int_width_64, of False "of_nat n"] by (simp add: num_bytes_def)

lemma parse_varints_row: "parse_varints (concat (map num_bytes ns)) = Inr (map of_nat ns)"
proof (induction ns)
  case (Cons n ns)
  have "parse_varints (num_bytes n @ concat (map num_bytes ns)) =
      rbind (parse_varints (concat (map num_bytes ns))) (\<lambda>ns. Inr (of_nat n # ns))"
    by (subst parse_varints.simps) (simp, simp add: num_bytes_def read_num)
  then show ?case using Cons by simp
qed (simp add: parse_varints.simps)

lemma unat_num: "n < txnum_limit \<Longrightarrow> unat (of_nat n :: TxNum) = n"
  unfolding unat_of_nat by (simp add: txnum_limit_def)

lemma keep_below_row:
  "t < txnum_limit \<Longrightarrow> \<forall>n \<in> set ns. n < txnum_limit \<Longrightarrow>
   keep_below (of_nat t) (concat (map num_bytes ns)) = Inr (concat (map num_bytes (filter (\<lambda>n. n < t) ns)))"
proof (induction ns)
  case (Cons n ns)
  have "(of_nat t :: TxNum) \<le> of_nat n \<longleftrightarrow> t \<le> n" using Cons.prems by (simp add: word_le_nat_alt unat_num)
  then show ?case
    using Cons by (auto simp: keep_below.simps[of _ "_ @ _"]) (simp_all add: num_bytes_def read_num byteView_num)
qed (simp add: keep_below.simps)

lemma key_nums_snoc: "key_nums m (recs @ [h]) k = key_nums m recs k @ (if hash_key m h = k then [length recs] else [])"
  by (auto simp: key_nums_def nth_append intro: filter_cong)

lemma key_nums_take: "t \<le> length recs \<Longrightarrow> key_nums m (take t recs) k = filter (\<lambda>n. n < t) (key_nums m recs k)"
proof -
  assume t: "t \<le> length recs"
  then have "[0..<length recs] = [0..<t] @ [t..<length recs]" using upt_add_eq_append[of 0 t "length recs - t"] by simp
  then show ?thesis using t by (auto simp: key_nums_def filter_empty_conv intro!: filter_cong)
qed

lemma key_nums_bound: "n \<in> set (key_nums m recs k) \<Longrightarrow> n < length recs \<and> hash_key m (recs ! n) = k"
  by (simp add: key_nums_def)

section \<open>Adding a block\<close>

lemma idx_tab_snoc:
  assumes "length h = HashLen" "keyBytes m \<le> HashLen"
  shows "apply_op (Merge (hash_key m h) (num_bytes (length recs))) (idx_tab m x recs) = idx_tab m x (recs @ [h])"
  using hash_key_not_largest[OF assms]
  by (auto simp: idx_tab_def fun_eq_iff key_nums_snoc nums_row_def ConcatOperator_Merge_def)

lemma insert_ops_ok:
  "list_all (\<lambda>i. length (txi_hash i) = HashLen) infos \<Longrightarrow> keyBytes m \<le> HashLen \<Longrightarrow>
   \<exists>ops. insert_ops m (of_nat (length recs)) infos = Inr ops \<and>
     fold apply_op ops (idx_tab m x recs) = idx_tab m x (recs @ map txi_hash infos)"
proof (induction infos arbitrary: recs)
  case (Cons i infos)
  from Cons.IH[of "recs @ [txi_hash i]"] Cons.prems
  obtain ops where "insert_ops m (of_nat (length recs) + 1) infos = Inr ops"
    "fold apply_op ops (idx_tab m x (recs @ [txi_hash i])) = idx_tab m x (recs @ map txi_hash (i # infos))"
    by (auto simp: add.commute)
  then show ?case
    using Cons.prems idx_tab_snoc[of "txi_hash i" m recs x]
    by (auto simp: makeKeyFromHash_ok VarInt_of_num byteView_num num_bytes_def)
qed simp

lemma apply_save_largest:
  "apply_op (saveLargestTxNumSeen (m\<lparr>largestTxNumSeen := int (length recs) - 1\<rparr>)) (idx_tab m x recs) = idx_tab m (largest_row recs) recs"
proof (cases recs)
  case Nil
  then show ?thesis by (simp add: saveLargestTxNumSeen_def largest_row_def idx_tab_def fun_eq_iff)
next
  case (Cons r rs)
  then have "(of_int (int (length recs) - 1) :: int64) = of_nat (length recs - 1)" by simp
  then show ?thesis using Cons by (simp add: saveLargestTxNumSeen_def largest_row_def idx_tab_def fun_eq_iff)
qed

lemma sint_num: "n < txnum_limit \<Longrightarrow> sint (of_nat n :: TxNum) = int n"
proof -
  assume n: "n < txnum_limit"
  have "signed_take_bit 63 (int n) = int n" using n by (intro signed_take_bit_int_eq_self) (simp_all add: txnum_limit_def)
  then show ?thesis using signed_of_int[of "int n", where ?'a = int and ?'b = 64] by simp
qed

lemma insertForBlock_ok:
  assumes ok: "idx_ok tab m recs" and infos: "list_all (\<lambda>i. length (txi_hash i) = HashLen) infos"
    and room: "length recs + length infos < txnum_limit"
  shows "\<exists>ops m'. insertForBlock m (of_nat (length recs)) infos = Inr (ops, m') \<and>
    idx_ok (fold apply_op ops tab) m' (recs @ map txi_hash infos) \<and> keyBytes m' = keyBytes m \<and> keyPos m' = keyPos m"
proof -
  let ?n = "length recs + length infos"
  have kb: "keyBytes m \<le> HashLen" and tab: "tab = idx_tab m (largest_row recs) recs" using ok by (simp_all add: idx_ok_def)
  obtain ops where ops: "insert_ops m (of_nat (length recs)) infos = Inr ops"
    "fold apply_op ops tab = idx_tab m (largest_row recs) (recs @ map txi_hash infos)"
    using insert_ops_ok[OF infos kb] unfolding tab by blast
  show ?thesis
  proof (cases "infos = []")
    case True
    then show ?thesis using ok ops(1) by (simp add: insertForBlock_def)
  next
    case False
    have e: "(of_nat (length recs) + of_nat (length infos) - 1 :: TxNum) = of_nat (?n - 1)"
      using False by (cases infos) simp_all
    have "?n - 1 < txnum_limit" using room by simp
    then have "sint (of_nat (length recs) + of_nat (length infos) - 1 :: TxNum) = int (length (recs @ map txi_hash infos)) - 1"
      unfolding e by (subst sint_num) (use False in \<open>cases infos; simp\<close>)+
    then show ?thesis
      using ok infos room False ops apply_save_largest[of "recs @ map txi_hash infos" m "largest_row recs"]
      by (auto simp: insertForBlock_def idx_ok_def list_all_iff Let_def)
  qed
qed

section \<open>Undoing a block\<close>

context rocksdb_laws
begin

lemma undo_row_ok:
  assumes ok: "idx_ok (contents db) m recs" and t: "t \<le> length recs" and h: "h \<in> set recs"
  shows "undo_row R db (of_nat t) (hash_key m h) =
    Inr [put_or_delete (hash_key m h) (nums_row (key_nums m (take t recs) (hash_key m h)))]"
proof -
  let ?k = "hash_key m h"
  obtain i where i: "i < length recs" "recs ! i = h" using h by (auto simp: in_set_conv_nth)
  have "length h = HashLen" "keyBytes m \<le> HashLen" using ok h by (auto simp: idx_ok_def list_all_iff)
  then have "contents db ?k = nums_row (key_nums m recs ?k)"
    using ok hash_key_not_largest by (simp add: idx_ok_def idx_tab_def)
  moreover have "key_nums m recs ?k \<noteq> []" using i by (auto simp: key_nums_def filter_empty_conv)
  ultimately have get: "db_Get R db ?k = Inr (concat (map num_bytes (key_nums m recs ?k)))"
    by (simp add: nums_row_def Get_found)
  have "length recs < txnum_limit" using ok by (simp add: idx_ok_def)
  then have "keep_below (of_nat t) (concat (map num_bytes (key_nums m recs ?k))) =
      Inr (concat (map num_bytes (key_nums m (take t recs) ?k)))"
    using t key_nums_bound by (subst keep_below_row) (fastforce simp: key_nums_take)+
  then show ?thesis by (auto simp: undo_row_def get nums_row_def put_or_delete_def)
qed

lemma truncateForUndo_ok:
  assumes ok: "idx_ok (contents db) m recs" and dra: "dra_repr (contents dra_db) dra recs" and t: "t < length recs"
  shows "\<exists>ops m'. truncateForUndo R db dra_db dra m (of_nat t) = Inr (ops, m') \<and>
    idx_ok (fold apply_op ops (contents db)) m' (take t recs) \<and> keyBytes m' = keyBytes m \<and> keyPos m' = keyPos m"
proof -
  let ?ks = "map (hash_key m) (drop t recs)"
  let ?op = "\<lambda>k. put_or_delete k (nums_row (key_nums m (take t recs) k))"
  let ?m = "m\<lparr>largestTxNumSeen := int t - 1\<rparr>"
  have lim: "length recs < txnum_limit" and hs: "\<And>h. h \<in> set recs \<Longrightarrow> length h = HashLen"
    and kb: "keyBytes m \<le> HashLen" and tab: "contents db = idx_tab m (largest_row recs) recs"
    using ok by (auto simp: idx_ok_def list_all_iff)
  have un: "unat (of_nat t :: TxNum) = t" using t lim by (intro unat_num) simp
  have nr: "nRecs dra = length recs" using dra by (simp add: dra_repr_def dra_wf_def)
  have keys: "rmap (makeKeyFromHash m) (drop t recs) = Inr ?ks"
    by (rule rmap_all_Inr) (meson hs in_set_dropD makeKeyFromHash_ok)
  have "rmap (undo_row R db (of_nat t)) ?ks = Inr (map (\<lambda>k. [?op k]) ?ks)"
    by (rule rmap_all_Inr) (use undo_row_ok[OF ok less_imp_le[OF t]] in \<open>auto dest: in_set_dropD\<close>)
  then have res: "truncateForUndo R db dra_db dra m (of_nat t) = Inr (map ?op ?ks @ [saveLargestTxNumSeen ?m], ?m)"
    using t by (simp add: truncateForUndo_def Let_def un nr readRecords_ok[OF dra] keys concat_map_singleton comp_def max_def)
  have row: "key_nums m (take t recs) k = key_nums m recs k" if "k \<notin> set ?ks" for k
  proof -
    have "n < t" if n: "n \<in> set (key_nums m recs k)" for n
    proof (rule ccontr)
      assume "\<not> n < t"
      then have "n - t < length (drop t recs)" "drop t recs ! (n - t) = recs ! n" using key_nums_bound[OF n] by auto
      then have "recs ! n \<in> set (drop t recs)" by (metis nth_mem)
      then show False using key_nums_bound[OF n] \<open>k \<notin> set ?ks\<close> by auto
    qed
    then show ?thesis using t by (simp add: key_nums_take filter_id_conv)
  qed
  have notl: "makeLargestTxNumSeenKey m \<notin> set ?ks"
  proof
    assume "makeLargestTxNumSeenKey m \<in> set ?ks"
    then obtain h where "h \<in> set recs" "hash_key m h = makeLargestTxNumSeenKey m" by (auto dest: in_set_dropD)
    then show False using hs hash_key_not_largest[OF _ kb] by blast
  qed
  have "fold apply_op (map ?op ?ks) (contents db) = idx_tab m (largest_row recs) (take t recs)"
  proof
    fix k
    show "fold apply_op (map ?op ?ks) (contents db) k = idx_tab m (largest_row recs) (take t recs) k"
      unfolding fold_put_or_delete using row[of k] notl by (auto simp: tab idx_tab_def)
  qed
  then show ?thesis
    using ok t res apply_save_largest[of "take t recs" m "largest_row recs"]
    by (auto simp: idx_ok_def list_all_iff dest: in_set_takeD)
qed

end

section \<open>Lookups\<close>

lemma first_match_nums:
  "first_match h (map ((!) recs) ns) (map of_nat ns) = map_option of_nat (List.find (\<lambda>n. recs ! n = h) ns)"
  by (induction ns) auto

lemma find_key_nums: "List.find (\<lambda>n. recs ! n = h) (key_nums m recs (hash_key m h)) = List.find (\<lambda>n. recs ! n = h) [0..<length recs]"
proof -
  have "List.find (\<lambda>n. recs ! n = h) (filter (\<lambda>n. hash_key m (recs ! n) = hash_key m h) ns) = List.find (\<lambda>n. recs ! n = h) ns" for ns
    by (induction ns) auto
  then show ?thesis unfolding key_nums_def .
qed

lemma first_num_nums: "first_match h (map ((!) recs) (key_nums m recs (hash_key m h))) (map of_nat (key_nums m recs (hash_key m h))) = first_num recs h"
  by (simp only: first_match_nums find_key_nums first_num_def)

text \<open>The number found is the number of that hash, and nothing is found only for unknown hashes.\<close>

lemma first_num_iff:
  assumes "distinct recs" "length recs < txnum_limit"
  shows "first_num recs h = Some n \<longleftrightarrow> unat n < length recs \<and> recs ! unat n = h"
proof -
  have u: "unat (of_nat i :: TxNum) = i" if "i < length recs" for i using that assms(2) by (simp add: unat_num)
  have "first_num recs h = Some n \<longleftrightarrow> (\<exists>i < length recs. recs ! i = h \<and> n = of_nat i)"
  proof (cases "List.find (\<lambda>n. recs ! n = h) [0..<length recs]")
    case None
    then have "\<forall>i < length recs. recs ! i \<noteq> h" by (simp add: find_None_iff)
    then show ?thesis using None by (auto simp: first_num_def)
  next
    case (Some j)
    then have "j < length recs" "recs ! j = h" by (auto simp: find_Some_iff)
    then show ?thesis using assms(1) Some by (auto simp: first_num_def nth_eq_iff_index_eq)
  qed
  also have "\<dots> \<longleftrightarrow> unat n < length recs \<and> recs ! unat n = h"
    using u by (auto intro: exI[of _ "unat n"])
  finally show ?thesis .
qed

context rocksdb_laws
begin

lemma index_row:
  assumes "idx_ok (contents db) m recs" "length h = HashLen"
  shows "contents db (hash_key m h) = nums_row (key_nums m recs (hash_key m h))"
  using assms hash_key_not_largest[OF assms(2), of m] by (simp add: idx_ok_def idx_tab_def)

lemma read_candidates:
  assumes "idx_ok (contents db) m recs" "dra_repr (contents dra_db) dra recs" "\<forall>n \<in> set ns. n < length recs"
  shows "readRandomRecords R dra_db dra (map unat (map of_nat ns :: TxNum list)) True = map ((!) recs) ns"
proof -
  have "unat (of_nat n :: TxNum) = n" if "n \<in> set ns" for n
    using that assms(1,3) by (intro unat_num) (fastforce simp: idx_ok_def)
  then show ?thesis using assms(3) by (simp add: readRandomRecords_ok[OF assms(2)])
qed

lemma tx_find_ok:
  assumes "idx_ok (contents db) m recs" "dra_repr (contents dra_db) dra recs" "length h = HashLen"
  shows "tx_find R db dra_db dra m h = Inr (first_num recs h)"
proof (cases "key_nums m recs (hash_key m h) = []")
  case True
  then have "first_num recs h = None" using first_num_nums[of h recs m] by simp
  then show ?thesis
    using True index_row[OF assms(1,3)] by (simp add: tx_find_def makeKeyFromHash_ok[OF assms(3)] GenericDBGet_missing nums_row_def)
next
  case False
  let ?ns = "key_nums m recs (hash_key m h)"
  have "readRandomRecords R dra_db dra (map unat (map of_nat ?ns :: TxNum list)) True = map ((!) recs) ?ns"
    by (rule read_candidates[OF assms(1,2)]) (use key_nums_bound in blast)
  then show ?thesis
    using False index_row[OF assms(1,3)] first_num_nums[of h recs m]
    by (simp add: tx_find_def makeKeyFromHash_ok[OF assms(3)] GenericDBGet_found nums_row_def deser_bytes_def parse_varints_row)
qed

lemma candidates_ok:
  assumes "idx_ok (contents db) m recs" "length h = HashLen"
  shows "candidates R db (hash_key m h) = Inr (map of_nat (key_nums m recs (hash_key m h)))"
  using index_row[OF assms] by (cases "key_nums m recs (hash_key m h) = []")
    (simp_all add: candidates_def nums_row_def Get_found Get_missing parse_varints_row)

lemma match_ranges_ok:
  "match_ranges hs (map (\<lambda>h. map of_nat (key_nums m recs (hash_key m h))) hs)
     (map ((!) recs) (concat (map (\<lambda>h. key_nums m recs (hash_key m h)) hs))) = map (first_num recs) hs"
  by (induction hs) (simp_all add: first_num_nums)

lemma findMany_ok:
  assumes ok: "idx_ok (contents db) m recs" and dra: "dra_repr (contents dra_db) dra recs"
    and hs: "\<And>h. h \<in> set hs \<Longrightarrow> length h = HashLen"
  shows "findMany R db dra_db dra m hs = Inr (map (first_num recs) hs)"
proof -
  let ?ns = "\<lambda>h. key_nums m recs (hash_key m h)"
  have 1: "rmap (makeKeyFromHash m) hs = Inr (map (hash_key m) hs)" by (rule rmap_all_Inr) (simp add: makeKeyFromHash_ok hs)
  have "rmap (candidates R db) (map (hash_key m) hs) = Inr (map (\<lambda>h. map of_nat (?ns h)) hs)"
    using hs by (induction hs) (simp_all add: candidates_ok[OF ok])
  moreover have "concat (map (\<lambda>h. map of_nat (?ns h)) hs) = (map of_nat (concat (map ?ns hs)) :: TxNum list)"
    by (simp add: map_concat comp_def)
  moreover have "readRandomRecords R dra_db dra (map unat (map of_nat (concat (map ?ns hs)) :: TxNum list)) True = map ((!) recs) (concat (map ?ns hs))"
    by (rule read_candidates[OF ok dra]) (use key_nums_bound in auto)
  ultimately show ?thesis using 1 by (simp add: findMany_def Let_def match_ranges_ok)
qed

lemma load_ok:
  assumes "idx_ok (contents db) m recs"
  shows "TxHash2TxNumMgr_new R db (keyBytes m) (keyPos m) = Inr m"
proof -
  let ?m = "\<lparr> keyBytes = keyBytes m, keyPos = keyPos m, largestTxNumSeen = - 1 \<rparr>"
  have k: "makeLargestTxNumSeenKey ?m = makeLargestTxNumSeenKey m" by (simp add: makeLargestTxNumSeenKey_def)
  have row: "contents db (makeLargestTxNumSeenKey m) = largest_row recs" using assms by (simp add: idx_ok_def idx_tab_def)
  have "loadLargestTxNumSeen R db ?m = Inr m"
  proof (cases recs)
    case Nil
    then show ?thesis using assms row by (cases m) (simp add: loadLargestTxNumSeen_def k GenericDBGet_missing largest_row_def idx_ok_def)
  next
    case (Cons r rs)
    have "sint (of_nat (length recs - 1) :: int64) = largestTxNumSeen m"
      using assms Cons sint_num[of "length recs - 1"] by (simp add: idx_ok_def)
    moreover have "GenericDBGet R db (makeLargestTxNumSeenKey m) True (deser_scalar 8) = Inr (Some (of_nat (length recs - 1) :: int64))"
      using row Cons deser_scalar_le[of 8 "of_nat (length recs - 1) :: int64"] by (simp add: GenericDBGet_found largest_row_def)
    moreover have "0 \<le> largestTxNumSeen m" using assms Cons by (simp add: idx_ok_def)
    ultimately show ?thesis by (simp add: loadLargestTxNumSeen_def k)
  qed
  then show ?thesis using assms by (simp add: TxHash2TxNumMgr_new_def idx_ok_def Column_ok)
qed

end

section \<open>A small chain with colliding keys\<close>

definition demo_recs :: "bytes list" where "demo_recs = [replicate 32 0, 1 # replicate 31 0]"

definition demo_mgr :: TxHash2TxNumMgr where "demo_mgr = \<lparr> keyBytes = 6, keyPos = End, largestTxNumSeen = - 1 \<rparr>"

definition demo_infos :: "TxInfo list" where
  "demo_infos = map (\<lambda>h. \<lparr> txi_hash = h, nInputs = 0, nOutputs = 0, input0Index = None, output0Index = None \<rparr>) demo_recs"

lemma demo_index_empty: "idx_ok (fmlookup fmempty) demo_mgr []"
  by (simp add: idx_ok_def demo_mgr_def txnum_limit_def idx_tab_def key_nums_def nums_row_def largest_row_def fun_eq_iff)

lemma demo_infos_ok: "list_all (\<lambda>i. length (txi_hash i) = HashLen) demo_infos" "map txi_hash demo_infos = demo_recs"
    "length demo_infos = 2" "distinct demo_recs"
  by (simp_all add: demo_infos_def demo_recs_def numeral_eq_Suc)

lemma demo_recs_array: "\<exists>db d. dra_repr (fmlookup db) d demo_recs"
proof -
  have "has_single_bit (unat demo_pot)"
    using popcount_pow2[of 1] by (simp add: has_single_bit_def demo_pot_def)
  moreover have "fmlookup fmempty = (Map.empty :: bytes \<rightharpoonup> bytes)" by (rule ext) simp
  ultimately obtain db d where d: "dra_repr (fmlookup db) d []" "recSz d = 32"
    using fm.create_ok[of fmempty demo_pot 32 7] by (auto simp: demo_pot_def)
  have "(2::nat) < bucket_limit" by (simp add: bucket_limit_def)
  then show ?thesis
    using fm.run_cmds_ok[OF d(1), of "map CAppend demo_recs"] d(2) by (auto simp: demo_recs_def)
qed

lemma demo_index: "\<exists>db m. idx_ok (fmlookup db) m demo_recs"
proof -
  have "(2::nat) < txnum_limit" by (simp add: txnum_limit_def)
  then obtain ops m where "idx_ok (fold apply_op ops (fmlookup fmempty)) m demo_recs"
    using insertForBlock_ok[OF demo_index_empty demo_infos_ok(1)] demo_infos_ok(2,3) by auto
  then show ?thesis by (metis fm.contents_Write)
qed

section \<open>Properties\<close>

text \<open>C16: The transaction index answers every lookup with the number of the transaction. On a table that is the
  index of the chain's transactions \<open>recs\<close> (with a record array that holds their hashes), \<open>find\<close> and
  \<open>findMany\<close> succeed for all 32-byte hashes, also when keys collide, and return the position of
  the hash in \<open>recs\<close>, and nothing exactly for hashes not in the chain.\<close>

theorem tx_index_lookup:
  assumes "rocksdb_laws R contents" and "idx_ok (contents db) m recs" and "dra_repr (contents dra_db) dra recs"
    and "distinct recs" and "list_all (\<lambda>h. length h = HashLen) hs"
  shows "\<exists>res. findMany R db dra_db dra m hs = Inr res \<and> map Inr res = map (tx_find R db dra_db dra m) hs \<and>
    list_all2 (\<lambda>h r. \<forall>n. r = Some n \<longleftrightarrow> unat n < length recs \<and> recs ! unat n = h) hs res"
proof (intro exI[of _ "map (first_num recs) hs"] conjI)
  have hs: "length h = HashLen" if "h \<in> set hs" for h using assms(5) that by (simp add: list_all_iff)
  have "length recs < txnum_limit" using assms(2) by (simp add: idx_ok_def)
  then show "list_all2 (\<lambda>h r. \<forall>n. r = Some n \<longleftrightarrow> unat n < length recs \<and> recs ! unat n = h) hs (map (first_num recs) hs)"
    by (simp add: list_all2_conv_all_nth first_num_iff[OF assms(4)])
  show "findMany R db dra_db dra m hs = Inr (map (first_num recs) hs)"
    by (rule rocksdb_laws.findMany_ok[OF assms(1-3) hs])
  show "map Inr (map (first_num recs) hs) = map (tx_find R db dra_db dra m) hs"
    using hs rocksdb_laws.tx_find_ok[OF assms(1-3)] by simp
qed

theorem tx_index_lookup_witness:
  "\<exists>db dra_db dra m res. findMany fm_rocksdb db dra_db dra m [1 # replicate 31 0, replicate 32 7] = Inr res \<and>
    list_all2 (\<lambda>h r. \<forall>n. r = Some n \<longleftrightarrow> unat n < length demo_recs \<and> demo_recs ! unat n = h)
      [1 # replicate 31 0, replicate 32 7] res"
proof -
  obtain db m dra_db dra where i: "idx_ok (fmlookup db) m demo_recs" and d: "dra_repr (fmlookup dra_db) dra demo_recs"
    using demo_index demo_recs_array by blast
  have "list_all (\<lambda>h. length h = HashLen) [1 # replicate 31 0, replicate 32 7 :: bytes]" by simp
  from tx_index_lookup[OF fm.rocksdb_laws_axioms i d demo_infos_ok(4) this] show ?thesis by blast
qed

text \<open>Adding the transactions of a block to the index and undoing them. \<open>insertForBlock\<close> with the next free
  number turns the index of \<open>recs\<close> into the index of \<open>recs\<close> followed by the block's hashes; \<open>truncateForUndo\<close>
  at that number, run before the record array is truncated, turns it back into the very same table and manager;
  and a restart of the manager from the table gives the same state.\<close>

lemma tx_index_block_undo:
  assumes "rocksdb_laws R contents" and "idx_ok (contents db) m recs" and "infos \<noteq> []"
    and "list_all (\<lambda>i. length (txi_hash i) = HashLen) infos" and "length recs + length infos < txnum_limit"
    and "dra_repr (contents dra_db) dra (recs @ map txi_hash infos)"
  shows "\<exists>ops m' ops'. insertForBlock m (of_nat (length recs)) infos = Inr (ops, m') \<and>
    idx_ok (contents (db_Write R db ops)) m' (recs @ map txi_hash infos) \<and>
    TxHash2TxNumMgr_new R (db_Write R db ops) (keyBytes m) (keyPos m) = Inr m' \<and>
    truncateForUndo R (db_Write R db ops) dra_db dra m' (of_nat (length recs)) = Inr (ops', m) \<and>
    contents (db_Write R (db_Write R db ops) ops') = contents db"
proof -
  let ?recs = "recs @ map txi_hash infos"
  obtain ops m' where i: "insertForBlock m (of_nat (length recs)) infos = Inr (ops, m')"
    "idx_ok (fold apply_op ops (contents db)) m' ?recs" and m': "keyBytes m' = keyBytes m" "keyPos m' = keyPos m"
    using insertForBlock_ok[OF assms(2,4,5)] by blast
  let ?db = "db_Write R db ops"
  have ok: "idx_ok (contents ?db) m' ?recs" using i(2) by (simp add: rocksdb_laws.contents_Write[OF assms(1)])
  have "length recs < length ?recs" using assms(3) by simp
  from rocksdb_laws.truncateForUndo_ok[OF assms(1) ok assms(6) this]
  obtain ops' m2 where u: "truncateForUndo R ?db dra_db dra m' (of_nat (length recs)) = Inr (ops', m2)"
    "idx_ok (contents (db_Write R ?db ops')) m2 recs" "keyBytes m2 = keyBytes m'" "keyPos m2 = keyPos m'"
    by (auto simp: rocksdb_laws.contents_Write[OF assms(1)])
  have "m2 = m" using u(2-4) m' assms(2) by (simp add: idx_ok_def)
  then have "contents (db_Write R ?db ops') = contents db" using u(2) assms(2) by (simp add: idx_ok_def)
  moreover have "TxHash2TxNumMgr_new R ?db (keyBytes m) (keyPos m) = Inr m'"
    using rocksdb_laws.load_ok[OF assms(1) ok] m' by simp
  ultimately show ?thesis using i(1) u(1) ok \<open>m2 = m\<close> by blast
qed

end
