(* ===== verification/Block_Storage.thy ===== *)
theory Block_Storage
  imports Utxo_Set Tx_Index Header_Storage
begin

text \<open>
  \<open>Storage::addBlock\<close> and \<open>Storage::undoLatestBlock\<close>: the whole database state and the two functions that
  change it. A column family is a value of the database parameter; the functions read the families
  as they are and collect one write batch, written as a whole at the end. Where the source throws, also when
  the write fails, the batch is lost and the members changed so far keep their new values, which the model returns as
  well. The RPA index, with its row in the batch and its flag in the meta family, is left out; notifications, the mempool
  (\<open>notifySubs\<close>) and the caches are added in \<open>Index_State\<close>.
\<close>

section \<open>State\<close>

record 'db Store =
  s_hdr :: "'db header_store"
  s_txnums :: 'db
  txNumsDRA :: DBRecordArray
  s_txhash2txnum :: 'db
  txhash2txnumMgr :: TxHash2TxNumMgr
  s_utxoset :: 'db
  s_shunspent :: 'db
  s_shist :: 'db
  s_blkinfo :: 'db
  s_undo :: 'db
  s_meta :: 'db
  txNumNext :: TxNum
  blkInfos :: "BlkInfo list"
  blkInfosByTxNum :: "(TxNum \<times> nat) list"
  utxoCt :: int64
  earliestUndoHeight :: BlockHeight

record WriteBatch =
  wb_txnums :: "batch_op list"
  wb_txhash2txnum :: "batch_op list"
  wb_utxoset :: "batch_op list"
  wb_shunspent :: "batch_op list"
  wb_shist :: "batch_op list"
  wb_blkinfo :: "batch_op list"
  wb_undo :: "batch_op list"
  wb_meta :: "batch_op list"

definition WriteBatch_new :: WriteBatch where
  "WriteBatch_new = \<lparr> wb_txnums = [], wb_txhash2txnum = [], wb_utxoset = [], wb_shunspent = [], wb_shist = [], wb_blkinfo = [],
     wb_undo = [], wb_meta = [] \<rparr>"

datatype store_error = SeHeader storage_error | SeDb db_error

type_synonym ('db, 'a) store_eff = "(store_error, 'a, 'db Store \<times> WriteBatch) eff"

definition InvalidUndoHeight :: BlockHeight where "InvalidUndoHeight = - 1"

definition kDirty :: bytes where "kDirty = c_str ''dirty''"
definition kUtxoCount :: bytes where "kUtxoCount = c_str ''utxo_count''"
definition kTrue :: bytes where "kTrue = [1]"
definition kFalse :: bytes where "kFalse = [0]"

text \<open>\<open>std::map\<close> as a list sorted by key: assignment and \<open>erase\<close>.\<close>

fun smap_set :: "'k::linorder \<Rightarrow> 'v \<Rightarrow> ('k \<times> 'v) list \<Rightarrow> ('k \<times> 'v) list" where
  "smap_set k v [] = [(k, v)]"
| "smap_set k v ((k', v') # m) =
     (if k < k' then (k, v) # (k', v') # m else if k = k' then (k, v) # m else (k', v') # smap_set k v m)"

definition smap_erase :: "'k \<Rightarrow> ('k \<times> 'v) list \<Rightarrow> ('k \<times> 'v) list" where
  "smap_erase k m = filter (\<lambda>e. fst e \<noteq> k) m"

definition setDirty :: "bool \<Rightarrow> WriteBatch \<Rightarrow> WriteBatch" where
  "setDirty dirtyFlag wb = wb\<lparr>wb_meta := wb_meta wb @ [Put kDirty (if dirtyFlag then kTrue else kFalse)]\<rparr>"

definition saveUtxoCt :: "'db Store \<Rightarrow> WriteBatch \<Rightarrow> WriteBatch" where
  "saveUtxoCt st wb = wb\<lparr>wb_meta := wb_meta wb @ [Put kUtxoCount (SerializeScalar False 8 (utxoCt st))]\<rparr>"

definition write_batch :: "'db rocksdb \<Rightarrow> WriteBatch \<Rightarrow> 'db Store \<Rightarrow> 'db Store" where
  "write_batch R wb st =
     st\<lparr>s_txnums := db_Write R (s_txnums st) (wb_txnums wb),
        s_txhash2txnum := db_Write R (s_txhash2txnum st) (wb_txhash2txnum wb),
        s_utxoset := db_Write R (s_utxoset st) (wb_utxoset wb),
        s_shunspent := db_Write R (s_shunspent st) (wb_shunspent wb),
        s_shist := db_Write R (s_shist st) (wb_shist wb),
        s_blkinfo := db_Write R (s_blkinfo st) (wb_blkinfo wb),
        s_undo := db_Write R (s_undo st) (wb_undo wb),
        s_meta := db_Write R (s_meta st) (wb_meta wb)\<rparr>"

section \<open>Adding a block\<close>

text \<open>The transaction hashes go to the array of all transactions, and the counter must agree with it.\<close>

definition append_txnums :: "PreProcessedBlock \<Rightarrow> ('db, unit) store_eff" where
  "append_txnums ppb s =
     (let (st, wb) = s;
          (res, ctx) = efor dra_append (map txi_hash (txInfos ppb)) (beginBatchWrite (txNumsDRA st) (wb_txnums wb));
          st = st\<lparr>txNumsDRA := c_d ctx\<rparr>
      in case res of
           Inl errStr \<Rightarrow> (Inl (SeDb (DbInternalError ''Batch append for txNums failed'')), (st, wb))
         | Inr _ \<Rightarrow>
             let wb = wb\<lparr>wb_txnums := endBatchWrite ctx\<rparr>;
                 st = st\<lparr>txNumNext := txNumNext st + of_nat (length (txInfos ppb))\<rparr>
             in if unat (txNumNext st) \<noteq> nRecs (txNumsDRA st)
                then (Inl (SeDb (DbInternalError ''TxNum file and internal txNumNext counter disagree! FIXME!'')), (st, wb))
                else (Inr (), (st, wb)))"

text \<open>A block of more than 1000 transactions is prepared by a worker and enters the batch at the end, a smaller one right
  away.\<close>

definition insert_index :: "TxNum \<Rightarrow> PreProcessedBlock \<Rightarrow> ('db, unit) store_eff" where
  "insert_index blockTxNum0 ppb s =
     (let (st, wb) = s
      in case insertForBlock (txhash2txnumMgr st) blockTxNum0 (txInfos ppb) of
           Inl e \<Rightarrow> (Inl (SeDb e), (st, wb))
         | Inr (ops, m) \<Rightarrow> (Inr (), (st\<lparr>txhash2txnumMgr := m\<rparr>, wb\<lparr>wb_txhash2txnum := wb_txhash2txnum wb @ ops\<rparr>)))"

text \<open>The loops over the outputs and the inputs work on the UTXO batch, the undo record (if one is wanted), the map of
  script hashes, and the set of script hashes that inputs added to it.\<close>

record BlockWork =
  bw_ub :: UTXOBatch
  bw_undo :: "UndoInfo option"
  bw_ags :: "(bytes \<times> AggregatedOutsIns) list"
  newHashXInputsResolved :: "bytes list"

definition add_output :: "PreProcessedBlock \<Rightarrow> TxNum \<Rightarrow> bytes \<Rightarrow> nat \<Rightarrow> (db_error, unit, BlockWork) eff" where
  "add_output ppb blockTxNum0 hashX oidx w =
     (let out = outputs ppb ! oidx
      in if spentInInputIndex out \<noteq> None then (Inr (), w)
         else
           let txo = TXO (txi_hash (txInfos ppb ! o_txIdx out)) (o_outN out);
               info = \<lparr> ti_amount = o_amount out, ti_hashX = hashX, ti_confirmedHeight = Some (ppb_height ppb),
                        ti_txNum = blockTxNum0 + of_nat (o_txIdx out), ti_tokenDataPtr = o_tokenDataPtr out \<rparr>;
               ctxo = CompactTXO_new (ti_txNum info) (outN txo);
               w = w\<lparr>bw_undo := map_option (\<lambda>u. u\<lparr>u_addUndos := u_addUndos u @ [(txo, ti_hashX info, ctxo)]\<rparr>) (bw_undo w)\<rparr>;
               (res, ub) = utxo_add txo info ctxo (bw_ub w)
           in (res, w\<lparr>bw_ub := ub\<rparr>))"

definition add_outputs :: "PreProcessedBlock \<Rightarrow> TxNum \<Rightarrow> (db_error, unit, BlockWork) eff" where
  "add_outputs ppb blockTxNum0 =
     efor (\<lambda>(hashX, ag). efor (add_output ppb blockTxNum0 hashX) (outs ag)) (hashXAggregated ppb)"

definition mark_spend :: "nat \<Rightarrow> InputPt \<Rightarrow> bytes \<Rightarrow> BlockWork \<Rightarrow> BlockWork" where
  "mark_spend inum inp hashX w =
     w\<lparr>bw_ags := ag_at hashX (ag_add_in inum (i_txIdx inp)) (bw_ags w),
       newHashXInputsResolved := List.insert hashX (newHashXInputsResolved w)\<rparr>"

definition spend_input :: "'db rocksdb \<Rightarrow> 'db \<Rightarrow> BlockHeight \<Rightarrow> nat \<times> InputPt \<Rightarrow> (db_error, unit, BlockWork) eff" where
  "spend_input R db height ii w =
     (let (inum, inp) = ii; txo = TXO (prevoutHash inp) (prevoutN inp)
      in if inum = 0 then (Inr (), w)
         else if parentTxOutIdx inp \<noteq> None then (Inr (), w)
         else
           case utxoGetFromDB R db txo False of
             Inl e \<Rightarrow> (Inl e, w)
           | Inr None \<Rightarrow> (Inl (DbInternalError ''Failed to spend''), w)
           | Inr (Some info) \<Rightarrow>
               let w = (case ti_confirmedHeight info of None \<Rightarrow> w
                        | Some h \<Rightarrow> if h \<noteq> height then mark_spend inum inp (ti_hashX info) w else w);
                   w = w\<lparr>bw_undo := map_option (\<lambda>u. u\<lparr>u_delUndos := u_delUndos u @ [(txo, info)]\<rparr>) (bw_undo w)\<rparr>;
                   (res, ub) = utxo_remove txo (ti_hashX info) (CompactTXO_new (ti_txNum info) (outN txo)) (bw_ub w)
               in (res, w\<lparr>bw_ub := ub\<rparr>))"

text \<open>The re-sorting does not touch \<open>outs\<close>.\<close>

definition ag_resort :: "AggregatedOutsIns \<Rightarrow> AggregatedOutsIns" where
  "ag_resort ag = ag\<lparr>ins := sort (ins ag), txNumsInvolvingHashX := sort_unique (txNumsInvolvingHashX ag)\<rparr>"

definition resort_new :: "BlockWork \<Rightarrow> BlockWork" where
  "resort_new w = w\<lparr>bw_ags := fold (\<lambda>hashX. ag_at hashX ag_resort) (newHashXInputsResolved w) (bw_ags w)\<rparr>"

definition update_utxos ::
  "'db rocksdb \<Rightarrow> PreProcessedBlock \<Rightarrow> TxNum \<Rightarrow> UndoInfo option \<Rightarrow> ('db, UndoInfo option \<times> (bytes \<times> AggregatedOutsIns) list) store_eff" where
  "update_utxos R ppb blockTxNum0 undo s =
     (let (st, wb) = s;
          w = \<lparr> bw_ub = \<lparr> ub_utxoset = wb_utxoset wb, ub_shunspent = wb_shunspent wb, utxoCtr = utxoCt st \<rparr>, bw_undo = undo,
                bw_ags = hashXAggregated ppb, newHashXInputsResolved = [] \<rparr>;
          (res, w) = ebind (add_outputs ppb blockTxNum0)
                       (\<lambda>_. efor (spend_input R (s_utxoset st) (ppb_height ppb)) (enumerate 0 (inputs ppb))) w;
          st = st\<lparr>utxoCt := utxoCtr (bw_ub w)\<rparr>;
          wb = wb\<lparr>wb_utxoset := ub_utxoset (bw_ub w), wb_shunspent := ub_shunspent (bw_ub w)\<rparr>
      in case res of
           Inl e \<Rightarrow> (Inl (SeDb e), (st, wb))
         | Inr _ \<Rightarrow> let w = resort_new w in (Inr (bw_undo w, bw_ags w), (st, wb)))"

definition save_history :: "TxNum \<Rightarrow> (bytes \<times> AggregatedOutsIns) list \<Rightarrow> ('db, unit) store_eff" where
  "save_history blockTxNum0 ags s =
     (let (st, wb) = s
      in (Inr (), (st, wb\<lparr>wb_shist := wb_shist wb @
            map (\<lambda>(hashX, ag). Merge hashX (Serialize_TxNumVec (map (\<lambda>n. n + blockTxNum0) (txNumsInvolvingHashX ag)))) ags\<rparr>)))"

definition add_blkinfo :: "TxNum \<Rightarrow> PreProcessedBlock \<Rightarrow> ('db, BlkInfo) store_eff" where
  "add_blkinfo blockTxNum0 ppb s =
     (let (st, wb) = s; blkInfo = \<lparr> txNum0 = blockTxNum0, nTx = of_nat (length (txInfos ppb)) \<rparr>;
          st = st\<lparr>blkInfos := blkInfos st @ [blkInfo]\<rparr>;
          st = st\<lparr>blkInfosByTxNum := smap_set (txNum0 blkInfo) (length (blkInfos st) - 1) (blkInfosByTxNum st)\<rparr>
      in (Inr blkInfo, (st, wb\<lparr>wb_blkinfo := wb_blkinfo wb @ [Put (height_key (ppb_height ppb)) (BlkInfo_toBytes [] blkInfo)]\<rparr>)))"

definition save_undo :: "PreProcessedBlock \<Rightarrow> bytes \<Rightarrow> BlkInfo \<Rightarrow> UndoInfo option \<Rightarrow> (bytes \<times> AggregatedOutsIns) list \<Rightarrow> ('db, unit) store_eff" where
  "save_undo ppb rawHeader blkInfo undo ags s =
     (let (st, wb) = s
      in case undo of
           None \<Rightarrow> (Inr (), (st, wb))
         | Some u \<Rightarrow>
             (case Serialize_UndoInfo (u\<lparr>u_blkInfo := blkInfo, u_hash := HashRev rawHeader False, u_scriptHashes := map fst ags\<rparr>) of
                Inl e \<Rightarrow> (Inl (SeDb e), (st, wb))
              | Inr ser \<Rightarrow>
                  (Inr (), (if ppb_height ppb < earliestUndoHeight st then st\<lparr>earliestUndoHeight := ppb_height ppb\<rparr> else st,
                            wb\<lparr>wb_undo := wb_undo wb @ [Put (height_key (ppb_height ppb)) ser]\<rparr>))))"

definition expire_undo :: "u32 \<Rightarrow> BlockHeight \<Rightarrow> ('db, unit) store_eff" where
  "expire_undo configuredUndoDepth height s =
     (let (st, wb) = s; expireUndoHeight = sint height - sint configuredUndoDepth
      in if expireUndoHeight \<ge> 0 \<and> of_int expireUndoHeight \<ge> earliestUndoHeight st
         then (Inr (), (st\<lparr>earliestUndoHeight := of_int (expireUndoHeight + 1)\<rparr>,
                        wb\<lparr>wb_undo := wb_undo wb @ [Delete (height_key (of_int expireUndoHeight))]\<rparr>))
         else (Inr (), (st, wb)))"

text \<open>The header is appended to the batch; its state is the one \<open>addBlock_commit\<close> computes once the batch is written, until
  then only the record array and the genesis hash are new.\<close>

definition append_header :: "'db rocksdb \<Rightarrow> bytes \<Rightarrow> BlockHeight \<Rightarrow> HeaderVerifier \<Rightarrow> ('db, 'db header_store) store_eff" where
  "append_header R rawHeader height v s =
     (let (st, wb) = s
      in case addBlock_commit R rawHeader (unat height) v (s_hdr st) of
           (Inl e, hdr) \<Rightarrow> (Inl (SeHeader e), (st, wb))
         | (Inr _, hdr) \<Rightarrow> (Inr hdr, (st\<lparr>s_hdr := (s_hdr st)\<lparr>headersDRA := headersDRA hdr, genesisHash := genesisHash hdr\<rparr>\<rparr>, wb)))"

definition addBlock_tables ::
  "'db rocksdb \<Rightarrow> u32 \<Rightarrow> PreProcessedBlock \<Rightarrow> bool \<Rightarrow> bytes \<Rightarrow> HeaderVerifier \<Rightarrow> TxNum \<Rightarrow> ('db, 'db header_store) store_eff" where
  "addBlock_tables R configuredUndoDepth ppb saveUndo rawHeader v blockTxNum0 =
     ebind (update_utxos R ppb blockTxNum0 (if saveUndo then Some (UndoInfo_default\<lparr>u_height := ppb_height ppb\<rparr>) else None)) (\<lambda>(undo, ags).
     ebind (save_history blockTxNum0 ags) (\<lambda>_.
     ebind (add_blkinfo blockTxNum0 ppb) (\<lambda>blkInfo.
     ebind (save_undo ppb rawHeader blkInfo undo ags) (\<lambda>_.
     ebind (expire_undo configuredUndoDepth (ppb_height ppb)) (\<lambda>_.
       append_header R rawHeader (ppb_height ppb) v)))))"

definition addBlock_body ::
  "'db rocksdb \<Rightarrow> u32 \<Rightarrow> PreProcessedBlock \<Rightarrow> bool \<Rightarrow> bytes \<Rightarrow> HeaderVerifier \<Rightarrow> TxNum \<Rightarrow> ('db, 'db header_store) store_eff" where
  "addBlock_body R configuredUndoDepth ppb saveUndo rawHeader v blockTxNum0 =
     ebind (append_txnums ppb) (\<lambda>_.
     ebind (if length (txInfos ppb) > 1000 then ereturn () else insert_index blockTxNum0 ppb) (\<lambda>_.
     ebind (addBlock_tables R configuredUndoDepth ppb saveUndo rawHeader v blockTxNum0) (\<lambda>hdr.
     ebind (\<lambda>(st, wb). (Inr (), (st, saveUtxoCt st wb))) (\<lambda>_.
     ebind (if length (txInfos ppb) > 1000 then insert_index blockTxNum0 ppb else ereturn ()) (\<lambda>_.
       ereturn hdr)))))"

definition addBlock :: "'db rocksdb \<Rightarrow> u32 \<Rightarrow> PreProcessedBlock \<Rightarrow> bool \<Rightarrow> (store_error, unit, 'db Store) eff" where
  "addBlock R configuredUndoDepth ppb saveUndo st =
     (case verify_object (ppb_header ppb) (headerVerifier (s_hdr st)) of
        Inl e \<Rightarrow> (Inl (SeHeader (StPow e)), st)
      | Inr (Inl errMsg) \<Rightarrow> (Inl (SeHeader (StHeaderVerificationFailure errMsg)), st)
      | Inr (Inr v) \<Rightarrow>
          (case addBlock_body R configuredUndoDepth ppb saveUndo (snd (lastHeaderProcessed v)) v (txNumNext st) (st, setDirty True WriteBatch_new) of
             (Inl e, (st, wb)) \<Rightarrow> (Inl e, st)
           | (Inr hdr, (st, wb)) \<Rightarrow>
               (case db_WriteError R of
                  Some err \<Rightarrow> (Inl (SeDb (DatabaseError (''Batch write fail for block height: '' @ err))), st)
                | None \<Rightarrow> (Inr (), (write_batch R (setDirty False wb) st)\<lparr>s_hdr := hdr\<rparr>))))"

section \<open>Undoing the latest block\<close>

definition undo_history :: "'db rocksdb \<Rightarrow> TxNum \<Rightarrow> bytes \<Rightarrow> ('db, unit) store_eff" where
  "undo_history R txNum0' sh s =
     (let (st, wb) = s
      in case GenericDBGetFailIfMissing R (s_shist st) sh (deser_object Deserialize_TxNumVec) of
           Inl e \<Rightarrow> (Inl (SeDb e), (st, wb))
         | Inr vec \<Rightarrow>
             let newVec = filter (\<lambda>n. n < txNum0') vec;
                 newVec = (if newVec \<noteq> [] then sort_unique newVec else newVec)
             in (Inr (), (st, wb\<lparr>wb_shist := wb_shist wb @ [if newVec \<noteq> [] then Put sh (Serialize_TxNumVec newVec) else Delete sh]\<rparr>)))"

definition undo_utxos :: "UndoInfo \<Rightarrow> ('db, unit) store_eff" where
  "undo_utxos undo s =
     (let (st, wb) = s;
          (res, ub) = ebind (efor (\<lambda>(txo, info). utxo_add txo info (CompactTXO_new (ti_txNum info) (outN txo))) (u_delUndos undo))
                        (\<lambda>_. efor (\<lambda>(txo, hashx, ctxo). utxo_remove txo hashx ctxo) (u_addUndos undo))
                        \<lparr> ub_utxoset = wb_utxoset wb, ub_shunspent = wb_shunspent wb, utxoCtr = utxoCt st \<rparr>;
          st = st\<lparr>utxoCt := utxoCtr ub\<rparr>;
          wb = wb\<lparr>wb_utxoset := ub_utxoset ub, wb_shunspent := ub_shunspent ub\<rparr>
      in case res of Inl e \<Rightarrow> (Inl (SeDb e), (st, wb)) | Inr _ \<Rightarrow> (Inr (), (st, wb)))"

definition undo_blkinfo :: "UndoInfo \<Rightarrow> ('db, unit) store_eff" where
  "undo_blkinfo undo s =
     (let (st, wb) = s
      in (Inr (), (st\<lparr>blkInfos := butlast (blkInfos st), blkInfosByTxNum := smap_erase (txNum0 (u_blkInfo undo)) (blkInfosByTxNum st)\<rparr>,
                   wb\<lparr>wb_blkinfo := wb_blkinfo wb @ [Delete (height_key (u_height undo))]\<rparr>)))"

definition drop_undo :: "UndoInfo \<Rightarrow> ('db, unit) store_eff" where
  "drop_undo undo s =
     (let (st, wb) = s
      in (Inr (), (if earliestUndoHeight st \<ge> u_height undo then st\<lparr>earliestUndoHeight := InvalidUndoHeight\<rparr> else st,
                   wb\<lparr>wb_undo := wb_undo wb @ [Delete (height_key (u_height undo))]\<rparr>)))"

definition truncate_index :: "'db rocksdb \<Rightarrow> TxNum \<Rightarrow> ('db, unit) store_eff" where
  "truncate_index R txNum s =
     (let (st, wb) = s
      in case truncateForUndo R (s_txhash2txnum st) (s_txnums st) (txNumsDRA st) (txhash2txnumMgr st) txNum of
           Inl e \<Rightarrow> (Inl (SeDb e), (st, wb))
         | Inr (ops, m) \<Rightarrow> (Inr (), (st\<lparr>txhash2txnumMgr := m\<rparr>, wb\<lparr>wb_txhash2txnum := wb_txhash2txnum wb @ ops\<rparr>)))"

definition truncate_txnums :: "'db rocksdb \<Rightarrow> TxNum \<Rightarrow> ('db, unit) store_eff" where
  "truncate_txnums R txNum s =
     (let (st, wb) = s; st = st\<lparr>txNumNext := txNum\<rparr>;
          (res, ctx) = dra_truncate R (s_txnums st) (unat txNum) (beginBatchWrite (txNumsDRA st) (wb_txnums wb));
          st = st\<lparr>txNumsDRA := c_d ctx\<rparr>
      in case res of
           Inl err \<Rightarrow> (Inl (SeDb (DbInternalError ''Failed to truncate txNumsFile'')), (st, wb))
         | Inr n \<Rightarrow> if n \<noteq> unat txNum then (Inl (SeDb (DbInternalError ''Failed to truncate txNumsFile'')), (st, wb))
                    else (Inr (), (st, wb\<lparr>wb_txnums := endBatchWrite ctx\<rparr>)))"

definition undo_body :: "'db rocksdb \<Rightarrow> UndoInfo \<Rightarrow> ('db, unit) store_eff" where
  "undo_body R undo =
     ebind (undo_blkinfo undo) (\<lambda>_.
     ebind (efor (undo_history R (txNum0 (u_blkInfo undo))) (u_scriptHashes undo)) (\<lambda>_.
     ebind (undo_utxos undo) (\<lambda>_.
     ebind (drop_undo undo) (\<lambda>_.
     ebind (truncate_index R (txNum0 (u_blkInfo undo))) (\<lambda>_.
     ebind (truncate_txnums R (txNum0 (u_blkInfo undo))) (\<lambda>_.
       (\<lambda>(st, wb). (Inr (), (st, saveUtxoCt st wb)))))))))"

definition undo_sane :: "'db Store \<Rightarrow> int \<Rightarrow> nat \<Rightarrow> bytes \<Rightarrow> UndoInfo \<Rightarrow> bool" where
  "undo_sane st tip prevHeight header undo \<longleftrightarrow>
     undo_isValid undo \<and> u_height undo = of_int tip \<and> u_hash undo = HashRev header False \<and>
     prevHeight + 1 < length (blkInfos st) \<and> blkInfos st \<noteq> [] \<and> last (blkInfos st) = u_blkInfo undo"

definition undoLatestBlock :: "'db rocksdb \<Rightarrow> (store_error, nat, 'db Store) eff" where
  "undoLatestBlock R st =
     (case undo_prevHeader R (s_hdr st) of
        Inl e \<Rightarrow> (Inl (SeHeader e), st)
      | Inr (prevHeight, prevHeader) \<Rightarrow>
          (let (tip, header) = lastHeaderProcessed (headerVerifier (s_hdr st))
           in case GenericDBGet R (s_undo st) (height_key (of_int tip)) True (deser_object Deserialize_UndoInfo) of
                Inl e \<Rightarrow> (Inl (SeDb e), st)
              | Inr None \<Rightarrow> (Inl (SeHeader (StUndoInfoMissing ''Unable to retrieve undo info'')), st)
              | Inr (Some undo) \<Rightarrow>
                  if \<not> undo_sane st tip prevHeight header undo
                  then (Inl (SeDb (DatabaseFormatError ''The undo information failed an internal consistency check.'')), st)
                  else
                    (case undoLatestBlock_headers R (s_hdr st) of
                       (Inl e, hdr) \<Rightarrow> (Inl (SeHeader e), st\<lparr>s_hdr := hdr\<rparr>)
                     | (Inr _, hdr) \<Rightarrow>
                         (case undo_body R undo (st\<lparr>s_hdr := hdr\<lparr>hs_db := hs_db (s_hdr st)\<rparr>\<rparr>, setDirty True WriteBatch_new) of
                            (Inl e, (st, wb)) \<Rightarrow> (Inl e, st)
                          | (Inr _, (st, wb)) \<Rightarrow>
                              (case db_WriteError R of
                                 Some err \<Rightarrow> (Inl (SeDb (DatabaseError (''Batch write fail for undo of block height: '' @ err))), st)
                               | None \<Rightarrow> (Inr prevHeight, (write_batch R (setDirty False wb) st)\<lparr>s_hdr := hdr\<rparr>))))))"

end
