(* ===== verification/Ledger.thy ===== *)
theory Ledger
  imports Utxo_Set Block_Preprocess
begin

text \<open>
  What the database stands for: the ledger that a chain of blocks describes. It is defined on the
  transactions alone, without batches, hash maps or tables: the list of all transaction hashes, the
  unspent outputs, the history of every script hash, and the extent of every block. The theory of
  \<open>addBlock\<close> and \<open>undoLatestBlock\<close> refers to it.
\<close>

section \<open>The effect of one block\<close>

record ledger =
  l_txs :: "bytes list"
  l_utxo :: "TXO \<rightharpoonup> TXOInfo"
  l_hist :: "bytes \<rightharpoonup> TxNum list"
  l_blks :: "BlkInfo list"

definition ledger_empty :: ledger where
  "ledger_empty = \<lparr> l_txs = [], l_utxo = Map.empty, l_hist = Map.empty, l_blks = [] \<rparr>"

text \<open>An output by its position among all outputs of the block: whether it is kept, its outpoint and its entry.\<close>

abbreviation "nouts txs \<equiv> length (all_outs 0 txs)"
abbreviation "nins txs \<equiv> length (all_ins 0 txs)"

definition out_script :: "CTransaction list \<Rightarrow> nat \<Rightarrow> bytes" where
  "out_script txs i = scriptPubKey (snd (snd (all_outs 0 txs ! i)))"

definition spent_inside :: "CTransaction list \<Rightarrow> nat \<Rightarrow> bool" where
  "spent_inside txs i \<longleftrightarrow> (\<exists>j < nins txs. in_parent txs j = Some i)"

definition out_txo :: "CTransaction list \<Rightarrow> nat \<Rightarrow> TXO" where
  "out_txo txs i = (case all_outs 0 txs ! i of (t, n, out) \<Rightarrow> TXO (txid (txs ! t)) n)"

definition out_info :: "BlockHeight \<Rightarrow> TxNum \<Rightarrow> CTransaction list \<Rightarrow> nat \<Rightarrow> TXOInfo" where
  "out_info height n0 txs i =
     (case all_outs 0 txs ! i of (t, n, out) \<Rightarrow>
        \<lparr> ti_amount = nValue out, ti_hashX = HashXFromCScript (scriptPubKey out), ti_confirmedHeight = Some height,
          ti_txNum = n0 + of_nat t, ti_tokenDataPtr = tokenDataPtr out \<rparr>)"

definition kept_outs :: "CTransaction list \<Rightarrow> nat set" where
  "kept_outs txs = {i. i < nouts txs \<and> \<not> IsOpReturn (out_script txs i) \<and> \<not> spent_inside txs i}"

definition created :: "BlockHeight \<Rightarrow> TxNum \<Rightarrow> CTransaction list \<Rightarrow> (TXO \<rightharpoonup> TXOInfo)" where
  "created height n0 txs txo =
     map_of (map (\<lambda>i. (out_txo txs i, out_info height n0 txs i)) (filter (\<lambda>i. i \<in> kept_outs txs) [0..<nouts txs])) txo"

text \<open>The inputs that spend outputs of earlier blocks: all but the coinbase and those with a parent in the block.\<close>

definition outside_ins :: "CTransaction list \<Rightarrow> nat list" where
  "outside_ins txs = filter (\<lambda>j. j \<noteq> 0 \<and> in_parent txs j = None) [0..<nins txs]"

definition in_txo :: "CTransaction list \<Rightarrow> nat \<Rightarrow> TXO" where
  "in_txo txs j = (let i = snd (all_ins 0 txs ! j) in TXO (Hash2ByteArrayRev (op_txid (prevout i))) (op_n (prevout i)))"

definition utxo_after :: "BlockHeight \<Rightarrow> TxNum \<Rightarrow> CTransaction list \<Rightarrow> (TXO \<rightharpoonup> TXOInfo) \<Rightarrow> (TXO \<rightharpoonup> TXOInfo)" where
  "utxo_after height n0 txs U = (U ++ created height n0 txs) |` (- in_txo txs ` set (outside_ins txs))"

text \<open>The transactions (by position) that touch a script hash: they pay to it, or spend an output that did.\<close>

definition outside_event :: "CTransaction list \<Rightarrow> (TXO \<rightharpoonup> TXOInfo) \<Rightarrow> nat \<Rightarrow> (nat \<times> nat \<times> bytes) list" where
  "outside_event txs U j =
     (case U (in_txo txs j) of None \<Rightarrow> [] | Some info \<Rightarrow> [(j, fst (all_ins 0 txs ! j), ti_hashX info)])"

definition outside_events :: "CTransaction list \<Rightarrow> (TXO \<rightharpoonup> TXOInfo) \<Rightarrow> (nat \<times> nat \<times> bytes) list" where
  "outside_events txs U = concat (map (outside_event txs U) (outside_ins txs))"

definition touching :: "CTransaction list \<Rightarrow> (TXO \<rightharpoonup> TXOInfo) \<Rightarrow> bytes \<Rightarrow> nat set" where
  "touching txs U h = touches (all_outs 0 txs) (in_events txs @ outside_events txs U) h"

definition hist_of :: "(bytes \<rightharpoonup> TxNum list) \<Rightarrow> bytes \<Rightarrow> TxNum list" where
  "hist_of H h = (case H h of None \<Rightarrow> [] | Some v \<Rightarrow> v)"

definition new_nums :: "TxNum \<Rightarrow> CTransaction list \<Rightarrow> (TXO \<rightharpoonup> TXOInfo) \<Rightarrow> bytes \<Rightarrow> TxNum list" where
  "new_nums n0 txs U h = map (\<lambda>t. of_nat t + n0) (sorted_list_of_set (touching txs U h))"

definition hist_after :: "TxNum \<Rightarrow> CTransaction list \<Rightarrow> (TXO \<rightharpoonup> TXOInfo) \<Rightarrow> (bytes \<rightharpoonup> TxNum list) \<Rightarrow> (bytes \<rightharpoonup> TxNum list)" where
  "hist_after n0 txs U H h = (if touching txs U h = {} then H h else Some (hist_of H h @ new_nums n0 txs U h))"

definition apply_block :: "CTransaction list \<Rightarrow> ledger \<Rightarrow> ledger" where
  "apply_block txs l =
     (let n0 = of_nat (length (l_txs l)); height = of_nat (length (l_blks l))
      in \<lparr> l_txs = l_txs l @ map txid txs, l_utxo = utxo_after height n0 txs (l_utxo l),
           l_hist = hist_after n0 txs (l_utxo l) (l_hist l),
           l_blks = l_blks l @ [\<lparr> txNum0 = n0, nTx = of_nat (length txs) \<rparr>] \<rparr>)"

definition ledger_of :: "CTransaction list list \<Rightarrow> ledger" where
  "ledger_of chain = fold apply_block chain ledger_empty"

section \<open>Blocks a ledger accepts\<close>

text \<open>What the node guarantees of a block it hands over: distinct new transactions, one input per outpoint, inputs that
  spend unspent outputs, sane amounts and tokens; and the size limits of the database format.\<close>

definition out_fits :: "CTxOut \<Rightarrow> bool" where
  "out_fits out \<longleftrightarrow> sint (nValue out) \<ge> 0 \<and> (\<forall>d. tokenDataPtr out = Some d \<longrightarrow> token_ok token_ctx d)"

definition max_txnums :: nat where "max_txnums = 2 ^ 48 - 1"
definition max_height :: nat where "max_height = 2 ^ 31 - 1"

definition block_fits :: "ledger \<Rightarrow> CTransaction list \<Rightarrow> bool" where
  "block_fits l txs \<longleftrightarrow> txs \<noteq> [] \<and> block_wf txs \<and>
     (\<forall>tx \<in> set txs. length (tx_hash tx) = HashLen \<and> txid tx \<notin> set (l_txs l) \<and> (\<forall>out \<in> set (vout tx). out_fits out)) \<and>
     (\<forall>j \<in> set (outside_ins txs). l_utxo l (in_txo txs j) \<noteq> None) \<and> distinct (map (in_txo txs) (outside_ins txs)) \<and>
     length (l_txs l) + length txs \<le> max_txnums \<and> length (l_blks l) < max_height"

section \<open>Well-formed ledgers\<close>

definition hist_ok :: "nat \<Rightarrow> TxNum list \<Rightarrow> bool" where
  "hist_ok n v \<longleftrightarrow> v \<noteq> [] \<and> sorted v \<and> distinct v \<and> (\<forall>x \<in> set v. unat x < n)"

definition ledger_wf :: "ledger \<Rightarrow> bool" where
  "ledger_wf l \<longleftrightarrow> finite (dom (l_utxo l)) \<and> distinct (l_txs l) \<and> (\<forall>h \<in> set (l_txs l). length h = HashLen) \<and>
     length (l_txs l) \<le> max_txnums \<and> length (l_blks l) \<le> max_height \<and>
     (\<forall>txo info. l_utxo l txo = Some info \<longrightarrow> utxo_entry (l_txs l) txo info \<and>
        (\<exists>h. ti_confirmedHeight info = Some h \<and> unat h < length (l_blks l))) \<and>
     (\<forall>h v. l_hist l h = Some v \<longrightarrow> hist_ok (length (l_txs l)) v) \<and>
     (\<forall>b \<in> set (l_blks l). unat (txNum0 b) < length (l_txs l))"

lemma ledger_empty_wf: "ledger_wf ledger_empty"
  by (simp add: ledger_wf_def ledger_empty_def max_txnums_def max_height_def)

lemma of_nat_txnum: "n \<le> max_txnums \<Longrightarrow> unat (of_nat n :: TxNum) = n"
  unfolding unat_of_nat by (simp add: max_txnums_def)

lemma of_nat_height: "n \<le> max_height \<Longrightarrow> unat (of_nat n :: BlockHeight) = n"
  unfolding unat_of_nat by (simp add: max_height_def)

text \<open>Every position is that of output \<open>n\<close> of transaction \<open>t\<close>.\<close>

lemma out_pos_cases:
  assumes "i < nouts txs"
  obtains t n where "t < length txs" "n < length (vout (txs ! t))" "i = out_pos txs t n" "all_outs 0 txs ! i = (t, of_nat n, vout (txs ! t) ! n)"
proof -
  have "\<exists>t n. t < length txs \<and> n < length (vout (txs ! t)) \<and> i = out_pos txs t n"
    using assms
  proof (induction txs rule: rev_induct)
    case (snoc tx txs)
    show ?case
    proof (cases "i < nouts txs")
      case True
      then obtain t n where "t < length txs" "n < length (vout (txs ! t))" "i = out_pos txs t n" using snoc.IH by blast
      then show ?thesis by (intro exI[of _ t] exI[of _ n]) (simp add: nth_append out_pos_def)
    next
      case False
      then show ?thesis using snoc.prems
        by (intro exI[of _ "length txs"] exI[of _ "i - nouts txs"]) (simp add: all_outs_append out_pos_def)
    qed
  qed simp
  then show ?thesis using out_pos_nth that by metis
qed

lemma ionum_nat: "n < IONumMax + 1 \<Longrightarrow> unat (of_nat n :: IONum) = n"
  unfolding unat_of_nat by (simp add: IONumMax_def)

lemma block_ionums: "block_wf txs \<Longrightarrow> t < length txs \<Longrightarrow> length (vout (txs ! t)) \<le> IONumMax + 1"
  by (simp add: block_wf_def ionums_ok_def)

lemma out_txo_inj:
  assumes "block_wf txs" "i < nouts txs" "i' < nouts txs" "out_txo txs i = out_txo txs i'"
  shows "i = i'"
proof -
  obtain t n where i: "t < length txs" "n < length (vout (txs ! t))" "i = out_pos txs t n" "all_outs 0 txs ! i = (t, of_nat n, vout (txs ! t) ! n)"
    using assms(2) by (rule out_pos_cases)
  obtain t' n' where i': "t' < length txs" "n' < length (vout (txs ! t'))" "i' = out_pos txs t' n'"
      "all_outs 0 txs ! i' = (t', of_nat n', vout (txs ! t') ! n')"
    using assms(3) by (rule out_pos_cases)
  have e: "txid (txs ! t) = txid (txs ! t')" "(of_nat n :: IONum) = of_nat n'" using assms(4) i(4) i'(4) by (simp_all add: out_txo_def)
  have d: "distinct (map txid txs)" using assms(1) by (simp add: block_wf_def)
  have "map txid txs ! t = map txid txs ! t'" using e(1) i(1) i'(1) by simp
  then have "t = t'" using nth_eq_iff_index_eq[OF d] i(1) i'(1) by simp
  moreover have "unat (of_nat n :: IONum) = n" by (rule ionum_nat) (use i(2) block_ionums[OF assms(1) i(1)] in linarith)
  moreover have "unat (of_nat n' :: IONum) = n'" by (rule ionum_nat) (use i'(2) block_ionums[OF assms(1) i'(1)] in linarith)
  ultimately show ?thesis using e(2) i(3) i'(3) by metis
qed

lemma all_ins_tx: "e \<in> set (all_ins k txs) \<Longrightarrow> k \<le> fst e \<and> fst e < k + length txs"
  by (induction txs arbitrary: k) fastforce+

section \<open>What a block adds and removes\<close>

lemma created_iff:
  assumes "block_wf txs"
  shows "created h n0 txs txo = Some info \<longleftrightarrow> (\<exists>i \<in> kept_outs txs. txo = out_txo txs i \<and> info = out_info h n0 txs i)"
proof -
  let ?is = "filter (\<lambda>i. i \<in> kept_outs txs) [0..<nouts txs]"
  have "inj_on (out_txo txs) (set ?is)" using out_txo_inj[OF assms] by (auto simp: inj_on_def)
  then have "distinct (map fst (map (\<lambda>i. (out_txo txs i, out_info h n0 txs i)) ?is))"
    by (simp add: comp_def distinct_map)
  then have "created h n0 txs txo = Some info \<longleftrightarrow> (txo, info) \<in> set (map (\<lambda>i. (out_txo txs i, out_info h n0 txs i)) ?is)"
    unfolding created_def by (rule map_of_eq_Some_iff)
  also have "\<dots> \<longleftrightarrow> (\<exists>i \<in> kept_outs txs. txo = out_txo txs i \<and> info = out_info h n0 txs i)"
    by (auto simp: kept_outs_def)
  finally show ?thesis .
qed

lemma in_txo_outside:
  assumes "block_wf txs" "j \<in> set (outside_ins txs)"
  shows "txHash (in_txo txs j) \<notin> set (map txid txs)"
proof
  assume "txHash (in_txo txs j) \<in> set (map txid txs)"
  then obtain t where t: "t < length txs" "txid (txs ! t) = txHash (in_txo txs j)" by (auto simp: in_set_conv_nth)
  then have "parent_tx txs (snd (all_ins 0 txs ! j)) = Some t"
    using assms(1) by (subst parent_tx_iff) (simp_all add: block_wf_def in_txo_def Let_def)
  then show False using assms(2) by (simp add: outside_ins_def in_parent_def Let_def)
qed

lemma out_txo_hash: "i < nouts txs \<Longrightarrow> txHash (out_txo txs i) \<in> set (map txid txs)"
  by (erule out_pos_cases) (simp add: out_txo_def)

lemma created_outside: "block_wf txs \<Longrightarrow> j \<in> set (outside_ins txs) \<Longrightarrow> created h n0 txs (in_txo txs j) = None"
proof (rule ccontr)
  assume a: "block_wf txs" "j \<in> set (outside_ins txs)" "created h n0 txs (in_txo txs j) \<noteq> None"
  then obtain i where "i \<in> kept_outs txs" "in_txo txs j = out_txo txs i" using created_iff by (metis option.exhaust)
  then show False using in_txo_outside[OF a(1,2)] out_txo_hash[of i txs] by (simp add: kept_outs_def)
qed

lemma touches_bound: "t \<in> touches (all_outs 0 txs) I h \<Longrightarrow> \<forall>(j, k, h') \<in> set I. k < length txs \<Longrightarrow> t < length txs"
proof -
  assume t: "t \<in> touches (all_outs 0 txs) I h" and I: "\<forall>(j, k, h') \<in> set I. k < length txs"
  then consider e where "e \<in> set (all_outs 0 txs)" "t = fst e" | j where "(j, t, h) \<in> set I" by (auto simp: touches_def)
  then show ?thesis
  proof cases
    case 1
    then obtain i where "i < nouts txs" "e = all_outs 0 txs ! i" by (auto simp: in_set_conv_nth)
    then show ?thesis using 1(2) by (auto elim: out_pos_cases)
  next
    case 2
    then show ?thesis using I by auto
  qed
qed

lemma event_txs:
  "\<forall>(j, k, h') \<in> set (in_events txs). k < length txs" "\<forall>(j, k, h') \<in> set (outside_events txs U). k < length txs"
proof -
  have "fst (all_ins 0 txs ! j) < length txs" if "j < nins txs" for j using all_ins_tx[OF nth_mem[OF that]] by simp
  then show "\<forall>(j, k, h') \<in> set (in_events txs). k < length txs" "\<forall>(j, k, h') \<in> set (outside_events txs U). k < length txs"
    by (auto simp: in_events_def events_def in_event_def outside_events_def outside_event_def outside_ins_def Let_def
        split: option.splits if_splits)
qed

lemma touching_bound: "touching txs U h \<subseteq> {..<length txs}"
  unfolding touching_def using touches_bound[of _ txs _ h] event_txs[of txs] by fastforce

lemma touching_finite: "finite (touching txs U h)"
  by (rule finite_subset[OF touching_bound]) simp

lemma new_entry:
  assumes "ledger_wf l" "block_fits l txs" "i \<in> kept_outs txs"
  defines "info \<equiv> out_info (of_nat (length (l_blks l))) (of_nat (length (l_txs l))) txs i"
  shows "utxo_entry (l_txs l @ map txid txs) (out_txo txs i) info \<and> l_utxo l (out_txo txs i) = None"
proof -
  have wf: "block_wf txs" and i: "i < nouts txs" using assms(2,3) by (simp_all add: block_fits_def kept_outs_def)
  obtain t n where tn: "t < length txs" "n < length (vout (txs ! t))" "all_outs 0 txs ! i = (t, of_nat n, vout (txs ! t) ! n)"
    using i by (rule out_pos_cases)
  have n: "unat (of_nat n :: IONum) = n" by (rule ionum_nat) (use tn(2) block_ionums[OF wf tn(1)] in linarith)
  have sz: "length (l_txs l) + length txs \<le> max_txnums" "length (l_blks l) < max_height" using assms(2) by (simp_all add: block_fits_def)
  have tx: "length (tx_hash (txs ! t)) = HashLen" "txid (txs ! t) \<notin> set (l_txs l)" "out_fits (vout (txs ! t) ! n)"
    using assms(2) nth_mem[OF tn(1)] nth_mem[OF tn(2)] by (auto simp: block_fits_def)
  have num: "ti_txNum info = of_nat (length (l_txs l) + t)" by (simp add: info_def out_info_def tn(3))
  have num': "unat (ti_txNum info) = length (l_txs l) + t" unfolding num by (rule of_nat_txnum) (use sz(1) tn(1) in linarith)
  have h: "of_nat (length (l_blks l)) \<noteq> kNoBlockHeight"
  proof
    assume "of_nat (length (l_blks l)) = kNoBlockHeight"
    then have "unat (of_nat (length (l_blks l)) :: BlockHeight) = unat kNoBlockHeight" by simp
    then show False
      using sz(2) by (simp add: of_nat_height kNoBlockHeight_def unsigned_minus_1_eq_mask mask_eq_exp_minus_1) (simp add: max_height_def)
  qed
  have "info_ok info"
    using tx(3) h num' sz(1) tn(1)
    by (auto simp: info_ok_def txoinfo_isValid_def out_fits_def HashXFromCScript_def info_def out_info_def tn(3) max_txnums_def)
  then have "utxo_entry (l_txs l @ map txid txs) (out_txo txs i) info"
    using num' tx(1) n tn block_ionums[OF wf tn(1)]
    by (simp add: utxo_entry_def out_txo_def txo_isValid_def Hash2ByteArrayRev_def nth_append IONumMax_def)
  moreover have "l_utxo l (out_txo txs i) = None"
  proof (rule ccontr)
    assume "l_utxo l (out_txo txs i) \<noteq> None"
    then obtain info' where "utxo_entry (l_txs l) (out_txo txs i) info'" using assms(1) by (auto simp: ledger_wf_def)
    then have "unat (ti_txNum info') < length (l_txs l)" "l_txs l ! unat (ti_txNum info') = txid (txs ! t)"
      by (simp_all add: utxo_entry_def out_txo_def tn(3))
    then show False using tx(2) nth_mem by metis
  qed
  ultimately show ?thesis by blast
qed

section \<open>Well-formedness is kept\<close>

lemma block_after_ledger: "ledger_wf l \<Longrightarrow> block_fits l txs \<Longrightarrow> length (l_txs (apply_block txs l)) \<le> max_txnums"
  by (simp add: apply_block_def block_fits_def Let_def)

lemma nums_of_nat:
  assumes "n0 + length txs \<le> max_txnums" "T \<subseteq> {..<length txs}"
  shows "map (\<lambda>t. of_nat t + of_nat n0 :: TxNum) (sorted_list_of_set T) = map of_nat (map ((+) n0) (sorted_list_of_set T))"
    "\<forall>x \<in> set (map ((+) n0) (sorted_list_of_set T)). n0 \<le> x \<and> x < n0 + length txs"
proof -
  have "finite T" using assms(2) by (rule finite_subset) simp
  then show "\<forall>x \<in> set (map ((+) n0) (sorted_list_of_set T)). n0 \<le> x \<and> x < n0 + length txs" using assms(2) by auto
  show "map (\<lambda>t. of_nat t + of_nat n0 :: TxNum) (sorted_list_of_set T) = map of_nat (map ((+) n0) (sorted_list_of_set T))"
    by (simp add: add.commute)
qed

lemma sorted_map_of_nat:
  assumes "sorted xs" "distinct xs" "\<forall>x \<in> set xs. x \<le> max_txnums"
  shows "sorted (map of_nat xs :: TxNum list)" "distinct (map of_nat xs :: TxNum list)"
proof -
  have m: "(of_nat a :: TxNum) \<le> of_nat b \<longleftrightarrow> a \<le> b" if "a \<in> set xs" "b \<in> set xs" for a b
    using that assms(3) by (simp add: word_le_nat_alt of_nat_txnum)
  have "sorted_wrt (\<lambda>a b. (of_nat a :: TxNum) \<le> of_nat b) xs"
    using assms(1) by (rule sorted_wrt_mono_rel[rotated]) (simp add: m)
  then show "sorted (map of_nat xs :: TxNum list)" by (simp add: sorted_wrt_map)
  have "inj_on (of_nat :: nat \<Rightarrow> TxNum) (set xs)" using m by (intro inj_onI) (metis order_antisym order_refl)
  then show "distinct (map of_nat xs :: TxNum list)" using assms(2) by (simp add: distinct_map)
qed

lemma new_nums_ok:
  assumes "n0 + length txs \<le> max_txnums"
  shows "sorted (new_nums (of_nat n0) txs U h)" "distinct (new_nums (of_nat n0) txs U h)"
    "\<forall>x \<in> set (new_nums (of_nat n0) txs U h). n0 \<le> unat x \<and> unat x < n0 + length txs"
    "new_nums (of_nat n0) txs U h = [] \<longleftrightarrow> touching txs U h = {}"
proof -
  let ?ns = "map ((+) n0) (sorted_list_of_set (touching txs U h))"
  note e = nums_of_nat[OF assms touching_bound, of U h]
  have b: "\<forall>x \<in> set ?ns. x \<le> max_txnums" using e(2) assms by fastforce
  have s: "sorted ?ns" "distinct ?ns" by (simp_all add: sorted_wrt_map distinct_map)
  show "sorted (new_nums (of_nat n0) txs U h)" "distinct (new_nums (of_nat n0) txs U h)"
    unfolding new_nums_def e(1) using sorted_map_of_nat[OF s b] by simp_all
  show "\<forall>x \<in> set (new_nums (of_nat n0) txs U h). n0 \<le> unat x \<and> unat x < n0 + length txs"
  proof
    fix x assume "x \<in> set (new_nums (of_nat n0) txs U h)"
    then obtain n where n: "n \<in> set ?ns" "x = of_nat n" unfolding new_nums_def e(1) set_map[of of_nat] by blast
    then show "n0 \<le> unat x \<and> unat x < n0 + length txs" using e(2) b of_nat_txnum[of n] by metis
  qed
  show "new_nums (of_nat n0) txs U h = [] \<longleftrightarrow> touching txs U h = {}"
    by (simp add: new_nums_def touching_finite)
qed

lemma hist_after_ok:
  assumes "\<forall>h v. H h = Some v \<longrightarrow> hist_ok n0 v" "n0 + length txs \<le> max_txnums" "hist_after (of_nat n0) txs U H h = Some v"
  shows "hist_ok (n0 + length txs) v"
proof (cases "touching txs U h = {}")
  case True
  then have "hist_ok n0 v" using assms(1,3) by (simp add: hist_after_def)
  then show ?thesis by (auto simp: hist_ok_def)
next
  case False
  let ?new = "new_nums (of_nat n0) txs U h"
  note new = new_nums_ok[OF assms(2), of U h]
  have v: "v = hist_of H h @ ?new" using assms(3) False by (simp add: hist_after_def)
  have old: "sorted (hist_of H h)" "distinct (hist_of H h)" "\<forall>x \<in> set (hist_of H h). unat x < n0"
    using assms(1) by (cases "H h"; simp add: hist_of_def hist_ok_def)+
  have "x \<le> y" "x \<noteq> y" if "x \<in> set (hist_of H h)" "y \<in> set ?new" for x y
  proof -
    have "unat x < unat y" using that old(3) new(3) by (meson less_le_trans)
    then show "x \<le> y" "x \<noteq> y" by (auto simp: word_le_nat_alt)
  qed
  then show ?thesis using old new False by (auto simp: hist_ok_def v sorted_append)
qed

lemma utxo_after_entry:
  assumes "ledger_wf l" "block_fits l txs" "l_utxo (apply_block txs l) txo = Some info"
  shows "utxo_entry (l_txs (apply_block txs l)) txo info \<and>
    (\<exists>h. ti_confirmedHeight info = Some h \<and> unat h < length (l_blks (apply_block txs l)))"
proof -
  let ?h = "of_nat (length (l_blks l)) :: BlockHeight" and ?n = "of_nat (length (l_txs l)) :: TxNum"
  have wf: "block_wf txs" using assms(2) by (simp add: block_fits_def)
  consider (new) "created ?h ?n txs txo = Some info" | (old) "l_utxo l txo = Some info"
    using assms(3) by (auto simp: apply_block_def Let_def utxo_after_def restrict_map_def map_add_def split: if_splits option.splits)
  then show ?thesis
  proof cases
    case new
    then obtain i where "i \<in> kept_outs txs" "txo = out_txo txs i" "info = out_info ?h ?n txs i" using created_iff[OF wf] by blast
    then show ?thesis using new_entry[OF assms(1,2)] assms(1)
      by (auto simp: apply_block_def Let_def ledger_wf_def out_info_def of_nat_height split: prod.splits)
  next
    case old
    then obtain h where e: "utxo_entry (l_txs l) txo info" "ti_confirmedHeight info = Some h" "unat h < length (l_blks l)"
      using assms(1) unfolding ledger_wf_def by blast
    then have "utxo_entry (l_txs l @ map txid txs) txo info" by (auto simp: utxo_entry_def nth_append intro: trans_less_add1)
    then show ?thesis using e(2,3) by (simp add: apply_block_def Let_def)
  qed
qed

lemma created_finite: "block_wf txs \<Longrightarrow> finite (dom (created h n0 txs))"
  unfolding created_def dom_map_of_conv_image_fst by simp

lemma apply_block_wf:
  assumes "ledger_wf l" "block_fits l txs"
  shows "ledger_wf (apply_block txs l)"
proof -
  have wf: "block_wf txs" and sz: "length (l_txs l) + length txs \<le> max_txnums" "length (l_blks l) < max_height"
    and tx: "\<forall>tx \<in> set txs. length (tx_hash tx) = HashLen \<and> txid tx \<notin> set (l_txs l)"
    using assms(2) by (auto simp: block_fits_def)
  have "finite (dom (l_utxo (apply_block txs l)))"
    using assms(1) created_finite[OF wf] by (simp add: apply_block_def Let_def utxo_after_def ledger_wf_def)
  moreover have "distinct (l_txs (apply_block txs l))" "\<forall>h \<in> set (l_txs (apply_block txs l)). length h = HashLen"
    using assms(1) tx wf by (auto simp: apply_block_def Let_def ledger_wf_def block_wf_def Hash2ByteArrayRev_def)
  moreover have "hist_ok (length (l_txs (apply_block txs l))) v" if "l_hist (apply_block txs l) h = Some v" for h v
    using that hist_after_ok[OF _ sz(1), of "l_hist l" "l_utxo l" h v] assms(1) by (simp add: apply_block_def Let_def ledger_wf_def)
  moreover have "unat (txNum0 b) < length (l_txs (apply_block txs l))" if "b \<in> set (l_blks (apply_block txs l))" for b
  proof -
    have "txs \<noteq> []" "unat (of_nat (length (l_txs l)) :: TxNum) = length (l_txs l)"
      using assms(2) of_nat_txnum[of "length (l_txs l)"] by (simp_all add: block_fits_def)
    then show ?thesis using that assms(1) by (auto simp: apply_block_def Let_def ledger_wf_def intro: trans_less_add1)
  qed
  ultimately show ?thesis
    using sz utxo_after_entry[OF assms] by (simp add: ledger_wf_def) (simp add: apply_block_def Let_def)
qed

end
