(* ===== verification/Storage_Refinement.thy ===== *)
theory Storage_Refinement
  imports Block_Storage Ledger
begin

text \<open>
  \<open>addBlock\<close> and \<open>undoLatestBlock\<close> implement the ledger: if the database represents the ledger of a chain, then
  after a block has been added it represents the ledger of the longer chain, and after an undo that of the
  shorter one.
\<close>

section \<open>The outputs of a block\<close>

definition out_pairs :: "(bytes \<times> AggregatedOutsIns) list \<Rightarrow> (bytes \<times> nat) list" where
  "out_pairs ags = concat (map (\<lambda>(h, ag). map (Pair h) (outs ag)) ags)"

lemma efor_pairs: "efor (\<lambda>(h, ag). efor (f h) (outs ag)) ags s = efor (\<lambda>(h, i). f h i) (out_pairs ags) s"
proof (induction ags arbitrary: s)
  case (Cons a ags)
  obtain h ag where a: "a = (h, ag)" by (cases a)
  have inner: "efor (\<lambda>(h, i). f h i) (map (Pair h) is) s = efor (f h) is s" for "is" s
    by (induction "is" arbitrary: s) (simp_all add: ebind_def split: prod.splits sum.splits)
  show ?case using Cons by (simp add: a out_pairs_def efor_append inner ebind_def split: prod.splits sum.splits)
qed (simp add: out_pairs_def)

lemma distinct_out_pairs:
  assumes "distinct (map fst ags)" "\<forall>(h, ag) \<in> set ags. outs ag = filter (\<lambda>i. pays_to (L ! i) h) [0..<length L]"
  shows "distinct (map snd (out_pairs ags))"
  using assms
proof (induction ags)
  case (Cons a ags)
  obtain h ag where a: "a = (h, ag)" by (cases a)
  have 1: "outs ag = filter (\<lambda>i. pays_to (L ! i) h) [0..<length L]" using Cons.prems(2) a by simp
  have 2: "\<exists>h' \<in> set (map fst ags). pays_to (L ! i) h'" if "i \<in> set (map snd (out_pairs ags))" for i
  proof -
    from that obtain h' ag' where e: "(h', ag') \<in> set ags" "i \<in> set (outs ag')" by (auto simp: out_pairs_def)
    then have "outs ag' = filter (\<lambda>i. pays_to (L ! i) h') [0..<length L]" using Cons.prems(2) by auto
    then have "pays_to (L ! i) h'" using e(2) by simp
    then show ?thesis using e(1) by force
  qed
  have "set (outs ag) \<inter> set (map snd (out_pairs ags)) = {}"
  proof (rule ccontr)
    assume "set (outs ag) \<inter> set (map snd (out_pairs ags)) \<noteq> {}"
    then obtain i where i: "i \<in> set (outs ag)" "i \<in> set (map snd (out_pairs ags))" by blast
    then obtain h' where "pays_to (L ! i) h" "h' \<in> set (map fst ags)" "pays_to (L ! i) h'" using 1 2[OF i(2)] by auto
    then show False using Cons.prems(1) a by (auto simp: pays_to_def)
  qed
  moreover have "distinct (outs ag)" using 1 by simp
  moreover have "map snd (out_pairs (a # ags)) = outs ag @ map snd (out_pairs ags)" by (simp add: out_pairs_def a comp_def)
  moreover have "distinct (map snd (out_pairs ags))" using Cons by simp
  ultimately show ?case by simp
qed (simp add: out_pairs_def)

lemma summary_ag:
  assumes "summarises txs p" "(h, ag) \<in> set (hashXAggregated p)"
  shows "map_of (hashXAggregated p) h = Some ag" "ag_summary txs h ag"
proof -
  show m: "map_of (hashXAggregated p) h = Some ag" using assms by (simp add: summarises_def)
  have "case map_of (hashXAggregated p) h of None \<Rightarrow> touches (all_outs 0 txs) (in_events txs) h = {}
        | Some ag \<Rightarrow> touches (all_outs 0 txs) (in_events txs) h \<noteq> {} \<and> ag_summary txs h ag"
    using assms(1) by (simp add: summarises_def)
  then show "ag_summary txs h ag" by (simp add: m)
qed

lemma summary_pairs:
  assumes "summarises txs p"
  shows "(h, i) \<in> set (out_pairs (hashXAggregated p)) \<longleftrightarrow> i < nouts txs \<and> pays_to (all_outs 0 txs ! i) h"
    and "distinct (map snd (out_pairs (hashXAggregated p)))"
proof -
  have o1: "\<forall>(h, ag) \<in> set (hashXAggregated p). outs ag = filter (\<lambda>i. pays_to (all_outs 0 txs ! i) h) [0..<nouts txs]"
    using summary_ag[OF assms] by (fastforce simp: ag_summary_def)
  then show "distinct (map snd (out_pairs (hashXAggregated p)))"
    using assms by (intro distinct_out_pairs) (simp_all add: summarises_def)
  show "(h, i) \<in> set (out_pairs (hashXAggregated p)) \<longleftrightarrow> i < nouts txs \<and> pays_to (all_outs 0 txs ! i) h"
  proof
    assume "(h, i) \<in> set (out_pairs (hashXAggregated p))"
    then obtain ag where "(h, ag) \<in> set (hashXAggregated p)" "i \<in> set (outs ag)" by (auto simp: out_pairs_def)
    then show "i < nouts txs \<and> pays_to (all_outs 0 txs ! i) h" using o1 by fastforce
  next
    assume i: "i < nouts txs \<and> pays_to (all_outs 0 txs ! i) h"
    then have t: "fst (all_outs 0 txs ! i) \<in> touches (all_outs 0 txs) (in_events txs) h" unfolding touches_def by (intro UnI1 imageI) simp
    have c: "case map_of (hashXAggregated p) h of None \<Rightarrow> touches (all_outs 0 txs) (in_events txs) h = {}
        | Some ag \<Rightarrow> touches (all_outs 0 txs) (in_events txs) h \<noteq> {} \<and> ag_summary txs h ag"
      using assms by (simp add: summarises_def)
    then obtain ag where "map_of (hashXAggregated p) h = Some ag" using t by (cases "map_of (hashXAggregated p) h") auto
    then have ag: "(h, ag) \<in> set (hashXAggregated p)" by (rule map_of_SomeD)
    then have "i \<in> set (outs ag)" using o1 i by fastforce
    then show "(h, i) \<in> set (out_pairs (hashXAggregated p))" using ag by (force simp: out_pairs_def)
  qed
qed

definition add_undo_of :: "BlockHeight \<Rightarrow> TxNum \<Rightarrow> CTransaction list \<Rightarrow> nat \<Rightarrow> TXO \<times> bytes \<times> CompactTXO" where
  "add_undo_of hgt n0 txs i = (out_txo txs i, ti_hashX (out_info hgt n0 txs i), compact_of (out_txo txs i) (out_info hgt n0 txs i))"

text \<open>One step of the loop over the outputs, on the block's own terms.\<close>

lemma add_output_eq:
  fixes n0 :: TxNum
  assumes "summarises txs p" "i < nouts txs" "pays_to (all_outs 0 txs ! i) h"
  defines "x \<equiv> out_txo txs i" and "info \<equiv> out_info (ppb_height p) n0 txs i"
  shows "add_output p n0 h i w =
    (if spent_inside txs i then (Inr (), w)
     else (let (res, ub) = utxo_add x info (compact_of x info) (bw_ub w)
           in (res, w\<lparr>bw_undo := map_option (\<lambda>u. u\<lparr>u_addUndos := u_addUndos u @ [add_undo_of (ppb_height p) n0 txs i]\<rparr>) (bw_undo w), bw_ub := ub\<rparr>)))"
proof -
  have om: "outs_marked txs (nins txs) (outputs p)" using assms(1) by (simp add: summarises_def)
  then have l: "i < length (outputs p)" using assms(2) by (simp add: outs_marked_def)
  let ?o = "outputs p ! i"
  have o1: "outPt_of (all_outs 0 txs ! i) = ?o\<lparr>spentInInputIndex := None\<rparr>" "spentInInputIndex ?o \<noteq> None \<longleftrightarrow> spent_inside txs i"
    using om l by (simp_all add: outs_marked_def spent_inside_def)
  obtain t n where tn: "t < length txs" "all_outs 0 txs ! i = (t, of_nat n, vout (txs ! t) ! n)" using assms(2) by (rule out_pos_cases)
  have fields: "o_txIdx ?o = t" "o_outN ?o = of_nat n" "o_amount ?o = nValue (vout (txs ! t) ! n)" "o_tokenDataPtr ?o = tokenDataPtr (vout (txs ! t) ! n)"
    using o1(1) tn(2) by (cases ?o; simp add: outPt_of_def)+
  have "txi_hash (txInfos p ! t) = txid (txs ! t)" using assms(1) tn(1) by (simp add: summarises_def info_of_def)
  moreover have "h = HashXFromCScript (scriptPubKey (vout (txs ! t) ! n))" using assms(3) tn(2) by (simp add: pays_to_def)
  ultimately show ?thesis
    using o1(2) fields tn(2)
    by (simp add: add_output_def x_def info_def out_txo_def out_info_def compact_of_def add_undo_of_def Let_def split: prod.splits)
qed

lemma map_add_snoc: "k \<notin> fst ` set es \<Longrightarrow> U ++ map_of (es @ [(k, v)]) = (U ++ map_of es)(k \<mapsto> v)"
proof -
  assume k: "k \<notin> fst ` set es"
  then have n: "map_of es k = None" by (simp add: map_of_eq_None_iff)
  show ?thesis
  proof
    fix x
    show "(U ++ map_of (es @ [(k, v)])) x = ((U ++ map_of es)(k \<mapsto> v)) x"
      using n by (cases "map_of es x") (auto simp: map_add_def)
  qed
qed

text \<open>The outputs of the block that are entered, in the order of the loop.\<close>

definition kept_of :: "CTransaction list \<Rightarrow> (bytes \<times> nat) list \<Rightarrow> nat list" where
  "kept_of txs ps = filter (\<lambda>i. \<not> spent_inside txs i) (map snd ps)"

abbreviation "entries hgt n0 txs is \<equiv> map (\<lambda>i. (out_txo txs i, out_info hgt n0 txs i)) is"

definition with_adds :: "(TXO \<times> bytes \<times> CompactTXO) list \<Rightarrow> UndoInfo option \<Rightarrow> UndoInfo option" where
  "with_adds as undo = map_option (\<lambda>u. u\<lparr>u_addUndos := u_addUndos u @ as\<rparr>) undo"

definition with_dels :: "(TXO \<times> TXOInfo) list \<Rightarrow> UndoInfo option \<Rightarrow> UndoInfo option" where
  "with_dels ds undo = map_option (\<lambda>u. u\<lparr>u_delUndos := u_delUndos u @ ds\<rparr>) undo"

lemma with_nil [simp]: "with_adds [] u = u" "with_dels [] u = u"
  by (cases u; simp add: with_adds_def with_dels_def)+

lemma add_outputs_ok:
  assumes sum: "summarises txs p" and wf: "ledger_wf l" and fits: "block_fits l txs" and hgt: "ppb_height p = of_nat (length (l_blks l))"
    and n0: "n0 = of_nat (length (l_txs l))" and ub: "ub_repr (l_txs l @ map txid txs) mu ms (bw_ub w) (l_utxo l)"
  defines "ps \<equiv> out_pairs (hashXAggregated p)"
  shows "\<exists>ub. add_outputs p n0 w = (Inr (), w\<lparr>bw_ub := ub, bw_undo := with_adds (map (add_undo_of (ppb_height p) n0 txs) (kept_of txs ps)) (bw_undo w)\<rparr>) \<and>
    ub_repr (l_txs l @ map txid txs) mu ms ub (l_utxo l ++ map_of (entries (ppb_height p) n0 txs (kept_of txs ps)))"
proof -
  let ?h = "ppb_height p" and ?r = "l_txs l @ map txid txs"
  let ?inv = "\<lambda>ys w'. \<exists>ub. w' = w\<lparr>bw_ub := ub, bw_undo := with_adds (map (add_undo_of ?h n0 txs) (kept_of txs ys)) (bw_undo w)\<rparr> \<and>
    ub_repr ?r mu ms ub (l_utxo l ++ map_of (entries ?h n0 txs (kept_of txs ys)))"
  have "\<exists>w'. efor (\<lambda>(h, i). add_output p n0 h i) ps w = (Inr (), w') \<and> ?inv ps w'"
  proof (rule efor_inv[where I = ?inv])
    show "?inv [] w" using ub by (auto simp: kept_of_def intro!: exI[of _ "bw_ub w"])
  next
    fix ys y zs w' assume ps: "ps = ys @ y # zs" and inv: "?inv ys w'"
    obtain h i where y: "y = (h, i)" by (cases y)
    have i: "i < nouts txs" "pays_to (all_outs 0 txs ! i) h"
      using summary_pairs(1)[OF sum, of h i] ps y by (auto simp: ps_def)
    have new: "i \<notin> set (map snd ys)" using summary_pairs(2)[OF sum] ps y by (auto simp: ps_def)
    note eq = add_output_eq[OF sum i, of n0 w']
    show "\<exists>s'. (case y of (h, i) \<Rightarrow> add_output p n0 h i) w' = (Inr (), s') \<and> ?inv (ys @ [y]) s'"
    proof (cases "spent_inside txs i")
      case True
      then show ?thesis using inv eq by (auto simp: y kept_of_def)
    next
      case False
      then have kept: "i \<in> kept_outs txs" using i by (simp add: kept_outs_def pays_to_def out_script_def)
      let ?x = "out_txo txs i" and ?info = "out_info ?h n0 txs i" and ?es = "entries ?h n0 txs (kept_of txs ys)"
      from inv obtain ub' where w': "w' = w\<lparr>bw_ub := ub', bw_undo := with_adds (map (add_undo_of ?h n0 txs) (kept_of txs ys)) (bw_undo w)\<rparr>"
        and r: "ub_repr ?r mu ms ub' (l_utxo l ++ map_of ?es)" by blast
      have wfb: "block_wf txs" using fits by (simp add: block_fits_def)
      have all: "\<forall>i' \<in> set (kept_of txs ys). i' < nouts txs"
        using summary_pairs(1)[OF sum] ps by (fastforce simp: ps_def kept_of_def)
      have x: "?x \<notin> fst ` set ?es"
      proof
        assume "?x \<in> fst ` set ?es"
        then obtain i' where i': "i' \<in> set (kept_of txs ys)" "?x = out_txo txs i'" by auto
        then have "i = i'" using out_txo_inj[OF wfb i(1)] all by blast
        then show False using i'(1) new by (auto simp: kept_of_def)
      qed
      have e: "utxo_entry ?r ?x ?info" "l_utxo l ?x = None" using new_entry[OF wf fits kept] by (simp_all add: hgt n0)
      have "(l_utxo l ++ map_of ?es) ?x = None" using e(2) x by (simp add: map_add_None map_of_eq_None_iff)
      from utxo_add_ok[OF r this e(1)] obtain ub2 where ub2: "utxo_add ?x ?info (compact_of ?x ?info) ub' = (Inr (), ub2)"
          "ub_repr ?r mu ms ub2 ((l_utxo l ++ map_of ?es)(?x \<mapsto> ?info))" by blast
      have k: "kept_of txs (ys @ [y]) = kept_of txs ys @ [i]" using False by (simp add: kept_of_def y)
      have "ub_repr ?r mu ms ub2 (l_utxo l ++ map_of (entries ?h n0 txs (kept_of txs (ys @ [y]))))"
        using ub2(2) map_add_snoc[OF x] by (simp add: k)
      moreover have "add_output p n0 h i w' = (Inr (), w\<lparr>bw_ub := ub2, bw_undo := with_adds (map (add_undo_of ?h n0 txs) (kept_of txs (ys @ [y]))) (bw_undo w)\<rparr>)"
        using eq False ub2(1) by (cases "bw_undo w") (simp_all add: w' k with_adds_def)
      ultimately show ?thesis by (auto simp: y)
    qed
  qed
  then show ?thesis unfolding add_outputs_def efor_pairs ps_def by auto
qed

lemma entries_created:
  assumes "block_wf txs" "summarises txs p"
  shows "map_of (entries h n0 txs (kept_of txs (out_pairs (hashXAggregated p)))) = created h n0 txs"
    and "set (kept_of txs (out_pairs (hashXAggregated p))) = kept_outs txs"
    and "distinct (kept_of txs (out_pairs (hashXAggregated p)))"
proof -
  let ?k = "kept_of txs (out_pairs (hashXAggregated p))"
  show s: "set ?k = kept_outs txs"
  proof (intro equalityI subsetI)
    fix i assume "i \<in> set ?k"
    then obtain h where "(h, i) \<in> set (out_pairs (hashXAggregated p))" "\<not> spent_inside txs i" by (auto simp: kept_of_def)
    then show "i \<in> kept_outs txs" using summary_pairs(1)[OF assms(2), of h i] by (simp add: kept_outs_def pays_to_def out_script_def)
  next
    fix i assume "i \<in> kept_outs txs"
    then have "(HashXFromCScript (out_script txs i), i) \<in> set (out_pairs (hashXAggregated p))" "\<not> spent_inside txs i"
      using summary_pairs(1)[OF assms(2)] by (simp_all add: kept_outs_def pays_to_def out_script_def)
    then show "i \<in> set ?k" by (force simp: kept_of_def)
  qed
  show d: "distinct ?k" using summary_pairs(2)[OF assms(2)] by (simp add: kept_of_def)
  have "inj_on (out_txo txs) (set ?k)" using out_txo_inj[OF assms(1)] s by (auto simp: inj_on_def kept_outs_def)
  then have "distinct (map fst (entries h n0 txs ?k))" using d by (simp add: comp_def distinct_map)
  then have "map_of (entries h n0 txs ?k) x = Some i \<longleftrightarrow> created h n0 txs x = Some i" for x i
    unfolding created_iff[OF assms(1)] by (subst map_of_eq_Some_iff) (auto simp: s)
  then show "map_of (entries h n0 txs ?k) = created h n0 txs" by (intro ext) (metis option.exhaust)
qed

section \<open>The inputs of a block\<close>

lemma ag_inv_add_in:
  assumes "ag_inv L I m"
  shows "ag_inv L (I @ [(j, k, h)]) (ag_at h (ag_add_in j k) m)"
proof (rule ag_inv_at[OF assms])
  show "ag_for L (I @ [(j, k, h)]) h (ag_add_in j k ag)" if "ag_for L I h ag" for ag
    using ag_for_snoc_in[OF that, of j k h] by simp
  show "ag_for L (I @ [(j, k, h)]) h' ag" if "h' \<noteq> h" "ag_for L I h' ag" for h' ag
    using ag_for_snoc_in[OF that(2), of j k h] that(1) by simp
qed (simp_all add: touches_snoc_in)

definition outside_upto :: "CTransaction list \<Rightarrow> nat \<Rightarrow> nat list" where
  "outside_upto txs n = filter (\<lambda>j. j \<noteq> 0 \<and> in_parent txs j = None) [0..<n]"

lemma outside_upto_Suc: "outside_upto txs (Suc n) = outside_upto txs n @ (if n \<noteq> 0 \<and> in_parent txs n = None then [n] else [])"
  by (simp add: outside_upto_def)

lemma outside_upto_ins: "n \<le> nins txs \<Longrightarrow> set (outside_upto txs n) \<subseteq> set (outside_ins txs)"
  by (auto simp: outside_upto_def outside_ins_def)

definition del_undo_of :: "CTransaction list \<Rightarrow> (TXO \<rightharpoonup> TXOInfo) \<Rightarrow> nat \<Rightarrow> TXO \<times> TXOInfo" where
  "del_undo_of txs U j = (in_txo txs j, the (U (in_txo txs j)))"

text \<open>The map of script hashes while inputs are resolved: only the marked entries may have lost their order.\<close>

definition ags_inv :: "CTransaction list \<Rightarrow> (nat \<times> nat \<times> bytes) list \<Rightarrow> bytes list \<Rightarrow> (bytes \<times> AggregatedOutsIns) list \<Rightarrow> bool" where
  "ags_inv txs I new ags \<longleftrightarrow> ag_inv (all_outs 0 txs) I ags \<and> distinct new \<and> (\<forall>h \<in> set new. map_of ags h \<noteq> None) \<and>
     (\<forall>h ag. map_of ags h = Some ag \<longrightarrow> h \<notin> set new \<longrightarrow> sorted (txNumsInvolvingHashX ag) \<and> distinct (txNumsInvolvingHashX ag))"

lemma ags_inv_add_in:
  assumes "ags_inv txs I new ags"
  shows "ags_inv txs (I @ [(j, k, h)]) (List.insert h new) (ag_at h (ag_add_in j k) ags)"
  using assms ag_inv_add_in[of "all_outs 0 txs" I ags j k h] by (auto simp: ags_inv_def map_of_ag_at)

lemma summary_ags_inv: "summarises txs p \<Longrightarrow> ags_inv txs (in_events txs) [] (hashXAggregated p)"
proof -
  assume sum: "summarises txs p"
  have ag: "ag_summary txs h ag" if "map_of (hashXAggregated p) h = Some ag" for h ag
    using summary_ag(2)[OF sum map_of_SomeD[OF that]] .
  have "case map_of (hashXAggregated p) h of None \<Rightarrow> touches (all_outs 0 txs) (in_events txs) h = {}
        | Some ag \<Rightarrow> touches (all_outs 0 txs) (in_events txs) h \<noteq> {} \<and> ag_for (all_outs 0 txs) (in_events txs) h ag" for h
  proof -
    have "case map_of (hashXAggregated p) h of None \<Rightarrow> touches (all_outs 0 txs) (in_events txs) h = {}
        | Some ag \<Rightarrow> touches (all_outs 0 txs) (in_events txs) h \<noteq> {} \<and> ag_summary txs h ag"
      using sum by (simp add: summarises_def)
    then show ?thesis by (cases "map_of (hashXAggregated p) h") (simp_all add: ag_summary_def ag_for_def)
  qed
  then have "ag_inv (all_outs 0 txs) (in_events txs) (hashXAggregated p)" using sum by (simp add: ag_inv_def summarises_def)
  then show ?thesis using ag by (simp add: ags_inv_def ag_summary_def)
qed

definition input_inv ::
  "ledger \<Rightarrow> CTransaction list \<Rightarrow> (bytes \<rightharpoonup> bytes) \<Rightarrow> (bytes \<rightharpoonup> bytes) \<Rightarrow> (TXO \<rightharpoonup> TXOInfo) \<Rightarrow> UndoInfo option \<Rightarrow> nat \<Rightarrow> BlockWork \<Rightarrow> bool" where
  "input_inv l txs mu ms U1 undo n w \<longleftrightarrow>
     ub_repr (l_txs l @ map txid txs) mu ms (bw_ub w) (U1 |` (- in_txo txs ` set (outside_upto txs n))) \<and>
     bw_undo w = with_dels (map (del_undo_of txs (l_utxo l)) (outside_upto txs n)) undo \<and>
     ags_inv txs (in_events txs @ concat (map (outside_event txs (l_utxo l)) (outside_upto txs n))) (newHashXInputsResolved w) (bw_ags w)"

lemma input_inv_skip: "input_inv l txs mu ms U1 undo n w \<Longrightarrow> n = 0 \<or> in_parent txs n \<noteq> None \<Longrightarrow> input_inv l txs mu ms U1 undo (Suc n) w"
  by (auto simp: input_inv_def outside_upto_Suc)

lemma outside_fresh:
  assumes "block_fits l txs" "n < nins txs" "n \<noteq> 0" "in_parent txs n = None"
  shows "n \<in> set (outside_ins txs)" "in_txo txs n \<notin> in_txo txs ` set (outside_upto txs n)"
proof -
  show n: "n \<in> set (outside_ins txs)" using assms by (simp add: outside_ins_def)
  have "inj_on (in_txo txs) (set (outside_ins txs))" using assms(1) by (simp add: block_fits_def distinct_map)
  moreover have "n \<notin> set (outside_upto txs n)" by (simp add: outside_upto_def)
  ultimately show "in_txo txs n \<notin> in_txo txs ` set (outside_upto txs n)"
    using n outside_upto_ins[of n txs] assms(2) by (meson inj_on_image_mem_iff less_imp_le)
qed

context rocksdb_laws
begin

lemma spend_outside:
  assumes wf: "ledger_wf l" and fits: "block_fits l txs" and db: "utxo_repr recs (contents db) ms' ct (l_utxo l)"
    and hgt: "hgt = of_nat (length (l_blks l))" and U1: "U1 = l_utxo l ++ created hgt n0 txs"
    and n: "n < nins txs" "n \<noteq> 0" "in_parent txs n = None" and inv: "input_inv l txs mu ms U1 undo n w"
    and inp: "prevoutHash inp = txHash (in_txo txs n)" "prevoutN inp = outN (in_txo txs n)" "parentTxOutIdx inp = None"
      "i_txIdx inp = fst (all_ins 0 txs ! n)"
  shows "\<exists>w'. spend_input R db hgt (n, inp) w = (Inr (), w') \<and> input_inv l txs mu ms U1 undo (Suc n) w'"
proof -
  let ?x = "in_txo txs n" and ?r = "l_txs l @ map txid txs" and ?k = "fst (all_ins 0 txs ! n)"
  have out: "n \<in> set (outside_ins txs)" and fresh: "?x \<notin> in_txo txs ` set (outside_upto txs n)"
    using outside_fresh[OF fits n] by blast+
  obtain info where info: "l_utxo l ?x = Some info" using fits out by (auto simp: block_fits_def)
  obtain h where e: "utxo_entry (l_txs l) ?x info" and h: "ti_confirmedHeight info = Some h" "unat h < length (l_blks l)"
    using wf info unfolding ledger_wf_def by blast
  have get: "utxoGetFromDB R db ?x False = Inr (Some info)"
    using utxoGet_ok[OF db, of ?x] e info by (simp add: utxo_entry_def)
  have "length (l_blks l) \<le> max_height" using fits by (simp add: block_fits_def)
  then have "h \<noteq> hgt" using h(2) by (auto simp: hgt of_nat_height)
  have wfb: "block_wf txs" using fits by (simp add: block_fits_def)
  have "created hgt n0 txs ?x = None" by (rule created_outside[OF wfb out])
  then have U1x: "(U1 |` (- in_txo txs ` set (outside_upto txs n))) ?x = Some info"
    using info fresh by (simp add: U1 map_add_def)
  have ub: "ub_repr ?r mu ms (bw_ub w) (U1 |` (- in_txo txs ` set (outside_upto txs n)))" using inv by (simp add: input_inv_def)
  from utxo_remove_ok[OF ub U1x] obtain ub' where ub': "utxo_remove ?x (ti_hashX info) (compact_of ?x info) (bw_ub w) = (Inr (), ub')"
      "ub_repr ?r mu ms ub' ((U1 |` (- in_txo txs ` set (outside_upto txs n)))(?x := None))" by blast
  let ?w = "(mark_spend n inp (ti_hashX info) w)\<lparr>bw_undo := with_dels [(?x, info)] (bw_undo w), bw_ub := ub'\<rparr>"
  have txo: "TXO (prevoutHash inp) (prevoutN inp) = ?x" using inp by simp
  have sp: "spend_input R db hgt (n, inp) w = (Inr (), ?w)"
    using n(2) inp(3) get h(1) \<open>h \<noteq> hgt\<close> ub'(1)
    by (simp add: spend_input_def txo Let_def compact_of_def with_dels_def mark_spend_def)
  have js: "outside_upto txs (Suc n) = outside_upto txs n @ [n]" using n by (simp add: outside_upto_Suc)
  have "(U1 |` (- in_txo txs ` set (outside_upto txs n)))(?x := None) = U1 |` (- in_txo txs ` set (outside_upto txs (Suc n)))"
    by (auto simp: js fun_eq_iff restrict_map_def)
  moreover have "bw_undo ?w = with_dels (map (del_undo_of txs (l_utxo l)) (outside_upto txs (Suc n))) undo"
    using inv info by (cases undo) (simp_all add: js input_inv_def with_dels_def del_undo_of_def)
  moreover have "ags_inv txs (in_events txs @ concat (map (outside_event txs (l_utxo l)) (outside_upto txs (Suc n))))
      (newHashXInputsResolved ?w) (bw_ags ?w)"
  proof -
    have "ags_inv txs (in_events txs @ concat (map (outside_event txs (l_utxo l)) (outside_upto txs n))) (newHashXInputsResolved w) (bw_ags w)"
      using inv by (simp add: input_inv_def)
    from ags_inv_add_in[OF this, of n ?k "ti_hashX info"] show ?thesis using inp(4) info by (simp add: js mark_spend_def outside_event_def)
  qed
  ultimately have "input_inv l txs mu ms U1 undo (Suc n) ?w" using ub'(2) by (simp add: input_inv_def)
  then show ?thesis using sp by blast
qed

lemma spend_inputs_ok:
  assumes wf: "ledger_wf l" and fits: "block_fits l txs" and db: "utxo_repr recs (contents db) ms' ct (l_utxo l)"
    and hgt: "hgt = of_nat (length (l_blks l))" and U1: "U1 = l_utxo l ++ created hgt n0 txs"
    and sum: "summarises txs p" and inv: "input_inv l txs mu ms U1 undo 0 w"
  shows "\<exists>w'. efor (spend_input R db hgt) (enumerate 0 (inputs p)) w = (Inr (), w') \<and> input_inv l txs mu ms U1 undo (nins txs) w'"
proof -
  let ?xs = "enumerate 0 (inputs p)"
  have ins: "inputs p = map (input_at txs (nins txs)) [0..<nins txs]" using sum by (simp add: summarises_def)
  have "\<exists>w'. efor (spend_input R db hgt) ?xs w = (Inr (), w') \<and> input_inv l txs mu ms U1 undo (length ?xs) w'"
  proof (rule efor_inv[where I = "\<lambda>ys. input_inv l txs mu ms U1 undo (length ys)"])
    show "input_inv l txs mu ms U1 undo (length []) w" using inv by simp
  next
    fix ys y zs w' assume xs: "?xs = ys @ y # zs" and inv': "input_inv l txs mu ms U1 undo (length ys) w'"
    let ?n = "length ys"
    have "length ?xs = nins txs" by (simp add: ins)
    then have n: "?n < nins txs" using xs by simp
    have y: "y = (?n, input_at txs (nins txs) ?n)"
      using arg_cong[OF xs, of "\<lambda>xs. xs ! ?n"] n by (simp add: nth_enumerate_eq ins)
    obtain k i where ki: "all_ins 0 txs ! ?n = (k, i)" by (cases "all_ins 0 txs ! ?n")
    have inp: "prevoutHash (snd y) = txHash (in_txo txs ?n)" "prevoutN (snd y) = outN (in_txo txs ?n)"
        "parentTxOutIdx (snd y) = in_parent txs ?n" "i_txIdx (snd y) = fst (all_ins 0 txs ! ?n)"
      using n by (simp_all add: y input_at_def ki input_pt_def in_txo_def)
    show "\<exists>s'. spend_input R db hgt y w' = (Inr (), s') \<and> input_inv l txs mu ms U1 undo (length (ys @ [y])) s'"
    proof (cases "?n \<noteq> 0 \<and> in_parent txs ?n = None")
      case True
      then show ?thesis using spend_outside[OF wf fits db hgt U1 n _ _ inv' inp(1,2) _ inp(4)] inp(3) y by auto
    next
      case False
      then have "spend_input R db hgt y w' = (Inr (), w')" using inp(3) y by (auto simp: spend_input_def Let_def)
      then show ?thesis using input_inv_skip[OF inv'] False by auto
    qed
  qed
  then show ?thesis by (simp add: ins)
qed

end

section \<open>The script hashes of a block\<close>

definition final_ags :: "CTransaction list \<Rightarrow> (TXO \<rightharpoonup> TXOInfo) \<Rightarrow> (bytes \<times> AggregatedOutsIns) list \<Rightarrow> bool" where
  "final_ags txs U ags \<longleftrightarrow> distinct (map fst ags) \<and> fst ` set ags = {h. touching txs U h \<noteq> {}} \<and>
     (\<forall>(h, ag) \<in> set ags. txNumsInvolvingHashX ag = map of_nat (sorted_list_of_set (touching txs U h)))"

lemma restrict_UNIV [simp]: "m |` UNIV = m"
  by (simp add: restrict_map_def)

lemma map_of_resort:
  "distinct new \<Longrightarrow> \<forall>h \<in> set new. map_of ags h \<noteq> None \<Longrightarrow>
   map_of (fold (\<lambda>h. ag_at h ag_resort) new ags) h = (if h \<in> set new then map_option ag_resort (map_of ags h) else map_of ags h)"
proof (induction new arbitrary: ags)
  case (Cons a new)
  then have "\<forall>h \<in> set new. map_of (ag_at a ag_resort ags) h \<noteq> None" by (simp add: map_of_ag_at)
  then show ?case using Cons by (auto simp: map_of_ag_at)
qed simp

lemma distinct_resort: "distinct (map fst ags) \<Longrightarrow> distinct (map fst (fold (\<lambda>h. ag_at h ag_resort) new ags))"
  by (induction new arbitrary: ags) (simp_all add: distinct_ag_at)

lemma nums_unique:
  assumes "sorted v" "distinct v" "set v = (of_nat :: nat \<Rightarrow> TxNum) ` T" "finite T" "\<forall>t \<in> T. t \<le> max_txnums"
  shows "v = map of_nat (sorted_list_of_set T)"
  using sorted_map_of_nat[of "sorted_list_of_set T"] assms by (intro sorted_distinct_set_unique) auto

lemma resort_ok:
  assumes "ags_inv txs (in_events txs @ outside_events txs U) new ags" "length txs \<le> max_txnums"
  shows "final_ags txs U (fold (\<lambda>h. ag_at h ag_resort) new ags)"
proof -
  let ?I = "in_events txs @ outside_events txs U" and ?ags = "fold (\<lambda>h. ag_at h ag_resort) new ags"
  have ai: "ag_inv (all_outs 0 txs) ?I ags" and new: "distinct new" "\<forall>h \<in> set new. map_of ags h \<noteq> None"
    and srt: "\<And>h ag. map_of ags h = Some ag \<Longrightarrow> h \<notin> set new \<Longrightarrow> sorted (txNumsInvolvingHashX ag) \<and> distinct (txNumsInvolvingHashX ag)"
    using assms(1) by (auto simp: ags_inv_def)
  note m = map_of_resort[OF new]
  have d: "distinct (map fst ?ags)" using ai by (intro distinct_resort) (simp add: ag_inv_def)
  have c: "case map_of ags h of None \<Rightarrow> touching txs U h = {} | Some ag \<Rightarrow> touching txs U h \<noteq> {} \<and> ag_for (all_outs 0 txs) ?I h ag" for h
    using ai unfolding ag_inv_def touching_def by blast
  have t: "touching txs U h \<noteq> {} \<longleftrightarrow> map_of ags h \<noteq> None" for h using c[of h] by (cases "map_of ags h") simp_all
  have nums: "txNumsInvolvingHashX ag = map of_nat (sorted_list_of_set (touching txs U h))" if m1: "map_of ?ags h = Some ag" for h ag
  proof -
    obtain ag0 where ag0: "map_of ags h = Some ag0" "ag = (if h \<in> set new then ag_resort ag0 else ag0)"
      using m1 m[of h] by (cases "map_of ags h") (auto split: if_splits)
    have "set (txNumsInvolvingHashX ag0) = of_nat ` touching txs U h" using c[of h] ag0(1) by (simp add: ag_for_def touching_def)
    then have "set (txNumsInvolvingHashX ag) = of_nat ` touching txs U h" "sorted (txNumsInvolvingHashX ag)" "distinct (txNumsInvolvingHashX ag)"
      using ag0 srt[OF ag0(1)] by (auto simp: ag_resort_def sort_unique_set)
    then show ?thesis using touching_bound[of txs U h] assms(2) by (intro nums_unique) (auto simp: touching_finite)
  qed
  have "fst ` set ?ags = {h. map_of ?ags h \<noteq> None}" by (auto simp: map_of_eq_None_iff)
  also have "\<dots> = {h. touching txs U h \<noteq> {}}" using m t by auto
  finally show ?thesis using d nums by (auto simp: final_ags_def)
qed

context rocksdb_laws
begin

lemma update_utxos_ok:
  assumes wf: "ledger_wf l" and fits: "block_fits l txs" and sum: "summarises txs p"
    and hgt: "ppb_height p = of_nat (length (l_blks l))" and n0: "n0 = of_nat (length (l_txs l))"
    and db: "utxo_repr (l_txs l) (contents (s_utxoset st)) (contents (s_shunspent st)) (utxoCt st) (l_utxo l)"
    and wb: "wb_utxoset wb = []" "wb_shunspent wb = []"
  defines "ks \<equiv> kept_of txs (out_pairs (hashXAggregated p))"
  shows "\<exists>ct o1 o2 ags. update_utxos R p n0 undo (st, wb) =
      (Inr (with_dels (map (del_undo_of txs (l_utxo l)) (outside_ins txs)) (with_adds (map (add_undo_of (ppb_height p) n0 txs) ks) undo), ags),
        (st\<lparr>utxoCt := ct\<rparr>, wb\<lparr>wb_utxoset := o1, wb_shunspent := o2\<rparr>)) \<and> final_ags txs (l_utxo l) ags \<and>
    utxo_repr (l_txs l @ map txid txs) (fold apply_op o1 (contents (s_utxoset st))) (fold apply_op o2 (contents (s_shunspent st))) ct
      (utxo_after (ppb_height p) n0 txs (l_utxo l))"
proof -
  let ?h = "ppb_height p" and ?mu = "contents (s_utxoset st)" and ?ms = "contents (s_shunspent st)" and ?r = "l_txs l @ map txid txs"
  let ?w = "\<lparr> bw_ub = \<lparr> ub_utxoset = [], ub_shunspent = [], utxoCtr = utxoCt st \<rparr>, bw_undo = undo, bw_ags = hashXAggregated p, newHashXInputsResolved = [] \<rparr>"
  let ?U1 = "l_utxo l ++ created ?h n0 txs" and ?u1 = "with_adds (map (add_undo_of ?h n0 txs) ks) undo"
  have wfb: "block_wf txs" and small: "length txs \<le> max_txnums" using fits by (simp_all add: block_fits_def)
  have "ub_repr ?r ?mu ?ms (bw_ub ?w) (l_utxo l)" using utxo_repr_more[OF db] by (simp add: ub_repr_def)
  from add_outputs_ok[OF sum wf fits hgt n0 this] obtain ub where ub: "add_outputs p n0 ?w = (Inr (), ?w\<lparr>bw_ub := ub, bw_undo := ?u1\<rparr>)"
      "ub_repr ?r ?mu ?ms ub ?U1" by (auto simp: ks_def entries_created(1)[OF wfb sum])
  let ?w1 = "?w\<lparr>bw_ub := ub, bw_undo := ?u1\<rparr>"
  have "input_inv l txs ?mu ?ms ?U1 ?u1 0 ?w1"
    using ub(2) summary_ags_inv[OF sum] by (simp add: input_inv_def outside_upto_def)
  from spend_inputs_ok[OF wf fits db hgt refl sum this] obtain w2 where
      w2: "efor (spend_input R (s_utxoset st) ?h) (enumerate 0 (inputs p)) ?w1 = (Inr (), w2)" "input_inv l txs ?mu ?ms ?U1 ?u1 (nins txs) w2" by blast
  have up: "outside_upto txs (nins txs) = outside_ins txs" by (simp add: outside_upto_def outside_ins_def)
  have "final_ags txs (l_utxo l) (bw_ags (resort_new w2))"
    using w2(2) resort_ok[OF _ small] by (simp add: input_inv_def up resort_new_def outside_events_def)
  moreover have "utxo_repr ?r (fold apply_op (ub_utxoset (bw_ub w2)) ?mu) (fold apply_op (ub_shunspent (bw_ub w2)) ?ms) (utxoCtr (bw_ub w2))
      (utxo_after ?h n0 txs (l_utxo l))" using w2(2) by (simp add: input_inv_def up utxo_after_def ub_repr_def)
  moreover have "bw_undo w2 = with_dels (map (del_undo_of txs (l_utxo l)) (outside_ins txs)) ?u1" using w2(2) by (simp add: input_inv_def up)
  ultimately show ?thesis using ub(1) w2(1) by (auto simp: update_utxos_def wb ebind_def resort_new_def Let_def)
qed

end

end
