(* ===== verification/Storage_Blocks.thy ===== *)
theory Storage_Blocks
  imports Storage_Refinement
begin

text \<open>
  The rest of the refinement: the history, block and undo tables, the representation of a chain by the
  whole store, and the theorems about \<open>addBlock\<close> and \<open>undoLatestBlock\<close>.
\<close>

section \<open>The history table\<close>

definition hist_tab :: "(bytes \<rightharpoonup> TxNum list) \<Rightarrow> (bytes \<rightharpoonup> bytes)" where
  "hist_tab H h = map_option Serialize_TxNumVec (H h)"

definition hist_op :: "TxNum \<Rightarrow> bytes \<times> AggregatedOutsIns \<Rightarrow> batch_op" where
  "hist_op n0 = (\<lambda>(h, ag). Merge h (Serialize_TxNumVec (map (\<lambda>n. n + n0) (txNumsInvolvingHashX ag))))"

lemma op_key_hist: "op_key (hist_op n0 e) = Some (fst e)"
  by (cases e) (simp add: hist_op_def)

lemma save_history_table:
  assumes "final_ags txs U ags"
  shows "fold apply_op (map (hist_op n0) ags) (hist_tab H) = hist_tab (hist_after n0 txs U H)"
proof
  fix h
  let ?ops = "map (hist_op n0) ags"
  have keys: "map op_key ?ops = map (Some \<circ> fst) ags" by (simp add: op_key_hist comp_def)
  have pt: "point_ops ?ops" by (auto simp: point_ops_def op_key_hist)
  have d: "distinct (map op_key ?ops)" unfolding keys using assms by (auto simp: final_ags_def distinct_map inj_on_def)
  show "fold apply_op ?ops (hist_tab H) h = hist_tab (hist_after n0 txs U H) h"
  proof (cases "touching txs U h = {}")
    case True
    then have "h \<notin> fst ` set ags" using assms by (simp add: final_ags_def)
    then have "Some h \<notin> op_key ` set ?ops" by (force simp: op_key_hist)
    then show ?thesis using True apply_ops_other[OF pt] by (simp add: hist_tab_def hist_after_def)
  next
    case False
    then have "h \<in> fst ` set ags" using assms by (simp add: final_ags_def)
    then obtain ag where ag: "(h, ag) \<in> set ags" by auto
    then have nums: "txNumsInvolvingHashX ag = map of_nat (sorted_list_of_set (touching txs U h))" using assms by (auto simp: final_ags_def)
    have "hist_op n0 (h, ag) \<in> set ?ops" using ag by simp
    from apply_op_distinct[OF pt d this, of h "hist_tab H"] show ?thesis
      using False
      by (cases "H h") (simp_all add: op_key_hist hist_op_def hist_tab_def hist_after_def hist_of_def new_nums_def nums
          ConcatOperator_Merge_def Serialize_TxNumVec_append comp_def)
  qed
qed

lemma filter_old:
  assumes "hist_ok n0 v \<or> v = []" "n0 + length txs \<le> max_txnums"
  shows "filter (\<lambda>n. n < of_nat n0) (v @ new_nums (of_nat n0) txs U h) = v"
proof -
  have n0: "unat (of_nat n0 :: TxNum) = n0" using assms(2) by (intro of_nat_txnum) simp
  have "\<forall>x \<in> set v. x < of_nat n0" using assms(1) n0 by (auto simp: hist_ok_def word_less_nat_alt)
  moreover have "\<forall>x \<in> set (new_nums (of_nat n0) txs U h). \<not> x < of_nat n0"
    using new_nums_ok(3)[OF assms(2), of U h] n0 by (auto simp: word_less_nat_alt)
  ultimately show ?thesis by (simp add: filter_id_conv filter_empty_conv)
qed

lemma sort_unique_id: "sorted v \<Longrightarrow> distinct v \<Longrightarrow> sort_unique v = v"
  by (simp add: sort_unique_def sorted_sort_id remdups_adj_distinct)

lemma hist_ok_deser: "hist_ok n v \<Longrightarrow> n \<le> max_txnums \<Longrightarrow> Deserialize_TxNumVec (Serialize_TxNumVec v) = Some v"
  by (rule txnumvec_roundtrip) (fastforce simp: hist_ok_def max_txnums_def)

context rocksdb_laws
begin

lemma undo_history_ok:
  assumes H: "\<forall>h v. H h = Some v \<longrightarrow> hist_ok n0 v" and sz: "n0 + length txs \<le> max_txnums"
    and tab: "contents (s_shist st) = hist_tab (hist_after (of_nat n0) txs U H)" and t: "touching txs U sh \<noteq> {}"
  shows "undo_history R (of_nat n0) sh (st, wb) = (Inr (), (st, wb\<lparr>wb_shist := wb_shist wb @ [put_or_delete sh (hist_tab H sh)]\<rparr>))"
proof -
  let ?v = "hist_of H sh @ new_nums (of_nat n0) txs U sh"
  have h: "hist_after (of_nat n0) txs U H sh = Some ?v" using t by (simp add: hist_after_def)
  have old: "hist_ok n0 (hist_of H sh) \<or> hist_of H sh = []" using H by (cases "H sh") (auto simp: hist_of_def)
  have get: "GenericDBGetFailIfMissing R (s_shist st) sh (deser_object Deserialize_TxNumVec) = Inr ?v"
    by (rule FailIfMissing_found[of _ _ "Serialize_TxNumVec ?v"])
      (use hist_ok_deser[OF hist_after_ok[OF H sz h] sz] in \<open>simp_all add: tab hist_tab_def h deser_object_def\<close>)
  have "sort_unique (hist_of H sh) = hist_of H sh"
    using old by (intro sort_unique_id) (auto simp: hist_ok_def)
  moreover have "(if hist_of H sh \<noteq> [] then Put sh (Serialize_TxNumVec (hist_of H sh)) else Delete sh) = put_or_delete sh (hist_tab H sh)"
    using H by (cases "H sh") (auto simp: hist_of_def hist_ok_def put_or_delete_def hist_tab_def)
  ultimately show ?thesis
    using filter_old[OF old sz, of U sh] by (cases "hist_of H sh = []") (simp_all add: undo_history_def get Let_def del: filter_append)
qed

lemma undo_histories_ok:
  assumes H: "\<forall>h v. H h = Some v \<longrightarrow> hist_ok n0 v" and sz: "n0 + length txs \<le> max_txnums"
    and tab: "contents (s_shist st) = hist_tab (hist_after (of_nat n0) txs U H)" and shs: "set shs \<subseteq> {h. touching txs U h \<noteq> {}}"
  shows "efor (undo_history R (of_nat n0)) shs (st, wb) =
    (Inr (), (st, wb\<lparr>wb_shist := wb_shist wb @ map (\<lambda>h. put_or_delete h (hist_tab H h)) shs\<rparr>))"
  using shs
proof (induction shs arbitrary: wb)
  case (Cons sh shs)
  then show ?case using undo_history_ok[OF H sz tab, of sh wb] by (simp add: ebind_Inr)
qed (simp add: ereturn_def)

end

lemma undo_history_table:
  assumes "set shs = {h. touching txs U h \<noteq> {}}"
  shows "fold apply_op (map (\<lambda>h. put_or_delete h (hist_tab H h)) shs) (hist_tab (hist_after n0 txs U H)) = hist_tab H"
  unfolding fun_eq_iff fold_put_or_delete using assms by (auto simp: hist_tab_def hist_after_def)

section \<open>Tables keyed by height\<close>

definition height_row :: "nat \<Rightarrow> 'a \<Rightarrow> bytes" where "height_row i x = height_key (of_nat i)"

definition blk_val :: "nat \<Rightarrow> BlkInfo \<Rightarrow> bytes" where "blk_val i b = BlkInfo_toBytes [] b"

definition raw_val :: "nat \<Rightarrow> bytes \<Rightarrow> bytes" where "raw_val i s = s"

definition blk_map :: "BlkInfo list \<Rightarrow> nat \<rightharpoonup> BlkInfo" where
  "blk_map bs i = (if i < length bs then Some (bs ! i) else None)"

lemma height_key_inj: "i \<le> max_height \<Longrightarrow> j \<le> max_height \<Longrightarrow> height_key (of_nat i) = height_key (of_nat j) \<Longrightarrow> i = j"
  unfolding height_key_def SerializeScalar_def using be_enc_inject[of 4 "of_nat i :: BlockHeight" "of_nat j"]
  by simp (metis of_nat_height)

interpretation blk: db_table "\<lambda>i b. i \<le> max_height" height_row blk_val
  by unfold_locales (auto simp: height_row_def intro: height_key_inj)

interpretation undo_rows: db_table "\<lambda>i b. i \<le> max_height" height_row raw_val
  by unfold_locales (auto simp: height_row_def intro: height_key_inj)

lemma blk_table_add:
  assumes "table_of height_row blk_val (blk_map bs) m" "length bs < max_height"
  shows "table_of height_row blk_val (blk_map (bs @ [b])) (m(height_key (of_nat (length bs)) \<mapsto> BlkInfo_toBytes [] b))"
proof -
  have "blk.rows_ok (blk_map bs)" using assms(2) by (auto simp: blk.rows_ok_def blk_map_def split: if_splits)
  from blk.table_put[OF assms(1) this, of "length bs" b] show ?thesis
    using assms(2) by (simp add: height_row_def blk_val_def)
      (erule back_subst[of "\<lambda>M. table_of _ _ M _"], auto simp: blk_map_def fun_eq_iff nth_append)
qed

lemma blk_table_del:
  assumes "table_of height_row blk_val (blk_map (bs @ [b])) m" "length bs < max_height"
  shows "table_of height_row blk_val (blk_map bs) (m(height_key (of_nat (length bs)) := None))"
proof -
  have "blk.rows_ok (blk_map (bs @ [b]))" using assms(2) by (auto simp: blk.rows_ok_def blk_map_def split: if_splits)
  from blk.table_del[OF assms(1) this, of "length bs" b] show ?thesis
    by (simp add: height_row_def blk_map_def)
      (erule back_subst[of "\<lambda>M. table_of _ _ M _"], auto simp: blk_map_def fun_eq_iff nth_append)
qed

section \<open>Undo records\<close>

definition undo_matches :: "ledger \<Rightarrow> bytes \<Rightarrow> CTransaction list \<Rightarrow> UndoInfo \<Rightarrow> bool" where
  "undo_matches l hdr txs u \<longleftrightarrow>
     u_height u = of_nat (length (l_blks l)) \<and> u_hash u = HashRev hdr False \<and>
     u_blkInfo u = \<lparr> txNum0 = of_nat (length (l_txs l)), nTx = of_nat (length txs) \<rparr> \<and>
     distinct (u_scriptHashes u) \<and> set (u_scriptHashes u) = {h. touching txs (l_utxo l) h \<noteq> {}} \<and>
     (\<exists>ks. distinct ks \<and> set ks = kept_outs txs \<and>
        u_addUndos u = map (add_undo_of (of_nat (length (l_blks l))) (of_nat (length (l_txs l))) txs) ks) \<and>
     u_delUndos u = map (del_undo_of txs (l_utxo l)) (outside_ins txs)"

text \<open>The format limits an undo record to 2 GiB.\<close>

definition undo_small :: "ledger \<Rightarrow> bytes \<Rightarrow> CTransaction list \<Rightarrow> bool" where
  "undo_small l hdr txs \<longleftrightarrow> (\<forall>u s. undo_matches l hdr txs u \<longrightarrow> Serialize_UndoInfo u = Inr s \<longrightarrow> length s < 2 ^ 31)"

lemma touching_hash:
  assumes "ledger_wf l" "touching txs (l_utxo l) h \<noteq> {}"
  shows "length h = HashLen"
proof -
  obtain t where "t \<in> touching txs (l_utxo l) h" using assms(2) by blast
  then consider e where "pays_to e h" | j where "(j, t, h) \<in> set (in_events txs)" | j where "(j, t, h) \<in> set (outside_events txs (l_utxo l))"
    by (auto simp: touching_def touches_def)
  then show ?thesis
  proof cases
    case 3
    then obtain j' where j': "(j, t, h) \<in> set (outside_event txs (l_utxo l) j')" by (auto simp: outside_events_def)
    then obtain info where "l_utxo l (in_txo txs j') = Some info" "h = ti_hashX info"
      by (cases "l_utxo l (in_txo txs j')") (auto simp: outside_event_def)
    then show ?thesis using assms(1) unfolding ledger_wf_def utxo_entry_def info_ok_def txoinfo_isValid_def by blast
  qed (auto simp: pays_to_def HashXFromCScript_def in_events_def events_def in_event_def Let_def split: option.splits if_splits)
qed

lemma compact_valid:
  assumes "unat n < max_txnums"
  shows "ctxo_isValid (CompactTXO_new n k)"
proof -
  have "unat (ucast n :: 48 word) = unat n" using assms by (simp add: unsigned_ucast_eq take_bit_nat_eq_self max_txnums_def)
  then have "(ucast n :: 48 word) \<noteq> 0xffffffffffff" using assms by (auto simp: max_txnums_def)
  then show ?thesis by (simp add: ctxo_isValid_def CompactTXO_new_def CompactTXO_default_def)
qed

lemma undo_matches_ok:
  assumes "ledger_wf l" "block_fits l txs" "undo_matches l hdr txs u"
  shows "undo_ok u"
proof -
  let ?h = "of_nat (length (l_blks l)) :: BlockHeight" and ?n = "of_nat (length (l_txs l)) :: TxNum"
  have sz: "length (l_txs l) + length txs \<le> max_txnums" using assms(2) by (simp add: block_fits_def)
  have add: "add_ok (add_undo_of ?h ?n txs i)" if i: "i \<in> kept_outs txs" for i
  proof -
    have e: "utxo_entry (l_txs l @ map txid txs) (out_txo txs i) (out_info ?h ?n txs i)" using new_entry[OF assms(1,2) i] by blast
    then have "unat (ti_txNum (out_info ?h ?n txs i)) < max_txnums" using sz by (simp add: utxo_entry_def)
    then show ?thesis using e compact_valid by (simp add: add_ok_def add_undo_of_def compact_of_def utxo_entry_def info_ok_def txoinfo_isValid_def)
  qed
  have del: "del_ok (del_undo_of txs (l_utxo l) j)" if j: "j \<in> set (outside_ins txs)" for j
  proof -
    obtain info where i: "l_utxo l (in_txo txs j) = Some info" using assms(2) j by (auto simp: block_fits_def)
    then have "utxo_entry (l_txs l) (in_txo txs j) info" using assms(1) unfolding ledger_wf_def by blast
    then show ?thesis using i by (simp add: del_ok_def del_undo_of_def utxo_entry_def)
  qed
  have "\<forall>sh \<in> set (u_scriptHashes u). length sh = HashLen"
    using assms(3) touching_hash[OF assms(1)] by (auto simp: undo_matches_def)
  then show ?thesis using assms(3) add del by (auto simp: undo_ok_def undo_isValid_def undo_matches_def list_all_iff)
qed

lemma undo_matches_version: "undo_matches l hdr txs (u\<lparr>u_deserVersion := v\<rparr>) = undo_matches l hdr txs u"
  by (simp add: undo_matches_def)

definition undo_row_ok :: "ledger \<Rightarrow> bytes \<Rightarrow> CTransaction list \<Rightarrow> bytes \<Rightarrow> bool" where
  "undo_row_ok l hdr txs s \<longleftrightarrow> (\<exists>u. Deserialize_UndoInfo s = Some u \<and> undo_matches l hdr txs u)"

lemma undo_row_written:
  assumes "ledger_wf l" "block_fits l txs" "undo_small l hdr txs" "undo_matches l hdr txs u"
  shows "\<exists>s. Serialize_UndoInfo u = Inr s \<and> undo_row_ok l hdr txs s"
  using undo_roundtrip[OF undo_matches_ok[OF assms(1,2,4)]] assms(3,4)
  by (auto simp: undo_small_def undo_row_ok_def undo_matches_version)

section \<open>A store that represents a chain\<close>

text \<open>A chain: the raw header and the transactions of each block.\<close>

type_synonym chain = "(bytes \<times> CTransaction list) list"

abbreviation chain_ledger :: "chain \<Rightarrow> ledger" where "chain_ledger c \<equiv> ledger_of (map snd c)"

lemma ledger_of_snoc: "chain_ledger (c @ [b]) = apply_block (snd b) (chain_ledger c)"
  by (simp add: ledger_of_def)

lemma length_l_blks: "length (l_blks (chain_ledger c)) = length c"
  by (induction c rule: rev_induct) (simp_all add: ledger_of_def apply_block_def ledger_empty_def Let_def)

definition chain_fits :: "chain \<Rightarrow> bool" where
  "chain_fits c \<longleftrightarrow> (\<forall>i < length c. block_fits (chain_ledger (take i c)) (snd (c ! i)))"

lemma chain_fits_snoc: "chain_fits (c @ [b]) \<longleftrightarrow> chain_fits c \<and> block_fits (chain_ledger c) (snd b)"
  by (auto simp: chain_fits_def nth_append less_Suc_eq)

lemma chain_fits_wf: "chain_fits c \<Longrightarrow> ledger_wf (chain_ledger c)"
proof (induction c rule: rev_induct)
  case Nil
  then show ?case using ledger_empty_wf by (simp add: ledger_of_def)
next
  case (snoc b c)
  then show ?case unfolding ledger_of_snoc by (intro apply_block_wf) (simp_all add: chain_fits_snoc)
qed

definition undo_repr :: "chain \<Rightarrow> (nat \<rightharpoonup> bytes) \<Rightarrow> (bytes \<rightharpoonup> bytes) \<Rightarrow> bool" where
  "undo_repr c Um m \<longleftrightarrow> table_of height_row raw_val Um m \<and>
     (\<forall>i s. Um i = Some s \<longrightarrow> i < length c \<and> undo_row_ok (chain_ledger (take i c)) (fst (c ! i)) (snd (c ! i)) s)"

definition meta_ok :: "int64 \<Rightarrow> chain \<Rightarrow> (bytes \<rightharpoonup> bytes) \<Rightarrow> bool" where
  "meta_ok ct c m \<longleftrightarrow> (c \<noteq> [] \<longrightarrow> m kDirty = Some kFalse \<and> m kUtxoCount = Some (SerializeScalar False 8 ct))"

definition store_repr :: "('db \<Rightarrow> (bytes \<rightharpoonup> bytes)) \<Rightarrow> 'db Store \<Rightarrow> chain \<Rightarrow> bool" where
  "store_repr contents st c \<longleftrightarrow> (let l = chain_ledger c in
     chain_fits c \<and> store_inv contents (s_hdr st) (map fst c) \<and>
     dra_repr (contents (s_txnums st)) (txNumsDRA st) (l_txs l) \<and> recSz (txNumsDRA st) = HashLen \<and>
     idx_ok (contents (s_txhash2txnum st)) (txhash2txnumMgr st) (l_txs l) \<and>
     utxo_repr (l_txs l) (contents (s_utxoset st)) (contents (s_shunspent st)) (utxoCt st) (l_utxo l) \<and>
     contents (s_shist st) = hist_tab (l_hist l) \<and>
     table_of height_row blk_val (blk_map (l_blks l)) (contents (s_blkinfo st)) \<and>
     (\<exists>Um. undo_repr c Um (contents (s_undo st))) \<and>
     meta_ok (utxoCt st) c (contents (s_meta st)) \<and>
     txNumNext st = of_nat (length (l_txs l)) \<and> blkInfos st = l_blks l \<and>
     blkInfosByTxNum st = zip (map txNum0 (l_blks l)) [0..<length (l_blks l)])"

section \<open>Adding a block, step by step\<close>

lemma append_all_ok:
  "ctx_inv m c rs \<Longrightarrow> \<forall>h \<in> set hs. length h = recSz (c_d c) \<Longrightarrow> length rs + length hs < bucket_limit \<Longrightarrow>
   \<exists>c'. efor dra_append hs c = (Inr (), c') \<and> ctx_inv m c' (rs @ hs) \<and> recSz (c_d c') = recSz (c_d c)"
proof (induction hs arbitrary: c rs)
  case (Cons h hs)
  from append_ok[OF Cons.prems(1), of h] Cons.prems(2,3) obtain c1 where c1: "dra_append h c = (Inr (), c1)"
      "ctx_inv m c1 (rs @ [h])" "recSz (c_d c1) = recSz (c_d c)" by auto
  from Cons.IH[OF c1(2)] Cons.prems(2,3) c1(3) obtain c2 where "efor dra_append hs c1 = (Inr (), c2)" "ctx_inv m c2 (rs @ h # hs)"
      "recSz (c_d c2) = recSz (c_d c)" by auto
  then show ?case using c1(1) by (simp add: ebind_Inr)
qed (simp add: ereturn_def)

lemma summary_hashes: "summarises txs p \<Longrightarrow> map txi_hash (txInfos p) = map txid txs"
  by (auto simp: summarises_def info_of_def intro!: nth_equalityI)

lemma summary_infos: "summarises txs p \<Longrightarrow> length (txInfos p) = length txs"
  by (simp add: summarises_def)

lemma limits: "max_txnums < txnum_limit" "max_txnums < bucket_limit"
  by (simp_all add: max_txnums_def txnum_limit_def bucket_limit_def)

lemma append_txnums_ok:
  assumes "summarises txs p" "block_fits l txs" "dra_repr (contents (s_txnums st)) (txNumsDRA st) (l_txs l)" "recSz (txNumsDRA st) = HashLen"
    "txNumNext st = of_nat (length (l_txs l))" "wb_txnums wb = []"
  shows "\<exists>d ops. append_txnums p (st, wb) = (Inr (), (st\<lparr>txNumsDRA := d, txNumNext := of_nat (length (l_txs l @ map txid txs))\<rparr>, wb\<lparr>wb_txnums := ops\<rparr>)) \<and>
    dra_repr (fold apply_op ops (contents (s_txnums st))) d (l_txs l @ map txid txs) \<and> recSz d = HashLen"
proof -
  let ?hs = "map txi_hash (txInfos p)" and ?c = "beginBatchWrite (txNumsDRA st) (wb_txnums wb)"
  have sz: "length (l_txs l) + length txs \<le> max_txnums" using assms(2) by (simp add: block_fits_def)
  have hs: "?hs = map txid txs" by (rule summary_hashes[OF assms(1)])
  have "\<forall>h \<in> set ?hs. length h = recSz (c_d ?c)" unfolding hs using assms(2,4) by (auto simp: block_fits_def beginBatchWrite_def Hash2ByteArrayRev_def)
  moreover have "ctx_inv (contents (s_txnums st)) ?c (l_txs l)" using assms(3,6) by (intro begin_inv) simp
  moreover have "length (l_txs l) + length ?hs < bucket_limit" using sz limits(2) hs by simp
  ultimately obtain c' where c': "efor dra_append ?hs ?c = (Inr (), c')" "ctx_inv (contents (s_txnums st)) c' (l_txs l @ ?hs)" "recSz (c_d c') = HashLen"
    using append_all_ok[of "contents (s_txnums st)" ?c "l_txs l" ?hs] assms(4) by (auto simp: beginBatchWrite_def)
  have r: "dra_repr (fold apply_op (endBatchWrite c') (contents (s_txnums st))) (c_d c') (l_txs l @ map txid txs)" using end_repr[OF c'(2)] hs by simp
  then have nr: "nRecs (c_d c') = length (l_txs l) + length txs" by (simp add: dra_repr_def dra_wf_def)
  have num: "txNumNext st + of_nat (length (txInfos p)) = of_nat (length (l_txs l) + length txs)"
    by (simp add: assms(5) summary_infos[OF assms(1)])
  have un: "unat (txNumNext st + of_nat (length (txInfos p))) = nRecs (c_d c')" unfolding num nr by (rule of_nat_txnum[OF sz])
  have "append_txnums p (st, wb) =
      (Inr (), (st\<lparr>txNumsDRA := c_d c', txNumNext := of_nat (length (l_txs l) + length txs)\<rparr>, wb\<lparr>wb_txnums := endBatchWrite c'\<rparr>))"
    using c'(1) un by (simp add: append_txnums_def num Let_def)
  then show ?thesis using r c'(3) by auto
qed

lemma insert_index_ok:
  assumes "summarises txs p" "block_fits l txs" "idx_ok m0 (txhash2txnumMgr st) (l_txs l)" "wb_txhash2txnum wb = []"
  shows "\<exists>m ops. insert_index (of_nat (length (l_txs l))) p (st, wb) = (Inr (), (st\<lparr>txhash2txnumMgr := m\<rparr>, wb\<lparr>wb_txhash2txnum := ops\<rparr>)) \<and>
    idx_ok (fold apply_op ops m0) m (l_txs l @ map txid txs)"
proof -
  have "list_all (\<lambda>h. length h = HashLen) (map txi_hash (txInfos p))"
    unfolding summary_hashes[OF assms(1)] using assms(2) by (auto simp: list_all_iff block_fits_def Hash2ByteArrayRev_def)
  then have "list_all (\<lambda>i. length (txi_hash i) = HashLen) (txInfos p)" by (simp add: list_all_iff)
  moreover have "length (l_txs l) + length (txInfos p) < txnum_limit"
    using assms(2) limits(1) summary_infos[OF assms(1)] by (simp add: block_fits_def)
  ultimately show ?thesis
    using insertForBlock_ok[OF assms(3)] summary_hashes[OF assms(1)] assms(4) by (fastforce simp: insert_index_def)
qed

lemma smap_set_last: "\<forall>e \<in> set m. fst e < k \<Longrightarrow> smap_set k v m = m @ [(k, v)]"
  by (induction k v m rule: smap_set.induct) auto

lemma smap_erase_last: "\<forall>e \<in> set m. fst e \<noteq> k \<Longrightarrow> smap_erase k (m @ [(k, v)]) = m"
  by (simp add: smap_erase_def filter_id_conv)

lemma table_del_height:
  assumes "table_of height_row raw_val Um m" "\<forall>i s. Um i = Some s \<longrightarrow> i \<le> max_height" "e \<le> max_height"
  shows "table_of height_row raw_val (Um(e := None)) (m(height_key (of_nat e) := None))"
proof (cases "Um e")
  case None
  have "m (height_row e ([] :: bytes)) = None"
    using undo_rows.table_absent[OF assms(1) _ None, of "[]"] assms(2,3) by (simp add: undo_rows.rows_ok_def)
  then have "m(height_key (of_nat e) := None) = m" "Um(e := None) = Um" using None by (auto simp: height_row_def)
  then show ?thesis using assms(1) by simp
next
  case (Some s)
  then show ?thesis using undo_rows.table_del[OF assms(1), of e s] assms(2) by (simp add: undo_rows.rows_ok_def height_row_def)
qed

lemma table_put_height:
  assumes "table_of height_row raw_val Um m" "\<forall>i s. Um i = Some s \<longrightarrow> i \<le> max_height" "e \<le> max_height"
  shows "table_of height_row raw_val (Um(e \<mapsto> s)) (m(height_key (of_nat e) \<mapsto> s))"
  using undo_rows.table_put[OF assms(1), of e s] assms(2,3) by (simp add: undo_rows.rows_ok_def height_row_def raw_val_def)

lemma undo_repr_snoc: "undo_repr c Um m \<Longrightarrow> undo_repr (c @ [b]) Um m"
  by (fastforce simp: undo_repr_def nth_append)

lemma undo_repr_new:
  assumes "undo_repr c Um m" "undo_row_ok (chain_ledger c) (fst b) (snd b) s" "length c < max_height"
  shows "undo_repr (c @ [b]) (Um(length c \<mapsto> s)) (m(height_key (of_nat (length c)) \<mapsto> s))"
proof -
  have "\<forall>i s. Um i = Some s \<longrightarrow> i \<le> max_height" using assms(1,3) by (fastforce simp: undo_repr_def)
  then have "table_of height_row raw_val (Um(length c \<mapsto> s)) (m(height_key (of_nat (length c)) \<mapsto> s))"
    using assms(1,3) by (intro table_put_height) (simp_all add: undo_repr_def)
  then show ?thesis using assms(2) undo_repr_snoc[OF assms(1), of b] by (auto simp: undo_repr_def nth_append split: if_splits)
qed

lemma undo_repr_del:
  assumes "undo_repr c Um m" "length c \<le> max_height" "e \<le> max_height"
  shows "undo_repr c (Um(e := None)) (m(height_key (of_nat e) := None))"
proof -
  have "\<forall>i s. Um i = Some s \<longrightarrow> i \<le> max_height" using assms(1,2) by (fastforce simp: undo_repr_def)
  then show ?thesis using assms(1) table_del_height[OF _ _ assms(3)] by (auto simp: undo_repr_def split: if_splits)
qed

lemma expire_ok:
  assumes "undo_repr c Um m" "0 < sint depth" "length c \<le> max_height" "unat h < length c"
  shows "\<exists>eu ops Um'. expire_undo depth h (st, wb) = (Inr (), (st\<lparr>earliestUndoHeight := eu\<rparr>, wb\<lparr>wb_undo := wb_undo wb @ ops\<rparr>)) \<and>
    undo_repr c Um' (fold apply_op ops m) \<and>
    (\<forall>j \<le> max_height. int (unat h) < int j + sint depth \<longrightarrow> fold apply_op ops m (height_key (of_nat j)) = m (height_key (of_nat j)))"
proof -
  let ?e = "sint h - sint depth"
  have sh: "sint h = int (unat h)"
    using sint_height(1)[of "unat h"] assms(3,4) by (simp add: max_height_def)
  show ?thesis
  proof (cases "?e \<ge> 0 \<and> of_int ?e \<ge> earliestUndoHeight st")
    case True
    then have e: "?e = int (nat ?e)" by simp
    then have "nat ?e < unat h" using sh assms(2) by linarith
    then have e': "nat ?e \<le> max_height" using assms(3,4) by linarith
    have k: "(of_int ?e :: BlockHeight) = of_nat (nat ?e)" by (subst e) simp
    have "undo_repr c (Um(nat ?e := None)) (fold apply_op [Delete (height_key (of_int ?e))] m)"
      using undo_repr_del[OF assms(1,3) e'] unfolding k by simp
    moreover have "expire_undo depth h (st, wb) =
        (Inr (), (st\<lparr>earliestUndoHeight := of_int (?e + 1)\<rparr>, wb\<lparr>wb_undo := wb_undo wb @ [Delete (height_key (of_int ?e))]\<rparr>))"
      using True by (simp add: expire_undo_def Let_def)
    moreover have "fold apply_op [Delete (height_key (of_int ?e))] m (height_key (of_nat j)) = m (height_key (of_nat j))"
      if j: "j \<le> max_height" "int (unat h) < int j + sint depth" for j
    proof -
      have "j \<noteq> nat ?e" using j(2) e sh by linarith
      then have "height_key (of_nat j) \<noteq> height_key (of_nat (nat ?e))" using height_key_inj[OF j(1) e'] by blast
      then show ?thesis unfolding k by simp
    qed
    ultimately show ?thesis by blast
  next
    case False
    then have "expire_undo depth h (st, wb) = (Inr (), (st, wb))" by (auto simp: expire_undo_def Let_def)
    moreover have "st = st\<lparr>earliestUndoHeight := earliestUndoHeight st\<rparr>" "wb = wb\<lparr>wb_undo := wb_undo wb @ []\<rparr>" by simp_all
    moreover have "undo_repr c Um (fold apply_op [] m)" "\<forall>j. fold apply_op [] m (height_key (of_nat j)) = m (height_key (of_nat j))" using assms(1) by simp_all
    ultimately show ?thesis by metis
  qed
qed

text \<open>Which undo records a new block keeps: its own, if one is wanted, and those within the configured depth.\<close>

definition rows_kept :: "u32 \<Rightarrow> chain \<Rightarrow> bool \<Rightarrow> (bytes \<rightharpoonup> bytes) \<Rightarrow> (bytes \<rightharpoonup> bytes) \<Rightarrow> bool" where
  "rows_kept depth c saveUndo m m' \<longleftrightarrow> (saveUndo \<longrightarrow> m' (height_key (of_nat (length c))) \<noteq> None) \<and>
     (\<forall>j < length c. int (length c) < int j + sint depth \<longrightarrow> m' (height_key (of_nat j)) = m (height_key (of_nat j)))"

definition final_undo :: "PreProcessedBlock \<Rightarrow> bytes \<Rightarrow> CTransaction list \<Rightarrow> ledger \<Rightarrow> (bytes \<times> AggregatedOutsIns) list \<Rightarrow> nat list \<Rightarrow> UndoInfo" where
  "final_undo p raw txs l ags ks = UndoInfo_default\<lparr>u_height := ppb_height p,
     u_addUndos := map (add_undo_of (ppb_height p) (of_nat (length (l_txs l))) txs) ks,
     u_delUndos := map (del_undo_of txs (l_utxo l)) (outside_ins txs),
     u_blkInfo := \<lparr> txNum0 = of_nat (length (l_txs l)), nTx = of_nat (length txs) \<rparr>, u_hash := HashRev raw False, u_scriptHashes := map fst ags\<rparr>"

lemma final_undo_matches:
  assumes "block_wf txs" "summarises txs p" "final_ags txs (l_utxo l) ags" "ppb_height p = of_nat (length (l_blks l))"
  shows "undo_matches l raw txs (final_undo p raw txs l ags (kept_of txs (out_pairs (hashXAggregated p))))"
  using assms entries_created(2,3)[OF assms(1,2)]
  by (auto simp: undo_matches_def final_undo_def final_ags_def)

lemma save_undo_ok:
  assumes wf: "ledger_wf (chain_ledger c)" and fits: "block_fits (chain_ledger c) txs" and sum: "summarises txs p"
    and ags: "final_ags txs (l_utxo (chain_ledger c)) ags" and h: "ppb_height p = of_nat (length c)"
    and small: "saveUndo \<Longrightarrow> undo_small (chain_ledger c) raw txs" and um: "undo_repr c Um m"
  defines "l \<equiv> chain_ledger c" and "ks \<equiv> kept_of txs (out_pairs (hashXAggregated p))"
  defines "undo \<equiv> with_dels (map (del_undo_of txs (l_utxo l)) (outside_ins txs))
      (with_adds (map (add_undo_of (ppb_height p) (of_nat (length (l_txs l))) txs) ks)
        (if saveUndo then Some (UndoInfo_default\<lparr>u_height := ppb_height p\<rparr>) else None))"
  shows "\<exists>eu ops Um'. save_undo p raw \<lparr> txNum0 = of_nat (length (l_txs l)), nTx = of_nat (length txs) \<rparr> undo ags (st, wb) =
      (Inr (), (st\<lparr>earliestUndoHeight := eu\<rparr>, wb\<lparr>wb_undo := wb_undo wb @ ops\<rparr>)) \<and>
    undo_repr (c @ [(raw, txs)]) Um' (fold apply_op ops m) \<and> (saveUndo \<longrightarrow> fold apply_op ops m (height_key (of_nat (length c))) \<noteq> None) \<and>
    (\<forall>j < length c. fold apply_op ops m (height_key (of_nat j)) = m (height_key (of_nat j)))"
proof (cases saveUndo)
  case False
  then have "save_undo p raw b undo ags (st, wb) = (Inr (), (st, wb))" for b
    by (simp add: save_undo_def undo_def with_dels_def with_adds_def)
  moreover have "st = st\<lparr>earliestUndoHeight := earliestUndoHeight st\<rparr>" "wb = wb\<lparr>wb_undo := wb_undo wb @ []\<rparr>" by simp_all
  moreover have "undo_repr (c @ [(raw, txs)]) Um (fold apply_op [] m)" "\<forall>j. fold apply_op [] m (height_key (of_nat j)) = m (height_key (of_nat j))"
    using undo_repr_snoc[OF um] by simp_all
  ultimately show ?thesis using False by metis
next
  case True
  have wfb: "block_wf txs" and len: "length c < max_height" using fits by (simp_all add: block_fits_def length_l_blks)
  have "undo_matches l raw txs (final_undo p raw txs l ags ks)"
    unfolding ks_def by (rule final_undo_matches[OF wfb sum]) (simp_all add: l_def ags h length_l_blks)
  then obtain s where s: "Serialize_UndoInfo (final_undo p raw txs l ags ks) = Inr s" "undo_row_ok l raw txs s"
    using undo_row_written[OF wf fits small[OF True]] unfolding l_def by blast
  let ?eu = "if ppb_height p < earliestUndoHeight st then ppb_height p else earliestUndoHeight st"
  have "save_undo p raw \<lparr> txNum0 = of_nat (length (l_txs l)), nTx = of_nat (length txs) \<rparr> undo ags (st, wb) =
      (Inr (), (st\<lparr>earliestUndoHeight := ?eu\<rparr>, wb\<lparr>wb_undo := wb_undo wb @ [Put (height_key (ppb_height p)) s]\<rparr>))"
    using s(1) True by (simp add: save_undo_def undo_def with_dels_def with_adds_def final_undo_def UndoInfo_default_def)
  moreover have "undo_repr (c @ [(raw, txs)]) (Um(length c \<mapsto> s)) (fold apply_op [Put (height_key (ppb_height p)) s] m)"
    using undo_repr_new[OF um _ len, of "(raw, txs)" s] s(2) by (simp add: h l_def)
  moreover have "height_key (of_nat j) \<noteq> height_key (of_nat (length c))" if "j < length c" for j
    using height_key_inj[of j "length c"] that len by auto
  then have "\<forall>j < length c. fold apply_op [Put (height_key (ppb_height p)) s] m (height_key (of_nat j)) = m (height_key (of_nat j))"
      "fold apply_op [Put (height_key (ppb_height p)) s] m (height_key (of_nat (length c))) \<noteq> None" by (simp_all add: h)
  ultimately show ?thesis by blast
qed

lemma blk_txnums_step:
  assumes "ledger_wf (chain_ledger c)" "block_fits (chain_ledger c) txs"
  shows "\<forall>e \<in> set (zip (map txNum0 (l_blks (chain_ledger c))) [0..<length c]). fst e < of_nat (length (l_txs (chain_ledger c)))"
proof
  fix e assume "e \<in> set (zip (map txNum0 (l_blks (chain_ledger c))) [0..<length c])"
  then have "fst e \<in> set (map txNum0 (l_blks (chain_ledger c)))" by (metis prod.collapse set_zip_leftD)
  then obtain b where "b \<in> set (l_blks (chain_ledger c))" "fst e = txNum0 b" by auto
  moreover have "unat (of_nat (length (l_txs (chain_ledger c))) :: TxNum) = length (l_txs (chain_ledger c))"
    using assms(2) by (intro of_nat_txnum) (simp add: block_fits_def)
  ultimately show "fst e < of_nat (length (l_txs (chain_ledger c)))" using assms(1) by (simp add: word_less_nat_alt ledger_wf_def)
qed

context rocksdb_laws
begin

lemma tables_ok:
  assumes wf: "ledger_wf (chain_ledger c)" and fits: "block_fits (chain_ledger c) txs" and sum: "summarises txs p"
    and h: "ppb_height p = of_nat (length c)" and small: "saveUndo \<Longrightarrow> undo_small (chain_ledger c) raw txs" and depth: "0 < sint depth"
    and commit: "addBlock_commit R raw (length c) v (s_hdr st) = (Inr (), hdr)"
    and utxo: "utxo_repr (l_txs (chain_ledger c)) (contents (s_utxoset st)) (contents (s_shunspent st)) (utxoCt st) (l_utxo (chain_ledger c))"
    and um: "undo_repr c Um (contents (s_undo st))" and bi: "blkInfos st = l_blks (chain_ledger c)"
    and bt: "blkInfosByTxNum st = zip (map txNum0 (l_blks (chain_ledger c))) [0..<length c]"
    and wb: "wb_utxoset wb = []" "wb_shunspent wb = []" "wb_shist wb = []" "wb_blkinfo wb = []" "wb_undo wb = []"
  defines "l \<equiv> chain_ledger c" and "l' \<equiv> chain_ledger (c @ [(raw, txs)])"
  shows "\<exists>ct eu hd o1 o2 ags o5 Um'. addBlock_tables R depth p saveUndo raw v (of_nat (length (l_txs l))) (st, wb) =
      (Inr hdr, (st\<lparr>utxoCt := ct, blkInfos := l_blks l', blkInfosByTxNum := zip (map txNum0 (l_blks l')) [0..<Suc (length c)],
                    earliestUndoHeight := eu, s_hdr := hd\<rparr>,
                 wb\<lparr>wb_utxoset := o1, wb_shunspent := o2, wb_shist := map (hist_op (of_nat (length (l_txs l)))) ags,
                    wb_blkinfo := [Put (height_key (of_nat (length c))) (BlkInfo_toBytes [] (last (l_blks l')))], wb_undo := o5\<rparr>)) \<and>
    utxo_repr (l_txs l') (fold apply_op o1 (contents (s_utxoset st))) (fold apply_op o2 (contents (s_shunspent st))) ct (l_utxo l') \<and>
    final_ags txs (l_utxo l) ags \<and> undo_repr (c @ [(raw, txs)]) Um' (fold apply_op o5 (contents (s_undo st))) \<and>
    rows_kept depth c saveUndo (contents (s_undo st)) (fold apply_op o5 (contents (s_undo st)))"
proof -
  let ?n = "of_nat (length (l_txs l)) :: TxNum" and ?h = "of_nat (length c) :: BlockHeight" and ?b = "(raw, txs)"
  let ?bi = "\<lparr> txNum0 = ?n, nTx = of_nat (length txs) \<rparr>"
  have len: "length c < max_height" using fits by (simp add: block_fits_def length_l_blks)
  have l': "l_txs l' = l_txs l @ map txid txs" "l_utxo l' = utxo_after ?h ?n txs (l_utxo l)" "l_blks l' = l_blks l @ [?bi]"
    by (simp_all add: l'_def ledger_of_snoc apply_block_def Let_def l_def length_l_blks del: map_append)
  from update_utxos_ok[OF wf fits sum _ refl utxo wb(1,2), of "if saveUndo then Some (UndoInfo_default\<lparr>u_height := ppb_height p\<rparr>) else None"]
  obtain ct o1 o2 ags where u: "update_utxos R p ?n (if saveUndo then Some (UndoInfo_default\<lparr>u_height := ppb_height p\<rparr>) else None) (st, wb) =
      (Inr (with_dels (map (del_undo_of txs (l_utxo l)) (outside_ins txs)) (with_adds (map (add_undo_of (ppb_height p) ?n txs) (kept_of txs (out_pairs (hashXAggregated p))))
         (if saveUndo then Some (UndoInfo_default\<lparr>u_height := ppb_height p\<rparr>) else None)), ags),
        (st\<lparr>utxoCt := ct\<rparr>, wb\<lparr>wb_utxoset := o1, wb_shunspent := o2\<rparr>))" and ags: "final_ags txs (l_utxo l) ags"
    and u': "utxo_repr (l_txs l') (fold apply_op o1 (contents (s_utxoset st))) (fold apply_op o2 (contents (s_shunspent st))) ct (l_utxo l')"
    by (auto simp: l' l_def h length_l_blks)
  let ?st2 = "st\<lparr>utxoCt := ct, blkInfos := l_blks l', blkInfosByTxNum := zip (map txNum0 (l_blks l')) [0..<Suc (length c)]\<rparr>"
  let ?wb2 = "wb\<lparr>wb_utxoset := o1, wb_shunspent := o2, wb_shist := map (hist_op ?n) ags, wb_blkinfo := [Put (height_key ?h) (BlkInfo_toBytes [] ?bi)]\<rparr>"
  have hist: "save_history ?n ags (st\<lparr>utxoCt := ct\<rparr>, wb\<lparr>wb_utxoset := o1, wb_shunspent := o2\<rparr>) =
      (Inr (), (st\<lparr>utxoCt := ct\<rparr>, wb\<lparr>wb_utxoset := o1, wb_shunspent := o2, wb_shist := map (hist_op ?n) ags\<rparr>))"
    by (simp add: save_history_def wb hist_op_def)
  have "smap_set ?n (length c) (zip (map txNum0 (l_blks l)) [0..<length c]) = zip (map txNum0 (l_blks l')) [0..<Suc (length c)]"
    using smap_set_last[OF blk_txnums_step[OF wf fits], of "length c"] by (simp add: l' l_def length_l_blks)
  then have blk: "add_blkinfo ?n p (st\<lparr>utxoCt := ct\<rparr>, wb\<lparr>wb_utxoset := o1, wb_shunspent := o2, wb_shist := map (hist_op ?n) ags\<rparr>) = (Inr ?bi, (?st2, ?wb2))"
    by (simp add: add_blkinfo_def Let_def bi bt summary_infos[OF sum] l' wb h length_l_blks) (simp add: l_def length_l_blks)
  have w2: "wb_undo ?wb2 = []" by (simp add: wb)
  from save_undo_ok[OF wf fits sum ags[unfolded l_def] h small um, where st = ?st2 and wb = ?wb2, folded l_def, unfolded w2 append_Nil] obtain eu o3 Um1 where
    su: "save_undo p raw ?bi (with_dels (map (del_undo_of txs (l_utxo l)) (outside_ins txs)) (with_adds (map (add_undo_of (ppb_height p) ?n txs) (kept_of txs (out_pairs (hashXAggregated p))))
         (if saveUndo then Some (UndoInfo_default\<lparr>u_height := ppb_height p\<rparr>) else None))) ags (?st2, ?wb2) =
      (Inr (), (?st2\<lparr>earliestUndoHeight := eu\<rparr>, ?wb2\<lparr>wb_undo := o3\<rparr>))"
    "undo_repr (c @ [?b]) Um1 (fold apply_op o3 (contents (s_undo st)))" "saveUndo \<longrightarrow> fold apply_op o3 (contents (s_undo st)) (height_key ?h) \<noteq> None"
    "\<forall>j < length c. fold apply_op o3 (contents (s_undo st)) (height_key (of_nat j)) = contents (s_undo st) (height_key (of_nat j))"
    by blast
  have hl: "unat ?h = length c" using len by (intro of_nat_height) simp
  from expire_ok[OF su(2) depth, where h = ?h and st = "?st2\<lparr>earliestUndoHeight := eu\<rparr>" and wb = "?wb2\<lparr>wb_undo := o3\<rparr>"] obtain eu2 o4 Um2 where
    ex: "expire_undo depth ?h (?st2\<lparr>earliestUndoHeight := eu\<rparr>, ?wb2\<lparr>wb_undo := o3\<rparr>) = (Inr (), (?st2\<lparr>earliestUndoHeight := eu2\<rparr>, ?wb2\<lparr>wb_undo := o3 @ o4\<rparr>))"
    "undo_repr (c @ [?b]) Um2 (fold apply_op (o3 @ o4) (contents (s_undo st)))"
    "\<forall>j \<le> max_height. int (length c) < int j + sint depth \<longrightarrow>
      fold apply_op (o3 @ o4) (contents (s_undo st)) (height_key (of_nat j)) = fold apply_op o3 (contents (s_undo st)) (height_key (of_nat j))"
    using len hl by auto
  then have kept: "rows_kept depth c saveUndo (contents (s_undo st)) (fold apply_op (o3 @ o4) (contents (s_undo st)))"
    using su(3,4) len depth by (auto simp: rows_kept_def)
  let ?hd = "(s_hdr st)\<lparr>headersDRA := headersDRA hdr, genesisHash := genesisHash hdr\<rparr>"
  have ah: "append_header R raw ?h v (?st2\<lparr>earliestUndoHeight := eu2\<rparr>, ?wb2\<lparr>wb_undo := o3 @ o4\<rparr>) =
      (Inr hdr, (?st2\<lparr>earliestUndoHeight := eu2, s_hdr := ?hd\<rparr>, ?wb2\<lparr>wb_undo := o3 @ o4\<rparr>))"
    by (simp add: append_header_def commit hl)
  have "addBlock_tables R depth p saveUndo raw v ?n (st, wb) =
      (Inr hdr, (?st2\<lparr>earliestUndoHeight := eu2, s_hdr := ?hd\<rparr>, ?wb2\<lparr>wb_undo := o3 @ o4\<rparr>))"
    unfolding addBlock_tables_def h
    by (simp only: ebind_Inr[where f = "update_utxos _ _ _ _", OF u[unfolded h]] prod.case ebind_Inr[where f = "save_history _ _", OF hist]
        ebind_Inr[where f = "add_blkinfo _ _", OF blk] ebind_Inr[where f = "save_undo _ _ _ _ _", OF su(1)[unfolded h]]
        ebind_Inr[where f = "expire_undo _ _", OF ex(1)] ah)
  then show ?thesis using u' ags ex(2) kept l'(3) by fastforce
qed

end

end
