(* ===== verification/Storage_Correct.thy ===== *)
theory Storage_Correct
  imports Storage_Blocks
begin

text \<open>
  The theorems about the whole of \<open>addBlock\<close> and \<open>undoLatestBlock\<close>: a store that represents a chain
  represents the extended chain after the one and the shortened chain after the other.
\<close>

section \<open>Adding a block\<close>

definition header_fits :: "'db Store \<Rightarrow> chain \<Rightarrow> CBlockHeader \<Rightarrow> bool" where
  "header_fits st c h \<longleftrightarrow> header_ok h \<and> chain_ok (map fst c @ [Serialize_CBlockHeader h]) \<and>
     fork_ok (map fst c @ [Serialize_CBlockHeader h]) \<and> length (Serialize_CBlockHeader h) \<le> headerRecSz (s_hdr st) \<and> length c < MAX_HEADERS"

definition block_accepted :: "'db Store \<Rightarrow> chain \<Rightarrow> PreProcessedBlock \<Rightarrow> CTransaction list \<Rightarrow> bool \<Rightarrow> bool" where
  "block_accepted st c p txs saveUndo \<longleftrightarrow> summarises txs p \<and> ppb_height p = of_nat (length c) \<and> header_fits st c (ppb_header p) \<and>
     block_fits (chain_ledger c) txs \<and> (saveUndo \<longrightarrow> undo_small (chain_ledger c) (Serialize_CBlockHeader (ppb_header p)) txs)"

lemma meta_keys: "kDirty \<noteq> kUtxoCount"
  by (simp add: kDirty_def kUtxoCount_def c_str_def)

context rocksdb_laws
begin

lemma header_stage:
  assumes "store_inv contents (s_hdr st) (map fst c)" "header_fits st c h"
  defines "raw \<equiv> Serialize_CBlockHeader h" and "v \<equiv> verifier_of (map fst c @ [Serialize_CBlockHeader h])"
  shows "\<exists>hdr. verify_object h (headerVerifier (s_hdr st)) = Inr (Inr v) \<and> snd (lastHeaderProcessed v) = raw \<and>
    addBlock_commit R raw (length c) v (s_hdr st) = (Inr (), hdr) \<and> store_inv contents hdr (map fst c @ [raw])"
proof -
  have ok: "header_ok h" "chain_ok (map fst c @ [raw])" using assms(2) by (simp_all add: header_fits_def raw_def)
  have "headerVerifier (s_hdr st) = verifier_of (map fst c)" "chain_ok (map fst c)" using assms(1) by (simp_all add: store_inv_def)
  then have ver: "verify_object h (headerVerifier (s_hdr st)) = Inr (Inr v)"
    using verify_object_iff[OF _ ok(1), of "map fst c" v] ok(2) by (simp add: v_def raw_def)
  have raw: "snd (lastHeaderProcessed v) = raw" by (simp add: lastHeaderProcessed_def v_def raw_def verifier_of_def)
  obtain hdr where "addBlock_headers R h (length c) (s_hdr st) = (Inr (), hdr)" "store_inv contents hdr (map fst c @ [raw])"
    using addBlock_headers_ok[OF assms(1) ok(1)] assms(2) by (auto simp: header_fits_def raw_def)
  then show ?thesis using ver raw by (auto simp: addBlock_headers_def)
qed

lemma addBlock_body_ok:
  assumes repr: "store_repr contents st c" and acc: "block_accepted st c p txs saveUndo" and depth: "0 < sint depth"
    and commit: "addBlock_commit R raw (length c) v (s_hdr st) = (Inr (), hdr)" and raw: "raw = Serialize_CBlockHeader (ppb_header p)"
  defines "l \<equiv> chain_ledger c" and "l' \<equiv> chain_ledger (c @ [(raw, txs)])"
  shows "\<exists>d o1 m o2 ct eu hd o3 o4 ags o5 Um'.
    addBlock_body R depth p saveUndo raw v (txNumNext st) (st, setDirty True WriteBatch_new) =
      (Inr hdr, (st\<lparr>txNumsDRA := d, txNumNext := of_nat (length (l_txs l')), txhash2txnumMgr := m, utxoCt := ct, blkInfos := l_blks l',
                    blkInfosByTxNum := zip (map txNum0 (l_blks l')) [0..<Suc (length c)], earliestUndoHeight := eu, s_hdr := hd\<rparr>,
                 \<lparr> wb_txnums = o1, wb_txhash2txnum = o2, wb_utxoset = o3, wb_shunspent = o4, wb_shist = map (hist_op (of_nat (length (l_txs l)))) ags,
                    wb_blkinfo = [Put (height_key (of_nat (length c))) (BlkInfo_toBytes [] (last (l_blks l')))], wb_undo = o5,
                    wb_meta = [Put kDirty kTrue, Put kUtxoCount (SerializeScalar False 8 ct)] \<rparr>)) \<and>
    dra_repr (fold apply_op o1 (contents (s_txnums st))) d (l_txs l') \<and> recSz d = HashLen \<and>
    idx_ok (fold apply_op o2 (contents (s_txhash2txnum st))) m (l_txs l') \<and>
    utxo_repr (l_txs l') (fold apply_op o3 (contents (s_utxoset st))) (fold apply_op o4 (contents (s_shunspent st))) ct (l_utxo l') \<and>
    final_ags txs (l_utxo l) ags \<and> undo_repr (c @ [(raw, txs)]) Um' (fold apply_op o5 (contents (s_undo st))) \<and>
    rows_kept depth c saveUndo (contents (s_undo st)) (fold apply_op o5 (contents (s_undo st)))"
proof -
  let ?n = "of_nat (length (l_txs l)) :: TxNum" and ?wb = "setDirty True WriteBatch_new"
  have wf: "ledger_wf (chain_ledger c)" and dra: "dra_repr (contents (s_txnums st)) (txNumsDRA st) (l_txs l)" "recSz (txNumsDRA st) = HashLen"
    and idx: "idx_ok (contents (s_txhash2txnum st)) (txhash2txnumMgr st) (l_txs l)"
    and utxo: "utxo_repr (l_txs (chain_ledger c)) (contents (s_utxoset st)) (contents (s_shunspent st)) (utxoCt st) (l_utxo (chain_ledger c))"
    and nxt: "txNumNext st = of_nat (length (l_txs l))" and bi: "blkInfos st = l_blks (chain_ledger c)"
    and bt: "blkInfosByTxNum st = zip (map txNum0 (l_blks (chain_ledger c))) [0..<length c]"
    using repr by (auto simp: store_repr_def Let_def l_def length_l_blks intro: chain_fits_wf)
  obtain Um where um: "undo_repr c Um (contents (s_undo st))" using repr by (auto simp: store_repr_def Let_def)
  have sum: "summarises txs p" and fits: "block_fits (chain_ledger c) txs" and h: "ppb_height p = of_nat (length c)"
    and small: "saveUndo \<Longrightarrow> undo_small (chain_ledger c) raw txs" using acc by (auto simp: block_accepted_def raw)
  have l': "l_txs l' = l_txs l @ map txid txs" by (simp add: l'_def l_def ledger_of_snoc apply_block_def Let_def del: map_append)
  have w0: "wb_txnums ?wb = []" "wb_txhash2txnum ?wb = []" "wb_utxoset ?wb = []" "wb_shunspent ?wb = []" "wb_shist ?wb = []" "wb_blkinfo ?wb = []" "wb_undo ?wb = []"
    by (simp_all add: setDirty_def WriteBatch_new_def)
  from append_txnums_ok[where contents = contents and st = st and wb = ?wb, OF sum fits dra[unfolded l_def] nxt[unfolded l_def] w0(1)]
  obtain d o1 where at: "append_txnums p (st, ?wb) = (Inr (), (st\<lparr>txNumsDRA := d, txNumNext := of_nat (length (l_txs l'))\<rparr>, ?wb\<lparr>wb_txnums := o1\<rparr>))"
      and d: "dra_repr (fold apply_op o1 (contents (s_txnums st))) d (l_txs l')" "recSz d = HashLen" unfolding l_def[symmetric] l'[symmetric] by blast
  let ?st1 = "st\<lparr>txNumsDRA := d, txNumNext := of_nat (length (l_txs l'))\<rparr>" and ?wb1 = "?wb\<lparr>wb_txnums := o1\<rparr>"
  let ?same = "\<lambda>st1 wb1. s_hdr st1 = s_hdr st \<and> s_utxoset st1 = s_utxoset st \<and> s_shunspent st1 = s_shunspent st \<and> s_undo st1 = s_undo st \<and>
    utxoCt st1 = utxoCt st \<and> blkInfos st1 = blkInfos st \<and> blkInfosByTxNum st1 = blkInfosByTxNum st \<and>
    wb_utxoset wb1 = [] \<and> wb_shunspent wb1 = [] \<and> wb_shist wb1 = [] \<and> wb_blkinfo wb1 = [] \<and> wb_undo wb1 = []"
  have tables: "\<exists>ct eu hd o3 o4 ags o5 Um'. addBlock_tables R depth p saveUndo raw v ?n (st1, wb1) =
      (Inr hdr, (st1\<lparr>utxoCt := ct, blkInfos := l_blks l', blkInfosByTxNum := zip (map txNum0 (l_blks l')) [0..<Suc (length c)],
                    earliestUndoHeight := eu, s_hdr := hd\<rparr>,
                 wb1\<lparr>wb_utxoset := o3, wb_shunspent := o4, wb_shist := map (hist_op ?n) ags,
                    wb_blkinfo := [Put (height_key (of_nat (length c))) (BlkInfo_toBytes [] (last (l_blks l')))], wb_undo := o5\<rparr>)) \<and>
    utxo_repr (l_txs l') (fold apply_op o3 (contents (s_utxoset st1))) (fold apply_op o4 (contents (s_shunspent st1))) ct (l_utxo l') \<and>
    final_ags txs (l_utxo l) ags \<and> undo_repr (c @ [(raw, txs)]) Um' (fold apply_op o5 (contents (s_undo st1))) \<and>
    rows_kept depth c saveUndo (contents (s_undo st1)) (fold apply_op o5 (contents (s_undo st1)))"
    if "?same st1 wb1" for st1 :: "'db Store" and wb1
    unfolding l_def l'_def
    by (rule tables_ok[where saveUndo = saveUndo and st = st1 and wb = wb1 and v = v and hdr = hdr and Um = Um, OF wf fits sum h small depth])
      (use commit utxo um bi bt that in simp_all)
  have index: "\<exists>m o2. insert_index ?n p (st1, wb1) = (Inr (), (st1\<lparr>txhash2txnumMgr := m\<rparr>, wb1\<lparr>wb_txhash2txnum := o2\<rparr>)) \<and>
      idx_ok (fold apply_op o2 (contents (s_txhash2txnum st))) m (l_txs l')"
    if "txhash2txnumMgr st1 = txhash2txnumMgr st" "wb_txhash2txnum wb1 = []" for st1 :: "'db Store" and wb1
    using insert_index_ok[OF sum fits, where st = st1 and wb = wb1 and ?m0.0 = "contents (s_txhash2txnum st)", folded l_def] idx that
    by (simp add: l')
  let ?res = "\<lambda>d o1 m o2 ct eu hd o3 o4 ags o5.
      (Inr hdr, (st\<lparr>txNumsDRA := d, txNumNext := of_nat (length (l_txs l')), txhash2txnumMgr := m, utxoCt := ct, blkInfos := l_blks l',
                    blkInfosByTxNum := zip (map txNum0 (l_blks l')) [0..<Suc (length c)], earliestUndoHeight := eu, s_hdr := hd\<rparr>,
                 \<lparr> wb_txnums = o1, wb_txhash2txnum = o2, wb_utxoset = o3, wb_shunspent = o4, wb_shist = map (hist_op ?n) ags,
                    wb_blkinfo = [Put (height_key (of_nat (length c))) (BlkInfo_toBytes [] (last (l_blks l')))], wb_undo = o5,
                    wb_meta = [Put kDirty kTrue, Put kUtxoCount (SerializeScalar False 8 ct)] \<rparr>)) :: (store_error + 'db header_store) \<times> 'db Store \<times> WriteBatch"
  show ?thesis
  proof (cases "length (txInfos p) > 1000")
    case True
    obtain ct eu hd o3 o4 ags o5 Um' where t: "addBlock_tables R depth p saveUndo raw v ?n (?st1, ?wb1) =
      (Inr hdr, (?st1\<lparr>utxoCt := ct, blkInfos := l_blks l', blkInfosByTxNum := zip (map txNum0 (l_blks l')) [0..<Suc (length c)],
                    earliestUndoHeight := eu, s_hdr := hd\<rparr>,
                 ?wb1\<lparr>wb_utxoset := o3, wb_shunspent := o4, wb_shist := map (hist_op ?n) ags,
                    wb_blkinfo := [Put (height_key (of_nat (length c))) (BlkInfo_toBytes [] (last (l_blks l')))], wb_undo := o5\<rparr>))"
      and post: "utxo_repr (l_txs l') (fold apply_op o3 (contents (s_utxoset st))) (fold apply_op o4 (contents (s_shunspent st))) ct (l_utxo l')"
        "final_ags txs (l_utxo l) ags" "undo_repr (c @ [(raw, txs)]) Um' (fold apply_op o5 (contents (s_undo st)))"
        "rows_kept depth c saveUndo (contents (s_undo st)) (fold apply_op o5 (contents (s_undo st)))"
      using tables[of "?st1" "?wb1"] w0 by auto
    let ?st2 = "?st1\<lparr>utxoCt := ct, blkInfos := l_blks l', blkInfosByTxNum := zip (map txNum0 (l_blks l')) [0..<Suc (length c)],
                    earliestUndoHeight := eu, s_hdr := hd\<rparr>"
    let ?wb2 = "?wb1\<lparr>wb_utxoset := o3, wb_shunspent := o4, wb_shist := map (hist_op ?n) ags,
                    wb_blkinfo := [Put (height_key (of_nat (length c))) (BlkInfo_toBytes [] (last (l_blks l')))], wb_undo := o5\<rparr>"
    obtain m o2 where i: "insert_index ?n p (?st2, saveUtxoCt ?st2 ?wb2) = (Inr (), (?st2\<lparr>txhash2txnumMgr := m\<rparr>, (saveUtxoCt ?st2 ?wb2)\<lparr>wb_txhash2txnum := o2\<rparr>))"
      and im: "idx_ok (fold apply_op o2 (contents (s_txhash2txnum st))) m (l_txs l')"
      using index[of ?st2 "saveUtxoCt ?st2 ?wb2"] w0 by (auto simp: saveUtxoCt_def)
    have "addBlock_body R depth p saveUndo raw v ?n (st, ?wb) = (Inr hdr, (?st2\<lparr>txhash2txnumMgr := m\<rparr>, (saveUtxoCt ?st2 ?wb2)\<lparr>wb_txhash2txnum := o2\<rparr>))"
      unfolding addBlock_body_def using True
      by (simp only: if_True ebind_Inr[where f = "append_txnums _", OF at] ebind_Inr[where f = "addBlock_tables _ _ _ _ _ _ _", OF t]
          ebind_Inr[where f = "insert_index _ _", OF i] ebind_def[where f = "ereturn _"] ebind_def[where f = "\<lambda>(x, y). _ x y"] ereturn_def prod.case sum.case)
    then have body: "addBlock_body R depth p saveUndo raw v (txNumNext st) (st, ?wb) = ?res d o1 m o2 ct eu hd o3 o4 ags o5"
      unfolding nxt by (simp add: saveUtxoCt_def setDirty_def WriteBatch_new_def)
    show ?thesis by (intro exI conjI) (fact body d im post)+
  next
    case False
    obtain m o2 where i: "insert_index ?n p (?st1, ?wb1) = (Inr (), (?st1\<lparr>txhash2txnumMgr := m\<rparr>, ?wb1\<lparr>wb_txhash2txnum := o2\<rparr>))"
      and im: "idx_ok (fold apply_op o2 (contents (s_txhash2txnum st))) m (l_txs l')"
      using index[of ?st1 ?wb1] w0 by auto
    let ?st2 = "?st1\<lparr>txhash2txnumMgr := m\<rparr>" and ?wb2 = "?wb1\<lparr>wb_txhash2txnum := o2\<rparr>"
    obtain ct eu hd o3 o4 ags o5 Um' where t: "addBlock_tables R depth p saveUndo raw v ?n (?st2, ?wb2) =
      (Inr hdr, (?st2\<lparr>utxoCt := ct, blkInfos := l_blks l', blkInfosByTxNum := zip (map txNum0 (l_blks l')) [0..<Suc (length c)],
                    earliestUndoHeight := eu, s_hdr := hd\<rparr>,
                 ?wb2\<lparr>wb_utxoset := o3, wb_shunspent := o4, wb_shist := map (hist_op ?n) ags,
                    wb_blkinfo := [Put (height_key (of_nat (length c))) (BlkInfo_toBytes [] (last (l_blks l')))], wb_undo := o5\<rparr>))"
      and post: "utxo_repr (l_txs l') (fold apply_op o3 (contents (s_utxoset st))) (fold apply_op o4 (contents (s_shunspent st))) ct (l_utxo l')"
        "final_ags txs (l_utxo l) ags" "undo_repr (c @ [(raw, txs)]) Um' (fold apply_op o5 (contents (s_undo st)))"
        "rows_kept depth c saveUndo (contents (s_undo st)) (fold apply_op o5 (contents (s_undo st)))"
      using tables[of ?st2 ?wb2] w0 by auto
    let ?st3 = "?st2\<lparr>utxoCt := ct, blkInfos := l_blks l', blkInfosByTxNum := zip (map txNum0 (l_blks l')) [0..<Suc (length c)],
                    earliestUndoHeight := eu, s_hdr := hd\<rparr>"
    let ?wb3 = "?wb2\<lparr>wb_utxoset := o3, wb_shunspent := o4, wb_shist := map (hist_op ?n) ags,
                    wb_blkinfo := [Put (height_key (of_nat (length c))) (BlkInfo_toBytes [] (last (l_blks l')))], wb_undo := o5\<rparr>"
    have "addBlock_body R depth p saveUndo raw v ?n (st, ?wb) = (Inr hdr, (?st3, saveUtxoCt ?st3 ?wb3))"
      unfolding addBlock_body_def using False
      by (simp only: if_False ebind_Inr[where f = "append_txnums _", OF at] ebind_Inr[where f = "addBlock_tables _ _ _ _ _ _ _", OF t]
          ebind_Inr[where f = "insert_index _ _", OF i] ebind_def[where f = "ereturn _"] ebind_def[where f = "\<lambda>(x, y). _ x y"] ereturn_def prod.case sum.case)
    then have body: "addBlock_body R depth p saveUndo raw v (txNumNext st) (st, ?wb) = ?res d o1 m o2 ct eu hd o3 o4 ags o5"
      unfolding nxt by (simp add: saveUtxoCt_def setDirty_def WriteBatch_new_def)
    show ?thesis by (intro exI conjI) (fact body d im post)+
  qed
qed

lemma addBlock_ok:
  assumes repr: "store_repr contents st c" and acc: "block_accepted st c p txs saveUndo" and depth: "0 < sint depth"
  defines "c' \<equiv> c @ [(Serialize_CBlockHeader (ppb_header p), txs)]"
  shows "\<exists>st'. addBlock R depth p saveUndo st = (Inr (), st') \<and> store_repr contents st' c' \<and>
    rows_kept depth c saveUndo (contents (s_undo st)) (contents (s_undo st')) \<and> headerRecSz (s_hdr st') = headerRecSz (s_hdr st)"
proof -
  let ?raw = "Serialize_CBlockHeader (ppb_header p)" and ?l = "chain_ledger c" and ?l' = "chain_ledger c'"
  let ?n = "of_nat (length (l_txs ?l)) :: TxNum"
  have hf: "header_fits st c (ppb_header p)" and fits: "block_fits ?l txs" using acc by (simp_all add: block_accepted_def)
  have inv: "store_inv contents (s_hdr st) (map fst c)" and cf: "chain_fits c" and hist: "contents (s_shist st) = hist_tab (l_hist ?l)"
    and blk: "table_of height_row blk_val (blk_map (l_blks ?l)) (contents (s_blkinfo st))" using repr by (simp_all add: store_repr_def Let_def)
  have len: "length c < max_height" using fits by (simp add: block_fits_def length_l_blks)
  have l': "l_hist ?l' = hist_after ?n txs (l_utxo ?l) (l_hist ?l)" "l_blks ?l' = l_blks ?l @ [last (l_blks ?l')]"
    by (simp_all add: c'_def ledger_of_snoc apply_block_def Let_def del: map_append)
  obtain v hdr where h: "verify_object (ppb_header p) (headerVerifier (s_hdr st)) = Inr (Inr v)" "snd (lastHeaderProcessed v) = ?raw"
      "addBlock_commit R ?raw (length c) v (s_hdr st) = (Inr (), hdr)" "store_inv contents hdr (map fst c')"
    using header_stage[OF inv hf] by (auto simp: c'_def)
  obtain d o1 m o2 ct eu hd o3 o4 ags o5 Um' where
    body: "addBlock_body R depth p saveUndo ?raw v (txNumNext st) (st, setDirty True WriteBatch_new) =
      (Inr hdr, (st\<lparr>txNumsDRA := d, txNumNext := of_nat (length (l_txs ?l')), txhash2txnumMgr := m, utxoCt := ct, blkInfos := l_blks ?l',
                    blkInfosByTxNum := zip (map txNum0 (l_blks ?l')) [0..<Suc (length c)], earliestUndoHeight := eu, s_hdr := hd\<rparr>,
                 \<lparr> wb_txnums = o1, wb_txhash2txnum = o2, wb_utxoset = o3, wb_shunspent = o4, wb_shist = map (hist_op ?n) ags,
                    wb_blkinfo = [Put (height_key (of_nat (length c))) (BlkInfo_toBytes [] (last (l_blks ?l')))], wb_undo = o5,
                    wb_meta = [Put kDirty kTrue, Put kUtxoCount (SerializeScalar False 8 ct)] \<rparr>))"
    and post: "dra_repr (fold apply_op o1 (contents (s_txnums st))) d (l_txs ?l')" "recSz d = HashLen"
      "idx_ok (fold apply_op o2 (contents (s_txhash2txnum st))) m (l_txs ?l')"
      "utxo_repr (l_txs ?l') (fold apply_op o3 (contents (s_utxoset st))) (fold apply_op o4 (contents (s_shunspent st))) ct (l_utxo ?l')"
    and ags: "final_ags txs (l_utxo ?l) ags" and um: "undo_repr c' Um' (fold apply_op o5 (contents (s_undo st)))"
      "rows_kept depth c saveUndo (contents (s_undo st)) (fold apply_op o5 (contents (s_undo st)))"
    unfolding c'_def using addBlock_body_ok[OF repr acc depth h(3) refl] by blast
  define st' where "st' = (write_batch R (setDirty False
     \<lparr> wb_txnums = o1, wb_txhash2txnum = o2, wb_utxoset = o3, wb_shunspent = o4, wb_shist = map (hist_op ?n) ags,
       wb_blkinfo = [Put (height_key (of_nat (length c))) (BlkInfo_toBytes [] (last (l_blks ?l')))], wb_undo = o5,
       wb_meta = [Put kDirty kTrue, Put kUtxoCount (SerializeScalar False 8 ct)] \<rparr>)
     (st\<lparr>txNumsDRA := d, txNumNext := of_nat (length (l_txs ?l')), txhash2txnumMgr := m, utxoCt := ct, blkInfos := l_blks ?l',
         blkInfosByTxNum := zip (map txNum0 (l_blks ?l')) [0..<Suc (length c)], earliestUndoHeight := eu, s_hdr := hd\<rparr>))\<lparr>s_hdr := hdr\<rparr>"
  have add: "addBlock R depth p saveUndo st = (Inr (), st')"
    unfolding addBlock_def h(1) sum.case h(2) body prod.case Write_ok option.case st'_def ..
  have ll: "length (l_blks ?l') = Suc (length c)" unfolding length_l_blks by (simp add: c'_def)
  have f: "chain_fits c'" using cf fits by (simp add: c'_def chain_fits_snoc)
  have hist': "contents (s_shist st') = hist_tab (l_hist ?l')"
    by (simp add: st'_def write_batch_def setDirty_def contents_Write hist save_history_table[OF ags] l'(1))
  have blk': "table_of height_row blk_val (blk_map (l_blks ?l')) (contents (s_blkinfo st'))"
    by (subst l'(2)) (use blk_table_add[OF blk, of "last (l_blks ?l')"] len in
      \<open>simp add: st'_def write_batch_def setDirty_def contents_Write length_l_blks\<close>)
  have meta: "meta_ok (utxoCt st') c' (contents (s_meta st'))"
    using meta_keys by (simp add: st'_def write_batch_def setDirty_def contents_Write meta_ok_def)
  have undo: "undo_repr c' Um' (contents (s_undo st'))" using um(1) by (simp add: st'_def write_batch_def setDirty_def contents_Write)
  have "store_repr contents st' c'"
    unfolding store_repr_def Let_def
  proof (intro conjI)
    show "\<exists>Um. undo_repr c' Um (contents (s_undo st'))" using undo by blast
  qed (use f h(4) post hist' blk' meta ll in \<open>simp_all add: st'_def write_batch_def setDirty_def contents_Write\<close>)
  moreover have "rows_kept depth c saveUndo (contents (s_undo st)) (contents (s_undo st'))"
    using um(2) by (simp add: st'_def write_batch_def setDirty_def contents_Write)
  moreover have "headerRecSz hdr = headerRecSz (s_hdr st)"
    using h(3) by (auto simp: addBlock_commit_def Let_def split: sum.splits prod.splits if_splits)
  then have "headerRecSz (s_hdr st') = headerRecSz (s_hdr st)" by (simp add: st'_def)
  ultimately show ?thesis using add by blast
qed

end

section \<open>Undoing a block\<close>

lemma utxo_readd:
  assumes "block_wf txs" "\<forall>j \<in> set (outside_ins txs). U (in_txo txs j) \<noteq> None"
  shows "utxo_after h n0 txs U ++ map_of (map (del_undo_of txs U) (outside_ins txs)) = U ++ created h n0 txs"
proof
  fix x
  let ?ds = "map (del_undo_of txs U) (outside_ins txs)"
  show "(utxo_after h n0 txs U ++ map_of ?ds) x = (U ++ created h n0 txs) x"
  proof (cases "x \<in> in_txo txs ` set (outside_ins txs)")
    case True
    then obtain j where j: "j \<in> set (outside_ins txs)" "x = in_txo txs j" by auto
    obtain info where info: "U x = Some info" using assms(2) j by auto
    have "x \<in> fst ` set ?ds" using j by (auto simp: del_undo_of_def image_image)
    then have "map_of ?ds x \<noteq> None" by (simp add: map_of_eq_None_iff)
    then obtain i' where i': "map_of ?ds x = Some i'" by auto
    then have "(x, i') \<in> set ?ds" by (rule map_of_SomeD)
    then have "i' = info" using info by (auto simp: del_undo_of_def)
    then show ?thesis using i' info created_outside[OF assms(1) j(1)] j(2) by (simp add: map_add_def)
  next
    case False
    then have "map_of ?ds x = None" by (auto simp: map_of_eq_None_iff del_undo_of_def)
    then show ?thesis using False by (simp add: map_add_def utxo_after_def)
  qed
qed

lemma readd_ok:
  assumes ub: "ub_repr r mu ms ub U'" and es: "\<forall>(x, i) \<in> set ds. utxo_entry r x i \<and> U' x = None" and d: "distinct (map fst ds)"
  shows "\<exists>ub'. efor (\<lambda>(txo, info). utxo_add txo info (CompactTXO_new (ti_txNum info) (outN txo))) ds ub = (Inr (), ub') \<and>
    ub_repr r mu ms ub' (U' ++ map_of ds)"
proof (rule efor_inv[where I = "\<lambda>ys ub. ub_repr r mu ms ub (U' ++ map_of ys)"])
  show "ub_repr r mu ms ub (U' ++ map_of [])" using ub by simp
next
  fix ys y zs ub1 assume ds: "ds = ys @ y # zs" and inv: "ub_repr r mu ms ub1 (U' ++ map_of ys)"
  obtain x i where y: "y = (x, i)" by (cases y)
  have e: "utxo_entry r x i" "U' x = None" using es ds y by auto
  have new: "x \<notin> fst ` set ys" using d ds y by auto
  then have "(U' ++ map_of ys) x = None" using e(2) by (simp add: map_add_None map_of_eq_None_iff)
  from utxo_add_ok[OF inv this e(1)]
  show "\<exists>s'. (case y of (txo, info) \<Rightarrow> utxo_add txo info (CompactTXO_new (ti_txNum info) (outN txo))) ub1 = (Inr (), s') \<and> ub_repr r mu ms s' (U' ++ map_of (ys @ [y]))"
    using map_add_snoc[OF new] by (auto simp: y compact_of_def)
qed

lemma unadd_ok:
  assumes ub: "ub_repr r mu ms ub (U ++ created h n0 txs)" and wf: "block_wf txs" and ks: "distinct ks" "set ks = kept_outs txs"
    and new: "\<forall>i \<in> kept_outs txs. U (out_txo txs i) = None"
  shows "\<exists>ub'. efor (\<lambda>(txo, hashx, ctxo). utxo_remove txo hashx ctxo) (map (add_undo_of h n0 txs) ks) ub = (Inr (), ub') \<and> ub_repr r mu ms ub' U"
proof -
  let ?xs = "map (add_undo_of h n0 txs) ks"
  let ?inv = "\<lambda>ys ub. ub_repr r mu ms ub ((U ++ created h n0 txs) |` (- fst ` set ys))"
  have "\<exists>ub'. efor (\<lambda>(txo, hashx, ctxo). utxo_remove txo hashx ctxo) ?xs ub = (Inr (), ub') \<and> ?inv ?xs ub'"
  proof (rule efor_inv[where I = ?inv])
    show "?inv [] ub" using ub by simp
  next
    fix ys y zs ub1 assume xs: "?xs = ys @ y # zs" and inv: "?inv ys ub1"
    then obtain k1 i k2 where k: "ks = k1 @ i # k2" "ys = map (add_undo_of h n0 txs) k1" "y = add_undo_of h n0 txs i"
      by (auto simp: map_eq_append_conv map_eq_Cons_conv)
    have i: "i \<in> kept_outs txs" "set k1 \<subseteq> kept_outs txs" "i \<notin> set k1" using ks k(1) by auto
    let ?x = "out_txo txs i" and ?info = "out_info h n0 txs i"
    have "?x \<notin> fst ` set ys"
    proof
      assume "?x \<in> fst ` set ys"
      then obtain i' where "i' \<in> set k1" "?x = out_txo txs i'" by (auto simp: k(2) add_undo_of_def)
      then show False using out_txo_inj[OF wf, of i i'] i by (auto simp: kept_outs_def)
    qed
    moreover have "created h n0 txs ?x = Some ?info" using created_iff[OF wf] i(1) by blast
    ultimately have "((U ++ created h n0 txs) |` (- fst ` set ys)) ?x = Some ?info" by simp
    from utxo_remove_ok[OF inv this]
    have "\<exists>ub'. utxo_remove ?x (ti_hashX ?info) (compact_of ?x ?info) ub1 = (Inr (), ub') \<and>
        ub_repr r mu ms ub' (((U ++ created h n0 txs) |` (- fst ` set ys))(?x := None))" .
    moreover have "((U ++ created h n0 txs) |` (- fst ` set ys))(?x := None) = (U ++ created h n0 txs) |` (- fst ` set (ys @ [y]))"
      by (auto simp: k(3) add_undo_of_def fun_eq_iff restrict_map_def)
    ultimately show "\<exists>s'. (case y of (txo, hashx, ctxo) \<Rightarrow> utxo_remove txo hashx ctxo) ub1 = (Inr (), s') \<and> ?inv (ys @ [y]) s'"
      by (simp add: k(3) add_undo_of_def)
  qed
  moreover have "(U ++ created h n0 txs) |` (- fst ` set ?xs) = U"
  proof
    fix x
    have f: "fst ` set ?xs = out_txo txs ` kept_outs txs" using ks(2) by (auto simp: add_undo_of_def image_image)
    show "((U ++ created h n0 txs) |` (- fst ` set ?xs)) x = U x"
    proof (cases "x \<in> out_txo txs ` kept_outs txs")
      case True
      then show ?thesis using new unfolding f by auto
    next
      case False
      then have "created h n0 txs x = None" using created_iff[OF wf, of h n0 x] by (metis imageI option.exhaust)
      then show ?thesis using False unfolding f by (simp add: map_add_def)
    qed
  qed
  ultimately show ?thesis by simp
qed

context rocksdb_laws
begin

lemma undo_utxos_ok:
  assumes wf: "ledger_wf l" and fits: "block_fits l txs" and u: "undo_matches l raw txs u"
    and db: "utxo_repr (l_txs l @ map txid txs) (contents (s_utxoset st)) (contents (s_shunspent st)) (utxoCt st)
      (utxo_after (of_nat (length (l_blks l))) (of_nat (length (l_txs l))) txs (l_utxo l))"
    and wb: "wb_utxoset wb = []" "wb_shunspent wb = []"
  shows "\<exists>ct o1 o2. undo_utxos u (st, wb) = (Inr (), (st\<lparr>utxoCt := ct\<rparr>, wb\<lparr>wb_utxoset := o1, wb_shunspent := o2\<rparr>)) \<and>
    utxo_repr (l_txs l) (fold apply_op o1 (contents (s_utxoset st))) (fold apply_op o2 (contents (s_shunspent st))) ct (l_utxo l)"
proof -
  let ?h = "of_nat (length (l_blks l)) :: BlockHeight" and ?n = "of_nat (length (l_txs l)) :: TxNum" and ?r = "l_txs l @ map txid txs"
  let ?U' = "utxo_after ?h ?n txs (l_utxo l)" and ?mu = "contents (s_utxoset st)" and ?ms = "contents (s_shunspent st)"
  let ?ds = "map (del_undo_of txs (l_utxo l)) (outside_ins txs)" and ?ub = "\<lparr> ub_utxoset = [], ub_shunspent = [], utxoCtr = utxoCt st \<rparr>"
  obtain ks where ks: "distinct ks" "set ks = kept_outs txs" "u_addUndos u = map (add_undo_of ?h ?n txs) ks" and ds: "u_delUndos u = ?ds"
    using u by (auto simp: undo_matches_def)
  have wfb: "block_wf txs" and ex: "\<forall>j \<in> set (outside_ins txs). l_utxo l (in_txo txs j) \<noteq> None" "distinct (map (in_txo txs) (outside_ins txs))"
    using fits by (simp_all add: block_fits_def)
  have es: "\<forall>(x, i) \<in> set ?ds. utxo_entry ?r x i \<and> ?U' x = None"
  proof (intro ballI, clarsimp simp: del_undo_of_def)
    fix j assume j: "j \<in> set (outside_ins txs)"
    then obtain info where i: "l_utxo l (in_txo txs j) = Some info" using ex(1) by auto
    then have "utxo_entry (l_txs l) (in_txo txs j) info" using wf unfolding ledger_wf_def by blast
    then show "utxo_entry ?r (in_txo txs j) (the (l_utxo l (in_txo txs j))) \<and> ?U' (in_txo txs j) = None"
      using i j by (auto simp: utxo_entry_def nth_append utxo_after_def intro: trans_less_add1)
  qed
  have "ub_repr ?r ?mu ?ms ?ub ?U'" using db by (simp add: ub_repr_def)
  from readd_ok[OF this es] obtain ub1 where ub1: "efor (\<lambda>(txo, info). utxo_add txo info (CompactTXO_new (ti_txNum info) (outN txo))) ?ds ?ub = (Inr (), ub1)"
      "ub_repr ?r ?mu ?ms ub1 (l_utxo l ++ created ?h ?n txs)"
    using ex(2) utxo_readd[OF wfb ex(1), of ?h ?n] by (auto simp: comp_def del_undo_of_def[abs_def])
  have new: "\<forall>i \<in> kept_outs txs. l_utxo l (out_txo txs i) = None" using new_entry[OF wf fits] by blast
  from unadd_ok[OF ub1(2) wfb ks(1,2) new] obtain ub2 where
    ub2: "efor (\<lambda>(txo, hashx, ctxo). utxo_remove txo hashx ctxo) (map (add_undo_of ?h ?n txs) ks) ub1 = (Inr (), ub2)" "ub_repr ?r ?mu ?ms ub2 (l_utxo l)"
    by blast
  have "\<forall>x i. l_utxo l x = Some i \<longrightarrow> utxo_entry (l_txs l) x i" using wf unfolding ledger_wf_def by blast
  then have "utxo_repr (l_txs l) (fold apply_op (ub_utxoset ub2) ?mu) (fold apply_op (ub_shunspent ub2) ?ms) (utxoCtr ub2) (l_utxo l)"
    using ub2(2) by (simp add: ub_repr_def utxo_repr_def)
  moreover have "undo_utxos u (st, wb) = (Inr (), (st\<lparr>utxoCt := utxoCtr ub2\<rparr>, wb\<lparr>wb_utxoset := ub_utxoset ub2, wb_shunspent := ub_shunspent ub2\<rparr>))"
    by (simp add: undo_utxos_def wb ds ks(3) ebind_Inr[where f = "efor _ _", OF ub1(1)] ub2(1) Let_def)
  ultimately show ?thesis by blast
qed

lemma truncate_txnums_ok:
  assumes "dra_repr (contents (s_txnums st)) (txNumsDRA st) rs" "t \<le> length rs" "t \<le> max_txnums" "wb_txnums wb = []"
  shows "\<exists>d ops. truncate_txnums R (of_nat t) (st, wb) = (Inr (), (st\<lparr>txNumNext := of_nat t, txNumsDRA := d\<rparr>, wb\<lparr>wb_txnums := ops\<rparr>)) \<and>
    dra_repr (fold apply_op ops (contents (s_txnums st))) d (take t rs) \<and> recSz d = recSz (txNumsDRA st)"
proof -
  from truncate_ok[OF assms(1), of t] obtain c where c: "dra_truncate R (s_txnums st) t (beginBatchWrite (txNumsDRA st) []) = (Inr t, c)"
      "ctx_inv (contents (s_txnums st)) c (take t rs)" "recSz (c_d c) = recSz (txNumsDRA st)" using assms(2) by (auto simp: min_def)
  then show ?thesis using end_repr[OF c(2)] by (auto simp: truncate_txnums_def assms(4) of_nat_txnum[OF assms(3)] Let_def)
qed

lemma truncate_index_ok:
  assumes "idx_ok (contents (s_txhash2txnum st)) (txhash2txnumMgr st) rs" "dra_repr (contents (s_txnums st)) (txNumsDRA st) rs" "t < length rs"
    "wb_txhash2txnum wb = []"
  shows "\<exists>m ops. truncate_index R (of_nat t) (st, wb) = (Inr (), (st\<lparr>txhash2txnumMgr := m\<rparr>, wb\<lparr>wb_txhash2txnum := ops\<rparr>)) \<and>
    idx_ok (fold apply_op ops (contents (s_txhash2txnum st))) m (take t rs)"
proof -
  from truncateForUndo_ok[OF assms(1-3)] obtain ops m where
    "truncateForUndo R (s_txhash2txnum st) (s_txnums st) (txNumsDRA st) (txhash2txnumMgr st) (of_nat t) = Inr (ops, m)"
    "idx_ok (fold apply_op ops (contents (s_txhash2txnum st))) m (take t rs)" by blast
  then show ?thesis by (intro exI[of _ m] exI[of _ ops]) (simp add: truncate_index_def assms(4))
qed

lemma undo_body_ok:
  assumes repr: "store_repr contents st (c @ [(raw, txs)])" and u: "undo_matches (chain_ledger c) raw txs u"
    and same: "s_txnums st1 = s_txnums st" "txNumsDRA st1 = txNumsDRA st" "s_txhash2txnum st1 = s_txhash2txnum st" "txhash2txnumMgr st1 = txhash2txnumMgr st"
      "s_utxoset st1 = s_utxoset st" "s_shunspent st1 = s_shunspent st" "s_shist st1 = s_shist st" "utxoCt st1 = utxoCt st"
      "blkInfos st1 = blkInfos st" "blkInfosByTxNum st1 = blkInfosByTxNum st"
  defines "l \<equiv> chain_ledger c"
  shows "\<exists>d o1 m o2 ct eu o3 o4. undo_body R u (st1, setDirty True WriteBatch_new) =
      (Inr (), (st1\<lparr>txNumsDRA := d, txNumNext := of_nat (length (l_txs l)), txhash2txnumMgr := m, utxoCt := ct, blkInfos := l_blks l,
                    blkInfosByTxNum := zip (map txNum0 (l_blks l)) [0..<length c], earliestUndoHeight := eu\<rparr>,
                 \<lparr> wb_txnums = o1, wb_txhash2txnum = o2, wb_utxoset = o3, wb_shunspent = o4,
                    wb_shist = map (\<lambda>h. put_or_delete h (hist_tab (l_hist l) h)) (u_scriptHashes u),
                    wb_blkinfo = [Delete (height_key (of_nat (length c)))], wb_undo = [Delete (height_key (of_nat (length c)))],
                    wb_meta = [Put kDirty kTrue, Put kUtxoCount (SerializeScalar False 8 ct)] \<rparr>)) \<and>
    dra_repr (fold apply_op o1 (contents (s_txnums st))) d (l_txs l) \<and> recSz d = HashLen \<and>
    idx_ok (fold apply_op o2 (contents (s_txhash2txnum st))) m (l_txs l) \<and>
    utxo_repr (l_txs l) (fold apply_op o3 (contents (s_utxoset st))) (fold apply_op o4 (contents (s_shunspent st))) ct (l_utxo l)"
proof -
  let ?n = "of_nat (length (l_txs l)) :: TxNum" and ?h = "of_nat (length c) :: BlockHeight" and ?wb = "setDirty True WriteBatch_new"
  let ?l' = "chain_ledger (c @ [(raw, txs)])"
  have cf: "chain_fits (c @ [(raw, txs)])" using repr by (simp add: store_repr_def Let_def)
  then have fits: "block_fits l txs" and wf: "ledger_wf l" unfolding l_def by (simp_all add: chain_fits_snoc chain_fits_wf)
  have l': "l_txs ?l' = l_txs l @ map txid txs" "l_utxo ?l' = utxo_after ?h ?n txs (l_utxo l)"
    "l_hist ?l' = hist_after ?n txs (l_utxo l) (l_hist l)" "l_blks ?l' = l_blks l @ [\<lparr> txNum0 = ?n, nTx = of_nat (length txs) \<rparr>]"
    by (simp_all add: ledger_of_snoc apply_block_def Let_def l_def length_l_blks del: map_append)
  note r = repr[unfolded store_repr_def Let_def l'(1-4)]
  have uf: "u_height u = ?h" "u_blkInfo u = \<lparr> txNum0 = ?n, nTx = of_nat (length txs) \<rparr>" "set (u_scriptHashes u) = {h. touching txs (l_utxo l) h \<noteq> {}}"
    using u by (simp_all add: undo_matches_def l_def length_l_blks)
  have sz: "length (l_txs l) + length txs \<le> max_txnums" "txs \<noteq> []" using fits by (simp_all add: block_fits_def)
  let ?st2 = "st1\<lparr>blkInfos := l_blks l, blkInfosByTxNum := zip (map txNum0 (l_blks l)) [0..<length c]\<rparr>"
  let ?wb2 = "?wb\<lparr>wb_blkinfo := [Delete (height_key ?h)]\<rparr>"
  have lb: "length (l_blks l) = length c" by (simp add: l_def length_l_blks)
  have bt: "blkInfosByTxNum st = zip (map txNum0 (l_blks l)) [0..<length c] @ [(?n, length c)]" "blkInfos st = l_blks l @ [\<lparr> txNum0 = ?n, nTx = of_nat (length txs) \<rparr>]"
    using r by (simp_all add: lb)
  have "\<forall>e \<in> set (zip (map txNum0 (l_blks l)) [0..<length c]). fst e \<noteq> ?n"
    using blk_txnums_step[OF wf[unfolded l_def] fits[unfolded l_def]] by (auto simp: l_def)
  then have 1: "undo_blkinfo u (st1, ?wb) = (Inr (), (?st2, ?wb2))"
    using smap_erase_last[of "zip (map txNum0 (l_blks l)) [0..<length c]" ?n "length c"]
    by (simp add: undo_blkinfo_def same bt uf setDirty_def WriteBatch_new_def)
  let ?wb3 = "?wb2\<lparr>wb_shist := map (\<lambda>h. put_or_delete h (hist_tab (l_hist l) h)) (u_scriptHashes u)\<rparr>"
  have hok: "\<forall>h v. l_hist l h = Some v \<longrightarrow> hist_ok (length (l_txs l)) v" using wf by (simp add: ledger_wf_def)
  have "contents (s_shist ?st2) = hist_tab (hist_after ?n txs (l_utxo l) (l_hist l))" using r same by simp
  then have 2: "efor (undo_history R ?n) (u_scriptHashes u) (?st2, ?wb2) = (Inr (), (?st2, ?wb3))"
    using undo_histories_ok[OF hok sz(1), of ?st2 "l_utxo l" "u_scriptHashes u" ?wb2] uf(3) by (simp add: setDirty_def WriteBatch_new_def)
  obtain ct o3 o4 where 3: "undo_utxos u (?st2, ?wb3) = (Inr (), (?st2\<lparr>utxoCt := ct\<rparr>, ?wb3\<lparr>wb_utxoset := o3, wb_shunspent := o4\<rparr>))"
      "utxo_repr (l_txs l) (fold apply_op o3 (contents (s_utxoset st))) (fold apply_op o4 (contents (s_shunspent st))) ct (l_utxo l)"
    using undo_utxos_ok[OF wf fits u[folded l_def], of ?st2 ?wb3] r same by (auto simp: lb setDirty_def WriteBatch_new_def)
  obtain eu where 4: "drop_undo u (?st2\<lparr>utxoCt := ct\<rparr>, ?wb3\<lparr>wb_utxoset := o3, wb_shunspent := o4\<rparr>) =
      (Inr (), (?st2\<lparr>utxoCt := ct, earliestUndoHeight := eu\<rparr>, ?wb3\<lparr>wb_utxoset := o3, wb_shunspent := o4, wb_undo := [Delete (height_key ?h)]\<rparr>))"
  proof (cases "earliestUndoHeight st1 \<ge> ?h")
    case True
    then show ?thesis using that[of InvalidUndoHeight] by (simp add: drop_undo_def uf setDirty_def WriteBatch_new_def)
  next
    case False
    then show ?thesis using that[of "earliestUndoHeight st1"] by (simp add: drop_undo_def uf setDirty_def WriteBatch_new_def)
  qed
  let ?st4 = "?st2\<lparr>utxoCt := ct, earliestUndoHeight := eu\<rparr>" and ?wb4 = "?wb3\<lparr>wb_utxoset := o3, wb_shunspent := o4, wb_undo := [Delete (height_key ?h)]\<rparr>"
  obtain m o2 where 5: "truncate_index R ?n (?st4, ?wb4) = (Inr (), (?st4\<lparr>txhash2txnumMgr := m\<rparr>, ?wb4\<lparr>wb_txhash2txnum := o2\<rparr>))"
      "idx_ok (fold apply_op o2 (contents (s_txhash2txnum st))) m (l_txs l)"
    using truncate_index_ok[of ?st4 "l_txs l @ map txid txs" "length (l_txs l)" ?wb4] r same sz(2) by (auto simp: setDirty_def WriteBatch_new_def)
  let ?st5 = "?st4\<lparr>txhash2txnumMgr := m\<rparr>" and ?wb5 = "?wb4\<lparr>wb_txhash2txnum := o2\<rparr>"
  obtain d o1 where 6: "truncate_txnums R ?n (?st5, ?wb5) = (Inr (), (?st5\<lparr>txNumNext := ?n, txNumsDRA := d\<rparr>, ?wb5\<lparr>wb_txnums := o1\<rparr>))"
      "dra_repr (fold apply_op o1 (contents (s_txnums st))) d (l_txs l)" "recSz d = HashLen"
    using truncate_txnums_ok[of ?st5 "l_txs l @ map txid txs" "length (l_txs l)" ?wb5] r same sz(1) by (auto simp: setDirty_def WriteBatch_new_def)
  let ?st6 = "?st5\<lparr>txNumNext := ?n, txNumsDRA := d\<rparr>" and ?wb6 = "?wb5\<lparr>wb_txnums := o1\<rparr>"
  have "undo_body R u (st1, ?wb) = (Inr (), (?st6, saveUtxoCt ?st6 ?wb6))"
    unfolding undo_body_def uf(2) BlkInfo.simps
    by (simp only: ebind_Inr[where f = "undo_blkinfo _", OF 1] ebind_Inr[where f = "efor _ _", OF 2] ebind_Inr[where f = "undo_utxos _", OF 3(1)]
        ebind_Inr[where f = "drop_undo _", OF 4] ebind_Inr[where f = "truncate_index _ _", OF 5(1)] ebind_Inr[where f = "truncate_txnums _ _", OF 6(1)] prod.case)
  then have body: "undo_body R u (st1, ?wb) =
      (Inr (), (st1\<lparr>txNumsDRA := d, txNumNext := ?n, txhash2txnumMgr := m, utxoCt := ct, blkInfos := l_blks l,
                    blkInfosByTxNum := zip (map txNum0 (l_blks l)) [0..<length c], earliestUndoHeight := eu\<rparr>,
                 \<lparr> wb_txnums = o1, wb_txhash2txnum = o2, wb_utxoset = o3, wb_shunspent = o4,
                    wb_shist = map (\<lambda>h. put_or_delete h (hist_tab (l_hist l) h)) (u_scriptHashes u),
                    wb_blkinfo = [Delete (height_key ?h)], wb_undo = [Delete (height_key ?h)],
                    wb_meta = [Put kDirty kTrue, Put kUtxoCount (SerializeScalar False 8 ct)] \<rparr>))"
    by (simp add: saveUtxoCt_def setDirty_def WriteBatch_new_def)
  show ?thesis by (intro exI conjI) (fact body 6 5 3)+
qed

end

lemma undo_repr_cut:
  assumes "undo_repr (c @ [b]) Um m" "length c < max_height"
  shows "undo_repr c (Um(length c := None)) (m(height_key (of_nat (length c)) := None))"
proof -
  have "undo_repr (c @ [b]) (Um(length c := None)) (m(height_key (of_nat (length c)) := None))"
    by (rule undo_repr_del[OF assms(1)]) (use assms(2) in simp_all)
  then have t: "table_of height_row raw_val (Um(length c := None)) (m(height_key (of_nat (length c)) := None))"
    and rows: "\<And>i s. (Um(length c := None)) i = Some s \<Longrightarrow> i < length (c @ [b]) \<and>
      undo_row_ok (chain_ledger (take i (c @ [b]))) (fst ((c @ [b]) ! i)) (snd ((c @ [b]) ! i)) s"
    unfolding undo_repr_def by blast+
  have "i < length c \<and> undo_row_ok (chain_ledger (take i c)) (fst (c ! i)) (snd (c ! i)) s" if s: "(Um(length c := None)) i = Some s" for i s
  proof -
    have "i \<noteq> length c" using s by auto
    then have "i < length c" using rows[OF s] by simp
    then show ?thesis using rows[OF s] by (simp add: nth_append)
  qed
  then show ?thesis using t unfolding undo_repr_def by blast
qed

lemma undo_row_at:
  assumes "undo_repr c Um m" "m (height_key (of_nat i)) = Some s" "length c \<le> max_height" "i < length c"
  shows "undo_row_ok (chain_ledger (take i c)) (fst (c ! i)) (snd (c ! i)) s"
proof -
  obtain j where j: "Um j = Some s" "height_key (of_nat j) = height_key (of_nat i)"
    using assms(1,2) by (auto simp: undo_repr_def table_of_def height_row_def raw_val_def)
  then have "j < length c" using assms(1) by (auto simp: undo_repr_def)
  then have "j = i" using height_key_inj[OF _ _ j(2)] assms(3,4) by simp
  then show ?thesis using j(1) assms(1) by (auto simp: undo_repr_def)
qed

context rocksdb_laws
begin

lemma undo_headers_stage:
  assumes "store_inv contents hdr (map fst c @ [raw])" "c \<noteq> []"
  shows "\<exists>ph hdr'. undo_prevHeader R hdr = Inr (length c - 1, ph) \<and> undoLatestBlock_headers R hdr = (Inr (length c - 1), hdr') \<and>
    store_inv contents hdr' (map fst c) \<and> lastHeaderProcessed (headerVerifier hdr) = (int (length c), raw)"
proof -
  obtain hdr' where u: "undoLatestBlock_headers R hdr = (Inr (length c - 1), hdr')" "store_inv contents hdr' (map fst c)"
    using undo_headers_ok[OF assms(1)] assms(2) by auto
  obtain pn ph where p: "undo_prevHeader R hdr = Inr (pn, ph)"
    using u(1) by (cases "undo_prevHeader R hdr") (auto simp: undoLatestBlock_headers_def)
  then have "pn = length c - 1"
    using u(1) by (auto simp: undoLatestBlock_headers_def Let_def split: prod.splits sum.splits)
  moreover have "lastHeaderProcessed (headerVerifier hdr) = (int (length c), raw)"
    using assms(1) by (simp add: store_inv_def lastHeaderProcessed_def verifier_of_def)
  ultimately show ?thesis using u p by blast
qed

lemma undoLatestBlock_ok:
  assumes repr: "store_repr contents st (c @ [(raw, txs)])" and ne: "c \<noteq> []"
    and row: "contents (s_undo st) (height_key (of_nat (length c))) \<noteq> None"
  shows "\<exists>st'. undoLatestBlock R st = (Inr (length c - 1), st') \<and> store_repr contents st' c \<and>
    contents (s_undo st') = (contents (s_undo st))(height_key (of_nat (length c)) := None)"
proof -
  let ?l = "chain_ledger c" and ?l' = "chain_ledger (c @ [(raw, txs)])" and ?h = "of_nat (length c) :: BlockHeight"
  let ?n = "of_nat (length (l_txs ?l)) :: TxNum"
  have inv: "store_inv contents (s_hdr st) (map fst c @ [raw])" and cf: "chain_fits (c @ [(raw, txs)])"
    and hist: "contents (s_shist st) = hist_tab (l_hist ?l')" and blk: "table_of height_row blk_val (blk_map (l_blks ?l')) (contents (s_blkinfo st))"
    and bi: "blkInfos st = l_blks ?l'" using repr by (simp_all add: store_repr_def Let_def)
  obtain Um where um: "undo_repr (c @ [(raw, txs)]) Um (contents (s_undo st))" using repr by (auto simp: store_repr_def Let_def)
  have fits: "block_fits ?l txs" and cfc: "chain_fits c" using cf by (simp_all add: chain_fits_snoc)
  then have len: "length c < max_height" by (simp add: block_fits_def length_l_blks)
  have l': "l_hist ?l' = hist_after ?n txs (l_utxo ?l) (l_hist ?l)" "l_blks ?l' = l_blks ?l @ [\<lparr> txNum0 = ?n, nTx = of_nat (length txs) \<rparr>]"
    by (simp_all add: ledger_of_snoc apply_block_def Let_def length_l_blks del: map_append)
  obtain s where s: "contents (s_undo st) (height_key ?h) = Some s" using row by blast
  have "undo_row_ok (chain_ledger (take (length c) (c @ [(raw, txs)]))) (fst ((c @ [(raw, txs)]) ! length c)) (snd ((c @ [(raw, txs)]) ! length c)) s"
    by (rule undo_row_at[OF um s]) (use len in simp_all)
  then obtain u where u: "Deserialize_UndoInfo s = Some u" "undo_matches ?l raw txs u" by (auto simp: undo_row_ok_def)
  obtain ph hdr' where hd: "undo_prevHeader R (s_hdr st) = Inr (length c - 1, ph)" "undoLatestBlock_headers R (s_hdr st) = (Inr (length c - 1), hdr')"
      "store_inv contents hdr' (map fst c)" "lastHeaderProcessed (headerVerifier (s_hdr st)) = (int (length c), raw)"
    using undo_headers_stage[OF inv ne] by blast
  let ?st1 = "st\<lparr>s_hdr := hdr'\<lparr>hs_db := hs_db (s_hdr st)\<rparr>\<rparr>"
  have get: "GenericDBGet R (s_undo st) (height_key ?h) True (deser_object Deserialize_UndoInfo) = Inr (Some u)"
    by (simp add: GenericDBGet_found[OF s] deser_object_def u(1))
  have sane: "undo_sane st (int (length c)) (length c - 1) raw u"
    using u(2) undo_matches_ok[OF chain_fits_wf[OF cfc] fits u(2)] ne
    by (simp add: undo_sane_def undo_ok_def undo_matches_def bi[unfolded l'(2)] length_l_blks)
  from undo_body_ok[OF repr u(2), of ?st1] obtain d o1 m o2 ct eu o3 o4 where
    body: "undo_body R u (?st1, setDirty True WriteBatch_new) =
      (Inr (), (?st1\<lparr>txNumsDRA := d, txNumNext := ?n, txhash2txnumMgr := m, utxoCt := ct, blkInfos := l_blks ?l,
                    blkInfosByTxNum := zip (map txNum0 (l_blks ?l)) [0..<length c], earliestUndoHeight := eu\<rparr>,
                 \<lparr> wb_txnums = o1, wb_txhash2txnum = o2, wb_utxoset = o3, wb_shunspent = o4,
                    wb_shist = map (\<lambda>h. put_or_delete h (hist_tab (l_hist ?l) h)) (u_scriptHashes u),
                    wb_blkinfo = [Delete (height_key ?h)], wb_undo = [Delete (height_key ?h)],
                    wb_meta = [Put kDirty kTrue, Put kUtxoCount (SerializeScalar False 8 ct)] \<rparr>))"
    and post: "dra_repr (fold apply_op o1 (contents (s_txnums st))) d (l_txs ?l)" "recSz d = HashLen"
      "idx_ok (fold apply_op o2 (contents (s_txhash2txnum st))) m (l_txs ?l)"
      "utxo_repr (l_txs ?l) (fold apply_op o3 (contents (s_utxoset st))) (fold apply_op o4 (contents (s_shunspent st))) ct (l_utxo ?l)"
    by auto
  define st' where "st' = (write_batch R (setDirty False
     \<lparr> wb_txnums = o1, wb_txhash2txnum = o2, wb_utxoset = o3, wb_shunspent = o4,
       wb_shist = map (\<lambda>h. put_or_delete h (hist_tab (l_hist ?l) h)) (u_scriptHashes u),
       wb_blkinfo = [Delete (height_key ?h)], wb_undo = [Delete (height_key ?h)],
       wb_meta = [Put kDirty kTrue, Put kUtxoCount (SerializeScalar False 8 ct)] \<rparr>)
     (?st1\<lparr>txNumsDRA := d, txNumNext := ?n, txhash2txnumMgr := m, utxoCt := ct, blkInfos := l_blks ?l,
         blkInfosByTxNum := zip (map txNum0 (l_blks ?l)) [0..<length c], earliestUndoHeight := eu\<rparr>))\<lparr>s_hdr := hdr'\<rparr>"
  have undo: "undoLatestBlock R st = (Inr (length c - 1), st')"
    unfolding undoLatestBlock_def hd(1) sum.case prod.case hd(4) Let_def of_int_of_nat_eq get Write_ok option.case hd(2) body st'_def
    using sane by simp
  have shs: "set (u_scriptHashes u) = {h. touching txs (l_utxo ?l) h \<noteq> {}}" using u(2) by (simp add: undo_matches_def)
  have hist': "contents (s_shist st') = hist_tab (l_hist ?l)"
    using undo_history_table[OF shs, of "l_hist ?l" ?n] by (simp add: st'_def write_batch_def setDirty_def contents_Write hist l'(1) del: map_append)
  have blk': "table_of height_row blk_val (blk_map (l_blks ?l)) (contents (s_blkinfo st'))"
    using blk_table_del[OF blk[unfolded l'(2)]] len by (simp add: st'_def write_batch_def setDirty_def contents_Write length_l_blks)
  have meta: "meta_ok (utxoCt st') c (contents (s_meta st'))"
    using meta_keys by (simp add: st'_def write_batch_def setDirty_def contents_Write meta_ok_def)
  have ur: "contents (s_undo st') = (contents (s_undo st))(height_key ?h := None)" by (simp add: st'_def write_batch_def setDirty_def contents_Write)
  have "store_repr contents st' c"
    unfolding store_repr_def Let_def
  proof (intro conjI)
    show "\<exists>Um. undo_repr c Um (contents (s_undo st'))" unfolding ur using undo_repr_cut[OF um len] by blast
  qed (use cfc hd(3) post hist' blk' meta in \<open>simp_all add: st'_def write_batch_def setDirty_def contents_Write length_l_blks\<close>)
  then show ?thesis using undo ur by blast
qed

end

end
