(* ===== verification/Storage_Properties.thy ===== *)
theory Storage_Properties
  imports Storage_Correct
begin

text \<open>
  The properties of \<open>Storage::addBlock\<close> and \<open>Storage::undoLatestBlock\<close> as a caller sees them, from the raw block on:
  adding a block and undoing it.
\<close>

lemma addBlock_bad_header:
  assumes "verify_object (ppb_header p) (headerVerifier (s_hdr st)) = Inr (Inl msg)"
  shows "addBlock R depth p saveUndo st = (Inl (SeHeader (StHeaderVerificationFailure msg)), st)"
  using assms by (simp add: addBlock_def)

section \<open>Blocks as they arrive\<close>

text \<open>A block that may follow the chain: its header extends the header chain, its transactions are new and spend existing
  outputs, and the undo record, if it is to be saved, stays within the format's limit.\<close>

definition block_valid :: "'db Store \<Rightarrow> chain \<Rightarrow> CBlock \<Rightarrow> bool \<Rightarrow> bool" where
  "block_valid st c b saveUndo \<longleftrightarrow> header_fits st c (blk_header b) \<and> block_fits (chain_ledger c) (vtx b) \<and>
     (saveUndo \<longrightarrow> undo_small (chain_ledger c) (Serialize_CBlockHeader (blk_header b)) (vtx b))"

definition block_entry :: "CBlock \<Rightarrow> bytes \<times> CTransaction list" where
  "block_entry b = (Serialize_CBlockHeader (blk_header b), vtx b)"

text \<open>Preprocessing and then adding a block, as the download task and the controller do.\<close>

lemma block_filled:
  assumes "block_valid st c b saveUndo"
  obtains p where "fill (of_nat (length c)) hash nbytes b = Inr p" "block_accepted st c p (vtx b) saveUndo" "ppb_header p = blk_header b"
proof -
  have "block_wf (vtx b)" using assms by (simp add: block_valid_def block_fits_def)
  from fill_ok[OF this] obtain p where "fill (of_nat (length c)) hash nbytes b = Inr p" "summarises (vtx b) p"
      "ppb_height p = of_nat (length c)" "ppb_header p = blk_header b" by blast
  then show ?thesis using assms by (intro that[of p]) (simp_all add: block_accepted_def block_valid_def)
qed

section \<open>A concrete store\<close>

lemma table_of_fmempty: "table_of key val Map.empty (fmlookup fmempty)"
  by (simp add: table_of_def)

lemma blk_map_Nil: "blk_map [] = Map.empty"
  by (simp add: blk_map_def fun_eq_iff)

definition demo_blank :: "(bytes, bytes) fmap header_store \<Rightarrow> (bytes, bytes) fmap \<Rightarrow> DBRecordArray \<Rightarrow> (bytes, bytes) fmap Store" where
  "demo_blank hdr db d = \<lparr> s_hdr = hdr, s_txnums = db, txNumsDRA = d, s_txhash2txnum = fmempty, txhash2txnumMgr = demo_mgr, s_utxoset = fmempty,
     s_shunspent = fmempty, s_shist = fmempty, s_blkinfo = fmempty, s_undo = fmempty, s_meta = fmempty, txNumNext = 0, blkInfos = [],
     blkInfosByTxNum = [], utxoCt = 0, earliestUndoHeight = InvalidUndoHeight \<rparr>"

lemma demo_blank_repr: "\<exists>hdr db d. store_repr fmlookup (demo_blank hdr db d) [] \<and> headerRecSz hdr = 164"
proof -
  obtain hdb hd where h: "store_inv fmlookup (empty_store hdb hd) []" using demo_store by blast
  have "has_single_bit (unat demo_pot)" using popcount_pow2[of 1] by (simp add: has_single_bit_def demo_pot_def)
  moreover have e: "fmlookup fmempty = (Map.empty :: bytes \<rightharpoonup> bytes)" by (rule ext) simp
  ultimately obtain db d where d: "dra_repr (fmlookup db) d []" "recSz d = 32"
    using fm.create_ok[of fmempty demo_pot 32 7] by (auto simp: demo_pot_def)
  have u: "undo_repr [] Map.empty (fmlookup fmempty)" by (simp add: undo_repr_def table_of_fmempty)
  have "store_repr fmlookup (demo_blank (empty_store hdb hd) db d) []"
    unfolding store_repr_def Let_def
  proof (intro conjI)
    show "\<exists>Um. undo_repr [] Um (fmlookup (s_undo (demo_blank (empty_store hdb hd) db d)))" using u by (auto simp: demo_blank_def)
    show "utxo_repr (l_txs (chain_ledger [])) (fmlookup (s_utxoset (demo_blank (empty_store hdb hd) db d)))
      (fmlookup (s_shunspent (demo_blank (empty_store hdb hd) db d))) (utxoCt (demo_blank (empty_store hdb hd) db d)) (l_utxo (chain_ledger []))"
      by (simp add: table_of_fmempty utxo_repr_def demo_blank_def ledger_of_def ledger_empty_def)
  qed (use h d demo_index_empty in \<open>simp_all add: demo_blank_def ledger_of_def ledger_empty_def chain_fits_def meta_ok_def hist_tab_def fun_eq_iff blk_map_Nil table_of_fmempty\<close>)
  then show ?thesis by (intro exI[of _ "empty_store hdb hd"]) (auto simp: empty_store_def)
qed


definition demo_block :: CBlock where
  "demo_block = \<lparr> blk_header = demo_header, vtx = demo_txs, blk_mw_blob = None \<rparr>"

definition demo_txs2 :: "CTransaction list" where
  "demo_txs2 = [(hd demo_txs)\<lparr>tx_hash := replicate 32 3\<rparr>]"

definition demo_block2 :: CBlock where
  "demo_block2 = \<lparr> blk_header = demo_child, vtx = demo_txs2, blk_mw_blob = None \<rparr>"


text \<open>The undo record of a block that spends only its own outputs is small when the block is.\<close>

lemma length_undo_bytes:
  assumes "undo_ok u" "u_delUndos u = []" "Serialize_UndoInfo u = Inr s"
  shows "length s \<le> 72 + 32 * length (u_scriptHashes u) + 76 * length (u_addUndos u)"
proof -
  have "length (u_hash u) = 32" "\<forall>h \<in> set (u_scriptHashes u). length h = 32" "list_all add_ok (u_addUndos u)"
    using assms(1) by (simp_all add: undo_ok_def undo_isValid_def)
  then show ?thesis
    using assms(2,3) length_concat_32[of "u_scriptHashes u"] length_ser_addUndos[of "u_addUndos u"]
    by (auto simp: Serialize_UndoInfo_def Let_def rbind_def BlkInfo_toBytes_append[of "_ @ _"] length_BlkInfo_toBytes length_undo_header
        SerializeScalar_def split: if_splits)
qed

lemma touched_count:
  assumes "outside_ins txs = []"
  shows "finite {h. touching txs U h \<noteq> {}} \<and> card {h. touching txs U h \<noteq> {}} \<le> nouts txs + nins txs"
proof -
  let ?A = "(\<lambda>e. HashXFromCScript (scriptPubKey (snd (snd e)))) ` set (all_outs 0 txs)" and ?B = "(snd \<circ> snd) ` set (in_events txs)"
  have "length (events txs n) \<le> n" for n
  proof (induction n)
    case (Suc n)
    have "length (in_event txs n) \<le> 1" by (auto simp: in_event_def Let_def split: option.split)
    then show ?case using Suc by (simp add: events_def)
  qed (simp add: events_def)
  then have "card ?A + card ?B \<le> nouts txs + nins txs"
    unfolding in_events_def by (intro add_mono order.trans[OF card_image_le] order.trans[OF card_length]) simp_all
  moreover have "{h. touching txs U h \<noteq> {}} \<subseteq> ?A \<union> ?B"
    using assms by (force simp: touching_def touches_def pays_to_def outside_events_def)
  ultimately show ?thesis using card_mono[of "?A \<union> ?B"] card_Un_le[of ?A ?B] finite_subset[of _ "?A \<union> ?B"] by (meson List.finite_set finite_Un finite_imageI order.trans)
qed

lemma undo_small_inside:
  assumes "ledger_wf l" "block_fits l txs" "outside_ins txs = []" "72 + 32 * (nouts txs + nins txs) + 76 * nouts txs < 2 ^ 31"
  shows "undo_small l hdr txs"
  unfolding undo_small_def
proof (intro allI impI)
  fix u s assume u: "undo_matches l hdr txs u" "Serialize_UndoInfo u = Inr s"
  have "length (u_scriptHashes u) \<le> nouts txs + nins txs"
    using u(1) touched_count[OF assms(3), of "l_utxo l"] distinct_card[of "u_scriptHashes u"] by (auto simp: undo_matches_def)
  moreover obtain ks where ks: "distinct ks" "set ks = kept_outs txs" "length (u_addUndos u) = length ks"
    using u(1) by (auto simp: undo_matches_def)
  moreover from this have "length ks \<le> nouts txs"
    using card_mono[of "{..<nouts txs}" "set ks"] distinct_card[of ks] by (auto simp: kept_outs_def)
  moreover have "u_delUndos u = []" using u(1) assms(3) by (simp add: undo_matches_def)
  ultimately show "length s < 2 ^ 31"
    using length_undo_bytes[OF undo_matches_ok[OF assms(1,2) u(1)] _ u(2)] assms(4) by simp
qed

lemma demo_outside: "outside_ins demo_txs = []"
  by code_simp

lemma demo_block_fits: "block_fits ledger_empty demo_txs"
  using demo_txs_wf demo_outside
  by (auto simp: block_fits_def demo_out_def out_fits_def ledger_empty_def max_txnums_def max_height_def) (auto simp: demo_txs_def demo_out_def)


abbreviation "demo_raw \<equiv> Serialize_CBlockHeader demo_header"

lemma demo_block_add:
  assumes "store_repr contents st []" "headerRecSz (s_hdr st) = 164"
  shows "block_valid st [] demo_block True"
proof -
  have "chain_ok [demo_raw]" using chain_ok_prefix[of "[demo_raw]"] demo_child_ok(4) by simp
  moreover have "fork_ok [demo_raw]" using demo_header_ok(5) by (simp add: fork_ok_def)
  ultimately have "header_fits st [] demo_header" using demo_header_ok assms(2) by (simp add: header_fits_def MAX_HEADERS_def)
  moreover have "undo_small ledger_empty demo_raw demo_txs"
    by (rule undo_small_inside[OF ledger_empty_wf demo_block_fits demo_outside]) (simp add: demo_txs_def)
  ultimately show ?thesis using demo_block_fits by (simp add: block_valid_def demo_block_def ledger_of_def)
qed


lemma demo_block2_add:
  assumes "store_repr contents st [block_entry demo_block]" "headerRecSz (s_hdr st) = 164"
  shows "block_valid st [block_entry demo_block] demo_block2 True"
proof -
  let ?c = "[block_entry demo_block]"
  have e: "map fst ?c @ [Serialize_CBlockHeader demo_child] = [demo_raw, Serialize_CBlockHeader demo_child]"
    by (simp add: block_entry_def demo_block_def)
  have "\<not> IsHeaderV2 (Serialize_CBlockHeader demo_child)"
    using IsHeaderV2_Serialize[of demo_child "[]"] demo_child_ok(2) by simp
  then have "fork_ok [demo_raw, Serialize_CBlockHeader demo_child]"
    using demo_header_ok(5) by (auto simp: fork_ok_def nth_Cons split: nat.splits)
  then have hf: "header_fits st ?c demo_child"
    using demo_child_ok assms(2) by (simp add: header_fits_def MAX_HEADERS_def block_entry_def demo_block_def)
  have l: "l_txs (chain_ledger ?c) = map txid demo_txs" "length (l_blks (chain_ledger ?c)) = 1"
    by (simp_all add: ledger_of_def apply_block_def Let_def ledger_empty_def block_entry_def demo_block_def)
  have out: "outside_ins demo_txs2 = []" by code_simp
  have new: "txid tx \<notin> set (map txid demo_txs)" if "tx \<in> set demo_txs2" for tx
    using that by (simp add: demo_txs2_def demo_txs_def Hash2ByteArrayRev_def)
  have wf2: "block_wf demo_txs2"
    by (auto simp: block_wf_def ionums_ok_def demo_txs2_def demo_txs_def IONumMax_def parent_tx_def Hash2ByteArrayRev_def COutPoint_default_def less_Suc_eq)
  have fits: "block_fits (chain_ledger ?c) demo_txs2"
    unfolding block_fits_def l using new wf2 out
    by (auto simp: demo_txs2_def demo_txs_def out_fits_def demo_out_def max_txnums_def max_height_def)
  have "chain_fits ?c" using demo_block_fits by (simp add: chain_fits_def block_entry_def demo_block_def ledger_of_def)
  then have "undo_small (chain_ledger ?c) (Serialize_CBlockHeader demo_child) demo_txs2"
    by (intro undo_small_inside[OF chain_fits_wf fits out]) (simp_all add: demo_txs2_def demo_txs_def)
  then show ?thesis using hf fits by (simp add: block_valid_def demo_block2_def)
qed

section \<open>Properties\<close>

text \<open>C1: Adding a block is correct. If the store represents the chain \<open>c\<close> and the block may follow it, then the
  summary of the block is computed, \<open>addBlock\<close> succeeds on it, and the new store represents the chain with the block
  appended: headers, transaction numbers, the hash index, the UTXO set and its copy by script hash, the
  histories, the block table, the counters and the undo records are all those of the longer chain.\<close>

theorem add_block_correct:
  assumes "rocksdb_laws R contents" and "store_repr contents st c" and "block_valid st c b saveUndo" and "0 < sint depth"
  shows "\<exists>p st'. fill (of_nat (length c)) hash nbytes b = Inr p \<and> addBlock R depth p saveUndo st = (Inr (), st') \<and>
    store_repr contents st' (c @ [block_entry b])"
proof -
  obtain p where p: "fill (of_nat (length c)) hash nbytes b = Inr p" "block_accepted st c p (vtx b) saveUndo" "ppb_header p = blk_header b"
    using block_filled[OF assms(3)] by blast
  from rocksdb_laws.addBlock_ok[OF assms(1,2) p(2) assms(4)] p(1,3) show ?thesis by (auto simp: block_entry_def)
qed

theorem add_block_correct_witness:
  "\<exists>hdr db d p st'. store_repr fmlookup (demo_blank hdr db d) [] \<and> fill 0 [] 300 demo_block = Inr p \<and>
     addBlock fm_rocksdb 100 p True (demo_blank hdr db d) = (Inr (), st') \<and> store_repr fmlookup st' [block_entry demo_block]"
proof -
  obtain hdr db d where s: "store_repr fmlookup (demo_blank hdr db d) []" "headerRecSz hdr = 164" using demo_blank_repr by blast
  have v: "block_valid (demo_blank hdr db d) [] demo_block True" using demo_block_add[OF s(1)] s(2) by (simp add: demo_blank_def)
  have "0 < sint (100 :: u32)" by simp
  from add_block_correct[OF fm.rocksdb_laws_axioms s(1) v this, of "[]" 300] obtain p st' where "fill 0 [] 300 demo_block = Inr p"
    "addBlock fm_rocksdb 100 p True (demo_blank hdr db d) = (Inr (), st')" "store_repr fmlookup st' [block_entry demo_block]" by auto
  then show ?thesis using s(1) by blast
qed

text \<open>C2: Undoing the latest block is correct. If the store represents a chain of at least two blocks and holds an undo
  record for the last of them, \<open>undoLatestBlock\<close> succeeds, returns the height of the block before it, leaves a store that
  represents the chain without its last block, and removes exactly that undo record.\<close>

theorem undo_block_correct:
  assumes "rocksdb_laws R contents" and "store_repr contents st (c @ [blk])" and "c \<noteq> []"
    and "contents (s_undo st) (height_key (of_nat (length c))) \<noteq> None"
  shows "\<exists>st'. undoLatestBlock R st = (Inr (length c - 1), st') \<and> store_repr contents st' c \<and>
    contents (s_undo st') = (contents (s_undo st))(height_key (of_nat (length c)) := None)"
  using rocksdb_laws.undoLatestBlock_ok[OF assms(1), of st c "fst blk" "snd blk"] assms(2-4) by simp

text \<open>Two blocks added to the empty store, both with undo records.\<close>

lemma demo_store1: "\<exists>st. store_repr fmlookup st [block_entry demo_block] \<and> headerRecSz (s_hdr st) = 164"
proof -
  obtain hdr db d where s: "store_repr fmlookup (demo_blank hdr db d) []" "headerRecSz hdr = 164" using demo_blank_repr by blast
  have "block_valid (demo_blank hdr db d) [] demo_block True" using demo_block_add[OF s(1)] s(2) by (simp add: demo_blank_def)
  then obtain p where p: "block_accepted (demo_blank hdr db d) [] p (vtx demo_block) True" "ppb_header p = blk_header demo_block"
    using block_filled by blast
  have "0 < sint (100 :: u32)" by simp
  from fm.addBlock_ok[OF s(1) p(1) this] show ?thesis using s(2) p(2) by (auto simp: block_entry_def demo_blank_def)
qed

lemma demo_store2:
  "\<exists>st. store_repr fmlookup st [block_entry demo_block, block_entry demo_block2] \<and> headerRecSz (s_hdr st) = 164 \<and>
     fmlookup (s_undo st) (height_key 1) \<noteq> None"
proof -
  obtain st where st: "store_repr fmlookup st [block_entry demo_block]" "headerRecSz (s_hdr st) = 164" using demo_store1 by blast
  then obtain p2 where p2: "block_accepted st [block_entry demo_block] p2 (vtx demo_block2) True" "ppb_header p2 = blk_header demo_block2"
    using block_filled[OF demo_block2_add[OF st]] by blast
  have "0 < sint (100 :: u32)" by simp
  from fm.addBlock_ok[OF st(1) p2(1) this] show ?thesis using st(2) p2(2) by (auto simp: block_entry_def rows_kept_def)
qed

theorem undo_block_correct_witness:
  "\<exists>st st'. store_repr fmlookup st [block_entry demo_block, block_entry demo_block2] \<and>
     undoLatestBlock fm_rocksdb st = (Inr 0, st') \<and> store_repr fmlookup st' [block_entry demo_block]"
proof -
  obtain st where st: "store_repr fmlookup st ([block_entry demo_block] @ [block_entry demo_block2])"
      "fmlookup (s_undo st) (height_key (of_nat (length [block_entry demo_block]))) \<noteq> None"
    using demo_store2 by auto
  from undo_block_correct[OF fm.rocksdb_laws_axioms st(1) _ st(2)] st(1) show ?thesis by auto
qed

end
