(* ===== verification/Chain_Sync.thy ===== *)
theory Chain_Sync
  imports Storage_Properties "HOL-Library.AList"
begin

text \<open>
  \<open>Controller.cpp\<close>: the state machine that follows bitcoind's chain. \<open>process\<close> and the handlers of the
  tasks' replies are functions on the state machine and the store; an event is one call from the event loop. Blocks
  arrive from concurrent download tasks in any order, so bitcoind and the tasks are the environment: they choose the events.

  The RPA index is taken as disabled (\<open>checkRpaIndexNeedsSync\<close> then returns false and no task is in RPA mode). Log
  output, progress statistics, signals to other parts of the program, timers and the stop flag are left out, and so is the name
  of the chain in the meta table. \<open>Fatal()\<close> shuts the program down: no event is handled after it.
\<close>

section \<open>State\<close>

datatype SmState =
    Begin | WaitingForChainInfo
  | GetBlocks | DownloadingBlocks | FinishedDL
  | DownloadingBlocks_RPA | FinishedDL_RPA
  | SmEnd | Failure | BitcoinDIsInHeaderDL
  | Retry | RetryInIBD
  | SynchMempool | SynchingMempool | SynchMempoolFinished
  | SynchDSPs | SynchingDSPs | SynchDSPsFinished

record StateMachine =
  sm_state :: SmState
  suppressSaveUndo :: bool
  sm_ht :: int
  nHeaders :: int
  dlResults :: "(nat \<times> PreProcessedBlock) list"
  startheight :: nat
  endHeight :: nat
  dlResultsHtNext :: nat

definition StateMachine_new :: StateMachine where
  "StateMachine_new = \<lparr> sm_state = Begin, suppressSaveUndo = False, sm_ht = - 1, nHeaders = - 1, dlResults = [], startheight = 0,
     endHeight = 0, dlResultsHtNext = 0 \<rparr>"

record ChainInfo =
  ci_blocks :: int
  ci_headers :: int
  bestBlockhash :: bytes
  initialBlockDownload :: bool

record 'db Controller =
  sm :: "StateMachine option"
  storage :: "'db Store"
  fatal :: bool

section \<open>Blocks\<close>

definition hasUndo :: "'db Store \<Rightarrow> bool" where
  "hasUndo st \<longleftrightarrow> earliestUndoHeight st \<noteq> InvalidUndoHeight"

text \<open>The helpers return the state machine, the store, and whether they called \<open>Fatal()\<close>.\<close>

definition process_DoUndoAndRetry :: "'db rocksdb \<Rightarrow> StateMachine \<Rightarrow> 'db Store \<Rightarrow> StateMachine \<times> 'db Store \<times> bool" where
  "process_DoUndoAndRetry R s st =
     (case undoLatestBlock R st of
        (Inr _, st) \<Rightarrow> (s\<lparr>sm_state := Retry\<rparr>, st, False)
      | (Inl e, st) \<Rightarrow> (s\<lparr>sm_state := Failure\<rparr>, st, True))"

definition saveUndoInfo :: "u32 \<Rightarrow> StateMachine \<Rightarrow> PreProcessedBlock \<Rightarrow> bool" where
  "saveUndoInfo configuredUndoDepth s ppb \<longleftrightarrow>
     \<not> suppressSaveUndo s \<and> sint (ppb_height ppb) > sm_ht s - sint configuredUndoDepth"

definition process_VerifyAndAddBlock ::
  "'db rocksdb \<Rightarrow> u32 \<Rightarrow> PreProcessedBlock \<Rightarrow> StateMachine \<Rightarrow> 'db Store \<Rightarrow> bool \<times> StateMachine \<times> 'db Store \<times> bool" where
  "process_VerifyAndAddBlock R configuredUndoDepth ppb s st =
     (case addBlock R configuredUndoDepth ppb (saveUndoInfo configuredUndoDepth s ppb) st of
        (Inr _, st) \<Rightarrow> (True, s, st, False)
      | (Inl (SeHeader (StHeaderVerificationFailure _)), st) \<Rightarrow> (False, process_DoUndoAndRetry R s st)
      | (Inl _, st) \<Rightarrow> (False, s\<lparr>sm_state := Failure\<rparr>, st, True))"

lemma VerifyAndAdd_keeps:
  "process_VerifyAndAddBlock R d ppb s st = (ok, s', st', f) \<Longrightarrow> dlResults s' = dlResults s"
  by (auto simp: process_VerifyAndAddBlock_def process_DoUndoAndRetry_def split: prod.splits sum.splits store_error.splits storage_error.splits)

function process_DownloadingBlocks ::
  "'db rocksdb \<Rightarrow> u32 \<Rightarrow> StateMachine \<Rightarrow> 'db Store \<Rightarrow> StateMachine \<times> 'db Store \<times> bool" where
  "process_DownloadingBlocks R configuredUndoDepth s st =
     (case map_of (dlResults s) (dlResultsHtNext s) of
        None \<Rightarrow> (s, st, False)
      | Some ppb \<Rightarrow>
          (case process_VerifyAndAddBlock R configuredUndoDepth ppb
                  (s\<lparr>dlResultsHtNext := dlResultsHtNext s + 1, dlResults := AList.delete (dlResultsHtNext s) (dlResults s)\<rparr>) st of
             (ok, s', st', f) \<Rightarrow>
               if \<not> ok then (s', st', f)
               else if dlResultsHtNext s' > endHeight s' then (s'\<lparr>sm_state := FinishedDL\<rparr>, st', f)
               else process_DownloadingBlocks R configuredUndoDepth s' st'))"
  by pat_completeness auto
termination
proof (relation "measure (\<lambda>(R, d, s, st). length (dlResults s))", goal_cases)
  case (2 R d s st ppb ok r s' r2 st' f)
  then have "process_VerifyAndAddBlock R d ppb (s\<lparr>dlResultsHtNext := dlResultsHtNext s + 1, dlResults := AList.delete (dlResultsHtNext s) (dlResults s)\<rparr>) st =
    (ok, s', st', f)" by simp
  from VerifyAndAdd_keeps[OF this] have "dlResults s' = AList.delete (dlResultsHtNext s) (dlResults s)" by simp
  moreover have "(dlResultsHtNext s, ppb) \<in> set (dlResults s)" using 2(1) by (rule map_of_SomeD)
  then have "length (AList.delete (dlResultsHtNext s) (dlResults s)) < length (dlResults s)"
    by (auto simp: AList.delete_eq intro!: length_filter_less)
  ultimately show ?case by simp
qed simp

declare process_DownloadingBlocks.simps [simp del]

text \<open>\<open>on_putBlock\<close>.\<close>

definition on_putBlock :: "'db rocksdb \<Rightarrow> u32 \<Rightarrow> PreProcessedBlock \<Rightarrow> StateMachine \<Rightarrow> 'db Store \<Rightarrow> StateMachine \<times> 'db Store \<times> bool" where
  "on_putBlock R configuredUndoDepth ppb s st =
     (if sm_state s \<noteq> DownloadingBlocks then (s, st, False)
      else process_DownloadingBlocks R configuredUndoDepth
             (s\<lparr>dlResults := AList.update (unat (ppb_height ppb)) ppb (dlResults s)\<rparr>) st)"

section \<open>The answer to getblockchaininfo\<close>

text \<open>\<open>GetChainInfoTask::process\<close>: the parsed values of the reply. \<open>None\<close> is the signal \<open>errored\<close>.\<close>

definition getChainInfo :: "int \<Rightarrow> int \<Rightarrow> bytes \<Rightarrow> bool \<Rightarrow> ChainInfo option" where
  "getChainInfo blocks headers hash ibd =
     (if blocks < 0 then None
      else
        let headers = (if headers < blocks then blocks else headers)
        in if length hash \<noteq> HashLen then None
           else Some \<lparr> ci_blocks = blocks, ci_headers = headers, bestBlockhash = hash, initialBlockDownload = ibd \<rparr>)"

text \<open>\<open>hashDaemon\<close> is the genesis hash bitcoind has reported, empty if it has not yet. An exception from hashing the tip
  leaves the slot, and the state as it was.\<close>

definition on_chainInfo ::
  "'db rocksdb \<Rightarrow> u32 \<Rightarrow> bool \<Rightarrow> bytes \<Rightarrow> ChainInfo \<Rightarrow> StateMachine \<Rightarrow> 'db Store \<Rightarrow> StateMachine \<times> 'db Store \<times> bool" where
  "on_chainInfo R configuredUndoDepth beSilentIfUpToDate hashDaemon info s st =
     (if sm_state s \<noteq> WaitingForChainInfo then (s, st, False)
      else if ci_blocks info < 1 \<and> initialBlockDownload info then (s\<lparr>sm_state := BitcoinDIsInHeaderDL\<rparr>, st, False)
      else if genesisHash (s_hdr st) \<noteq> [] \<and> hashDaemon \<noteq> [] \<and> genesisHash (s_hdr st) \<noteq> hashDaemon then (s, st, True)
      else
        (case latestTip (s_hdr st) of
           Inl e \<Rightarrow> (s, st, False)
         | Inr (tip, tipHash, tipHeader) \<Rightarrow>
             let s = s\<lparr>sm_ht := ci_blocks info, nHeaders := ci_headers info\<rparr>
             in if tip = sm_ht s then
                  if bestBlockhash info = tipHash then
                    if \<not> initialBlockDownload info then
                      (s\<lparr>sm_state := SynchMempool\<rparr>,
                       if \<not> beSilentIfUpToDate then st\<lparr>s_hdr := updateMerkleCache R (nat tip) (s_hdr st)\<rparr> else st, False)
                    else (s\<lparr>sm_state := RetryInIBD\<rparr>, st, False)
                  else process_DoUndoAndRetry R s st
                else if tip > sm_ht s then process_DoUndoAndRetry R s st
                else
                  (s\<lparr>sm_state := GetBlocks,
                     suppressSaveUndo :=
                       (if initialBlockDownload info \<and> \<not> hasUndo st
                        then nHeaders s > 0 \<and> sm_ht s > 0 \<and> nHeaders s \<ge> sm_ht s \<and> nHeaders s - sm_ht s > int (unat configuredUndoDepth)
                        else suppressSaveUndo s)\<rparr>, st, False)))"

section \<open>The event loop\<close>

definition genericTaskErrored :: "'db Controller \<Rightarrow> 'db Controller" where
  "genericTaskErrored c =
     (case sm c of
        None \<Rightarrow> c
      | Some s \<Rightarrow> if sm_state s \<noteq> Failure then c\<lparr>sm := Some (s\<lparr>sm_state := Failure\<rparr>)\<rparr> else c)"

definition sm_run :: "(StateMachine \<Rightarrow> 'db Store \<Rightarrow> StateMachine \<times> 'db Store \<times> bool) \<Rightarrow> 'db Controller \<Rightarrow> 'db Controller" where
  "sm_run f c =
     (case sm c of
        None \<Rightarrow> c
      | Some s \<Rightarrow> (case f s (storage c) of (s', st', ft) \<Rightarrow> c\<lparr>sm := Some s', storage := st', fatal := fatal c \<or> ft\<rparr>))"

text \<open>The state \<open>GetBlocks\<close>: the range of heights to download. \<open>FatalAssert\<close> stops the program when there is none.\<close>

definition start_download :: "StateMachine \<Rightarrow> 'db Store \<Rightarrow> StateMachine \<times> 'db Store \<times> bool" where
  "start_download s st =
     (case latestTip (s_hdr st) of
        Inl e \<Rightarrow> (s, st, False)
      | Inr (tip, _, _) \<Rightarrow>
          let base = nat (tip + 1)
          in if sm_ht s < 0 \<or> sm_ht s + 1 = int base then (s, st, True)
             else (s\<lparr>dlResultsHtNext := base, startheight := base, endHeight := nat (sm_ht s), sm_state := DownloadingBlocks\<rparr>, st, False))"

text \<open>\<open>coinKnown\<close>: bitcoind has told which coin it runs; \<open>tooLong\<close>: more than 30 seconds since the request; \<open>hasDSProofRPC\<close>: bitcoind
  serves double-spend proofs.\<close>

definition process ::
  "'db rocksdb \<Rightarrow> u32 \<Rightarrow> bool \<Rightarrow> bool \<Rightarrow> bool \<Rightarrow> 'db Controller \<Rightarrow> 'db Controller" where
  "process R configuredUndoDepth coinKnown tooLong hasDSProofRPC c =
     (let s = (case sm c of None \<Rightarrow> StateMachine_new | Some s \<Rightarrow> s);
          c = c\<lparr>sm := Some s\<rparr>
      in case sm_state s of
           Begin \<Rightarrow> if \<not> coinKnown then genericTaskErrored c else c\<lparr>sm := Some (s\<lparr>sm_state := WaitingForChainInfo\<rparr>)\<rparr>
         | WaitingForChainInfo \<Rightarrow> if tooLong then genericTaskErrored c else c
         | GetBlocks \<Rightarrow> sm_run start_download c
         | DownloadingBlocks \<Rightarrow> sm_run (process_DownloadingBlocks R configuredUndoDepth) c
         | DownloadingBlocks_RPA \<Rightarrow> sm_run (process_DownloadingBlocks R configuredUndoDepth) c
         | FinishedDL \<Rightarrow> c\<lparr>sm := None\<rparr>
         | FinishedDL_RPA \<Rightarrow> c\<lparr>sm := None\<rparr>
         | Retry \<Rightarrow> c\<lparr>sm := None\<rparr>
         | RetryInIBD \<Rightarrow> c\<lparr>sm := None\<rparr>
         | Failure \<Rightarrow> c\<lparr>sm := None\<rparr>
         | SmEnd \<Rightarrow> c\<lparr>sm := None\<rparr>
         | BitcoinDIsInHeaderDL \<Rightarrow> c\<lparr>sm := None\<rparr>
         | SynchMempool \<Rightarrow> c\<lparr>sm := Some (s\<lparr>sm_state := SynchingMempool\<rparr>)\<rparr>
         | SynchDSPs \<Rightarrow> c\<lparr>sm := Some (s\<lparr>sm_state := SynchingDSPs\<rparr>)\<rparr>
         | SynchingMempool \<Rightarrow> c
         | SynchingDSPs \<Rightarrow> c
         | SynchMempoolFinished \<Rightarrow> c\<lparr>sm := Some (s\<lparr>sm_state := (if hasDSProofRPC then SynchDSPs else SmEnd)\<rparr>)\<rparr>
         | SynchDSPsFinished \<Rightarrow> c\<lparr>sm := Some (s\<lparr>sm_state := SmEnd\<rparr>)\<rparr>)"

text \<open>The success handlers of the mempool and double-spend-proof tasks, and \<open>retryRecommended\<close>.\<close>

definition on_synchedMempool :: "StateMachine \<Rightarrow> StateMachine" where
  "on_synchedMempool s = (if sm_state s \<noteq> SynchingMempool then s else s\<lparr>sm_state := SynchMempoolFinished\<rparr>)"

definition on_synchedDSPs :: "StateMachine \<Rightarrow> StateMachine" where
  "on_synchedDSPs s = (if sm_state s \<noteq> SynchingDSPs then s else s\<lparr>sm_state := SynchDSPsFinished\<rparr>)"

datatype event =
    Process bool bool bool
  | ChainInfoReply bool bytes int int bytes bool
  | PutBlock PreProcessedBlock
  | TaskErrored
  | RetryRecommended
  | MempoolDone
  | DSPsDone

definition handle :: "'db rocksdb \<Rightarrow> u32 \<Rightarrow> event \<Rightarrow> 'db Controller \<Rightarrow> 'db Controller" where
  "handle R configuredUndoDepth ev c =
     (if fatal c then c
      else case ev of
        Process coinKnown tooLong hasDSP \<Rightarrow> process R configuredUndoDepth coinKnown tooLong hasDSP c
      | ChainInfoReply silent hashDaemon blocks headers hash ibd \<Rightarrow>
          (case getChainInfo blocks headers hash ibd of
             None \<Rightarrow> genericTaskErrored c
           | Some info \<Rightarrow> sm_run (on_chainInfo R configuredUndoDepth silent hashDaemon info) c)
      | PutBlock ppb \<Rightarrow> sm_run (on_putBlock R configuredUndoDepth ppb) c
      | TaskErrored \<Rightarrow> genericTaskErrored c
      | RetryRecommended \<Rightarrow> c\<lparr>sm := map_option (\<lambda>s. s\<lparr>sm_state := Retry\<rparr>) (sm c)\<rparr>
      | MempoolDone \<Rightarrow> c\<lparr>sm := map_option on_synchedMempool (sm c)\<rparr>
      | DSPsDone \<Rightarrow> c\<lparr>sm := map_option on_synchedDSPs (sm c)\<rparr>)"


section \<open>The environment\<close>

text \<open>The blocks bitcoind may ever serve form a tree: a set of chains closed under prefixes, each block valid on top of the ones before
  it, and no two chains of the same length that end in blocks with the same hash.\<close>

abbreviation entries :: "CBlock list \<Rightarrow> chain" where "entries \<equiv> map block_entry"

definition valid_next :: "nat \<Rightarrow> chain \<Rightarrow> CBlock \<Rightarrow> bool" where
  "valid_next K c b \<longleftrightarrow> header_ok (blk_header b) \<and> chain_ok (map fst c @ [fst (block_entry b)]) \<and> fork_ok (map fst c @ [fst (block_entry b)]) \<and>
     length (fst (block_entry b)) \<le> K \<and> length c < MAX_HEADERS \<and>
     block_fits (chain_ledger c) (vtx b) \<and> undo_small (chain_ledger c) (fst (block_entry b)) (vtx b)"

definition block_hash :: "CBlock \<Rightarrow> hash" where
  "block_hash b = hash_of (fst (block_entry b))"

definition block_tree :: "nat \<Rightarrow> CBlock list set \<Rightarrow> bool" where
  "block_tree K N \<longleftrightarrow> [] \<in> N \<and> (\<forall>bs b. bs @ [b] \<in> N \<longrightarrow> bs \<in> N \<and> valid_next K (entries bs) b) \<and>
     (\<forall>bs b bs' b'. bs @ [b] \<in> N \<longrightarrow> bs' @ [b'] \<in> N \<longrightarrow> length bs = length bs' \<longrightarrow> block_hash b = block_hash b' \<longrightarrow> bs @ [b] = bs' @ [b'])"

text \<open>A block as a download task hands it over, and the events that may occur: anything, as long as the blocks are bitcoind's.\<close>

definition served :: "CBlock list set \<Rightarrow> PreProcessedBlock \<Rightarrow> bool" where
  "served N ppb \<longleftrightarrow> (\<exists>bs b hash nbytes. bs @ [b] \<in> N \<and> fill (of_nat (length bs)) hash nbytes b = Inr ppb)"

fun ok_event :: "CBlock list set \<Rightarrow> event \<Rightarrow> bool" where
  "ok_event N (PutBlock ppb) = served N ppb"
| "ok_event N _ = True"

inductive sync_step :: "'db rocksdb \<Rightarrow> u32 \<Rightarrow> CBlock list set \<Rightarrow> 'db Controller \<Rightarrow> 'db Controller \<Rightarrow> bool" for R depth N where
  sync_event: "ok_event N ev \<Longrightarrow> sync_step R depth N c (handle R depth ev c)"

lemma valid_next_block: "valid_next K c b \<Longrightarrow> headerRecSz (s_hdr st) = K \<Longrightarrow> block_valid st c b u"
  by (simp add: valid_next_def block_valid_def header_fits_def block_entry_def)

lemma valid_next_iff: "headerRecSz (s_hdr st) = K \<Longrightarrow> valid_next K c b \<longleftrightarrow> block_valid st c b True"
  by (auto simp: valid_next_def block_valid_def header_fits_def block_entry_def)

lemma tree_prefix: "block_tree K N \<Longrightarrow> bs @ cs \<in> N \<Longrightarrow> bs \<in> N"
proof (induction cs rule: rev_induct)
  case (snoc c cs)
  then have "bs @ cs \<in> N" unfolding block_tree_def by (metis append_assoc)
  then show ?case using snoc by blast
qed simp

lemma tree_next: "block_tree K N \<Longrightarrow> bs @ [b] \<in> N \<Longrightarrow> valid_next K (entries bs) b"
  unfolding block_tree_def by blast

lemma tree_unique: "block_tree K N \<Longrightarrow> bs @ [b] \<in> N \<Longrightarrow> bs' @ [b'] \<in> N \<Longrightarrow> length bs = length bs' \<Longrightarrow> block_hash b = block_hash b' \<Longrightarrow> bs @ [b] = bs' @ [b']"
  unfolding block_tree_def by blast

lemma tree_height: "block_tree K N \<Longrightarrow> bs @ [b] \<in> N \<Longrightarrow> length bs < max_height"
  using tree_next[of K N bs b] length_l_blks[of "entries bs"] by (simp add: valid_next_def block_fits_def del: list.map_comp map_map)

text \<open>The header of one chain's block on top of another chain of the same length: it links exactly when the chains are the same.\<close>

lemma verify_cases:
  assumes "chain_ok hs" "header_ok h"
  shows "(\<exists>v. verify_object h (verifier_of hs) = Inr (Inr v)) \<or> (\<exists>msg. verify_object h (verifier_of hs) = Inr (Inl msg))"
  using assms by (auto simp: verify_object_def Let_def verify_finish_def checkInner_ok)

lemma tree_links:
  assumes "block_tree K N" "bs \<in> N" "bs' @ [b] \<in> N" "length bs' = length bs" "chain_ok (map fst (entries bs) @ [fst (block_entry b)])"
  shows "bs' = bs"
proof (cases bs rule: rev_cases)
  case (snoc xs x)
  then obtain ys y where ys: "bs' = ys @ [y]" using assms(4) by (cases bs' rule: rev_cases) auto
  have hdr: "header_ok (blk_header b)" and c': "chain_ok (map fst (entries bs') @ [fst (block_entry b)])"
    using tree_next[OF assms(1,3)] by (simp_all add: valid_next_def)
  have one: "header_ok g \<Longrightarrow> fst (block_entry b) = Serialize_CBlockHeader g \<Longrightarrow> g = blk_header b" for g
    using block_header.ser_prefix_free[of g "blk_header b" "[]" "[]"] hdr by (simp add: block_entry_def)
  have link: "HeaderPoWHash (fst (block_entry z)) = Inr (hashPrevBlock (blk_header b))"
    if "chain_ok (map fst (entries (zs @ [z])) @ [fst (block_entry b)])" for zs z
    using that one unfolding chain_ok_snoc by auto
  have "block_hash x = block_hash y"
    using link[of xs x] link[of ys y] assms(5) c' snoc ys by (simp add: block_hash_def hash_of_def)
  moreover have "xs @ [x] \<in> N" "ys @ [y] \<in> N" using assms(2) snoc tree_prefix[OF assms(1,3)] ys by simp_all
  ultimately show ?thesis using tree_unique[OF assms(1), of xs x ys y] assms(4) snoc ys by simp
qed (use assms(4) in simp)


section \<open>Safety\<close>

text \<open>The store represents a chain of the tree, and while blocks are being downloaded the next one expected is the one after its tip.\<close>

definition sm_inv :: "CBlock list set \<Rightarrow> CBlock list \<Rightarrow> StateMachine \<Rightarrow> bool" where
  "sm_inv N bs s \<longleftrightarrow> sm_state s \<noteq> DownloadingBlocks_RPA \<and> (sm_state s = DownloadingBlocks \<longrightarrow> dlResultsHtNext s = length bs) \<and>
     (\<forall>(k, ppb) \<in> set (dlResults s). served N ppb \<and> k = unat (ppb_height ppb))"

definition at_chain :: "('db \<Rightarrow> (bytes \<rightharpoonup> bytes)) \<Rightarrow> nat \<Rightarrow> 'db Store \<Rightarrow> CBlock list \<Rightarrow> bool" where
  "at_chain contents K st bs \<longleftrightarrow> store_repr contents st (entries bs) \<and> headerRecSz (s_hdr st) = K"

definition sync_inv :: "('db \<Rightarrow> (bytes \<rightharpoonup> bytes)) \<Rightarrow> nat \<Rightarrow> CBlock list set \<Rightarrow> 'db Controller \<Rightarrow> bool" where
  "sync_inv contents K N c \<longleftrightarrow>
     (\<exists>bs \<in> N. at_chain contents K (storage c) bs \<and> (\<forall>s. \<not> fatal c \<longrightarrow> sm c = Some s \<longrightarrow> sm_inv N bs s))"

lemma served_height:
  assumes "block_tree K N" "served N ppb"
  obtains bs b hash nbytes where "bs @ [b] \<in> N" "fill (of_nat (length bs)) hash nbytes b = Inr ppb" "unat (ppb_height ppb) = length bs"
    "ppb_height ppb = of_nat (length bs)" "ppb_header ppb = blk_header b"
proof -
  obtain bs b hash nbytes where b: "bs @ [b] \<in> N" "fill (of_nat (length bs)) hash nbytes b = Inr ppb"
    using assms(2) by (auto simp: served_def)
  have "block_wf (vtx b)" using tree_next[OF assms(1) b(1)] by (simp add: valid_next_def block_fits_def)
  from fill_ok[OF this, of "of_nat (length bs)" hash nbytes] b(2) have "ppb_height ppb = of_nat (length bs)" "ppb_header ppb = blk_header b" by auto
  moreover have "length bs < max_height" using tree_height[OF assms(1) b(1)] .
  ultimately show ?thesis using b by (intro that[of bs b hash nbytes]) (simp_all add: of_nat_height)
qed

context rocksdb_laws
begin

lemma undo_keeps_recsz:
  assumes "undoLatestBlock R st = (Inr n, st')"
  shows "headerRecSz (s_hdr st') = headerRecSz (s_hdr st)"
proof -
  have "s_hdr st' = snd (undoLatestBlock_headers R (s_hdr st))"
    using assms unfolding undoLatestBlock_def
    by (auto simp: Let_def split: sum.splits prod.splits option.splits if_splits)
  moreover have "headerRecSz (snd (undoLatestBlock_headers R h)) = headerRecSz h" for h
    by (auto simp: undoLatestBlock_headers_def Let_def split: sum.splits prod.splits)
  ultimately show ?thesis by simp
qed

lemma undo_last:
  assumes "at_chain contents K st (bs @ [b])" "bs \<noteq> []" "contents (s_undo st) (height_key (of_nat (length bs))) \<noteq> None"
  shows "\<exists>st'. undoLatestBlock R st = (Inr (length bs - 1), st') \<and> at_chain contents K st' bs \<and>
    contents (s_undo st') = (contents (s_undo st))(height_key (of_nat (length bs)) := None)"
proof -
  have "store_repr contents st (entries bs @ [(fst (block_entry b), snd (block_entry b))])" using assms(1) by (simp add: at_chain_def)
  from undoLatestBlock_ok[OF this] show ?thesis using assms undo_keeps_recsz by (auto simp: at_chain_def)
qed

text \<open>Undoing: one block less when the undo record is there, and otherwise an exception and no change.\<close>

lemma undo_cases:
  assumes "at_chain contents K st bs"
  shows "(\<exists>bs' b st'. bs = bs' @ [b] \<and> bs' \<noteq> [] \<and> contents (s_undo st) (height_key (of_nat (length bs'))) \<noteq> None \<and>
      undoLatestBlock R st = (Inr (length bs' - 1), st') \<and> at_chain contents K st' bs' \<and>
      contents (s_undo st') = (contents (s_undo st))(height_key (of_nat (length bs')) := None)) \<or>
    (\<exists>e. undoLatestBlock R st = (Inl e, st))"
proof -
  have inv: "store_inv contents (s_hdr st) (map fst (entries bs))" using assms by (simp add: at_chain_def store_repr_def Let_def)
  then have ver: "headerVerifier (s_hdr st) = verifier_of (map fst (entries bs))" by (simp add: store_inv_def)
  show ?thesis
  proof (cases "length bs \<le> 1")
    case True
    then have "v_prevHeight (headerVerifier (s_hdr st)) \<le> 0" by (simp add: ver verifier_of_def)
    then have "undo_prevHeader R (s_hdr st) = Inl (StUndoInfoMissing ''No header to undo'')"
      by (simp add: undo_prevHeader_def lastHeaderProcessed_def)
    then show ?thesis by (simp add: undoLatestBlock_def)
  next
    case False
    then obtain bs' b where bs: "bs = bs' @ [b]" "bs' \<noteq> []" by (cases bs rule: rev_cases) auto
    let ?h = "height_key (of_nat (length bs'))"
    have inv': "store_inv contents (s_hdr st) (map fst (entries bs') @ [fst (block_entry b)])" using inv bs(1) by simp
    show ?thesis
    proof (cases "contents (s_undo st) ?h")
      case None
      obtain ph where "undo_prevHeader R (s_hdr st) = Inr (length (entries bs') - 1, ph)"
          "lastHeaderProcessed (headerVerifier (s_hdr st)) = (int (length (entries bs')), fst (block_entry b))"
        using undo_headers_stage[OF inv'] bs(2) by blast
      then have "undoLatestBlock R st = (Inl (SeHeader (StUndoInfoMissing ''Unable to retrieve undo info'')), st)"
        using None by (simp add: undoLatestBlock_def GenericDBGet_missing)
      then show ?thesis by blast
    next
      case (Some s)
      then show ?thesis using undo_last[of K st bs' b] assms bs by auto
    qed
  qed
qed

lemma addBlock_tree:
  assumes "block_tree K N" "bs \<in> N" "at_chain contents K st bs" "0 < sint depth" "bs' @ [b] \<in> N" "length bs' = length bs"
    "fill (of_nat (length bs')) hash nbytes b = Inr ppb"
  shows "(bs' = bs \<and> (\<exists>st'. addBlock R depth ppb u st = (Inr (), st') \<and> at_chain contents K st' (bs @ [b]))) \<or>
    (bs' \<noteq> bs \<and> (\<exists>msg. addBlock R depth ppb u st = (Inl (SeHeader (StHeaderVerificationFailure msg)), st)))"
proof (cases "bs' = bs")
  case True
  have K: "headerRecSz (s_hdr st) = K" and repr: "store_repr contents st (entries bs)" using assms(3) by (simp_all add: at_chain_def)
  have "block_valid st (entries bs) b u" using valid_next_block[OF tree_next[OF assms(1,5)] K] True by simp
  then obtain p where "fill (of_nat (length (entries bs))) hash nbytes b = Inr p" "block_accepted st (entries bs) p (vtx b) u" "ppb_header p = blk_header b"
    using block_filled by blast
  then have p: "block_accepted st (entries bs) ppb (vtx b) u" "ppb_header ppb = blk_header b" using assms(6,7) by auto
  then show ?thesis using addBlock_ok[OF repr p(1) assms(4)] K True by (auto simp: at_chain_def block_entry_def)
next
  case False
  have ver: "headerVerifier (s_hdr st) = verifier_of (map fst (entries bs))" and co: "chain_ok (map fst (entries bs))"
    using assms(3) by (simp_all add: at_chain_def store_repr_def store_inv_def Let_def)
  have ok: "header_ok (blk_header b)" and wf: "block_wf (vtx b)"
    using tree_next[OF assms(1,5)] by (simp_all add: valid_next_def block_fits_def)
  have hd: "ppb_header ppb = blk_header b" using fill_ok[OF wf, of "of_nat (length bs')" hash nbytes] assms(7) by auto
  have "\<not> chain_ok (map fst (entries bs) @ [fst (block_entry b)])" using tree_links[OF assms(1,2,5,6)] False by blast
  then have "verify_object (blk_header b) (verifier_of (map fst (entries bs))) \<noteq> Inr (Inr v)" for v
    using verify_object_iff[OF co ok] by (simp add: block_entry_def)
  then obtain msg where "verify_object (ppb_header ppb) (headerVerifier (s_hdr st)) = Inr (Inl msg)"
    using verify_cases[OF co ok] by (auto simp: hd ver)
  then show ?thesis using addBlock_bad_header False by blast
qed

lemma verify_add_tree:
  assumes "block_tree K N" "bs \<in> N" "at_chain contents K st bs" "0 < sint depth" "served N ppb" "unat (ppb_height ppb) = length bs"
    and "process_VerifyAndAddBlock R depth ppb s st = (ok, s', st', f)"
  shows "(ok \<and> \<not> f \<and> s' = s \<and> (\<exists>b. bs @ [b] \<in> N \<and> at_chain contents K st' (bs @ [b]))) \<or>
    (\<not> ok \<and> \<not> f \<and> s' = s\<lparr>sm_state := Retry\<rparr> \<and> (\<exists>bs' b. bs = bs' @ [b] \<and> at_chain contents K st' bs')) \<or>
    (\<not> ok \<and> f \<and> st' = st)"
proof -
  obtain bs' b hash nbytes where b: "bs' @ [b] \<in> N" "fill (of_nat (length bs')) hash nbytes b = Inr ppb" "unat (ppb_height ppb) = length bs'"
    by (rule served_height[OF assms(1,5)])
  have len: "length bs' = length bs" using b(3) assms(6) by simp
  from addBlock_tree[OF assms(1-4) b(1) len b(2), of "saveUndoInfo depth s ppb"] show ?thesis
  proof (elim disjE conjE exE)
    fix msg assume "addBlock R depth ppb (saveUndoInfo depth s ppb) st = (Inl (SeHeader (StHeaderVerificationFailure msg)), st)"
    then show ?thesis using undo_cases[OF assms(3)] assms(7)
      by (auto simp: process_VerifyAndAddBlock_def process_DoUndoAndRetry_def)
  qed (use assms(7) b(1) in \<open>auto simp: process_VerifyAndAddBlock_def\<close>)
qed


text \<open>The loop over the downloaded blocks.\<close>

lemma downloading_inv:
  assumes "block_tree K N" "0 < sint depth"
  shows "bs \<in> N \<Longrightarrow> at_chain contents K st bs \<Longrightarrow> sm_inv N bs s \<Longrightarrow> sm_state s = DownloadingBlocks \<Longrightarrow>
    process_DownloadingBlocks R depth s st = (s', st', f) \<Longrightarrow> \<exists>bs' \<in> N. at_chain contents K st' bs' \<and> (\<not> f \<longrightarrow> sm_inv N bs' s')"
proof (induction "length (dlResults s)" arbitrary: s st bs rule: less_induct)
  case less
  let ?n = "dlResultsHtNext s"
  have n: "?n = length bs" and served: "\<And>k ppb. (k, ppb) \<in> set (dlResults s) \<Longrightarrow> served N ppb \<and> k = unat (ppb_height ppb)"
    using less.prems(3,4) by (auto simp: sm_inv_def)
  show ?case
  proof (cases "map_of (dlResults s) ?n")
    case None
    then have "s' = s" "st' = st" using less.prems(5) by (simp_all add: process_DownloadingBlocks.simps[of R depth s])
    then show ?thesis using less.prems by blast
  next
    case (Some ppb)
    let ?s = "s\<lparr>dlResultsHtNext := ?n + 1, dlResults := AList.delete ?n (dlResults s)\<rparr>"
    have mem: "(?n, ppb) \<in> set (dlResults s)" using Some by (rule map_of_SomeD)
    obtain ok s1 st1 f1 where v: "process_VerifyAndAddBlock R depth ppb ?s st = (ok, s1, st1, f1)"
      by (cases "process_VerifyAndAddBlock R depth ppb ?s st") auto
    have eq: "(s', st', f) = (if \<not> ok then (s1, st1, f1) else if dlResultsHtNext s1 > endHeight s1 then (s1\<lparr>sm_state := FinishedDL\<rparr>, st1, f1)
        else process_DownloadingBlocks R depth s1 st1)"
      using less.prems(5)[symmetric] unfolding process_DownloadingBlocks.simps[of R depth s] Some option.case v prod.case .
    have ds: "set (AList.delete ?n (dlResults s)) \<subseteq> set (dlResults s)" by (auto simp: AList.delete_eq)
    have "served N ppb" "unat (ppb_height ppb) = length bs" using served[OF mem] n by simp_all
    from verify_add_tree[OF assms(1) less.prems(1,2) assms(2) this v] show ?thesis
    proof (elim disjE conjE exE)
      fix b assume ok: "ok" "\<not> f1" "s1 = ?s" "bs @ [b] \<in> N" "at_chain contents K st1 (bs @ [b])"
      then have inv: "sm_inv N (bs @ [b]) s1" using served ds n less.prems(3) by (auto simp: sm_inv_def)
      show ?thesis
      proof (cases "dlResultsHtNext s1 > endHeight s1")
        case True
        then have "sm_inv N (bs @ [b]) s'" "st' = st1" using eq ok(1) inv by (auto simp: sm_inv_def)
        then show ?thesis using ok by blast
      next
        case False
        have "length (dlResults s1) < length (dlResults s)"
          using mem by (auto simp: ok(3) AList.delete_eq intro!: length_filter_less)
        from less.hyps[OF this ok(4,5) inv] show ?thesis using eq False ok(1,3) less.prems(4) by simp
      qed
    next
      fix bs' b assume "\<not> ok" "s1 = ?s\<lparr>sm_state := Retry\<rparr>" "bs = bs' @ [b]" "at_chain contents K st1 bs'"
      moreover from this have "sm_inv N bs' s1" using served ds by (auto simp: sm_inv_def)
      ultimately show ?thesis using eq tree_prefix[OF assms(1)] less.prems(1) by auto
    next
      assume "\<not> ok" "f1" "st1 = st"
      then show ?thesis using eq less.prems(1,2) by auto
    qed
  qed
qed

lemma DoUndo_inv:
  assumes "block_tree K N" "bs \<in> N" "at_chain contents K st bs" "sm_inv N bs s" "process_DoUndoAndRetry R s st = (s', st', f)"
  shows "\<exists>bs' \<in> N. at_chain contents K st' bs' \<and> sm_inv N bs' s'"
  using undo_cases[OF assms(3)]
proof (elim disjE conjE exE)
  fix bs' b st1 assume u: "bs = bs' @ [b]" "undoLatestBlock R st = (Inr (length bs' - 1), st1)" "at_chain contents K st1 bs'"
  then have "bs' \<in> N" using tree_prefix[OF assms(1)] assms(2) by blast
  then show ?thesis using u assms(4,5) by (auto simp: process_DoUndoAndRetry_def sm_inv_def)
next
  fix e assume "undoLatestBlock R st = (Inl e, st)"
  then show ?thesis using assms(2-5) by (auto simp: process_DoUndoAndRetry_def sm_inv_def)
qed


lemma chain_tip:
  assumes "at_chain contents K st bs"
  shows "latestTip (s_hdr st) = Inr (if bs = [] then (- 1, [], []) else (int (length bs) - 1, rev (block_hash (last bs)), fst (block_entry (last bs))))"
  using latestTip_ok[of contents "s_hdr st" "map fst (entries bs)"] assms
  by (auto simp: at_chain_def store_repr_def Let_def block_hash_def last_map)

lemma update_cache_chain:
  assumes "at_chain contents K st bs" "bs \<noteq> []"
  shows "at_chain contents K (st\<lparr>s_hdr := updateMerkleCache R (length bs - 1) (s_hdr st)\<rparr>) bs"
proof -
  have inv: "store_inv contents (s_hdr st) (map fst (entries bs))" using assms(1) by (simp add: at_chain_def store_repr_def Let_def)
  then have "store_inv contents (updateMerkleCache R (length bs - 1) (s_hdr st)) (map fst (entries bs))"
    using updateMerkleCache_ok[OF inv, of "length bs - 1"] assms(2) by simp
  then show ?thesis using assms(1) by (simp add: at_chain_def store_repr_def Let_def updateMerkleCache_def)
qed

lemma chainInfo_inv:
  assumes "block_tree K N" "bs \<in> N" "at_chain contents K st bs" "sm_inv N bs s" "0 \<le> ci_blocks info"
    "on_chainInfo R depth silent hd0 info s st = (s', st', f)"
  shows "\<exists>bs' \<in> N. at_chain contents K st' bs' \<and> (\<not> f \<longrightarrow> sm_inv N bs' s')"
proof -
  obtain tip h h' where tip: "latestTip (s_hdr st) = Inr (tip, h, h')" "tip = int (length bs) - 1"
    using chain_tip[OF assms(3)] by (auto split: if_splits)
  let ?s = "s\<lparr>sm_ht := ci_blocks info, nHeaders := ci_headers info\<rparr>"
  have s: "sm_inv N bs ?s" using assms(4) by (simp add: sm_inv_def)
  show ?thesis
  proof (cases "process_DoUndoAndRetry R ?s st = (s', st', f)")
    case True
    then show ?thesis using DoUndo_inv[OF assms(1-3) s] by blast
  next
    case False
    have cache: "at_chain contents K (st\<lparr>s_hdr := updateMerkleCache R (nat tip) (s_hdr st)\<rparr>) bs" if "tip = ci_blocks info"
    proof -
      have "bs \<noteq> []" "nat tip = length bs - 1" using that tip(2) assms(5) by auto
      then show ?thesis using update_cache_chain[OF assms(3)] by simp
    qed
    have "at_chain contents K st' bs \<and> (\<not> f \<longrightarrow> sm_inv N bs s')"
      using assms(6) False cache assms(3,4) unfolding on_chainInfo_def tip(1)
      by (auto simp: Let_def sm_inv_def split: if_splits)
    then show ?thesis using assms(2) by blast
  qed
qed


lemma start_inv:
  assumes "at_chain contents K st bs" "sm_inv N bs s" "start_download s st = (s', st', f)"
  shows "st' = st \<and> sm_inv N bs s'"
  using assms(2,3) chain_tip[OF assms(1)] by (auto simp: start_download_def sm_inv_def Let_def split: if_splits)

lemma putBlock_inv:
  assumes "block_tree K N" "0 < sint depth" "bs \<in> N" "at_chain contents K st bs" "sm_inv N bs s" "served N ppb"
    "on_putBlock R depth ppb s st = (s', st', f)"
  shows "\<exists>bs' \<in> N. at_chain contents K st' bs' \<and> (\<not> f \<longrightarrow> sm_inv N bs' s')"
proof (cases "sm_state s = DownloadingBlocks")
  case True
  let ?s = "s\<lparr>dlResults := AList.update (unat (ppb_height ppb)) ppb (dlResults s)\<rparr>"
  have "set (AList.update k v xs) \<subseteq> insert (k, v) (set xs)" for k :: nat and v :: PreProcessedBlock and xs
    by (induction xs) (auto split: if_splits)
  then have "sm_inv N bs ?s" using assms(5,6) by (fastforce simp: sm_inv_def)
  from downloading_inv[OF assms(1-4) this] show ?thesis using True assms(7) by (simp add: on_putBlock_def)
qed (use assms in \<open>auto simp: on_putBlock_def\<close>)

lemma sm_run_inv:
  assumes "\<And>s s' st' f. sm c = Some s \<Longrightarrow> g s (storage c) = (s', st', f) \<Longrightarrow> \<exists>bs' \<in> N. at_chain contents K st' bs' \<and> (\<not> f \<longrightarrow> sm_inv N bs' s')"
    "sync_inv contents K N c"
  shows "sync_inv contents K N (sm_run g c)"
proof (cases "sm c")
  case (Some s)
  obtain s' st' f where g: "g s (storage c) = (s', st', f)" by (cases "g s (storage c)") auto
  from assms(1)[OF Some g] show ?thesis using Some g by (auto simp: sm_run_def sync_inv_def)
qed (use assms(2) in \<open>simp add: sm_run_def\<close>)

lemma process_inv:
  assumes "block_tree K N" "0 < sint depth" and bs: "bs \<in> N" "at_chain contents K (storage c) bs" and inv: "\<And>s. sm c = Some s \<Longrightarrow> sm_inv N bs s"
  shows "sync_inv contents K N (process R depth ck late ds c)"
proof -
  define s where "s = (case sm c of None \<Rightarrow> StateMachine_new | Some s \<Rightarrow> s)"
  let ?c = "c\<lparr>sm := Some s\<rparr>"
  have s: "sm_inv N bs s" using inv by (cases "sm c") (simp_all add: s_def sm_inv_def StateMachine_new_def)
  then have c: "sync_inv contents K N ?c" using bs by (auto simp: sync_inv_def)
  have set: "sync_inv contents K N (c\<lparr>sm := Some (s\<lparr>sm_state := x\<rparr>)\<rparr>)" if "x \<noteq> DownloadingBlocks" "x \<noteq> DownloadingBlocks_RPA" for x
    using bs s that by (auto simp: sync_inv_def sm_inv_def)
  have none: "sync_inv contents K N (c\<lparr>sm := None\<rparr>)" using bs by (auto simp: sync_inv_def)
  have dl: "sync_inv contents K N (sm_run start_download ?c)" by (rule sm_run_inv[OF _ c]) (use start_inv[OF bs(2) s] bs in auto)
  have err: "sync_inv contents K N (genericTaskErrored ?c)" using set[of Failure] c by (simp add: genericTaskErrored_def)
  have blocks: "sync_inv contents K N (sm_run (process_DownloadingBlocks R depth) ?c)" if "sm_state s = DownloadingBlocks"
    by (rule sm_run_inv[OF _ c]) (use downloading_inv[OF assms(1,2) bs s that] in simp)
  have rpa: "sm_state s \<noteq> DownloadingBlocks_RPA" using s by (simp add: sm_inv_def)
  show ?thesis unfolding process_def s_def[symmetric] Let_def
    using c set none dl err blocks rpa by (cases "sm_state s") simp_all
qed

lemma handle_inv:
  assumes "block_tree K N" "0 < sint depth" "sync_inv contents K N c" "ok_event N ev"
  shows "sync_inv contents K N (handle R depth ev c)"
proof (cases "fatal c")
  case True
  then show ?thesis using assms(3) by (simp add: handle_def)
next
  case False
  then obtain bs where bs: "bs \<in> N" "at_chain contents K (storage c) bs" and inv: "\<And>s. sm c = Some s \<Longrightarrow> sm_inv N bs s"
    using assms(3) by (auto simp: sync_inv_def)
  have c: "sync_inv contents K N c" by (fact assms(3))
  have upd: "sync_inv contents K N (c\<lparr>sm := map_option h (sm c)\<rparr>)" if "\<And>s. sm_inv N bs s \<Longrightarrow> sm_inv N bs (h s)" for h
    using bs inv that by (auto simp: sync_inv_def)
  have err: "sync_inv contents K N (genericTaskErrored c)"
    using bs inv by (auto simp: genericTaskErrored_def sync_inv_def sm_inv_def split: option.split)
  show ?thesis
  proof (cases ev)
    case (PutBlock ppb)
    then have "served N ppb" using assms(4) by simp
    then have "sync_inv contents K N (sm_run (on_putBlock R depth ppb) c)"
      by (intro sm_run_inv[OF _ c]) (use putBlock_inv[OF assms(1,2) bs] inv in simp)
    then show ?thesis using PutBlock False by (simp add: handle_def)
  next
    case (ChainInfoReply silent hd0 blocks headers hash ibd)
    have "sync_inv contents K N (sm_run (on_chainInfo R depth silent hd0 info) c)" if "0 \<le> ci_blocks info" for info
      by (intro sm_run_inv[OF _ c]) (use chainInfo_inv[OF assms(1) bs _ that] inv in blast)
    then show ?thesis
      using ChainInfoReply False err by (auto simp: handle_def getChainInfo_def Let_def split: option.split if_splits)
  next
    case Process
    then show ?thesis using process_inv[OF assms(1,2) bs inv] False by (simp add: handle_def)
  next
    case TaskErrored
    then show ?thesis using err False by (simp add: handle_def)
  next
    case RetryRecommended
    then show ?thesis using upd[of "\<lambda>s. s\<lparr>sm_state := Retry\<rparr>"] False by (simp add: handle_def sm_inv_def)
  next
    case MempoolDone
    then show ?thesis using upd[of on_synchedMempool] False by (simp add: handle_def sm_inv_def on_synchedMempool_def)
  next
    case DSPsDone
    then show ?thesis using upd[of on_synchedDSPs] False by (simp add: handle_def sm_inv_def on_synchedDSPs_def)
  qed
qed

lemma sync_safe_aux:
  assumes "block_tree K N" "0 < sint depth" "(sync_step R depth N)\<^sup>*\<^sup>* c c'" "sync_inv contents K N c"
  shows "sync_inv contents K N c'"
  using assms(3,4)
  by (induction rule: rtranclp_induct) (auto elim!: sync_step.cases intro: handle_inv[OF assms(1,2)])

end

section \<open>Convergence\<close>

text \<open>A round of synchronisation while bitcoind's chain stays the same: the state machine asks for the chain's state, is told, downloads
  the blocks it asks for, which the tasks hand over in the order \<open>deliver\<close>, and the event loop calls it again.\<close>

definition chain_reply :: "CBlock list \<Rightarrow> event" where
  "chain_reply B = ChainInfoReply True [] (int (length B) - 1) (int (length B) - 1) (rev (block_hash (last B))) False"

abbreviation "again \<equiv> Process True False False"

definition download :: "'db rocksdb \<Rightarrow> u32 \<Rightarrow> (nat \<Rightarrow> PreProcessedBlock) \<Rightarrow> (nat list \<Rightarrow> nat list) \<Rightarrow> 'db Controller \<Rightarrow> 'db Controller" where
  "download R depth ppbs deliver c =
     (case sm c of
        None \<Rightarrow> c
      | Some s \<Rightarrow> fold (\<lambda>k. handle R depth (PutBlock (ppbs k))) (deliver [startheight s..<Suc (endHeight s)]) c)"

definition sync_round ::
  "'db rocksdb \<Rightarrow> u32 \<Rightarrow> CBlock list \<Rightarrow> (nat \<Rightarrow> PreProcessedBlock) \<Rightarrow> (nat list \<Rightarrow> nat list) \<Rightarrow> 'db Controller \<Rightarrow> 'db Controller" where
  "sync_round R depth B ppbs deliver c =
     (let c = handle R depth (chain_reply B) (handle R depth again c)
      in case map_option sm_state (sm c) of
           Some GetBlocks \<Rightarrow> handle R depth again (download R depth ppbs deliver (handle R depth again c))
         | Some Retry \<Rightarrow> handle R depth again c
         | _ \<Rightarrow> c)"

definition summaries :: "CBlock list \<Rightarrow> (nat \<Rightarrow> PreProcessedBlock) \<Rightarrow> bool" where
  "summaries B ppbs \<longleftrightarrow> (\<forall>k < length B. \<exists>hash nbytes. fill (of_nat k) hash nbytes (B ! k) = Inr (ppbs k))"

lemma tree_take: "block_tree K N \<Longrightarrow> B \<in> N \<Longrightarrow> take m B \<in> N"
  using tree_prefix[of K N "take m B" "drop m B"] by simp

lemma summary_height:
  assumes "block_tree K N" "B \<in> N" "summaries B ppbs" "k < length B"
  shows "unat (ppb_height (ppbs k)) = k"
proof -
  have t: "take k B @ [B ! k] \<in> N" using tree_take[OF assms(1,2), of "Suc k"] assms(4) by (simp add: take_Suc_conv_app_nth)
  then have "block_wf (vtx (B ! k))" "k < max_height"
    using tree_next[OF assms(1) t] tree_height[OF assms(1) t] assms(4) by (simp_all add: valid_next_def block_fits_def)
  moreover obtain hash nbytes where "fill (of_nat k) hash nbytes (B ! k) = Inr (ppbs k)" using assms(3,4) by (auto simp: summaries_def)
  ultimately show ?thesis using fill_ok[of "B ! k" "of_nat k" hash nbytes] by (auto simp: of_nat_height)
qed

definition fair :: "(nat list \<Rightarrow> nat list) \<Rightarrow> bool" where
  "fair deliver \<longleftrightarrow> (\<forall>ks. set (deliver ks) = set ks)"

definition asked :: "CBlock list \<Rightarrow> StateMachine" where
  "asked B = StateMachine_new\<lparr>sm_state := WaitingForChainInfo, sm_ht := int (length B) - 1, nHeaders := int (length B) - 1\<rparr>"

text \<open>The blocks of \<open>B\<close> that have arrived are \<open>E\<close>; the loop adds the ones that follow the tip.\<close>

definition dl_at :: "('db \<Rightarrow> (bytes \<rightharpoonup> bytes)) \<Rightarrow> nat \<Rightarrow> CBlock list \<Rightarrow> (nat \<Rightarrow> PreProcessedBlock) \<Rightarrow> nat set \<Rightarrow> nat \<Rightarrow> StateMachine \<Rightarrow> 'db Store \<Rightarrow> bool" where
  "dl_at contents K B ppbs E m s st \<longleftrightarrow> m \<le> length B \<and> at_chain contents K st (take m B) \<and> endHeight s = length B - 1 \<and>
     (if m = length B then sm_state s = FinishedDL
      else sm_state s = DownloadingBlocks \<and> dlResultsHtNext s = m \<and> (\<forall>k \<ge> m. map_of (dlResults s) k = (if k \<in> E then Some (ppbs k) else None)))"

text \<open>A chain that bitcoind no longer has: the first block it sends for the next height does not link, and one block is undone.\<close>

definition has_rows :: "('db \<Rightarrow> (bytes \<rightharpoonup> bytes)) \<Rightarrow> 'db Store \<Rightarrow> nat \<Rightarrow> nat \<Rightarrow> bool" where
  "has_rows contents st j n \<longleftrightarrow> (\<forall>i. j \<le> i \<and> i < n \<longrightarrow> contents (s_undo st) (height_key (of_nat i)) \<noteq> None)"

text \<open>The chain is bitcoind's, and the state machine goes on with the mempool.\<close>

definition synced :: "('db \<Rightarrow> (bytes \<rightharpoonup> bytes)) \<Rightarrow> nat \<Rightarrow> CBlock list \<Rightarrow> 'db Controller \<Rightarrow> bool" where
  "synced contents K B c \<longleftrightarrow> map_option sm_state (sm c) = Some SynchMempool \<and> \<not> fatal c \<and> at_chain contents K (storage c) B"

context rocksdb_laws
begin

lemma add_next:
  assumes "block_tree K N" "B \<in> N" "0 < sint depth" "summaries B ppbs" "at_chain contents K st (take m B)" "m < length B"
  shows "\<exists>st'. process_VerifyAndAddBlock R depth (ppbs m) s st = (True, s, st', False) \<and> at_chain contents K st' (take (Suc m) B)"
proof -
  obtain hash nbytes where "fill (of_nat (length (take m B))) hash nbytes (B ! m) = Inr (ppbs m)"
    using assms(4,6) by (auto simp: summaries_def)
  moreover have "take m B @ [B ! m] = take (Suc m) B" using assms(6) by (simp add: take_Suc_conv_app_nth)
  moreover have "take (Suc m) B \<in> N" using tree_take[OF assms(1,2)] .
  ultimately show ?thesis
    using addBlock_tree[OF assms(1) tree_take[OF assms(1,2)] assms(5,3), of "take m B" "B ! m" hash nbytes "ppbs m" "saveUndoInfo depth s (ppbs m)"]
    by (auto simp: process_VerifyAndAddBlock_def)
qed

lemma downloading_progress:
  assumes "block_tree K N" "B \<in> N" "0 < sint depth" "summaries B ppbs"
  shows "m < length B \<Longrightarrow> at_chain contents K st (take m B) \<Longrightarrow> endHeight s = length B - 1 \<Longrightarrow> sm_state s = DownloadingBlocks \<Longrightarrow> dlResultsHtNext s = m \<Longrightarrow>
    \<forall>k \<ge> m. map_of (dlResults s) k = (if k \<in> E then Some (ppbs k) else None) \<Longrightarrow> E \<subseteq> {..<length B} \<Longrightarrow>
    \<exists>s' st' m'. process_DownloadingBlocks R depth s st = (s', st', False) \<and> m \<le> m' \<and> {m..<m'} \<subseteq> E \<and> m' \<notin> E \<and> dl_at contents K B ppbs E m' s' st'"
proof (induction "length B - m" arbitrary: m s st rule: less_induct)
  case less
  show ?case
  proof (cases "m \<in> E")
    case False
    then have "process_DownloadingBlocks R depth s st = (s, st, False)"
      using less.prems(5,6) by (simp add: process_DownloadingBlocks.simps[of R depth s])
    then show ?thesis using less.prems False by (intro exI[of _ s] exI[of _ st] exI[of _ m]) (simp add: dl_at_def)
  next
    case True
    let ?s = "s\<lparr>dlResultsHtNext := dlResultsHtNext s + 1, dlResults := AList.delete (dlResultsHtNext s) (dlResults s)\<rparr>"
    have some: "map_of (dlResults s) (dlResultsHtNext s) = Some (ppbs m)" using less.prems(5,6) True by simp
    obtain st1 where v: "process_VerifyAndAddBlock R depth (ppbs m) ?s st = (True, ?s, st1, False)" "at_chain contents K st1 (take (Suc m) B)"
      using add_next[OF assms less.prems(2,1)] by blast
    have loop: "process_DownloadingBlocks R depth s st =
        (if Suc m > endHeight s then (?s\<lparr>sm_state := FinishedDL\<rparr>, st1, False) else process_DownloadingBlocks R depth ?s st1)"
      unfolding process_DownloadingBlocks.simps[of R depth s] some option.case v(1) prod.case using less.prems(5) by simp
    show ?thesis
    proof (cases "Suc m = length B")
      case True
      then have "Suc m > endHeight s" using less.prems(3) by linarith
      then have "process_DownloadingBlocks R depth s st = (?s\<lparr>sm_state := FinishedDL\<rparr>, st1, False)" unfolding loop by (rule if_P)
      moreover have "dl_at contents K B ppbs E (length B) (?s\<lparr>sm_state := FinishedDL\<rparr>) st1" using v(2) True less.prems(3) by (simp add: dl_at_def)
      moreover have "length B \<notin> E" "{m..<length B} \<subseteq> E" using less.prems(7) \<open>m \<in> E\<close> True[symmetric] by auto
      ultimately show ?thesis using less.prems(1) by (meson less_imp_le)
    next
      case False
      then have lt: "Suc m < length B" "length B - Suc m < length B - m" using less.prems(1) by simp_all
      have "\<forall>k \<ge> Suc m. map_of (dlResults ?s) k = (if k \<in> E then Some (ppbs k) else None)"
        using less.prems(5,6) by (simp add: AList.delete_conv)
      with less.hyps[OF lt(2,1) v(2), of ?s] less.prems obtain s' st' m' where
        "process_DownloadingBlocks R depth ?s st1 = (s', st', False)" "Suc m \<le> m'" "{Suc m..<m'} \<subseteq> E" "m' \<notin> E" "dl_at contents K B ppbs E m' s' st'"
        by auto
      moreover have "{m..<m'} \<subseteq> insert m {Suc m..<m'}" by auto
      moreover from calculation have "{m..<m'} \<subseteq> E" using True by blast
      moreover have "\<not> Suc m > endHeight s" using lt(1) less.prems(3) by simp
      ultimately show ?thesis using loop by (intro exI[of _ s'] exI[of _ st'] exI[of _ m']) simp
    qed
  qed
qed


lemma put_step:
  assumes "block_tree K N" "B \<in> N" "0 < sint depth" "summaries B ppbs" and at: "dl_at contents K B ppbs E m s st" "m \<notin> E" "E \<subseteq> {..<length B}" "k < length B"
  shows "\<exists>s' st' m'. on_putBlock R depth (ppbs k) s st = (s', st', False) \<and> m \<le> m' \<and> m' \<notin> insert k E \<and> dl_at contents K B ppbs (insert k E) m' s' st'"
proof (cases "m = length B")
  case True
  then have "on_putBlock R depth (ppbs k) s st = (s, st, False)" "dl_at contents K B ppbs (insert k E) m s st"
    using at(1) by (simp_all add: dl_at_def on_putBlock_def)
  moreover have "m \<notin> insert k E" using True at(2,4) by simp
  ultimately show ?thesis by blast
next
  case False
  let ?s = "s\<lparr>dlResults := AList.update k (ppbs k) (dlResults s)\<rparr>"
  have m: "m < length B" and d: "at_chain contents K st (take m B)" "endHeight s = length B - 1" "sm_state s = DownloadingBlocks" "dlResultsHtNext s = m"
      "\<forall>j \<ge> m. map_of (dlResults s) j = (if j \<in> E then Some (ppbs j) else None)"
    using at(1) False by (simp_all add: dl_at_def)
  have "\<forall>j \<ge> m. map_of (dlResults ?s) j = (if j \<in> insert k E then Some (ppbs j) else None)" using d(5) by (simp add: update_conv)
  from downloading_progress[OF assms(1-4) m d(1), of ?s "insert k E"] this d at(3,4)
  obtain s' st' m' where "process_DownloadingBlocks R depth ?s st = (s', st', False)" "m \<le> m'" "m' \<notin> insert k E" "dl_at contents K B ppbs (insert k E) m' s' st'"
    by auto
  then show ?thesis using d(3) summary_height[OF assms(1,2,4) at(4)] by (auto simp: on_putBlock_def)
qed

lemma put_handle:
  "sm c = Some s \<Longrightarrow> \<not> fatal c \<Longrightarrow> on_putBlock R depth ppb s (storage c) = (s', st', False) \<Longrightarrow>
    handle R depth (PutBlock ppb) c = c\<lparr>sm := Some s', storage := st'\<rparr>"
  by (simp add: handle_def sm_run_def)

lemma deliver_all:
  assumes "block_tree K N" "B \<in> N" "0 < sint depth" "summaries B ppbs"
  shows "sm c = Some s \<Longrightarrow> \<not> fatal c \<Longrightarrow> dl_at contents K B ppbs E m s (storage c) \<Longrightarrow> m \<notin> E \<Longrightarrow> E \<subseteq> {..<length B} \<Longrightarrow> set ks \<subseteq> {..<length B} \<Longrightarrow>
    \<exists>c' s' m'. fold (\<lambda>k. handle R depth (PutBlock (ppbs k))) ks c = c' \<and> sm c' = Some s' \<and> \<not> fatal c' \<and> m \<le> m' \<and> m' \<notin> E \<union> set ks \<and>
      dl_at contents K B ppbs (E \<union> set ks) m' s' (storage c')"
proof (induction ks arbitrary: c s m E)
  case (Cons k ks)
  obtain s' st' m' where p: "on_putBlock R depth (ppbs k) s (storage c) = (s', st', False)" "m \<le> m'" "m' \<notin> insert k E" "dl_at contents K B ppbs (insert k E) m' s' st'"
    using put_step[OF assms Cons.prems(3-5), of k] Cons.prems(6) by auto
  let ?c = "c\<lparr>sm := Some s', storage := st'\<rparr>"
  have "insert k E \<subseteq> {..<length B}" "set ks \<subseteq> {..<length B}" "\<not> fatal ?c" "E \<union> set (k # ks) = insert k E \<union> set ks"
    using Cons.prems(2,5,6) by auto
  with Cons.IH[of ?c s' "insert k E" m'] p(3,4) obtain c' s2 m2 where "fold (\<lambda>k. handle R depth (PutBlock (ppbs k))) ks ?c = c'" "sm c' = Some s2"
      "\<not> fatal c'" "m' \<le> m2" "m2 \<notin> E \<union> set (k # ks)" "dl_at contents K B ppbs (E \<union> set (k # ks)) m2 s2 (storage c')" by auto
  then show ?case using p(2) by (intro exI[of _ c'] exI[of _ s2] exI[of _ m2]) (simp add: put_handle[OF Cons.prems(1,2) p(1)])
next
  case Nil
  then show ?case by simp blast
qed

lemma has_rows_undo:
  assumes "has_rows contents st j (Suc n)" "contents (s_undo st') = (contents (s_undo st))(height_key (of_nat n) := None)" "n < max_height"
  shows "has_rows contents st' j n"
  unfolding has_rows_def
proof (intro allI impI)
  fix i assume i: "j \<le> i \<and> i < n"
  then have "height_key (of_nat i) \<noteq> height_key (of_nat n)" using height_key_inj[of i n] assms(3) by auto
  then show "contents (s_undo st') (height_key (of_nat i)) \<noteq> None" using assms(1,2) i by (simp add: has_rows_def)
qed

lemma DoUndo_rows:
  assumes "block_tree K N" "bs @ [b] \<in> N" "at_chain contents K st (bs @ [b])" "bs \<noteq> []" "has_rows contents st j (Suc (length bs))" "j \<le> length bs"
  shows "\<exists>st'. process_DoUndoAndRetry R s st = (s\<lparr>sm_state := Retry\<rparr>, st', False) \<and> at_chain contents K st' bs \<and> has_rows contents st' j (length bs)"
proof -
  obtain st' where "undoLatestBlock R st = (Inr (length bs - 1), st')" "at_chain contents K st' bs"
      "contents (s_undo st') = (contents (s_undo st))(height_key (of_nat (length bs)) := None)"
    using undo_last[OF assms(3,4)] assms(5,6) by (auto simp: has_rows_def)
  then show ?thesis using has_rows_undo[OF assms(5)] tree_height[OF assms(1,2)] by (auto simp: process_DoUndoAndRetry_def)
qed


lemma put_ignored: "sm c = Some s \<Longrightarrow> sm_state s \<noteq> DownloadingBlocks \<Longrightarrow> handle R depth (PutBlock ppb) c = c"
  by (cases c) (simp add: handle_def sm_run_def on_putBlock_def)

lemma put_all_ignored: "sm c = Some s \<Longrightarrow> sm_state s \<noteq> DownloadingBlocks \<Longrightarrow> fold (\<lambda>k. handle R depth (PutBlock (ppbs k))) ks c = c"
  by (induction ks) (simp_all add: put_ignored)

lemma verify_stale:
  assumes "block_tree K N" "B \<in> N" "0 < sint depth" "summaries B ppbs" "bs @ [b] \<in> N" "bs \<noteq> []"
    "length (bs @ [b]) < length B" "take (length (bs @ [b])) B \<noteq> bs @ [b]" "at_chain contents K st (bs @ [b])"
    "has_rows contents st j (Suc (length bs))" "j \<le> length bs"
  shows "\<exists>st'. process_VerifyAndAddBlock R depth (ppbs (length (bs @ [b]))) s st = (False, s\<lparr>sm_state := Retry\<rparr>, st', False) \<and>
    at_chain contents K st' bs \<and> has_rows contents st' j (length bs)"
proof -
  let ?n = "length (bs @ [b])"
  obtain hash nbytes where f: "fill (of_nat (length (take ?n B))) hash nbytes (B ! ?n) = Inr (ppbs ?n)"
    using assms(4,7) by (auto simp: summaries_def)
  have "take ?n B @ [B ! ?n] \<in> N" using tree_take[OF assms(1,2), of "Suc ?n"] assms(7) by (simp add: take_Suc_conv_app_nth)
  from addBlock_tree[OF assms(1,5,9,3) this _ f, of "saveUndoInfo depth s (ppbs ?n)"] assms(7,8)
  obtain msg where "addBlock R depth (ppbs ?n) (saveUndoInfo depth s (ppbs ?n)) st = (Inl (SeHeader (StHeaderVerificationFailure msg)), st)"
    by auto
  then show ?thesis using DoUndo_rows[OF assms(1,5,9,6,10,11)] by (simp add: process_VerifyAndAddBlock_def)
qed

lemma deliver_stale:
  assumes env: "block_tree K N" "B \<in> N" "0 < sint depth" "summaries B ppbs" "bs @ [b] \<in> N" "bs \<noteq> []"
    "length (bs @ [b]) < length B" "take (length (bs @ [b])) B \<noteq> bs @ [b]" and j: "j \<le> length bs"
  shows "sm c = Some s \<Longrightarrow> \<not> fatal c \<Longrightarrow> sm_state s = DownloadingBlocks \<Longrightarrow> dlResultsHtNext s = length (bs @ [b]) \<Longrightarrow>
    map_of (dlResults s) (length (bs @ [b])) = None \<Longrightarrow> at_chain contents K (storage c) (bs @ [b]) \<Longrightarrow> has_rows contents (storage c) j (Suc (length bs)) \<Longrightarrow>
    set ks \<subseteq> {..<length B} \<Longrightarrow> length (bs @ [b]) \<in> set ks \<Longrightarrow>
    \<exists>c' s'. fold (\<lambda>k. handle R depth (PutBlock (ppbs k))) ks c = c' \<and> sm c' = Some s' \<and> \<not> fatal c' \<and> sm_state s' = Retry \<and>
      at_chain contents K (storage c') bs \<and> has_rows contents (storage c') j (length bs)"
proof (induction ks arbitrary: c s)
  case (Cons k ks)
  let ?n = "length (bs @ [b])" and ?s = "s\<lparr>dlResults := AList.update k (ppbs k) (dlResults s)\<rparr>"
  have put: "on_putBlock R depth (ppbs k) s (storage c) = process_DownloadingBlocks R depth ?s (storage c)"
    using Cons.prems(3,8) summary_height[OF env(1,2,4), of k] by (simp add: on_putBlock_def)
  show ?case
  proof (cases "k = ?n")
    case False
    then have "map_of (dlResults ?s) ?n = None" using Cons.prems(5) by (simp add: update_conv)
    moreover from this have "process_DownloadingBlocks R depth ?s (storage c) = (?s, storage c, False)"
      using Cons.prems(4) by (simp add: process_DownloadingBlocks.simps[of R depth ?s])
    ultimately show ?thesis
      using Cons.IH[of "c\<lparr>sm := Some ?s, storage := storage c\<rparr>" ?s] Cons.prems False put_handle[OF Cons.prems(1,2), where ppb = "ppbs k" and s' = ?s and st' = "storage c"] put
      by simp
  next
    case True
    let ?s1 = "?s\<lparr>dlResultsHtNext := dlResultsHtNext ?s + 1, dlResults := AList.delete (dlResultsHtNext ?s) (dlResults ?s)\<rparr>"
    obtain st' where v: "process_VerifyAndAddBlock R depth (ppbs ?n) ?s1 (storage c) = (False, ?s1\<lparr>sm_state := Retry\<rparr>, st', False)"
        "at_chain contents K st' bs" "has_rows contents st' j (length bs)"
      using verify_stale[OF env Cons.prems(6,7) j] by blast
    have "map_of (dlResults ?s) (dlResultsHtNext ?s) = Some (ppbs ?n)" using Cons.prems(4) True by (simp add: update_conv)
    then have "process_DownloadingBlocks R depth ?s (storage c) = (?s1\<lparr>sm_state := Retry\<rparr>, st', False)"
      unfolding process_DownloadingBlocks.simps[of R depth ?s] option.case by (simp only: v(1) option.case prod.case simp_thms if_True)
    then have "handle R depth (PutBlock (ppbs k)) c = c\<lparr>sm := Some (?s1\<lparr>sm_state := Retry\<rparr>), storage := st'\<rparr>"
      using put_handle[OF Cons.prems(1,2)] put by simp
    moreover have "fold (\<lambda>k. handle R depth (PutBlock (ppbs k))) ks (c\<lparr>sm := Some (?s1\<lparr>sm_state := Retry\<rparr>), storage := st'\<rparr>) =
        c\<lparr>sm := Some (?s1\<lparr>sm_state := Retry\<rparr>), storage := st'\<rparr>"
      by (rule put_all_ignored[where s = "?s1\<lparr>sm_state := Retry\<rparr>"]) simp_all
    ultimately show ?thesis using v(2,3) Cons.prems(2) by simp
  qed
qed simp


lemma reply_result:
  assumes "at_chain contents K (storage c) bs" "sm c = None" "\<not> fatal c" "B \<noteq> []" "length (block_hash (last B)) = HashLen"
  shows "handle R depth (chain_reply B) (handle R depth again c) =
    (if length bs < length B then c\<lparr>sm := Some ((asked B)\<lparr>sm_state := GetBlocks\<rparr>)\<rparr>
     else if length bs = length B \<and> block_hash (last B) = block_hash (last bs) then c\<lparr>sm := Some ((asked B)\<lparr>sm_state := SynchMempool\<rparr>)\<rparr>
     else (case process_DoUndoAndRetry R (asked B) (storage c) of (s', st', f) \<Rightarrow> c\<lparr>sm := Some s', storage := st', fatal := f\<rparr>))"
proof -
  have len: "length B > 0" using assms(4) by simp
  show ?thesis
    using assms(2,3,5) len chain_tip[OF assms(1)]
    by (cases c) (auto simp: handle_def process_def chain_reply_def getChainInfo_def sm_run_def on_chainInfo_def Let_def asked_def StateMachine_new_def
        process_DoUndoAndRetry_def split: prod.splits sum.splits)
qed


lemma start_result:
  assumes "at_chain contents K (storage c) bs" "\<not> fatal c" "length bs < length B"
  shows "handle R depth again (c\<lparr>sm := Some ((asked B)\<lparr>sm_state := GetBlocks\<rparr>)\<rparr>) =
    c\<lparr>sm := Some ((asked B)\<lparr>dlResultsHtNext := length bs, startheight := length bs, endHeight := length B - 1, sm_state := DownloadingBlocks\<rparr>)\<rparr>"
proof -
  have "nat (int (length B) - 1) = length B - 1" using assms(3) by linarith
  then show ?thesis
    using assms(2,3) chain_tip[OF assms(1)]
    by (cases c) (auto simp: handle_def process_def sm_run_def start_download_def Let_def asked_def StateMachine_new_def)
qed

lemma round_done:
  assumes "at_chain contents K (storage c) B" "sm c = None" "\<not> fatal c" "B \<noteq> []" "length (block_hash (last B)) = HashLen"
  shows "sync_round R depth B ppbs deliver c = c\<lparr>sm := Some ((asked B)\<lparr>sm_state := SynchMempool\<rparr>)\<rparr>"
  unfolding sync_round_def reply_result[OF assms] by simp

lemma round_extend:
  assumes "block_tree K N" "B \<in> N" "0 < sint depth" "summaries B ppbs" "fair deliver" "n < length B" "length (block_hash (last B)) = HashLen"
    "at_chain contents K (storage c) (take n B)" "sm c = None" "\<not> fatal c"
  shows "\<exists>c'. sync_round R depth B ppbs deliver c = c' \<and> sm c' = None \<and> \<not> fatal c' \<and> at_chain contents K (storage c') B"
proof -
  let ?s = "(asked B)\<lparr>dlResultsHtNext := n, startheight := n, endHeight := length B - 1, sm_state := DownloadingBlocks\<rparr>"
  let ?c = "c\<lparr>sm := Some ?s\<rparr>" and ?ks = "deliver [n..<length B]"
  have ks: "set ?ks = {n..<length B}" and B: "B \<noteq> []" and n: "length (take n B) = n" using assms(5,6) by (auto simp: fair_def)
  have sub: "set ?ks \<subseteq> {..<length B}" using ks by auto
  have "dl_at contents K B ppbs {} n ?s (storage c)" using assms(6,8) by (simp add: dl_at_def asked_def StateMachine_new_def)
  then obtain c' s' m' where c': "fold (\<lambda>k. handle R depth (PutBlock (ppbs k))) ?ks ?c = c'" "sm c' = Some s'" "\<not> fatal c'" "n \<le> m'" "m' \<notin> set ?ks"
      "dl_at contents K B ppbs (set ?ks) m' s' (storage c')"
    using deliver_all[OF assms(1-4), of ?c ?s "{}" n ?ks] assms(10) sub by auto
  have "m' = length B" using c'(4-6) ks by (auto simp: dl_at_def)
  then have fin: "sm_state s' = FinishedDL" "at_chain contents K (storage c') B" using c'(6) by (auto simp: dl_at_def)
  have "download R depth ppbs deliver ?c = c'" using c'(1) B by (simp add: download_def del: upt_Suc)
  then have "sync_round R depth B ppbs deliver c = c'\<lparr>sm := None\<rparr>"
    unfolding sync_round_def reply_result[OF assms(8-10) B assms(7)]
    using start_result[OF assms(8,10), of B] assms(6) n c'(2,3) fin(1) by (simp add: handle_def process_def)
  then show ?thesis using c'(3) fin(2) by simp
qed

lemma round_undo:
  assumes "block_tree K N" "B \<in> N" "B \<noteq> []" "0 < sint depth" "summaries B ppbs" "fair deliver" "length (block_hash (last B)) = HashLen"
    "bs @ [b] \<in> N" "bs \<noteq> []" "take (length (bs @ [b])) B \<noteq> bs @ [b]" "at_chain contents K (storage c) (bs @ [b])" "sm c = None" "\<not> fatal c"
    "has_rows contents (storage c) j (Suc (length bs))" "j \<le> length bs"
  shows "\<exists>c'. sync_round R depth B ppbs deliver c = c' \<and> sm c' = None \<and> \<not> fatal c' \<and> at_chain contents K (storage c') bs \<and> has_rows contents (storage c') j (length bs)"
proof (cases "length (bs @ [b]) < length B")
  case False
  obtain st' where u: "process_DoUndoAndRetry R (asked B) (storage c) = ((asked B)\<lparr>sm_state := Retry\<rparr>, st', False)" "at_chain contents K st' bs" "has_rows contents st' j (length bs)"
    using DoUndo_rows[OF assms(1,8,11,9,14,15)] by blast
  have "\<not> (length (bs @ [b]) = length B \<and> block_hash (last B) = block_hash (last (bs @ [b])))"
  proof
    assume a: "length (bs @ [b]) = length B \<and> block_hash (last B) = block_hash (last (bs @ [b]))"
    have "butlast B @ [last B] \<in> N" "length (butlast B) = length bs" using assms(2,3) a by auto
    with tree_unique[OF assms(1,8), of "butlast B" "last B"] a assms(3) have "bs @ [b] = B" by simp
    then show False using assms(10) a by simp
  qed
  then have "sync_round R depth B ppbs deliver c = c\<lparr>sm := None, storage := st', fatal := False\<rparr>"
    unfolding sync_round_def reply_result[OF assms(11-13,3,7)] using False u(1) by (auto simp: handle_def process_def)
  then show ?thesis using u(2,3) by simp
next
  case True
  let ?n = "length (bs @ [b])"
  let ?s = "(asked B)\<lparr>dlResultsHtNext := ?n, startheight := ?n, endHeight := length B - 1, sm_state := DownloadingBlocks\<rparr>"
  let ?c = "c\<lparr>sm := Some ?s\<rparr>" and ?ks = "deliver [?n..<length B]"
  have sub: "set ?ks \<subseteq> {..<length B}" "?n \<in> set ?ks" using assms(6) True by (auto simp: fair_def)
  obtain c' s' where c': "fold (\<lambda>k. handle R depth (PutBlock (ppbs k))) ?ks ?c = c'" "sm c' = Some s'" "\<not> fatal c'" "sm_state s' = Retry"
      "at_chain contents K (storage c') bs" "has_rows contents (storage c') j (length bs)"
    using deliver_stale[OF assms(1,2,4,5,8,9) True assms(10,15), of ?c ?s ?ks] assms(11,13,14) sub
    by (auto simp: asked_def StateMachine_new_def)
  have "download R depth ppbs deliver ?c = c'" using c'(1) assms(3) by (simp add: download_def del: upt_Suc)
  then have "sync_round R depth B ppbs deliver c = c'\<lparr>sm := None\<rparr>"
    unfolding sync_round_def reply_result[OF assms(11-13,3,7)]
    using start_result[OF assms(11,13), of B] True c'(2-4) by (simp add: handle_def process_def)
  then show ?thesis using c'(3,5,6) by simp
qed


lemma prefix_converges:
  assumes "block_tree K N" "B \<in> N" "B \<noteq> []" "0 < sint depth" "summaries B ppbs" "fair deliver" "length (block_hash (last B)) = HashLen"
    and at: "at_chain contents K (storage c) (take m B)" "sm c = None" "\<not> fatal c"
  shows "\<exists>n \<le> 2. synced contents K B ((sync_round R depth B ppbs deliver ^^ n) c)"
proof -
  have fin: "synced contents K B (sync_round R depth B ppbs deliver c)" if "at_chain contents K (storage c) B" "sm c = None" "\<not> fatal c" for c
    using round_done[OF that assms(3,7), of depth ppbs deliver] that by (simp add: synced_def asked_def)
  show ?thesis
  proof (cases "m < length B")
    case True
    from round_extend[OF assms(1,2,4,5,6) True assms(7) at] fin
    have "synced contents K B (sync_round R depth B ppbs deliver (sync_round R depth B ppbs deliver c))" by auto
    then show ?thesis by (intro exI[of _ 2]) (simp add: numeral_2_eq_2)
  next
    case False
    then show ?thesis using fin[OF _ at(2,3)] at(1) by (intro exI[of _ 1]) simp
  qed
qed

lemma sync_converges_aux:
  assumes "block_tree K N" "p @ ns \<in> N" "p @ ns \<noteq> []" "0 < sint depth" "summaries (p @ ns) ppbs" "fair deliver"
    "length (block_hash (last (p @ ns))) = HashLen"
  shows "p @ os \<in> N \<Longrightarrow> p \<noteq> [] \<or> os = [] \<Longrightarrow> at_chain contents K (storage c) (p @ os) \<Longrightarrow> has_rows contents (storage c) (length p) (length (p @ os)) \<Longrightarrow>
    sm c = None \<Longrightarrow> \<not> fatal c \<Longrightarrow> \<exists>n \<le> length os + 2. synced contents K (p @ ns) ((sync_round R depth (p @ ns) ppbs deliver ^^ n) c)"
proof (induction os arbitrary: c rule: rev_induct)
  case Nil
  then show ?case using prefix_converges[OF assms, of c "length p"] by (simp add: numeral_2_eq_2)
next
  case (snoc x os)
  let ?bs = "p @ os" and ?round = "sync_round R depth (p @ ns) ppbs deliver"
  show ?case
  proof (cases "take (length (?bs @ [x])) (p @ ns) = ?bs @ [x]")
    case True
    then obtain n where "n \<le> 2" "synced contents K (p @ ns) ((?round ^^ n) c)"
      using prefix_converges[OF assms, of c "length (?bs @ [x])"] snoc.prems by auto
    then show ?thesis by (intro exI[of _ n]) simp
  next
    case False
    have "?bs \<noteq> []" "?bs @ [x] \<in> N" "at_chain contents K (storage c) (?bs @ [x])" "has_rows contents (storage c) (length p) (Suc (length ?bs))" "length p \<le> length ?bs"
      using snoc.prems by simp_all
    from round_undo[OF assms(1-6) assms(7) this(2,1) False this(3) snoc.prems(5,6) this(4,5)]
    obtain c1 where c1: "?round c = c1" "sm c1 = None" "\<not> fatal c1" "at_chain contents K (storage c1) ?bs" "has_rows contents (storage c1) (length p) (length ?bs)"
      by blast
    have "?bs \<in> N" using tree_prefix[OF assms(1), of ?bs "[x]"] snoc.prems(1) by simp
    from snoc.IH[OF this _ c1(4,5,2,3)] snoc.prems(2) obtain n where "n \<le> length os + 2" "synced contents K (p @ ns) ((?round ^^ n) c1)" by auto
    then show ?thesis using c1(1) by (intro exI[of _ "Suc n"]) (simp add: funpow_swap1)
  qed
qed

end

section \<open>Properties\<close>

text \<open>C5: Following bitcoind is safe. Whatever bitcoind reports, in whatever order its replies, the blocks and the calls of the event
  loop arrive, whether it reorganises in between or tasks fail: as long as the blocks are those of a tree of valid blocks, the
  store represents at all times one of the chains of that tree, with all its tables in agreement.\<close>

theorem sync_safe:
  assumes "rocksdb_laws R contents" and "block_tree K N" and "0 < sint depth"
    and "bs \<in> N" and "store_repr contents st (map block_entry bs)" and "headerRecSz (s_hdr st) = K"
    and "(sync_step R depth N)\<^sup>*\<^sup>* \<lparr> sm = None, storage = st, fatal = False \<rparr> c"
  shows "\<exists>bs' \<in> N. store_repr contents (storage c) (map block_entry bs')"
proof -
  have "sync_inv contents K N \<lparr> sm = None, storage = st, fatal = False \<rparr>" using assms(4-6) by (auto simp: sync_inv_def at_chain_def)
  then have "sync_inv contents K N c" by (rule rocksdb_laws.sync_safe_aux[OF assms(1-3,7)])
  then show ?thesis by (auto simp: sync_inv_def at_chain_def)
qed

definition demo_tree :: "CBlock list set" where
  "demo_tree = {[], [demo_block], [demo_block, demo_block2]}"

lemma demo_tree_ok: "block_tree 164 demo_tree"
proof -
  obtain hdr db d where s: "store_repr fmlookup (demo_blank hdr db d) []" "headerRecSz hdr = 164" using demo_blank_repr by blast
  obtain st where st: "store_repr fmlookup st [block_entry demo_block]" "headerRecSz (s_hdr st) = 164" using demo_store1 by blast
  have "headerRecSz (s_hdr (demo_blank hdr db d)) = 164" using s(2) by (simp add: demo_blank_def)
  then have "valid_next 164 [] demo_block" using demo_block_add[OF s(1)] by (simp only: valid_next_iff)
  moreover have "valid_next 164 [block_entry demo_block] demo_block2" using demo_block2_add[OF st] by (simp only: valid_next_iff[OF st(2)])
  ultimately show ?thesis by (auto simp: block_tree_def demo_tree_def append_eq_Cons_conv Cons_eq_append_conv)
qed

lemma sync_events: "(\<forall>ev \<in> set evs. ok_event N ev) \<Longrightarrow> (sync_step R depth N)\<^sup>*\<^sup>* c (fold (handle R depth) evs c)"
  by (induction evs arbitrary: c) (auto intro: converse_rtranclp_into_rtranclp sync_step.intros)

theorem sync_safe_witness:
  "\<exists>st p1 p2. store_repr fmlookup st [] \<and> fill 0 [] 300 demo_block = Inr p1 \<and> fill 1 [] 300 demo_block2 = Inr p2 \<and>
     (\<exists>bs' \<in> demo_tree. store_repr fmlookup (storage (fold (handle fm_rocksdb 100)
        [again, chain_reply [demo_block, demo_block2], again, PutBlock p2, TaskErrored, again, chain_reply [demo_block, demo_block2], again,
         PutBlock p2, PutBlock p1, again, RetryRecommended, chain_reply [demo_block], again]
        \<lparr> sm = None, storage = st, fatal = False \<rparr>)) (map block_entry bs'))"
proof -
  obtain hdr db d where s: "store_repr fmlookup (demo_blank hdr db d) (map block_entry [])" "headerRecSz (s_hdr (demo_blank hdr db d)) = 164"
    using demo_blank_repr by (auto simp: demo_blank_def)
  have N: "[] \<in> demo_tree" "[] @ [demo_block] \<in> demo_tree" "[demo_block] @ [demo_block2] \<in> demo_tree" by (simp_all add: demo_tree_def)
  have "block_wf (vtx demo_block)" "block_wf (vtx demo_block2)"
    using tree_next[OF demo_tree_ok N(2)] tree_next[OF demo_tree_ok N(3)] by (simp_all add: valid_next_def block_fits_def)
  then obtain p1 p2 where p: "fill 0 [] 300 demo_block = Inr p1" "fill 1 [] 300 demo_block2 = Inr p2"
    using fill_ok[of demo_block 0 "[]" 300] fill_ok[of demo_block2 1 "[]" 300] by auto
  have "served demo_tree p1" unfolding served_def using N(2) p(1) by (intro exI[of _ "[]"] exI[of _ demo_block]) auto
  moreover have "served demo_tree p2" unfolding served_def using N(3) p(2) by (intro exI[of _ "[demo_block]"] exI[of _ demo_block2]) auto
  ultimately have ok: "\<forall>ev \<in> set [again, chain_reply [demo_block, demo_block2], again, PutBlock p2, TaskErrored, again, chain_reply [demo_block, demo_block2], again,
      PutBlock p2, PutBlock p1, again, RetryRecommended, chain_reply [demo_block], again]. ok_event demo_tree ev" by (simp add: chain_reply_def)
  have d: "0 < sint (100 :: u32)" by simp
  from sync_safe[OF fm.rocksdb_laws_axioms demo_tree_ok d N(1) s sync_events[OF ok]] p s(1) show ?thesis unfolding list.map(1) by blast
qed

text \<open>C6: Synchronisation converges, through reorganisations. If bitcoind's chain stays \<open>p @ ns\<close> while the store is at \<open>p @ os\<close> and has
  undo records for the blocks \<open>os\<close>, then after at most \<open>length os + 2\<close> rounds, with the blocks of each round arriving in any
  order, the controller has undone what is stale, added what is new, and goes on to the mempool with a store that
  represents \<open>p @ ns\<close>.\<close>

theorem sync_converges:
  assumes "rocksdb_laws R contents" and "block_tree K N" and "0 < sint depth"
    and "p @ os \<in> N" and "p @ ns \<in> N" and "p @ ns \<noteq> []" and "p \<noteq> [] \<or> os = []"
    and "at_chain contents K st (p @ os)" and "has_rows contents st (length p) (length (p @ os))"
    and "summaries (p @ ns) ppbs" and "fair deliver"
  shows "\<exists>n \<le> length os + 2. synced contents K (p @ ns) ((sync_round R depth (p @ ns) ppbs deliver ^^ n) \<lparr> sm = None, storage = st, fatal = False \<rparr>)"
proof -
  let ?B = "p @ ns"
  have "butlast ?B @ [last ?B] \<in> N" using assms(5,6) by simp
  then have "header_ok (blk_header (last ?B))" using tree_next[OF assms(2)] by (simp add: valid_next_def)
  then have "length (block_hash (last ?B)) = HashLen"
    using header_bytes_hash(3)[of "fst (block_entry (last ?B))"] by (auto simp: block_hash_def header_bytes_def block_entry_def)
  from rocksdb_laws.sync_converges_aux[OF assms(1,2,5,6,3,10,11) this assms(4,7), of "\<lparr> sm = None, storage = st, fatal = False \<rparr>"] assms(8,9)
  show ?thesis by simp
qed

theorem sync_converges_witness:
  "\<exists>st ppbs n. at_chain fmlookup 164 st [demo_block, demo_block2] \<and>
     synced fmlookup 164 [demo_block] ((sync_round fm_rocksdb 100 [demo_block] ppbs rev ^^ n) \<lparr> sm = None, storage = st, fatal = False \<rparr>)"
proof -
  obtain st where st: "store_repr fmlookup st [block_entry demo_block, block_entry demo_block2]" "headerRecSz (s_hdr st) = 164"
      "fmlookup (s_undo st) (height_key 1) \<noteq> None" using demo_store2 by blast
  have at: "at_chain fmlookup 164 st ([demo_block] @ [demo_block2])" using st by (simp add: at_chain_def)
  have rows: "has_rows fmlookup st (length [demo_block]) (length ([demo_block] @ [demo_block2]))" using st(3) by (auto simp: has_rows_def less_Suc_eq)
  have "block_wf (vtx demo_block)" using demo_txs_wf by (simp add: demo_block_def)
  from fill_ok[OF this, of 0 "[]" 300] obtain p where "fill 0 [] 300 demo_block = Inr p" by auto
  then have sums: "summaries ([demo_block] @ []) (\<lambda>_. p)" by (auto simp: summaries_def)
  have N: "[demo_block] @ [demo_block2] \<in> demo_tree" "[demo_block] @ [] \<in> demo_tree" by (simp_all add: demo_tree_def)
  have "0 < sint (100 :: u32)" "fair rev" by (simp_all add: fair_def)
  from sync_converges[OF fm.rocksdb_laws_axioms demo_tree_ok this(1) N _ _ at rows sums this(2)] show ?thesis using at by auto
qed

end
