(* ===== verification/Hash_Containers.thy ===== *)
theory Hash_Containers
  imports Fulcrum_Prelude "HOL-Library.AList"
begin

text \<open>
  The standard containers of the in-memory components. A map (\<open>std::map\<close>, \<open>std::unordered_map\<close>) is an association list with
  distinct keys, a set is a distinct list. The order of the list is the order of iteration; the standard leaves it open for the hash
  containers, so the theorems about a component hold for every order.
\<close>

section \<open>Maps\<close>

abbreviation keys :: "('k \<times> 'v) list \<Rightarrow> 'k list" where "keys \<equiv> map fst"

text \<open>\<open>m[k]\<close> followed by a modification (a missing key is created), and \<open>find\<close> followed by a modification (a missing key is skipped).\<close>

definition map_at :: "'v \<Rightarrow> 'k \<Rightarrow> ('v \<Rightarrow> 'v) \<Rightarrow> ('k \<times> 'v) list \<Rightarrow> ('k \<times> 'v) list" where
  "map_at d k f m = AList.update k (f (case map_of m k of None \<Rightarrow> d | Some v \<Rightarrow> v)) m"

definition map_adjust :: "'k \<Rightarrow> ('v \<Rightarrow> 'v) \<Rightarrow> ('k \<times> 'v) list \<Rightarrow> ('k \<times> 'v) list" where
  "map_adjust k f m = (case map_of m k of None \<Rightarrow> m | Some v \<Rightarrow> AList.update k (f v) m)"

lemma map_of_at [simp]: "map_of (map_at d k f m) = (map_of m)(k \<mapsto> f (case map_of m k of None \<Rightarrow> d | Some v \<Rightarrow> v))"
  by (simp add: map_at_def update_conv')

lemma map_of_adjust [simp]: "map_of (map_adjust k f m) = (map_of m)(k := map_option f (map_of m k))"
  by (auto simp: map_adjust_def update_conv' split: option.split)

lemma map_of_adel [simp]: "map_of (AList.delete k m) = (map_of m)(k := None)"
  by (rule delete_conv')

lemma map_of_aupd [simp]: "map_of (AList.update k v m) = (map_of m)(k \<mapsto> v)"
  by (rule update_conv')

lemma distinct_keys [simp]:
  "distinct (keys m) \<Longrightarrow> distinct (keys (map_at d k f m))" "distinct (keys m) \<Longrightarrow> distinct (keys (map_adjust k f m))"
  "distinct (keys m) \<Longrightarrow> distinct (keys (AList.delete k m))" "distinct (keys m) \<Longrightarrow> distinct (keys (AList.update k v m))"
  by (simp_all add: map_at_def map_adjust_def distinct_update distinct_delete split: option.split)

lemma set_keys: "set (keys m) = dom (map_of m)"
  by (simp add: dom_map_of_conv_image_fst)

text \<open>The number of entries.\<close>

lemma length_keys: "distinct (keys m) \<Longrightarrow> length m = card (dom (map_of m))"
  by (metis distinct_card length_map set_keys)

end
