(* ===== verification/Rpa.thy ===== *)
theory Rpa
  imports Hash_Containers Packed_Num Streams String_Encodings Block_Preprocess
begin

text \<open>
  \<open>Rpa.h\<close>, \<open>Rpa.cpp\<close>: reusable payment addresses. An input is indexed under the first 16 bits of the hash of its serialisation;
  a wallet asks for a prefix of 4 to 16 bits. A table has one row per 16-bit value. The table of a block holds transaction positions
  and is written to the database in a compressed form with a table of contents, from which rows are read when they are
  needed; the table of the mempool holds transaction hashes.
\<close>

abbreviation (input) InputIndexLimit :: nat where "InputIndexLimit \<equiv> 30"
abbreviation (input) PrefixBits :: nat where "PrefixBits \<equiv> 16"
abbreviation (input) PrefixBitsMin :: nat where "PrefixBitsMin \<equiv> 4"
abbreviation (input) PrefixBytes :: nat where "PrefixBytes \<equiv> 2"
abbreviation (input) SerializedTxIdxBits :: nat where "SerializedTxIdxBits \<equiv> 24"

definition numRows :: nat where "numRows = 2 ^ PrefixBits"

type_synonym TxIdx = u32

datatype rpa_error =
    rpa_invalid_argument string
  | rpa_failure string
  | rpa_exception string
  | rpa_pnv pnv_error
  | rpa_ser ser_error
  | rpa_out_of_range

section \<open>Hashes and prefixes\<close>

text \<open>\<open>Rpa::Hash(const CTxIn &)\<close>: the double SHA-256 of the serialised input.\<close>

definition Rpa_Hash :: "CTxIn \<Rightarrow> bytes" where
  "Rpa_Hash txin = BTC_Hash (Serialize_CTxIn txin) False"

record Prefix =
  px_bits :: byte
  px_n :: u16
  px_bytes :: bytes

definition pfxN :: "nat \<Rightarrow> u16 \<Rightarrow> byte" where
  "pfxN N num = ucast (drop_bit (8 * (1 - N)) num AND 0xff)"

definition numToBytes :: "u16 \<Rightarrow> bytes" where
  "numToBytes num = [pfxN 0 num, pfxN 1 num]"

definition Prefix_new :: "u16 \<Rightarrow> byte \<Rightarrow> (rpa_error, Prefix) result" where
  "Prefix_new num bitsIn =
     (let bits = (if unat bitsIn < PrefixBitsMin then of_nat PrefixBitsMin else if unat bitsIn > PrefixBits then of_nat PrefixBits else bitsIn) :: byte;
          n = ucast (push_bit (PrefixBits - unat bits) ((ucast num :: u32) AND (push_bit (unat bits) 1 - 1))) :: u16
      in if unat bitsIn < PrefixBitsMin \<or> unat bitsIn > PrefixBits then Inl (rpa_invalid_argument ''Prefix bits may not be <4 or >16!'')
         else Inr \<lparr> px_bits = bits, px_n = n, px_bytes = numToBytes n \<rparr>)"

definition Prefix_of_Hash :: "bytes \<Rightarrow> (rpa_error, Prefix) result" where
  "Prefix_of_Hash h =
     (if h = [] then Inl (rpa_invalid_argument ''Provided Rpa::Hash is empty!'')
      else
        let bits = (if length h = 1 then 8 else of_nat PrefixBits);
            nb = min PrefixBytes (length h);
            bs = take nb h @ replicate (PrefixBytes - nb) 0
        in Inr \<lparr> px_bits = bits, px_n = be_dec bs, px_bytes = bs \<rparr>)"

definition prefix_range :: "Prefix \<Rightarrow> u32 \<times> u32" where
  "prefix_range p =
     (let offset = push_bit (PrefixBits - min (unat (px_bits p)) PrefixBits) 1 :: u32
      in (ucast (px_n p), ucast (px_n p) + offset))"

definition px_toByteArray :: "bool \<Rightarrow> Prefix \<Rightarrow> bytes" where
  "px_toByteArray trunc p =
     (if trunc \<and> unat (px_bits p) \<le> 8 then take (max (unat (px_bits p)) 8 div 8) (px_bytes p) else px_bytes p)"

definition px_toHex :: "Prefix \<Rightarrow> bytes" where
  "px_toHex p =
     (let ret = ToHexFast (px_toByteArray True p);
          desiredSize = unat (px_bits p) div 4 + (if unat (px_bits p) mod 4 \<noteq> 0 then 1 else 0)
      in if length ret > desiredSize then take desiredSize ret else ret)"

text \<open>\<open>Prefix::fromHex\<close> on the text without surrounding white space; \<open>val\<close> is 32 bits wide.\<close>

fun px_hex_loop :: "bytes \<Rightarrow> u32 \<Rightarrow> nat \<Rightarrow> (u32 \<times> nat) option" where
  "px_hex_loop [] val bits = Some (val, bits)"
| "px_hex_loop (c # cs) val bits =
     (let val = push_bit 4 val; bits = bits + 4
      in if bits > PrefixBits then None
         else if 0x30 \<le> c \<and> c \<le> 0x39 then px_hex_loop cs (val + ucast (c - 0x30)) bits
         else if 0x41 \<le> c \<and> c \<le> 0x46 then px_hex_loop cs (val + (10 + ucast (c - 0x41))) bits
         else if 0x61 \<le> c \<and> c \<le> 0x66 then px_hex_loop cs (val + (10 + ucast (c - 0x61))) bits
         else None)"

definition px_fromHex :: "bytes \<Rightarrow> (rpa_error, Prefix option) result" where
  "px_fromHex hex =
     (case px_hex_loop hex 0 0 of
        None \<Rightarrow> Inr None
      | Some (val, bits) \<Rightarrow>
          if bits < PrefixBitsMin then Inr None else rbind (Prefix_new (ucast val) (of_nat bits)) (\<lambda>p. Inr (Some p)))"

section \<open>Rows\<close>

text \<open>The generic algorithms. A row is a vector or a set: \<open>put\<close> is \<open>push_back\<close>, which skips an obvious duplicate, or \<open>insert\<close>.\<close>

definition put_back :: "'a \<Rightarrow> 'a list \<Rightarrow> 'a list" where
  "put_back item row = (if row \<noteq> [] \<and> last row = item then row else row @ [item])"

definition row_range :: "'a list \<Rightarrow> Prefix \<Rightarrow> nat list" where
  "row_range cont p = (case prefix_range p of (b, e) \<Rightarrow> [unat b..<min (unat e) (length cont)])"

definition addForPrefixGeneric :: "('a \<Rightarrow> 'a list \<Rightarrow> 'a list) \<Rightarrow> Prefix \<Rightarrow> 'a \<Rightarrow> 'a list list \<Rightarrow> 'a list list" where
  "addForPrefixGeneric put p item cont = fold (\<lambda>i cont. cont[i := put item (cont ! i)]) (row_range cont p) cont"

definition searchPrefixGeneric :: "Prefix \<Rightarrow> bool \<Rightarrow> 'a::linorder list list \<Rightarrow> 'a list" where
  "searchPrefixGeneric p sortAndMakeUnique cont =
     (let ret = concat (map ((!) cont) (row_range cont p))
      in if sortAndMakeUnique \<and> length ret > 1 then sort_unique ret else ret)"

definition removeForPrefixGeneric :: "Prefix \<Rightarrow> 'a option \<Rightarrow> 'a list list \<Rightarrow> nat \<times> 'a list list" where
  "removeForPrefixGeneric p individualItem cont =
     fold (\<lambda>i (ret, cont).
        case individualItem of
          None \<Rightarrow> (ret + length (cont ! i), cont[i := []])
        | Some item \<Rightarrow> (ret + count_list (cont ! i) item, cont[i := removeAll item (cont ! i)]))
       (row_range cont p) (0, cont)"

definition elementCountGeneric :: "'a list list \<Rightarrow> nat" where
  "elementCountGeneric cont = fold (\<lambda>row ct. ct + length row) cont 0"

section \<open>The table of the mempool\<close>

type_synonym MempoolPrefixTable = "bytes list list"

definition MempoolPrefixTable_new :: MempoolPrefixTable where "MempoolPrefixTable_new = replicate numRows []"

definition mpt_addForPrefix :: "Prefix \<Rightarrow> bytes \<Rightarrow> MempoolPrefixTable \<Rightarrow> MempoolPrefixTable" where
  "mpt_addForPrefix p h t = addForPrefixGeneric List.insert p h t"

definition mpt_searchPrefix :: "Prefix \<Rightarrow> bool \<Rightarrow> MempoolPrefixTable \<Rightarrow> bytes list" where
  "mpt_searchPrefix p sortAndMakeUnique t = searchPrefixGeneric p sortAndMakeUnique t"

definition mpt_removeForPrefix :: "Prefix \<Rightarrow> MempoolPrefixTable \<Rightarrow> nat \<times> MempoolPrefixTable" where
  "mpt_removeForPrefix p t = removeForPrefixGeneric p None t"

definition mpt_removeForPrefixAndHash :: "Prefix \<Rightarrow> bytes \<Rightarrow> MempoolPrefixTable \<Rightarrow> nat \<times> MempoolPrefixTable" where
  "mpt_removeForPrefixAndHash p h t = removeForPrefixGeneric p (Some h) t"

section \<open>The table of a block\<close>

text \<open>A row of a read-only table is \<open>None\<close> until it is loaded.\<close>

datatype PrefixTable =
    ReadWrite "TxIdx list list" bool
  | ReadOnly bytes "bytes option list" "u64 list"

definition PrefixTable_new :: PrefixTable where "PrefixTable_new = ReadWrite (replicate numRows []) True"

definition pt_isReadOnly :: "PrefixTable \<Rightarrow> bool" where
  "pt_isReadOnly t = (case t of ReadOnly _ _ _ \<Rightarrow> True | ReadWrite _ _ \<Rightarrow> False)"

definition pt_addForPrefix :: "Prefix \<Rightarrow> TxIdx \<Rightarrow> PrefixTable \<Rightarrow> (rpa_error, PrefixTable) result" where
  "pt_addForPrefix p n t =
     (case t of
        ReadOnly _ _ _ \<Rightarrow> Inl (rpa_exception ''addForPrefix called on a read-only PrefixTable'')
      | ReadWrite rows _ \<Rightarrow> Inr (ReadWrite (addForPrefixGeneric put_back p n rows) False))"

definition pt_removeForPrefix :: "Prefix \<Rightarrow> PrefixTable \<Rightarrow> (rpa_error, nat \<times> PrefixTable) result" where
  "pt_removeForPrefix p t =
     (case t of
        ReadOnly _ _ _ \<Rightarrow> Inl (rpa_exception ''removeForPrefix called on a read-only PrefixTable'')
      | ReadWrite rows e \<Rightarrow> (case removeForPrefixGeneric p None rows of (n, rows) \<Rightarrow> Inr (n, ReadWrite rows e)))"

text \<open>A read from a \<open>GenericVectorReader\<close>: every item read here has at least one byte.\<close>

definition vr_parse :: "(ser_error, 'a) parser \<Rightarrow> VectorReader \<Rightarrow> (rpa_error, 'a \<times> VectorReader) result" where
  "vr_parse p r =
     (case p (drop (vr_pos r) (vr_data r)) of
        Inl e \<Rightarrow> Inl (rpa_ser e)
      | Inr (x, rest) \<Rightarrow> Inr (x, r\<lparr>vr_pos := length (vr_data r) - length rest\<rparr>))"

definition stream_result :: "stream_error + 'a \<Rightarrow> (rpa_error, 'a) result" where
  "stream_result x = (case x of Inl _ \<Rightarrow> Inl (rpa_failure ''VectorReader'') | Inr a \<Rightarrow> Inr a)"

abbreviation rpa_ctx :: stream_ctx where "rpa_ctx \<equiv> ser_ctx 0 0"

definition vr_compact :: "VectorReader \<Rightarrow> (rpa_error, u64 \<times> VectorReader) result" where
  "vr_compact = vr_parse (ReadCompactSize rpa_ctx False MAX_SIZE)"

definition skip_row :: "VectorReader \<Rightarrow> (rpa_error, VectorReader) result" where
  "skip_row vr =
     rbind (vr_compact vr) (\<lambda>(sz, vr). stream_result (VectorReader_seek (sint (of_nat (vr_pos vr) + sz)) vr))"

fun skip_rows :: "nat \<Rightarrow> VectorReader \<Rightarrow> (rpa_error, VectorReader) result" where
  "skip_rows 0 vr = Inr vr"
| "skip_rows (Suc n) vr = rbind (skip_row vr) (skip_rows n)"

definition load_row :: "nat \<Rightarrow> bytes \<Rightarrow> u64 list \<Rightarrow> (rpa_error, bytes) result" where
  "load_row index serData toc =
     (let pfx0 = unat (pfxN 0 (of_nat index)); pfx1 = unat (pfxN 1 (of_nat index))
      in if pfx0 \<ge> length toc then Inl (rpa_exception ''PrefixTable serialized TOC has bad size'')
         else
           rbind (stream_result (VectorReader_new serData (unat (toc ! pfx0)))) (\<lambda>vr.
           rbind (skip_rows pfx1 vr) (\<lambda>vr.
           rbind (vr_compact vr) (\<lambda>(sz, vr).
             let pos = vr_pos vr; bufsz = length serData
             in if unat sz > bufsz \<or> unat (of_nat pos + sz) > bufsz
                then Inl (rpa_failure ''Bad size read from serialized data buffer when attempting to deserialize a PrefixTable row'')
                else (case pnv_new 3 (take (unat sz) (drop pos serData)) True of Inl e \<Rightarrow> Inl (rpa_pnv e) | Inr row \<Rightarrow> Inr row)))))"

definition lazyLoadRow :: "nat \<Rightarrow> bytes \<Rightarrow> bytes option list \<Rightarrow> u64 list \<Rightarrow> (rpa_error, bytes \<times> bytes option list) result" where
  "lazyLoadRow index serData rows toc =
     (if length rows \<noteq> numRows then Inl (rpa_exception ''Bad size for ro->rows(). FIXME!'')
      else if index \<ge> length rows then Inl rpa_out_of_range
      else case rows ! index of
          Some row \<Rightarrow> Inr (row, rows)
        | None \<Rightarrow> rbind (load_row index serData toc) (\<lambda>row. Inr (row, rows[index := Some row])))"

definition pnv_elements :: "bytes \<Rightarrow> TxIdx list" where
  "pnv_elements row = map (pnv_get 3 True row) [0..<pnv_size 3 row]"

fun collect_rows :: "nat list \<Rightarrow> bytes \<Rightarrow> bytes option list \<Rightarrow> u64 list \<Rightarrow> (rpa_error, TxIdx list \<times> bytes option list) result" where
  "collect_rows [] serData rows toc = Inr ([], rows)"
| "collect_rows (i # is) serData rows toc =
     rbind (lazyLoadRow i serData rows toc) (\<lambda>(row, rows).
     rbind (collect_rows is serData rows toc) (\<lambda>(rest, rows). Inr (pnv_elements row @ rest, rows)))"

definition pt_searchPrefix :: "Prefix \<Rightarrow> bool \<Rightarrow> PrefixTable \<Rightarrow> (rpa_error, TxIdx list \<times> PrefixTable) result" where
  "pt_searchPrefix p sortAndMakeUnique t =
     (case t of
        ReadWrite rows e \<Rightarrow> Inr (searchPrefixGeneric p sortAndMakeUnique rows, t)
      | ReadOnly serData rows toc \<Rightarrow>
          rbind (collect_rows (row_range rows p) serData rows toc) (\<lambda>(ret, rows).
            Inr (if sortAndMakeUnique \<and> length ret > 1 then sort_unique ret else ret, ReadOnly serData rows toc)))"

fun count_rows :: "nat list \<Rightarrow> bytes \<Rightarrow> bytes option list \<Rightarrow> u64 list \<Rightarrow> (rpa_error, nat \<times> bytes option list) result" where
  "count_rows [] serData rows toc = Inr (0, rows)"
| "count_rows (i # is) serData rows toc =
     rbind (lazyLoadRow i serData rows toc) (\<lambda>(row, rows).
     rbind (count_rows is serData rows toc) (\<lambda>(n, rows). Inr (pnv_size 3 row + n, rows)))"

definition pt_elementCount :: "PrefixTable \<Rightarrow> (rpa_error, nat \<times> PrefixTable) result" where
  "pt_elementCount t =
     (case t of
        ReadWrite rows e \<Rightarrow> Inr (if e then 0 else elementCountGeneric rows, t)
      | ReadOnly serData rows toc \<Rightarrow>
          rbind (count_rows [0..<length rows] serData rows toc) (\<lambda>(n, rows). Inr (n, ReadOnly serData rows toc)))"

section \<open>Serialisation\<close>

definition serializeRow :: "nat \<Rightarrow> PrefixTable \<Rightarrow> (rpa_error, bytes \<times> PrefixTable) result" where
  "serializeRow index t =
     (case t of
        ReadOnly serData rows toc \<Rightarrow>
          rbind (lazyLoadRow index serData rows toc) (\<lambda>(row, rows). Inr (row, ReadOnly serData rows toc))
      | ReadWrite rows e \<Rightarrow>
          if index \<ge> length rows then Inl rpa_out_of_range
          else
            let vec = rows ! index
            in case pnv_Make TYPE(32 word) 3 True (replicate (length vec * 3) 0) vec False of
                 Inl err \<Rightarrow> Inl (rpa_pnv err) | Inr row \<Rightarrow> Inr (row, t))"

text \<open>\<open>toc.prefix0Offsets\<close> has 256 entries.\<close>

fun write_rows :: "nat list \<Rightarrow> VectorWriter \<Rightarrow> u64 list \<Rightarrow> PrefixTable \<Rightarrow> (rpa_error, VectorWriter \<times> u64 list \<times> PrefixTable) result" where
  "write_rows [] vw toc t = Inr (vw, toc, t)"
| "write_rows (i # is) vw toc t =
     (let toc = (if pfxN 1 (of_nat i) = 0 then toc[unat (pfxN 0 (of_nat i)) := of_nat (length (vw_data vw))] else toc)
      in rbind (serializeRow i t) (\<lambda>(rowData, t).
           write_rows is (VectorWriter_write rowData (VectorWriter_write (WriteCompactSize (of_nat (length rowData))) vw)) toc t))"

definition serialize_table :: "PrefixTable \<Rightarrow> (rpa_error, bytes \<times> PrefixTable) result" where
  "serialize_table t =
     (let vw = VectorWriter_write (ser_writedata64 0) (VectorWriter_write (ser_writedata8 0)
                 (VectorWriter_write (ser_writedata8 (of_nat SerializedTxIdxBits))
                   (VectorWriter_write (ser_writedata8 (of_nat PrefixBits)) (VectorWriter_new [] 0))))
      in rbind (write_rows [0..<numRows] vw (replicate 256 0) t) (\<lambda>(vw, toc, t).
           let vw2 = VectorWriter_write (WriteCompactSize (of_nat (length (vw_data vw)))) (VectorWriter_new (vw_data vw) 2);
               vw = vw\<lparr>vw_data := vw_data vw2\<rparr>;
               vw = VectorWriter_write (WriteCompactSize (of_nat (length toc))) vw;
               vw = fold (\<lambda>val. VectorWriter_write (ser_writedata64 val)) toc vw
           in Inr (vw_data vw, t)))"

text \<open>\<open>emptySerialization\<close> is the process-wide copy of the serialisation of an empty table, kept from the first time it was
  computed. \<open>compress\<close> stands for \<open>qCompress\<close>.\<close>

definition pt_serialize :: "(bytes \<Rightarrow> bytes) \<Rightarrow> bytes option \<Rightarrow> PrefixTable \<Rightarrow> (rpa_error, bytes \<times> bytes option \<times> PrefixTable) result" where
  "pt_serialize compress emptySerialization t =
     (let isDefEmpty = (case t of ReadWrite _ e \<Rightarrow> e | ReadOnly _ _ _ \<Rightarrow> False)
      in if isDefEmpty \<and> emptySerialization \<noteq> None then Inr (the emptySerialization, emptySerialization, t)
         else
           rbind (serialize_table t) (\<lambda>(dataBuf, t).
             let compressed = compress dataBuf
             in Inr (compressed, if isDefEmpty then Some compressed else emptySerialization, t)))"

fun read_toc :: "nat \<Rightarrow> nat \<Rightarrow> VectorReader \<Rightarrow> (rpa_error, u64 list) result" where
  "read_toc 0 bufsz vr = Inr []"
| "read_toc (Suc n) bufsz vr =
     rbind (vr_parse ser_readdata64 vr) (\<lambda>(val, vr).
       if unat val \<ge> bufsz then Inl (rpa_failure ''PrefixTable: Bad toc entry, out of range'')
       else rbind (read_toc n bufsz vr) (\<lambda>vals. Inr (val # vals)))"

definition read_header :: "bytes \<Rightarrow> (rpa_error, u64 list) result" where
  "read_header serData =
     rbind (stream_result (VectorReader_new serData 0)) (\<lambda>vr.
     rbind (vr_parse ser_readdata8 vr) (\<lambda>(pbits, vr).
     rbind (vr_parse ser_readdata8 vr) (\<lambda>(dbits, vr).
       if pbits \<noteq> of_nat PrefixBits then Inl (rpa_failure ''PrefixTable: Wrong byte value at position 0'')
       else if dbits \<noteq> of_nat SerializedTxIdxBits then Inl (rpa_failure ''PrefixTable: Wrong byte value at position 1'')
       else
         rbind (vr_compact vr) (\<lambda>(tocOffset, vr).
           if unat tocOffset \<ge> length serData then Inl (rpa_failure ''PrefixTable: Bad tocOffset, exceeds buffer size'')
           else
             rbind (stream_result (VectorReader_seek (sint tocOffset) vr)) (\<lambda>vr.
             rbind (vr_compact vr) (\<lambda>(numTocEntries, vr).
               if numTocEntries \<noteq> 256 then Inl (rpa_failure ''PrefixTable: Bad toc entry count'')
               else read_toc 256 (length serData) vr))))))"

text \<open>\<open>PrefixTable(const QByteArray &)\<close>; \<open>uncompress\<close> stands for \<open>qUncompress\<close>, which returns null on corrupt data.\<close>

definition PrefixTable_of_bytes :: "(bytes \<Rightarrow> bytes option) \<Rightarrow> bytes \<Rightarrow> (rpa_error, PrefixTable) result" where
  "PrefixTable_of_bytes uncompress compressedSerializedData =
     (case uncompress compressedSerializedData of
        None \<Rightarrow> Inl (rpa_failure ''PrefixTable: Failed to uncompress serialized data .. is the data corrupt?'')
      | Some serData \<Rightarrow> rbind (read_header serData) (\<lambda>toc. Inr (ReadOnly serData (replicate numRows None) toc)))"

fun rows_equal :: "nat list \<Rightarrow> PrefixTable \<Rightarrow> PrefixTable \<Rightarrow> (rpa_error, bool) result" where
  "rows_equal [] t u = Inr True"
| "rows_equal (i # is) t u =
     rbind (serializeRow i t) (\<lambda>(a, t). rbind (serializeRow i u) (\<lambda>(b, u). if a \<noteq> b then Inr False else rows_equal is t u))"

definition pt_equal :: "PrefixTable \<Rightarrow> PrefixTable \<Rightarrow> (rpa_error, bool) result" where
  "pt_equal t u = rows_equal [0..<numRows] t u"

text \<open>\<open>PreProcessedBlock::fill\<close>: the table of a block holds the first 30 inputs of every transaction but the coinbase.\<close>

definition rpa_inputs :: "CTransaction list \<Rightarrow> (nat \<times> CTxIn) list" where
  "rpa_inputs txs = concat (map (\<lambda>txIdx. map (Pair txIdx) (take InputIndexLimit (vin (txs ! txIdx)))) [1..<length txs])"

fun add_inputs :: "(nat \<times> CTxIn) list \<Rightarrow> PrefixTable \<Rightarrow> (rpa_error, PrefixTable) result" where
  "add_inputs [] pft = Inr pft"
| "add_inputs ((txIdx, i) # rest) pft =
     rbind (Prefix_of_Hash (Rpa_Hash i)) (\<lambda>p. rbind (pt_addForPrefix p (of_nat txIdx) pft) (add_inputs rest))"

definition block_prefix_table ::
  "(bytes \<Rightarrow> bytes) \<Rightarrow> bytes option \<Rightarrow> CTransaction list \<Rightarrow> (rpa_error, bytes \<times> bytes option \<times> PrefixTable) result" where
  "block_prefix_table compress emptySerialization txs =
     rbind (add_inputs (rpa_inputs txs) PrefixTable_new) (\<lambda>pft.
       let maxTxIdxSeen = length txs - 1
       in if maxTxIdxSeen > 2 ^ SerializedTxIdxBits - 1
          then Inl (rpa_exception ''Block too many txs and has overflowed the maximum txIdx we support for RPA'')
          else pt_serialize compress emptySerialization pft)"

section \<open>Prefixes select rows\<close>

definition prefix_ok :: "Prefix \<Rightarrow> bool" where
  "prefix_ok p \<longleftrightarrow> PrefixBitsMin \<le> unat (px_bits p) \<and> unat (px_bits p) \<le> PrefixBits \<and>
     unat (px_n p) mod 2 ^ (PrefixBits - unat (px_bits p)) = 0"

text \<open>Row \<open>i\<close> matches a prefix when its leading bits are the prefix.\<close>

definition matches :: "Prefix \<Rightarrow> nat \<Rightarrow> bool" where
  "matches p i \<longleftrightarrow> i div 2 ^ (PrefixBits - unat (px_bits p)) = unat (px_n p) div 2 ^ (PrefixBits - unat (px_bits p))"

lemma range_bounds:
  assumes "prefix_ok p"
  shows "unat (fst (prefix_range p)) = unat (px_n p)"
    "unat (snd (prefix_range p)) = unat (px_n p) + 2 ^ (PrefixBits - unat (px_bits p))"
    "unat (px_n p) + 2 ^ (PrefixBits - unat (px_bits p)) \<le> numRows"
proof -
  let ?k = "PrefixBits - unat (px_bits p)"
  have k: "?k \<le> 12" using assms unfolding prefix_ok_def by linarith
  have n: "unat (px_n p) < 2 ^ 16" using unat_bound[of "px_n p"] by simp
  have "(2::nat) ^ 16 = 2 ^ ?k * 2 ^ (16 - ?k)" using k by (simp add: power_add[symmetric])
  then obtain m where m: "(2::nat) ^ 16 = 2 ^ ?k * m" by blast
  obtain j where j: "unat (px_n p) = 2 ^ ?k * j" using assms by (auto simp: prefix_ok_def mod_eq_0_iff_dvd)
  have "2 ^ ?k * j < 2 ^ ?k * m" using n j m by simp
  then have "j < m" by simp
  then have "2 ^ ?k * (j + 1) \<le> 2 ^ ?k * m" by (intro mult_le_mono2) simp
  then show le: "unat (px_n p) + 2 ^ ?k \<le> numRows" using j m by (simp add: numRows_def)
  have u: "unat (ucast (px_n p) :: u32) = unat (px_n p)" by simp
  show "unat (fst (prefix_range p)) = unat (px_n p)" by (simp add: prefix_range_def u)
  have "(push_bit ?k 1 :: u32) = of_nat (2 ^ ?k)" by (simp add: push_bit_eq_mult)
  moreover have "(2::nat) ^ ?k < 2 ^ 32" using k by (intro power_strict_increasing) simp_all
  ultimately have "unat (push_bit ?k 1 :: u32) = 2 ^ ?k" by (simp only: unat_of_nat) simp
  moreover have "unat (px_n p) + 2 ^ ?k < 2 ^ 32" using le by (simp add: numRows_def)
  ultimately have "unat (ucast (px_n p) + push_bit ?k 1 :: u32) = unat (px_n p) + 2 ^ ?k" by (simp add: unat_add_lem[THEN iffD1] u)
  then show "unat (snd (prefix_range p)) = unat (px_n p) + 2 ^ ?k" using assms by (simp add: prefix_range_def prefix_ok_def)
qed

lemma row_range_eq:
  assumes "prefix_ok p" "length cont = numRows"
  shows "row_range cont p = [unat (px_n p)..<unat (px_n p) + 2 ^ (PrefixBits - unat (px_bits p))]"
    "i \<in> set (row_range cont p) \<longleftrightarrow> i < numRows \<and> matches p i"
proof -
  let ?k = "PrefixBits - unat (px_bits p)"
  note r = range_bounds[OF assms(1)]
  show e: "row_range cont p = [unat (px_n p)..<unat (px_n p) + 2 ^ ?k]"
    using r assms(2) by (auto simp: row_range_def split_beta)
  obtain j where j: "unat (px_n p) = j * 2 ^ ?k" using assms(1) by (auto simp: prefix_ok_def mod_eq_0_iff_dvd mult.commute)
  have "matches p i \<longleftrightarrow> i div 2 ^ ?k = j" by (simp add: matches_def j)
  also have "\<dots> \<longleftrightarrow> j * 2 ^ ?k \<le> i \<and> i < j * 2 ^ ?k + 2 ^ ?k" 
    by (metis add.commute div_nat_eqI dividend_less_div_times div_times_less_eq_dividend mult.commute mult_Suc zero_less_numeral zero_less_power)
  finally show "i \<in> set (row_range cont p) \<longleftrightarrow> i < numRows \<and> matches p i" using r(3) j by (auto simp: e)
qed

lemma Prefix_of_Hash_ok:
  assumes "Prefix_of_Hash h = Inr p"
  shows "prefix_ok p" "length h \<ge> 2 \<Longrightarrow> px_bits p = 16 \<and> unat (px_n p) = 256 * unat (h ! 0) + unat (h ! 1)"
proof -
  have val: "unat (be_dec [a, b] :: u16) = 256 * unat a + unat b" for a b :: byte
  proof -
    have "256 * unat a + unat b < 2 ^ 16" using unat_bound[of a] unat_bound[of b] by simp
    moreover have "(ucast b AND push_bit 8 (ucast a) :: u16) = 0"
      by (rule bit_word_eqI) (auto simp: bit_simps dest: bit_imp_le_length)
    then have "(ucast b OR push_bit 8 (ucast a) :: u16) = ucast b + push_bit 8 (ucast a)" by (rule disjunctive_add_eq_or[symmetric])
    then have "(be_dec [a, b] :: u16) = of_nat (256 * unat a + unat b)"
      by (simp add: be_dec_def push_bit_eq_mult add.commute mult.commute)
    ultimately show ?thesis by (simp only: unat_of_nat) simp
  qed
  have "h \<noteq> []" using assms by (auto simp: Prefix_of_Hash_def)
  then consider a where "h = [a]" | a b t where "h = a # b # t" by (metis list.exhaust)
  then have "prefix_ok p \<and> (length h \<ge> 2 \<longrightarrow> px_bits p = 16 \<and> unat (px_n p) = 256 * unat (h ! 0) + unat (h ! 1))"
  proof cases
    case 1
    then show ?thesis using assms by (auto simp: Prefix_of_Hash_def prefix_ok_def val Let_def)
  next
    case 2
    then show ?thesis using assms by (auto simp: Prefix_of_Hash_def prefix_ok_def val Let_def)
  qed
  then show "prefix_ok p" "length h \<ge> 2 \<Longrightarrow> px_bits p = 16 \<and> unat (px_n p) = 256 * unat (h ! 0) + unat (h ! 1)" by blast+
qed

lemma Prefix_new_ok:
  assumes "Prefix_new num b = Inr p"
  shows "prefix_ok p \<and> px_bits p = b"
proof -
  let ?k = "PrefixBits - unat b"
  let ?x = "(ucast num :: u32) AND (push_bit (unat b) 1 - 1)"
  have b: "4 \<le> unat b" "unat b \<le> 16" and p: "px_bits p = b" "px_n p = ucast (push_bit ?k ?x)"
    using assms by (auto simp: Prefix_new_def Let_def split: if_splits)
  have "take_bit ?k (ucast (push_bit ?k ?x) :: u16) = 0" by (rule bit_word_eqI) (auto simp: bit_simps)
  then have "unat (take_bit ?k (px_n p)) = 0" by (simp only: p) simp
  then have "take_bit ?k (unat (px_n p)) = 0" by (simp only: unsigned_take_bit_eq)
  then have "unat (px_n p) mod 2 ^ ?k = 0" by (simp add: take_bit_eq_mod)
  then show ?thesis using b p(1) by (simp add: prefix_ok_def)
qed

lemma fold_rows:
  assumes "distinct is" "\<forall>i \<in> set is. i < length c"
  shows "length (fold (\<lambda>i c. c[i := f (c ! i)]) is c) = length c"
    "j < length c \<Longrightarrow> fold (\<lambda>i c. c[i := f (c ! i)]) is c ! j = (if j \<in> set is then f (c ! j) else c ! j)"
  using assms
proof (induction "is" arbitrary: c)
  case (Cons i "is")
  { case 1 show ?case using Cons.IH(1)[of "c[i := f (c ! i)]"] 1 by simp }
  { case 2 show ?case using Cons.IH(2)[of "c[i := f (c ! i)]"] 2 by (auto simp: nth_list_update) }
qed simp_all

definition put_law :: "('a \<Rightarrow> 'a list \<Rightarrow> 'a list) \<Rightarrow> bool" where
  "put_law put \<longleftrightarrow> (\<forall>x row. set (put x row) = insert x (set row))"

lemma put_laws [simp]: "put_law put_back" "put_law List.insert"
  by (auto simp: put_law_def put_back_def dest: last_in_set)

lemma row_range_fold: "distinct (row_range cont p)" "i \<in> set (row_range cont p) \<Longrightarrow> i < length cont"
  by (auto simp: row_range_def split: prod.splits)

lemma add_rows:
  assumes "prefix_ok p" "length c = numRows" "put_law put"
  shows "length (addForPrefixGeneric put p x c) = numRows"
    "i < numRows \<Longrightarrow> addForPrefixGeneric put p x c ! i = (if matches p i then put x (c ! i) else c ! i)"
    "i < numRows \<Longrightarrow> set (addForPrefixGeneric put p x c ! i) = (if matches p i then insert x (set (c ! i)) else set (c ! i))"
  using fold_rows[where f = "put x", OF row_range_fold(1), of c p c] row_range_fold(2)[of _ c p] row_range_eq(2)[OF assms(1,2)] assms(2,3)
  by (simp_all add: addForPrefixGeneric_def put_law_def)

lemma search_rows:
  assumes "prefix_ok p" "length c = numRows"
  shows "set (searchPrefixGeneric p srt c) = (\<Union>i \<in> {i. i < numRows \<and> matches p i}. set (c ! i))"
  using row_range_eq(2)[OF assms] by (auto simp: searchPrefixGeneric_def Let_def sort_unique_set)

lemma remove_rows_aux:
  assumes "distinct is" "\<forall>i \<in> set is. i < length c"
  shows "snd (fold (\<lambda>i (r, c). (r + g (c ! i), c[i := f (c ! i)])) is (n, c)) = fold (\<lambda>i c. c[i := f (c ! i)]) is c"
  using assms by (induction "is" arbitrary: n c) simp_all

lemma remove_rows:
  assumes "prefix_ok p" "length c = numRows"
  shows "length (snd (removeForPrefixGeneric p (Some x) c)) = numRows"
    "i < numRows \<Longrightarrow> snd (removeForPrefixGeneric p (Some x) c) ! i = (if matches p i then removeAll x (c ! i) else c ! i)"
  using fold_rows[where f = "removeAll x", OF row_range_fold(1), of c p c] row_range_fold(2)[of _ c p] row_range_eq(2)[OF assms] assms(2)
    remove_rows_aux[OF row_range_fold(1), of c p c "\<lambda>row. count_list row x" "removeAll x" 0]
  by (simp_all add: removeForPrefixGeneric_def)

section \<open>The serialised form\<close>

definition pack :: "TxIdx list \<Rightarrow> bytes" where
  "pack row = concat (map (num_enc False 3) row)"

definition row_ser :: "TxIdx list \<Rightarrow> bytes" where
  "row_ser row = WriteCompactSize (of_nat (length (pack row))) @ pack row"

definition rows_ser :: "TxIdx list list \<Rightarrow> bytes" where
  "rows_ser rows = concat (map row_ser rows)"

definition row_off :: "TxIdx list list \<Rightarrow> nat \<Rightarrow> nat" where
  "row_off rows i = 11 + length (rows_ser (take i rows))"

definition toc_of :: "TxIdx list list \<Rightarrow> u64 list" where
  "toc_of rows = map (\<lambda>k. of_nat (row_off rows (256 * k))) [0..<256]"

definition header_of :: "TxIdx list list \<Rightarrow> bytes" where
  "header_of rows =
     (let c = WriteCompactSize (of_nat (row_off rows numRows)) in [16, 24] @ c @ replicate (9 - length c) 0)"

definition table_bytes :: "TxIdx list list \<Rightarrow> bytes" where
  "table_bytes rows = header_of rows @ rows_ser rows @ WriteCompactSize 256 @ concat (map ser_writedata64 (toc_of rows))"

lemma length_pack [simp]: "length (pack row) = 3 * length row"
  by (simp add: pack_def length_concat comp_def sum_list_triv num_enc_def)

lemma pfxN_eq: "i < numRows \<Longrightarrow> unat (pfxN 0 (of_nat i)) = i div 256 \<and> unat (pfxN 1 (of_nat i)) = i mod 256"
proof -
  assume i: "i < numRows"
  then have u: "unat (of_nat i :: u16) = i" unfolding unat_of_nat by (simp add: numRows_def)
  have m: "(0xff :: u16) = mask 8" by (simp add: mask_eq_exp_minus_1)
  have "unat (ucast (x AND 0xff) :: byte) = unat x mod 256" for x :: u16
    unfolding m take_bit_eq_mask[symmetric] by (simp add: unsigned_ucast_eq take_bit_eq_mod unat_mod)
  moreover have "unat (drop_bit 8 (of_nat i :: u16)) = i div 256" using u by (simp add: drop_bit_eq_div unat_div)
  moreover have "i div 256 < 256" using i by (simp add: numRows_def less_mult_imp_div_less)
  ultimately show ?thesis using u by (simp add: pfxN_def)
qed

lemma serializeRow_rw: "i < length rows \<Longrightarrow> serializeRow i (ReadWrite rows e) = Inr (pack (rows ! i), ReadWrite rows e)"
proof -
  assume i: "i < length rows"
  have t: "pnv_types_ok TYPE(32 word) 3" by (simp add: pnv_types_ok_def)
  have "map (\<lambda>j. num_enc False 3 (ucast (rows ! i ! j) :: u32)) [0..<length (rows ! i)] = map (num_enc False 3) (rows ! i)"
    by (rule nth_equalityI) simp_all
  then show ?thesis
    using i pnv_Make_ok[OF t, of "replicate (length (rows ! i) * 3) 0" "length (rows ! i)" False "rows ! i" True]
    by (simp add: serializeRow_def pack_def)
qed

lemma rows_ser_Suc: "i < length rows \<Longrightarrow> rows_ser (take (Suc i) rows) = rows_ser (take i rows) @ row_ser (rows ! i)"
  by (simp add: rows_ser_def take_Suc_conv_app_nth)

lemma row_off_Suc: "i < length rows \<Longrightarrow> row_off rows (Suc i) = row_off rows i + length (row_ser (rows ! i))"
  by (simp add: row_off_def rows_ser_Suc)

lemma write_rows_ok:
  assumes "length rows = numRows" "length toc = 256" "a + n = numRows"
    "vw_pos vw = length (vw_data vw)" "length (vw_data vw) = row_off rows a"
  shows "\<exists>vw' toc'. write_rows [a..<numRows] vw toc (ReadWrite rows e) = Inr (vw', toc', ReadWrite rows e) \<and>
    vw_pos vw' = length (vw_data vw') \<and> vw_data vw' = vw_data vw @ rows_ser (drop a rows) \<and> length toc' = 256 \<and>
    (\<forall>k < 256. toc' ! k = (if a \<le> 256 * k then of_nat (row_off rows (256 * k)) else toc ! k))"
  using assms(2-)
proof (induction n arbitrary: a vw toc)
  case 0
  then show ?case by (auto simp: rows_ser_def numRows_def assms(1))
next
  case (Suc n)
  have a: "a < numRows" "a < length rows" using Suc.prems assms(1) by simp_all
  define vw1 where "vw1 = VectorWriter_write (pack (rows ! a)) (VectorWriter_write (WriteCompactSize (of_nat (length (pack (rows ! a))))) vw)"
  define toc1 where "toc1 = (if pfxN 1 (of_nat a) = 0 then toc[unat (pfxN 0 (of_nat a)) := of_nat (length (vw_data vw))] else toc)"
  have vw: "vw_data vw1 = vw_data vw @ row_ser (rows ! a)" "vw_pos vw1 = length (vw_data vw1)"
    using Suc.prems(3) by (simp_all add: vw1_def VectorWriter_write_ok overwrite_def row_ser_def)
  have toc1: "length toc1 = 256" using Suc.prems(1) by (simp add: toc1_def)
  have "length (vw_data vw1) = row_off rows (Suc a)" unfolding vw(1) using Suc.prems(4) a(2) by (simp add: row_off_Suc)
  then obtain vw' toc' where r: "write_rows [Suc a..<numRows] vw1 toc1 (ReadWrite rows e) = Inr (vw', toc', ReadWrite rows e)"
      "vw_pos vw' = length (vw_data vw')" "vw_data vw' = vw_data vw1 @ rows_ser (drop (Suc a) rows)" "length toc' = 256"
      "\<forall>k < 256. toc' ! k = (if Suc a \<le> 256 * k then of_nat (row_off rows (256 * k)) else toc1 ! k)"
    using Suc.IH[of toc1 "Suc a" vw1] toc1 Suc.prems(2) vw(2) by auto
  have w: "write_rows [a..<numRows] vw toc (ReadWrite rows e) = Inr (vw', toc', ReadWrite rows e)"
    using r(1) a by (simp add: upt_conv_Cons serializeRow_rw vw1_def toc1_def Let_def del: upt_Suc)
  have d: "vw_data vw' = vw_data vw @ rows_ser (drop a rows)"
    using r(3) vw(1) a(2) by (simp add: rows_ser_def Cons_nth_drop_Suc[symmetric])
  have z: "pfxN 1 (of_nat a) = 0 \<longleftrightarrow> a mod 256 = 0" using pfxN_eq[OF a(1)] by (simp add: word_unat_eq_iff)
  have "toc' ! k = (if a \<le> 256 * k then of_nat (row_off rows (256 * k)) else toc ! k)" if k: "k < 256" for k
  proof (cases "256 * k = a")
    case True
    then have "a div 256 = k" "a mod 256 = 0" by auto
    then show ?thesis using r(5) k True z pfxN_eq[OF a(1)] Suc.prems(1,4) by (simp add: toc1_def)
  next
    case False
    then have "a mod 256 = 0 \<Longrightarrow> a div 256 \<noteq> k" by auto
    then have "toc1 ! k = toc ! k" using z pfxN_eq[OF a(1)] by (simp add: toc1_def)
    then show ?thesis using r(5) k False by (simp add: Suc_le_eq)
  qed
  then show ?case using w d r(2,4) by blast
qed

lemma length_compact: "length (WriteCompactSize n) \<le> 9"
  by (simp add: length_WriteCompactSize GetSizeOfCompactSize_def)

lemma write_words:
  "vw_pos vw = length (vw_data vw) \<Longrightarrow>
   vw_data (fold (\<lambda>val. VectorWriter_write (ser_writedata64 val)) toc vw) = vw_data vw @ concat (map ser_writedata64 toc)"
  by (induction toc arbitrary: vw) (simp_all add: VectorWriter_write_ok overwrite_def)

lemma serialize_table_ok:
  assumes "length rows = numRows"
  shows "serialize_table (ReadWrite rows e) = Inr (table_bytes rows, ReadWrite rows e)"
proof -
  define vw where "vw = VectorWriter_write (ser_writedata64 0) (VectorWriter_write (ser_writedata8 0)
    (VectorWriter_write (ser_writedata8 24) (VectorWriter_write (ser_writedata8 16) (VectorWriter_new [] 0))))"
  have vw: "vw_data vw = [16, 24] @ replicate 9 0" "vw_pos vw = length (vw_data vw)"
    by (simp_all add: vw_def VectorWriter_new_def VectorWriter_write_ok overwrite_def ser_writedata8_def ser_writedata64_def
        eval_nat_numeral)
  have off: "length (vw_data vw) = row_off rows 0" by (simp add: vw row_off_def rows_ser_def)
  obtain vw' toc' where w: "write_rows [0..<numRows] vw (replicate 256 0) (ReadWrite rows e) = Inr (vw', toc', ReadWrite rows e)"
      "vw_pos vw' = length (vw_data vw')" "vw_data vw' = vw_data vw @ rows_ser rows" "length toc' = 256"
      "\<forall>k < 256. toc' ! k = of_nat (row_off rows (256 * k))"
    using write_rows_ok[OF assms, of "replicate 256 0" 0 numRows vw e] vw(2) off by auto
  have toc: "toc' = toc_of rows" by (rule nth_equalityI) (simp_all add: w(4,5) toc_of_def)
  define c where "c = WriteCompactSize (of_nat (length (vw_data vw')))"
  define vw2 where "vw2 = VectorWriter_write c (VectorWriter_new (vw_data vw') 2)"
  have len: "length (vw_data vw') = row_off rows numRows" using w(3) vw(1) assms by (simp add: row_off_def)
  have "length c \<le> 9" by (simp add: c_def length_compact)
  then have "drop (length c) (replicate 9 0 @ rows_ser rows) = replicate (9 - length c) 0 @ rows_ser rows" by simp
  moreover have "vw_data vw2 = overwrite 2 c ([16, 24] @ replicate 9 0 @ rows_ser rows)"
    using w(3) vw(1) by (simp add: vw2_def VectorWriter_new_def VectorWriter_write_ok)
  ultimately have h: "vw_data vw2 = header_of rows @ rows_ser rows" by (simp add: overwrite_def header_of_def c_def len Let_def)
  have "length (header_of rows) = 11" using length_compact by (simp add: header_of_def Let_def)
  then have l2: "length (vw_data vw2) = length (vw_data vw')" by (simp add: h len row_off_def assms)
  show ?thesis
    unfolding serialize_table_def Let_def of_nat_numeral vw_def[symmetric]
    using w(1,2,4) l2 h by (simp add: write_words VectorWriter_write_ok overwrite_def table_bytes_def toc c_def vw2_def)
qed

definition table_fits :: "TxIdx list list \<Rightarrow> bool" where
  "table_fits rows \<longleftrightarrow> length rows = numRows \<and> length (table_bytes rows) < 2 ^ 63 \<and> (\<forall>row \<in> set rows. \<forall>n \<in> set row. unat n < 2 ^ 24)"

lemma length_header [simp]: "length (header_of rows) = 11"
  using length_compact by (simp add: header_of_def Let_def)

lemma row_off_le: "row_off rows i \<le> 11 + length (rows_ser rows)"
proof -
  have "rows_ser rows = rows_ser (take i rows) @ rows_ser (drop i rows)" by (simp add: rows_ser_def flip: concat_append map_append)
  then show ?thesis by (simp add: row_off_def)
qed

lemma row_off_word: "table_fits rows \<Longrightarrow> unat (of_nat (row_off rows i) :: u64) = row_off rows i"
  using row_off_le[of rows i] unfolding unat_of_nat by (simp add: table_fits_def table_bytes_def)

lemma drop_row:
  assumes "i < length rows"
  shows "drop (row_off rows i) (table_bytes rows) = row_ser (rows ! i) @ rows_ser (drop (Suc i) rows) @
    WriteCompactSize 256 @ concat (map ser_writedata64 (toc_of rows))"
proof -
  have "rows_ser rows = rows_ser (take i rows) @ row_ser (rows ! i) @ rows_ser (drop (Suc i) rows)"
    using arg_cong[OF id_take_nth_drop[OF assms], of rows_ser] by (simp add: rows_ser_def)
  then show ?thesis by (simp add: table_bytes_def row_off_def)
qed

lemma max_u64: "(n :: u64) \<le> 0xFFFFFFFFFFFFFFFF"
proof -
  have "unat n < 2 ^ 64" using unat_bound[of n] by simp
  then show ?thesis by (simp add: word_le_nat_alt)
qed

lemma vr_compact_ok:
  assumes "drop pos data = WriteCompactSize n @ rest"
  shows "vr_compact \<lparr> vr_data = data, vr_pos = pos \<rparr> = Inr (n, \<lparr> vr_data = data, vr_pos = pos + length (WriteCompactSize n) \<rparr>)"
proof -
  have "WriteCompactSize n \<noteq> []" using length_WriteCompactSize[of n] by (auto simp: GetSizeOfCompactSize_def split: if_splits)
  moreover have "length data - pos = length (WriteCompactSize n) + length rest" using arg_cong[OF assms, of length] by simp
  ultimately have "length data - length rest = pos + length (WriteCompactSize n)" by (cases "WriteCompactSize n") auto
  moreover have "ReadCompactSize rpa_ctx False MAX_SIZE (WriteCompactSize n @ rest) = Inr (n, rest)"
    using max_u64[of n] by (simp add: ReadCompactSize_def ReadCompactSizeWithLimit_iff compact_limit_def Let_def)
  ultimately show ?thesis using assms by (simp add: vr_compact_def vr_parse_def)
qed

lemma sint_small64: "x < 2 ^ 63 \<Longrightarrow> sint (of_nat x :: u64) = int x"
  by (simp add: sint_uint signed_take_bit_int_eq_self uint_nat unat_of_nat)

lemma row_compact:
  assumes "table_fits rows" "i < numRows"
  shows "vr_compact \<lparr> vr_data = table_bytes rows, vr_pos = row_off rows i \<rparr> =
    Inr (of_nat (length (pack (rows ! i))), \<lparr> vr_data = table_bytes rows,
      vr_pos = row_off rows i + length (WriteCompactSize (of_nat (length (pack (rows ! i))))) \<rparr>)"
  by (rule vr_compact_ok, subst drop_row) (use assms in \<open>auto simp: table_fits_def row_ser_def\<close>)

lemma row_end:
  assumes "table_fits rows" "i < numRows"
  shows "row_off rows i + length (WriteCompactSize (of_nat (length (pack (rows ! i))))) + length (pack (rows ! i)) = row_off rows (Suc i)"
    "row_off rows (Suc i) < 2 ^ 63" "unat (of_nat (length (pack (rows ! i))) :: u64) = length (pack (rows ! i))"
proof -
  show 1: "row_off rows i + length (WriteCompactSize (of_nat (length (pack (rows ! i))))) + length (pack (rows ! i)) = row_off rows (Suc i)"
    using assms by (subst row_off_Suc) (simp_all add: table_fits_def row_ser_def)
  show 2: "row_off rows (Suc i) < 2 ^ 63" using row_off_le[of rows "Suc i"] assms(1) by (simp add: table_fits_def table_bytes_def)
  have "length (pack (rows ! i)) \<le> row_off rows (Suc i)" using 1 by linarith
  then have "length (pack (rows ! i)) < 2 ^ 64" using 2 by simp
  then show "unat (of_nat (length (pack (rows ! i))) :: u64) = length (pack (rows ! i))" unfolding unat_of_nat by simp
qed

lemma skip_row_ok:
  assumes "table_fits rows" "i < numRows"
  shows "skip_row \<lparr> vr_data = table_bytes rows, vr_pos = row_off rows i \<rparr> = Inr \<lparr> vr_data = table_bytes rows, vr_pos = row_off rows (Suc i) \<rparr>"
proof -
  let ?c = "length (WriteCompactSize (of_nat (length (pack (rows ! i)))))"
  have "(of_nat (row_off rows i + ?c) + of_nat (length (pack (rows ! i))) :: u64) = of_nat (row_off rows (Suc i))"
    unfolding of_nat_add[symmetric] row_end(1)[OF assms] ..
  then show ?thesis using sint_small64[OF row_end(2)[OF assms]]
    by (simp only: skip_row_def row_compact[OF assms] rbind_simps prod.case VectorReader.select_convs VectorReader_seek_def stream_result_def)
       simp
qed

lemma skip_rows_ok:
  assumes "table_fits rows"
  shows "i + n \<le> numRows \<Longrightarrow> skip_rows n \<lparr> vr_data = table_bytes rows, vr_pos = row_off rows i \<rparr> =
    Inr \<lparr> vr_data = table_bytes rows, vr_pos = row_off rows (i + n) \<rparr>"
  by (induction n arbitrary: i) (simp_all add: skip_row_ok[OF assms])

lemma load_row_ok:
  assumes "table_fits rows" "i < numRows"
  shows "load_row i (table_bytes rows) (toc_of rows) = Inr (pack (rows ! i))"
proof -
  have k: "i div 256 < 256" using assms(2) by (simp add: numRows_def less_mult_imp_div_less)
  let ?s = "of_nat (length (pack (rows ! i))) :: u64" and ?c = "length (WriteCompactSize (of_nat (length (pack (rows ! i)))))"
  have t: "unat (toc_of rows ! (i div 256)) = row_off rows (256 * (i div 256))"
    using k by (simp add: toc_of_def row_off_word[OF assms(1)])
  have le: "row_off rows j \<le> length (table_bytes rows)" for j using row_off_le[of rows j] by (simp add: table_bytes_def)
  have new: "VectorReader_new (table_bytes rows) (unat (toc_of rows ! (i div 256))) = Inr \<lparr> vr_data = table_bytes rows, vr_pos = row_off rows (256 * (i div 256)) \<rparr>"
    using le by (simp add: VectorReader_new_def t not_less)
  have skip: "skip_rows (i mod 256) \<lparr> vr_data = table_bytes rows, vr_pos = row_off rows (256 * (i div 256)) \<rparr> =
      Inr \<lparr> vr_data = table_bytes rows, vr_pos = row_off rows i \<rparr>"
    using skip_rows_ok[OF assms(1), of "256 * (i div 256)" "i mod 256"] assms(2) by simp
  have s: "unat ?s = length (pack (rows ! i))" "unat (of_nat (row_off rows i + ?c) + ?s) = row_off rows (Suc i)"
    using row_end[OF assms] row_off_word[OF assms(1), of "Suc i"] by (simp_all only: of_nat_add[symmetric])
  have "length (pack (rows ! i)) \<le> row_off rows (Suc i)" using row_end(1)[OF assms] by linarith
  then have b: "\<not> (unat ?s > length (table_bytes rows) \<or> unat (of_nat (row_off rows i + ?c) + ?s) > length (table_bytes rows))"
    unfolding s using le[of "Suc i"] by linarith
  have "drop (row_off rows i + ?c) (table_bytes rows) = drop ?c (drop (row_off rows i) (table_bytes rows))" by (simp add: add.commute)
  then have "take (length (pack (rows ! i))) (drop (row_off rows i + ?c) (table_bytes rows)) = pack (rows ! i)"
    using assms by (subst (asm) drop_row) (simp_all add: table_fits_def row_ser_def)
  moreover have "pnv_new 3 (pack (rows ! i)) True = Inr (pack (rows ! i))" by (simp add: pnv_new_def)
  moreover have "\<not> i div 256 \<ge> length (toc_of rows)" using k by (simp add: toc_of_def)
  ultimately show ?thesis using pfxN_eq[OF assms(2)] b
    by (simp only: load_row_def Let_def new stream_result_def sum.case rbind_simps skip row_compact[OF assms] prod.case VectorReader.select_convs s(1) if_False)
qed

lemma vr_parse_ok:
  assumes "drop pos data = enc @ rest" "enc \<noteq> []" "p (enc @ rest) = Inr (x, rest)"
  shows "vr_parse p \<lparr> vr_data = data, vr_pos = pos \<rparr> = Inr (x, \<lparr> vr_data = data, vr_pos = pos + length enc \<rparr>)"
proof -
  have "length data - pos = length enc + length rest" using arg_cong[OF assms(1), of length] by simp
  then have "length data - length rest = pos + length enc" using assms(2) by (cases enc) auto
  then show ?thesis using assms by (simp add: vr_parse_def)
qed

lemma read_toc_ok:
  assumes "\<forall>v \<in> set toc. unat v < bs"
  shows "drop pos data = concat (map ser_writedata64 toc) \<Longrightarrow> read_toc (length toc) bs \<lparr> vr_data = data, vr_pos = pos \<rparr> = Inr toc"
  using assms
proof (induction toc arbitrary: pos)
  case (Cons v toc)
  have "vr_parse ser_readdata64 \<lparr> vr_data = data, vr_pos = pos \<rparr> = Inr (v, \<lparr> vr_data = data, vr_pos = pos + length (ser_writedata64 v) \<rparr>)"
    by (rule vr_parse_ok) (use Cons.prems(1) length_le_enc[of 8 v] in \<open>auto simp: ser_writedata64_def ser_readdata64_def simp del: length_le_enc\<close>)
  moreover have "drop (pos + length (ser_writedata64 v)) data = drop (length (ser_writedata64 v)) (drop pos data)" by (simp add: add.commute)
  then have "drop (pos + length (ser_writedata64 v)) data = concat (map ser_writedata64 toc)" unfolding Cons.prems(1) by simp
  ultimately show ?case using Cons.IH[of "pos + length (ser_writedata64 v)"] Cons.prems(2) by auto
qed simp

lemma read_header_ok:
  assumes "table_fits rows"
  shows "read_header (table_bytes rows) = Inr (toc_of rows)"
proof -
  let ?d = "table_bytes rows" and ?L = "row_off rows numRows"
  define c where "c = WriteCompactSize (of_nat ?L)"
  define tl' where "tl' = replicate (9 - length c) 0 @ rows_ser rows @ WriteCompactSize 256 @ concat (map ser_writedata64 (toc_of rows))"
  have rows: "length rows = numRows" using assms by (simp add: table_fits_def)
  have d: "?d = [16] @ [24] @ c @ tl'" by (simp add: table_bytes_def header_of_def c_def tl'_def Let_def)
  have 0: "stream_result (VectorReader_new ?d 0) = Inr \<lparr> vr_data = ?d, vr_pos = 0 \<rparr>" by (simp add: VectorReader_new_def stream_result_def)
  have 1: "vr_parse ser_readdata8 \<lparr> vr_data = ?d, vr_pos = 0 \<rparr> = Inr (16, \<lparr> vr_data = ?d, vr_pos = 1 \<rparr>)"
    by (subst vr_parse_ok[of _ _ "[16]" "[24] @ c @ tl'"]) (simp_all add: d ser_readdata8_iff)
  have 2: "vr_parse ser_readdata8 \<lparr> vr_data = ?d, vr_pos = 1 \<rparr> = Inr (24, \<lparr> vr_data = ?d, vr_pos = 2 \<rparr>)"
    by (subst vr_parse_ok[of _ _ "[24]" "c @ tl'"]) (simp_all add: d ser_readdata8_iff)
  have 3: "vr_compact \<lparr> vr_data = ?d, vr_pos = 2 \<rparr> = Inr (of_nat ?L, \<lparr> vr_data = ?d, vr_pos = 2 + length c \<rparr>)"
    using vr_compact_ok[of 2 ?d "of_nat ?L" tl'] by (simp add: d c_def)
  have L3: "?L = 11 + length (rows_ser rows)" using rows by (simp add: row_off_def)
  have lt63: "?L < 2 ^ 63" using assms by (simp add: L3 table_fits_def table_bytes_def)
  note L = row_off_word[OF assms, of numRows] sint_small64[OF lt63] L3
  have 6: "stream_result (VectorReader_seek (sint (of_nat ?L :: u64)) \<lparr> vr_data = ?d, vr_pos = q \<rparr>) = Inr \<lparr> vr_data = ?d, vr_pos = ?L \<rparr>" for q
    by (simp only: L(2) VectorReader_seek_def stream_result_def) simp
  have 4: "drop ?L ?d = WriteCompactSize 256 @ concat (map ser_writedata64 (toc_of rows))" by (simp add: L(3) table_bytes_def)
  have lt: "?L < length ?d" using length_WriteCompactSize[of 256] by (simp add: L(3) table_bytes_def GetSizeOfCompactSize_def)
  have 5: "vr_compact \<lparr> vr_data = ?d, vr_pos = ?L \<rparr> = Inr (256, \<lparr> vr_data = ?d, vr_pos = ?L + length (WriteCompactSize 256) \<rparr>)"
    by (rule vr_compact_ok[OF 4])
  have "drop (?L + length (WriteCompactSize 256)) ?d = drop (length (WriteCompactSize 256)) (drop ?L ?d)" by (simp add: add.commute)
  then have "drop (?L + length (WriteCompactSize 256)) ?d = concat (map ser_writedata64 (toc_of rows))" unfolding 4 by simp
  moreover have "unat v < length ?d" if v: "v \<in> set (toc_of rows)" for v
  proof -
    obtain k where "v = of_nat (row_off rows (256 * k))" using v by (auto simp: toc_of_def)
    then have "unat v \<le> ?L" using row_off_word[OF assms] row_off_le L(3) by simp
    then show ?thesis using lt by simp
  qed
  ultimately have "read_toc (length (toc_of rows)) (length ?d) \<lparr> vr_data = ?d, vr_pos = ?L + length (WriteCompactSize 256) \<rparr> = Inr (toc_of rows)"
    by (intro read_toc_ok) auto
  moreover have "length (toc_of rows) = 256" by (simp add: toc_of_def)
  moreover have "\<not> length ?d \<le> ?L" using lt by simp
  ultimately show ?thesis
    unfolding read_header_def by (simp only: 0 1 2 3 5 6 rbind_simps prod.case L(1) if_False if_True not_not of_nat_numeral simp_thms)
qed

lemma take_bit24: "unat (n :: u32) < 2 ^ 24 \<Longrightarrow> take_bit 24 n = n"
  by (simp add: word_unat_eq_iff unsigned_take_bit_eq take_bit_nat_eq_self)

lemma pnv_elements_pack: "\<forall>n \<in> set row. unat n < 2 ^ 24 \<Longrightarrow> pnv_elements (pack row) = row"
proof -
  assume row: "\<forall>n \<in> set row. unat n < 2 ^ 24"
  have t: "pnv_types_ok TYPE(32 word) 3" by (simp add: pnv_types_ok_def)
  have sz: "pnv_size 3 (pack row) = length row" by (simp add: pnv_size_def)
  have "pnv_get 3 True (pack row) i = row ! i" if i: "i < length row" for i
  proof -
    have "viewForElement 3 (pack row) i = num_enc False 3 (row ! i)"
      using view_concat[of row "num_enc False 3" 3 i "[]"] i by (simp add: pack_def num_enc_def)
    then have "pnv_get 3 True (pack row) i = take_bit 24 (row ! i)"
      using pnv_get_eq[OF t, of i "pack row" True] i sz by (simp add: num_dec_num_enc)
    also have "\<dots> = row ! i" using row i by (simp add: take_bit24)
    finally show ?thesis .
  qed
  then have "map (pnv_get 3 True (pack row)) [0..<length row] = map ((!) row) [0..<length row]" by simp
  then show ?thesis by (simp only: pnv_elements_def sz map_nth)
qed

section \<open>A table that was written and read back\<close>

text \<open>The rows that have been loaded are right, whichever they are.\<close>

definition cache_ok :: "TxIdx list list \<Rightarrow> bytes option list \<Rightarrow> bool" where
  "cache_ok rows cache \<longleftrightarrow> length cache = numRows \<and> (\<forall>i < numRows. cache ! i = None \<or> cache ! i = Some (pack (rows ! i)))"

lemma lazyLoadRow_ok:
  assumes "table_fits rows" "cache_ok rows cache" "i < numRows"
  shows "\<exists>cache'. lazyLoadRow i (table_bytes rows) cache (toc_of rows) = Inr (pack (rows ! i), cache') \<and> cache_ok rows cache'"
proof (cases "cache ! i")
  case None
  then show ?thesis using assms load_row_ok[OF assms(1,3)]
    by (simp add: lazyLoadRow_def cache_ok_def nth_list_update)
next
  case (Some row)
  then have "row = pack (rows ! i)" using assms(2,3) unfolding cache_ok_def by force
  then show ?thesis using Some assms by (simp add: lazyLoadRow_def cache_ok_def)
qed

lemma collect_rows_ok:
  assumes "table_fits rows"
  shows "cache_ok rows cache \<Longrightarrow> \<forall>i \<in> set is. i < numRows \<Longrightarrow>
    \<exists>cache'. collect_rows is (table_bytes rows) cache (toc_of rows) = Inr (concat (map ((!) rows) is), cache') \<and> cache_ok rows cache'"
proof (induction "is" arbitrary: cache)
  case (Cons i "is")
  obtain c1 where c1: "lazyLoadRow i (table_bytes rows) cache (toc_of rows) = Inr (pack (rows ! i), c1)" "cache_ok rows c1"
    using lazyLoadRow_ok[OF assms Cons.prems(1), of i] Cons.prems(2) by auto
  obtain c2 where c2: "collect_rows is (table_bytes rows) c1 (toc_of rows) = Inr (concat (map ((!) rows) is), c2)" "cache_ok rows c2"
    using Cons.IH[OF c1(2)] Cons.prems(2) by auto
  have "rows ! i \<in> set rows" using assms Cons.prems(2) by (simp add: table_fits_def)
  then have "pnv_elements (pack (rows ! i)) = rows ! i" using assms by (simp add: table_fits_def pnv_elements_pack)
  then show ?case using c1(1) c2 by simp
qed simp

lemma search_stored:
  assumes "table_fits rows" "cache_ok rows cache" "prefix_ok p"
  shows "\<exists>cache'. pt_searchPrefix p srt (ReadOnly (table_bytes rows) cache (toc_of rows)) =
    Inr (searchPrefixGeneric p srt rows, ReadOnly (table_bytes rows) cache' (toc_of rows)) \<and> cache_ok rows cache'"
proof -
  have len: "length cache = numRows" "length rows = numRows" using assms(1,2) by (simp_all add: cache_ok_def table_fits_def)
  have r: "row_range cache p = row_range rows p" using len by (simp add: row_range_def)
  have "\<forall>i \<in> set (row_range cache p). i < numRows" using row_range_fold(2)[of _ cache p] len by auto
  from collect_rows_ok[OF assms(1,2) this] show ?thesis by (auto simp: pt_searchPrefix_def searchPrefixGeneric_def r Let_def)
qed

text \<open>What block processing puts into a table.\<close>

definition fill_table :: "(Prefix \<times> TxIdx) list \<Rightarrow> TxIdx list list" where
  "fill_table adds = fold (\<lambda>(p, n). addForPrefixGeneric put_back p n) adds (replicate numRows [])"

lemma pt_adds:
  "fold (\<lambda>(p, n) t. rbind t (pt_addForPrefix p n)) adds (Inr (ReadWrite rows e)) =
   Inr (ReadWrite (fold (\<lambda>(p, n). addForPrefixGeneric put_back p n) adds rows) (e \<and> adds = []))"
  by (induction adds arbitrary: rows e) (auto simp: pt_addForPrefix_def)

lemma fill_rows:
  assumes "length rows = numRows" "\<forall>(p, n) \<in> set adds. prefix_ok p"
  shows "length (fold (\<lambda>(p, n). addForPrefixGeneric put_back p n) adds rows) = numRows \<and>
    (\<forall>i < numRows. set (fold (\<lambda>(p, n). addForPrefixGeneric put_back p n) adds rows ! i) =
      set (rows ! i) \<union> {n. \<exists>p. (p, n) \<in> set adds \<and> matches p i})"
  using assms
proof (induction adds arbitrary: rows)
  case (Cons a adds)
  obtain p n where a: "a = (p, n)" by fastforce
  have p: "prefix_ok p" using Cons.prems(2) a by simp
  note r = add_rows[OF p Cons.prems(1) put_laws(1)]
  show ?case using Cons.IH[OF r(1)] Cons.prems(2) r(3) by (auto simp: a)
qed simp

lemma fill_lengths:
  assumes "length rows = numRows" "\<forall>(p, n) \<in> set adds. prefix_ok p" "\<forall>i < numRows. length (rows ! i) \<le> m"
  shows "\<forall>i < numRows. length (fold (\<lambda>(p, n). addForPrefixGeneric put_back p n) adds rows ! i) \<le> m + length adds"
  using assms
proof (induction adds arbitrary: rows m)
  case (Cons a adds)
  obtain p n where a: "a = (p, n)" by fastforce
  have p: "prefix_ok p" using Cons.prems(2) a by simp
  note r = add_rows[OF p Cons.prems(1) put_laws(1)]
  have "\<forall>i < numRows. length (addForPrefixGeneric put_back p n rows ! i) \<le> m + 1"
    using Cons.prems(3) by (auto simp: r(2) put_back_def le_Suc_eq)
  then show ?case using Cons.IH[OF r(1), of n "m + 1"] Cons.prems(2) by (simp add: a)
qed simp

lemma length_table_bytes: "\<forall>row \<in> set rows. length row \<le> m \<Longrightarrow> length (table_bytes rows) \<le> 2100 + length rows * (9 + 3 * m)"
proof -
  assume m: "\<forall>row \<in> set rows. length row \<le> m"
  have "length (row_ser row) \<le> 9 + 3 * m" if "row \<in> set rows" for row
    using length_compact[of "of_nat (length (pack row))"] m that by (auto simp: row_ser_def)
  then have "length (rows_ser rows) \<le> length rows * (9 + 3 * m)"
  proof (induction rows)
    case (Cons row rows)
    then have "length (row_ser row) \<le> 9 + 3 * m" "length (rows_ser rows) \<le> length rows * (9 + 3 * m)" by auto
    then show ?case by (simp add: rows_ser_def)
  qed (simp add: rows_ser_def)
  moreover have "length (concat (map ser_writedata64 (toc_of rows))) = 2048"
    by (simp add: length_concat comp_def ser_writedata64_def sum_list_triv toc_of_def)
  ultimately show ?thesis using length_compact[of 256] by (simp add: table_bytes_def)
qed

lemma fill_fits:
  assumes "\<forall>(p, n) \<in> set adds. prefix_ok p \<and> unat n < 2 ^ 24" "length adds \<le> 2 ^ 40"
  shows "table_fits (fill_table adds)"
proof -
  have ok: "\<forall>(p, n) \<in> set adds. prefix_ok p" using assms(1) by auto
  have r: "length (fill_table adds) = numRows" "\<And>i. i < numRows \<Longrightarrow> set (fill_table adds ! i) = {n. \<exists>p. (p, n) \<in> set adds \<and> matches p i}"
    using fill_rows[of "replicate numRows []" adds] ok by (auto simp: fill_table_def)
  have "\<forall>row \<in> set (fill_table adds). length row \<le> length adds"
    using fill_lengths[of "replicate numRows []" adds 0] ok r(1) by (auto simp: fill_table_def in_set_conv_nth)
  from length_table_bytes[OF this] have "length (table_bytes (fill_table adds)) \<le> 2100 + 2 ^ 16 * (9 + 3 * length adds)"
    by (simp add: r(1) numRows_def)
  also have "\<dots> \<le> 2100 + 2 ^ 16 * (9 + 3 * 2 ^ 40)" using assms(2) by (intro add_left_mono mult_left_mono) simp_all
  also have "\<dots> < 2 ^ 63" by simp
  finally have "length (table_bytes (fill_table adds)) < 2 ^ 63" .
  moreover have "\<forall>row \<in> set (fill_table adds). \<forall>n \<in> set row. unat n < 2 ^ 24"
    using r assms(1) by (fastforce simp: in_set_conv_nth)
  ultimately show ?thesis using r(1) by (simp add: table_fits_def)
qed

lemma serialize_ok:
  assumes "length rows = numRows" "e \<Longrightarrow> rows = replicate numRows []"
    "cached = None \<or> cached = Some (compress (table_bytes (replicate numRows [])))"
  shows "\<exists>cached'. pt_serialize compress cached (ReadWrite rows e) = Inr (compress (table_bytes rows), cached', ReadWrite rows e)"
  using assms serialize_table_ok[OF assms(1)] by (auto simp: pt_serialize_def Let_def)

text \<open>A table filled under any prefixes answers queries after it was serialised, compressed, stored, read back and loaded row by row.\<close>

lemma stored_table:
  assumes "\<forall>x. uncompress (compress x) = Some x" and "\<forall>(p, n) \<in> set adds. prefix_ok p \<and> unat n < 2 ^ 24" and "length adds \<le> 2 ^ 40"
    and "cached = None \<or> cached = Some (compress (table_bytes (replicate numRows [])))" and "prefix_ok q"
  shows "\<exists>bs cached' t t' xs t''. pt_serialize compress cached (ReadWrite (fill_table adds) (adds = [])) = Inr (bs, cached', t) \<and>
    PrefixTable_of_bytes uncompress bs = Inr t' \<and> pt_searchPrefix q srt t' = Inr (xs, t'') \<and>
    set xs = {n. \<exists>p i. (p, n) \<in> set adds \<and> i < numRows \<and> matches p i \<and> matches q i} \<and> (srt \<longrightarrow> sorted xs \<and> distinct xs)"
proof -
  let ?rows = "fill_table adds"
  have fits: "table_fits ?rows" using fill_fits[OF assms(2,3)] .
  have len: "length ?rows = numRows" using fits by (simp add: table_fits_def)
  have ok: "\<forall>(p, n) \<in> set adds. prefix_ok p" using assms(2) by auto
  obtain cached' where s: "pt_serialize compress cached (ReadWrite ?rows (adds = [])) = Inr (compress (table_bytes ?rows), cached', ReadWrite ?rows (adds = []))"
    using serialize_ok[of ?rows "adds = []" cached compress] len assms(4) by (auto simp: fill_table_def)
  have r: "PrefixTable_of_bytes uncompress (compress (table_bytes ?rows)) = Inr (ReadOnly (table_bytes ?rows) (replicate numRows None) (toc_of ?rows))"
    using assms(1) read_header_ok[OF fits] by (simp add: PrefixTable_of_bytes_def)
  have "cache_ok ?rows (replicate numRows None)" by (simp add: cache_ok_def)
  from search_stored[OF fits this assms(5), of srt] obtain t'' where
      f: "pt_searchPrefix q srt (ReadOnly (table_bytes ?rows) (replicate numRows None) (toc_of ?rows)) = Inr (searchPrefixGeneric q srt ?rows, t'')" by blast
  have rows: "i < numRows \<Longrightarrow> set (?rows ! i) = {n. \<exists>p. (p, n) \<in> set adds \<and> matches p i}" for i
    using fill_rows[of "replicate numRows []" adds] ok by (auto simp: fill_table_def)
  then have "set (searchPrefixGeneric q srt ?rows) = {n. \<exists>p i. (p, n) \<in> set adds \<and> i < numRows \<and> matches p i \<and> matches q i}"
    unfolding search_rows[OF assms(5) len] by auto
  moreover have "srt \<longrightarrow> sorted (searchPrefixGeneric q srt ?rows) \<and> distinct (searchPrefixGeneric q srt ?rows)"
  proof -
    have "length xs \<le> 1 \<Longrightarrow> sorted xs \<and> distinct xs" for xs :: "TxIdx list" by (cases xs) auto
    then show ?thesis by (simp add: searchPrefixGeneric_def Let_def sort_unique_set)
  qed
  ultimately show ?thesis using s r f by blast
qed

definition lead16 :: "bytes \<Rightarrow> nat" where "lead16 h = 256 * unat (h ! 0) + unat (h ! 1)"

definition input_prefix_of :: "CTxIn \<Rightarrow> Prefix" where
  "input_prefix_of i = (case Prefix_of_Hash (Rpa_Hash i) of Inr p \<Rightarrow> p)"

lemma input_prefix_of:
  "Prefix_of_Hash (Rpa_Hash i) = Inr (input_prefix_of i)" "prefix_ok (input_prefix_of i)" "matches (input_prefix_of i) k \<longleftrightarrow> k = lead16 (Rpa_Hash i)"
proof -
  have l: "length (Rpa_Hash i) = 32" by (simp add: Rpa_Hash_def)
  then obtain p where p: "Prefix_of_Hash (Rpa_Hash i) = Inr p" by (fastforce simp: Prefix_of_Hash_def Let_def)
  then have e: "input_prefix_of i = p" by (simp add: input_prefix_of_def)
  from Prefix_of_Hash_ok[OF p] l p
  show "Prefix_of_Hash (Rpa_Hash i) = Inr (input_prefix_of i)" "prefix_ok (input_prefix_of i)" "matches (input_prefix_of i) k \<longleftrightarrow> k = lead16 (Rpa_Hash i)"
    by (simp_all add: e matches_def lead16_def)
qed

lemma lead16_lt: "lead16 h < numRows"
  using unat_bound[of "h ! 0"] unat_bound[of "h ! 1"] by (simp add: lead16_def numRows_def)

abbreviation adds_of :: "(nat \<times> CTxIn) list \<Rightarrow> (Prefix \<times> TxIdx) list" where
  "adds_of \<equiv> map (\<lambda>(t, i). (input_prefix_of i, of_nat t))"

lemma add_inputs_eq:
  "add_inputs xs (ReadWrite rows e) =
   Inr (ReadWrite (fold (\<lambda>(p, n). addForPrefixGeneric put_back p n) (adds_of xs) rows) (e \<and> xs = []))"
  by (induction xs arbitrary: rows e) (auto simp: input_prefix_of(1) pt_addForPrefix_def)

lemma rpa_inputs_set: "(t, i) \<in> set (rpa_inputs txs) \<longleftrightarrow> 1 \<le> t \<and> t < length txs \<and> i \<in> set (take 30 (vin (txs ! t)))"
  by (auto simp: rpa_inputs_def)

lemma length_rpa_inputs: "length (rpa_inputs txs) \<le> 30 * length txs"
proof -
  have "length (concat (map (\<lambda>t. map (Pair t) (take 30 (vin (txs ! t)))) ts)) \<le> 30 * length ts" for ts by (induction ts) auto
  from this[of "[1..<length txs]"] show ?thesis by (simp add: rpa_inputs_def)
qed

text \<open>C24: The RPA index of a block survives the database. The table built from a block, serialised with its table of contents, compressed,
  stored, read back and loaded row by row, answers every query of 4 to 16 bits with exactly the positions of the transactions
  that have, among their first 30 inputs, one whose hash starts with the queried bits; in order and without repetitions when that is asked
  for. The shared copy of the empty table makes no difference.\<close>

theorem rpa_block_index:
  assumes "\<forall>x. uncompress (compress x) = Some x" and "length txs \<le> 2 ^ 24"
    and "cached = None \<or> cached = Some (compress (table_bytes (replicate numRows [])))" and "prefix_ok q"
  shows "\<exists>bs cached' t t' xs t''. block_prefix_table compress cached txs = Inr (bs, cached', t) \<and>
    PrefixTable_of_bytes uncompress bs = Inr t' \<and> pt_searchPrefix q srt t' = Inr (xs, t'') \<and>
    unat ` set xs = {t. 1 \<le> t \<and> t < length txs \<and> (\<exists>i \<in> set (take 30 (vin (txs ! t))). matches q (lead16 (Rpa_Hash i)))} \<and>
    (srt \<longrightarrow> sorted xs \<and> distinct xs)"
proof -
  let ?adds = "adds_of (rpa_inputs txs)"
  have num: "t < length txs \<Longrightarrow> unat (of_nat t :: TxIdx) = t" for t using assms(2) unfolding unat_of_nat by simp
  have ok: "\<forall>(p, n) \<in> set ?adds. prefix_ok p \<and> unat n < 2 ^ 24"
    using assms(2) by (auto simp: rpa_inputs_set input_prefix_of(2) num)
  have "length ?adds \<le> 2 ^ 40" using length_rpa_inputs[of txs] assms(2) by simp
  from stored_table[OF assms(1) ok this assms(3,4), of srt] obtain bs cached' t t' xs t'' where
      s: "pt_serialize compress cached (ReadWrite (fill_table ?adds) (?adds = [])) = Inr (bs, cached', t)"
      "PrefixTable_of_bytes uncompress bs = Inr t'" "pt_searchPrefix q srt t' = Inr (xs, t'')"
      "set xs = {n. \<exists>p i. (p, n) \<in> set ?adds \<and> i < numRows \<and> matches p i \<and> matches q i}" "srt \<longrightarrow> sorted xs \<and> distinct xs" by blast
  have b: "block_prefix_table compress cached txs = Inr (bs, cached', t)"
    using s(1) assms(2) by (simp add: block_prefix_table_def add_inputs_eq PrefixTable_new_def fill_table_def)
  have "set xs = (\<lambda>(t, i). of_nat t) ` {(t, i) \<in> set (rpa_inputs txs). matches q (lead16 (Rpa_Hash i))}"
  proof (intro equalityI subsetI)
    fix n assume "n \<in> set xs"
    then show "n \<in> (\<lambda>(t, i). of_nat t) ` {(t, i) \<in> set (rpa_inputs txs). matches q (lead16 (Rpa_Hash i))}"
      unfolding s(4) by (auto simp: input_prefix_of(3))
  next
    fix n :: TxIdx assume "n \<in> (\<lambda>(t, i). of_nat t) ` {(t, i) \<in> set (rpa_inputs txs). matches q (lead16 (Rpa_Hash i))}"
    then obtain t i where "n = of_nat t" "(t, i) \<in> set (rpa_inputs txs)" "matches q (lead16 (Rpa_Hash i))" by auto
    then have "(input_prefix_of i, n) \<in> set ?adds" "matches (input_prefix_of i) (lead16 (Rpa_Hash i))" by (force simp: input_prefix_of(3))+
    then show "n \<in> set xs" unfolding s(4) using lead16_lt \<open>matches q (lead16 (Rpa_Hash i))\<close> by blast
  qed
  then have "unat ` set xs = (\<lambda>(t, i). unat (of_nat t :: TxIdx)) ` {(t, i) \<in> set (rpa_inputs txs). matches q (lead16 (Rpa_Hash i))}"
    by (simp add: image_image case_prod_beta)
  also have "\<dots> = fst ` {(t, i) \<in> set (rpa_inputs txs). matches q (lead16 (Rpa_Hash i))}"
    by (rule image_cong) (auto simp: rpa_inputs_set num)
  also have "\<dots> = {t. 1 \<le> t \<and> t < length txs \<and> (\<exists>i \<in> set (take 30 (vin (txs ! t))). matches q (lead16 (Rpa_Hash i)))}"
    by (auto simp: rpa_inputs_set image_iff) blast
  finally have "unat ` set xs = {t. 1 \<le> t \<and> t < length txs \<and> (\<exists>i \<in> set (take 30 (vin (txs ! t))). matches q (lead16 (Rpa_Hash i)))}" .
  then show ?thesis using b s(2,3,5) by blast
qed

definition demo_input :: CTxIn where
  "demo_input = \<lparr> prevout = COutPoint (replicate 32 7) 0, scriptSig = [1, 2, 3], nSequence = 0, scriptWitness = [] \<rparr>"

definition demo_spends :: "CTransaction list" where
  "demo_spends = map (\<lambda>ins. \<lparr> tx_nVersion = 1, vin = ins, vout = [], nLockTime = 0, mw_blob = None, tx_hash = [] \<rparr>) [[], [demo_input], []]"

theorem rpa_block_index_witness:
  "\<exists>bs cached t t' xs t''. block_prefix_table (\<lambda>x. x) None demo_spends = Inr (bs, cached, t) \<and> PrefixTable_of_bytes Some bs = Inr t' \<and>
    pt_searchPrefix (input_prefix_of demo_input) True t' = Inr (xs, t'') \<and> unat ` set xs = {1}"
proof -
  have "{t. 1 \<le> t \<and> t < length demo_spends \<and> (\<exists>i \<in> set (take 30 (vin (demo_spends ! t))). matches (input_prefix_of demo_input) (lead16 (Rpa_Hash i)))} = {1}"
    by (auto simp: demo_spends_def input_prefix_of(3) less_Suc_eq numeral_eq_Suc)
  with rpa_block_index[of Some "\<lambda>x. x" demo_spends None "input_prefix_of demo_input" True] input_prefix_of(2)[of demo_input]
  show ?thesis by (simp add: demo_spends_def) blast
qed

end
