(* ===== verification/DSProof.thy ===== *)
theory DSProof
  imports Hash_Containers Txo_Codec Crypto_Hash
begin

text \<open>
  \<open>DSProof.h\<close>, \<open>DSProof.cpp\<close>: the double-spend proofs of the mempool and the index from transactions to the proofs that
  affect them. The two tables hold the same relation twice; the invariant \<open>dsps_inv\<close> says that they agree, and the operations
  refine operations on a map from proofs to their primary transaction and their set of descendants.
\<close>

declare map_of_eq_Some_iff [simp del]

section \<open>Data\<close>

type_synonym DspHash = bytes

definition dsp_isValid :: "DspHash \<Rightarrow> bool" where "dsp_isValid h \<longleftrightarrow> length h = HashLen"

definition fromSerializedProof :: "bytes \<Rightarrow> DspHash" where
  "fromSerializedProof serdata = (if serdata \<noteq> [] then HashRev serdata False else [])"

record DSProof =
  dsp_hash :: DspHash
  serializedProof :: bytes
  dsp_txo :: TXO
  dsp_txHash :: bytes
  descendants :: "bytes list"

definition DSProof_default :: DSProof where
  "DSProof_default = \<lparr> dsp_hash = [], serializedProof = [], dsp_txo = TXO_default, dsp_txHash = [], descendants = [] \<rparr>"

definition isComplete :: "DSProof \<Rightarrow> bool" where
  "isComplete p \<longleftrightarrow> dsp_isValid (dsp_hash p) \<and> txo_isValid (dsp_txo p) \<and> serializedProof p \<noteq> [] \<and> descendants p \<noteq> [] \<and>
     length (dsp_txHash p) = HashLen"

record DSPs =
  txDspsMap :: "(bytes \<times> DspHash list) list"
  dsproofs :: "(DspHash \<times> DSProof) list"

definition DSPs_new :: DSPs where "DSPs_new = \<lparr> txDspsMap = [], dsproofs = [] \<rparr>"

definition dsps_empty :: "DSPs \<Rightarrow> bool" where "dsps_empty d \<longleftrightarrow> dsproofs d = []"

definition numTxDspLinks :: "DSPs \<Rightarrow> nat" where
  "numTxDspLinks d = fold (\<lambda>(tx, hashset) n. n + length hashset) (txDspsMap d) 0"

section \<open>Operations\<close>

datatype dsp_error = BadArgs string

definition dsps_get :: "DspHash \<Rightarrow> DSPs \<Rightarrow> DSProof option" where
  "dsps_get h d = map_of (dsproofs d) h"

definition dsps_add :: "DSProof \<Rightarrow> DSPs \<Rightarrow> (dsp_error, bool \<times> DSPs) result" where
  "dsps_add p d =
     (if \<not> dsp_isValid (dsp_hash p) then Inl (BadArgs ''Bad dsp hash'')
      else if length (dsp_txHash p) \<noteq> HashLen \<or> dsp_txHash p \<notin> set (descendants p)
      then Inl (BadArgs ''Expected dsp txHash to be valid and in its own descendant set'')
      else if dsps_get (dsp_hash p) d \<noteq> None then Inr (False, d)
      else Inr (True, d\<lparr>dsproofs := AList.update (dsp_hash p) p (dsproofs d),
                        txDspsMap := fold (\<lambda>tx. map_at [] tx (List.insert (dsp_hash p))) (descendants p) (txDspsMap d)\<rparr>))"

definition unlink :: "DspHash \<Rightarrow> bytes \<Rightarrow> nat \<times> (bytes \<times> DspHash list) list \<Rightarrow> nat \<times> (bytes \<times> DspHash list) list" where
  "unlink h tx = (\<lambda>(n, m).
     case map_of m tx of
       None \<Rightarrow> (n, m)
     | Some hs \<Rightarrow>
         let hs' = removeAll h hs
         in (n + 1, if hs' = [] then AList.delete tx m else AList.update tx hs' m))"

definition dsps_rm :: "DspHash \<Rightarrow> DSPs \<Rightarrow> nat \<times> DSPs" where
  "dsps_rm h d =
     (case dsps_get h d of
        None \<Rightarrow> (0, d)
      | Some p \<Rightarrow>
          (case fold (unlink h) (descendants p) (0, txDspsMap d) of
             (n, m) \<Rightarrow> (n, d\<lparr>txDspsMap := m, dsproofs := AList.delete h (dsproofs d)\<rparr>)))"

definition dsps_addTx :: "DspHash \<Rightarrow> bytes \<Rightarrow> DSPs \<Rightarrow> bool \<times> DSPs" where
  "dsps_addTx h tx d =
     (case dsps_get h d of
        None \<Rightarrow> (False, d)
      | Some p \<Rightarrow>
          if length tx \<noteq> HashLen then (False, d)
          else
            let new1 = (case map_of (txDspsMap d) tx of None \<Rightarrow> True | Some hs \<Rightarrow> dsp_hash p \<notin> set hs);
                new2 = tx \<notin> set (descendants p)
            in (new1 \<or> new2,
                d\<lparr>txDspsMap := map_at [] tx (List.insert (dsp_hash p)) (txDspsMap d),
                  dsproofs := map_adjust h (\<lambda>p. p\<lparr>descendants := List.insert tx (descendants p)\<rparr>) (dsproofs d)\<rparr>))"

definition unlink_tx :: "bytes \<Rightarrow> DspHash \<Rightarrow> nat \<times> DSPs \<Rightarrow> nat \<times> DSPs" where
  "unlink_tx tx h = (\<lambda>(n, d).
     case dsps_get h d of
       None \<Rightarrow> (n, d)
     | Some p \<Rightarrow>
         (n + 1,
          if dsp_txHash p = tx then snd (dsps_rm (dsp_hash p) d)
          else d\<lparr>dsproofs := map_adjust h (\<lambda>p. p\<lparr>descendants := removeAll tx (descendants p)\<rparr>) (dsproofs d)\<rparr>))"

definition dspHashesForTx :: "bytes \<Rightarrow> DSPs \<Rightarrow> DspHash list option" where
  "dspHashesForTx tx d = map_of (txDspsMap d) tx"

definition dsps_rmTx :: "bytes \<Rightarrow> DSPs \<Rightarrow> nat \<times> DSPs" where
  "dsps_rmTx tx d =
     (case dspHashesForTx tx d of
        None \<Rightarrow> (0, d)
      | Some hs \<Rightarrow> fold (unlink_tx tx) hs (0, d\<lparr>txDspsMap := AList.delete tx (txDspsMap d)\<rparr>))"

definition proofsLinkedToTx :: "bytes \<Rightarrow> DSPs \<Rightarrow> DSProof list" where
  "proofsLinkedToTx tx d =
     (case dspHashesForTx tx d of None \<Rightarrow> [] | Some hs \<Rightarrow> List.map_filter (\<lambda>h. dsps_get h d) hs)"

fun best_proof :: "bytes \<Rightarrow> DSProof option \<Rightarrow> DSProof list \<Rightarrow> DSProof option" where
  "best_proof tx best [] = best"
| "best_proof tx best (p # ps) =
     (if dsp_txHash p = tx then Some p
      else if (case best of None \<Rightarrow> True | Some q \<Rightarrow> length (descendants p) < length (descendants q)) then best_proof tx (Some p) ps
      else best_proof tx best ps)"

definition bestProofForTx :: "bytes \<Rightarrow> DSPs \<Rightarrow> DSProof option" where
  "bestProofForTx tx d = best_proof tx None (proofsLinkedToTx tx d)"

definition txsLinkedToTxs :: "bytes list \<Rightarrow> DSPs \<Rightarrow> bytes list" where
  "txsLinkedToTxs txids d =
     (let linked = fold (\<lambda>tx hs. case dspHashesForTx tx d of None \<Rightarrow> hs | Some hs' \<Rightarrow> fold List.insert hs' hs) txids []
      in fold (\<lambda>h txs. case dsps_get h d of None \<Rightarrow> txs | Some p \<Rightarrow> fold List.insert (descendants p) txs) linked [])"

section \<open>The two tables agree\<close>

definition index_ok :: "(bytes \<times> DspHash list) list \<Rightarrow> bool" where
  "index_ok m \<longleftrightarrow> distinct (keys m) \<and> (\<forall>t. pred_option (\<lambda>hs. hs \<noteq> [] \<and> distinct hs) (map_of m t))"

definition links :: "(bytes \<times> DspHash list) list \<Rightarrow> bytes \<Rightarrow> DspHash set" where
  "links m t = (case map_of m t of None \<Rightarrow> {} | Some hs \<Rightarrow> set hs)"

definition holders :: "(DspHash \<times> DSProof) list \<Rightarrow> bytes \<Rightarrow> DspHash set" where
  "holders ps t = {h. \<exists>p. map_of ps h = Some p \<and> t \<in> set (descendants p)}"

definition proof_ok :: "DspHash \<Rightarrow> DSProof \<Rightarrow> bool" where
  "proof_ok h p \<longleftrightarrow> dsp_hash p = h \<and> dsp_isValid h \<and> length (dsp_txHash p) = HashLen \<and> dsp_txHash p \<in> set (descendants p) \<and>
     distinct (descendants p)"

definition proofs_ok :: "(DspHash \<times> DSProof) list \<Rightarrow> bool" where
  "proofs_ok ps \<longleftrightarrow> distinct (keys ps) \<and> (\<forall>h. pred_option (proof_ok h) (map_of ps h))"

definition dsps_inv :: "DSPs \<Rightarrow> bool" where
  "dsps_inv d \<longleftrightarrow> index_ok (txDspsMap d) \<and> proofs_ok (dsproofs d) \<and> (\<forall>t. links (txDspsMap d) t = holders (dsproofs d) t)"

lemma proofs_okD: "proofs_ok ps \<Longrightarrow> map_of ps h = Some p \<Longrightarrow> proof_ok h p"
  by (auto simp: proofs_ok_def dest: spec[of _ h])

text \<open>What the tables mean: every proof with its primary transaction and the set of transactions it affects.\<close>

definition dsps_abs :: "DSPs \<Rightarrow> DspHash \<rightharpoonup> bytes \<times> bytes set" where
  "dsps_abs d h = map_option (\<lambda>p. (dsp_txHash p, set (descendants p))) (dsps_get h d)"

lemma index_None: "index_ok m \<Longrightarrow> map_of m t = None \<longleftrightarrow> links m t = {}"
  by (cases "map_of m t") (auto simp: index_ok_def links_def dest: spec[of _ t])

lemma index_okD: "index_ok m \<Longrightarrow> map_of m t = Some hs \<Longrightarrow> hs \<noteq> [] \<and> distinct hs"
  by (auto simp: index_ok_def dest: spec[of _ t])

lemma links_at: "links (map_at [] tx (List.insert h) m) = (links m)(tx := insert h (links m tx))"
  by (auto simp: links_def fun_eq_iff split: option.split)

lemma index_ok_at: "index_ok m \<Longrightarrow> index_ok (map_at [] tx (List.insert h) m)"
  by (cases "map_of m tx") (auto simp: index_ok_def List.insert_def dest: spec[of _ tx])

lemma link_all:
  "index_ok m \<Longrightarrow> index_ok (fold (\<lambda>tx. map_at [] tx (List.insert h)) txs m)"
  "links (fold (\<lambda>tx. map_at [] tx (List.insert h)) txs m) t = (if t \<in> set txs then insert h (links m t) else links m t)"
  by (induction txs arbitrary: m) (simp_all add: index_ok_at links_at)

lemma unlink_step:
  assumes "index_ok m" "unlink h tx (n, m) = (n', m')"
  shows "index_ok m'" "links m' = (links m)(tx := links m tx - {h})" "n' = n + (if links m tx = {} then 0 else 1)"
proof -
  show "index_ok m'"
  proof (cases "map_of m tx")
    case (Some hs)
    then have "distinct (removeAll h hs)" using index_okD[OF assms(1) Some] by (simp add: distinct_removeAll)
    then show ?thesis using assms Some by (auto simp: unlink_def index_ok_def Let_def split: if_splits)
  qed (use assms in \<open>simp add: unlink_def\<close>)
  show "links m' = (links m)(tx := links m tx - {h})"
    using assms(2) by (cases "map_of m tx") (auto simp: unlink_def links_def Let_def fun_eq_iff removeAll_filter_not_eq filter_empty_conv split: if_splits)
  show "n' = n + (if links m tx = {} then 0 else 1)"
    using assms(2) index_None[OF assms(1), of tx] by (cases "map_of m tx") (auto simp: unlink_def Let_def)
qed

lemma unlink_all:
  assumes "index_ok m" "fold (unlink h) txs (n, m) = (n', m')" "distinct txs"
  shows "index_ok m' \<and> (\<forall>t. links m' t = (if t \<in> set txs then links m t - {h} else links m t)) \<and>
    n' = n + length (filter (\<lambda>t. links m t \<noteq> {}) txs)"
  using assms
proof (induction txs arbitrary: n m)
  case (Cons tx txs)
  obtain n1 m1 where s: "unlink h tx (n, m) = (n1, m1)" by fastforce
  note u = unlink_step[OF Cons.prems(1) s]
  have "filter (\<lambda>t. links m1 t \<noteq> {}) txs = filter (\<lambda>t. links m t \<noteq> {}) txs"
    using Cons.prems(3) by (auto simp: u(2) intro: filter_cong)
  then show ?case using Cons.IH[OF u(1), of n1] Cons.prems s u(2,3) by auto
qed auto

section \<open>Every operation\<close>

lemma dsps_inv_new: "dsps_inv DSPs_new" "dsps_abs DSPs_new = Map.empty"
  by (auto simp: dsps_inv_def DSPs_new_def index_ok_def proofs_ok_def links_def holders_def dsps_abs_def dsps_get_def)

lemma inv_links: "dsps_inv d \<Longrightarrow> links (txDspsMap d) t = {h. \<exists>p D. dsps_abs d h = Some (p, D) \<and> t \<in> D}"
  by (auto simp: dsps_inv_def holders_def dsps_abs_def dsps_get_def)

lemma dsps_add_ok:
  assumes "dsps_inv d" "dsps_add p d = Inr (b, d')" "distinct (descendants p)"
  shows "dsps_inv d' \<and> b = (dsps_abs d (dsp_hash p) = None) \<and>
    dsps_abs d' = (if b then (dsps_abs d)(dsp_hash p \<mapsto> (dsp_txHash p, set (descendants p))) else dsps_abs d)"
proof (cases "dsps_get (dsp_hash p) d")
  case None
  then have d': "b" "dsproofs d' = AList.update (dsp_hash p) p (dsproofs d)"
      "txDspsMap d' = fold (\<lambda>tx. map_at [] tx (List.insert (dsp_hash p))) (descendants p) (txDspsMap d)"
      and p: "dsp_isValid (dsp_hash p)" "length (dsp_txHash p) = HashLen" "dsp_txHash p \<in> set (descendants p)"
    using assms(2) by (auto simp: dsps_add_def split: if_splits)
  have "holders (dsproofs d') t = (if t \<in> set (descendants p) then insert (dsp_hash p) (holders (dsproofs d) t) else holders (dsproofs d) t)" for t
    using None by (auto simp: d' holders_def dsps_get_def)
  then have "dsps_inv d'" using assms(1,3) p by (auto simp: dsps_inv_def d' link_all proofs_ok_def proof_ok_def)
  then show ?thesis using None by (auto simp: d' dsps_abs_def dsps_get_def)
qed (use assms in \<open>auto simp: dsps_add_def dsps_abs_def split: if_splits\<close>)

lemma rm_proof:
  assumes "index_ok (txDspsMap d)" "proofs_ok (dsproofs d)" "dsps_get h d = Some p"
  shows "index_ok (txDspsMap (snd (dsps_rm h d)))" "proofs_ok (dsproofs (snd (dsps_rm h d)))"
    "links (txDspsMap (snd (dsps_rm h d))) t = (if t \<in> set (descendants p) then links (txDspsMap d) t - {h} else links (txDspsMap d) t)"
    "dsps_abs (snd (dsps_rm h d)) = (dsps_abs d)(h := None)"
    "fst (dsps_rm h d) = length (filter (\<lambda>t. links (txDspsMap d) t \<noteq> {}) (descendants p))"
proof -
  obtain n m where f: "fold (unlink h) (descendants p) (0, txDspsMap d) = (n, m)" by fastforce
  have "distinct (descendants p)" using assms(2,3) by (auto simp: proof_ok_def dsps_get_def dest: proofs_okD)
  note u = unlink_all[OF assms(1) f this]
  have r: "dsps_rm h d = (n, d\<lparr>txDspsMap := m, dsproofs := AList.delete h (dsproofs d)\<rparr>)" using assms(3) f by (simp add: dsps_rm_def)
  show "index_ok (txDspsMap (snd (dsps_rm h d)))" "proofs_ok (dsproofs (snd (dsps_rm h d)))"
    "links (txDspsMap (snd (dsps_rm h d))) t = (if t \<in> set (descendants p) then links (txDspsMap d) t - {h} else links (txDspsMap d) t)"
    "dsps_abs (snd (dsps_rm h d)) = (dsps_abs d)(h := None)"
    "fst (dsps_rm h d) = length (filter (\<lambda>t. links (txDspsMap d) t \<noteq> {}) (descendants p))"
    using u assms(2) by (auto simp: r proofs_ok_def dsps_abs_def dsps_get_def fun_eq_iff)
qed

lemma dsps_rm_ok:
  assumes "dsps_inv d"
  shows "dsps_inv (snd (dsps_rm h d))" "dsps_abs (snd (dsps_rm h d)) = (dsps_abs d)(h := None)"
    "fst (dsps_rm h d) = (case dsps_abs d h of None \<Rightarrow> 0 | Some (_, D) \<Rightarrow> card D)"
proof -
  have "dsps_inv (snd (dsps_rm h d)) \<and> dsps_abs (snd (dsps_rm h d)) = (dsps_abs d)(h := None) \<and>
      fst (dsps_rm h d) = (case dsps_abs d h of None \<Rightarrow> 0 | Some (_, D) \<Rightarrow> card D)"
  proof (cases "dsps_get h d")
    case (Some p)
    have t: "index_ok (txDspsMap d)" "proofs_ok (dsproofs d)" and l: "\<And>t. links (txDspsMap d) t = holders (dsproofs d) t"
      using assms by (simp_all add: dsps_inv_def)
    note r = rm_proof[OF t Some]
    have ds: "dsproofs (snd (dsps_rm h d)) = AList.delete h (dsproofs d)" using Some by (auto simp: dsps_rm_def split: prod.split)
    have mem: "h \<in> holders (dsproofs d) t \<longleftrightarrow> t \<in> set (descendants p)" for t using Some by (simp add: holders_def dsps_get_def)
    have "holders (AList.delete h (dsproofs d)) t = holders (dsproofs d) t - {h}" for t by (auto simp: holders_def)
    then have "dsps_inv (snd (dsps_rm h d))" using r(1-3) mem by (auto simp: dsps_inv_def ds l)
    moreover have "filter (\<lambda>t. links (txDspsMap d) t \<noteq> {}) (descendants p) = descendants p" using mem l by (auto simp: filter_id_conv)
    moreover have "distinct (descendants p)" using t(2) Some by (auto simp: proof_ok_def dsps_get_def dest: proofs_okD)
    ultimately show ?thesis using r(4,5) Some by (simp add: dsps_abs_def distinct_card)
  qed (use assms in \<open>auto simp: dsps_rm_def dsps_abs_def\<close>)
  then show "dsps_inv (snd (dsps_rm h d))" "dsps_abs (snd (dsps_rm h d)) = (dsps_abs d)(h := None)"
    "fst (dsps_rm h d) = (case dsps_abs d h of None \<Rightarrow> 0 | Some (_, D) \<Rightarrow> card D)" by blast+
qed

lemma dsps_addTx_ok:
  assumes "dsps_inv d" "dsps_abs d h = Some (p, D)" "length tx = HashLen"
  shows "dsps_inv (snd (dsps_addTx h tx d))" "dsps_abs (snd (dsps_addTx h tx d)) = (dsps_abs d)(h \<mapsto> (p, insert tx D))"
    "fst (dsps_addTx h tx d) \<longleftrightarrow> tx \<notin> D"
proof -
  obtain q where q: "dsps_get h d = Some q" "p = dsp_txHash q" "D = set (descendants q)" using assms(2) by (auto simp: dsps_abs_def)
  have ok: "proof_ok h q" using assms(1) q(1) proofs_okD[of "dsproofs d" h q] by (simp add: dsps_inv_def dsps_get_def)
  have "tx \<notin> D \<longleftrightarrow> h \<notin> links (txDspsMap d) tx" using inv_links[OF assms(1)] assms(2) by simp
  then show "fst (dsps_addTx h tx d) \<longleftrightarrow> tx \<notin> D"
    using q ok assms(3) by (auto simp: dsps_addTx_def links_def proof_ok_def Let_def split: option.splits)
  have d': "txDspsMap (snd (dsps_addTx h tx d)) = map_at [] tx (List.insert h) (txDspsMap d)"
      "dsproofs (snd (dsps_addTx h tx d)) = map_adjust h (\<lambda>p. p\<lparr>descendants := List.insert tx (descendants p)\<rparr>) (dsproofs d)"
    using q ok assms(3) by (simp_all add: dsps_addTx_def Let_def proof_ok_def)
  show "dsps_abs (snd (dsps_addTx h tx d)) = (dsps_abs d)(h \<mapsto> (p, insert tx D))"
    using q by (auto simp: dsps_abs_def dsps_get_def d')
  have "holders (map_adjust h (\<lambda>p. p\<lparr>descendants := List.insert tx (descendants p)\<rparr>) (dsproofs d)) t =
      (if t = tx then insert h (holders (dsproofs d) t) else holders (dsproofs d) t)" for t
    using q(1) by (auto simp: holders_def dsps_get_def)
  moreover have "proofs_ok (map_adjust h (\<lambda>p. p\<lparr>descendants := List.insert tx (descendants p)\<rparr>) (dsproofs d))"
    using assms(1) q(1) ok by (auto simp: dsps_inv_def proofs_ok_def proof_ok_def dsps_get_def)
  ultimately show "dsps_inv (snd (dsps_addTx h tx d))"
    using assms(1) by (auto simp: dsps_inv_def d' index_ok_at links_at)
qed

text \<open>Removing a transaction: the proofs it is the primary transaction of disappear, the others lose it.\<close>

definition forget_tx :: "bytes \<Rightarrow> (DspHash \<rightharpoonup> bytes \<times> bytes set) \<Rightarrow> (DspHash \<rightharpoonup> bytes \<times> bytes set)" where
  "forget_tx tx f h = (case f h of None \<Rightarrow> None | Some (p, D) \<Rightarrow> if p = tx then None else Some (p, D - {tx}))"

definition rm_inv :: "bytes \<Rightarrow> DspHash list \<Rightarrow> DSPs \<Rightarrow> bool" where
  "rm_inv tx hs d \<longleftrightarrow> index_ok (txDspsMap d) \<and> proofs_ok (dsproofs d) \<and> links (txDspsMap d) tx = {} \<and> distinct hs \<and>
     set hs = holders (dsproofs d) tx \<and> (\<forall>t. t \<noteq> tx \<longrightarrow> links (txDspsMap d) t = holders (dsproofs d) t)"

lemma unlink_tx_step:
  assumes "rm_inv tx (h # hs) d"
  shows "\<exists>d'. unlink_tx tx h (n, d) = (n + 1, d') \<and> rm_inv tx hs d' \<and> forget_tx tx (dsps_abs d') = forget_tx tx (dsps_abs d)"
proof -
  have t: "index_ok (txDspsMap d)" "proofs_ok (dsproofs d)" using assms by (simp_all add: rm_inv_def)
  have "h \<in> holders (dsproofs d) tx" using assms by (auto simp: rm_inv_def)
  then obtain p where p: "dsps_get h d = Some p" "tx \<in> set (descendants p)" by (auto simp: holders_def dsps_get_def)
  have ok: "proof_ok h p" using proofs_okD[OF t(2)] p(1) by (simp add: dsps_get_def)
  show ?thesis
  proof (cases "dsp_txHash p = tx")
    case True
    note r = rm_proof[OF t p(1)]
    let ?d' = "snd (dsps_rm h d)"
    have "dsproofs ?d' = AList.delete h (dsproofs d)" using p(1) by (auto simp: dsps_rm_def split: prod.split)
    then have hl: "holders (dsproofs ?d') t = holders (dsproofs d) t - {h}" for t by (auto simp: holders_def)
    have "h \<in> holders (dsproofs d) t \<longleftrightarrow> t \<in> set (descendants p)" for t using p(1) by (simp add: holders_def dsps_get_def)
    then have "rm_inv tx hs ?d'" using assms r(1-3) p(2) by (auto simp: rm_inv_def hl)
    moreover have "forget_tx tx (dsps_abs ?d') = forget_tx tx (dsps_abs d)"
      using p(1) True by (auto simp: r(4) forget_tx_def fun_eq_iff dsps_abs_def)
    ultimately show ?thesis using p True ok by (auto simp: unlink_tx_def proof_ok_def)
  next
    case False
    let ?f = "\<lambda>p. p\<lparr>descendants := removeAll tx (descendants p)\<rparr>"
    let ?d' = "d\<lparr>dsproofs := map_adjust h ?f (dsproofs d)\<rparr>"
    have hl: "holders (map_adjust h ?f (dsproofs d)) t = (if t = tx then holders (dsproofs d) t - {h} else holders (dsproofs d) t)" for t
      using p(1) by (auto simp: holders_def dsps_get_def)
    have "proofs_ok (map_adjust h ?f (dsproofs d))"
      using t(2) p(1) ok False by (auto simp: proofs_ok_def proof_ok_def dsps_get_def intro!: distinct_removeAll)
    then have "rm_inv tx hs ?d'" using assms by (auto simp: rm_inv_def hl)
    moreover have "forget_tx tx (dsps_abs ?d') = forget_tx tx (dsps_abs d)"
      using p(1) by (auto simp: forget_tx_def fun_eq_iff dsps_abs_def dsps_get_def)
    ultimately show ?thesis using p False by (simp add: unlink_tx_def)
  qed
qed

lemma unlink_tx_all:
  "rm_inv tx hs d \<Longrightarrow> \<exists>d'. fold (unlink_tx tx) hs (n, d) = (n + length hs, d') \<and> rm_inv tx [] d' \<and>
     forget_tx tx (dsps_abs d') = forget_tx tx (dsps_abs d)"
proof (induction hs arbitrary: n d)
  case (Cons h hs)
  obtain d1 where d1: "unlink_tx tx h (n, d) = (n + 1, d1)" "rm_inv tx hs d1" "forget_tx tx (dsps_abs d1) = forget_tx tx (dsps_abs d)"
    using unlink_tx_step[OF Cons.prems] by blast
  show ?case using Cons.IH[OF d1(2), of "n + 1"] d1(1,3) by auto
qed simp

lemma forget_unknown:
  assumes "proofs_ok (dsproofs d)" "holders (dsproofs d) tx = {}"
  shows "forget_tx tx (dsps_abs d) = dsps_abs d"
proof
  fix h
  show "forget_tx tx (dsps_abs d) h = dsps_abs d h"
  proof (cases "dsps_get h d")
    case (Some p)
    then have "tx \<notin> set (descendants p)" "dsp_txHash p \<in> set (descendants p)"
      using assms proofs_okD[OF assms(1), of h p] by (auto simp: holders_def dsps_get_def proof_ok_def)
    then show ?thesis using Some by (auto simp: forget_tx_def dsps_abs_def)
  qed (simp add: forget_tx_def dsps_abs_def)
qed

lemma dsps_rmTx_ok:
  assumes "dsps_inv d"
  shows "dsps_inv (snd (dsps_rmTx tx d)) \<and> dsps_abs (snd (dsps_rmTx tx d)) = forget_tx tx (dsps_abs d) \<and>
    fst (dsps_rmTx tx d) = card (holders (dsproofs d) tx)"
proof (cases "map_of (txDspsMap d) tx")
  case None
  then have "links (txDspsMap d) tx = {}" by (simp add: links_def)
  then have "holders (dsproofs d) tx = {}" using assms by (simp add: dsps_inv_def)
  then show ?thesis using None assms forget_unknown[of d tx] by (simp add: dsps_rmTx_def dspHashesForTx_def dsps_inv_def)
next
  case (Some hs)
  let ?d = "d\<lparr>txDspsMap := AList.delete tx (txDspsMap d)\<rparr>"
  have "index_ok (AList.delete tx (txDspsMap d))" "distinct hs" using assms Some by (auto simp: dsps_inv_def index_ok_def dest: spec[of _ tx])
  moreover have "links (AList.delete tx (txDspsMap d)) t = (if t = tx then {} else links (txDspsMap d) t)" for t by (simp add: links_def)
  moreover have "set hs = links (txDspsMap d) tx" using Some by (simp add: links_def)
  ultimately have "rm_inv tx hs ?d" using assms by (simp add: rm_inv_def dsps_inv_def)
  from unlink_tx_all[OF this, of 0] obtain d' where d': "dsps_rmTx tx d = (length hs, d')" "rm_inv tx [] d'"
      "forget_tx tx (dsps_abs d') = forget_tx tx (dsps_abs ?d)"
    using Some by (auto simp: dsps_rmTx_def dspHashesForTx_def)
  have "dsps_abs ?d = dsps_abs d" by (simp add: dsps_abs_def dsps_get_def fun_eq_iff)
  moreover have "dsps_inv d'" "holders (dsproofs d') tx = {}" using d'(2) unfolding rm_inv_def dsps_inv_def by (metis empty_set)+
  moreover have "forget_tx tx (dsps_abs d') = dsps_abs d'" using forget_unknown[of d' tx] d'(2) by (simp add: rm_inv_def)
  moreover have "length hs = card (holders (dsproofs d) tx)"
    using \<open>distinct hs\<close> \<open>set hs = links (txDspsMap d) tx\<close> assms by (metis distinct_card dsps_inv_def)
  ultimately show ?thesis using d'(1,3) by simp
qed

section \<open>Lookups\<close>

lemma set_fold_insert: "set (fold List.insert xs ys) = set xs \<union> set ys"
  by (induction xs arbitrary: ys) auto

lemma set_fold_union: "set (fold (\<lambda>x acc. case f x of None \<Rightarrow> acc | Some y \<Rightarrow> fold List.insert (g y) acc) xs acc) =
    (\<Union>x \<in> set xs. case f x of None \<Rightarrow> {} | Some y \<Rightarrow> set (g y)) \<union> set acc"
  by (induction xs arbitrary: acc) (auto simp: set_fold_insert split: option.splits)

lemma proofsLinkedToTx_set:
  assumes "dsps_inv d"
  shows "set (proofsLinkedToTx tx d) = {p. \<exists>h. dsps_get h d = Some p \<and> tx \<in> set (descendants p)}"
proof -
  have l: "links (txDspsMap d) tx = holders (dsproofs d) tx" using assms by (simp add: dsps_inv_def)
  have "set (proofsLinkedToTx tx d) = {p. \<exists>h \<in> links (txDspsMap d) tx. dsps_get h d = Some p}"
    by (cases "map_of (txDspsMap d) tx") (force simp: proofsLinkedToTx_def dspHashesForTx_def links_def List.map_filter_def)+
  then show ?thesis unfolding l by (auto simp: holders_def dsps_get_def)
qed

lemma txsLinkedToTxs_set:
  assumes "dsps_inv d"
  shows "set (txsLinkedToTxs txids d) = \<Union> {D. \<exists>h p. dsps_abs d h = Some (p, D) \<and> D \<inter> set txids \<noteq> {}}"
proof -
  have l: "links (txDspsMap d) tx = holders (dsproofs d) tx" for tx using assms by (simp add: dsps_inv_def)
  have links: "(case dspHashesForTx tx d of None \<Rightarrow> {} | Some y \<Rightarrow> set y) = holders (dsproofs d) tx" for tx
    unfolding l[symmetric] by (simp add: links_def dspHashesForTx_def)
  have "set (txsLinkedToTxs txids d) = (\<Union>h \<in> (\<Union>tx \<in> set txids. holders (dsproofs d) tx). case dsps_get h d of None \<Rightarrow> {} | Some p \<Rightarrow> set (descendants p))"
    unfolding txsLinkedToTxs_def Let_def set_fold_union[where g = descendants]
    using set_fold_union[where g = "\<lambda>hs. hs" and f = "\<lambda>tx. dspHashesForTx tx d", of txids "[]"] by (simp add: links)
  also have "\<dots> = \<Union> {D. \<exists>h p. dsps_abs d h = Some (p, D) \<and> D \<inter> set txids \<noteq> {}}"
    by (auto simp: holders_def dsps_abs_def dsps_get_def split: option.splits) blast+
  finally show ?thesis .
qed

lemma best_proof_ok:
  assumes "\<And>q. best = Some q \<Longrightarrow> dsp_txHash q \<noteq> tx"
  shows "case best_proof tx best ps of
      None \<Rightarrow> best = None \<and> ps = []
    | Some p \<Rightarrow> p \<in> set ps \<union> set_option best \<and>
        (dsp_txHash p = tx \<or> (\<forall>q \<in> set ps \<union> set_option best. dsp_txHash q \<noteq> tx \<and> length (descendants p) \<le> length (descendants q)))"
  using assms
proof (induction ps arbitrary: best)
  case Nil
  then show ?case by (cases best) auto
next
  case (Cons p ps)
  show ?case
  proof (cases "dsp_txHash p = tx")
    case False
    then show ?thesis using Cons.IH[of "Some p"] Cons.IH[of best] Cons.prems
      by (cases best) (fastforce split: option.splits)+
  qed simp
qed

lemma best_proof_spec:
  assumes "dsps_inv d"
  shows "case bestProofForTx tx d of
       None \<Rightarrow> \<forall>h p D. dsps_abs d h = Some (p, D) \<longrightarrow> tx \<notin> D
     | Some q \<Rightarrow> \<exists>D. dsps_abs d (dsp_hash q) = Some (dsp_txHash q, D) \<and> tx \<in> D \<and>
         (dsp_txHash q = tx \<or> (\<forall>h p D'. dsps_abs d h = Some (p, D') \<longrightarrow> tx \<in> D' \<longrightarrow> p \<noteq> tx \<and> card D \<le> card D'))"
proof -
  have ok: "proof_ok h p" if "dsps_get h d = Some p" for h p
    using that assms proofs_okD[of "dsproofs d" h p] by (simp add: dsps_inv_def dsps_get_def)
  have ps: "p \<in> set (proofsLinkedToTx tx d) \<longleftrightarrow> (\<exists>h. dsps_get h d = Some p \<and> tx \<in> set (descendants p))" for p
    by (simp add: proofsLinkedToTx_set[OF assms])
  note b = best_proof_ok[of None tx "proofsLinkedToTx tx d", folded bestProofForTx_def]
  show ?thesis
  proof (cases "bestProofForTx tx d")
    case None
    then have "set (proofsLinkedToTx tx d) = {}" using b by simp
    then show ?thesis using None ps by (auto simp: dsps_abs_def)
  next
    case (Some q)
    then have q: "q \<in> set (proofsLinkedToTx tx d)"
        "dsp_txHash q = tx \<or> (\<forall>r \<in> set (proofsLinkedToTx tx d). dsp_txHash r \<noteq> tx \<and> length (descendants q) \<le> length (descendants r))"
      using b by auto
    then obtain h where h: "dsps_get h d = Some q" "tx \<in> set (descendants q)" using ps by blast
    have card: "card (set (descendants r)) = length (descendants r)" if "dsps_get k d = Some r" for k r
      using ok[OF that] by (simp add: proof_ok_def distinct_card)
    have "dsp_txHash q = tx \<or> (\<forall>k p D'. dsps_abs d k = Some (p, D') \<longrightarrow> tx \<in> D' \<longrightarrow> p \<noteq> tx \<and> card (set (descendants q)) \<le> card D')"
      using q(2) ps card h(1) by (auto simp: dsps_abs_def)
    then show ?thesis using Some h ok[OF h(1)] by (auto simp: dsps_abs_def proof_ok_def)
  qed
qed

section \<open>Any sequence of operations\<close>

datatype dsp_op = Add DSProof | Rm DspHash | AddTx DspHash bytes | RmTx bytes

fun dsps_run :: "dsp_op \<Rightarrow> DSPs \<Rightarrow> DSPs" where
  "dsps_run (Add p) d = (case dsps_add p d of Inl e \<Rightarrow> d | Inr (b, d') \<Rightarrow> d')"
| "dsps_run (Rm h) d = snd (dsps_rm h d)"
| "dsps_run (AddTx h tx) d = snd (dsps_addTx h tx d)"
| "dsps_run (RmTx tx) d = snd (dsps_rmTx tx d)"

fun dsps_spec :: "dsp_op \<Rightarrow> (DspHash \<rightharpoonup> bytes \<times> bytes set) \<Rightarrow> (DspHash \<rightharpoonup> bytes \<times> bytes set)" where
  "dsps_spec (Add p) f =
     (if dsp_isValid (dsp_hash p) \<and> length (dsp_txHash p) = HashLen \<and> dsp_txHash p \<in> set (descendants p) \<and> f (dsp_hash p) = None
      then f(dsp_hash p \<mapsto> (dsp_txHash p, set (descendants p))) else f)"
| "dsps_spec (Rm h) f = f(h := None)"
| "dsps_spec (AddTx h tx) f = (case f h of None \<Rightarrow> f | Some (p, D) \<Rightarrow> if length tx = HashLen then f(h \<mapsto> (p, insert tx D)) else f)"
| "dsps_spec (RmTx tx) f = forget_tx tx f"

fun op_ok :: "dsp_op \<Rightarrow> bool" where
  "op_ok (Add p) = distinct (descendants p)"
| "op_ok _ = True"

lemma dsps_step:
  assumes "dsps_inv d" "op_ok op"
  shows "dsps_inv (dsps_run op d) \<and> dsps_abs (dsps_run op d) = dsps_spec op (dsps_abs d)"
proof (cases op)
  case (Add p)
  show ?thesis
  proof (cases "dsps_add p d")
    case (Inl e)
    then show ?thesis using Add assms(1) by (auto simp: dsps_add_def dsps_abs_def split: if_splits)
  next
    case (Inr r)
    obtain b d' where "r = (b, d')" by fastforce
    with Inr dsps_add_ok[OF assms(1), of p b d'] Add assms show ?thesis
      by (auto simp: dsps_add_def split: if_splits)
  qed
next
  case (AddTx h tx)
  show ?thesis
  proof (cases "dsps_abs d h")
    case None
    then show ?thesis using AddTx assms(1) by (simp add: dsps_addTx_def dsps_abs_def)
  next
    case (Some r)
    obtain p D where r: "r = (p, D)" by fastforce
    show ?thesis using dsps_addTx_ok[OF assms(1) Some[unfolded r], of tx] AddTx Some r assms(1)
      by (cases "length tx = HashLen") (auto simp: dsps_addTx_def dsps_abs_def)
  qed
qed (use assms dsps_rm_ok[OF assms(1)] dsps_rmTx_ok[OF assms(1)] in auto)

lemma dsps_steps:
  "dsps_inv d \<Longrightarrow> list_all op_ok ops \<Longrightarrow>
   dsps_inv (fold dsps_run ops d) \<and> dsps_abs (fold dsps_run ops d) = fold dsps_spec ops (dsps_abs d)"
  by (induction ops arbitrary: d) (simp_all add: dsps_step)

definition affected_by :: "(DspHash \<rightharpoonup> bytes \<times> bytes set) \<Rightarrow> bytes set \<Rightarrow> bytes set" where
  "affected_by f T = \<Union> {D. \<exists>h p. f h = Some (p, D) \<and> D \<inter> T \<noteq> {}}"

text \<open>C25: The double-spend index after any sequence of operations is the map that the operations describe: the proofs with their
  primary transactions and descendants are exactly right, the table from transactions to proofs is the exact inverse, the
  transactions linked to a set through common proofs are all found, and the best proof for a transaction is one it is the
  primary transaction of or, if there is none, one with the fewest descendants.\<close>

theorem double_spend_index:
  assumes "list_all op_ok ops"
  defines "d \<equiv> fold dsps_run ops DSPs_new" and "f \<equiv> fold dsps_spec ops Map.empty"
  shows "dsps_abs d = f \<and>
    (case dspHashesForTx tx d of None \<Rightarrow> {} | Some hs \<Rightarrow> set hs) = {h. \<exists>p D. f h = Some (p, D) \<and> tx \<in> D} \<and>
    set (txsLinkedToTxs txids d) = affected_by f (set txids) \<and>
    (case bestProofForTx tx d of
       None \<Rightarrow> \<forall>h p D. f h = Some (p, D) \<longrightarrow> tx \<notin> D
     | Some q \<Rightarrow> \<exists>D. f (dsp_hash q) = Some (dsp_txHash q, D) \<and> tx \<in> D \<and>
         (dsp_txHash q = tx \<or> (\<forall>h p D'. f h = Some (p, D') \<longrightarrow> tx \<in> D' \<longrightarrow> p \<noteq> tx \<and> card D \<le> card D')))"
proof -
  have inv: "dsps_inv d" and abs: "dsps_abs d = f" using dsps_steps[OF dsps_inv_new(1) assms(1)] dsps_inv_new(2) by (simp_all add: d_def f_def)
  have "(case dspHashesForTx tx d of None \<Rightarrow> {} | Some hs \<Rightarrow> set hs) = {h. \<exists>p D. f h = Some (p, D) \<and> tx \<in> D}"
    using inv_links[OF inv, of tx] by (simp add: links_def dspHashesForTx_def abs)
  moreover have "set (txsLinkedToTxs txids d) = affected_by f (set txids)"
    by (simp add: txsLinkedToTxs_set[OF inv] abs affected_by_def)
  moreover have "case bestProofForTx tx d of
       None \<Rightarrow> \<forall>h p D. f h = Some (p, D) \<longrightarrow> tx \<notin> D
     | Some q \<Rightarrow> \<exists>D. f (dsp_hash q) = Some (dsp_txHash q, D) \<and> tx \<in> D \<and>
         (dsp_txHash q = tx \<or> (\<forall>h p D'. f h = Some (p, D') \<longrightarrow> tx \<in> D' \<longrightarrow> p \<noteq> tx \<and> card D \<le> card D'))"
    unfolding abs[symmetric] by (rule best_proof_spec[OF inv])
  ultimately show ?thesis using abs by blast
qed

definition demo_ops :: "dsp_op list" where
  "demo_ops = [Add \<lparr> dsp_hash = replicate 32 1, serializedProof = [7], dsp_txo = TXO (replicate 32 9) 0, dsp_txHash = replicate 32 2,
                     descendants = [replicate 32 2] \<rparr>, AddTx (replicate 32 1) (replicate 32 3)]"

theorem double_spend_index_witness:
  "list_all op_ok demo_ops \<and> set (txsLinkedToTxs [replicate 32 3] (fold dsps_run demo_ops DSPs_new)) = {replicate 32 2, replicate 32 3}"
proof -
  have ok: "list_all op_ok demo_ops" by (simp add: demo_ops_def)
  have "fold dsps_spec demo_ops Map.empty = [replicate 32 1 \<mapsto> (replicate 32 2, {replicate 32 2, replicate 32 3})]"
    by (simp add: demo_ops_def dsp_isValid_def insert_commute)
  then have "affected_by (fold dsps_spec demo_ops Map.empty) {replicate 32 3} = {replicate 32 2, replicate 32 3}"
    by (auto simp: affected_by_def split: if_splits)
  with double_spend_index[OF ok, of "[]" "[replicate 32 3]"] ok show ?thesis by simp
qed

end
