(* ===== verification/Mempool.thy ===== *)
theory Mempool
  imports DSProof Rpa Storage_Codecs Db_Access "HOL-Library.Product_Lexorder"
begin

text \<open>
  \<open>Mempool.h\<close>, \<open>Mempool.cpp\<close>: the unconfirmed transactions. Every transaction is one shared object, reachable from the table \<open>txs\<close>, from the
  vectors of \<open>hashXTxs\<close> and from its parents and children; the model keeps the objects in \<open>txs\<close> and represents a reference by the
  transaction's hash, so an update through one reference is seen through all. A weak reference to an object that is gone locks
  to null: a hash that is not in \<open>txs\<close>.

  Statistics, memory management and log output are left out.
\<close>

declare map_of_eq_Some_iff [simp del]

section \<open>Data\<close>

record IOInfo =
  confirmedSpends :: "(TXO \<times> TXOInfo) list"
  unconfirmedSpends :: "(TXO \<times> TXOInfo) list"
  utxo :: "IONum list"

definition IOInfo_default :: IOInfo where
  "IOInfo_default = \<lparr> confirmedSpends = [], unconfirmedSpends = [], utxo = [] \<rparr>"

record Tx =
  mp_hash :: bytes
  fee :: Amount
  sizeBytes :: u32
  vsizeBytes :: u32
  txos :: "TXOInfo list"
  hashXs :: "(bytes \<times> IOInfo) list"
  optRpaPrefixSet :: "Prefix list option"
  parents :: "bytes list"
  children :: "bytes list"

definition Tx_new :: "bytes \<Rightarrow> u32 \<Rightarrow> u32 \<Rightarrow> Tx" where
  "Tx_new h bytesN vbytesN = \<lparr> mp_hash = h, fee = 0, sizeBytes = bytesN, vsizeBytes = vbytesN, txos = [], hashXs = [], optRpaPrefixSet = None,
     parents = [], children = [] \<rparr>"

record Mempool =
  txs :: "(bytes \<times> Tx) list"
  hashXTxs :: "(bytes \<times> bytes list) list"
  optPrefixTable :: "MempoolPrefixTable option"
  dsps :: DSPs

definition mempool_clear :: "Mempool \<Rightarrow> Mempool" where
  "mempool_clear m = m\<lparr>txs := [], hashXTxs := [], dsps := DSPs_new, optPrefixTable := map_option (\<lambda>_. MempoolPrefixTable_new) (optPrefixTable m)\<rparr>"

datatype mempool_error = ConsistencyError string | GetTXOError db_error | RpaError rpa_error

section \<open>Sorting references\<close>

text \<open>\<open>Tx::operator<\<close> puts transactions with unconfirmed parents after the others and orders by hash.\<close>

definition hasUnconfirmedParents :: "Mempool \<Rightarrow> bytes \<Rightarrow> bool" where
  "hasUnconfirmedParents m h = (case map_of (txs m) h of None \<Rightarrow> False | Some tx \<Rightarrow> parents tx \<noteq> [])"

definition sort_refs :: "Mempool \<Rightarrow> bytes list \<Rightarrow> bytes list" where
  "sort_refs m v = sort_key (\<lambda>h. (hasUnconfirmedParents m h, h)) v"

section \<open>Adding\<close>

definition add_out :: "CTxOut \<Rightarrow> IONum \<times> Tx \<times> (bytes \<times> bytes list) list \<times> bytes list \<Rightarrow> IONum \<times> Tx \<times> (bytes \<times> bytes list) list \<times> bytes list" where
  "add_out out = (\<lambda>(n, tx, hx, affected).
     let (tx, hx, affected) =
           (if \<not> IsOpReturn (scriptPubKey out) then
              let sh = HashXFromCScript (scriptPubKey out)
              in (tx\<lparr>txos := (txos tx)[unat n := \<lparr> ti_amount = nValue out, ti_hashX = sh, ti_confirmedHeight = None, ti_txNum = 0,
                                                ti_tokenDataPtr = tokenDataPtr out \<rparr>],
                     hashXs := map_at IOInfo_default sh (\<lambda>io. io\<lparr>utxo := List.insert n (utxo io)\<rparr>) (hashXs tx)\<rparr>,
                  map_at [] sh (\<lambda>v. v @ [mp_hash tx]) hx, List.insert sh affected)
            else (tx, hx, affected))
     in (n + 1, tx\<lparr>fee := fee tx - nValue out\<rparr>, hx, affected))"

definition add_tx_outputs :: "Tx \<times> CTransaction \<Rightarrow> Mempool \<times> bytes list \<Rightarrow> Mempool \<times> bytes list" where
  "add_tx_outputs = (\<lambda>(tx, ctx) (m, affected).
     let numTxo = length (vout ctx);
         tx = tx\<lparr>txos := take numTxo (txos tx) @ replicate (numTxo - length (txos tx)) TXOInfo_default\<rparr>
     in case fold add_out (vout ctx) (0, tx, hashXTxs m, affected) of
          (n, tx, hx, affected) \<Rightarrow> (m\<lparr>txs := AList.update (mp_hash tx) tx (txs m), hashXTxs := hx\<rparr>, affected))"

text \<open>The local variables of \<open>addNewTxs\<close> that live across its loops.\<close>

record AddState =
  as_m :: Mempool
  as_affected :: "bytes list"
  newTxsNewParents :: "(bytes \<times> bytes list) list"
  dspTxsAffected :: "bytes list"

definition prev_txo :: "CTxIn \<Rightarrow> TXO" where
  "prev_txo i = TXO (Hash2ByteArrayRev (op_txid (prevout i))) (op_n (prevout i))"

definition link_dsp :: "bytes \<Rightarrow> DspHash \<Rightarrow> DSPs \<times> bytes list \<Rightarrow> DSPs \<times> bytes list" where
  "link_dsp h dspHash = (\<lambda>(d, affected).
     case dsps_addTx dspHash h d of (ok, d) \<Rightarrow> (d, if ok then List.insert h affected else affected))"

definition add_dsps :: "bytes list \<Rightarrow> bytes \<Rightarrow> bytes \<Rightarrow> bytes list \<Rightarrow> AddState \<Rightarrow> AddState \<times> bytes list" where
  "add_dsps newHashes h prevTxId seenParents s =
     (if \<not> dsps_empty (dsps (as_m s)) \<and> prevTxId \<notin> set seenParents then
        (if prevTxId \<notin> set newHashes then
           (case dspHashesForTx prevTxId (dsps (as_m s)) of
              None \<Rightarrow> s
            | Some dspHashes \<Rightarrow>
                (case fold (link_dsp h) dspHashes (dsps (as_m s), dspTxsAffected s) of
                   (d, affected) \<Rightarrow> s\<lparr>as_m := (as_m s)\<lparr>dsps := d\<rparr>, dspTxsAffected := affected\<rparr>))
         else s\<lparr>newTxsNewParents := map_at [] h (List.insert prevTxId) (newTxsNewParents s)\<rparr>,
         List.insert prevTxId seenParents)
      else (s, seenParents))"

definition add_rpa :: "bytes \<Rightarrow> nat \<Rightarrow> CTxIn \<Rightarrow> Mempool \<Rightarrow> (rpa_error, Mempool) result" where
  "add_rpa h inNum i m =
     (case optPrefixTable m of
        None \<Rightarrow> Inr m
      | Some table \<Rightarrow>
          if inNum < InputIndexLimit then
            rbind (Prefix_of_Hash (Rpa_Hash i)) (\<lambda>prefix.
              let txPrefixSet = (case map_of (txs m) h of None \<Rightarrow> [] | Some tx \<Rightarrow> (case optRpaPrefixSet tx of None \<Rightarrow> [] | Some s \<Rightarrow> s));
                  m = m\<lparr>txs := map_adjust h (\<lambda>tx. tx\<lparr>optRpaPrefixSet := Some (List.insert prefix txPrefixSet)\<rparr>) (txs m)\<rparr>
              in Inr (if prefix \<in> set txPrefixSet then m else m\<lparr>optPrefixTable := Some (mpt_addForPrefix prefix h table)\<rparr>))
          else Inr m)"

definition linkChild :: "bytes \<Rightarrow> bytes \<Rightarrow> (bytes \<times> Tx) list \<Rightarrow> (bytes \<times> Tx) list" where
  "linkChild parent child t =
     map_adjust child (\<lambda>tx. tx\<lparr>parents := List.insert parent (parents tx)\<rparr>)
       (map_adjust parent (\<lambda>tx. tx\<lparr>children := List.insert child (children tx)\<rparr>) t)"

text \<open>An input that spends an output of a transaction in the mempool, and one that spends a confirmed output.\<close>

definition spend_unconfirmed :: "bytes \<Rightarrow> TXO \<Rightarrow> Tx \<Rightarrow> (mempool_error, TXOInfo, Mempool) eff" where
  "spend_unconfirmed h prevTXO prevTx m =
     (if unat (outN prevTXO) \<ge> length (txos prevTx) \<or> \<not> txoinfo_isValid (txos prevTx ! unat (outN prevTXO))
      then (Inl (ConsistencyError ''FAILED TO FIND A VALID PREVIOUS TXOUTN IN MEMPOOL''), m)
      else
        let info = txos prevTx ! unat (outN prevTXO);
            sh = ti_hashX info;
            t = map_adjust h (\<lambda>tx. tx\<lparr>hashXs := map_at IOInfo_default sh
                  (\<lambda>io. io\<lparr>unconfirmedSpends := AList.update prevTXO info (unconfirmedSpends io)\<rparr>) (hashXs tx)\<rparr>) (txs m)
        in case map_of t (txHash prevTXO) of
             Some prevTx' \<Rightarrow>
               if map_of (hashXs prevTx') sh = None
               then (Inl (ConsistencyError ''PREV OUT IS MISSING ITS HASHX ENTRY''), m\<lparr>txs := t\<rparr>)
               else
                 let t = map_adjust (txHash prevTXO) (\<lambda>tx. tx\<lparr>hashXs := map_adjust sh (\<lambda>io. io\<lparr>utxo := removeAll (outN prevTXO) (utxo io)\<rparr>) (hashXs tx)\<rparr>) t
                 in (Inr info, m\<lparr>txs := linkChild (txHash prevTXO) h t\<rparr>)
           | None \<Rightarrow> (Inl (ConsistencyError ''PREV OUT IS MISSING ITS HASHX ENTRY''), m\<lparr>txs := t\<rparr>))"

definition spend_confirmed :: "(TXO \<Rightarrow> (db_error, TXOInfo option) result) \<Rightarrow> bytes \<Rightarrow> TXO \<Rightarrow> (mempool_error, TXOInfo, Mempool) eff" where
  "spend_confirmed getTXOInfo h prevTXO m =
     (case getTXOInfo prevTXO of
        Inl e \<Rightarrow> (Inl (GetTXOError e), m)
      | Inr None \<Rightarrow> (Inl (ConsistencyError ''FAILED TO FIND PREVIOUS TX IN EITHER MEMPOOL OR DB''), m)
      | Inr (Some info) \<Rightarrow>
          (Inr info, m\<lparr>txs := map_adjust h (\<lambda>tx. tx\<lparr>hashXs := map_at IOInfo_default (ti_hashX info)
             (\<lambda>io. io\<lparr>confirmedSpends := AList.update prevTXO info (confirmedSpends io)\<rparr>) (hashXs tx)\<rparr>) (txs m)\<rparr>))"

definition touch :: "bytes \<Rightarrow> TXOInfo \<Rightarrow> Mempool \<Rightarrow> Mempool" where
  "touch h info m =
     m\<lparr>txs := map_adjust h (\<lambda>tx. tx\<lparr>fee := fee tx + ti_amount info\<rparr>) (txs m),
       hashXTxs := map_at [] (ti_hashX info) (\<lambda>v. v @ [h]) (hashXTxs m)\<rparr>"

definition find_prev :: "(TXO \<Rightarrow> (db_error, TXOInfo option) result) \<Rightarrow> bytes list \<Rightarrow> bytes \<Rightarrow> TXO \<Rightarrow> bytes list \<Rightarrow> AddState \<Rightarrow>
    (mempool_error, TXOInfo) result \<times> AddState \<times> bytes list" where
  "find_prev getTXOInfo newHashes h prevTXO seenParents s =
     (case map_of (txs (as_m s)) (txHash prevTXO) of
        Some prevTx \<Rightarrow>
          (case spend_unconfirmed h prevTXO prevTx (as_m s) of
             (Inl e, m) \<Rightarrow> (Inl e, s\<lparr>as_m := m\<rparr>, seenParents)
           | (Inr info, m) \<Rightarrow> (Inr info, add_dsps newHashes h (txHash prevTXO) seenParents (s\<lparr>as_m := m\<rparr>)))
      | None \<Rightarrow> (case spend_confirmed getTXOInfo h prevTXO (as_m s) of (r, m) \<Rightarrow> (r, s\<lparr>as_m := m\<rparr>, seenParents)))"

definition mark_input :: "bytes \<Rightarrow> nat \<Rightarrow> CTxIn \<Rightarrow> TXOInfo \<Rightarrow> (mempool_error, unit, AddState) eff" where
  "mark_input h inNum i info s =
     (let m = touch h info (as_m s);
          s = s\<lparr>as_affected := List.insert (ti_hashX info) (as_affected s)\<rparr>
      in case add_rpa h inNum i m of
           Inl e \<Rightarrow> (Inl (RpaError e), s\<lparr>as_m := m\<rparr>)
         | Inr m \<Rightarrow> (Inr (), s\<lparr>as_m := m\<rparr>))"

definition add_in :: "(TXO \<Rightarrow> (db_error, TXOInfo option) result) \<Rightarrow> bytes list \<Rightarrow> bytes \<Rightarrow> CTxIn \<Rightarrow> (mempool_error, unit, AddState \<times> nat \<times> bytes list) eff" where
  "add_in getTXOInfo newHashes h i = (\<lambda>(s, inNum, seenParents).
     case find_prev getTXOInfo newHashes h (prev_txo i) seenParents s of
       (Inl e, s, seenParents) \<Rightarrow> (Inl e, s, inNum, seenParents)
     | (Inr info, s, seenParents) \<Rightarrow>
         (case mark_input h inNum i info s of
            (Inl e, s) \<Rightarrow> (Inl e, s, inNum, seenParents)
          | (Inr _, s) \<Rightarrow> (Inr (), s, inNum + 1, seenParents)))"

definition add_inputs_of :: "(TXO \<Rightarrow> (db_error, TXOInfo option) result) \<Rightarrow> bytes list \<Rightarrow> Tx \<times> CTransaction \<Rightarrow> (mempool_error, unit, AddState) eff" where
  "add_inputs_of getTXOInfo newHashes = (\<lambda>(tx, ctx) s.
     case efor (add_in getTXOInfo newHashes (mp_hash tx)) (vin ctx) (s, 0, []) of (r, s, _) \<Rightarrow> (r, s))"

definition sort_affected :: "bytes \<Rightarrow> Mempool \<Rightarrow> Mempool" where
  "sort_affected sh m = m\<lparr>hashXTxs := map_adjust sh (\<lambda>v. remdups_adj (sort_refs m v)) (hashXTxs m)\<rparr>"

text \<open>The loop that hands the proofs of new parents on to their children until nothing is added.\<close>

definition dsp_pass :: "(bytes \<times> bytes list) list \<Rightarrow> DSPs \<times> bytes list \<Rightarrow> bool \<times> DSPs \<times> bytes list" where
  "dsp_pass newParents st =
     fold (\<lambda>(h, ps). fold (\<lambda>prevTxId (any, d, affected).
         case dspHashesForTx prevTxId d of
           None \<Rightarrow> (any, d, affected)
         | Some dspHashes \<Rightarrow>
             fold (\<lambda>dspHash (any, d, affected).
                 case dsps_addTx dspHash h d of (ok, d) \<Rightarrow> (any \<or> ok, d, if ok then List.insert h affected else affected))
               dspHashes (any, d, affected)) ps)
       newParents (False, st)"

partial_function (option) dsp_loop :: "(bytes \<times> bytes list) list \<Rightarrow> DSPs \<times> bytes list \<Rightarrow> (DSPs \<times> bytes list) option" where
  "dsp_loop newParents st =
     (case dsp_pass newParents st of (added, st) \<Rightarrow> if added then dsp_loop newParents st else Some st)"

definition finish_dsps :: "AddState \<Rightarrow> AddState option" where
  "finish_dsps s =
     (case (if \<not> dsps_empty (dsps (as_m s)) \<and> newTxsNewParents s \<noteq> [] \<and> dspTxsAffected s \<noteq> []
            then dsp_loop (newTxsNewParents s) (dsps (as_m s), dspTxsAffected s)
            else Some (dsps (as_m s), dspTxsAffected s)) of
        None \<Rightarrow> None
      | Some (d, affected) \<Rightarrow>
          Some (s\<lparr>as_m := (as_m s)\<lparr>dsps := d\<rparr>, dspTxsAffected := (if affected \<noteq> [] then txsLinkedToTxs affected d else affected)\<rparr>))"

text \<open>The result: the mempool, the script hashes affected and the transactions affected by double-spend proofs; \<open>None\<close> if the last loop
  does not end.\<close>

definition addNewTxs ::
  "(TXO \<Rightarrow> (db_error, TXOInfo option) result) \<Rightarrow> (Tx \<times> CTransaction) list \<Rightarrow> bytes list \<Rightarrow> Mempool \<Rightarrow>
   ((mempool_error, unit) result \<times> AddState) option" where
  "addNewTxs getTXOInfo txsNew scriptHashesAffected m =
     (let newHashes = map (mp_hash \<circ> fst) txsNew;
          (m, affected) = fold add_tx_outputs txsNew (m, scriptHashesAffected)
      in case efor (add_inputs_of getTXOInfo newHashes) txsNew
                \<lparr> as_m = m, as_affected = affected, newTxsNewParents = [], dspTxsAffected = [] \<rparr> of
           (Inl e, s) \<Rightarrow> Some (Inl e, s)
         | (Inr _, s) \<Rightarrow>
             map_option (Pair (Inr ())) (finish_dsps (s\<lparr>as_m := fold sort_affected (as_affected s) (as_m s)\<rparr>)))"

section \<open>Descendants\<close>

definition add_child :: "bytes \<Rightarrow> bytes list \<times> bytes list \<Rightarrow> bytes list \<times> bytes list" where
  "add_child c = (\<lambda>(txids, workQueue). if c \<in> set txids then (txids, workQueue) else (List.insert c txids, List.insert c workQueue))"

lemma add_children:
  "fold add_child cs (txids, work) = (txids', work') \<Longrightarrow>
   set txids' = set txids \<union> set cs \<and> set work' = set work \<union> (set cs - set txids) \<and> (set cs \<subseteq> set txids \<longrightarrow> txids' = txids \<and> work' = work) \<and>
   (distinct txids \<longrightarrow> distinct txids')"
  by (induction cs arbitrary: txids work) (auto simp: add_child_def split: if_splits)

definition all_children :: "(bytes \<times> Tx) list \<Rightarrow> bytes set" where
  "all_children t = (\<Union>(h, tx) \<in> set t. set (children tx))"

lemma all_children_mem: "map_of t h = Some tx \<Longrightarrow> set (children tx) \<subseteq> all_children t"
  unfolding all_children_def by (auto dest!: map_of_SomeD)

lemma finite_all_children [simp]: "finite (all_children t)"
  by (auto simp: all_children_def)

function grow_loop :: "(bytes \<times> Tx) list \<Rightarrow> bytes list \<Rightarrow> bytes list \<Rightarrow> bytes list" where
  "grow_loop t txids [] = txids"
| "grow_loop t txids (tid # workQueue) =
     (case map_of t tid of
        None \<Rightarrow> grow_loop t txids workQueue
      | Some tx \<Rightarrow> (case fold add_child (children tx) (txids, workQueue) of (txids, workQueue) \<Rightarrow> grow_loop t txids workQueue))"
  by pat_completeness auto
termination
proof (relation "inv_image (less_than <*lex*> less_than) (\<lambda>(t, txids, work). (card (all_children t - set txids), length work))", goal_cases)
  case (3 t txids tid work tx txids' work')
  then have f: "fold add_child (children tx) (txids, work) = (txids', work')" by simp
  note a = add_children[OF f]
  have sub: "set (children tx) \<subseteq> all_children t" by (rule all_children_mem[OF 3(1)])
  show ?case
  proof (cases "set (children tx) \<subseteq> set txids")
    case True
    then show ?thesis using a by simp
  next
    case False
    then have "all_children t - set txids' \<subset> all_children t - set txids" using a sub by blast
    then show ?thesis by (simp add: psubset_card_mono)
  qed
qed auto

definition growTxHashSetToIncludeDescendants :: "Mempool \<Rightarrow> bytes list \<Rightarrow> bytes list" where
  "growTxHashSetToIncludeDescendants m txids = (if txids = [] then txids else grow_loop (txs m) txids txids)"

section \<open>Removing\<close>

definition unlinkFromParentsAndChildren :: "Tx \<Rightarrow> (bytes \<times> Tx) list \<Rightarrow> (bytes \<times> Tx) list" where
  "unlinkFromParentsAndChildren tx t =
     fold (\<lambda>c. map_adjust c (\<lambda>ctx. ctx\<lparr>parents := removeAll (mp_hash tx) (parents ctx)\<rparr>)) (children tx)
       (fold (\<lambda>p. map_adjust p (\<lambda>ptx. ptx\<lparr>children := removeAll (mp_hash tx) (children ptx)\<rparr>)) (parents tx) t)"

text \<open>The prefix set that \<open>rmTxRpaAssociations\<close> clears belongs to an object that is about to go away.\<close>

definition rmTxRpaAssociations :: "Tx \<Rightarrow> Mempool \<Rightarrow> Mempool" where
  "rmTxRpaAssociations tx m =
     (case (optRpaPrefixSet tx, optPrefixTable m) of
        (Some prefixes, Some table) \<Rightarrow> m\<lparr>optPrefixTable := Some (fold (\<lambda>p table. snd (mpt_removeForPrefixAndHash p (mp_hash tx) table)) prefixes table)\<rparr>
      | _ \<Rightarrow> m)"

text \<open>\<open>rmTxsInHashXTxs_impl\<close>: \<open>needingSort\<close> is empty when no set is passed.\<close>

definition rm_in_hashX :: "bytes list \<Rightarrow> bytes list \<Rightarrow> bytes \<Rightarrow> Mempool \<Rightarrow> Mempool" where
  "rm_in_hashX txids needingSort hashX m =
     (case map_of (hashXTxs m) hashX of
        None \<Rightarrow> m
      | Some txvec \<Rightarrow>
          let newvec = filter (\<lambda>h. h \<notin> set txids) txvec
          in if newvec = [] then m\<lparr>hashXTxs := AList.delete hashX (hashXTxs m)\<rparr>
             else
               let txvec = (if length newvec \<noteq> length txvec then newvec else txvec);
                   txvec = (if hashX \<in> set needingSort then sort_refs m txvec else txvec)
               in m\<lparr>hashXTxs := AList.update hashX txvec (hashXTxs m)\<rparr>)"

definition rmTxsInHashXTxs :: "bytes list \<Rightarrow> bytes list \<Rightarrow> bytes list \<Rightarrow> Mempool \<Rightarrow> Mempool" where
  "rmTxsInHashXTxs txids scriptHashesAffected needingSort m = fold (rm_in_hashX txids needingSort) scriptHashesAffected m"

text \<open>Dropping: an unconfirmed spend of a transaction that stays is credited back to it.\<close>

definition credit_spend :: "bytes list \<Rightarrow> bytes \<Rightarrow> TXO \<times> TXOInfo \<Rightarrow> (bytes \<times> Tx) list \<Rightarrow> (bytes \<times> Tx) list" where
  "credit_spend txids hashX = (\<lambda>(txo, info) t.
     if txHash txo \<in> set txids then t
     else case map_of t (txHash txo) of
         None \<Rightarrow> t
       | Some prevTx \<Rightarrow>
           if unat (outN txo) < length (txos prevTx)
           then map_adjust (txHash txo) (\<lambda>p. p\<lparr>hashXs := map_adjust hashX (\<lambda>io. io\<lparr>utxo := List.insert (outN txo) (utxo io)\<rparr>) (hashXs p)\<rparr>) t
           else t)"

definition drop_tx :: "bytes list \<Rightarrow> bytes \<Rightarrow> Mempool \<times> bytes list \<Rightarrow> Mempool \<times> bytes list" where
  "drop_tx txids tid = (\<lambda>(m, affected).
     case map_of (txs m) tid of
       None \<Rightarrow> (m, affected)
     | Some tx \<Rightarrow>
         let (t, affected) = fold (\<lambda>(hashX, ioinfo) (t, affected).
                 (fold (credit_spend txids hashX) (unconfirmedSpends ioinfo) t, List.insert hashX affected)) (hashXs tx) (txs m, affected);
             m = rmTxRpaAssociations tx (m\<lparr>txs := t\<rparr>);
             t = unlinkFromParentsAndChildren tx (txs m)
         in (m\<lparr>txs := AList.delete tid t\<rparr>, affected))"

text \<open>\<open>dropTxs\<close> leaves the loop over the transactions as soon as no proof is left, \<open>confirmedInBlock\<close> does not.\<close>

definition rm_dsps :: "bool \<Rightarrow> bytes list \<Rightarrow> DSPs \<Rightarrow> bytes list \<times> DSPs" where
  "rm_dsps stopIfEmpty txids d =
     (if txids = [] then ([], d)
      else (txsLinkedToTxs txids d, fold (\<lambda>tx d. if stopIfEmpty \<and> dsps_empty d then d else snd (dsps_rmTx tx d)) txids d))"

text \<open>The result: the transactions dropped, the script hashes and the transactions with double-spend proofs that are affected.\<close>

definition dropTxs :: "bytes list \<Rightarrow> bytes list \<Rightarrow> Mempool \<Rightarrow> Mempool \<times> bytes list \<times> bytes list \<times> bytes list" where
  "dropTxs scriptHashesAffectedOut txids m =
     (let txids = growTxHashSetToIncludeDescendants m txids;
          (m, affected) = fold (drop_tx txids) txids (m, []);
          m = rmTxsInHashXTxs txids affected [] m;
          (dspAffected, d) = (if \<not> dsps_empty (dsps m)
                              then rm_dsps True (filter (\<lambda>tid. dspHashesForTx tid (dsps m) \<noteq> None) txids) (dsps m)
                              else ([], dsps m))
      in (m\<lparr>dsps := d\<rparr>, txids, fold List.insert affected scriptHashesAffectedOut, dspAffected))"

section \<open>Confirming\<close>

definition move_spend :: "(bytes \<rightharpoonup> TxNum) \<Rightarrow> BlockHeight \<Rightarrow> TXO \<times> TXOInfo \<Rightarrow> IOInfo \<Rightarrow> IOInfo" where
  "move_spend txidMap confirmedHeight = (\<lambda>(txo, info) io.
     case txidMap (txHash txo) of
       None \<Rightarrow> io
     | Some txnum \<Rightarrow>
         io\<lparr>unconfirmedSpends := AList.delete txo (unconfirmedSpends io),
            confirmedSpends :=
              (if map_of (confirmedSpends io) txo = None
               then AList.update txo (info\<lparr>ti_confirmedHeight := Some confirmedHeight, ti_txNum := txnum\<rparr>) (confirmedSpends io)
               else confirmedSpends io)\<rparr>)"

definition recategorize_io :: "(bytes \<rightharpoonup> TxNum) \<Rightarrow> BlockHeight \<Rightarrow> IOInfo \<Rightarrow> IOInfo" where
  "recategorize_io txidMap confirmedHeight io = fold (move_spend txidMap confirmedHeight) (unconfirmedSpends io) io"

definition recategorizeSpendsForChild ::
  "(bytes \<rightharpoonup> TxNum) \<Rightarrow> BlockHeight \<Rightarrow> bytes \<Rightarrow> Mempool \<times> bytes list \<times> bytes list \<Rightarrow> Mempool \<times> bytes list \<times> bytes list" where
  "recategorizeSpendsForChild txidMap confirmedHeight child = (\<lambda>(m, affected, needingSort).
     case map_of (txs m) child of
       None \<Rightarrow> (m, affected, needingSort)
     | Some tx \<Rightarrow>
         let hx = map (\<lambda>(sh, io). (sh, recategorize_io txidMap confirmedHeight io)) (hashXs tx);
             nUnconfs = sum_list (map (\<lambda>(sh, io). length (unconfirmedSpends io)) hx);
             m = m\<lparr>txs := map_adjust child (\<lambda>tx. tx\<lparr>hashXs := hx\<rparr>) (txs m)\<rparr>
         in if nUnconfs = 0
            then (m, fold List.insert (keys hx) affected, fold List.insert (keys hx) needingSort)
            else (m, affected, needingSort))"

record ConfirmState =
  cs_m :: Mempool
  cs_affected :: "bytes list"
  needingSort :: "bytes list"
  recategorized :: "bytes list"
  dspTxids :: "bytes list"

definition confirm_child :: "(bytes \<rightharpoonup> TxNum) \<Rightarrow> BlockHeight \<Rightarrow> bytes \<Rightarrow> ConfirmState \<Rightarrow> ConfirmState" where
  "confirm_child txidMap confirmedHeight child s =
     (if txidMap child \<noteq> None \<or> map_of (txs (cs_m s)) child = None \<or> child \<in> set (recategorized s) then s
      else case recategorizeSpendsForChild txidMap confirmedHeight child (cs_m s, cs_affected s, needingSort s) of
          (m, affected, sorting) \<Rightarrow>
            s\<lparr>cs_m := m, cs_affected := affected, needingSort := sorting, recategorized := List.insert child (recategorized s)\<rparr>)"

definition confirm_tx :: "(bytes \<rightharpoonup> TxNum) \<Rightarrow> BlockHeight \<Rightarrow> bytes \<Rightarrow> ConfirmState \<Rightarrow> ConfirmState" where
  "confirm_tx txidMap confirmedHeight tid s =
     (case map_of (txs (cs_m s)) tid of
        None \<Rightarrow> s
      | Some tx \<Rightarrow>
          let s = s\<lparr>cs_affected := fold List.insert (keys (hashXs tx)) (cs_affected s),
                    dspTxids := (if dspHashesForTx tid (dsps (cs_m s)) \<noteq> None then List.insert tid (dspTxids s) else dspTxids s),
                    cs_m := rmTxRpaAssociations tx (cs_m s)\<rparr>;
              s = fold (confirm_child txidMap confirmedHeight) (children tx) s;
              m = cs_m s
          in s\<lparr>cs_m := m\<lparr>txs := AList.delete tid (unlinkFromParentsAndChildren tx (txs m))\<rparr>\<rparr>)"

definition confirmedInBlock :: "bytes list \<Rightarrow> (bytes \<times> TxNum) list \<Rightarrow> BlockHeight \<Rightarrow> Mempool \<Rightarrow> Mempool \<times> bytes list \<times> bytes list" where
  "confirmedInBlock scriptHashesAffectedOut txidMap confirmedHeight m =
     (let s = fold (confirm_tx (map_of txidMap) confirmedHeight) (keys txidMap)
                \<lparr> cs_m = m, cs_affected = [], needingSort = [], recategorized = [], dspTxids = [] \<rparr>;
          m = rmTxsInHashXTxs (keys txidMap) (cs_affected s) (needingSort s) (cs_m s);
          (dspAffected, d) = rm_dsps False (dspTxids s) (dsps m)
      in (m\<lparr>dsps := d\<rparr>, fold List.insert (cs_affected s) scriptHashesAffectedOut, dspAffected))"

end
