(* ===== verification/Mempool_View.thy ===== *)
theory Mempool_View
  imports Mempool
begin

text \<open>
  What the tables of the mempool mean. A view has the transactions, for every transaction the outputs it spends (with their
  entries, and whether they are confirmed), the set of outputs spent inside the mempool, the links from parents to children and the
  fees. \<open>mp_rel\<close> relates the objects to a view; every primitive step of the operations is a simple update of the view.
\<close>

declare map_of_eq_Some_iff [simp del]

section \<open>Views\<close>

record mview =
  v_O :: "bytes \<rightharpoonup> CTransaction"
  v_E :: "bytes \<Rightarrow> TXO \<rightharpoonup> bool \<times> TXOInfo"
  v_S :: "TXO set"
  v_L :: "(bytes \<times> bytes) set"
  v_F :: "bytes \<Rightarrow> Amount"

definition out_entry :: "CTxOut \<Rightarrow> TXOInfo" where
  "out_entry out =
     (if IsOpReturn (scriptPubKey out) then TXOInfo_default
      else \<lparr> ti_amount = nValue out, ti_hashX = HashXFromCScript (scriptPubKey out), ti_confirmedHeight = None, ti_txNum = 0,
             ti_tokenDataPtr = tokenDataPtr out \<rparr>)"

definition out_shs :: "CTxOut list \<Rightarrow> bytes set" where
  "out_shs os = {HashXFromCScript (scriptPubKey out) | out. out \<in> set os \<and> \<not> IsOpReturn (scriptPubKey out)}"

definition touched :: "CTransaction \<Rightarrow> (TXO \<rightharpoonup> bool \<times> TXOInfo) \<Rightarrow> bytes set" where
  "touched c e = out_shs (vout c) \<union> {ti_hashX i | txo b i. e txo = Some (b, i)}"

definition spends_of :: "bool \<Rightarrow> (TXO \<rightharpoonup> bool \<times> TXOInfo) \<Rightarrow> bytes \<Rightarrow> TXO \<rightharpoonup> TXOInfo" where
  "spends_of conf e sh txo = (case e txo of None \<Rightarrow> None | Some (b, i) \<Rightarrow> if b = conf \<and> ti_hashX i = sh then Some i else None)"

definition out_nums :: "CTxOut list \<Rightarrow> bytes \<Rightarrow> IONum set" where
  "out_nums os sh = {n. unat n < length os \<and> \<not> IsOpReturn (scriptPubKey (os ! unat n)) \<and>
     HashXFromCScript (scriptPubKey (os ! unat n)) = sh}"

definition io_rel :: "CTransaction \<Rightarrow> (TXO \<rightharpoonup> bool \<times> TXOInfo) \<Rightarrow> IONum set \<Rightarrow> bytes \<Rightarrow> IOInfo \<Rightarrow> bool" where
  "io_rel c e spent sh io \<longleftrightarrow>
     distinct (keys (confirmedSpends io)) \<and> distinct (keys (unconfirmedSpends io)) \<and> distinct (utxo io) \<and>
     map_of (confirmedSpends io) = spends_of True e sh \<and> map_of (unconfirmedSpends io) = spends_of False e sh \<and>
     set (utxo io) = out_nums (vout c) sh - spent"

text \<open>The table from script hashes to what the transaction does with them.\<close>

definition hx_rel :: "CTransaction \<Rightarrow> (TXO \<rightharpoonup> bool \<times> TXOInfo) \<Rightarrow> IONum set \<Rightarrow> (bytes \<times> IOInfo) list \<Rightarrow> bool" where
  "hx_rel c e spent hx \<longleftrightarrow> distinct (keys hx) \<and>
     (\<forall>sh. case map_of hx sh of None \<Rightarrow> sh \<notin> touched c e | Some io \<Rightarrow> sh \<in> touched c e \<and> io_rel c e spent sh io)"

definition spent_nums :: "TXO set \<Rightarrow> bytes \<Rightarrow> IONum set" where
  "spent_nums S h = {n. TXO h n \<in> S}"

definition tx_rel :: "mview \<Rightarrow> bytes \<Rightarrow> CTransaction \<Rightarrow> Tx \<Rightarrow> bool" where
  "tx_rel v h c t \<longleftrightarrow> mp_hash t = h \<and> txos t = map out_entry (vout c) \<and> fee t = v_F v h \<and>
     hx_rel c (v_E v h) (spent_nums (v_S v) h) (hashXs t) \<and>
     distinct (parents t) \<and> set (parents t) = {p. (p, h) \<in> v_L v} \<and>
     distinct (children t) \<and> set (children t) = {k. (h, k) \<in> v_L v}"

definition txs_rel :: "mview \<Rightarrow> (bytes \<times> Tx) list \<Rightarrow> bool" where
  "txs_rel v t \<longleftrightarrow> distinct (keys t) \<and> (\<forall>h. rel_option (tx_rel v h) (v_O v h) (map_of t h))"

section \<open>One script hash\<close>

lemma touched_insert: "e txo = None \<Longrightarrow> touched c (e(txo \<mapsto> (b, i))) = insert (ti_hashX i) (touched c e)"
  by (auto simp: touched_def) (metis option.distinct(1))

lemma spends_insert: "e txo = None \<Longrightarrow> spends_of conf (e(txo \<mapsto> (b, i))) sh =
    (if b = conf \<and> ti_hashX i = sh then (spends_of conf e sh)(txo \<mapsto> i) else spends_of conf e sh)"
  by (auto simp: spends_of_def fun_eq_iff)

lemma spends_untouched: "sh \<notin> touched c e \<Longrightarrow> spends_of conf e sh = Map.empty"
  by (auto simp: spends_of_def touched_def fun_eq_iff split: option.split)

lemma nums_untouched: "sh \<notin> touched c e \<Longrightarrow> out_nums (vout c) sh = {}"
  by (auto simp: out_nums_def touched_def out_shs_def dest!: nth_mem)

lemma io_default: "sh \<notin> touched c e \<Longrightarrow> io_rel c e spent sh IOInfo_default"
  by (simp add: io_rel_def IOInfo_default_def spends_untouched nums_untouched)

lemma hx_relD: "hx_rel c e spent hx \<Longrightarrow> map_of hx sh = Some io \<Longrightarrow> sh \<in> touched c e \<and> io_rel c e spent sh io"
  unfolding hx_rel_def by (metis (mono_tags, lifting) option.case(2))

lemma hx_rel_None: "hx_rel c e spent hx \<Longrightarrow> map_of hx sh = None \<longleftrightarrow> sh \<notin> touched c e"
  unfolding hx_rel_def by (cases "map_of hx sh") (auto dest: spec[of _ sh])

lemma hx_rel_keys: "hx_rel c e spent hx \<Longrightarrow> set (keys hx) = touched c e"
  using hx_rel_None[of c e spent hx] unfolding set_keys by (auto simp: dom_def)

text \<open>The entry found or created for a script hash.\<close>

lemma hx_entry: "hx_rel c e spent hx \<Longrightarrow> io_rel c e spent sh (case map_of hx sh of None \<Rightarrow> IOInfo_default | Some io \<Rightarrow> io)"
  using hx_rel_None[of c e spent hx sh] hx_relD[of c e spent hx sh]
  by (cases "map_of hx sh") (simp_all add: io_default)

lemma hx_rel_spend:
  assumes "hx_rel c e spent hx" "e txo = None"
    and "\<And>io. io_rel c e spent (ti_hashX i) io \<Longrightarrow> io_rel c (e(txo \<mapsto> (b, i))) spent (ti_hashX i) (f io)"
  shows "hx_rel c (e(txo \<mapsto> (b, i))) spent (map_at IOInfo_default (ti_hashX i) f hx)"
proof -
  have d: "distinct (keys hx)" using assms(1) by (simp add: hx_rel_def)
  have other: "io_rel c (e(txo \<mapsto> (b, i))) spent sh io = io_rel c e spent sh io" if "sh \<noteq> ti_hashX i" for sh io
    using that assms(2) by (simp add: io_rel_def spends_insert)
  have "case map_of (map_at IOInfo_default (ti_hashX i) f hx) sh of None \<Rightarrow> sh \<notin> touched c (e(txo \<mapsto> (b, i)))
      | Some io \<Rightarrow> sh \<in> touched c (e(txo \<mapsto> (b, i))) \<and> io_rel c (e(txo \<mapsto> (b, i))) spent sh io" for sh
  proof (cases "sh = ti_hashX i")
    case True
    then show ?thesis using assms(3)[OF hx_entry[OF assms(1)]] assms(2) by (simp add: touched_insert)
  next
    case False
    then show ?thesis using hx_rel_None[OF assms(1), of sh] hx_relD[OF assms(1), of sh] assms(2)
      by (cases "map_of hx sh") (simp_all add: touched_insert other)
  qed
  then show ?thesis using d by (simp add: hx_rel_def)
qed

lemma io_spend_unconfirmed:
  "e txo = None \<Longrightarrow> io_rel c e spent (ti_hashX i) io \<Longrightarrow>
   io_rel c (e(txo \<mapsto> (False, i))) spent (ti_hashX i) (io\<lparr>unconfirmedSpends := AList.update txo i (unconfirmedSpends io)\<rparr>)"
  by (simp add: io_rel_def spends_insert)

lemma io_spend_confirmed:
  "e txo = None \<Longrightarrow> io_rel c e spent (ti_hashX i) io \<Longrightarrow>
   io_rel c (e(txo \<mapsto> (True, i))) spent (ti_hashX i) (io\<lparr>confirmedSpends := AList.update txo i (confirmedSpends io)\<rparr>)"
  by (simp add: io_rel_def spends_insert)

text \<open>An output is spent inside the mempool, or credited back.\<close>

lemma hx_rel_utxo:
  assumes "hx_rel c e spent hx"
    and "\<And>io. io_rel c e spent sh io \<Longrightarrow> io_rel c e spent' sh (f io)"
    and "\<And>sh'. sh' \<noteq> sh \<Longrightarrow> out_nums (vout c) sh' - spent' = out_nums (vout c) sh' - spent"
  shows "hx_rel c e spent' (map_adjust sh f hx)"
proof -
  have "case map_of (map_adjust sh f hx) k of None \<Rightarrow> k \<notin> touched c e | Some io \<Rightarrow> k \<in> touched c e \<and> io_rel c e spent' k io" for k
  proof (cases "map_of hx k")
    case None
    then show ?thesis using hx_rel_None[OF assms(1), of k] by (cases "k = sh") simp_all
  next
    case (Some io)
    have "io_rel c e spent' k io = io_rel c e spent k io" if "k \<noteq> sh" using assms(3)[OF that] by (simp add: io_rel_def)
    then show ?thesis using Some hx_relD[OF assms(1) Some] assms(2) by auto
  qed
  then show ?thesis using assms(1) by (simp add: hx_rel_def)
qed

lemma out_nums_disjoint: "n \<in> out_nums os sh \<Longrightarrow> sh' \<noteq> sh \<Longrightarrow> n \<notin> out_nums os sh'"
  by (auto simp: out_nums_def)

section \<open>The table of transactions\<close>

lemma txs_relD: "txs_rel v t \<Longrightarrow> rel_option (tx_rel v h) (v_O v h) (map_of t h)"
  by (simp add: txs_rel_def)

lemma txs_rel_Some: "txs_rel v t \<Longrightarrow> map_of t h = Some tx \<Longrightarrow> \<exists>c. v_O v h = Some c \<and> tx_rel v h c tx"
  using txs_relD[of v t h] by (cases "v_O v h") auto

lemma txs_rel_O: "txs_rel v t \<Longrightarrow> v_O v h = Some c \<Longrightarrow> \<exists>tx. map_of t h = Some tx \<and> tx_rel v h c tx"
  using txs_relD[of v t h] by (cases "map_of t h") auto

lemma txs_rel_None: "txs_rel v t \<Longrightarrow> map_of t h = None \<longleftrightarrow> v_O v h = None"
  using txs_relD[of v t h] by (cases "map_of t h"; cases "v_O v h") auto

text \<open>A change of one object is a change of the view that the other objects do not see.\<close>

lemma txs_rel_adjust:
  assumes "txs_rel v t" "v_O v' = v_O v"
    and "\<And>c tx. v_O v h = Some c \<Longrightarrow> tx_rel v h c tx \<Longrightarrow> tx_rel v' h c (f tx)"
    and "\<And>k c tx. k \<noteq> h \<Longrightarrow> tx_rel v k c tx \<Longrightarrow> tx_rel v' k c tx"
  shows "txs_rel v' (map_adjust h f t)"
proof -
  have "rel_option (tx_rel v' k) (v_O v' k) (map_of (map_adjust h f t) k)" for k
    using txs_relD[OF assms(1), of k] assms(2,3,4) by (cases "v_O v k"; cases "map_of t k"; cases "k = h") auto
  then show ?thesis using assms(1) by (simp add: txs_rel_def)
qed

lemma txs_rel_spend:
  assumes "txs_rel v t" "v_E v h txo = None"
    and "\<And>c io. io_rel c (v_E v h) (spent_nums (v_S v) h) (ti_hashX i) io \<Longrightarrow>
      io_rel c ((v_E v h)(txo \<mapsto> (b, i))) (spent_nums (v_S v) h) (ti_hashX i) (f io)"
  shows "txs_rel (v\<lparr>v_E := (v_E v)(h := (v_E v h)(txo \<mapsto> (b, i)))\<rparr>)
    (map_adjust h (\<lambda>tx. tx\<lparr>hashXs := map_at IOInfo_default (ti_hashX i) f (hashXs tx)\<rparr>) t)"
  by (rule txs_rel_adjust[OF assms(1)]) (simp_all add: tx_rel_def hx_rel_spend[OF _ assms(2,3)])

lemmas txs_rel_spend_unconfirmed = txs_rel_spend[OF _ _ io_spend_unconfirmed]
lemmas txs_rel_spend_confirmed = txs_rel_spend[OF _ _ io_spend_confirmed]

lemma spent_nums_simps [simp]:
  "spent_nums (insert (TXO p n) S) h = (if h = p then insert n (spent_nums S h) else spent_nums S h)"
  "spent_nums (S - {TXO p n}) h = (if h = p then spent_nums S h - {n} else spent_nums S h)"
  by (auto simp: spent_nums_def)

text \<open>An output of \<open>p\<close> is spent: its number leaves the unspent set of its script hash. When the spender is dropped, it is put back.\<close>

lemma txs_rel_utxo:
  assumes "txs_rel v t" "v_O v p = Some c" "n \<in> out_nums (vout c) sh"
    and S: "\<And>h. h \<noteq> p \<Longrightarrow> spent_nums S h = spent_nums (v_S v) h" "spent_nums S p - {n} = spent_nums (v_S v) p - {n}"
    and f: "\<And>us. distinct us \<Longrightarrow> set us = out_nums (vout c) sh - spent_nums (v_S v) p \<Longrightarrow>
      distinct (f us) \<and> set (f us) = out_nums (vout c) sh - spent_nums S p"
  shows "txs_rel (v\<lparr>v_S := S\<rparr>) (map_adjust p (\<lambda>tx. tx\<lparr>hashXs := map_adjust sh (\<lambda>io. io\<lparr>utxo := f (utxo io)\<rparr>) (hashXs tx)\<rparr>) t)"
proof (rule txs_rel_adjust[OF assms(1)])
  fix c' tx assume c': "v_O v p = Some c'" and r: "tx_rel v p c' tx"
  have "hx_rel c (v_E v p) (spent_nums S p) (map_adjust sh (\<lambda>io. io\<lparr>utxo := f (utxo io)\<rparr>) (hashXs tx))"
  proof (rule hx_rel_utxo)
    show "hx_rel c (v_E v p) (spent_nums (v_S v) p) (hashXs tx)" using r c' assms(2) by (simp add: tx_rel_def)
    show "out_nums (vout c) sh' - spent_nums S p = out_nums (vout c) sh' - spent_nums (v_S v) p" if "sh' \<noteq> sh" for sh'
      using out_nums_disjoint[OF assms(3) that] S(2) by blast
  qed (simp add: io_rel_def f)
  then show "tx_rel (v\<lparr>v_S := S\<rparr>) p c' (tx\<lparr>hashXs := map_adjust sh (\<lambda>io. io\<lparr>utxo := f (utxo io)\<rparr>) (hashXs tx)\<rparr>)"
    using r c' assms(2) by (simp add: tx_rel_def)
qed (simp_all add: tx_rel_def S(1))

lemma txs_rel_erase_utxo:
  "txs_rel v t \<Longrightarrow> v_O v p = Some c \<Longrightarrow> n \<in> out_nums (vout c) sh \<Longrightarrow> txs_rel (v\<lparr>v_S := insert (TXO p n) (v_S v)\<rparr>)
    (map_adjust p (\<lambda>tx. tx\<lparr>hashXs := map_adjust sh (\<lambda>io. io\<lparr>utxo := removeAll n (utxo io)\<rparr>) (hashXs tx)\<rparr>) t)"
  by (rule txs_rel_utxo) (auto simp: distinct_removeAll)

lemma txs_rel_insert_utxo:
  "txs_rel v t \<Longrightarrow> v_O v p = Some c \<Longrightarrow> n \<in> out_nums (vout c) sh \<Longrightarrow> txs_rel (v\<lparr>v_S := v_S v - {TXO p n}\<rparr>)
    (map_adjust p (\<lambda>tx. tx\<lparr>hashXs := map_adjust sh (\<lambda>io. io\<lparr>utxo := List.insert n (utxo io)\<rparr>) (hashXs tx)\<rparr>) t)"
  by (rule txs_rel_utxo) auto

text \<open>Links, fees and prefixes.\<close>

lemma txs_rel_linkChild:
  assumes "txs_rel v t"
  shows "txs_rel (v\<lparr>v_L := insert (p, k) (v_L v)\<rparr>) (linkChild p k t)"
proof -
  have "rel_option (tx_rel (v\<lparr>v_L := insert (p, k) (v_L v)\<rparr>) h) (v_O v h) (map_of (linkChild p k t) h)" for h
    using txs_relD[OF assms, of h]
    by (cases "v_O v h"; cases "map_of t h"; cases "h = p"; cases "h = k") (auto simp: linkChild_def tx_rel_def)
  then show ?thesis using assms by (simp add: txs_rel_def linkChild_def)
qed

lemma txs_rel_fee: "txs_rel v t \<Longrightarrow> txs_rel (v\<lparr>v_F := (v_F v)(h := v_F v h + x)\<rparr>) (map_adjust h (\<lambda>tx. tx\<lparr>fee := fee tx + x\<rparr>) t)"
  by (rule txs_rel_adjust) (simp_all add: tx_rel_def)

lemma txs_rel_prefixes: "txs_rel v t \<Longrightarrow> txs_rel v (map_adjust h (\<lambda>tx. tx\<lparr>optRpaPrefixSet := f tx\<rparr>) t)"
  by (rule txs_rel_adjust) (simp_all add: tx_rel_def)

section \<open>The table of script hashes\<close>

text \<open>The references held for a script hash, and the ordering of the references in a vector.\<close>

definition refs :: "(bytes \<times> bytes list) list \<Rightarrow> bytes \<Rightarrow> bytes set" where
  "refs H sh = (case map_of H sh of None \<Rightarrow> {} | Some vec \<Rightarrow> set vec)"

definition hxs_ok :: "(bytes \<times> bytes list) list \<Rightarrow> bool" where
  "hxs_ok H \<longleftrightarrow> distinct (keys H) \<and> (\<forall>sh. map_of H sh \<noteq> Some [])"

definition mp_touching :: "mview \<Rightarrow> bytes \<Rightarrow> bytes set" where
  "mp_touching v sh = {h. \<exists>c. v_O v h = Some c \<and> sh \<in> touched c (v_E v h)}"

definition ordered :: "(bytes \<Rightarrow> bool) \<Rightarrow> bytes list \<Rightarrow> bool" where
  "ordered late vec \<longleftrightarrow> sorted (map (\<lambda>h. (late h, h)) vec) \<and> distinct vec"

definition has_parents :: "mview \<Rightarrow> bytes \<Rightarrow> bool" where
  "has_parents v h \<longleftrightarrow> (\<exists>p. (p, h) \<in> v_L v)"

lemma refs_push [simp]: "refs (map_at [] sh (\<lambda>vec. vec @ [h]) H) = (refs H)(sh := insert h (refs H sh))"
  by (auto simp: refs_def fun_eq_iff split: option.split)

lemma hxs_push [simp]: "hxs_ok H \<Longrightarrow> hxs_ok (map_at [] sh (\<lambda>vec. vec @ [h]) H)"
  by (simp add: hxs_ok_def)

lemma refs_nonempty: "hxs_ok H \<Longrightarrow> map_of H sh = None \<longleftrightarrow> refs H sh = {}"
  by (cases "map_of H sh") (auto simp: refs_def hxs_ok_def)

text \<open>A view that represents a mempool.\<close>

definition mp_rel :: "mview \<Rightarrow> Mempool \<Rightarrow> bool" where
  "mp_rel v m \<longleftrightarrow> txs_rel v (txs m) \<and> hxs_ok (hashXTxs m) \<and> refs (hashXTxs m) = mp_touching v"

lemma hasUnconfirmedParents_view:
  "txs_rel v (txs m) \<Longrightarrow> v_O v h \<noteq> None \<Longrightarrow> hasUnconfirmedParents m h = has_parents v h"
  using txs_rel_O[of v "txs m" h] unfolding hasUnconfirmedParents_def has_parents_def tx_rel_def
  by (cases "map_of (txs m) h") (auto simp flip: set_empty)

text \<open>Sorting and removing duplicates.\<close>

lemma ordered_sort: "ordered late (remdups_adj (sort_key (\<lambda>h. (late h, h)) vec))"
proof -
  let ?f = "\<lambda>h. (late h, h)"
  have inj: "inj ?f" by (simp add: inj_def)
  have e: "map ?f (remdups_adj (sort_key ?f vec)) = remdups_adj (map ?f (sort_key ?f vec))"
    by (simp add: remdups_adj_map_injective[OF inj])
  have "sorted (map ?f (remdups_adj (sort_key ?f vec)))" unfolding e by (simp add: sorted_remdups_adj)
  moreover have "distinct (map ?f (remdups_adj (sort_key ?f vec)))" unfolding e by (rule distinct_remdups_adj_sorted) simp
  ultimately show ?thesis by (simp add: ordered_def distinct_map)
qed

lemma ordered_cong: "(\<And>h. h \<in> set vec \<Longrightarrow> late h = late' h) \<Longrightarrow> ordered late vec = ordered late' vec"
  unfolding ordered_def by (simp cong: map_cong)

definition ordered_at :: "(bytes \<Rightarrow> bool) \<Rightarrow> Mempool \<Rightarrow> bytes \<Rightarrow> bool" where
  "ordered_at late m sh = pred_option (ordered late) (map_of (hashXTxs m) sh)"

lemma sort_affected_ok:
  "txs (sort_affected sh m) = txs m \<and> dsps (sort_affected sh m) = dsps m \<and> optPrefixTable (sort_affected sh m) = optPrefixTable m \<and>
   refs (hashXTxs (sort_affected sh m)) = refs (hashXTxs m) \<and> (hxs_ok (hashXTxs m) \<longrightarrow> hxs_ok (hashXTxs (sort_affected sh m))) \<and>
   ordered_at (hasUnconfirmedParents m) (sort_affected sh m) sh \<and>
   (\<forall>k. k \<noteq> sh \<longrightarrow> map_of (hashXTxs (sort_affected sh m)) k = map_of (hashXTxs m) k)"
  by (cases "map_of (hashXTxs m) sh")
    (auto simp: sort_affected_def sort_refs_def refs_def hxs_ok_def ordered_at_def ordered_sort fun_eq_iff
       simp flip: set_empty)

lemma hasUnconfirmedParents_txs: "txs m' = txs m \<Longrightarrow> hasUnconfirmedParents m' = hasUnconfirmedParents m"
  by (simp add: hasUnconfirmedParents_def fun_eq_iff)

lemma sort_all_affected:
  "txs (fold sort_affected A m) = txs m \<and> dsps (fold sort_affected A m) = dsps m \<and>
   optPrefixTable (fold sort_affected A m) = optPrefixTable m \<and>
   refs (hashXTxs (fold sort_affected A m)) = refs (hashXTxs m) \<and> (hxs_ok (hashXTxs m) \<longrightarrow> hxs_ok (hashXTxs (fold sort_affected A m))) \<and>
   (\<forall>sh \<in> set A. ordered_at (hasUnconfirmedParents m) (fold sort_affected A m) sh) \<and>
   (\<forall>sh. sh \<notin> set A \<longrightarrow> map_of (hashXTxs (fold sort_affected A m)) sh = map_of (hashXTxs m) sh)"
proof (induction A rule: rev_induct)
  case (snoc sh A)
  let ?m = "fold sort_affected A m"
  have h: "hasUnconfirmedParents ?m = hasUnconfirmedParents m" using snoc.IH by (blast intro: hasUnconfirmedParents_txs)
  have "ordered_at (hasUnconfirmedParents m) (sort_affected sh ?m) k" if "k \<in> insert sh (set A)" for k
    using that snoc.IH sort_affected_ok[of sh ?m] unfolding h by (cases "k = sh") (simp_all add: ordered_at_def)
  then show ?case using snoc.IH sort_affected_ok[of sh ?m] by simp
qed simp

end
