(* ===== verification/Mempool_Add.thy ===== *)
theory Mempool_Add
  imports Mempool_View
begin

text \<open>
  Adding transactions to the mempool. \<open>view g T X\<close> is the view of the transactions \<open>T\<close> of which the spends \<open>X\<close> have been
  processed; \<open>g\<close> looks confirmed outputs up. The loops of \<open>addNewTxs\<close> grow \<open>T\<close>, then \<open>X\<close>.
\<close>

declare map_of_eq_Some_iff [simp del]

section \<open>The specification\<close>

type_synonym getter = "TXO \<Rightarrow> (db_error, TXOInfo option) result"

text \<open>What an input refers to: an output of a transaction in the mempool, or else a confirmed one.\<close>

definition in_entry :: "getter \<Rightarrow> (bytes \<rightharpoonup> CTransaction) \<Rightarrow> TXO \<Rightarrow> (bool \<times> TXOInfo) option" where
  "in_entry g T txo =
     (case T (txHash txo) of
        Some c \<Rightarrow> if unat (outN txo) < length (vout c) \<and> txoinfo_isValid (out_entry (vout c ! unat (outN txo)))
                  then Some (False, out_entry (vout c ! unat (outN txo))) else None
      | None \<Rightarrow> (case g txo of Inr (Some i) \<Rightarrow> Some (True, i) | _ \<Rightarrow> None))"

definition in_amount :: "getter \<Rightarrow> (bytes \<rightharpoonup> CTransaction) \<Rightarrow> TXO \<Rightarrow> Amount" where
  "in_amount g T txo = (case in_entry g T txo of None \<Rightarrow> 0 | Some (b, i) \<Rightarrow> ti_amount i)"

definition out_total :: "CTransaction option \<Rightarrow> Amount" where
  "out_total oc = (case oc of None \<Rightarrow> 0 | Some c \<Rightarrow> sum_list (map nValue (vout c)))"

definition view :: "getter \<Rightarrow> (bytes \<rightharpoonup> CTransaction) \<Rightarrow> (bytes \<times> TXO) set \<Rightarrow> mview" where
  "view g T X =
     \<lparr> v_O = T, v_E = (\<lambda>h txo. if (h, txo) \<in> X then in_entry g T txo else None),
       v_S = {txo. txHash txo \<in> dom T \<and> (\<exists>h. (h, txo) \<in> X)},
       v_L = {(p, h). p \<in> dom T \<and> (\<exists>n. (h, TXO p n) \<in> X)},
       v_F = (\<lambda>h. (\<Sum>txo | (h, txo) \<in> X. in_amount g T txo) - out_total (T h)) \<rparr>"

definition spends :: "(bytes \<rightharpoonup> CTransaction) \<Rightarrow> (bytes \<times> TXO) set" where
  "spends T = {(h, txo). \<exists>c. T h = Some c \<and> txo \<in> prev_txo ` set (vin c)}"

abbreviation view_of :: "getter \<Rightarrow> (bytes \<rightharpoonup> CTransaction) \<Rightarrow> mview" where
  "view_of g T \<equiv> view g T (spends T)"

definition mempool_repr :: "getter \<Rightarrow> (bytes \<rightharpoonup> CTransaction) \<Rightarrow> Mempool \<Rightarrow> bool" where
  "mempool_repr g T m \<longleftrightarrow> mp_rel (view_of g T) m \<and> (\<forall>sh. ordered_at (has_parents (view_of g T)) m sh)"

text \<open>A consistent set of unconfirmed transactions: every input can be resolved, and no output is spent twice.\<close>

definition mempool_ok :: "getter \<Rightarrow> (bytes \<rightharpoonup> CTransaction) \<Rightarrow> bool" where
  "mempool_ok g T \<longleftrightarrow> finite (dom T) \<and>
     (\<forall>h c. T h = Some c \<longrightarrow> distinct (map prev_txo (vin c)) \<and> length (vout c) \<le> 2 ^ 32 \<and> (\<forall>i \<in> set (vin c). in_entry g T (prev_txo i) \<noteq> None)) \<and>
     (\<forall>h h' txo. (h, txo) \<in> spends T \<longrightarrow> (h', txo) \<in> spends T \<longrightarrow> h = h')"

section \<open>Outputs\<close>

lemma out_shs_snoc: "out_shs (os @ [x]) = (if IsOpReturn (scriptPubKey x) then out_shs os else insert (HashXFromCScript (scriptPubKey x)) (out_shs os))"
  by (auto simp: out_shs_def)

lemma out_nums_snoc:
  assumes "length os < 2 ^ 32"
  shows "out_nums (os @ [x]) sh = (if \<not> IsOpReturn (scriptPubKey x) \<and> HashXFromCScript (scriptPubKey x) = sh
    then insert (of_nat (length os)) (out_nums os sh) else out_nums os sh)"
proof -
  have u: "unat (of_nat (length os) :: IONum) = length os" using assms unfolding unat_of_nat by simp
  have "n = of_nat (length os)" if "unat n = length os" for n :: IONum using that by (simp add: word_unat_eq_iff u)
  then show ?thesis by (auto simp: out_nums_def nth_append u less_Suc_eq split: if_splits)
qed

text \<open>The state of the first loop after some outputs of a transaction.\<close>

definition outs_inv :: "Tx \<Rightarrow> (bytes \<times> bytes list) list \<Rightarrow> bytes list \<Rightarrow> nat \<Rightarrow> CTxOut list \<Rightarrow>
    IONum \<times> Tx \<times> (bytes \<times> bytes list) list \<times> bytes list \<Rightarrow> bool" where
  "outs_inv tx0 H0 A0 N os = (\<lambda>(n, tx, H, A). n = of_nat (length os) \<and>
     txos tx = map out_entry os @ replicate (N - length os) TXOInfo_default \<and>
     mp_hash tx = mp_hash tx0 \<and> parents tx = parents tx0 \<and> children tx = children tx0 \<and>
     fee tx = fee tx0 - sum_list (map nValue os) \<and>
     distinct (keys (hashXs tx)) \<and>
     (\<forall>sh. case map_of (hashXs tx) sh of None \<Rightarrow> sh \<notin> out_shs os
        | Some io \<Rightarrow> sh \<in> out_shs os \<and> confirmedSpends io = [] \<and> unconfirmedSpends io = [] \<and> distinct (utxo io) \<and> set (utxo io) = out_nums os sh) \<and>
     (hxs_ok H0 \<longrightarrow> hxs_ok H) \<and>
     (\<forall>sh. refs H sh = (if sh \<in> out_shs os then insert (mp_hash tx0) (refs H0 sh) else refs H0 sh)) \<and>
     (\<forall>sh. sh \<notin> out_shs os \<longrightarrow> map_of H sh = map_of H0 sh) \<and> set A = set A0 \<union> out_shs os)"

text \<open>One output, for the table of the transaction.\<close>

lemma outs_entry_step:
  assumes "length os < 2 ^ 32" "\<not> IsOpReturn (scriptPubKey x)" "k = HashXFromCScript (scriptPubKey x)"
    and "case map_of hx sh of None \<Rightarrow> sh \<notin> out_shs os
        | Some io \<Rightarrow> sh \<in> out_shs os \<and> confirmedSpends io = [] \<and> unconfirmedSpends io = [] \<and> distinct (utxo io) \<and> set (utxo io) = out_nums os sh"
  shows "case map_of (map_at IOInfo_default k (\<lambda>io. io\<lparr>utxo := List.insert (of_nat (length os)) (utxo io)\<rparr>) hx) sh of
      None \<Rightarrow> sh \<notin> out_shs (os @ [x])
    | Some io \<Rightarrow> sh \<in> out_shs (os @ [x]) \<and> confirmedSpends io = [] \<and> unconfirmedSpends io = [] \<and> distinct (utxo io) \<and> set (utxo io) = out_nums (os @ [x]) sh"
proof -
  have e: "out_nums os sh = {}" if "sh \<notin> out_shs os" using that by (auto simp: out_nums_def out_shs_def dest!: nth_mem)
  show ?thesis using assms(2-) e
    by (cases "map_of hx sh"; cases "sh = k") (auto simp: out_shs_snoc out_nums_snoc[OF assms(1)] IOInfo_default_def)
qed

lemma outs_step:
  assumes "outs_inv tx0 H0 A0 N os st" "length os < N" "N \<le> 2 ^ 32"
  shows "outs_inv tx0 H0 A0 N (os @ [x]) (add_out x st)"
proof -
  obtain n tx H A where st: "st = (n, tx, H, A)" by (cases st)
  note i = assms(1)[unfolded st outs_inv_def, simplified]
  let ?k = "HashXFromCScript (scriptPubKey x)"
  have u: "unat (of_nat (length os) :: IONum) = length os" using assms(2,3) unfolding unat_of_nat by simp
  have r: "replicate (N - length os) TXOInfo_default = TXOInfo_default # replicate (N - Suc (length os)) TXOInfo_default"
    using assms(2) by (metis Suc_diff_Suc replicate_Suc)
  show ?thesis
  proof (cases "IsOpReturn (scriptPubKey x)")
    case True
    then show ?thesis using i assms(2,3) unfolding st outs_inv_def add_out_def
      by (simp add: r out_entry_def out_shs_snoc out_nums_snoc algebra_simps cong del: option.case_cong_weak)
  next
    case False
    have e: "case map_of (map_at IOInfo_default ?k (\<lambda>io. io\<lparr>utxo := List.insert (of_nat (length os)) (utxo io)\<rparr>) (hashXs tx)) sh of
        None \<Rightarrow> sh \<notin> out_shs (os @ [x])
      | Some io \<Rightarrow> sh \<in> out_shs (os @ [x]) \<and> confirmedSpends io = [] \<and> unconfirmedSpends io = [] \<and> distinct (utxo io) \<and> set (utxo io) = out_nums (os @ [x]) sh" for sh
      using i assms(2,3) by (intro outs_entry_step[OF _ False refl]) auto
    from False i e show ?thesis unfolding st outs_inv_def add_out_def Let_def
      by (simp add: r u out_entry_def out_shs_snoc list_update_append algebra_simps del: map_of_at) auto
  qed
qed

lemma outs_all:
  assumes "length os = N" "N \<le> 2 ^ 32" "outs_inv tx0 H0 A0 N [] st"
  shows "outs_inv tx0 H0 A0 N os (fold add_out os st)"
proof -
  have "outs_inv tx0 H0 A0 N ys (fold add_out ys st)" if "os = ys @ zs" for ys zs
    using that
  proof (induction ys arbitrary: zs rule: rev_induct)
    case (snoc y ys)
    then show ?case using outs_step[of tx0 H0 A0 N ys "fold add_out ys st" y] assms(1,2) by auto
  qed (simp add: assms(3))
  then show ?thesis by simp
qed

text \<open>A transaction enters with its outputs.\<close>

lemma outs_inv_start: "outs_inv (Tx_new h a b) H A N [] (0, (Tx_new h a b)\<lparr>txos := replicate N TXOInfo_default\<rparr>, H, A)"
  by (simp add: outs_inv_def Tx_new_def out_shs_def)

lemma tx_rel_new:
  assumes "outs_inv (Tx_new h a b) H A (length (vout c)) (vout c) (n, tx, H', A')"
    and "v_O v h = Some c" "v_E v h = Map.empty" "spent_nums (v_S v) h = {}" "\<forall>p. (p, h) \<notin> v_L v \<and> (h, p) \<notin> v_L v"
    and "v_F v h = - sum_list (map nValue (vout c))"
  shows "tx_rel v h c tx"
proof -
  note i = assms(1)[unfolded outs_inv_def, simplified]
  have "case map_of (hashXs tx) sh of None \<Rightarrow> sh \<notin> touched c Map.empty | Some io \<Rightarrow> sh \<in> touched c Map.empty \<and> io_rel c Map.empty {} sh io" for sh
    using i by (cases "map_of (hashXs tx) sh") (auto simp: touched_def io_rel_def spends_of_def fun_eq_iff dest: spec[of _ sh])
  then show ?thesis using i assms(2-) by (simp add: tx_rel_def hx_rel_def Tx_new_def)
qed

lemma add_tx_outputs_rel:
  assumes "mp_rel v m" "v_O v h = None" "v_E v h = Map.empty" "spent_nums (v_S v) h = {}" "\<forall>p. (p, h) \<notin> v_L v \<and> (h, p) \<notin> v_L v"
    and "length (vout c) \<le> 2 ^ 32" "add_tx_outputs (Tx_new h a b, c) (m, A) = (m', A')"
  shows "mp_rel (v\<lparr>v_O := (v_O v)(h \<mapsto> c), v_F := (v_F v)(h := - sum_list (map nValue (vout c)))\<rparr>) m' \<and>
    dsps m' = dsps m \<and> optPrefixTable m' = optPrefixTable m \<and> set A' = set A \<union> out_shs (vout c) \<and>
    (\<forall>sh. sh \<notin> out_shs (vout c) \<longrightarrow> map_of (hashXTxs m') sh = map_of (hashXTxs m) sh)"
proof -
  let ?v = "v\<lparr>v_O := (v_O v)(h \<mapsto> c), v_F := (v_F v)(h := - sum_list (map nValue (vout c)))\<rparr>"
  obtain n tx H where f: "fold add_out (vout c) (0, (Tx_new h a b)\<lparr>txos := replicate (length (vout c)) TXOInfo_default\<rparr>, hashXTxs m, A) = (n, tx, H, A')"
      and m': "m' = m\<lparr>txs := AList.update (mp_hash tx) tx (txs m), hashXTxs := H\<rparr>"
    using assms(7) by (auto simp: add_tx_outputs_def Tx_new_def split: prod.splits)
  have o: "outs_inv (Tx_new h a b) (hashXTxs m) A (length (vout c)) (vout c) (n, tx, H, A')"
    using outs_all[OF refl assms(6) outs_inv_start[where h = h and a = a and b = b and H = "hashXTxs m" and A = A]] unfolding f .
  note i = o[unfolded outs_inv_def, simplified]
  have t: "txs_rel v (txs m)" and hx: "hxs_ok (hashXTxs m)" "refs (hashXTxs m) = mp_touching v" using assms(1) by (simp_all add: mp_rel_def)
  have h: "mp_hash tx = h" using i by (simp add: Tx_new_def)
  have "rel_option (tx_rel ?v k) (v_O ?v k) (map_of (txs m') k)" for k
  proof (cases "k = h")
    case True
    then show ?thesis using tx_rel_new[OF o, of ?v] assms(3-5) by (simp add: m' h)
  next
    case False
    then show ?thesis using txs_relD[OF t, of k] by (simp add: m' h tx_rel_def[abs_def])
  qed
  then have "txs_rel ?v (txs m')" using t by (simp add: txs_rel_def m' h)
  moreover have "mp_touching ?v sh = (if sh \<in> out_shs (vout c) then insert h (mp_touching v sh) else mp_touching v sh)" for sh
    using assms(2,3) by (auto simp: mp_touching_def touched_def)
  ultimately show ?thesis using i hx unfolding mp_rel_def m' by (simp add: fun_eq_iff Tx_new_def)
qed

section \<open>The first loop\<close>

definition new_txs :: "(Tx \<times> CTransaction) list \<Rightarrow> bytes \<rightharpoonup> CTransaction" where
  "new_txs txsNew = map_of (map (\<lambda>(tx, c). (mp_hash tx, c)) txsNew)"

text \<open>New transactions: fresh objects whose hashes are neither in the mempool nor in the chain.\<close>

definition fresh_txs :: "getter \<Rightarrow> (bytes \<rightharpoonup> CTransaction) \<Rightarrow> (Tx \<times> CTransaction) list \<Rightarrow> bool" where
  "fresh_txs g T txsNew \<longleftrightarrow> distinct (map (mp_hash \<circ> fst) txsNew) \<and>
     (\<forall>(tx, c) \<in> set txsNew. (\<exists>a b. tx = Tx_new (mp_hash tx) a b) \<and> T (mp_hash tx) = None \<and> (\<forall>n. g (TXO (mp_hash tx) n) = Inr None))"

lemma view_simps [simp]: "v_O (view g T X) = T" by (simp add: view_def)

lemma in_entry_other: "txHash txo \<noteq> h \<Longrightarrow> in_entry g (T(h \<mapsto> c)) txo = in_entry g T txo"
  by (simp add: in_entry_def)

lemma view_add_tx:
  assumes "T h = None" "\<forall>(k, txo) \<in> X. k \<noteq> h \<and> txHash txo \<noteq> h"
  shows "view g (T(h \<mapsto> c)) X = (view g T X)\<lparr>v_O := T(h \<mapsto> c), v_F := (v_F (view g T X))(h := - sum_list (map nValue (vout c)))\<rparr>"
proof -
  have e: "in_entry g (T(h \<mapsto> c)) txo = in_entry g T txo" "in_amount g (T(h \<mapsto> c)) txo = in_amount g T txo" if "(k, txo) \<in> X" for k txo
    using assms(2) that by (auto simp: in_amount_def in_entry_other)
  have s: "sum (in_amount g (T(h \<mapsto> c))) {txo. (k, txo) \<in> X} = sum (in_amount g T) {txo. (k, txo) \<in> X}" for k
    by (rule sum.cong) (auto simp: e(2))
  have "{txo. (h, txo) \<in> X} = {}" using assms(2) by blast
  then have "(\<Sum>txo | (k, txo) \<in> X. in_amount g (T(h \<mapsto> c)) txo) - out_total ((T(h \<mapsto> c)) k) =
      (if k = h then - sum_list (map nValue (vout c)) else (\<Sum>txo | (k, txo) \<in> X. in_amount g T txo) - out_total (T k))" for k
    by (simp add: out_total_def s)
  moreover have "p \<noteq> h" if "(k, TXO p n) \<in> X" for k p n using assms(2) that by fastforce
  ultimately show ?thesis using assms(2) by (auto simp: view_def fun_eq_iff e)
qed

lemma view_fresh:
  assumes "T h = None" "\<forall>(k, txo) \<in> X. k \<noteq> h \<and> txHash txo \<noteq> h"
  shows "v_E (view g T X) h = Map.empty" "spent_nums (v_S (view g T X)) h = {}" "\<forall>p. (p, h) \<notin> v_L (view g T X) \<and> (h, p) \<notin> v_L (view g T X)"
  using assms by (auto simp: view_def spent_nums_def fun_eq_iff)

lemma spends_fresh:
  assumes "mempool_ok g T" "T h = None" "\<forall>n. g (TXO h n) = Inr None" "(k, txo) \<in> spends T"
  shows "k \<noteq> h \<and> txHash txo \<noteq> h"
proof -
  obtain c i where c: "T k = Some c" "i \<in> set (vin c)" "txo = prev_txo i" using assms(4) by (auto simp: spends_def)
  then have "in_entry g T txo \<noteq> None" using assms(1) by (auto simp: mempool_ok_def)
  moreover have "in_entry g T (TXO h n) = None" for n using assms(2,3) by (simp add: in_entry_def)
  ultimately show ?thesis using c(1) assms(2) by (cases txo) auto
qed

lemma add_all_outputs:
  assumes "distinct (map (mp_hash \<circ> fst) txsNew)"
    and "\<forall>(tx, c) \<in> set txsNew. (\<exists>a b. tx = Tx_new (mp_hash tx) a b) \<and> T (mp_hash tx) = None \<and> length (vout c) \<le> 2 ^ 32 \<and>
      (\<forall>(k, txo) \<in> X. k \<noteq> mp_hash tx \<and> txHash txo \<noteq> mp_hash tx)"
    and "mp_rel (view g T X) m" "fold add_tx_outputs txsNew (m, A) = (m', A')"
  shows "mp_rel (view g (T ++ new_txs txsNew) X) m' \<and> dsps m' = dsps m \<and> optPrefixTable m' = optPrefixTable m \<and>
    set A' = set A \<union> (\<Union>(tx, c) \<in> set txsNew. out_shs (vout c)) \<and>
    (\<forall>sh. sh \<notin> set A' \<longrightarrow> map_of (hashXTxs m') sh = map_of (hashXTxs m) sh)"
  using assms
proof (induction txsNew arbitrary: T m A)
  case Nil
  then show ?case by (simp add: new_txs_def)
next
  case (Cons p txsNew)
  obtain tx c where p: "p = (tx, c)" by (cases p)
  obtain h a b where tx: "tx = Tx_new h a b" "mp_hash tx = h" using Cons.prems(2) p by fastforce
  obtain m1 A1 where s: "add_tx_outputs (Tx_new h a b, c) (m, A) = (m1, A1)" by fastforce
  have fr: "T h = None" "\<forall>(k, txo) \<in> X. k \<noteq> h \<and> txHash txo \<noteq> h" "length (vout c) \<le> 2 ^ 32" using Cons.prems(2) by (auto simp: p tx(2))
  note one = add_tx_outputs_rel[OF Cons.prems(3) _ view_fresh[of T h X g, OF fr(1,2)] fr(3) s, simplified view_simps, OF fr(1)]
  have n: "new_txs txsNew h = None" using Cons.prems(1) by (auto simp: p tx(2) new_txs_def map_of_eq_None_iff image_iff)
  have T: "T ++ new_txs (p # txsNew) = T(h \<mapsto> c) ++ new_txs txsNew" using n by (auto simp: new_txs_def p tx(2) map_add_upd_left domIff)
  have ne: "mp_hash (fst q) \<noteq> h" if "q \<in> set txsNew" for q using Cons.prems(1) that by (auto simp: p tx(2))
  have rest: "\<forall>(tx, c') \<in> set txsNew. (\<exists>a b. tx = Tx_new (mp_hash tx) a b) \<and> (T(h \<mapsto> c)) (mp_hash tx) = None \<and> length (vout c') \<le> 2 ^ 32 \<and>
      (\<forall>(k, txo) \<in> X. k \<noteq> mp_hash tx \<and> txHash txo \<noteq> mp_hash tx)"
    using Cons.prems(2) ne by fastforce
  have d: "distinct (map (mp_hash \<circ> fst) txsNew)" and f: "fold add_tx_outputs txsNew (m1, A1) = (m', A')"
    using Cons.prems(1,4) s by (simp_all add: p tx(1) comp_def)
  have r: "mp_rel (view g (T(h \<mapsto> c)) X) m1" using one by (simp add: view_add_tx[of T h X, OF fr(1,2)])
  from Cons.IH[OF d rest r f]
  show ?case unfolding T using one by (simp add: p Un_assoc del: fun_upd_apply)
qed

section \<open>One input\<close>

definition spend_view :: "bytes \<Rightarrow> TXO \<Rightarrow> bool \<Rightarrow> TXOInfo \<Rightarrow> mview \<Rightarrow> mview" where
  "spend_view h txo b i v =
     (let v = v\<lparr>v_E := (v_E v)(h := (v_E v h)(txo \<mapsto> (b, i)))\<rparr>
      in if b then v else v\<lparr>v_S := insert txo (v_S v), v_L := insert (txHash txo, h) (v_L v)\<rparr>)"

lemma in_entry_conf: "in_entry g T txo = Some (b, i) \<Longrightarrow> b \<longleftrightarrow> T (txHash txo) = None"
  by (auto simp: in_entry_def split: option.splits if_splits sum.splits)

lemma view_insert:
  assumes "(h, txo) \<notin> X" "finite {txo. (h, txo) \<in> X}" "in_entry g T txo = Some (b, i)"
  defines "v \<equiv> spend_view h txo b i (view g T X)"
  shows "view g T (insert (h, txo) X) = v\<lparr>v_F := (v_F v)(h := v_F v h + ti_amount i)\<rparr>"
proof -
  have "{t. t = txo \<or> (h, t) \<in> X} = insert txo {t. (h, t) \<in> X}" by blast
  then have s: "(\<Sum>t | t = txo \<or> (h, t) \<in> X. in_amount g T t) = ti_amount i + (\<Sum>t | (h, t) \<in> X. in_amount g T t)"
    using assms(1-3) by (simp add: in_amount_def)
  show ?thesis
  proof (cases b)
    case True
    then have "T (txHash txo) = None" using in_entry_conf[OF assms(3)] by simp
    then show ?thesis using True s assms(3) by (auto simp: v_def spend_view_def view_def fun_eq_iff domIff)
  next
    case False
    then obtain c where "T (txHash txo) = Some c" using in_entry_conf[OF assms(3)] by auto
    then show ?thesis using False s assms(3) by (cases txo) (auto simp: v_def spend_view_def view_def fun_eq_iff)
  qed
qed

lemma mp_rel_dsps [simp]: "mp_rel v (m\<lparr>dsps := d\<rparr>) = mp_rel v m"
  by (simp add: mp_rel_def)

text \<open>An input that spends an output of the mempool is linked to it; one that cannot be resolved is an error.\<close>

lemma out_entry_valid: "txoinfo_isValid (out_entry x) \<Longrightarrow> \<not> IsOpReturn (scriptPubKey x) \<and> ti_hashX (out_entry x) = HashXFromCScript (scriptPubKey x)"
  by (auto simp: out_entry_def TXOInfo_default_def txoinfo_isValid_def)

lemma spend_unconfirmed_ok:
  assumes "txs_rel v (txs m)" "v_O v h = Some c" "v_O v p = Some cp" "map_of (txs m) p = Some prevTx" "v_E v h (TXO p n) = None"
  shows "if unat n < length (vout cp) \<and> txoinfo_isValid (out_entry (vout cp ! unat n))
    then \<exists>t. spend_unconfirmed h (TXO p n) prevTx m = (Inr (out_entry (vout cp ! unat n)), m\<lparr>txs := t\<rparr>) \<and>
      txs_rel (spend_view h (TXO p n) False (out_entry (vout cp ! unat n)) v) t
    else \<exists>e. spend_unconfirmed h (TXO p n) prevTx m = (Inl e, m)"
proof -
  have txos: "txos prevTx = map out_entry (vout cp)" using txs_relD[OF assms(1), of p] assms(3,4) by (simp add: tx_rel_def)
  show ?thesis
  proof (cases "unat n < length (vout cp) \<and> txoinfo_isValid (out_entry (vout cp ! unat n))")
    case True
    let ?i = "out_entry (vout cp ! unat n)"
    define v1 where "v1 = v\<lparr>v_E := (v_E v)(h := (v_E v h)(TXO p n \<mapsto> (False, ?i)))\<rparr>"
    define t1 where "t1 = map_adjust h (\<lambda>tx. tx\<lparr>hashXs := map_at IOInfo_default (ti_hashX ?i)
        (\<lambda>io. io\<lparr>unconfirmedSpends := AList.update (TXO p n) ?i (unconfirmedSpends io)\<rparr>) (hashXs tx)\<rparr>) (txs m)"
    have r1: "txs_rel v1 t1" unfolding v1_def t1_def by (rule txs_rel_spend_unconfirmed[OF assms(1,5,5)])
    have n: "n \<in> out_nums (vout cp) (ti_hashX ?i)" using True out_entry_valid[of "vout cp ! unat n"] by (simp add: out_nums_def)
    obtain prev' where prev': "map_of t1 p = Some prev'" "tx_rel v1 p cp prev'" using txs_rel_O[OF r1, of p cp] assms(3) by (auto simp: v1_def)
    have "ti_hashX ?i \<in> touched cp (v_E v1 p)" using True out_entry_valid[of "vout cp ! unat n"] nth_mem[of "unat n" "vout cp"] by (auto simp: touched_def out_shs_def)
    then have found: "map_of (hashXs prev') (ti_hashX ?i) \<noteq> None" using prev'(2) hx_rel_None unfolding tx_rel_def by blast
    note r3 = txs_rel_linkChild[OF txs_rel_erase_utxo[OF r1 _ n, of p], of p h]
    show ?thesis using True found prev'(1) r3 assms(3)
      by (auto simp: spend_unconfirmed_def txos spend_view_def Let_def t1_def[symmetric] v1_def simp del: map_of_adjust)
  next
    case False
    then show ?thesis by (auto simp: spend_unconfirmed_def txos)
  qed
qed

lemma spend_confirmed_ok:
  assumes "txs_rel v (txs m)" "v_E v h txo = None"
  shows "case g txo of Inr (Some i) \<Rightarrow> \<exists>t. spend_confirmed g h txo m = (Inr i, m\<lparr>txs := t\<rparr>) \<and> txs_rel (spend_view h txo True i v) t
    | _ \<Rightarrow> \<exists>e. spend_confirmed g h txo m = (Inl e, m)"
  using txs_rel_spend_confirmed[OF assms(1,2,2)]
  by (auto simp: spend_confirmed_def spend_view_def split: sum.split option.split)

lemma touching_spend:
  "v_O v h = Some c \<Longrightarrow> v_E v h txo = None \<Longrightarrow>
   mp_touching (spend_view h txo b i v) = (mp_touching v)(ti_hashX i := insert h (mp_touching v (ti_hashX i)))"
  by (auto simp: mp_touching_def spend_view_def Let_def touched_insert fun_eq_iff split: if_splits)

lemma touching_fee [simp]: "mp_touching (v\<lparr>v_F := F\<rparr>) = mp_touching v"
  by (simp add: mp_touching_def fun_eq_iff)

lemma touch_rel:
  assumes "txs_rel w (txs m)" "hxs_ok (hashXTxs m)" "mp_touching w = (refs (hashXTxs m))(ti_hashX i := insert h (refs (hashXTxs m) (ti_hashX i)))"
  shows "mp_rel (w\<lparr>v_F := (v_F w)(h := v_F w h + ti_amount i)\<rparr>) (touch h i m)"
  using assms txs_rel_fee[OF assms(1)] by (simp add: mp_rel_def touch_def)

lemma add_rpa_rel:
  "\<exists>m'. add_rpa h n i m = Inr m' \<and> hashXTxs m' = hashXTxs m \<and> dsps m' = dsps m \<and> (mp_rel v m \<longrightarrow> mp_rel v m')"
  using txs_rel_prefixes[of v "txs m" h]
  by (auto simp: add_rpa_def input_prefix_of(1) mp_rel_def Let_def split: option.split)

lemma add_dsps_keeps:
  assumes "add_dsps nh h p seen s = (s', seen')"
  shows "as_m s' = (as_m s)\<lparr>dsps := dsps (as_m s')\<rparr> \<and> as_affected s' = as_affected s"
  using assms by (auto simp: add_dsps_def split: if_splits option.splits prod.splits)

lemma find_prev_ok:
  assumes "txs_rel v (txs (as_m s))" "v_O v = T" "T h = Some c" "v_E v h txo = None"
  shows "case in_entry g T txo of
      None \<Rightarrow> \<exists>e st. find_prev g nh h txo seen s = (Inl e, st)
    | Some (b, info) \<Rightarrow> \<exists>s' seen' t. find_prev g nh h txo seen s = (Inr info, s', seen') \<and>
        as_m s' = (as_m s)\<lparr>txs := t, dsps := dsps (as_m s')\<rparr> \<and> as_affected s' = as_affected s \<and> txs_rel (spend_view h txo b info v) t"
proof (cases "map_of (txs (as_m s)) (txHash txo)")
  case (Some prevTx)
  let ?cond = "\<lambda>cp. unat (outN txo) < length (vout cp) \<and> txoinfo_isValid (out_entry (vout cp ! unat (outN txo)))"
    and ?i = "\<lambda>cp. out_entry (vout cp ! unat (outN txo))"
  obtain cp where cp: "T (txHash txo) = Some cp" using txs_rel_Some[OF assms(1) Some] assms(2) by auto
  have e: "v_E v h (TXO (txHash txo) (outN txo)) = None" using assms(4) by simp
  note u = spend_unconfirmed_ok[OF assms(1) _ _ Some e, unfolded assms(2), OF assms(3) cp, unfolded TXO.collapse]
  show ?thesis
  proof (cases "?cond cp")
    case True
    then obtain t where t: "spend_unconfirmed h txo prevTx (as_m s) = (Inr (?i cp), (as_m s)\<lparr>txs := t\<rparr>)" "txs_rel (spend_view h txo False (?i cp) v) t"
      using u by auto
    obtain s1 seen1 where d: "add_dsps nh h (txHash txo) seen (s\<lparr>as_m := (as_m s)\<lparr>txs := t\<rparr>\<rparr>) = (s1, seen1)" by fastforce
    have i: "in_entry g T txo = Some (False, ?i cp)" using cp True by (simp add: in_entry_def)
    show ?thesis using add_dsps_keeps[OF d] t d Some by (simp add: find_prev_def i) blast
  next
    case False
    then have "in_entry g T txo = None" using cp by (auto simp: in_entry_def)
    then show ?thesis using u False Some by (auto simp: find_prev_def)
  qed
next
  case None
  have T: "T (txHash txo) = None" using txs_rel_None[OF assms(1), of "txHash txo"] assms(2) None by simp
  note c = spend_confirmed_ok[OF assms(1,4), of g]
  show ?thesis
  proof (cases "\<exists>info. g txo = Inr (Some info)")
    case True
    then obtain info t where "g txo = Inr (Some info)" "spend_confirmed g h txo (as_m s) = (Inr info, (as_m s)\<lparr>txs := t\<rparr>)"
        "txs_rel (spend_view h txo True info v) t" using c by auto
    then show ?thesis using None by (auto simp: find_prev_def in_entry_def T)
  next
    case False
    then obtain e where "spend_confirmed g h txo (as_m s) = (Inl e, as_m s)" "in_entry g T txo = None"
      using c by (cases "g txo") (auto simp: in_entry_def T split: option.splits)
    then show ?thesis using None by (auto simp: find_prev_def)
  qed
qed

lemma mark_input_ok:
  assumes "txs_rel w (txs (as_m s))" "hxs_ok (hashXTxs (as_m s))"
    and "mp_touching w = (refs (hashXTxs (as_m s)))(ti_hashX info := insert h (refs (hashXTxs (as_m s)) (ti_hashX info)))"
  shows "\<exists>s'. mark_input h n i info s = (Inr (), s') \<and> mp_rel (w\<lparr>v_F := (v_F w)(h := v_F w h + ti_amount info)\<rparr>) (as_m s') \<and>
    as_affected s' = List.insert (ti_hashX info) (as_affected s) \<and> dsps (as_m s') = dsps (as_m s) \<and>
    newTxsNewParents s' = newTxsNewParents s \<and> dspTxsAffected s' = dspTxsAffected s \<and>
    (\<forall>sh. sh \<noteq> ti_hashX info \<longrightarrow> map_of (hashXTxs (as_m s')) sh = map_of (hashXTxs (as_m s)) sh)"
proof -
  obtain m where "add_rpa h n i (touch h info (as_m s)) = Inr m" "hashXTxs m = hashXTxs (touch h info (as_m s))" "dsps m = dsps (touch h info (as_m s))"
      "mp_rel (w\<lparr>v_F := (v_F w)(h := v_F w h + ti_amount info)\<rparr>) m"
    using touch_rel[OF assms] add_rpa_rel[of h n i "touch h info (as_m s)"] by blast
  then show ?thesis by (simp add: mark_input_def Let_def) (simp add: touch_def)
qed

text \<open>One round of the second loop.\<close>

lemma add_in_ok:
  assumes "mp_rel (view g T X) (as_m s)" "T h = Some c" "(h, prev_txo i) \<notin> X" "finite {txo. (h, txo) \<in> X}"
  shows "case in_entry g T (prev_txo i) of
      None \<Rightarrow> \<exists>e st. add_in g nh h i (s, n, seen) = (Inl e, st)
    | Some (b, info) \<Rightarrow> \<exists>s' seen'. add_in g nh h i (s, n, seen) = (Inr (), s', n + 1, seen') \<and>
        mp_rel (view g T (insert (h, prev_txo i) X)) (as_m s') \<and>
        as_affected s' = List.insert (ti_hashX info) (as_affected s) \<and>
        (\<forall>sh. sh \<noteq> ti_hashX info \<longrightarrow> map_of (hashXTxs (as_m s')) sh = map_of (hashXTxs (as_m s)) sh)"
proof -
  let ?v = "view g T X" and ?m = "as_m s"
  have t: "txs_rel ?v (txs ?m)" and hx: "hxs_ok (hashXTxs ?m)" "refs (hashXTxs ?m) = mp_touching ?v" using assms(1) by (simp_all add: mp_rel_def)
  have e: "v_E ?v h (prev_txo i) = None" using assms(3) by (simp add: view_def)
  note f = find_prev_ok[OF t view_simps assms(2) e, of g nh seen]
  show ?thesis
  proof (cases "in_entry g T (prev_txo i)")
    case None
    then show ?thesis using f by (auto simp: add_in_def)
  next
    case i: (Some bi)
    obtain b info where bi: "bi = (b, info)" by (cases bi)
    obtain s1 seen1 t' where s1: "find_prev g nh h (prev_txo i) seen s = (Inr info, s1, seen1)" "as_m s1 = ?m\<lparr>txs := t', dsps := dsps (as_m s1)\<rparr>"
        "as_affected s1 = as_affected s" and r: "txs_rel (spend_view h (prev_txo i) b info ?v) t'"
      using f unfolding i bi by auto
    have m: "txs (as_m s1) = t'" "hashXTxs (as_m s1) = hashXTxs ?m" by (subst s1(2), simp)+
    have "\<exists>s'. mark_input h n i info s1 = (Inr (), s') \<and> mp_rel (view g T (insert (h, prev_txo i) X)) (as_m s') \<and>
        as_affected s' = List.insert (ti_hashX info) (as_affected s1) \<and> dsps (as_m s') = dsps (as_m s1) \<and>
        newTxsNewParents s' = newTxsNewParents s1 \<and> dspTxsAffected s' = dspTxsAffected s1 \<and>
        (\<forall>sh. sh \<noteq> ti_hashX info \<longrightarrow> map_of (hashXTxs (as_m s')) sh = map_of (hashXTxs (as_m s1)) sh)"
      unfolding view_insert[OF assms(3,4) i[unfolded bi]]
      by (rule mark_input_ok) (simp_all add: m r hx touching_spend[OF _ e, simplified, OF assms(2)])
    then show ?thesis using s1(1,3) m by (auto simp: add_in_def i bi)
  qed
qed

section \<open>The second loop\<close>

lemma efor_fail: "efor body xs s = (Inr (), s') \<Longrightarrow> body y s' = (Inl e, s'') \<Longrightarrow> efor body (xs @ y # zs) s = (Inl e, s'')"
  by (simp add: efor_append ebind_def)

text \<open>The inputs processed, and the script hashes they touch.\<close>

definition in_pairs :: "bytes \<Rightarrow> CTxIn list \<Rightarrow> (bytes \<times> TXO) set" where
  "in_pairs h is = Pair h ` prev_txo ` set is"

definition in_shs :: "getter \<Rightarrow> (bytes \<rightharpoonup> CTransaction) \<Rightarrow> CTxIn list \<Rightarrow> bytes set" where
  "in_shs g T is = {ti_hashX info | i b info. i \<in> set is \<and> in_entry g T (prev_txo i) = Some (b, info)}"

definition add_post :: "getter \<Rightarrow> (bytes \<rightharpoonup> CTransaction) \<Rightarrow> (bytes \<times> TXO) set \<Rightarrow> bytes set \<Rightarrow> AddState \<Rightarrow> AddState \<Rightarrow> bool" where
  "add_post g T X A s s' \<longleftrightarrow> mp_rel (view g T X) (as_m s') \<and> set (as_affected s') = set (as_affected s) \<union> A \<and>
     (\<forall>sh. sh \<notin> A \<longrightarrow> map_of (hashXTxs (as_m s')) sh = map_of (hashXTxs (as_m s)) sh)"

lemma add_inputs_loop:
  assumes "mp_rel (view g T X) (as_m s)" "T h = Some c" "\<forall>txo. (h, txo) \<notin> X"
    and "distinct (map prev_txo is)" "\<forall>i \<in> set is. in_entry g T (prev_txo i) \<noteq> None"
  shows "\<exists>s' n seen. efor (add_in g nh h) is (s, 0, []) = (Inr (), s', n, seen) \<and> add_post g T (X \<union> in_pairs h is) (in_shs g T is) s s'"
proof -
  let ?I = "\<lambda>ys (s', n :: nat, seen :: bytes list). add_post g T (X \<union> in_pairs h ys) (in_shs g T ys) s s'"
  have "\<exists>st. efor (add_in g nh h) is (s, 0, []) = (Inr (), st) \<and> ?I is st"
  proof (rule efor_inv)
    show "?I [] (s, 0, [])" using assms(1) by (simp add: add_post_def in_pairs_def in_shs_def)
  next
    fix ys y zs st assume split: "is = ys @ y # zs" and I: "?I ys st"
    obtain s1 n seen where st: "st = (s1, n, seen)" by (cases st)
    have p: "mp_rel (view g T (X \<union> in_pairs h ys)) (as_m s1)" "(h, prev_txo y) \<notin> X \<union> in_pairs h ys"
      using I assms(3,4) by (auto simp: st split add_post_def in_pairs_def)
    have "{txo. (h, txo) \<in> X \<union> in_pairs h ys} \<subseteq> prev_txo ` set ys" using assms(3) by (auto simp: in_pairs_def)
    then have fin: "finite {txo. (h, txo) \<in> X \<union> in_pairs h ys}" by (rule finite_subset) simp
    obtain b info where y: "in_entry g T (prev_txo y) = Some (b, info)" using assms(5) split by auto
    have e: "insert (h, prev_txo y) (X \<union> in_pairs h ys) = X \<union> in_pairs h (ys @ [y])" "in_shs g T (ys @ [y]) = insert (ti_hashX info) (in_shs g T ys)"
      using y by (auto simp: in_pairs_def in_shs_def)
    show "\<exists>st'. add_in g nh h y st = (Inr (), st') \<and> ?I (ys @ [y]) st'"
      using add_in_ok[OF p(1) assms(2) p(2) fin, of nh n seen] I by (auto simp: y st e add_post_def)
  qed
  then show ?thesis by auto
qed

lemma add_inputs_ok:
  assumes "mp_rel (view g T X) (as_m s)" "T (mp_hash tx) = Some c" "\<forall>txo. (mp_hash tx, txo) \<notin> X" "distinct (map prev_txo (vin c))"
  shows "(\<forall>i \<in> set (vin c). in_entry g T (prev_txo i) \<noteq> None) \<Longrightarrow>
      \<exists>s'. add_inputs_of g nh (tx, c) s = (Inr (), s') \<and> add_post g T (X \<union> in_pairs (mp_hash tx) (vin c)) (in_shs g T (vin c)) s s'"
    and "\<not> (\<forall>i \<in> set (vin c). in_entry g T (prev_txo i) \<noteq> None) \<Longrightarrow> \<exists>e s'. add_inputs_of g nh (tx, c) s = (Inl e, s')"
proof -
  let ?h = "mp_hash tx"
  assume "\<forall>i \<in> set (vin c). in_entry g T (prev_txo i) \<noteq> None"
  from add_inputs_loop[OF assms this, of nh]
  show "\<exists>s'. add_inputs_of g nh (tx, c) s = (Inr (), s') \<and> add_post g T (X \<union> in_pairs ?h (vin c)) (in_shs g T (vin c)) s s'"
    by (auto simp: add_inputs_of_def)
next
  let ?h = "mp_hash tx"
  assume "\<not> (\<forall>i \<in> set (vin c). in_entry g T (prev_txo i) \<noteq> None)"
  then obtain ys y zs where split: "vin c = ys @ y # zs" "in_entry g T (prev_txo y) = None" "\<forall>i \<in> set ys. in_entry g T (prev_txo i) \<noteq> None"
    using split_list_first_prop[of "vin c" "\<lambda>i. in_entry g T (prev_txo i) = None"] by metis
  have d: "distinct (map prev_txo ys)" using assms(4) split(1) by simp
  obtain s1 n seen where s1: "efor (add_in g nh ?h) ys (s, 0, []) = (Inr (), s1, n, seen)" "mp_rel (view g T (X \<union> in_pairs ?h ys)) (as_m s1)"
    using add_inputs_loop[OF assms(1-3) d split(3), of nh] by (auto simp: add_post_def)
  have "(?h, prev_txo y) \<notin> X \<union> in_pairs ?h ys" using assms(3,4) split(1) by (auto simp: in_pairs_def)
  moreover have "finite {txo. (?h, txo) \<in> X \<union> in_pairs ?h ys}"
    by (rule finite_subset[of _ "prev_txo ` set ys"]) (use assms(3) in \<open>auto simp: in_pairs_def\<close>)
  ultimately obtain e st where "add_in g nh ?h y (s1, n, seen) = (Inl e, st)"
    using add_in_ok[OF s1(2) assms(2), of y nh n seen] split(2) by auto
  from efor_fail[OF s1(1) this, of zs] show "\<exists>e s'. add_inputs_of g nh (tx, c) s = (Inl e, s')"
    by (cases st) (simp add: add_inputs_of_def split(1))
qed

definition all_pairs :: "(Tx \<times> CTransaction) list \<Rightarrow> (bytes \<times> TXO) set" where
  "all_pairs ps = (\<Union>(tx, c) \<in> set ps. in_pairs (mp_hash tx) (vin c))"

definition all_shs :: "getter \<Rightarrow> (bytes \<rightharpoonup> CTransaction) \<Rightarrow> (Tx \<times> CTransaction) list \<Rightarrow> bytes set" where
  "all_shs g T ps = (\<Union>(tx, c) \<in> set ps. in_shs g T (vin c))"

definition inputs_resolve :: "getter \<Rightarrow> (bytes \<rightharpoonup> CTransaction) \<Rightarrow> CTransaction \<Rightarrow> bool" where
  "inputs_resolve g T c \<longleftrightarrow> (\<forall>i \<in> set (vin c). in_entry g T (prev_txo i) \<noteq> None)"

text \<open>What the loops need to know about the new transactions, their resolution aside.\<close>

definition inputs_pre :: "(bytes \<rightharpoonup> CTransaction) \<Rightarrow> (bytes \<times> TXO) set \<Rightarrow> (Tx \<times> CTransaction) list \<Rightarrow> bool" where
  "inputs_pre T X ps \<longleftrightarrow> distinct (map (mp_hash \<circ> fst) ps) \<and>
     (\<forall>(tx, c) \<in> set ps. T (mp_hash tx) = Some c \<and> (\<forall>txo. (mp_hash tx, txo) \<notin> X) \<and> distinct (map prev_txo (vin c)))"

lemma inputs_pre_next:
  assumes "inputs_pre T X (ys @ (tx, c) # zs)"
  shows "T (mp_hash tx) = Some c" "\<forall>txo. (mp_hash tx, txo) \<notin> X \<union> all_pairs ys" "distinct (map prev_txo (vin c))" "inputs_pre T X ys"
  using assms by (auto simp: inputs_pre_def all_pairs_def in_pairs_def image_iff)

lemma all_inputs_loop:
  assumes "mp_rel (view g T X) (as_m s)" "inputs_pre T X ps" "\<forall>(tx, c) \<in> set ps. inputs_resolve g T c"
  shows "\<exists>s'. efor (add_inputs_of g nh) ps s = (Inr (), s') \<and> add_post g T (X \<union> all_pairs ps) (all_shs g T ps) s s'"
proof (rule efor_inv)
  show "add_post g T (X \<union> all_pairs []) (all_shs g T []) s s" using assms(1) by (simp add: add_post_def all_pairs_def all_shs_def)
next
  fix ys y zs s1 assume split: "ps = ys @ y # zs" and I: "add_post g T (X \<union> all_pairs ys) (all_shs g T ys) s s1"
  obtain tx c where y: "y = (tx, c)" by (cases y)
  note pre = inputs_pre_next[OF assms(2)[unfolded split y]]
  have r: "\<forall>i \<in> set (vin c). in_entry g T (prev_txo i) \<noteq> None" using assms(3) by (auto simp: split y inputs_resolve_def)
  have m: "mp_rel (view g T (X \<union> all_pairs ys)) (as_m s1)" using I by (simp add: add_post_def)
  obtain s2 where s2: "add_inputs_of g nh (tx, c) s1 = (Inr (), s2)" "add_post g T (X \<union> all_pairs ys \<union> in_pairs (mp_hash tx) (vin c)) (in_shs g T (vin c)) s1 s2"
    using add_inputs_ok(1)[OF m pre(1-3) r] by blast
  have e: "all_pairs (ys @ [(tx, c)]) = all_pairs ys \<union> in_pairs (mp_hash tx) (vin c)" "all_shs g T (ys @ [(tx, c)]) = all_shs g T ys \<union> in_shs g T (vin c)"
    by (auto simp: all_pairs_def all_shs_def)
  show "\<exists>s2. add_inputs_of g nh y s1 = (Inr (), s2) \<and> add_post g T (X \<union> all_pairs (ys @ [y])) (all_shs g T (ys @ [y])) s s2"
    using s2 I by (auto simp: y e add_post_def Un_assoc)
qed

lemma all_inputs_fail:
  assumes "mp_rel (view g T X) (as_m s)" "inputs_pre T X ps" "(tx, c) \<in> set ps" "\<not> inputs_resolve g T c"
  shows "\<exists>e s'. efor (add_inputs_of g nh) ps s = (Inl e, s')"
proof -
  obtain ys y zs where split: "ps = ys @ y # zs" "\<not> inputs_resolve g T (snd y)" "\<forall>q \<in> set ys. inputs_resolve g T (snd q)"
    using split_list_first_prop[of ps "\<lambda>q. \<not> inputs_resolve g T (snd q)"] assms(3,4) by (metis snd_conv)
  obtain tx' c' where y: "y = (tx', c')" by (cases y)
  note pre = inputs_pre_next[OF assms(2)[unfolded split(1) y]]
  have r: "\<forall>(tx, c) \<in> set ys. inputs_resolve g T c" using split(3) by auto
  obtain s1 where s1: "efor (add_inputs_of g nh) ys s = (Inr (), s1)" "mp_rel (view g T (X \<union> all_pairs ys)) (as_m s1)"
    using all_inputs_loop[OF assms(1) pre(4) r, of nh] by (auto simp: add_post_def)
  have "\<not> (\<forall>i \<in> set (vin c'). in_entry g T (prev_txo i) \<noteq> None)" using split(2) by (simp add: y inputs_resolve_def)
  then obtain e s2 where "add_inputs_of g nh y s1 = (Inl e, s2)" using add_inputs_ok(2)[OF s1(2) pre(1-3)] unfolding y by blast
  from efor_fail[OF s1(1) this] show ?thesis unfolding split(1) by blast
qed

end
