(* ===== verification/Mempool_Dsp.thy ===== *)
theory Mempool_Dsp
  imports Mempool
begin

text \<open>
  The loop that hands double-spend proofs on from new parents to new children: it ends, and every proof then covers exactly the
  descendants of the transactions it covered before.
\<close>

declare map_of_eq_Some_iff [simp del]

text \<open>Which proof affects which transaction, and the primary transactions.\<close>

definition aff :: "DSPs \<Rightarrow> (DspHash \<times> bytes) set" where
  "aff d = {(q, t). \<exists>p D. dsps_abs d q = Some (p, D) \<and> t \<in> D}"

definition prims :: "DSPs \<Rightarrow> DspHash \<rightharpoonup> bytes" where
  "prims d q = map_option fst (dsps_abs d q)"

lemma aff_prims: "(q, t) \<in> aff d \<Longrightarrow> q \<in> dom (prims d)"
  by (auto simp: aff_def prims_def)

lemma finite_prims [simp]: "finite (dom (prims d))"
proof -
  have "dom (prims d) = dom (map_of (dsproofs d))" by (auto simp: prims_def dsps_abs_def dsps_get_def)
  then show ?thesis by (simp add: finite_dom_map_of)
qed

lemma aff_hashes: "dsps_inv d \<Longrightarrow> (case dspHashesForTx t d of None \<Rightarrow> {} | Some qs \<Rightarrow> set qs) = {q. (q, t) \<in> aff d}"
  using inv_links[of d t] by (simp add: links_def dspHashesForTx_def aff_def)

lemma addTx_aff:
  assumes "dsps_inv d" "q \<in> dom (prims d)" "length t = HashLen"
  shows "dsps_inv (snd (dsps_addTx q t d)) \<and> aff (snd (dsps_addTx q t d)) = insert (q, t) (aff d) \<and>
    prims (snd (dsps_addTx q t d)) = prims d \<and> (fst (dsps_addTx q t d) \<longleftrightarrow> (q, t) \<notin> aff d)"
proof -
  obtain p D where a: "dsps_abs d q = Some (p, D)" using assms(2) by (auto simp: prims_def)
  note ok = dsps_addTx_ok[OF assms(1) a assms(3)]
  show ?thesis using ok a by (auto simp: aff_def prims_def fun_eq_iff split: if_splits)
qed

section \<open>One pass\<close>

definition edges :: "(bytes \<times> bytes list) list \<Rightarrow> (bytes \<times> bytes) set" where
  "edges np = {(p, h). \<exists>ps. (h, ps) \<in> set np \<and> p \<in> set ps}"

text \<open>The state between two additions: proofs have only been handed on along the edges.\<close>

definition pass_inv :: "DSPs \<Rightarrow> bytes list \<Rightarrow> (bytes \<times> bytes) set \<Rightarrow> bool \<times> DSPs \<times> bytes list \<Rightarrow> bool" where
  "pass_inv d0 A0 E = (\<lambda>(any, d, A). dsps_inv d \<and> prims d = prims d0 \<and> aff d0 \<subseteq> aff d \<and> aff d \<subseteq> aff d0 O E\<^sup>* \<and>
     set A = set A0 \<union> snd ` (aff d - aff d0) \<and> (any \<longleftrightarrow> aff d \<noteq> aff d0))"

definition pass_link :: "bytes \<Rightarrow> DspHash \<Rightarrow> bool \<times> DSPs \<times> bytes list \<Rightarrow> bool \<times> DSPs \<times> bytes list" where
  "pass_link h dspHash = (\<lambda>(any, d, affected).
     case dsps_addTx dspHash h d of (ok, d) \<Rightarrow> (any \<or> ok, d, if ok then List.insert h affected else affected))"

definition pass_parent :: "bytes \<Rightarrow> bytes \<Rightarrow> bool \<times> DSPs \<times> bytes list \<Rightarrow> bool \<times> DSPs \<times> bytes list" where
  "pass_parent h prevTxId = (\<lambda>(any, d, affected).
     case dspHashesForTx prevTxId d of None \<Rightarrow> (any, d, affected) | Some dspHashes \<Rightarrow> fold (pass_link h) dspHashes (any, d, affected))"

lemma dsp_pass_eq: "dsp_pass np st = fold (\<lambda>(h, ps). fold (pass_parent h) ps) np (False, st)"
  unfolding dsp_pass_def pass_parent_def[abs_def] pass_link_def[abs_def] ..

abbreviation st_aff :: "bool \<times> DSPs \<times> bytes list \<Rightarrow> (DspHash \<times> bytes) set" where
  "st_aff st \<equiv> aff (fst (snd st))"

lemma pass_link_ok:
  assumes "pass_inv d0 A0 E st" "(q, p) \<in> st_aff st" "(p, h) \<in> E" "length h = HashLen"
  shows "pass_inv d0 A0 E (pass_link h q st) \<and> st_aff (pass_link h q st) = insert (q, h) (st_aff st)"
proof -
  obtain any d A where st: "st = (any, d, A)" by (cases st)
  note i = assms(1)[unfolded st pass_inv_def, simplified]
  obtain ok d' where a: "dsps_addTx q h d = (ok, d')" by fastforce
  have d': "dsps_inv d'" "aff d' = insert (q, h) (aff d)" "prims d' = prims d" "ok \<longleftrightarrow> (q, h) \<notin> aff d"
    using addTx_aff[of d q h] aff_prims[of q p d] i assms(2,4) by (simp_all add: a st)
  have "aff d \<subseteq> aff d0 O E\<^sup>*" "(q, p) \<in> aff d" using i assms(2) by (simp_all add: st)
  then obtain p0 where "(q, p0) \<in> aff d0" "(p0, p) \<in> E\<^sup>*" by blast
  then have "(q, h) \<in> aff d0 O E\<^sup>*" using assms(3) by (meson relcompI rtrancl_into_rtrancl)
  moreover have "insert (q, h) (aff d) - aff d0 = (if (q, h) \<in> aff d then aff d - aff d0 else insert (q, h) (aff d - aff d0))" using i by auto
  moreover have "(q, h) \<notin> aff d \<Longrightarrow> insert (q, h) (aff d) \<noteq> aff d0" using i by blast
  ultimately show ?thesis using i d' by (cases "(q, h) \<in> aff d") (simp_all add: pass_link_def st a pass_inv_def insert_absorb subset_insertI2)
qed

lemma pass_links_ok:
  assumes "pass_inv d0 A0 E st" "\<forall>q \<in> set qs. (q, p) \<in> st_aff st" "(p, h) \<in> E" "length h = HashLen"
  shows "pass_inv d0 A0 E (fold (pass_link h) qs st) \<and> st_aff (fold (pass_link h) qs st) = st_aff st \<union> (\<lambda>q. (q, h)) ` set qs"
  using assms
proof (induction qs arbitrary: st)
  case (Cons q qs)
  then have "pass_inv d0 A0 E (pass_link h q st)" "st_aff (pass_link h q st) = insert (q, h) (st_aff st)"
    using pass_link_ok[OF Cons.prems(1) _ Cons.prems(3,4), of q] by auto
  then show ?case using Cons.IH[of "pass_link h q st"] Cons.prems by auto
qed simp

lemma pass_parent_ok:
  assumes "pass_inv d0 A0 E st" "(p, h) \<in> E" "length h = HashLen"
  shows "pass_inv d0 A0 E (pass_parent h p st) \<and> st_aff st \<subseteq> st_aff (pass_parent h p st) \<and>
    (\<forall>q. (q, p) \<in> st_aff st \<longrightarrow> (q, h) \<in> st_aff (pass_parent h p st))"
proof -
  obtain any d A where st: "st = (any, d, A)" by (cases st)
  have inv: "dsps_inv d" using assms(1) by (simp add: st pass_inv_def)
  show ?thesis
  proof (cases "dspHashesForTx p d")
    case None
    then show ?thesis using assms(1) aff_hashes[OF inv, of p] by (auto simp: pass_parent_def st)
  next
    case (Some qs)
    then have "set qs = {q. (q, p) \<in> aff d}" using aff_hashes[OF inv, of p] by simp
    then show ?thesis using pass_links_ok[OF assms(1) _ assms(2,3), of qs] by (auto simp: pass_parent_def st Some)
  qed
qed

lemma pass_parents_ok:
  assumes "pass_inv d0 A0 E st" "\<forall>p \<in> set ps. (p, h) \<in> E" "length h = HashLen"
  shows "pass_inv d0 A0 E (fold (pass_parent h) ps st) \<and> st_aff st \<subseteq> st_aff (fold (pass_parent h) ps st) \<and>
    (\<forall>p \<in> set ps. \<forall>q. (q, p) \<in> st_aff st \<longrightarrow> (q, h) \<in> st_aff (fold (pass_parent h) ps st))"
  using assms
proof (induction ps arbitrary: st)
  case (Cons p ps)
  note a = pass_parent_ok[OF Cons.prems(1) _ Cons.prems(3), of p]
  have "pass_inv d0 A0 E (pass_parent h p st)" using a Cons.prems(2) by simp
  note b = Cons.IH[OF this _ Cons.prems(3)]
  show ?case using a b Cons.prems(2) by (auto 4 3)
qed simp

lemma pass_all_ok:
  assumes "pass_inv d0 A0 E st" "edges np \<subseteq> E" "\<forall>(h, ps) \<in> set np. length h = HashLen"
  shows "pass_inv d0 A0 E (fold (\<lambda>(h, ps). fold (pass_parent h) ps) np st) \<and>
    st_aff st \<subseteq> st_aff (fold (\<lambda>(h, ps). fold (pass_parent h) ps) np st) \<and>
    st_aff st O edges np \<subseteq> st_aff (fold (\<lambda>(h, ps). fold (pass_parent h) ps) np st)"
  using assms
proof (induction np arbitrary: st)
  case (Cons x np)
  obtain h ps where x: "x = (h, ps)" by (cases x)
  have e: "edges ((h, ps) # np) = (\<lambda>p. (p, h)) ` set ps \<union> edges np" by (auto simp: edges_def)
  have "\<forall>p \<in> set ps. (p, h) \<in> E" "length h = HashLen" using Cons.prems(2,3) by (auto simp: x e)
  note a = pass_parents_ok[OF Cons.prems(1) this]
  have "edges np \<subseteq> E" "\<forall>(h, ps) \<in> set np. length h = HashLen" using Cons.prems(2,3) by (auto simp: x e)
  note b = Cons.IH[OF conjunct1[OF a] this]
  let ?st1 = "fold (pass_parent h) ps st" and ?st2 = "fold (\<lambda>(h, ps). fold (pass_parent h) ps) np (fold (pass_parent h) ps st)"
  have sub: "st_aff st \<subseteq> st_aff ?st1" "st_aff ?st1 \<subseteq> st_aff ?st2" using a b by blast+
  have "st_aff st O (\<lambda>p. (p, h)) ` set ps \<subseteq> st_aff ?st1" using a by blast
  moreover have "st_aff st O edges np \<subseteq> st_aff ?st2" using b relcomp_mono[OF sub(1) subset_refl, of "edges np"] by blast
  ultimately have "st_aff st O edges ((h, ps) # np) \<subseteq> st_aff ?st2" unfolding e using sub(2) by blast
  then show ?case using b sub by (simp add: x)
qed (simp add: edges_def)

lemma dsp_pass_ok:
  assumes "dsps_inv d" "\<forall>(h, ps) \<in> set np. length h = HashLen" "dsp_pass np (d, A) = (added, d', A')"
  shows "pass_inv d A (edges np) (added, d', A')" "aff d O edges np \<subseteq> aff d'"
proof -
  have i: "pass_inv d A (edges np) (False, d, A)" using assms(1) by (auto simp: pass_inv_def)
  from pass_all_ok[OF i subset_refl assms(2)] assms(3)
  show "pass_inv d A (edges np) (added, d', A')" "aff d O edges np \<subseteq> aff d'" by (simp_all add: dsp_pass_eq)
qed

section \<open>The loop ends\<close>

lemma finite_aff: "finite (aff d)"
proof -
  have "aff d = (\<Union>q \<in> dom (prims d). Pair q ` (case dsps_abs d q of None \<Rightarrow> {} | Some (p, D) \<Rightarrow> D))"
    by (force simp: aff_def prims_def)
  moreover have "finite (case dsps_abs d q of None \<Rightarrow> {} | Some (p, D) \<Rightarrow> D)" for q
    by (auto simp: dsps_abs_def split: option.split)
  ultimately show ?thesis by simp
qed

lemma edges_range: "aff d O (edges np)\<^sup>* \<subseteq> dom (prims d) \<times> (Range (aff d) \<union> set (keys np))"
proof
  fix x assume "x \<in> aff d O (edges np)\<^sup>*"
  then obtain q t0 t where x: "x = (q, t)" "(q, t0) \<in> aff d" "(t0, t) \<in> (edges np)\<^sup>*" by auto
  from x(3) have "t \<in> Range (aff d) \<union> set (keys np)"
  proof cases
    case base
    then show ?thesis using x(2) by auto
  next
    case (step y)
    then show ?thesis by (force simp: edges_def)
  qed
  then show "x \<in> dom (prims d) \<times> (Range (aff d) \<union> set (keys np))" using aff_prims[OF x(2)] x(1) by simp
qed

lemma dsp_loop_ok:
  assumes "dsps_inv d" "\<forall>(h, ps) \<in> set np. length h = HashLen"
  shows "\<exists>d' A'. dsp_loop np (d, A) = Some (d', A') \<and> dsps_inv d' \<and> prims d' = prims d \<and> aff d' = aff d O (edges np)\<^sup>* \<and>
    set A' = set A \<union> snd ` (aff d' - aff d)"
  using assms(1)
proof (induction "card (dom (prims d) \<times> (Range (aff d) \<union> set (keys np)) - aff d)" arbitrary: d A rule: less_induct)
  case less
  let ?E = "edges np" and ?B = "\<lambda>d. dom (prims d) \<times> (Range (aff d) \<union> set (keys np))"
  obtain added d1 A1 where p: "dsp_pass np (d, A) = (added, d1, A1)" by (cases "dsp_pass np (d, A)")
  note ok = dsp_pass_ok[OF less.prems assms(2) p]
  note i = ok(1)[unfolded pass_inv_def, simplified]
  show ?case
  proof (cases added)
    case False
    then have a: "aff d1 = aff d" "aff d O ?E \<subseteq> aff d" using i ok(2) by auto
    have "(q, t') \<in> aff d" if "(q, t) \<in> aff d" "(t, t') \<in> ?E\<^sup>*" for q t t' using that(2,1) by induction (use a(2) in blast)+
    then have "aff d1 = aff d O ?E\<^sup>*" unfolding a(1) by auto
    then show ?thesis using False i a(1) by (auto simp: p dsp_loop.simps)
  next
    case True
    have sub: "aff d \<subset> aff d1" "aff d1 \<subseteq> ?B d" using i True edges_range[of d np] by auto
    then have B: "?B d1 \<subseteq> ?B d" using i by auto
    have "?B d1 - aff d1 \<subset> ?B d - aff d" using B sub by blast
    moreover have "finite (?B d - aff d)" using finite_aff[of d] by (simp add: Range_snd)
    ultimately have "card (?B d1 - aff d1) < card (?B d - aff d)" by (rule psubset_card_mono[rotated])
    from less.hyps[OF this, of A1] i obtain d' A' where d': "dsp_loop np (d1, A1) = Some (d', A')" "dsps_inv d'" "prims d' = prims d1"
        "aff d' = aff d1 O ?E\<^sup>*" "set A' = set A1 \<union> snd ` (aff d' - aff d1)" by auto
    have "aff d1 O ?E\<^sup>* \<subseteq> aff d O ?E\<^sup>* O ?E\<^sup>*" using i by (metis O_assoc order_refl relcomp_mono)
    then have "aff d' = aff d O ?E\<^sup>*" using d'(4) i by (simp add: relcomp_mono order_antisym)
    moreover have "aff d1 \<subseteq> aff d'" using d'(4) by auto
    then have "set A' = set A \<union> snd ` (aff d' - aff d)" using d'(5) i by auto
    ultimately show ?thesis using d' i True by (auto simp: p dsp_loop.simps)
  qed
qed

end
