(* ===== verification/Mempool_Add_Dsp.thy ===== *)
theory Mempool_Add_Dsp
  imports Mempool_Add Mempool_Dsp
begin

text \<open>
  Double-spend proofs while transactions are added: a new child of an old transaction takes over its proofs at once, a new child
  of a new one is noted for the loop at the end.
\<close>

declare map_of_eq_Some_iff [simp del]

lemma link_dsps:
  assumes "dsps_inv d" "\<forall>q \<in> set qs. q \<in> dom (prims d)" "length h = HashLen" "fold (link_dsp h) qs (d, A) = (d', A')"
  shows "dsps_inv d' \<and> prims d' = prims d \<and> aff d' = aff d \<union> (\<lambda>q. (q, h)) ` set qs \<and> set A' = set A \<union> snd ` (aff d' - aff d)"
  using assms
proof (induction qs arbitrary: d A)
  case (Cons q qs)
  obtain ok d1 where a: "dsps_addTx q h d = (ok, d1)" by fastforce
  have d1: "dsps_inv d1" "aff d1 = insert (q, h) (aff d)" "prims d1 = prims d" "ok \<longleftrightarrow> (q, h) \<notin> aff d"
    using addTx_aff[of d q h] Cons.prems(1-3) by (simp_all add: a)
  have "dsps_inv d' \<and> prims d' = prims d1 \<and> aff d' = aff d1 \<union> (\<lambda>q. (q, h)) ` set qs \<and>
      set A' = set (if ok then List.insert h A else A) \<union> snd ` (aff d' - aff d1)"
    using Cons.prems d1 by (intro Cons.IH) (simp_all add: link_dsp_def a)
  moreover from this have "aff d' - aff d = (aff d' - aff d1) \<union> (if ok then {(q, h)} else {})" using d1 by auto
  ultimately show ?case using d1 by auto
qed simp

text \<open>The proofs and the notes after the spends \<open>P\<close> of new transactions, from the state \<open>d0\<close>; \<open>N\<close> are the new hashes.\<close>

definition old_links :: "(bytes \<rightharpoonup> CTransaction) \<Rightarrow> bytes set \<Rightarrow> (bytes \<times> TXO) set \<Rightarrow> (bytes \<times> bytes) set" where
  "old_links T N P = {(p, h). p \<in> dom T - N \<and> (\<exists>n. (h, TXO p n) \<in> P)}"

definition new_links :: "bytes set \<Rightarrow> (bytes \<times> TXO) set \<Rightarrow> (bytes \<times> bytes) set" where
  "new_links N P = {(p, h). p \<in> N \<and> (\<exists>n. (h, TXO p n) \<in> P)}"

definition dsp_inv :: "(bytes \<rightharpoonup> CTransaction) \<Rightarrow> bytes set \<Rightarrow> DSPs \<Rightarrow> (bytes \<times> TXO) set \<Rightarrow> AddState \<Rightarrow> bool" where
  "dsp_inv T N d0 P s \<longleftrightarrow> distinct (keys (newTxsNewParents s)) \<and> dsps_inv (dsps (as_m s)) \<and> prims (dsps (as_m s)) = prims d0 \<and>
     aff (dsps (as_m s)) = aff d0 \<union> aff d0 O old_links T N P \<and>
     (prims d0 \<noteq> Map.empty \<longrightarrow> edges (newTxsNewParents s) = new_links N P) \<and> set (keys (newTxsNewParents s)) \<subseteq> fst ` P \<and>
     set (dspTxsAffected s) = snd ` (aff (dsps (as_m s)) - aff d0)"

lemma dsps_empty_prims: "dsps_empty d \<longleftrightarrow> prims d = Map.empty"
proof -
  have "dom (prims d) = set (keys (dsproofs d))" unfolding set_keys by (auto simp: prims_def dsps_abs_def dsps_get_def)
  then show ?thesis by (simp add: dsps_empty_def flip: dom_eq_empty_conv)
qed

lemma aff_empty: "prims d = Map.empty \<Longrightarrow> aff d = {}"
  using aff_prims[of _ _ d] by auto

lemma old_links_insert:
  "old_links T N (insert (h, TXO p n) P) = (if p \<in> dom T - N then insert (p, h) (old_links T N P) else old_links T N P)"
  "new_links N (insert (h, TXO p n) P) = (if p \<in> N then insert (p, h) (new_links N P) else new_links N P)"
  by (auto simp: old_links_def new_links_def)

lemma edges_at: "distinct (keys np) \<Longrightarrow> edges (map_at [] h (List.insert p) np) = insert (p, h) (edges np)"
proof -
  assume d: "distinct (keys np)"
  have e: "edges m = {(p, h). \<exists>ps. map_of m h = Some ps \<and> p \<in> set ps}" if "distinct (keys m)" for m :: "(bytes \<times> bytes list) list"
    using that by (auto simp: edges_def map_of_eq_Some_iff)
  show ?thesis using d by (cases "map_of np h") (auto simp: e split: if_splits)
qed

lemma keys_at: "set (keys (map_at d h f m)) = insert h (set (keys m))"
  unfolding set_keys by simp

text \<open>A child of an old transaction takes over its proofs.\<close>

lemma add_dsps_old:
  assumes "dsp_inv T N d0 P s" "fst ` P \<subseteq> N" "p \<in> dom T - N" "length h = HashLen"
    and "fold (link_dsp h) (case dspHashesForTx p (dsps (as_m s)) of None \<Rightarrow> [] | Some qs \<Rightarrow> qs) (dsps (as_m s), dspTxsAffected s) = (d', A')"
  shows "dsp_inv T N d0 (insert (h, TXO p n) P) (s\<lparr>as_m := (as_m s)\<lparr>dsps := d'\<rparr>, dspTxsAffected := A'\<rparr>)"
proof -
  let ?d = "dsps (as_m s)" and ?qs = "case dspHashesForTx p (dsps (as_m s)) of None \<Rightarrow> [] | Some qs \<Rightarrow> qs"
  note i = assms(1)[unfolded dsp_inv_def]
  have "(q, p) \<in> aff ?d \<longleftrightarrow> (q, p) \<in> aff d0" for q using i assms(2,3) by (force simp: old_links_def)
  then have qs: "set ?qs = {q. (q, p) \<in> aff d0}" using aff_hashes[of ?d p] i by (auto split: option.splits)
  then have q: "\<forall>q \<in> set ?qs. q \<in> dom (prims ?d)" using i aff_prims[of _ p d0] by auto
  have inv: "dsps_inv ?d" using i by simp
  from link_dsps[OF inv q assms(4,5)] have l: "dsps_inv d'" "prims d' = prims ?d" "aff d' = aff ?d \<union> (\<lambda>q. (q, h)) ` set ?qs" "set A' = set (dspTxsAffected s) \<union> snd ` (aff d' - aff ?d)"
    by simp_all
  have o: "old_links T N (insert (h, TXO p n) P) = insert (p, h) (old_links T N P)" "new_links N (insert (h, TXO p n) P) = new_links N P"
    using assms(3) by (simp_all add: old_links_insert)
  have a: "aff d' = aff d0 \<union> aff d0 O insert (p, h) (old_links T N P)" using l(3) i by (auto simp: qs)
  have "aff d' - aff d0 = (aff d' - aff ?d) \<union> (aff ?d - aff d0)" using l(3) i by blast
  then have A: "set A' = snd ` (aff d' - aff d0)" using l(4) i by (simp add: image_Un Un_commute)
  have "set (keys (newTxsNewParents s)) \<subseteq> fst ` insert (h, TXO p n) P" using i by blast
  then show ?thesis using i l(1,2) a A unfolding dsp_inv_def o by simp
qed

text \<open>One input that spends an output of the mempool. \<open>seen\<close> holds the parents met so far.\<close>

lemma add_dsps_ok:
  assumes "dsp_inv T N d0 P s" "fst ` P \<subseteq> N" "p \<in> dom T" "length h = HashLen" "N \<subseteq> dom T"
    and "prims d0 \<noteq> Map.empty \<longrightarrow> set seen = {p \<in> dom T. \<exists>n. (h, TXO p n) \<in> P}"
    and "set nh = N" "add_dsps nh h p seen s = (s', seen')"
  shows "dsp_inv T N d0 (insert (h, TXO p n) P) s' \<and> (prims d0 \<noteq> Map.empty \<longrightarrow> set seen' = {q \<in> dom T. \<exists>k. (h, TXO q k) \<in> insert (h, TXO p n) P})"
proof -
  let ?d = "dsps (as_m s)"
  note i = assms(1)[unfolded dsp_inv_def]
  have e: "dsps_empty ?d \<longleftrightarrow> prims d0 = Map.empty" using i by (simp add: dsps_empty_prims)
  have keys: "set (keys (newTxsNewParents s)) \<subseteq> fst ` insert (h, TXO p n) P" "distinct (keys (newTxsNewParents s))" using i by blast+
  consider (empty) "prims d0 = Map.empty" | (seen) "prims d0 \<noteq> Map.empty" "p \<in> set seen"
    | (new) "prims d0 \<noteq> Map.empty" "p \<notin> set seen" "p \<in> N" | (old) "prims d0 \<noteq> Map.empty" "p \<notin> set seen" "p \<notin> N" by blast
  then show ?thesis
  proof cases
    case empty
    then have "s' = s" using assms(8) e by (simp add: add_dsps_def)
    then show ?thesis using i empty aff_empty[OF empty] keys unfolding dsp_inv_def by simp
  next
    case seen
    then have o: "old_links T N (insert (h, TXO p n) P) = old_links T N P" "new_links N (insert (h, TXO p n) P) = new_links N P"
      using assms(6) by (auto simp: old_links_def new_links_def)
    have "s' = s" "seen' = seen" using assms(8) seen by (simp_all add: add_dsps_def)
    then show ?thesis using i keys seen assms(3,6) unfolding dsp_inv_def o by auto
  next
    case new
    then have s': "s' = s\<lparr>newTxsNewParents := map_at [] h (List.insert p) (newTxsNewParents s)\<rparr>" "seen' = List.insert p seen"
      using assms(7,8) e by (auto simp: add_dsps_def)
    have "set (keys (map_at [] h (List.insert p) (newTxsNewParents s))) \<subseteq> fst ` insert (h, TXO p n) P" using keys(1) unfolding keys_at by simp
    then have "dsp_inv T N d0 (insert (h, TXO p n) P) s'"
      using i new unfolding dsp_inv_def s' by (simp add: edges_at[OF keys(2)] old_links_insert)
    then show ?thesis using new assms(3,6) by (auto simp: s'(2))
  next
    case old
    obtain d' A' where f: "fold (link_dsp h) (case dspHashesForTx p ?d of None \<Rightarrow> [] | Some qs \<Rightarrow> qs) (?d, dspTxsAffected s) = (d', A')" by fastforce
    have s': "s' = s\<lparr>as_m := (as_m s)\<lparr>dsps := d'\<rparr>, dspTxsAffected := A'\<rparr>" "seen' = List.insert p seen"
      using assms(7,8) old e f by (auto simp: add_dsps_def split: option.splits)
    show ?thesis using add_dsps_old[OF assms(1,2) _ assms(4) f] old assms(3,6) by (auto simp: s')
  qed
qed

section \<open>Through the loops\<close>

text \<open>A loop that ran to its end kept what each successful round keeps.\<close>

lemma efor_steps:
  assumes "efor body xs s = (Inr (), s')" "I [] s"
    and "\<And>ys y zs s s'. xs = ys @ y # zs \<Longrightarrow> I ys s \<Longrightarrow> body y s = (Inr (), s') \<Longrightarrow> I (ys @ [y]) s'"
  shows "I xs s'"
proof -
  have "I ys s1" if "xs = ys @ zs" "efor body ys s = (Inr (), s1)" for ys zs s1
    using that
  proof (induction ys arbitrary: zs s1 rule: rev_induct)
    case Nil
    then show ?case using assms(2) by (simp add: ereturn_def)
  next
    case (snoc y ys)
    from snoc.prems(2) obtain s0 where "efor body ys s = (Inr (), s0)" "body y s0 = (Inr (), s1)"
      by (auto simp: efor_append ebind_def ereturn_def split: prod.splits sum.splits)
    then show ?case using snoc.IH[of "y # zs" s0] snoc.prems(1) assms(3)[of ys y zs s0 s1] by simp
  qed
  then show ?thesis using assms(1) by simp
qed

text \<open>The steps that touch neither the proofs nor the set of transactions.\<close>

definition tx_hashes :: "(bytes \<times> Tx) list \<Rightarrow> bytes set" where "tx_hashes t = dom (map_of t)"

lemma tx_hashes_adjust [simp]: "tx_hashes (map_adjust k f t) = tx_hashes t"
  by (auto simp: tx_hashes_def dom_def)

lemma spend_keeps:
  "spend_unconfirmed h txo prevTx m = (r, m') \<Longrightarrow> dsps m' = dsps m \<and> tx_hashes (txs m') = tx_hashes (txs m)"
  "spend_confirmed g h txo m = (r', m') \<Longrightarrow> dsps m' = dsps m \<and> tx_hashes (txs m') = tx_hashes (txs m)"
  by (auto simp: spend_unconfirmed_def spend_confirmed_def linkChild_def Let_def simp del: map_of_adjust split: if_splits option.splits sum.splits)

lemma mark_input_keeps:
  "mark_input h n i info s = (r, s') \<Longrightarrow> dsps (as_m s') = dsps (as_m s) \<and> newTxsNewParents s' = newTxsNewParents s \<and>
     dspTxsAffected s' = dspTxsAffected s \<and> tx_hashes (txs (as_m s')) = tx_hashes (txs (as_m s))"
  by (auto simp: mark_input_def touch_def add_rpa_def Let_def input_prefix_of(1) simp del: map_of_adjust split: option.splits if_splits)

lemma dsp_inv_cong:
  "dsps (as_m s') = dsps (as_m s) \<Longrightarrow> newTxsNewParents s' = newTxsNewParents s \<Longrightarrow> dspTxsAffected s' = dspTxsAffected s \<Longrightarrow>
   dsp_inv T N d0 P s' = dsp_inv T N d0 P s"
  by (simp add: dsp_inv_def)

lemma dsp_inv_confirmed: "dsp_inv T N d0 P s \<Longrightarrow> txHash txo \<notin> dom T \<Longrightarrow> N \<subseteq> dom T \<Longrightarrow> dsp_inv T N d0 (insert (h, txo) P) s"
  by (cases txo) (auto simp: dsp_inv_def old_links_insert)

definition seen_inv :: "(bytes \<rightharpoonup> CTransaction) \<Rightarrow> DSPs \<Rightarrow> (bytes \<times> TXO) set \<Rightarrow> bytes \<Rightarrow> bytes list \<Rightarrow> bool" where
  "seen_inv T d0 P h seen \<longleftrightarrow> (prims d0 \<noteq> Map.empty \<longrightarrow> set seen = {p \<in> dom T. \<exists>n. (h, TXO p n) \<in> P})"

lemma find_prev_dsps:
  assumes "dsp_inv T N d0 P s" "fst ` P \<subseteq> N" "length h = HashLen" "N \<subseteq> dom T" "seen_inv T d0 P h seen" "set nh = N"
    and "tx_hashes (txs (as_m s)) = dom T" "find_prev g nh h txo seen s = (Inr info, s', seen')"
  shows "dsp_inv T N d0 (insert (h, txo) P) s' \<and> seen_inv T d0 (insert (h, txo) P) h seen' \<and> tx_hashes (txs (as_m s')) = dom T"
proof (cases "map_of (txs (as_m s)) (txHash txo)")
  case (Some prevTx)
  obtain p n where txo: "txo = TXO p n" by (cases txo)
  have p: "p \<in> dom T" using Some assms(7) by (auto simp: txo tx_hashes_def)
  obtain m where m: "spend_unconfirmed h txo prevTx (as_m s) = (Inr info, m)" "add_dsps nh h p seen (s\<lparr>as_m := m\<rparr>) = (s', seen')"
    using assms(8) Some by (auto simp: find_prev_def txo split: prod.splits sum.splits)
  note k = spend_keeps(1)[OF m(1)]
  have "dsp_inv T N d0 P (s\<lparr>as_m := m\<rparr>)" using assms(1) k by (subst dsp_inv_cong[of _ s]) simp_all
  note d = add_dsps_ok[OF this assms(2) p assms(3,4) assms(5)[unfolded seen_inv_def] assms(6) m(2), of n]
  have "txs (as_m s') = txs m" using arg_cong[OF conjunct1[OF add_dsps_keeps[OF m(2)]], of txs] by simp
  then show ?thesis using d k assms(7) unfolding seen_inv_def txo by simp
next
  case None
  then have p: "txHash txo \<notin> dom T" using assms(7) by (auto simp: tx_hashes_def)
  obtain m where m: "spend_confirmed g h txo (as_m s) = (Inr info, m)" "s' = s\<lparr>as_m := m\<rparr>" "seen' = seen"
    using assms(8) None by (auto simp: find_prev_def split: prod.splits)
  note k = spend_keeps(2)[OF m(1)]
  have "dsp_inv T N d0 P s'" using assms(1) k by (subst dsp_inv_cong[of _ s]) (simp_all add: m)
  then show ?thesis using dsp_inv_confirmed[OF _ p assms(4)] assms(5,7) k p by (cases txo) (auto simp: m seen_inv_def)
qed

lemma add_in_dsps:
  assumes "dsp_inv T N d0 P s" "fst ` P \<subseteq> N" "length h = HashLen" "N \<subseteq> dom T" "seen_inv T d0 P h seen" "set nh = N"
    and "tx_hashes (txs (as_m s)) = dom T" "add_in g nh h i (s, n, seen) = (Inr (), s', n', seen')"
  shows "dsp_inv T N d0 (insert (h, prev_txo i) P) s' \<and> seen_inv T d0 (insert (h, prev_txo i) P) h seen' \<and> tx_hashes (txs (as_m s')) = dom T"
proof -
  obtain info s1 where f: "find_prev g nh h (prev_txo i) seen s = (Inr info, s1, seen')" and m: "mark_input h n i info s1 = (Inr (), s')"
    using assms(8) by (auto simp: add_in_def split: prod.splits sum.splits)
  note k = mark_input_keeps[OF m]
  show ?thesis using find_prev_dsps[OF assms(1-7) f] k dsp_inv_cong[of s' s1 T N d0 "insert (h, prev_txo i) P"] by simp
qed

lemma add_inputs_dsps:
  assumes "dsp_inv T N d0 P s" "fst ` P \<subseteq> N" "mp_hash tx \<in> N" "length (mp_hash tx) = HashLen" "N \<subseteq> dom T" "set nh = N"
    and "tx_hashes (txs (as_m s)) = dom T" "\<forall>txo. (mp_hash tx, txo) \<notin> P" "add_inputs_of g nh (tx, c) s = (Inr (), s')"
  shows "dsp_inv T N d0 (P \<union> in_pairs (mp_hash tx) (vin c)) s' \<and> tx_hashes (txs (as_m s')) = dom T"
proof -
  let ?h = "mp_hash tx"
  let ?I = "\<lambda>ys (s', n :: nat, seen). dsp_inv T N d0 (P \<union> in_pairs ?h ys) s' \<and> seen_inv T d0 (P \<union> in_pairs ?h ys) ?h seen \<and> tx_hashes (txs (as_m s')) = dom T"
  obtain n seen where e: "efor (add_in g nh ?h) (vin c) (s, 0, []) = (Inr (), s', n, seen)" using assms(9) by (auto simp: add_inputs_of_def split: prod.splits)
  have "?I (vin c) (s', n, seen)"
  proof (rule efor_steps[OF e])
    show "?I [] (s, 0, [])" using assms(1,7,8) by (simp add: in_pairs_def seen_inv_def)
  next
    fix ys y zs st st' assume I: "?I ys st" and y: "add_in g nh ?h y st = (Inr (), st')"
    obtain s1 n1 seen1 s2 n2 seen2 where st: "st = (s1, n1, seen1)" "st' = (s2, n2, seen2)" by (metis surj_pair)
    have e: "insert (?h, prev_txo y) (P \<union> in_pairs ?h ys) = P \<union> in_pairs ?h (ys @ [y])" by (auto simp: in_pairs_def)
    have sub: "fst ` (P \<union> in_pairs ?h ys) \<subseteq> N" using assms(2,3) by (auto simp: in_pairs_def)
    have I': "dsp_inv T N d0 (P \<union> in_pairs ?h ys) s1" "seen_inv T d0 (P \<union> in_pairs ?h ys) ?h seen1" "tx_hashes (txs (as_m s1)) = dom T"
      using I by (simp_all add: st)
    from add_in_dsps[OF I'(1) sub assms(4,5) I'(2) assms(6) I'(3) y[unfolded st]] show "?I (ys @ [y]) st'" by (simp add: e st)
  qed
  then show ?thesis by simp
qed

lemma all_inputs_dsps:
  assumes "dsp_inv T N d0 {} s" "N = mp_hash ` fst ` set ps" "\<forall>(tx, c) \<in> set ps. length (mp_hash tx) = HashLen" "N \<subseteq> dom T" "set nh = N"
    and "tx_hashes (txs (as_m s)) = dom T" "distinct (map (mp_hash \<circ> fst) ps)" "efor (add_inputs_of g nh) ps s = (Inr (), s')"
  shows "dsp_inv T N d0 (all_pairs ps) s'"
proof -
  have "dsp_inv T N d0 (all_pairs ps) s' \<and> tx_hashes (txs (as_m s')) = dom T"
  proof (rule efor_steps[OF assms(8)])
    show "dsp_inv T N d0 (all_pairs []) s \<and> tx_hashes (txs (as_m s)) = dom T" using assms(1,6) by (simp add: all_pairs_def)
  next
    fix ys y zs s1 s2 assume split: "ps = ys @ y # zs" and I: "dsp_inv T N d0 (all_pairs ys) s1 \<and> tx_hashes (txs (as_m s1)) = dom T"
      and y: "add_inputs_of g nh y s1 = (Inr (), s2)"
    obtain tx c where yt: "y = (tx, c)" by (cases y)
    have e: "all_pairs (ys @ [(tx, c)]) = all_pairs ys \<union> in_pairs (mp_hash tx) (vin c)" by (auto simp: all_pairs_def)
    have a: "fst ` all_pairs ys \<subseteq> mp_hash ` fst ` set ys" by (force simp: all_pairs_def in_pairs_def)
    have b: "mp_hash tx \<notin> mp_hash ` fst ` set ys" "mp_hash ` fst ` set ys \<subseteq> N" using assms(2,7) by (auto simp: split yt)
    have "fst ` all_pairs ys \<subseteq> N" using a b(2) by (rule order_trans)
    moreover have "\<forall>txo. (mp_hash tx, txo) \<notin> all_pairs ys" using a b(1) by (metis fst_conv image_eqI subsetD)
    ultimately show "dsp_inv T N d0 (all_pairs (ys @ [y])) s2 \<and> tx_hashes (txs (as_m s2)) = dom T"
      using add_inputs_dsps[of T N d0 "all_pairs ys" s1 tx nh g c s2] I y assms(2-6) by (simp add: split yt e)
  qed
  then show ?thesis by simp
qed

end
