(* ===== verification/Mempool_Added.thy ===== *)
theory Mempool_Added
  imports Mempool_Add_Dsp
begin

text \<open>
  \<open>addNewTxs\<close> as a whole: what the mempool represents afterwards, and the error when an input cannot be resolved.
\<close>

declare map_of_eq_Some_iff [simp del]

text \<open>The state between two operations. The transactions that a proof covers are closed under spending.\<close>

definition mempool_inv :: "getter \<Rightarrow> (bytes \<rightharpoonup> CTransaction) \<Rightarrow> Mempool \<Rightarrow> bool" where
  "mempool_inv g T m \<longleftrightarrow> mempool_repr g T m \<and> mempool_ok g T \<and> dsps_inv (dsps m) \<and>
     Range (aff (dsps m)) \<subseteq> dom T \<and> aff (dsps m) O v_L (view_of g T) \<subseteq> aff (dsps m)"

definition new_txs_ok :: "getter \<Rightarrow> (bytes \<rightharpoonup> CTransaction) \<Rightarrow> (Tx \<times> CTransaction) list \<Rightarrow> bool" where
  "new_txs_ok g T txsNew \<longleftrightarrow> fresh_txs g T txsNew \<and>
     (\<forall>(tx, c) \<in> set txsNew. distinct (map prev_txo (vin c)) \<and> length (vout c) \<le> 2 ^ 32 \<and> length (mp_hash tx) = HashLen)"

section \<open>The new set of transactions\<close>

lemma new_txs_in: "distinct (map (mp_hash \<circ> fst) ps) \<Longrightarrow> (tx, c) \<in> set ps \<Longrightarrow> new_txs ps (mp_hash tx) = Some c"
  by (force simp: new_txs_def comp_def case_prod_beta intro!: map_of_is_SomeI)

lemma new_txs_Some: "new_txs ps h = Some c \<Longrightarrow> \<exists>tx. (tx, c) \<in> set ps \<and> mp_hash tx = h"
  by (auto simp: new_txs_def dest!: map_of_SomeD)

lemma dom_new_txs: "dom (new_txs ps) = mp_hash ` fst ` set ps"
  by (auto simp: new_txs_def dom_map_of_conv_image_fst image_image case_prod_beta)

lemma new_txs_okD:
  assumes "new_txs_ok g T ps" "(tx, c) \<in> set ps"
  shows "T (mp_hash tx) = None" "\<forall>n. g (TXO (mp_hash tx) n) = Inr None" "distinct (map prev_txo (vin c))" "length (vout c) \<le> 2 ^ 32"
    "length (mp_hash tx) = HashLen" "(T ++ new_txs ps) (mp_hash tx) = Some c"
  using assms new_txs_in[of ps tx c] by (auto simp: new_txs_ok_def fresh_txs_def)

lemma new_txs_split:
  assumes "new_txs_ok g T ps"
  shows "(T ++ new_txs ps) h = Some c \<longleftrightarrow> T h = Some c \<or> (\<exists>tx. (tx, c) \<in> set ps \<and> mp_hash tx = h)"
  using new_txs_Some[of ps h] new_txs_okD(1,6)[OF assms] by (cases "new_txs ps h") (fastforce simp: map_add_def)+

lemma spends_add: "new_txs_ok g T ps \<Longrightarrow> spends (T ++ new_txs ps) = spends T \<union> all_pairs ps"
  unfolding spends_def all_pairs_def in_pairs_def new_txs_split by (fastforce simp: image_iff)

lemma spends_old:
  assumes "mempool_ok g T" "new_txs_ok g T ps" "(tx, c) \<in> set ps" "(k, txo) \<in> spends T"
  shows "k \<noteq> mp_hash tx \<and> txHash txo \<noteq> mp_hash tx"
  using spends_fresh[OF assms(1) new_txs_okD(1,2)[OF assms(2,3)] assms(4)] .

lemma inputs_pre_new:
  assumes "mempool_ok g T" "new_txs_ok g T ps"
  shows "inputs_pre (T ++ new_txs ps) (spends T) ps"
proof -
  have "(T ++ new_txs ps) (mp_hash tx) = Some c \<and> (\<forall>txo. (mp_hash tx, txo) \<notin> spends T) \<and> distinct (map prev_txo (vin c))"
    if "(tx, c) \<in> set ps" for tx c using new_txs_okD(3,6)[OF assms(2) that] spends_old[OF assms that] by blast
  then show ?thesis using assms(2) by (auto simp: inputs_pre_def new_txs_ok_def fresh_txs_def)
qed

lemma outputs_added:
  assumes "mempool_ok g T" "new_txs_ok g T ps" "mp_rel (view_of g T) m" "fold add_tx_outputs ps (m, A) = (m', A')"
  shows "mp_rel (view g (T ++ new_txs ps) (spends T)) m' \<and> dsps m' = dsps m \<and> optPrefixTable m' = optPrefixTable m \<and>
    set A' = set A \<union> (\<Union>(tx, c) \<in> set ps. out_shs (vout c)) \<and>
    (\<forall>sh. sh \<notin> set A' \<longrightarrow> map_of (hashXTxs m') sh = map_of (hashXTxs m) sh)"
proof -
  have d: "distinct (map (mp_hash \<circ> fst) ps)" using assms(2) by (simp add: new_txs_ok_def fresh_txs_def)
  have "\<forall>(tx, c) \<in> set ps. (\<exists>a b. tx = Tx_new (mp_hash tx) a b) \<and> T (mp_hash tx) = None \<and> length (vout c) \<le> 2 ^ 32 \<and>
      (\<forall>(k, txo) \<in> spends T. k \<noteq> mp_hash tx \<and> txHash txo \<noteq> mp_hash tx)"
    using assms(2) new_txs_okD(4)[OF assms(2)] spends_old[OF assms(1,2)] by (fastforce simp: new_txs_ok_def fresh_txs_def)
  from add_all_outputs[OF d this assms(3,4)] show ?thesis .
qed

section \<open>The order of the references\<close>

text \<open>A transaction that was there before keeps its links, so vectors that nothing was added to stay sorted.\<close>

lemma has_parents_old:
  assumes "mempool_ok g T" "new_txs_ok g T ps" "h \<in> dom T"
  shows "has_parents (view_of g (T ++ new_txs ps)) h = has_parents (view_of g T) h"
proof -
  have "(h, txo) \<notin> all_pairs ps" for txo using new_txs_okD(1)[OF assms(2)] assms(3) by (force simp: all_pairs_def in_pairs_def)
  moreover have "new_txs ps p = None" if "(h, TXO p n) \<in> spends T" for p n
    using spends_old[OF assms(1,2) _ that] new_txs_Some[of ps p] by (cases "new_txs ps p") fastforce+
  ultimately show ?thesis by (auto simp: has_parents_def view_def spends_add[OF assms(2)] map_add_dom_app_simps)
qed

lemma touching_dom: "mp_touching v sh \<subseteq> dom (v_O v)"
  by (auto simp: mp_touching_def)

lemma ordered_final:
  assumes "mp_rel v m" "\<forall>sh. sh \<notin> set A \<longrightarrow> ordered_at (has_parents v) m sh"
  shows "mp_rel v (fold sort_affected A m) \<and> (\<forall>sh. ordered_at (has_parents v) (fold sort_affected A m) sh)"
proof -
  let ?m = "fold sort_affected A m"
  note s = sort_all_affected[of A m]
  have r: "mp_rel v ?m" using s assms(1) by (simp add: mp_rel_def)
  have late: "hasUnconfirmedParents m h = has_parents v h" if "h \<in> refs (hashXTxs m) sh" for h sh
    using that assms(1) touching_dom[of v sh] by (intro hasUnconfirmedParents_view) (auto simp: mp_rel_def)
  have "ordered_at (has_parents v) ?m sh" for sh
  proof (cases "sh \<in> set A")
    case True
    then have "ordered_at (hasUnconfirmedParents m) ?m sh" using s by blast
    moreover have "set vec \<subseteq> refs (hashXTxs m) sh" if "map_of (hashXTxs ?m) sh = Some vec" for vec
      using s that by (metis option.case(2) order_refl refs_def)
    ultimately show ?thesis unfolding ordered_at_def
      using ordered_cong[of _ "hasUnconfirmedParents m" "has_parents v", OF late[of _ sh]] by (cases "map_of (hashXTxs ?m) sh") auto
  next
    case False
    then show ?thesis using s assms(2) by (simp add: ordered_at_def)
  qed
  then show ?thesis using r by blast
qed

section \<open>The proofs\<close>

lemma no_new_links: "A O (new_links N P)\<^sup>* = A" if "Range A \<inter> N = {}" for A :: "(DspHash \<times> bytes) set"
proof -
  have "(t, t') \<in> (new_links N P)\<^sup>* \<Longrightarrow> t \<notin> N \<Longrightarrow> t' = t" for t t' by (auto simp: new_links_def elim: converse_rtranclE)
  then show ?thesis using that by fastforce
qed

lemma finish_dsps_ok:
  assumes "dsp_inv T N d0 P s" "Range (aff d0) \<inter> N = {}" "fst ` P \<subseteq> N" "\<forall>h \<in> N. length h = HashLen"
  shows "\<exists>s' d'. finish_dsps s = Some s' \<and> as_m s' = (as_m s)\<lparr>dsps := d'\<rparr> \<and> as_affected s' = as_affected s \<and> dsps_inv d' \<and>
    prims d' = prims d0 \<and> aff d' = (aff d0 \<union> aff d0 O old_links T N P) O (new_links N P)\<^sup>*"
proof -
  let ?d = "dsps (as_m s)" and ?np = "newTxsNewParents s"
  note i = assms(1)[unfolded dsp_inv_def]
  have a: "aff ?d = aff d0 \<union> aff d0 O old_links T N P" and inv: "dsps_inv ?d" "prims ?d = prims d0" using i by simp_all
  have "set (keys ?np) \<subseteq> N" using i assms(3) by blast
  then have len: "\<forall>(h, ps) \<in> set ?np. length h = HashLen" using assms(4) by force
  show ?thesis
  proof (cases "\<not> dsps_empty ?d \<and> ?np \<noteq> [] \<and> dspTxsAffected s \<noteq> []")
    case True
    obtain d' A' where l: "dsp_loop ?np (?d, dspTxsAffected s) = Some (d', A')" "dsps_inv d'" "prims d' = prims ?d" "aff d' = aff ?d O (edges ?np)\<^sup>*"
      using dsp_loop_ok[OF inv(1) len] by blast
    have "edges ?np = new_links N P" using True i by (simp add: dsps_empty_prims)
    then show ?thesis using l True a inv by (simp add: finish_dsps_def) blast
  next
    case False
    have "aff ?d O (new_links N P)\<^sup>* = aff ?d"
    proof -
      consider "prims d0 = Map.empty" | "prims d0 \<noteq> Map.empty" "?np = []" | "dspTxsAffected s = []" using False inv(2) by (auto simp: dsps_empty_prims)
      then show ?thesis
      proof cases
        case 1
        then show ?thesis using aff_empty[of ?d] inv(2) by simp
      next
        case 2
        then have "new_links N P = {}" using i by (auto simp: edges_def)
        then show ?thesis by simp
      next
        case 3
        then have "aff ?d = aff d0" using i by (simp add: a sup_absorb1)
        then show ?thesis using no_new_links[OF assms(2)] by simp
      qed
    qed
    then show ?thesis using False a inv unfolding finish_dsps_def by (auto intro!: exI[of _ ?d])
  qed
qed

text \<open>Handing on in two steps reaches all descendants.\<close>

lemma closure_split:
  assumes "Range A \<subseteq> D" "D \<inter> N = {}" "Lold \<subseteq> D \<times> D" "Eold \<subseteq> D \<times> N" "Enew \<subseteq> N \<times> N" "A O Lold \<subseteq> A"
  shows "(A \<union> A O Eold) O Enew\<^sup>* = A O (Lold \<union> Eold \<union> Enew)\<^sup>*" (is "?X = A O ?L\<^sup>*")
proof
  have "Enew\<^sup>* \<subseteq> ?L\<^sup>*" "Eold O Enew\<^sup>* \<subseteq> ?L\<^sup>*" by (auto intro: rtrancl_mono[THEN subsetD] converse_rtrancl_into_rtrancl)
  then show "?X \<subseteq> A O ?L\<^sup>*" by blast
next
  have in_A: "(q, t) \<in> A" if "(q, t) \<in> ?X" "t \<in> D" for q t
  proof -
    from that(1) obtain u where u: "(q, u) \<in> A \<union> A O Eold" "(u, t) \<in> Enew\<^sup>*" by blast
    have "t = u \<or> t \<in> N" using u(2) assms(5) by (auto elim: rtranclE)
    then show ?thesis using u(1) that(2) assms(2,4) by blast
  qed
  have step: "(q, t') \<in> ?X" if x: "(q, t) \<in> ?X" "(t, t') \<in> ?L" for q t t'
  proof (cases "t \<in> D")
    case True
    then have "(q, t) \<in> A" "(t, t') \<in> Lold \<union> Eold" using in_A[OF x(1)] x(2) assms(2,5) by blast+
    then show ?thesis using assms(6) by blast
  next
    case False
    then have "(t, t') \<in> Enew" using x(2) assms(3,4) by blast
    then show ?thesis using x(1) by (blast intro: rtrancl_into_rtrancl)
  qed
  have "(q, t') \<in> ?X" if "(t, t') \<in> ?L\<^sup>*" "(q, t) \<in> A" for q t t' using that by induction (use step in blast)+
  then show "A O ?L\<^sup>* \<subseteq> ?X" by blast
qed

lemma links_add:
  assumes "mempool_ok g T" "new_txs_ok g T ps"
  defines "T' \<equiv> T ++ new_txs ps" and "N \<equiv> mp_hash ` fst ` set ps"
  shows "v_L (view_of g T') = v_L (view_of g T) \<union> old_links T' N (all_pairs ps) \<union> new_links N (all_pairs ps)"
    and "v_L (view_of g T) \<subseteq> dom T \<times> dom T" "old_links T' N (all_pairs ps) \<subseteq> dom T \<times> N" "new_links N (all_pairs ps) \<subseteq> N \<times> N"
    and "dom T \<inter> N = {}" "dom T' = dom T \<union> N" "fst ` all_pairs ps \<subseteq> N"
proof -
  show dN: "dom T \<inter> N = {}" using new_txs_okD(1)[OF assms(2)] by (force simp: N_def)
  show dT: "dom T' = dom T \<union> N" by (auto simp: T'_def N_def dom_new_txs)
  show p: "fst ` all_pairs ps \<subseteq> N" by (force simp: all_pairs_def in_pairs_def N_def)
  have o: "p \<in> dom T \<longleftrightarrow> p \<in> dom T'" if "(h, TXO p n) \<in> spends T" for h p n
    using spends_old[OF assms(1,2) _ that] by (force simp: dT N_def)
  show "v_L (view_of g T') = v_L (view_of g T) \<union> old_links T' N (all_pairs ps) \<union> new_links N (all_pairs ps)"
    using o dT by (auto simp: view_def spends_add[OF assms(2), folded T'_def] old_links_def new_links_def)
  show "v_L (view_of g T) \<subseteq> dom T \<times> dom T" by (auto simp: view_def spends_def)
  show "old_links T' N (all_pairs ps) \<subseteq> dom T \<times> N" "new_links N (all_pairs ps) \<subseteq> N \<times> N"
    using p dT by (force simp: old_links_def new_links_def)+
qed

section \<open>The whole operation\<close>

lemma inputs_resolve_ok: "mempool_ok g T \<Longrightarrow> T h = Some c \<Longrightarrow> inputs_resolve g T c"
  by (auto simp: mempool_ok_def inputs_resolve_def)

text \<open>The script hashes whose histories change.\<close>

definition new_touched :: "getter \<Rightarrow> (bytes \<rightharpoonup> CTransaction) \<Rightarrow> (Tx \<times> CTransaction) list \<Rightarrow> bytes set" where
  "new_touched g T ps = (\<Union>(tx, c) \<in> set ps. touched c (v_E (view_of g T) (mp_hash tx)))"

lemma new_touched_eq:
  assumes "\<forall>(tx, c) \<in> set ps. T (mp_hash tx) = Some c"
  shows "new_touched g T ps = (\<Union>(tx, c) \<in> set ps. out_shs (vout c)) \<union> all_shs g T ps"
proof -
  have "touched c (v_E (view_of g T) (mp_hash tx)) = out_shs (vout c) \<union> in_shs g T (vin c)" if "(tx, c) \<in> set ps" for tx c
  proof -
    have "T (mp_hash tx) = Some c" using assms that by blast
    then have "v_E (view_of g T) (mp_hash tx) txo = (if txo \<in> prev_txo ` set (vin c) then in_entry g T txo else None)" for txo
      by (simp add: view_def spends_def)
    then show ?thesis by (auto simp: touched_def in_shs_def)
  qed
  then show ?thesis unfolding new_touched_def all_shs_def UN_Un_distrib[symmetric] by (intro SUP_cong) (auto split: prod.split)
qed

lemma add_loops:
  assumes "mempool_inv g T m" "new_txs_ok g T ps" "mempool_ok g (T ++ new_txs ps)" "fold add_tx_outputs ps (m, A) = (m1, A1)"
  shows "\<exists>s. efor (add_inputs_of g (map (mp_hash \<circ> fst) ps)) ps \<lparr> as_m = m1, as_affected = A1, newTxsNewParents = [], dspTxsAffected = [] \<rparr> = (Inr (), s) \<and>
    mp_rel (view_of g (T ++ new_txs ps)) (as_m s) \<and> set (as_affected s) = set A \<union> new_touched g (T ++ new_txs ps) ps \<and>
    (\<forall>sh. sh \<notin> set (as_affected s) \<longrightarrow> map_of (hashXTxs (as_m s)) sh = map_of (hashXTxs m) sh) \<and>
    dsp_inv (T ++ new_txs ps) (mp_hash ` fst ` set ps) (dsps m) (all_pairs ps) s"
proof -
  let ?T = "T ++ new_txs ps" and ?N = "mp_hash ` fst ` set ps" and ?nh = "map (mp_hash \<circ> fst) ps"
  let ?s0 = "\<lparr> as_m = m1, as_affected = A1, newTxsNewParents = [], dspTxsAffected = [] \<rparr>"
  have ok: "mempool_ok g T" and r: "mp_rel (view_of g T) m" and d: "dsps_inv (dsps m)" using assms(1) by (simp_all add: mempool_inv_def mempool_repr_def)
  note o = outputs_added[OF ok assms(2) r assms(4)]
  have T: "\<forall>(tx, c) \<in> set ps. ?T (mp_hash tx) = Some c" using new_txs_okD(6)[OF assms(2)] by auto
  have "inputs_resolve g ?T c" if "(tx, c) \<in> set ps" for tx c using inputs_resolve_ok[OF assms(3) new_txs_okD(6)[OF assms(2) that]] .
  then have res: "\<forall>(tx, c) \<in> set ps. inputs_resolve g ?T c" by auto
  have r0: "mp_rel (view g ?T (spends T)) (as_m ?s0)" using o by simp
  obtain s1 where s1: "efor (add_inputs_of g ?nh) ps ?s0 = (Inr (), s1)" and p1: "add_post g ?T (spends T \<union> all_pairs ps) (all_shs g ?T ps) ?s0 s1"
    using all_inputs_loop[OF r0 inputs_pre_new[OF ok assms(2)] res] by blast
  have r1: "mp_rel (view_of g ?T) (as_m s1)" using p1 by (simp add: add_post_def spends_add[OF assms(2)])
  have aff1: "set (as_affected s1) = set A \<union> new_touched g ?T ps" using p1 o by (simp add: add_post_def new_touched_eq[OF T] Un_assoc)
  have same: "map_of (hashXTxs (as_m s1)) sh = map_of (hashXTxs m) sh" if "sh \<notin> set (as_affected s1)" for sh
    using that p1 o by (simp add: add_post_def)
  have hash: "tx_hashes (txs (as_m ?s0)) = dom ?T" using r0 txs_rel_None[of "view g ?T (spends T)" "txs m1"] by (auto simp: mp_rel_def tx_hashes_def dom_def)
  have "dsp_inv ?T ?N (dsps m) (all_pairs ps) s1"
  proof (rule all_inputs_dsps[OF _ refl _ _ _ hash _ s1])
    show "dsp_inv ?T ?N (dsps m) {} ?s0" using d o by (simp add: dsp_inv_def old_links_def new_links_def edges_def)
  qed (use assms(2) new_txs_okD(5)[OF assms(2)] links_add(6)[OF ok assms(2)] in \<open>auto simp: new_txs_ok_def fresh_txs_def\<close>)
  then show ?thesis using s1 r1 aff1 same by blast
qed

text \<open>Vectors that were not affected hold only old transactions, whose order is the same.\<close>

lemma ordered_unaffected:
  assumes "mempool_inv g T m" "new_txs_ok g T ps" "map_of (hashXTxs m') sh = map_of (hashXTxs m) sh"
  shows "ordered_at (has_parents (view_of g (T ++ new_txs ps))) m' sh"
proof -
  have ok: "mempool_ok g T" and r: "mp_rel (view_of g T) m" and ord: "ordered_at (has_parents (view_of g T)) m sh"
    using assms(1) by (simp_all add: mempool_inv_def mempool_repr_def)
  have old: "h \<in> dom T" if "map_of (hashXTxs m) sh = Some vec" "h \<in> set vec" for h vec
    using that r touching_dom[of "view_of g T" sh] by (auto simp: mp_rel_def refs_def dest!: fun_cong[of _ _ sh])
  show ?thesis
  proof (cases "map_of (hashXTxs m) sh")
    case (Some vec)
    have "ordered (has_parents (view_of g (T ++ new_txs ps))) vec = ordered (has_parents (view_of g T)) vec"
      using has_parents_old[OF ok assms(2) old[OF Some]] by (intro ordered_cong)
    then show ?thesis using ord by (simp add: ordered_at_def assms(3) Some)
  qed (simp add: ordered_at_def assms(3))
qed

lemma rtrancl_range: "(u, t) \<in> R\<^sup>* \<Longrightarrow> u \<in> A \<Longrightarrow> R \<subseteq> UNIV \<times> A \<Longrightarrow> t \<in> A"
  by (induction rule: rtrancl_induct) auto

lemma range_closure: "Range A \<subseteq> D \<Longrightarrow> D \<subseteq> D' \<Longrightarrow> R \<subseteq> UNIV \<times> D' \<Longrightarrow> Range (A O R\<^sup>*) \<subseteq> D'"
  by (auto dest!: rtrancl_range[of _ _ R D'])

lemma addNewTxs_ok:
  assumes "mempool_inv g T m" "new_txs_ok g T ps" "mempool_ok g (T ++ new_txs ps)"
  shows "\<exists>s. addNewTxs g ps A m = Some (Inr (), s) \<and> mempool_inv g (T ++ new_txs ps) (as_m s) \<and>
    set (as_affected s) = set A \<union> new_touched g (T ++ new_txs ps) ps \<and>
    prims (dsps (as_m s)) = prims (dsps m) \<and> aff (dsps (as_m s)) = aff (dsps m) O (v_L (view_of g (T ++ new_txs ps)))\<^sup>*"
proof -
  let ?T = "T ++ new_txs ps" and ?N = "mp_hash ` fst ` set ps"
  have ok: "mempool_ok g T" and d: "Range (aff (dsps m)) \<subseteq> dom T" "aff (dsps m) O v_L (view_of g T) \<subseteq> aff (dsps m)"
    using assms(1) by (simp_all add: mempool_inv_def)
  note links = links_add[OF ok assms(2)]
  obtain m1 A1 where f: "fold add_tx_outputs ps (m, A) = (m1, A1)" by fastforce
  obtain s1 where s1: "efor (add_inputs_of g (map (mp_hash \<circ> fst) ps)) ps \<lparr> as_m = m1, as_affected = A1, newTxsNewParents = [], dspTxsAffected = [] \<rparr> = (Inr (), s1)"
      "mp_rel (view_of g ?T) (as_m s1)" "set (as_affected s1) = set A \<union> new_touched g ?T ps"
      "\<And>sh. sh \<notin> set (as_affected s1) \<Longrightarrow> map_of (hashXTxs (as_m s1)) sh = map_of (hashXTxs m) sh" "dsp_inv ?T ?N (dsps m) (all_pairs ps) s1"
    using add_loops[OF assms f] by blast
  define s2 where "s2 = s1\<lparr>as_m := fold sort_affected (as_affected s1) (as_m s1)\<rparr>"
  have repr: "mp_rel (view_of g ?T) (as_m s2)" "\<forall>sh. ordered_at (has_parents (view_of g ?T)) (as_m s2) sh"
    using ordered_final[OF s1(2), of "as_affected s1"] ordered_unaffected[OF assms(1,2) s1(4)] by (simp_all add: s2_def)
  have i2: "dsp_inv ?T ?N (dsps m) (all_pairs ps) s2"
    using s1(5) sort_all_affected[of "as_affected s1" "as_m s1"] dsp_inv_cong[of s2 s1 ?T ?N "dsps m" "all_pairs ps"] by (simp add: s2_def)
  have "Range (aff (dsps m)) \<inter> ?N = {}" "\<forall>h \<in> ?N. length h = HashLen" using d(1) links(5) new_txs_okD(5)[OF assms(2)] by auto
  then obtain s3 d' where s3: "finish_dsps s2 = Some s3" "as_m s3 = (as_m s2)\<lparr>dsps := d'\<rparr>" "as_affected s3 = as_affected s2" "dsps_inv d'"
      "prims d' = prims (dsps m)" and a3: "aff d' = (aff (dsps m) \<union> aff (dsps m) O old_links ?T ?N (all_pairs ps)) O (new_links ?N (all_pairs ps))\<^sup>*"
    using finish_dsps_ok[OF i2 _ links(7)] by blast
  have a: "aff d' = aff (dsps m) O (v_L (view_of g ?T))\<^sup>*"
    unfolding a3 links(1) by (rule closure_split[OF d(1) links(5,2,3,4) d(2)])
  have sub: "v_L (view_of g ?T) \<subseteq> UNIV \<times> dom ?T" using links(2-4) unfolding links(1,6) by blast
  have "dom T \<subseteq> dom ?T" using links(6) by simp
  then have "Range (aff d') \<subseteq> dom ?T" unfolding a by (rule range_closure[OF d(1) _ sub])
  moreover have "aff d' O v_L (view_of g ?T) \<subseteq> aff d'" unfolding a by (auto intro: rtrancl_into_rtrancl)
  ultimately have "mempool_inv g ?T (as_m s3)"
    using repr assms(3) s3(2,4) by (simp add: mempool_inv_def mempool_repr_def ordered_at_def)
  then show ?thesis using s1(1,3) s3 a by (simp add: addNewTxs_def f s2_def[symmetric]) (simp add: s2_def)
qed

lemma addNewTxs_fail:
  assumes "mempool_inv g T m" "new_txs_ok g T ps" "(tx, c) \<in> set ps" "\<not> inputs_resolve g (T ++ new_txs ps) c"
  shows "\<exists>e s. addNewTxs g ps A m = Some (Inl e, s)"
proof -
  have ok: "mempool_ok g T" and r: "mp_rel (view_of g T) m" using assms(1) by (simp_all add: mempool_inv_def mempool_repr_def)
  obtain m1 A1 where f: "fold add_tx_outputs ps (m, A) = (m1, A1)" by fastforce
  let ?s0 = "\<lparr> as_m = m1, as_affected = A1, newTxsNewParents = [], dspTxsAffected = [] \<rparr>"
  have "mp_rel (view g (T ++ new_txs ps) (spends T)) (as_m ?s0)" using outputs_added[OF ok assms(2) r f] by simp
  from all_inputs_fail[OF this inputs_pre_new[OF ok assms(2)] assms(3,4), of "map (mp_hash \<circ> fst) ps"]
  show ?thesis by (auto simp: addNewTxs_def f)
qed

end
