(* ===== verification/Mempool_Remove.thy ===== *)
theory Mempool_Remove
  imports Mempool_Added
begin

text \<open>
  Removing transactions: the worklist of descendants, unlinking an object from its parents and children, and taking references out of
  the vectors of script hashes. \<open>dropTxs\<close> and \<open>confirmedInBlock\<close> share these steps.
\<close>

declare map_of_eq_Some_iff [simp del]

section \<open>Descendants\<close>

definition kids :: "(bytes \<times> Tx) list \<Rightarrow> (bytes \<times> bytes) set" where
  "kids t = {(h, k). \<exists>tx. map_of t h = Some tx \<and> k \<in> set (children tx)}"

lemma grow_loop_ok:
  "set work \<subseteq> set txids \<Longrightarrow> \<forall>(h, k) \<in> kids t. h \<in> set txids \<longrightarrow> h \<notin> set work \<longrightarrow> k \<in> set txids \<Longrightarrow>
   set (grow_loop t txids work) = (kids t)\<^sup>* `` set txids"
proof (induction t txids work rule: grow_loop.induct)
  case (1 t txids)
  then show ?case by (auto elim!: rtrancl_induct dest: Image_closed_trancl[of "kids t" "set txids"])
next
  case (2 t txids tid work)
  show ?case
  proof (cases "map_of t tid")
    case None
    then have "(tid, k) \<notin> kids t" for k by (simp add: kids_def)
    then show ?thesis using 2(1)[OF None] 2(3,4) None by fastforce
  next
    case (Some tx)
    obtain txids' work' where f: "fold add_child (children tx) (txids, work) = (txids', work')" by fastforce
    note a = add_children[OF f]
    have k: "(tid, k) \<in> kids t \<longleftrightarrow> k \<in> set (children tx)" for k using Some by (simp add: kids_def)
    have sub: "set work' \<subseteq> set txids'" using a 2(3) by auto
    have "k \<in> set txids'" if x: "(h, k) \<in> kids t" "h \<in> set txids'" "h \<notin> set work'" for h k
    proof (cases "h = tid")
      case True
      then show ?thesis using x(1) k a by blast
    next
      case False
      then have "h \<in> set txids" "h \<notin> set (tid # work)" using x(2,3) a by auto
      then show ?thesis using 2(4) x(1) a by blast
    qed
    then have "set (grow_loop t txids' work') = (kids t)\<^sup>* `` set txids'" by (intro 2(2)[OF Some f[symmetric] sub]) blast
    moreover have tid: "tid \<in> set txids" using 2(3) by simp
    have new: "set txids' = set txids \<union> set (children tx)" using a by blast
    have "(kids t)\<^sup>* `` set (children tx) \<subseteq> (kids t)\<^sup>* `` set txids"
    proof
      fix y assume "y \<in> (kids t)\<^sup>* `` set (children tx)"
      then obtain c where "c \<in> set (children tx)" "(c, y) \<in> (kids t)\<^sup>*" by blast
      then have "(tid, y) \<in> (kids t)\<^sup>*" using k by (meson converse_rtrancl_into_rtrancl)
      then show "y \<in> (kids t)\<^sup>* `` set txids" using tid by blast
    qed
    then have "(kids t)\<^sup>* `` set txids' = (kids t)\<^sup>* `` set txids" unfolding new by blast
    ultimately show ?thesis using Some f by simp
  qed
qed

section \<open>Unlinking an object\<close>

lemma map_of_fold_adjust:
  "(\<And>x. f (f x) = f x) \<Longrightarrow> map_of (fold (\<lambda>p. map_adjust p f) ps t) k = (if k \<in> set ps then map_option f (map_of t k) else map_of t k)"
  by (induction ps arbitrary: t) (auto simp: option.map_comp comp_def)

lemma distinct_fold_adjust: "distinct (keys t) \<Longrightarrow> distinct (keys (fold (\<lambda>p. map_adjust p f) ps t))"
  by (induction ps arbitrary: t) simp_all

definition rm_view :: "bytes \<Rightarrow> mview \<Rightarrow> mview" where
  "rm_view h v = v\<lparr>v_O := (v_O v)(h := None), v_L := {(a, b) \<in> v_L v. a \<noteq> h \<and> b \<noteq> h}\<rparr>"

lemma txs_rel_erase:
  assumes "txs_rel v t" "mp_hash tx = h" "set (parents tx) = {p. (p, h) \<in> v_L v}" "set (children tx) = {k. (h, k) \<in> v_L v}"
  shows "txs_rel (rm_view h v) (AList.delete h (unlinkFromParentsAndChildren tx t))"
proof -
  let ?t = "unlinkFromParentsAndChildren tx t"
  have m: "map_of ?t k = map_option (\<lambda>x. x\<lparr>children := (if k \<in> set (parents tx) then removeAll h (children x) else children x),
      parents := (if k \<in> set (children tx) then removeAll h (parents x) else parents x)\<rparr>) (map_of t k)" for k
    by (simp add: unlinkFromParentsAndChildren_def map_of_fold_adjust assms(2) option.map_comp comp_def option.map_id0 map_option_idI)
  have "rel_option (tx_rel (rm_view h v) k) (v_O (rm_view h v) k) (map_of (AList.delete h ?t) k)" for k
  proof (cases "k = h")
    case False
    have "tx_rel (rm_view h v) k c (x\<lparr>children := (if k \<in> set (parents tx) then removeAll h (children x) else children x),
      parents := (if k \<in> set (children tx) then removeAll h (parents x) else parents x)\<rparr>)" if "tx_rel v k c x" for c x
      using that False assms(3,4) by (auto simp: tx_rel_def rm_view_def distinct_removeAll)
    then show ?thesis using txs_relD[OF assms(1), of k] False
      by (cases "v_O v k"; cases "map_of t k") (simp_all add: m rm_view_def)
  qed (simp add: rm_view_def)
  moreover have "distinct (keys ?t)" using assms(1) by (simp add: txs_rel_def unlinkFromParentsAndChildren_def distinct_fold_adjust)
  ultimately show ?thesis by (simp add: txs_rel_def)
qed

lemma touching_rm: "mp_touching (rm_view h v) sh = mp_touching v sh - {h}"
  by (auto simp: mp_touching_def rm_view_def)

section \<open>Taking references out of the vectors\<close>

lemma rm_in_hashX_eq:
  "rm_in_hashX txids ns sh m = (case map_of (hashXTxs m) sh of
     None \<Rightarrow> m
   | Some vec \<Rightarrow> let newvec = filter (\<lambda>h. h \<notin> set txids) vec in
       m\<lparr>hashXTxs := (if newvec = [] then AList.delete sh (hashXTxs m)
         else AList.update sh (if sh \<in> set ns then sort_refs m newvec else newvec) (hashXTxs m))\<rparr>)"
proof -
  have f: "filter P vec = vec" if "length (filter P vec) = length vec" for P and vec :: "bytes list"
    using that by (metis filter_id_conv length_filter_less nat_neq_iff)
  show ?thesis by (cases "map_of (hashXTxs m) sh") (simp_all add: rm_in_hashX_def Let_def f)
qed

text \<open>One vector: what it may be after some rounds.\<close>

definition vec_after :: "bytes set \<Rightarrow> (bytes \<Rightarrow> bool) \<Rightarrow> bool \<Rightarrow> bytes list option \<Rightarrow> bytes list option \<Rightarrow> bool" where
  "vec_after K late srt = (\<lambda>old new. case old of
     None \<Rightarrow> new = None
   | Some vec \<Rightarrow> (let nv = filter (\<lambda>h. h \<notin> K) vec in
       new = (if nv = [] then None else Some (if srt then sort_key (\<lambda>h. (late h, h)) nv else nv))))"

lemma rm_in_hashX_vec:
  "txs (rm_in_hashX txids ns sh m) = txs m \<and> dsps (rm_in_hashX txids ns sh m) = dsps m \<and>
   optPrefixTable (rm_in_hashX txids ns sh m) = optPrefixTable m \<and>
   (distinct (keys (hashXTxs m)) \<longrightarrow> distinct (keys (hashXTxs (rm_in_hashX txids ns sh m)))) \<and>
   vec_after (set txids) (hasUnconfirmedParents m) (sh \<in> set ns) (map_of (hashXTxs m) sh) (map_of (hashXTxs (rm_in_hashX txids ns sh m)) sh) \<and>
   (\<forall>k. k \<noteq> sh \<longrightarrow> map_of (hashXTxs (rm_in_hashX txids ns sh m)) k = map_of (hashXTxs m) k)"
  unfolding rm_in_hashX_eq vec_after_def by (cases "map_of (hashXTxs m) sh") (simp_all add: Let_def sort_refs_def)

lemma rm_all_vecs:
  "distinct A \<Longrightarrow> txs (rmTxsInHashXTxs txids A ns m) = txs m \<and> dsps (rmTxsInHashXTxs txids A ns m) = dsps m \<and>
   optPrefixTable (rmTxsInHashXTxs txids A ns m) = optPrefixTable m \<and>
   (distinct (keys (hashXTxs m)) \<longrightarrow> distinct (keys (hashXTxs (rmTxsInHashXTxs txids A ns m)))) \<and>
   (\<forall>sh \<in> set A. vec_after (set txids) (hasUnconfirmedParents m) (sh \<in> set ns) (map_of (hashXTxs m) sh)
      (map_of (hashXTxs (rmTxsInHashXTxs txids A ns m)) sh)) \<and>
   (\<forall>sh. sh \<notin> set A \<longrightarrow> map_of (hashXTxs (rmTxsInHashXTxs txids A ns m)) sh = map_of (hashXTxs m) sh)"
proof (induction A rule: rev_induct)
  case Nil
  then show ?case by (simp add: rmTxsInHashXTxs_def)
next
  case (snoc sh A)
  let ?m = "rmTxsInHashXTxs txids A ns m"
  have e: "rmTxsInHashXTxs txids (A @ [sh]) ns m = rm_in_hashX txids ns sh ?m" by (simp add: rmTxsInHashXTxs_def)
  have IH: "txs ?m = txs m" "sh \<notin> set A" using snoc by simp_all
  have h: "hasUnconfirmedParents ?m = hasUnconfirmedParents m" by (rule hasUnconfirmedParents_txs[OF IH(1)])
  show ?case unfolding e using snoc.IH snoc.prems rm_in_hashX_vec[of txids ns sh ?m] unfolding h by auto
qed

lemma vec_after_ok:
  assumes "vec_after K late srt old new" "pred_option distinct old"
    and "\<And>vec h. old = Some vec \<Longrightarrow> h \<in> set vec \<Longrightarrow> h \<notin> K \<Longrightarrow> late h = late' h"
    and "\<not> srt \<Longrightarrow> pred_option (\<lambda>vec. ordered late' (filter (\<lambda>h. h \<notin> K) vec)) old"
  shows "new \<noteq> Some []" "(case new of None \<Rightarrow> {} | Some vec \<Rightarrow> set vec) = (case old of None \<Rightarrow> {} | Some vec \<Rightarrow> set vec) - K"
    "pred_option (ordered late') new"
proof -
  show "new \<noteq> Some []" using assms(1) by (cases old) (auto simp: vec_after_def Let_def simp flip: set_empty)
  show "(case new of None \<Rightarrow> {} | Some vec \<Rightarrow> set vec) = (case old of None \<Rightarrow> {} | Some vec \<Rightarrow> set vec) - K"
    using assms(1) by (cases old) (auto simp: vec_after_def Let_def filter_empty_conv split: if_splits)
  show "pred_option (ordered late') new"
  proof (cases old)
    case (Some vec)
    let ?nv = "filter (\<lambda>h. h \<notin> K) vec"
    have "ordered late (sort_key (\<lambda>h. (late h, h)) ?nv)" using assms(2) Some by (simp add: ordered_def)
    moreover have "ordered late (sort_key (\<lambda>h. (late h, h)) ?nv) = ordered late' (sort_key (\<lambda>h. (late h, h)) ?nv)"
      by (rule ordered_cong) (use assms(3)[OF Some] in auto)
    ultimately show ?thesis using assms(1,4) Some by (cases srt) (auto simp: vec_after_def Let_def)
  qed (use assms(1) in \<open>simp add: vec_after_def\<close>)
qed

lemma removed_repr:
  assumes "txs_rel v (txs m)" "hxs_ok (hashXTxs m)" "\<And>sh. mp_touching v sh = refs (hashXTxs m) sh - set txids"
    and "distinct A" "\<And>sh. sh \<notin> set A \<Longrightarrow> refs (hashXTxs m) sh \<inter> set txids = {}"
    and "\<And>sh. pred_option distinct (map_of (hashXTxs m) sh)"
    and "\<And>sh. sh \<notin> set A \<or> sh \<notin> set ns \<Longrightarrow> pred_option (\<lambda>vec. ordered (has_parents v) (filter (\<lambda>h. h \<notin> set txids) vec)) (map_of (hashXTxs m) sh)"
  defines "m' \<equiv> rmTxsInHashXTxs txids A ns m"
  shows "mp_rel v m' \<and> (\<forall>sh. ordered_at (has_parents v) m' sh) \<and> dsps m' = dsps m"
proof -
  let ?H = "hashXTxs m" and ?H' = "hashXTxs m'"
  note a = rm_all_vecs[OF assms(4), of txids ns m, folded m'_def]
  have late: "hasUnconfirmedParents m h = has_parents v h" if "map_of ?H sh = Some vec" "h \<in> set vec" "h \<notin> set txids" for sh vec h
    using that assms(3)[of sh] touching_dom[of v sh] by (intro hasUnconfirmedParents_view[OF assms(1)]) (auto simp: refs_def)
  have one: "map_of ?H' sh \<noteq> Some [] \<and> refs ?H' sh = mp_touching v sh \<and> ordered_at (has_parents v) m' sh" for sh
  proof (cases "sh \<in> set A")
    case True
    then have "vec_after (set txids) (hasUnconfirmedParents m) (sh \<in> set ns) (map_of ?H sh) (map_of ?H' sh)" using a by blast
    from vec_after_ok[OF this assms(6) late assms(7)] show ?thesis by (simp add: refs_def assms(3) ordered_at_def)
  next
    case False
    then have e: "map_of ?H' sh = map_of ?H sh" using a by blast
    have "filter (\<lambda>h. h \<notin> set txids) vec = vec" if "map_of ?H sh = Some vec" for vec
      using that assms(5)[OF False] by (auto simp: refs_def filter_id_conv)
    then have "ordered_at (has_parents v) m' sh" using assms(7)[of sh] False by (cases "map_of ?H sh") (auto simp: ordered_at_def e)
    moreover have "refs ?H' sh = mp_touching v sh" using assms(3,5)[of sh] False by (auto simp: refs_def e)
    ultimately show ?thesis using assms(2) by (simp add: e hxs_ok_def)
  qed
  then have "refs ?H' = mp_touching v" "hxs_ok ?H'" using a assms(2) by (auto simp: hxs_ok_def)
  then show ?thesis using a assms(1) one by (simp add: mp_rel_def)
qed

section \<open>Removing proofs\<close>

definition forget_set :: "bytes set \<Rightarrow> (DspHash \<rightharpoonup> bytes \<times> bytes set) \<Rightarrow> (DspHash \<rightharpoonup> bytes \<times> bytes set)" where
  "forget_set K f q = (case f q of None \<Rightarrow> None | Some (p, D) \<Rightarrow> if p \<in> K then None else Some (p, D - K))"

lemma forget_set_insert: "forget_set K (forget_tx h f) = forget_set (insert h K) f"
  by (auto simp: forget_tx_def forget_set_def fun_eq_iff split: option.split)

lemma forget_set_empty [simp]: "forget_set {} f = f"
  by (auto simp: forget_set_def fun_eq_iff split: option.split)

lemma abs_primary: "dsps_inv d \<Longrightarrow> dsps_abs d q = Some (p, D) \<Longrightarrow> p \<in> D"
  using proofs_okD[of "dsproofs d" q] by (auto simp: dsps_inv_def dsps_abs_def dsps_get_def proof_ok_def)

text \<open>Only transactions that have proofs matter.\<close>

lemma forget_set_cong:
  assumes "dsps_inv d" "\<And>t. t \<in> Range (aff d) \<Longrightarrow> t \<in> K \<longleftrightarrow> t \<in> K'"
  shows "forget_set K (dsps_abs d) = forget_set K' (dsps_abs d)"
proof
  fix q
  have "t \<in> K \<longleftrightarrow> t \<in> K'" if "dsps_abs d q = Some (p, D)" "t \<in> D" for p D t using that assms(2)[of t] by (auto simp: aff_def)
  then show "forget_set K (dsps_abs d) q = forget_set K' (dsps_abs d) q"
    using abs_primary[OF assms(1), of q] by (cases "dsps_abs d q") (auto simp: forget_set_def)
qed

lemma rm_dsps_step:
  assumes "dsps_inv d"
  shows "dsps_inv (if b \<and> dsps_empty d then d else snd (dsps_rmTx t d)) \<and>
    dsps_abs (if b \<and> dsps_empty d then d else snd (dsps_rmTx t d)) = forget_tx t (dsps_abs d)"
proof (cases "b \<and> dsps_empty d")
  case True
  then have "dsps_abs d = Map.empty" by (auto simp: dsps_empty_def dsps_abs_def dsps_get_def fun_eq_iff)
  then show ?thesis using True assms by (simp add: forget_tx_def fun_eq_iff)
qed (use dsps_rmTx_ok[OF assms, of t] in auto)

lemma rm_dsps_fold:
  "dsps_inv d \<Longrightarrow> dsps_inv (fold (\<lambda>tx d. if b \<and> dsps_empty d then d else snd (dsps_rmTx tx d)) ids d) \<and>
    dsps_abs (fold (\<lambda>tx d. if b \<and> dsps_empty d then d else snd (dsps_rmTx tx d)) ids d) = forget_set (set ids) (dsps_abs d)"
proof (induction ids arbitrary: d)
  case (Cons t ids)
  note s = rm_dsps_step[OF Cons.prems, of b t]
  from Cons.IH[OF conjunct1[OF s]] s show ?case by (simp add: forget_set_insert)
qed simp

lemma rm_dsps_ok:
  assumes "dsps_inv d" "rm_dsps b ids d = (A, d')"
  shows "dsps_inv d' \<and> dsps_abs d' = forget_set (set ids) (dsps_abs d)"
  using assms rm_dsps_fold[OF assms(1), of b ids] by (auto simp: rm_dsps_def split: if_splits)

lemma aff_forget:
  assumes "dsps_abs d' = forget_set K (dsps_abs d)"
  shows "aff d' = {(q, t) \<in> aff d. t \<notin> K \<and> (\<forall>p. prims d q = Some p \<longrightarrow> p \<notin> K)}"
  by (auto simp: aff_def prims_def assms forget_set_def split: option.splits if_splits)

lemma has_dsps:
  assumes "dsps_inv d"
  shows "dspHashesForTx t d \<noteq> None \<longleftrightarrow> t \<in> Range (aff d)"
proof (cases "dspHashesForTx t d")
  case None
  then show ?thesis using aff_hashes[OF assms, of t] by auto
next
  case (Some qs)
  then have "qs \<noteq> []" using index_okD[of "txDspsMap d" t qs] assms by (simp add: dsps_inv_def dspHashesForTx_def)
  moreover have "set qs = {q. (q, t) \<in> aff d}" using aff_hashes[OF assms, of t] Some by simp
  ultimately have "{q. (q, t) \<in> aff d} \<noteq> {}" by (metis set_empty)
  then show ?thesis using Some by auto
qed

end
