(* ===== verification/Mempool_Drop.thy ===== *)
theory Mempool_Drop
  imports Mempool_Remove
begin

text \<open>
  \<open>dropTxs\<close>: the given transactions and all their descendants go, what they spent of other transactions in the mempool is unspent
  again.
\<close>

declare map_of_eq_Some_iff [simp del]

section \<open>Crediting spends back\<close>

lemma credit_spend_ok:
  assumes "txs_rel v t" "txHash txo \<notin> set txids \<Longrightarrow> \<exists>c. v_O v (txHash txo) = Some c \<and> outN txo \<in> out_nums (vout c) sh"
  shows "txs_rel (v\<lparr>v_S := v_S v - {x. x = txo \<and> txHash x \<notin> set txids}\<rparr>) (credit_spend txids sh (txo, info) t)"
proof (cases "txHash txo \<in> set txids")
  case True
  then have "v_S v - {x. x = txo \<and> txHash x \<notin> set txids} = v_S v" by auto
  then show ?thesis using assms(1) True by (simp add: credit_spend_def)
next
  case False
  then obtain c where c: "v_O v (txHash txo) = Some c" "outN txo \<in> out_nums (vout c) sh" using assms(2) by blast
  obtain tx where tx: "map_of t (txHash txo) = Some tx" "tx_rel v (txHash txo) c tx" using txs_rel_O[OF assms(1) c(1)] by blast
  have "{x. x = txo \<and> txHash x \<notin> set txids} = {TXO (txHash txo) (outN txo)}" using False by auto
  moreover have "unat (outN txo) < length (txos tx)" using tx(2) c(2) by (simp add: tx_rel_def out_nums_def)
  ultimately show ?thesis using txs_rel_insert_utxo[OF assms(1) c] False tx(1) by (simp add: credit_spend_def)
qed

lemma credit_spends_ok:
  assumes "txs_rel v t" "\<forall>txo \<in> set (keys xs). txHash txo \<notin> set txids \<longrightarrow> (\<exists>c. v_O v (txHash txo) = Some c \<and> outN txo \<in> out_nums (vout c) sh)"
  shows "txs_rel (v\<lparr>v_S := v_S v - {x \<in> set (keys xs). txHash x \<notin> set txids}\<rparr>) (fold (credit_spend txids sh) xs t)"
  using assms
proof (induction xs arbitrary: v t)
  case (Cons p xs)
  obtain txo info where p: "p = (txo, info)" by (cases p)
  have "txs_rel (v\<lparr>v_S := v_S v - {x. x = txo \<and> txHash x \<notin> set txids}\<rparr>) (credit_spend txids sh (txo, info) t)"
    using Cons.prems by (intro credit_spend_ok) (auto simp: p)
  from Cons.IH[OF this] Cons.prems(2) show ?case by (simp add: p set_diff_eq conj_disj_distribR conj_assoc)
qed simp

definition credited :: "bytes set \<Rightarrow> (bytes \<times> IOInfo) list \<Rightarrow> TXO set" where
  "credited K hx = {txo. txHash txo \<notin> K \<and> (\<exists>(sh, io) \<in> set hx. txo \<in> set (keys (unconfirmedSpends io)))}"

lemma credit_all_ok:
  assumes "txs_rel v t" "\<forall>(sh, io) \<in> set hx. \<forall>txo \<in> set (keys (unconfirmedSpends io)). txHash txo \<notin> set txids \<longrightarrow>
      (\<exists>c. v_O v (txHash txo) = Some c \<and> outN txo \<in> out_nums (vout c) sh)"
    and "fold (\<lambda>(sh, io) (t, A). (fold (credit_spend txids sh) (unconfirmedSpends io) t, List.insert sh A)) hx (t, A) = (t', A')"
  shows "txs_rel (v\<lparr>v_S := v_S v - credited (set txids) hx\<rparr>) t' \<and> set A' = set A \<union> set (keys hx) \<and> (distinct A \<longrightarrow> distinct A')"
  using assms
proof (induction hx arbitrary: v t A)
  case (Cons p hx)
  obtain sh io where p: "p = (sh, io)" by (cases p)
  let ?S = "v_S v - {x \<in> set (keys (unconfirmedSpends io)). txHash x \<notin> set txids}"
  have "txs_rel (v\<lparr>v_S := ?S\<rparr>) (fold (credit_spend txids sh) (unconfirmedSpends io) t)" using Cons.prems(1,2) by (intro credit_spends_ok) (auto simp: p)
  note IH = Cons.IH[OF this, of "List.insert sh A"]
  have "credited (set txids) (p # hx) = {x \<in> set (keys (unconfirmedSpends io)). txHash x \<notin> set txids} \<union> credited (set txids) hx"
    by (auto simp: credited_def p)
  then have "v_S v - credited (set txids) (p # hx) = ?S - credited (set txids) hx" by blast
  then show ?case using IH Cons.prems(2,3) by (simp add: p)
qed (simp add: credited_def)

section \<open>One transaction\<close>

definition drop_view :: "bytes set \<Rightarrow> bytes \<Rightarrow> mview \<Rightarrow> mview" where
  "drop_view K h v = rm_view h (v\<lparr>v_S := v_S v - {txo. txHash txo \<notin> K \<and> (\<exists>i. v_E v h txo = Some (False, i))}\<rparr>)"

text \<open>Spends inside the mempool refer to outputs that are there, as long as they are not to be dropped.\<close>

definition credit_ok :: "bytes set \<Rightarrow> mview \<Rightarrow> bytes \<Rightarrow> bool" where
  "credit_ok K v h \<longleftrightarrow> (\<forall>txo i. v_E v h txo = Some (False, i) \<longrightarrow> txHash txo \<notin> K \<longrightarrow>
     (\<exists>c. v_O v (txHash txo) = Some c \<and> outN txo \<in> out_nums (vout c) (ti_hashX i)))"

lemma unconfirmed_keys:
  assumes "hx_rel c e spent hx"
  shows "(\<exists>io. (sh, io) \<in> set hx \<and> txo \<in> set (keys (unconfirmedSpends io))) \<longleftrightarrow> (\<exists>i. e txo = Some (False, i) \<and> ti_hashX i = sh)"
proof -
  have m: "(sh, io) \<in> set hx \<longleftrightarrow> map_of hx sh = Some io" for io using assms by (auto simp: hx_rel_def map_of_eq_Some_iff)
  have k: "txo \<in> set (keys (unconfirmedSpends io)) \<longleftrightarrow> (\<exists>i. e txo = Some (False, i) \<and> ti_hashX i = sh)" if "map_of hx sh = Some io" for io
  proof -
    have "map_of (unconfirmedSpends io) = spends_of False e sh" using hx_relD[OF assms that] by (simp add: io_rel_def)
    then show ?thesis unfolding set_keys by (auto simp: dom_def spends_of_def split: option.splits if_splits)
  qed
  show ?thesis
  proof
    assume "\<exists>io. (sh, io) \<in> set hx \<and> txo \<in> set (keys (unconfirmedSpends io))"
    then show "\<exists>i. e txo = Some (False, i) \<and> ti_hashX i = sh" using m k by blast
  next
    assume a: "\<exists>i. e txo = Some (False, i) \<and> ti_hashX i = sh"
    then have "sh \<in> touched c e" by (auto simp: touched_def)
    then obtain io where "map_of hx sh = Some io" using hx_rel_None[OF assms, of sh] by auto
    then show "\<exists>io. (sh, io) \<in> set hx \<and> txo \<in> set (keys (unconfirmedSpends io))" using a m k by blast
  qed
qed

lemma credited_eq: "hx_rel c e spent hx \<Longrightarrow> credited K hx = {txo. txHash txo \<notin> K \<and> (\<exists>i. e txo = Some (False, i))}"
  using unconfirmed_keys[of c e spent hx] unfolding credited_def by fast

lemma rmRpa_keeps [simp]: "txs (rmTxRpaAssociations tx m) = txs m" "hashXTxs (rmTxRpaAssociations tx m) = hashXTxs m" "dsps (rmTxRpaAssociations tx m) = dsps m"
  by (auto simp: rmTxRpaAssociations_def split: option.split)

lemma drop_tx_ok:
  assumes "txs_rel v (txs m)" "v_O v h = Some c" "credit_ok (set txids) v h" "drop_tx txids h (m, A) = (m', A')"
  shows "txs_rel (drop_view (set txids) h v) (txs m') \<and> hashXTxs m' = hashXTxs m \<and> dsps m' = dsps m \<and>
    set A' = set A \<union> touched c (v_E v h) \<and> (distinct A \<longrightarrow> distinct A')"
proof -
  obtain tx where tx: "map_of (txs m) h = Some tx" "tx_rel v h c tx" using txs_rel_O[OF assms(1,2)] by blast
  have hx: "hx_rel c (v_E v h) (spent_nums (v_S v) h) (hashXs tx)" using tx(2) by (simp add: tx_rel_def)
  obtain t1 A1 where f: "fold (\<lambda>(sh, io) (t, A). (fold (credit_spend txids sh) (unconfirmedSpends io) t, List.insert sh A)) (hashXs tx) (txs m, A) = (t1, A1)"
    by fastforce
  have m': "m' = (rmTxRpaAssociations tx (m\<lparr>txs := t1\<rparr>))\<lparr>txs := AList.delete h (unlinkFromParentsAndChildren tx t1)\<rparr>" "A' = A1"
    using assms(4) tx(1) f by (auto simp: drop_tx_def Let_def)
  let ?v = "v\<lparr>v_S := v_S v - credited (set txids) (hashXs tx)\<rparr>"
  have "\<exists>c. v_O v (txHash txo) = Some c \<and> outN txo \<in> out_nums (vout c) sh"
    if x: "(sh, io) \<in> set (hashXs tx)" "txo \<in> set (keys (unconfirmedSpends io))" "txHash txo \<notin> set txids" for sh io txo
  proof -
    obtain i where "v_E v h txo = Some (False, i)" "ti_hashX i = sh" using unconfirmed_keys[OF hx, of sh txo] x(1,2) by blast
    then show ?thesis using assms(3) x(3) unfolding credit_ok_def by blast
  qed
  then have "\<forall>(sh, io) \<in> set (hashXs tx). \<forall>txo \<in> set (keys (unconfirmedSpends io)). txHash txo \<notin> set txids \<longrightarrow>
      (\<exists>c. v_O v (txHash txo) = Some c \<and> outN txo \<in> out_nums (vout c) sh)"
    by blast
  from credit_all_ok[OF assms(1) this f]
  have t1: "txs_rel ?v t1" "set A1 = set A \<union> set (keys (hashXs tx))" "distinct A \<longrightarrow> distinct A1" by blast+
  have "txs_rel (rm_view h ?v) (AList.delete h (unlinkFromParentsAndChildren tx t1))"
    by (rule txs_rel_erase[OF t1(1)]) (use tx(2) in \<open>simp_all add: tx_rel_def\<close>)
  then show ?thesis using t1(2,3) hx_rel_keys[OF hx] by (simp add: m' drop_view_def credited_eq[OF hx])
qed

section \<open>All of them\<close>

definition dropped_view :: "bytes set \<Rightarrow> bytes set \<Rightarrow> mview \<Rightarrow> mview" where
  "dropped_view K X v = v\<lparr>v_O := v_O v |` (- X),
     v_S := v_S v - {txo. txHash txo \<notin> K \<and> (\<exists>h \<in> X. \<exists>i. v_E v h txo = Some (False, i))},
     v_L := {(a, b) \<in> v_L v. a \<notin> X \<and> b \<notin> X}\<rparr>"

definition sound_view :: "mview \<Rightarrow> bool" where
  "sound_view v \<longleftrightarrow> (\<forall>h. v_O v h = None \<longrightarrow> v_E v h = Map.empty) \<and> v_L v \<subseteq> dom (v_O v) \<times> dom (v_O v) \<and> (\<forall>h. credit_ok {} v h)"

lemma dropped_step:
  assumes "sound_view v"
  shows "v_O (dropped_view K X v) h = None \<Longrightarrow> dropped_view K (insert h X) v = dropped_view K X v"
    and "v_O (dropped_view K X v) h = Some c \<Longrightarrow> dropped_view K (insert h X) v = drop_view K h (dropped_view K X v)"
    and "X \<subseteq> K \<Longrightarrow> credit_ok K (dropped_view K X v) h"
proof -
  assume n: "v_O (dropped_view K X v) h = None"
  show "dropped_view K (insert h X) v = dropped_view K X v"
  proof (cases "h \<in> X")
    case False
    then have "v_O v h = None" using n by (simp add: dropped_view_def restrict_map_def)
    then have e: "v_E v h = Map.empty" "\<And>a b. (a, b) \<in> v_L v \<Longrightarrow> a \<noteq> h \<and> b \<noteq> h" using assms by (auto simp: sound_view_def)
    have "v_O v |` (- insert h X) = v_O v |` (- X)" using \<open>v_O v h = None\<close> by (auto simp: restrict_map_def)
    moreover have "{(a, b) \<in> v_L v. a \<notin> insert h X \<and> b \<notin> insert h X} = {(a, b) \<in> v_L v. a \<notin> X \<and> b \<notin> X}" using e(2) by blast
    ultimately show ?thesis using e(1) by (simp add: dropped_view_def)
  qed (simp add: insert_absorb)
next
  assume n: "v_O (dropped_view K X v) h = Some c"
  have "v_O v |` (- insert h X) = (v_O v |` (- X))(h := None)" by (auto simp: restrict_map_def)
  moreover have "v_S v - {txo. txHash txo \<notin> K \<and> (\<exists>k \<in> insert h X. \<exists>i. v_E v k txo = Some (False, i))} =
      v_S v - {txo. txHash txo \<notin> K \<and> (\<exists>k \<in> X. \<exists>i. v_E v k txo = Some (False, i))} - {txo. txHash txo \<notin> K \<and> (\<exists>i. v_E v h txo = Some (False, i))}" by blast
  moreover have "{(a, b) \<in> v_L v. a \<notin> insert h X \<and> b \<notin> insert h X} = {(a, b) \<in> {(a, b) \<in> v_L v. a \<notin> X \<and> b \<notin> X}. a \<noteq> h \<and> b \<noteq> h}" by blast
  ultimately show "dropped_view K (insert h X) v = drop_view K h (dropped_view K X v)"
    unfolding drop_view_def rm_view_def dropped_view_def by (simp del: insert_iff)
next
  assume "X \<subseteq> K"
  then have r: "(v_O v |` (- X)) p = v_O v p" if "p \<notin> K" for p using that by (auto simp: restrict_map_def)
  show "credit_ok K (dropped_view K X v) h"
    using assms unfolding sound_view_def credit_ok_def by (auto simp: dropped_view_def r)
qed

lemma drop_all_ok:
  assumes "sound_view v" "txs_rel v (txs m)" "set xs \<subseteq> set txids" "fold (drop_tx txids) xs (m, A) = (m', A')"
  shows "txs_rel (dropped_view (set txids) (set xs) v) (txs m') \<and> hashXTxs m' = hashXTxs m \<and> dsps m' = dsps m \<and>
    set A' = set A \<union> (\<Union>h \<in> set xs. case v_O v h of None \<Rightarrow> {} | Some c \<Rightarrow> touched c (v_E v h)) \<and> (distinct A \<longrightarrow> distinct A')"
  using assms(3,4)
proof (induction xs arbitrary: m' A' rule: rev_induct)
  case Nil
  have "v_O v |` UNIV = v_O v" by (simp add: restrict_map_def)
  then show ?case using Nil assms(2) by (simp add: dropped_view_def)
next
  case (snoc h xs)
  let ?K = "set txids" and ?X = "set xs"
  obtain m1 A1 where s: "fold (drop_tx txids) xs (m, A) = (m1, A1)" "drop_tx txids h (m1, A1) = (m', A')" using snoc.prems(2) by (cases "fold (drop_tx txids) xs (m, A)") auto
  have sub: "?X \<subseteq> ?K" using snoc.prems(1) by simp
  note IH = snoc.IH[OF sub s(1)]
  let ?v = "dropped_view ?K ?X v"
  show ?case
  proof (cases "v_O ?v h")
    case None
    have "map_of (txs m1) h = None" using IH None txs_rel_None[of ?v "txs m1" h] by blast
    then have e: "m' = m1" "A' = A1" using s(2) by (simp_all add: drop_tx_def)
    have "(case v_O v h of None \<Rightarrow> {} | Some c \<Rightarrow> touched c (v_E v h)) \<subseteq> (\<Union>h \<in> ?X. case v_O v h of None \<Rightarrow> {} | Some c \<Rightarrow> touched c (v_E v h))"
      using None by (cases "h \<in> ?X") (auto simp: dropped_view_def)
    then show ?thesis using IH dropped_step(1)[OF assms(1) None] by (auto simp: e)
  next
    case (Some c)
    then have c: "v_O v h = Some c" "v_E ?v h = v_E v h" by (auto simp: dropped_view_def restrict_map_def split: if_splits)
    note d = drop_tx_ok[OF conjunct1[OF IH] Some dropped_step(3)[OF assms(1) sub] s(2)]
    show ?thesis using IH d dropped_step(2)[OF assms(1) Some] by (simp add: c Un_assoc) (simp add: Un_commute)
  qed
qed

section \<open>The set that is left\<close>

lemma in_entry_unconfirmed:
  "in_entry g T txo = Some (False, i) \<Longrightarrow> \<exists>c. T (txHash txo) = Some c \<and> outN txo \<in> out_nums (vout c) (ti_hashX i)"
  by (auto simp: in_entry_def out_nums_def out_entry_valid split: option.splits if_splits sum.splits)

lemma view_sound: "sound_view (view_of g T)"
  unfolding sound_view_def credit_ok_def using in_entry_unconfirmed[of g T] by (auto simp: view_def spends_def fun_eq_iff)

text \<open>A set of transactions closed under spending.\<close>

definition down_closed :: "(bytes \<rightharpoonup> CTransaction) \<Rightarrow> bytes set \<Rightarrow> bool" where
  "down_closed T K \<longleftrightarrow> (\<forall>h txo. (h, txo) \<in> spends T \<longrightarrow> txHash txo \<in> dom T \<inter> K \<longrightarrow> h \<in> K)"

lemma spends_restrict: "spends (T |` (- K)) = {(h, txo) \<in> spends T. h \<notin> K}"
  by (auto simp: spends_def restrict_map_def split: if_splits)

lemma in_entry_restrict:
  assumes "down_closed T K" "(h, txo) \<in> spends T" "h \<notin> K"
  shows "in_entry g (T |` (- K)) txo = in_entry g T txo" "in_amount g (T |` (- K)) txo = in_amount g T txo" "txHash txo \<in> dom T \<Longrightarrow> txHash txo \<notin> K"
proof -
  show "txHash txo \<in> dom T \<Longrightarrow> txHash txo \<notin> K" using assms by (auto simp: down_closed_def)
  then show "in_entry g (T |` (- K)) txo = in_entry g T txo" by (cases "T (txHash txo)") (auto simp: in_entry_def restrict_map_def)
  then show "in_amount g (T |` (- K)) txo = in_amount g T txo" by (simp add: in_amount_def)
qed

lemma view_restrict:
  assumes "mempool_ok g T" "down_closed T K"
  defines "v \<equiv> view_of g (T |` (- K))"
  shows "v_O v = T |` (- K)" "h \<notin> K \<Longrightarrow> v_E v h = v_E (view_of g T) h" "h \<notin> K \<Longrightarrow> v_F v h = v_F (view_of g T) h"
    "v_L v = {(a, b) \<in> v_L (view_of g T). a \<notin> K \<and> b \<notin> K}"
    "h \<in> dom (T |` (- K)) \<Longrightarrow> spent_nums (v_S v) h = spent_nums (v_S (dropped_view K K (view_of g T))) h"
proof -
  note r = in_entry_restrict[OF assms(2)]
  show "v_O v = T |` (- K)" by (simp add: v_def)
  show "h \<notin> K \<Longrightarrow> v_E v h = v_E (view_of g T) h" by (auto simp: v_def view_def spends_restrict fun_eq_iff r(1))
  show "v_F v h = v_F (view_of g T) h" if "h \<notin> K"
  proof -
    have "(\<Sum>txo | (h, txo) \<in> spends T. in_amount g (T |` (- K)) txo) = (\<Sum>txo | (h, txo) \<in> spends T. in_amount g T txo)"
      by (rule sum.cong) (use r(2)[of h] that in auto)
    then show ?thesis using that by (simp add: v_def view_def spends_restrict)
  qed
  show "v_L v = {(a, b) \<in> v_L (view_of g T). a \<notin> K \<and> b \<notin> K}" by (auto simp: v_def view_def spends_restrict)
  show "spent_nums (v_S v) h = spent_nums (v_S (dropped_view K K (view_of g T))) h" if h: "h \<in> dom (T |` (- K))"
  proof -
    have d: "h \<in> dom T" "h \<notin> K" using h by auto
    have "(\<exists>k. (k, TXO h n) \<in> spends T \<and> k \<notin> K) \<longleftrightarrow> (\<exists>k. (k, TXO h n) \<in> spends T) \<and> \<not> (\<exists>k \<in> K. \<exists>i. v_E (view_of g T) k (TXO h n) = Some (False, i))" for n
    proof -
      have one: "k = k'" if "(k, TXO h n) \<in> spends T" "(k', TXO h n) \<in> spends T" for k k' using assms(1) that by (auto simp: mempool_ok_def)
      have "\<exists>i. in_entry g T (TXO h n) = Some (False, i)" if "(k, TXO h n) \<in> spends T" for k
      proof -
        obtain c i where ci: "T k = Some c" "i \<in> set (vin c)" "prev_txo i = TXO h n" using \<open>(k, TXO h n) \<in> spends T\<close> by (auto simp: spends_def)
        then obtain b info where e: "in_entry g T (TXO h n) = Some (b, info)" using assms(1) unfolding mempool_ok_def by (metis option.exhaust surj_pair)
        have "\<not> b" using in_entry_conf[OF e] d(1) by auto
        then show ?thesis using e by simp
      qed
      then have "(\<exists>i. v_E (view_of g T) k (TXO h n) = Some (False, i)) \<longleftrightarrow> (k, TXO h n) \<in> spends T" for k by (auto simp: view_def)
      then show ?thesis using one by blast
    qed
    then show ?thesis using d by (auto simp: v_def spent_nums_def view_def spends_restrict dropped_view_def)
  qed
qed

lemma dropped_rel:
  assumes "mempool_ok g T" "down_closed T K" "txs_rel (dropped_view K K (view_of g T)) t"
  shows "txs_rel (view_of g (T |` (- K))) t"
proof -
  let ?v = "view_of g (T |` (- K))" and ?d = "dropped_view K K (view_of g T)"
  note r = view_restrict[OF assms(1,2)]
  have e: "v_O ?d = T |` (- K)" "v_E ?d = v_E (view_of g T)" "v_F ?d = v_F (view_of g T)" "v_L ?d = {(a, b) \<in> v_L (view_of g T). a \<notin> K \<and> b \<notin> K}"
    by (simp_all add: dropped_view_def)
  have "rel_option (tx_rel ?v h) ((T |` (- K)) h) (map_of t h)" for h
  proof (cases "h \<in> dom (T |` (- K))")
    case True
    then have "tx_rel ?v h c tx = tx_rel ?d h c tx" for c tx using r(2,3)[of h] r(5)[OF True] by (auto simp: tx_rel_def e r(4))
    then have "tx_rel ?v h = tx_rel ?d h" by blast
    then show ?thesis using txs_relD[OF assms(3), of h] by (simp add: e)
  next
    case False
    then have "(T |` (- K)) h = None" by (auto simp: restrict_map_def)
    then show ?thesis using txs_relD[OF assms(3), of h] by (simp add: e)
  qed
  then show ?thesis using assms(3) by (simp add: txs_rel_def)
qed

section \<open>The whole operation\<close>

lemma kids_view:
  assumes "txs_rel (view_of g T) t"
  shows "kids t = v_L (view_of g T)"
proof -
  have sub: "v_L (view_of g T) \<subseteq> dom T \<times> dom T" by (auto simp: view_def spends_def)
  have "(h, k) \<in> kids t \<longleftrightarrow> (h, k) \<in> v_L (view_of g T)" for h k
  proof (cases "map_of t h")
    case None
    then have "h \<notin> dom T" using txs_rel_None[OF assms, of h] by auto
    then show ?thesis using None sub by (auto simp: kids_def)
  next
    case (Some tx)
    then show ?thesis using txs_rel_Some[OF assms Some] by (auto simp: kids_def tx_rel_def)
  qed
  then show ?thesis by auto
qed

lemma grow_ok:
  assumes "txs_rel (view_of g T) (txs m)"
  shows "set (growTxHashSetToIncludeDescendants m txids) = (v_L (view_of g T))\<^sup>* `` set txids"
  using grow_loop_ok[of txids txids "txs m"] kids_view[OF assms] by (auto simp: growTxHashSetToIncludeDescendants_def)

lemma descendants_closed: "down_closed T ((v_L (view_of g T))\<^sup>* `` X)"
proof -
  have "(txHash txo, h) \<in> v_L (view_of g T)" if "(h, txo) \<in> spends T" "txHash txo \<in> dom T" for h txo
    using that by (cases txo) (auto simp: view_def)
  then show ?thesis unfolding down_closed_def by (blast intro: rtrancl_into_rtrancl)
qed

lemma has_parents_left: "mempool_ok g T \<Longrightarrow> down_closed T K \<Longrightarrow> h \<in> dom T - K \<Longrightarrow> has_parents (view_of g (T |` (- K))) h = has_parents (view_of g T) h"
  unfolding has_parents_def view_restrict(4) using in_entry_restrict(3)[of T K h] by (auto simp: view_def) (metis TXO.sel(1) domI)

lemma dsps_left:
  assumes "mempool_inv g T m" "down_closed T K" "dsps_inv d'" "dsps_abs d' = forget_set K (dsps_abs (dsps m))"
  shows "Range (aff d') \<subseteq> dom (T |` (- K)) \<and> aff d' O v_L (view_of g (T |` (- K))) \<subseteq> aff d'"
proof -
  have "Range (aff (dsps m)) \<subseteq> dom T" "aff (dsps m) O v_L (view_of g T) \<subseteq> aff (dsps m)" "mempool_ok g T" using assms(1) by (simp_all add: mempool_inv_def)
  then show ?thesis unfolding aff_forget[OF assms(4)] view_restrict(4)[OF \<open>mempool_ok g T\<close> assms(2)] by auto
qed

lemma mempool_ok_restrict:
  assumes "mempool_ok g T" "down_closed T K"
  shows "mempool_ok g (T |` (- K))"
proof -
  have i: "in_entry g (T |` (- K)) (prev_txo i) \<noteq> None" if "T h = Some c" "h \<notin> K" "i \<in> set (vin c)" for h c i
    using that assms(1) in_entry_restrict(1)[OF assms(2), of h "prev_txo i"] by (auto simp: mempool_ok_def spends_def)
  have "finite (dom (T |` (- K)))" using assms(1) by (simp add: mempool_ok_def)
  moreover have "\<forall>h h' txo. (h, txo) \<in> spends (T |` (- K)) \<longrightarrow> (h', txo) \<in> spends (T |` (- K)) \<longrightarrow> h = h'"
    using assms(1) unfolding spends_restrict mempool_ok_def by blast
  moreover have "distinct (map prev_txo (vin c)) \<and> length (vout c) \<le> 2 ^ 32 \<and> (\<forall>i \<in> set (vin c). in_entry g (T |` (- K)) (prev_txo i) \<noteq> None)"
    if "(T |` (- K)) h = Some c" for h c
  proof -
    have h: "T h = Some c" "h \<notin> K" using that by (auto simp: restrict_map_def split: if_splits)
    then show ?thesis using assms(1) i[OF h] by (simp add: mempool_ok_def)
  qed
  ultimately show ?thesis unfolding mempool_ok_def by blast
qed

text \<open>The vectors after the loop, without the transactions of a closed set.\<close>

lemma left_repr:
  assumes "mempool_inv g T m" "down_closed T (set ids)" "txs_rel (view_of g (T |` (- set ids))) (txs m1)" "hashXTxs m1 = hashXTxs m"
    and "distinct A" "\<And>sh. sh \<notin> set A \<Longrightarrow> mp_touching (view_of g T) sh \<inter> set ids = {}"
  defines "v \<equiv> view_of g (T |` (- set ids))" and "m' \<equiv> rmTxsInHashXTxs ids A [] m1"
  shows "mp_rel v m' \<and> (\<forall>sh. ordered_at (has_parents v) m' sh) \<and> dsps m' = dsps m1"
proof -
  have ok: "mempool_ok g T" and hx: "hxs_ok (hashXTxs m)" "refs (hashXTxs m) = mp_touching (view_of g T)"
    and ord: "\<And>sh. pred_option (ordered (has_parents (view_of g T))) (map_of (hashXTxs m) sh)"
    using assms(1) by (simp_all add: mempool_inv_def mempool_repr_def mp_rel_def ordered_at_def)
  have tch: "mp_touching v sh = mp_touching (view_of g T) sh - set ids" for sh
    using view_restrict(2)[OF ok assms(2)] by (auto simp: v_def mp_touching_def restrict_map_def split: if_splits)
  have vec: "distinct vec \<and> ordered (has_parents v) (filter (\<lambda>h. h \<notin> set ids) vec)" if "map_of (hashXTxs m) sh = Some vec" for sh vec
  proof -
    have "set vec \<subseteq> dom T" using that hx(2) touching_dom[of "view_of g T" sh] by (auto simp: refs_def dest!: fun_cong[of _ _ sh])
    then have "ordered (has_parents v) (filter (\<lambda>h. h \<notin> set ids) vec) = ordered (has_parents (view_of g T)) (filter (\<lambda>h. h \<notin> set ids) vec)"
      unfolding v_def using has_parents_left[OF ok assms(2)] by (intro ordered_cong) auto
    then show ?thesis using ord[of sh] that by (auto simp: ordered_def intro: sorted_filter)
  qed
  show ?thesis unfolding m'_def
  proof (rule removed_repr)
    show "txs_rel v (txs m1)" using assms(3) by (simp add: v_def)
    show "pred_option distinct (map_of (hashXTxs m1) sh)" for sh using vec[of sh] by (cases "map_of (hashXTxs m) sh") (simp_all add: assms(4))
    show "pred_option (\<lambda>vec. ordered (has_parents v) (filter (\<lambda>h. h \<notin> set ids) vec)) (map_of (hashXTxs m1) sh)" for sh
      using vec[of sh] by (cases "map_of (hashXTxs m) sh") (simp_all add: assms(4))
  qed (use hx tch assms(4,5,6) in simp_all)
qed

lemma drop_dsps_ok:
  assumes "dsps_inv d" "(if \<not> dsps_empty d then rm_dsps True (filter (\<lambda>tid. dspHashesForTx tid d \<noteq> None) ids) d else ([], d)) = (B, d')"
  shows "dsps_inv d' \<and> dsps_abs d' = forget_set (set ids) (dsps_abs d)"
proof (cases "dsps_empty d")
  case True
  then have "dsps_abs d = Map.empty" by (auto simp: dsps_empty_def dsps_abs_def dsps_get_def fun_eq_iff)
  then show ?thesis using True assms by (simp add: forget_set_def fun_eq_iff)
next
  case False
  have "forget_set (set (filter (\<lambda>tid. dspHashesForTx tid d \<noteq> None) ids)) (dsps_abs d) = forget_set (set ids) (dsps_abs d)"
    by (rule forget_set_cong[OF assms(1)]) (use has_dsps[OF assms(1)] in auto)
  then show ?thesis using rm_dsps_ok[OF assms(1), of True] False assms(2) by simp
qed

lemma dropTxs_ok:
  assumes "mempool_inv g T m" "dropTxs A txids m = (m', dropped, A', dspAffected)"
  defines "K \<equiv> (v_L (view_of g T))\<^sup>* `` set txids"
  shows "set dropped = K \<and> mempool_inv g (T |` (- K)) m' \<and> dsps_abs (dsps m') = forget_set K (dsps_abs (dsps m)) \<and>
    set A' = set A \<union> (\<Union>h \<in> K. case T h of None \<Rightarrow> {} | Some c \<Rightarrow> touched c (v_E (view_of g T) h))"
proof -
  let ?ids = "growTxHashSetToIncludeDescendants m txids" and ?v = "view_of g (T |` (- K))"
  have ok: "mempool_ok g T" and t: "txs_rel (view_of g T) (txs m)" and d: "dsps_inv (dsps m)"
    using assms(1) by (simp_all add: mempool_inv_def mempool_repr_def mp_rel_def)
  have K: "set ?ids = K" and cl: "down_closed T K" unfolding K_def by (rule grow_ok[OF t], rule descendants_closed)
  obtain m1 A1 where f: "fold (drop_tx ?ids) ?ids (m, []) = (m1, A1)" by fastforce
  note r = drop_all_ok[OF view_sound t order_refl f, unfolded K, simplified]
  obtain B d' where dd: "(if \<not> dsps_empty (dsps m) then rm_dsps True (filter (\<lambda>tid. dspHashesForTx tid (dsps m) \<noteq> None) ?ids) (dsps m) else ([], dsps m)) = (B, d')"
    by fastforce
  have t1: "txs_rel ?v (txs m1)" using dropped_rel[OF ok cl] r by blast
  have aff1: "mp_touching (view_of g T) sh \<inter> K = {}" if "sh \<notin> set A1" for sh using that r by (auto simp: mp_touching_def)
  let ?m2 = "rmTxsInHashXTxs ?ids A1 [] m1"
  have m2: "mp_rel ?v ?m2" "\<forall>sh. ordered_at (has_parents ?v) ?m2 sh" "dsps ?m2 = dsps m"
    using left_repr[OF assms(1), of ?ids m1 A1] cl t1 aff1 r unfolding K by simp_all
  have m': "m' = ?m2\<lparr>dsps := d'\<rparr>" "dropped = ?ids" "A' = fold List.insert A1 A"
    using assms(2) unfolding dropTxs_def Let_def f prod.case m2(3) dd by auto
  have dok: "dsps_inv d'" "dsps_abs d' = forget_set K (dsps_abs (dsps m))" using drop_dsps_ok[OF d dd] by (simp_all add: K)
  have "mempool_inv g (T |` (- K)) m'"
    using dsps_left[OF assms(1) cl dok] dok(1) m2 mempool_ok_restrict[OF ok cl] unfolding m'(1) by (simp add: mempool_inv_def mempool_repr_def ordered_at_def)
  then show ?thesis using K r dok(2) by (simp add: m' set_fold_insert Un_commute)
qed

end
