(* ===== verification/Mempool_Confirm.thy ===== *)
theory Mempool_Confirm
  imports Mempool_Drop
begin

text \<open>
  \<open>confirmedInBlock\<close>: transactions of a block leave the mempool, and the spends of their outputs by transactions that stay become
  spends of confirmed outputs.
\<close>

declare map_of_eq_Some_iff [simp del]

section \<open>Recategorising spends\<close>

definition confirm_info :: "BlockHeight \<Rightarrow> TxNum \<Rightarrow> TXOInfo \<Rightarrow> TXOInfo" where
  "confirm_info ht n i = i\<lparr>ti_confirmedHeight := Some ht, ti_txNum := n\<rparr>"

definition conf :: "(bytes \<rightharpoonup> TxNum) \<Rightarrow> BlockHeight \<Rightarrow> (TXO \<rightharpoonup> bool \<times> TXOInfo) \<Rightarrow> TXO \<rightharpoonup> bool \<times> TXOInfo" where
  "conf M ht e txo = (case e txo of
     Some (False, i) \<Rightarrow> (case M (txHash txo) of None \<Rightarrow> Some (False, i) | Some n \<Rightarrow> Some (True, confirm_info ht n i))
   | r \<Rightarrow> r)"

lemma move_spends:
  assumes "distinct (keys xs)" "\<forall>txo \<in> set (keys xs). map_of (confirmedSpends io) txo = None"
    and "distinct (keys (confirmedSpends io))" "distinct (keys (unconfirmedSpends io))"
    and "fold (move_spend M ht) xs io = io'"
  shows "distinct (keys (confirmedSpends io')) \<and> distinct (keys (unconfirmedSpends io')) \<and> utxo io' = utxo io \<and>
    map_of (unconfirmedSpends io') = (\<lambda>txo. if txo \<in> set (keys xs) \<and> M (txHash txo) \<noteq> None then None else map_of (unconfirmedSpends io) txo) \<and>
    map_of (confirmedSpends io') = (\<lambda>txo. case map_of xs txo of None \<Rightarrow> map_of (confirmedSpends io) txo
      | Some i \<Rightarrow> (case M (txHash txo) of None \<Rightarrow> map_of (confirmedSpends io) txo | Some n \<Rightarrow> Some (confirm_info ht n i)))"
  using assms
proof (induction xs arbitrary: io)
  case (Cons p xs)
  obtain txo i where p: "p = (txo, i)" by (cases p)
  have n: "map_of xs txo = None" using Cons.prems(1) by (auto simp: p map_of_eq_None_iff)
  show ?case
  proof (cases "M (txHash txo)")
    case None
    then have "move_spend M ht p io = io" by (simp add: move_spend_def p)
    then show ?thesis using Cons.IH[of io] Cons.prems None n by (auto simp: p fun_eq_iff)
  next
    case (Some k)
    let ?io = "io\<lparr>unconfirmedSpends := AList.delete txo (unconfirmedSpends io), confirmedSpends := AList.update txo (confirm_info ht k i) (confirmedSpends io)\<rparr>"
    have e: "move_spend M ht p io = ?io" using Some Cons.prems(2) by (simp add: move_spend_def p confirm_info_def)
    have f: "fold (move_spend M ht) xs ?io = io'" using Cons.prems(5) by (simp add: e)
    have c: "\<forall>x \<in> set (keys xs). map_of (confirmedSpends ?io) x = None" and d: "distinct (keys xs)" using Cons.prems(1,2) by (auto simp: p)
    have "distinct (keys (confirmedSpends ?io))" "distinct (keys (unconfirmedSpends ?io))" using Cons.prems(3,4) by simp_all
    note IH = Cons.IH[OF d c this f]
    have x: "txo \<notin> set (keys xs)" using Cons.prems(1) by (simp add: p)
    show ?thesis using IH Some n x by (simp add: p fun_eq_iff cong: option.case_cong if_cong)
  qed
qed (auto simp: fun_eq_iff)

lemma conf_touched [simp]: "touched c (conf M ht e) = touched c e"
proof -
  have "(\<exists>b i. conf M ht e txo = Some (b, i) \<and> ti_hashX i = sh) \<longleftrightarrow> (\<exists>b i. e txo = Some (b, i) \<and> ti_hashX i = sh)" for txo sh
    by (auto simp: conf_def confirm_info_def split: option.split bool.split)
  then have "(\<exists>txo b i. sh = ti_hashX i \<and> conf M ht e txo = Some (b, i)) \<longleftrightarrow> (\<exists>txo b i. sh = ti_hashX i \<and> e txo = Some (b, i))" for sh by metis
  then show ?thesis by (simp add: touched_def)
qed

lemma recategorize_io_ok:
  assumes "io_rel c e spent sh io"
  shows "io_rel c (conf M ht e) spent sh (recategorize_io M ht io)"
proof -
  have r: "distinct (keys (confirmedSpends io))" "distinct (keys (unconfirmedSpends io))" "distinct (utxo io)" "set (utxo io) = out_nums (vout c) sh - spent"
      "map_of (confirmedSpends io) = spends_of True e sh" "map_of (unconfirmedSpends io) = spends_of False e sh"
    using assms by (simp_all add: io_rel_def)
  have n: "\<forall>txo \<in> set (keys (unconfirmedSpends io)). map_of (confirmedSpends io) txo = None"
    unfolding set_keys r(5,6) by (auto simp: spends_of_def split: option.splits if_splits)
  note m = move_spends[OF r(2) n r(1,2) recategorize_io_def[symmetric]]
  have k: "txo \<in> set (keys (unconfirmedSpends io)) \<longleftrightarrow> spends_of False e sh txo \<noteq> None" for txo unfolding set_keys r(6) by auto
  have "map_of (unconfirmedSpends (recategorize_io M ht io)) = spends_of False (conf M ht e) sh"
    using m unfolding k r(6) by (auto simp: fun_eq_iff spends_of_def conf_def split: option.split bool.split)
  moreover have "map_of (confirmedSpends (recategorize_io M ht io)) = spends_of True (conf M ht e) sh"
    using m unfolding r(5,6) by (auto simp: fun_eq_iff spends_of_def conf_def confirm_info_def split: option.split bool.split)
  ultimately show ?thesis using m r(3,4) by (simp add: io_rel_def)
qed

lemma hx_rel_recategorize:
  assumes "hx_rel c e spent hx"
  shows "hx_rel c (conf M ht e) spent (map (\<lambda>(sh, io). (sh, recategorize_io M ht io)) hx)"
proof -
  let ?hx = "map (\<lambda>(sh, io). (sh, recategorize_io M ht io)) hx"
  have m: "map_of ?hx sh = map_option (recategorize_io M ht) (map_of hx sh)" for sh by (simp add: map_of_map)
  have k: "keys ?hx = keys hx" by (simp add: case_prod_beta comp_def)
  have "case map_of ?hx sh of None \<Rightarrow> sh \<notin> touched c e | Some io \<Rightarrow> sh \<in> touched c e \<and> io_rel c (conf M ht e) spent sh io" for sh
    using hx_rel_None[OF assms, of sh] hx_relD[OF assms, of sh] recategorize_io_ok[of c e spent sh _ M ht] unfolding m
    by (cases "map_of hx sh") simp_all
  moreover have "distinct (keys ?hx)" unfolding k using assms by (simp add: hx_rel_def)
  ultimately show ?thesis unfolding hx_rel_def conf_touched by blast
qed

section \<open>The loop\<close>

text \<open>The view when the transactions \<open>X\<close> have left and the spends of \<open>R\<close> have been recategorised.\<close>

definition cview :: "(bytes \<rightharpoonup> TxNum) \<Rightarrow> BlockHeight \<Rightarrow> bytes set \<Rightarrow> bytes set \<Rightarrow> mview \<Rightarrow> mview" where
  "cview M ht X R v = v\<lparr>v_O := v_O v |` (- X), v_E := (\<lambda>h. if h \<in> R then conf M ht (v_E v h) else v_E v h),
     v_L := {(a, b) \<in> v_L v. a \<notin> X \<and> b \<notin> X}\<rparr>"

definition settled :: "(bytes \<rightharpoonup> TxNum) \<Rightarrow> BlockHeight \<Rightarrow> mview \<Rightarrow> bytes \<Rightarrow> bool" where
  "settled M ht v h \<longleftrightarrow> (\<forall>txo i. conf M ht (v_E v h) txo \<noteq> Some (False, i))"

definition touched_by :: "mview \<Rightarrow> bytes set \<Rightarrow> bytes set" where
  "touched_by v X = (\<Union>h \<in> X. case v_O v h of None \<Rightarrow> {} | Some c \<Rightarrow> touched c (v_E v h))"

definition cinv :: "mview \<Rightarrow> (bytes \<rightharpoonup> TxNum) \<Rightarrow> BlockHeight \<Rightarrow> Mempool \<Rightarrow> bytes set \<Rightarrow> bytes set \<Rightarrow> bytes set \<Rightarrow> bytes set \<Rightarrow> ConfirmState \<Rightarrow> bool" where
  "cinv v M ht m X R B D s \<longleftrightarrow> txs_rel (cview M ht X R v) (txs (cs_m s)) \<and> hashXTxs (cs_m s) = hashXTxs m \<and> dsps (cs_m s) = dsps m \<and>
     set (recategorized s) = R \<and> R \<inter> dom M = {} \<and> set (needingSort s) = touched_by v {h \<in> R. settled M ht v h} \<and>
     set (cs_affected s) = touched_by v B \<union> set (needingSort s) \<and> distinct (cs_affected s) \<and> set (dspTxids s) = D"

lemma touched_by_insert: "touched_by v (insert h X) = (case v_O v h of None \<Rightarrow> {} | Some c \<Rightarrow> touched c (v_E v h)) \<union> touched_by v X"
  by (simp add: touched_by_def)

lemma settled_count:
  assumes "hx_rel c e spent hx"
  shows "sum_list (map (\<lambda>(sh, io). length (unconfirmedSpends io)) hx) = 0 \<longleftrightarrow> (\<forall>txo i. e txo \<noteq> Some (False, i))"
proof -
  have "sum_list (map (\<lambda>(sh, io). length (unconfirmedSpends io)) hx) = 0 \<longleftrightarrow> (\<forall>sh io. (sh, io) \<in> set hx \<longrightarrow> set (keys (unconfirmedSpends io)) = {})" by auto
  also have "\<dots> \<longleftrightarrow> (\<forall>sh txo. \<not> (\<exists>io. (sh, io) \<in> set hx \<and> txo \<in> set (keys (unconfirmedSpends io))))"
    unfolding set_eq_iff empty_iff by blast
  also have "\<dots> \<longleftrightarrow> (\<forall>txo i. e txo \<noteq> Some (False, i))" unfolding unconfirmed_keys[OF assms] by blast
  finally show ?thesis .
qed

lemma distinct_fold_insert [simp]: "distinct ys \<Longrightarrow> distinct (fold List.insert xs ys)"
  by (induction xs arbitrary: ys) auto

lemma confirm_child_ok:
  assumes "cinv v M ht m X R B D s" "X \<subseteq> dom M"
  shows "cinv v M ht m X (if M k = None \<and> k \<in> dom (v_O v) then insert k R else R) B D (confirm_child M ht k s)"
proof (cases "M k \<noteq> None \<or> map_of (txs (cs_m s)) k = None \<or> k \<in> set (recategorized s)")
  case True
  note i = assms(1)[unfolded cinv_def]
  have O: "map_of (txs (cs_m s)) k = None \<longleftrightarrow> k \<notin> dom (v_O v |` (- X))" using txs_rel_None[of "cview M ht X R v" "txs (cs_m s)" k] i by (simp add: cview_def domIff del: dom_restrict)
  have "k \<notin> X" if "M k = None" using assms(2) that by auto
  then have "M k = None \<and> k \<in> dom (v_O v) \<longrightarrow> k \<in> R" using True i O by auto
  then have "(if M k = None \<and> k \<in> dom (v_O v) then insert k R else R) = R" by auto
  then show ?thesis using assms(1) True by (simp add: confirm_child_def)
next
  case False
  note i = assms(1)[unfolded cinv_def]
  let ?w = "cview M ht X R v" and ?t = "txs (cs_m s)"
  from False obtain tx where tx: "map_of ?t k = Some tx" by auto
  obtain c where c: "v_O ?w k = Some c" "tx_rel ?w k c tx" using txs_rel_Some[OF _ tx, of ?w] i by blast
  have kR: "k \<notin> R" "M k = None" and kO: "v_O v k = Some c" using False i c(1) by (auto simp: cview_def restrict_map_def split: if_splits)
  let ?hx = "map (\<lambda>(sh, io). (sh, recategorize_io M ht io)) (hashXs tx)"
  have "hx_rel c (v_E v k) (spent_nums (v_S v) k) (hashXs tx)" using c(2) kR by (simp add: tx_rel_def cview_def)
  from hx_rel_recategorize[OF this] have hx: "hx_rel c (conf M ht (v_E v k)) (spent_nums (v_S v) k) ?hx" .
  have rel: "txs_rel (cview M ht X (insert k R) v) (map_adjust k (\<lambda>tx. tx\<lparr>hashXs := ?hx\<rparr>) ?t)"
  proof (rule txs_rel_adjust[of ?w])
    fix c' tx' assume "tx_rel ?w k c' tx'" "v_O ?w k = Some c'"
    then show "tx_rel (cview M ht X (insert k R) v) k c' (tx'\<lparr>hashXs := ?hx\<rparr>)" using hx c(1) by (simp add: tx_rel_def cview_def)
  qed (use i in \<open>auto simp: cview_def tx_rel_def\<close>)
  have keys: "set (keys ?hx) = touched c (v_E v k)" using hx_rel_keys[OF hx] by simp
  have set: "{h \<in> insert k R. settled M ht v h} = (if settled M ht v k then insert k {h \<in> R. settled M ht v h} else {h \<in> R. settled M ht v h})" by auto
  have n: "(sum_list (map (\<lambda>(sh, io). length (unconfirmedSpends io)) ?hx) = 0) = settled M ht v k" unfolding settled_def by (rule settled_count[OF hx])
  have e: "confirm_child M ht k s = s\<lparr>cs_m := (cs_m s)\<lparr>txs := map_adjust k (\<lambda>tx. tx\<lparr>hashXs := ?hx\<rparr>) (txs (cs_m s))\<rparr>,
      cs_affected := (if settled M ht v k then fold List.insert (keys ?hx) (cs_affected s) else cs_affected s),
      needingSort := (if settled M ht v k then fold List.insert (keys ?hx) (needingSort s) else needingSort s),
      recategorized := List.insert k (recategorized s)\<rparr>"
    using False tx n by (simp add: confirm_child_def recategorizeSpendsForChild_def Let_def del: map_map)
  have if1: "(if M k = None \<and> k \<in> dom (v_O v) then insert k R else R) = insert k R" using kR kO by auto
  show ?thesis
  proof (cases "settled M ht v k")
    case True
    have f: "set (fold List.insert (keys ?hx) ys) = touched c (v_E v k) \<union> set ys" for ys by (simp only: set_fold_insert keys)
    have "R \<inter> dom M = {}" using i by blast
    with True show ?thesis using i rel kR kO f unfolding e if1 cinv_def set by (simp add: touched_by_insert domIff ac_simps del: map_map set_map)
  next
    case False
    then show ?thesis using i rel kR kO unfolding e if1 cinv_def set by (simp add: domIff)
  qed
qed

lemma confirm_children_ok:
  assumes "cinv v M ht m X R B D s" "X \<subseteq> dom M"
  shows "cinv v M ht m X (R \<union> {k \<in> set ks. M k = None \<and> k \<in> dom (v_O v)}) B D (fold (confirm_child M ht) ks s)"
  using assms(1)
proof (induction ks arbitrary: R s)
  case (Cons k ks)
  have e: "(if M k = None \<and> k \<in> dom (v_O v) then insert k R else R) \<union> {k \<in> set ks. M k = None \<and> k \<in> dom (v_O v)} =
      R \<union> {j \<in> set (k # ks). M j = None \<and> j \<in> dom (v_O v)}" by auto
  from Cons.IH[OF confirm_child_ok[OF Cons.prems assms(2), of k]] show ?case unfolding e by simp
qed simp

text \<open>One transaction of the block.\<close>

definition kids_out :: "mview \<Rightarrow> (bytes \<rightharpoonup> TxNum) \<Rightarrow> bytes set \<Rightarrow> bytes set" where
  "kids_out v M X = {k. k \<notin> dom M \<and> (\<exists>p \<in> X. (p, k) \<in> v_L v)}"

definition with_dsps :: "mview \<Rightarrow> Mempool \<Rightarrow> bytes set \<Rightarrow> bytes set" where
  "with_dsps v m X = {h \<in> X. h \<in> dom (v_O v) \<and> dspHashesForTx h (dsps m) \<noteq> None}"

lemma cview_insert:
  "cview M ht (insert h X) R v = rm_view h (cview M ht X R v)"
proof -
  have "v_O v |` (- insert h X) = (v_O v |` (- X))(h := None)" by (auto simp: restrict_map_def)
  moreover have "{(a, b) \<in> v_L v. a \<notin> insert h X \<and> b \<notin> insert h X} = {(a, b) \<in> {(a, b) \<in> v_L v. a \<notin> X \<and> b \<notin> X}. a \<noteq> h \<and> b \<noteq> h}" by blast
  ultimately show ?thesis unfolding cview_def rm_view_def by (simp del: insert_iff)
qed

lemma confirm_tx_ok:
  assumes "sound_view v" "cinv v M ht m X (kids_out v M X) X (with_dsps v m X) s" "X \<subseteq> dom M" "h \<in> dom M" "h \<notin> X"
  shows "cinv v M ht m (insert h X) (kids_out v M (insert h X)) (insert h X) (with_dsps v m (insert h X)) (confirm_tx M ht h s)"
proof -
  let ?w = "cview M ht X (kids_out v M X) v" and ?t = "txs (cs_m s)"
  note i = assms(2)[unfolded cinv_def]
  have t: "txs_rel ?w ?t" using i by blast
  have L: "v_L v \<subseteq> dom (v_O v) \<times> dom (v_O v)" using assms(1) by (simp add: sound_view_def)
  show ?thesis
  proof (cases "map_of ?t h")
    case None
    then have n: "v_O v h = None" using txs_rel_None[OF t, of h] assms(5) by (simp add: cview_def restrict_map_def)
    then have "\<And>a b. (a, b) \<in> v_L v \<Longrightarrow> a \<noteq> h \<and> b \<noteq> h" using L by auto
    then have "kids_out v M (insert h X) = kids_out v M X" "with_dsps v m (insert h X) = with_dsps v m X"
        "{(a, b) \<in> v_L v. a \<notin> insert h X \<and> b \<notin> insert h X} = {(a, b) \<in> v_L v. a \<notin> X \<and> b \<notin> X}"
      using n by (auto simp: kids_out_def with_dsps_def)
    moreover have "v_O v |` (- insert h X) = v_O v |` (- X)" using n by (auto simp: restrict_map_def)
    ultimately show ?thesis using assms(2) None n by (simp add: confirm_tx_def cinv_def cview_def touched_by_insert)
  next
    case (Some tx)
    obtain c where c: "v_O ?w h = Some c" "tx_rel ?w h c tx" using txs_rel_Some[OF t Some] by blast
    have hO: "v_O v h = Some c" "v_E ?w h = v_E v h" using c(1) assms(4,5) by (auto simp: cview_def kids_out_def restrict_map_def)
    have ks: "set (children tx) = {k. k \<notin> X \<and> (h, k) \<in> v_L v}" "set (parents tx) = {k. k \<notin> X \<and> (k, h) \<in> v_L v}" "mp_hash tx = h"
      using c(2) assms(5) by (auto simp: tx_rel_def cview_def)
    have keys: "set (keys (hashXs tx)) = touched c (v_E v h)" using c(2) hx_rel_keys[of c "v_E ?w h"] unfolding hO(2) tx_rel_def by blast
    define s1 where "s1 = s\<lparr>cs_affected := fold List.insert (keys (hashXs tx)) (cs_affected s),
        dspTxids := (if dspHashesForTx h (dsps (cs_m s)) \<noteq> None then List.insert h (dspTxids s) else dspTxids s), cs_m := rmTxRpaAssociations tx (cs_m s)\<rparr>"
    have "cinv v M ht m X (kids_out v M X) (insert h X) (with_dsps v m (insert h X)) s1"
      using i hO keys unfolding s1_def cinv_def by (auto simp: set_fold_insert touched_by_insert with_dsps_def simp del: set_map)
    note s2 = confirm_children_ok[OF this assms(3), of "children tx"]
    have R: "kids_out v M X \<union> {k \<in> set (children tx). M k = None \<and> k \<in> dom (v_O v)} = kids_out v M (insert h X)"
      unfolding ks using L assms(3) by (auto simp: kids_out_def domIff)
    let ?s2 = "fold (confirm_child M ht) (children tx) s1"
    note j = s2[unfolded R cinv_def]
    have "txs_rel (cview M ht (insert h X) (kids_out v M (insert h X)) v) (AList.delete h (unlinkFromParentsAndChildren tx (txs (cs_m ?s2))))"
      unfolding cview_insert by (rule txs_rel_erase) (use j ks assms(5) in \<open>auto simp: cview_def\<close>)
    moreover have "confirm_tx M ht h s = ?s2\<lparr>cs_m := (cs_m ?s2)\<lparr>txs := AList.delete h (unlinkFromParentsAndChildren tx (txs (cs_m ?s2)))\<rparr>\<rparr>"
      unfolding confirm_tx_def Some s1_def Let_def by simp
    ultimately show ?thesis using j unfolding cinv_def by simp
  qed
qed

lemma confirm_all_ok:
  assumes "sound_view v" "txs_rel v (txs m)" "distinct xs" "set xs \<subseteq> dom M"
  shows "cinv v M ht m (set xs) (kids_out v M (set xs)) (set xs) (with_dsps v m (set xs))
    (fold (confirm_tx M ht) xs \<lparr> cs_m = m, cs_affected = [], needingSort = [], recategorized = [], dspTxids = [] \<rparr>)"
  using assms(3,4)
proof (induction xs rule: rev_induct)
  case Nil
  have "v_O v |` UNIV = v_O v" by (simp add: restrict_map_def)
  then show ?case using assms(2) by (simp add: cinv_def cview_def kids_out_def touched_by_def with_dsps_def)
next
  case (snoc h xs)
  then show ?case using confirm_tx_ok[OF assms(1), of M ht m "set xs" _ h] by simp
qed

section \<open>The set that is left\<close>

text \<open>What a block does to the mempool's surroundings: the parents of its transactions are in the block or already confirmed, and
  the outputs it creates can be looked up, with their height and number, where transactions of the mempool spend them.\<close>

definition block_confirms :: "getter \<Rightarrow> (bytes \<rightharpoonup> CTransaction) \<Rightarrow> (bytes \<rightharpoonup> TxNum) \<Rightarrow> BlockHeight \<Rightarrow> getter \<Rightarrow> bool" where
  "block_confirms g T M ht g' \<longleftrightarrow>
     (\<forall>h txo. (h, txo) \<in> spends T \<longrightarrow> h \<in> dom M \<longrightarrow> txHash txo \<in> dom T \<longrightarrow> txHash txo \<in> dom M) \<and>
     (\<forall>h txo. (h, txo) \<in> spends T \<longrightarrow> h \<notin> dom M \<longrightarrow>
        (case T (txHash txo) of
           None \<Rightarrow> g' txo = g txo
         | Some c \<Rightarrow> (case M (txHash txo) of None \<Rightarrow> True
             | Some n \<Rightarrow> g' txo = Inr (Some (confirm_info ht n (out_entry (vout c ! unat (outN txo))))))))"

lemma in_entry_confirmed:
  assumes "block_confirms g T M ht g'" "mempool_ok g T" "(h, txo) \<in> spends T" "h \<notin> dom M"
  shows "in_entry g' (T |` (- dom M)) txo = conf M ht (\<lambda>_. in_entry g T txo) txo"
proof -
  have b: "case T (txHash txo) of None \<Rightarrow> g' txo = g txo
      | Some c \<Rightarrow> (case M (txHash txo) of None \<Rightarrow> True | Some n \<Rightarrow> g' txo = Inr (Some (confirm_info ht n (out_entry (vout c ! unat (outN txo))))))"
    using assms(1,3,4) unfolding block_confirms_def by blast
  have r: "in_entry g T txo \<noteq> None" using assms(2,3) by (auto simp: mempool_ok_def spends_def)
  show ?thesis
  proof (cases "T (txHash txo)")
    case None
    then show ?thesis using b r by (auto simp: in_entry_def conf_def restrict_map_def split: sum.splits option.splits)
  next
    case (Some c)
    then have e: "in_entry g T txo = Some (False, out_entry (vout c ! unat (outN txo)))" using r by (auto simp: in_entry_def split: if_splits)
    show ?thesis
    proof (cases "M (txHash txo)")
      case None
      then have "(T |` (- dom M)) (txHash txo) = Some c" using Some by (simp add: restrict_map_def domIff)
      then show ?thesis using e None Some by (simp add: in_entry_def conf_def)
    next
      case (Some n)
      then have "(T |` (- dom M)) (txHash txo) = None" by (simp add: restrict_map_def domIff)
      then show ?thesis using e Some b \<open>T (txHash txo) = Some c\<close> by (simp add: in_entry_def conf_def)
    qed
  qed
qed

lemma conf_amount: "(case conf M ht e txo of None \<Rightarrow> 0 | Some (b, i) \<Rightarrow> ti_amount i) = (case e txo of None \<Rightarrow> 0 | Some (b, i) \<Rightarrow> ti_amount i)"
  by (auto simp: conf_def confirm_info_def split: option.split bool.split)

lemma view_confirmed:
  assumes "block_confirms g T M ht g'" "mempool_ok g T"
  defines "v \<equiv> view_of g T" and "v' \<equiv> view_of g' (T |` (- dom M))"
  shows "v_O v' = T |` (- dom M)" "h \<notin> dom M \<Longrightarrow> v_E v' h = conf M ht (v_E v h)" "h \<notin> dom M \<Longrightarrow> v_F v' h = v_F v h"
    "v_L v' = {(a, b) \<in> v_L v. a \<notin> dom M \<and> b \<notin> dom M}"
    "h \<in> dom (T |` (- dom M)) \<Longrightarrow> spent_nums (v_S v') h = spent_nums (v_S v) h"
proof -
  note e = in_entry_confirmed[OF assms(1,2)]
  show "v_O v' = T |` (- dom M)" by (simp add: v'_def)
  show "v_E v' h = conf M ht (v_E v h)" if "h \<notin> dom M"
    using e[of h] that by (auto simp: v_def v'_def view_def spends_restrict fun_eq_iff conf_def)
  show "v_F v' h = v_F v h" if h: "h \<notin> dom M"
  proof -
    have "in_amount g' (T |` (- dom M)) txo = in_amount g T txo" if "(h, txo) \<in> spends T" for txo
      unfolding in_amount_def e[OF that h] by (rule conf_amount)
    then have "(\<Sum>txo | (h, txo) \<in> spends T. in_amount g' (T |` (- dom M)) txo) = (\<Sum>txo | (h, txo) \<in> spends T. in_amount g T txo)"
      by (intro sum.cong) auto
    then show ?thesis using h by (simp add: v_def v'_def view_def spends_restrict)
  qed
  show "v_L v' = {(a, b) \<in> v_L v. a \<notin> dom M \<and> b \<notin> dom M}" by (auto simp: v_def v'_def view_def spends_restrict)
  show "spent_nums (v_S v') h = spent_nums (v_S v) h" if h: "h \<in> dom (T |` (- dom M))"
  proof -
    have up: "txHash txo \<in> dom M" if "(k, txo) \<in> spends T" "k \<in> dom M" "txHash txo \<in> dom T" for k txo
      using assms(1) that unfolding block_confirms_def by blast
    have "k \<notin> dom M" if "(k, TXO h n) \<in> spends T" for k n using up[OF that] h by auto
    then show ?thesis using h by (auto simp: v_def v'_def view_def spent_nums_def spends_restrict)
  qed
qed

lemma unconfirmed_link: "v_E (view_of g T) h txo = Some (False, i) \<Longrightarrow> (txHash txo, h) \<in> v_L (view_of g T)"
  by (cases txo) (auto simp: view_def split: if_splits dest: in_entry_conf)

lemma confirmed_rel:
  assumes "block_confirms g T M ht g'" "mempool_ok g T" "txs_rel (cview M ht (dom M) (kids_out (view_of g T) M (dom M)) (view_of g T)) t"
  shows "txs_rel (view_of g' (T |` (- dom M))) t"
proof -
  let ?v = "view_of g T" and ?v' = "view_of g' (T |` (- dom M))" and ?R = "kids_out (view_of g T) M (dom M)"
  let ?d = "cview M ht (dom M) ?R ?v"
  note r = view_confirmed[OF assms(1,2)]
  have e: "v_O ?d = T |` (- dom M)" "v_S ?d = v_S ?v" "v_F ?d = v_F ?v" "v_L ?d = {(a, b) \<in> v_L ?v. a \<notin> dom M \<and> b \<notin> dom M}"
    by (simp_all add: cview_def)
  have E: "v_E ?d h = conf M ht (v_E ?v h)" if "h \<notin> dom M" for h
  proof (cases "h \<in> ?R")
    case False
    have "M (txHash txo) = None" if x: "v_E ?v h txo = Some (False, i)" for txo i
    proof (rule ccontr)
      assume "M (txHash txo) \<noteq> None"
      then show False using False \<open>h \<notin> dom M\<close> unconfirmed_link[OF x] by (auto simp: kids_out_def)
    qed
    then have "conf M ht (v_E ?v h) = v_E ?v h" by (auto simp: conf_def fun_eq_iff split: option.split bool.split)
    then show ?thesis using False by (simp add: cview_def)
  qed (simp add: cview_def)
  have "rel_option (tx_rel ?v' h) ((T |` (- dom M)) h) (map_of t h)" for h
  proof (cases "h \<in> dom (T |` (- dom M))")
    case True
    then have "tx_rel ?v' h c tx = tx_rel ?d h c tx" for c tx
      using r(2,3)[of h] r(5)[OF True] E[of h] by (auto simp: tx_rel_def e r(4))
    then have "tx_rel ?v' h = tx_rel ?d h" by blast
    then show ?thesis using txs_relD[OF assms(3), of h] by (simp add: e)
  next
    case False
    then have "(T |` (- dom M)) h = None" by (auto simp: restrict_map_def)
    then show ?thesis using txs_relD[OF assms(3), of h] by (simp add: e)
  qed
  then show ?thesis using assms(3) by (simp add: txs_rel_def)
qed

text \<open>A transaction that stays changes its place in the order only if all its parents were confirmed, and then its spends are settled.\<close>

lemma has_parents_confirmed:
  assumes "block_confirms g T M ht g'" "mempool_ok g T" "h \<in> dom T - dom M"
    and "\<not> (h \<in> kids_out (view_of g T) M (dom M) \<and> settled M ht (view_of g T) h)"
  shows "has_parents (view_of g' (T |` (- dom M))) h = has_parents (view_of g T) h"
proof
  assume "has_parents (view_of g T) h"
  then obtain p n where p: "p \<in> dom T" "(h, TXO p n) \<in> spends T" "(p, h) \<in> v_L (view_of g T)" by (auto simp: has_parents_def view_def)
  show "has_parents (view_of g' (T |` (- dom M))) h"
  proof (cases "p \<in> dom M")
    case False
    then show ?thesis using p(3) assms(3) unfolding has_parents_def view_confirmed(4)[OF assms(1,2)] by blast
  next
    case True
    then have "h \<in> kids_out (view_of g T) M (dom M)" using p(3) assms(3) by (auto simp: kids_out_def)
    then obtain txo i where x: "conf M ht (v_E (view_of g T) h) txo = Some (False, i)" using assms(4) by (auto simp: settled_def)
    then have "v_E (view_of g T) h txo = Some (False, i)" "M (txHash txo) = None" by (auto simp: conf_def split: option.splits bool.splits)
    then have "(txHash txo, h) \<in> v_L (view_of g T)" "txHash txo \<notin> dom M" using unconfirmed_link[of g T h txo i] by auto
    then show ?thesis using assms(3) unfolding has_parents_def view_confirmed(4)[OF assms(1,2)] by blast
  qed
qed (auto simp: has_parents_def view_confirmed(4)[OF assms(1,2)])

lemma settled_iff:
  assumes "block_confirms g T M ht g'" "mempool_ok g T" "h \<notin> dom M"
  shows "h \<in> kids_out (view_of g T) M (dom M) \<and> settled M ht (view_of g T) h \<longleftrightarrow>
    has_parents (view_of g T) h \<and> \<not> has_parents (view_of g' (T |` (- dom M))) h"
proof
  assume a: "h \<in> kids_out (view_of g T) M (dom M) \<and> settled M ht (view_of g T) h"
  have "p \<in> dom M" if "(p, h) \<in> v_L (view_of g T)" for p
  proof (rule ccontr)
    assume n: "p \<notin> dom M"
    obtain k where k: "(h, TXO p k) \<in> spends T" "p \<in> dom T" using \<open>(p, h) \<in> v_L (view_of g T)\<close> by (auto simp: view_def)
    then obtain b i where e: "in_entry g T (TXO p k) = Some (b, i)" using assms(2) unfolding mempool_ok_def spends_def by fastforce
    have "\<not> b" using in_entry_conf[OF e] k(2) by auto
    then have "conf M ht (v_E (view_of g T) h) (TXO p k) = Some (False, i)" using e k(1) n by (simp add: conf_def view_def domIff)
    then show False using a by (auto simp: settled_def)
  qed
  then show "has_parents (view_of g T) h \<and> \<not> has_parents (view_of g' (T |` (- dom M))) h"
    using a unfolding has_parents_def view_confirmed(4)[OF assms(1,2)] by (auto simp: kids_out_def)
next
  assume a: "has_parents (view_of g T) h \<and> \<not> has_parents (view_of g' (T |` (- dom M))) h"
  then have "h \<in> dom T" by (auto simp: has_parents_def view_def spends_def)
  then show "h \<in> kids_out (view_of g T) M (dom M) \<and> settled M ht (view_of g T) h" using a has_parents_confirmed[OF assms(1,2), of h] assms(3) by auto
qed

lemma mempool_ok_confirmed:
  assumes "block_confirms g T M ht g'" "mempool_ok g T"
  shows "mempool_ok g' (T |` (- dom M))"
proof -
  have r: "in_entry g' (T |` (- dom M)) (prev_txo i) \<noteq> None" if "T h = Some c" "h \<notin> dom M" "i \<in> set (vin c)" for h c i
  proof -
    have "(h, prev_txo i) \<in> spends T" using that by (auto simp: spends_def)
    moreover have "in_entry g T (prev_txo i) \<noteq> None" using that assms(2) by (auto simp: mempool_ok_def)
    ultimately show ?thesis using in_entry_confirmed[OF assms, of h "prev_txo i"] that(2) by (auto simp: conf_def split: option.split bool.split)
  qed
  have "finite (dom (T |` (- dom M)))" using assms(2) by (simp add: mempool_ok_def)
  moreover have "\<forall>h h' txo. (h, txo) \<in> spends (T |` (- dom M)) \<longrightarrow> (h', txo) \<in> spends (T |` (- dom M)) \<longrightarrow> h = h'"
    using assms(2) unfolding spends_restrict mempool_ok_def by blast
  moreover have "distinct (map prev_txo (vin c)) \<and> length (vout c) \<le> 2 ^ 32 \<and> (\<forall>i \<in> set (vin c). in_entry g' (T |` (- dom M)) (prev_txo i) \<noteq> None)"
    if "(T |` (- dom M)) h = Some c" for h c
  proof -
    have h: "T h = Some c" "h \<notin> dom M" using that by (auto simp: restrict_map_def split: if_splits)
    then show ?thesis using assms(2) r[OF h] by (simp add: mempool_ok_def)
  qed
  ultimately show ?thesis unfolding mempool_ok_def by blast
qed

lemma touching_by: "h \<in> mp_touching v sh \<Longrightarrow> h \<in> X \<Longrightarrow> sh \<in> touched_by v X"
  unfolding mp_touching_def touched_by_def by force

lemma confirm_repr:
  assumes "mempool_inv g T m" "block_confirms g T M ht g'" "set ids = dom M"
    and "cinv (view_of g T) M ht m (dom M) (kids_out (view_of g T) M (dom M)) (dom M) D s"
  defines "v' \<equiv> view_of g' (T |` (- dom M))" and "m' \<equiv> rmTxsInHashXTxs ids (cs_affected s) (needingSort s) (cs_m s)"
  shows "mp_rel v' m' \<and> (\<forall>sh. ordered_at (has_parents v') m' sh) \<and> dsps m' = dsps (cs_m s)"
proof -
  let ?v = "view_of g T" and ?R = "kids_out (view_of g T) M (dom M)"
  have ok: "mempool_ok g T" and hx: "hxs_ok (hashXTxs m)" "refs (hashXTxs m) = mp_touching ?v"
    and ord: "\<And>sh. pred_option (ordered (has_parents ?v)) (map_of (hashXTxs m) sh)"
    using assms(1) by (simp_all add: mempool_inv_def mempool_repr_def mp_rel_def ordered_at_def)
  note i = assms(4)[unfolded cinv_def]
  have same: "hashXTxs (cs_m s) = hashXTxs m" using i by blast
  have tch: "mp_touching v' sh = mp_touching ?v sh - set ids" for sh
    using view_confirmed(2)[OF assms(2) ok] by (auto simp: v'_def assms(3) mp_touching_def restrict_map_def split: if_splits)
  have vec: "distinct vec \<and> (sh \<notin> set (needingSort s) \<longrightarrow> ordered (has_parents v') (filter (\<lambda>h. h \<notin> set ids) vec))"
    if x: "map_of (hashXTxs m) sh = Some vec" for sh vec
  proof -
    have "set vec = mp_touching ?v sh" using x fun_cong[OF hx(2), of sh] by (simp add: refs_def)
    then have h: "\<exists>c. T h = Some c \<and> sh \<in> touched c (v_E ?v h)" if "h \<in> set vec" for h using that by (auto simp: mp_touching_def)
    have "has_parents v' h = has_parents ?v h" if "h \<in> set vec" "h \<notin> dom M" "sh \<notin> set (needingSort s)" for h
      unfolding v'_def using h[OF that(1)] that(2,3) i by (intro has_parents_confirmed[OF assms(2) ok]) (auto simp: touched_by_def)
    then have "ordered (has_parents v') (filter (\<lambda>h. h \<notin> set ids) vec) = ordered (has_parents ?v) (filter (\<lambda>h. h \<notin> set ids) vec)"
      if "sh \<notin> set (needingSort s)" using that by (intro ordered_cong) (auto simp: assms(3))
    then show ?thesis using ord[of sh] x by (auto simp: ordered_def intro: sorted_filter)
  qed
  have aff: "mp_touching ?v sh \<inter> set ids = {}" if "sh \<notin> set (cs_affected s)" for sh
    using that i touching_by[of _ ?v sh "dom M"] unfolding assms(3) by blast
  have sub: "set (needingSort s) \<subseteq> set (cs_affected s)" using i by blast
  show ?thesis unfolding m'_def
  proof (rule removed_repr)
    show "txs_rel v' (txs (cs_m s))" unfolding v'_def by (rule confirmed_rel[OF assms(2) ok]) (use i in blast)
    show "pred_option distinct (map_of (hashXTxs (cs_m s)) sh)" for sh using vec[of sh] by (cases "map_of (hashXTxs m) sh") (simp_all add: same)
    show "pred_option (\<lambda>vec. ordered (has_parents v') (filter (\<lambda>h. h \<notin> set ids) vec)) (map_of (hashXTxs (cs_m s)) sh)"
      if "sh \<notin> set (cs_affected s) \<or> sh \<notin> set (needingSort s)" for sh
      using vec[of sh] that sub by (cases "map_of (hashXTxs m) sh") (auto simp: same)
  qed (use hx tch aff same i in simp_all)
qed

lemma confirmedInBlock_ok:
  assumes "mempool_inv g T m" "block_confirms g T (map_of tm) ht g'" "distinct (keys tm)" "confirmedInBlock A tm ht m = (m', A', dspAffected)"
  defines "K \<equiv> set (keys tm)" and "T' \<equiv> T |` (- set (keys tm))"
  shows "mempool_inv g' T' m' \<and> dsps_abs (dsps m') = forget_set K (dsps_abs (dsps m)) \<and>
    set A' = set A \<union> touched_by (view_of g T) (K \<union> {h. has_parents (view_of g T) h \<and> \<not> has_parents (view_of g' T') h})"
proof -
  let ?v = "view_of g T" and ?M = "map_of tm"
  have K: "K = dom ?M" "T' = T |` (- dom ?M)" "set (keys tm) = dom ?M" by (simp_all add: K_def T'_def dom_map_of_conv_image_fst)
  have ok: "mempool_ok g T" and t: "txs_rel ?v (txs m)" and d: "dsps_inv (dsps m)" "Range (aff (dsps m)) \<subseteq> dom T" "aff (dsps m) O v_L ?v \<subseteq> aff (dsps m)"
    using assms(1) by (simp_all add: mempool_inv_def mempool_repr_def mp_rel_def)
  let ?s = "fold (confirm_tx ?M ht) (keys tm) \<lparr> cs_m = m, cs_affected = [], needingSort = [], recategorized = [], dspTxids = [] \<rparr>"
  have c: "cinv ?v ?M ht m (dom ?M) (kids_out ?v ?M (dom ?M)) (dom ?M) (with_dsps ?v m (dom ?M)) ?s"
    using confirm_all_ok[OF view_sound t assms(3), of ?M ht] K(3) by simp
  note i = c[unfolded cinv_def]
  let ?m = "rmTxsInHashXTxs (keys tm) (cs_affected ?s) (needingSort ?s) (cs_m ?s)"
  have r: "mp_rel (view_of g' T') ?m" "\<forall>sh. ordered_at (has_parents (view_of g' T')) ?m sh" "dsps ?m = dsps m"
    using confirm_repr[OF assms(1,2) K(3) c] i by (simp_all add: K(2))
  obtain B d' where dd: "rm_dsps False (dspTxids ?s) (dsps m) = (B, d')" by fastforce
  have m': "m' = ?m\<lparr>dsps := d'\<rparr>" "A' = fold List.insert (cs_affected ?s) A"
    using assms(4) unfolding confirmedInBlock_def Let_def r(3) dd prod.case by auto
  have "set (dspTxids ?s) = with_dsps ?v m (dom ?M)" using i by blast
  then have "forget_set (set (dspTxids ?s)) (dsps_abs (dsps m)) = forget_set K (dsps_abs (dsps m))"
    using has_dsps[OF d(1)] d(2) by (intro forget_set_cong[OF d(1)]) (auto simp: with_dsps_def K(1))
  then have dok: "dsps_inv d'" "dsps_abs d' = forget_set K (dsps_abs (dsps m))" using rm_dsps_ok[OF d(1) dd] by simp_all
  have "Range (aff d') \<subseteq> dom T' \<and> aff d' O v_L (view_of g' T') \<subseteq> aff d'"
    using d(2,3) unfolding aff_forget[OF dok(2)] K(1,2) view_confirmed(4)[OF assms(2) ok] by auto
  then have inv: "mempool_inv g' T' m'"
    using r dok(1) mempool_ok_confirmed[OF assms(2) ok] unfolding m'(1) by (simp add: mempool_inv_def mempool_repr_def ordered_at_def K(2))
  have "dom ?M \<union> {h \<in> kids_out ?v ?M (dom ?M). settled ?M ht ?v h} = K \<union> {h. has_parents ?v h \<and> \<not> has_parents (view_of g' T') h}"
    using settled_iff[OF assms(2) ok] unfolding K(1,2) by blast
  then have "set A' = set A \<union> touched_by ?v (K \<union> {h. has_parents ?v h \<and> \<not> has_parents (view_of g' T') h})"
    using i by (simp add: m'(2) set_fold_insert touched_by_def UN_Un flip: UN_Un) blast
  then show ?thesis using inv dok(2) by (simp add: m'(1))
qed

end
