(* ===== verification/Mempool_Properties.thy ===== *)
theory Mempool_Properties
  imports Mempool_Confirm
begin

text \<open>
  The results about the mempool: after every operation its tables are exactly what the set of unconfirmed transactions says.
\<close>

declare map_of_eq_Some_iff [simp del]

section \<open>The empty mempool\<close>

lemma mempool_inv_empty:
  assumes "txs m = []" "hashXTxs m = []" "dsps m = DSPs_new"
  shows "mempool_inv g Map.empty m"
proof -
  have "aff DSPs_new = {}" by (simp add: aff_def dsps_inv_new(2))
  moreover have "spends Map.empty = {}" by (simp add: spends_def)
  ultimately show ?thesis using assms dsps_inv_new(1)
    by (simp add: mempool_inv_def mempool_repr_def mp_rel_def txs_rel_def hxs_ok_def refs_def mp_touching_def fun_eq_iff ordered_at_def mempool_ok_def)
qed

lemma mempool_clear_ok: "mempool_inv g Map.empty (mempool_clear m)"
  by (rule mempool_inv_empty) (simp_all add: mempool_clear_def)

section \<open>An example\<close>

definition demo_txout :: CTxOut where
  "demo_txout = \<lparr> nValue = 7, scriptPubKey = [0x51], tokenDataPtr = None \<rparr>"

definition demo_h :: "byte \<Rightarrow> bytes" where "demo_h b = replicate 32 b"

definition demo_parent :: CTransaction where
  "demo_parent = \<lparr> tx_nVersion = 1, vin = [], vout = [demo_txout], nLockTime = 0, mw_blob = None, tx_hash = [] \<rparr>"

definition demo_spend :: CTransaction where
  "demo_spend = \<lparr> tx_nVersion = 1, vin = [\<lparr> prevout = COutPoint (demo_h 1) 0, scriptSig = [], nSequence = 0, scriptWitness = [] \<rparr>], vout = [],
     nLockTime = 0, mw_blob = None, tx_hash = [] \<rparr>"

definition demo_batch :: "(Tx \<times> CTransaction) list" where
  "demo_batch = [(Tx_new (demo_h 1) 100 100, demo_parent), (Tx_new (demo_h 2) 100 100, demo_spend)]"

definition demo_T :: "bytes \<rightharpoonup> CTransaction" where "demo_T = [demo_h 1 \<mapsto> demo_parent, demo_h 2 \<mapsto> demo_spend]"

definition demo_empty :: Mempool where
  "demo_empty = \<lparr> txs = [], hashXTxs = [], optPrefixTable = None, dsps = DSPs_new \<rparr>"

definition demo_g :: getter where "demo_g txo = Inr None"

lemma demo_hashes: "(demo_h 1 = demo_h 2) = False" "(demo_h 2 = demo_h 1) = False" "length (demo_h b) = 32"
  by (simp_all add: demo_h_def numeral_eq_Suc)

lemma demo_fields:
  "vin demo_parent = []" "vout demo_parent = [demo_txout]" "vout demo_spend = []" "map prev_txo (vin demo_spend) = [TXO (demo_h 1) 0]"
  "prev_txo ` set (vin demo_spend) = {TXO (demo_h 1) 0}"
  by (simp_all add: demo_parent_def demo_spend_def prev_txo_def Hash2ByteArrayRev_def demo_h_def)

lemma demo_valid: "txoinfo_isValid (out_entry demo_txout)" "out_entry demo_txout = \<lparr> ti_amount = 7, ti_hashX = HashXFromCScript [0x51], ti_confirmedHeight = None, ti_txNum = 0, ti_tokenDataPtr = None \<rparr>"
  by (simp_all add: out_entry_def demo_txout_def IsOpReturn_def OP_RETURN_def txoinfo_isValid_def HashXFromCScript_def)

lemma demo_new_T: "Map.empty ++ new_txs demo_batch = demo_T"
  by (auto simp: new_txs_def demo_batch_def demo_T_def Tx_new_def demo_hashes fun_eq_iff)

lemma demo_new_ok: "new_txs_ok demo_g Map.empty demo_batch"
  using demo_fields(4) by (auto simp: new_txs_ok_def fresh_txs_def demo_batch_def Tx_new_def demo_hashes demo_g_def demo_fields)

lemma demo_spends_T: "spends demo_T = {(demo_h 2, TXO (demo_h 1) 0)}"
  using demo_fields(5) by (auto simp: spends_def demo_T_def demo_hashes demo_fields(1) split: if_splits)

lemma demo_lookup: "demo_T (demo_h 1) = Some demo_parent" "demo_T (demo_h 2) = Some demo_spend" "dom demo_T = {demo_h 1, demo_h 2}"
  by (auto simp: demo_T_def demo_hashes)

lemma demo_in: "in_entry demo_g demo_T (TXO (demo_h 1) 0) = Some (False, out_entry demo_txout)"
  by (simp add: in_entry_def demo_T_def demo_hashes demo_fields demo_valid(1))

lemma demo_ok: "mempool_ok demo_g demo_T"
proof -
  have "in_entry demo_g demo_T (prev_txo i) \<noteq> None" if "i \<in> set (vin demo_spend)" for i
    using that demo_fields(5) demo_in by (metis image_eqI option.distinct(1) singletonD)
  then have "distinct (map prev_txo (vin c)) \<and> length (vout c) \<le> 2 ^ 32 \<and> (\<forall>i \<in> set (vin c). in_entry demo_g demo_T (prev_txo i) \<noteq> None)"
    if "demo_T h = Some c" for h c
    using that demo_fields(4) by (auto simp: demo_T_def demo_fields(1-3) split: if_splits)
  moreover have "finite (dom demo_T)" by (simp add: demo_T_def)
  moreover have "\<forall>h h' txo. (h, txo) \<in> spends demo_T \<longrightarrow> (h', txo) \<in> spends demo_T \<longrightarrow> h = h'" by (simp add: demo_spends_T)
  ultimately show ?thesis unfolding mempool_ok_def by blast
qed

lemma demo_links: "v_L (view_of demo_g demo_T) = {(demo_h 1, demo_h 2)}"
  by (auto simp: view_def demo_spends_T demo_lookup(3))

lemma demo_start: "mempool_inv g Map.empty demo_empty"
  by (rule mempool_inv_empty) (simp_all add: demo_empty_def)

lemma demo_state: "\<exists>m. mempool_inv demo_g demo_T m"
  using addNewTxs_ok[OF demo_start demo_new_ok, of "[]"] demo_ok unfolding demo_new_T by blast

section \<open>Properties\<close>

text \<open>C7: Adding transactions. If the new transactions together with those already there are consistent (every input refers to an output of
  the mempool or to a confirmed one, and no output is spent twice), the operation succeeds, the tables represent the larger set of transactions
  (objects, spends, unspent outputs, fees, links, and the sorted histories of all script hashes), exactly the script hashes touched by the new
  transactions are reported, and every double-spend proof covers exactly the descendants of what it covered before. If an input
  cannot be resolved, the operation fails with an error.\<close>

theorem mempool_add_correct:
  assumes "mempool_inv g T m" "new_txs_ok g T txsNew"
  shows "(mempool_ok g (T ++ new_txs txsNew) \<longrightarrow>
      (\<exists>s. addNewTxs g txsNew A m = Some (Inr (), s) \<and> mempool_inv g (T ++ new_txs txsNew) (as_m s) \<and>
        set (as_affected s) = set A \<union> new_touched g (T ++ new_txs txsNew) txsNew \<and> prims (dsps (as_m s)) = prims (dsps m) \<and>
        aff (dsps (as_m s)) = aff (dsps m) O (v_L (view_of g (T ++ new_txs txsNew)))\<^sup>*)) \<and>
    ((\<exists>(tx, c) \<in> set txsNew. \<not> inputs_resolve g (T ++ new_txs txsNew) c) \<longrightarrow> (\<exists>e s. addNewTxs g txsNew A m = Some (Inl e, s)))"
  using addNewTxs_ok[OF assms] addNewTxs_fail[OF assms] by blast

theorem mempool_add_correct_witness:
  "\<exists>s. addNewTxs demo_g demo_batch [] demo_empty = Some (Inr (), s) \<and> mempool_inv demo_g demo_T (as_m s)"
  using mempool_add_correct[OF demo_start demo_new_ok, of "[]"] demo_ok unfolding demo_new_T by blast

text \<open>C8: Dropping transactions removes exactly the given transactions and everything that directly or indirectly spends from them; the
  tables represent the set that is left, with the outputs that were spent by dropped transactions unspent again. The script hashes
  reported are those the dropped transactions touched. Double-spend proofs of dropped transactions disappear, the others
  lose their dropped descendants.\<close>

theorem mempool_drop_correct:
  assumes "mempool_inv g T m" "dropTxs A txids m = (m', dropped, A', dspAffected)"
  defines "K \<equiv> (v_L (view_of g T))\<^sup>* `` set txids"
  shows "set dropped = K \<and> mempool_inv g (T |` (- K)) m' \<and> dsps_abs (dsps m') = forget_set K (dsps_abs (dsps m)) \<and>
    set A' = set A \<union> touched_by (view_of g T) K"
  using dropTxs_ok[OF assms(1,2)] by (simp add: K_def touched_by_def)

theorem mempool_drop_correct_witness:
  "\<exists>m m' dropped A' D. dropTxs [] [demo_h 1] m = (m', dropped, A', D) \<and> set dropped = {demo_h 1, demo_h 2} \<and> mempool_inv demo_g (demo_T |` (- {demo_h 1, demo_h 2})) m'"
proof -
  obtain m where m: "mempool_inv demo_g demo_T m" using demo_state by blast
  obtain m' dropped A' D where d: "dropTxs [] [demo_h 1] m = (m', dropped, A', D)" by (metis surj_pair)
  have "(v_L (view_of demo_g demo_T))\<^sup>* `` set [demo_h 1] = {demo_h 1, demo_h 2}"
    unfolding demo_links by (auto elim: rtranclE)
  then show ?thesis using mempool_drop_correct[OF m d] d by metis
qed

text \<open>C9: When a block confirms transactions of the mempool, the tables represent the transactions that are left, and their spends of outputs
  created by the block have become spends of confirmed outputs with the block's height and the transaction's number; the histories are in
  order again although transactions may have lost their last unconfirmed parent. The script hashes reported are those touched by the confirmed
  transactions and by transactions whose position changed.\<close>

theorem mempool_confirm_correct:
  assumes "mempool_inv g T m" "block_confirms g T (map_of txidMap) ht g'" "distinct (keys txidMap)"
    and "confirmedInBlock A txidMap ht m = (m', A', dspAffected)"
  defines "K \<equiv> set (keys txidMap)" and "T' \<equiv> T |` (- set (keys txidMap))"
  shows "mempool_inv g' T' m' \<and> dsps_abs (dsps m') = forget_set K (dsps_abs (dsps m)) \<and>
    set A' = set A \<union> touched_by (view_of g T) (K \<union> {h. has_parents (view_of g T) h \<and> \<not> has_parents (view_of g' T') h})"
  using confirmedInBlock_ok[OF assms(1-4)] by (simp add: K_def T'_def)

definition demo_g' :: getter where
  "demo_g' txo = Inr (if txo = TXO (demo_h 1) 0 then Some (confirm_info 900 5 (out_entry demo_txout)) else None)"

theorem mempool_confirm_correct_witness:
  "\<exists>m m' A' D. confirmedInBlock [] [(demo_h 1, 5)] 900 m = (m', A', D) \<and> mempool_inv demo_g' (demo_T |` (- {demo_h 1})) m'"
proof -
  obtain m where m: "mempool_inv demo_g demo_T m" using demo_state by blast
  obtain m' A' D where d: "confirmedInBlock [] [(demo_h 1, 5)] 900 m = (m', A', D)" by (metis surj_pair)
  have "block_confirms demo_g demo_T (map_of [(demo_h 1, 5)]) 900 demo_g'"
    unfolding block_confirms_def demo_spends_T by (simp add: demo_hashes demo_lookup demo_g'_def demo_fields)
  from mempool_confirm_correct[OF m this _ d] d show ?thesis by auto
qed

text \<open>C26: The loop that hands double-spend proofs from new parents to new children always ends, in whatever order the hash tables are
  traversed, and when it does, every proof covers exactly what can be reached from what it covered before.\<close>

theorem dsp_loop_terminates:
  assumes "dsps_inv d" "\<forall>(h, ps) \<in> set newParents. length h = HashLen"
  shows "\<exists>d' A'. dsp_loop newParents (d, A) = Some (d', A') \<and> dsps_inv d' \<and> prims d' = prims d \<and> aff d' = aff d O (edges newParents)\<^sup>* \<and>
    set A' = set A \<union> snd ` (aff d' - aff d)"
  by (rule dsp_loop_ok[OF assms])

theorem dsp_loop_terminates_witness:
  "\<exists>d' A'. dsp_loop [(demo_h 3, [demo_h 2]), (demo_h 2, [demo_h 1])] (fold dsps_run demo_ops DSPs_new, []) = Some (d', A')"
  using dsp_loop_terminates[OF conjunct1[OF dsps_steps[OF dsps_inv_new(1), of demo_ops]], of "[(demo_h 3, [demo_h 2]), (demo_h 2, [demo_h 1])]" "[]"]
  by (auto simp: demo_ops_def demo_hashes)

end
