(* ===== verification/Cost_Cache.thy ===== *)
theory Cost_Cache
  imports Hash_Containers Db_Access
begin

text \<open>
  \<open>CostCache.h\<close>: the memory-bounded caches of the storage layer, a locked wrapper around Qt's \<open>QCache\<close>. \<open>QCache\<close> is not
  part of the program: its operations are the parameter \<open>Q\<close>, and the locale \<open>qcache_laws\<close> states what its documentation promises
  of the entries a cache holds. An insertion may throw out any entries, the new one included.
\<close>

section \<open>Caches\<close>

text \<open>\<open>qc_cost\<close> is the cost the program computes for an entry from the sizes of Qt's types.\<close>

record ('c, 'k, 'v) qcache =
  qc_insert :: "'k \<Rightarrow> 'v \<Rightarrow> nat \<Rightarrow> 'c \<Rightarrow> bool \<times> 'c"
  qc_object :: "'k \<Rightarrow> 'c \<Rightarrow> 'v option \<times> 'c"
  qc_remove :: "'k \<Rightarrow> 'c \<Rightarrow> bool \<times> 'c"
  qc_clear :: "'c \<Rightarrow> 'c"
  qc_setMaxCost :: "nat \<Rightarrow> 'c \<Rightarrow> 'c"
  qc_cost :: "'v \<Rightarrow> nat"

definition kCostLimit :: nat where "kCostLimit = 2 ^ 31 - 1"

datatype cache_error = BadArgs string

definition chkMaxCost :: "nat \<Rightarrow> (cache_error, unit) result" where
  "chkMaxCost maxCost =
     (if maxCost = 0 then Inl (BadArgs ''CostCache cannot use maxCost == 0!'')
      else if maxCost \<ge> kCostLimit then Inl (BadArgs ''CostCache cannot have maxCost >= INT_MAX'')
      else Inr ())"

definition cc_insert :: "('c, 'k, 'v) qcache \<Rightarrow> 'k \<Rightarrow> 'v \<Rightarrow> nat \<Rightarrow> 'c \<Rightarrow> bool \<times> 'c" where
  "cc_insert Q k v cost c = (if cost < kCostLimit then qc_insert Q k v cost c else (False, c))"

definition cc_object :: "('c, 'k, 'v) qcache \<Rightarrow> 'k \<Rightarrow> 'c \<Rightarrow> 'v option \<times> 'c" where
  "cc_object Q k c = qc_object Q k c"

definition cc_remove :: "('c, 'k, 'v) qcache \<Rightarrow> 'k \<Rightarrow> 'c \<Rightarrow> bool \<times> 'c" where
  "cc_remove Q k c = qc_remove Q k c"

definition cc_clear :: "('c, 'k, 'v) qcache \<Rightarrow> 'c \<Rightarrow> 'c" where
  "cc_clear Q c = qc_clear Q c"

definition cc_setMaxCost :: "('c, 'k, 'v) qcache \<Rightarrow> nat \<Rightarrow> (cache_error, unit, 'c) eff" where
  "cc_setMaxCost Q maxCost c = (case chkMaxCost maxCost of Inl e \<Rightarrow> (Inl e, c) | Inr _ \<Rightarrow> (Inr (), qc_setMaxCost Q maxCost c))"

section \<open>Transparency\<close>

text \<open>\<open>cached c\<close> is what the cache holds.\<close>

locale qcache_laws =
  fixes Q :: "('c, 'k, 'v) qcache" and cached :: "'c \<Rightarrow> ('k \<rightharpoonup> 'v)"
  assumes object_value: "fst (qc_object Q k c) = cached c k"
    and object_same: "cached (snd (qc_object Q k c)) = cached c"
    and insert_most: "cached (snd (qc_insert Q k v n c)) \<subseteq>\<^sub>m (cached c)(k \<mapsto> v)"
    and remove_key: "cached (snd (qc_remove Q k c)) = (cached c)(k := None)"
    and clear_all: "cached (qc_clear Q c) = Map.empty"
    and shrink: "cached (qc_setMaxCost Q n c) \<subseteq>\<^sub>m cached c"
begin

text \<open>A cache is coherent with a function if every entry is a value of it.\<close>

definition coherent :: "('k \<rightharpoonup> 'v) \<Rightarrow> 'c \<Rightarrow> bool" where
  "coherent f c \<longleftrightarrow> cached c \<subseteq>\<^sub>m f"

lemma coherent_object: "cc_object Q k c = (r, c') \<Longrightarrow> coherent f c \<Longrightarrow> coherent f c' \<and> r = cached c k"
  using object_value[of k c] object_same[of k c] by (simp add: coherent_def cc_object_def)

lemma coherent_hit: "coherent f c \<Longrightarrow> cached c k = Some v \<Longrightarrow> f k = Some v"
  by (metis coherent_def domIff map_le_def option.distinct(1))

lemma coherent_insert: "coherent f c \<Longrightarrow> f k = Some v \<Longrightarrow> coherent f (snd (cc_insert Q k v n c))"
proof -
  assume a: "coherent f c" "f k = Some v"
  then have "(cached c)(k \<mapsto> v) \<subseteq>\<^sub>m f" by (auto simp: coherent_def map_le_def)
  then show ?thesis using a insert_most[of k v n c] by (auto simp: coherent_def cc_insert_def intro: map_le_trans)
qed

lemma coherent_remove: "coherent f c \<Longrightarrow> coherent (f(k := x)) (snd (cc_remove Q k c))"
  by (auto simp: coherent_def cc_remove_def remove_key map_le_def)

lemma coherent_clear: "coherent f (cc_clear Q c)"
  by (simp add: coherent_def cc_clear_def clear_all)

lemma coherent_more: "coherent f c \<Longrightarrow> f \<subseteq>\<^sub>m g \<Longrightarrow> coherent g c"
  by (auto simp: coherent_def intro: map_le_trans)

end

section \<open>A least-recently-used cache\<close>

text \<open>A list of entries with their costs, most recently used first, and the maximal total cost.\<close>

record ('k, 'v) lru =
  lru_max :: nat
  lru_items :: "('k \<times> 'v \<times> nat) list"

fun lru_trim :: "nat \<Rightarrow> ('k \<times> 'v \<times> nat) list \<Rightarrow> ('k \<times> 'v \<times> nat) list" where
  "lru_trim m [] = []"
| "lru_trim m ((k, v, n) # xs) = (if n \<le> m then (k, v, n) # lru_trim (m - n) xs else [])"

definition lru_cached :: "('k, 'v) lru \<Rightarrow> 'k \<rightharpoonup> 'v" where
  "lru_cached c k = map_option fst (map_of (lru_items c) k)"

definition lru_ops :: "(('k, 'v) lru, 'k, 'v) qcache" where
  "lru_ops = \<lparr>
     qc_insert = (\<lambda>k v n c. (n \<le> lru_max c, c\<lparr>lru_items := lru_trim (lru_max c) (if n \<le> lru_max c then (k, v, n) # AList.delete k (lru_items c)
                                                                          else AList.delete k (lru_items c))\<rparr>)),
     qc_object = (\<lambda>k c. case map_of (lru_items c) k of None \<Rightarrow> (None, c)
                    | Some (v, n) \<Rightarrow> (Some v, c\<lparr>lru_items := (k, v, n) # AList.delete k (lru_items c)\<rparr>)),
     qc_remove = (\<lambda>k c. (map_of (lru_items c) k \<noteq> None, c\<lparr>lru_items := AList.delete k (lru_items c)\<rparr>)),
     qc_clear = (\<lambda>c. c\<lparr>lru_items := []\<rparr>),
     qc_setMaxCost = (\<lambda>n c. \<lparr> lru_max = n, lru_items = lru_trim n (lru_items c) \<rparr>),
     qc_cost = (\<lambda>v. 1) \<rparr>"

lemma lru_trim_le: "map_of (lru_trim m xs) \<subseteq>\<^sub>m map_of xs"
  by (induction m xs rule: lru_trim.induct) (auto simp: map_le_def)

lemma lru_cached_le: "map_of xs \<subseteq>\<^sub>m map_of ys \<Longrightarrow> lru_cached \<lparr> lru_max = m, lru_items = xs \<rparr> \<subseteq>\<^sub>m lru_cached \<lparr> lru_max = m', lru_items = ys \<rparr>"
  by (auto simp: map_le_def lru_cached_def dom_def)

interpretation lru: qcache_laws lru_ops lru_cached
proof
  fix k :: 'a and v :: 'b and n and c :: "('a, 'b) lru"
  obtain m xs where c: "c = \<lparr> lru_max = m, lru_items = xs \<rparr>" by (cases c)
  show "fst (qc_object lru_ops k c) = lru_cached c k"
    by (cases "map_of (lru_items c) k") (auto simp: lru_ops_def lru_cached_def)
  show "lru_cached (snd (qc_object lru_ops k c)) = lru_cached c"
    by (cases "map_of (lru_items c) k") (auto simp: lru_ops_def lru_cached_def fun_eq_iff)
  show "lru_cached (snd (qc_remove lru_ops k c)) = (lru_cached c)(k := None)"
    by (simp add: lru_ops_def lru_cached_def fun_eq_iff)
  show "lru_cached (qc_clear lru_ops c) = Map.empty" by (simp add: lru_ops_def lru_cached_def fun_eq_iff)
  show "lru_cached (qc_setMaxCost lru_ops n c) \<subseteq>\<^sub>m lru_cached c"
    unfolding c lru_ops_def by (simp add: lru_cached_le lru_trim_le)
  let ?ys = "if n \<le> m then (k, v, n) # AList.delete k xs else AList.delete k xs"
  have "lru_cached (snd (qc_insert lru_ops k v n c)) = lru_cached \<lparr> lru_max = m, lru_items = lru_trim m ?ys \<rparr>"
    unfolding c lru_ops_def by simp
  then have "lru_cached (snd (qc_insert lru_ops k v n c)) \<subseteq>\<^sub>m lru_cached \<lparr> lru_max = m, lru_items = ?ys \<rparr>"
    using lru_cached_le[OF lru_trim_le] by metis
  moreover have "lru_cached \<lparr> lru_max = m, lru_items = ?ys \<rparr> \<subseteq>\<^sub>m (lru_cached c)(k \<mapsto> v)"
    unfolding c by (auto simp: lru_cached_def map_le_def)
  ultimately show "lru_cached (snd (qc_insert lru_ops k v n c)) \<subseteq>\<^sub>m (lru_cached c)(k \<mapsto> v)" by (rule map_le_trans)
qed

end
