(* ===== verification/Storage_Queries.thy ===== *)
theory Storage_Queries
  imports Storage_Properties Mempool_Properties Cost_Cache "HOL-Library.Option_ord"
begin

text \<open>
  The read side of \<open>Storage.cpp\<close>: what the server answers from the tables of the database and from the mempool. A query holds the
  locks for its whole duration and sees one store \<open>st\<close> and one mempool \<open>m\<close>; what it changes is the cache of transaction hashes. Most
  queries catch every exception and return what they have collected so far, so the functions below carry the collected items in their state.

  \<open>seek\<close> is an iterator of RocksDB: the rows it visits from the first key that is not below the given one, in order.
\<close>

declare map_of_eq_Some_iff [simp del]

datatype query_error =
    QeDb db_error
  | QePow pow_error
  | HistoryTooLarge
  | bad_optional_access
  | QeInternal string

section \<open>Transaction numbers\<close>

definition hashForTxNum ::
  "('c, TxNum, bytes) qcache \<Rightarrow> 'db rocksdb \<Rightarrow> 'db Store \<Rightarrow> TxNum \<Rightarrow> bool \<Rightarrow> bool \<Rightarrow> (query_error, bytes option, 'c) eff" where
  "hashForTxNum Q R st n throwIfMissing skipCache c =
     (let (ret, c) = (if \<not> skipCache then cc_object Q n c else (None, c))
      in case ret of
           Some h \<Rightarrow> (Inr (Some h), c)
         | None \<Rightarrow>
             let (bytes, errStr) = readRecord R (s_txnums st) (txNumsDRA st) (unat n)
             in if bytes = [] then
                  (if throwIfMissing then (Inl (QeDb (DatabaseError (''Error reading TxHash for TxNum: '' @ errStr))), c) else (Inr None, c))
                else (Inr (Some bytes), if \<not> skipCache then snd (cc_insert Q n bytes (qc_cost Q bytes) c) else c))"

text \<open>\<open>upper_bound\<close> and one step back: the last entry whose key is not above \<open>n\<close>.\<close>

definition heightForTxNum :: "'db Store \<Rightarrow> TxNum \<Rightarrow> BlockHeight option" where
  "heightForTxNum st n =
     (case takeWhile (\<lambda>(n0, _). n0 \<le> n) (blkInfosByTxNum st) of
        [] \<Rightarrow> None
      | es \<Rightarrow>
          let i = snd (last es); bi = blkInfos st ! i
          in if n \<ge> txNum0 bi \<and> n < txNum0 bi + ucast (nTx bi) then Some (of_nat i) else None)"

primrec hashes_at ::
  "('c, TxNum, bytes) qcache \<Rightarrow> 'db rocksdb \<Rightarrow> 'db Store \<Rightarrow> BlkInfo \<Rightarrow> u32 list \<Rightarrow> (query_error, bytes option list, 'c) eff" where
  "hashes_at Q R st bi [] = ereturn []"
| "hashes_at Q R st bi (posInBlock # positions) =
     ebind (if posInBlock \<ge> nTx bi then ereturn None else hashForTxNum Q R st (txNum0 bi + ucast posInBlock) False False) (\<lambda>h.
     ebind (hashes_at Q R st bi positions) (\<lambda>hs. ereturn (h # hs)))"

definition hashesForHeightAndPosVec ::
  "('c, TxNum, bytes) qcache \<Rightarrow> 'db rocksdb \<Rightarrow> 'db Store \<Rightarrow> BlockHeight \<Rightarrow> u32 list \<Rightarrow> (query_error, bytes option list, 'c) eff" where
  "hashesForHeightAndPosVec Q R st height positionsInBlock =
     (if positionsInBlock = [] then ereturn []
      else if unat height \<ge> length (blkInfos st) then ereturn []
      else hashes_at Q R st (blkInfos st ! unat height) positionsInBlock)"

definition hashForHeightAndPos ::
  "('c, TxNum, bytes) qcache \<Rightarrow> 'db rocksdb \<Rightarrow> 'db Store \<Rightarrow> BlockHeight \<Rightarrow> u32 \<Rightarrow> (query_error, bytes option, 'c) eff" where
  "hashForHeightAndPos Q R st height posInBlock =
     ebind (hashesForHeightAndPosVec Q R st height [posInBlock]) (\<lambda>vec. ereturn (if vec = [] then None else hd vec))"

definition txHashesForBlockInBitcoindMemoryOrder ::
  "('d, BlockHeight, bytes list) qcache \<Rightarrow> 'db rocksdb \<Rightarrow> 'db Store \<Rightarrow> BlockHeight \<Rightarrow> 'd \<Rightarrow> bytes list \<times> 'd" where
  "txHashesForBlockInBitcoindMemoryOrder Q R st height c =
     (case cc_object Q height c of
        (Some vec, c) \<Rightarrow> (vec, c)
      | (None, c) \<Rightarrow>
          if unat height \<ge> length (blkInfos st) then ([], c)
          else
            let bi = blkInfos st ! unat height;
                (vec, err) = readRecords R (s_txnums st) (txNumsDRA st) (unat (txNum0 bi)) (unat (nTx bi))
            in if length vec \<noteq> unat (nTx bi) \<or> err \<noteq> [] then ([], c)
               else let ret = map rev vec in (ret, snd (cc_insert Q height ret (qc_cost Q ret) c)))"

section \<open>Histories\<close>

record HistoryItem =
  hi_hash :: bytes
  hi_height :: int
  hi_fee :: "Amount option"

record ('c, 'i) QueryState =
  qs_cache :: 'c
  qs_ret :: "'i list"
  qs_ctr :: nat

text \<open>The lambda made by \<open>GetMaxHistoryCtrFunc\<close>.\<close>

definition bump :: "nat \<Rightarrow> nat \<Rightarrow> nat \<Rightarrow> (query_error, nat) result" where
  "bump maxHistory incr ctr = (if ctr + incr > maxHistory then Inl HistoryTooLarge else Inr (ctr + incr))"

definition count_items :: "nat \<Rightarrow> nat \<Rightarrow> (query_error, unit, ('c, 'i, 'z) QueryState_scheme) eff" where
  "count_items maxHistory incr s =
     (case bump maxHistory incr (qs_ctr s) of Inl e \<Rightarrow> (Inl e, s) | Inr n \<Rightarrow> (Inr (), s\<lparr>qs_ctr := n\<rparr>))"

definition push_item :: "'i \<Rightarrow> (query_error, unit, ('c, 'i, 'z) QueryState_scheme) eff" where
  "push_item i s = (Inr (), s\<lparr>qs_ret := qs_ret s @ [i]\<rparr>)"

definition with_cache :: "(query_error, 'a, 'c) eff \<Rightarrow> (query_error, 'a, ('c, 'i, 'z) QueryState_scheme) eff" where
  "with_cache f s = (case f (qs_cache s) of (r, c) \<Rightarrow> (r, s\<lparr>qs_cache := c\<rparr>))"

definition elift :: "('e \<Rightarrow> query_error) \<Rightarrow> ('e, 'a) result \<Rightarrow> (query_error, 'a, 's) eff" where
  "elift f r = (case r of Inl e \<Rightarrow> ethrow (f e) | Inr x \<Rightarrow> ereturn x)"

text \<open>\<open>std::optional::value\<close>.\<close>

definition opt_value :: "'a option \<Rightarrow> (query_error, 'a, 's) eff" where
  "opt_value x = (case x of None \<Rightarrow> ethrow bad_optional_access | Some v \<Rightarrow> ereturn v)"

definition tx_hash_of :: "('c, TxNum, bytes) qcache \<Rightarrow> 'db rocksdb \<Rightarrow> 'db Store \<Rightarrow> TxNum \<Rightarrow> (query_error, bytes, ('c, 'i, 'z) QueryState_scheme) eff" where
  "tx_hash_of Q R st num = ebind (with_cache (hashForTxNum Q R st num False False)) opt_value"

primrec conf_history ::
  "('c, TxNum, bytes) qcache \<Rightarrow> 'db rocksdb \<Rightarrow> 'db Store \<Rightarrow> BlockHeight \<Rightarrow> BlockHeight option \<Rightarrow> TxNum list \<Rightarrow>
   (query_error, unit, ('c, HistoryItem) QueryState) eff" where
  "conf_history Q R st fromHeight optToHeight [] = ereturn ()"
| "conf_history Q R st fromHeight optToHeight (num # nums) =
     ebind (opt_value (heightForTxNum st num)) (\<lambda>height.
       if (case optToHeight of None \<Rightarrow> False | Some t \<Rightarrow> height \<ge> t) then ereturn ()
       else if height < fromHeight then conf_history Q R st fromHeight optToHeight nums
       else
         ebind (tx_hash_of Q R st num) (\<lambda>hash.
         ebind (push_item \<lparr> hi_hash = hash, hi_height = sint height, hi_fee = None \<rparr>) (\<lambda>_.
           conf_history Q R st fromHeight optToHeight nums)))"

text \<open>The object a reference of the mempool points to.\<close>

definition deref :: "Mempool \<Rightarrow> bytes \<Rightarrow> Tx" where
  "deref m h = (case map_of (txs m) h of None \<Rightarrow> Tx_new h 0 0 | Some tx \<Rightarrow> tx)"

definition mempool_item :: "Mempool \<Rightarrow> bytes \<Rightarrow> HistoryItem" where
  "mempool_item m h =
     \<lparr> hi_hash = mp_hash (deref m h), hi_height = (if parents (deref m h) \<noteq> [] then - 1 else 0), hi_fee = Some (fee (deref m h)) \<rparr>"

definition unconf_history :: "nat \<Rightarrow> Mempool \<Rightarrow> bytes \<Rightarrow> (query_error, unit, ('c, HistoryItem) QueryState) eff" where
  "unconf_history maxHistory m hashX =
     (case map_of (hashXTxs m) hashX of
        None \<Rightarrow> ereturn ()
      | Some txvec \<Rightarrow> ebind (count_items maxHistory (length txvec)) (\<lambda>_. efor (push_item \<circ> mempool_item m) txvec))"

definition read_history :: "'db rocksdb \<Rightarrow> 'db Store \<Rightarrow> bytes \<Rightarrow> (query_error, TxNum list option, 's) eff" where
  "read_history R st hashX = elift QeDb (GenericDBGet R (s_shist st) hashX True (deser_object Deserialize_TxNumVec))"

definition getHistory ::
  "('c, TxNum, bytes) qcache \<Rightarrow> 'db rocksdb \<Rightarrow> nat \<Rightarrow> 'db Store \<Rightarrow> Mempool \<Rightarrow> bytes \<Rightarrow> bool \<Rightarrow> bool \<Rightarrow> BlockHeight \<Rightarrow> BlockHeight option \<Rightarrow>
   'c \<Rightarrow> HistoryItem list \<times> 'c" where
  "getHistory Q R maxHistory st m hashX includeConfirmed includeMempool fromHeight optToHeight c =
     (if length hashX \<noteq> HashLen then ([], c)
      else
        let (r, s) = ebind
              (if includeConfirmed then
                 ebind (read_history R st hashX) (\<lambda>nums_opt.
                   case nums_opt of
                     None \<Rightarrow> ereturn ()
                   | Some nums \<Rightarrow> ebind (count_items maxHistory (length nums)) (\<lambda>_. conf_history Q R st fromHeight optToHeight nums))
               else ereturn ())
              (\<lambda>_. if includeMempool then unconf_history maxHistory m hashX else ereturn ())
              \<lparr> qs_cache = c, qs_ret = [], qs_ctr = 0 \<rparr>
        in (qs_ret s, qs_cache s))"

section \<open>Unspent outputs\<close>

datatype TokenFilterOption = IncludeTokens | ExcludeTokens | OnlyTokens

fun ShouldTokenFilter :: "TokenFilterOption \<Rightarrow> OutputDataPtr \<Rightarrow> bool" where
  "ShouldTokenFilter ExcludeTokens p \<longleftrightarrow> p \<noteq> None"
| "ShouldTokenFilter IncludeTokens p \<longleftrightarrow> False"
| "ShouldTokenFilter OnlyTokens p \<longleftrightarrow> p = None"

record UnspentItem = HistoryItem +
  ui_tx_pos :: IONum
  ui_value :: Amount
  ui_txNum :: TxNum
  ui_tokenDataPtr :: OutputDataPtr

text \<open>The tuples that \<open>OutputData::operator<=>\<close> and \<open>UnspentItem::operator<\<close> compare; a null pointer comes first, and token
  identifiers compare from their last byte.\<close>

definition token_rank :: "OutputData \<Rightarrow> int \<times> bool \<times> byte \<times> bytes \<times> bytes" where
  "token_rank d = (sint (td_amount d), HasNFT d, GetCapability d, commitment d, rev (td_id d))"

definition unspent_rank :: "UnspentItem \<Rightarrow> TxNum \<times> IONum \<times> int \<times> (int \<times> bool \<times> byte \<times> bytes \<times> bytes) option \<times> int \<times> bytes" where
  "unspent_rank i = (ui_txNum i, ui_tx_pos i, sint (ui_value i), map_option token_rank (ui_tokenDataPtr i), hi_height i, hi_hash i)"

record 'c UnspentState = "('c, UnspentItem) QueryState" +
  mempoolConfirmedSpends :: "TXO list"
  ctxoVec :: "(CompactTXO \<times> SHUnspentValue) list"

definition list_mempool_out :: "TokenFilterOption \<Rightarrow> TxNum \<Rightarrow> Tx \<Rightarrow> IONum \<Rightarrow> (query_error, unit, 'c UnspentState) eff" where
  "list_mempool_out tokenFilter veryHighTxNum tx ionum =
     (if unat ionum < length (txos tx) \<and> txoinfo_isValid (txos tx ! unat ionum) then
        let info = txos tx ! unat ionum
        in if ShouldTokenFilter tokenFilter (ti_tokenDataPtr info) then ereturn ()
           else push_item \<lparr> hi_hash = mp_hash tx, hi_height = 0, hi_fee = Some (fee tx), ui_tx_pos = ionum, ui_value = ti_amount info,
                            ui_txNum = 1 + veryHighTxNum + (if parents tx \<noteq> [] then 1 else 0), ui_tokenDataPtr = ti_tokenDataPtr info \<rparr>
      else ereturn ())"

definition list_mempool_tx :: "nat \<Rightarrow> TokenFilterOption \<Rightarrow> TxNum \<Rightarrow> bytes \<Rightarrow> Tx \<Rightarrow> (query_error, unit, 'c UnspentState) eff" where
  "list_mempool_tx maxHistory tokenFilter veryHighTxNum hashX tx =
     (case map_of (hashXs tx) hashX of
        None \<Rightarrow> ereturn ()
      | Some ioinfo \<Rightarrow>
          ebind (\<lambda>s. (Inr (), s\<lparr>mempoolConfirmedSpends := fold List.insert (keys (confirmedSpends ioinfo)) (mempoolConfirmedSpends s)\<rparr>)) (\<lambda>_.
          ebind (count_items maxHistory (length (utxo ioinfo))) (\<lambda>_.
            efor (list_mempool_out tokenFilter veryHighTxNum tx) (utxo ioinfo))))"

definition list_mempool :: "nat \<Rightarrow> TokenFilterOption \<Rightarrow> TxNum \<Rightarrow> Mempool \<Rightarrow> bytes \<Rightarrow> (query_error, unit, 'c UnspentState) eff" where
  "list_mempool maxHistory tokenFilter veryHighTxNum m hashX =
     (case map_of (hashXTxs m) hashX of
        None \<Rightarrow> ereturn ()
      | Some txvec \<Rightarrow> efor (list_mempool_tx maxHistory tokenFilter veryHighTxNum hashX \<circ> deref m) txvec)"

text \<open>One row of the table of unspent outputs.\<close>

definition read_unspent :: "TokenFilterOption \<Rightarrow> bytes \<times> bytes \<Rightarrow> (query_error, (CompactTXO \<times> SHUnspentValue) option, 's) eff" where
  "read_unspent tokenFilter = (\<lambda>(key, val).
     ebind (elift QeDb (Deserialize_SHUnspentValue val)) (\<lambda>shval.
       if \<not> shu_valid shval then
         ebind (elift QeDb (extractCompactTXOFromShunspentKey key False)) (\<lambda>_. ethrow (QeInternal ''Bad SHUnspentValue in db''))
       else if \<not> MoneyRange (shu_amount shval) then
         ebind (elift QeDb (extractCompactTXOFromShunspentKey key False)) (\<lambda>_. ethrow (QeInternal ''Out-of-range amount in db''))
       else if ShouldTokenFilter tokenFilter (shu_tokenDataPtr shval) then ereturn None
       else ebind (elift QeDb (extractCompactTXOFromShunspentKey key False)) (\<lambda>ctxo. ereturn (Some (ctxo, shval)))))"

definition scan_row :: "nat \<Rightarrow> TokenFilterOption \<Rightarrow> bytes \<times> bytes \<Rightarrow> (query_error, unit, 'c UnspentState) eff" where
  "scan_row maxHistory tokenFilter kv =
     ebind (count_items maxHistory 1) (\<lambda>_.
     ebind (read_unspent tokenFilter kv) (\<lambda>o1.
       case o1 of None \<Rightarrow> ereturn () | Some e \<Rightarrow> (\<lambda>s. (Inr (), s\<lparr>ctxoVec := ctxoVec s @ [e]\<rparr>))))"

definition list_confirmed_out ::
  "('c, TxNum, bytes) qcache \<Rightarrow> 'db rocksdb \<Rightarrow> 'db Store \<Rightarrow> CompactTXO \<times> SHUnspentValue \<Rightarrow> (query_error, unit, 'c UnspentState) eff" where
  "list_confirmed_out Q R st = (\<lambda>(ctxo, shval).
     ebind (tx_hash_of Q R st (ctxo_txNum ctxo)) (\<lambda>hash.
     ebind (opt_value (heightForTxNum st (ctxo_txNum ctxo))) (\<lambda>height.
       \<lambda>s. if TXO hash (ctxo_N ctxo) \<in> set (mempoolConfirmedSpends s) then (Inr (), s)
           else push_item \<lparr> hi_hash = hash, hi_height = sint height, hi_fee = None, ui_tx_pos = ctxo_N ctxo, ui_value = shu_amount shval,
                            ui_txNum = ctxo_txNum ctxo, ui_tokenDataPtr = shu_tokenDataPtr shval \<rparr> s)))"

definition rows_with_prefix :: "('db \<Rightarrow> bytes \<Rightarrow> (bytes \<times> bytes) list) \<Rightarrow> 'db \<Rightarrow> bytes \<Rightarrow> (bytes \<times> bytes) list" where
  "rows_with_prefix seek db p = takeWhile (\<lambda>(key, _). take (length p) key = p) (seek db p)"

definition listUnspent ::
  "('c, TxNum, bytes) qcache \<Rightarrow> 'db rocksdb \<Rightarrow> ('db \<Rightarrow> bytes \<Rightarrow> (bytes \<times> bytes) list) \<Rightarrow> nat \<Rightarrow> 'db Store \<Rightarrow> Mempool \<Rightarrow> bytes \<Rightarrow> TokenFilterOption \<Rightarrow>
   'c \<Rightarrow> UnspentItem list \<times> 'c" where
  "listUnspent Q R seek maxHistory st m hashX tokenFilter c =
     (if length hashX \<noteq> HashLen then ([], c)
      else
        case ebind (list_mempool maxHistory tokenFilter (txNumNext st + 100000000) m hashX) (\<lambda>_.
             ebind (efor (scan_row maxHistory tokenFilter) (rows_with_prefix seek (s_shunspent st) hashX)) (\<lambda>_.
               (\<lambda>s. efor (list_confirmed_out Q R st) (ctxoVec s) s)))
             \<lparr> qs_cache = c, qs_ret = [], qs_ctr = 0, mempoolConfirmedSpends = [], ctxoVec = [] \<rparr> of
          (Inr _, s) \<Rightarrow> (sort_key unspent_rank (qs_ret s), qs_cache s)
        | (Inl _, s) \<Rightarrow> (qs_ret s, qs_cache s))"

section \<open>Balances\<close>

record BalanceState =
  bs_confirmed :: Amount
  bs_unconfirmed :: Amount
  bs_ctr :: nat

definition balance_row :: "nat \<Rightarrow> TokenFilterOption \<Rightarrow> bytes \<times> bytes \<Rightarrow> (query_error, unit, BalanceState) eff" where
  "balance_row maxHistory tokenFilter = (\<lambda>(key, val).
     ebind (\<lambda>s. elift id (bump maxHistory 1 (bs_ctr s)) s) (\<lambda>n.
     ebind (\<lambda>s. (Inr (), s\<lparr>bs_ctr := n\<rparr>)) (\<lambda>_.
     ebind (elift QeDb (extractCompactTXOFromShunspentKey key False)) (\<lambda>_.
     ebind (elift QeDb (Deserialize_SHUnspentValue val)) (\<lambda>shval.
       if \<not> shu_valid shval then ethrow (QeInternal ''Bad SHUnspentValue in db'')
       else if \<not> MoneyRange (shu_amount shval) then ethrow (QeInternal ''Out-of-range amount in db'')
       else if ShouldTokenFilter tokenFilter (shu_tokenDataPtr shval) then ereturn ()
       else (\<lambda>s. (Inr (), s\<lparr>bs_confirmed := bs_confirmed s + shu_amount shval\<rparr>)))))))"

definition check_total :: "(query_error, unit, BalanceState) eff" where
  "check_total s = (if \<not> MoneyRange (bs_confirmed s) then (Inl (QeInternal ''Out-of-range total in db for getBalance''), s\<lparr>bs_confirmed := 0\<rparr>) else (Inr (), s))"

definition sum_utxos :: "TokenFilterOption \<Rightarrow> Tx \<Rightarrow> IONum list \<Rightarrow> Amount \<Rightarrow> (query_error, Amount) result" where
  "sum_utxos tokenFilter tx ionums acc =
     fold (\<lambda>ionum r. rbind r (\<lambda>utxos.
         if unat ionum \<ge> length (txos tx) \<or> \<not> txoinfo_isValid (txos tx ! unat ionum)
         then Inl (QeInternal ''scripthash lists tx, which then lacks a valid TXO IONum'')
         else Inr (if ShouldTokenFilter tokenFilter (ti_tokenDataPtr (txos tx ! unat ionum)) then utxos
                   else utxos + ti_amount (txos tx ! unat ionum)))) ionums (Inr acc)"

text \<open>The loop over the transactions of the mempool with its local variables: the counter and the two sums.\<close>

definition balance_tx :: "nat \<Rightarrow> TokenFilterOption \<Rightarrow> bytes \<Rightarrow> Tx \<Rightarrow> nat \<times> Amount \<times> Amount \<Rightarrow> (query_error, nat \<times> Amount \<times> Amount) result" where
  "balance_tx maxHistory tokenFilter hashX tx = (\<lambda>(ctr, utxos, spent).
     case map_of (hashXs tx) hashX of
       None \<Rightarrow> Inl (QeInternal ''scripthash lists tx, which then lacks the IOInfo for said hashX'')
     | Some info \<Rightarrow>
         rbind (bump maxHistory (length (confirmedSpends info) + length (utxo info)) ctr) (\<lambda>ctr.
         let spent = fold (\<lambda>(txo, txoinfo) a. if ShouldTokenFilter tokenFilter (ti_tokenDataPtr txoinfo) then a else a + ti_amount txoinfo)
                       (confirmedSpends info) spent
         in rbind (sum_utxos tokenFilter tx (utxo info) utxos) (\<lambda>utxos. Inr (ctr, utxos, spent))))"

definition balance_mempool :: "nat \<Rightarrow> TokenFilterOption \<Rightarrow> Mempool \<Rightarrow> bytes \<Rightarrow> (query_error, unit, BalanceState) eff" where
  "balance_mempool maxHistory tokenFilter m hashX s =
     (case map_of (hashXTxs m) hashX of
        None \<Rightarrow> (Inr (), s)
      | Some txvec \<Rightarrow>
          case fold (\<lambda>h r. rbind r (balance_tx maxHistory tokenFilter hashX (deref m h))) txvec (Inr (bs_ctr s, 0, 0)) of
            Inl e \<Rightarrow> (Inl e, s)
          | Inr (ctr, utxos, spent) \<Rightarrow> (Inr (), s\<lparr>bs_ctr := ctr, bs_unconfirmed := utxos - spent\<rparr>))"

definition getBalance ::
  "('db \<Rightarrow> bytes \<Rightarrow> (bytes \<times> bytes) list) \<Rightarrow> nat \<Rightarrow> 'db Store \<Rightarrow> Mempool \<Rightarrow> bytes \<Rightarrow> TokenFilterOption \<Rightarrow> Amount \<times> Amount" where
  "getBalance seek maxHistory st m hashX tokenFilter =
     (if length hashX \<noteq> HashLen then (0, 0)
      else
        let (r, s) = ebind (efor (balance_row maxHistory tokenFilter) (rows_with_prefix seek (s_shunspent st) hashX)) (\<lambda>_.
                     ebind check_total (\<lambda>_. balance_mempool maxHistory tokenFilter m hashX))
                       \<lparr> bs_confirmed = 0, bs_unconfirmed = 0, bs_ctr = 0 \<rparr>
        in (bs_confirmed s, bs_unconfirmed s))"

section \<open>Single outputs and transactions\<close>

fun spent_in_mempool :: "Mempool \<Rightarrow> bytes \<Rightarrow> TXO \<Rightarrow> bytes list \<Rightarrow> (query_error, bool) result" where
  "spent_in_mempool m hashX txo [] = Inr False"
| "spent_in_mempool m hashX txo (h # txvec) =
     (case map_of (hashXs (deref m h)) hashX of
        None \<Rightarrow> Inl (QeInternal ''scripthash has inconsistent mempool state for tx'')
      | Some ioinfo \<Rightarrow> if map_of (confirmedSpends ioinfo) txo \<noteq> None then Inr True else spent_in_mempool m hashX txo txvec)"

definition utxoGet :: "'db rocksdb \<Rightarrow> 'db Store \<Rightarrow> Mempool \<Rightarrow> TXO \<Rightarrow> (query_error, TXOInfo option) result" where
  "utxoGet R st m txo =
     (case map_of (txs m) (txHash txo) of
        Some tx \<Rightarrow>
          Inr (if unat (outN txo) < length (txos tx) then
                 let info = txos tx ! unat (outN txo)
                 in (case map_of (hashXs tx) (ti_hashX info) of
                       None \<Rightarrow> None
                     | Some ioinfo \<Rightarrow> if outN txo \<in> set (utxo ioinfo) then Some info else None)
               else None)
      | None \<Rightarrow>
          (case utxoGetFromDB R (s_utxoset st) txo False of
             Inl e \<Rightarrow> Inl (QeDb e)
           | Inr None \<Rightarrow> Inr None
           | Inr (Some info) \<Rightarrow>
               (case map_of (hashXTxs m) (ti_hashX info) of
                  None \<Rightarrow> Inr (Some info)
                | Some txvec \<Rightarrow> rbind (spent_in_mempool m (ti_hashX info) txo txvec) (\<lambda>spent. Inr (if spent then None else Some info)))))"

record FirstUse =
  fu_txHash :: bytes
  fu_height :: int
  fu_blockHash :: bytes

definition first_use_confirmed ::
  "('c, TxNum, bytes) qcache \<Rightarrow> 'db rocksdb \<Rightarrow> 'db Store \<Rightarrow> bytes \<Rightarrow> (query_error, FirstUse, 'c) eff" where
  "first_use_confirmed Q R st ba =
     (if length ba < 6 then ethrow (QeDb (DatabaseSerializationError ''Scripthash has a db entry in scripthash_history that is too short''))
      else
        let txNum = txNumFromCompactBytes ba False
        in ebind (opt_value (heightForTxNum st txNum)) (\<lambda>blockHeight.
           ebind (ebind (hashForTxNum Q R st txNum False False) opt_value) (\<lambda>hash.
           ebind (elift QePow (headerForHeight R (s_hdr st) False blockHeight)) (\<lambda>(header, _, _).
           ebind (opt_value header) (\<lambda>header.
           ebind (elift QePow (HeaderPoWHashRev header)) (\<lambda>blockHash.
             ereturn \<lparr> fu_txHash = hash, fu_height = sint blockHeight, fu_blockHash = blockHash \<rparr>))))))"

definition first_use_mempool :: "Mempool \<Rightarrow> bytes \<Rightarrow> FirstUse option" where
  "first_use_mempool m hashX =
     (case map_of (hashXTxs m) hashX of
        None \<Rightarrow> None
      | Some txvec \<Rightarrow>
          map_option (\<lambda>h. \<lparr> fu_txHash = mp_hash (deref m h), fu_height = (if parents (deref m h) \<noteq> [] then - 1 else 0), fu_blockHash = replicate HashLen 0 \<rparr>)
            (List.find (\<lambda>h. list_ex (\<lambda>info. ti_hashX info = hashX) (txos (deref m h))) txvec))"

definition getFirstUse ::
  "('c, TxNum, bytes) qcache \<Rightarrow> 'db rocksdb \<Rightarrow> 'db Store \<Rightarrow> Mempool \<Rightarrow> bytes \<Rightarrow> 'c \<Rightarrow> FirstUse option \<times> 'c" where
  "getFirstUse Q R st m hashX c =
     (case GenericDBGet R (s_shist st) hashX True deser_bytes of
        Inl e \<Rightarrow> (None, c)
      | Inr None \<Rightarrow> (first_use_mempool m hashX, c)
      | Inr (Some ba) \<Rightarrow> (case first_use_confirmed Q R st ba c of (Inl e, c) \<Rightarrow> (None, c) | (Inr u, c) \<Rightarrow> (Some u, c)))"

definition tx_num_of :: "'db rocksdb \<Rightarrow> 'db Store \<Rightarrow> bytes \<Rightarrow> (query_error, TxNum option) result" where
  "tx_num_of R st h = map_sum QeDb id (tx_find R (s_txhash2txnum st) (s_txnums st) (txNumsDRA st) (txhash2txnumMgr st) h)"

definition getTxHeights :: "'db rocksdb \<Rightarrow> 'db Store \<Rightarrow> Mempool \<Rightarrow> bytes list \<Rightarrow> (query_error, BlockHeight option list) result" where
  "getTxHeights R st m txHashes =
     rbind (map_sum QeDb id (findMany R (s_txhash2txnum st) (s_txnums st) (txNumsDRA st) (txhash2txnumMgr st) txHashes)) (\<lambda>txNums.
       if length txNums \<noteq> length txHashes then Inl (QeInternal ''findMany() returned an unexpected number of elements!'')
       else
         let txNums = map2 (\<lambda>h n. if n = None \<and> map_of (txs m) h \<noteq> None then Some 0 else n) txHashes txNums
         in Inr (map (\<lambda>n. case n of None \<Rightarrow> None | Some n \<Rightarrow> if n \<noteq> 0 then heightForTxNum st n else Some 0) txNums))"

definition getTxHeight :: "'db rocksdb \<Rightarrow> 'db Store \<Rightarrow> Mempool \<Rightarrow> bytes \<Rightarrow> (query_error, BlockHeight option) result" where
  "getTxHeight R st m h =
     rbind (tx_num_of R st h) (\<lambda>optTxNum.
       Inr (case optTxNum of
              Some n \<Rightarrow> heightForTxNum st n
            | None \<Rightarrow> if map_of (txs m) h \<noteq> None then Some 0 else None))"

definition getConfirmedTxBlockHeightAndHeader :: "'db rocksdb \<Rightarrow> 'db Store \<Rightarrow> bytes \<Rightarrow> (query_error, (BlockHeight \<times> bytes) option) result" where
  "getConfirmedTxBlockHeightAndHeader R st h =
     rbind (tx_num_of R st h) (\<lambda>optTxNum.
       case Option.bind optTxNum (heightForTxNum st) of
         None \<Rightarrow> Inr None
       | Some height \<Rightarrow>
           rbind (map_sum QePow id (headerForHeight R (s_hdr st) False height)) (\<lambda>(optHeader, _, _).
             Inr (map_option (Pair height) optHeader)))"

end
