(* ===== verification/Query_Layout.thy ===== *)
theory Query_Layout
  imports Storage_Queries
begin

text \<open>
  Transaction numbers: the position of a transaction in the chain, its hash and its height, and that the store and its caches answer
  accordingly. The locale \<open>storage_laws\<close> collects what the queries rely on: RocksDB with its iterators, and the cache.
\<close>

declare map_of_eq_Some_iff [simp del]

section \<open>Where transactions are\<close>

definition block_start :: "chain \<Rightarrow> nat \<Rightarrow> nat" where
  "block_start c i = length (concat (map snd (take i c)))"

text \<open>The number of blocks that end at or before the position.\<close>

definition tx_height :: "chain \<Rightarrow> nat \<Rightarrow> nat" where
  "tx_height c n = length (takeWhile (\<lambda>i. block_start c (Suc i) \<le> n) [0..<length c])"

definition blocks_small :: "chain \<Rightarrow> bool" where
  "blocks_small c \<longleftrightarrow> (\<forall>b \<in> set c. length (snd b) < 2 ^ 32)"

abbreviation chain_txs :: "chain \<Rightarrow> bytes list" where "chain_txs c \<equiv> l_txs (chain_ledger c)"

lemma chain_txs_eq: "chain_txs c = map txid (concat (map snd c))"
  by (induction c rule: rev_induct) (simp_all add: ledger_of_def apply_block_def ledger_empty_def Let_def)

lemma block_start_0 [simp]: "block_start c 0 = 0"
  by (simp add: block_start_def)

lemma block_start_Suc: "i < length c \<Longrightarrow> block_start c (Suc i) = block_start c i + length (snd (c ! i))"
  by (simp add: block_start_def take_Suc_conv_app_nth)

lemma block_start_all: "block_start c (length c) = length (chain_txs c)"
  by (simp add: block_start_def chain_txs_eq)

lemma block_start_mono: "i \<le> j \<Longrightarrow> block_start c i \<le> block_start c j"
proof -
  assume "i \<le> j"
  then obtain k where "take j c = take i c @ take k (drop i c)" by (metis le_add_diff_inverse take_add)
  then show ?thesis by (simp add: block_start_def)
qed

lemma chain_blks: "i < length c \<Longrightarrow> l_blks (chain_ledger c) ! i = \<lparr> txNum0 = of_nat (block_start c i), nTx = of_nat (length (snd (c ! i))) \<rparr>"
proof (induction c arbitrary: i rule: rev_induct)
  case (snoc b c)
  have "l_blks (chain_ledger (c @ [b])) = l_blks (chain_ledger c) @ [\<lparr> txNum0 = of_nat (length (chain_txs c)), nTx = of_nat (length (snd b)) \<rparr>]"
    by (simp add: ledger_of_def apply_block_def Let_def)
  moreover have "block_start (c @ [b]) i = block_start c i" if "i \<le> length c" using that by (simp add: block_start_def)
  ultimately show ?case using snoc by (auto simp: nth_append length_l_blks block_start_all less_Suc_eq_le)
qed simp

lemma tx_height_bounds:
  assumes "n < length (chain_txs c)"
  shows "tx_height c n < length c" "block_start c (tx_height c n) \<le> n" "n < block_start c (Suc (tx_height c n))"
proof -
  let ?P = "\<lambda>i. block_start c (Suc i) \<le> n" and ?k = "tx_height c n"
  have ne: "\<not> ?P (length c - 1)" "c \<noteq> []" using assms block_start_all[of c] by (cases c; force)+
  have "\<exists>x \<in> set [0..<length c]. \<not> ?P x" using ne by (intro bexI[of _ "length c - 1"]) auto
  then have "length (takeWhile ?P [0..<length c]) \<noteq> length [0..<length c]"
    by (metis append_Nil2 length_append less_not_refl set_takeWhileD takeWhile_dropWhile_id add_cancel_right_right length_0_conv)
  then show k: "?k < length c" using length_takeWhile_le[of ?P "[0..<length c]"] by (simp add: tx_height_def le_neq_implies_less)
  then have "\<not> ?P ([0..<length c] ! ?k)" unfolding tx_height_def using nth_length_takeWhile[of ?P "[0..<length c]"] by simp
  then show "n < block_start c (Suc ?k)" using k by simp
  show "block_start c ?k \<le> n"
  proof (cases ?k)
    case (Suc j)
    then have "j < length (takeWhile ?P [0..<length c])" by (simp add: tx_height_def)
    then have "?P (takeWhile ?P [0..<length c] ! j)" using nth_mem set_takeWhileD by fastforce
    moreover have "takeWhile ?P [0..<length c] ! j = j" using Suc k by (subst takeWhile_nth) (auto simp: tx_height_def)
    ultimately show ?thesis using Suc by simp
  qed simp
qed

lemma tx_height_unique:
  assumes "block_start c i \<le> n" "n < block_start c (Suc i)" "i < length c"
  shows "tx_height c n = i"
proof -
  have "n < length (chain_txs c)" using assms block_start_mono[of "Suc i" "length c" c] by (simp add: block_start_all)
  note b = tx_height_bounds[OF this]
  have "\<not> tx_height c n < i" using b(3) assms(1) block_start_mono[of "Suc (tx_height c n)" i c] by linarith
  moreover have "\<not> i < tx_height c n" using b(2) assms(2) block_start_mono[of "Suc i" "tx_height c n" c] by linarith
  ultimately show ?thesis by linarith
qed

text \<open>The hash of a transaction by its number, as far as there is one.\<close>

definition num_hash :: "chain \<Rightarrow> TxNum \<rightharpoonup> bytes" where
  "num_hash c n = (if unat n < length (chain_txs c) then Some (chain_txs c ! unat n) else None)"

definition block_hashes :: "chain \<Rightarrow> BlockHeight \<rightharpoonup> bytes list" where
  "block_hashes c h = (if unat h < length c then Some (map (rev \<circ> txid) (snd (c ! unat h))) else None)"

section \<open>Heights\<close>

lemma store_fields:
  assumes "store_repr contents st c"
  shows "chain_fits c" "dra_repr (contents (s_txnums st)) (txNumsDRA st) (chain_txs c)" "blkInfos st = l_blks (chain_ledger c)"
    "blkInfosByTxNum st = zip (map txNum0 (l_blks (chain_ledger c))) [0..<length c]" "ledger_wf (chain_ledger c)" "length (blkInfos st) = length c"
  using assms by (simp_all add: store_repr_def Let_def length_l_blks chain_fits_wf)

lemma chain_limits:
  assumes "chain_fits c"
  shows "length (chain_txs c) \<le> max_txnums" "length c \<le> max_height" "i < length c \<Longrightarrow> snd (c ! i) \<noteq> []"
  using chain_fits_wf[OF assms] assms by (auto simp: ledger_wf_def length_l_blks chain_fits_def block_fits_def)

lemma start_num: "chain_fits c \<Longrightarrow> i \<le> length c \<Longrightarrow> unat (of_nat (block_start c i) :: TxNum) = block_start c i"
  using chain_limits(1)[of c] block_start_mono[of i "length c" c] by (intro of_nat_txnum) (simp add: block_start_all)

lemma heightForTxNum_ok:
  assumes "store_repr contents st c" "blocks_small c"
  shows "heightForTxNum st n = (if unat n < length (chain_txs c) then Some (of_nat (tx_height c (unat n))) else None)"
proof -
  note f = store_fields[OF assms(1)]
  let ?N = "length c" and ?start = "block_start c"
  define es where "es = takeWhile (\<lambda>(n0, _). n0 \<le> n) (blkInfosByTxNum st)"
  have nth: "blkInfosByTxNum st ! i = (of_nat (?start i), i)" if "i < ?N" for i using that f(4) chain_blks[of i c] by (simp add: length_l_blks)
  have len: "length (blkInfosByTxNum st) = ?N" using f(4) by (simp add: length_l_blks)
  have le: "(of_nat (?start i) :: TxNum) \<le> n \<longleftrightarrow> ?start i \<le> unat n" if "i \<le> ?N" for i
    by (simp add: word_le_nat_alt start_num[OF f(1) that])
  have small: "length (snd (c ! i)) < 2 ^ 32" if "i < ?N" for i using that assms(2) by (simp add: blocks_small_def)
  have nx: "txNum0 (blkInfos st ! i) + ucast (nTx (blkInfos st ! i)) = of_nat (?start (Suc i))" "txNum0 (blkInfos st ! i) = of_nat (?start i)" if "i < ?N" for i
  proof -
    have "unat (of_nat (length (snd (c ! i))) :: u32) = length (snd (c ! i))" unfolding unat_of_nat using small[OF that] by (simp add: take_bit_nat_eq_self)
    then have "(ucast (of_nat (length (snd (c ! i))) :: u32) :: TxNum) = of_nat (length (snd (c ! i)))" by (metis of_nat_unat)
    then show "txNum0 (blkInfos st ! i) + ucast (nTx (blkInfos st ! i)) = of_nat (?start (Suc i))"
      using that by (simp add: f(3) chain_blks block_start_Suc)
    show "txNum0 (blkInfos st ! i) = of_nat (?start i)" using that by (simp add: f(3) chain_blks)
  qed
  have lt: "n < (of_nat (?start i) :: TxNum) \<longleftrightarrow> unat n < ?start i" if "i \<le> ?N" for i
    by (simp add: word_less_nat_alt start_num[OF f(1) that])
  show ?thesis
  proof (cases "unat n < length (chain_txs c)")
    case True
    note b = tx_height_bounds[OF True]
    let ?k = "tx_height c (unat n)"
    have "es = take (Suc ?k) (blkInfosByTxNum st)" unfolding es_def
    proof (rule takeWhile_eq_take_P_nth)
      fix i assume "i < Suc ?k" "i < length (blkInfosByTxNum st)"
      then show "case blkInfosByTxNum st ! i of (n0, _) \<Rightarrow> n0 \<le> n"
        using nth[of i] le[of i] b(2) block_start_mono[of i ?k c] by (simp add: len)
    next
      assume "Suc ?k < length (blkInfosByTxNum st)"
      then show "\<not> (case blkInfosByTxNum st ! Suc ?k of (n0, _) \<Rightarrow> n0 \<le> n)" using nth[of "Suc ?k"] le[of "Suc ?k"] b(3) by (simp add: len)
    qed
    then have e: "es \<noteq> []" "last es = (of_nat (?start ?k), ?k)"
      using b(1) nth[OF b(1)] by (simp_all add: len last_conv_nth flip: length_0_conv)
    then show ?thesis
      using True b nx[OF b(1)] le[of ?k] lt[of "Suc ?k"]
      by (cases es) (auto simp: heightForTxNum_def Let_def simp flip: es_def)
  next
    case False
    have "heightForTxNum st n = None"
    proof (cases es)
      case (Cons e es')
      have "last es \<in> set (blkInfosByTxNum st)" using Cons set_takeWhileD last_in_set unfolding es_def by (metis list.distinct(1))
      then obtain i where i: "i < ?N" "last es = (of_nat (?start i), i)" using nth len by (metis in_set_conv_nth)
      have "\<not> n < txNum0 (blkInfos st ! i) + ucast (nTx (blkInfos st ! i))"
        using nx(1)[OF i(1)] lt[of "Suc i"] i(1) False block_start_mono[of "Suc i" ?N c] by (simp add: block_start_all)
      then show ?thesis using Cons i by (simp add: heightForTxNum_def Let_def flip: es_def)
    qed (simp add: heightForTxNum_def flip: es_def)
    then show ?thesis using False by simp
  qed
qed

section \<open>Databases with iterators and caches\<close>

locale storage_laws =
  rocksdb_laws R contents + num: qcache_laws Q cached + blk: qcache_laws B blks_cached
  for R :: "'db rocksdb" and contents :: "'db \<Rightarrow> (bytes \<rightharpoonup> bytes)" and Q :: "('c, TxNum, bytes) qcache" and cached :: "'c \<Rightarrow> (TxNum \<rightharpoonup> bytes)"
    and B :: "('d, BlockHeight, bytes list) qcache" and blks_cached :: "'d \<Rightarrow> (BlockHeight \<rightharpoonup> bytes list)" +
  fixes seek :: "'db \<Rightarrow> bytes \<Rightarrow> (bytes \<times> bytes) list"
  assumes seek_sorted: "sorted_wrt (<) (map fst (seek db k))"
    and seek_rows: "set (seek db k) = {(k', v). contents db k' = Some v \<and> k \<le> k'}"
begin

lemma hashForTxNum_ok:
  assumes "store_repr contents st c" "num.coherent (num_hash c) ca"
  shows "\<exists>ca'. hashForTxNum Q R st n throwIfMissing skipCache ca =
      (case num_hash c n of None \<Rightarrow> if throwIfMissing then Inl (QeDb (DatabaseError ''Error reading TxHash for TxNum: Record number out of range'')) else Inr None
       | Some h \<Rightarrow> Inr (Some h), ca') \<and> num.coherent (num_hash c) ca'"
proof -
  note f = store_fields[OF assms(1)]
  have rd: "readRecord R (s_txnums st) (txNumsDRA st) (unat n) = (case num_hash c n of None \<Rightarrow> ([], ''Record number out of range'') | Some h \<Rightarrow> (h, ''''))"
    using readRecord_ok[OF f(2), of "unat n"] by (simp add: num_hash_def)
  have "length h = HashLen" if "h \<in> set (chain_txs c)" for h using that f(5) by (simp add: ledger_wf_def)
  then have ne: "h \<noteq> []" if "num_hash c n = Some h" for h
    using that nth_mem[of "unat n" "chain_txs c"] by (fastforce simp: num_hash_def split: if_splits)
  obtain r ca1 where o: "(if \<not> skipCache then cc_object Q n ca else (None, ca)) = (r, ca1)" by (metis surj_pair)
  have co: "num.coherent (num_hash c) ca1" and hit: "\<And>h. r = Some h \<Longrightarrow> num_hash c n = Some h"
    using o assms(2) num.coherent_object[of n ca r ca1 "num_hash c"] num.coherent_hit[of "num_hash c" ca n]
    by (auto split: if_splits) metis
  show ?thesis
  proof (cases r)
    case None
    then show ?thesis using o co rd ne num.coherent_insert[OF co] by (cases "num_hash c n") (auto simp: hashForTxNum_def Let_def)
  next
    case (Some h)
    then show ?thesis using o co hit by (auto simp: hashForTxNum_def Let_def)
  qed
qed

lemma hashes_at_ok:
  assumes "store_repr contents st c" "blocks_small c" "i < length c"
  shows "num.coherent (num_hash c) ca \<Longrightarrow> \<exists>ca'. hashes_at Q R st (blkInfos st ! i) ps ca =
    (Inr (map (\<lambda>p. if unat p < length (snd (c ! i)) then Some (txid (snd (c ! i) ! unat p)) else None) ps), ca') \<and> num.coherent (num_hash c) ca'"
proof (induction ps arbitrary: ca)
  case (Cons p ps)
  note f = store_fields[OF assms(1)]
  let ?bi = "blkInfos st ! i" and ?txs = "snd (c ! i)"
  have bi: "?bi = \<lparr> txNum0 = of_nat (block_start c i), nTx = of_nat (length ?txs) \<rparr>" using assms(3) by (simp add: f(3) chain_blks)
  have "unat (of_nat (length ?txs) :: u32) = length ?txs" unfolding unat_of_nat
    using assms(2,3) by (simp add: take_bit_nat_eq_self blocks_small_def)
  then have le: "p \<ge> nTx ?bi \<longleftrightarrow> \<not> unat p < length ?txs" by (simp add: bi word_le_nat_alt not_less)
  have "num_hash c (txNum0 ?bi + ucast p) = Some (txid (?txs ! unat p))" if "unat p < length ?txs"
  proof -
    have "block_start c i + unat p < length (chain_txs c)"
      using that assms(3) block_start_mono[of "Suc i" "length c" c] by (simp add: block_start_Suc flip: block_start_all)
    moreover from this have "unat (of_nat (block_start c i + unat p) :: TxNum) = block_start c i + unat p"
      using chain_limits(1)[OF f(1)] by (intro of_nat_txnum) simp
    moreover have "txNum0 ?bi + ucast p = of_nat (block_start c i + unat p)" by (simp add: bi)
    moreover have "concat (map snd c) = concat (map snd (take i c)) @ ?txs @ concat (map snd (drop (Suc i) c))"
      by (subst id_take_nth_drop[OF assms(3)]) simp
    ultimately show ?thesis using that by (simp add: num_hash_def chain_txs_eq block_start_def nth_append)
  qed
  then obtain ca1 where ca1: "(if p \<ge> nTx ?bi then ereturn None else hashForTxNum Q R st (txNum0 ?bi + ucast p) False False) ca =
      (Inr (if unat p < length ?txs then Some (txid (?txs ! unat p)) else None), ca1)" "num.coherent (num_hash c) ca1"
    using hashForTxNum_ok[OF assms(1) Cons.prems, of "txNum0 ?bi + ucast p" False False] le Cons.prems
    by (cases "unat p < length ?txs") (auto simp: ereturn_def)
  from Cons.IH[OF ca1(2)] obtain ca2 where "hashes_at Q R st ?bi ps ca1 =
    (Inr (map (\<lambda>p. if unat p < length (snd (c ! i)) then Some (txid (snd (c ! i) ! unat p)) else None) ps), ca2)" "num.coherent (num_hash c) ca2"
    by blast
  then show ?case using ca1(1) by (auto simp: ebind_Inr ereturn_def)
qed (simp add: ereturn_def)

lemma hashForHeightAndPos_ok:
  assumes "store_repr contents st c" "blocks_small c" "num.coherent (num_hash c) ca"
  shows "\<exists>ca'. hashForHeightAndPos Q R st h p ca =
    (Inr (if unat h < length c \<and> unat p < length (snd (c ! unat h)) then Some (txid (snd (c ! unat h) ! unat p)) else None), ca') \<and>
    num.coherent (num_hash c) ca'"
proof (cases "unat h < length c")
  case True
  from hashes_at_ok[OF assms(1,2) True assms(3), of "[p]"] True store_fields(6)[OF assms(1)]
  show ?thesis by (auto simp: hashForHeightAndPos_def hashesForHeightAndPosVec_def ebind_def ereturn_def)
next
  case False
  then show ?thesis using assms(3) store_fields(6)[OF assms(1)]
    by (auto simp: hashForHeightAndPos_def hashesForHeightAndPosVec_def ebind_def ereturn_def)
qed

lemma txHashesForBlock_ok:
  assumes "store_repr contents st c" "blocks_small c" "blk.coherent (block_hashes c) ca"
  shows "\<exists>ca'. txHashesForBlockInBitcoindMemoryOrder B R st h ca =
    (case block_hashes c h of None \<Rightarrow> [] | Some hs \<Rightarrow> hs, ca') \<and> blk.coherent (block_hashes c) ca'"
proof -
  note f = store_fields[OF assms(1)]
  let ?i = "unat h" and ?txs = "snd (c ! unat h)"
  obtain r ca1 where o: "cc_object B h ca = (r, ca1)" by (metis surj_pair)
  have co: "blk.coherent (block_hashes c) ca1" and hit: "\<And>hs. r = Some hs \<Longrightarrow> block_hashes c h = Some hs"
    using o assms(3) blk.coherent_object[of h ca r ca1 "block_hashes c"] blk.coherent_hit[of "block_hashes c" ca h] by (simp_all, metis)
  show ?thesis
  proof (cases r)
    case (Some hs)
    then show ?thesis using o co hit by (simp add: txHashesForBlockInBitcoindMemoryOrder_def)
  next
    case None
    show ?thesis
    proof (cases "?i < length c")
      case True
      have "unat (of_nat (length ?txs) :: u32) = length ?txs" unfolding unat_of_nat
        using assms(2) True by (simp add: take_bit_nat_eq_self blocks_small_def)
      then have bi: "unat (txNum0 (blkInfos st ! ?i)) = block_start c ?i" "unat (nTx (blkInfos st ! ?i)) = length ?txs"
        using True start_num[OF f(1), of ?i] by (simp_all add: f(3) chain_blks)
      have split: "concat (map snd c) = concat (map snd (take ?i c)) @ ?txs @ concat (map snd (drop (Suc ?i) c))"
        by (subst id_take_nth_drop[OF True]) simp
      then have "take (length ?txs) (drop (block_start c ?i) (chain_txs c)) = map txid ?txs" by (simp add: chain_txs_eq block_start_def)
      moreover have "block_start c ?i < length (chain_txs c)" "0 < length ?txs"
        using split chain_limits(3)[OF f(1) True] by (simp_all add: chain_txs_eq block_start_def)
      ultimately have rd: "readRecords R (s_txnums st) (txNumsDRA st) (block_start c ?i) (length ?txs) = (map txid ?txs, '''')"
        using readRecords_ok[OF f(2), of "block_start c ?i" "length ?txs"] by simp
      have bh: "block_hashes c h = Some (map rev (map txid ?txs))" using True by (simp add: block_hashes_def)
      show ?thesis using True None o co bh rd bi f(6) blk.coherent_insert[OF co bh]
        by (auto simp: txHashesForBlockInBitcoindMemoryOrder_def Let_def)
    next
      case False
      then show ?thesis using None o co f(6) by (simp add: txHashesForBlockInBitcoindMemoryOrder_def block_hashes_def)
    qed
  qed
qed

end

text \<open>Ordered finite maps with their keys in order, and least-recently-used caches.\<close>

definition fm_seek :: "(bytes, bytes) fmap \<Rightarrow> bytes \<Rightarrow> (bytes \<times> bytes) list" where
  "fm_seek db k = map (\<lambda>k'. (k', the (fmlookup db k'))) (filter (\<lambda>k'. k \<le> k') (sorted_list_of_fset (fmdom db)))"

interpretation fmq: storage_laws fm_rocksdb fmlookup lru_ops lru_cached lru_ops lru_cached fm_seek
proof
  fix db :: "(bytes, bytes) fmap" and k :: bytes
  have keys: "map fst (fm_seek db k) = filter (\<lambda>k'. k \<le> k') (sorted_list_of_fset (fmdom db))" by (simp add: fm_seek_def comp_def)
  have "sorted_wrt (<) (sorted_list_of_fset (fmdom db))"
    by (simp add: strict_sorted_iff sorted_list_of_fset.rep_eq)
  then show "sorted_wrt (<) (map fst (fm_seek db k))" unfolding keys by (rule sorted_wrt_filter)
  show "set (fm_seek db k) = {(k', v). fmlookup db k' = Some v \<and> k \<le> k'}"
    by (auto simp: fm_seek_def fmlookup_dom_iff image_iff)
qed

end
