(* ===== verification/Query_History.thy ===== *)
theory Query_History
  imports Query_Layout
begin

text \<open>
  Histories: \<open>getHistory\<close> returns the confirmed history that the ledger defines, within the heights asked for, followed by the
  transactions of the mempool that touch the script hash, as long as the limit on the number of items allows.
\<close>

declare map_of_eq_Some_iff [simp del]

section \<open>What the mempool says about a script hash\<close>

definition mempool_order :: "mview \<Rightarrow> bytes \<Rightarrow> bytes list" where
  "mempool_order v sh = sort_key (\<lambda>h. (has_parents v h, h)) (sorted_list_of_set (mp_touching v sh))"

lemma ordered_unique:
  assumes "ordered late xs" "ordered late ys" "set xs = set ys"
  shows "xs = ys"
proof -
  let ?f = "\<lambda>h. (late h, h)"
  have inj: "inj ?f" by (simp add: inj_def)
  have "distinct (map ?f xs)" "distinct (map ?f ys)" using assms by (simp_all add: ordered_def distinct_map inj_on_def)
  then have "map ?f xs = map ?f ys" using assms by (intro sorted_distinct_set_unique) (simp_all add: ordered_def)
  then show ?thesis using inj by (simp add: inj_map_eq_map)
qed

lemma mempool_order_ok:
  assumes "finite (mp_touching v sh)"
  shows "ordered (has_parents v) (mempool_order v sh)" "set (mempool_order v sh) = mp_touching v sh"
  using assms by (simp_all add: ordered_def mempool_order_def)

lemma mempool_vec:
  assumes "mempool_inv g T m"
  shows "map_of (hashXTxs m) sh = (if mp_touching (view_of g T) sh = {} then None else Some (mempool_order (view_of g T) sh))"
proof -
  let ?v = "view_of g T"
  have r: "hxs_ok (hashXTxs m)" "refs (hashXTxs m) sh = mp_touching ?v sh" "ordered_at (has_parents ?v) m sh" "finite (dom T)"
    using assms by (simp_all add: mempool_inv_def mempool_repr_def mp_rel_def mempool_ok_def)
  have "mp_touching ?v sh \<subseteq> dom T" by (auto simp: mp_touching_def)
  then have fin: "finite (mp_touching ?v sh)" using r(4) by (rule finite_subset)
  show ?thesis
  proof (cases "map_of (hashXTxs m) sh")
    case None
    then show ?thesis using r(2) by (simp add: refs_def)
  next
    case (Some vec)
    then have "set vec = mp_touching ?v sh" "vec \<noteq> []" "ordered (has_parents ?v) vec" using r by (auto simp: refs_def hxs_ok_def ordered_at_def)
    then have "vec = mempool_order ?v sh" "mp_touching ?v sh \<noteq> {}" using mempool_order_ok[OF fin] by (auto intro: ordered_unique)
    then show ?thesis using Some by simp
  qed
qed

lemma mempool_deref:
  assumes "mempool_inv g T m" "h \<in> mp_touching (view_of g T) sh"
  obtains c where "T h = Some c" "sh \<in> touched c (v_E (view_of g T) h)" "tx_rel (view_of g T) h c (deref m h)"
proof -
  let ?v = "view_of g T"
  obtain c where c: "T h = Some c" "sh \<in> touched c (v_E ?v h)" using assms(2) by (auto simp: mp_touching_def)
  have "rel_option (tx_rel ?v h) (T h) (map_of (txs m) h)"
    using assms(1) by (simp add: mempool_inv_def mempool_repr_def mp_rel_def txs_rel_def)
  then have "tx_rel ?v h c (deref m h)" using c(1) by (cases "map_of (txs m) h") (simp_all add: deref_def)
  then show ?thesis using c that by blast
qed

lemma mempool_touching: "finite (dom T) \<Longrightarrow> finite (mp_touching (view_of g T) sh)"
  by (rule finite_subset[of _ "dom T"]) (auto simp: mp_touching_def)

lemma mempool_order_set: "mempool_inv g T m \<Longrightarrow> set (mempool_order (view_of g T) sh) = mp_touching (view_of g T) sh"
  by (intro mempool_order_ok(2) mempool_touching) (simp add: mempool_inv_def mempool_ok_def)

section \<open>Items\<close>

definition confirmed_item :: "chain \<Rightarrow> TxNum \<Rightarrow> HistoryItem" where
  "confirmed_item c n = \<lparr> hi_hash = chain_txs c ! unat n, hi_height = int (tx_height c (unat n)), hi_fee = None \<rparr>"

definition unconfirmed_item :: "mview \<Rightarrow> bytes \<Rightarrow> HistoryItem" where
  "unconfirmed_item v h = \<lparr> hi_hash = h, hi_height = (if has_parents v h then - 1 else 0), hi_fee = Some (v_F v h) \<rparr>"

definition in_range :: "BlockHeight \<Rightarrow> BlockHeight option \<Rightarrow> nat \<Rightarrow> bool" where
  "in_range fromHeight optToHeight h \<longleftrightarrow> unat fromHeight \<le> h \<and> (\<forall>t. optToHeight = Some t \<longrightarrow> h < unat t)"

abbreviation hist_nums :: "chain \<Rightarrow> bytes \<Rightarrow> TxNum list" where "hist_nums c sh \<equiv> hist_of (l_hist (chain_ledger c)) sh"

definition confirmed_items :: "chain \<Rightarrow> BlockHeight \<Rightarrow> BlockHeight option \<Rightarrow> bytes \<Rightarrow> HistoryItem list" where
  "confirmed_items c fromHeight optToHeight sh =
     map (confirmed_item c) (filter (\<lambda>n. in_range fromHeight optToHeight (tx_height c (unat n))) (hist_nums c sh))"

definition unconfirmed_items :: "mview \<Rightarrow> bytes \<Rightarrow> HistoryItem list" where
  "unconfirmed_items v sh = map (unconfirmed_item v) (mempool_order v sh)"

lemma tx_height_mono:
  assumes "n \<le> n'" "n' < length (chain_txs c)"
  shows "tx_height c n \<le> tx_height c n'"
proof (rule ccontr)
  assume "\<not> ?thesis"
  then have "block_start c (Suc (tx_height c n')) \<le> block_start c (tx_height c n)" by (intro block_start_mono) simp
  then show False using tx_height_bounds[of n c] tx_height_bounds[of n' c] assms by linarith
qed

lemma mempool_item_ok:
  assumes "mempool_inv g T m" "h \<in> mp_touching (view_of g T) sh"
  shows "mempool_item m h = unconfirmed_item (view_of g T) h"
proof -
  obtain c where r: "tx_rel (view_of g T) h c (deref m h)" using assms by (rule mempool_deref)
  then have "parents (deref m h) \<noteq> [] \<longleftrightarrow> has_parents (view_of g T) h" by (auto simp: tx_rel_def has_parents_def simp flip: set_empty)
  then show ?thesis using r by (simp add: mempool_item_def unconfirmed_item_def tx_rel_def)
qed

lemma efor_push: "efor (push_item \<circ> f) xs s = (Inr (), s\<lparr>qs_ret := qs_ret s @ map f xs\<rparr>)"
  by (induction xs arbitrary: s) (simp_all add: ereturn_def ebind_def push_item_def)

lemma unconf_history_ok:
  assumes "mempool_inv g T m"
  shows "unconf_history maxHistory m sh s =
    (let n = length (mempool_order (view_of g T) sh)
     in if mp_touching (view_of g T) sh \<noteq> {} \<and> qs_ctr s + n > maxHistory then (Inl HistoryTooLarge, s)
        else (Inr (), s\<lparr>qs_ret := qs_ret s @ unconfirmed_items (view_of g T) sh, qs_ctr := qs_ctr s + n\<rparr>))"
proof -
  let ?v = "view_of g T"
  have "map (mempool_item m) (mempool_order ?v sh) = unconfirmed_items ?v sh"
    using mempool_item_ok[OF assms] mempool_order_set[OF assms] by (simp add: unconfirmed_items_def)
  moreover have "mempool_order ?v sh = []" if "mp_touching ?v sh = {}" using that by (simp add: mempool_order_def)
  ultimately show ?thesis
    by (auto simp: unconf_history_def mempool_vec[OF assms] count_items_def bump_def ebind_def ereturn_def efor_push Let_def unconfirmed_items_def)
qed

context storage_laws
begin

lemma tx_hash_of_ok:
  assumes "store_repr contents st c" "num.coherent (num_hash c) (qs_cache s)" "unat n < length (chain_txs c)"
  shows "\<exists>ca'. tx_hash_of Q R st n s = (Inr (chain_txs c ! unat n), s\<lparr>qs_cache := ca'\<rparr>) \<and> num.coherent (num_hash c) ca'"
proof -
  have "num_hash c n = Some (chain_txs c ! unat n)" using assms(3) by (simp add: num_hash_def)
  with hashForTxNum_ok[OF assms(1,2), of n False False] obtain ca' where
    "hashForTxNum Q R st n False False (qs_cache s) = (Inr (Some (chain_txs c ! unat n)), ca')" "num.coherent (num_hash c) ca'" by auto
  then show ?thesis by (auto simp: tx_hash_of_def with_cache_def ebind_def opt_value_def ereturn_def)
qed

lemma conf_history_ok:
  assumes "store_repr contents st c" "blocks_small c"
  shows "\<forall>n \<in> set nums. unat n < length (chain_txs c) \<Longrightarrow> sorted nums \<Longrightarrow> num.coherent (num_hash c) (qs_cache s) \<Longrightarrow>
    \<exists>ca'. conf_history Q R st a b nums s =
      (Inr (), s\<lparr>qs_cache := ca', qs_ret := qs_ret s @ map (confirmed_item c) (filter (\<lambda>n. in_range a b (tx_height c (unat n))) nums)\<rparr>) \<and>
      num.coherent (num_hash c) ca'"
proof (induction nums arbitrary: s)
  case Nil
  then show ?case by (intro exI[of _ "qs_cache s"]) (simp add: ereturn_def)
next
  case (Cons n nums)
  let ?h = "tx_height c (unat n)" and ?w = "of_nat (tx_height c (unat n)) :: BlockHeight"
  have n: "unat n < length (chain_txs c)" using Cons.prems by simp
  have "length c \<le> max_height" using chain_limits(2) store_fields(1)[OF assms(1)] by blast
  then have w: "unat ?w = ?h" "sint ?w = int ?h" using tx_height_bounds(1)[OF n] sint_height[of ?h] by (simp_all add: max_height_def)
  have ht: "heightForTxNum st n = Some ?w" using heightForTxNum_ok[OF assms] n by simp
  show ?case
  proof (cases "\<exists>t. b = Some t \<and> t \<le> ?w")
    case True
    then obtain t where t: "b = Some t" "unat t \<le> ?h" by (auto simp: word_le_nat_alt w)
    have "\<not> in_range a b (tx_height c (unat x))" if "x \<in> set (n # nums)" for x
    proof -
      have "unat n \<le> unat x" "unat x < length (chain_txs c)" using that Cons.prems by (auto simp: word_le_nat_alt)
      then have "?h \<le> tx_height c (unat x)" by (rule tx_height_mono)
      then show ?thesis using t by (auto simp: in_range_def)
    qed
    then have "filter (\<lambda>n. in_range a b (tx_height c (unat n))) (n # nums) = []" by (simp add: filter_empty_conv)
    then show ?thesis using True Cons.prems(3) ht
      by (intro exI[of _ "qs_cache s"]) (auto simp: ebind_def opt_value_def ereturn_def)
  next
    case False
    then have nb: "(case b of None \<Rightarrow> False | Some t \<Rightarrow> t \<le> ?w) = False" and b: "\<forall>t. b = Some t \<longrightarrow> ?h < unat t"
      by (auto simp: word_le_nat_alt w split: option.split)
    show ?thesis
    proof (cases "?w < a")
      case True
      then have "\<not> in_range a b ?h" by (simp add: in_range_def word_less_nat_alt w)
      then show ?thesis using Cons True nb ht by (simp add: ebind_def opt_value_def ereturn_def)
    next
      case ge: False
      then have r: "in_range a b ?h" using b by (simp add: in_range_def word_less_nat_alt w)
      obtain ca1 where ca1: "tx_hash_of Q R st n s = (Inr (chain_txs c ! unat n), s\<lparr>qs_cache := ca1\<rparr>)" "num.coherent (num_hash c) ca1"
        using tx_hash_of_ok[OF assms(1) Cons.prems(3) n] by blast
      let ?s1 = "s\<lparr>qs_cache := ca1, qs_ret := qs_ret s @ [confirmed_item c n]\<rparr>"
      have "conf_history Q R st a b (n # nums) s = conf_history Q R st a b nums ?s1"
        using nb ge ht ca1(1) by (simp add: ebind_def opt_value_def ereturn_def push_item_def confirmed_item_def w)
      moreover obtain ca' where "conf_history Q R st a b nums ?s1 = (Inr (), ?s1\<lparr>qs_cache := ca',
          qs_ret := qs_ret ?s1 @ map (confirmed_item c) (filter (\<lambda>n. in_range a b (tx_height c (unat n))) nums)\<rparr>)" "num.coherent (num_hash c) ca'"
        using Cons.IH[of ?s1] Cons.prems ca1(2) by auto
      ultimately show ?thesis using r by (intro exI[of _ ca']) simp
    qed
  qed
qed

lemma read_history_ok:
  assumes "store_repr contents st c"
  shows "read_history R st sh s = (Inr (l_hist (chain_ledger c) sh), s)"
    "\<forall>n \<in> set (hist_nums c sh). unat n < length (chain_txs c)" "sorted (hist_nums c sh)"
proof -
  have tab: "contents (s_shist st) = hist_tab (l_hist (chain_ledger c))" using assms by (simp add: store_repr_def Let_def)
  have wf: "ledger_wf (chain_ledger c)" by (rule store_fields(5)[OF assms])
  have ok: "hist_ok (length (chain_txs c)) v" if "l_hist (chain_ledger c) sh = Some v" for v using that wf by (simp add: ledger_wf_def)
  show "read_history R st sh s = (Inr (l_hist (chain_ledger c) sh), s)"
  proof (cases "l_hist (chain_ledger c) sh")
    case None
    then show ?thesis using tab by (simp add: read_history_def GenericDBGet_missing hist_tab_def elift_def ereturn_def)
  next
    case (Some v)
    then have "contents (s_shist st) sh = Some (Serialize_TxNumVec v)" using tab by (simp add: hist_tab_def)
    moreover have "length (chain_txs c) \<le> max_txnums" using wf by (simp add: ledger_wf_def)
    ultimately show ?thesis using Some hist_ok_deser[OF ok[OF Some]]
      by (simp add: read_history_def GenericDBGet_found deser_object_def elift_def ereturn_def)
  qed
  show "\<forall>n \<in> set (hist_nums c sh). unat n < length (chain_txs c)" "sorted (hist_nums c sh)"
    using ok by (cases "l_hist (chain_ledger c) sh"; simp add: hist_of_def hist_ok_def)+
qed

lemma getHistory_ok:
  fixes wantConf wantMem :: bool
  assumes "store_repr contents st c" "blocks_small c" "mempool_inv g T m" "num.coherent (num_hash c) ca" "length sh = HashLen"
  defines "nConf \<equiv> (if wantConf then length (hist_nums c sh) else 0)"
    and "nMem \<equiv> (if wantMem then length (mempool_order (view_of g T) sh) else 0)"
  shows "\<exists>ca'. getHistory Q R maxHistory st m sh wantConf wantMem a b ca =
      (if nConf > maxHistory then []
       else (if wantConf then confirmed_items c a b sh else []) @ (if wantMem \<and> nConf + nMem \<le> maxHistory then unconfirmed_items (view_of g T) sh else []), ca') \<and>
    num.coherent (num_hash c) ca'"
proof -
  let ?s0 = "\<lparr> qs_cache = ca, qs_ret = [], qs_ctr = 0 \<rparr> :: ('c, HistoryItem) QueryState"
  let ?f = "if wantConf then ebind (read_history R st sh) (\<lambda>nums_opt. case nums_opt of None \<Rightarrow> ereturn ()
      | Some nums \<Rightarrow> ebind (count_items maxHistory (length nums)) (\<lambda>_. conf_history Q R st a b nums)) else ereturn ()"
  let ?C = "if wantConf then confirmed_items c a b sh else []"
  have f: "\<exists>ca'. ?f ?s0 = (if nConf > maxHistory then (Inl HistoryTooLarge, ?s0) else (Inr (), ?s0\<lparr>qs_cache := ca', qs_ret := ?C, qs_ctr := nConf\<rparr>)) \<and>
    num.coherent (num_hash c) ca'"
  proof (cases "wantConf \<and> l_hist (chain_ledger c) sh \<noteq> None")
    case True
    then obtain v where v: "l_hist (chain_ledger c) sh = Some v" "hist_nums c sh = v" by (auto simp: hist_of_def)
    let ?s1 = "?s0\<lparr>qs_ctr := length v\<rparr>"
    obtain ca' where "conf_history Q R st a b v ?s1 = (Inr (), ?s1\<lparr>qs_cache := ca', qs_ret := qs_ret ?s1 @ confirmed_items c a b sh\<rparr>)"
        "num.coherent (num_hash c) ca'"
      using conf_history_ok[OF assms(1,2), of v ?s1 a b] read_history_ok(2,3)[OF assms(1), of sh] assms(4) v
      by (auto simp: confirmed_items_def)
    then show ?thesis using True v assms(4) nConf_def
      by (auto simp: ebind_def read_history_ok(1)[OF assms(1)] count_items_def bump_def)
  next
    case False
    then have "nConf = 0" "?C = []" by (auto simp: nConf_def confirmed_items_def hist_of_def)
    then show ?thesis using False assms(4)
      by (intro exI[of _ ca]) (auto simp: ebind_def read_history_ok(1)[OF assms(1)] ereturn_def)
  qed
  then obtain ca' where ca': "?f ?s0 = (if nConf > maxHistory then (Inl HistoryTooLarge, ?s0) else (Inr (), ?s0\<lparr>qs_cache := ca', qs_ret := ?C, qs_ctr := nConf\<rparr>))"
      "num.coherent (num_hash c) ca'" by blast
  have e: "unconfirmed_items (view_of g T) sh = []" "mempool_order (view_of g T) sh = []" if "mp_touching (view_of g T) sh = {}"
    using that by (simp_all add: unconfirmed_items_def mempool_order_def)
  show ?thesis
  proof (cases "nConf > maxHistory")
    case True
    then show ?thesis using ca'(1) assms(4,5) by (auto simp: getHistory_def ebind_def)
  next
    case False
    then show ?thesis using ca' assms(5) e
      by (cases wantMem) (auto simp: getHistory_def ebind_def unconf_history_ok[OF assms(3)] Let_def nMem_def ereturn_def)
  qed
qed

end

end
