(* ===== verification/Query_Unspent.thy ===== *)
theory Query_Unspent
  imports Query_History
begin

text \<open>
  Unspent outputs: what \<open>listUnspent\<close> and \<open>getBalance\<close> read from the table of unspent outputs and from the mempool.
\<close>

declare map_of_eq_Some_iff [simp del]

section \<open>Scanning a prefix\<close>

lemma prefix_between: "p \<le> k \<Longrightarrow> k \<le> q \<Longrightarrow> take (length p) q = p \<Longrightarrow> take (length p) k = (p :: 'a::linorder list)"
proof (induction p arbitrary: k q)
  case (Cons a p)
  then obtain b k' where k: "k = b # k'" by (cases k) auto
  obtain q' where q: "q = a # q'" "take (length p) q' = p" using Cons.prems(3) by (cases q) auto
  show ?case using Cons.prems(1,2) Cons.IH[of k' q'] q(2) unfolding k q(1) by auto
qed simp

lemma prefix_le: "p \<le> p @ (x :: 'a::linorder list)"
  by (induction p) simp_all

lemma takeWhile_sorted:
  assumes "sorted_wrt (<) (map f xs)" "\<And>x y. x \<in> set xs \<Longrightarrow> y \<in> set xs \<Longrightarrow> f x < f y \<Longrightarrow> P y \<Longrightarrow> P x"
  shows "takeWhile P xs = filter P xs"
  using assms
proof (induction xs)
  case (Cons x xs)
  show ?case
  proof (cases "P x")
    case False
    have "\<not> P y" if "y \<in> set xs" for y using that Cons.prems False by auto
    then show ?thesis using False by (simp add: filter_empty_conv)
  qed (use Cons in auto)
qed simp

context storage_laws
begin

lemma rows_ok:
  shows "set (rows_with_prefix seek db p) = {(k, v). contents db k = Some v \<and> take (length p) k = p}"
    "sorted_wrt (<) (map fst (rows_with_prefix seek db p))"
proof -
  let ?P = "\<lambda>(key, _). take (length p) key = p"
  have le: "p \<le> k" if "take (length p) k = p" for k :: bytes
    using that prefix_le[of p] by (metis append_take_drop_id)
  have f: "rows_with_prefix seek db p = filter ?P (seek db p)" unfolding rows_with_prefix_def
    by (rule takeWhile_sorted[of fst]) (use seek_sorted seek_rows in \<open>auto intro: prefix_between[OF _ less_imp_le]\<close>)
  show "set (rows_with_prefix seek db p) = {(k, v). contents db k = Some v \<and> take (length p) k = p}"
    using le by (auto simp: f seek_rows)
  show "sorted_wrt (<) (map fst (rows_with_prefix seek db p))"
    unfolding f using seek_sorted[of db p] by (simp add: sorted_wrt_map sorted_wrt_filter)
qed

end

section \<open>The rows of a script hash\<close>

definition chain_unspent :: "chain \<Rightarrow> bytes \<Rightarrow> TXO set" where
  "chain_unspent c sh = {txo. \<exists>info. l_utxo (chain_ledger c) txo = Some info \<and> ti_hashX info = sh}"

abbreviation chain_info :: "chain \<Rightarrow> TXO \<Rightarrow> TXOInfo" where "chain_info c txo \<equiv> the (l_utxo (chain_ledger c) txo)"

definition unspent_row :: "chain \<Rightarrow> TXO \<Rightarrow> bytes \<times> bytes" where
  "unspent_row c txo = (shu_key txo (chain_info c txo), shu_val txo (chain_info c txo))"

definition unspent_value :: "TXOInfo \<Rightarrow> SHUnspentValue" where
  "unspent_value info = \<lparr> shu_valid = True, shu_amount = ti_amount info, shu_tokenDataPtr = ti_tokenDataPtr info \<rparr>"

lemma chain_unspent_entry:
  assumes "store_repr contents st c" "txo \<in> chain_unspent c sh"
  shows "utxo_entry (chain_txs c) txo (chain_info c txo)" "ti_hashX (chain_info c txo) = sh" "l_utxo (chain_ledger c) txo = Some (chain_info c txo)"
  using assms store_fields(5)[OF assms(1)] by (auto simp: chain_unspent_def ledger_wf_def)

lemma compact_parts:
  assumes "utxo_entry recs txo info" "length recs \<le> max_txnums"
  shows "ctxo_txNum (compact_of txo info) = ti_txNum info" "ctxo_N (compact_of txo info) = outN txo" "ctxo_isValid (compact_of txo info)"
proof -
  have b: "unat (ti_txNum info) < 2 ^ 48 - 1" "unat (outN txo) < 2 ^ 24" using assms by (auto simp: utxo_entry_def max_txnums_def)
  have u: "unat (ucast (ti_txNum info) :: 48 word) = unat (ti_txNum info)" "unat (ucast (outN txo) :: 24 word) = unat (outN txo)"
    using b by (simp_all add: unsigned_ucast_eq take_bit_nat_eq_self)
  then show "ctxo_txNum (compact_of txo info) = ti_txNum info" "ctxo_N (compact_of txo info) = outN txo"
    by (simp_all add: ctxo_txNum_def ctxo_N_def compact_of_def CompactTXO_new_def word_unat_eq_iff[where 'a = 64] word_unat_eq_iff[where 'a = 32]
        unsigned_ucast_eq[where 'b = 64] unsigned_ucast_eq[where 'b = 32] unsigned_take_bit_eq take_bit_nat_eq_self)
  have "(ucast (ti_txNum info) :: 48 word) \<noteq> 281474976710655"
  proof
    assume "(ucast (ti_txNum info) :: 48 word) = 281474976710655"
    then have "unat (ti_txNum info) = unat (281474976710655 :: 48 word)" using u(1) by simp
    then show False using b(1) by simp
  qed
  then show "ctxo_isValid (compact_of txo info)"
    by (simp add: ctxo_isValid_def compact_of_def CompactTXO_new_def CompactTXO_default_def)
qed

lemma unspent_row_read:
  assumes "store_repr contents st c" "txo \<in> chain_unspent c sh"
  shows "extractCompactTXOFromShunspentKey (fst (unspent_row c txo)) False = Inr (compact_of txo (chain_info c txo))"
    "Deserialize_SHUnspentValue (snd (unspent_row c txo)) = Inr (unspent_value (chain_info c txo))"
proof -
  note e = chain_unspent_entry[OF assms]
  have len: "length (chain_txs c) \<le> max_txnums" using chain_limits(1) store_fields(1)[OF assms(1)] by blast
  have "length (ti_hashX (chain_info c txo)) = 32" using e(1) by (simp add: utxo_entry_def info_ok_def txoinfo_isValid_def)
  then have "extractShunspentKey (shu_key txo (chain_info c txo)) False = Inr (ti_hashX (chain_info c txo), compact_of txo (chain_info c txo))"
    using unspent_key_order[OF _ _ entry_serialises(4)[OF e(1)] entry_serialises(4)[OF e(1)]] compact_parts(3)[OF e(1) len] by simp
  then show "extractCompactTXOFromShunspentKey (fst (unspent_row c txo)) False = Inr (compact_of txo (chain_info c txo))"
    by (auto simp: extractShunspentKey_def rbind_def unspent_row_def split: sum.splits)
  from shunspent_value_roundtrip[of "ti_tokenDataPtr (chain_info c txo)" "ti_amount (chain_info c txo)"] e(1) entry_serialises(3)[OF e(1)]
  show "Deserialize_SHUnspentValue (snd (unspent_row c txo)) = Inr (unspent_value (chain_info c txo))"
    by (auto simp: unspent_row_def unspent_value_def utxo_entry_def info_ok_def)
qed

context storage_laws
begin

lemma unspent_rows:
  assumes "store_repr contents st c" "length sh = HashLen"
  obtains us where "rows_with_prefix seek (s_shunspent st) sh = map (unspent_row c) us" "distinct us" "set us = chain_unspent c sh"
proof -
  let ?U = "l_utxo (chain_ledger c)" and ?rows = "rows_with_prefix seek (s_shunspent st) sh"
  have tab: "table_of shu_key shu_val ?U (contents (s_shunspent st))" using assms(1) by (simp add: store_repr_def utxo_repr_def Let_def)
  have key: "take HashLen (shu_key txo info) = ti_hashX info" if "?U txo = Some info" for txo info
    using that store_fields(5)[OF assms(1)] by (auto simp: ledger_wf_def shu_key_def utxo_entry_def info_ok_def txoinfo_isValid_def)
  have mem: "(k, v) \<in> set ?rows \<longleftrightarrow> (\<exists>txo \<in> chain_unspent c sh. unspent_row c txo = (k, v))" for k v
  proof -
    have "(k, v) \<in> set ?rows \<longleftrightarrow> (\<exists>txo info. ?U txo = Some info \<and> shu_key txo info = k \<and> shu_val txo info = v) \<and> take HashLen k = sh"
      using rows_ok(1)[of "s_shunspent st" sh] tab assms(2) by (simp add: table_of_def)
    also have "\<dots> \<longleftrightarrow> (\<exists>txo \<in> chain_unspent c sh. unspent_row c txo = (k, v))"
    proof
      assume "(\<exists>txo info. ?U txo = Some info \<and> shu_key txo info = k \<and> shu_val txo info = v) \<and> take HashLen k = sh"
      then obtain txo info where "?U txo = Some info" "shu_key txo info = k" "shu_val txo info = v" "take HashLen k = sh" by blast
      then show "\<exists>txo \<in> chain_unspent c sh. unspent_row c txo = (k, v)"
        using key by (intro bexI[of _ txo]) (auto simp: chain_unspent_def unspent_row_def)
    next
      assume "\<exists>txo \<in> chain_unspent c sh. unspent_row c txo = (k, v)"
      then obtain txo info where "?U txo = Some info" "ti_hashX info = sh" "unspent_row c txo = (k, v)" by (auto simp: chain_unspent_def)
      then show "(\<exists>txo info. ?U txo = Some info \<and> shu_key txo info = k \<and> shu_val txo info = v) \<and> take HashLen k = sh"
        using key[of txo info] by (simp add: unspent_row_def) blast
    qed
    finally show ?thesis .
  qed
  have "\<forall>r \<in> set ?rows. \<exists>txo. txo \<in> chain_unspent c sh \<and> unspent_row c txo = r"
  proof
    fix r assume "r \<in> set ?rows"
    then show "\<exists>txo. txo \<in> chain_unspent c sh \<and> unspent_row c txo = r" using mem[of "fst r" "snd r"] by auto
  qed
  then obtain f where f: "\<And>r. r \<in> set ?rows \<Longrightarrow> f r \<in> chain_unspent c sh \<and> unspent_row c (f r) = r"
    using bchoice[of "set ?rows" "\<lambda>r txo. txo \<in> chain_unspent c sh \<and> unspent_row c txo = r"] by blast
  have inj: "txo = txo'" if "txo \<in> chain_unspent c sh" "txo' \<in> chain_unspent c sh" "unspent_row c txo = unspent_row c txo'" for txo txo'
    using that chain_unspent_entry(1)[OF assms(1)] shu.key_inj[of "chain_txs c" txo "chain_info c txo" txo' "chain_info c txo'"]
    by (simp add: unspent_row_def)
  have "map (unspent_row c) (map f ?rows) = ?rows" using f by (simp add: map_idI)
  moreover have "distinct (map fst ?rows)" using rows_ok(2)[of "s_shunspent st" sh] strict_sorted_iff by blast
  then have "distinct (map f ?rows)" using calculation by (metis distinct_map)
  moreover have "set (map f ?rows) = chain_unspent c sh"
  proof
    show "set (map f ?rows) \<subseteq> chain_unspent c sh" using f by auto
    show "chain_unspent c sh \<subseteq> set (map f ?rows)"
    proof
      fix txo assume t: "txo \<in> chain_unspent c sh"
      then have r: "unspent_row c txo \<in> set ?rows" using mem[of "fst (unspent_row c txo)" "snd (unspent_row c txo)"] by auto
      then have "f (unspent_row c txo) = txo" using inj[OF _ t] f[OF r] by blast
      then show "txo \<in> set (map f ?rows)" using r by force
    qed
  qed
  ultimately show ?thesis using that by metis
qed

end

section \<open>What the mempool adds and spends\<close>

definition mem_outs :: "mview \<Rightarrow> bytes \<Rightarrow> bytes \<Rightarrow> IONum set" where
  "mem_outs v sh h = {n. \<exists>c. v_O v h = Some c \<and> n \<in> out_nums (vout c) sh \<and> TXO h n \<notin> v_S v}"

definition mem_info :: "mview \<Rightarrow> bytes \<Rightarrow> IONum \<Rightarrow> TXOInfo" where
  "mem_info v h n = out_entry (vout (the (v_O v h)) ! unat n)"

definition mem_spent_by :: "mview \<Rightarrow> bytes \<Rightarrow> bytes \<Rightarrow> TXO set" where
  "mem_spent_by v sh h = {txo. \<exists>i. v_E v h txo = Some (True, i) \<and> ti_hashX i = sh}"

definition mem_spent :: "mview \<Rightarrow> bytes \<Rightarrow> TXO set" where
  "mem_spent v sh = (\<Union>h \<in> mp_touching v sh. mem_spent_by v sh h)"

definition mem_item :: "mview \<Rightarrow> TxNum \<Rightarrow> bytes \<Rightarrow> IONum \<Rightarrow> UnspentItem" where
  "mem_item v veryHigh h n =
     \<lparr> hi_hash = h, hi_height = 0, hi_fee = Some (v_F v h), ui_tx_pos = n, ui_value = ti_amount (mem_info v h n),
       ui_txNum = 1 + veryHigh + (if has_parents v h then 1 else 0), ui_tokenDataPtr = ti_tokenDataPtr (mem_info v h n) \<rparr>"

abbreviation keep :: "TokenFilterOption \<Rightarrow> TXOInfo \<Rightarrow> bool" where "keep tf info \<equiv> \<not> ShouldTokenFilter tf (ti_tokenDataPtr info)"

definition mem_items :: "mview \<Rightarrow> TokenFilterOption \<Rightarrow> TxNum \<Rightarrow> bytes \<Rightarrow> bytes set \<Rightarrow> UnspentItem set" where
  "mem_items v tf veryHigh sh H = {mem_item v veryHigh h n | h n. h \<in> H \<and> n \<in> mem_outs v sh h \<and> keep tf (mem_info v h n)}"

lemma mempool_io:
  assumes "mempool_inv g T m" "h \<in> mp_touching (view_of g T) sh"
  obtains c io where "T h = Some c" "map_of (hashXs (deref m h)) sh = Some io" "txos (deref m h) = map out_entry (vout c)"
    "mp_hash (deref m h) = h" "fee (deref m h) = v_F (view_of g T) h" "parents (deref m h) \<noteq> [] \<longleftrightarrow> has_parents (view_of g T) h"
    "distinct (utxo io)" "set (utxo io) = mem_outs (view_of g T) sh h" "distinct (keys (confirmedSpends io))"
    "map_of (confirmedSpends io) = spends_of True (v_E (view_of g T) h) sh"
proof -
  let ?v = "view_of g T"
  obtain c where c: "T h = Some c" "sh \<in> touched c (v_E ?v h)" "tx_rel ?v h c (deref m h)" using assms by (rule mempool_deref)
  have hx: "case map_of (hashXs (deref m h)) sh of None \<Rightarrow> sh \<notin> touched c (v_E ?v h) | Some io \<Rightarrow> sh \<in> touched c (v_E ?v h) \<and> io_rel c (v_E ?v h) (spent_nums (v_S ?v) h) sh io"
    using c(3) unfolding tx_rel_def hx_rel_def by blast
  then obtain io where io: "map_of (hashXs (deref m h)) sh = Some io" "io_rel c (v_E ?v h) (spent_nums (v_S ?v) h) sh io"
    using c(2) by (cases "map_of (hashXs (deref m h)) sh") auto
  have "parents (deref m h) \<noteq> [] \<longleftrightarrow> has_parents ?v h" using c(3) by (auto simp: tx_rel_def has_parents_def simp flip: set_empty)
  moreover have "set (utxo io) = mem_outs ?v sh h" using io(2) c(1) by (auto simp: io_rel_def mem_outs_def spent_nums_def)
  ultimately show ?thesis using that c io by (simp add: tx_rel_def io_rel_def)
qed

text \<open>Amounts are not negative.\<close>

definition values_ok :: "(bytes \<rightharpoonup> CTransaction) \<Rightarrow> bool" where
  "values_ok T \<longleftrightarrow> (\<forall>h c. T h = Some c \<longrightarrow> (\<forall>out \<in> set (vout c). 0 \<le> sint (nValue out)))"

lemma out_entry_fields:
  assumes "n \<in> out_nums os sh" "\<forall>out \<in> set os. 0 \<le> sint (nValue out)"
  shows "txoinfo_isValid (out_entry (os ! unat n))" "ti_hashX (out_entry (os ! unat n)) = sh" "unat n < length os"
  using assms by (auto simp: out_nums_def out_entry_def txoinfo_isValid_def HashXFromCScript_def)

lemma mem_outs_T: "n \<in> mem_outs (view g T X) sh h \<Longrightarrow> \<exists>c. T h = Some c \<and> n \<in> out_nums (vout c) sh"
  by (auto simp: mem_outs_def)

lemma spends_of_keys: "map_of xs = spends_of True e sh \<Longrightarrow> set (keys xs) = {txo. \<exists>i. e txo = Some (True, i) \<and> ti_hashX i = sh}"
proof -
  have "spends_of True e sh txo \<noteq> None \<longleftrightarrow> (\<exists>i. e txo = Some (True, i) \<and> ti_hashX i = sh)" for txo
    by (cases "e txo") (auto simp: spends_of_def split: if_splits)
  then show "map_of xs = spends_of True e sh \<Longrightarrow> ?thesis" unfolding set_keys by (auto simp: dom_def)
qed

lemma list_outs_ok:
  assumes "mempool_inv g T m" "h \<in> mp_touching (view_of g T) sh" "values_ok T" "set ns \<subseteq> mem_outs (view_of g T) sh h"
  shows "efor (list_mempool_out tf N (deref m h)) ns s =
    (Inr (), s\<lparr>qs_ret := qs_ret s @ map (mem_item (view_of g T) N h) (filter (\<lambda>n. keep tf (mem_info (view_of g T) h n)) ns)\<rparr>)"
  using assms(4)
proof (induction ns arbitrary: s)
  case (Cons n ns)
  let ?v = "view_of g T"
  obtain c io where c: "T h = Some c" "map_of (hashXs (deref m h)) sh = Some io" "txos (deref m h) = map out_entry (vout c)"
    "mp_hash (deref m h) = h" "fee (deref m h) = v_F ?v h" "parents (deref m h) \<noteq> [] \<longleftrightarrow> has_parents ?v h"
    using assms(1,2) by (rule mempool_io)
  have "n \<in> out_nums (vout c) sh" using Cons.prems c(1) by (auto simp: mem_outs_def)
  note o = out_entry_fields[OF this]
  have nn: "\<forall>out \<in> set (vout c). 0 \<le> sint (nValue out)" using assms(3) c(1) unfolding values_ok_def by blast
  have i: "mem_info ?v h n = out_entry (vout c ! unat n)" using c(1) by (simp add: mem_info_def)
  have "list_mempool_out tf N (deref m h) n s = (Inr (), s\<lparr>qs_ret := qs_ret s @ (if keep tf (mem_info ?v h n) then [mem_item ?v N h n] else [])\<rparr>)"
    using o[OF nn] c i by (auto simp: list_mempool_out_def Let_def ereturn_def push_item_def mem_item_def)
  then show ?case using Cons by (simp add: ebind_Inr)
qed (simp add: ereturn_def)

definition mem_state :: "mview \<Rightarrow> TokenFilterOption \<Rightarrow> TxNum \<Rightarrow> bytes \<Rightarrow> 'c \<Rightarrow> bytes list \<Rightarrow> 'c UnspentState \<Rightarrow> bool" where
  "mem_state v tf N sh ca hs s \<longleftrightarrow> qs_cache s = ca \<and> ctxoVec s = [] \<and> distinct (qs_ret s) \<and> set (qs_ret s) = mem_items v tf N sh (set hs) \<and>
     qs_ctr s = (\<Sum>h \<leftarrow> hs. card (mem_outs v sh h)) \<and> set (mempoolConfirmedSpends s) = (\<Union>h \<in> set hs. mem_spent_by v sh h)"

lemma list_tx_ok:
  assumes "mempool_inv g T m" "h \<in> mp_touching (view_of g T) sh" "h \<notin> set hs" "mem_state (view_of g T) tf N sh ca hs s" "values_ok T"
    and "qs_ctr s + card (mem_outs (view_of g T) sh h) \<le> maxHistory"
  shows "\<exists>s'. list_mempool_tx maxHistory tf N sh (deref m h) s = (Inr (), s') \<and> mem_state (view_of g T) tf N sh ca (hs @ [h]) s'"
proof -
  let ?v = "view_of g T"
  obtain c io where c: "T h = Some c" "map_of (hashXs (deref m h)) sh = Some io"
    "distinct (utxo io)" "set (utxo io) = mem_outs ?v sh h" "map_of (confirmedSpends io) = spends_of True (v_E ?v h) sh"
    using assms(1,2) by (rule mempool_io)
  let ?s1 = "s\<lparr>mempoolConfirmedSpends := fold List.insert (keys (confirmedSpends io)) (mempoolConfirmedSpends s), qs_ctr := qs_ctr s + length (utxo io)\<rparr>"
  let ?new = "map (mem_item ?v N h) (filter (\<lambda>n. keep tf (mem_info ?v h n)) (utxo io))"
  have len: "length (utxo io) = card (mem_outs ?v sh h)" using c(3,4) by (metis distinct_card)
  have "list_mempool_tx maxHistory tf N sh (deref m h) s = (Inr (), ?s1\<lparr>qs_ret := qs_ret s @ ?new\<rparr>)"
    using assms(6) c(2) list_outs_ok[OF assms(1,2,5), of "utxo io" tf N ?s1] c(4) len
    by (simp add: list_mempool_tx_def ebind_def count_items_def bump_def)
  moreover have "set (fold List.insert ks xs) = set xs \<union> set ks" for ks xs :: "TXO list" by (induction ks arbitrary: xs) auto
  moreover have "distinct ?new" using c(3) by (simp add: distinct_map inj_on_def mem_item_def)
  moreover have "set (qs_ret s) \<inter> set ?new = {}" using assms(3,4) by (auto simp: mem_state_def mem_items_def mem_item_def)
  moreover have "mem_items ?v tf N sh (set (hs @ [h])) = mem_items ?v tf N sh (set hs) \<union> set ?new" using c(4) by (auto simp: mem_items_def)
  ultimately show ?thesis using assms(4) len spends_of_keys[OF c(5)]
    by (auto simp: mem_state_def mem_spent_by_def)
qed

definition mem_unspent :: "mview \<Rightarrow> bytes \<Rightarrow> TXO set" where
  "mem_unspent v sh = {TXO h n | h n. n \<in> mem_outs v sh h}"

lemma list_mempool_ok:
  fixes ca :: 'c
  assumes "mempool_inv g T m" "(\<Sum>h \<leftarrow> mempool_order (view_of g T) sh. card (mem_outs (view_of g T) sh h)) \<le> maxHistory" "values_ok T"
  defines "s0 \<equiv> \<lparr> qs_cache = ca, qs_ret = [], qs_ctr = 0, mempoolConfirmedSpends = [], ctxoVec = [] \<rparr>"
  shows "\<exists>s'. list_mempool maxHistory tf N m sh s0 = (Inr (), s') \<and> mem_state (view_of g T) tf N sh ca (mempool_order (view_of g T) sh) s'"
proof -
  let ?v = "view_of g T" and ?hs = "mempool_order (view_of g T) sh"
  have fin: "finite (mp_touching ?v sh)" using assms(1) by (intro mempool_touching) (simp add: mempool_inv_def mempool_ok_def)
  have s0: "mem_state ?v tf N sh ca [] s0" by (simp add: mem_state_def mem_items_def s0_def)
  have "\<exists>s'. efor (list_mempool_tx maxHistory tf N sh \<circ> deref m) ?hs s0 = (Inr (), s') \<and> mem_state ?v tf N sh ca ?hs s'"
  proof (rule efor_inv[where I = "mem_state ?v tf N sh ca"])
    fix ys y zs s assume hs: "?hs = ys @ y # zs" and i: "mem_state ?v tf N sh ca ys s"
    have "distinct ?hs" using mempool_order_ok(1)[OF fin] by (simp add: ordered_def)
    then have "y \<notin> set ys" "y \<in> mp_touching ?v sh" using hs mempool_order_ok(2)[OF fin] by auto
    moreover have "qs_ctr s + card (mem_outs ?v sh y) \<le> maxHistory" using i assms(2) by (simp add: mem_state_def hs)
    ultimately show "\<exists>s'. (list_mempool_tx maxHistory tf N sh \<circ> deref m) y s = (Inr (), s') \<and> mem_state ?v tf N sh ca (ys @ [y]) s'"
      using list_tx_ok[OF assms(1) _ _ i assms(3)] by simp
  qed (rule s0)
  moreover have "?hs = []" if "mp_touching ?v sh = {}" using that by (simp add: mempool_order_def)
  ultimately show ?thesis using s0 by (auto simp: list_mempool_def mempool_vec[OF assms(1)] ereturn_def)
qed

lemma mem_unspent_card:
  assumes "mempool_inv g T m"
  shows "(\<Sum>h \<leftarrow> mempool_order (view_of g T) sh. card (mem_outs (view_of g T) sh h)) = card (mem_unspent (view_of g T) sh)"
    "finite (mem_unspent (view_of g T) sh)"
proof -
  let ?v = "view_of g T"
  have fin: "finite (mp_touching ?v sh)" using assms by (intro mempool_touching) (simp add: mempool_inv_def mempool_ok_def)
  have "h \<in> mp_touching ?v sh" if "n \<in> mem_outs ?v sh h" for h n
    using that by (auto simp: mem_outs_def mp_touching_def touched_def out_shs_def out_nums_def dest!: nth_mem)
  then have e: "mem_unspent ?v sh = (\<Union>h \<in> mp_touching ?v sh. TXO h ` mem_outs ?v sh h)" by (auto simp: mem_unspent_def)
  have fo: "finite (mem_outs ?v sh h)" for h by (rule finite_subset[OF subset_UNIV]) simp
  have "card (mem_unspent ?v sh) = (\<Sum>h \<in> mp_touching ?v sh. card (TXO h ` mem_outs ?v sh h))"
    unfolding e using fin fo by (intro card_UN_disjoint) auto
  also have "\<dots> = (\<Sum>h \<in> mp_touching ?v sh. card (mem_outs ?v sh h))" by (simp add: card_image inj_on_def)
  also have "\<dots> = (\<Sum>h \<leftarrow> mempool_order ?v sh. card (mem_outs ?v sh h))"
    using mempool_order_ok[OF fin] by (simp add: sum_list_distinct_conv_sum_set ordered_def)
  finally show "(\<Sum>h \<leftarrow> mempool_order ?v sh. card (mem_outs ?v sh h)) = card (mem_unspent ?v sh)" by simp
  show "finite (mem_unspent ?v sh)" unfolding e using fin fo by blast
qed

section \<open>Listing\<close>

definition chain_item :: "chain \<Rightarrow> TXO \<Rightarrow> UnspentItem" where
  "chain_item c txo =
     (let info = chain_info c txo
      in \<lparr> hi_hash = txHash txo, hi_height = int (tx_height c (unat (ti_txNum info))), hi_fee = None, ui_tx_pos = outN txo,
           ui_value = ti_amount info, ui_txNum = ti_txNum info, ui_tokenDataPtr = ti_tokenDataPtr info \<rparr>)"

definition chain_entry :: "chain \<Rightarrow> TXO \<Rightarrow> CompactTXO \<times> SHUnspentValue" where
  "chain_entry c txo = (compact_of txo (chain_info c txo), unspent_value (chain_info c txo))"

definition amounts_ok :: "chain \<Rightarrow> bytes \<Rightarrow> bool" where
  "amounts_ok c sh \<longleftrightarrow> (\<forall>txo \<in> chain_unspent c sh. MoneyRange (ti_amount (chain_info c txo)))"

lemma scan_rows_ok:
  assumes "store_repr contents st c" "amounts_ok c sh"
  shows "set us \<subseteq> chain_unspent c sh \<Longrightarrow> qs_ctr s + length us \<le> maxHistory \<Longrightarrow>
    efor (scan_row maxHistory tf) (map (unspent_row c) us) s =
      (Inr (), s\<lparr>qs_ctr := qs_ctr s + length us, ctxoVec := ctxoVec s @ map (chain_entry c) (filter (\<lambda>txo. keep tf (chain_info c txo)) us)\<rparr>)"
proof (induction us arbitrary: s)
  case (Cons txo us)
  then have t: "txo \<in> chain_unspent c sh" by simp
  obtain k v where kv: "unspent_row c txo = (k, v)" by (metis surj_pair)
  note r = unspent_row_read[OF assms(1) t, unfolded kv fst_conv snd_conv]
  have "MoneyRange (ti_amount (chain_info c txo))" using assms(2) t by (simp add: amounts_ok_def)
  then have "scan_row maxHistory tf (k, v) s =
      (Inr (), s\<lparr>qs_ctr := qs_ctr s + 1, ctxoVec := ctxoVec s @ (if keep tf (chain_info c txo) then [chain_entry c txo] else [])\<rparr>)"
    using Cons.prems(2) r
    by (simp add: scan_row_def ebind_def count_items_def bump_def read_unspent_def elift_def ereturn_def unspent_value_def chain_entry_def)
  then show ?case using Cons by (simp add: kv ebind_Inr)
qed (simp add: ereturn_def)

context storage_laws
begin

lemma list_confirmed_ok:
  assumes "store_repr contents st c" "blocks_small c"
  shows "set us \<subseteq> chain_unspent c sh \<Longrightarrow> num.coherent (num_hash c) (qs_cache s) \<Longrightarrow>
    \<exists>ca'. efor (list_confirmed_out Q R st) (map (chain_entry c) us) s =
      (Inr (), s\<lparr>qs_cache := ca', qs_ret := qs_ret s @ map (chain_item c) (filter (\<lambda>txo. txo \<notin> set (mempoolConfirmedSpends s)) us)\<rparr>) \<and>
      num.coherent (num_hash c) ca'"
proof (induction us arbitrary: s)
  case Nil
  then show ?case by (intro exI[of _ "qs_cache s"]) (simp add: ereturn_def)
next
  case (Cons txo us)
  let ?info = "chain_info c txo" and ?n = "ti_txNum (chain_info c txo)"
  have t: "txo \<in> chain_unspent c sh" using Cons.prems by simp
  note e = chain_unspent_entry(1)[OF assms(1) t]
  have n: "unat ?n < length (chain_txs c)" "chain_txs c ! unat ?n = txHash txo" using e by (simp_all add: utxo_entry_def)
  have lim: "length (chain_txs c) \<le> max_txnums" "length c \<le> max_height" using chain_limits store_fields(1)[OF assms(1)] by blast+
  note p = compact_parts[OF e lim(1)]
  obtain ca1 where ca1: "tx_hash_of Q R st ?n s = (Inr (txHash txo), s\<lparr>qs_cache := ca1\<rparr>)" "num.coherent (num_hash c) ca1"
    using tx_hash_of_ok[OF assms(1) Cons.prems(2) n(1)] n(2) by auto
  have "sint (of_nat (tx_height c (unat ?n)) :: BlockHeight) = int (tx_height c (unat ?n))"
    using tx_height_bounds(1)[OF n(1)] lim(2) by (intro sint_height(1)) (simp add: max_height_def)
  then have step: "list_confirmed_out Q R st (chain_entry c txo) s =
      (Inr (), s\<lparr>qs_cache := ca1, qs_ret := qs_ret s @ (if txo \<in> set (mempoolConfirmedSpends s) then [] else [chain_item c txo])\<rparr>)"
    using ca1(1) heightForTxNum_ok[OF assms, of ?n] n(1) p
    by (simp add: list_confirmed_out_def chain_entry_def ebind_def opt_value_def ereturn_def push_item_def chain_item_def unspent_value_def Let_def)
  let ?s1 = "s\<lparr>qs_cache := ca1, qs_ret := qs_ret s @ (if txo \<in> set (mempoolConfirmedSpends s) then [] else [chain_item c txo])\<rparr>"
  obtain ca' where "efor (list_confirmed_out Q R st) (map (chain_entry c) us) ?s1 =
      (Inr (), ?s1\<lparr>qs_cache := ca', qs_ret := qs_ret ?s1 @ map (chain_item c) (filter (\<lambda>txo. txo \<notin> set (mempoolConfirmedSpends ?s1)) us)\<rparr>)"
      "num.coherent (num_hash c) ca'"
    using Cons.IH[of ?s1] Cons.prems ca1(2) by auto
  then show ?case using step by (intro exI[of _ ca']) (simp add: ebind_Inr)
qed

lemma listUnspent_ok:
  assumes "store_repr contents st c" "blocks_small c" "mempool_inv g T m" "values_ok T" "amounts_ok c sh" "num.coherent (num_hash c) ca"
    and "length sh = HashLen" "card (mem_unspent (view_of g T) sh) + card (chain_unspent c sh) \<le> maxHistory"
  defines "N \<equiv> of_nat (length (chain_txs c)) + 100000000"
  shows "\<exists>items ca'. listUnspent Q R seek maxHistory st m sh tf ca = (items, ca') \<and> num.coherent (num_hash c) ca' \<and>
    sorted (map unspent_rank items) \<and> distinct items \<and>
    set items = mem_items (view_of g T) tf N sh UNIV \<union> chain_item c ` {txo \<in> chain_unspent c sh - mem_spent (view_of g T) sh. keep tf (chain_info c txo)}"
proof -
  let ?v = "view_of g T" and ?hs = "mempool_order (view_of g T) sh"
  let ?s0 = "\<lparr> qs_cache = ca, qs_ret = [], qs_ctr = 0, mempoolConfirmedSpends = [], ctxoVec = [] \<rparr>"
  obtain us where us: "rows_with_prefix seek (s_shunspent st) sh = map (unspent_row c) us" "distinct us" "set us = chain_unspent c sh"
    using unspent_rows[OF assms(1,7)] by blast
  have N: "txNumNext st + 100000000 = N" using assms(1) by (simp add: store_repr_def Let_def N_def)
  note card = mem_unspent_card[OF assms(3), of sh]
  obtain s1 where s1: "list_mempool maxHistory tf N m sh ?s0 = (Inr (), s1)" "mem_state ?v tf N sh ca ?hs s1"
    using list_mempool_ok[OF assms(3) _ assms(4), of sh maxHistory tf N ca] card(1) assms(8) by auto
  let ?ks = "filter (\<lambda>txo. keep tf (chain_info c txo)) us"
  let ?s2 = "s1\<lparr>qs_ctr := qs_ctr s1 + length us, ctxoVec := map (chain_entry c) ?ks\<rparr>"
  have "length us = card (chain_unspent c sh)" using us(2,3) by (metis distinct_card)
  then have "qs_ctr s1 + length us \<le> maxHistory" using s1(2) card(1) assms(8) by (simp add: mem_state_def)
  then have s2: "efor (scan_row maxHistory tf) (map (unspent_row c) us) s1 = (Inr (), ?s2)"
    using scan_rows_ok[OF assms(1,5), of us s1 maxHistory tf] us(3) s1(2) by (simp add: mem_state_def)
  obtain ca' where s3: "efor (list_confirmed_out Q R st) (map (chain_entry c) ?ks) ?s2 =
      (Inr (), ?s2\<lparr>qs_cache := ca', qs_ret := qs_ret ?s2 @ map (chain_item c) (filter (\<lambda>txo. txo \<notin> set (mempoolConfirmedSpends ?s2)) ?ks)\<rparr>)"
      "num.coherent (num_hash c) ca'"
    using list_confirmed_ok[OF assms(1,2), of ?ks sh ?s2] us(3) s1(2) assms(6) by (auto simp: mem_state_def)
  let ?cs = "filter (\<lambda>txo. txo \<notin> set (mempoolConfirmedSpends s1)) ?ks"
  let ?items = "qs_ret s1 @ map (chain_item c) ?cs"
  have run: "listUnspent Q R seek maxHistory st m sh tf ca = (sort_key unspent_rank ?items, ca')"
    using s1(1) s2 s3(1) us(1) assms(7) N by (simp add: listUnspent_def ebind_Inr)
  have order: "set ?hs = mp_touching ?v sh" using mempool_order_set[OF assms(3)] .
  have "mem_outs ?v sh h \<noteq> {} \<Longrightarrow> h \<in> mp_touching ?v sh" for h
    by (auto simp: mem_outs_def mp_touching_def touched_def out_shs_def out_nums_def dest!: nth_mem)
  then have mem: "set (qs_ret s1) = mem_items ?v tf N sh UNIV" using s1(2) order unfolding mem_state_def mem_items_def by auto
  have sp: "set (mempoolConfirmedSpends s1) = mem_spent ?v sh" using s1(2) order by (simp add: mem_state_def mem_spent_def)
  have "set ?items = mem_items ?v tf N sh UNIV \<union> chain_item c ` {txo \<in> chain_unspent c sh - mem_spent ?v sh. keep tf (chain_info c txo)}"
    using us(3) by (auto simp: mem sp)
  moreover have "distinct ?items"
  proof -
    have "inj_on (chain_item c) A" for A by (auto simp: inj_on_def chain_item_def Let_def TXO.expand)
    moreover have "set (qs_ret s1) \<inter> chain_item c ` A = {}" for A
      unfolding mem by (auto simp: mem_items_def mem_item_def chain_item_def Let_def)
    ultimately show ?thesis using s1(2) us(2) by (simp add: mem_state_def distinct_map)
  qed
  ultimately show ?thesis using run s3(2) by (intro exI[of _ "sort_key unspent_rank ?items"] exI[of _ ca']) simp
qed

end

end
