(* ===== verification/Query_Balance.thy ===== *)
theory Query_Balance
  imports Query_Unspent
begin

text \<open>
  Balances: \<open>getBalance\<close> adds up the unspent outputs of the chain, and the outputs of the mempool less what the mempool spends; together
  they are the value of what \<open>listUnspent\<close> lists.
\<close>

declare map_of_eq_Some_iff [simp del]

definition val :: "TokenFilterOption \<Rightarrow> TXOInfo \<Rightarrow> Amount" where
  "val tf info = (if keep tf info then ti_amount info else 0)"

definition chain_balance :: "chain \<Rightarrow> TokenFilterOption \<Rightarrow> bytes \<Rightarrow> Amount" where
  "chain_balance c tf sh = (\<Sum>txo \<in> chain_unspent c sh. val tf (chain_info c txo))"

definition mem_received :: "mview \<Rightarrow> TokenFilterOption \<Rightarrow> bytes \<Rightarrow> Amount" where
  "mem_received v tf sh = (\<Sum>h \<in> mp_touching v sh. \<Sum>n \<in> mem_outs v sh h. val tf (mem_info v h n))"

definition mem_paid :: "mview \<Rightarrow> TokenFilterOption \<Rightarrow> bytes \<Rightarrow> Amount" where
  "mem_paid v tf sh = (\<Sum>h \<in> mp_touching v sh. \<Sum>txo \<in> mem_spent_by v sh h. val tf (snd (the (v_E v h txo))))"

section \<open>The chain\<close>

lemma balance_rows_ok:
  assumes "store_repr contents st c" "amounts_ok c sh"
  shows "set us \<subseteq> chain_unspent c sh \<Longrightarrow> bs_ctr s + length us \<le> maxHistory \<Longrightarrow>
    efor (balance_row maxHistory tf) (map (unspent_row c) us) s =
      (Inr (), s\<lparr>bs_ctr := bs_ctr s + length us, bs_confirmed := bs_confirmed s + (\<Sum>txo \<leftarrow> us. val tf (chain_info c txo))\<rparr>)"
proof (induction us arbitrary: s)
  case (Cons txo us)
  then have t: "txo \<in> chain_unspent c sh" by simp
  obtain k v where kv: "unspent_row c txo = (k, v)" by (metis surj_pair)
  note r = unspent_row_read[OF assms(1) t, unfolded kv fst_conv snd_conv]
  have "MoneyRange (ti_amount (chain_info c txo))" using assms(2) t by (simp add: amounts_ok_def)
  then have "balance_row maxHistory tf (k, v) s = (Inr (), s\<lparr>bs_ctr := bs_ctr s + 1, bs_confirmed := bs_confirmed s + val tf (chain_info c txo)\<rparr>)"
    using Cons.prems(2) r
    by (simp add: balance_row_def ebind_def bump_def elift_def ereturn_def unspent_value_def val_def)
  then show ?case using Cons by (simp add: kv ebind_Inr add.assoc)
qed (simp add: ereturn_def)

section \<open>The mempool\<close>

lemma sum_utxos_ok:
  assumes "mempool_inv g T m" "h \<in> mp_touching (view_of g T) sh" "values_ok T" "set ns \<subseteq> mem_outs (view_of g T) sh h"
  shows "sum_utxos tf (deref m h) ns acc = Inr (acc + (\<Sum>n \<leftarrow> ns. val tf (mem_info (view_of g T) h n)))"
  using assms(4)
proof (induction ns arbitrary: acc)
  case (Cons n ns)
  let ?v = "view_of g T"
  obtain c where c: "T h = Some c" "txos (deref m h) = map out_entry (vout c)" using assms(1,2) by (rule mempool_io)
  have "\<forall>out \<in> set (vout c). 0 \<le> sint (nValue out)" using assms(3) c(1) unfolding values_ok_def by blast
  moreover have "n \<in> out_nums (vout c) sh" using Cons.prems c(1) by (auto simp: mem_outs_def)
  ultimately have o: "txoinfo_isValid (txos (deref m h) ! unat n)" "unat n < length (txos (deref m h))"
      "mem_info ?v h n = txos (deref m h) ! unat n"
    using out_entry_fields[of n "vout c" sh] c by (simp_all add: mem_info_def)
  then have "sum_utxos tf (deref m h) (n # ns) acc = sum_utxos tf (deref m h) ns (acc + val tf (mem_info ?v h n))"
    by (simp add: sum_utxos_def rbind_def val_def)
  then show ?case using Cons by (simp add: add.assoc)
qed (simp add: sum_utxos_def)

lemma sum_spends: "fold (\<lambda>(txo, info) a. if ShouldTokenFilter tf (ti_tokenDataPtr info) then a else a + ti_amount info) xs acc =
    acc + (\<Sum>(txo, info) \<leftarrow> xs. val tf info)"
  by (induction xs arbitrary: acc) (auto simp: val_def add.assoc)

lemma sum_keys:
  assumes "distinct (keys xs)"
  shows "(\<Sum>(k, v) \<leftarrow> xs. f v :: 'a::comm_monoid_add) = (\<Sum>k \<in> dom (map_of xs). f (the (map_of xs k)))"
proof -
  have "(\<Sum>(k, v) \<leftarrow> xs. f v) = (\<Sum>(k, v) \<in> set xs. f v)"
    using assms by (simp add: sum_list_distinct_conv_sum_set distinct_map)
  also have "\<dots> = (\<Sum>k \<in> fst ` set xs. f (the (map_of xs k)))"
    using assms by (subst sum.reindex) (auto simp: distinct_map intro!: sum.cong)
  finally show ?thesis by (simp add: dom_map_of_conv_image_fst)
qed

definition mem_count :: "mview \<Rightarrow> bytes \<Rightarrow> bytes \<Rightarrow> nat" where
  "mem_count v sh h = card (mem_spent_by v sh h) + card (mem_outs v sh h)"

lemma balance_tx_ok:
  assumes "mempool_inv g T m" "h \<in> mp_touching (view_of g T) sh" "values_ok T" "ctr + mem_count (view_of g T) sh h \<le> maxHistory"
  shows "balance_tx maxHistory tf sh (deref m h) (ctr, u, p) =
    Inr (ctr + mem_count (view_of g T) sh h, u + (\<Sum>n \<in> mem_outs (view_of g T) sh h. val tf (mem_info (view_of g T) h n)),
      p + (\<Sum>txo \<in> mem_spent_by (view_of g T) sh h. val tf (snd (the (v_E (view_of g T) h txo)))))"
proof -
  let ?v = "view_of g T"
  obtain c io where c: "map_of (hashXs (deref m h)) sh = Some io" "distinct (utxo io)" "set (utxo io) = mem_outs ?v sh h"
      "distinct (keys (confirmedSpends io))" "map_of (confirmedSpends io) = spends_of True (v_E ?v h) sh"
    using assms(1,2) by (rule mempool_io)
  have bd: "dom (spends_of True (v_E ?v h) sh) = mem_spent_by ?v sh h" using spends_of_keys[OF c(5)] unfolding set_keys c(5) mem_spent_by_def .
  have "length (confirmedSpends io) = card (mem_spent_by ?v sh h)" using length_keys[OF c(4)] by (simp add: c(5) bd)
  moreover have "length (utxo io) = card (mem_outs ?v sh h)" using c(2,3) by (metis distinct_card)
  ultimately have len: "length (confirmedSpends io) + length (utxo io) = mem_count ?v sh h" by (simp add: mem_count_def)
  have "(\<Sum>(k, info) \<leftarrow> confirmedSpends io. val tf info) = (\<Sum>txo \<in> mem_spent_by ?v sh h. val tf (the (spends_of True (v_E ?v h) sh txo)))"
    using sum_keys[OF c(4), of "val tf"] by (simp add: c(5) bd)
  also have "\<dots> = (\<Sum>txo \<in> mem_spent_by ?v sh h. val tf (snd (the (v_E ?v h txo))))"
    by (rule sum.cong) (auto simp: mem_spent_by_def spends_of_def)
  finally have "(\<Sum>(k, info) \<leftarrow> confirmedSpends io. val tf info) = (\<Sum>txo \<in> mem_spent_by ?v sh h. val tf (snd (the (v_E ?v h txo))))" .
  moreover have "(\<Sum>n \<leftarrow> utxo io. val tf (mem_info ?v h n)) = (\<Sum>n \<in> mem_outs ?v sh h. val tf (mem_info ?v h n))"
    using c(2,3) by (simp add: sum_list_distinct_conv_sum_set)
  ultimately show ?thesis using assms(4) c(1,3) sum_utxos_ok[OF assms(1-3), of "utxo io"]
    by (simp add: balance_tx_def bump_def rbind_def sum_spends len Let_def)
qed

lemma balance_loop_ok:
  assumes "mempool_inv g T m" "values_ok T"
  shows "set hs \<subseteq> mp_touching (view_of g T) sh \<Longrightarrow> ctr + (\<Sum>h \<leftarrow> hs. mem_count (view_of g T) sh h) \<le> maxHistory \<Longrightarrow>
    fold (\<lambda>h r. rbind r (balance_tx maxHistory tf sh (deref m h))) hs (Inr (ctr, u, p)) =
      Inr (ctr + (\<Sum>h \<leftarrow> hs. mem_count (view_of g T) sh h),
        u + (\<Sum>h \<leftarrow> hs. \<Sum>n \<in> mem_outs (view_of g T) sh h. val tf (mem_info (view_of g T) h n)),
        p + (\<Sum>h \<leftarrow> hs. \<Sum>txo \<in> mem_spent_by (view_of g T) sh h. val tf (snd (the (v_E (view_of g T) h txo)))))"
proof (induction hs arbitrary: ctr u p)
  case (Cons h hs)
  then have "balance_tx maxHistory tf sh (deref m h) (ctr, u, p) =
    Inr (ctr + mem_count (view_of g T) sh h, u + (\<Sum>n \<in> mem_outs (view_of g T) sh h. val tf (mem_info (view_of g T) h n)),
      p + (\<Sum>txo \<in> mem_spent_by (view_of g T) sh h. val tf (snd (the (v_E (view_of g T) h txo)))))"
    by (intro balance_tx_ok[OF assms(1) _ assms(2)]) auto
  then show ?case using Cons by (simp add: rbind_def add.assoc)
qed simp

lemma balance_mempool_ok:
  assumes "mempool_inv g T m" "values_ok T" "bs_ctr s + (\<Sum>h \<in> mp_touching (view_of g T) sh. mem_count (view_of g T) sh h) \<le> maxHistory"
    "bs_unconfirmed s = 0"
  shows "\<exists>n. balance_mempool maxHistory tf m sh s = (Inr (), s\<lparr>bs_ctr := n, bs_unconfirmed := mem_received (view_of g T) tf sh - mem_paid (view_of g T) tf sh\<rparr>)"
proof (cases "mp_touching (view_of g T) sh = {}")
  case True
  then show ?thesis using assms(4)
    by (intro exI[of _ "bs_ctr s"]) (simp add: balance_mempool_def mempool_vec[OF assms(1)] mem_received_def mem_paid_def)
next
  case False
  let ?v = "view_of g T" and ?hs = "mempool_order (view_of g T) sh"
  have fin: "finite (mp_touching ?v sh)" using assms(1) by (intro mempool_touching) (simp add: mempool_inv_def mempool_ok_def)
  have hs: "distinct ?hs" "set ?hs = mp_touching ?v sh" using mempool_order_ok[OF fin] by (simp_all add: ordered_def)
  have sum: "(\<Sum>h \<leftarrow> ?hs. f h) = (\<Sum>h \<in> mp_touching ?v sh. f h)" for f :: "bytes \<Rightarrow> 'x::comm_monoid_add"
    using hs by (simp add: sum_list_distinct_conv_sum_set)
  show ?thesis using False balance_loop_ok[OF assms(1,2), of ?hs sh "bs_ctr s" maxHistory tf 0 0] hs(2) assms(3)
    by (auto simp: balance_mempool_def mempool_vec[OF assms(1)] sum mem_received_def mem_paid_def)
qed

context storage_laws
begin

lemma getBalance_ok:
  assumes "store_repr contents st c" "mempool_inv g T m" "values_ok T" "amounts_ok c sh" "length sh = HashLen"
    and "card (chain_unspent c sh) + (\<Sum>h \<in> mp_touching (view_of g T) sh. mem_count (view_of g T) sh h) \<le> maxHistory"
    and "MoneyRange (chain_balance c tf sh)"
  shows "getBalance seek maxHistory st m sh tf = (chain_balance c tf sh, mem_received (view_of g T) tf sh - mem_paid (view_of g T) tf sh)"
proof -
  obtain us where us: "rows_with_prefix seek (s_shunspent st) sh = map (unspent_row c) us" "distinct us" "set us = chain_unspent c sh"
    using unspent_rows[OF assms(1,5)] by blast
  let ?s0 = "\<lparr> bs_confirmed = 0, bs_unconfirmed = 0, bs_ctr = 0 \<rparr>"
  let ?s1 = "\<lparr> bs_confirmed = chain_balance c tf sh, bs_unconfirmed = 0, bs_ctr = card (chain_unspent c sh) \<rparr>"
  have len: "length us = card (chain_unspent c sh)" using us(2,3) by (metis distinct_card)
  have "(\<Sum>txo \<leftarrow> us. val tf (chain_info c txo)) = chain_balance c tf sh"
    using us(2,3) by (simp add: chain_balance_def sum_list_distinct_conv_sum_set)
  then have 1: "efor (balance_row maxHistory tf) (map (unspent_row c) us) ?s0 = (Inr (), ?s1)"
    using balance_rows_ok[OF assms(1,4), of us ?s0 maxHistory tf] us(3) assms(6) len by simp
  have 2: "check_total ?s1 = (Inr (), ?s1)" using assms(7) by (simp add: check_total_def)
  obtain n where 3: "balance_mempool maxHistory tf m sh ?s1 =
      (Inr (), ?s1\<lparr>bs_ctr := n, bs_unconfirmed := mem_received (view_of g T) tf sh - mem_paid (view_of g T) tf sh\<rparr>)"
    using balance_mempool_ok[OF assms(2,3), of ?s1 sh maxHistory tf] assms(6) by auto
  show ?thesis using assms(5) us(1) 1 2 3 by (simp add: getBalance_def ebind_Inr)
qed

end

end
