(* ===== verification/Query_Lookup.thy ===== *)
theory Query_Lookup
  imports Query_Balance
begin

text \<open>
  The mempool on top of a store: the two together determine what is unspent. Single outputs, the heights of transactions and the first
  use of a script hash.
\<close>

declare map_of_eq_Some_iff [simp del]

section \<open>A mempool on top of a store\<close>

definition db_getter :: "'db rocksdb \<Rightarrow> 'db Store \<Rightarrow> getter" where
  "db_getter R st txo = utxoGetFromDB R (s_utxoset st) txo False"

definition mempool_on :: "'db rocksdb \<Rightarrow> 'db Store \<Rightarrow> (bytes \<rightharpoonup> CTransaction) \<Rightarrow> Mempool \<Rightarrow> bool" where
  "mempool_on R st T m \<longleftrightarrow> mempool_inv (db_getter R st) T m \<and> values_ok T \<and>
     (\<forall>h txo. (h, txo) \<in> spends T \<longrightarrow> txo_isValid txo \<and> unat (outN txo) < 2 ^ 24)"

lemma mempool_on_inv: "mempool_on R st T m \<Longrightarrow> mempool_inv (db_getter R st) T m" "mempool_on R st T m \<Longrightarrow> values_ok T"
  by (simp_all add: mempool_on_def)

context storage_laws
begin

lemma db_getter_ok:
  assumes "store_repr contents st c" "txo_isValid txo" "unat (outN txo) < 2 ^ 24"
  shows "db_getter R st txo = Inr (l_utxo (chain_ledger c) txo)"
proof -
  have "utxo_repr (chain_txs c) (contents (s_utxoset st)) (contents (s_shunspent st)) (utxoCt st) (l_utxo (chain_ledger c))"
    using assms(1) by (simp add: store_repr_def Let_def)
  from utxoGet_ok[OF this assms(2,3)] show ?thesis by (simp add: db_getter_def)
qed

text \<open>What an input of the mempool spends in the chain is an unspent output of the chain.\<close>

lemma mem_spends_chain:
  assumes "store_repr contents st c" "mempool_on R st T m" "(h, txo) \<in> spends T" "T (txHash txo) = None"
  shows "\<exists>info. l_utxo (chain_ledger c) txo = Some info \<and> v_E (view_of (db_getter R st) T) h txo = Some (True, info)"
proof -
  let ?g = "db_getter R st"
  have "in_entry ?g T txo \<noteq> None" using assms(2,3) by (auto simp: mempool_on_def mempool_inv_def mempool_ok_def spends_def)
  moreover have "?g txo = Inr (l_utxo (chain_ledger c) txo)" using assms(2,3) by (intro db_getter_ok[OF assms(1)]) (auto simp: mempool_on_def)
  ultimately have "\<exists>info. l_utxo (chain_ledger c) txo = Some info \<and> in_entry ?g T txo = Some (True, info)"
    using assms(4) by (cases "l_utxo (chain_ledger c) txo") (simp_all add: in_entry_def)
  then show ?thesis using assms(3) by (simp add: view_def)
qed

lemma mem_spent_by_iff:
  assumes "store_repr contents st c" "mempool_on R st T m"
  shows "txo \<in> mem_spent_by (view_of (db_getter R st) T) sh h \<longleftrightarrow> (h, txo) \<in> spends T \<and> T (txHash txo) = None \<and> txo \<in> chain_unspent c sh"
    "txo \<in> mem_spent_by (view_of (db_getter R st) T) sh h \<Longrightarrow> snd (the (v_E (view_of (db_getter R st) T) h txo)) = chain_info c txo"
proof -
  let ?v = "view_of (db_getter R st) T"
  have conf: "(h, txo) \<in> spends T \<and> T (txHash txo) = None" if "v_E ?v h txo = Some (True, i)" for i
    using that in_entry_conf[of "db_getter R st" T txo True i] by (auto simp: view_def split: if_splits)
  then show "txo \<in> mem_spent_by ?v sh h \<longleftrightarrow> (h, txo) \<in> spends T \<and> T (txHash txo) = None \<and> txo \<in> chain_unspent c sh"
    using mem_spends_chain[OF assms, of h txo] unfolding mem_spent_by_def chain_unspent_def by auto
  show "snd (the (v_E ?v h txo)) = chain_info c txo" if "txo \<in> mem_spent_by ?v sh h"
    using that conf mem_spends_chain[OF assms, of h txo] by (auto simp: mem_spent_by_def)
qed

lemma mem_spent_touching:
  assumes "store_repr contents st c" "mempool_on R st T m" "txo \<in> mem_spent_by (view_of (db_getter R st) T) sh h"
  shows "h \<in> mp_touching (view_of (db_getter R st) T) sh"
proof -
  obtain i where "v_E (view_of (db_getter R st) T) h txo = Some (True, i)" "ti_hashX i = sh" using assms(3) by (auto simp: mem_spent_by_def)
  moreover have "T h \<noteq> None" using assms mem_spent_by_iff(1)[OF assms(1,2)] by (auto simp: spends_def)
  ultimately show ?thesis by (auto simp: mp_touching_def touched_def)
qed

lemma mem_spent_eq:
  assumes "store_repr contents st c" "mempool_on R st T m"
  shows "mem_spent (view_of (db_getter R st) T) sh = {txo \<in> chain_unspent c sh. T (txHash txo) = None \<and> (\<exists>h. (h, txo) \<in> spends T)}"
proof -
  have "txo \<in> mem_spent (view_of (db_getter R st) T) sh \<longleftrightarrow> (\<exists>h. txo \<in> mem_spent_by (view_of (db_getter R st) T) sh h)" for txo
    using mem_spent_touching[OF assms] by (auto simp: mem_spent_def)
  then show ?thesis by (auto simp: mem_spent_by_iff(1)[OF assms])
qed

lemma mem_paid_eq:
  assumes "store_repr contents st c" "mempool_on R st T m"
  shows "mem_paid (view_of (db_getter R st) T) tf sh = (\<Sum>txo \<in> mem_spent (view_of (db_getter R st) T) sh. val tf (chain_info c txo))"
proof -
  let ?v = "view_of (db_getter R st) T"
  have fin: "finite (mp_touching ?v sh)" using assms(2) by (intro mempool_touching) (simp add: mempool_on_def mempool_inv_def mempool_ok_def)
  have "finite (chain_unspent c sh)" by (rule finite_subset[of _ "dom (l_utxo (chain_ledger c))"])
      (use store_fields(5)[OF assms(1)] in \<open>auto simp: chain_unspent_def ledger_wf_def\<close>)
  then have fs: "finite (mem_spent_by ?v sh h)" for h by (rule rev_finite_subset) (use mem_spent_by_iff(1)[OF assms] in blast)
  have one: "h = h'" if "(h, txo) \<in> spends T" "(h', txo) \<in> spends T" for h h' txo
    using that assms(2) unfolding mempool_on_def mempool_inv_def mempool_ok_def by blast
  have "mem_paid ?v tf sh = (\<Sum>h \<in> mp_touching ?v sh. \<Sum>txo \<in> mem_spent_by ?v sh h. val tf (chain_info c txo))"
    unfolding mem_paid_def by (intro sum.cong refl) (simp add: mem_spent_by_iff(2)[OF assms])
  also have "\<dots> = (\<Sum>txo \<in> mem_spent ?v sh. val tf (chain_info c txo))"
    unfolding mem_spent_def
  proof (rule sum.UNION_disjoint[symmetric])
    show "\<forall>h \<in> mp_touching ?v sh. \<forall>h' \<in> mp_touching ?v sh. h \<noteq> h' \<longrightarrow> mem_spent_by ?v sh h \<inter> mem_spent_by ?v sh h' = {}"
      using one by (auto simp: mem_spent_by_iff(1)[OF assms])
  qed (use fin fs in auto)
  finally show ?thesis .
qed

end

section \<open>Balance and list agree\<close>

lemma sum_mem_items:
  assumes "mempool_inv g T m"
  shows "(\<Sum>i \<in> mem_items (view_of g T) tf N sh UNIV. ui_value i) = mem_received (view_of g T) tf sh"
    "finite (mem_items (view_of g T) tf N sh UNIV)"
proof -
  let ?v = "view_of g T"
  let ?S = "SIGMA h : mp_touching ?v sh. {n \<in> mem_outs ?v sh h. keep tf (mem_info ?v h n)}"
  have fin: "finite (mp_touching ?v sh)" using assms by (intro mempool_touching) (simp add: mempool_inv_def mempool_ok_def)
  have fo: "finite A" for A :: "IONum set" by (rule finite_subset[OF subset_UNIV]) simp
  have "mem_outs ?v sh h \<noteq> {} \<Longrightarrow> h \<in> mp_touching ?v sh" for h
    by (auto simp: mem_outs_def mp_touching_def touched_def out_shs_def out_nums_def dest!: nth_mem)
  then have e: "mem_items ?v tf N sh UNIV = (\<lambda>(h, n). mem_item ?v N h n) ` ?S" unfolding mem_items_def by fastforce
  have "inj_on (\<lambda>(h, n). mem_item ?v N h n) ?S" by (auto simp: inj_on_def mem_item_def)
  from sum.reindex[OF this, of ui_value]
  have "(\<Sum>i \<in> mem_items ?v tf N sh UNIV. ui_value i) = (\<Sum>(h, n) \<in> ?S. ti_amount (mem_info ?v h n))"
    unfolding e by (simp add: mem_item_def case_prod_beta comp_def)
  also have "\<dots> = (\<Sum>h \<in> mp_touching ?v sh. \<Sum>n \<in> {n \<in> mem_outs ?v sh h. keep tf (mem_info ?v h n)}. ti_amount (mem_info ?v h n))"
    using fin fo by (subst sum.Sigma) auto
  also have "\<dots> = mem_received ?v tf sh"
    unfolding mem_received_def val_def using fo by (intro sum.cong refl sum.inter_filter) auto
  finally show "(\<Sum>i \<in> mem_items ?v tf N sh UNIV. ui_value i) = mem_received ?v tf sh" .
  show "finite (mem_items ?v tf N sh UNIV)" unfolding e using fin fo by (intro finite_imageI finite_SigmaI) auto
qed

context storage_laws
begin

lemma balance_total:
  assumes "store_repr contents st c" "mempool_on R st T m"
    and "set items = mem_items (view_of (db_getter R st) T) tf N sh UNIV \<union>
      chain_item c ` {txo \<in> chain_unspent c sh - mem_spent (view_of (db_getter R st) T) sh. keep tf (chain_info c txo)}" "distinct items"
  shows "(\<Sum>i \<leftarrow> items. ui_value i) =
    chain_balance c tf sh + (mem_received (view_of (db_getter R st) T) tf sh - mem_paid (view_of (db_getter R st) T) tf sh)"
proof -
  let ?v = "view_of (db_getter R st) T" and ?U = "chain_unspent c sh"
  let ?K = "{txo \<in> ?U - mem_spent ?v sh. keep tf (chain_info c txo)}"
  note mi = sum_mem_items[OF mempool_on_inv(1)[OF assms(2)], of tf N sh]
  have fU: "finite ?U" by (rule finite_subset[of _ "dom (l_utxo (chain_ledger c))"])
      (use store_fields(5)[OF assms(1)] in \<open>auto simp: chain_unspent_def ledger_wf_def\<close>)
  have sub: "mem_spent ?v sh \<subseteq> ?U" using mem_spent_eq[OF assms(1,2)] by blast
  have "mem_items ?v tf N sh UNIV \<inter> chain_item c ` ?K = {}" by (auto simp: mem_items_def mem_item_def chain_item_def Let_def)
  then have "(\<Sum>i \<in> set items. ui_value i) = mem_received ?v tf sh + (\<Sum>i \<in> chain_item c ` ?K. ui_value i)"
    unfolding assms(3) using mi fU by (subst sum.union_disjoint) auto
  also have "(\<Sum>i \<in> chain_item c ` ?K. ui_value i) = (\<Sum>txo \<in> ?K. ti_amount (chain_info c txo))"
    by (subst sum.reindex) (auto simp: inj_on_def chain_item_def Let_def TXO.expand)
  also have "\<dots> = (\<Sum>txo \<in> ?U - mem_spent ?v sh. val tf (chain_info c txo))"
    unfolding val_def using fU by (intro sum.inter_filter) auto
  also have "\<dots> = chain_balance c tf sh - mem_paid ?v tf sh"
    unfolding chain_balance_def mem_paid_eq[OF assms(1,2)] by (rule sum_diff[OF fU sub])
  finally show ?thesis using assms(4) by (simp add: sum_list_distinct_conv_sum_set)
qed

end

section \<open>Single outputs\<close>

text \<open>What is unspent, given the chain and the mempool.\<close>

definition unspent_now :: "chain \<Rightarrow> (bytes \<rightharpoonup> CTransaction) \<Rightarrow> TXO \<rightharpoonup> TXOInfo" where
  "unspent_now c T txo =
     (if \<exists>h. (h, txo) \<in> spends T then None
      else case T (txHash txo) of
          Some tx \<Rightarrow> if unat (outN txo) < length (vout tx) \<and> \<not> IsOpReturn (scriptPubKey (vout tx ! unat (outN txo)))
                    then Some (out_entry (vout tx ! unat (outN txo))) else None
        | None \<Rightarrow> l_utxo (chain_ledger c) txo)"

lemma spent_in_mempool_ok:
  assumes "mempool_inv g T m"
  shows "set hs \<subseteq> mp_touching (view_of g T) sh \<Longrightarrow> spent_in_mempool m sh txo hs = Inr (\<exists>h \<in> set hs. txo \<in> mem_spent_by (view_of g T) sh h)"
proof (induction hs)
  case (Cons h hs)
  let ?v = "view_of g T"
  obtain io where io: "map_of (hashXs (deref m h)) sh = Some io" "map_of (confirmedSpends io) = spends_of True (v_E ?v h) sh"
    by (rule mempool_io[OF assms, of h sh]) (use Cons.prems in auto)
  have "map_of (confirmedSpends io) txo \<noteq> None \<longleftrightarrow> txo \<in> mem_spent_by ?v sh h"
    using spends_of_keys[OF io(2)] unfolding set_keys by (auto simp: mem_spent_by_def)
  then show ?case using Cons io(1) by auto
qed simp

lemma utxoGet_mempool:
  assumes "mempool_inv g T m" "T (txHash txo) = Some c"
  shows "utxoGet R st m txo = Inr (if txo \<notin> v_S (view_of g T) \<and> unat (outN txo) < length (vout c) \<and> \<not> IsOpReturn (scriptPubKey (vout c ! unat (outN txo)))
    then Some (out_entry (vout c ! unat (outN txo))) else None)"
proof -
  let ?v = "view_of g T" and ?n = "outN txo" and ?out = "vout c ! unat (outN txo)"
  have "rel_option (tx_rel ?v (txHash txo)) (T (txHash txo)) (map_of (txs m) (txHash txo))"
    using assms(1) by (simp add: mempool_inv_def mempool_repr_def mp_rel_def txs_rel_def)
  then obtain tx where tx: "map_of (txs m) (txHash txo) = Some tx" "tx_rel ?v (txHash txo) c tx" using assms(2) by (cases "map_of (txs m) (txHash txo)") auto
  have hx: "case map_of (hashXs tx) sh of None \<Rightarrow> sh \<notin> touched c (v_E ?v (txHash txo))
      | Some io \<Rightarrow> sh \<in> touched c (v_E ?v (txHash txo)) \<and> io_rel c (v_E ?v (txHash txo)) (spent_nums (v_S ?v) (txHash txo)) sh io" for sh
    using tx(2) by (simp add: tx_rel_def hx_rel_def)
  have txo: "TXO (txHash txo) ?n = txo" by simp
  have outs: "txos tx = map out_entry (vout c)" using tx(2) by (simp add: tx_rel_def)
  show ?thesis
  proof (cases "unat ?n < length (vout c)")
    case True
    let ?sh = "ti_hashX (out_entry ?out)"
    have mem: "?n \<in> out_nums (vout c) ?sh \<longleftrightarrow> \<not> IsOpReturn (scriptPubKey ?out)" using True by (simp add: out_nums_def out_entry_def)
    have touched: "?sh \<in> touched c (v_E ?v (txHash txo))" if "\<not> IsOpReturn (scriptPubKey ?out)"
      using that nth_mem[OF True] by (auto simp: touched_def out_shs_def out_entry_def)
    show ?thesis
    proof (cases "map_of (hashXs tx) ?sh")
      case None
      then have "IsOpReturn (scriptPubKey ?out)" using hx[of ?sh] touched by auto
      then show ?thesis using True tx(1) None outs by (simp add: utxoGet_def)
    next
      case (Some io)
      then have "?n \<in> set (utxo io) \<longleftrightarrow> \<not> IsOpReturn (scriptPubKey ?out) \<and> txo \<notin> v_S ?v"
        using hx[of ?sh] mem txo by (simp add: io_rel_def spent_nums_def)
      then show ?thesis using True tx(1) Some outs by (simp add: utxoGet_def)
    qed
  next
    case False
    then show ?thesis using tx(1) outs by (simp add: utxoGet_def)
  qed
qed

context storage_laws
begin

lemma storage_utxoGet_ok:
  assumes "store_repr contents st c" "mempool_on R st T m" "txo_isValid txo" "unat (outN txo) < 2 ^ 24"
  shows "utxoGet R st m txo = Inr (unspent_now c T txo)"
proof (cases "T (txHash txo)")
  case (Some tx)
  have sp: "txo \<in> v_S (view_of (db_getter R st) T) \<longleftrightarrow> (\<exists>h. (h, txo) \<in> spends T)" using Some by (auto simp: view_def)
  show ?thesis unfolding utxoGet_mempool[OF mempool_on_inv(1)[OF assms(2)] Some] sp using Some by (simp add: unspent_now_def)
next
  case None
  let ?v = "view_of (db_getter R st) T" and ?U = "l_utxo (chain_ledger c)"
  note inv = mempool_on_inv(1)[OF assms(2)]
  have m: "map_of (txs m) (txHash txo) = None"
  proof -
    have "rel_option (tx_rel ?v (txHash txo)) (T (txHash txo)) (map_of (txs m) (txHash txo))"
      using inv by (simp add: mempool_inv_def mempool_repr_def mp_rel_def txs_rel_def)
    then show ?thesis using None by simp
  qed
  have db: "utxoGetFromDB R (s_utxoset st) txo False = Inr (?U txo)" using db_getter_ok[OF assms(1,3,4)] by (simp add: db_getter_def)
  show ?thesis
  proof (cases "?U txo")
    case None
    then show ?thesis using m db \<open>T (txHash txo) = None\<close> by (simp add: utxoGet_def unspent_now_def)
  next
    case (Some info)
    let ?sh = "ti_hashX info"
    have "(\<exists>h \<in> mp_touching ?v ?sh. txo \<in> mem_spent_by ?v ?sh h) \<longleftrightarrow> txo \<in> mem_spent ?v ?sh" by (simp add: mem_spent_def)
    then have sp: "(\<exists>h \<in> mp_touching ?v ?sh. txo \<in> mem_spent_by ?v ?sh h) \<longleftrightarrow> (\<exists>h. (h, txo) \<in> spends T)"
      using Some None by (simp add: mem_spent_eq[OF assms(1,2)] chain_unspent_def)
    have "spent_in_mempool m ?sh txo (mempool_order ?v ?sh) = Inr (\<exists>h. (h, txo) \<in> spends T)"
      using spent_in_mempool_ok[OF inv, of "mempool_order ?v ?sh" ?sh txo] sp mempool_order_set[OF inv, of ?sh] by simp
    then show ?thesis using m db Some None sp
      by (auto simp: utxoGet_def unspent_now_def mempool_vec[OF inv] rbind_def)
  qed
qed

end

section \<open>Transactions by hash\<close>

definition in_block :: "chain \<Rightarrow> nat \<Rightarrow> bytes \<Rightarrow> bool" where
  "in_block c i h \<longleftrightarrow> i < length c \<and> h \<in> txid ` set (snd (c ! i))"

lemma in_chain_block:
  assumes "n < length (chain_txs c)"
  shows "in_block c (tx_height c n) (chain_txs c ! n)"
proof -
  let ?i = "tx_height c n"
  note b = tx_height_bounds[OF assms]
  have split: "concat (map snd c) = concat (map snd (take ?i c)) @ snd (c ! ?i) @ concat (map snd (drop (Suc ?i) c))"
    by (subst id_take_nth_drop[OF b(1)]) simp
  let ?k = "n - block_start c ?i"
  have k: "?k < length (snd (c ! ?i))" using b by (simp add: block_start_Suc less_diff_conv2)
  have "chain_txs c = map txid (concat (map snd (take ?i c)) @ snd (c ! ?i) @ concat (map snd (drop (Suc ?i) c)))"
    using split by (simp add: chain_txs_eq)
  then have "chain_txs c ! n = map txid (concat (map snd (take ?i c)) @ snd (c ! ?i) @ concat (map snd (drop (Suc ?i) c))) ! n" by simp
  also have "\<dots> = txid (snd (c ! ?i) ! ?k)" using b(2) k assms split by (simp add: nth_append block_start_def chain_txs_eq)
  finally show ?thesis using b(1) k by (auto simp: in_block_def)
qed

lemma in_block_num:
  assumes "distinct (chain_txs c)" "in_block c i h"
  obtains n where "n < length (chain_txs c)" "chain_txs c ! n = h" "tx_height c n = i"
proof -
  have i: "i < length c" using assms(2) by (simp add: in_block_def)
  obtain k where k: "k < length (snd (c ! i))" "h = txid (snd (c ! i) ! k)" using assms(2) by (auto simp: in_block_def in_set_conv_nth)
  have split: "concat (map snd c) = concat (map snd (take i c)) @ snd (c ! i) @ concat (map snd (drop (Suc i) c))"
    by (subst id_take_nth_drop[OF i]) simp
  let ?n = "block_start c i + k"
  have "?n < length (chain_txs c)" "chain_txs c ! ?n = h" using split k by (simp_all add: chain_txs_eq block_start_def nth_append)
  moreover have "tx_height c ?n = i" using i k(1) by (intro tx_height_unique) (simp_all add: block_start_Suc)
  ultimately show ?thesis using that by blast
qed

text \<open>The height the server reports: that of the block, or 0 for a transaction of the mempool.\<close>

definition height_now :: "chain \<Rightarrow> (bytes \<rightharpoonup> CTransaction) \<Rightarrow> bytes \<Rightarrow> BlockHeight option \<Rightarrow> bool" where
  "height_now c T h r \<longleftrightarrow> (\<forall>i. in_block c i h \<longrightarrow> r = Some (of_nat i)) \<and>
     ((\<nexists>i. in_block c i h) \<longrightarrow> r = (if T h = None then None else Some 0))"

context storage_laws
begin

lemma tx_num_of_ok:
  assumes "store_repr contents st c" "length h = HashLen"
  shows "tx_num_of R st h = Inr (first_num (chain_txs c) h)"
proof -
  have "idx_ok (contents (s_txhash2txnum st)) (txhash2txnumMgr st) (chain_txs c)" using assms(1) by (simp add: store_repr_def Let_def)
  from tx_find_ok[OF this store_fields(2)[OF assms(1)] assms(2)] show ?thesis by (simp add: tx_num_of_def)
qed

lemma height_of_num:
  assumes "store_repr contents st c" "blocks_small c"
  shows "first_num (chain_txs c) h = Some n \<Longrightarrow> in_block c i h \<longleftrightarrow> heightForTxNum st n = Some (of_nat i) \<and> i < length c"
    "first_num (chain_txs c) h = None \<Longrightarrow> \<not> in_block c i h"
    "first_num (chain_txs c) h = Some n \<Longrightarrow> \<exists>i. in_block c i h"
proof -
  note f = store_fields[OF assms(1)]
  have d: "distinct (chain_txs c)" using f(5) by (simp add: ledger_wf_def)
  have lim: "length (chain_txs c) \<le> max_txnums" "length c \<le> max_height" using chain_limits[OF f(1)] by blast+
  then have room: "length (chain_txs c) < txnum_limit" using limits by linarith
  have num: "first_num (chain_txs c) h = Some n \<longleftrightarrow> unat n < length (chain_txs c) \<and> chain_txs c ! unat n = h" for n
    by (rule first_num_iff) (use d room in simp_all)
  have small: "(of_nat i :: BlockHeight) = of_nat j \<longleftrightarrow> i = j" if "i < length c" "j < length c" for i j
    using that lim(2) of_nat_height[of i] of_nat_height[of j] by (metis le_trans less_imp_le)
  have same: "n = n'" if "n < length (chain_txs c)" "n' < length (chain_txs c)" "chain_txs c ! n = chain_txs c ! n'" for n n'
    using that d by (simp add: nth_eq_iff_index_eq)
  have iff: "in_block c i h \<longleftrightarrow> i = tx_height c (unat n)" if "first_num (chain_txs c) h = Some n" for n i
  proof
    assume "in_block c i h"
    then obtain k where k: "k < length (chain_txs c)" "chain_txs c ! k = h" "tx_height c k = i" using in_block_num[OF d] by blast
    moreover have "unat n < length (chain_txs c)" "chain_txs c ! unat n = h" using num[of n] that by blast+
    ultimately show "i = tx_height c (unat n)" using same[of k "unat n"] by simp
  next
    assume "i = tx_height c (unat n)"
    moreover have "unat n < length (chain_txs c)" "chain_txs c ! unat n = h" using num[of n] that by blast+
    ultimately show "in_block c i h" using in_chain_block[of "unat n" c] by simp
  qed
  then show "in_block c i h \<longleftrightarrow> heightForTxNum st n = Some (of_nat i) \<and> i < length c" "\<exists>i. in_block c i h"
    if "first_num (chain_txs c) h = Some n"
    using that num[of n] heightForTxNum_ok[OF assms, of n] tx_height_bounds(1)[of "unat n" c] small[of "tx_height c (unat n)" i] by auto
  show "\<not> in_block c i h" if none: "first_num (chain_txs c) h = None"
  proof
    assume "in_block c i h"
    then obtain k where k: "k < length (chain_txs c)" "chain_txs c ! k = h" using in_block_num[OF d] by blast
    moreover have "unat (of_nat k :: TxNum) = k" using k(1) lim(1) by (intro of_nat_txnum) simp
    ultimately show False using num[of "of_nat k"] none by simp
  qed
qed

lemma height_now_num:
  assumes "store_repr contents st c" "blocks_small c" "mempool_inv g T m"
  shows "height_now c T h (case first_num (chain_txs c) h of Some n \<Rightarrow> heightForTxNum st n | None \<Rightarrow> if map_of (txs m) h \<noteq> None then Some 0 else None)"
proof -
  have "rel_option (tx_rel (view_of g T) h) (T h) (map_of (txs m) h)"
    using assms(3) by (simp add: mempool_inv_def mempool_repr_def mp_rel_def txs_rel_def)
  then have m: "map_of (txs m) h = None \<longleftrightarrow> T h = None" by (cases "T h"; cases "map_of (txs m) h") simp_all
  show ?thesis
  proof (cases "first_num (chain_txs c) h")
    case None
    then show ?thesis using height_of_num(2)[OF assms(1,2)] m by (simp add: height_now_def)
  next
    case (Some n)
    then show ?thesis using height_of_num(1,3)[OF assms(1,2) Some] by (auto simp: height_now_def)
  qed
qed

lemma getTxHeight_ok:
  assumes "store_repr contents st c" "blocks_small c" "mempool_inv g T m" "length h = HashLen"
  shows "\<exists>r. getTxHeight R st m h = Inr r \<and> height_now c T h r"
  using height_now_num[OF assms(1-3), of h] by (auto simp: getTxHeight_def tx_num_of_ok[OF assms(1,4)] rbind_def)

lemma height_of_zero:
  assumes "store_repr contents st c" "blocks_small c" "first_num (chain_txs c) h = Some 0"
  shows "heightForTxNum st 0 = Some 0"
proof -
  have "0 < length (chain_txs c)" using assms(3) by (auto simp: first_num_def find_Some_iff)
  note b = tx_height_bounds[OF this]
  have "tx_height c 0 = 0"
  proof (rule tx_height_unique)
    show "0 < block_start c (Suc 0)" using b(2,3) block_start_mono[of "Suc (tx_height c 0)" "length c" c] chain_limits(3)[OF store_fields(1)[OF assms(1)], of 0] b(1)
      by (cases c) (simp_all add: block_start_Suc)
  qed (use b(1) in auto)
  then show ?thesis using heightForTxNum_ok[OF assms(1,2), of 0] \<open>0 < length (chain_txs c)\<close> by simp
qed

lemma getTxHeights_ok:
  assumes "store_repr contents st c" "blocks_small c" "mempool_inv g T m" "\<forall>h \<in> set hs. length h = HashLen"
  shows "\<exists>rs. getTxHeights R st m hs = Inr rs \<and> list_all2 (height_now c T) hs rs"
proof -
  let ?f = "\<lambda>h. case first_num (chain_txs c) h of Some n \<Rightarrow> heightForTxNum st n | None \<Rightarrow> if map_of (txs m) h \<noteq> None then Some 0 else None"
  have "idx_ok (contents (s_txhash2txnum st)) (txhash2txnumMgr st) (chain_txs c)" using assms(1) by (simp add: store_repr_def Let_def)
  then have fm: "findMany R (s_txhash2txnum st) (s_txnums st) (txNumsDRA st) (txhash2txnumMgr st) hs = Inr (map (first_num (chain_txs c)) hs)"
    using findMany_ok[OF _ store_fields(2)[OF assms(1)], of "s_txhash2txnum st" "txhash2txnumMgr st" hs] assms(4) by blast
  have "getTxHeights R st m hs = Inr (map ?f hs)"
    using height_of_zero[OF assms(1,2)]
    by (auto simp: getTxHeights_def fm rbind_def zip_map2 zip_same_conv_map split: option.split)
  then show ?thesis using height_now_num[OF assms(1-3)] by (simp add: list_all2_map2 list.rel_refl)
qed

lemma getConfirmedTx_ok:
  assumes "store_repr contents st c" "blocks_small c" "length h = HashLen"
  shows "\<exists>r. getConfirmedTxBlockHeightAndHeader R st h = Inr r \<and>
    (\<forall>i. in_block c i h \<longrightarrow> r = Some (of_nat i, fst (c ! i))) \<and> ((\<nexists>i. in_block c i h) \<longrightarrow> r = None)"
proof (cases "first_num (chain_txs c) h")
  case None
  then show ?thesis using height_of_num(2)[OF assms(1,2)]
    by (simp add: getConfirmedTxBlockHeightAndHeader_def tx_num_of_ok[OF assms(1,3)] rbind_def)
next
  case (Some n)
  obtain i where i: "in_block c i h" "heightForTxNum st n = Some (of_nat i)" "i < length c"
    using height_of_num(1,3)[OF assms(1,2) Some] by blast
  have "length c \<le> max_height" by (rule chain_limits(2)[OF store_fields(1)[OF assms(1)]])
  then have nat: "unat (of_nat k :: BlockHeight) = k" if "k < length c" for k using that by (intro of_nat_height) simp
  have only: "j = i" if "in_block c j h" for j
  proof -
    have "(of_nat j :: BlockHeight) = of_nat i" "j < length c" using that i(2) height_of_num(1)[OF assms(1,2) Some, of j] by simp_all
    then have "unat (of_nat j :: BlockHeight) = unat (of_nat i :: BlockHeight)" by simp
    then show ?thesis unfolding nat[OF \<open>j < length c\<close>] nat[OF i(3)] .
  qed
  have inv: "store_inv contents (s_hdr st) (map fst c)" using assms(1) by (simp add: store_repr_def Let_def)
  then have w: "sint (of_nat i :: u32) = int i" "unat (of_nat i :: u32) = i"
    using height_word[of i "map fst c"] i(3) by (simp_all add: store_inv_def)
  obtain x where "headerForHeight R (s_hdr st) False (of_nat i) = Inr (Some (fst (c ! i)), [], x)"
    using headerForHeight_ok(2)[OF inv, of "of_nat i"] i(3) by (auto simp: w)
  then have "getConfirmedTxBlockHeightAndHeader R st h = Inr (Some (of_nat i, fst (c ! i)))"
    using i(2) by (simp add: getConfirmedTxBlockHeightAndHeader_def tx_num_of_ok[OF assms(1,3)] rbind_def Some)
  then show ?thesis using i(1) only by blast
qed

end

section \<open>First use\<close>

definition mem_pays :: "(bytes \<rightharpoonup> CTransaction) \<Rightarrow> bytes \<Rightarrow> bytes \<Rightarrow> bool" where
  "mem_pays T sh h \<longleftrightarrow> (\<exists>tx. T h = Some tx \<and> sh \<in> out_shs (vout tx))"

text \<open>What the server takes for the first use: the head of the confirmed history. \<open>Query_First_Use\<close> relates it to payments.\<close>

definition head_use :: "chain \<Rightarrow> mview \<Rightarrow> bytes \<Rightarrow> FirstUse option" where
  "head_use c v sh =
     (case hist_nums c sh of
        n # ns \<Rightarrow> let i = tx_height c (unat n)
                  in Some \<lparr> fu_txHash = chain_txs c ! unat n, fu_height = int i, fu_blockHash = rev (hash_of (fst (c ! i))) \<rparr>
      | [] \<Rightarrow> map_option (\<lambda>h. \<lparr> fu_txHash = h, fu_height = (if has_parents v h then - 1 else 0), fu_blockHash = replicate HashLen 0 \<rparr>)
                (List.find (mem_pays (v_O v) sh) (mempool_order v sh)))"

lemma find_cong: "(\<And>x. x \<in> set xs \<Longrightarrow> P x = P' x) \<Longrightarrow> List.find P xs = List.find P' xs"
  by (induction xs) auto

lemma first_use_mempool_ok:
  assumes "mempool_inv g T m" "sh \<noteq> []"
  shows "first_use_mempool m sh = map_option (\<lambda>h. \<lparr> fu_txHash = h, fu_height = (if has_parents (view_of g T) h then - 1 else 0),
      fu_blockHash = replicate HashLen 0 \<rparr>) (List.find (mem_pays T sh) (mempool_order (view_of g T) sh))"
proof -
  let ?v = "view_of g T"
  let ?item = "\<lambda>h. \<lparr> fu_txHash = mp_hash (deref m h), fu_height = (if parents (deref m h) \<noteq> [] then - 1 else (0 :: int)), fu_blockHash = replicate HashLen (0 :: byte) \<rparr>"
  let ?item' = "\<lambda>h. \<lparr> fu_txHash = h, fu_height = (if has_parents ?v h then - 1 else (0 :: int)), fu_blockHash = replicate HashLen (0 :: byte) \<rparr>"
  have item: "?item h = ?item' h" "list_ex (\<lambda>info. ti_hashX info = sh) (txos (deref m h)) = mem_pays T sh h" if h: "h \<in> mp_touching ?v sh" for h
  proof -
    obtain c io where c: "T h = Some c" "map_of (hashXs (deref m h)) sh = Some io" "txos (deref m h) = map out_entry (vout c)"
      "mp_hash (deref m h) = h" "fee (deref m h) = v_F ?v h" "parents (deref m h) \<noteq> [] \<longleftrightarrow> has_parents ?v h" using assms(1) h by (rule mempool_io)
    then show "?item h = ?item' h" by simp
    have "ti_hashX (out_entry out) = sh \<longleftrightarrow> \<not> IsOpReturn (scriptPubKey out) \<and> HashXFromCScript (scriptPubKey out) = sh" for out
      using assms(2) by (auto simp: out_entry_def TXOInfo_default_def)
    then show "list_ex (\<lambda>info. ti_hashX info = sh) (txos (deref m h)) = mem_pays T sh h"
      using c(1,3) by (auto simp: list_ex_iff mem_pays_def out_shs_def)
  qed
  let ?hs = "mempool_order ?v sh"
  note s = mempool_order_set[OF assms(1), of sh]
  have f: "List.find (\<lambda>h. list_ex (\<lambda>info. ti_hashX info = sh) (txos (deref m h))) ?hs = List.find (mem_pays T sh) ?hs"
    by (rule find_cong) (simp add: item(2) s)
  have "map_option ?item (List.find (mem_pays T sh) ?hs) = map_option ?item' (List.find (mem_pays T sh) ?hs)"
  proof (cases "List.find (mem_pays T sh) ?hs")
    case (Some h)
    then have "h \<in> mp_touching ?v sh" using s by (auto simp: find_Some_iff dest: nth_mem)
    then show ?thesis using item(1)[of h] by (simp add: Some)
  qed simp
  moreover have "?hs = []" if "mp_touching ?v sh = {}" using that by (simp add: mempool_order_def)
  ultimately show ?thesis unfolding first_use_mempool_def mempool_vec[OF assms(1)] by (simp add: f)
qed

lemma txnum_head: "\<forall>n \<in> set (n # ns). unat n < 2 ^ 48 \<Longrightarrow> txNumFromCompactBytes (Serialize_TxNumVec (n # ns)) False = n"
  using nth_TxNumVec[of 0 "n # ns"] by (simp add: Serialize_TxNumVec_eq)

context storage_laws
begin

lemma getFirstUse_ok:
  assumes "store_repr contents st c" "blocks_small c" "mempool_inv g T m" "num.coherent (num_hash c) ca" "length sh = HashLen"
  shows "\<exists>ca'. getFirstUse Q R st m sh ca = (head_use c (view_of g T) sh, ca') \<and> num.coherent (num_hash c) ca'"
proof (cases "l_hist (chain_ledger c) sh")
  case None
  have "contents (s_shist st) sh = None" using assms(1) None by (simp add: store_repr_def Let_def hist_tab_def)
  moreover have "sh \<noteq> []" using assms(5) by auto
  ultimately show ?thesis using None assms(4) first_use_mempool_ok[OF assms(3)]
    by (simp add: getFirstUse_def GenericDBGet_missing head_use_def hist_of_def)
next
  case (Some v)
  have tab: "contents (s_shist st) sh = Some (Serialize_TxNumVec v)" using assms(1) Some by (simp add: store_repr_def Let_def hist_tab_def)
  note f = store_fields[OF assms(1)]
  have lim: "length (chain_txs c) \<le> max_txnums" "length c \<le> max_height" using chain_limits[OF f(1)] by blast+
  have ok: "hist_ok (length (chain_txs c)) v" using f(5) Some by (simp add: ledger_wf_def)
  then obtain n ns where v: "v = n # ns" by (cases v) (simp_all add: hist_ok_def)
  have lt: "\<forall>x \<in> set v. unat x < length (chain_txs c)" using ok by (simp add: hist_ok_def)
  let ?i = "tx_height c (unat n)"
  have n: "unat n < length (chain_txs c)" using lt v by simp
  have num: "txNumFromCompactBytes (Serialize_TxNumVec v) False = n" unfolding v
    by (rule txnum_head) (use lt lim(1) v in \<open>auto simp: max_txnums_def\<close>)
  have len: "\<not> length (Serialize_TxNumVec v) < 6" by (simp add: length_Serialize_TxNumVec v)
  have i: "?i < length c" by (rule tx_height_bounds(1)[OF n])
  have inv: "store_inv contents (s_hdr st) (map fst c)" using assms(1) by (simp add: store_repr_def Let_def)
  have w: "sint (of_nat ?i :: u32) = int ?i" "unat (of_nat ?i :: u32) = ?i"
    using height_word[of ?i "map fst c"] i inv by (simp_all add: store_inv_def)
  obtain x where hd: "headerForHeight R (s_hdr st) False (of_nat ?i) = Inr (Some (fst (c ! ?i)), [], x)"
    using headerForHeight_ok(2)[OF inv, of "of_nat ?i"] i by (auto simp: w)
  have "header_bytes (fst (c ! ?i))" using inv i chain_ok_member[of "map fst c" "fst (c ! ?i)"] by (simp add: store_inv_def)
  then have pow: "HeaderPoWHashRev (fst (c ! ?i)) = Inr (rev (hash_of (fst (c ! ?i))))" by (rule header_bytes_hash(2))
  obtain ca' where ca': "hashForTxNum Q R st n False False ca = (Inr (Some (chain_txs c ! unat n)), ca')" "num.coherent (num_hash c) ca'"
    using hashForTxNum_ok[OF assms(1,4), of n False False] n by (auto simp: num_hash_def)
  have "first_use_confirmed Q R st (Serialize_TxNumVec v) ca =
      (Inr \<lparr> fu_txHash = chain_txs c ! unat n, fu_height = int ?i, fu_blockHash = rev (hash_of (fst (c ! ?i))) \<rparr>, ca')"
    using n ca'(1) heightForTxNum_ok[OF assms(1,2), of n] hd pow w(1) len num
    by (simp add: first_use_confirmed_def ebind_def opt_value_def elift_def ereturn_def Let_def)
  then show ?thesis using tab ca'(2) Some v
    by (auto simp: getFirstUse_def GenericDBGet_found deser_bytes_def head_use_def hist_of_def Let_def)
qed

end

section \<open>Too many items\<close>

lemma scan_rows_too_many:
  assumes "store_repr contents st c" "amounts_ok c sh"
  shows "set us \<subseteq> chain_unspent c sh \<Longrightarrow> qs_ctr s \<le> maxHistory \<Longrightarrow> qs_ctr s + length us > maxHistory \<Longrightarrow>
    \<exists>s'. efor (scan_row maxHistory tf) (map (unspent_row c) us) s = (Inl HistoryTooLarge, s') \<and> qs_ret s' = qs_ret s \<and> qs_cache s' = qs_cache s"
proof -
  assume us: "set us \<subseteq> chain_unspent c sh" "qs_ctr s \<le> maxHistory" "qs_ctr s + length us > maxHistory"
  let ?k = "maxHistory - qs_ctr s"
  have k: "?k < length us" using us by simp
  let ?pre = "take ?k us"
  have e: "us = ?pre @ us ! ?k # drop (Suc ?k) us" by (rule id_take_nth_drop[OF k])
  have pre: "set ?pre \<subseteq> chain_unspent c sh" using us(1) set_take_subset by fast
  let ?s1 = "s\<lparr>qs_ctr := maxHistory, ctxoVec := ctxoVec s @ map (chain_entry c) (filter (\<lambda>txo. keep tf (chain_info c txo)) ?pre)\<rparr>"
  have 1: "efor (scan_row maxHistory tf) (map (unspent_row c) ?pre) s = (Inr (), ?s1)"
    using scan_rows_ok[OF assms pre, of s maxHistory tf] k us(2) by simp
  have 2: "scan_row maxHistory tf (unspent_row c (us ! ?k)) ?s1 = (Inl HistoryTooLarge, ?s1)"
    by (simp add: scan_row_def ebind_def count_items_def bump_def)
  have "efor (scan_row maxHistory tf) (map (unspent_row c) us) s = (Inl HistoryTooLarge, ?s1)"
    by (subst e) (simp add: efor_append ebind_def 1 2)
  then show ?thesis by (auto intro!: exI[of _ ?s1])
qed

lemma balance_rows_too_many:
  assumes "store_repr contents st c" "amounts_ok c sh" "set us \<subseteq> chain_unspent c sh" "length us > maxHistory"
  defines "s0 \<equiv> \<lparr> bs_confirmed = 0, bs_unconfirmed = 0, bs_ctr = 0 \<rparr>"
  shows "efor (balance_row maxHistory tf) (map (unspent_row c) us) s0 =
    (Inl HistoryTooLarge, s0\<lparr>bs_ctr := maxHistory, bs_confirmed := (\<Sum>txo \<leftarrow> take maxHistory us. val tf (chain_info c txo))\<rparr>)"
proof -
  let ?pre = "take maxHistory us"
  let ?s1 = "s0\<lparr>bs_ctr := maxHistory, bs_confirmed := (\<Sum>txo \<leftarrow> ?pre. val tf (chain_info c txo))\<rparr>"
  have e: "us = ?pre @ us ! maxHistory # drop (Suc maxHistory) us" by (rule id_take_nth_drop[OF assms(4)])
  have pre: "set ?pre \<subseteq> chain_unspent c sh" using assms(3) set_take_subset by fast
  have 1: "efor (balance_row maxHistory tf) (map (unspent_row c) ?pre) s0 = (Inr (), ?s1)"
    using balance_rows_ok[OF assms(1,2) pre, of s0 maxHistory tf] assms(4) by (simp add: s0_def)
  have 2: "balance_row maxHistory tf (unspent_row c (us ! maxHistory)) ?s1 = (Inl HistoryTooLarge, ?s1)"
    by (simp add: balance_row_def ebind_def bump_def elift_def ethrow_def split: prod.split)
  show ?thesis by (subst e) (simp add: efor_append ebind_def 1 2)
qed

context storage_laws
begin

lemma listUnspent_too_many:
  assumes "store_repr contents st c" "mempool_inv g T m" "values_ok T" "amounts_ok c sh" "length sh = HashLen"
    and "card (mem_unspent (view_of g T) sh) \<le> maxHistory" "card (mem_unspent (view_of g T) sh) + card (chain_unspent c sh) > maxHistory"
  shows "\<exists>items. listUnspent Q R seek maxHistory st m sh tf ca = (items, ca) \<and> distinct items \<and>
    set items = mem_items (view_of g T) tf (of_nat (length (chain_txs c)) + 100000000) sh UNIV"
proof -
  let ?v = "view_of g T" and ?hs = "mempool_order (view_of g T) sh" and ?N = "of_nat (length (chain_txs c)) + 100000000 :: TxNum"
  obtain us where us: "rows_with_prefix seek (s_shunspent st) sh = map (unspent_row c) us" "distinct us" "set us = chain_unspent c sh"
    using unspent_rows[OF assms(1,5)] by blast
  have N: "txNumNext st + 100000000 = ?N" using assms(1) by (simp add: store_repr_def Let_def)
  note card = mem_unspent_card[OF assms(2), of sh]
  obtain s1 where s1: "list_mempool maxHistory tf ?N m sh \<lparr> qs_cache = ca, qs_ret = [], qs_ctr = 0, mempoolConfirmedSpends = [], ctxoVec = [] \<rparr> = (Inr (), s1)"
      "mem_state ?v tf ?N sh ca ?hs s1"
    using list_mempool_ok[OF assms(2) _ assms(3), of sh maxHistory tf ?N ca] card(1) assms(6) by auto
  have "length us = card (chain_unspent c sh)" using us(2,3) by (metis distinct_card)
  then obtain s2 where s2: "efor (scan_row maxHistory tf) (map (unspent_row c) us) s1 = (Inl HistoryTooLarge, s2)" "qs_ret s2 = qs_ret s1" "qs_cache s2 = qs_cache s1"
    using scan_rows_too_many[OF assms(1,4), of us s1 maxHistory tf] us(3) s1(2) card(1) assms(6,7) by (auto simp: mem_state_def)
  have "listUnspent Q R seek maxHistory st m sh tf ca = (qs_ret s1, qs_cache s1)"
    using s1(1) s2 us(1) assms(5) N by (simp add: listUnspent_def ebind_def)
  moreover have "mem_outs ?v sh h \<noteq> {} \<Longrightarrow> h \<in> mp_touching ?v sh" for h
    by (auto simp: mem_outs_def mp_touching_def touched_def out_shs_def out_nums_def dest!: nth_mem)
  then have "set (qs_ret s1) = mem_items ?v tf ?N sh UNIV"
    using s1(2) mempool_order_set[OF assms(2), of sh] unfolding mem_state_def mem_items_def by auto
  ultimately show ?thesis using s1(2) by (simp add: mem_state_def)
qed

lemma getBalance_too_many:
  assumes "store_repr contents st c" "amounts_ok c sh" "length sh = HashLen" "card (chain_unspent c sh) > maxHistory"
  shows "\<exists>U \<subseteq> chain_unspent c sh. card U = maxHistory \<and> getBalance seek maxHistory st m sh tf = (\<Sum>txo \<in> U. val tf (chain_info c txo), 0)"
proof -
  obtain us where us: "rows_with_prefix seek (s_shunspent st) sh = map (unspent_row c) us" "distinct us" "set us = chain_unspent c sh"
    using unspent_rows[OF assms(1,3)] by blast
  have len: "length us = card (chain_unspent c sh)" using us(2,3) by (metis distinct_card)
  let ?pre = "take maxHistory us"
  have "distinct ?pre" using us(2) by simp
  then have "(\<Sum>txo \<leftarrow> ?pre. val tf (chain_info c txo)) = (\<Sum>txo \<in> set ?pre. val tf (chain_info c txo))" by (simp add: sum_list_distinct_conv_sum_set)
  then have "getBalance seek maxHistory st m sh tf = (\<Sum>txo \<in> set ?pre. val tf (chain_info c txo), 0)"
    using balance_rows_too_many[OF assms(1,2), of us maxHistory tf] us assms(3,4) len by (simp add: getBalance_def ebind_def)
  moreover have "set ?pre \<subseteq> chain_unspent c sh" using us(3) set_take_subset by fast
  moreover have "card (set ?pre) = maxHistory" using \<open>distinct ?pre\<close> assms(4) len by (simp add: distinct_card)
  ultimately show ?thesis by blast
qed

end

end
