(* ===== verification/Query_First_Use.thy ===== *)
theory Query_First_Use
  imports Query_Lookup
begin

text \<open>
  The first use of a script hash as an output. The server takes the head of the confirmed history, which also has the spends. When no
  transaction precedes one it spends from in its block, the head of a history is always a payment, and the first one.
\<close>

declare map_of_eq_Some_iff [simp del]

section \<open>Payments\<close>

definition pays_at :: "chain \<Rightarrow> bytes \<Rightarrow> nat \<Rightarrow> bool" where
  "pays_at c sh n \<longleftrightarrow> n < length (concat (map snd c)) \<and> sh \<in> out_shs (vout (concat (map snd c) ! n))"

text \<open>Every transaction comes after those of its block that it spends from.\<close>

definition block_ordered :: "CTransaction list \<Rightarrow> bool" where
  "block_ordered ts \<longleftrightarrow> (\<forall>t < length ts. \<forall>i \<in> set (vin (ts ! t)). \<forall>t' < length ts. txid (ts ! t') = txHash (prev_txo i) \<longrightarrow> t' < t)"

text \<open>The specification: the first payment in the chain, or the first one of the mempool's history if there is none.\<close>

definition first_payment :: "chain \<Rightarrow> bytes \<Rightarrow> nat option" where
  "first_payment c sh = List.find (pays_at c sh) [0..<length (chain_txs c)]"

definition first_use :: "chain \<Rightarrow> mview \<Rightarrow> bytes \<Rightarrow> FirstUse option" where
  "first_use c v sh =
     (case first_payment c sh of
        Some n \<Rightarrow> Some \<lparr> fu_txHash = chain_txs c ! n, fu_height = int (tx_height c n), fu_blockHash = rev (hash_of (fst (c ! tx_height c n))) \<rparr>
      | None \<Rightarrow> map_option (\<lambda>h. \<lparr> fu_txHash = h, fu_height = (if has_parents v h then - 1 else 0), fu_blockHash = replicate HashLen 0 \<rparr>)
                 (List.find (mem_pays (v_O v) sh) (mempool_order v sh)))"

section \<open>One block\<close>

lemma all_ins_iff: "(t, i) \<in> set (all_ins k ts) \<longleftrightarrow> k \<le> t \<and> t < k + length ts \<and> i \<in> set (vin (ts ! (t - k)))"
proof (induction ts arbitrary: k)
  case (Cons tx ts)
  have "t - k = Suc (t - Suc k)" if "Suc k \<le> t" using that by simp
  then show ?case using Cons.IH[of "k + 1"] by (cases "t = k") (auto simp: nth_Cons')
qed simp

lemma touching_iff:
  "t \<in> touching ts U sh \<longleftrightarrow> (t < length ts \<and> sh \<in> out_shs (vout (ts ! t))) \<or>
     (\<exists>j < nins ts. \<exists>i. in_parent ts j = Some i \<and> \<not> IsOpReturn (out_script ts i) \<and> HashXFromCScript (out_script ts i) = sh \<and> fst (all_ins 0 ts ! j) = t) \<or>
     (\<exists>j \<in> set (outside_ins ts). \<exists>info. U (in_txo ts j) = Some info \<and> ti_hashX info = sh \<and> fst (all_ins 0 ts ! j) = t)"
proof -
  have outs: "t \<in> fst ` {e \<in> set (all_outs 0 ts). pays_to e sh} \<longleftrightarrow> t < length ts \<and> sh \<in> out_shs (vout (ts ! t))"
  proof
    assume "t \<in> fst ` {e \<in> set (all_outs 0 ts). pays_to e sh}"
    then obtain e where "e \<in> set (all_outs 0 ts)" "pays_to e sh" "t = fst e" by blast
    then obtain i where i: "i < nouts ts" "pays_to (all_outs 0 ts ! i) sh" "t = fst (all_outs 0 ts ! i)" by (auto simp: in_set_conv_nth)
    from i(1) show "t < length ts \<and> sh \<in> out_shs (vout (ts ! t))"
      by (rule out_pos_cases) (use i in \<open>auto simp: pays_to_def out_shs_def\<close>)
  next
    assume a: "t < length ts \<and> sh \<in> out_shs (vout (ts ! t))"
    then obtain n where n: "n < length (vout (ts ! t))" "\<not> IsOpReturn (scriptPubKey (vout (ts ! t) ! n))" "HashXFromCScript (scriptPubKey (vout (ts ! t) ! n)) = sh"
      by (auto simp: out_shs_def in_set_conv_nth)
    have "out_pos ts t n < nouts ts \<and> all_outs 0 ts ! out_pos ts t n = (t, of_nat n, vout (ts ! t) ! n)" using a n(1) by (intro out_pos_nth) simp_all
    then have "(t, of_nat n, vout (ts ! t) ! n) \<in> set (all_outs 0 ts)" by (metis nth_mem)
    then show "t \<in> fst ` {e \<in> set (all_outs 0 ts). pays_to e sh}" using n(2,3) by (force simp: pays_to_def)
  qed
  have ins: "(\<exists>j. (j, t, sh) \<in> set (in_events ts)) \<longleftrightarrow>
      (\<exists>j < nins ts. \<exists>i. in_parent ts j = Some i \<and> \<not> IsOpReturn (out_script ts i) \<and> HashXFromCScript (out_script ts i) = sh \<and> fst (all_ins 0 ts ! j) = t)"
  proof -
    have e: "(k, t, sh) \<in> set (in_event ts j) \<longleftrightarrow>
        k = j \<and> (\<exists>i. in_parent ts j = Some i \<and> \<not> IsOpReturn (out_script ts i) \<and> HashXFromCScript (out_script ts i) = sh \<and> fst (all_ins 0 ts ! j) = t)" for k j
      by (cases "in_parent ts j") (auto simp: in_event_def out_script_def Let_def)
    show ?thesis unfolding in_events_def events_def set_concat set_map set_upt by (auto simp: e)
  qed
  have out: "(\<exists>j. (j, t, sh) \<in> set (outside_events ts U)) \<longleftrightarrow>
      (\<exists>j \<in> set (outside_ins ts). \<exists>info. U (in_txo ts j) = Some info \<and> ti_hashX info = sh \<and> fst (all_ins 0 ts ! j) = t)"
  proof -
    have e: "(k, t, sh) \<in> set (outside_event ts U j) \<longleftrightarrow> k = j \<and> (\<exists>info. U (in_txo ts j) = Some info \<and> ti_hashX info = sh \<and> fst (all_ins 0 ts ! j) = t)" for k j
      by (cases "U (in_txo ts j)") (auto simp: outside_event_def)
    show ?thesis unfolding outside_events_def set_concat set_map by (auto simp: e)
  qed
  have "t \<in> touching ts U sh \<longleftrightarrow> t \<in> fst ` {e \<in> set (all_outs 0 ts). pays_to e sh} \<or> (\<exists>j. (j, t, sh) \<in> set (in_events ts)) \<or> (\<exists>j. (j, t, sh) \<in> set (outside_events ts U))"
    unfolding touching_def touches_def by auto
  then show ?thesis unfolding outs ins out .
qed

text \<open>The first transaction of a block that touches a script hash without history pays to it.\<close>

lemma first_touch_pays:
  assumes "block_wf ts" "block_ordered ts" "t \<in> touching ts U sh" "\<forall>t' \<in> touching ts U sh. t \<le> t'"
    and "\<And>txo info. U txo = Some info \<Longrightarrow> ti_hashX info \<noteq> sh"
  shows "t < length ts \<and> sh \<in> out_shs (vout (ts ! t))"
proof (rule ccontr)
  assume n: "\<not> ?thesis"
  obtain j i where j: "j < nins ts" "in_parent ts j = Some i" "\<not> IsOpReturn (out_script ts i)" "HashXFromCScript (out_script ts i) = sh" "fst (all_ins 0 ts ! j) = t"
    using assms(3,5) n unfolding touching_iff by blast
  let ?inp = "snd (all_ins 0 ts ! j)"
  obtain t' where t': "parent_tx ts ?inp = Some t'" "t' < length ts" "unat (op_n (prevout ?inp)) < length (vout (ts ! t'))"
      "all_outs 0 ts ! i = (t', op_n (prevout ?inp), vout (ts ! t') ! unat (op_n (prevout ?inp)))"
    using in_parent_ok[OF assms(1) j(1,2)] by blast
  have "sh \<in> out_shs (vout (ts ! t'))" using j(3,4) t'(3,4) nth_mem[OF t'(3)] by (auto simp: out_script_def out_shs_def)
  then have "t' \<in> touching ts U sh" using t'(2) unfolding touching_iff by blast
  then have le: "t \<le> t'" using assms(4) by blast
  have "(t, ?inp) \<in> set (all_ins 0 ts)" using nth_mem[OF j(1)] j(5) by (metis prod.collapse)
  then have "t < length ts" "?inp \<in> set (vin (ts ! t))" using all_ins_iff[of t ?inp 0 ts] by simp_all
  moreover have "txid (ts ! t') = txHash (prev_txo ?inp)" using t'(1) assms(1) parent_tx_iff[of ts] by (simp add: block_wf_def prev_txo_def)
  ultimately have "t' < t" using assms(2) t'(2) unfolding block_ordered_def by blast
  then show False using le by simp
qed

section \<open>The chain\<close>

lemma hist_nums_snoc: "hist_nums (c @ [b]) sh = hist_nums c sh @ new_nums (of_nat (length (chain_txs c))) (snd b) (l_utxo (chain_ledger c)) sh"
  unfolding ledger_of_snoc by (simp add: apply_block_def Let_def hist_of_def hist_after_def new_nums_def split: option.split)

lemma pays_at_snoc:
  "pays_at (c @ [b]) sh n \<longleftrightarrow> pays_at c sh n \<or>
     (\<exists>t < length (snd b). n = length (chain_txs c) + t \<and> sh \<in> out_shs (vout (snd b ! t)))"
proof -
  have len: "length (concat (map snd c)) = length (chain_txs c)" unfolding chain_txs_eq by simp
  show ?thesis
  proof (cases "n < length (chain_txs c)")
    case False
    then obtain t where "n = length (chain_txs c) + t" by (metis le_iff_add not_less)
    then show ?thesis by (simp add: pays_at_def nth_append len)
  qed (simp add: pays_at_def nth_append len)
qed

lemma new_nums_set: "set (new_nums n0 ts U sh) = (\<lambda>t. of_nat t + n0) ` touching ts U sh"
  by (simp add: new_nums_def touching_finite)

text \<open>Histories contain all payments, start with one, and every unspent output is in one.\<close>

lemma utxo_has_history:
  assumes "chain_fits c" "l_utxo (chain_ledger c) txo = Some info"
  shows "hist_nums c (ti_hashX info) \<noteq> []"
  using assms
proof (induction c arbitrary: txo info rule: rev_induct)
  case (snoc b c)
  let ?n0 = "of_nat (length (chain_txs c)) :: TxNum" and ?U = "l_utxo (chain_ledger c)"
  have f: "chain_fits c" "block_fits (chain_ledger c) (snd b)" using snoc.prems(1) by (simp_all add: chain_fits_snoc)
  have bw: "block_wf (snd b)" using f(2) by (simp add: block_fits_def)
  have "(?U ++ created (of_nat (length c)) ?n0 (snd b)) txo = Some info"
    using snoc.prems(2) unfolding ledger_of_snoc by (simp add: apply_block_def Let_def utxo_after_def length_l_blks restrict_map_def split: if_splits)
  then consider "?U txo = Some info" | "created (of_nat (length c)) ?n0 (snd b) txo = Some info" by (auto simp: map_add_Some_iff)
  then show ?case
  proof cases
    case 1
    then show ?thesis using snoc.IH[OF f(1)] unfolding hist_nums_snoc by simp
  next
    case 2
    then obtain i where i: "i \<in> kept_outs (snd b)" "info = out_info (of_nat (length c)) ?n0 (snd b) i" using created_iff[OF bw] by blast
    then have lt: "i < nouts (snd b)" "\<not> IsOpReturn (out_script (snd b) i)" by (simp_all add: kept_outs_def)
    from lt(1) obtain t n where t: "t < length (snd b)" "n < length (vout (snd b ! t))" "all_outs 0 (snd b) ! i = (t, of_nat n, vout (snd b ! t) ! n)"
      by (rule out_pos_cases)
    have "ti_hashX info \<in> out_shs (vout (snd b ! t))"
      using t(2,3) lt(2) i(2) nth_mem[OF t(2)] by (auto simp: out_info_def out_script_def out_shs_def)
    then have "t \<in> touching (snd b) ?U (ti_hashX info)" using t(1) unfolding touching_iff by blast
    then have "new_nums ?n0 (snd b) ?U (ti_hashX info) \<noteq> []" using new_nums_set[of ?n0 "snd b" ?U "ti_hashX info"] by auto
    then show ?thesis unfolding hist_nums_snoc by simp
  qed
qed (simp add: ledger_of_def ledger_empty_def)

lemma history_has_payments:
  "pays_at c sh n \<Longrightarrow> of_nat n \<in> set (hist_nums c sh)"
proof (induction c rule: rev_induct)
  case (snoc b c)
  consider "pays_at c sh n" | t where "t < length (snd b)" "n = length (chain_txs c) + t" "sh \<in> out_shs (vout (snd b ! t))"
    using snoc.prems unfolding pays_at_snoc by blast
  then show ?case
  proof cases
    case 1
    then show ?thesis using snoc.IH unfolding hist_nums_snoc by simp
  next
    case 2
    then have "t \<in> touching (snd b) (l_utxo (chain_ledger c)) sh" unfolding touching_iff by blast
    then show ?thesis using 2(2) unfolding hist_nums_snoc by (auto simp: new_nums_set add.commute)
  qed
qed (simp add: pays_at_def)

lemma history_starts_with_payment:
  assumes "chain_fits c" "\<forall>b \<in> set c. block_ordered (snd b)" "hist_nums c sh = n # ns"
  shows "pays_at c sh (unat n)"
  using assms
proof (induction c arbitrary: ns rule: rev_induct)
  case (snoc b c)
  let ?n0 = "of_nat (length (chain_txs c)) :: TxNum" and ?U = "l_utxo (chain_ledger c)"
  have f: "chain_fits c" "block_fits (chain_ledger c) (snd b)" "block_ordered (snd b)" using snoc.prems(1,2) by (simp_all add: chain_fits_snoc)
  have bw: "block_wf (snd b)" and lim: "length (chain_txs c) + length (snd b) \<le> max_txnums" using f(2) by (simp_all add: block_fits_def)
  show ?case
  proof (cases "hist_nums c sh")
    case (Cons m ms)
    then have "m = n" using snoc.prems(3) unfolding hist_nums_snoc by simp
    then show ?thesis using snoc.IH[OF f(1), of ms] Cons snoc.prems(2) unfolding pays_at_snoc by simp
  next
    case Nil
    then have new: "new_nums ?n0 (snd b) ?U sh = n # ns" using snoc.prems(3) unfolding hist_nums_snoc by simp
    let ?X = "touching (snd b) ?U sh"
    obtain t rest where x: "sorted_list_of_set ?X = t # rest" "n = of_nat t + ?n0" using new by (auto simp: new_nums_def)
    have "t \<in> ?X" "\<forall>t' \<in> ?X. t \<le> t'" using x(1) touching_finite[of "snd b" ?U sh] sorted_sorted_list_of_set[of ?X] set_sorted_list_of_set[of ?X]
      by (auto simp del: sorted_sorted_list_of_set set_sorted_list_of_set)
    moreover have "ti_hashX info \<noteq> sh" if "?U txo = Some info" for txo info using utxo_has_history[OF f(1) that] Nil by auto
    ultimately have t: "t < length (snd b)" "sh \<in> out_shs (vout (snd b ! t))" using first_touch_pays[OF bw f(3)] by blast+
    have "n = of_nat (length (chain_txs c) + t)" using x(2) by (simp add: add.commute)
    then have "unat n = length (chain_txs c) + t" using of_nat_txnum[of "length (chain_txs c) + t"] t(1) lim by simp
    then show ?thesis using t unfolding pays_at_snoc by blast
  qed
qed (simp add: ledger_of_def ledger_empty_def hist_of_def)

lemma find_upt: "k < n \<Longrightarrow> P k \<Longrightarrow> (\<And>i. i < k \<Longrightarrow> \<not> P i) \<Longrightarrow> List.find P [0..<n] = Some k"
  by (auto simp: find_Some_iff intro!: exI[of _ k])

lemma first_payment_head:
  assumes "chain_fits c" "\<forall>b \<in> set c. block_ordered (snd b)"
  shows "first_payment c sh = (case hist_nums c sh of [] \<Rightarrow> None | n # ns \<Rightarrow> Some (unat n))"
proof (cases "hist_nums c sh")
  case Nil
  then have "\<not> pays_at c sh n" for n using history_has_payments[of c sh n] by auto
  then show ?thesis by (simp add: first_payment_def find_None_iff Nil)
next
  case (Cons n ns)
  have wf: "ledger_wf (chain_ledger c)" by (rule chain_fits_wf[OF assms(1)])
  have p: "pays_at c sh (unat n)" by (rule history_starts_with_payment[OF assms Cons])
  have len: "length (concat (map snd c)) = length (chain_txs c)" unfolding chain_txs_eq by simp
  have lim: "length (chain_txs c) \<le> max_txnums" using wf by (simp add: ledger_wf_def)
  have "hist_ok (length (chain_txs c)) v" if "l_hist (chain_ledger c) sh = Some v" for v using wf that by (simp add: ledger_wf_def)
  then have "sorted (hist_nums c sh)" by (cases "l_hist (chain_ledger c) sh") (simp_all add: hist_of_def hist_ok_def)
  then have "n \<le> x" if "x \<in> set (hist_nums c sh)" for x using that Cons by auto
  then have least: "unat n \<le> i" if "pays_at c sh i" for i
  proof -
    have "i < length (chain_txs c)" using that len by (simp add: pays_at_def)
    then have "unat (of_nat i :: TxNum) = i" using lim by (intro of_nat_txnum) simp
    then show ?thesis using \<open>\<And>x. x \<in> set (hist_nums c sh) \<Longrightarrow> n \<le> x\<close>[OF history_has_payments[OF that]] by (simp add: word_le_nat_alt)
  qed
  have "unat n < length (chain_txs c)" using p len by (simp add: pays_at_def)
  moreover have "\<not> pays_at c sh i" if "i < unat n" for i using least[of i] that by auto
  ultimately have "List.find (pays_at c sh) [0..<length (chain_txs c)] = Some (unat n)" using p by (intro find_upt) simp_all
  then show ?thesis by (simp add: first_payment_def Cons)
qed

lemma head_use_first:
  assumes "chain_fits c" "\<forall>b \<in> set c. block_ordered (snd b)"
  shows "head_use c v sh = first_use c v sh"
  by (cases "hist_nums c sh") (simp_all add: head_use_def first_use_def first_payment_head[OF assms] Let_def)

end
