(* ===== verification/Index_State.thy ===== *)
theory Index_State
  imports Query_First_Use Mempool_Properties
begin

text \<open>
  \<open>Storage.cpp\<close>: the whole index, that is the database, the mempool and the caches together. Adding and undoing blocks with
  their effect on all of them, the mempool's updates and the notifications that go to the subscription managers.
\<close>

declare map_of_eq_Some_iff [simp del]

section \<open>State\<close>

text \<open>The sets handed to the subscription managers for script hashes, for double-spend proofs and for transactions.\<close>

record NotifyData =
  scriptHashesAffected :: "bytes list"
  dspTxsNotified :: "bytes list"
  txidsAffected :: "bytes list"

definition NotifyData_new :: NotifyData where
  "NotifyData_new = \<lparr> scriptHashesAffected = [], dspTxsNotified = [], txidsAffected = [] \<rparr>"

text \<open>\<open>Storage::Pvt\<close>.\<close>

record ('db, 'c, 'd) Index =
  p_store :: "'db Store"
  p_mempool :: Mempool
  recentBlockTxHashes :: "bytes list"
  lruNum2Hash :: 'c
  lruHeight2Hashes :: 'd

definition merge_set :: "'a list \<Rightarrow> 'a list \<Rightarrow> 'a list" where
  "merge_set xs ys = fold List.insert ys xs"

lemma set_merge_set [simp]: "set (merge_set xs ys) = set xs \<union> set ys"
  by (induction ys arbitrary: xs) (auto simp: merge_set_def)

section \<open>Adding a block\<close>

text \<open>The transactions of the block after the coinbase, with their numbers. \<open>emplace\<close> keeps the first entry.\<close>

definition block_txidMap :: "TxNum \<Rightarrow> PreProcessedBlock \<Rightarrow> (bytes \<times> TxNum) list" where
  "block_txidMap blockTxNum0 ppb =
     fold (\<lambda>i M. let h = txi_hash (txInfos ppb ! i) in if map_of M h = None then M @ [(h, blockTxNum0 + of_nat i)] else M)
       [1..<length (txInfos ppb)] []"

definition confirm_block :: "PreProcessedBlock \<Rightarrow> bool \<Rightarrow> ('db, 'c, 'd) Index \<Rightarrow> NotifyData \<times> ('db, 'c, 'd) Index" where
  "confirm_block ppb trackRecentBlockTxHashes S =
     (let txidMap = block_txidMap (txNumNext (p_store S)) ppb;
          recent = (if trackRecentBlockTxHashes then fold List.insert (map txi_hash (txInfos ppb)) [] else []);
          (m, affected, dspAffected) = confirmedInBlock [] txidMap (ppb_height ppb) (p_mempool S)
      in (\<lparr> scriptHashesAffected = affected, dspTxsNotified = dspAffected, txidsAffected = keys txidMap \<rparr>,
          S\<lparr>recentBlockTxHashes := recent, p_mempool := m\<rparr>))"

text \<open>The keys of \<open>hashXAggregated\<close> after the inputs have been resolved.\<close>

definition block_scripthashes :: "'db rocksdb \<Rightarrow> PreProcessedBlock \<Rightarrow> 'db Store \<Rightarrow> bytes list" where
  "block_scripthashes R ppb st =
     (case update_utxos R ppb (txNumNext st) None (st, WriteBatch_new) of (Inr (_, ags), _) \<Rightarrow> map fst ags | (Inl _, _) \<Rightarrow> [])"

definition index_addBlock ::
  "'db rocksdb \<Rightarrow> u32 \<Rightarrow> PreProcessedBlock \<Rightarrow> bool \<Rightarrow> bool \<Rightarrow> bool \<Rightarrow> (store_error, NotifyData option, ('db, 'c, 'd) Index) eff" where
  "index_addBlock R configuredUndoDepth ppb saveUndo notifySubs trackRecentBlockTxHashes S =
     (let S = S\<lparr>recentBlockTxHashes := []\<rparr>;
          shs = block_scripthashes R ppb (p_store S);
          (notify, S) = (if notifySubs then (case confirm_block ppb trackRecentBlockTxHashes S of (n, S) \<Rightarrow> (Some n, S)) else (None, S))
      in case addBlock R configuredUndoDepth ppb saveUndo (p_store S) of
           (Inl e, st) \<Rightarrow> (Inl e, S\<lparr>p_store := st\<rparr>)
         | (Inr _, st) \<Rightarrow>
             (Inr (map_option (\<lambda>n. n\<lparr>scriptHashesAffected := merge_set (scriptHashesAffected n) shs\<rparr>) notify), S\<lparr>p_store := st\<rparr>))"

section \<open>Undoing the latest block\<close>

definition mempool_notify :: "Mempool \<Rightarrow> NotifyData" where
  "mempool_notify m =
     \<lparr> scriptHashesAffected = keys (hashXTxs m), dspTxsNotified = (if dsps_empty (dsps m) then [] else keys (txDspsMap (dsps m))),
       txidsAffected = keys (txs m) \<rparr>"

text \<open>The undo record, once it has passed the checks.\<close>

definition checked_undo :: "'db rocksdb \<Rightarrow> 'db Store \<Rightarrow> UndoInfo option" where
  "checked_undo R st =
     (case undo_prevHeader R (s_hdr st) of
        Inl e \<Rightarrow> None
      | Inr (prevHeight, prevHeader) \<Rightarrow>
          (let (tip, header) = lastHeaderProcessed (headerVerifier (s_hdr st))
           in case GenericDBGet R (s_undo st) (height_key (of_int tip)) True (deser_object Deserialize_UndoInfo) of
                Inr (Some undo) \<Rightarrow>
                  (if undo_sane st tip prevHeight header undo then
                     (case undoLatestBlock_headers R (s_hdr st) of (Inl e, _) \<Rightarrow> None | (Inr _, _) \<Rightarrow> Some undo)
                   else None)
              | _ \<Rightarrow> None))"

definition index_undoLatestBlock ::
  "('c, TxNum, bytes) qcache \<Rightarrow> ('d, BlockHeight, bytes list) qcache \<Rightarrow> 'db rocksdb \<Rightarrow> bool \<Rightarrow> (store_error, nat \<times> NotifyData option, ('db, 'c, 'd) Index) eff" where
  "index_undoLatestBlock Q B R notifySubs S =
     (let notify = (if notifySubs then Some (mempool_notify (p_mempool S)) else None);
          st = p_store S;
          S = S\<lparr>p_mempool := mempool_clear (p_mempool S), recentBlockTxHashes := []\<rparr>
      in case checked_undo R st of
           None \<Rightarrow> (case undoLatestBlock R st of (Inl e, st') \<Rightarrow> (Inl e, S\<lparr>p_store := st'\<rparr>) | (Inr h, st') \<Rightarrow> (Inr (h, None), S\<lparr>p_store := st'\<rparr>))
         | Some undo \<Rightarrow>
             (let S = S\<lparr>lruNum2Hash := cc_clear Q (lruNum2Hash S), lruHeight2Hashes := snd (cc_remove B (u_height undo) (lruHeight2Hashes S))\<rparr>;
                  txHashes = fst (readRecords R (s_txnums st) (txNumsDRA st) (unat (txNum0 (u_blkInfo undo))) (unat (nTx (u_blkInfo undo))))
              in case undoLatestBlock R st of
                   (Inl e, st') \<Rightarrow> (Inl e, S\<lparr>p_store := st'\<rparr>)
                 | (Inr h, st') \<Rightarrow>
                     (Inr (h, map_option (\<lambda>n. n\<lparr>txidsAffected := merge_set (txidsAffected n) txHashes,
                                                scriptHashesAffected := merge_set (scriptHashesAffected n) (u_scriptHashes undo)\<rparr>) notify),
                      S\<lparr>p_store := st'\<rparr>)))"

definition isMaybeRecentlySeenTx :: "bytes \<Rightarrow> ('db, 'c, 'd) Index \<Rightarrow> bool" where
  "isMaybeRecentlySeenTx txhash S \<longleftrightarrow> map_of (txs (p_mempool S)) txhash \<noteq> None \<or> txhash \<in> set (recentBlockTxHashes S)"

end
