(* ===== verification/Index_Confirm.thy ===== *)
theory Index_Confirm
  imports Index_State
begin

text \<open>
  A block meets the mempool: what the block confirms is what the mempool has to move, and what the mempool still spends can
  be found in the database afterwards.
\<close>

declare map_of_eq_Some_iff [simp del]

section \<open>The inputs of a block\<close>

lemma in_txo_prev: "in_txo ts j = prev_txo (snd (all_ins 0 ts ! j))"
  by (simp add: in_txo_def prev_txo_def Let_def)

lemma block_input:
  assumes "t < length ts" "i \<in> set (vin (ts ! t))"
  obtains j where "j < nins ts" "all_ins 0 ts ! j = (t, i)" "t > 0 \<Longrightarrow> vin (hd ts) \<noteq> [] \<Longrightarrow> j \<noteq> 0"
proof -
  obtain j where j: "j < nins ts" "all_ins 0 ts ! j = (t, i)" using assms all_ins_iff[of t i 0 ts] by (auto simp: in_set_conv_nth)
  have "fst (all_ins 0 ts ! 0) = 0" if "vin (hd ts) \<noteq> []" using that assms(1) by (cases ts; cases "vin (hd ts)") simp_all
  then have "j \<noteq> 0" if "t > 0" "vin (hd ts) \<noteq> []" using that j(2) by (metis fst_conv less_numeral_extra(3))
  then show ?thesis using that j by blast
qed

lemma in_txo_input: "j < nins ts \<Longrightarrow> \<exists>tx \<in> set ts. in_txo ts j \<in> prev_txo ` set (vin tx)"
proof -
  assume "j < nins ts"
  moreover obtain t i where ti: "all_ins 0 ts ! j = (t, i)" by (cases "all_ins 0 ts ! j")
  ultimately have "t < length ts" "i \<in> set (vin (ts ! t))" using nth_mem[of j "all_ins 0 ts"] all_ins_iff[of t i 0 ts] by simp_all
  then show ?thesis unfolding in_txo_prev ti by (auto intro!: bexI[of _ "ts ! t"])
qed

lemma in_parent_txo:
  assumes "block_wf ts" "j < nins ts" "in_parent ts j = Some i"
  shows "in_txo ts j = out_txo ts i" "i < nouts ts"
proof -
  obtain t where t: "parent_tx ts (snd (all_ins 0 ts ! j)) = Some t" "i < nouts ts"
      "all_outs 0 ts ! i = (t, op_n (prevout (snd (all_ins 0 ts ! j))), vout (ts ! t) ! unat (op_n (prevout (snd (all_ins 0 ts ! j)))))"
    using in_parent_ok[OF assms] by blast
  have "txid (ts ! t) = Hash2ByteArrayRev (op_txid (prevout (snd (all_ins 0 ts ! j))))"
    using t(1) assms(1) parent_tx_iff[of ts] by (simp add: block_wf_def)
  then show "in_txo ts j = out_txo ts i" using t(3) by (simp add: in_txo_def out_txo_def Let_def)
  show "i < nouts ts" by (rule t(2))
qed

section \<open>The block and the mempool\<close>

text \<open>What is known of a block and the transactions of the mempool: the coinbase is new, a transaction with the same id is the
  same transaction, and transactions that conflict with the block have left the mempool.\<close>

definition block_meets :: "(bytes \<rightharpoonup> CTransaction) \<Rightarrow> CTransaction list \<Rightarrow> bool" where
  "block_meets T ts \<longleftrightarrow> ts \<noteq> [] \<and> vin (hd ts) \<noteq> [] \<and> T (txid (hd ts)) = None \<and>
     (\<forall>tx \<in> set (tl ts). \<forall>x. T (txid tx) = Some x \<longrightarrow> prev_txo ` set (vin x) = prev_txo ` set (vin tx) \<and> vout x = vout tx) \<and>
     (\<forall>h txo. (h, txo) \<in> spends T \<longrightarrow> h \<notin> txid ` set ts \<longrightarrow> (\<forall>tx \<in> set ts. txo \<notin> prev_txo ` set (vin tx)))"

definition new_nums_of :: "TxNum \<Rightarrow> CTransaction list \<Rightarrow> (bytes \<times> TxNum) list" where
  "new_nums_of n0 ts = map (\<lambda>i. (txid (ts ! i), n0 + of_nat i)) [1..<length ts]"

lemma keys_new_nums: "keys (new_nums_of n0 ts) = map txid (tl ts)"
proof -
  have "keys (new_nums_of n0 ts) = map (\<lambda>i. txid (ts ! i)) [1..<length ts]" by (simp add: new_nums_of_def comp_def)
  also have "\<dots> = map txid (map ((!) ts) [1..<length ts])" by simp
  also have "map ((!) ts) [1..<length ts] = tl ts" by (simp add: list_eq_iff_nth_eq nth_tl)
  finally show ?thesis .
qed

lemma new_nums_at:
  assumes "distinct (map txid ts)" "map_of (new_nums_of n0 ts) h = Some n"
  obtains t where "0 < t" "t < length ts" "txid (ts ! t) = h" "n = n0 + of_nat t"
proof -
  obtain t where "t \<in> {1..<length ts}" "(h, n) = (txid (ts ! t), n0 + of_nat t)"
    using map_of_SomeD[OF assms(2)] by (auto simp: new_nums_of_def)
  then show ?thesis by (intro that[of t]) auto
qed

lemma block_txidMap_ok:
  assumes "distinct (map txid ts)" "txInfos p = map (info_of ts) [0..<length ts]"
  shows "block_txidMap n0 p = new_nums_of n0 ts"
proof -
  have len: "length (txInfos p) = length ts" using assms(2) by simp
  have "fold (\<lambda>i M. let h = txi_hash (txInfos p ! i) in if map_of M h = None then M @ [(h, n0 + of_nat i)] else M) [1..<k] [] =
      map (\<lambda>i. (txid (ts ! i), n0 + of_nat i)) [1..<k]" if "k \<le> length ts" for k
    using that
  proof (induction k)
    case (Suc k)
    show ?case
    proof (cases "k = 0")
      case False
      have h: "txi_hash (txInfos p ! k) = txid (ts ! k)" using assms(2) Suc.prems by (simp add: info_of_def)
      have "txid (ts ! k) \<noteq> txid (ts ! i)" if "i < k" for i
        using that Suc.prems nth_eq_iff_index_eq[OF assms(1), of k i] by simp
      then have "map_of (map (\<lambda>i. (txid (ts ! i), n0 + of_nat i)) [1..<k]) (txid (ts ! k)) = None"
        unfolding map_of_eq_None_iff by (simp add: image_iff)
      then show ?thesis using Suc False h by (simp add: Let_def)
    qed simp
  qed simp
  from this[of "length ts"] show ?thesis by (simp add: block_txidMap_def new_nums_of_def len)
qed

section \<open>What the mempool spends after the block\<close>

lemma utxo_after_kept:
  assumes "block_wf ts" "\<forall>tx \<in> set ts. txo \<notin> prev_txo ` set (vin tx)"
  shows "utxo_after h n0 ts U txo = (U ++ created h n0 ts) txo"
proof -
  have "txo \<notin> in_txo ts ` set (outside_ins ts)" using assms(2) in_txo_input[of _ ts] by (fastforce simp: outside_ins_def)
  then show ?thesis by (simp add: utxo_after_def)
qed

lemma created_unspent:
  assumes "block_wf ts" "t < length ts" "unat n < length (vout (ts ! t))" "\<not> IsOpReturn (scriptPubKey (vout (ts ! t) ! unat n))"
    and "\<forall>tx \<in> set ts. TXO (txid (ts ! t)) n \<notin> prev_txo ` set (vin tx)"
  shows "created h n0 ts (TXO (txid (ts ! t)) n) = Some (confirm_info h (n0 + of_nat t) (out_entry (vout (ts ! t) ! unat n)))"
proof -
  let ?i = "out_pos ts t (unat n)"
  have i: "?i < nouts ts" "all_outs 0 ts ! ?i = (t, n, vout (ts ! t) ! unat n)" using out_pos_nth[OF assms(2,3)] by simp_all
  have txo: "out_txo ts ?i = TXO (txid (ts ! t)) n" using i(2) by (simp add: out_txo_def)
  have "\<not> spent_inside ts ?i"
  proof
    assume "spent_inside ts ?i"
    then obtain j where j: "j < nins ts" "in_parent ts j = Some ?i" by (auto simp: spent_inside_def)
    then have "in_txo ts j = TXO (txid (ts ! t)) n" using in_parent_txo(1)[OF assms(1) j] txo by simp
    then show False using in_txo_input[OF j(1)] assms(5) by simp
  qed
  then have "?i \<in> kept_outs ts" using i assms(4) by (simp add: kept_outs_def out_script_def)
  moreover have "out_info h n0 ts ?i = confirm_info h (n0 + of_nat t) (out_entry (vout (ts ! t) ! unat n))"
    using i(2) assms(4) by (simp add: out_info_def confirm_info_def out_entry_def)
  ultimately show ?thesis using created_iff[OF assms(1)] txo by metis
qed

lemma created_other: "block_wf ts \<Longrightarrow> txHash txo \<notin> txid ` set ts \<Longrightarrow> created h n0 ts txo = None"
proof (rule ccontr)
  assume a: "block_wf ts" "txHash txo \<notin> txid ` set ts" "created h n0 ts txo \<noteq> None"
  then obtain i where "i \<in> kept_outs ts" "txo = out_txo ts i" using created_iff by (metis option.exhaust)
  then show False using a(2) out_txo_hash[of i ts] by (simp add: kept_outs_def)
qed

text \<open>The disjointness of the mempool from the chain.\<close>

lemma chain_entry_hash:
  assumes "ledger_wf l" "l_utxo l txo = Some info"
  shows "txHash txo \<in> set (l_txs l)"
proof -
  have "utxo_entry (l_txs l) txo info" using assms by (simp add: ledger_wf_def)
  then show ?thesis by (auto simp: utxo_entry_def dest: nth_mem)
qed

context storage_laws
begin

lemma block_confirms_ok:
  assumes "store_repr contents st c" "store_repr contents st' (c @ [(raw, ts)])" "mempool_on R st T m"
    and "block_meets T ts" "dom T \<inter> set (chain_txs c) = {}" "block_fits (chain_ledger c) ts"
  defines "M \<equiv> map_of (new_nums_of (of_nat (length (chain_txs c))) ts)"
  shows "block_confirms (db_getter R st) T M (of_nat (length c)) (db_getter R st')"
proof -
  let ?l = "chain_ledger c" and ?n0 = "of_nat (length (chain_txs c)) :: TxNum" and ?h = "of_nat (length c) :: BlockHeight"
  let ?g = "db_getter R st" and ?g' = "db_getter R st'"
  have wf: "ledger_wf ?l" by (rule chain_fits_wf) (use assms(1) in \<open>simp add: store_repr_def Let_def\<close>)
  have bw: "block_wf ts" and d: "distinct (map txid ts)" using assms(6) by (simp_all add: block_fits_def block_wf_def)
  have domM: "dom M = txid ` set (tl ts)" unfolding M_def dom_map_of_conv_image_fst using keys_new_nums[of ?n0 ts] by (metis list.set_map)
  have new: "h \<notin> set (chain_txs c)" if "h \<in> txid ` set ts" for h using that assms(6) by (auto simp: block_fits_def)
  have ins: "txo_isValid txo \<and> unat (outN txo) < 2 ^ 24" if "(h, txo) \<in> spends T" for h txo using assms(3) that by (auto simp: mempool_on_def)
  have g: "?g txo = Inr (l_utxo ?l txo)" if "(h, txo) \<in> spends T" for h txo using ins[OF that] by (intro db_getter_ok[OF assms(1)]) simp_all
  have l': "l_utxo (chain_ledger (c @ [(raw, ts)])) = utxo_after ?h ?n0 ts (l_utxo ?l)"
    unfolding ledger_of_snoc by (simp add: apply_block_def Let_def length_l_blks)
  have g': "?g' txo = Inr (utxo_after ?h ?n0 ts (l_utxo ?l) txo)" if "(h, txo) \<in> spends T" for h txo
    using db_getter_ok[OF assms(2), of txo] ins[OF that] unfolding l' by simp
  have entry: "in_entry ?g T txo \<noteq> None" if "(h, txo) \<in> spends T" for h txo
    using assms(3) that by (auto simp: mempool_on_def mempool_inv_def mempool_ok_def spends_def)
  have cb: "T (txid (hd ts)) = None" "ts \<noteq> []" using assms(4) by (simp_all add: block_meets_def)
  have split: "set ts = insert (hd ts) (set (tl ts))" using cb(2) by (cases ts) simp_all
  have 1: "txHash txo \<in> dom M" if sp: "(h, txo) \<in> spends T" "h \<in> dom M" "txHash txo \<in> dom T" for h txo
  proof -
    obtain n where "M h = Some n" using sp(2) by blast
    then obtain t where t: "0 < t" "t < length ts" "txid (ts ! t) = h" unfolding M_def using new_nums_at[OF d] by blast
    have "ts ! t \<in> set (tl ts)" using t(1,2) by (auto simp: in_set_conv_nth nth_tl intro!: exI[of _ "t - 1"])
    moreover obtain x where x: "T h = Some x" "txo \<in> prev_txo ` set (vin x)" using sp(1) by (auto simp: spends_def)
    ultimately have "txo \<in> prev_txo ` set (vin (ts ! t))" using assms(4) t(3) unfolding block_meets_def by blast
    then obtain i where i: "i \<in> set (vin (ts ! t))" "txo = prev_txo i" by blast
    obtain j where j: "j < nins ts" "all_ins 0 ts ! j = (t, i)" "j \<noteq> 0"
      using block_input[OF t(2) i(1)] t(1) assms(4) unfolding block_meets_def by metis
    have txo: "txo = in_txo ts j" using i(2) j(2) by (simp add: in_txo_prev)
    show ?thesis
    proof (cases "in_parent ts j")
      case None
      then have "j \<in> set (outside_ins ts)" using j by (simp add: outside_ins_def)
      then have "l_utxo ?l txo \<noteq> None" using assms(6) txo by (simp add: block_fits_def)
      then have "txHash txo \<in> set (chain_txs c)" using chain_entry_hash[OF wf] by blast
      then show ?thesis using sp(3) assms(5) by blast
    next
      case (Some k)
      then have "txHash txo \<in> txid ` set ts" using in_parent_txo[OF bw j(1) Some] out_txo_hash[of k ts] txo by simp
      then show ?thesis using sp(3) cb(1) unfolding domM split by auto
    qed
  qed
  have 2: "case T (txHash txo) of None \<Rightarrow> ?g' txo = ?g txo | Some x \<Rightarrow> (case M (txHash txo) of None \<Rightarrow> True
      | Some n \<Rightarrow> ?g' txo = Inr (Some (confirm_info ?h n (out_entry (vout x ! unat (outN txo))))))"
    if sp: "(h, txo) \<in> spends T" "h \<notin> dom M" for h txo
  proof -
    have "h \<notin> txid ` set ts" using sp cb(1) unfolding domM split by (auto simp: spends_def)
    then have free: "\<forall>tx \<in> set ts. txo \<notin> prev_txo ` set (vin tx)" using assms(4) sp(1) unfolding block_meets_def by blast
    note after = g'[OF sp(1), unfolded utxo_after_kept[OF bw free]]
    show ?thesis
    proof (cases "T (txHash txo)")
      case None
      then obtain info where info: "l_utxo ?l txo = Some info" using entry[OF sp(1)] g[OF sp(1)]
        by (cases "l_utxo ?l txo") (simp_all add: in_entry_def)
      then have "txHash txo \<notin> txid ` set ts" using new chain_entry_hash[OF wf info] by blast
      then show ?thesis using None after g[OF sp(1)] created_other[OF bw] by (simp add: map_add_def)
    next
      case (Some x)
      show ?thesis
      proof (cases "M (txHash txo)")
        case None
        then show ?thesis using Some by simp
      next
        case (Some n)
        obtain t where t: "0 < t" "t < length ts" "txid (ts ! t) = txHash txo" "n = ?n0 + of_nat t"
          using new_nums_at[OF d Some[unfolded M_def]] by blast
        have "ts ! t \<in> set (tl ts)" using t(1,2) by (auto simp: in_set_conv_nth nth_tl intro!: exI[of _ "t - 1"])
        then have vo: "vout x = vout (ts ! t)" using assms(4) t(3) \<open>T (txHash txo) = Some x\<close> unfolding block_meets_def by metis
        have e: "unat (outN txo) < length (vout x)" "txoinfo_isValid (out_entry (vout x ! unat (outN txo)))"
          using entry[OF sp(1)] \<open>T (txHash txo) = Some x\<close> by (auto simp: in_entry_def split: if_splits)
        then have "\<not> IsOpReturn (scriptPubKey (vout x ! unat (outN txo)))"
          by (auto simp: out_entry_def txoinfo_isValid_def TXOInfo_default_def)
        then have "created ?h ?n0 ts (TXO (txid (ts ! t)) (outN txo)) = Some (confirm_info ?h (?n0 + of_nat t) (out_entry (vout (ts ! t) ! unat (outN txo))))"
          using e(1) free t(3) unfolding vo by (intro created_unspent[OF bw t(2)]) simp_all
        then show ?thesis using \<open>T (txHash txo) = Some x\<close> Some after t(3,4) vo by (simp add: map_add_def)
      qed
    qed
  qed
  show ?thesis unfolding block_confirms_def using 1 2 by blast
qed

end

end
