(* ===== verification/Index_Blocks.thy ===== *)
theory Index_Blocks
  imports Index_Confirm
begin

text \<open>
  Adding and undoing blocks on the whole index: the database represents the new chain, the mempool what is left of it, the caches
  stay right, and every script hash whose history changes is reported to the subscribers.
\<close>

declare map_of_eq_Some_iff [simp del]

section \<open>What the index represents\<close>

definition index_repr ::
  "'db rocksdb \<Rightarrow> ('db \<Rightarrow> (bytes \<rightharpoonup> bytes)) \<Rightarrow> ('c \<Rightarrow> (TxNum \<rightharpoonup> bytes)) \<Rightarrow> ('d \<Rightarrow> (BlockHeight \<rightharpoonup> bytes list)) \<Rightarrow>
   ('db, 'c, 'd) Index \<Rightarrow> chain \<Rightarrow> (bytes \<rightharpoonup> CTransaction) \<Rightarrow> bool" where
  "index_repr R contents cached blks_cached S c T \<longleftrightarrow>
     store_repr contents (p_store S) c \<and> mempool_on R (p_store S) T (p_mempool S) \<and> dom T \<inter> set (chain_txs c) = {} \<and>
     cached (lruNum2Hash S) \<subseteq>\<^sub>m num_hash c \<and> blks_cached (lruHeight2Hashes S) \<subseteq>\<^sub>m block_hashes c"

text \<open>The history a client sees.\<close>

definition status_items :: "chain \<Rightarrow> getter \<Rightarrow> (bytes \<rightharpoonup> CTransaction) \<Rightarrow> bytes \<Rightarrow> HistoryItem list" where
  "status_items c g T sh = confirmed_items c 0 None sh @ unconfirmed_items (view_of g T) sh"

section \<open>The confirmed part of a history\<close>

lemma chain_txs_snoc: "chain_txs (c @ [b]) = chain_txs c @ map txid (snd b)"
  unfolding ledger_of_snoc by (simp add: apply_block_def Let_def)

lemma block_start_snoc: "i \<le> length c \<Longrightarrow> block_start (c @ [b]) i = block_start c i"
  by (simp add: block_start_def)

lemma tx_height_snoc:
  assumes "n < length (chain_txs c)"
  shows "tx_height (c @ [b]) n = tx_height c n"
proof -
  note t = tx_height_bounds[OF assms]
  have "block_start (c @ [b]) (tx_height c n) \<le> n" "n < block_start (c @ [b]) (Suc (tx_height c n))"
    using t by (simp_all add: block_start_snoc Suc_leI)
  then show ?thesis using t(1) by (intro tx_height_unique) simp_all
qed

lemma num_hash_snoc: "num_hash c \<subseteq>\<^sub>m num_hash (c @ [b])"
  unfolding map_le_def num_hash_def chain_txs_snoc by (auto simp: nth_append split: if_splits)

lemma block_hashes_snoc: "block_hashes c \<subseteq>\<^sub>m block_hashes (c @ [b])"
  by (auto simp: map_le_def block_hashes_def nth_append split: if_splits)

lemma block_hashes_undo:
  assumes "length c \<le> max_height"
  shows "block_hashes c = (block_hashes (c @ [b]))(of_nat (length c) := None)"
proof (rule ext)
  fix h :: BlockHeight
  have w: "unat (of_nat (length c) :: BlockHeight) = length c" using assms by (rule of_nat_height)
  show "block_hashes c h = ((block_hashes (c @ [b]))(of_nat (length c) := None)) h"
  proof (cases "h = of_nat (length c)")
    case True
    then show ?thesis using w by (simp add: block_hashes_def)
  next
    case False
    then have "unat h \<noteq> length c" using w by (metis word_unat_eq_iff)
    then show ?thesis using False by (auto simp: block_hashes_def nth_append)
  qed
qed

lemma confirmed_items_snoc:
  assumes "ledger_wf (chain_ledger c)" "touching (snd b) (l_utxo (chain_ledger c)) sh = {}"
  shows "confirmed_items (c @ [b]) f t sh = confirmed_items c f t sh"
proof -
  have h: "hist_nums (c @ [b]) sh = hist_nums c sh"
    unfolding ledger_of_snoc using assms(2) by (simp add: apply_block_def Let_def hist_after_def hist_of_def)
  have lt: "unat n < length (chain_txs c)" if "n \<in> set (hist_nums c sh)" for n
    using that assms(1) by (cases "l_hist (chain_ledger c) sh") (simp_all add: hist_of_def ledger_wf_def hist_ok_def)
  have item: "confirmed_item (c @ [b]) n = confirmed_item c n" "tx_height (c @ [b]) (unat n) = tx_height c (unat n)" if "n \<in> set (hist_nums c sh)" for n
    using lt[OF that] tx_height_snoc[of "unat n" c b] unfolding confirmed_item_def chain_txs_snoc by (simp_all add: nth_append)
  have "filter (\<lambda>n. in_range f t (tx_height (c @ [b]) (unat n))) (hist_nums c sh) = filter (\<lambda>n. in_range f t (tx_height c (unat n))) (hist_nums c sh)"
    by (rule filter_cong) (simp_all add: item(2))
  then show ?thesis unfolding confirmed_items_def h using item(1) by simp
qed

section \<open>The unconfirmed part\<close>

lemma unconfirmed_items_cong:
  assumes "mp_touching v' sh = mp_touching v sh" "finite (mp_touching v sh)"
    and "\<And>h. h \<in> mp_touching v sh \<Longrightarrow> has_parents v' h = has_parents v h \<and> v_F v' h = v_F v h"
  shows "unconfirmed_items v' sh = unconfirmed_items v sh"
proof -
  have s: "set (mempool_order v sh) = mp_touching v sh" "set (mempool_order v' sh) = mp_touching v sh"
    using mempool_order_ok(2)[of v sh] mempool_order_ok(2)[of v' sh] assms(1,2) by simp_all
  have "map (\<lambda>h. (has_parents v' h, h)) (mempool_order v' sh) = map (\<lambda>h. (has_parents v h, h)) (mempool_order v' sh)"
    using assms(3) s(2) by simp
  then have "ordered (has_parents v) (mempool_order v' sh)"
    using mempool_order_ok(1)[of v' sh] assms(1,2) unfolding ordered_def by (metis (no_types, lifting))
  then have e: "mempool_order v' sh = mempool_order v sh"
    using mempool_order_ok(1)[of v sh] assms(2) s by (intro ordered_unique) simp_all
  show ?thesis unfolding unconfirmed_items_def e using assms(3) s(1) by (simp add: unconfirmed_item_def)
qed

lemma unconfirmed_items_confirm:
  assumes "block_confirms g T M ht g'" "mempool_ok g T"
  defines "v \<equiv> view_of g T" and "v' \<equiv> view_of g' (T |` (- dom M))"
  assumes "sh \<notin> touched_by v (dom M \<union> {h. has_parents v h \<and> \<not> has_parents v' h})"
  shows "unconfirmed_items v' sh = unconfirmed_items v sh"
proof (rule unconfirmed_items_cong)
  note r = view_confirmed[OF assms(1,2), folded v_def v'_def]
  have O: "v_O v = T" by (simp add: v_def view_def)
  have far: "h \<notin> dom M \<union> {h. has_parents v h \<and> \<not> has_parents v' h}" if t: "h \<in> mp_touching v sh" for h
  proof
    assume "h \<in> dom M \<union> {h. has_parents v h \<and> \<not> has_parents v' h}"
    moreover obtain c where "v_O v h = Some c" "sh \<in> touched c (v_E v h)" using t by (auto simp: mp_touching_def)
    ultimately have "sh \<in> touched_by v (dom M \<union> {h. has_parents v h \<and> \<not> has_parents v' h})" unfolding touched_by_def by (intro UN_I) auto
    then show False using assms(5) by contradiction
  qed
  then have out: "h \<notin> dom M" if "h \<in> mp_touching v sh" for h using that by blast
  show "mp_touching v' sh = mp_touching v sh"
  proof -
    have "h \<in> mp_touching v' sh \<longleftrightarrow> h \<notin> dom M \<and> h \<in> mp_touching v sh" for h
      using r(1) r(2)[of h] by (cases "M h") (simp_all add: mp_touching_def O restrict_map_def domIff)
    then show ?thesis using out by blast
  qed
  show "finite (mp_touching v sh)" by (rule finite_subset[of _ "dom T"]) (use assms(2) in \<open>auto simp: mp_touching_def O mempool_ok_def\<close>)
  show "has_parents v' h = has_parents v h \<and> v_F v' h = v_F v h" if h: "h \<in> mp_touching v sh" for h
  proof
    have "has_parents v' h \<Longrightarrow> has_parents v h" by (auto simp: has_parents_def r(4))
    moreover have "has_parents v h \<Longrightarrow> has_parents v' h" using far[OF h] by blast
    ultimately show "has_parents v' h = has_parents v h" by blast
    show "v_F v' h = v_F v h" by (rule r(3)[OF out[OF h]])
  qed
qed

section \<open>Adding a block\<close>

lemma mempool_on_shrink:
  assumes "mempool_on R st T m" "T' \<subseteq>\<^sub>m T" "mempool_inv (db_getter R st') T' m'"
  shows "mempool_on R st' T' m'"
proof -
  have T: "T h = Some c" if "T' h = Some c" for h c using assms(2) that by (metis domI map_le_def)
  then have "values_ok T'" using mempool_on_inv(2)[OF assms(1)] unfolding values_ok_def by blast
  moreover have "txo_isValid txo \<and> unat (outN txo) < 2 ^ 24" if "(h, txo) \<in> spends T'" for h txo
  proof -
    have "(h, txo) \<in> spends T" using that T by (auto simp: spends_def)
    then show ?thesis using assms(1) unfolding mempool_on_def by blast
  qed
  ultimately show ?thesis using assms(3) unfolding mempool_on_def by blast
qed

context storage_laws
begin

lemma block_scripthashes_ok:
  assumes "store_repr contents st c" "block_accepted st c p ts saveUndo"
  shows "set (block_scripthashes R p st) = {h. touching ts (l_utxo (chain_ledger c)) h \<noteq> {}}"
proof -
  have wf: "ledger_wf (chain_ledger c)" and u: "utxo_repr (chain_txs c) (contents (s_utxoset st)) (contents (s_shunspent st)) (utxoCt st) (l_utxo (chain_ledger c))"
    and n: "txNumNext st = of_nat (length (chain_txs c))" using assms(1) by (auto simp: store_repr_def Let_def intro: chain_fits_wf)
  have a: "block_fits (chain_ledger c) ts" "summarises ts p" "ppb_height p = of_nat (length (l_blks (chain_ledger c)))"
    using assms(2) by (simp_all add: block_accepted_def length_l_blks)
  have "wb_utxoset WriteBatch_new = []" "wb_shunspent WriteBatch_new = []" by (simp_all add: WriteBatch_new_def)
  from update_utxos_ok[OF wf a(1,2,3) n u this, of None] obtain u' ags s' where
    "update_utxos R p (txNumNext st) None (st, WriteBatch_new) = (Inr (u', ags), s')" "final_ags ts (l_utxo (chain_ledger c)) ags" by blast
  then show ?thesis by (simp add: block_scripthashes_def final_ags_def)
qed

lemma index_addBlock_ok:
  assumes idx: "index_repr R contents cached blks_cached S c T" and acc: "block_accepted (p_store S) c p ts saveUndo"
    and depth: "0 < sint depth" and meets: "block_meets T ts"
  defines "c' \<equiv> c @ [(Serialize_CBlockHeader (ppb_header p), ts)]" and "T' \<equiv> T |` (- txid ` set ts)"
  shows "\<exists>n S'. index_addBlock R depth p saveUndo True track S = (Inr (Some n), S') \<and> index_repr R contents cached blks_cached S' c' T' \<and>
    (\<forall>sh. status_items c (db_getter R (p_store S)) T sh \<noteq> status_items c' (db_getter R (p_store S')) T' sh \<longrightarrow> sh \<in> set (scriptHashesAffected n)) \<and>
    set (txidsAffected n) = txid ` set (tl ts) \<and> set (recentBlockTxHashes S') = (if track then txid ` set ts else {})"
proof -
  let ?st = "p_store S" and ?l = "chain_ledger c"
  have repr: "store_repr contents ?st c" and on: "mempool_on R ?st T (p_mempool S)" and disj: "dom T \<inter> set (chain_txs c) = {}"
    and co: "cached (lruNum2Hash S) \<subseteq>\<^sub>m num_hash c" "blks_cached (lruHeight2Hashes S) \<subseteq>\<^sub>m block_hashes c"
    using idx by (simp_all add: index_repr_def)
  have fits: "block_fits ?l ts" and sum: "summarises ts p" and h: "ppb_height p = of_nat (length c)" using acc by (simp_all add: block_accepted_def)
  have d: "distinct (map txid ts)" using fits by (simp add: block_fits_def block_wf_def)
  have n0: "txNumNext ?st = of_nat (length (chain_txs c))" using repr by (simp add: store_repr_def Let_def)
  have infos: "txInfos p = map (info_of ts) [0..<length ts]" using sum by (simp add: summarises_def)
  let ?tm = "new_nums_of (of_nat (length (chain_txs c))) ts"
  have tm: "block_txidMap (txNumNext ?st) p = ?tm" unfolding n0 by (rule block_txidMap_ok[OF d infos])
  obtain st' where st': "addBlock R depth p saveUndo ?st = (Inr (), st')" "store_repr contents st' c'"
    using addBlock_ok[OF repr acc depth] unfolding c'_def by blast
  obtain m' A' D where m': "confirmedInBlock [] ?tm (of_nat (length c)) (p_mempool S) = (m', A', D)" by (metis surj_pair)
  have K: "set (keys ?tm) = txid ` set (tl ts)" unfolding keys_new_nums by simp
  have keysd: "distinct (keys ?tm)" unfolding keys_new_nums using d by (cases ts) simp_all
  have cb: "ts \<noteq> []" "T (txid (hd ts)) = None" using meets by (simp_all add: block_meets_def)
  have "T |` (- set (keys ?tm)) = T'"
    unfolding K T'_def using cb by (cases ts) (auto simp: restrict_map_def fun_eq_iff)
  moreover have domM: "dom (map_of ?tm) = set (keys ?tm)" by (simp add: dom_map_of_conv_image_fst)
  ultimately have T': "T |` (- set (keys ?tm)) = T'" "T |` (- dom (map_of ?tm)) = T'" by simp_all
  have conf: "block_confirms (db_getter R ?st) T (map_of ?tm) (of_nat (length c)) (db_getter R st')"
    by (rule block_confirms_ok[OF repr st'(2)[unfolded c'_def] on meets disj fits])
  note inv = mempool_on_inv(1)[OF on]
  have ok: "mempool_ok (db_getter R ?st) T" using inv by (simp add: mempool_inv_def)
  let ?v = "view_of (db_getter R ?st) T" and ?v' = "view_of (db_getter R st') T'"
  have conf': "mempool_inv (db_getter R st') T' m'" "set A' = touched_by ?v (set (keys ?tm) \<union> {h. has_parents ?v h \<and> \<not> has_parents ?v' h})"
    using confirmedInBlock_ok[OF inv conf keysd m'] unfolding T' by simp_all
  let ?shs = "block_scripthashes R p ?st"
  note shs = block_scripthashes_ok[OF repr acc]
  define recent where "recent = (if track then fold List.insert (map txi_hash (txInfos p)) [] else [])"
  define n where "n = \<lparr> scriptHashesAffected = merge_set A' ?shs, dspTxsNotified = D, txidsAffected = keys ?tm \<rparr>"
  define S' where "S' = S\<lparr>recentBlockTxHashes := recent, p_mempool := m', p_store := st'\<rparr>"
  have run: "index_addBlock R depth p saveUndo True track S = (Inr (Some n), S')"
    by (simp add: index_addBlock_def confirm_block_def tm h m' st'(1) Let_def n_def S'_def recent_def)
  have "map txi_hash (txInfos p) = map txid (map ((!) ts) [0..<length ts])" unfolding infos by (simp add: info_of_def)
  then have "map txi_hash (txInfos p) = map txid ts" unfolding map_nth .
  then have rec: "set recent = (if track then txid ` set ts else {})"
    using set_merge_set[of "[]" "map txid ts"] by (simp add: recent_def merge_set_def)
  have "T' \<subseteq>\<^sub>m T" by (auto simp: T'_def map_le_def restrict_map_def)
  then have "mempool_on R st' T' m'" by (rule mempool_on_shrink[OF on _ conf'(1)])
  moreover have "dom T' \<inter> set (chain_txs c') = {}" unfolding c'_def chain_txs_snoc using disj by (auto simp: T'_def)
  ultimately have r': "index_repr R contents cached blks_cached S' c' T'"
    using st'(2) map_le_trans[OF co(1) num_hash_snoc] map_le_trans[OF co(2) block_hashes_snoc] by (simp add: index_repr_def S'_def c'_def)
  have wf: "ledger_wf ?l" using repr by (auto simp: store_repr_def Let_def intro: chain_fits_wf)
  have same: "status_items c (db_getter R ?st) T sh = status_items c' (db_getter R st') T' sh" if "sh \<notin> set (merge_set A' ?shs)" for sh
  proof -
    have "touching ts (l_utxo ?l) sh = {}" using that shs by auto
    then have "confirmed_items c' 0 None sh = confirmed_items c 0 None sh" unfolding c'_def by (intro confirmed_items_snoc[OF wf]) simp
    moreover have "sh \<notin> touched_by ?v (dom (map_of ?tm) \<union> {h. has_parents ?v h \<and> \<not> has_parents (view_of (db_getter R st') (T |` (- dom (map_of ?tm)))) h})"
      using that conf'(2) unfolding domM T' by simp
    then have "unconfirmed_items ?v' sh = unconfirmed_items ?v sh" using unconfirmed_items_confirm[OF conf ok] unfolding T' by blast
    ultimately show ?thesis by (simp add: status_items_def)
  qed
  show ?thesis using run r' same rec K by (intro exI[of _ n] exI[of _ S']) (auto simp: n_def S'_def)
qed

end

section \<open>Adding a block without subscribers\<close>

text \<open>During the initial download there is no mempool yet, and no notifications are collected.\<close>

lemma mempool_inv_none: "mempool_inv g Map.empty m \<Longrightarrow> mempool_inv g' Map.empty m"
proof -
  have "view_of g Map.empty = view_of g' Map.empty" by (simp add: view_def spends_def fun_eq_iff)
  then show "mempool_inv g Map.empty m \<Longrightarrow> mempool_inv g' Map.empty m" by (simp add: mempool_inv_def mempool_repr_def mempool_ok_def)
qed

context storage_laws
begin

lemma index_addBlock_quiet:
  assumes idx: "index_repr R contents cached blks_cached S c Map.empty" and acc: "block_accepted (p_store S) c p ts saveUndo" and depth: "0 < sint depth"
  defines "c' \<equiv> c @ [(Serialize_CBlockHeader (ppb_header p), ts)]"
  shows "\<exists>S'. index_addBlock R depth p saveUndo False track S = (Inr None, S') \<and> index_repr R contents cached blks_cached S' c' Map.empty"
proof -
  have repr: "store_repr contents (p_store S) c" and on: "mempool_on R (p_store S) Map.empty (p_mempool S)"
    and co: "cached (lruNum2Hash S) \<subseteq>\<^sub>m num_hash c" "blks_cached (lruHeight2Hashes S) \<subseteq>\<^sub>m block_hashes c"
    using idx by (simp_all add: index_repr_def)
  obtain st' where st': "addBlock R depth p saveUndo (p_store S) = (Inr (), st')" "store_repr contents st' c'"
    using addBlock_ok[OF repr acc depth] unfolding c'_def by blast
  have "mempool_on R st' Map.empty (p_mempool S)"
    by (rule mempool_on_shrink[OF on]) (use mempool_inv_none[OF mempool_on_inv(1)[OF on]] in simp_all)
  then have "index_repr R contents cached blks_cached (S\<lparr>recentBlockTxHashes := [], p_store := st'\<rparr>) c' Map.empty"
    using st'(2) map_le_trans[OF co(1) num_hash_snoc] map_le_trans[OF co(2) block_hashes_snoc] by (simp add: index_repr_def c'_def)
  moreover have "index_addBlock R depth p saveUndo False track S = (Inr None, S\<lparr>recentBlockTxHashes := [], p_store := st'\<rparr>)"
    by (simp add: index_addBlock_def st'(1) Let_def)
  ultimately show ?thesis by blast
qed

end

section \<open>Undoing a block\<close>

lemma mempool_keys:
  assumes "mempool_inv g T m"
  shows "set (keys (txs m)) = dom T" "set (keys (hashXTxs m)) = {sh. mp_touching (view_of g T) sh \<noteq> {}}"
proof -
  have t: "rel_option (tx_rel (view_of g T) h) (T h) (map_of (txs m) h)" for h
    using assms by (simp add: mempool_inv_def mempool_repr_def mp_rel_def txs_rel_def)
  have "map_of (txs m) h = None \<longleftrightarrow> T h = None" for h using t[of h] by (cases "T h"; cases "map_of (txs m) h") simp_all
  then show "set (keys (txs m)) = dom T" unfolding set_keys by (auto simp: dom_def)
  show "set (keys (hashXTxs m)) = {sh. mp_touching (view_of g T) sh \<noteq> {}}"
    unfolding set_keys using mempool_vec[OF assms] by (auto simp: dom_def)
qed

lemma unconfirmed_items_none: "mp_touching v sh = {} \<Longrightarrow> unconfirmed_items v sh = []"
  by (simp add: unconfirmed_items_def mempool_order_def)

context storage_laws
begin

lemma checked_undo_ok:
  assumes repr: "store_repr contents st (c @ [(raw, ts)])" and ne: "c \<noteq> []"
    and row: "contents (s_undo st) (height_key (of_nat (length c))) \<noteq> None"
  shows "\<exists>u. checked_undo R st = Some u \<and> undo_matches (chain_ledger c) raw ts u"
proof -
  let ?l = "chain_ledger c" and ?l' = "chain_ledger (c @ [(raw, ts)])" and ?h = "of_nat (length c) :: BlockHeight"
  have inv: "store_inv contents (s_hdr st) (map fst c @ [raw])" and cf: "chain_fits (c @ [(raw, ts)])" and bi: "blkInfos st = l_blks ?l'"
    using repr by (simp_all add: store_repr_def Let_def)
  obtain Um where um: "undo_repr (c @ [(raw, ts)]) Um (contents (s_undo st))" using repr by (auto simp: store_repr_def Let_def)
  have fits: "block_fits ?l ts" and cfc: "chain_fits c" using cf by (simp_all add: chain_fits_snoc)
  then have len: "length c < max_height" by (simp add: block_fits_def length_l_blks)
  obtain s where s: "contents (s_undo st) (height_key ?h) = Some s" using row by blast
  have "undo_row_ok (chain_ledger (take (length c) (c @ [(raw, ts)]))) (fst ((c @ [(raw, ts)]) ! length c)) (snd ((c @ [(raw, ts)]) ! length c)) s"
    by (rule undo_row_at[OF um s]) (use len in simp_all)
  then obtain u where u: "Deserialize_UndoInfo s = Some u" "undo_matches ?l raw ts u" by (auto simp: undo_row_ok_def)
  obtain ph hdr' where hd: "undo_prevHeader R (s_hdr st) = Inr (length c - 1, ph)" "undoLatestBlock_headers R (s_hdr st) = (Inr (length c - 1), hdr')"
      "lastHeaderProcessed (headerVerifier (s_hdr st)) = (int (length c), raw)"
    using undo_headers_stage[OF inv ne] by blast
  have get: "GenericDBGet R (s_undo st) (height_key ?h) True (deser_object Deserialize_UndoInfo) = Inr (Some u)"
    by (simp add: GenericDBGet_found[OF s] deser_object_def u(1))
  have l': "l_blks ?l' = l_blks ?l @ [\<lparr> txNum0 = of_nat (length (l_txs ?l)), nTx = of_nat (length ts) \<rparr>]"
    by (simp add: ledger_of_snoc apply_block_def Let_def length_l_blks del: map_append)
  have "undo_sane st (int (length c)) (length c - 1) raw u"
    using u(2) undo_matches_ok[OF chain_fits_wf[OF cfc] fits u(2)] ne
    by (simp add: undo_sane_def undo_ok_def undo_matches_def bi[unfolded l'] length_l_blks)
  then have "checked_undo R st = Some u"
    unfolding checked_undo_def hd(1) sum.case prod.case hd(3) Let_def of_int_of_nat_eq get option.case hd(2) by simp
  then show ?thesis using u(2) by blast
qed

end

context storage_laws
begin

lemma index_undo_ok:
  assumes idx: "index_repr R contents cached blks_cached S (c @ [(raw, ts)]) T" and ne: "c \<noteq> []" and small: "length ts < 2 ^ 32"
    and row: "contents (s_undo (p_store S)) (height_key (of_nat (length c))) \<noteq> None"
  shows "\<exists>n S'. index_undoLatestBlock Q B R True S = (Inr (length c - 1, Some n), S') \<and> index_repr R contents cached blks_cached S' c Map.empty \<and>
    (\<forall>sh. status_items (c @ [(raw, ts)]) (db_getter R (p_store S)) T sh \<noteq> status_items c (db_getter R (p_store S')) Map.empty sh \<longrightarrow>
      sh \<in> set (scriptHashesAffected n)) \<and> set (txidsAffected n) = dom T \<union> txid ` set ts \<and> recentBlockTxHashes S' = []"
proof -
  let ?st = "p_store S" and ?c' = "c @ [(raw, ts)]" and ?l = "chain_ledger c"
  have repr: "store_repr contents ?st ?c'" and on: "mempool_on R ?st T (p_mempool S)"
    and co: "cached (lruNum2Hash S) \<subseteq>\<^sub>m num_hash ?c'" "blks_cached (lruHeight2Hashes S) \<subseteq>\<^sub>m block_hashes ?c'"
    using idx by (simp_all add: index_repr_def)
  have fits: "chain_fits c" "block_fits ?l ts" using repr by (simp_all add: store_repr_def Let_def chain_fits_snoc del: map_append)
  then have lim: "length c \<le> max_height" "length (chain_txs c) \<le> max_txnums" "ts \<noteq> []" by (simp_all add: block_fits_def length_l_blks)
  obtain u where u: "checked_undo R ?st = Some u" "undo_matches ?l raw ts u" using checked_undo_ok[OF repr ne row] by blast
  have uf: "u_height u = of_nat (length c)" "txNum0 (u_blkInfo u) = of_nat (length (chain_txs c))" "nTx (u_blkInfo u) = of_nat (length ts)"
      "set (u_scriptHashes u) = {h. touching ts (l_utxo ?l) h \<noteq> {}}"
    using u(2) by (simp_all add: undo_matches_def length_l_blks)
  obtain st' where st': "undoLatestBlock R ?st = (Inr (length c - 1), st')" "store_repr contents st' c"
    using undoLatestBlock_ok[OF repr ne row] by blast
  have "unat (of_nat (length ts) :: u32) = length ts" unfolding unat_of_nat using small by (simp add: take_bit_nat_eq_self)
  moreover have "unat (of_nat (length (chain_txs c)) :: TxNum) = length (chain_txs c)" by (rule of_nat_txnum[OF lim(2)])
  moreover have "chain_txs ?c' = chain_txs c @ map txid ts" using chain_txs_snoc[of c "(raw, ts)"] by (simp del: map_append)
  then have "fst (readRecords R (s_txnums ?st) (txNumsDRA ?st) (length (chain_txs c)) (length ts)) = map txid ts"
    using readRecords_ok[OF store_fields(2)[OF repr], of "length (chain_txs c)" "length ts"] lim(3) by (simp del: map_append)
  ultimately have recs: "fst (readRecords R (s_txnums ?st) (txNumsDRA ?st) (unat (txNum0 (u_blkInfo u))) (unat (nTx (u_blkInfo u)))) = map txid ts"
    by (simp only: uf(2,3))
  note mk = mempool_keys[OF mempool_on_inv(1)[OF on]]
  define n where "n = (mempool_notify (p_mempool S))\<lparr>txidsAffected := merge_set (keys (txs (p_mempool S))) (map txid ts),
    scriptHashesAffected := merge_set (keys (hashXTxs (p_mempool S))) (u_scriptHashes u)\<rparr>"
  define S' where "S' = S\<lparr>p_mempool := mempool_clear (p_mempool S), recentBlockTxHashes := [], lruNum2Hash := cc_clear Q (lruNum2Hash S),
    lruHeight2Hashes := snd (cc_remove B (of_nat (length c)) (lruHeight2Hashes S)), p_store := st'\<rparr>"
  have run: "index_undoLatestBlock Q B R True S = (Inr (length c - 1, Some n), S')"
    by (simp add: index_undoLatestBlock_def u(1) recs st'(1) uf(1) Let_def n_def S'_def mempool_notify_def)
  have "mempool_on R st' Map.empty (mempool_clear (p_mempool S))" by (rule mempool_on_shrink[OF on]) (simp_all add: mempool_clear_ok)
  moreover have "cached (lruNum2Hash S') \<subseteq>\<^sub>m num_hash c" using num.coherent_clear by (simp add: S'_def num.coherent_def)
  moreover have "blks_cached (lruHeight2Hashes S') \<subseteq>\<^sub>m block_hashes c"
    unfolding block_hashes_undo[OF lim(1), of "(raw, ts)"] using blk.coherent_remove co(2) by (simp add: S'_def blk.coherent_def)
  ultimately have r': "index_repr R contents cached blks_cached S' c Map.empty" using st'(2) by (simp add: index_repr_def S'_def)
  have same: "status_items ?c' (db_getter R ?st) T sh = status_items c (db_getter R st') Map.empty sh" if "sh \<notin> set (scriptHashesAffected n)" for sh
  proof -
    have "touching ts (l_utxo ?l) sh = {}" "mp_touching (view_of (db_getter R ?st) T) sh = {}" using that uf(4) mk(2) by (simp_all add: n_def)
    moreover have "mp_touching (view_of (db_getter R st') Map.empty) sh = {}" by (simp add: mp_touching_def view_def)
    ultimately show ?thesis using confirmed_items_snoc[OF chain_fits_wf[OF fits(1)], of "(raw, ts)"]
      by (simp add: status_items_def unconfirmed_items_none)
  qed
  show ?thesis using run r' same mk(1) by (intro exI[of _ n] exI[of _ S']) (auto simp: n_def S'_def)
qed

end

end
