(* ===== verification/Query_Properties.thy ===== *)
theory Query_Properties
  imports Query_First_Use
begin

text \<open>
  The results about the queries, for a store that represents a chain and a mempool on top of it.
\<close>

declare map_of_eq_Some_iff [simp del]

section \<open>New transactions are not in the database\<close>

lemma take_txo_bytes: "length (txHash t) = 32 \<Longrightarrow> take 32 (txo_toBytes t wide) = txHash t"
  by (simp add: txo_toBytes_def txo_isValid_def)

context storage_laws
begin

lemma db_getter_new:
  assumes "store_repr contents st c" "length h = HashLen" "h \<notin> set (chain_txs c)"
  shows "db_getter R st (TXO h n) = Inr None"
proof -
  have r: "utxo_repr (chain_txs c) (contents (s_utxoset st)) (contents (s_shunspent st)) (utxoCt st) (l_utxo (chain_ledger c))"
    using assms(1) by (simp add: store_repr_def Let_def)
  have "contents (s_utxoset st) (Serialize_TXO (TXO h n)) = None"
  proof (rule ccontr)
    assume "contents (s_utxoset st) (Serialize_TXO (TXO h n)) \<noteq> None"
    then obtain y j where y: "l_utxo (chain_ledger c) y = Some j" "Serialize_TXO y = Serialize_TXO (TXO h n)"
      using r by (auto simp: utxo_repr_def table_of_def utxo_key_def)
    then have e: "utxo_entry (chain_txs c) y j" using r by (simp add: utxo_repr_def)
    then have "txHash y \<in> set (chain_txs c)" by (auto simp: utxo_entry_def dest: nth_mem)
    moreover have "txHash y = h"
      using arg_cong[OF y(2), of "take 32"] e assms(2) take_txo_bytes[of y False] take_txo_bytes[of "TXO h n" False]
      by (simp add: Serialize_TXO_def utxo_entry_def txo_isValid_def)
    ultimately show False using assms(3) by simp
  qed
  then show ?thesis by (simp add: db_getter_def utxoGetFromDB_def GenericDBGet_missing)
qed

end

section \<open>An example\<close>

text \<open>A chain of one block, and a transaction of the mempool that spends one of its outputs.\<close>

definition demo_one :: chain where "demo_one = [block_entry demo_block]"

definition demo_sh :: bytes where "demo_sh = HashXFromCScript [0x51]"

definition demo_spender :: CTransaction where
  "demo_spender = \<lparr> tx_nVersion = 1, vin = [\<lparr> prevout = COutPoint (replicate 32 1) 0, scriptSig = [], nSequence = 0, scriptWitness = [] \<rparr>],
     vout = [\<lparr> nValue = 40, scriptPubKey = [0x51], tokenDataPtr = None \<rparr>], nLockTime = 0, mw_blob = None, tx_hash = [] \<rparr>"

definition demo_pool :: "bytes \<rightharpoonup> CTransaction" where "demo_pool = [demo_h 9 \<mapsto> demo_spender]"

definition demo_cache :: "('k, 'v) lru" where "demo_cache = \<lparr> lru_max = 10, lru_items = [] \<rparr>"

lemma demo_one_utxo: "l_utxo (chain_ledger demo_one) = created 0 0 demo_txs"
  using demo_outside
  by (simp add: demo_one_def block_entry_def demo_block_def ledger_of_def apply_block_def ledger_empty_def Let_def utxo_after_def)

lemma demo_outs: "all_outs 0 demo_txs = [(0, 0, demo_out), (0, 1, demo_out), (1, 0, demo_out)]"
  by (simp add: demo_txs_def)

lemma demo_parents: "nins demo_txs = 2" "in_parent demo_txs 0 = None" "in_parent demo_txs 1 = Some 1"
  by (simp_all add: in_parent_def parent_tx_def demo_txs_def Hash2ByteArrayRev_def COutPoint_default_def out_pos_def)

lemma demo_kept: "0 \<in> kept_outs demo_txs" "kept_outs demo_txs \<subseteq> {0, 1, 2}"
proof -
  have "in_parent demo_txs j \<noteq> Some 0" if "j < 2" for j using less_2_cases[OF that] demo_parents by auto
  then have "\<not> spent_inside demo_txs 0" using demo_parents(1) by (auto simp: spent_inside_def)
  moreover have "\<not> IsOpReturn (out_script demo_txs 0)" by (simp add: out_script_def demo_outs demo_out_def IsOpReturn_def OP_RETURN_def)
  ultimately show "0 \<in> kept_outs demo_txs" "kept_outs demo_txs \<subseteq> {0, 1, 2}" by (auto simp: kept_outs_def demo_outs)
qed

definition demo_prev :: TXO where "demo_prev = TXO (replicate 32 1) 0"

lemma demo_entries:
  assumes "l_utxo (chain_ledger demo_one) txo = Some info"
  shows "txo \<in> out_txo demo_txs ` {0, 1, 2}" "ti_amount info = 50" "ti_hashX info = demo_sh" "ti_tokenDataPtr info = None"
proof -
  obtain i where i: "i \<in> kept_outs demo_txs" "txo = out_txo demo_txs i" "info = out_info 0 0 demo_txs i"
    using assms created_iff[OF demo_txs_wf] by (auto simp: demo_one_utxo)
  then have "i = 0 \<or> i = 1 \<or> i = 2" using demo_kept(2) by blast
  then show "txo \<in> out_txo demo_txs ` {0, 1, 2}" "ti_amount info = 50" "ti_hashX info = demo_sh" "ti_tokenDataPtr info = None"
    unfolding i(2,3) by (auto simp: out_info_def demo_outs demo_out_def demo_sh_def)
qed

lemma demo_prev_unspent: "\<exists>info. l_utxo (chain_ledger demo_one) demo_prev = Some info"
proof -
  have "out_txo demo_txs 0 = demo_prev" by (simp add: out_txo_def demo_outs demo_prev_def demo_txs_def Hash2ByteArrayRev_def)
  then have "created 0 0 demo_txs demo_prev = Some (out_info 0 0 demo_txs 0)" using created_iff[OF demo_txs_wf] demo_kept(1) by metis
  then show ?thesis by (simp add: demo_one_utxo)
qed

lemma demo_unspent: "chain_unspent demo_one sh \<subseteq> out_txo demo_txs ` {0, 1, 2}" "finite (chain_unspent demo_one sh)" "card (chain_unspent demo_one sh) \<le> 3"
proof -
  show s: "chain_unspent demo_one sh \<subseteq> out_txo demo_txs ` {0, 1, 2}" using demo_entries(1) by (auto simp: chain_unspent_def)
  then show "finite (chain_unspent demo_one sh)" by (rule finite_subset) simp
  have "card (out_txo demo_txs ` {0, 1, 2}) \<le> card {0, 1, 2 :: nat}" by (rule card_image_le) simp
  then show "card (chain_unspent demo_one sh) \<le> 3" using card_mono[OF _ s] by simp
qed

lemma demo_amounts: "amounts_ok demo_one sh" "MoneyRange (chain_balance demo_one tf sh)"
proof -
  have info: "ti_amount (chain_info demo_one txo) = 50" if "txo \<in> chain_unspent demo_one sh" for txo
    using that demo_entries(2) by (auto simp: chain_unspent_def)
  then show "amounts_ok demo_one sh" by (simp add: amounts_ok_def MoneyRange_def MAX_MONEY_def COIN_def)
  let ?K = "{txo \<in> chain_unspent demo_one sh. keep tf (chain_info demo_one txo)}"
  have "chain_balance demo_one tf sh = (\<Sum>txo \<in> ?K. 50)"
    unfolding chain_balance_def val_def using demo_unspent(2) info by (subst sum.inter_filter) (auto intro: sum.cong)
  also have "\<dots> = of_nat (card ?K) * 50" by simp
  finally have "chain_balance demo_one tf sh = of_nat (card ?K) * 50" .
  moreover have "card ?K \<le> 3" using demo_unspent(2,3) card_mono[of "chain_unspent demo_one sh" ?K] by (metis (no_types, lifting) le_trans mem_Collect_eq subsetI)
  then have "card ?K = 0 \<or> card ?K = 1 \<or> card ?K = 2 \<or> card ?K = 3" by linarith
  ultimately show "MoneyRange (chain_balance demo_one tf sh)" by (auto simp: MoneyRange_def MAX_MONEY_def COIN_def)
qed

lemma demo_small: "blocks_small demo_one"
  by (simp add: blocks_small_def demo_one_def block_entry_def demo_block_def demo_txs_def)

lemma demo_pool_spends: "spends demo_pool = {(demo_h 9, demo_prev)}"
proof -
  have "demo_pool h = Some c \<longleftrightarrow> h = demo_h 9 \<and> c = demo_spender" for h c by (auto simp: demo_pool_def)
  then show ?thesis by (auto simp: spends_def demo_spender_def prev_txo_def demo_prev_def Hash2ByteArrayRev_def)
qed

lemma demo_h_prev: "demo_h 9 \<noteq> replicate 32 1" "length (demo_h 9) = 32" "demo_h 9 \<notin> set (chain_txs demo_one)"
proof -
  have ne: "replicate 32 (9 :: byte) \<noteq> replicate 32 b" if "b \<noteq> 9" for b using that by (simp add: numeral_eq_Suc)
  show "demo_h 9 \<noteq> replicate 32 1" unfolding demo_h_def by (rule ne) simp
  have "chain_txs demo_one = [replicate 32 1, replicate 32 2]"
    unfolding chain_txs_eq by (simp add: demo_one_def block_entry_def demo_block_def demo_txs_def Hash2ByteArrayRev_def)
  then show "demo_h 9 \<notin> set (chain_txs demo_one)" using ne[of 1] ne[of 2] by (simp add: demo_h_def)
qed (simp add: demo_h_def)

lemma demo_mempool:
  assumes "store_repr fmlookup st demo_one"
  shows "\<exists>m. mempool_on fm_rocksdb st demo_pool m"
proof -
  let ?g = "db_getter fm_rocksdb st" and ?new = "[(Tx_new (demo_h 9) 100 100, demo_spender)]"
  have valid: "txo_isValid demo_prev" "unat (outN demo_prev) < 2 ^ 24" by (simp_all add: demo_prev_def txo_isValid_def)
  obtain info where info: "l_utxo (chain_ledger demo_one) demo_prev = Some info" using demo_prev_unspent by blast
  have g: "?g txo = Inr (l_utxo (chain_ledger demo_one) txo)" if "txo_isValid txo" "unat (outN txo) < 2 ^ 24" for txo
    using that by (rule fmq.db_getter_ok[OF assms])
  have hl: "txHash demo_prev \<noteq> demo_h 9" using demo_h_prev by (simp add: demo_prev_def)
  have ins: "map prev_txo (vin demo_spender) = [demo_prev]" by (simp add: demo_spender_def prev_txo_def demo_prev_def Hash2ByteArrayRev_def)
  have T: "Map.empty ++ new_txs ?new = demo_pool" by (simp add: new_txs_def demo_pool_def Tx_new_def)
  have "in_entry ?g demo_pool demo_prev = Some (True, info)" using g[OF valid] info hl by (simp add: in_entry_def demo_pool_def)
  then have ok: "mempool_ok ?g demo_pool"
    using ins by (auto simp: mempool_ok_def demo_pool_spends) (auto simp: demo_pool_def split: if_splits, simp_all add: demo_spender_def)
  have "?g (TXO (demo_h 9) n) = Inr None" for n by (rule fmq.db_getter_new[OF assms]) (use demo_h_prev in simp_all)
  then have new: "new_txs_ok ?g Map.empty ?new"
    using ins demo_h_prev by (auto simp: new_txs_ok_def fresh_txs_def Tx_new_def demo_spender_def)
  obtain s :: AddState where "mempool_inv ?g demo_pool (as_m s)"
    using addNewTxs_ok[OF demo_start new, of "[]", unfolded T, OF ok] by blast
  moreover have "values_ok demo_pool" by (auto simp: values_ok_def demo_pool_def demo_spender_def split: if_splits)
  ultimately show ?thesis using valid by (auto simp: mempool_on_def demo_pool_spends)
qed

section \<open>Properties\<close>

lemma cache_coherent: "storage_laws R contents Q cached B blks_cached seek \<Longrightarrow> qcache_laws.coherent cached f ca \<longleftrightarrow> cached ca \<subseteq>\<^sub>m f"
  "storage_laws R contents Q cached B blks_cached seek \<Longrightarrow> qcache_laws.coherent blks_cached f' cb \<longleftrightarrow> blks_cached cb \<subseteq>\<^sub>m f'"
  unfolding storage_laws_def by (elim conjE, erule qcache_laws.coherent_def)+

text \<open>C10: The history of a script hash. Whatever the cache of transaction hashes holds, as long as it is right, the server returns the
  transactions that touch the script hash: first those of the chain within the heights asked for, in chain order with
  their heights, then those of the mempool, with 0 or (if they have unconfirmed parents) -1 for the height and with their fees. If the
  confirmed history alone has more items than allowed the result is empty, and if both together have more, the mempool is left out.\<close>

theorem history_correct:
  fixes includeConfirmed includeMempool :: bool
  assumes "storage_laws R contents Q cached B blks_cached seek" and "store_repr contents st c" "blocks_small c" "mempool_on R st T m"
    and "cached ca \<subseteq>\<^sub>m num_hash c" "length sh = HashLen"
  defines "v \<equiv> view_of (db_getter R st) T"
  defines "nConf \<equiv> (if includeConfirmed then length (hist_nums c sh) else 0)" and "nMem \<equiv> (if includeMempool then length (mempool_order v sh) else 0)"
  shows "\<exists>ca'. getHistory Q R maxHistory st m sh includeConfirmed includeMempool fromHeight optToHeight ca =
      (if nConf > maxHistory then []
       else (if includeConfirmed then confirmed_items c fromHeight optToHeight sh else []) @
            (if includeMempool \<and> nConf + nMem \<le> maxHistory then unconfirmed_items v sh else []), ca') \<and> cached ca' \<subseteq>\<^sub>m num_hash c"
  using storage_laws.getHistory_ok[OF assms(1-3) mempool_on_inv(1)[OF assms(4)], of ca sh] assms(5,6)
  unfolding cache_coherent(1)[OF assms(1)] v_def nConf_def nMem_def by blast

lemma demo_state1: "\<exists>st m. store_repr fmlookup st demo_one \<and> mempool_on fm_rocksdb st demo_pool m"
  using demo_store1 demo_mempool by (metis demo_one_def)

lemma demo_facts: "lru_cached demo_cache \<subseteq>\<^sub>m f" "length demo_sh = HashLen"
  by (simp_all add: demo_cache_def lru_cached_def map_le_def dom_def demo_sh_def HashXFromCScript_def)

theorem history_correct_witness:
  "\<exists>st m k ca'. getHistory lru_ops fm_rocksdb k st m demo_sh True True 0 None demo_cache =
       (confirmed_items demo_one 0 None demo_sh @ unconfirmed_items (view_of (db_getter fm_rocksdb st) demo_pool) demo_sh, ca') \<and>
     mempool_on fm_rocksdb st demo_pool m"
proof -
  obtain st m where s: "store_repr fmlookup st demo_one" "mempool_on fm_rocksdb st demo_pool m" using demo_state1 by blast
  let ?k = "length (hist_nums demo_one demo_sh) + length (mempool_order (view_of (db_getter fm_rocksdb st) demo_pool) demo_sh)"
  from history_correct[OF fmq.storage_laws_axioms s(1) demo_small s(2) demo_facts, of ?k True True 0 None]
  obtain ca' where "getHistory lru_ops fm_rocksdb ?k st m demo_sh True True 0 None demo_cache =
      (confirmed_items demo_one 0 None demo_sh @ unconfirmed_items (view_of (db_getter fm_rocksdb st) demo_pool) demo_sh, ca')" by auto
  then show ?thesis using s(2) by blast
qed

text \<open>C11: Unspent outputs and balance. The list has exactly the unspent outputs of the chain that no transaction of the mempool spends and the
  unspent outputs of the mempool, filtered by whether they carry tokens, each once and in order. The balance is the value of the unspent outputs
  of the chain together with what the mempool adds and takes away, and both parts together are the value of the list.\<close>

theorem unspent_and_balance_correct:
  assumes "storage_laws R contents Q cached B blks_cached seek" and "store_repr contents st c" "blocks_small c" "mempool_on R st T m"
    and "cached ca \<subseteq>\<^sub>m num_hash c" "length sh = HashLen" "amounts_ok c sh" "MoneyRange (chain_balance c tf sh)"
  defines "v \<equiv> view_of (db_getter R st) T"
  assumes "card (mem_unspent v sh) + card (chain_unspent c sh) \<le> maxHistory"
    and "card (chain_unspent c sh) + (\<Sum>h \<in> mp_touching v sh. mem_count v sh h) \<le> maxHistory"
  shows "\<exists>items ca' confirmed unconfirmed. listUnspent Q R seek maxHistory st m sh tf ca = (items, ca') \<and> cached ca' \<subseteq>\<^sub>m num_hash c \<and>
    sorted (map unspent_rank items) \<and> distinct items \<and>
    set items = mem_items v tf (of_nat (length (chain_txs c)) + 100000000) sh UNIV \<union>
      chain_item c ` {txo \<in> chain_unspent c sh - mem_spent v sh. keep tf (chain_info c txo)} \<and>
    getBalance seek maxHistory st m sh tf = (confirmed, unconfirmed) \<and> confirmed = chain_balance c tf sh \<and>
    confirmed + unconfirmed = (\<Sum>i \<leftarrow> items. ui_value i)"
proof -
  note inv = mempool_on_inv[OF assms(4)]
  obtain items ca' where l: "listUnspent Q R seek maxHistory st m sh tf ca = (items, ca')" "cached ca' \<subseteq>\<^sub>m num_hash c"
      "sorted (map unspent_rank items)" "distinct items"
      "set items = mem_items v tf (of_nat (length (chain_txs c)) + 100000000) sh UNIV \<union>
        chain_item c ` {txo \<in> chain_unspent c sh - mem_spent v sh. keep tf (chain_info c txo)}"
    using storage_laws.listUnspent_ok[OF assms(1-3) inv assms(7), of ca maxHistory tf] assms(5,6,10)
    unfolding cache_coherent(1)[OF assms(1)] v_def by blast
  note b = storage_laws.getBalance_ok[OF assms(1,2) inv assms(7,6) assms(11)[unfolded v_def] assms(8)]
  show ?thesis
    using l b storage_laws.balance_total[OF assms(1,2,4) l(5)[unfolded v_def] l(4)] by auto
qed

lemma demo_counts: "\<exists>k. card (mem_unspent v sh) + card (chain_unspent demo_one sh) \<le> k \<and>
    card (chain_unspent demo_one sh) + (\<Sum>h \<in> mp_touching v sh. mem_count v sh h) \<le> k"
  by (rule exI[of _ "card (mem_unspent v sh) + card (chain_unspent demo_one sh) + (\<Sum>h \<in> mp_touching v sh. mem_count v sh h)"]) simp

theorem unspent_and_balance_correct_witness:
  "\<exists>st m k items ca' conf unconf. listUnspent lru_ops fm_rocksdb fm_seek k st m demo_sh IncludeTokens demo_cache = (items, ca') \<and>
     getBalance fm_seek k st m demo_sh IncludeTokens = (conf, unconf) \<and> conf + unconf = (\<Sum>i \<leftarrow> items. ui_value i)"
proof -
  obtain st m where s: "store_repr fmlookup st demo_one" "mempool_on fm_rocksdb st demo_pool m" using demo_state1 by blast
  obtain k where k: "card (mem_unspent (view_of (db_getter fm_rocksdb st) demo_pool) demo_sh) + card (chain_unspent demo_one demo_sh) \<le> k"
      "card (chain_unspent demo_one demo_sh) + (\<Sum>h \<in> mp_touching (view_of (db_getter fm_rocksdb st) demo_pool) demo_sh.
         mem_count (view_of (db_getter fm_rocksdb st) demo_pool) demo_sh h) \<le> k"
    using demo_counts by blast
  from unspent_and_balance_correct[OF fmq.storage_laws_axioms s(1) demo_small s(2) demo_facts demo_amounts k, of IncludeTokens]
  obtain items ca' conf' unconf' where "listUnspent lru_ops fm_rocksdb fm_seek k st m demo_sh IncludeTokens demo_cache = (items, ca')"
      "getBalance fm_seek k st m demo_sh IncludeTokens = (conf', unconf')" "conf' + unconf' = (\<Sum>i \<leftarrow> items. ui_value i)"
    by (elim exE conjE) (rule that)
  then show ?thesis by (intro exI conjI)
qed

text \<open>Beyond the limit on the number of items. If the chain has more unspent outputs for a script hash than the limit allows, the list
  is not empty but consists of the mempool's outputs alone (as long as these fit), and the balance reported is
  the sum over only as many of the outputs as the limit allows.\<close>

lemma query_limits:
  assumes "storage_laws R contents Q cached B blks_cached seek" and "store_repr contents st c" "mempool_on R st T m"
    and "length sh = HashLen" "amounts_ok c sh" "card (chain_unspent c sh) > maxHistory"
  defines "v \<equiv> view_of (db_getter R st) T"
  assumes "card (mem_unspent v sh) \<le> maxHistory"
  shows "(\<exists>items. listUnspent Q R seek maxHistory st m sh tf ca = (items, ca) \<and>
      set items = mem_items v tf (of_nat (length (chain_txs c)) + 100000000) sh UNIV) \<and>
    (\<exists>U \<subset> chain_unspent c sh. card U = maxHistory \<and> getBalance seek maxHistory st m sh tf = (\<Sum>txo \<in> U. val tf (chain_info c txo), 0))"
proof -
  have "\<exists>items. listUnspent Q R seek maxHistory st m sh tf ca = (items, ca) \<and>
      set items = mem_items v tf (of_nat (length (chain_txs c)) + 100000000) sh UNIV"
    using storage_laws.listUnspent_too_many[OF assms(1,2) mempool_on_inv[OF assms(3)] assms(5,4), of maxHistory tf ca] assms(6,8)
    unfolding v_def by (metis trans_less_add2)
  moreover have "\<exists>U \<subset> chain_unspent c sh. card U = maxHistory \<and> getBalance seek maxHistory st m sh tf = (\<Sum>txo \<in> U. val tf (chain_info c txo), 0)"
    using storage_laws.getBalance_too_many[OF assms(1,2,5,4,6), of m tf] assms(6) by (metis psubsetI nat_neq_iff)
  ultimately show ?thesis by blast
qed

text \<open>C12: A single output. The server finds exactly the outputs that are unspent given both the chain and the mempool: an output of a
  transaction of the mempool if no other transaction there spends it and its script is not an OP_RETURN, and an unspent output of the chain
  if no transaction of the mempool spends it. It never fails.\<close>

theorem utxo_lookup_correct:
  assumes "storage_laws R contents Q cached B blks_cached seek" "store_repr contents st c" "mempool_on R st T m"
    and "txo_isValid txo" "unat (outN txo) < 2 ^ 24"
  shows "utxoGet R st m txo = Inr (unspent_now c T txo)"
  by (rule storage_laws.storage_utxoGet_ok[OF assms])

lemma demo_txo: "txo_isValid demo_prev" "unat (outN demo_prev) < 2 ^ 24"
  by (simp_all add: demo_prev_def txo_isValid_def)

theorem utxo_lookup_correct_witness:
  "\<exists>st m info. mempool_on fm_rocksdb st demo_pool m \<and> utxoGetFromDB fm_rocksdb (s_utxoset st) demo_prev False = Inr (Some info) \<and>
     utxoGet fm_rocksdb st m demo_prev = Inr None"
proof -
  obtain st m where s: "store_repr fmlookup st demo_one" "mempool_on fm_rocksdb st demo_pool m" using demo_state1 by blast
  obtain info where info: "l_utxo (chain_ledger demo_one) demo_prev = Some info" using demo_prev_unspent by blast
  have "utxoGetFromDB fm_rocksdb (s_utxoset st) demo_prev False = Inr (Some info)"
    using fmq.db_getter_ok[OF s(1) demo_txo] info by (simp add: db_getter_def)
  moreover have "utxoGet fm_rocksdb st m demo_prev = Inr None"
    using utxo_lookup_correct[OF fmq.storage_laws_axioms s demo_txo] by (simp add: unspent_now_def demo_pool_spends)
  ultimately show ?thesis using s(2) by blast
qed

text \<open>C13: Transactions by hash and by position. The height reported for a transaction is that of the one block that has it, or 0 for one that is
  only in the mempool, both for one hash and for a list of hashes; the header served with a confirmed transaction is that of its block; the hash at
  a height and position and the hashes of a block are those of the chain, whatever the caches hold as long as it is right.\<close>

theorem tx_lookup_correct:
  assumes "storage_laws R contents Q cached B blks_cached seek" "store_repr contents st c" "blocks_small c" "mempool_on R st T m"
    and "cached ca \<subseteq>\<^sub>m num_hash c" "blks_cached cb \<subseteq>\<^sub>m block_hashes c" "length h = HashLen" "\<forall>x \<in> set hs. length x = HashLen"
  shows "\<exists>r rs hdr ca1 cb'.
    getTxHeight R st m h = Inr r \<and> height_now c T h r \<and>
    getTxHeights R st m hs = Inr rs \<and> list_all2 (height_now c T) hs rs \<and>
    getConfirmedTxBlockHeightAndHeader R st h = Inr hdr \<and>
      (\<forall>i. in_block c i h \<longrightarrow> hdr = Some (of_nat i, fst (c ! i))) \<and> ((\<nexists>i. in_block c i h) \<longrightarrow> hdr = None) \<and>
    hashForHeightAndPos Q R st height pos ca = (Inr (if unat height < length c \<and> unat pos < length (snd (c ! unat height))
       then Some (txid (snd (c ! unat height) ! unat pos)) else None), ca1) \<and> cached ca1 \<subseteq>\<^sub>m num_hash c \<and>
    txHashesForBlockInBitcoindMemoryOrder B R st height cb = (case block_hashes c height of None \<Rightarrow> [] | Some xs \<Rightarrow> xs, cb') \<and>
      blks_cached cb' \<subseteq>\<^sub>m block_hashes c"
proof -
  note inv = mempool_on_inv(1)[OF assms(4)] and ca = assms(5)[folded cache_coherent(1)[OF assms(1)]]
  obtain r where 1: "getTxHeight R st m h = Inr r" "height_now c T h r" using storage_laws.getTxHeight_ok[OF assms(1-3) inv assms(7)] by blast
  obtain rs where 2: "getTxHeights R st m hs = Inr rs" "list_all2 (height_now c T) hs rs" using storage_laws.getTxHeights_ok[OF assms(1-3) inv assms(8)] by blast
  obtain hdr where 3: "getConfirmedTxBlockHeightAndHeader R st h = Inr hdr"
      "\<forall>i. in_block c i h \<longrightarrow> hdr = Some (of_nat i, fst (c ! i))" "(\<nexists>i. in_block c i h) \<longrightarrow> hdr = None"
    using storage_laws.getConfirmedTx_ok[OF assms(1-3,7)] by blast
  obtain ca1 where 4: "hashForHeightAndPos Q R st height pos ca = (Inr (if unat height < length c \<and> unat pos < length (snd (c ! unat height))
       then Some (txid (snd (c ! unat height) ! unat pos)) else None), ca1)" "cached ca1 \<subseteq>\<^sub>m num_hash c"
    using storage_laws.hashForHeightAndPos_ok[OF assms(1-3) ca, of height pos] unfolding cache_coherent(1)[OF assms(1)] by blast
  obtain cb' where 5: "txHashesForBlockInBitcoindMemoryOrder B R st height cb = (case block_hashes c height of None \<Rightarrow> [] | Some xs \<Rightarrow> xs, cb')"
      "blks_cached cb' \<subseteq>\<^sub>m block_hashes c"
    using storage_laws.txHashesForBlock_ok[OF assms(1-3) assms(6)[folded cache_coherent(2)[OF assms(1)]], of height]
    unfolding cache_coherent(2)[OF assms(1)] by blast
  show ?thesis by (intro exI conjI) (fact 1 2 3 4 5)+
qed

theorem tx_lookup_correct_witness:
  "\<exists>st m. mempool_on fm_rocksdb st demo_pool m \<and> getTxHeight fm_rocksdb st m (demo_h 9) = Inr (Some 0)"
proof -
  obtain st m where s: "store_repr fmlookup st demo_one" "mempool_on fm_rocksdb st demo_pool m" using demo_state1 by blast
  have "\<not> in_block demo_one i (demo_h 9)" for i
    using demo_h_prev(3) unfolding chain_txs_eq by (fastforce simp: in_block_def dest: nth_mem)
  moreover obtain r where "getTxHeight fm_rocksdb st m (demo_h 9) = Inr r" "height_now demo_one demo_pool (demo_h 9) r"
    using tx_lookup_correct[OF fmq.storage_laws_axioms s(1) demo_small s(2) demo_facts(1) demo_facts(1), of "demo_h 9" "[]" 0 0] demo_h_prev(2)
    by auto
  ultimately show ?thesis using s(2) by (auto simp: height_now_def demo_pool_def)
qed

text \<open>C14: The first use of a script hash as an output. In a chain whose blocks list every transaction after those it spends from, the server
  returns the first transaction that pays to the script hash, with its height and the hash of its block; if the chain has none, the first
  one of the mempool's history that pays to it, with height 0 or (if it has unconfirmed parents) -1 and a hash of zeros; and nothing if there is
  no such transaction.\<close>

theorem first_use_correct:
  assumes "storage_laws R contents Q cached B blks_cached seek" "store_repr contents st c" "blocks_small c" "mempool_on R st T m"
    and "cached ca \<subseteq>\<^sub>m num_hash c" "length sh = HashLen" "\<forall>b \<in> set c. block_ordered (snd b)"
  shows "\<exists>ca'. getFirstUse Q R st m sh ca = (first_use c (view_of (db_getter R st) T) sh, ca') \<and> cached ca' \<subseteq>\<^sub>m num_hash c"
proof -
  have "chain_fits c" using assms(2) by (simp add: store_repr_def Let_def)
  from storage_laws.getFirstUse_ok[OF assms(1-3) mempool_on_inv(1)[OF assms(4)], of ca sh] assms(5,6) show ?thesis
    unfolding cache_coherent(1)[OF assms(1)] head_use_first[OF \<open>chain_fits c\<close> assms(7)] by blast
qed

lemma demo_ordered: "\<forall>b \<in> set demo_one. block_ordered (snd b)"
  by (auto simp: block_ordered_def demo_one_def block_entry_def demo_block_def demo_txs_def prev_txo_def Hash2ByteArrayRev_def
      COutPoint_default_def less_Suc_eq)

theorem first_use_correct_witness:
  "\<exists>st m ca' u. getFirstUse lru_ops fm_rocksdb st m demo_sh demo_cache = (Some u, ca') \<and> fu_txHash u = replicate 32 1 \<and> fu_height u = 0"
proof -
  obtain st m where s: "store_repr fmlookup st demo_one" "mempool_on fm_rocksdb st demo_pool m" using demo_state1 by blast
  have txs: "chain_txs demo_one = [replicate 32 1, replicate 32 2]"
    unfolding chain_txs_eq by (simp add: demo_one_def block_entry_def demo_block_def demo_txs_def Hash2ByteArrayRev_def)
  have "pays_at demo_one demo_sh 0"
    by (simp add: pays_at_def demo_one_def block_entry_def demo_block_def demo_txs_def out_shs_def demo_out_def demo_sh_def IsOpReturn_def OP_RETURN_def)
  then have p: "first_payment demo_one demo_sh = Some 0" unfolding first_payment_def by (intro find_upt) (simp_all add: txs)
  have "tx_height demo_one 0 = 0" using tx_height_bounds(1)[of 0 demo_one] by (simp add: txs) (simp add: demo_one_def)
  then have u: "\<exists>u. first_use demo_one v demo_sh = Some u \<and> fu_txHash u = replicate 32 1 \<and> fu_height u = 0" for v
    by (simp add: first_use_def p txs)
  from first_use_correct[OF fmq.storage_laws_axioms s(1) demo_small s(2) demo_facts demo_ordered] u show ?thesis by metis
qed

end
