(* ===== verification/Index_Properties.thy ===== *)
theory Index_Properties
  imports Index_Blocks Query_Properties
begin

text \<open>
  The results about the whole index: blocks and mempool together, in any order of events.
\<close>

declare map_of_eq_Some_iff [simp del]

section \<open>Histories under changes of the mempool\<close>

lemma unconfirmed_items_drop:
  assumes "mempool_ok g T" "down_closed T K" "sh \<notin> touched_by (view_of g T) K"
  shows "unconfirmed_items (view_of g (T |` (- K))) sh = unconfirmed_items (view_of g T) sh"
proof (rule unconfirmed_items_cong)
  let ?v = "view_of g T" and ?v' = "view_of g (T |` (- K))"
  note r = view_restrict[OF assms(1,2)]
  have out: "h \<notin> K" if t: "h \<in> mp_touching ?v sh" for h
  proof
    assume "h \<in> K"
    moreover obtain c where "v_O ?v h = Some c" "sh \<in> touched c (v_E ?v h)" using t by (auto simp: mp_touching_def)
    ultimately have "sh \<in> touched_by ?v K" unfolding touched_by_def by (intro UN_I) auto
    then show False using assms(3) by contradiction
  qed
  show "mp_touching ?v' sh = mp_touching ?v sh"
  proof -
    have "h \<in> mp_touching ?v' sh \<longleftrightarrow> h \<notin> K \<and> h \<in> mp_touching ?v sh" for h
      using r(2)[of h] by (cases "h \<in> K") (simp_all add: mp_touching_def)
    then show ?thesis using out by blast
  qed
  show "finite (mp_touching ?v sh)" by (rule mempool_touching) (use assms(1) in \<open>simp add: mempool_ok_def\<close>)
  show "has_parents ?v' h = has_parents ?v h \<and> v_F ?v' h = v_F ?v h" if h: "h \<in> mp_touching ?v sh" for h
  proof
    have "p \<notin> K" if "(p, h) \<in> v_L ?v" for p
      using that assms(2) out[OF h] unfolding down_closed_def by (fastforce simp: view_def)
    then show "has_parents ?v' h = has_parents ?v h" using out[OF h] unfolding has_parents_def r(4) by blast
    show "v_F ?v' h = v_F ?v h" by (rule r(3)[OF out[OF h]])
  qed
qed

lemma unconfirmed_items_add:
  assumes "mempool_ok g T" "new_txs_ok g T ps" "mempool_ok g (T ++ new_txs ps)" "sh \<notin> new_touched g (T ++ new_txs ps) ps"
  shows "unconfirmed_items (view_of g (T ++ new_txs ps)) sh = unconfirmed_items (view_of g T) sh"
proof -
  let ?T = "T ++ new_txs ps" and ?N = "mp_hash ` fst ` set ps"
  have new: "h \<in> ?N \<Longrightarrow> T h = None" for h using new_txs_okD(1)[OF assms(2)] by fastforce
  have eq: "?T |` (- ?N) = T"
  proof
    fix h
    show "(?T |` (- ?N)) h = T h"
    proof (cases "h \<in> ?N")
      case False
      then have "new_txs ps h = None" using dom_new_txs[of ps] by (metis domIff)
      then show ?thesis using False by (simp add: map_add_def)
    qed (simp add: new)
  qed
  have old: "txHash txo \<notin> ?N" if "(h, txo) \<in> spends T" for h txo using spends_old[OF assms(1,2) _ that] by fastforce
  have pairs: "h \<in> ?N" if "(h, txo) \<in> all_pairs ps" for h txo using links_add(7)[OF assms(1,2)] that by force
  have "down_closed ?T ?N" unfolding down_closed_def spends_add[OF assms(2)] using old pairs by blast
  moreover have "touched_by (view_of g ?T) ?N = new_touched g ?T ps"
  proof -
    have "(case ?T (mp_hash (fst p)) of None \<Rightarrow> {} | Some c \<Rightarrow> touched c (v_E (view_of g ?T) (mp_hash (fst p)))) =
        touched (snd p) (v_E (view_of g ?T) (mp_hash (fst p)))" if "p \<in> set ps" for p
      using new_txs_okD(6)[OF assms(2), of "fst p" "snd p"] that by simp
    then show ?thesis unfolding touched_by_def new_touched_def by (simp add: case_prod_beta)
  qed
  ultimately show ?thesis using unconfirmed_items_drop[OF assms(3), of ?N sh] assms(4) unfolding eq by simp
qed

section \<open>Events\<close>

text \<open>What happens to an index that represents the chain \<open>c\<close> and the unconfirmed transactions \<open>T\<close>. The conditions are what bitcoind
  guarantees of the data it hands over. The set is that of the script hashes reported to the subscription manager.\<close>

type_synonym ('db, 'c, 'd) world = "('db, 'c, 'd) Index \<times> chain \<times> (bytes \<rightharpoonup> CTransaction)"

inductive index_step ::
  "('c, TxNum, bytes) qcache \<Rightarrow> ('d, BlockHeight, bytes list) qcache \<Rightarrow> 'db rocksdb \<Rightarrow> ('db \<Rightarrow> (bytes \<rightharpoonup> bytes)) \<Rightarrow> u32 \<Rightarrow>
   ('db, 'c, 'd) world \<Rightarrow> bytes set \<Rightarrow> ('db, 'c, 'd) world \<Rightarrow> bool"
  for Q B R contents depth where
  block: "fill (of_nat (length c)) hash nbytes b = Inr p \<Longrightarrow> block_valid (p_store S) c b saveUndo \<Longrightarrow> length (vtx b) < 2 ^ 32 \<Longrightarrow>
     block_meets T (vtx b) \<Longrightarrow> index_addBlock R depth p saveUndo True track S = (Inr (Some n), S') \<Longrightarrow>
     index_step Q B R contents depth (S, c, T) (set (scriptHashesAffected n)) (S', c @ [block_entry b], T |` (- txid ` set (vtx b)))"
| undo: "c \<noteq> [] \<Longrightarrow> contents (s_undo (p_store S)) (height_key (of_nat (length c))) \<noteq> None \<Longrightarrow>
     index_undoLatestBlock Q B R True S = (Inr (k, Some n), S') \<Longrightarrow>
     index_step Q B R contents depth (S, c @ [blk], T) (set (scriptHashesAffected n)) (S', c, Map.empty)"
| arrive: "new_txs_ok (db_getter R (p_store S)) T ps \<Longrightarrow> mempool_ok (db_getter R (p_store S)) (T ++ new_txs ps) \<Longrightarrow> values_ok (new_txs ps) \<Longrightarrow>
     \<forall>h txo. (h, txo) \<in> spends (new_txs ps) \<longrightarrow> txo_isValid txo \<and> unat (outN txo) < 2 ^ 24 \<Longrightarrow>
     dom (new_txs ps) \<inter> set (chain_txs c) = {} \<Longrightarrow> addNewTxs (db_getter R (p_store S)) ps [] (p_mempool S) = Some (Inr (), s) \<Longrightarrow>
     index_step Q B R contents depth (S, c, T) (set (as_affected s)) (S\<lparr>p_mempool := as_m s\<rparr>, c, T ++ new_txs ps)"
| leave: "dropTxs [] txids (p_mempool S) = (m, dropped, A, D) \<Longrightarrow>
     index_step Q B R contents depth (S, c, T) (set A) (S\<lparr>p_mempool := m\<rparr>, c, T |` (- set dropped))"
| ask_history: "getHistory Q R maxHistory (p_store S) (p_mempool S) sh confirmed unconfirmed fromHeight optToHeight (lruNum2Hash S) = (items, ca) \<Longrightarrow>
     index_step Q B R contents depth (S, c, T) {} (S\<lparr>lruNum2Hash := ca\<rparr>, c, T)"
| ask_block: "txHashesForBlockInBitcoindMemoryOrder B R (p_store S) height (lruHeight2Hashes S) = (hashes, cb) \<Longrightarrow>
     index_step Q B R contents depth (S, c, T) {} (S\<lparr>lruHeight2Hashes := cb\<rparr>, c, T)"

inductive_cases index_stepE: "index_step Q B R contents depth (S, c, T) A w"

inductive index_run ::
  "('c, TxNum, bytes) qcache \<Rightarrow> ('d, BlockHeight, bytes list) qcache \<Rightarrow> 'db rocksdb \<Rightarrow> ('db \<Rightarrow> (bytes \<rightharpoonup> bytes)) \<Rightarrow> u32 \<Rightarrow>
   ('db, 'c, 'd) world \<Rightarrow> bytes set \<Rightarrow> ('db, 'c, 'd) world \<Rightarrow> bool"
  for Q B R contents depth where
  stop: "index_run Q B R contents depth w {} w"
| step: "index_run Q B R contents depth w A w' \<Longrightarrow> index_step Q B R contents depth w' A' w'' \<Longrightarrow> index_run Q B R contents depth w (A \<union> A') w''"

section \<open>Every event keeps the index right\<close>

definition index_good ::
  "'db rocksdb \<Rightarrow> ('db \<Rightarrow> (bytes \<rightharpoonup> bytes)) \<Rightarrow> ('c \<Rightarrow> (TxNum \<rightharpoonup> bytes)) \<Rightarrow> ('d \<Rightarrow> (BlockHeight \<rightharpoonup> bytes list)) \<Rightarrow> ('db, 'c, 'd) world \<Rightarrow> bool" where
  "index_good R contents cached blks_cached w \<longleftrightarrow> (case w of (S, c, T) \<Rightarrow> index_repr R contents cached blks_cached S c T \<and> blocks_small c)"

definition world_status :: "'db rocksdb \<Rightarrow> ('db, 'c, 'd) world \<Rightarrow> bytes \<Rightarrow> HistoryItem list" where
  "world_status R w = (case w of (S, c, T) \<Rightarrow> status_items c (db_getter R (p_store S)) T)"

lemma index_repr_mempool:
  assumes "index_repr R contents cached blks_cached S c T" "mempool_on R (p_store S) T' m" "dom T' \<inter> set (chain_txs c) = {}"
  shows "index_repr R contents cached blks_cached (S\<lparr>p_mempool := m\<rparr>) c T'"
  using assms by (simp add: index_repr_def)

context storage_laws
begin

lemma block_event:
  assumes "index_repr R contents cached blks_cached S c T" "fill (of_nat (length c)) hash nbytes b = Inr p" "block_valid (p_store S) c b saveUndo"
    and "block_meets T (vtx b)" "0 < sint depth"
  obtains n S' where "index_addBlock R depth p saveUndo True track S = (Inr (Some n), S')"
    "index_repr R contents cached blks_cached S' (c @ [block_entry b]) (T |` (- txid ` set (vtx b)))"
    "\<forall>sh. status_items c (db_getter R (p_store S)) T sh \<noteq> status_items (c @ [block_entry b]) (db_getter R (p_store S')) (T |` (- txid ` set (vtx b))) sh \<longrightarrow>
      sh \<in> set (scriptHashesAffected n)"
    "set (txidsAffected n) = txid ` set (tl (vtx b))" "set (recentBlockTxHashes S') = (if track then txid ` set (vtx b) else {})"
proof -
  obtain p' where p': "fill (of_nat (length c)) hash nbytes b = Inr p'" "block_accepted (p_store S) c p' (vtx b) saveUndo" "ppb_header p' = blk_header b"
    using block_filled[OF assms(3)] by blast
  then have "p' = p" using assms(2) by simp
  then have acc: "block_accepted (p_store S) c p (vtx b) saveUndo" and e: "(Serialize_CBlockHeader (ppb_header p), vtx b) = block_entry b"
    using p'(2,3) by (simp_all add: block_entry_def)
  show ?thesis using index_addBlock_ok[OF assms(1) acc assms(5,4), of track] that unfolding e by blast
qed

lemma arrive_event:
  assumes idx: "index_repr R contents cached blks_cached S c T" and new: "new_txs_ok (db_getter R (p_store S)) T ps"
    and ok: "mempool_ok (db_getter R (p_store S)) (T ++ new_txs ps)" and vals: "values_ok (new_txs ps)"
    and sp: "\<forall>h txo. (h, txo) \<in> spends (new_txs ps) \<longrightarrow> txo_isValid txo \<and> unat (outN txo) < 2 ^ 24"
    and disj: "dom (new_txs ps) \<inter> set (chain_txs c) = {}" and run: "addNewTxs (db_getter R (p_store S)) ps [] (p_mempool S) = Some (Inr (), s)"
  shows "index_repr R contents cached blks_cached (S\<lparr>p_mempool := as_m s\<rparr>) c (T ++ new_txs ps) \<and>
    set (as_affected s) = new_touched (db_getter R (p_store S)) (T ++ new_txs ps) ps"
proof -
  have on: "mempool_on R (p_store S) T (p_mempool S)" and d: "dom T \<inter> set (chain_txs c) = {}" using idx by (simp_all add: index_repr_def)
  have a: "mempool_inv (db_getter R (p_store S)) (T ++ new_txs ps) (as_m s)" "set (as_affected s) = new_touched (db_getter R (p_store S)) (T ++ new_txs ps) ps"
    using addNewTxs_ok[OF mempool_on_inv(1)[OF on] new ok, of "[]"] run by auto
  have split: "T h = Some x \<or> new_txs ps h = Some x" if "(T ++ new_txs ps) h = Some x" for h x using that by (auto simp: map_add_Some_iff)
  have "values_ok (T ++ new_txs ps)" using split vals mempool_on_inv(2)[OF on] unfolding values_ok_def by blast
  moreover have "txo_isValid txo \<and> unat (outN txo) < 2 ^ 24" if x: "(h, txo) \<in> spends (T ++ new_txs ps)" for h txo
  proof -
    have "(h, txo) \<in> spends T \<or> (h, txo) \<in> spends (new_txs ps)" using x split unfolding spends_def by blast
    then show ?thesis using sp on unfolding mempool_on_def by blast
  qed
  ultimately have "mempool_on R (p_store S) (T ++ new_txs ps) (as_m s)" using a(1) unfolding mempool_on_def by blast
  moreover have "dom (T ++ new_txs ps) \<inter> set (chain_txs c) = {}" using d disj by auto
  ultimately show ?thesis using index_repr_mempool[OF idx] a(2) by blast
qed

lemma leave_event:
  assumes idx: "index_repr R contents cached blks_cached S c T" and run: "dropTxs [] txids (p_mempool S) = (m, dropped, A, D)"
  shows "index_repr R contents cached blks_cached (S\<lparr>p_mempool := m\<rparr>) c (T |` (- set dropped)) \<and> down_closed T (set dropped) \<and>
    set A = touched_by (view_of (db_getter R (p_store S)) T) (set dropped)"
proof -
  have on: "mempool_on R (p_store S) T (p_mempool S)" and d: "dom T \<inter> set (chain_txs c) = {}" using idx by (simp_all add: index_repr_def)
  note a = dropTxs_ok[OF mempool_on_inv(1)[OF on] run]
  have K: "set dropped = (v_L (view_of (db_getter R (p_store S)) T))\<^sup>* `` set txids" using a by blast
  have "T |` (- set dropped) \<subseteq>\<^sub>m T" by (auto simp: map_le_def restrict_map_def)
  then have "mempool_on R (p_store S) (T |` (- set dropped)) m" using a by (intro mempool_on_shrink[OF on]) (simp_all add: K)
  moreover have "dom (T |` (- set dropped)) \<inter> set (chain_txs c) = {}" using d by auto
  ultimately have "index_repr R contents cached blks_cached (S\<lparr>p_mempool := m\<rparr>) c (T |` (- set dropped))" by (rule index_repr_mempool[OF idx])
  moreover have "down_closed T (set dropped)" unfolding K by (rule descendants_closed)
  moreover have "set A = touched_by (view_of (db_getter R (p_store S)) T) (set dropped)" using a by (simp add: K touched_by_def)
  ultimately show ?thesis by blast
qed

lemma index_step_ok:
  assumes "index_step Q B R contents depth w A w'" "0 < sint depth" "index_good R contents cached blks_cached w"
  shows "index_good R contents cached blks_cached w' \<and> (\<forall>sh. world_status R w sh \<noteq> world_status R w' sh \<longrightarrow> sh \<in> A)"
  using assms(1,3)
proof (induction rule: index_step.induct)
  case (block c hash nbytes b p S saveUndo T track n S')
  then have g: "index_repr R contents cached blks_cached S c T" "blocks_small c" by (simp_all add: index_good_def)
  have "blocks_small (c @ [block_entry b])" using g(2) block.hyps(3) by (auto simp: blocks_small_def block_entry_def)
  moreover obtain n1 S1 where r: "index_addBlock R depth p saveUndo True track S = (Inr (Some n1), S1)"
      "index_repr R contents cached blks_cached S1 (c @ [block_entry b]) (T |` (- txid ` set (vtx b)))"
      "\<forall>sh. status_items c (db_getter R (p_store S)) T sh \<noteq>
        status_items (c @ [block_entry b]) (db_getter R (p_store S1)) (T |` (- txid ` set (vtx b))) sh \<longrightarrow> sh \<in> set (scriptHashesAffected n1)"
    by (rule block_event[OF g(1) block.hyps(1,2,4) assms(2), of track]) (rule that)
  moreover have "n1 = n" "S1 = S'" using r(1) block.hyps(5) by simp_all
  ultimately show ?case unfolding index_good_def world_status_def prod.case by simp
next
  case (undo c S k n S' blk T)
  then have g: "index_repr R contents cached blks_cached S (c @ [(fst blk, snd blk)]) T" "blocks_small c" "length (snd blk) < 2 ^ 32"
    by (auto simp: index_good_def blocks_small_def)
  from index_undo_ok[OF g(1) undo.hyps(1) g(3) undo.hyps(2)] undo.hyps(3) show ?case
    unfolding index_good_def world_status_def prod.case prod.collapse using g(2) by auto
next
  case (arrive S T ps c s)
  then have g: "index_repr R contents cached blks_cached S c T" "blocks_small c" by (simp_all add: index_good_def)
  have ok: "mempool_ok (db_getter R (p_store S)) T" using g(1) by (simp add: index_repr_def mempool_on_def mempool_inv_def)
  note a = arrive_event[OF g(1) arrive.hyps]
  have "status_items c (db_getter R (p_store S)) T sh = status_items c (db_getter R (p_store S)) (T ++ new_txs ps) sh" if "sh \<notin> set (as_affected s)" for sh
    using unconfirmed_items_add[OF ok arrive.hyps(1,2), of sh] that a by (simp add: status_items_def)
  then show ?case using a g(2) by (auto simp: index_good_def world_status_def)
next
  case (leave txids S m dropped A D c T)
  then have g: "index_repr R contents cached blks_cached S c T" "blocks_small c" by (simp_all add: index_good_def)
  have ok: "mempool_ok (db_getter R (p_store S)) T" using g(1) by (simp add: index_repr_def mempool_on_def mempool_inv_def)
  note a = leave_event[OF g(1) leave.hyps]
  have "status_items c (db_getter R (p_store S)) T sh = status_items c (db_getter R (p_store S)) (T |` (- set dropped)) sh" if "sh \<notin> set A" for sh
    using unconfirmed_items_drop[OF ok, of "set dropped" sh] that a by (simp add: status_items_def)
  then show ?case using a g(2) by (auto simp: index_good_def world_status_def)
next
  case (ask_history maxHistory S sh ic iu f t items ca c T)
  then have g: "index_repr R contents cached blks_cached S c T" "blocks_small c" by (simp_all add: index_good_def)
  have r: "store_repr contents (p_store S) c" "mempool_inv (db_getter R (p_store S)) T (p_mempool S)" "num.coherent (num_hash c) (lruNum2Hash S)"
    using g(1) by (simp_all add: index_repr_def mempool_on_def num.coherent_def)
  have "cached ca \<subseteq>\<^sub>m num_hash c"
  proof (cases "length sh = HashLen")
    case True
    then show ?thesis using getHistory_ok[OF r(1) g(2) r(2,3) True, of maxHistory ic iu f t] ask_history.hyps by (auto simp: num.coherent_def)
  next
    case False
    then have "ca = lruNum2Hash S" using ask_history.hyps by (simp add: getHistory_def)
    then show ?thesis using g(1) by (simp add: index_repr_def)
  qed
  then show ?case using g by (simp add: index_good_def index_repr_def world_status_def)
next
  case (ask_block S height hashes cb c T)
  then have g: "index_repr R contents cached blks_cached S c T" "blocks_small c" by (simp_all add: index_good_def)
  have r: "store_repr contents (p_store S) c" "blk.coherent (block_hashes c) (lruHeight2Hashes S)" using g(1) by (simp_all add: index_repr_def blk.coherent_def)
  have "blks_cached cb \<subseteq>\<^sub>m block_hashes c" using txHashesForBlock_ok[OF r(1) g(2) r(2), of height] ask_block.hyps by (auto simp: blk.coherent_def)
  then show ?case using g by (simp add: index_good_def index_repr_def world_status_def)
qed

lemma index_run_ok:
  assumes "index_run Q B R contents depth w A w'" "0 < sint depth" "index_good R contents cached blks_cached w"
  shows "index_good R contents cached blks_cached w' \<and> (\<forall>sh. world_status R w sh \<noteq> world_status R w' sh \<longrightarrow> sh \<in> A)"
  using assms(1,3)
proof (induction rule: index_run.induct)
  case (step w A w' A' w'')
  have g: "index_good R contents cached blks_cached w'" "\<forall>sh. world_status R w sh \<noteq> world_status R w' sh \<longrightarrow> sh \<in> A" using step.IH[OF step.prems] by blast+
  show ?case using index_step_ok[OF step.hyps(2) assms(2) g(1)] g(2) by (metis UnCI)
qed simp

end

section \<open>Properties\<close>

text \<open>C3: A block on the whole index. If the database represents a chain and the mempool a set of unconfirmed transactions on top of it, adding a
  block that follows the chain (and does not conflict with the transactions that stay in the mempool) succeeds and leaves a database that
  represents the longer chain, a mempool that represents the transactions the block does not have, and caches that are still right. Every script
  hash whose history, confirmed and unconfirmed together, is different afterwards is reported to the subscribers, and so are exactly the block's
  transactions but the coinbase; the recently seen transactions are those of the block if they are tracked.\<close>

theorem index_add_block_correct:
  assumes "storage_laws R contents Q cached B blks_cached seek" and "index_repr R contents cached blks_cached S c T"
    and "block_valid (p_store S) c b saveUndo" "block_meets T (vtx b)" "0 < sint depth"
  defines "c' \<equiv> c @ [block_entry b]" and "T' \<equiv> T |` (- txid ` set (vtx b))"
  shows "\<exists>p n S'. fill (of_nat (length c)) hash nbytes b = Inr p \<and> index_addBlock R depth p saveUndo True track S = (Inr (Some n), S') \<and>
    index_repr R contents cached blks_cached S' c' T' \<and>
    (\<forall>sh. status_items c (db_getter R (p_store S)) T sh \<noteq> status_items c' (db_getter R (p_store S')) T' sh \<longrightarrow> sh \<in> set (scriptHashesAffected n)) \<and>
    set (txidsAffected n) = txid ` set (tl (vtx b)) \<and> set (recentBlockTxHashes S') = (if track then txid ` set (vtx b) else {})"
proof -
  obtain p where p: "fill (of_nat (length c)) hash nbytes b = Inr p" using block_filled[OF assms(3)] by blast
  show ?thesis unfolding c'_def T'_def
    by (rule storage_laws.block_event[OF assms(1,2) p assms(3,4,5), of track]) (intro exI conjI, rule p, assumption+)
qed

definition demo_index :: "'db Store \<Rightarrow> Mempool \<Rightarrow> ('db, (TxNum, bytes) lru, (BlockHeight, bytes list) lru) Index" where
  "demo_index st m = \<lparr> p_store = st, p_mempool = m, recentBlockTxHashes = [], lruNum2Hash = demo_cache, lruHeight2Hashes = demo_cache \<rparr>"

lemma demo_index_repr:
  "\<exists>st m. index_repr fm_rocksdb fmlookup lru_cached lru_cached (demo_index st m) demo_one demo_pool \<and> block_valid st demo_one demo_block2 True"
proof -
  obtain st where st: "store_repr fmlookup st demo_one" "headerRecSz (s_hdr st) = 164" using demo_store1 unfolding demo_one_def by blast
  obtain m where m: "mempool_on fm_rocksdb st demo_pool m" using demo_mempool[OF st(1)] by blast
  have "dom demo_pool \<inter> set (chain_txs demo_one) = {}" using demo_h_prev(3) by (simp add: demo_pool_def)
  then have "index_repr fm_rocksdb fmlookup lru_cached lru_cached (demo_index st m) demo_one demo_pool"
    using st(1) m by (simp add: index_repr_def demo_index_def demo_facts(1))
  moreover have "block_valid st demo_one demo_block2 True" using demo_block2_add[OF st[unfolded demo_one_def]] by (simp add: demo_one_def)
  ultimately show ?thesis by blast
qed

lemma demo_other: "replicate 32 (3 :: byte) \<noteq> demo_h 9"
proof -
  have "replicate 32 b \<noteq> replicate 32 (9 :: byte)" if "b \<noteq> 9" for b using that by (simp add: numeral_eq_Suc)
  then show ?thesis unfolding demo_h_def by simp
qed

lemma demo_meets: "block_meets demo_pool (vtx demo_block2)"
proof -
  have "TXO (replicate 32 1) 0 \<noteq> TXO (replicate 32 0) n" for n :: IONum by (simp add: numeral_eq_Suc)
  then show ?thesis using demo_other demo_pool_spends
    by (auto simp: block_meets_def demo_block2_def demo_txs2_def demo_txs_def demo_pool_def prev_txo_def demo_prev_def Hash2ByteArrayRev_def COutPoint_default_def)
qed

theorem index_add_block_correct_witness:
  "\<exists>st m p n S'. fill 1 [] 300 demo_block2 = Inr p \<and> index_addBlock fm_rocksdb 100 p True True True (demo_index st m) = (Inr (Some n), S') \<and>
     index_repr fm_rocksdb fmlookup lru_cached lru_cached S' (demo_one @ [block_entry demo_block2]) demo_pool"
proof -
  obtain st m where s: "index_repr fm_rocksdb fmlookup lru_cached lru_cached (demo_index st m) demo_one demo_pool" "block_valid st demo_one demo_block2 True"
    using demo_index_repr by blast
  have v: "block_valid (p_store (demo_index st m)) demo_one demo_block2 True" using s(2) by (simp add: demo_index_def)
  have d: "0 < sint (100 :: u32)" by simp
  have "demo_pool |` (- txid ` set (vtx demo_block2)) = demo_pool"
    using demo_other by (auto simp: demo_pool_def demo_block2_def demo_txs2_def demo_txs_def Hash2ByteArrayRev_def restrict_map_def fun_eq_iff)
  moreover have "of_nat (length demo_one) = (1 :: BlockHeight)" by (simp add: demo_one_def)
  ultimately show ?thesis using index_add_block_correct[OF fmq.storage_laws_axioms s(1) v demo_meets d, of "[]" 300 True] by metis
qed



end
