(* ===== verification/Spec2Isabelle.thy ===== *)
theory Spec2Isabelle
  imports VarInt_Codec Merkle_Tree Serialization Record_Array Crypto_Hash String_Encodings Block_Header Header_Storage Streams
    Packed_Num Storage_Codecs Transactions Chain_Sync Rpa DSProof Mempool_Properties Index_Properties
begin

text \<open>
  A verification development of Shulcrum, an Electrum server (a fork of Fulcrum) that keeps an index of a
  Bitcoin-like block chain in RocksDB and serves it to wallets. The chain's headers come in two layouts: 80 bytes hashed
  with double SHA-256, and, from an activation height on, 164 bytes hashed with BLAKE2b.

  \<^bold>\<open>The program and the theories.\<close> Sources are under \<open>src/src/\<close>.

  \<^item> \<open>Fulcrum_Prelude\<close>: bytes, words and their little- and big-endian encodings, results (\<open>Inl\<close> is an exception), parsers,
    the locales \<open>codec\<close> and \<open>canonical_codec\<close> that every wire format interprets, and shared list and word lemmas.
  \<^item> \<open>VarInt_Codec\<close> (\<open>VarInt.h\<close>), \<open>Packed_Num\<close> (\<open>PackedNumView.h\<close>), \<open>Txo_Codec\<close> (\<open>TXO.h\<close>, \<open>TXO_Compact.h\<close>): the
    compact encodings of the database.
  \<^item> \<open>Serialization\<close> (\<open>bitcoin/serialize.h\<close>), \<open>Streams\<close> (\<open>bitcoin/streams.h\<close>), \<open>String_Encodings\<close>
    (\<open>utilstrencodings\<close>, \<open>uint256\<close>): the wire formats and the byte, bit and file streams.
  \<^item> \<open>Crypto_Hash\<close> (\<open>crypto/sha256\<close>, \<open>crypto/blake2b\<close>, \<open>hash.h\<close>): the hash functions with their streaming interfaces.
  \<^item> \<open>Block_Header\<close> (\<open>bitcoin/block\<close>, \<open>block_pow_v2.cpp\<close>, \<open>BTC_HeaderV2.cpp\<close>), \<open>Token_Data\<close> (\<open>bitcoin/token\<close>),
    \<open>Transactions\<close> (\<open>bitcoin/transaction\<close>, \<open>litecoin_bits.h\<close>, \<open>CBlock\<close>): the chain's data.
  \<^item> \<open>Merkle_Tree\<close> (\<open>Merkle\<close>): merkle branches and the cache of header hashes.
  \<^item> \<open>Record_Array\<close> (\<open>Storage/DBRecordArray\<close>, \<open>ConcatOperator\<close>): an array of fixed-size records in buckets of rows. RocksDB is
    the parameter \<open>R\<close> of all functions that use it; the locale \<open>rocksdb_laws\<close> states what its documentation
    promises (reads see the last write, a batch is applied in order, \<open>Merge\<close> uses the registered operator), and it is
    interpreted on finite maps. That a write fails or a column family is set up wrongly are the fields \<open>db_WriteError\<close> and
    \<open>db_ColumnError\<close> of \<open>R\<close>: the functions branch on them, and the laws are those of a database where both are \<open>None\<close>.
  \<^item> \<open>Header_Storage\<close> (\<open>BTC.h\<close> and the header functions of \<open>Storage.cpp\<close>): the header verifier, header rows, the
    activation height, startup, merkle proofs for headers.
  \<^item> \<open>Storage_Codecs\<close>, \<open>Db_Access\<close>, \<open>Tx_Index\<close>, \<open>Utxo_Set\<close>, \<open>Block_Storage\<close> (\<open>Storage.cpp\<close>) and \<open>Block_Preprocess\<close>
    (\<open>BlockProc\<close>): the values of the database, reads, the transaction-hash index, the UTXO set, and \<open>addBlock\<close> and
    \<open>undoLatestBlock\<close> over all column families but that of the RPA index. The state is the record \<open>Store\<close>; the effects are explicit: a function
    of the monad \<open>eff\<close> returns its result or exception together with the state reached.
  \<^item> \<open>Ledger\<close> is the abstract specification: what a chain of blocks means (the transactions in order, the unspent
    outputs, the history of each script hash, the extent of each block). \<open>Storage_Refinement\<close>, \<open>Storage_Blocks\<close> and
    \<open>Storage_Correct\<close> relate the tables to it by \<open>store_repr\<close>, and \<open>Storage_Properties\<close> states the results.
  \<^item> \<open>Chain_Sync\<close> (\<open>Controller.cpp\<close>): the state machine that follows bitcoind. Its handlers are functions on the record
    \<open>Controller\<close>, which holds the machine and the \<open>Store\<close>; the step relation \<open>sync_step\<close> lets events arrive in any order.

  \<^item> \<open>Hash_Containers\<close>: maps as association lists, for the components that live in memory. \<open>DSProof\<close> (\<open>DSProof\<close>): the index of
    double-spend proofs. \<open>Rpa\<close> (\<open>Rpa\<close>, and the part of \<open>BlockProc.cpp\<close> that fills it): the prefix tables of blocks and of the
    mempool; the compression functions of Qt are the parameters \<open>compress\<close> and \<open>uncompress\<close>.

  \<^item> \<open>Mempool\<close> (\<open>Mempool\<close>): the unconfirmed transactions. The shared transaction objects live in the table \<open>txs\<close> and references are
    hashes. \<open>Mempool_View\<close> says what the tables hold for a given set of transactions (\<open>view\<close>), \<open>Mempool_Dsp\<close>, \<open>Mempool_Add\<close>,
    \<open>Mempool_Add_Dsp\<close> and \<open>Mempool_Added\<close> prove adding, \<open>Mempool_Remove\<close>, \<open>Mempool_Drop\<close> and \<open>Mempool_Confirm\<close> dropping and confirming, and
    \<open>Mempool_Properties\<close> states the results.
  \<^item> \<open>Cost_Cache\<close> (\<open>CostCache.h\<close>): the caches of the storage layer. Qt's \<open>QCache\<close> is the parameter \<open>Q\<close>; the locale \<open>qcache_laws\<close>
    states that it only returns what was inserted and may forget anything, and is interpreted on an LRU list.
  \<^item> \<open>Storage_Queries\<close> (the queries of \<open>Storage.cpp\<close>): history, unspent outputs, balance, single outputs, heights and
    positions. The iterator of RocksDB is the parameter \<open>seek\<close>. \<open>Query_Layout\<close> relates transaction numbers, heights and positions and
    has the locale \<open>storage_laws\<close>, which puts the laws of RocksDB, the iterator and the caches together and is interpreted on
    finite maps and LRU lists; \<open>Query_History\<close>, \<open>Query_Unspent\<close>, \<open>Query_Balance\<close>, \<open>Query_Lookup\<close> and \<open>Query_First_Use\<close> prove the queries
    correct for a store that represents a chain with a mempool on top of it, and \<open>Query_Properties\<close> states the results. \<open>Query_First_Use\<close>
    has the specification of the first payment to a script hash and shows that it is the head of the history when blocks list parents first.
  \<^item> \<open>Index_State\<close> (\<open>Storage::Pvt\<close> and all of \<open>addBlock\<close> and \<open>undoLatestBlock\<close> but the RPA index): the record \<open>Index\<close> puts the
    \<open>Store\<close>, the \<open>Mempool\<close>, the recently seen transactions and the two caches together; the two functions also return the sets that go
    to the subscription managers (\<open>NotifyData\<close>). \<open>Index_Confirm\<close> shows that the block's transactions leave the mempool rightly,
    \<open>Index_Blocks\<close> what a block does to histories and caches, and \<open>Index_Properties\<close> has the step relation \<open>index_step\<close> (blocks added
    and undone, transactions arriving and dropped, queries that fill the caches) and the results. A block is assumed to meet the mempool
    as bitcoind's do (\<open>block_meets\<close>: the transactions it conflicts with have been dropped), and the steps are the completed operations: an
    \<open>addBlock\<close> that fails on its header after it has updated the mempool is not one of them.

  \<^bold>\<open>What the theorems show.\<close> A store that represents a chain represents the longer chain after \<open>addBlock\<close> and the
  shorter one after \<open>undoLatestBlock\<close>. On top of that, the synchronisation is safe for every order of
  events (the store always represents a chain of bitcoind's tree) and converges, through reorganisations, when bitcoind's chain
  stays the same. The mempool's tables represent its set of transactions after every addition, drop, confirmation and clearing. Every query answers from
  the two what the chain and the mempool together say, within its limits on the number of items. Database, mempool and caches stay in agreement through every
  sequence of events, and every script hash whose history changes is reported to the subscribers. Below that, every layer has its
  own contract: each wire format reads back exactly what it writes and rejects everything else, record arrays refine
  lists, the index and the merkle cache are transparent, the hash functions agree with their specifications for every way the
  data is fed to them, the header chain's state machine keeps its invariant.

  \<^bold>\<open>Conventions.\<close> Machine integers keep their width as words where arithmetic can wrap; positions in vectors are natural
  numbers. Loops are structurally recursive or have a termination proof, so no fuel is used; the one loop whose end depends on an
  invariant (\<open>dsp_loop\<close>) is a partial function, proved to return. Locks
  are left out: the operations that change state hold theirs from start to end, and each operation is modelled as one step. (The guard in
  \<open>txHashesForBlockInBitcoindMemoryOrder\<close> is a temporary that is released at once, so for it this is the sequential behaviour only.) Log
  output, timing and memory estimates have no effect on the results and are left out.

  \<^bold>\<open>Not modelled.\<close> The network layer (\<open>Servers\<close>, \<open>RPC\<close>, \<open>WebSocket\<close>, \<open>PeerMgr\<close>, \<open>BitcoinD\<close>, \<open>ServerMisc\<close>,
  SSL, UPnP, ZMQ) is event-driven I/O around Qt; configuration and start-up (\<open>App\<close>, \<open>Options\<close>, \<open>Logger\<close>); the
  subscription managers; the column family of the RPA index in \<open>addBlock\<close> and \<open>undoLatestBlock\<close>, with the flag in the meta family
  that belongs to it; JSON (simdjson and its wrapper), the vendored hash map, secp256k1,
  the script interpreter, AES and the RocksDB headers, which are third-party code.
\<close>

end
